(* ===== verification/Prelude.thy ===== *)
theory Prelude
  imports Main "HOL-Library.Word" "HOL-Library.Monad_Syntax" "HOL-Library.Multiset"
begin

text \<open>
  The vocabulary every component theory shares.

  A C function that can abort is modelled by a function into \<open>'a option\<close>: \<open>None\<close> is a run that
  does not return normally, because a \<open>REQUIRE\<close>, \<open>INSIST\<close>, \<open>RUNTIME_CHECK\<close> or \<open>assert\<close> fails or
  because the code would read or write outside the object it was given; \<open>Some r\<close> is a normal
  return. Recoverable errors are not \<open>None\<close>: they are values of \<open>isc_result\<close>, as in the source.
  The do-notation of \<open>Monad_Syntax\<close> sequences such computations.

  Memory objects are byte lists; \<open>mem_read\<close> and \<open>mem_write\<close> are the checked accesses
  (\<open>memcpy\<close>, array reads and writes), with the lemmas that relate them.
\<close>

unbundle bit_operations_syntax

type_synonym u8 = "8 word"
type_synonym u16 = "16 word"
type_synonym u32 = "32 word"
type_synonym u64 = "64 word"
type_synonym bytes = "u8 list"

named_theorems mem_simps "rules for checked memory accesses"
named_theorems run_simps "rules that decompose successful runs"

subsection \<open>Aborting computations\<close>

definition REQUIRE :: "bool \<Rightarrow> unit option" where
  "REQUIRE c = (if c then Some () else None)"

lemma REQUIRE_simps [simp]:
  "REQUIRE True = Some ()"
  "REQUIRE False = None"
  by (simp_all add: REQUIRE_def)

lemma REQUIRE_eq_Some [simp]: "REQUIRE c = Some u \<longleftrightarrow> c"
  by (cases c) simp_all

lemma REQUIRE_eq_None [simp]: "REQUIRE c = None \<longleftrightarrow> \<not> c"
  by (cases c) simp_all

lemma bind_REQUIRE_True [run_simps]: "c \<Longrightarrow> Option.bind (REQUIRE c) f = f ()"
  by simp

lemma bind_REQUIRE_eq_Some [run_simps]:
  "Option.bind (REQUIRE c) f = Some r \<longleftrightarrow> c \<and> f () = Some r"
  by (cases c) simp_all

lemma bind_REQUIRE_eq_None [run_simps]:
  "Option.bind (REQUIRE c) f = None \<longleftrightarrow> \<not> c \<or> f () = None"
  by (cases c) simp_all

lemma bind_SomeE:
  assumes "Option.bind m f = Some r"
  obtains x where "m = Some x" and "f x = Some r"
  using assms by (cases m) auto

subsection \<open>Checked memory\<close>

definition mem_read :: "'a list \<Rightarrow> nat \<Rightarrow> nat \<Rightarrow> 'a list option" where
  "mem_read m off n = (if off + n \<le> length m then Some (take n (drop off m)) else None)"

definition mem_write :: "'a list \<Rightarrow> nat \<Rightarrow> 'a list \<Rightarrow> 'a list option" where
  "mem_write m off xs =
     (if off + length xs \<le> length m
      then Some (take off m @ xs @ drop (off + length xs) m) else None)"

lemma mem_read_Some [mem_simps]:
  "off + n \<le> length m \<Longrightarrow> mem_read m off n = Some (take n (drop off m))"
  by (simp add: mem_read_def)

lemma mem_read_eq_Some:
  "mem_read m off n = Some xs \<longleftrightarrow> off + n \<le> length m \<and> xs = take n (drop off m)"
  by (auto simp: mem_read_def)

lemma mem_write_Some [mem_simps]:
  "off + length xs \<le> length m \<Longrightarrow>
   mem_write m off xs = Some (take off m @ xs @ drop (off + length xs) m)"
  by (simp add: mem_write_def)

lemma mem_write_eq_Some:
  "mem_write m off xs = Some m' \<longleftrightarrow>
     off + length xs \<le> length m \<and> m' = take off m @ xs @ drop (off + length xs) m"
  by (auto simp: mem_write_def)

lemma mem_write_eq_None:
  "mem_write m off xs = None \<longleftrightarrow> length m < off + length xs"
  by (auto simp: mem_write_def)

lemma length_mem_write: "mem_write m off xs = Some m' \<Longrightarrow> length m' = length m"
  by (auto simp: mem_write_eq_Some)

lemma mem_read_same [mem_simps]:
  assumes "mem_write m off xs = Some m'"
  shows "mem_read m' off (length xs) = Some xs"
  using assms by (auto simp: mem_write_eq_Some mem_read_eq_Some)

lemma take_mem_write:
  "mem_write m off xs = Some m' \<Longrightarrow> k \<le> off \<Longrightarrow> take k m' = take k m"
  by (auto simp: mem_write_eq_Some min_def)

lemma drop_mem_write:
  "mem_write m off xs = Some m' \<Longrightarrow> off + length xs \<le> k \<Longrightarrow> drop k m' = drop k m"
  by (auto simp: mem_write_eq_Some)

lemma nth_mem_write:
  assumes "mem_write m off xs = Some m'" and "i < length m"
  shows "m' ! i = (if off \<le> i \<and> i < off + length xs then xs ! (i - off) else m ! i)"
  using assms by (auto simp: mem_write_eq_Some nth_append)

lemma mem_read_before:
  assumes "mem_write m off xs = Some m'" and "o2 + n \<le> off"
  shows "mem_read m' o2 n = mem_read m o2 n"
proof -
  have "take n (drop o2 m') = drop o2 (take (o2 + n) m')" by (simp add: drop_take)
  also have "\<dots> = drop o2 (take (o2 + n) m)" using take_mem_write assms by metis
  finally show ?thesis
    using length_mem_write [OF assms(1)] by (simp add: mem_read_def drop_take)
qed

lemma mem_read_after:
  assumes "mem_write m off xs = Some m'" and "off + length xs \<le> o2"
  shows "mem_read m' o2 n = mem_read m o2 n"
  using drop_mem_write [OF assms] length_mem_write [OF assms(1)] by (simp add: mem_read_def)

subsection \<open>32-bit words\<close>

lemma flip_sign_bit: "(b::u32) XOR 0x80000000 = b + 0x80000000"
proof -
  have "b XOR 0x80000000 = flip_bit 31 b" by (simp add: flip_bit_def)
  also have "\<dots> = b + 0x80000000"
    by (simp add: flip_bit_eq_if set_bit_eq unset_bit_eq)
  finally show ?thesis .
qed

lemma unat_u32_less: "unat (w::u32) < 2 ^ 32"
  using unsigned_less [of w, where 'a = nat] by simp

lemma sint_u32:
  "sint (w::u32) = (if unat w < 2 ^ 31 then int (unat w) else int (unat w) - 2 ^ 32)"
proof -
  have e: "sint w = (int (unat w) + 2 ^ 31) mod 2 ^ 32 - 2 ^ 31"
    by (simp add: sint_uint signed_take_bit_eq_take_bit_shift take_bit_eq_mod)
  show ?thesis
  proof (cases "unat w < 2 ^ 31")
    case True
    then show ?thesis using e by (simp add: mod_pos_pos_trivial del: of_nat_unat)
  next
    case False
    have "(int (unat w) + 2 ^ 31) mod 2 ^ 32 = (int (unat w) + 2 ^ 31 - 2 ^ 32) mod 2 ^ 32"
      by (rule minus_mod_self2 [symmetric])
    also have "\<dots> = int (unat w) + 2 ^ 31 - 2 ^ 32"
      using False unat_u32_less [of w] by (intro mod_pos_pos_trivial) (auto simp del: of_nat_unat)
    finally show ?thesis using e False by simp
  qed
qed

lemma unat_plus_of_nat: "unat (a::u32) + n < 2 ^ 32 \<Longrightarrow> unat (a + of_nat n) = unat a + n"
  by (simp add: unat_word_ariths unat_of_nat take_bit_eq_mod mod_simps)

lemma unat_plus_small: "unat (a::u32) + unat b < 2 ^ 32 \<Longrightarrow> unat (a + b) = unat a + unat b"
  by (simp add: unat_word_ariths)

lemma unat_minus_le: "unat (b::u32) \<le> unat a \<Longrightarrow> unat (a - b) = unat a - unat b"
  by (simp add: unat_sub_if')

lemma unat_of_nat_small: "n < 2 ^ 32 \<Longrightarrow> unat (of_nat n :: u32) = n"
  by (simp add: unat_of_nat take_bit_nat_eq_self)

subsection \<open>Network byte order\<close>

text \<open>The two directions as the C code writes them: masks and shifts when storing, shifts and
  bitwise or when loading.\<close>

definition be16 :: "u16 \<Rightarrow> bytes" where
  "be16 v = [ucast (drop_bit 8 (v AND 0xff00)), ucast (v AND 0x00ff)]"

definition be32 :: "u32 \<Rightarrow> bytes" where
  "be32 v = [ucast (drop_bit 24 (v AND 0xff000000)), ucast (drop_bit 16 (v AND 0x00ff0000)),
             ucast (drop_bit 8 (v AND 0x0000ff00)), ucast (v AND 0x000000ff)]"

definition of_be16 :: "u8 \<Rightarrow> u8 \<Rightarrow> u16" where
  "of_be16 a b = push_bit 8 (ucast a) OR ucast b"

definition of_be32 :: "u8 \<Rightarrow> u8 \<Rightarrow> u8 \<Rightarrow> u8 \<Rightarrow> u32" where
  "of_be32 a b c d =
     push_bit 24 (ucast a) OR push_bit 16 (ucast b) OR push_bit 8 (ucast c) OR ucast d"

lemma length_be16 [simp]: "length (be16 v) = 2"
  by (simp add: be16_def)

lemma length_be32 [simp]: "length (be32 v) = 4"
  by (simp add: be32_def)

lemma mask_literals:
  "(0xff00::u16) = push_bit 8 (mask 8)" "(0xff::u16) = mask 8"
  "(0xff000000::u32) = push_bit 24 (mask 8)" "(0x00ff0000::u32) = push_bit 16 (mask 8)"
  "(0x0000ff00::u32) = push_bit 8 (mask 8)" "(0xff::u32) = mask 8"
  by (simp_all add: mask_eq_exp_minus_1 push_bit_eq_mult)

lemma u8_high_bit: "8 \<le> n \<Longrightarrow> \<not> bit (b::u8) n"
  using bit_imp_le_length [of b n] by auto

lemma of_be16_be16:
  "of_be16 (ucast (drop_bit 8 (v AND 0xff00))) (ucast (v AND 0x00ff)) = v"
  unfolding of_be16_def mask_literals by (rule bit_word_eqI) (auto simp: bit_simps)

lemma of_be32_be32:
  "of_be32 (ucast (drop_bit 24 (v AND 0xff000000))) (ucast (drop_bit 16 (v AND 0x00ff0000)))
     (ucast (drop_bit 8 (v AND 0x0000ff00))) (ucast (v AND 0x000000ff)) = v"
  unfolding of_be32_def mask_literals
  apply (rule bit_word_eqI)
  subgoal for n
    by (cases "n < 8"; cases "n < 16"; cases "n < 24") (auto simp: bit_simps not_less)
  done

lemma be16_of_be16: "be16 (of_be16 a b) = [a, b]"
  unfolding be16_def of_be16_def mask_literals
  by (auto intro!: bit_word_eqI simp: bit_simps u8_high_bit)

lemma be32_of_be32: "be32 (of_be32 a b c d) = [a, b, c, d]"
  unfolding be32_def of_be32_def mask_literals
  by (auto intro!: bit_word_eqI simp: bit_simps u8_high_bit)

subsection \<open>Result codes\<close>

text \<open>The result codes of \<open>lib/isc/include/isc/result.h\<close> and
  \<open>lib/dns/include/dns/result.h\<close> that the modelled functions return.\<close>

datatype isc_result =
    ISC_R_SUCCESS | ISC_R_NOMEMORY | ISC_R_NOSPACE | ISC_R_UNEXPECTEDEND | ISC_R_FAILURE | ISC_R_UNEXPECTED
  | ISC_R_RANGE | ISC_R_EXISTS | ISC_R_QUOTA | ISC_R_NOTFOUND
  | ISC_R_BADBASE64 | ISC_R_BADHEX | ISC_R_BADBASE32
  | DNS_R_BADLABELTYPE | DNS_R_DISALLOWED | DNS_R_BADPOINTER | DNS_R_NAMETOOLONG
  | DNS_R_EMPTYLABEL | DNS_R_LABELTOOLONG | DNS_R_BADESCAPE

end
