(* ===== verification/Isc_Serial.thy ===== *)
theory Isc_Serial
  imports Prelude
begin

text \<open>
  Serial number arithmetic (\<open>lib/isc/serial.c\<close>) and the choice of the next SOA serial
  (\<open>dns_update_soaserial\<close> of \<open>lib/dns/update.c\<close>). The comparisons are stated on the 32-bit words
  the code computes with; the lemmas reduce them to the forward distance between two serials,
  the form in which RFC 1982 defines them.
\<close>

section \<open>Comparisons\<close>

definition isc_serial_lt :: "u32 \<Rightarrow> u32 \<Rightarrow> bool" where
  "isc_serial_lt a b = (if a = b XOR 0x80000000 then False else sint (a - b) < 0)"

definition isc_serial_gt :: "u32 \<Rightarrow> u32 \<Rightarrow> bool" where
  "isc_serial_gt a b = (sint (a - b) > 0)"

definition isc_serial_le :: "u32 \<Rightarrow> u32 \<Rightarrow> bool" where
  "isc_serial_le a b = (if a = b then True else isc_serial_lt a b)"

definition isc_serial_ge :: "u32 \<Rightarrow> u32 \<Rightarrow> bool" where
  "isc_serial_ge a b = (if a = b then True else isc_serial_gt a b)"

definition isc_serial_eq :: "u32 \<Rightarrow> u32 \<Rightarrow> bool" where
  "isc_serial_eq a b = (a = b)"

definition isc_serial_ne :: "u32 \<Rightarrow> u32 \<Rightarrow> bool" where
  "isc_serial_ne a b = (a \<noteq> b)"

section \<open>Forward distance\<close>

lemma unat_neg_diff: "(a::u32) \<noteq> b \<Longrightarrow> unat (b - a) = 2 ^ 32 - unat (a - b)"
  using unat_u32_less [of a] unat_u32_less [of b] by (auto simp: unat_sub_if' word_unat_eq_iff)

lemma antipode_iff: "(a::u32) = b XOR 0x80000000 \<longleftrightarrow> unat (a - b) = 2 ^ 31"
proof -
  have "a = b XOR 0x80000000 \<longleftrightarrow> a - b = 0x80000000"
    unfolding flip_sign_bit by (metis add.commute diff_add_cancel add_diff_cancel_right')
  also have "\<dots> \<longleftrightarrow> unat (a - b) = 2 ^ 31"
    by (simp add: word_unat_eq_iff)
  finally show ?thesis .
qed

lemma serial_gt_dist: "isc_serial_gt a b \<longleftrightarrow> 0 < unat (a - b) \<and> unat (a - b) < 2 ^ 31"
  using unat_u32_less [of "a - b"] by (auto simp: isc_serial_gt_def sint_u32 simp del: of_nat_unat)

lemma serial_lt_dist: "isc_serial_lt a b \<longleftrightarrow> 0 < unat (b - a) \<and> unat (b - a) < 2 ^ 31"
proof (cases "a = b")
  case True
  then show ?thesis by (simp add: isc_serial_lt_def)
next
  case False
  then have "unat (a - b) = 2 ^ 32 - unat (b - a)" and "0 < unat (b - a)"
    using unat_neg_diff [of b a] by (auto simp: unat_gt_0)
  then show ?thesis
    using unat_u32_less [of "b - a"] antipode_iff [of a b]
    by (auto simp: isc_serial_lt_def sint_u32 simp del: of_nat_unat)
qed

lemma serial_gt_swap: "isc_serial_gt a b \<longleftrightarrow> isc_serial_lt b a"
  by (simp add: serial_gt_dist serial_lt_dist)

lemmas serial_defs = isc_serial_le_def isc_serial_ge_def isc_serial_eq_def isc_serial_ne_def

lemma serial_gt_add:
  assumes "0 < unat n" and "unat n < 2 ^ 31"
  shows "isc_serial_gt (s + n) s"
  using assms by (simp add: serial_gt_dist)

section \<open>The next SOA serial\<close>

datatype dns_updatemethod = dns_updatemethod_increment | dns_updatemethod_unixtime

text \<open>\<open>now\<close> is what \<open>isc_stdtime_get\<close> stores.\<close>

definition dns_update_soaserial :: "u32 \<Rightarrow> u32 \<Rightarrow> dns_updatemethod \<Rightarrow> u32" where
  "dns_update_soaserial now serial method =
     (if method = dns_updatemethod_unixtime \<and> now \<noteq> 0 \<and> isc_serial_gt now serial then now
      else let serial = (serial + 1) AND 0xFFFFFFFF
           in if serial = 0 then 1 else serial)"

lemma and_all_ones: "(x::u32) AND 0xFFFFFFFF = x"
proof -
  have "x AND mask LENGTH(32) = x" by (simp add: take_bit_eq_mask [symmetric] take_bit_word_eq_self)
  then show ?thesis by (simp add: mask_eq_exp_minus_1)
qed

section \<open>Properties\<close>

text \<open>C23: The two orders are the RFC 1982 orders: \<open>isc_serial_lt a b\<close> and \<open>isc_serial_gt b a\<close> both
  hold exactly when the distance from \<open>a\<close> forward to \<open>b\<close>, modulo \<open>2 ^ 32\<close>, is positive and below
  \<open>2 ^ 31\<close>; at the antipode, where RFC 1982 leaves the order undefined, neither holds, and for
  all other pairs exactly one of less, equal and greater holds.\<close>

theorem serial_order_rfc1982:
  "(isc_serial_lt a b \<longleftrightarrow> 0 < unat (b - a) \<and> unat (b - a) < 2 ^ 31) \<and>
   (isc_serial_gt b a \<longleftrightarrow> isc_serial_lt a b) \<and>
   (isc_serial_le a b \<longleftrightarrow> unat (b - a) < 2 ^ 31) \<and>
   (isc_serial_ge b a \<longleftrightarrow> unat (b - a) < 2 ^ 31) \<and>
   \<not> (isc_serial_lt a b \<and> isc_serial_gt a b) \<and>
   (\<not> isc_serial_lt a b \<and> \<not> isc_serial_eq a b \<and> \<not> isc_serial_gt a b \<longleftrightarrow> unat (b - a) = 2 ^ 31)"
proof (cases "a = b")
  case True
  then show ?thesis by (simp add: serial_gt_dist serial_lt_dist serial_defs)
next
  case False
  then have "unat (a - b) = 2 ^ 32 - unat (b - a)" and "0 < unat (b - a)"
    using unat_neg_diff [of b a] by (auto simp: unat_gt_0)
  with False show ?thesis
    using unat_u32_less [of "b - a"]
    by (auto simp: serial_gt_dist serial_lt_dist serial_defs)
qed

text \<open>C22: Whatever the update method and the clock, the serial that \<open>dns_update_soaserial\<close> chooses
  is never zero and is greater than the old one in serial arithmetic, so a secondary that has
  the old zone always sees the new one as newer.\<close>

theorem update_soaserial_newer:
  "isc_serial_gt (dns_update_soaserial now serial method) serial \<and>
   dns_update_soaserial now serial method \<noteq> 0"
proof -
  have "isc_serial_gt (serial + 1) serial" by (rule serial_gt_add) simp_all
  moreover have "isc_serial_gt 1 serial" if "serial + 1 = 0"
  proof -
    from that have "serial = - 1" by (simp add: eq_neg_iff_add_eq_0)
    then show ?thesis by (simp add: serial_gt_dist)
  qed
  ultimately show ?thesis
    by (auto simp: dns_update_soaserial_def and_all_ones Let_def)
qed

end
