(* ===== verification/Wire_Channel.thy ===== *)
theory Wire_Channel
  imports Prelude
begin

text \<open>
  The contract that the code writing and reading wire formats relies on. A channel is a buffer
  with free room at its end and bytes that are written and not yet read (\<open>pending\<close>). The stores
  append the network representation of a value, the loads take it from the front. Two buffers of
  the program provide it: \<open>isc_buffer\<close> (\<open>lib/isc/buffer.c\<close>) and \<open>lwres_buffer\<close>
  (\<open>lib/lwres/lwbuffer.c\<close>).

  The lemmas of the locale treat a message as a list of fields: writing a list of fields and
  reading back a list of the same shape returns the fields, in order, and leaves what follows.
\<close>

datatype wire_field = F8 u8 | F16 u16 | F32 u32

datatype wire_kind = K8 | K16 | K32

fun kind_of :: "wire_field \<Rightarrow> wire_kind" where
  "kind_of (F8 _) = K8"
| "kind_of (F16 _) = K16"
| "kind_of (F32 _) = K32"

fun wire_bytes :: "wire_field \<Rightarrow> bytes" where
  "wire_bytes (F8 v) = [v]"
| "wire_bytes (F16 v) = be16 v"
| "wire_bytes (F32 v) = be32 v"

definition wire_image :: "wire_field list \<Rightarrow> bytes" where
  "wire_image fs = concat (map wire_bytes fs)"

lemma wire_image_simps [simp]:
  "wire_image [] = []"
  "wire_image (f # fs) = wire_bytes f @ wire_image fs"
  by (simp_all add: wire_image_def)

lemma wire_image_append: "wire_image (fs @ gs) = wire_image fs @ wire_image gs"
  by (simp add: wire_image_def)

locale wire_channel =
  fixes inv :: "'b \<Rightarrow> bool"
    and room :: "'b \<Rightarrow> nat"
    and pending :: "'b \<Rightarrow> bytes"
    and put8 :: "'b \<Rightarrow> u8 \<Rightarrow> 'b option"
    and put16 :: "'b \<Rightarrow> u16 \<Rightarrow> 'b option"
    and put32 :: "'b \<Rightarrow> u32 \<Rightarrow> 'b option"
    and get8 :: "'b \<Rightarrow> (u8 \<times> 'b) option"
    and get16 :: "'b \<Rightarrow> (u16 \<times> 'b) option"
    and get32 :: "'b \<Rightarrow> (u32 \<times> 'b) option"
  assumes put8: "inv b \<Longrightarrow> 1 \<le> room b \<Longrightarrow>
      \<exists>b'. put8 b v = Some b' \<and> inv b' \<and> room b' = room b - 1 \<and> pending b' = pending b @ [v]"
    and put16: "inv b \<Longrightarrow> 2 \<le> room b \<Longrightarrow>
      \<exists>b'. put16 b w = Some b' \<and> inv b' \<and> room b' = room b - 2 \<and> pending b' = pending b @ be16 w"
    and put32: "inv b \<Longrightarrow> 4 \<le> room b \<Longrightarrow>
      \<exists>b'. put32 b x = Some b' \<and> inv b' \<and> room b' = room b - 4 \<and> pending b' = pending b @ be32 x"
    and get8: "inv b \<Longrightarrow> pending b = v # rest \<Longrightarrow>
      \<exists>b'. get8 b = Some (v, b') \<and> inv b' \<and> room b' = room b \<and> pending b' = rest"
    and get16: "inv b \<Longrightarrow> pending b = be16 w @ rest \<Longrightarrow>
      \<exists>b'. get16 b = Some (w, b') \<and> inv b' \<and> room b' = room b \<and> pending b' = rest"
    and get32: "inv b \<Longrightarrow> pending b = be32 x @ rest \<Longrightarrow>
      \<exists>b'. get32 b = Some (x, b') \<and> inv b' \<and> room b' = room b \<and> pending b' = rest"
begin

fun put_field :: "'b \<Rightarrow> wire_field \<Rightarrow> 'b option" where
  "put_field b (F8 v) = put8 b v"
| "put_field b (F16 v) = put16 b v"
| "put_field b (F32 v) = put32 b v"

fun get_field :: "'b \<Rightarrow> wire_kind \<Rightarrow> (wire_field \<times> 'b) option" where
  "get_field b K8 = map_option (\<lambda>(v, b'). (F8 v, b')) (get8 b)"
| "get_field b K16 = map_option (\<lambda>(v, b'). (F16 v, b')) (get16 b)"
| "get_field b K32 = map_option (\<lambda>(v, b'). (F32 v, b')) (get32 b)"

fun put_fields :: "'b \<Rightarrow> wire_field list \<Rightarrow> 'b option" where
  "put_fields b [] = Some b"
| "put_fields b (f # fs) = Option.bind (put_field b f) (\<lambda>b. put_fields b fs)"

fun get_fields :: "'b \<Rightarrow> wire_kind list \<Rightarrow> (wire_field list \<times> 'b) option" where
  "get_fields b [] = Some ([], b)"
| "get_fields b (k # ks) =
     Option.bind (get_field b k) (\<lambda>(f, b).
       Option.bind (get_fields b ks) (\<lambda>(fs, b). Some (f # fs, b)))"

lemma put_field_ok:
  assumes "inv b" and "length (wire_bytes f) \<le> room b"
  shows "\<exists>b'. put_field b f = Some b' \<and> inv b' \<and>
    room b' = room b - length (wire_bytes f) \<and> pending b' = pending b @ wire_bytes f"
  using assms put8 [of b] put16 [of b] put32 [of b] by (cases f) auto

lemma get_field_ok:
  assumes "inv b" and "pending b = wire_bytes f @ rest"
  shows "\<exists>b'. get_field b (kind_of f) = Some (f, b') \<and> inv b' \<and> room b' = room b \<and> pending b' = rest"
proof (cases f)
  case (F8 v)
  with assms get8 [of b v rest] show ?thesis by auto
next
  case (F16 v)
  with assms get16 [of b v rest] show ?thesis by auto
next
  case (F32 v)
  with assms get32 [of b v rest] show ?thesis by auto
qed

lemma put_fields_ok:
  assumes "inv b" and "length (wire_image fs) \<le> room b"
  shows "\<exists>b'. put_fields b fs = Some b' \<and> inv b' \<and>
    room b' = room b - length (wire_image fs) \<and> pending b' = pending b @ wire_image fs"
  using assms
proof (induction fs arbitrary: b)
  case Nil
  then show ?case by simp
next
  case (Cons f fs)
  then obtain b1 where b1: "put_field b f = Some b1" "inv b1"
      "room b1 = room b - length (wire_bytes f)" "pending b1 = pending b @ wire_bytes f"
    using put_field_ok [of b f] by auto
  with Cons.prems have "length (wire_image fs) \<le> room b1" by simp
  from Cons.IH [OF b1(2) this] b1 show ?case by auto
qed

lemma get_fields_ok:
  assumes "inv b" and "pending b = wire_image fs @ rest"
  shows "\<exists>b'. get_fields b (map kind_of fs) = Some (fs, b') \<and> inv b' \<and> room b' = room b \<and>
    pending b' = rest"
  using assms
proof (induction fs arbitrary: b)
  case Nil
  then show ?case by simp
next
  case (Cons f fs)
  then obtain b1 where b1: "get_field b (kind_of f) = Some (f, b1)" "inv b1" "room b1 = room b"
      "pending b1 = wire_image fs @ rest"
    using get_field_ok [of b f "wire_image fs @ rest"] by auto
  from Cons.IH [OF b1(2,4)] b1 show ?case by auto
qed

lemma put_get_fields:
  assumes "inv b" and "pending b = []" and "length (wire_image fs) \<le> room b"
  shows "\<exists>b1 b2. put_fields b fs = Some b1 \<and> get_fields b1 (map kind_of fs) = Some (fs, b2) \<and>
    inv b2 \<and> pending b2 = []"
proof -
  obtain b1 where "put_fields b fs = Some b1" "inv b1" "pending b1 = wire_image fs"
    using put_fields_ok [OF assms(1,3)] assms(2) by auto
  moreover from this get_fields_ok [of b1 fs "[]"] obtain b2
    where "get_fields b1 (map kind_of fs) = Some (fs, b2)" "inv b2" "pending b2 = []" by auto
  ultimately show ?thesis by blast
qed

end

end
