(* ===== verification/Isc_Buffer.thy ===== *)
theory Isc_Buffer
  imports Wire_Channel
begin

text \<open>
  The dynamic buffers of \<open>lib/isc/buffer.c\<close> and the macros of \<open>isc/buffer.h\<close> they expand to.

  A buffer owns the bytes its base pointer refers to (\<open>b_base\<close>; the null pointer is the empty
  region). All lengths and positions are \<open>unsigned int\<close>, so they are 32-bit words and the sums in
  the \<open>REQUIRE\<close> guards wrap as they do in C. A region is a pair of an offset into that storage
  (\<open>None\<close> for the null pointer) and a length.
\<close>

section \<open>The structure and its macros\<close>

record isc_buffer =
  b_magic :: u32
  b_base :: bytes
  b_length :: u32
  b_used :: u32
  b_current :: u32
  b_active :: u32
  b_linked :: bool
  b_mctx :: "nat option"

record isc_region =
  r_base :: "nat option"
  r_length :: u32

definition ISC_BUFFER_MAGIC :: u32 where
  "ISC_BUFFER_MAGIC = 0x42756621"

definition ISC_BUFFER_VALID :: "isc_buffer \<Rightarrow> bool" where
  "ISC_BUFFER_VALID b = (b_magic b = ISC_BUFFER_MAGIC)"

definition isc_buffer_remaininglength :: "isc_buffer \<Rightarrow> u32" where
  "isc_buffer_remaininglength b = b_used b - b_current b"

definition isc_buffer_activelength :: "isc_buffer \<Rightarrow> u32" where
  "isc_buffer_activelength b = b_active b - b_current b"

definition isc_buffer_availablelength :: "isc_buffer \<Rightarrow> u32" where
  "isc_buffer_availablelength b = b_length b - b_used b"

definition ISC__BUFFER_INIT :: "bytes \<Rightarrow> u32 \<Rightarrow> isc_buffer" where
  "ISC__BUFFER_INIT base len =
     \<lparr>b_magic = ISC_BUFFER_MAGIC, b_base = base, b_length = len, b_used = 0, b_current = 0,
      b_active = 0, b_linked = False, b_mctx = None\<rparr>"

definition ISC__BUFFER_INVALIDATE :: "isc_buffer \<Rightarrow> isc_buffer" where
  "ISC__BUFFER_INVALIDATE b =
     b\<lparr>b_magic := 0, b_base := [], b_length := 0, b_used := 0, b_current := 0, b_active := 0\<rparr>"

text \<open>\<open>memcpy(isc_buffer_used(b), xs, n)\<close> followed by \<open>b->used += n\<close>: the common body of the
  \<open>ISC__BUFFER_PUT\<close> macros.\<close>

definition ISC__BUFFER_PUTMEM :: "isc_buffer \<Rightarrow> bytes \<Rightarrow> isc_buffer option" where
  "ISC__BUFFER_PUTMEM b xs = do {
     m \<leftarrow> mem_write (b_base b) (unat (b_used b)) xs;
     Some (b\<lparr>b_base := m, b_used := b_used b + of_nat (length xs)\<rparr>) }"

definition ISC__BUFFER_PUTUINT8 :: "isc_buffer \<Rightarrow> u8 \<Rightarrow> isc_buffer option" where
  "ISC__BUFFER_PUTUINT8 b val = ISC__BUFFER_PUTMEM b [val AND 0x00ff]"

definition ISC__BUFFER_PUTUINT16 :: "isc_buffer \<Rightarrow> u16 \<Rightarrow> isc_buffer option" where
  "ISC__BUFFER_PUTUINT16 b val =
     ISC__BUFFER_PUTMEM b [ucast (drop_bit 8 (val AND 0xff00)), ucast (val AND 0x00ff)]"

definition ISC__BUFFER_PUTUINT24 :: "isc_buffer \<Rightarrow> u32 \<Rightarrow> isc_buffer option" where
  "ISC__BUFFER_PUTUINT24 b val =
     ISC__BUFFER_PUTMEM b [ucast (drop_bit 16 (val AND 0xff0000)),
       ucast (drop_bit 8 (val AND 0xff00)), ucast (val AND 0x00ff)]"

definition ISC__BUFFER_PUTUINT32 :: "isc_buffer \<Rightarrow> u32 \<Rightarrow> isc_buffer option" where
  "ISC__BUFFER_PUTUINT32 b val =
     ISC__BUFFER_PUTMEM b [ucast (drop_bit 24 (val AND 0xff000000)),
       ucast (drop_bit 16 (val AND 0x00ff0000)), ucast (drop_bit 8 (val AND 0x0000ff00)),
       ucast (val AND 0x000000ff)]"

section \<open>The functions of buffer.c\<close>

definition isc__buffer_init :: "bytes \<Rightarrow> u32 \<Rightarrow> isc_buffer" where
  "isc__buffer_init base len = ISC__BUFFER_INIT base len"

definition isc__buffer_initnull :: isc_buffer where
  "isc__buffer_initnull = ISC__BUFFER_INIT [] 0"

definition isc_buffer_reinit :: "isc_buffer \<Rightarrow> bytes option \<Rightarrow> u32 \<Rightarrow> isc_buffer option" where
  "isc_buffer_reinit b base len = do {
     REQUIRE (b_length b \<le> len);
     base \<leftarrow> base;
     src \<leftarrow> mem_read (b_base b) 0 (unat (b_length b));
     m \<leftarrow> mem_write base 0 src;
     Some (b\<lparr>b_base := m, b_length := len\<rparr>) }"

definition isc__buffer_invalidate :: "isc_buffer \<Rightarrow> isc_buffer option" where
  "isc__buffer_invalidate b = do {
     REQUIRE (ISC_BUFFER_VALID b);
     REQUIRE (\<not> b_linked b);
     REQUIRE (b_mctx b = None);
     Some (ISC__BUFFER_INVALIDATE b) }"

definition isc__buffer_region :: "isc_buffer \<Rightarrow> isc_region option" where
  "isc__buffer_region b = do {
     REQUIRE (ISC_BUFFER_VALID b);
     Some \<lparr>r_base = Some 0, r_length = b_length b\<rparr> }"

definition isc__buffer_usedregion :: "isc_buffer \<Rightarrow> isc_region option" where
  "isc__buffer_usedregion b = do {
     REQUIRE (ISC_BUFFER_VALID b);
     Some \<lparr>r_base = Some 0, r_length = b_used b\<rparr> }"

definition isc__buffer_availableregion :: "isc_buffer \<Rightarrow> isc_region option" where
  "isc__buffer_availableregion b = do {
     REQUIRE (ISC_BUFFER_VALID b);
     Some \<lparr>r_base = Some (unat (b_used b)), r_length = isc_buffer_availablelength b\<rparr> }"

definition isc__buffer_add :: "isc_buffer \<Rightarrow> u32 \<Rightarrow> isc_buffer option" where
  "isc__buffer_add b n = do {
     REQUIRE (ISC_BUFFER_VALID b);
     REQUIRE (b_used b + n \<le> b_length b);
     Some (b\<lparr>b_used := b_used b + n\<rparr>) }"

definition isc__buffer_subtract :: "isc_buffer \<Rightarrow> u32 \<Rightarrow> isc_buffer option" where
  "isc__buffer_subtract b n = do {
     REQUIRE (ISC_BUFFER_VALID b);
     REQUIRE (b_used b \<ge> n);
     let u = b_used b - n in
     Some (b\<lparr>b_used := u,
             b_current := (if b_current b > u then u else b_current b),
             b_active := (if b_active b > u then u else b_active b)\<rparr>) }"

definition isc__buffer_clear :: "isc_buffer \<Rightarrow> isc_buffer option" where
  "isc__buffer_clear b = do {
     REQUIRE (ISC_BUFFER_VALID b);
     Some (b\<lparr>b_used := 0, b_current := 0, b_active := 0\<rparr>) }"

definition isc__buffer_consumedregion :: "isc_buffer \<Rightarrow> isc_region option" where
  "isc__buffer_consumedregion b = do {
     REQUIRE (ISC_BUFFER_VALID b);
     Some \<lparr>r_base = Some 0, r_length = b_current b\<rparr> }"

definition isc__buffer_remainingregion :: "isc_buffer \<Rightarrow> isc_region option" where
  "isc__buffer_remainingregion b = do {
     REQUIRE (ISC_BUFFER_VALID b);
     Some \<lparr>r_base = Some (unat (b_current b)), r_length = isc_buffer_remaininglength b\<rparr> }"

definition isc__buffer_activeregion :: "isc_buffer \<Rightarrow> isc_region option" where
  "isc__buffer_activeregion b = do {
     REQUIRE (ISC_BUFFER_VALID b);
     Some (if b_current b < b_active b
           then \<lparr>r_base = Some (unat (b_current b)), r_length = isc_buffer_activelength b\<rparr>
           else \<lparr>r_base = None, r_length = 0\<rparr>) }"

definition isc__buffer_setactive :: "isc_buffer \<Rightarrow> u32 \<Rightarrow> isc_buffer option" where
  "isc__buffer_setactive b n = do {
     REQUIRE (ISC_BUFFER_VALID b);
     REQUIRE (b_current b + n \<le> b_used b);
     Some (b\<lparr>b_active := b_current b + n\<rparr>) }"

definition isc__buffer_first :: "isc_buffer \<Rightarrow> isc_buffer option" where
  "isc__buffer_first b = do {
     REQUIRE (ISC_BUFFER_VALID b);
     Some (b\<lparr>b_current := 0\<rparr>) }"

definition isc__buffer_forward :: "isc_buffer \<Rightarrow> u32 \<Rightarrow> isc_buffer option" where
  "isc__buffer_forward b n = do {
     REQUIRE (ISC_BUFFER_VALID b);
     REQUIRE (b_current b + n \<le> b_used b);
     Some (b\<lparr>b_current := b_current b + n\<rparr>) }"

definition isc__buffer_back :: "isc_buffer \<Rightarrow> u32 \<Rightarrow> isc_buffer option" where
  "isc__buffer_back b n = do {
     REQUIRE (ISC_BUFFER_VALID b);
     REQUIRE (n \<le> b_current b);
     Some (b\<lparr>b_current := b_current b - n\<rparr>) }"

definition isc_buffer_compact :: "isc_buffer \<Rightarrow> isc_buffer option" where
  "isc_buffer_compact b = do {
     REQUIRE (ISC_BUFFER_VALID b);
     let len = isc_buffer_remaininglength b in do {
       src \<leftarrow> mem_read (b_base b) (unat (b_current b)) (unat len);
       m \<leftarrow> mem_write (b_base b) 0 src;
       Some (b\<lparr>b_base := m,
               b_active := (if b_active b > b_current b then b_active b - b_current b else 0),
               b_current := 0, b_used := len\<rparr>) } }"

text \<open>The common part of the loads: the guard on the remaining length, the read at \<open>current\<close> and
  the advance.\<close>

definition buffer_take :: "isc_buffer \<Rightarrow> nat \<Rightarrow> (bytes \<times> isc_buffer) option" where
  "buffer_take b n = do {
     REQUIRE (ISC_BUFFER_VALID b);
     REQUIRE (b_used b - b_current b \<ge> of_nat n);
     cp \<leftarrow> mem_read (b_base b) (unat (b_current b)) n;
     Some (cp, b\<lparr>b_current := b_current b + of_nat n\<rparr>) }"

definition isc_buffer_getuint8 :: "isc_buffer \<Rightarrow> (u8 \<times> isc_buffer) option" where
  "isc_buffer_getuint8 b = do {
     (cp, b) \<leftarrow> buffer_take b 1;
     Some (cp ! 0, b) }"

definition isc__buffer_putuint8 :: "isc_buffer \<Rightarrow> u8 \<Rightarrow> isc_buffer option" where
  "isc__buffer_putuint8 b val = do {
     REQUIRE (ISC_BUFFER_VALID b);
     REQUIRE (b_used b + 1 \<le> b_length b);
     ISC__BUFFER_PUTUINT8 b val }"

definition isc_buffer_getuint16 :: "isc_buffer \<Rightarrow> (u16 \<times> isc_buffer) option" where
  "isc_buffer_getuint16 b = do {
     (cp, b) \<leftarrow> buffer_take b 2;
     Some (push_bit 8 (ucast (cp ! 0)) OR ucast (cp ! 1), b) }"

definition isc__buffer_putuint16 :: "isc_buffer \<Rightarrow> u16 \<Rightarrow> isc_buffer option" where
  "isc__buffer_putuint16 b val = do {
     REQUIRE (ISC_BUFFER_VALID b);
     REQUIRE (b_used b + 2 \<le> b_length b);
     ISC__BUFFER_PUTUINT16 b val }"

definition isc__buffer_putuint24 :: "isc_buffer \<Rightarrow> u32 \<Rightarrow> isc_buffer option" where
  "isc__buffer_putuint24 b val = do {
     REQUIRE (ISC_BUFFER_VALID b);
     REQUIRE (b_used b + 3 \<le> b_length b);
     ISC__BUFFER_PUTUINT24 b val }"

definition isc_buffer_getuint32 :: "isc_buffer \<Rightarrow> (u32 \<times> isc_buffer) option" where
  "isc_buffer_getuint32 b = do {
     (cp, b) \<leftarrow> buffer_take b 4;
     Some (push_bit 24 (ucast (cp ! 0)) OR push_bit 16 (ucast (cp ! 1)) OR
           push_bit 8 (ucast (cp ! 2)) OR ucast (cp ! 3), b) }"

definition isc__buffer_putuint32 :: "isc_buffer \<Rightarrow> u32 \<Rightarrow> isc_buffer option" where
  "isc__buffer_putuint32 b val = do {
     REQUIRE (ISC_BUFFER_VALID b);
     REQUIRE (b_used b + 4 \<le> b_length b);
     ISC__BUFFER_PUTUINT32 b val }"

definition isc_buffer_getuint48 :: "isc_buffer \<Rightarrow> (u64 \<times> isc_buffer) option" where
  "isc_buffer_getuint48 b = do {
     (cp, b) \<leftarrow> buffer_take b 6;
     Some (push_bit 40 (ucast (cp ! 0)) OR push_bit 32 (ucast (cp ! 1)) OR
           push_bit 24 (ucast (cp ! 2)) OR push_bit 16 (ucast (cp ! 3)) OR
           push_bit 8 (ucast (cp ! 4)) OR ucast (cp ! 5), b) }"

definition isc__buffer_putuint48 :: "isc_buffer \<Rightarrow> u64 \<Rightarrow> isc_buffer option" where
  "isc__buffer_putuint48 b val = do {
     REQUIRE (ISC_BUFFER_VALID b);
     REQUIRE (b_used b + 6 \<le> b_length b);
     let valhi = ucast (drop_bit 32 val); vallo = ucast (val AND 0xFFFFFFFF) in do {
       b \<leftarrow> ISC__BUFFER_PUTUINT16 b valhi;
       ISC__BUFFER_PUTUINT32 b vallo } }"

definition isc__buffer_putmem :: "isc_buffer \<Rightarrow> bytes \<Rightarrow> isc_buffer option" where
  "isc__buffer_putmem b src = do {
     REQUIRE (ISC_BUFFER_VALID b);
     REQUIRE (b_used b + of_nat (length src) \<le> b_length b);
     ISC__BUFFER_PUTMEM b src }"

text \<open>\<open>l\<close> is \<open>strlen(source)\<close>, truncated to \<open>unsigned int\<close>.\<close>

definition isc__buffer_putstr :: "isc_buffer \<Rightarrow> bytes \<Rightarrow> isc_buffer option" where
  "isc__buffer_putstr b source = do {
     REQUIRE (ISC_BUFFER_VALID b);
     let l = (of_nat (length source) :: u32) in do {
       REQUIRE (l \<le> isc_buffer_availablelength b);
       m \<leftarrow> mem_write (b_base b) (unat (b_used b)) (take (unat l) source);
       Some (b\<lparr>b_base := m, b_used := b_used b + l\<rparr>) } }"

definition isc_buffer_copyregion :: "isc_buffer \<Rightarrow> bytes \<Rightarrow> (isc_result \<times> isc_buffer) option" where
  "isc_buffer_copyregion b r = do {
     REQUIRE (ISC_BUFFER_VALID b);
     if (of_nat (length r) :: u32) > isc_buffer_availablelength b
     then Some (ISC_R_NOSPACE, b)
     else do {
       b \<leftarrow> ISC__BUFFER_PUTMEM b r;
       Some (ISC_R_SUCCESS, b) } }"

text \<open>\<open>mem\<close> is what \<open>isc_mem_get\<close> returns for the data area: \<open>None\<close> when memory is exhausted.\<close>

definition isc_buffer_allocate ::
    "nat \<Rightarrow> bytes option \<Rightarrow> u32 \<Rightarrow> isc_result \<times> isc_buffer option" where
  "isc_buffer_allocate mctx mem len =
     (case mem of
        None \<Rightarrow> (ISC_R_NOMEMORY, None)
      | Some base \<Rightarrow> (ISC_R_SUCCESS, Some ((isc__buffer_init base len)\<lparr>b_mctx := Some mctx\<rparr>)))"

definition isc_buffer_free :: "isc_buffer \<Rightarrow> isc_buffer option" where
  "isc_buffer_free b = do {
     REQUIRE (ISC_BUFFER_VALID b);
     REQUIRE (b_mctx b \<noteq> None);
     isc__buffer_invalidate (b\<lparr>b_mctx := None\<rparr>) }"

section \<open>Invariant and abstraction\<close>

definition buf_wf :: "isc_buffer \<Rightarrow> bool" where
  "buf_wf b \<longleftrightarrow> ISC_BUFFER_VALID b \<and> length (b_base b) = unat (b_length b) \<and>
     unat (b_used b) \<le> unat (b_length b) \<and> unat (b_current b) \<le> unat (b_used b) \<and>
     unat (b_active b) \<le> unat (b_used b)"

definition buf_used_bytes :: "isc_buffer \<Rightarrow> bytes" where
  "buf_used_bytes b = take (unat (b_used b)) (b_base b)"

definition buf_pending :: "isc_buffer \<Rightarrow> bytes" where
  "buf_pending b = drop (unat (b_current b)) (buf_used_bytes b)"

definition buf_room :: "isc_buffer \<Rightarrow> nat" where
  "buf_room b = unat (b_length b) - unat (b_used b)"

lemmas buf_abs_defs = buf_used_bytes_def buf_pending_def buf_room_def

lemma buf_wf_valid: "buf_wf b \<Longrightarrow> ISC_BUFFER_VALID b"
  by (simp add: buf_wf_def)

lemma length_buf_used: "buf_wf b \<Longrightarrow> length (buf_used_bytes b) = unat (b_used b)"
  by (simp add: buf_wf_def buf_used_bytes_def)

lemma length_buf_pending:
  "buf_wf b \<Longrightarrow> length (buf_pending b) = unat (b_used b) - unat (b_current b)"
  by (simp add: buf_pending_def length_buf_used)

lemma unat_availablelength: "buf_wf b \<Longrightarrow> unat (isc_buffer_availablelength b) = buf_room b"
  by (simp add: isc_buffer_availablelength_def buf_room_def unat_minus_le buf_wf_def)

lemma unat_remaininglength:
  "buf_wf b \<Longrightarrow> unat (isc_buffer_remaininglength b) = length (buf_pending b)"
  by (simp add: isc_buffer_remaininglength_def length_buf_pending unat_minus_le buf_wf_def)

text \<open>The guard of the stores: exact as long as the sum does not wrap.\<close>

lemma put_guard:
  assumes "buf_wf b" and "unat (b_used b) + n < 2 ^ 32"
  shows "b_used b + of_nat n \<le> b_length b \<longleftrightarrow> n \<le> buf_room b"
  using assms unat_plus_of_nat [OF assms(2)]
  by (auto simp: word_le_nat_alt buf_room_def buf_wf_def)

lemma room_no_wrap: "buf_wf b \<Longrightarrow> n \<le> buf_room b \<Longrightarrow> unat (b_used b) + n < 2 ^ 32"
  using unat_u32_less [of "b_length b"] by (auto simp: buf_room_def buf_wf_def)

lemma PUTMEM_ok:
  assumes wf: "buf_wf b" and room: "length xs \<le> buf_room b"
  shows "\<exists>b'. ISC__BUFFER_PUTMEM b xs = Some b' \<and> buf_wf b' \<and>
    buf_room b' = buf_room b - length xs \<and> buf_used_bytes b' = buf_used_bytes b @ xs \<and>
    b_current b' = b_current b \<and> buf_pending b' = buf_pending b @ xs"
proof -
  have u: "unat (b_used b + of_nat (length xs)) = unat (b_used b) + length xs"
    using unat_plus_of_nat [OF room_no_wrap [OF assms]] .
  have le: "unat (b_used b) + length xs \<le> length (b_base b)"
    using assms by (auto simp: buf_wf_def buf_room_def)
  define m where "m = take (unat (b_used b)) (b_base b) @ xs @ drop (unat (b_used b) + length xs) (b_base b)"
  let ?b = "b\<lparr>b_base := m, b_used := b_used b + of_nat (length xs)\<rparr>"
  have put: "ISC__BUFFER_PUTMEM b xs = Some ?b"
    using le by (simp add: ISC__BUFFER_PUTMEM_def mem_write_Some m_def)
  have used: "buf_used_bytes ?b = buf_used_bytes b @ xs"
    using le u by (simp add: buf_used_bytes_def m_def)
  have "buf_wf ?b"
    using wf le u by (auto simp: buf_wf_def m_def ISC_BUFFER_VALID_def)
  moreover have "buf_pending ?b = buf_pending b @ xs"
    using used length_buf_used [OF wf] wf by (simp add: buf_pending_def buf_wf_def)
  moreover have "buf_room ?b = buf_room b - length xs"
    using u by (simp add: buf_room_def)
  ultimately show ?thesis using put used by auto
qed

lemma put_ok:
  assumes wf: "buf_wf b" and room: "length xs \<le> buf_room b" and n: "n = of_nat (length xs)"
  shows "\<exists>b'. do { REQUIRE (ISC_BUFFER_VALID b); REQUIRE (b_used b + n \<le> b_length b);
      ISC__BUFFER_PUTMEM b xs } = Some b' \<and> buf_wf b' \<and>
    buf_room b' = buf_room b - length xs \<and> buf_used_bytes b' = buf_used_bytes b @ xs \<and>
    b_current b' = b_current b \<and> buf_pending b' = buf_pending b @ xs"
  using PUTMEM_ok [OF wf room] put_guard [OF wf room_no_wrap [OF wf room]] room n
  by (simp add: buf_wf_valid [OF wf])

lemma buffer_take_ok:
  assumes wf: "buf_wf b" and n: "n \<le> length (buf_pending b)"
  shows "\<exists>b'. buffer_take b n = Some (take n (buf_pending b), b') \<and> buf_wf b' \<and>
    buf_room b' = buf_room b \<and> buf_pending b' = drop n (buf_pending b) \<and>
    buf_used_bytes b' = buf_used_bytes b"
proof -
  have lt: "unat (b_used b) < 2 ^ 32" by (rule unat_u32_less)
  have sum: "unat (b_current b) + n \<le> unat (b_used b)"
    using n wf length_buf_pending [OF wf] by (auto simp: buf_wf_def)
  then have c: "unat (b_current b + of_nat n) = unat (b_current b) + n"
    using lt by (intro unat_plus_of_nat) simp
  have g: "of_nat n \<le> b_used b - b_current b"
    using sum lt by (simp add: word_le_nat_alt unat_minus_le unat_of_nat_small)
  have "take n (drop (unat (b_current b)) (b_base b)) = take n (buf_pending b)"
    using sum by (simp add: buf_pending_def buf_used_bytes_def drop_take min_def)
  then have "buffer_take b n =
      Some (take n (buf_pending b), b\<lparr>b_current := b_current b + of_nat n\<rparr>)"
    using g sum wf by (simp add: buffer_take_def mem_read_def buf_wf_def)
  then show ?thesis
    using sum wf c
    by (auto simp: buf_wf_def buf_abs_defs ISC_BUFFER_VALID_def add.commute)
qed

section \<open>The buffer is a wire channel\<close>

lemma and_ff_u8 [simp]: "(v::u8) AND 0xff = v"
proof -
  have "v AND mask LENGTH(8) = v" by (simp add: take_bit_eq_mask [symmetric] take_bit_word_eq_self)
  then show ?thesis by (simp add: mask_eq_exp_minus_1)
qed

interpretation isc_channel: wire_channel buf_wf buf_room buf_pending
    isc__buffer_putuint8 isc__buffer_putuint16 isc__buffer_putuint32
    isc_buffer_getuint8 isc_buffer_getuint16 isc_buffer_getuint32
proof (unfold_locales, goal_cases)
  case (1 b v)
  then show ?case
    using put_ok [of b "[v]" 1]
    by (auto simp: isc__buffer_putuint8_def ISC__BUFFER_PUTUINT8_def)
next
  case (2 b w)
  then show ?case
    using put_ok [of b "be16 w" 2]
    by (auto simp: isc__buffer_putuint16_def ISC__BUFFER_PUTUINT16_def be16_def)
next
  case (3 b x)
  then show ?case
    using put_ok [of b "be32 x" 4]
    by (auto simp: isc__buffer_putuint32_def ISC__BUFFER_PUTUINT32_def be32_def)
next
  case (4 b v rest)
  then show ?case
    using buffer_take_ok [of b 1] by (auto simp: isc_buffer_getuint8_def)
next
  case (5 b w rest)
  then show ?case
    using buffer_take_ok [of b 2] of_be16_be16 [of w]
    by (auto simp: isc_buffer_getuint16_def be16_def of_be16_def numeral_2_eq_2)
next
  case (6 b x rest)
  then show ?case
    using buffer_take_ok [of b 4] of_be32_be32 [of x]
    by (auto simp: isc_buffer_getuint32_def be32_def of_be32_def eval_nat_numeral)
qed

section \<open>Sequences of operations\<close>

text \<open>One constructor per operation that changes a live buffer. \<open>Reinit\<close> carries the new storage,
  whose size is the new length.\<close>

datatype buf_op =
    Reinit bytes | Add u32 | Subtract u32 | Clear | Setactive u32 | First | Forward u32 | Back u32
  | Compact | Get8 | Get16 | Get32 | Get48 | Put8 u8 | Put16 u16 | Put24 u32 | Put32 u32
  | Put48 u64 | Putmem bytes | Putstr bytes | Copyregion bytes

fun buf_exec :: "buf_op \<Rightarrow> isc_buffer \<Rightarrow> isc_buffer option" where
  "buf_exec (Reinit m) b = isc_buffer_reinit b (Some m) (of_nat (length m))"
| "buf_exec (Add n) b = isc__buffer_add b n"
| "buf_exec (Subtract n) b = isc__buffer_subtract b n"
| "buf_exec Clear b = isc__buffer_clear b"
| "buf_exec (Setactive n) b = isc__buffer_setactive b n"
| "buf_exec First b = isc__buffer_first b"
| "buf_exec (Forward n) b = isc__buffer_forward b n"
| "buf_exec (Back n) b = isc__buffer_back b n"
| "buf_exec Compact b = isc_buffer_compact b"
| "buf_exec Get8 b = map_option snd (isc_buffer_getuint8 b)"
| "buf_exec Get16 b = map_option snd (isc_buffer_getuint16 b)"
| "buf_exec Get32 b = map_option snd (isc_buffer_getuint32 b)"
| "buf_exec Get48 b = map_option snd (isc_buffer_getuint48 b)"
| "buf_exec (Put8 v) b = isc__buffer_putuint8 b v"
| "buf_exec (Put16 v) b = isc__buffer_putuint16 b v"
| "buf_exec (Put24 v) b = isc__buffer_putuint24 b v"
| "buf_exec (Put32 v) b = isc__buffer_putuint32 b v"
| "buf_exec (Put48 v) b = isc__buffer_putuint48 b v"
| "buf_exec (Putmem xs) b = isc__buffer_putmem b xs"
| "buf_exec (Putstr xs) b = isc__buffer_putstr b xs"
| "buf_exec (Copyregion xs) b = map_option snd (isc_buffer_copyregion b xs)"

fun buf_run :: "buf_op list \<Rightarrow> isc_buffer \<Rightarrow> isc_buffer option" where
  "buf_run [] b = Some b"
| "buf_run (x # xs) b = Option.bind (buf_exec x b) (buf_run xs)"

text \<open>The specification: a buffer is the bytes in use, the free bytes behind them, and the positions \<open>current\<close> and
  \<open>active\<close>, which are natural numbers. An operation that is not allowed gives \<open>None\<close>.\<close>

type_synonym abs_buffer = "bytes \<times> bytes \<times> nat \<times> nat"

fun spec_put :: "bytes \<Rightarrow> abs_buffer \<Rightarrow> abs_buffer option" where
  "spec_put xs (us, fr, c, a) = (if length xs \<le> length fr then Some (us @ xs, drop (length xs) fr, c, a) else None)"

fun spec_get :: "nat \<Rightarrow> abs_buffer \<Rightarrow> abs_buffer option" where
  "spec_get n (us, fr, c, a) = (if c + n \<le> length us then Some (us, fr, c + n, a) else None)"

fun spec_exec :: "buf_op \<Rightarrow> abs_buffer \<Rightarrow> abs_buffer option" where
  "spec_exec (Reinit m) (us, fr, c, a) =
     (if length (us @ fr) \<le> length m then Some (us, fr @ drop (length (us @ fr)) m, c, a) else None)"
| "spec_exec (Add n) (us, fr, c, a) =
     (if unat n \<le> length fr then Some (us @ take (unat n) fr, drop (unat n) fr, c, a) else None)"
| "spec_exec (Subtract n) (us, fr, c, a) =
     (if unat n \<le> length us
      then let k = length us - unat n in Some (take k us, drop k us @ fr, min c k, min a k) else None)"
| "spec_exec Clear (us, fr, c, a) = Some ([], us @ fr, 0, 0)"
| "spec_exec (Setactive n) (us, fr, c, a) = (if c + unat n \<le> length us then Some (us, fr, c, c + unat n) else None)"
| "spec_exec First (us, fr, c, a) = Some (us, fr, 0, a)"
| "spec_exec (Forward n) s = spec_get (unat n) s"
| "spec_exec (Back n) (us, fr, c, a) = (if unat n \<le> c then Some (us, fr, c - unat n, a) else None)"
| "spec_exec Compact (us, fr, c, a) = Some (drop c us, drop (length us - c) (us @ fr), 0, a - c)"
| "spec_exec Get8 s = spec_get 1 s"
| "spec_exec Get16 s = spec_get 2 s"
| "spec_exec Get32 s = spec_get 4 s"
| "spec_exec Get48 s = spec_get 6 s"
| "spec_exec (Put8 v) s = spec_put [v] s"
| "spec_exec (Put16 v) s = spec_put (be16 v) s"
| "spec_exec (Put24 v) s = spec_put (drop 1 (be32 v)) s"
| "spec_exec (Put32 v) s = spec_put (be32 v) s"
| "spec_exec (Put48 v) s = spec_put (be16 (ucast (drop_bit 32 v)) @ be32 (ucast (v AND 0xFFFFFFFF))) s"
| "spec_exec (Putmem xs) s = spec_put xs s"
| "spec_exec (Putstr xs) s = spec_put xs s"
| "spec_exec (Copyregion xs) s = Some (case spec_put xs s of None \<Rightarrow> s | Some s' \<Rightarrow> s')"

text \<open>What the caller owes: sums and lengths below \<open>2 ^ 32\<close>, which the code computes in 32 bits.\<close>

fun op_sane :: "buf_op \<Rightarrow> abs_buffer \<Rightarrow> bool" where
  "op_sane (Reinit m) s = (length m < 2 ^ 32)"
| "op_sane (Add n) (us, fr, c, a) = (length us + unat n < 2 ^ 32)"
| "op_sane (Setactive n) (us, fr, c, a) = (c + unat n < 2 ^ 32)"
| "op_sane (Forward n) (us, fr, c, a) = (c + unat n < 2 ^ 32)"
| "op_sane (Putstr xs) s = (length xs < 2 ^ 32)"
| "op_sane (Copyregion xs) s = (length xs < 2 ^ 32)"
| "op_sane (Put8 v) (us, fr, c, a) = (length us + 1 < 2 ^ 32)"
| "op_sane (Put16 v) (us, fr, c, a) = (length us + 2 < 2 ^ 32)"
| "op_sane (Put24 v) (us, fr, c, a) = (length us + 3 < 2 ^ 32)"
| "op_sane (Put32 v) (us, fr, c, a) = (length us + 4 < 2 ^ 32)"
| "op_sane (Put48 v) (us, fr, c, a) = (length us + 6 < 2 ^ 32)"
| "op_sane (Putmem xs) (us, fr, c, a) = (length us + length xs < 2 ^ 32)"
| "op_sane _ s = True"

fun spec_run :: "buf_op list \<Rightarrow> abs_buffer \<Rightarrow> abs_buffer option" where
  "spec_run [] s = Some s"
| "spec_run (x # xs) s = Option.bind (spec_exec x s) (spec_run xs)"

fun run_sane :: "buf_op list \<Rightarrow> abs_buffer \<Rightarrow> bool" where
  "run_sane [] s = True"
| "run_sane (x # xs) s = (op_sane x s \<and> (case spec_exec x s of None \<Rightarrow> True | Some s' \<Rightarrow> run_sane xs s'))"

definition buf_abs :: "isc_buffer \<Rightarrow> abs_buffer" where
  "buf_abs b = (buf_used_bytes b, drop (unat (b_used b)) (b_base b), unat (b_current b), unat (b_active b))"

text \<open>The memory may go on behind the end of the buffer: \<open>beyond m b\<close> is the buffer \<open>b\<close> with \<open>m\<close> behind it. A store
  that passes the end of the buffer would succeed there and change \<open>m\<close>. Only \<open>isc_buffer_reinit\<close> leaves that memory.\<close>

definition beyond :: "bytes \<Rightarrow> isc_buffer \<Rightarrow> isc_buffer" where
  "beyond m b = b\<lparr>b_base := b_base b @ m\<rparr>"

fun memory_after :: "buf_op \<Rightarrow> bytes \<Rightarrow> bytes" where
  "memory_after (Reinit mem) m = []"
| "memory_after _ m = m"

definition refined :: "isc_buffer option \<Rightarrow> abs_buffer option \<Rightarrow> bool" where
  "refined r s \<longleftrightarrow> map_option buf_abs r = s \<and> (\<forall>b. r = Some b \<longrightarrow> buf_wf b)"

lemma VALID_update [simp]:
  "ISC_BUFFER_VALID (b\<lparr>b_base := m\<rparr>) = ISC_BUFFER_VALID b"
  "ISC_BUFFER_VALID (b\<lparr>b_length := n\<rparr>) = ISC_BUFFER_VALID b"
  "ISC_BUFFER_VALID (b\<lparr>b_used := n\<rparr>) = ISC_BUFFER_VALID b"
  "ISC_BUFFER_VALID (b\<lparr>b_current := n\<rparr>) = ISC_BUFFER_VALID b"
  "ISC_BUFFER_VALID (b\<lparr>b_active := n\<rparr>) = ISC_BUFFER_VALID b"
  by (simp_all add: ISC_BUFFER_VALID_def)

lemmas buf_get_defs = isc_buffer_getuint8_def isc_buffer_getuint16_def isc_buffer_getuint32_def
  isc_buffer_getuint48_def

lemmas buf_put_defs = isc__buffer_putuint8_def isc__buffer_putuint16_def isc__buffer_putuint24_def
  isc__buffer_putuint32_def isc__buffer_putuint48_def isc__buffer_putmem_def
  isc_buffer_copyregion_def ISC__BUFFER_PUTUINT8_def ISC__BUFFER_PUTUINT16_def
  ISC__BUFFER_PUTUINT24_def ISC__BUFFER_PUTUINT32_def

lemmas buf_move_defs = isc__buffer_add_def isc__buffer_subtract_def isc__buffer_clear_def
  isc__buffer_setactive_def isc__buffer_first_def isc__buffer_forward_def isc__buffer_back_def

lemma compact_wf: "buf_wf b \<Longrightarrow> isc_buffer_compact b = Some b' \<Longrightarrow> buf_wf b'"
  by (auto simp: isc_buffer_compact_def run_simps bind_eq_Some_conv buf_wf_def mem_write_eq_Some
      mem_read_eq_Some isc_buffer_remaininglength_def unat_minus_le word_less_nat_alt Let_def)

lemma refinedI: "r = Some b \<Longrightarrow> buf_wf b \<Longrightarrow> s = Some (buf_abs b) \<Longrightarrow> refined r s"
  by (simp add: refined_def)

lemma refined_None: "refined None None"
  by (simp add: refined_def)

lemma free_length: "buf_wf b \<Longrightarrow> length (drop (unat (b_used b)) (b_base b)) = buf_room b"
  by (simp add: buf_wf_def buf_room_def)

lemma PUTMEM_refined:
  assumes wf: "buf_wf b"
  shows "refined (ISC__BUFFER_PUTMEM b xs) (spec_put xs (buf_abs b))"
proof (cases "length xs \<le> buf_room b")
  case True
  then obtain b' where b': "ISC__BUFFER_PUTMEM b xs = Some b'" "buf_wf b'" "buf_used_bytes b' = buf_used_bytes b @ xs"
    "b_current b' = b_current b" using PUTMEM_ok [OF wf] by blast
  have u: "unat (b_used b + of_nat (length xs)) = unat (b_used b) + length xs"
    using unat_plus_of_nat [OF room_no_wrap [OF wf True]] .
  have "b_active b' = b_active b" "drop (unat (b_used b')) (b_base b') = drop (unat (b_used b) + length xs) (b_base b)"
    using b'(1) u wf True by (auto simp: ISC__BUFFER_PUTMEM_def bind_eq_Some_conv mem_write_eq_Some buf_wf_def buf_room_def)
  then show ?thesis using b' True free_length [OF wf] by (intro refinedI [OF b'(1,2)]) (simp add: buf_abs_def add.commute)
next
  case False
  then have "ISC__BUFFER_PUTMEM b xs = None"
    using wf by (auto simp: ISC__BUFFER_PUTMEM_def mem_write_def buf_wf_def buf_room_def)
  then show ?thesis using False free_length [OF wf] by (simp add: refined_def buf_abs_def)
qed

lemma put_refined:
  assumes wf: "buf_wf b" and n: "n = of_nat (length xs)"
  shows "refined (do { REQUIRE (ISC_BUFFER_VALID b); REQUIRE (b_used b + n \<le> b_length b); ISC__BUFFER_PUTMEM b xs }) (spec_put xs (buf_abs b))"
proof (cases "b_used b + n \<le> b_length b")
  case True
  then show ?thesis using PUTMEM_refined [OF wf] buf_wf_valid [OF wf] by simp
next
  case False
  then have "\<not> length xs \<le> buf_room b" using put_ok [OF wf _ n] by (auto simp: REQUIRE_def)
  then show ?thesis using False free_length [OF wf] by (simp add: refined_def buf_abs_def)
qed

lemma take_refined:
  assumes wf: "buf_wf b" and n: "n < 2 ^ 32"
  shows "refined (map_option snd (buffer_take b n)) (spec_get n (buf_abs b))"
proof (cases "n \<le> length (buf_pending b)")
  case True
  then obtain b' where b': "buffer_take b n = Some (take n (buf_pending b), b')" "buf_wf b'" using buffer_take_ok [OF wf] by blast
  have le: "unat (b_current b) + n \<le> unat (b_used b)" using True length_buf_pending [OF wf] wf by (auto simp: buf_wf_def)
  have "unat (b_current b + of_nat n) = unat (b_current b) + n"
    using le unat_u32_less [of "b_used b"] by (intro unat_plus_of_nat) simp
  then show ?thesis using b' le length_buf_used [OF wf]
    by (intro refinedI [of _ b']) (auto simp: buf_abs_def buffer_take_def bind_eq_Some_conv buf_used_bytes_def)
next
  case False
  then have "buffer_take b n = None"
    using wf n by (auto simp: buffer_take_def REQUIRE_def word_le_nat_alt length_buf_pending unat_minus_le unat_of_nat_small buf_wf_def)
  moreover have "\<not> unat (b_current b) + n \<le> unat (b_used b)" using False length_buf_pending [OF wf] by simp
  ultimately show ?thesis using length_buf_used [OF wf] by (simp add: refined_def buf_abs_def)
qed

lemma put_None:
  assumes wf: "buf_wf b" and nw: "unat (b_length b) + 6 < 2 ^ 32" and len: "length xs \<le> 6"
    and n: "n = of_nat (length xs)"
  shows "do { REQUIRE (ISC_BUFFER_VALID b); REQUIRE (b_used b + n \<le> b_length b);
      ISC__BUFFER_PUTMEM b xs } = None \<longleftrightarrow> buf_room b < length xs"
proof (cases "length xs \<le> buf_room b")
  case True
  then show ?thesis using put_ok [OF wf True n] by auto
next
  case False
  moreover have "unat (b_used b) + length xs < 2 ^ 32"
    using wf nw len by (auto simp: buf_wf_def)
  ultimately have "\<not> b_used b + n \<le> b_length b"
    using put_guard [OF wf, of "length xs"] n by simp
  then show ?thesis using False by simp
qed

lemma take_None:
  assumes wf: "buf_wf b" and n: "n < 2 ^ 32"
  shows "buffer_take b n = None \<longleftrightarrow> length (buf_pending b) < n"
proof (cases "n \<le> length (buf_pending b)")
  case True
  then show ?thesis using buffer_take_ok [OF wf True] by auto
next
  case False
  then have "\<not> of_nat n \<le> b_used b - b_current b"
    using wf n by (simp add: word_le_nat_alt length_buf_pending unat_minus_le unat_of_nat_small buf_wf_def)
  then show ?thesis using False by (simp add: buffer_take_def)
qed

lemma put48_eq_putmem:
  "isc__buffer_putuint48 b v = do { REQUIRE (ISC_BUFFER_VALID b); REQUIRE (b_used b + 6 \<le> b_length b);
     ISC__BUFFER_PUTMEM b (be16 (ucast (drop_bit 32 v)) @ be32 (ucast (v AND 0xFFFFFFFF))) }"
  if "buf_wf b" "unat (b_used b) + 6 < 2 ^ 32"
proof -
  let ?h = "be16 (ucast (drop_bit 32 v))" and ?l = "be32 (ucast (v AND 0xFFFFFFFF))"
  have "unat (b_used b + 2) = unat (b_used b) + 2"
    using unat_plus_of_nat [of "b_used b" 2] that by simp
  then have "Option.bind (ISC__BUFFER_PUTMEM b ?h) (\<lambda>b. ISC__BUFFER_PUTMEM b ?l) = ISC__BUFFER_PUTMEM b (?h @ ?l)"
    if "6 \<le> buf_room b"
    using that \<open>buf_wf b\<close>
    by (auto simp: ISC__BUFFER_PUTMEM_def mem_write_def buf_wf_def buf_room_def add.commute)
  moreover have "b_used b + 6 \<le> b_length b \<longleftrightarrow> 6 \<le> buf_room b"
    using put_guard [OF that(1), of 6] that(2) by simp
  ultimately show ?thesis
    by (auto simp: isc__buffer_putuint48_def ISC__BUFFER_PUTUINT16_def ISC__BUFFER_PUTUINT32_def
        be16_def be32_def Let_def REQUIRE_def)
qed

lemma join48:
  fixes v :: u64
  defines "hi \<equiv> (ucast (drop_bit 32 v) :: u16)" and "lo \<equiv> (ucast (v AND 0xFFFFFFFF) :: u32)"
  shows "push_bit 40 (ucast (be16 hi ! 0)) OR push_bit 32 (ucast (be16 hi ! 1)) OR
    push_bit 24 (ucast (be32 lo ! 0)) OR push_bit 16 (ucast (be32 lo ! 1)) OR
    push_bit 8 (ucast (be32 lo ! 2)) OR ucast (be32 lo ! 3) = take_bit 48 v"
proof -
  have m: "(0xFFFFFFFF::u64) = mask 32" by (simp add: mask_eq_exp_minus_1)
  show ?thesis
    unfolding be16_def be32_def hi_def lo_def mask_literals m
    apply (rule bit_word_eqI)
    subgoal for n
      by (cases "n < 8"; cases "n < 16"; cases "n < 24"; cases "n < 32"; cases "n < 40"; cases "n < 48")
        (auto simp: bit_simps not_less)
    done
qed

section \<open>Properties\<close>

lemma put48_refined:
  assumes wf: "buf_wf b"
  shows "refined (isc__buffer_putuint48 b v) (spec_put (be16 (ucast (drop_bit 32 v)) @ be32 (ucast (v AND 0xFFFFFFFF))) (buf_abs b))"
proof (cases "unat (b_used b) + 6 < 2 ^ 32")
  case True
  show ?thesis unfolding put48_eq_putmem [OF wf True] by (rule put_refined [OF wf]) simp
next
  case False
  have r: "buf_room b < 6" using wf False unat_u32_less [of "b_length b"] by (simp add: buf_room_def)
  have "isc__buffer_putuint48 b v = None"
  proof (rule ccontr)
    assume "isc__buffer_putuint48 b v \<noteq> None"
    then obtain b1 b2 where b: "ISC__BUFFER_PUTUINT16 b (ucast (drop_bit 32 v)) = Some b1" "ISC__BUFFER_PUTUINT32 b1 (ucast (v AND 0xFFFFFFFF)) = Some b2"
      by (auto simp: isc__buffer_putuint48_def bind_eq_Some_conv Let_def)
    have "2 \<le> buf_room b" using b(1) wf by (auto simp: ISC__BUFFER_PUTUINT16_def ISC__BUFFER_PUTMEM_def bind_eq_Some_conv mem_write_eq_Some buf_wf_def buf_room_def)
    then obtain b1' where "ISC__BUFFER_PUTUINT16 b (ucast (drop_bit 32 v)) = Some b1'" "buf_wf b1'" "buf_room b1' = buf_room b - 2"
      using PUTMEM_ok [OF wf, of "[ucast (drop_bit 8 ((ucast (drop_bit 32 v) :: u16) AND 0xff00)), ucast ((ucast (drop_bit 32 v) :: u16) AND 0x00ff)]"]
      by (auto simp: ISC__BUFFER_PUTUINT16_def)
    then have "4 \<le> buf_room b - 2"
      using b by (auto simp: ISC__BUFFER_PUTUINT32_def ISC__BUFFER_PUTMEM_def bind_eq_Some_conv mem_write_eq_Some buf_wf_def buf_room_def)
    then show False using r by simp
  qed
  then show ?thesis using r free_length [OF wf] by (simp add: refined_def buf_abs_def be16_def be32_def)
qed

lemma move_refined:
  assumes wf: "buf_wf b" and sane: "op_sane x (buf_abs b)"
    and x: "x \<in> {Add n, Subtract n, Clear, Setactive n, First, Forward n, Back n}"
  shows "refined (buf_exec x b) (spec_exec x (buf_abs b))"
proof -
  note d = wf [unfolded buf_wf_def]
  have u: "unat (b_used b + n) = unat (b_used b) + unat n" if "unat (b_used b) + unat n < 2 ^ 32" using unat_plus_small [OF that] .
  have c: "unat (b_current b + n) = unat (b_current b) + unat n" if "unat (b_current b) + unat n < 2 ^ 32" using unat_plus_small [OF that] .
  have s: "unat (b_used b - n) = unat (b_used b) - unat n" if "n \<le> b_used b" using unat_minus_le [of n "b_used b"] that by (simp add: word_le_nat_alt)
  have k: "unat (b_current b - n) = unat (b_current b) - unat n" if "n \<le> b_current b"
    using unat_minus_le [of n "b_current b"] that by (simp add: word_le_nat_alt)
  have sub: "refined (isc__buffer_subtract b n) (spec_exec (Subtract n) (buf_abs b))"
  proof (cases "n \<le> b_used b")
    case True
    let ?k = "b_used b - n"
    let ?b = "b\<lparr>b_used := ?k, b_current := (if b_current b > ?k then ?k else b_current b), b_active := (if b_active b > ?k then ?k else b_active b)\<rparr>"
    have "isc__buffer_subtract b n = Some ?b" using True d by (simp add: isc__buffer_subtract_def Let_def)
    moreover have "buf_wf ?b" using d s [OF True] by (auto simp: buf_wf_def word_less_nat_alt)
    moreover have "drop (unat (b_used b) - unat n) (take (unat (b_used b)) (b_base b)) @ drop (unat (b_used b)) (b_base b) =
        drop (unat (b_used b) - unat n) (b_base b)"
      using drop_append [of "unat (b_used b) - unat n" "take (unat (b_used b)) (b_base b)" "drop (unat (b_used b)) (b_base b)"] d by simp
    ultimately show ?thesis using True d s [OF True]
      by (intro refinedI [of _ ?b]) (auto simp: buf_abs_def buf_used_bytes_def word_le_nat_alt word_less_nat_alt Let_def min_def)
  next
    case False
    then show ?thesis using d by (simp add: refined_def isc__buffer_subtract_def buf_abs_def length_buf_used [OF wf] word_le_nat_alt)
  qed
  note abs = refined_def buf_abs_def buf_used_bytes_def buf_move_defs REQUIRE_def buf_wf_def word_le_nat_alt
  from x consider "x = Add n" | "x = Subtract n" | "x = Clear" | "x = First" | "x \<in> {Setactive n, Forward n}" | "x = Back n" by auto
  then show ?thesis
  proof cases
    case 1
    then show ?thesis using d sane u by (auto simp: abs take_add drop_drop add.commute [of "unat n" "unat (b_used b)"] split: if_splits)
  next
    case 2
    then show ?thesis using sub by simp
  next
    case 5
    then show ?thesis using d sane c by (auto simp: abs split: if_splits)
  next
    case 6
    then show ?thesis using d k by (auto simp: abs split: if_splits)
  qed (use d in \<open>auto simp: abs\<close>)
qed

lemma reinit_refined:
  assumes wf: "buf_wf b" and m: "length m < 2 ^ 32"
  shows "refined (buf_exec (Reinit m) b) (spec_exec (Reinit m) (buf_abs b))"
proof -
  note d = wf [unfolded buf_wf_def]
  have l: "length (buf_used_bytes b @ drop (unat (b_used b)) (b_base b)) = unat (b_length b)" using d by (simp add: buf_used_bytes_def)
  show ?thesis
  proof (cases "unat (b_length b) \<le> length m")
    case True
    let ?b = "b\<lparr>b_base := b_base b @ drop (unat (b_length b)) m, b_length := of_nat (length m)\<rparr>"
    have "buf_exec (Reinit m) b = Some ?b"
      using d True m by (simp add: isc_buffer_reinit_def word_le_nat_alt unat_of_nat_small mem_read_def mem_write_def)
    moreover have "buf_wf ?b" using d True m by (simp add: buf_wf_def unat_of_nat_small)
    ultimately show ?thesis using True d by (intro refinedI [of _ ?b]) (simp_all add: buf_abs_def buf_used_bytes_def)
  next
    case False
    then show ?thesis using l m by (simp add: refined_def buf_abs_def isc_buffer_reinit_def word_le_nat_alt unat_of_nat_small)
  qed
qed

lemma compact_refined:
  assumes wf: "buf_wf b"
  shows "refined (buf_exec Compact b) (spec_exec Compact (buf_abs b))"
proof -
  note d = wf [unfolded buf_wf_def]
  let ?len = "isc_buffer_remaininglength b"
  have len: "unat ?len = unat (b_used b) - unat (b_current b)"
    using wf unat_remaininglength length_buf_pending by simp
  have src: "take (unat ?len) (drop (unat (b_current b)) (b_base b)) = buf_pending b"
    using len by (simp add: buf_pending_def buf_used_bytes_def drop_take)
  have l: "length (buf_pending b) = unat ?len" using unat_remaininglength [OF wf] by simp
  let ?b = "b\<lparr>b_base := buf_pending b @ drop (unat ?len) (b_base b),
      b_active := (if b_active b > b_current b then b_active b - b_current b else 0), b_current := 0, b_used := ?len\<rparr>"
  have "buf_exec Compact b = Some ?b"
    using d len l src by (auto simp: isc_buffer_compact_def mem_read_def mem_write_def Let_def)
  moreover from this have "buf_wf ?b" using compact_wf [OF wf] by simp
  moreover have "buf_used_bytes b @ drop (unat (b_used b)) (b_base b) = b_base b" by (simp add: buf_used_bytes_def)
  moreover have "unat (b_active ?b) = unat (b_active b) - unat (b_current b)" by (auto simp: word_less_nat_alt unat_minus_le)
  ultimately show ?thesis using l len length_buf_used [OF wf]
    by (intro refinedI [of _ ?b]) (auto simp: buf_abs_def buf_used_bytes_def buf_pending_def)
qed

lemma string_refined:
  assumes wf: "buf_wf b" and xs: "length xs < 2 ^ 32"
  shows "refined (isc__buffer_putstr b xs) (spec_put xs (buf_abs b))"
    and "refined (map_option snd (isc_buffer_copyregion b xs)) (spec_exec (Copyregion xs) (buf_abs b))"
proof -
  have g: "(of_nat (length xs) :: u32) \<le> isc_buffer_availablelength b \<longleftrightarrow> length xs \<le> buf_room b"
    using unat_availablelength [OF wf] xs by (simp add: word_le_nat_alt unat_of_nat_small)
  have no: "\<not> length xs \<le> buf_room b \<Longrightarrow> spec_put xs (buf_abs b) = None"
    using free_length [OF wf] by (simp add: buf_abs_def)
  note p = PUTMEM_refined [OF wf, of xs]
  show "refined (isc__buffer_putstr b xs) (spec_put xs (buf_abs b))"
  proof (cases "length xs \<le> buf_room b")
    case True
    then have "isc__buffer_putstr b xs = ISC__BUFFER_PUTMEM b xs"
      using g xs buf_wf_valid [OF wf] by (simp add: isc__buffer_putstr_def ISC__BUFFER_PUTMEM_def unat_of_nat_small)
    then show ?thesis using p by simp
  next
    case False
    then show ?thesis using g no by (simp add: isc__buffer_putstr_def refined_def)
  qed
  show "refined (map_option snd (isc_buffer_copyregion b xs)) (spec_exec (Copyregion xs) (buf_abs b))"
  proof (cases "length xs \<le> buf_room b")
    case True
    then obtain b' where b': "ISC__BUFFER_PUTMEM b xs = Some b'" "buf_wf b'" using PUTMEM_ok [OF wf] by blast
    then have "spec_put xs (buf_abs b) = Some (buf_abs b')" using p by (simp add: refined_def)
    then show ?thesis using b' True g buf_wf_valid [OF wf] by (auto simp: isc_buffer_copyregion_def refined_def not_le [symmetric])
  next
    case False
    then show ?thesis using g no wf buf_wf_valid [OF wf] by (auto simp: isc_buffer_copyregion_def refined_def not_le [symmetric])
  qed
qed

lemma fields_refined:
  assumes wf: "buf_wf b"
  shows "refined (buf_exec (Put8 v8) b) (spec_exec (Put8 v8) (buf_abs b))"
    "refined (buf_exec (Put16 v16) b) (spec_exec (Put16 v16) (buf_abs b))"
    "refined (buf_exec (Put24 v24) b) (spec_exec (Put24 v24) (buf_abs b))"
    "refined (buf_exec (Put32 v24) b) (spec_exec (Put32 v24) (buf_abs b))"
    "refined (buf_exec (Putmem xs) b) (spec_exec (Putmem xs) (buf_abs b))"
    "refined (buf_exec Get8 b) (spec_exec Get8 (buf_abs b))"
    "refined (buf_exec Get16 b) (spec_exec Get16 (buf_abs b))"
    "refined (buf_exec Get32 b) (spec_exec Get32 (buf_abs b))"
    "refined (buf_exec Get48 b) (spec_exec Get48 (buf_abs b))"
proof -
  have "map_option snd (Option.bind r (\<lambda>(cp, b). Some (f cp, b))) = map_option snd r" for r :: "(bytes \<times> isc_buffer) option" and f :: "bytes \<Rightarrow> 'a"
    by (cases r) auto
  note get = this
  show "refined (buf_exec (Put8 v8) b) (spec_exec (Put8 v8) (buf_abs b))" using put_refined [OF wf, of 1 "[v8]"] by (simp add: buf_put_defs)
  show "refined (buf_exec (Put16 v16) b) (spec_exec (Put16 v16) (buf_abs b))" using put_refined [OF wf, of 2 "be16 v16"] by (simp add: buf_put_defs be16_def)
  show "refined (buf_exec (Put24 v24) b) (spec_exec (Put24 v24) (buf_abs b))" using put_refined [OF wf, of 3 "drop 1 (be32 v24)"] by (simp add: buf_put_defs be32_def)
  show "refined (buf_exec (Put32 v24) b) (spec_exec (Put32 v24) (buf_abs b))" using put_refined [OF wf, of 4 "be32 v24"] by (simp add: buf_put_defs be32_def)
  show "refined (buf_exec (Putmem xs) b) (spec_exec (Putmem xs) (buf_abs b))" using put_refined [OF wf refl] by (simp add: buf_put_defs)
  show "refined (buf_exec Get8 b) (spec_exec Get8 (buf_abs b))" using take_refined [OF wf, of 1] by (simp add: buf_get_defs get)
  show "refined (buf_exec Get16 b) (spec_exec Get16 (buf_abs b))" using take_refined [OF wf, of 2] by (simp add: buf_get_defs get)
  show "refined (buf_exec Get32 b) (spec_exec Get32 (buf_abs b))" using take_refined [OF wf, of 4] by (simp add: buf_get_defs get)
  show "refined (buf_exec Get48 b) (spec_exec Get48 (buf_abs b))" using take_refined [OF wf, of 6] by (simp add: buf_get_defs get)
qed

lemma exec_refined:
  assumes wf: "buf_wf b" and sane: "op_sane x (buf_abs b)"
  shows "refined (buf_exec x b) (spec_exec x (buf_abs b))"
proof (cases x)
  case (Reinit m)
  then show ?thesis using reinit_refined [OF wf, of m] sane by simp
next
  case (Put48 v)
  then show ?thesis using put48_refined [OF wf] by simp
next
  case (Putstr xs)
  then show ?thesis using string_refined(1) [OF wf, of xs] sane by simp
next
  case (Copyregion xs)
  then show ?thesis using string_refined(2) [OF wf, of xs] sane by simp
qed (use compact_refined [OF wf] fields_refined [OF wf] move_refined [OF wf sane] in auto)

lemma run_refined:
  assumes "buf_wf b" and "run_sane ops (buf_abs b)"
  shows "refined (buf_run ops b) (spec_run ops (buf_abs b))"
  using assms
proof (induction ops arbitrary: b)
  case Nil
  then show ?case by (simp add: refined_def)
next
  case (Cons x xs)
  have r: "refined (buf_exec x b) (spec_exec x (buf_abs b))" by (rule exec_refined) (use Cons.prems in auto)
  show ?case
  proof (cases "buf_exec x b")
    case None
    then show ?thesis using r by (auto simp: refined_def)
  next
    case (Some b1)
    then have "spec_exec x (buf_abs b) = Some (buf_abs b1)" "buf_wf b1" using r by (auto simp: refined_def)
    then show ?thesis using Cons.IH [of b1] Cons.prems Some by simp
  qed
qed

text \<open>No operation reads or writes what lies behind the buffer, and none succeeds because of it.\<close>

lemma beyond_simps [simp]:
  "b_base (beyond m b) = b_base b @ m" "b_length (beyond m b) = b_length b" "b_used (beyond m b) = b_used b"
  "b_current (beyond m b) = b_current b" "b_active (beyond m b) = b_active b" "ISC_BUFFER_VALID (beyond m b) = ISC_BUFFER_VALID b"
  by (simp_all add: beyond_def)

lemma beyond_update:
  "(beyond m b)\<lparr>b_used := u\<rparr> = beyond m (b\<lparr>b_used := u\<rparr>)" "(beyond m b)\<lparr>b_current := u\<rparr> = beyond m (b\<lparr>b_current := u\<rparr>)"
  "(beyond m b)\<lparr>b_active := u\<rparr> = beyond m (b\<lparr>b_active := u\<rparr>)" "(beyond m b)\<lparr>b_base := z @ m\<rparr> = beyond m (b\<lparr>b_base := z\<rparr>)"
  by (simp_all add: beyond_def)

lemma PUTMEM_beyond:
  assumes "buf_wf b" and "length xs \<le> buf_room b"
  shows "ISC__BUFFER_PUTMEM (beyond m b) xs = map_option (beyond m) (ISC__BUFFER_PUTMEM b xs)"
  using assms by (auto simp: ISC__BUFFER_PUTMEM_def mem_write_def buf_wf_def buf_room_def beyond_def)

lemma put_beyond:
  assumes wf: "buf_wf b" and sane: "unat (b_used b) + length xs < 2 ^ 32"
  shows "b_used b + of_nat (length xs) \<le> b_length b \<Longrightarrow>
    ISC__BUFFER_PUTMEM (beyond m b) xs = map_option (beyond m) (ISC__BUFFER_PUTMEM b xs)"
  using put_guard [OF wf sane] PUTMEM_beyond [OF wf] by simp

lemma put48_beyond:
  assumes wf: "buf_wf b" and sane: "unat (b_used b) + 6 < 2 ^ 32"
  shows "isc__buffer_putuint48 (beyond m b) v = map_option (beyond m) (isc__buffer_putuint48 b v)"
proof (cases "6 \<le> buf_room b")
  case True
  let ?h = "be16 (ucast (drop_bit 32 v))" and ?l = "be32 (ucast (v AND 0xFFFFFFFF))"
  obtain b1 where b1: "ISC__BUFFER_PUTMEM b ?h = Some b1" "buf_wf b1" "buf_room b1 = buf_room b - 2"
    using PUTMEM_ok [OF wf, of ?h] True by auto
  have "ISC__BUFFER_PUTMEM (beyond m b) ?h = Some (beyond m b1)" using PUTMEM_beyond [OF wf, of ?h] b1 True by simp
  moreover have "ISC__BUFFER_PUTMEM (beyond m b1) ?l = map_option (beyond m) (ISC__BUFFER_PUTMEM b1 ?l)"
    using PUTMEM_beyond [OF b1(2), of ?l] b1(3) True by simp
  ultimately show ?thesis using b1(1)
    by (simp add: isc__buffer_putuint48_def ISC__BUFFER_PUTUINT16_def ISC__BUFFER_PUTUINT32_def be16_def be32_def REQUIRE_def Let_def)
next
  case False
  then show ?thesis using put_guard [OF wf, of 6] sane by (simp add: isc__buffer_putuint48_def)
qed

lemma take_beyond:
  assumes wf: "buf_wf b" and n: "n < 2 ^ 32"
  shows "buffer_take (beyond m b) n = map_option (\<lambda>(cp, b). (cp, beyond m b)) (buffer_take b n)"
proof (cases "of_nat n \<le> b_used b - b_current b")
  case True
  then have "unat (b_current b) + n \<le> length (b_base b)"
    using wf n by (auto simp: word_le_nat_alt unat_minus_le unat_of_nat_small buf_wf_def)
  then show ?thesis using True by (simp add: buffer_take_def REQUIRE_def mem_read_def beyond_update)
next
  case False
  then show ?thesis by (simp add: buffer_take_def)
qed

lemma string_beyond:
  assumes wf: "buf_wf b" and xs: "length xs < 2 ^ 32"
  shows "isc__buffer_putstr (beyond m b) xs = map_option (beyond m) (isc__buffer_putstr b xs)"
    and "map_option snd (isc_buffer_copyregion (beyond m b) xs) = map_option (beyond m) (map_option snd (isc_buffer_copyregion b xs))"
proof -
  have a: "isc_buffer_availablelength (beyond m b) = isc_buffer_availablelength b" by (simp add: isc_buffer_availablelength_def)
  have g: "(of_nat (length xs) :: u32) \<le> isc_buffer_availablelength b \<longleftrightarrow> length xs \<le> buf_room b"
    using unat_availablelength [OF wf] xs by (simp add: word_le_nat_alt unat_of_nat_small)
  show "isc__buffer_putstr (beyond m b) xs = map_option (beyond m) (isc__buffer_putstr b xs)"
    using PUTMEM_beyond [OF wf, of xs m] a g xs
    by (simp add: isc__buffer_putstr_def ISC__BUFFER_PUTMEM_def unat_of_nat_small REQUIRE_def)
  show "map_option snd (isc_buffer_copyregion (beyond m b) xs) = map_option (beyond m) (map_option snd (isc_buffer_copyregion b xs))"
    using PUTMEM_beyond [OF wf, of xs m] PUTMEM_ok [OF wf, of xs] a g by (auto simp: isc_buffer_copyregion_def REQUIRE_def not_le [symmetric])
qed

lemma exec_beyond:
  assumes wf: "buf_wf b" and sane: "op_sane x (buf_abs b)"
  shows "buf_exec x (beyond m b) = map_option (beyond (memory_after x m)) (buf_exec x b)"
proof -
  note d = wf [unfolded buf_wf_def]
  have u: "length (buf_used_bytes b) = unat (b_used b)" using length_buf_used [OF wf] .
  have get: "map_option snd (Option.bind (map_option (\<lambda>(cp, b). (cp, beyond m b)) r) (\<lambda>(cp, b). Some (f cp, b))) =
      map_option (beyond m) (map_option snd (Option.bind r (\<lambda>(cp, b). Some (f cp, b))))"
    for r :: "(bytes \<times> isc_buffer) option" and f :: "bytes \<Rightarrow> 'a" by (cases r) auto
  show ?thesis
  proof (cases x)
    case (Reinit mem)
    then show ?thesis using d
      by (cases "mem_write mem 0 (b_base b)") (simp_all add: isc_buffer_reinit_def mem_read_def REQUIRE_def beyond_def)
  next
    case (Put8 v)
    then show ?thesis using put_beyond [OF wf, of "[v AND 255]" m] sane u by (simp add: buf_put_defs be16_def be32_def REQUIRE_def buf_abs_def)
  next
    case (Put16 v)
    then show ?thesis using put_beyond [OF wf, of "be16 v" m] sane u by (simp add: buf_put_defs be16_def be32_def REQUIRE_def buf_abs_def)
  next
    case (Put24 v)
    then show ?thesis using put_beyond [OF wf, of "drop 1 (be32 v)" m] sane u by (simp add: buf_put_defs be16_def be32_def REQUIRE_def buf_abs_def)
  next
    case (Put32 v)
    then show ?thesis using put_beyond [OF wf, of "be32 v" m] sane u by (simp add: buf_put_defs be16_def be32_def REQUIRE_def buf_abs_def)
  next
    case (Put48 v)
    then show ?thesis using put48_beyond [OF wf] sane u by (simp add: buf_abs_def)
  next
    case (Putstr xs)
    then show ?thesis using string_beyond(1) [OF wf] sane by simp
  next
    case (Copyregion xs)
    then show ?thesis using string_beyond(2) [OF wf] sane by simp
  next
    case Compact
    then show ?thesis using d by (simp add: isc_buffer_compact_def mem_read_def mem_write_def REQUIRE_def beyond_def Let_def isc_buffer_remaininglength_def unat_minus_le)
  qed (use sane u take_beyond [OF wf] put_beyond [OF wf, where m = m] in \<open>auto simp: buf_move_defs buf_get_defs buf_put_defs get buf_abs_def REQUIRE_def beyond_update Let_def\<close>)
qed

lemma run_beyond:
  assumes "buf_wf b" and "run_sane ops (buf_abs b)"
  shows "buf_run ops (beyond m b) = map_option (beyond (fold memory_after ops m)) (buf_run ops b)"
  using assms
proof (induction ops arbitrary: b m)
  case Nil
  then show ?case by simp
next
  case (Cons x xs)
  have r: "refined (buf_exec x b) (spec_exec x (buf_abs b))" by (rule exec_refined) (use Cons.prems in auto)
  have e: "buf_exec x (beyond m b) = map_option (beyond (memory_after x m)) (buf_exec x b)"
    by (rule exec_beyond) (use Cons.prems in auto)
  show ?case
  proof (cases "buf_exec x b")
    case None
    then show ?thesis using e by simp
  next
    case (Some b1)
    then have "spec_exec x (buf_abs b) = Some (buf_abs b1)" "buf_wf b1" using r by (auto simp: refined_def)
    then show ?thesis using Cons.IH [of b1] Cons.prems Some e by simp
  qed
qed

text \<open>C21: The buffer refines its specification: for every sequence of operations on a well-formed buffer in which no
  sum or length reaches \<open>2 ^ 32\<close>, the run aborts exactly if the specification forbids one of the operations, and
  otherwise leaves the bytes in use, the free bytes and the two positions that the specification gives, in a well-formed
  buffer. This is also so if the memory goes on behind the buffer: the same operations abort, and the memory behind is
  unchanged.\<close>

theorem buffer_run_refines:
  assumes "buf_wf b" and "run_sane ops (buf_abs b)"
  shows "map_option buf_abs (buf_run ops b) = spec_run ops (buf_abs b) \<and> (\<forall>b'. buf_run ops b = Some b' \<longrightarrow> buf_wf b') \<and>
    (\<forall>m. buf_run ops (beyond m b) = map_option (beyond (fold memory_after ops m)) (buf_run ops b))"
  using run_refined [OF assms] run_beyond [OF assms] by (simp add: refined_def)

definition sample_buffer :: isc_buffer where
  "sample_buffer = isc__buffer_init (replicate 8 0) 8"

lemmas sample_defs = sample_buffer_def isc__buffer_init_def ISC__BUFFER_INIT_def

lemma sample_buffer_wf: "buf_wf sample_buffer"
  by (simp add: sample_defs buf_wf_def ISC_BUFFER_VALID_def)

lemma sample_buffer_wf_at:
  "unat c \<le> unat u \<Longrightarrow> unat u \<le> 8 \<Longrightarrow> buf_wf (sample_buffer\<lparr>b_used := u, b_current := c\<rparr>)"
  by (simp add: sample_defs buf_wf_def ISC_BUFFER_VALID_def)

theorem buffer_run_refines_witness:
  "(\<exists>b'. buf_run [Put16 0x1234, Put8 7, Get8, Setactive 1, Compact, Putmem [1, 2], Subtract 1] sample_buffer = Some b' \<and>
     buf_wf b' \<and> buf_abs b' = ([0x34, 7, 1], [2, 0, 0, 0, 0], 0, 1)) \<and>
   buf_run [Putmem [1, 2, 3, 4, 5, 6, 7], Put16 0] (beyond [9, 9] sample_buffer) = None"
proof -
  let ?ops = "[Put16 0x1234, Put8 7, Get8, Setactive 1, Compact, Putmem [1, 2], Subtract 1]"
  let ?bad = "[Putmem [1, 2, 3, 4, 5, 6, 7], Put16 0]"
  have a: "buf_abs sample_buffer = ([], [0, 0, 0, 0, 0, 0, 0, 0], 0, 0)"
    by (simp add: sample_defs buf_abs_def buf_used_bytes_def numeral_eq_Suc)
  have b: "be16 0x1234 = [0x12, 0x34]" by code_simp
  have "run_sane ?ops (buf_abs sample_buffer)" "spec_run ?ops (buf_abs sample_buffer) = Some ([0x34, 7, 1], [2, 0, 0, 0, 0], 0, 1)"
    unfolding a by (simp_all add: Let_def b)
  moreover have "run_sane ?bad (buf_abs sample_buffer)" "spec_run ?bad (buf_abs sample_buffer) = None"
    unfolding a by (simp_all add: be16_def)
  ultimately show ?thesis using buffer_run_refines [OF sample_buffer_wf, of ?ops] buffer_run_refines [OF sample_buffer_wf, of ?bad] by auto
qed

text \<open>C24: Fields stored in an empty buffer are loaded back unchanged and in order: for every list
  of 8-, 16- and 32-bit fields that fits, the stores succeed, and loads of the same widths
  return the same values and leave nothing unread.\<close>

theorem buffer_fields_roundtrip:
  assumes "buf_wf b" and "buf_pending b = []" and "length (wire_image fs) \<le> buf_room b"
  shows "\<exists>b1 b2. isc_channel.put_fields b fs = Some b1 \<and>
    isc_channel.get_fields b1 (map kind_of fs) = Some (fs, b2) \<and> buf_wf b2 \<and> buf_pending b2 = []"
  using assms by (rule isc_channel.put_get_fields)

theorem buffer_fields_roundtrip_witness:
  "\<exists>b1 b2. isc_channel.put_fields sample_buffer [F16 0xabcd, F8 1, F32 0xdeadbeef] = Some b1 \<and>
    isc_channel.get_fields b1 [K16, K8, K32] = Some ([F16 0xabcd, F8 1, F32 0xdeadbeef], b2) \<and>
    buf_wf b2 \<and> buf_pending b2 = []"
  using buffer_fields_roundtrip [OF sample_buffer_wf, of "[F16 0xabcd, F8 1, F32 0xdeadbeef]"]
  by (simp add: sample_defs buf_abs_defs)

text \<open>A 48-bit store followed by a load returns the value modulo \<open>2 ^ 48\<close>.\<close>

theorem buffer_uint48_roundtrip:
  assumes wf: "buf_wf b" and empty: "buf_pending b = []" and room: "6 \<le> buf_room b"
  shows "\<exists>b1 b2. isc__buffer_putuint48 b v = Some b1 \<and>
    isc_buffer_getuint48 b1 = Some (take_bit 48 v, b2) \<and> buf_wf b2 \<and> buf_pending b2 = []"
proof -
  let ?xs = "be16 (ucast (drop_bit 32 v)) @ be32 (ucast (v AND 0xFFFFFFFF))"
  obtain b1 where b1: "isc__buffer_putuint48 b v = Some b1" "buf_wf b1" "buf_pending b1 = ?xs"
    using put_ok [OF wf, of ?xs 6] put48_eq_putmem [OF wf, of v] room_no_wrap [OF wf room] room empty
    by auto
  obtain b2 where "buffer_take b1 6 = Some (?xs, b2)" "buf_wf b2" "buf_pending b2 = []"
    using buffer_take_ok [OF b1(2), of 6] b1(3) by auto
  then have "isc_buffer_getuint48 b1 = Some (take_bit 48 v, b2)"
    unfolding join48 [symmetric]
    by (simp add: isc_buffer_getuint48_def nth_append)
  with b1 \<open>buf_wf b2\<close> \<open>buf_pending b2 = []\<close> show ?thesis by blast
qed

theorem buffer_uint48_roundtrip_witness:
  "\<exists>b1 b2. isc__buffer_putuint48 sample_buffer 0x123456789abcdef0 = Some b1 \<and>
    isc_buffer_getuint48 b1 = Some (0x56789abcdef0, b2) \<and> buf_wf b2 \<and> buf_pending b2 = []"
proof -
  have "take_bit 48 (0x123456789abcdef0 :: u64) = 0x56789abcdef0" by (simp add: take_bit_eq_mod)
  then show ?thesis
    using buffer_uint48_roundtrip [OF sample_buffer_wf, of "0x123456789abcdef0"]
    by (simp add: sample_defs buf_abs_defs)
qed

text \<open>The guards are exact and no access leaves the storage. On a well-formed buffer whose
  length is at least six below \<open>2 ^ 32\<close>, a store aborts exactly when its bytes do not fit, a load
  aborts exactly when fewer bytes are pending than it reads, and \<open>isc_buffer_copyregion\<close> never
  aborts: it reports \<open>ISC_R_NOSPACE\<close>, leaving the buffer as it was, exactly when the region does
  not fit.\<close>

theorem buffer_guards_exact:
  assumes wf: "buf_wf b" and nw: "unat (b_length b) + 6 < 2 ^ 32" and r: "length r < 2 ^ 32"
  shows "(isc__buffer_putuint8 b v8 = None \<longleftrightarrow> buf_room b < 1) \<and>
    (isc__buffer_putuint16 b v16 = None \<longleftrightarrow> buf_room b < 2) \<and>
    (isc__buffer_putuint24 b v24 = None \<longleftrightarrow> buf_room b < 3) \<and>
    (isc__buffer_putuint32 b v32 = None \<longleftrightarrow> buf_room b < 4) \<and>
    (isc__buffer_putuint48 b v48 = None \<longleftrightarrow> buf_room b < 6) \<and>
    (isc_buffer_getuint8 b = None \<longleftrightarrow> length (buf_pending b) < 1) \<and>
    (isc_buffer_getuint16 b = None \<longleftrightarrow> length (buf_pending b) < 2) \<and>
    (isc_buffer_getuint32 b = None \<longleftrightarrow> length (buf_pending b) < 4) \<and>
    (isc_buffer_getuint48 b = None \<longleftrightarrow> length (buf_pending b) < 6) \<and>
    (isc_buffer_copyregion b r = Some (ISC_R_NOSPACE, b) \<longleftrightarrow> buf_room b < length r) \<and>
    isc_buffer_copyregion b r \<noteq> None"
proof -
  have le: "unat (b_used b) \<le> unat (b_length b)" using wf by (simp add: buf_wf_def)
  have put: "isc__buffer_putuint8 b v8 = None \<longleftrightarrow> buf_room b < 1"
    "isc__buffer_putuint16 b v16 = None \<longleftrightarrow> buf_room b < 2"
    "isc__buffer_putuint24 b v24 = None \<longleftrightarrow> buf_room b < 3"
    "isc__buffer_putuint32 b v32 = None \<longleftrightarrow> buf_room b < 4"
    by (simp_all add: buf_put_defs put_None [OF wf nw] eval_nat_numeral)
  have put48: "isc__buffer_putuint48 b v48 = None \<longleftrightarrow> buf_room b < 6"
    using le nw by (simp add: put48_eq_putmem [OF wf] put_None [OF wf nw])
  have get: "isc_buffer_getuint8 b = None \<longleftrightarrow> length (buf_pending b) < 1"
    "isc_buffer_getuint16 b = None \<longleftrightarrow> length (buf_pending b) < 2"
    "isc_buffer_getuint32 b = None \<longleftrightarrow> length (buf_pending b) < 4"
    "isc_buffer_getuint48 b = None \<longleftrightarrow> length (buf_pending b) < 6"
    using take_None [OF wf, of 1] take_None [OF wf, of 2] take_None [OF wf, of 4]
      take_None [OF wf, of 6]
    by (auto simp: buf_get_defs bind_eq_None_conv)
  have c: "of_nat (length r) > isc_buffer_availablelength b \<longleftrightarrow> buf_room b < length r"
    using r by (simp add: word_less_nat_alt unat_availablelength [OF wf] unat_of_nat_small)
  have "isc_buffer_copyregion b r = (if buf_room b < length r then Some (ISC_R_NOSPACE, b)
      else map_option (Pair ISC_R_SUCCESS) (ISC__BUFFER_PUTMEM b r))"
    using c by (simp add: isc_buffer_copyregion_def buf_wf_valid [OF wf] map_conv_bind_option comp_def)
  then have "isc_buffer_copyregion b r = Some (ISC_R_NOSPACE, b) \<longleftrightarrow> buf_room b < length r"
    "isc_buffer_copyregion b r \<noteq> None"
    using PUTMEM_ok [OF wf, of r] by (auto simp: not_less)
  with put put48 get show ?thesis by blast
qed

theorem buffer_guards_exact_witness:
  "isc__buffer_putuint48 (sample_buffer\<lparr>b_used := 3\<rparr>) 5 = None \<and>
   isc_buffer_getuint32 (sample_buffer\<lparr>b_used := 3\<rparr>) = None \<and>
   isc_buffer_copyregion (sample_buffer\<lparr>b_used := 3\<rparr>) [1, 2, 3, 4, 5, 6] =
     Some (ISC_R_NOSPACE, sample_buffer\<lparr>b_used := 3\<rparr>)"
proof -
  have "buf_wf (sample_buffer\<lparr>b_used := 3\<rparr>)"
    using sample_buffer_wf_at [of 0 3] by (simp add: sample_defs)
  from buffer_guards_exact [OF this, of "[1, 2, 3, 4, 5, 6]"] show ?thesis
    by (simp add: sample_defs buf_abs_defs)
qed

text \<open>\<open>isc_buffer_compact\<close> discards exactly the consumed bytes: what was pending is still
  pending, at the start of the storage, and the space of the consumed bytes becomes room.\<close>

theorem buffer_compact_spec:
  assumes wf: "buf_wf b"
  shows "\<exists>b'. isc_buffer_compact b = Some b' \<and> buf_wf b' \<and> b_current b' = 0 \<and>
    buf_pending b' = buf_pending b \<and> buf_used_bytes b' = buf_pending b \<and>
    buf_room b' = buf_room b + unat (b_current b)"
proof -
  let ?len = "isc_buffer_remaininglength b"
  have len: "unat ?len = unat (b_used b) - unat (b_current b)"
    using wf unat_remaininglength length_buf_pending by simp
  have src: "take (unat ?len) (drop (unat (b_current b)) (b_base b)) = buf_pending b"
    using len by (simp add: buf_pending_def buf_used_bytes_def drop_take)
  have l: "length (buf_pending b) = unat ?len"
    using unat_remaininglength [OF wf] by simp
  have "isc_buffer_compact b = Some (b\<lparr>b_base := buf_pending b @ drop (unat ?len) (b_base b),
      b_active := (if b_active b > b_current b then b_active b - b_current b else 0),
      b_current := 0, b_used := ?len\<rparr>)" (is "_ = Some ?b")
    using wf len l src
    by (auto simp: isc_buffer_compact_def mem_read_def mem_write_def Let_def buf_wf_def)
  moreover from this have "buf_wf ?b" using compact_wf [OF wf] by blast
  moreover have "buf_used_bytes ?b = buf_pending b" using l by (simp add: buf_used_bytes_def)
  moreover have "buf_room ?b = buf_room b + unat (b_current b)"
    using len wf by (simp add: buf_room_def buf_wf_def)
  ultimately show ?thesis by (simp add: buf_pending_def)
qed

theorem buffer_compact_spec_witness:
  "\<exists>b'. isc_buffer_compact (sample_buffer\<lparr>b_used := 3, b_current := 2\<rparr>) = Some b' \<and>
     buf_wf b' \<and> buf_pending b' = [0] \<and> buf_room b' = 7"
proof -
  have "buf_wf (sample_buffer\<lparr>b_used := 3, b_current := 2\<rparr>)"
    by (rule sample_buffer_wf_at) simp_all
  from buffer_compact_spec [OF this] show ?thesis
    by (auto simp: sample_defs buf_abs_defs)
qed

text \<open>The guard \<open>b->used + n <= b->length\<close> of \<open>isc__buffer_add\<close> is computed modulo \<open>2 ^ 32\<close>. If
  the true sum stays below \<open>2 ^ 32\<close> the call succeeds exactly when \<open>n\<close> bytes are free; if it does
  not, the call succeeds on every well-formed buffer, moving \<open>used\<close> backwards.\<close>

theorem buffer_add_guard:
  assumes wf: "buf_wf b"
  shows "isc__buffer_add b n =
    (if unat (b_used b) + unat n < 2 ^ 32 \<and> buf_room b < unat n then None
     else Some (b\<lparr>b_used := b_used b + n\<rparr>)) \<and>
    (2 ^ 32 \<le> unat (b_used b) + unat n \<longrightarrow> b_used b + n < b_used b)"
proof (cases "unat (b_used b) + unat n < 2 ^ 32")
  case True
  then show ?thesis
    using put_guard [OF wf, of "unat n"] wf
    by (auto simp: isc__buffer_add_def REQUIRE_def buf_wf_def)
next
  case False
  then have "unat (b_used b + n) = unat (b_used b) + unat n - 2 ^ 32"
    using unat_u32_less [of "b_used b"] unat_u32_less [of n]
    by (simp add: unat_word_ariths mod_if)
  with False wf show ?thesis
    using unat_u32_less [of "b_used b"] unat_u32_less [of n]
    by (auto simp: isc__buffer_add_def REQUIRE_def buf_wf_def word_le_nat_alt word_less_nat_alt)
qed

theorem buffer_add_guard_witness:
  "buf_wf (sample_buffer\<lparr>b_used := 6\<rparr>) \<and>
   isc__buffer_add (sample_buffer\<lparr>b_used := 6\<rparr>) 0xfffffffe = Some (sample_buffer\<lparr>b_used := 4\<rparr>)"
proof -
  have wf: "buf_wf (sample_buffer\<lparr>b_used := 6\<rparr>)"
    using sample_buffer_wf_at [of 0 6] by (simp add: sample_defs)
  with buffer_add_guard [OF wf, of "0xfffffffe"] show ?thesis by simp
qed

end
