(* ===== verification/Isc_Heap.thy ===== *)
theory Isc_Heap
  imports Prelude
begin

text \<open>
  The binary heap of \<open>lib/isc/heap.c\<close>, the priority queue behind the timer manager and the
  cache's expiry and re-signing queues.

  Elements are pointers: the model stores them as values of type \<open>'a\<close> and keeps what they point to
  in a store of type \<open>'s\<close>. The two function pointers of the structure read and write that store:
  \<open>compare\<close> tells whether one element has a higher priority, \<open>index\<close> (which may be null) records the
  position of an element inside the element. A slot of the array holds \<open>None\<close> while it is null
  or not yet written; subscripts are 1-based and slot 0 is unused. \<open>unsigned int\<close> values are
  natural numbers with the wrap-around of the sums written out.
\<close>

section \<open>The structure\<close>

record ('a, 's) isc_heap =
  h_magic :: u32
  h_size :: nat
  h_size_increment :: nat
  h_last :: nat
  h_array :: "'a option list"
  h_compare :: "'s \<Rightarrow> 'a \<Rightarrow> 'a \<Rightarrow> bool"
  h_index :: "('a \<Rightarrow> nat \<Rightarrow> 's \<Rightarrow> 's) option"

definition HEAP_MAGIC :: u32 where
  "HEAP_MAGIC = 0x48454150"

definition VALID_HEAP :: "('a, 's) isc_heap \<Rightarrow> bool" where
  "VALID_HEAP h = (h_magic h = HEAP_MAGIC)"

definition heap_parent :: "nat \<Rightarrow> nat" where
  "heap_parent i = i div 2"

definition heap_left :: "nat \<Rightarrow> nat" where
  "heap_left i = 2 * i"

definition aget :: "('a, 's) isc_heap \<Rightarrow> nat \<Rightarrow> 'a option" where
  "aget h i = (if i < length (h_array h) then h_array h ! i else None)"

definition aset :: "('a, 's) isc_heap \<Rightarrow> nat \<Rightarrow> 'a option \<Rightarrow> ('a, 's) isc_heap option" where
  "aset h i e = (if i < length (h_array h) then Some (h\<lparr>h_array := (h_array h)[i := e]\<rparr>) else None)"

definition call_index :: "('a, 's) isc_heap \<Rightarrow> 'a \<Rightarrow> nat \<Rightarrow> 's \<Rightarrow> 's" where
  "call_index h e i st = (case h_index h of None \<Rightarrow> st | Some f \<Rightarrow> f e i st)"

definition HEAPCONDITION :: "('a, 's) isc_heap \<Rightarrow> 's \<Rightarrow> nat \<Rightarrow> bool option" where
  "HEAPCONDITION h st i =
     (if i = 1 then Some True
      else do { e \<leftarrow> aget h i; p \<leftarrow> aget h (heap_parent i); Some (\<not> h_compare h st e p) })"

section \<open>Operations\<close>

definition isc_heap_create ::
    "bool \<Rightarrow> ('s \<Rightarrow> 'a \<Rightarrow> 'a \<Rightarrow> bool) option \<Rightarrow> ('a \<Rightarrow> nat \<Rightarrow> 's \<Rightarrow> 's) option \<Rightarrow> nat \<Rightarrow>
     (isc_result \<times> ('a, 's) isc_heap option) option" where
  "isc_heap_create mem compare index size_increment = do {
     compare \<leftarrow> compare;
     if \<not> mem then Some (ISC_R_NOMEMORY, None)
     else Some (ISC_R_SUCCESS,
        Some \<lparr>h_magic = HEAP_MAGIC, h_size = 0,
              h_size_increment = (if size_increment = 0 then 1024 else size_increment),
              h_last = 0, h_array = [], h_compare = compare, h_index = index\<rparr>) }"

definition isc_heap_destroy :: "('a, 's) isc_heap \<Rightarrow> ('a, 's) isc_heap option" where
  "isc_heap_destroy h = do {
     REQUIRE (VALID_HEAP h);
     Some (h\<lparr>h_magic := 0, h_array := []\<rparr>) }"

text \<open>\<open>mem\<close> is whether \<open>isc_mem_get\<close> finds memory for the new array. The \<open>memcpy\<close> of the old
  entries needs the new array to be at least as long, which fails only if the sum of the sizes
  wraps.\<close>

definition resize :: "bool \<Rightarrow> ('a, 's) isc_heap \<Rightarrow> (bool \<times> ('a, 's) isc_heap) option" where
  "resize mem h = do {
     REQUIRE (VALID_HEAP h);
     let new_size = (h_size h + h_size_increment h) mod 2 ^ 32 in
     if \<not> mem then Some (False, h)
     else do {
       new_array \<leftarrow> mem_write (replicate new_size None) 0 (h_array h);
       Some (True, h\<lparr>h_size := new_size, h_array := new_array\<rparr>) } }"

function float_up_loop ::
    "('a, 's) isc_heap \<Rightarrow> 's \<Rightarrow> nat \<Rightarrow> 'a \<Rightarrow> (('a, 's) isc_heap \<times> 's \<times> nat) option" where
  "float_up_loop h st i elt =
     (if i > 1 then do {
        p \<leftarrow> aget h (heap_parent i);
        if h_compare h st elt p then do {
          h \<leftarrow> aset h i (Some p);
          float_up_loop h (call_index h p i st) (heap_parent i) elt }
        else Some (h, st, i) }
      else Some (h, st, i))"
  by pat_completeness auto
termination
  by (relation "measure (\<lambda>(h, st, i, elt). i)") (auto simp: heap_parent_def)

declare float_up_loop.simps [simp del]

text \<open>The end of both loops: the element is stored in the slot that was found, its index is
  recorded, and the heap condition is insisted upon.\<close>

definition settle ::
    "('a, 's) isc_heap \<Rightarrow> 's \<Rightarrow> nat \<Rightarrow> 'a \<Rightarrow> (('a, 's) isc_heap \<times> 's) option" where
  "settle h st i elt = do {
     h \<leftarrow> aset h i (Some elt);
     let st = call_index h elt i st in do {
       c \<leftarrow> HEAPCONDITION h st i;
       REQUIRE c;
       Some (h, st) } }"

definition float_up ::
    "('a, 's) isc_heap \<Rightarrow> 's \<Rightarrow> nat \<Rightarrow> 'a \<Rightarrow> (('a, 's) isc_heap \<times> 's) option" where
  "float_up h st i elt = do {
     (h, st, i) \<leftarrow> float_up_loop h st i elt;
     settle h st i elt }"

text \<open>The smallest of the at most two children of \<open>i\<close>.\<close>

definition smaller_child :: "('a, 's) isc_heap \<Rightarrow> 's \<Rightarrow> nat \<Rightarrow> nat option" where
  "smaller_child h st i =
     (let j = heap_left i in
      if j < h_last h then do {
        r \<leftarrow> aget h (j + 1);
        l \<leftarrow> aget h j;
        Some (if h_compare h st r l then j + 1 else j) }
      else Some j)"

text \<open>The loop runs only from a subscript of at least 1; slot 0 holds no element that could be
  compared.\<close>

function sink_down_loop ::
    "('a, 's) isc_heap \<Rightarrow> 's \<Rightarrow> nat \<Rightarrow> 'a \<Rightarrow> (('a, 's) isc_heap \<times> 's \<times> nat) option" where
  "sink_down_loop h st i elt =
     (if i = 0 then None
      else if i \<le> h_last h div 2 then do {
        j \<leftarrow> smaller_child h st i;
        c \<leftarrow> aget h j;
        if h_compare h st elt c then Some (h, st, i)
        else do {
          h \<leftarrow> aset h i (Some c);
          sink_down_loop h (call_index h c i st) j elt } }
      else Some (h, st, i))"
  by pat_completeness auto
termination
  by (relation "measure (\<lambda>(h, st, i, elt). Suc (h_last h) - i)")
    (auto simp: smaller_child_def heap_left_def aset_def Let_def bind_eq_Some_conv split: if_splits)

declare sink_down_loop.simps [simp del]

definition sink_down ::
    "('a, 's) isc_heap \<Rightarrow> 's \<Rightarrow> nat \<Rightarrow> 'a \<Rightarrow> (('a, 's) isc_heap \<times> 's) option" where
  "sink_down h st i elt = do {
     (h, st, i) \<leftarrow> sink_down_loop h st i elt;
     settle h st i elt }"

definition isc_heap_insert ::
    "bool \<Rightarrow> ('a, 's) isc_heap \<Rightarrow> 's \<Rightarrow> 'a \<Rightarrow> (isc_result \<times> ('a, 's) isc_heap \<times> 's) option" where
  "isc_heap_insert mem h st elt = do {
     REQUIRE (VALID_HEAP h);
     let new_last = (h_last h + 1) mod 2 ^ 32 in do {
       REQUIRE (new_last > 0);
       (ok, h) \<leftarrow> (if new_last \<ge> h_size h then resize mem h else Some (True, h));
       if \<not> ok then Some (ISC_R_NOMEMORY, h, st)
       else do {
         (h, st) \<leftarrow> float_up (h\<lparr>h_last := new_last\<rparr>) st new_last elt;
         Some (ISC_R_SUCCESS, h, st) } } }"

definition isc_heap_delete ::
    "('a, 's) isc_heap \<Rightarrow> 's \<Rightarrow> nat \<Rightarrow> (('a, 's) isc_heap \<times> 's) option" where
  "isc_heap_delete h st index = do {
     REQUIRE (VALID_HEAP h);
     REQUIRE (index \<ge> 1 \<and> index \<le> h_last h);
     if index = h_last h then do {
       h \<leftarrow> aset h (h_last h) None;
       Some (h\<lparr>h_last := h_last h - 1\<rparr>, st) }
     else do {
       elt \<leftarrow> aget h (h_last h);
       h \<leftarrow> aset h (h_last h) None;
       let h = h\<lparr>h_last := h_last h - 1\<rparr> in do {
         old \<leftarrow> aget h index;
         let less = h_compare h st elt old in do {
           h \<leftarrow> aset h index (Some elt);
           if less then float_up h st index elt else sink_down h st index elt } } } }"

definition isc_heap_increased ::
    "('a, 's) isc_heap \<Rightarrow> 's \<Rightarrow> nat \<Rightarrow> (('a, 's) isc_heap \<times> 's) option" where
  "isc_heap_increased h st index = do {
     REQUIRE (VALID_HEAP h);
     REQUIRE (index \<ge> 1 \<and> index \<le> h_last h);
     elt \<leftarrow> aget h index;
     float_up h st index elt }"

definition isc_heap_decreased ::
    "('a, 's) isc_heap \<Rightarrow> 's \<Rightarrow> nat \<Rightarrow> (('a, 's) isc_heap \<times> 's) option" where
  "isc_heap_decreased h st index = do {
     REQUIRE (VALID_HEAP h);
     REQUIRE (index \<ge> 1 \<and> index \<le> h_last h);
     elt \<leftarrow> aget h index;
     sink_down h st index elt }"

text \<open>The inner option is the pointer: \<open>Some None\<close> is the null return past the end.\<close>

definition isc_heap_element :: "('a, 's) isc_heap \<Rightarrow> nat \<Rightarrow> 'a option option" where
  "isc_heap_element h index = do {
     REQUIRE (VALID_HEAP h);
     REQUIRE (index \<ge> 1);
     Some (if index \<le> h_last h then aget h index else None) }"

definition isc_heap_foreach :: "('a, 's) isc_heap \<Rightarrow> ('a option \<Rightarrow> 's \<Rightarrow> 's) \<Rightarrow> 's \<Rightarrow> 's option" where
  "isc_heap_foreach h action st = do {
     REQUIRE (VALID_HEAP h);
     Some (fold (\<lambda>i. action (aget h i)) [1..<Suc (h_last h)] st) }"

section \<open>Heap order with one element out of place\<close>

text \<open>Facts about an array \<open>A\<close> of \<open>n\<close> elements under a strict weak order. \<open>up_inv\<close> allows element \<open>i\<close> to
  be too small for its place, \<open>down_inv\<close> allows it to be too large; each loop step moves the
  exception and the loop exits restore the order.\<close>

definition ordered :: "('a \<Rightarrow> 'a \<Rightarrow> bool) \<Rightarrow> (nat \<Rightarrow> 'a) \<Rightarrow> nat \<Rightarrow> bool" where
  "ordered lt A n \<longleftrightarrow> (\<forall>k. 2 \<le> k \<and> k \<le> n \<longrightarrow> \<not> lt (A k) (A (k div 2)))"

definition up_inv :: "('a \<Rightarrow> 'a \<Rightarrow> bool) \<Rightarrow> (nat \<Rightarrow> 'a) \<Rightarrow> nat \<Rightarrow> nat \<Rightarrow> bool" where
  "up_inv lt A n i \<longleftrightarrow>
     (\<forall>k. 2 \<le> k \<and> k \<le> n \<and> k \<noteq> i \<longrightarrow> \<not> lt (A k) (A (k div 2))) \<and>
     (\<forall>k. k div 2 = i \<and> k \<le> n \<and> 2 \<le> i \<longrightarrow> \<not> lt (A k) (A (i div 2)))"

definition down_inv :: "('a \<Rightarrow> 'a \<Rightarrow> bool) \<Rightarrow> (nat \<Rightarrow> 'a) \<Rightarrow> nat \<Rightarrow> nat \<Rightarrow> bool" where
  "down_inv lt A n i \<longleftrightarrow>
     (\<forall>k. 2 \<le> k \<and> k \<le> n \<and> k div 2 \<noteq> i \<longrightarrow> \<not> lt (A k) (A (k div 2))) \<and>
     (\<forall>k. k div 2 = i \<and> k \<le> n \<and> 2 \<le> i \<longrightarrow> \<not> lt (A k) (A (i div 2)))"

locale strict_weak_order =
  fixes less :: "'a \<Rightarrow> 'a \<Rightarrow> bool"
  assumes irrefl: "\<not> less a a"
    and trans: "less a b \<Longrightarrow> less b c \<Longrightarrow> less a c"
    and negtrans: "\<not> less a b \<Longrightarrow> \<not> less b c \<Longrightarrow> \<not> less a c"
begin

lemma asym: "less a b \<Longrightarrow> \<not> less b a"
  using irrefl trans by blast

lemma up_step:
  assumes inv: "up_inv less A n i" and i: "2 \<le> i" "i \<le> n" and lt: "less (A i) (A (i div 2))"
  shows "up_inv less (A(i := A (i div 2), i div 2 := A i)) n (i div 2)"
proof -
  let ?p = "i div 2"
  let ?B = "A(i := A ?p, ?p := A i)"
  have p: "?p \<noteq> i" "?p < i" "1 \<le> ?p" using i by auto
  have ord: "\<And>k. 2 \<le> k \<Longrightarrow> k \<le> n \<Longrightarrow> k \<noteq> i \<Longrightarrow> \<not> less (A k) (A (k div 2))"
    and grand: "\<And>k. k div 2 = i \<Longrightarrow> k \<le> n \<Longrightarrow> \<not> less (A k) (A ?p)"
    using inv i by (auto simp: up_inv_def)
  have "\<not> less (?B k) (?B (k div 2))" if k: "2 \<le> k" "k \<le> n" "k \<noteq> ?p" for k
  proof -
    consider "k = i" | "k \<noteq> i" "k div 2 = i" | "k \<noteq> i" "k div 2 = ?p" | "k \<noteq> i" "k div 2 \<noteq> i" "k div 2 \<noteq> ?p"
      by blast
    then show ?thesis
    proof cases
      case 1 then show ?thesis using asym [OF lt] p by auto
    next
      case 2 then show ?thesis using grand [of k] k p by auto
    next
      case 3
      then have "\<not> less (A k) (A ?p)" using ord [of k] k by auto
      then have "\<not> less (A k) (A i)" using lt trans by blast
      then show ?thesis using 3 k p by auto
    next
      case 4 then show ?thesis using ord [of k] k by auto
    qed
  qed
  moreover have "\<not> less (?B k) (?B (?p div 2))" if k: "k div 2 = ?p" "k \<le> n" "2 \<le> ?p" for k
  proof -
    have g: "\<not> less (A ?p) (A (?p div 2))" using ord [of ?p] k p i by auto
    have pp: "?p div 2 \<noteq> i" "?p div 2 \<noteq> ?p" using p by auto
    have kp: "k \<noteq> ?p" using k by auto
    show ?thesis
    proof (cases "k = i")
      case True then show ?thesis using g pp p by auto
    next
      case False
      then have "\<not> less (A k) (A ?p)" using ord [of k] k by auto
      then show ?thesis using negtrans [OF _ g] False pp kp by auto
    qed
  qed
  ultimately show ?thesis by (auto simp: up_inv_def)
qed

lemma up_done:
  assumes "up_inv less A n i" and "i \<le> 1 \<or> \<not> less (A i) (A (i div 2))"
  shows "ordered less A n"
  unfolding ordered_def
proof (intro allI impI, elim conjE)
  fix k assume "2 \<le> k" "k \<le> n"
  then show "\<not> less (A k) (A (k div 2))" using assms by (cases "k = i") (auto simp: up_inv_def)
qed

lemma down_step:
  assumes inv: "down_inv less A n i" and i: "1 \<le> i" "j \<le> n" and j: "j div 2 = i"
    and least: "\<And>k. k div 2 = i \<Longrightarrow> k \<le> n \<Longrightarrow> \<not> less (A k) (A j)"
    and le: "\<not> less (A i) (A j)"
  shows "down_inv less (A(i := A j, j := A i)) n j"
proof -
  let ?B = "A(i := A j, j := A i)"
  have ne: "j \<noteq> i" "i < j" "2 \<le> j" using i j by auto
  have ord: "\<And>k. 2 \<le> k \<Longrightarrow> k \<le> n \<Longrightarrow> k div 2 \<noteq> i \<Longrightarrow> \<not> less (A k) (A (k div 2))"
    and grand: "\<And>k. k div 2 = i \<Longrightarrow> k \<le> n \<Longrightarrow> 2 \<le> i \<Longrightarrow> \<not> less (A k) (A (i div 2))"
    using inv by (auto simp: down_inv_def)
  have "\<not> less (?B k) (?B (k div 2))" if k: "2 \<le> k" "k \<le> n" "k div 2 \<noteq> j" for k
  proof -
    consider "k = i" | "k = j" | "k \<noteq> i" "k \<noteq> j" "k div 2 = i" | "k \<noteq> i" "k \<noteq> j" "k div 2 \<noteq> i"
      by blast
    then show ?thesis
    proof cases
      case 1 then show ?thesis using grand [OF j i(2)] ne k by auto
    next
      case 2 then show ?thesis using le ne j by auto
    next
      case 3 then show ?thesis using least [of k] k ne by auto
    next
      case 4 then show ?thesis using ord [of k] k ne by auto
    qed
  qed
  moreover have "\<not> less (?B k) (?B (j div 2))" if k: "k div 2 = j" "k \<le> n" "2 \<le> j" for k
    using ord [of k] k j ne by auto
  ultimately show ?thesis by (auto simp: down_inv_def)
qed

lemma down_done_leaf: "down_inv less A n i \<Longrightarrow> n < 2 * i \<Longrightarrow> ordered less A n"
  by (auto simp: down_inv_def ordered_def)

lemma down_done:
  assumes inv: "down_inv less A n i"
    and least: "\<And>k. k div 2 = i \<Longrightarrow> k \<le> n \<Longrightarrow> \<not> less (A k) (A j)" and lt: "less (A i) (A j)"
  shows "ordered less A n"
  unfolding ordered_def
proof (intro allI impI, elim conjE)
  fix k assume k: "2 \<le> k" "k \<le> n"
  show "\<not> less (A k) (A (k div 2))"
  proof (cases "k div 2 = i")
    case True
    then show ?thesis using least [OF True k(2)] lt trans by blast
  next
    case False then show ?thesis using inv k by (auto simp: down_inv_def)
  qed
qed

end

section \<open>Correctness of the loops\<close>

definition heap_wf :: "('a, 's) isc_heap \<Rightarrow> bool" where
  "heap_wf h \<longleftrightarrow> VALID_HEAP h \<and> length (h_array h) = h_size h \<and> h_size h < 2 ^ 32 \<and>
     0 < h_size_increment h \<and> (h_last h = 0 \<or> h_last h < h_size h) \<and>
     (\<forall>k. 1 \<le> k \<and> k \<le> h_last h \<longrightarrow> h_array h ! k \<noteq> None)"

definition at :: "'a option list \<Rightarrow> nat \<Rightarrow> 'a" where
  "at arr k = the (arr ! k)"

definition slots_ok :: "'a option list \<Rightarrow> nat \<Rightarrow> bool" where
  "slots_ok arr n \<longleftrightarrow> n < length arr \<and> (\<forall>k. 1 \<le> k \<and> k \<le> n \<longrightarrow> arr ! k \<noteq> None)"

lemma at_update: "i < length arr \<Longrightarrow> at (arr[i := Some e]) = (at arr)(i := e)"
  by (auto simp: at_def fun_eq_iff nth_list_update)

lemma slots_ok_nth: "slots_ok arr n \<Longrightarrow> 1 \<le> k \<Longrightarrow> k \<le> n \<Longrightarrow> arr ! k = Some (at arr k)"
  by (auto simp: slots_ok_def at_def)

lemma slots_ok_update: "slots_ok arr n \<Longrightarrow> slots_ok (arr[i := Some e]) n"
  by (cases "i < length arr") (auto simp: slots_ok_def nth_list_update list_update_beyond)

text \<open>Moving the hole from \<open>i\<close> to \<open>p\<close>, seen on the array with the pending element filled in, is a
  swap.\<close>

lemma hole_move:
  assumes "slots_ok (arr[i := Some elt]) n" and "q \<noteq> i" and "1 \<le> q" "q \<le> n" and "i \<le> n"
  defines "B \<equiv> arr[i := Some elt]" and "C \<equiv> arr[i := Some (at (arr[i := Some elt]) q), q := Some elt]"
  shows "arr ! q = Some (at B q)" and "at B i = elt"
    and "at C = (at B)(i := at B q, q := at B i)"
    and "slots_ok C n" and "mset C = mset B" and "k = 0 \<or> n < k \<Longrightarrow> 1 \<le> i \<Longrightarrow> C ! k = arr ! k"
proof -
  have len: "i < length arr" "q < length arr" using assms by (auto simp: slots_ok_def)
  show q: "arr ! q = Some (at B q)"
    using slots_ok_nth [OF assms(1,3,4)] assms(2) by (simp add: B_def)
  show elt: "at B i = elt" using len by (simp add: at_def B_def)
  show "at C = (at B)(i := at B q, q := at B i)"
    using len elt by (simp add: C_def B_def at_update)
  show "slots_ok C n"
    using slots_ok_update [OF slots_ok_update [OF assms(1)], of i "at B q" q elt]
    by (simp add: C_def B_def)
  have "C = B[i := B ! q, q := B ! i]"
    using q len assms(2) by (simp add: C_def B_def)
  then show "mset C = mset B" using mset_swap [of q B i] len by (simp add: B_def)
  show "C ! k = arr ! k" if "k = 0 \<or> n < k" "1 \<le> i"
    using that assms(3-5) by (auto simp: C_def)
qed

locale heap_order =
  fixes compare :: "'s \<Rightarrow> 'a \<Rightarrow> 'a \<Rightarrow> bool"
    and index :: "('a \<Rightarrow> nat \<Rightarrow> 's \<Rightarrow> 's) option"
  assumes compare_irrefl: "\<not> compare st a a"
    and compare_trans: "compare st a b \<Longrightarrow> compare st b c \<Longrightarrow> compare st a c"
    and compare_negtrans: "\<not> compare st a b \<Longrightarrow> \<not> compare st b c \<Longrightarrow> \<not> compare st a c"
    and index_compare: "index = Some f \<Longrightarrow> compare (f e i st) = compare st"

sublocale heap_order < swo: strict_weak_order "compare st" for st
  by unfold_locales (fact compare_irrefl compare_trans compare_negtrans)+

context heap_order
begin

definition uses :: "('a, 's) isc_heap \<Rightarrow> bool" where
  "uses h \<longleftrightarrow> h_compare h = compare \<and> h_index h = index"

lemma compare_call_index: "uses h \<Longrightarrow> compare (call_index h e i st) = compare st"
  using index_compare by (auto simp: uses_def call_index_def split: option.splits)

lemma uses_update [simp]:
  "uses (h\<lparr>h_array := a\<rparr>) = uses h" "uses (h\<lparr>h_last := n\<rparr>) = uses h" "uses (h\<lparr>h_size := m\<rparr>) = uses h"
  by (simp_all add: uses_def)

lemma float_up_loop_ok:
  assumes "uses h" and "slots_ok ((h_array h)[i := Some elt]) (h_last h)"
    and "1 \<le> i" and "i \<le> h_last h"
    and "up_inv (compare st) (at ((h_array h)[i := Some elt])) (h_last h) i"
  shows "\<exists>arr st' i'. float_up_loop h st i elt = Some (h\<lparr>h_array := arr\<rparr>, st', i') \<and>
    1 \<le> i' \<and> i' \<le> h_last h \<and> length arr = length (h_array h) \<and>
    mset (arr[i' := Some elt]) = mset ((h_array h)[i := Some elt]) \<and>
    slots_ok (arr[i' := Some elt]) (h_last h) \<and>
    (\<forall>k. k = 0 \<or> k > h_last h \<longrightarrow> arr ! k = h_array h ! k) \<and>
    compare st' = compare st \<and> ordered (compare st) (at (arr[i' := Some elt])) (h_last h)"
  using assms
proof (induction h st i elt rule: float_up_loop.induct)
  case (1 h st i elt)
  let ?B = "(h_array h)[i := Some elt]" and ?p = "i div 2" and ?n = "h_last h"
  have i: "i < length (h_array h)" using "1.prems"(2,4) by (simp add: slots_ok_def)
  show ?case
  proof (cases "1 < i")
    case False
    then have "ordered (compare st) (at ?B) ?n" using swo.up_done [OF "1.prems"(5)] by auto
    then show ?thesis using False "1.prems"
      by (auto simp: float_up_loop.simps [of h] intro!: exI [of _ "h_array h"])
  next
    case True
    then have p: "?p \<noteq> i" "1 \<le> ?p" "?p \<le> ?n" using "1.prems"(4) by auto
    note move = hole_move [OF "1.prems"(2) p "1.prems"(4)]
    have get: "aget h (heap_parent i) = Some (at ?B ?p)"
      using move(1) p(3) "1.prems"(2) by (simp add: aget_def heap_parent_def slots_ok_def)
    show ?thesis
    proof (cases "compare st elt (at ?B ?p)")
      case False
      then have "ordered (compare st) (at ?B) ?n"
        using swo.up_done [OF "1.prems"(5)] move(2) by auto
      then show ?thesis using True False get "1.prems"
        by (auto simp: float_up_loop.simps [of h] uses_def intro!: exI [of _ "h_array h"])
    next
      case lt: True
      let ?h = "h\<lparr>h_array := (h_array h)[i := Some (at ?B ?p)]\<rparr>"
      let ?st = "call_index ?h (at ?B ?p) i st"
      have set: "aset h i (Some (at ?B ?p)) = Some ?h" using i by (simp add: aset_def)
      have cmp: "compare ?st = compare st" using compare_call_index [of ?h] "1.prems"(1) by simp
      have unf: "float_up_loop h st i elt = float_up_loop ?h ?st ?p elt"
        using True get set lt "1.prems"(1)
        by (simp add: float_up_loop.simps [of h] uses_def heap_parent_def)
      have "up_inv (compare ?st) (at ((h_array ?h)[?p := Some elt])) ?n ?p"
        using swo.up_step [OF "1.prems"(5)] True "1.prems"(4) lt cmp move(2,3) by simp
      then obtain arr st' i' where r:
          "float_up_loop ?h ?st ?p elt = Some (?h\<lparr>h_array := arr\<rparr>, st', i')" "1 \<le> i'" "i' \<le> ?n"
          "length arr = length (h_array h)"
          "mset (arr[i' := Some elt]) = mset ((h_array ?h)[?p := Some elt])"
          "slots_ok (arr[i' := Some elt]) ?n"
          "\<forall>k. k = 0 \<or> k > ?n \<longrightarrow> arr ! k = h_array ?h ! k"
          "compare st' = compare ?st" "ordered (compare ?st) (at (arr[i' := Some elt])) ?n"
        using "1.IH" [OF True get _ set] lt "1.prems"(1) p move(4)
        by (auto simp: uses_def heap_parent_def)
      then show ?thesis using unf cmp move(5) "1.prems"(3,4)
        by (auto intro!: exI [of _ arr])
    qed
  qed
qed

lemma smaller_child_ok:
  assumes "uses h" and "slots_ok ((h_array h)[i := Some elt]) (h_last h)"
    and "1 \<le> i" and "i \<le> h_last h div 2"
  shows "\<exists>j. smaller_child h st i = Some j \<and> j div 2 = i \<and> j \<le> h_last h \<and>
    (\<forall>k. k div 2 = i \<and> k \<le> h_last h \<longrightarrow>
       \<not> compare st (at ((h_array h)[i := Some elt]) k) (at ((h_array h)[i := Some elt]) j))"
proof -
  let ?B = "(h_array h)[i := Some elt]" and ?n = "h_last h"
  have kids: "k = 2 * i \<or> k = 2 * i + 1" if "k div 2 = i" for k using that by auto
  have get: "aget h k = Some (at ?B k)" if "k \<noteq> i" "1 \<le> k" "k \<le> ?n" for k
    using slots_ok_nth [OF assms(2) that(2,3)] that assms(2)
    by (simp add: aget_def slots_ok_def)
  have l: "aget h (2 * i) = Some (at ?B (2 * i))" using assms(3,4) by (intro get) auto
  show ?thesis
  proof (cases "2 * i < ?n")
    case True
    then have r: "aget h (2 * i + 1) = Some (at ?B (2 * i + 1))" by (intro get) auto
    let ?j = "if compare st (at ?B (2 * i + 1)) (at ?B (2 * i)) then 2 * i + 1 else 2 * i"
    have "smaller_child h st i = Some ?j"
      using True l r assms(1) by (simp add: smaller_child_def heap_left_def uses_def)
    moreover have "\<not> compare st (at ?B k) (at ?B ?j)" if "k div 2 = i" for k
      using kids [OF that] swo.irrefl swo.asym by auto
    ultimately show ?thesis using True by (intro exI [of _ ?j]) auto
  next
    case False
    then have "smaller_child h st i = Some (2 * i)" by (simp add: smaller_child_def heap_left_def)
    moreover have "\<not> compare st (at ?B k) (at ?B (2 * i))" if "k div 2 = i" "k \<le> ?n" for k
      using kids [OF that(1)] that(2) False swo.irrefl by auto
    ultimately show ?thesis using assms(4) by (intro exI [of _ "2 * i"]) auto
  qed
qed

lemma sink_down_loop_ok:
  assumes "uses h" and "slots_ok ((h_array h)[i := Some elt]) (h_last h)"
    and "1 \<le> i" and "i \<le> h_last h"
    and "down_inv (compare st) (at ((h_array h)[i := Some elt])) (h_last h) i"
  shows "\<exists>arr st' i'. sink_down_loop h st i elt = Some (h\<lparr>h_array := arr\<rparr>, st', i') \<and>
    1 \<le> i' \<and> i' \<le> h_last h \<and> length arr = length (h_array h) \<and>
    mset (arr[i' := Some elt]) = mset ((h_array h)[i := Some elt]) \<and>
    slots_ok (arr[i' := Some elt]) (h_last h) \<and>
    (\<forall>k. k = 0 \<or> k > h_last h \<longrightarrow> arr ! k = h_array h ! k) \<and>
    compare st' = compare st \<and> ordered (compare st) (at (arr[i' := Some elt])) (h_last h)"
  using assms
proof (induction h st i elt rule: sink_down_loop.induct)
  case (1 h st i elt)
  let ?B = "(h_array h)[i := Some elt]" and ?n = "h_last h"
  have i: "i < length (h_array h)" "i \<noteq> 0" using "1.prems"(2-4) by (simp_all add: slots_ok_def)
  show ?case
  proof (cases "i \<le> ?n div 2")
    case False
    then have "ordered (compare st) (at ?B) ?n" using swo.down_done_leaf [OF "1.prems"(5)] by auto
    then show ?thesis using False i "1.prems"
      by (auto simp: sink_down_loop.simps [of h] intro!: exI [of _ "h_array h"])
  next
    case True
    obtain j where j: "smaller_child h st i = Some j" "j div 2 = i" "j \<le> ?n"
      and least: "\<And>k. k div 2 = i \<Longrightarrow> k \<le> ?n \<Longrightarrow> \<not> compare st (at ?B k) (at ?B j)"
      using smaller_child_ok [OF "1.prems"(1-3) True] by blast
    have ji: "j \<noteq> i" "1 \<le> j" using j(2) i(2) by auto
    note move = hole_move [OF "1.prems"(2) ji j(3) "1.prems"(4)]
    have get: "aget h j = Some (at ?B j)"
      using move(1) j(3) "1.prems"(2) by (simp add: aget_def slots_ok_def)
    show ?thesis
    proof (cases "compare st elt (at ?B j)")
      case lt: True
      then have "ordered (compare st) (at ?B) ?n"
        using swo.down_done [OF "1.prems"(5), of j] least move(2) by auto
      then show ?thesis using True lt j(1) get i "1.prems"
        by (auto simp: sink_down_loop.simps [of h] uses_def intro!: exI [of _ "h_array h"])
    next
      case False
      let ?h = "h\<lparr>h_array := (h_array h)[i := Some (at ?B j)]\<rparr>"
      let ?st = "call_index ?h (at ?B j) i st"
      have set: "aset h i (Some (at ?B j)) = Some ?h" using i by (simp add: aset_def)
      have cmp: "compare ?st = compare st" using compare_call_index [of ?h] "1.prems"(1) by simp
      have unf: "sink_down_loop h st i elt = sink_down_loop ?h ?st j elt"
        using True False get set j(1) i(2) "1.prems"(1)
        by (simp add: sink_down_loop.simps [of h] uses_def)
      have "down_inv (compare ?st) (at ((h_array ?h)[j := Some elt])) ?n j"
        using swo.down_step [OF "1.prems"(5,3) j(3,2) least] False cmp move(2,3) by simp
      then obtain arr st' i' where r:
          "sink_down_loop ?h ?st j elt = Some (?h\<lparr>h_array := arr\<rparr>, st', i')" "1 \<le> i'" "i' \<le> ?n"
          "length arr = length (h_array h)"
          "mset (arr[i' := Some elt]) = mset ((h_array ?h)[j := Some elt])"
          "slots_ok (arr[i' := Some elt]) ?n"
          "\<forall>k. k = 0 \<or> k > ?n \<longrightarrow> arr ! k = h_array ?h ! k"
          "compare st' = compare ?st" "ordered (compare ?st) (at (arr[i' := Some elt])) ?n"
        using "1.IH" [OF i(2) True j(1) get _ set] False "1.prems"(1) ji j(3) move(4)
        by (auto simp: uses_def)
      then show ?thesis using unf cmp move(5) "1.prems"(3,4)
        by (auto intro!: exI [of _ arr])
    qed
  qed
qed

lemma settle_ok:
  assumes "uses h" and "1 \<le> i" "i \<le> h_last h" and "slots_ok (arr[i := Some elt]) (h_last h)"
    and "ordered (compare st) (at (arr[i := Some elt])) (h_last h)"
  shows "\<exists>st'. settle (h\<lparr>h_array := arr\<rparr>) st i elt = Some (h\<lparr>h_array := arr[i := Some elt]\<rparr>, st') \<and>
    compare st' = compare st"
proof -
  let ?B = "arr[i := Some elt]"
  let ?h = "h\<lparr>h_array := ?B\<rparr>"
  let ?st = "call_index ?h elt i st"
  have len: "i < length arr" using assms(3,4) by (simp add: slots_ok_def)
  have cmp: "compare ?st = compare st" using compare_call_index [of ?h] assms(1) by simp
  have get: "aget ?h k = Some (at ?B k)" if "1 \<le> k" "k \<le> h_last h" for k
    using slots_ok_nth [OF assms(4) that] that assms(4) by (simp add: aget_def slots_ok_def)
  have "HEAPCONDITION ?h ?st i = Some True"
  proof (cases "i = 1")
    case False
    then have "aget ?h (i div 2) = Some (at ?B (i div 2))" using assms(2,3) by (intro get) auto
    moreover have "\<not> compare st (at ?B i) (at ?B (i div 2))"
      using assms(2,3,5) False by (simp add: ordered_def)
    ultimately show ?thesis using get [OF assms(2,3)] cmp assms(1)
      by (simp add: HEAPCONDITION_def heap_parent_def uses_def)
  qed (simp add: HEAPCONDITION_def)
  then show ?thesis using len cmp by (simp add: settle_def aset_def Let_def)
qed

end

section \<open>Correctness of the operations\<close>

definition heap_elems :: "('a, 's) isc_heap \<Rightarrow> 'a multiset" where
  "heap_elems h = mset (map (at (h_array h)) [1..<Suc (h_last h)])"

lemma elems_take: "n < length arr \<Longrightarrow> map (at arr) [1..<Suc n] = map the (take n (drop 1 arr))"
  by (rule nth_equalityI) (auto simp: at_def simp del: upt_Suc)

lemma elems_perm:
  assumes "length arr = length arr'" and "mset arr = mset arr'" and "n < length arr"
    and "\<forall>k. k = 0 \<or> n < k \<longrightarrow> arr ! k = arr' ! k"
  shows "mset (map (at arr) [1..<Suc n]) = mset (map (at arr') [1..<Suc n])"
proof -
  have split: "mset xs = {#xs ! 0#} + mset (take n (drop 1 xs)) + mset (drop (Suc n) xs)"
    if "n < length xs" for xs :: "'a option list"
  proof -
    from that obtain y ys where ys: "xs = y # ys" by (cases xs) auto
    then have "mset ys = mset (take n ys) + mset (drop n ys)"
      by (metis append_take_drop_id mset_append)
    then show ?thesis using ys by simp
  qed
  have "drop (Suc n) arr = drop (Suc n) arr'"
    using assms by (intro nth_equalityI) auto
  then have "mset (take n (drop 1 arr)) = mset (take n (drop 1 arr'))"
    using split [of arr] split [of arr'] assms by simp
  then show ?thesis using assms(1,3) by (metis elems_take mset_map)
qed

lemma wf_slots: "heap_wf h \<Longrightarrow> 0 < h_last h \<Longrightarrow> slots_ok (h_array h) (h_last h)"
  by (auto simp: heap_wf_def slots_ok_def)

lemma wf_from_slots:
  assumes "heap_wf h" and "slots_ok B n" and "length B = length (h_array h)"
  shows "heap_wf (h\<lparr>h_array := B, h_last := n\<rparr>)" and "heap_wf (h\<lparr>h_last := n, h_array := B\<rparr>)"
  using assms by (auto simp: heap_wf_def slots_ok_def VALID_HEAP_def)

context heap_order
begin

definition heap_inv :: "'s \<Rightarrow> ('a, 's) isc_heap \<Rightarrow> bool" where
  "heap_inv st h \<longleftrightarrow> heap_wf h \<and> uses h \<and> ordered (compare st) (at (h_array h)) (h_last h)"

definition restored :: "('a, 's) isc_heap \<Rightarrow> 's \<Rightarrow> 'a option list \<Rightarrow>
    (('a, 's) isc_heap \<times> 's) option \<Rightarrow> bool" where
  "restored h st B r \<longleftrightarrow> (\<exists>arr st'. r = Some (h\<lparr>h_array := arr\<rparr>, st') \<and>
     length arr = length B \<and> slots_ok arr (h_last h) \<and> compare st' = compare st \<and>
     mset (map (at arr) [1..<Suc (h_last h)]) = mset (map (at B) [1..<Suc (h_last h)]) \<and>
     ordered (compare st) (at arr) (h_last h))"

lemma settle_restored:
  assumes "uses h" and "slots_ok B (h_last h)" and "length B = length arr"
    and "1 \<le> i" "i \<le> h_last h" and "mset (arr[i := Some elt]) = mset B"
    and "slots_ok (arr[i := Some elt]) (h_last h)"
    and "\<forall>k. k = 0 \<or> h_last h < k \<longrightarrow> arr ! k = B ! k"
    and "compare st' = compare st" and "ordered (compare st) (at (arr[i := Some elt])) (h_last h)"
  shows "restored h st B (settle (h\<lparr>h_array := arr\<rparr>) st' i elt)"
proof -
  obtain st'' where "settle (h\<lparr>h_array := arr\<rparr>) st' i elt = Some (h\<lparr>h_array := arr[i := Some elt]\<rparr>, st'')"
      "compare st'' = compare st'"
    using settle_ok [of h i arr elt st'] assms by auto
  moreover have "mset (map (at (arr[i := Some elt])) [1..<Suc (h_last h)]) =
      mset (map (at B) [1..<Suc (h_last h)])"
    using assms by (intro elems_perm) (auto simp: slots_ok_def)
  ultimately show ?thesis using assms by (auto simp: restored_def)
qed

lemma float_up_ok:
  assumes "uses h" and "slots_ok ((h_array h)[i := Some elt]) (h_last h)"
    and "1 \<le> i" and "i \<le> h_last h"
    and "up_inv (compare st) (at ((h_array h)[i := Some elt])) (h_last h) i"
  shows "restored h st ((h_array h)[i := Some elt]) (float_up h st i elt)"
proof -
  obtain arr st' i' where r: "float_up_loop h st i elt = Some (h\<lparr>h_array := arr\<rparr>, st', i')"
      "1 \<le> i'" "i' \<le> h_last h" "length arr = length (h_array h)"
      "mset (arr[i' := Some elt]) = mset ((h_array h)[i := Some elt])"
      "slots_ok (arr[i' := Some elt]) (h_last h)"
      "\<forall>k. k = 0 \<or> k > h_last h \<longrightarrow> arr ! k = h_array h ! k"
      "compare st' = compare st" "ordered (compare st) (at (arr[i' := Some elt])) (h_last h)"
    using float_up_loop_ok [OF assms] by blast
  have "restored h st ((h_array h)[i := Some elt]) (settle (h\<lparr>h_array := arr\<rparr>) st' i' elt)"
    using r assms by (intro settle_restored) auto
  with r(1) show ?thesis by (simp add: float_up_def)
qed

lemma sink_down_ok:
  assumes "uses h" and "slots_ok ((h_array h)[i := Some elt]) (h_last h)"
    and "1 \<le> i" and "i \<le> h_last h"
    and "down_inv (compare st) (at ((h_array h)[i := Some elt])) (h_last h) i"
  shows "restored h st ((h_array h)[i := Some elt]) (sink_down h st i elt)"
proof -
  obtain arr st' i' where r: "sink_down_loop h st i elt = Some (h\<lparr>h_array := arr\<rparr>, st', i')"
      "1 \<le> i'" "i' \<le> h_last h" "length arr = length (h_array h)"
      "mset (arr[i' := Some elt]) = mset ((h_array h)[i := Some elt])"
      "slots_ok (arr[i' := Some elt]) (h_last h)"
      "\<forall>k. k = 0 \<or> k > h_last h \<longrightarrow> arr ! k = h_array h ! k"
      "compare st' = compare st" "ordered (compare st) (at (arr[i' := Some elt])) (h_last h)"
    using sink_down_loop_ok [OF assms] by blast
  have "restored h st ((h_array h)[i := Some elt]) (settle (h\<lparr>h_array := arr\<rparr>) st' i' elt)"
    using r assms by (intro settle_restored) auto
  with r(1) show ?thesis by (simp add: sink_down_def)
qed

lemma restored_inv:
  assumes "restored h st B r" and "heap_wf h" and "uses h" and "length B = length (h_array h)"
  shows "\<exists>h' st'. r = Some (h', st') \<and> heap_inv st' h' \<and> compare st' = compare st \<and>
    h_last h' = h_last h \<and> heap_elems h' = mset (map (at B) [1..<Suc (h_last h)])"
proof -
  obtain arr st' where r: "r = Some (h\<lparr>h_array := arr\<rparr>, st')" "length arr = length B"
      "slots_ok arr (h_last h)" "compare st' = compare st"
      "mset (map (at arr) [1..<Suc (h_last h)]) = mset (map (at B) [1..<Suc (h_last h)])"
      "ordered (compare st) (at arr) (h_last h)"
    using assms(1) by (auto simp: restored_def)
  have "heap_wf (h\<lparr>h_array := arr\<rparr>)"
    using wf_from_slots(1) [OF assms(2) r(3)] r(2) assms(4) by simp
  then show ?thesis using r assms(3) by (auto simp: heap_inv_def heap_elems_def)
qed

lemma insert_resized:
  assumes wf: "heap_wf h" and u: "uses h" and ord: "ordered (compare st) (at (h_array h)) (h_last h)"
    and room: "Suc (h_last h) < h_size h"
  shows "\<exists>h' st'. float_up (h\<lparr>h_last := Suc (h_last h)\<rparr>) st (Suc (h_last h)) elt = Some (h', st') \<and>
    heap_inv st' h' \<and> compare st' = compare st \<and> h_last h' = Suc (h_last h) \<and>
    heap_elems h' = add_mset elt (heap_elems h)"
proof -
  let ?n = "Suc (h_last h)"
  let ?B = "(h_array h)[?n := Some elt]"
  let ?h = "h\<lparr>h_last := ?n\<rparr>"
  have len: "?n < length (h_array h)" using wf room by (simp add: heap_wf_def)
  have at: "at ?B = (at (h_array h))(?n := elt)" using len by (simp add: at_update)
  have slots: "slots_ok ?B ?n"
    using wf len by (auto simp: slots_ok_def heap_wf_def nth_list_update)
  have "up_inv (compare st) (at ?B) ?n ?n"
    using ord by (auto simp: up_inv_def ordered_def at)
  with slots have r: "restored ?h st ?B (float_up ?h st ?n elt)"
    using float_up_ok [of ?h ?n elt st] u by simp
  have "heap_wf (h\<lparr>h_array := ?B, h_last := ?n\<rparr>)" using wf_from_slots(1) [OF wf slots] by simp
  have "restored (h\<lparr>h_array := ?B, h_last := ?n\<rparr>) st ?B (float_up ?h st ?n elt)"
    using r by (simp add: restored_def)
  from restored_inv [OF this \<open>heap_wf (h\<lparr>h_array := ?B, h_last := ?n\<rparr>)\<close>] u
  show ?thesis by (auto simp: heap_elems_def at)
qed

lemma insert_run:
  assumes inv: "heap_inv st h" and fits: "Suc (h_last h) < 2 ^ 32"
    and mem: "mem \<or> Suc (h_last h) < h_size h" and grow: "h_size h + h_size_increment h < 2 ^ 32"
    and inc: "2 \<le> h_size_increment h"
  shows "\<exists>h1. heap_wf h1 \<and> uses h1 \<and> h_last h1 = h_last h \<and> Suc (h_last h) < h_size h1 \<and>
    (\<forall>k. 1 \<le> k \<and> k \<le> h_last h \<longrightarrow> at (h_array h1) k = at (h_array h) k) \<and>
    isc_heap_insert mem h st elt =
      map_option (Pair ISC_R_SUCCESS) (float_up (h1\<lparr>h_last := Suc (h_last h)\<rparr>) st (Suc (h_last h)) elt)"
proof (cases "Suc (h_last h) < h_size h")
  case True
  then show ?thesis
    using inv fits
    by (intro exI [of _ h])
      (auto simp: heap_inv_def isc_heap_insert_def heap_wf_def Let_def map_conv_bind_option comp_def case_prod_unfold)
next
  case False
  let ?m = "h_size h + h_size_increment h"
  let ?arr = "h_array h @ replicate (h_size_increment h) None"
  let ?h = "h\<lparr>h_size := ?m, h_array := ?arr\<rparr>"
  have wf: "heap_wf h" and last: "h_last h \<le> h_size h" using inv by (auto simp: heap_inv_def heap_wf_def)
  have "resize mem h = Some (True, ?h)"
    using wf grow False mem by (simp add: resize_def heap_wf_def mem_write_def Let_def)
  moreover have "heap_wf ?h"
    using wf grow False by (auto simp: heap_wf_def VALID_HEAP_def nth_append)
  moreover have "at ?arr k = at (h_array h) k" if "1 \<le> k" "k \<le> h_last h" for k
    using wf that by (auto simp: at_def nth_append heap_wf_def)
  moreover have "Suc (h_last h) < ?m" using last inc wf by (auto simp: heap_wf_def)
  ultimately show ?thesis
    using wf fits False inv
    by (intro exI [of _ ?h])
      (auto simp: isc_heap_insert_def heap_wf_def Let_def heap_inv_def map_conv_bind_option comp_def case_prod_unfold)
qed

lemma insert_ok:
  assumes inv: "heap_inv st h" and "Suc (h_last h) < 2 ^ 32"
    and "mem \<or> Suc (h_last h) < h_size h" and "h_size h + h_size_increment h < 2 ^ 32"
    and "2 \<le> h_size_increment h"
  shows "\<exists>h' st'. isc_heap_insert mem h st elt = Some (ISC_R_SUCCESS, h', st') \<and>
    heap_inv st' h' \<and> compare st' = compare st \<and> h_last h' = Suc (h_last h) \<and>
    heap_elems h' = add_mset elt (heap_elems h)"
proof -
  obtain h1 where h1: "heap_wf h1" "uses h1" "h_last h1 = h_last h" "Suc (h_last h) < h_size h1"
      "\<And>k. 1 \<le> k \<Longrightarrow> k \<le> h_last h \<Longrightarrow> at (h_array h1) k = at (h_array h) k"
      "isc_heap_insert mem h st elt = map_option (Pair ISC_R_SUCCESS)
         (float_up (h1\<lparr>h_last := Suc (h_last h)\<rparr>) st (Suc (h_last h)) elt)"
    using insert_run [OF assms] by blast
  have "ordered (compare st) (at (h_array h1)) (h_last h1)"
    using inv h1(3,5) by (auto simp: heap_inv_def ordered_def)
  moreover have "heap_elems h1 = heap_elems h"
    using h1(3,5) unfolding heap_elems_def by (intro arg_cong [of _ _ mset]) auto
  ultimately show ?thesis using insert_resized [OF h1(1,2), of st elt] h1(3,4,6) by auto
qed

lemma insert_nomem:
  assumes "heap_wf h" and "Suc (h_last h) < 2 ^ 32" and "h_size h \<le> Suc (h_last h)"
  shows "isc_heap_insert False h st elt = Some (ISC_R_NOMEMORY, h, st)"
  using assms by (auto simp: isc_heap_insert_def resize_def heap_wf_def Let_def)

lemma replace_up:
  assumes "ordered (compare st) A n" and "compare st e (A i)" and that: "m \<le> n"
  shows "up_inv (compare st) (A(i := e)) m i"
  unfolding up_inv_def
proof (intro conjI allI impI; elim conjE)
  fix k assume k: "2 \<le> k" "k \<le> m" "k \<noteq> i"
  then have "\<not> compare st (A k) (A (k div 2))" using assms(1) that by (auto simp: ordered_def)
  then show "\<not> compare st ((A(i := e)) k) ((A(i := e)) (k div 2))"
    using k assms(2) swo.trans [of st "A k" e "A i"] by auto
next
  fix k assume k: "k div 2 = i" "k \<le> m" "2 \<le> i"
  then have "\<not> compare st (A k) (A i)" "\<not> compare st (A i) (A (i div 2))"
    using assms(1) that by (auto simp: ordered_def)
  then show "\<not> compare st ((A(i := e)) k) ((A(i := e)) (i div 2))"
    using k swo.negtrans [of st "A k" "A i" "A (i div 2)"] by auto
qed

lemma replace_down:
  assumes "ordered (compare st) A n" and "\<not> compare st e (A i)" and "1 \<le> i" "i \<le> m"
    and that: "m \<le> n"
  shows "down_inv (compare st) (A(i := e)) m i"
  unfolding down_inv_def
proof (intro conjI allI impI; elim conjE)
  fix k assume k: "2 \<le> k" "k \<le> m" "k div 2 \<noteq> i"
  then have "\<not> compare st (A k) (A (k div 2))" using assms(1) that by (auto simp: ordered_def)
  then show "\<not> compare st ((A(i := e)) k) ((A(i := e)) (k div 2))"
    using k assms(2) swo.negtrans [of st e "A i" "A (k div 2)"] by auto
next
  fix k assume k: "k div 2 = i" "k \<le> m" "2 \<le> i"
  then have "\<not> compare st (A k) (A i)" "\<not> compare st (A i) (A (i div 2))"
    using assms(1) that by (auto simp: ordered_def)
  then show "\<not> compare st ((A(i := e)) k) ((A(i := e)) (i div 2))"
    using k swo.negtrans [of st "A k" "A i" "A (i div 2)"] by auto
qed

lemma elems_drop_last:
  assumes "1 \<le> i" "i < n"
  shows "mset (map (A(i := A n)) [1..<n]) = mset (map A [1..<Suc n]) - {#A i#}"
proof -
  have split: "[1..<n] = [1..<i] @ i # [Suc i..<n]"
    using assms upt_add_eq_append [of 1 i "n - i"] by (simp add: upt_conv_Cons)
  have "map (A(i := A n)) [1..<n] = map A [1..<i] @ A n # map A [Suc i..<n]"
    unfolding split using assms by auto
  moreover have "map A [1..<Suc n] = map A [1..<i] @ A i # map A [Suc i..<n] @ [A n]"
    using assms split by simp
  ultimately show ?thesis by simp
qed

lemma shrink_facts:
  assumes inv: "heap_inv st h" and n: "1 \<le> h_last h"
  defines "arr \<equiv> (h_array h)[h_last h := None]"
  shows "slots_ok arr (h_last h - 1)" and "heap_wf (h\<lparr>h_array := arr, h_last := h_last h - 1\<rparr>)"
    and "aset h (h_last h) None = Some (h\<lparr>h_array := arr\<rparr>)"
    and "k \<noteq> h_last h \<Longrightarrow> at arr k = at (h_array h) k"
    and "slots_ok (h_array h) (h_last h)" and "VALID_HEAP h" and "uses h"
    and "ordered (compare st) (at (h_array h)) (h_last h)"
proof -
  have wf: "heap_wf h" using inv by (simp add: heap_inv_def)
  show slots: "slots_ok (h_array h) (h_last h)" using wf_slots [OF wf] n by simp
  then show s: "slots_ok arr (h_last h - 1)" using n by (auto simp: slots_ok_def arr_def)
  show "heap_wf (h\<lparr>h_array := arr, h_last := h_last h - 1\<rparr>)"
    using wf_from_slots(1) [OF wf s] by (simp add: arr_def)
  show "aset h (h_last h) None = Some (h\<lparr>h_array := arr\<rparr>)"
    using slots by (simp add: aset_def arr_def slots_ok_def)
  show "k \<noteq> h_last h \<Longrightarrow> at arr k = at (h_array h) k" by (simp add: at_def arr_def)
  show "VALID_HEAP h" "uses h" "ordered (compare st) (at (h_array h)) (h_last h)"
    using inv by (auto simp: heap_inv_def heap_wf_def)
qed

lemma delete_last_ok:
  assumes inv: "heap_inv st h" and n: "1 \<le> h_last h"
  shows "\<exists>h'. isc_heap_delete h st (h_last h) = Some (h', st) \<and> heap_inv st h' \<and>
    h_last h' = h_last h - 1 \<and> heap_elems h' = heap_elems h - {#at (h_array h) (h_last h)#}"
proof -
  let ?n = "h_last h" and ?A = "at (h_array h)" and ?arr = "(h_array h)[h_last h := None]"
  let ?h = "h\<lparr>h_array := ?arr, h_last := ?n - 1\<rparr>"
  note f = shrink_facts [OF assms]
  have "isc_heap_delete h st ?n = Some (?h, st)"
    using f(3,6) n by (simp add: isc_heap_delete_def)
  moreover have "ordered (compare st) (at ?arr) (?n - 1)"
    using f(4,8) n by (auto simp: ordered_def)
  moreover have "heap_elems ?h = heap_elems h - {#?A ?n#}"
  proof -
    have "heap_elems ?h = mset (map (at ?arr) [1..<?n])" using n by (simp add: heap_elems_def)
    also have "map (at ?arr) [1..<?n] = map ?A [1..<?n]" using f(4) by auto
    also have "mset (map ?A [1..<?n]) = heap_elems h - {#?A ?n#}" using n by (simp add: heap_elems_def)
    finally show ?thesis .
  qed
  ultimately show ?thesis using f(2,7) by (auto simp: heap_inv_def)
qed

lemma delete_inner_run:
  assumes inv: "heap_inv st h" and i: "1 \<le> i" "i < h_last h"
  defines "e \<equiv> at (h_array h) (h_last h)"
  defines "B \<equiv> ((h_array h)[h_last h := None])[i := Some e]"
  defines "g \<equiv> h\<lparr>h_last := h_last h - 1, h_array := B\<rparr>"
  shows "heap_wf g" and "uses g" and "slots_ok B (h_last h - 1)"
    and "k \<noteq> h_last h \<Longrightarrow> at B k = ((at (h_array h))(i := e)) k"
    and "isc_heap_delete h st i = (if compare st e (at (h_array h) i) then float_up g st i e
           else sink_down g st i e)"
    and "compare st e (at (h_array h) i) \<Longrightarrow> up_inv (compare st) (at B) (h_last h - 1) i"
    and "\<not> compare st e (at (h_array h) i) \<Longrightarrow> down_inv (compare st) (at B) (h_last h - 1) i"
proof -
  let ?n = "h_last h" and ?A = "at (h_array h)" and ?arr = "(h_array h)[h_last h := None]"
  have n: "1 \<le> ?n" using i by simp
  note f = shrink_facts [OF inv n]
  have len: "?n < length (h_array h)" using f(5) by (simp add: slots_ok_def)
  show B: "at B k = (?A(i := e)) k" if "k \<noteq> ?n" for k
    using that i len f(4) by (simp add: at_update B_def)
  have get: "aget h ?n = Some e" "aget (h\<lparr>h_array := ?arr, h_last := ?n - 1\<rparr>) i = Some (?A i)"
    using slots_ok_nth [OF f(5)] i n len by (simp_all add: aget_def e_def)
  show "isc_heap_delete h st i =
      (if compare st e (?A i) then float_up g st i e else sink_down g st i e)"
    using i f(3,6,7) get len by (simp add: isc_heap_delete_def Let_def uses_def aset_def g_def B_def)
  show sB: "slots_ok B (?n - 1)" unfolding B_def using f(1) by (rule slots_ok_update)
  show "heap_wf g" unfolding g_def
    using wf_from_slots(2) [of h B "?n - 1"] sB inv by (simp add: heap_inv_def B_def)
  show "uses g" using f(7) by (simp add: g_def)
  show "up_inv (compare st) (at B) (?n - 1) i" if "compare st e (?A i)"
    using replace_up [OF f(8) that, of "?n - 1"] B i by (auto simp: up_inv_def)
  show "down_inv (compare st) (at B) (?n - 1) i" if "\<not> compare st e (?A i)"
    using replace_down [OF f(8) that i(1), of "?n - 1"] B i by (auto simp: down_inv_def)
qed

lemma delete_inner_ok:
  assumes inv: "heap_inv st h" and i: "1 \<le> i" "i < h_last h"
  shows "\<exists>h' st'. isc_heap_delete h st i = Some (h', st') \<and> heap_inv st' h' \<and>
    compare st' = compare st \<and> h_last h' = h_last h - 1 \<and>
    heap_elems h' = heap_elems h - {#at (h_array h) i#}"
proof -
  let ?n = "h_last h" and ?A = "at (h_array h)"
  let ?e = "?A ?n"
  let ?B = "((h_array h)[?n := None])[i := Some ?e]"
  let ?h = "h\<lparr>h_last := ?n - 1, h_array := ?B\<rparr>"
  note d = delete_inner_run [OF assms]
  have "restored ?h st ?B (isc_heap_delete h st i)"
  proof (cases "compare st ?e (?A i)")
    case True
    with d(3,6) show ?thesis
      using float_up_ok [OF d(2), of i ?e st] i by (simp add: d(5))
  next
    case False
    with d(3,7) show ?thesis
      using sink_down_ok [OF d(2), of i ?e st] i by (simp add: d(5))
  qed
  moreover have "mset (map (at ?B) [1..<Suc (?n - 1)]) = heap_elems h - {#?A i#}"
  proof -
    have "map (at ?B) [1..<?n] = map (?A(i := ?e)) [1..<?n]" using d(4) by auto
    moreover have "Suc (?n - 1) = ?n" using i by simp
    ultimately have "mset (map (at ?B) [1..<Suc (?n - 1)]) = mset (map (?A(i := ?e)) [1..<?n])"
      by (simp only:)
    then show ?thesis unfolding heap_elems_def elems_drop_last [OF i, of ?A] .
  qed
  ultimately show ?thesis using restored_inv [of ?h st ?B, OF _ d(1,2)] by simp
qed

lemma delete_ok:
  assumes "heap_inv st h" and "1 \<le> i" "i \<le> h_last h"
  shows "\<exists>h' st'. isc_heap_delete h st i = Some (h', st') \<and> heap_inv st' h' \<and>
    compare st' = compare st \<and> h_last h' = h_last h - 1 \<and>
    heap_elems h' = heap_elems h - {#at (h_array h) i#}"
proof (cases "i = h_last h")
  case True
  then show ?thesis using delete_last_ok [OF assms(1)] assms(2) by auto
next
  case False
  then show ?thesis using delete_inner_ok [OF assms(1,2)] assms(3) by auto
qed

lemma adjust_ok:
  assumes wf: "heap_wf h" and u: "uses h" and i: "1 \<le> i" "i \<le> h_last h"
  shows "up_inv (compare st) (at (h_array h)) (h_last h) i \<Longrightarrow>
      \<exists>h' st'. isc_heap_increased h st i = Some (h', st') \<and> heap_inv st' h' \<and>
        compare st' = compare st \<and> h_last h' = h_last h \<and> heap_elems h' = heap_elems h"
    and "down_inv (compare st) (at (h_array h)) (h_last h) i \<Longrightarrow>
      \<exists>h' st'. isc_heap_decreased h st i = Some (h', st') \<and> heap_inv st' h' \<and>
        compare st' = compare st \<and> h_last h' = h_last h \<and> heap_elems h' = heap_elems h"
proof -
  let ?e = "at (h_array h) i"
  have slots: "slots_ok (h_array h) (h_last h)" using wf_slots [OF wf] i by simp
  have nth: "h_array h ! i = Some ?e" using slots_ok_nth [OF slots i] .
  then have get: "aget h i = Some ?e" using slots i by (simp add: aget_def slots_ok_def)
  have id: "(h_array h)[i := Some ?e] = h_array h" using nth list_update_id [of "h_array h" i] by simp
  have v: "VALID_HEAP h" using wf by (simp add: heap_wf_def)
  have e: "mset (map (at (h_array h)) [1..<Suc (h_last h)]) = heap_elems h"
    by (simp only: heap_elems_def)
  { assume "up_inv (compare st) (at (h_array h)) (h_last h) i"
    with float_up_ok [OF u _ i, of ?e st] slots id
    have "restored h st (h_array h) (float_up h st i ?e)" by simp
    from restored_inv [OF this wf u refl] e
    show "\<exists>h' st'. isc_heap_increased h st i = Some (h', st') \<and> heap_inv st' h' \<and>
        compare st' = compare st \<and> h_last h' = h_last h \<and> heap_elems h' = heap_elems h"
      using v i get by (simp add: isc_heap_increased_def) }
  { assume "down_inv (compare st) (at (h_array h)) (h_last h) i"
    with sink_down_ok [OF u _ i, of ?e st] slots id
    have "restored h st (h_array h) (sink_down h st i ?e)" by simp
    from restored_inv [OF this wf u refl] e
    show "\<exists>h' st'. isc_heap_decreased h st i = Some (h', st') \<and> heap_inv st' h' \<and>
        compare st' = compare st \<and> h_last h' = h_last h \<and> heap_elems h' = heap_elems h"
      using v i get by (simp add: isc_heap_decreased_def) }
qed

lemma root_least: "ordered (compare st) A n \<Longrightarrow> 1 \<le> k \<Longrightarrow> k \<le> n \<Longrightarrow> \<not> compare st (A k) (A 1)"
proof (induction k rule: less_induct)
  case (less k)
  show ?case
  proof (cases "k = 1")
    case True
    then show ?thesis using swo.irrefl by simp
  next
    case False
    then have "\<not> compare st (A (k div 2)) (A 1)" using less by auto
    moreover have "\<not> compare st (A k) (A (k div 2))" using less.prems False by (auto simp: ordered_def)
    ultimately show ?thesis using swo.negtrans by blast
  qed
qed

lemma element_one:
  assumes "heap_inv st h" and "1 \<le> h_last h"
  shows "isc_heap_element h 1 = Some (Some (at (h_array h) 1)) \<and>
    at (h_array h) 1 \<in># heap_elems h \<and> (\<forall>x \<in># heap_elems h. \<not> compare st x (at (h_array h) 1))"
proof -
  note f = shrink_facts [OF assms]
  have "aget h 1 = Some (at (h_array h) 1)"
    using slots_ok_nth [OF f(5), of 1] f(5) assms(2) by (simp add: aget_def slots_ok_def)
  moreover have "set (map (at (h_array h)) [1..<Suc (h_last h)]) = at (h_array h) ` {1..h_last h}"
    by (auto simp del: upt_Suc)
  ultimately show ?thesis
    using root_least [OF f(8)] f(6) assms(2)
    by (auto simp: isc_heap_element_def heap_elems_def simp del: upt_Suc)
qed

end

section \<open>What the operations leave alone\<close>

text \<open>The store changes only through the index callback, and the callback is applied only to
  elements of the heap and to the element being placed.\<close>

lemma aget_in: "aget h i = Some e \<Longrightarrow> Some e \<in> set (h_array h)"
  by (auto simp: aget_def in_set_conv_nth split: if_splits)

lemma aset_set: "aset h i (Some e) = Some h' \<Longrightarrow>
   h_index h' = h_index h \<and> h_compare h' = h_compare h \<and> set (h_array h') \<subseteq> insert (Some e) (set (h_array h))"
  using set_update_subset_insert [of "h_array h" i "Some e"] by (auto simp: aset_def split: if_splits)

lemma call_index_keeps:
  assumes "P st" and "\<And>f s j. h_index h = Some f \<Longrightarrow> P s \<Longrightarrow> P (f e j s)"
  shows "P (call_index h e i st)"
  using assms by (auto simp: call_index_def split: option.splits)

lemma float_up_loop_keeps:
  assumes "float_up_loop h st i elt = Some (h', st', i')" and "P st"
    and "\<And>f e s j. h_index h = Some f \<Longrightarrow> Some e \<in> set (h_array h) \<Longrightarrow> P s \<Longrightarrow> P (f e j s)"
  shows "P st' \<and> h_index h' = h_index h \<and> set (h_array h') \<subseteq> set (h_array h)"
  using assms
proof (induction h st i elt rule: float_up_loop.induct)
  case (1 h st i elt)
  show ?case
  proof (cases "\<exists>p. 1 < i \<and> aget h (heap_parent i) = Some p \<and> h_compare h st elt p")
    case True
    then obtain p where p: "1 < i" "aget h (heap_parent i) = Some p" "h_compare h st elt p" by blast
    with "1.prems"(1) obtain h1 where h1: "aset h i (Some p) = Some h1"
        "float_up_loop h1 (call_index h1 p i st) (heap_parent i) elt = Some (h', st', i')"
      by (auto simp: float_up_loop.simps [of h] bind_eq_Some_conv)
    note s = aset_set [OF h1(1)] and pin = aget_in [OF p(2)]
    have "P (call_index h1 p i st)"
      by (rule call_index_keeps [of P], rule "1.prems"(2), rule "1.prems"(3)) (use s pin in simp_all)
    moreover have "P (f e j t)" if "h_index h1 = Some f" "Some e \<in> set (h_array h1)" "P t" for f e j t
      by (rule "1.prems"(3)) (use that s pin in auto)
    ultimately have "P st' \<and> h_index h' = h_index h1 \<and> set (h_array h') \<subseteq> set (h_array h1)"
      by (rule "1.IH" [OF p h1])
    then show ?thesis using s pin by auto
  next
    case False
    then have "st' = st \<and> h' = h" using "1.prems"(1)
      by (auto simp: float_up_loop.simps [of h] bind_eq_Some_conv split: if_splits)
    then show ?thesis using "1.prems"(2) by simp
  qed
qed

lemma sink_down_loop_keeps:
  assumes "sink_down_loop h st i elt = Some (h', st', i')" and "P st"
    and "\<And>f e s j. h_index h = Some f \<Longrightarrow> Some e \<in> set (h_array h) \<Longrightarrow> P s \<Longrightarrow> P (f e j s)"
  shows "P st' \<and> h_index h' = h_index h \<and> set (h_array h') \<subseteq> set (h_array h)"
  using assms
proof (induction h st i elt rule: sink_down_loop.induct)
  case (1 h st i elt)
  show ?case
  proof (cases "\<exists>j c. i \<noteq> 0 \<and> i \<le> h_last h div 2 \<and> smaller_child h st i = Some j \<and> aget h j = Some c \<and>
      \<not> h_compare h st elt c")
    case True
    then obtain j c where p: "i \<noteq> 0" "i \<le> h_last h div 2" "smaller_child h st i = Some j"
        "aget h j = Some c" "\<not> h_compare h st elt c" by blast
    with "1.prems"(1) obtain h1 where h1: "aset h i (Some c) = Some h1"
        "sink_down_loop h1 (call_index h1 c i st) j elt = Some (h', st', i')"
      by (auto simp: sink_down_loop.simps [of h] bind_eq_Some_conv)
    note s = aset_set [OF h1(1)] and pin = aget_in [OF p(4)]
    have "P (call_index h1 c i st)"
      by (rule call_index_keeps [of P], rule "1.prems"(2), rule "1.prems"(3)) (use s pin in simp_all)
    moreover have "P (f e j t)" if "h_index h1 = Some f" "Some e \<in> set (h_array h1)" "P t" for f e j t
      by (rule "1.prems"(3)) (use that s pin in auto)
    ultimately have "P st' \<and> h_index h' = h_index h1 \<and> set (h_array h') \<subseteq> set (h_array h1)"
      by (rule "1.IH" [OF p h1])
    then show ?thesis using s pin by auto
  next
    case False
    then have "st' = st \<and> h' = h" using "1.prems"(1)
      by (auto simp: sink_down_loop.simps [of h] bind_eq_Some_conv split: if_splits)
    then show ?thesis using "1.prems"(2) by simp
  qed
qed

lemma settle_keeps:
  assumes "settle h st i elt = Some (h', st')" and "P st"
    and "\<And>f s j. h_index h = Some f \<Longrightarrow> P s \<Longrightarrow> P (f elt j s)"
  shows "P st' \<and> h_index h' = h_index h \<and> set (h_array h') \<subseteq> insert (Some elt) (set (h_array h))"
proof -
  obtain h1 where h1: "aset h i (Some elt) = Some h1" "st' = call_index h1 elt i st" "h' = h1"
    using assms(1) by (auto simp: settle_def Let_def bind_eq_Some_conv)
  have "P (call_index h1 elt i st)"
    by (rule call_index_keeps [of P], rule assms(2), rule assms(3)) (use aset_set [OF h1(1)] in simp_all)
  then show ?thesis using aset_set [OF h1(1)] h1(2,3) by simp
qed

lemma insert_keeps:
  assumes "isc_heap_insert mem h st elt = Some (r, h', st')" and "P st"
    and "\<And>f e s j. h_index h = Some f \<Longrightarrow> P s \<Longrightarrow> P (f e j s)"
  shows "P st'"
proof -
  obtain ok h1 where a: "(if (h_last h + 1) mod 2 ^ 32 \<ge> h_size h then resize mem h else Some (True, h)) = Some (ok, h1)"
    and r: "(if \<not> ok then Some (ISC_R_NOMEMORY, h1, st)
       else do { (h, st) \<leftarrow> float_up (h1\<lparr>h_last := (h_last h + 1) mod 2 ^ 32\<rparr>) st ((h_last h + 1) mod 2 ^ 32) elt;
         Some (ISC_R_SUCCESS, h, st) }) = Some (r, h', st')"
    using assms(1) unfolding isc_heap_insert_def Let_def by (elim bind_SomeE) (simp only: split: prod.splits)
  have h1: "h_index h1 = h_index h" using a by (auto simp: resize_def Let_def bind_eq_Some_conv split: if_splits)
  show ?thesis
  proof (cases ok)
    case True
    then obtain h2 st2 i2 where l: "float_up_loop (h1\<lparr>h_last := (h_last h + 1) mod 2 ^ 32\<rparr>) st ((h_last h + 1) mod 2 ^ 32) elt = Some (h2, st2, i2)"
      "settle h2 st2 i2 elt = Some (h', st')" using r by (auto simp: float_up_def bind_eq_Some_conv)
    have "P st2 \<and> h_index h2 = h_index (h1\<lparr>h_last := (h_last h + 1) mod 2 ^ 32\<rparr>) \<and>
        set (h_array h2) \<subseteq> set (h_array (h1\<lparr>h_last := (h_last h + 1) mod 2 ^ 32\<rparr>))"
      by (rule float_up_loop_keeps [OF l(1), of P]) (use assms(2,3) h1 in auto)
    then have "P st2" "h_index h2 = h_index h" using h1 by auto
    then show ?thesis using settle_keeps [OF l(2), of P] assms(3) by auto
  qed (use r assms(2) in simp)
qed

lemma adjust_keeps:
  assumes "isc_heap_increased h st i = Some (h', st') \<or> isc_heap_decreased h st i = Some (h', st')"
    and "P st"
    and "\<And>f e s j. h_index h = Some f \<Longrightarrow> Some e \<in> set (h_array h) \<Longrightarrow> P s \<Longrightarrow> P (f e j s)"
  shows "P st' \<and> h_index h' = h_index h \<and> set (h_array h') \<subseteq> set (h_array h)"
proof -
  obtain e h1 st1 i1 where e: "aget h i = Some e"
    and l: "float_up_loop h st i e = Some (h1, st1, i1) \<or> sink_down_loop h st i e = Some (h1, st1, i1)"
    and s: "settle h1 st1 i1 e = Some (h', st')"
    using assms(1)
    by (auto simp: isc_heap_increased_def isc_heap_decreased_def float_up_def sink_down_def
        run_simps bind_eq_Some_conv)
  have st1: "P st1 \<and> h_index h1 = h_index h \<and> set (h_array h1) \<subseteq> set (h_array h)"
    using l
  proof
    assume "float_up_loop h st i e = Some (h1, st1, i1)"
    then show ?thesis by (rule float_up_loop_keeps [of _ _ _ _ _ _ _ P]) (fact assms(2,3))+
  next
    assume "sink_down_loop h st i e = Some (h1, st1, i1)"
    then show ?thesis by (rule sink_down_loop_keeps [of _ _ _ _ _ _ _ P]) (fact assms(2,3))+
  qed
  have "P st' \<and> h_index h' = h_index h1 \<and> set (h_array h') \<subseteq> insert (Some e) (set (h_array h1))"
    by (rule settle_keeps [OF s, of P], use st1 in simp, rule assms(3)) (use st1 aget_in [OF e] in simp_all)
  then show ?thesis using st1 aget_in [OF e] by auto
qed

section \<open>Positions recorded by the index callback\<close>

lemma inj_on_swap: "inj_on A S \<Longrightarrow> i \<in> S \<Longrightarrow> q \<in> S \<Longrightarrow> inj_on (A(i := A q, q := A i)) S"
  by (auto simp: inj_on_def)

locale heap_indexed = heap_order compare "Some set_index"
  for compare :: "'s \<Rightarrow> 'a \<Rightarrow> 'a \<Rightarrow> bool" and set_index :: "'a \<Rightarrow> nat \<Rightarrow> 's \<Rightarrow> 's" +
  fixes pos :: "'s \<Rightarrow> 'a \<Rightarrow> nat"
  assumes pos_set: "pos (set_index e i st) e = i"
    and pos_other: "e' \<noteq> e \<Longrightarrow> pos (set_index e i st) e' = pos st e'"
begin

definition tracked :: "'s \<Rightarrow> (nat \<Rightarrow> 'a) \<Rightarrow> nat \<Rightarrow> nat \<Rightarrow> bool" where
  "tracked st A n i \<longleftrightarrow> inj_on A {1..n} \<and> (\<forall>k. 1 \<le> k \<and> k \<le> n \<and> k \<noteq> i \<longrightarrow> pos st (A k) = k)"

lemma tracked_all: "tracked st A n 0 \<longleftrightarrow> inj_on A {1..n} \<and> (\<forall>k. 1 \<le> k \<and> k \<le> n \<longrightarrow> pos st (A k) = k)"
  by (auto simp: tracked_def)

lemma tracked_move:
  assumes "tracked st A n i" and "1 \<le> i" "i \<le> n" and "1 \<le> q" "q \<le> n" and "q \<noteq> i"
  shows "tracked (set_index (A q) i st) (A(i := A q, q := A i)) n q"
proof -
  let ?C = "A(i := A q, q := A i)"
  have inj: "inj_on A {1..n}" using assms(1) by (simp add: tracked_def)
  have "inj_on ?C {1..n}"
    using inj assms(2-5) by (intro inj_on_swap) auto
  moreover have "pos (set_index (A q) i st) (?C k) = k" if "1 \<le> k" "k \<le> n" "k \<noteq> q" for k
  proof (cases "k = i")
    case True
    then show ?thesis using pos_set assms(6) by auto
  next
    case False
    have "A k \<noteq> A q" using inj_onD [OF inj, of k q] that assms(4,5) by auto
    then show ?thesis using False that assms(1) by (auto simp: pos_other tracked_def)
  qed
  ultimately show ?thesis by (auto simp: tracked_def)
qed

lemma tracked_settle:
  assumes "tracked st A n i" and "1 \<le> i" "i \<le> n"
  shows "tracked (set_index (A i) i st) A n 0"
proof -
  have "pos (set_index (A i) i st) (A k) = k" if "1 \<le> k" "k \<le> n" for k
  proof (cases "k = i")
    case True
    then show ?thesis by (simp add: pos_set)
  next
    case False
    have "inj_on A {1..n}" using assms(1) by (simp add: tracked_def)
    then have "A k \<noteq> A i" using inj_onD [of A "{1..n}" k i] False assms(2,3) that by auto
    then show ?thesis using False that assms(1) by (auto simp: pos_other tracked_def)
  qed
  then show ?thesis using assms(1) by (auto simp: tracked_def)
qed

lemma float_up_loop_tracked:
  assumes "float_up_loop h st i elt = Some (h', st', i')" and "uses h"
    and "slots_ok ((h_array h)[i := Some elt]) (h_last h)" and "1 \<le> i" "i \<le> h_last h"
    and "tracked st (at ((h_array h)[i := Some elt])) (h_last h) i"
  shows "tracked st' (at ((h_array h')[i' := Some elt])) (h_last h) i' \<and> 1 \<le> i' \<and> i' \<le> h_last h"
  using assms
proof (induction h st i elt rule: float_up_loop.induct)
  case (1 h st i elt)
  let ?B = "(h_array h)[i := Some elt]" and ?p = "i div 2"
  show ?case
  proof (cases "1 < i \<and> compare st elt (at ?B ?p)")
    case True
    then have p: "?p \<noteq> i" "1 \<le> ?p" "?p \<le> h_last h" using "1.prems"(5) by auto
    note move = hole_move [OF "1.prems"(3) p "1.prems"(5)]
    have get: "aget h (heap_parent i) = Some (at ?B ?p)"
      using move(1) p(3) "1.prems"(3) by (simp add: aget_def heap_parent_def slots_ok_def)
    let ?h = "h\<lparr>h_array := (h_array h)[i := Some (at ?B ?p)]\<rparr>"
    have set: "aset h i (Some (at ?B ?p)) = Some ?h"
      using "1.prems"(3,5) by (simp add: aset_def slots_ok_def)
    have st: "call_index ?h (at ?B ?p) i st = set_index (at ?B ?p) i st"
      using "1.prems"(2) by (simp add: call_index_def uses_def)
    have "tracked (set_index (at ?B ?p) i st) (at ((h_array ?h)[?p := Some elt])) (h_last h) ?p"
      using tracked_move [OF "1.prems"(6,4,5) p(2,3,1)] move(3) by simp
    moreover have "float_up_loop ?h (set_index (at ?B ?p) i st) ?p elt = Some (h', st', i')"
      using "1.prems"(1,2) True get set st
      by (simp add: float_up_loop.simps [of h] uses_def heap_parent_def)
    ultimately show ?thesis
      using "1.IH" [OF _ get _ set] True "1.prems"(2) p(2,3) move(4) st
      by (simp add: uses_def heap_parent_def)
  next
    case False
    then have "h' = h \<and> st' = st \<and> i' = i"
    proof (cases "1 < i")
      case True
      then have p: "?p \<noteq> i" "1 \<le> ?p" "?p \<le> h_last h" using "1.prems"(5) by auto
      have "aget h (heap_parent i) = Some (at ?B ?p)"
        using hole_move(1) [OF "1.prems"(3) p "1.prems"(5)] p(3) "1.prems"(3)
        by (simp add: aget_def heap_parent_def slots_ok_def)
      then show ?thesis using True False "1.prems"(1,2) by (auto simp: float_up_loop.simps [of h] uses_def)
    qed (use "1.prems"(1) in \<open>auto simp: float_up_loop.simps [of h]\<close>)
    then show ?thesis using "1.prems" by auto
  qed
qed

lemma sink_down_loop_tracked:
  assumes "sink_down_loop h st i elt = Some (h', st', i')" and "uses h"
    and "slots_ok ((h_array h)[i := Some elt]) (h_last h)" and "1 \<le> i" "i \<le> h_last h"
    and "tracked st (at ((h_array h)[i := Some elt])) (h_last h) i"
  shows "tracked st' (at ((h_array h')[i' := Some elt])) (h_last h) i' \<and> 1 \<le> i' \<and> i' \<le> h_last h"
  using assms
proof (induction h st i elt rule: sink_down_loop.induct)
  case (1 h st i elt)
  let ?B = "(h_array h)[i := Some elt]"
  have i0: "i \<noteq> 0" using "1.prems"(4) by simp
  show ?case
  proof (cases "i \<le> h_last h div 2")
    case False
    then show ?thesis using "1.prems" i0 by (auto simp: sink_down_loop.simps [of h])
  next
    case True
    obtain j where j: "smaller_child h st i = Some j" "j div 2 = i" "j \<le> h_last h"
      using smaller_child_ok [OF "1.prems"(2-4) True] by blast
    then have ji: "j \<noteq> i" "1 \<le> j" using i0 by auto
    note move = hole_move [OF "1.prems"(3) ji j(3) "1.prems"(5)]
    have get: "aget h j = Some (at ?B j)"
      using move(1) j(3) "1.prems"(3) by (simp add: aget_def slots_ok_def)
    show ?thesis
    proof (cases "compare st elt (at ?B j)")
      case lt: True
      then show ?thesis using "1.prems" True j(1) get i0
        by (auto simp: sink_down_loop.simps [of h] uses_def)
    next
      case False
      let ?h = "h\<lparr>h_array := (h_array h)[i := Some (at ?B j)]\<rparr>"
      have set: "aset h i (Some (at ?B j)) = Some ?h"
        using "1.prems"(3,5) by (simp add: aset_def slots_ok_def)
      have st: "call_index ?h (at ?B j) i st = set_index (at ?B j) i st"
        using "1.prems"(2) by (simp add: call_index_def uses_def)
      have "tracked (set_index (at ?B j) i st) (at ((h_array ?h)[j := Some elt])) (h_last h) j"
        using tracked_move [OF "1.prems"(6,4,5) ji(2) j(3) ji(1)] move(3) by simp
      moreover have "sink_down_loop ?h (set_index (at ?B j) i st) j elt = Some (h', st', i')"
        using "1.prems"(1,2) True False get set st j(1) i0
        by (simp add: sink_down_loop.simps [of h] uses_def)
      ultimately show ?thesis
        using "1.IH" [OF i0 True j(1) get _ set] False "1.prems"(2) ji j(3) move(4) st
        by (simp add: uses_def)
    qed
  qed
qed

lemma settle_tracked:
  assumes "settle h st i elt = Some (h', st')" and "uses h" and "1 \<le> i" "i \<le> n"
    and "tracked st (at ((h_array h)[i := Some elt])) n i"
  shows "tracked st' (at (h_array h')) n 0"
proof -
  have "h' = h\<lparr>h_array := (h_array h)[i := Some elt]\<rparr>" "st' = set_index elt i st"
      "i < length (h_array h)"
    using assms(1,2)
    by (auto simp: settle_def aset_def Let_def bind_eq_Some_conv call_index_def uses_def split: if_splits)
  then show ?thesis using tracked_settle [OF assms(5,3,4)] by (simp add: at_update)
qed

end

context heap_indexed
begin

definition positions :: "'s \<Rightarrow> ('a, 's) isc_heap \<Rightarrow> bool" where
  "positions st h \<longleftrightarrow> tracked st (at (h_array h)) (h_last h) 0"

lemma float_up_tracked:
  assumes "float_up h st i elt = Some (h', st')" and "uses h"
    and "slots_ok ((h_array h)[i := Some elt]) (h_last h)" and "1 \<le> i" "i \<le> h_last h"
    and "tracked st (at ((h_array h)[i := Some elt])) (h_last h) i"
    and "up_inv (compare st) (at ((h_array h)[i := Some elt])) (h_last h) i"
  shows "tracked st' (at (h_array h')) (h_last h) 0"
proof -
  obtain arr st1 i1 where r: "float_up_loop h st i elt = Some (h\<lparr>h_array := arr\<rparr>, st1, i1)"
    using float_up_loop_ok [OF assms(2-5,7)] by blast
  with assms(1) have "settle (h\<lparr>h_array := arr\<rparr>) st1 i1 elt = Some (h', st')" by (simp add: float_up_def)
  then show ?thesis
    using float_up_loop_tracked [OF r assms(2-6)] settle_tracked [of "h\<lparr>h_array := arr\<rparr>" st1 i1] assms(2)
    by simp
qed

lemma sink_down_tracked:
  assumes "sink_down h st i elt = Some (h', st')" and "uses h"
    and "slots_ok ((h_array h)[i := Some elt]) (h_last h)" and "1 \<le> i" "i \<le> h_last h"
    and "tracked st (at ((h_array h)[i := Some elt])) (h_last h) i"
    and "down_inv (compare st) (at ((h_array h)[i := Some elt])) (h_last h) i"
  shows "tracked st' (at (h_array h')) (h_last h) 0"
proof -
  obtain arr st1 i1 where r: "sink_down_loop h st i elt = Some (h\<lparr>h_array := arr\<rparr>, st1, i1)"
    using sink_down_loop_ok [OF assms(2-5,7)] by blast
  with assms(1) have "settle (h\<lparr>h_array := arr\<rparr>) st1 i1 elt = Some (h', st')" by (simp add: sink_down_def)
  then show ?thesis
    using sink_down_loop_tracked [OF r assms(2-6)] settle_tracked [of "h\<lparr>h_array := arr\<rparr>" st1 i1] assms(2)
    by simp
qed

lemma tracked_cong:
  assumes "tracked st A n i" and "\<And>k. 1 \<le> k \<Longrightarrow> k \<le> n \<Longrightarrow> B k = A k"
  shows "tracked st B n i"
  using assms inj_on_cong [of "{1..n}" B A] by (auto simp: tracked_def)

lemma tracked_extend:
  assumes "tracked st A n 0" and "e \<notin> A ` {1..n}"
  shows "tracked st (A(Suc n := e)) (Suc n) (Suc n)"
proof -
  have "inj_on (A(Suc n := e)) {1..n}"
    using assms(1) inj_on_cong [of "{1..n}" "A(Suc n := e)" A] by (simp add: tracked_def)
  then have "inj_on (A(Suc n := e)) (insert (Suc n) {1..n})"
    using assms(2) by (auto simp: inj_on_insert)
  moreover have "{1..Suc n} = insert (Suc n) {1..n}" by auto
  ultimately have "inj_on (A(Suc n := e)) {1..Suc n}" by (simp only:)
  then show ?thesis using assms(1) by (auto simp: tracked_def)
qed

lemma insert_positions:
  assumes inv: "heap_inv st h" and fits: "Suc (h_last h) < 2 ^ 32"
    and mem: "mem \<or> Suc (h_last h) < h_size h" and grow: "h_size h + h_size_increment h < 2 ^ 32"
    and inc: "2 \<le> h_size_increment h" and pos: "positions st h" and new: "elt \<notin># heap_elems h"
  shows "\<exists>h' st'. isc_heap_insert mem h st elt = Some (ISC_R_SUCCESS, h', st') \<and>
    heap_inv st' h' \<and> positions st' h' \<and> compare st' = compare st \<and> h_last h' = Suc (h_last h) \<and>
    heap_elems h' = add_mset elt (heap_elems h)"
proof -
  let ?n = "Suc (h_last h)"
  obtain h' st' where r: "isc_heap_insert mem h st elt = Some (ISC_R_SUCCESS, h', st')"
      "heap_inv st' h'" "compare st' = compare st" "h_last h' = ?n"
      "heap_elems h' = add_mset elt (heap_elems h)"
    using insert_ok [OF inv fits mem grow inc] by blast
  obtain h1 where h1: "heap_wf h1" "uses h1" "h_last h1 = h_last h" "?n < h_size h1"
      "\<And>k. 1 \<le> k \<Longrightarrow> k \<le> h_last h \<Longrightarrow> at (h_array h1) k = at (h_array h) k"
      "isc_heap_insert mem h st elt = map_option (Pair ISC_R_SUCCESS)
         (float_up (h1\<lparr>h_last := ?n\<rparr>) st ?n elt)"
    using insert_run [OF inv fits mem grow inc] by blast
  have f: "float_up (h1\<lparr>h_last := ?n\<rparr>) st ?n elt = Some (h', st')"
    using h1(6) r(1) by (cases "float_up (h1\<lparr>h_last := ?n\<rparr>) st ?n elt") auto
  let ?B = "(h_array h1)[?n := Some elt]"
  have len: "?n < length (h_array h1)" using h1(1,4) by (simp add: heap_wf_def)
  have at: "at ?B = (at (h_array h1))(?n := elt)" using len by (simp add: at_update)
  have "elt \<notin> at (h_array h) ` {1..h_last h}"
    using new by (auto simp: heap_elems_def simp del: upt_Suc)
  then have "elt \<notin> at (h_array h1) ` {1..h_last h}" using h1(5) by auto
  moreover have "tracked st (at (h_array h1)) (h_last h) 0"
    using pos h1(5) tracked_cong by (auto simp: positions_def)
  ultimately have "tracked st (at ?B) ?n ?n" unfolding at by (intro tracked_extend)
  moreover have "slots_ok ?B ?n"
    using h1(1,3) len by (auto simp: slots_ok_def heap_wf_def nth_list_update)
  moreover have "up_inv (compare st) (at ?B) ?n ?n"
    using inv h1(5) by (auto simp: up_inv_def heap_inv_def ordered_def at)
  ultimately have "tracked st' (at (h_array h')) ?n 0"
    using float_up_tracked [OF f] h1(2,3) by simp
  then show ?thesis using r by (auto simp: positions_def)
qed

lemma tracked_replace:
  assumes "tracked st A n 0" and "1 \<le> i" "i < n"
  shows "tracked st (A(i := A n)) (n - 1) i"
proof -
  have inj: "inj_on A {1..n}" using assms(1) by (simp add: tracked_def)
  have "inj_on (A(i := A n)) {1..n - 1}"
  proof (rule inj_onI)
    fix x y assume xy: "x \<in> {1..n - 1}" "y \<in> {1..n - 1}" and eq: "(A(i := A n)) x = (A(i := A n)) y"
    then have "x \<in> {1..n}" "y \<in> {1..n}" "n \<in> {1..n}" "x \<noteq> n" "y \<noteq> n" using assms(2,3) by auto
    with eq show "x = y"
      using inj_onD [OF inj, of x y] inj_onD [OF inj, of x n] inj_onD [OF inj, of n y]
      by (auto split: if_splits)
  qed
  then show ?thesis using assms(1) by (auto simp: tracked_def)
qed

lemma delete_positions:
  assumes inv: "heap_inv st h" and i: "1 \<le> i" "i \<le> h_last h" and pos: "positions st h"
    and r: "isc_heap_delete h st i = Some (h', st')"
  shows "positions st' h'"
proof (cases "i = h_last h")
  case True
  let ?arr = "(h_array h)[h_last h := None]"
  have n: "1 \<le> h_last h" using i by simp
  note f = shrink_facts [OF inv n]
  have "h' = h\<lparr>h_array := ?arr, h_last := h_last h - 1\<rparr>" "st' = st"
    using r True f(3,6) i by (auto simp: isc_heap_delete_def)
  moreover have "tracked st (at (h_array h)) (h_last h - 1) 0"
    using pos inj_on_subset [of "at (h_array h)" "{1..h_last h}" "{1..h_last h - 1}"]
    by (auto simp: positions_def tracked_def)
  then have "tracked st (at ?arr) (h_last h - 1) 0"
    by (rule tracked_cong) (use f(4) n in auto)
  ultimately show ?thesis by (simp add: positions_def)
next
  case False
  then have lt: "i < h_last h" using i by simp
  let ?e = "at (h_array h) (h_last h)"
  let ?B = "((h_array h)[h_last h := None])[i := Some ?e]"
  let ?h = "h\<lparr>h_last := h_last h - 1, h_array := ?B\<rparr>"
  note d = delete_inner_run [OF inv i(1) lt]
  have t: "tracked st (at ?B) (h_last h - 1) i"
  proof (rule tracked_cong)
    show "tracked st ((at (h_array h))(i := ?e)) (h_last h - 1) i"
      using tracked_replace [OF _ i(1) lt] pos by (simp add: positions_def)
    show "at ?B k = ((at (h_array h))(i := ?e)) k" if "1 \<le> k" "k \<le> h_last h - 1" for k
      using d(4) that by auto
  qed
  obtain h2 st2 where del: "isc_heap_delete h st i = Some (h2, st2)" "h_last h2 = h_last h - 1"
    using delete_inner_ok [OF inv i(1) lt] by blast
  have "tracked st' (at (h_array h')) (h_last h - 1) 0"
  proof (cases "compare st ?e (at (h_array h) i)")
    case True
    then have "float_up ?h st i ?e = Some (h', st')" using r d(5) by simp
    from float_up_tracked [OF this d(2)] show ?thesis using d(3,6) True t i lt by simp
  next
    case False
    then have "sink_down ?h st i ?e = Some (h', st')" using r d(5) by simp
    from sink_down_tracked [OF this d(2)] show ?thesis using d(3,7) False t i lt by simp
  qed
  then show ?thesis using r del by (simp add: positions_def)
qed

lemma adjust_positions:
  assumes wf: "heap_wf h" and u: "uses h" and i: "1 \<le> i" "i \<le> h_last h" and pos: "positions st h"
  shows "up_inv (compare st) (at (h_array h)) (h_last h) i \<Longrightarrow>
      isc_heap_increased h st i = Some (h', st') \<Longrightarrow> positions st' h'"
    and "down_inv (compare st) (at (h_array h)) (h_last h) i \<Longrightarrow>
      isc_heap_decreased h st i = Some (h', st') \<Longrightarrow> positions st' h'"
proof -
  let ?e = "at (h_array h) i"
  have slots: "slots_ok (h_array h) (h_last h)" using wf_slots [OF wf] i by simp
  have nth: "h_array h ! i = Some ?e" using slots_ok_nth [OF slots i] .
  have id: "(h_array h)[i := Some ?e] = h_array h" using nth list_update_id [of "h_array h" i] by simp
  have get: "aget h i = Some ?e" using slots nth i by (simp add: aget_def slots_ok_def)
  have v: "VALID_HEAP h" using wf by (simp add: heap_wf_def)
  have t: "tracked st (at (h_array h)) (h_last h) i"
    using pos by (auto simp: positions_def tracked_def)
  show "positions st' h'" if up: "up_inv (compare st) (at (h_array h)) (h_last h) i"
    and r: "isc_heap_increased h st i = Some (h', st')"
  proof -
    have "h_last h' = h_last h" using adjust_ok(1) [OF wf u i up] r by auto
    moreover have "float_up h st i ?e = Some (h', st')"
      using r v i get by (simp add: isc_heap_increased_def)
    ultimately show ?thesis
      using float_up_tracked [of h st i ?e h' st'] u i id slots t up by (simp add: positions_def)
  qed
  show "positions st' h'" if down: "down_inv (compare st) (at (h_array h)) (h_last h) i"
    and r: "isc_heap_decreased h st i = Some (h', st')"
  proof -
    have "h_last h' = h_last h" using adjust_ok(2) [OF wf u i down] r by auto
    moreover have "sink_down h st i ?e = Some (h', st')"
      using r v i get by (simp add: isc_heap_decreased_def)
    ultimately show ?thesis
      using sink_down_tracked [of h st i ?e h' st'] u i id slots t down by (simp add: positions_def)
  qed
qed

end

section \<open>Elements ordered by a numeric key\<close>

lemma key_up_inv:
  fixes K K' :: "'a \<Rightarrow> u32"
  assumes ord: "ordered (\<lambda>a b. K a < K b) A n" and inj: "inj_on A {1..n}" and i: "1 \<le> i" "i \<le> n"
    and other: "\<And>x. x \<noteq> A i \<Longrightarrow> K' x = K x" and smaller: "K' (A i) \<le> K (A i)"
  shows "up_inv (\<lambda>a b. K' a < K' b) A n i"
proof -
  have ne: "K' (A k) = K (A k)" if "1 \<le> k" "k \<le> n" "k \<noteq> i" for k
    using other inj_onD [OF inj, of k i] that i by auto
  have o: "K (A (k div 2)) \<le> K (A k)" if "2 \<le> k" "k \<le> n" for k
    using ord that by (auto simp: ordered_def not_less)
  have "K' (A (k div 2)) \<le> K' (A k)" if k: "2 \<le> k" "k \<le> n" "k \<noteq> i" for k
  proof (cases "k div 2 = i")
    case True
    then show ?thesis using smaller o [of k] ne [of k] k by auto
  next
    case False
    then show ?thesis using o [of k] ne [of k] ne [of "k div 2"] k by auto
  qed
  moreover have "K' (A (i div 2)) \<le> K' (A k)" if k: "k div 2 = i" "k \<le> n" "2 \<le> i" for k
  proof -
    have "K (A (i div 2)) \<le> K (A i)" "K (A i) \<le> K (A k)" using o [of k] o [of i] k by auto
    then show ?thesis using ne [of k] ne [of "i div 2"] k i by auto
  qed
  ultimately show ?thesis by (auto simp: up_inv_def not_less)
qed

lemma key_down_inv:
  fixes K K' :: "'a \<Rightarrow> u32"
  assumes ord: "ordered (\<lambda>a b. K a < K b) A n" and inj: "inj_on A {1..n}" and i: "1 \<le> i" "i \<le> n"
    and other: "\<And>x. x \<noteq> A i \<Longrightarrow> K' x = K x" and larger: "K (A i) \<le> K' (A i)"
  shows "down_inv (\<lambda>a b. K' a < K' b) A n i"
proof -
  have ne: "K' (A k) = K (A k)" if "1 \<le> k" "k \<le> n" "k \<noteq> i" for k
    using other inj_onD [OF inj, of k i] that i by auto
  have o: "K (A (k div 2)) \<le> K (A k)" if "2 \<le> k" "k \<le> n" for k
    using ord that by (auto simp: ordered_def not_less)
  have "K' (A (k div 2)) \<le> K' (A k)" if k: "2 \<le> k" "k \<le> n" "k div 2 \<noteq> i" for k
  proof (cases "k = i")
    case True
    then show ?thesis using larger o [of k] ne [of "k div 2"] k by auto
  next
    case False
    then show ?thesis using o [of k] ne [of k] ne [of "k div 2"] k by auto
  qed
  moreover have "K' (A (i div 2)) \<le> K' (A k)" if k: "k div 2 = i" "k \<le> n" "2 \<le> i" for k
  proof -
    have "K (A (i div 2)) \<le> K (A i)" "K (A i) \<le> K (A k)" using o [of k] o [of i] k by auto
    then show ?thesis using ne [of k] ne [of "i div 2"] k i by auto
  qed
  ultimately show ?thesis by (auto simp: down_inv_def not_less)
qed

lemma heap_elems_iff: "e \<in># heap_elems h \<longleftrightarrow> (\<exists>k. 1 \<le> k \<and> k \<le> h_last h \<and> at (h_array h) k = e)"
  by (auto simp: heap_elems_def image_iff less_Suc_eq_le simp del: upt_Suc)

locale heap_keyed = heap_indexed compare set_index pos
  for compare :: "'s \<Rightarrow> 'a \<Rightarrow> 'a \<Rightarrow> bool" and set_index :: "'a \<Rightarrow> nat \<Rightarrow> 's \<Rightarrow> 's"
    and pos :: "'s \<Rightarrow> 'a \<Rightarrow> nat" +
  fixes key :: "'s \<Rightarrow> 'a \<Rightarrow> u32"
  assumes compare_key: "compare st a b \<longleftrightarrow> key st a < key st b"
begin

lemma compare_fun: "compare st = (\<lambda>a b. key st a < key st b)"
  using compare_key by blast

text \<open>Changing the key of one element and calling \<open>isc_heap_increased\<close> or \<open>isc_heap_decreased\<close>, as the
  change demands, restores the order.\<close>

lemma key_adjust:
  assumes inv: "heap_inv st0 h" and p: "positions st0 h" and e: "e \<in># heap_elems h"
    and other: "\<And>x. x \<noteq> e \<Longrightarrow> key st x = key st0 x" and same: "\<And>x. pos st x = pos st0 x"
  defines "i \<equiv> pos st0 e"
  shows "key st e \<le> key st0 e \<Longrightarrow> \<exists>h' st'. isc_heap_increased h st i = Some (h', st') \<and>
      heap_inv st' h' \<and> positions st' h' \<and> heap_elems h' = heap_elems h"
    and "key st0 e \<le> key st e \<Longrightarrow> \<exists>h' st'. isc_heap_decreased h st i = Some (h', st') \<and>
      heap_inv st' h' \<and> positions st' h' \<and> heap_elems h' = heap_elems h"
proof -
  have m: "1 \<le> i" "i \<le> h_last h" "at (h_array h) i = e"
    using p e by (auto simp: positions_def tracked_all heap_elems_iff i_def)
  have f: "heap_wf h" "uses h" "ordered (compare st0) (at (h_array h)) (h_last h)"
      "inj_on (at (h_array h)) {1..h_last h}"
    using inv p by (auto simp: heap_inv_def positions_def tracked_all)
  have pos: "positions st h" using p same by (simp add: positions_def tracked_all)
  note ord = f(3) [unfolded compare_fun]
  show "\<exists>h' st'. isc_heap_increased h st i = Some (h', st') \<and> heap_inv st' h' \<and> positions st' h' \<and>
      heap_elems h' = heap_elems h" if "key st e \<le> key st0 e"
  proof -
    have up: "up_inv (compare st) (at (h_array h)) (h_last h) i"
      unfolding compare_fun by (rule key_up_inv [OF ord f(4) m(1,2)]) (use m(3) other that in auto)
    show ?thesis
      using adjust_ok(1) [OF f(1,2) m(1,2) up] adjust_positions(1) [OF f(1,2) m(1,2) pos up] by blast
  qed
  show "\<exists>h' st'. isc_heap_decreased h st i = Some (h', st') \<and> heap_inv st' h' \<and> positions st' h' \<and>
      heap_elems h' = heap_elems h" if "key st0 e \<le> key st e"
  proof -
    have down: "down_inv (compare st) (at (h_array h)) (h_last h) i"
      unfolding compare_fun by (rule key_down_inv [OF ord f(4) m(1,2)]) (use m(3) other that in auto)
    show ?thesis
      using adjust_ok(2) [OF f(1,2) m(1,2) down] adjust_positions(2) [OF f(1,2) m(1,2) pos down] by blast
  qed
qed

end

end
