(* ===== verification/Dns_Rbtdb.thy ===== *)
theory Dns_Rbtdb
  imports Isc_Heap Isc_Serial
begin

text \<open>
  The part of the red-black tree database (\<open>lib/dns/rbtdb.c\<close>) that orders rdataset headers in
  heaps: by time to live in a cache, by the time of the next re-signing in a zone. There is one
  heap for each bucket of node locks.

  Headers are addressed by natural numbers; \<open>rb_store\<close> maps an address to the fields these
  functions read and write. The heap of a bucket may be missing (\<open>None\<close>), and so may the whole
  array of heaps.
\<close>

section \<open>Headers and the callbacks of the heap\<close>

record rdatasetheader =
  rdh_ttl :: u32
  attributes :: u16
  locknum :: nat
  linked :: bool
  heap_index :: nat
  resign :: u32

type_synonym hstore = "nat \<Rightarrow> rdatasetheader"
type_synonym header_heap = "(nat, hstore) isc_heap"

definition ttl_sooner :: "hstore \<Rightarrow> nat \<Rightarrow> nat \<Rightarrow> bool" where
  "ttl_sooner st h1 h2 = (rdh_ttl (st h1) < rdh_ttl (st h2))"

definition resign_sooner :: "hstore \<Rightarrow> nat \<Rightarrow> nat \<Rightarrow> bool" where
  "resign_sooner st h1 h2 = (resign (st h1) < resign (st h2))"

definition set_index :: "nat \<Rightarrow> nat \<Rightarrow> hstore \<Rightarrow> hstore" where
  "set_index what index st = st(what := (st what)\<lparr>heap_index := index\<rparr>)"

section \<open>The database operations that use the heaps\<close>

record rbtdb =
  rb_cache :: bool
  rb_heaps :: "header_heap option list option"
  rb_store :: hstore

definition IS_CACHE :: "rbtdb \<Rightarrow> bool" where
  "IS_CACHE db = rb_cache db"

definition RDATASET_ATTR_RESIGN :: u16 where
  "RDATASET_ATTR_RESIGN = 0x0020"

definition RESIGN :: "rdatasetheader \<Rightarrow> bool" where
  "RESIGN h = (attributes h AND RDATASET_ATTR_RESIGN \<noteq> 0)"

text \<open>Reading \<open>rbtdb->heaps[idx]\<close>: \<open>heap_at\<close> returns the pointer, \<open>Some None\<close> if it or the array is \<open>NULL\<close>, and fails outside of the
  array; \<open>get_heap\<close> follows the pointer, which must not be \<open>NULL\<close>. \<open>put_heap\<close> stores the outcome of an operation.\<close>

definition heap_at :: "rbtdb \<Rightarrow> nat \<Rightarrow> header_heap option option" where
  "heap_at db idx =
     (case rb_heaps db of
        None \<Rightarrow> Some None
      | Some hs \<Rightarrow> if idx < length hs then Some (hs ! idx) else None)"

definition get_heap :: "rbtdb \<Rightarrow> nat \<Rightarrow> header_heap option" where
  "get_heap db idx = Option.bind (heap_at db idx) id"

definition put_heap :: "rbtdb \<Rightarrow> nat \<Rightarrow> header_heap \<times> hstore \<Rightarrow> rbtdb" where
  "put_heap db idx r =
     db\<lparr>rb_heaps := map_option (\<lambda>hs. hs[idx := Some (fst r)]) (rb_heaps db), rb_store := snd r\<rparr>"

definition set_ttl :: "rbtdb \<Rightarrow> nat \<Rightarrow> u32 \<Rightarrow> rbtdb option" where
  "set_ttl db header newttl =
     (let oldttl = rdh_ttl (rb_store db header);
          st = (rb_store db)(header := (rb_store db header)\<lparr>rdh_ttl := newttl\<rparr>);
          db = db\<lparr>rb_store := st\<rparr>
      in if \<not> IS_CACHE db then Some db
         else if heap_index (st header) = 0 \<or> newttl = oldttl then Some db
         else let idx = locknum (st header)
              in case heap_at db idx of
                   None \<Rightarrow> None
                 | Some None \<Rightarrow> Some db
                 | Some (Some heap) \<Rightarrow> map_option (put_heap db idx)
                     (if newttl < oldttl
                      then isc_heap_increased heap st (heap_index (st header))
                      else isc_heap_decreased heap st (heap_index (st header))))"

definition resign_insert :: "bool \<Rightarrow> rbtdb \<Rightarrow> nat \<Rightarrow> nat \<Rightarrow> (isc_result \<times> rbtdb) option" where
  "resign_insert mem db idx newheader = do {
     REQUIRE (\<not> IS_CACHE db);
     REQUIRE (heap_index (rb_store db newheader) = 0);
     REQUIRE (\<not> linked (rb_store db newheader));
     heap \<leftarrow> get_heap db idx;
     (result, r) \<leftarrow> isc_heap_insert mem heap (rb_store db) newheader;
     Some (result, put_heap db idx r) }"

definition clear_index :: "nat \<Rightarrow> rbtdb \<Rightarrow> rbtdb" where
  "clear_index header db = db\<lparr>rb_store := set_index header 0 (rb_store db)\<rparr>"

definition setsigningtime :: "bool \<Rightarrow> rbtdb \<Rightarrow> nat \<Rightarrow> u32 \<Rightarrow> (isc_result \<times> rbtdb) option" where
  "setsigningtime mem db header rs = do {
     REQUIRE (\<not> IS_CACHE db);
     let oldresign = resign (rb_store db header);
         st = (rb_store db)(header := (rb_store db header)\<lparr>resign := rs\<rparr>);
         db = db\<lparr>rb_store := st\<rparr>;
         idx = locknum (st header) in
     if heap_index (st header) \<noteq> 0 then do {
       REQUIRE (RESIGN (st header));
       if rs = 0 then do {
         heap \<leftarrow> get_heap db idx;
         r \<leftarrow> isc_heap_delete heap st (heap_index (st header));
         Some (ISC_R_SUCCESS, clear_index header (put_heap db idx r)) }
       else if rs < oldresign then do {
         heap \<leftarrow> get_heap db idx;
         r \<leftarrow> isc_heap_increased heap st (heap_index (st header));
         Some (ISC_R_SUCCESS, put_heap db idx r) }
       else if rs > oldresign then do {
         heap \<leftarrow> get_heap db idx;
         r \<leftarrow> isc_heap_decreased heap st (heap_index (st header));
         Some (ISC_R_SUCCESS, put_heap db idx r) }
       else Some (ISC_R_SUCCESS, db) }
     else if rs \<noteq> 0 \<and> heap_index (st header) = 0 then
       let st = st(header := (st header)\<lparr>attributes := attributes (st header) OR RDATASET_ATTR_RESIGN\<rparr>)
       in resign_insert mem (db\<lparr>rb_store := st\<rparr>) idx header
     else Some (ISC_R_SUCCESS, db) }"

section \<open>The callbacks satisfy the heap's contract\<close>

abbreviation header_pos :: "hstore \<Rightarrow> nat \<Rightarrow> nat" where
  "header_pos st e \<equiv> heap_index (st e)"

lemma set_index_fields [simp]:
  "rdh_ttl (set_index e i st x) = rdh_ttl (st x)" "resign (set_index e i st x) = resign (st x)"
  "locknum (set_index e i st x) = locknum (st x)"
  by (simp_all add: set_index_def)

lemma set_index_pos [simp]:
  "heap_index (set_index e i st x) = (if x = e then i else heap_index (st x))"
  by (simp add: set_index_def)

lemma sooner_set_index [simp]:
  "ttl_sooner (set_index e i st) = ttl_sooner st" "resign_sooner (set_index e i st) = resign_sooner st"
  by (simp_all add: ttl_sooner_def resign_sooner_def fun_eq_iff)

interpretation ttl_heap: heap_keyed ttl_sooner set_index header_pos "\<lambda>st e. rdh_ttl (st e)"
  by unfold_locales (auto simp: ttl_sooner_def)

interpretation resign_heap: heap_keyed resign_sooner set_index header_pos "\<lambda>st e. resign (st e)"
  by unfold_locales (auto simp: resign_sooner_def)

text \<open>A heap of headers in order: well formed, ordered by \<open>sooner\<close>, without duplicates, and with the
  position of every header recorded in it.\<close>

definition header_heap_ok :: "(hstore \<Rightarrow> nat \<Rightarrow> nat \<Rightarrow> bool) \<Rightarrow> hstore \<Rightarrow> header_heap \<Rightarrow> bool" where
  "header_heap_ok sooner st h \<longleftrightarrow> heap_wf h \<and> h_compare h = sooner \<and> h_index h = Some set_index \<and>
     ordered (sooner st) (at (h_array h)) (h_last h) \<and> inj_on (at (h_array h)) {1..h_last h} \<and>
     (\<forall>k. 1 \<le> k \<and> k \<le> h_last h \<longrightarrow> heap_index (st (at (h_array h) k)) = k)"

lemma header_heap_ttl: "header_heap_ok ttl_sooner st h \<longleftrightarrow> ttl_heap.heap_inv st h \<and> ttl_heap.positions st h"
  by (auto simp: header_heap_ok_def ttl_heap.heap_inv_def ttl_heap.positions_def ttl_heap.tracked_all
      ttl_heap.uses_def)

lemma header_heap_resign:
  "header_heap_ok resign_sooner st h \<longleftrightarrow> resign_heap.heap_inv st h \<and> resign_heap.positions st h"
  by (auto simp: header_heap_ok_def resign_heap.heap_inv_def resign_heap.positions_def
      resign_heap.tracked_all resign_heap.uses_def)

section \<open>The heaps of a cache\<close>

definition cache_ok :: "rbtdb \<Rightarrow> bool" where
  "cache_ok db \<longleftrightarrow> IS_CACHE db \<and>
     (\<forall>idx h. get_heap db idx = Some h \<longrightarrow> header_heap_ok ttl_sooner (rb_store db) h \<and>
        (\<forall>e. Some e \<in> set (h_array h) \<longrightarrow> e \<in># heap_elems h) \<and>
        (\<forall>e. e \<in># heap_elems h \<longrightarrow> locknum (rb_store db e) = idx)) \<and>
     (\<forall>e. heap_index (rb_store db e) \<noteq> 0 \<longrightarrow> heap_at db (locknum (rb_store db e)) \<noteq> None) \<and>
     (\<forall>e h. heap_index (rb_store db e) \<noteq> 0 \<longrightarrow> get_heap db (locknum (rb_store db e)) = Some h \<longrightarrow>
        e \<in># heap_elems h)"

lemma header_heap_member:
  assumes "header_heap_ok sooner st h" and "e \<in># heap_elems h"
  shows "1 \<le> heap_index (st e)" "heap_index (st e) \<le> h_last h" "at (h_array h) (heap_index (st e)) = e"
  using assms by (auto simp: header_heap_ok_def heap_elems_iff)

lemma ttl_adjust:
  assumes ok: "header_heap_ok ttl_sooner st0 h" and e: "e \<in># heap_elems h"
    and st: "st = st0(e := (st0 e)\<lparr>rdh_ttl := t\<rparr>)"
  defines "i \<equiv> heap_index (st0 e)"
  shows "\<exists>h' st'. (if t < rdh_ttl (st0 e) then isc_heap_increased h st i else isc_heap_decreased h st i)
      = Some (h', st') \<and> header_heap_ok ttl_sooner st' h' \<and> heap_elems h' = heap_elems h"
  using ttl_heap.key_adjust [of st0 h e st] ok e st by (auto simp: header_heap_ttl i_def)

lemma resign_adjust:
  assumes ok: "header_heap_ok resign_sooner st0 h" and e: "e \<in># heap_elems h"
    and st: "st = st0(e := (st0 e)\<lparr>resign := t\<rparr>)"
  defines "i \<equiv> heap_index (st0 e)"
  shows "\<exists>h' st'. (if t < resign (st0 e) then isc_heap_increased h st i else isc_heap_decreased h st i)
      = Some (h', st') \<and> header_heap_ok resign_sooner st' h' \<and> heap_elems h' = heap_elems h"
  using resign_heap.key_adjust [of st0 h e st] ok e st by (auto simp: header_heap_resign i_def)

lemma header_heap_ok_store:
  assumes "header_heap_ok sooner st0 h" and "\<And>x. x \<in># heap_elems h \<Longrightarrow> heap_index (st x) = heap_index (st0 x)"
    and "\<And>x y. x \<in># heap_elems h \<Longrightarrow> y \<in># heap_elems h \<Longrightarrow> sooner st x y = sooner st0 x y"
  shows "header_heap_ok sooner st h"
proof -
  have m: "at (h_array h) k \<in># heap_elems h" if "1 \<le> k" "k \<le> h_last h" for k
    using that by (auto simp: heap_elems_iff)
  have "ordered (sooner st) (at (h_array h)) (h_last h)"
    unfolding ordered_def
  proof (intro allI impI, elim conjE)
    fix k assume k: "2 \<le> k" "k \<le> h_last h"
    then have "at (h_array h) k \<in># heap_elems h" "at (h_array h) (k div 2) \<in># heap_elems h"
      using m by auto
    then show "\<not> sooner st (at (h_array h) k) (at (h_array h) (k div 2))"
      using assms k by (auto simp: header_heap_ok_def ordered_def)
  qed
  then show ?thesis using assms m by (auto simp: header_heap_ok_def)
qed

lemma header_heap_ok_cong:
  assumes "header_heap_ok ttl_sooner st0 h"
    and "\<And>x. x \<in># heap_elems h \<Longrightarrow> rdh_ttl (st x) = rdh_ttl (st0 x) \<and> heap_index (st x) = heap_index (st0 x)"
  shows "header_heap_ok ttl_sooner st h"
  by (rule header_heap_ok_store [OF assms(1)]) (use assms(2) in \<open>auto simp: ttl_sooner_def\<close>)

lemma heap_at_get: "heap_at db idx = Some (Some h) \<longleftrightarrow> get_heap db idx = Some h"
  by (cases "heap_at db idx") (simp_all add: get_heap_def)

lemma heap_at_put [simp]: "heap_at (put_heap db idx r) j = None \<longleftrightarrow> heap_at db j = None"
  by (auto simp: heap_at_def put_heap_def split: option.splits)

lemma get_put_heap:
  "get_heap db idx = Some h \<Longrightarrow> get_heap (put_heap db idx r) j = (if j = idx then Some (fst r) else get_heap db j)"
  by (auto simp: get_heap_def heap_at_def put_heap_def split: option.splits if_splits)

lemma store_put_heap [simp]:
  "rb_store (put_heap db idx r) = snd r" "IS_CACHE (put_heap db idx r) = IS_CACHE db"
  by (simp_all add: put_heap_def IS_CACHE_def)

lemma get_heap_store [simp]:
  "get_heap (db\<lparr>rb_store := st\<rparr>) idx = get_heap db idx" "heap_at (db\<lparr>rb_store := st\<rparr>) idx = heap_at db idx"
  "IS_CACHE (db\<lparr>rb_store := st\<rparr>) = IS_CACHE db"
  by (simp_all add: get_heap_def heap_at_def IS_CACHE_def)

lemma adjust_frame:
  assumes "isc_heap_increased h st i = Some (h', st') \<or> isc_heap_decreased h st i = Some (h', st')"
    and "h_index h = Some set_index"
  shows "set (h_array h') \<subseteq> set (h_array h)" and "rdh_ttl (st' x) = rdh_ttl (st x)"
    and "locknum (st' x) = locknum (st x)" and "Some x \<notin> set (h_array h) \<Longrightarrow> st' x = st x"
proof -
  let ?P = "\<lambda>s. \<forall>x. rdh_ttl (s x) = rdh_ttl (st x) \<and> locknum (s x) = locknum (st x) \<and>
    (Some x \<notin> set (h_array h) \<longrightarrow> s x = st x)"
  have "?P st' \<and> h_index h' = h_index h \<and> set (h_array h') \<subseteq> set (h_array h)"
    by (rule adjust_keeps [OF assms(1), of ?P]) (use assms(2) in \<open>auto simp: set_index_def\<close>)
  then show "set (h_array h') \<subseteq> set (h_array h)" "rdh_ttl (st' x) = rdh_ttl (st x)"
    "locknum (st' x) = locknum (st x)" "Some x \<notin> set (h_array h) \<Longrightarrow> st' x = st x" by auto
qed

lemma cache_ok_D:
  assumes "cache_ok db" and "get_heap db idx = Some h"
  shows "header_heap_ok ttl_sooner (rb_store db) h"
    and "Some e \<in> set (h_array h) \<Longrightarrow> e \<in># heap_elems h"
    and "e \<in># heap_elems h \<Longrightarrow> locknum (rb_store db e) = idx"
    and "heap_index (rb_store db e) \<noteq> 0 \<Longrightarrow> locknum (rb_store db e) = idx \<Longrightarrow> e \<in># heap_elems h"
  using assms by (auto simp: cache_ok_def)

lemma cache_ok_array: "cache_ok db \<Longrightarrow> heap_index (rb_store db e) \<noteq> 0 \<Longrightarrow> heap_at db (locknum (rb_store db e)) \<noteq> None"
  by (simp add: cache_ok_def)

lemma cache_okI:
  assumes "IS_CACHE db"
    and "\<And>idx h. get_heap db idx = Some h \<Longrightarrow> header_heap_ok ttl_sooner (rb_store db) h"
    and "\<And>idx h e. get_heap db idx = Some h \<Longrightarrow> Some e \<in> set (h_array h) \<Longrightarrow> e \<in># heap_elems h"
    and "\<And>idx h e. get_heap db idx = Some h \<Longrightarrow> e \<in># heap_elems h \<Longrightarrow> locknum (rb_store db e) = idx"
    and "\<And>e h. heap_index (rb_store db e) \<noteq> 0 \<Longrightarrow> get_heap db (locknum (rb_store db e)) = Some h \<Longrightarrow>
      e \<in># heap_elems h"
    and "\<And>e. heap_index (rb_store db e) \<noteq> 0 \<Longrightarrow> heap_at db (locknum (rb_store db e)) \<noteq> None"
  shows "cache_ok db"
  using assms unfolding cache_ok_def by blast

lemma cache_ok_ttl_outside:
  assumes ok: "cache_ok db" and out: "\<And>idx h. get_heap db idx = Some h \<Longrightarrow> e \<notin># heap_elems h"
  shows "cache_ok (db\<lparr>rb_store := (rb_store db)(e := (rb_store db e)\<lparr>rdh_ttl := t\<rparr>)\<rparr>)" (is "cache_ok ?db")
proof (rule cache_okI)
  fix idx h assume "get_heap ?db idx = Some h"
  then have g: "get_heap db idx = Some h" by simp
  show "header_heap_ok ttl_sooner (rb_store ?db) h"
    by (rule header_heap_ok_cong [OF cache_ok_D(1) [OF ok g]]) (use out [OF g] in auto)
  show "x \<in># heap_elems h" if "Some x \<in> set (h_array h)" for x
    using cache_ok_D(2) [OF ok g that] .
  show "locknum (rb_store ?db x) = idx" if "x \<in># heap_elems h" for x
    using cache_ok_D(3) [OF ok g that] by auto
next
  fix x h assume "heap_index (rb_store ?db x) \<noteq> 0" "get_heap ?db (locknum (rb_store ?db x)) = Some h"
  then show "x \<in># heap_elems h" using cache_ok_D(4) [OF ok, of _ h x] by (auto split: if_splits)
next
  show "heap_at ?db (locknum (rb_store ?db x)) \<noteq> None" if "heap_index (rb_store ?db x) \<noteq> 0" for x
    using cache_ok_array [OF ok, of x] that by (auto split: if_splits)
next
  show "IS_CACHE ?db" using ok by (simp add: cache_ok_def)
qed

lemma cache_ok_adjusted:
  assumes ok: "cache_ok db" and g: "get_heap db idx = Some h" and e: "e \<in># heap_elems h"
    and st: "st = (rb_store db)(e := (rb_store db e)\<lparr>rdh_ttl := t\<rparr>)"
    and r: "isc_heap_increased h st i = Some (h', st') \<or> isc_heap_decreased h st i = Some (h', st')"
    and h': "header_heap_ok ttl_sooner st' h'" "heap_elems h' = heap_elems h"
  shows "cache_ok (put_heap (db\<lparr>rb_store := st\<rparr>) idx (h', st'))" (is "cache_ok ?db")
proof -
  note hd = cache_ok_D [OF ok g]
  have ix: "h_index h = Some set_index" using hd(1) by (simp add: header_heap_ok_def)
  note fr = adjust_frame [OF r ix]
  have lock: "locknum (st' x) = locknum (rb_store db x)" for x using fr(3) st by simp
  have same: "st' x = rb_store db x" if "x \<notin># heap_elems h" for x
  proof -
    have "x \<noteq> e" using that e by blast
    then show ?thesis using fr(4) [of x] hd(2) [of x] that st by auto
  qed
  have get: "get_heap ?db j = (if j = idx then Some h' else get_heap db j)" for j
    using get_put_heap [of "db\<lparr>rb_store := st\<rparr>" idx h "(h', st')" j] g by simp
  have other: "header_heap_ok ttl_sooner st' h2" if "get_heap db j = Some h2" "j \<noteq> idx" for j h2
  proof (rule header_heap_ok_cong [OF cache_ok_D(1) [OF ok that(1)]])
    fix x assume "x \<in># heap_elems h2"
    then have "x \<notin># heap_elems h" using cache_ok_D(3) [OF ok that(1)] hd(3) that(2) by auto
    then show "rdh_ttl (st' x) = rdh_ttl (rb_store db x) \<and> heap_index (st' x) = heap_index (rb_store db x)"
      using same by simp
  qed
  show ?thesis
  proof (rule cache_okI)
    fix j h2 assume j: "get_heap ?db j = Some h2"
    show "header_heap_ok ttl_sooner (rb_store ?db) h2"
      using j other h'(1) by (auto simp: get split: if_splits)
    show "x \<in># heap_elems h2" if "Some x \<in> set (h_array h2)" for x
      using j that h'(2) fr(1) hd(2) cache_ok_D(2) [OF ok] by (auto simp: get split: if_splits)
    show "locknum (rb_store ?db x) = j" if "x \<in># heap_elems h2" for x
      using j that h'(2) lock hd(3) cache_ok_D(3) [OF ok] by (auto simp: get split: if_splits)
  next
    fix x h2 assume x: "heap_index (rb_store ?db x) \<noteq> 0" "get_heap ?db (locknum (rb_store ?db x)) = Some h2"
    show "x \<in># heap_elems h2"
    proof (cases "x \<in># heap_elems h")
      case True
      then show ?thesis using x(2) hd(3) [of x] lock [of x] h'(2) by (simp add: get)
    next
      case False
      then show ?thesis
        using x same [of x] cache_ok_D(4) [OF ok, of _ _ x] g h'(2) by (auto simp: get split: if_splits)
    qed
  next
    fix x assume x: "heap_index (rb_store ?db x) \<noteq> 0"
    have "heap_index (rb_store db x) \<noteq> 0"
      using x same [of x] header_heap_member(1) [OF hd(1), of x] by (cases "x \<in># heap_elems h") auto
    then show "heap_at ?db (locknum (rb_store ?db x)) \<noteq> None" using cache_ok_array [OF ok] lock by simp
  next
    show "IS_CACHE ?db" using ok by (simp add: cache_ok_def)
  qed
qed

section \<open>A concrete zone with six headers\<close>

definition sample_store :: hstore where
  "sample_store n = \<lparr>rdh_ttl = 300, attributes = RDATASET_ATTR_RESIGN, locknum = 0, linked = False,
     heap_index = (if 1 \<le> n \<and> n \<le> 6 then n else 0),
     resign = (if 1 \<le> n \<and> n \<le> 6 then [0, 10, 100, 20, 110, 120, 30] ! n else 0)\<rparr>"

definition sample_zone_heap :: header_heap where
  "sample_zone_heap = \<lparr>h_magic = HEAP_MAGIC, h_size = 8, h_size_increment = 1024, h_last = 6,
     h_array = [None, Some 1, Some 2, Some 3, Some 4, Some 5, Some 6, None],
     h_compare = resign_sooner, h_index = Some set_index\<rparr>"

definition sample_zone :: rbtdb where
  "sample_zone = \<lparr>rb_cache = False, rb_heaps = Some [Some sample_zone_heap], rb_store = sample_store\<rparr>"

lemma upto6: "(\<forall>k::nat. 1 \<le> k \<and> k \<le> 6 \<longrightarrow> P k) \<longleftrightarrow> P 1 \<and> P 2 \<and> P 3 \<and> P 4 \<and> P 5 \<and> P 6"
proof -
  have "1 \<le> k \<and> k \<le> 6 \<longleftrightarrow> k = 1 \<or> k = 2 \<or> k = 3 \<or> k = 4 \<or> k = 5 \<or> k = (6::nat)" for k by auto
  then show ?thesis by (metis (lifting))
qed

lemma upto6': "(\<forall>k::nat. 2 \<le> k \<and> k \<le> 6 \<longrightarrow> P k) \<longleftrightarrow> P 2 \<and> P 3 \<and> P 4 \<and> P 5 \<and> P 6"
proof -
  have "2 \<le> k \<and> k \<le> 6 \<longleftrightarrow> k = 2 \<or> k = 3 \<or> k = 4 \<or> k = 5 \<or> k = (6::nat)" for k by auto
  then show ?thesis by (metis (lifting))
qed

lemma sample_at: "1 \<le> k \<Longrightarrow> k \<le> 6 \<Longrightarrow> at (h_array sample_zone_heap) k = k"
  using upto6 [of "\<lambda>k. at (h_array sample_zone_heap) k = k"]
  by (simp add: at_def sample_zone_heap_def)

lemma sample_zone_heap_ok: "header_heap_ok resign_sooner sample_store sample_zone_heap"
proof -
  have last: "h_last sample_zone_heap = 6" by (simp add: sample_zone_heap_def)
  have "heap_wf sample_zone_heap"
    using upto6 [of "\<lambda>k. h_array sample_zone_heap ! k \<noteq> None"]
    by (simp add: heap_wf_def VALID_HEAP_def sample_zone_heap_def)
  moreover have "inj_on (at (h_array sample_zone_heap)) {1..6}"
    by (rule inj_onI) (use sample_at in auto)
  moreover have "ordered (resign_sooner sample_store) (at (h_array sample_zone_heap)) 6"
    unfolding ordered_def upto6' by (simp add: sample_at resign_sooner_def sample_store_def)
  moreover have "h_compare sample_zone_heap = resign_sooner" "h_index sample_zone_heap = Some set_index"
    by (simp_all add: sample_zone_heap_def)
  ultimately show ?thesis by (simp add: header_heap_ok_def last sample_at sample_store_def)
qed

section \<open>Properties\<close>

lemma header_heap_cases:
  assumes "header_heap_ok sooner st h" and "sooner = ttl_sooner \<or> sooner = resign_sooner"
  obtains "sooner = ttl_sooner" "ttl_heap.heap_inv st h" "ttl_heap.positions st h"
  | "sooner = resign_sooner" "resign_heap.heap_inv st h" "resign_heap.positions st h"
  using assms by (auto simp: header_heap_ttl header_heap_resign)

lemma header_insert_ok:
  assumes "header_heap_ok sooner st h" and "sooner = ttl_sooner \<or> sooner = resign_sooner"
    and "e \<notin># heap_elems h" and "Suc (h_last h) < 2 ^ 32" and "h_size h + h_size_increment h < 2 ^ 32"
    and "2 \<le> h_size_increment h"
  shows "\<exists>r h' st'. isc_heap_insert mem h st e = Some (r, h', st') \<and> header_heap_ok sooner st' h' \<and>
    (if mem \<or> Suc (h_last h) < h_size h
     then r = ISC_R_SUCCESS \<and> heap_elems h' = add_mset e (heap_elems h)
     else r = ISC_R_NOMEMORY \<and> h' = h \<and> st' = st)"
proof (cases "mem \<or> Suc (h_last h) < h_size h")
  case True
  show ?thesis
    using assms(1,2)
  proof (cases rule: header_heap_cases)
    case 1
    then show ?thesis
      using ttl_heap.insert_positions [OF 1(2) assms(4) True assms(5,6) 1(3) assms(3)] True
      by (auto simp: header_heap_ttl)
  next
    case 2
    then show ?thesis
      using resign_heap.insert_positions [OF 2(2) assms(4) True assms(5,6) 2(3) assms(3)] True
      by (auto simp: header_heap_resign)
  qed
next
  case False
  then have "isc_heap_insert mem h st e = Some (ISC_R_NOMEMORY, h, st)"
    using ttl_heap.insert_nomem [of h st e] assms(1,4) by (auto simp: header_heap_ok_def)
  then show ?thesis using False assms(1) by auto
qed

text \<open>C25: Inserting a header that is not in the heap, into a heap in order, either succeeds, and the heap is
  in order again and holds one header more, with the position of every header recorded in it, or
  fails with \<open>ISC_R_NOMEMORY\<close>, only when the array has to grow and no memory is left, and changes nothing.\<close>

theorem header_heap_insert:
  assumes "header_heap_ok sooner st h" and "sooner = ttl_sooner \<or> sooner = resign_sooner"
    and "e \<notin># heap_elems h" and "Suc (h_last h) < 2 ^ 32" and "h_size h + h_size_increment h < 2 ^ 32"
    and "2 \<le> h_size_increment h"
  shows "\<exists>r h' st'. isc_heap_insert mem h st e = Some (r, h', st') \<and> header_heap_ok sooner st' h' \<and>
    (if mem \<or> Suc (h_last h) < h_size h
     then r = ISC_R_SUCCESS \<and> heap_elems h' = add_mset e (heap_elems h)
     else r = ISC_R_NOMEMORY \<and> h' = h \<and> st' = st)"
  using assms by (rule header_insert_ok)

theorem header_heap_insert_witness:
  "header_heap_ok resign_sooner sample_store sample_zone_heap \<and> 7 \<notin># heap_elems sample_zone_heap \<and>
   (\<exists>h' st'. isc_heap_insert True sample_zone_heap sample_store 7 = Some (ISC_R_SUCCESS, h', st') \<and>
     header_heap_ok resign_sooner st' h' \<and> heap_elems h' = add_mset 7 (heap_elems sample_zone_heap))"
proof -
  have fields: "h_last sample_zone_heap = 6" "h_size sample_zone_heap = 8" "h_size_increment sample_zone_heap = 1024"
    by (simp_all add: sample_zone_heap_def)
  have new: "7 \<notin># heap_elems sample_zone_heap"
    using sample_at by (auto simp: heap_elems_iff fields)
  show ?thesis
    using header_heap_insert [of resign_sooner sample_store sample_zone_heap 7 True] sample_zone_heap_ok new
    by (simp add: fields)
qed

text \<open>C10: Deleting at any position of a heap in order never aborts, removes exactly the header at that position, and
  leaves a heap in order with the positions of the remaining headers up to date.\<close>

theorem header_heap_delete:
  assumes "header_heap_ok sooner st h" and "sooner = ttl_sooner \<or> sooner = resign_sooner"
    and "1 \<le> i" and "i \<le> h_last h"
  shows "\<exists>h' st'. isc_heap_delete h st i = Some (h', st') \<and> header_heap_ok sooner st' h' \<and>
    add_mset (at (h_array h) i) (heap_elems h') = heap_elems h"
proof -
  have mem: "at (h_array h) i \<in># heap_elems h" using assms(3,4) by (auto simp: heap_elems_iff)
  show ?thesis
    using assms(1,2)
  proof (cases rule: header_heap_cases)
    case 1
    then show ?thesis
      using ttl_heap.delete_ok [OF 1(2) assms(3,4)] ttl_heap.delete_positions [OF 1(2) assms(3,4) 1(3)] mem
      by (fastforce simp: header_heap_ttl)
  next
    case 2
    then show ?thesis
      using resign_heap.delete_ok [OF 2(2) assms(3,4)] resign_heap.delete_positions [OF 2(2) assms(3,4) 2(3)] mem
      by (fastforce simp: header_heap_resign)
  qed
qed

theorem header_heap_delete_witness:
  "header_heap_ok resign_sooner sample_store sample_zone_heap \<and>
   (\<exists>h' st'. isc_heap_delete sample_zone_heap sample_store 4 = Some (h', st') \<and>
     header_heap_ok resign_sooner st' h' \<and> add_mset 4 (heap_elems h') = heap_elems sample_zone_heap)"
  using header_heap_delete [of resign_sooner sample_store sample_zone_heap 4] sample_zone_heap_ok sample_at [of 4]
  by (simp add: sample_zone_heap_def)

text \<open>The first element of a non-empty heap in order is a header of the heap, and none of the others is sooner:
  the next header to expire, or to be signed again.\<close>

theorem header_heap_first:
  assumes "header_heap_ok sooner st h" and "sooner = ttl_sooner \<or> sooner = resign_sooner" and "1 \<le> h_last h"
  shows "\<exists>e. isc_heap_element h 1 = Some (Some e) \<and> e \<in># heap_elems h \<and> heap_index (st e) = 1 \<and>
    (\<forall>x. x \<in># heap_elems h \<longrightarrow> \<not> sooner st x e)"
proof -
  have one: "heap_index (st (at (h_array h) 1)) = 1" using assms by (auto simp: header_heap_ok_def)
  show ?thesis
    using assms(1,2)
  proof (cases rule: header_heap_cases)
    case 1
    then show ?thesis using ttl_heap.element_one [OF 1(2) assms(3)] one by auto
  next
    case 2
    then show ?thesis using resign_heap.element_one [OF 2(2) assms(3)] one by auto
  qed
qed

theorem header_heap_first_witness:
  "\<exists>e. isc_heap_element sample_zone_heap 1 = Some (Some e) \<and>
    (\<forall>x. x \<in># heap_elems sample_zone_heap \<longrightarrow> \<not> resign_sooner sample_store x e)"
  using header_heap_first [of resign_sooner sample_store sample_zone_heap] sample_zone_heap_ok
  by (auto simp: sample_zone_heap_def)

text \<open>C11: Whatever time to live is stored in whatever header of a cache whose heaps are in order, \<open>set_ttl\<close>
  returns, leaves every heap in order with the same headers in it, and changes no other time to live.\<close>

theorem set_ttl_keeps_cache:
  assumes ok: "cache_ok db"
  shows "\<exists>db'. set_ttl db e t = Some db' \<and> cache_ok db' \<and> rdh_ttl (rb_store db' e) = t \<and>
    (\<forall>x. x \<noteq> e \<longrightarrow> rdh_ttl (rb_store db' x) = rdh_ttl (rb_store db x)) \<and>
    (\<forall>idx. map_option heap_elems (get_heap db' idx) = map_option heap_elems (get_heap db idx))"
proof -
  let ?st = "(rb_store db)(e := (rb_store db e)\<lparr>rdh_ttl := t\<rparr>)"
  let ?db = "db\<lparr>rb_store := ?st\<rparr>" and ?idx = "locknum (rb_store db e)"
  have c: "IS_CACHE db" using ok by (simp add: cache_ok_def)
  show ?thesis
  proof (cases "heap_index (rb_store db e) \<noteq> 0 \<and> t \<noteq> rdh_ttl (rb_store db e) \<and> get_heap db ?idx \<noteq> None")
    case False
    have run: "set_ttl db e t = Some ?db"
    proof -
      have "heap_index (rb_store db e) \<noteq> 0 \<longrightarrow> heap_at db ?idx \<noteq> None" using cache_ok_array [OF ok] by blast
      then show ?thesis using c False heap_at_get [of db ?idx] by (auto simp: set_ttl_def Let_def split: option.splits)
    qed
    have "cache_ok ?db"
    proof (cases "t = rdh_ttl (rb_store db e)")
      case True
      then show ?thesis using ok by simp
    next
      case ne: False
      have "e \<notin># heap_elems h" if g: "get_heap db idx = Some h" for idx h
        using False ne g cache_ok_D(3) [OF ok g, of e] header_heap_member(1) [OF cache_ok_D(1) [OF ok g], of e]
        by auto
      then show ?thesis by (rule cache_ok_ttl_outside [OF ok])
    qed
    then show ?thesis using run by simp
  next
    case True
    then obtain h where g: "get_heap db ?idx = Some h" and ix: "heap_index (rb_store db e) \<noteq> 0"
        and ne: "t \<noteq> rdh_ttl (rb_store db e)" by auto
    have mem: "e \<in># heap_elems h" using cache_ok_D(4) [OF ok g ix] by simp
    obtain h' st' where r: "(if t < rdh_ttl (rb_store db e)
        then isc_heap_increased h ?st (heap_index (rb_store db e))
        else isc_heap_decreased h ?st (heap_index (rb_store db e))) = Some (h', st')"
      and h': "header_heap_ok ttl_sooner st' h'" "heap_elems h' = heap_elems h"
      using ttl_adjust [OF cache_ok_D(1) [OF ok g] mem refl] by blast
    then have r': "isc_heap_increased h ?st (heap_index (rb_store db e)) = Some (h', st') \<or>
        isc_heap_decreased h ?st (heap_index (rb_store db e)) = Some (h', st')"
      by (auto split: if_splits)
    have run: "set_ttl db e t = Some (put_heap ?db ?idx (h', st'))"
      using c g [folded heap_at_get] ix ne r by (auto simp: set_ttl_def Let_def split: if_splits)
    have "rdh_ttl (st' x) = rdh_ttl (?st x)" for x
      using adjust_frame(2) [OF r'] cache_ok_D(1) [OF ok g] by (simp add: header_heap_ok_def)
    moreover have "get_heap (put_heap ?db ?idx (h', st')) j = (if j = ?idx then Some h' else get_heap db j)" for j
      using get_put_heap [of ?db ?idx h] g by simp
    ultimately show ?thesis
      using run cache_ok_adjusted [OF ok g mem refl r' h'] g h'(2) by auto
  qed
qed

definition sample_cache :: rbtdb where
  "sample_cache = \<lparr>rb_cache = True, rb_heaps = Some [Some (sample_zone_heap\<lparr>h_compare := ttl_sooner\<rparr>)],
     rb_store = sample_store\<rparr>"

lemma sample_cache_ok: "cache_ok sample_cache"
proof -
  let ?h = "sample_zone_heap\<lparr>h_compare := ttl_sooner\<rparr>"
  have elems: "e \<in># heap_elems ?h \<longleftrightarrow> 1 \<le> e \<and> e \<le> 6" for e
    using sample_at by (auto simp: heap_elems_iff) (auto simp: sample_zone_heap_def)
  have "header_heap_ok ttl_sooner sample_store ?h"
    using sample_zone_heap_ok
    by (auto simp: header_heap_ok_def heap_wf_def VALID_HEAP_def ordered_def ttl_sooner_def sample_store_def)
  moreover have "get_heap sample_cache idx = (if idx = 0 then Some ?h else None)" for idx
    by (auto simp: get_heap_def heap_at_def sample_cache_def)
  moreover have "Some e \<in> set (h_array ?h) \<Longrightarrow> 1 \<le> e \<and> e \<le> 6" for e
    by (auto simp: sample_zone_heap_def)
  ultimately show ?thesis
    by (intro cache_okI) (auto simp: elems IS_CACHE_def heap_at_def sample_cache_def sample_store_def split: if_splits)
qed

theorem set_ttl_keeps_cache_witness:
  "cache_ok sample_cache \<and> (\<exists>db'. set_ttl sample_cache 4 7 = Some db' \<and> cache_ok db' \<and>
     rdh_ttl (rb_store db' 4) = 7 \<and> rdh_ttl (rb_store db' 1) = rdh_ttl (rb_store sample_cache 1))"
  using set_ttl_keeps_cache [OF sample_cache_ok, of 4 7] sample_cache_ok by auto

lemma resign_stored:
  assumes ok: "header_heap_ok resign_sooner (rb_store db) h" and g: "get_heap db (locknum (rb_store db e)) = Some h"
    and z: "\<not> IS_CACHE db" and e: "e \<in># heap_elems h" and r: "RESIGN (rb_store db e)" and rs: "rs \<noteq> 0"
  shows "\<exists>h' st'. setsigningtime mem db e rs = Some (ISC_R_SUCCESS, put_heap (db\<lparr>rb_store :=
      (rb_store db)(e := (rb_store db e)\<lparr>resign := rs\<rparr>)\<rparr>) (locknum (rb_store db e)) (h', st')) \<and>
    header_heap_ok resign_sooner st' h' \<and> heap_elems h' = heap_elems h \<and>
    (\<forall>x. resign (st' x) = (if x = e then rs else resign (rb_store db x))) \<and>
    (\<forall>x. attributes (st' x) = attributes (rb_store db x) \<and> locknum (st' x) = locknum (rb_store db x))"
proof -
  let ?st = "(rb_store db)(e := (rb_store db e)\<lparr>resign := rs\<rparr>)"
  let ?i = "heap_index (rb_store db e)" and ?db = "db\<lparr>rb_store := ?st\<rparr>" and ?l = "locknum (rb_store db e)"
  have i: "?i \<noteq> 0" using header_heap_member(1) [OF ok e] by simp
  have r': "RESIGN ((rb_store db e)\<lparr>resign := rs\<rparr>)" using r by (simp add: RESIGN_def)
  show ?thesis
  proof (cases "rs = resign (rb_store db e)")
    case True
    then have s: "?st = rb_store db" by (simp add: fun_eq_iff)
    obtain hs where hs: "rb_heaps db = Some hs" "hs ! ?l = Some h"
      using g by (auto simp: get_heap_def heap_at_def split: option.splits if_splits)
    have "hs[?l := Some h] = hs" using list_update_id [of hs ?l] hs(2) by simp
    then have "put_heap ?db ?l (h, rb_store db) = db" using hs(1) s by (cases db) (simp add: put_heap_def)
    then have "setsigningtime mem db e rs = Some (ISC_R_SUCCESS, put_heap ?db ?l (h, rb_store db))"
      using z i r' rs True s by (simp add: setsigningtime_def REQUIRE_def Let_def)
    then show ?thesis using ok True by (intro exI [of _ h] exI [of _ "rb_store db"]) simp
  next
    case False
    obtain h' st' where a: "(if rs < resign (rb_store db e) then isc_heap_increased h ?st ?i
        else isc_heap_decreased h ?st ?i) = Some (h', st')"
      "header_heap_ok resign_sooner st' h'" "heap_elems h' = heap_elems h"
      using resign_adjust [OF ok e refl] by blast
    have "setsigningtime mem db e rs = Some (ISC_R_SUCCESS, put_heap ?db ?l (h', st'))"
      using z g i r' rs False a(1) by (auto simp: setsigningtime_def REQUIRE_def Let_def split: if_splits)
    moreover have "\<forall>x. resign (st' x) = resign (?st x) \<and> attributes (st' x) = attributes (?st x) \<and> locknum (st' x) = locknum (?st x)"
    proof -
      have "isc_heap_increased h ?st ?i = Some (h', st') \<or> isc_heap_decreased h ?st ?i = Some (h', st')"
        using a(1) by (auto split: if_splits)
      then have "(\<forall>x. resign (st' x) = resign (?st x) \<and> attributes (st' x) = attributes (?st x) \<and> locknum (st' x) = locknum (?st x)) \<and>
          h_index h' = h_index h \<and> set (h_array h') \<subseteq> set (h_array h)"
        by (rule adjust_keeps [where P = "\<lambda>s. \<forall>x. resign (s x) = resign (?st x) \<and> attributes (s x) = attributes (?st x) \<and> locknum (s x) = locknum (?st x)"])
          (use ok in \<open>auto simp: header_heap_ok_def set_index_def\<close>)
      then show ?thesis by blast
    qed
    ultimately show ?thesis using a(2,3) by (intro exI [of _ h'] exI [of _ st']) auto
  qed
qed

lemma resign_marked: "(a OR RDATASET_ATTR_RESIGN) AND RDATASET_ATTR_RESIGN \<noteq> 0"
proof -
  have "(a OR RDATASET_ATTR_RESIGN) AND RDATASET_ATTR_RESIGN = RDATASET_ATTR_RESIGN" by (rule bit_word_eqI) (auto simp: bit_simps)
  then show ?thesis by (simp add: RDATASET_ATTR_RESIGN_def)
qed

lemma resign_added:
  assumes ok: "header_heap_ok resign_sooner (rb_store db) h" and g: "get_heap db (locknum (rb_store db e)) = Some h"
    and z: "\<not> IS_CACHE db" and e: "heap_index (rb_store db e) = 0" "\<not> linked (rb_store db e)" and rs: "rs \<noteq> 0"
    and sz: "Suc (h_last h) < 2 ^ 32" "h_size h + h_size_increment h < 2 ^ 32" "2 \<le> h_size_increment h"
  defines "st \<equiv> (rb_store db)(e := (rb_store db e)\<lparr>resign := rs, attributes := attributes (rb_store db e) OR RDATASET_ATTR_RESIGN\<rparr>)"
  shows "\<exists>h' st'. setsigningtime mem db e rs = Some (if mem \<or> Suc (h_last h) < h_size h then ISC_R_SUCCESS else ISC_R_NOMEMORY,
      put_heap (db\<lparr>rb_store := st\<rparr>) (locknum (rb_store db e)) (h', st')) \<and> header_heap_ok resign_sooner st' h' \<and>
    heap_elems h' = (if mem \<or> Suc (h_last h) < h_size h then add_mset e (heap_elems h) else heap_elems h) \<and>
    (\<forall>x. resign (st' x) = resign (st x) \<and> attributes (st' x) = attributes (st x) \<and> locknum (st' x) = locknum (st x))"
proof -
  have new: "e \<notin># heap_elems h" using header_heap_member(1) [OF ok, of e] e(1) by auto
  have ok1: "header_heap_ok resign_sooner st h"
    by (rule header_heap_ok_store [OF ok]) (use new in \<open>auto simp: st_def resign_sooner_def\<close>)
  obtain r h' st' where i: "isc_heap_insert mem h st e = Some (r, h', st')" "header_heap_ok resign_sooner st' h'"
    "if mem \<or> Suc (h_last h) < h_size h then r = ISC_R_SUCCESS \<and> heap_elems h' = add_mset e (heap_elems h)
     else r = ISC_R_NOMEMORY \<and> h' = h \<and> st' = st" using header_insert_ok [OF ok1 _ new sz] by blast
  have "setsigningtime mem db e rs = Some (r, put_heap (db\<lparr>rb_store := st\<rparr>) (locknum (rb_store db e)) (h', st'))"
    using z e rs g i(1) [unfolded st_def] unfolding st_def by (simp add: setsigningtime_def resign_insert_def REQUIRE_def)
  moreover have "\<forall>x. resign (st' x) = resign (st x) \<and> attributes (st' x) = attributes (st x) \<and> locknum (st' x) = locknum (st x)"
    by (rule insert_keeps [OF i(1), where P = "\<lambda>s. \<forall>x. resign (s x) = resign (st x) \<and> attributes (s x) = attributes (st x) \<and> locknum (s x) = locknum (st x)"])
      (use ok1 in \<open>auto simp: header_heap_ok_def set_index_def\<close>)
  ultimately show ?thesis using i(2,3) by (intro exI [of _ h'] exI [of _ st']) (auto split: if_splits)
qed

text \<open>C26: \<open>setsigningtime\<close> with a non-zero time, on any header of a zone whose heap is in order, returns, records the time and
  keeps the heap in order. A header of the heap moves to its new place among the same headers; a header that is in no heap is
  marked for re-signing and added to the heap, unless the array of the heap has to grow and there is no memory, which the
  result says. The times of other headers and the other heaps do not change.\<close>

theorem setsigningtime_reorders:
  assumes z: "\<not> IS_CACHE db" and g: "get_heap db (locknum (rb_store db e)) = Some h"
    and ok: "header_heap_ok resign_sooner (rb_store db) h" and rs: "rs \<noteq> 0"
    and e: "if heap_index (rb_store db e) \<noteq> 0 then e \<in># heap_elems h \<and> RESIGN (rb_store db e) else \<not> linked (rb_store db e)"
    and sz: "Suc (h_last h) < 2 ^ 32" "h_size h + h_size_increment h < 2 ^ 32" "2 \<le> h_size_increment h"
  shows "\<exists>result db' h'. setsigningtime mem db e rs = Some (result, db') \<and>
    get_heap db' (locknum (rb_store db e)) = Some h' \<and> header_heap_ok resign_sooner (rb_store db') h' \<and>
    (if heap_index (rb_store db e) \<noteq> 0 then result = ISC_R_SUCCESS \<and> heap_elems h' = heap_elems h
     else if mem \<or> Suc (h_last h) < h_size h then result = ISC_R_SUCCESS \<and> heap_elems h' = add_mset e (heap_elems h)
     else result = ISC_R_NOMEMORY \<and> heap_elems h' = heap_elems h) \<and>
    resign (rb_store db' e) = rs \<and> RESIGN (rb_store db' e) \<and> (\<forall>x. x \<noteq> e \<longrightarrow> resign (rb_store db' x) = resign (rb_store db x)) \<and>
    (\<forall>j. j \<noteq> locknum (rb_store db e) \<longrightarrow> get_heap db' j = get_heap db j)"
proof (cases "heap_index (rb_store db e) = 0")
  case False
  then have e': "e \<in># heap_elems h" "RESIGN (rb_store db e)" using e by auto
  from resign_stored [OF ok g z this rs, of mem] obtain h' st' where a: "setsigningtime mem db e rs = Some (ISC_R_SUCCESS, put_heap (db\<lparr>rb_store :=
      (rb_store db)(e := (rb_store db e)\<lparr>resign := rs\<rparr>)\<rparr>) (locknum (rb_store db e)) (h', st'))"
    "header_heap_ok resign_sooner st' h'" "heap_elems h' = heap_elems h"
    "\<forall>x. resign (st' x) = (if x = e then rs else resign (rb_store db x))" "\<forall>x. attributes (st' x) = attributes (rb_store db x) \<and> locknum (st' x) = locknum (rb_store db x)"
    by blast
  then show ?thesis
    using False e g get_put_heap [of "db\<lparr>rb_store := (rb_store db)(e := (rb_store db e)\<lparr>resign := rs\<rparr>)\<rparr>" "locknum (rb_store db e)" h "(h', st')"]
    by (auto simp: RESIGN_def)
next
  case True
  let ?st = "(rb_store db)(e := (rb_store db e)\<lparr>resign := rs, attributes := attributes (rb_store db e) OR RDATASET_ATTR_RESIGN\<rparr>)"
  obtain h' st' where a: "setsigningtime mem db e rs = Some (if mem \<or> Suc (h_last h) < h_size h then ISC_R_SUCCESS else ISC_R_NOMEMORY,
      put_heap (db\<lparr>rb_store := ?st\<rparr>) (locknum (rb_store db e)) (h', st'))" "header_heap_ok resign_sooner st' h'"
    "heap_elems h' = (if mem \<or> Suc (h_last h) < h_size h then add_mset e (heap_elems h) else heap_elems h)"
    "\<forall>x. resign (st' x) = resign (?st x) \<and> attributes (st' x) = attributes (?st x) \<and> locknum (st' x) = locknum (?st x)"
    using resign_added [OF ok g z True _ rs sz, of mem] e True by auto
  have "RESIGN (st' e)" using a(4) resign_marked [of "attributes (rb_store db e)"] by (simp add: RESIGN_def)
  then show ?thesis
    using True g get_put_heap [of "db\<lparr>rb_store := ?st\<rparr>" "locknum (rb_store db e)" h "(h', st')"] a by auto
qed

lemma sample_zone_simps [simp]:
  "\<not> IS_CACHE sample_zone" "get_heap sample_zone (locknum (sample_store e)) = Some sample_zone_heap"
  "rb_store sample_zone = sample_store" "RESIGN (sample_store e)"
  by (simp_all add: sample_zone_def IS_CACHE_def get_heap_def heap_at_def sample_store_def RESIGN_def RDATASET_ATTR_RESIGN_def)

lemma sample_four: "4 \<in># heap_elems sample_zone_heap"
  unfolding heap_elems_iff by (rule exI [of _ 4]) (simp add: sample_at, simp add: sample_zone_heap_def)

theorem setsigningtime_reorders_witness:
  "(\<exists>db' h'. setsigningtime True sample_zone 4 5 = Some (ISC_R_SUCCESS, db') \<and>
    get_heap db' (locknum (rb_store sample_zone 4)) = Some h' \<and> header_heap_ok resign_sooner (rb_store db') h' \<and>
    resign (rb_store db' 4) = 5) \<and>
   (\<exists>db' h'. setsigningtime True sample_zone 7 5 = Some (ISC_R_SUCCESS, db') \<and>
    get_heap db' (locknum (rb_store sample_zone 7)) = Some h' \<and> header_heap_ok resign_sooner (rb_store db') h' \<and>
    heap_elems h' = add_mset 7 (heap_elems sample_zone_heap) \<and> resign (rb_store db' 7) = 5)"
proof -
  have f: "h_last sample_zone_heap = 6" "h_size sample_zone_heap = 8" "h_size_increment sample_zone_heap = 1024"
    by (simp_all add: sample_zone_heap_def)
  have s: "heap_index (sample_store 4) = 4" "heap_index (sample_store 7) = 0" "\<not> linked (sample_store 7)" by (simp_all add: sample_store_def)
  show ?thesis
    using setsigningtime_reorders [of sample_zone 4 sample_zone_heap 5 True] setsigningtime_reorders [of sample_zone 7 sample_zone_heap 5 True]
      sample_zone_heap_ok sample_four by (simp add: f s) blast
qed

text \<open>\<open>setsigningtime\<close> with time 0, which takes the header out of the heap, can abort: the time is overwritten
  before \<open>isc_heap_delete\<close> compares the last header of the heap with the deleted one, so that the
  delete sinks where it has to float, and its check of the heap condition fails. The zone
  of this statement has six headers in one heap in order.\<close>

theorem setsigningtime_zero_aborts:
  "header_heap_ok resign_sooner (rb_store sample_zone) sample_zone_heap \<and>
   get_heap sample_zone (locknum (rb_store sample_zone 4)) = Some sample_zone_heap \<and>
   4 \<in># heap_elems sample_zone_heap \<and> RESIGN (rb_store sample_zone 4) \<and>
   setsigningtime True sample_zone 4 0 = None"
proof -
  have "Option.is_none (setsigningtime True sample_zone 4 0)" by code_simp
  moreover have "4 \<in># heap_elems sample_zone_heap"
    unfolding heap_elems_iff by (rule exI [of _ 4]) (simp add: sample_at, simp add: sample_zone_heap_def)
  ultimately show ?thesis
    using sample_zone_heap_ok
    by (simp add: sample_zone_def get_heap_def heap_at_def sample_store_def RESIGN_def RDATASET_ATTR_RESIGN_def
        Option.is_none_def)
qed

text \<open>A heap created with a growth increment of 1 is too small for its first element: the array is indexed
  from 1, and the first insertion writes one slot past its end.\<close>

theorem heap_increment_one_overflow:
  "\<exists>h. isc_heap_create True (Some ttl_sooner) (Some set_index) 1 = Some (ISC_R_SUCCESS, Some h) \<and>
     isc_heap_insert True h st e = None"
  by (simp add: isc_heap_create_def isc_heap_insert_def VALID_HEAP_def resize_def mem_write_def float_up_def
      float_up_loop.simps settle_def aset_def REQUIRE_def)

end
