(* ===== verification/Netmap_Packet.thy ===== *)
theory Netmap_Packet
  imports Prelude
begin

text \<open>
  Packet handling of the netmap I/O path (\<open>netmap/dns_util.c\<close>): the table of the link-layer
  routes of outstanding queries, the Internet checksum, the recognition of DNS queries, the
  extraction of the addresses and the construction of the headers of a reply.

  The packets are byte lists with checked accesses at the offsets of the C structures
  (\<open>ethhdr\<close> at 0, \<open>iphdr\<close> at 14, \<open>udphdr\<close> at 34, the DNS message at 42). The code runs on x86:
  \<open>load16\<close>, \<open>load32\<close>, \<open>store16\<close> and \<open>store32\<close> are little endian. The globals of the file are the
  fields of \<open>nm_globals\<close>. Diagnostics are not modelled.
\<close>

section \<open>Little-endian loads and stores\<close>

definition le16 :: "u16 \<Rightarrow> bytes" where
  "le16 v = rev (be16 v)"

definition le32 :: "u32 \<Rightarrow> bytes" where
  "le32 v = rev (be32 v)"

definition load16 :: "bytes \<Rightarrow> nat \<Rightarrow> u16 option" where
  "load16 m off = do { b \<leftarrow> mem_read m off 2; Some (of_be16 (b ! 1) (b ! 0)) }"

definition load32 :: "bytes \<Rightarrow> nat \<Rightarrow> u32 option" where
  "load32 m off = do { b \<leftarrow> mem_read m off 4; Some (of_be32 (b ! 3) (b ! 2) (b ! 1) (b ! 0)) }"

definition store16 :: "bytes \<Rightarrow> nat \<Rightarrow> u16 \<Rightarrow> bytes option" where
  "store16 m off v = mem_write m off (le16 v)"

definition store32 :: "bytes \<Rightarrow> nat \<Rightarrow> u32 \<Rightarrow> bytes option" where
  "store32 m off v = mem_write m off (le32 v)"

definition htons :: "u16 \<Rightarrow> u16" where
  "htons v = of_be16 (ucast v) (ucast (drop_bit 8 v))"

section \<open>The table of routes\<close>

record macaddr_map_s =
  smac :: bytes
  dmac :: bytes
  dirty :: bool
  qid :: u16
  mm_saddr :: u32
  mm_source :: u16

record nm_globals =
  g_macaddr_map :: "macaddr_map_s list"
  g_macaddr_map_inited :: bool
  g_pkt_header :: bytes
  g_pkt_header_inited :: bool
  g_ip_id_next :: u16

definition MAC_ADDR_MAP_ITEMS :: nat where
  "MAC_ADDR_MAP_ITEMS = 8"

definition empty_macaddr :: macaddr_map_s where
  "empty_macaddr = \<lparr>smac = replicate 6 0, dmac = replicate 6 0, dirty = False, qid = 0,
     mm_saddr = 0, mm_source = 0\<rparr>"

definition nm_globals_init :: nm_globals where
  "nm_globals_init = \<lparr>g_macaddr_map = replicate MAC_ADDR_MAP_ITEMS empty_macaddr,
     g_macaddr_map_inited = False, g_pkt_header = replicate 42 0, g_pkt_header_inited = False,
     g_ip_id_next = 0x12a\<rparr>"

text \<open>The loop of \<open>netmap_add_macaddr\<close>: the first slot that is not dirty, or the last slot when all
  of them are.\<close>

fun place_macaddr :: "macaddr_map_s list \<Rightarrow> macaddr_map_s \<Rightarrow> macaddr_map_s list" where
  "place_macaddr [] m = []"
| "place_macaddr [s] m = [m]"
| "place_macaddr (s # ss) m = (if \<not> dirty s then m # ss else s # place_macaddr ss m)"

definition netmap_add_macaddr :: "nm_globals \<Rightarrow> bytes \<Rightarrow> bytes \<Rightarrow> u32 \<Rightarrow> u16 \<Rightarrow> u16 \<Rightarrow> nm_globals" where
  "netmap_add_macaddr g sm dm sa src q =
     (let g = (if g_macaddr_map_inited g then g
               else g\<lparr>g_macaddr_map_inited := True,
                      g_macaddr_map := replicate MAC_ADDR_MAP_ITEMS empty_macaddr\<rparr>)
      in g\<lparr>g_macaddr_map := place_macaddr (g_macaddr_map g)
             \<lparr>smac = sm, dmac = dm, dirty = True, qid = q, mm_saddr = sa, mm_source = src\<rparr>\<rparr>)"

fun take_macmap :: "macaddr_map_s list \<Rightarrow> u16 \<Rightarrow> (macaddr_map_s \<times> macaddr_map_s list) option" where
  "take_macmap [] q = None"
| "take_macmap (s # ss) q =
     (if qid s = q then Some (s, s\<lparr>dirty := False\<rparr> # ss)
      else map_option (\<lambda>(m, ss'). (m, s # ss')) (take_macmap ss q))"

text \<open>\<open>None\<close> is the return value \<open>-1\<close>, which leaves the four output parameters alone.\<close>

definition netmap_get_macmap :: "nm_globals \<Rightarrow> u16 \<Rightarrow> (bytes \<times> bytes \<times> u32 \<times> u16) option \<times> nm_globals" where
  "netmap_get_macmap g q =
     (case take_macmap (g_macaddr_map g) q of
        None \<Rightarrow> (None, g)
      | Some (m, ms) \<Rightarrow> (Some (smac m, dmac m, mm_saddr m, mm_source m), g\<lparr>g_macaddr_map := ms\<rparr>))"

section \<open>The Internet checksum\<close>

text \<open>The accumulator is an \<open>int\<close> in the source; \<open>cksum_sum_bound\<close> shows that it does not overflow
  for the at most 65536 bytes of a packet, so a natural number stands for it.\<close>

fun cksum_sum :: "bytes \<Rightarrow> nat" where
  "cksum_sum [] = 0"
| "cksum_sum [a] = unat a"
| "cksum_sum (a # b # xs) = unat (of_be16 b a) + cksum_sum xs"

definition in_cksum :: "bytes \<Rightarrow> u16" where
  "in_cksum xs =
     (let sum = cksum_sum xs;
          sum = drop_bit 16 sum + (sum AND 0xffff);
          sum = sum + drop_bit 16 sum
      in NOT (of_nat sum))"

section \<open>Incoming packets\<close>

record io_msg_s =
  io_buff :: bytes
  io_n :: int
  io_saddr :: u32
  io_daddr :: u32
  io_source :: u16
  io_dest :: u16

definition IPPROTO_UDP :: u8 where
  "IPPROTO_UDP = 17"

definition is_dns_query :: "bytes \<Rightarrow> nat option" where
  "is_dns_query buff = do {
     h_proto \<leftarrow> load16 buff 12;
     if h_proto \<noteq> htons 0x0800 then Some 1
     else do {
       protocol \<leftarrow> mem_read buff 23 1;
       if protocol ! 0 \<noteq> IPPROTO_UDP then Some 2
       else do {
         dest \<leftarrow> load16 buff 36;
         if dest \<noteq> htons 53 then Some 3 else Some 0 } } }"

definition parse_addr :: "nm_globals \<Rightarrow> bytes \<Rightarrow> io_msg_s \<Rightarrow> (nm_globals \<times> io_msg_s) option" where
  "parse_addr g buff iomsg = do {
     q \<leftarrow> load16 buff 42;
     saddr \<leftarrow> load32 buff 26;
     daddr \<leftarrow> load32 buff 30;
     source \<leftarrow> load16 buff 34;
     dest \<leftarrow> load16 buff 36;
     header \<leftarrow> mem_read buff 0 42;
     sm \<leftarrow> mem_read buff 0 6;
     dm \<leftarrow> mem_read buff 6 6;
     let iomsg = iomsg\<lparr>io_saddr := saddr, io_daddr := daddr, io_source := source, io_dest := dest\<rparr>;
         g = (if g_pkt_header_inited g then g
              else g\<lparr>g_pkt_header_inited := True, g_pkt_header := header\<rparr>) in
     Some (netmap_add_macaddr g sm dm daddr dest q, iomsg) }"

section \<open>Outgoing packets\<close>

text \<open>\<open>n\<close> is the length of the whole packet. A negative length given to \<open>memcpy\<close> is a huge
  \<open>size_t\<close>, an access out of bounds.\<close>

definition udp_checksum :: "bytes \<Rightarrow> int \<Rightarrow> u16 option" where
  "udp_checksum buff udp_len = do {
     REQUIRE (0 \<le> udp_len);
     segment \<leftarrow> mem_read buff 34 (nat udp_len);
     saddr \<leftarrow> load32 buff 26;
     daddr \<leftarrow> load32 buff 30;
     check_buf \<leftarrow> mem_write (replicate 512 0) 12 segment;
     check_buf \<leftarrow> store32 check_buf 0 saddr;
     check_buf \<leftarrow> store32 check_buf 4 daddr;
     check_buf \<leftarrow> mem_write check_buf 8 [0];
     check_buf \<leftarrow> mem_write check_buf 9 [IPPROTO_UDP];
     check_buf \<leftarrow> store16 check_buf 10 (htons (of_int udp_len));
     input \<leftarrow> mem_read check_buf 0 (nat udp_len + 12);
     Some (in_cksum input) }"

definition set_route :: "bytes \<Rightarrow> (bytes \<times> bytes \<times> u32 \<times> u16) option \<Rightarrow> bytes option" where
  "set_route buff r =
     (case r of
        None \<Rightarrow> Some buff
      | Some (sm, dm, sa, src) \<Rightarrow> do {
          buff \<leftarrow> mem_write buff 6 sm;
          buff \<leftarrow> mem_write buff 0 dm;
          buff \<leftarrow> store32 buff 26 sa;
          store16 buff 34 src })"

definition build_pkt_header ::
    "nm_globals \<Rightarrow> bytes \<Rightarrow> int \<Rightarrow> io_msg_s \<Rightarrow> (nm_globals \<times> bytes) option" where
  "build_pkt_header g buff n iomsg = do {
     q \<leftarrow> load16 buff 42;
     let (route, g) = netmap_get_macmap g q in do {
     buff \<leftarrow> set_route buff route;
     buff \<leftarrow> store32 buff 30 (io_daddr iomsg);
     buff \<leftarrow> store16 buff 16 (htons (of_int (n - 14)));
     let g = g\<lparr>g_ip_id_next := g_ip_id_next g + 1\<rparr> in do {
     buff \<leftarrow> store16 buff 18 (g_ip_id_next g AND 0xFFFF);
     buff \<leftarrow> store16 buff 24 0;
     ip \<leftarrow> mem_read buff 14 20;
     buff \<leftarrow> store16 buff 24 (in_cksum ip);
     buff \<leftarrow> store16 buff 36 (io_dest iomsg);
     buff \<leftarrow> store16 buff 40 0;
     let udp_len = n - 20 - 14 in do {
     buff \<leftarrow> store16 buff 38 (htons (of_int udp_len));
     check \<leftarrow> udp_checksum buff udp_len;
     buff \<leftarrow> store16 buff 40 check;
     Some (g, buff) } } } }"

section \<open>Checksums verify\<close>

lemma unat_u16_less: "unat (w::u16) < 65536"
  using unsigned_less [of w, where 'a = nat] by simp

lemma unat_u8_less: "unat (w::u8) < 256"
  using unsigned_less [of w, where 'a = nat] by simp

lemma cksum_sum_bound: "2 * cksum_sum xs \<le> Suc (length xs) * 65535"
proof (induction xs rule: cksum_sum.induct)
  case (2 a)
  then show ?case using unat_u8_less [of a] by simp
next
  case (3 a b xs)
  then show ?case using unat_u16_less [of "of_be16 b a"] by simp
qed simp

lemma cksum_sum_append: "even (length xs) \<Longrightarrow> cksum_sum (xs @ ys) = cksum_sum xs + cksum_sum ys"
  by (induction xs rule: cksum_sum.induct) auto

lemma le16_list: "le16 v = [ucast (v AND 0x00ff), ucast (drop_bit 8 (v AND 0xff00))]"
  by (simp add: le16_def be16_def)

lemma cksum_sum_le16: "cksum_sum (le16 v @ xs) = unat v + cksum_sum xs"
  using of_be16_be16 [of v] by (simp add: le16_list)

lemma length_le [simp]: "length (le16 v) = 2" "length (le32 w) = 4"
  by (simp_all add: le16_def le32_def)

definition cksum_fold :: "nat \<Rightarrow> nat" where
  "cksum_fold s = (let t = s div 65536 + s mod 65536 in (t + t div 65536) mod 65536)"

lemma unat_not_of_nat: "unat (NOT (of_nat n :: u16)) = 65535 - n mod 65536"
proof -
  have "NOT (of_nat n :: u16) = 65535 - of_nat n" by (simp add: not_eq_complement)
  also have "\<dots> = of_nat (65535 - n mod 65536)"
  proof -
    have "(of_nat n :: u16) = of_nat (n mod 65536)" by (simp add: of_nat_inverse unat_of_nat word_unat_eq_iff take_bit_eq_mod)
    then show ?thesis by (simp add: of_nat_diff)
  qed
  finally have e: "NOT (of_nat n :: u16) = of_nat (65535 - n mod 65536)" .
  have small: "unat (of_nat k :: u16) = k" if "k < 65536" for k
    using that by (simp add: unat_of_nat take_bit_nat_eq_self)
  show ?thesis unfolding e by (rule small) simp
qed

lemma in_cksum_fold: "unat (in_cksum xs) = 65535 - cksum_fold (cksum_sum xs)"
proof -
  have mask: "x AND 0xffff = x mod 65536" for x :: nat
    using take_bit_eq_mask [of 16 x] by (simp add: mask_eq_exp_minus_1 take_bit_eq_mod)
  show ?thesis
    by (simp add: in_cksum_def cksum_fold_def Let_def mask drop_bit_eq_div unat_not_of_nat del: of_nat_add)
qed

lemma cksum_fold_parts:
  assumes "r < 65536"
  shows "cksum_fold (65536 * q + r) = (q + r + (q + r) div 65536) mod 65536"
proof -
  have "(65536 * q + r) div 65536 = q" "(65536 * q + r) mod 65536 = r" using assms by simp_all
  then show ?thesis by (simp only: cksum_fold_def Let_def)
qed

lemma cksum_fold_verifies:
  assumes "s \<le> 65535 * 32768"
  shows "cksum_fold (s + (65535 - cksum_fold s)) = 65535"
proof -
  obtain q r where s: "s = 65536 * q + r" "r < 65536" "q < 32768"
    using that [of "s div 65536" "s mod 65536"] assms by simp
  show ?thesis
  proof (cases "q + r < 65536")
    case True
    then have "cksum_fold s = q + r" using cksum_fold_parts [OF s(2), of q] s(1) by simp
    then have "s + (65535 - cksum_fold s) = 65536 * q + (65535 - q)" using s True by simp
    then show ?thesis using cksum_fold_parts [of "65535 - q" q] s(3) by simp
  next
    case False
    then have d: "(q + r) div 65536 = 1" using s div_nat_eqI [of 1 65536 "q + r"] by simp
    have "cksum_fold s = q + r + 1 - 65536"
      using cksum_fold_parts [OF s(2), of q] s False le_mod_geq [of 65536 "q + r + 1"] by (simp add: d)
    then have "s + (65535 - cksum_fold s) = 65536 * (q + 1) + (65534 - q)" using s False by simp
    then show ?thesis using cksum_fold_parts [of "65534 - q" "q + 1"] s(3) by simp
  qed
qed

lemma in_cksum_verifies:
  assumes "even (length pre)" and "length pre + length post < 65534"
  shows "in_cksum (pre @ le16 (in_cksum (pre @ le16 0 @ post)) @ post) = 0"
proof -
  let ?s = "cksum_sum (pre @ le16 0 @ post)"
  have sum: "cksum_sum (pre @ le16 v @ post) = cksum_sum pre + cksum_sum post + unat v" for v
    using assms(1) by (simp add: cksum_sum_append cksum_sum_le16)
  have "?s \<le> 65535 * 32768"
    using cksum_sum_bound [of "pre @ le16 0 @ post"] assms(2) by simp
  then have "cksum_fold (cksum_sum (pre @ le16 (in_cksum (pre @ le16 0 @ post)) @ post)) = 65535"
    using cksum_fold_verifies [of ?s] in_cksum_fold [of "pre @ le16 0 @ post"] by (simp add: sum)
  then show ?thesis by (metis diff_self_eq_0 in_cksum_fold unat_eq_zero)
qed

section \<open>Frames\<close>

text \<open>A frame is the 42 bytes of the three headers taken apart at the fields the code touches.\<close>

record frame =
  f_dst :: bytes
  f_src :: bytes
  f_type :: bytes
  f_vhl :: bytes
  f_totlen :: bytes
  f_id :: bytes
  f_frag :: bytes
  f_proto :: u8
  f_ipsum :: bytes
  f_saddr :: bytes
  f_daddr :: bytes
  f_sport :: bytes
  f_dport :: bytes
  f_ulen :: bytes
  f_usum :: bytes

definition frame_sized :: "frame \<Rightarrow> bool" where
  "frame_sized f \<longleftrightarrow> length (f_dst f) = 6 \<and> length (f_src f) = 6 \<and> length (f_type f) = 2 \<and>
     length (f_vhl f) = 2 \<and> length (f_totlen f) = 2 \<and> length (f_id f) = 2 \<and> length (f_frag f) = 3 \<and>
     length (f_ipsum f) = 2 \<and> length (f_saddr f) = 4 \<and> length (f_daddr f) = 4 \<and>
     length (f_sport f) = 2 \<and> length (f_dport f) = 2 \<and> length (f_ulen f) = 2 \<and> length (f_usum f) = 2"

definition ip_bytes :: "frame \<Rightarrow> bytes" where
  "ip_bytes f = f_vhl f @ f_totlen f @ f_id f @ f_frag f @ [f_proto f] @ f_ipsum f @ f_saddr f @ f_daddr f"

definition udp_bytes :: "frame \<Rightarrow> bytes" where
  "udp_bytes f = f_sport f @ f_dport f @ f_ulen f @ f_usum f"

definition frame_bytes :: "frame \<Rightarrow> bytes" where
  "frame_bytes f = f_dst f @ f_src f @ f_type f @ ip_bytes f @ udp_bytes f"

definition pseudo_bytes :: "frame \<Rightarrow> bytes" where
  "pseudo_bytes f = f_saddr f @ f_daddr f @ [0, IPPROTO_UDP] @ f_ulen f"

lemma mem_write_at:
  "length xs = off \<Longrightarrow> length ys' = length ys \<Longrightarrow> mem_write (xs @ ys @ zs) off ys' = Some (xs @ ys' @ zs)"
  by (auto simp: mem_write_def)

lemma mem_read_at:
  "length xs = off \<Longrightarrow> length ys = n \<Longrightarrow> mem_read (xs @ ys @ zs) off n = Some ys"
  by (auto simp: mem_read_def)

lemma split_bytes: "n \<le> length m \<Longrightarrow> \<exists>xs ys. m = xs @ ys \<and> length xs = n"
  by (intro exI [of _ "take n m"] exI [of _ "drop n m"]) simp

lemma frame_exists:
  assumes "42 \<le> length m"
  obtains f rest where "frame_sized f" "m = frame_bytes f @ rest"
proof -
  let ?s = "\<lambda>off n. take n (drop off m)"
  let ?f = "\<lparr>f_dst = ?s 0 6, f_src = ?s 6 6, f_type = ?s 12 2, f_vhl = ?s 14 2, f_totlen = ?s 16 2,
    f_id = ?s 18 2, f_frag = ?s 20 3, f_proto = m ! 23, f_ipsum = ?s 24 2, f_saddr = ?s 26 4,
    f_daddr = ?s 30 4, f_sport = ?s 34 2, f_dport = ?s 36 2, f_ulen = ?s 38 2, f_usum = ?s 40 2\<rparr>"
  have step: "\<And>off n. ?s off n @ drop (off + n) m = drop off m"
    by (metis append_take_drop_id drop_drop add.commute)
  have one: "[m ! 23] = ?s 23 1" using assms by (simp add: take_Suc_conv_app_nth hd_drop_conv_nth take_Suc)
  have "frame_sized ?f" using assms by (simp add: frame_sized_def)
  moreover have "frame_bytes ?f @ drop 42 m = m"
    using step [of 6 0] step [of 6 6] step [of 2 12] step [of 2 14] step [of 2 16] step [of 2 18] step [of 3 20]
      step [of 1 23] step [of 2 24] step [of 4 26] step [of 4 30] step [of 2 34] step [of 2 36]
      step [of 2 38] step [of 2 40]
    by (simp add: frame_bytes_def ip_bytes_def udp_bytes_def one del: append_take_drop_id)
  ultimately show ?thesis using that [of ?f "drop 42 m"] by simp
qed

lemmas frame_defs = frame_sized_def frame_bytes_def ip_bytes_def udp_bytes_def

lemma frame_stores:
  assumes "frame_sized f"
  shows "length d = 6 \<Longrightarrow> mem_write (frame_bytes f @ rest) 0 d = Some (frame_bytes (f\<lparr>f_dst := d\<rparr>) @ rest)"
    and "length d = 6 \<Longrightarrow> mem_write (frame_bytes f @ rest) 6 d = Some (frame_bytes (f\<lparr>f_src := d\<rparr>) @ rest)"
    and "store16 (frame_bytes f @ rest) 16 v = Some (frame_bytes (f\<lparr>f_totlen := le16 v\<rparr>) @ rest)"
    and "store16 (frame_bytes f @ rest) 18 v = Some (frame_bytes (f\<lparr>f_id := le16 v\<rparr>) @ rest)"
    and "store16 (frame_bytes f @ rest) 24 v = Some (frame_bytes (f\<lparr>f_ipsum := le16 v\<rparr>) @ rest)"
    and "store32 (frame_bytes f @ rest) 26 w = Some (frame_bytes (f\<lparr>f_saddr := le32 w\<rparr>) @ rest)"
    and "store32 (frame_bytes f @ rest) 30 w = Some (frame_bytes (f\<lparr>f_daddr := le32 w\<rparr>) @ rest)"
    and "store16 (frame_bytes f @ rest) 34 v = Some (frame_bytes (f\<lparr>f_sport := le16 v\<rparr>) @ rest)"
    and "store16 (frame_bytes f @ rest) 36 v = Some (frame_bytes (f\<lparr>f_dport := le16 v\<rparr>) @ rest)"
    and "store16 (frame_bytes f @ rest) 38 v = Some (frame_bytes (f\<lparr>f_ulen := le16 v\<rparr>) @ rest)"
    and "store16 (frame_bytes f @ rest) 40 v = Some (frame_bytes (f\<lparr>f_usum := le16 v\<rparr>) @ rest)"
  using assms by (simp_all add: frame_defs store16_def store32_def mem_write_def)

lemma frame_reads:
  assumes "frame_sized f"
  shows "mem_read (frame_bytes f @ rest) 0 6 = Some (f_dst f)"
    and "mem_read (frame_bytes f @ rest) 6 6 = Some (f_src f)"
    and "mem_read (frame_bytes f @ rest) 0 42 = Some (frame_bytes f)"
    and "mem_read (frame_bytes f @ rest) 23 1 = Some [f_proto f]"
    and "mem_read (frame_bytes f @ rest) 14 20 = Some (ip_bytes f)"
    and "k \<le> length rest \<Longrightarrow> mem_read (frame_bytes f @ rest) 34 (8 + k) = Some (udp_bytes f @ take k rest)"
    and "mem_read (frame_bytes f @ rest) 42 k = mem_read rest 0 k"
  using assms by (simp_all add: frame_defs mem_read_def)

definition of_le16 :: "bytes \<Rightarrow> u16" where
  "of_le16 b = of_be16 (b ! 1) (b ! 0)"

definition of_le32 :: "bytes \<Rightarrow> u32" where
  "of_le32 b = of_be32 (b ! 3) (b ! 2) (b ! 1) (b ! 0)"

lemma length2: "length (b::bytes) = 2 \<Longrightarrow> b = [b ! 0, b ! 1]"
  by (auto simp: numeral_2_eq_2 length_Suc_conv)

lemma length4: "length (b::bytes) = 4 \<Longrightarrow> b = [b ! 0, b ! 1, b ! 2, b ! 3]"
  by (auto simp: eval_nat_numeral length_Suc_conv)

lemma le_roundtrips:
  "of_le16 (le16 v) = v" "of_le32 (le32 w) = w"
  "length b = 2 \<Longrightarrow> le16 (of_le16 b) = b" "length b = 4 \<Longrightarrow> le32 (of_le32 b) = b"
proof -
  show "of_le16 (le16 v) = v" using of_be16_be16 [of v] by (simp add: of_le16_def le16_def be16_def)
  show "of_le32 (le32 w) = w" using of_be32_be32 [of w] by (simp add: of_le32_def le32_def be32_def)
  show "le16 (of_le16 b) = b" if "length b = 2"
    using length2 [OF that] by (simp add: of_le16_def le16_def be16_of_be16)
  show "le32 (of_le32 b) = b" if "length b = 4"
    using length4 [OF that] by (simp add: of_le32_def le32_def be32_of_be32)
qed

lemma le16_htons: "le16 (htons v) = be16 v"
  by (simp add: htons_def le16_def be16_of_be16) (auto simp: be16_def mask_literals intro!: bit_word_eqI simp: bit_simps)

lemma frame_loads:
  assumes "frame_sized f"
  shows "load16 (frame_bytes f @ rest) 12 = Some (of_le16 (f_type f))"
    and "load32 (frame_bytes f @ rest) 26 = Some (of_le32 (f_saddr f))"
    and "load32 (frame_bytes f @ rest) 30 = Some (of_le32 (f_daddr f))"
    and "load16 (frame_bytes f @ rest) 34 = Some (of_le16 (f_sport f))"
    and "load16 (frame_bytes f @ rest) 36 = Some (of_le16 (f_dport f))"
    and "2 \<le> length rest \<Longrightarrow> load16 (frame_bytes f @ rest) 42 = Some (of_le16 rest)"
  using assms by (simp_all add: frame_defs load16_def load32_def mem_read_def of_le16_def of_le32_def)

lemma udp_checksum_frame:
  assumes "frame_sized f" and "k \<le> length rest" and "f_ulen f = be16 (of_nat (8 + k))"
  shows "udp_checksum (frame_bytes f @ rest) (8 + int k) =
    (if k \<le> 492 then Some (in_cksum (pseudo_bytes f @ udp_bytes f @ take k rest)) else None)"
proof -
  let ?seg = "udp_bytes f @ take k rest"
  have seg: "mem_read (frame_bytes f @ rest) 34 (nat (8 + int k)) = Some ?seg"
    using frame_reads(6) [OF assms(1,2)] by (simp add: nat_add_distrib)
  have ul: "length (udp_bytes f) = 8" using assms(1) by (simp add: frame_sized_def udp_bytes_def)
  have len: "length ?seg = 8 + k" using assms by (simp add: frame_sized_def udp_bytes_def)
  have ulen: "le16 (htons (of_int (8 + int k))) = f_ulen f" using assms(3) by (simp add: le16_htons)
  have addr: "le32 (of_le32 (f_saddr f)) = f_saddr f" "le32 (of_le32 (f_daddr f)) = f_daddr f"
    using assms(1) by (simp_all add: le_roundtrips frame_sized_def)
  show ?thesis
  proof (cases "k \<le> 492")
    case True
    have "mem_write (replicate 512 0) 12 ?seg = Some (replicate 12 0 @ ?seg @ replicate (492 - k) 0)"
      using True len by (simp add: mem_write_def flip: replicate_add)
    moreover have "mem_read ((pseudo_bytes f @ ?seg) @ replicate (492 - k) 0) 0 (20 + k) = Some (pseudo_bytes f @ ?seg)"
      using mem_read_at [of "[]" 0 "pseudo_bytes f @ ?seg" "20 + k"] len assms(1)
      by (simp add: pseudo_bytes_def frame_sized_def)
    ultimately show ?thesis
      using True seg addr ul ulen assms(1,2)
      by (simp add: udp_checksum_def frame_loads store32_def store16_def mem_write_def
          pseudo_bytes_def frame_sized_def nat_add_distrib add.commute)
  next
    case False
    then have "mem_write (replicate 512 0) 12 ?seg = None" using len by (simp add: mem_write_def)
    then show ?thesis using False seg assms(1) by (simp add: udp_checksum_def frame_loads)
  qed
qed

definition routes_sized :: "nm_globals \<Rightarrow> bool" where
  "routes_sized g \<longleftrightarrow> length (g_macaddr_map g) = MAC_ADDR_MAP_ITEMS \<and> length (g_pkt_header g) = 42 \<and>
     list_all (\<lambda>m. length (smac m) = 6 \<and> length (dmac m) = 6) (g_macaddr_map g)"

definition apply_route :: "frame \<Rightarrow> (bytes \<times> bytes \<times> u32 \<times> u16) option \<Rightarrow> frame" where
  "apply_route f r =
     (case r of
        None \<Rightarrow> f
      | Some (sm, dm, sa, src) \<Rightarrow> f\<lparr>f_src := sm, f_dst := dm, f_saddr := le32 sa, f_sport := le16 src\<rparr>)"

lemma frame_sized_update [simp]:
  assumes "frame_sized f"
  shows "length d = 6 \<Longrightarrow> frame_sized (f\<lparr>f_dst := d\<rparr>)" "length d = 6 \<Longrightarrow> frame_sized (f\<lparr>f_src := d\<rparr>)"
    "length b = 2 \<Longrightarrow> frame_sized (f\<lparr>f_totlen := b\<rparr>)" "length b = 2 \<Longrightarrow> frame_sized (f\<lparr>f_id := b\<rparr>)"
    "length b = 2 \<Longrightarrow> frame_sized (f\<lparr>f_ipsum := b\<rparr>)" "length b = 2 \<Longrightarrow> frame_sized (f\<lparr>f_sport := b\<rparr>)"
    "length b = 2 \<Longrightarrow> frame_sized (f\<lparr>f_dport := b\<rparr>)" "length b = 2 \<Longrightarrow> frame_sized (f\<lparr>f_ulen := b\<rparr>)"
    "length b = 2 \<Longrightarrow> frame_sized (f\<lparr>f_usum := b\<rparr>)" "length c = 4 \<Longrightarrow> frame_sized (f\<lparr>f_saddr := c\<rparr>)"
    "length c = 4 \<Longrightarrow> frame_sized (f\<lparr>f_daddr := c\<rparr>)"
  using assms by (simp_all add: frame_sized_def)

lemma take_macmap_sized:
  "take_macmap ms q = Some (m, ms') \<Longrightarrow> list_all P ms \<Longrightarrow> P m"
  by (induction ms q arbitrary: ms' rule: take_macmap.induct) (auto split: if_splits)

lemma route_sized:
  "routes_sized g \<Longrightarrow> netmap_get_macmap g q = (Some (sm, dm, sa, src), g') \<Longrightarrow> length sm = 6 \<and> length dm = 6"
  using take_macmap_sized [of "g_macaddr_map g" q _ _ "\<lambda>m. length (smac m) = 6 \<and> length (dmac m) = 6"]
  by (auto simp: routes_sized_def netmap_get_macmap_def split: option.splits prod.splits)

lemma set_route_frame:
  assumes "frame_sized f" and "routes_sized g" and "netmap_get_macmap g q = (r, g')"
  shows "set_route (frame_bytes f @ rest) r = Some (frame_bytes (apply_route f r) @ rest)"
    and "frame_sized (apply_route f r)"
proof -
  have "length sm = 6 \<and> length dm = 6" if "r = Some (sm, dm, sa, src)" for sm dm sa src
    using route_sized assms(2,3) that by blast
  then show "set_route (frame_bytes f @ rest) r = Some (frame_bytes (apply_route f r) @ rest)"
    "frame_sized (apply_route f r)"
    using assms(1) by (auto simp: set_route_def apply_route_def frame_stores split: option.splits)
qed

text \<open>The frame that \<open>build_pkt_header\<close> makes of the template \<open>f\<close>, before the two checksums.\<close>

definition reply_frame :: "frame \<Rightarrow> (bytes \<times> bytes \<times> u32 \<times> u16) option \<Rightarrow> u16 \<Rightarrow> nat \<Rightarrow> io_msg_s \<Rightarrow> frame" where
  "reply_frame f r ipid k iomsg = (apply_route f r)\<lparr>f_daddr := le32 (io_daddr iomsg),
     f_totlen := be16 (of_nat (28 + k)), f_id := le16 ipid, f_ipsum := le16 0,
     f_dport := le16 (io_dest iomsg), f_usum := le16 0, f_ulen := be16 (of_nat (8 + k))\<rparr>"

lemma ip_bytes_update [simp]:
  "ip_bytes (f\<lparr>f_dport := b\<rparr>) = ip_bytes f" "ip_bytes (f\<lparr>f_ulen := b\<rparr>) = ip_bytes f"
  "ip_bytes (f\<lparr>f_usum := b\<rparr>) = ip_bytes f"
  by (simp_all add: ip_bytes_def)

lemma build_pkt_header_frame:
  fixes iomsg :: io_msg_s
  assumes f: "frame_sized f" and g: "routes_sized g" and k: "2 \<le> length rest" "k \<le> length rest"
    and r: "netmap_get_macmap g (of_le16 rest) = (r, g1)"
  defines "h \<equiv> reply_frame f r (g_ip_id_next g + 1) k iomsg"
  defines "h1 \<equiv> h\<lparr>f_ipsum := le16 (in_cksum (ip_bytes h))\<rparr>"
  shows "build_pkt_header g (frame_bytes f @ rest) (42 + int k) iomsg =
    (if k \<le> 492
     then Some (g1\<lparr>g_ip_id_next := g_ip_id_next g + 1\<rparr>,
       frame_bytes (h1\<lparr>f_usum := le16 (in_cksum (pseudo_bytes h1 @ udp_bytes h1 @ take k rest))\<rparr>) @ rest)
     else None)"
proof -
  note sr = set_route_frame [OF f g r]
  have id: "g_ip_id_next g1 = g_ip_id_next g"
    using r by (auto simp: netmap_get_macmap_def split: option.splits prod.splits)
  have "(0xFFFF::u16) = - 1" by simp
  then have mask: "w AND 0xFFFF = (w::u16)" for w by (simp only: and.right_neutral)
  show ?thesis
    using sr(2) k
    by (simp add: build_pkt_header_def frame_loads(6) [OF f] r sr(1) frame_stores id mask frame_reads(5)
        udp_checksum_frame le16_htons h_def h1_def reply_frame_def)
      (simp add: frame_bytes_def ip_bytes_def udp_bytes_def pseudo_bytes_def)
qed

section \<open>The table of routes as a finite map\<close>

text \<open>What a caller may expect of a table of pending queries: an added entry is found again under its
  query id, taken out by the lookup, and not disturbed by what happens to other ids.\<close>

datatype 'r route_op = Add u16 'r | Take u16

fun amap_step :: "(u16 \<rightharpoonup> 'r) \<Rightarrow> 'r route_op \<Rightarrow> (u16 \<rightharpoonup> 'r)" where
  "amap_step m (Add q r) = m(q \<mapsto> r)"
| "amap_step m (Take q) = m(q := None)"

fun op_id :: "'r route_op \<Rightarrow> u16" where
  "op_id (Add q r) = q"
| "op_id (Take q) = q"

fun routes_step :: "('t \<Rightarrow> u16 \<Rightarrow> 'r \<Rightarrow> 't) \<Rightarrow> ('t \<Rightarrow> u16 \<Rightarrow> 'r option \<times> 't) \<Rightarrow> 't \<Rightarrow> 'r route_op \<Rightarrow> 't" where
  "routes_step add lookup t (Add q r) = add t q r"
| "routes_step add lookup t (Take q) = snd (lookup t q)"

text \<open>A sequence of operations is legal when at most \<open>cap\<close> ids are pending at any time and no id is
  added while it is pending.\<close>

fun routes_legal :: "nat \<Rightarrow> ('r \<Rightarrow> bool) \<Rightarrow> (u16 \<rightharpoonup> 'r) \<Rightarrow> 'r route_op list \<Rightarrow> bool" where
  "routes_legal cap okr m [] = True"
| "routes_legal cap okr m (Add q r # ops) =
     (okr r \<and> card (dom m) < cap \<and> m q = None \<and> routes_legal cap okr (m(q \<mapsto> r)) ops)"
| "routes_legal cap okr m (Take q # ops) = routes_legal cap okr (m(q := None)) ops"

locale route_store =
  fixes inv :: "'t \<Rightarrow> bool" and outst :: "'t \<Rightarrow> u16 \<rightharpoonup> 'r" and cap :: nat
    and add :: "'t \<Rightarrow> u16 \<Rightarrow> 'r \<Rightarrow> 't" and lookup :: "'t \<Rightarrow> u16 \<Rightarrow> 'r option \<times> 't" and okr :: "'r \<Rightarrow> bool"
  assumes add_inv: "inv t \<Longrightarrow> okr r \<Longrightarrow> card (dom (outst t)) < cap \<Longrightarrow> outst t q = None \<Longrightarrow> inv (add t q r)"
    and add_outst: "inv t \<Longrightarrow> okr r \<Longrightarrow> card (dom (outst t)) < cap \<Longrightarrow> outst t q = None \<Longrightarrow>
      outst (add t q r) = (outst t)(q \<mapsto> r)"
    and take_inv: "inv t \<Longrightarrow> inv (snd (lookup t q))"
    and take_outst: "inv t \<Longrightarrow> outst (snd (lookup t q)) = (outst t)(q := None)"
    and take_result: "inv t \<Longrightarrow> outst t q = Some r \<Longrightarrow> fst (lookup t q) = Some r"
begin

lemma run_refines:
  "inv t \<Longrightarrow> routes_legal cap okr (outst t) ops \<Longrightarrow>
   inv (foldl (routes_step add lookup) t ops) \<and> outst (foldl (routes_step add lookup) t ops) = foldl amap_step (outst t) ops"
proof (induction ops arbitrary: t)
  case (Cons op ops)
  show ?case
  proof (cases op)
    case (Add q r)
    then show ?thesis using Cons.IH [of "add t q r"] Cons.prems add_inv [of t r q] add_outst [of t r q] by (simp del: fun_upd_apply)
  next
    case (Take q)
    then show ?thesis using Cons.IH [of "snd (lookup t q)"] Cons.prems take_inv take_outst by (simp del: fun_upd_apply)
  qed
qed simp

lemma amap_other: "q \<notin> op_id ` set ops \<Longrightarrow> foldl amap_step m ops q = m q"
proof (induction ops arbitrary: m)
  case (Cons op ops)
  then show ?case using Cons.IH [of "amap_step m op"] by (cases op) auto
qed simp

lemma route_survives:
  assumes "inv t" and "routes_legal cap okr (outst t) (Add q r # ops)" and "q \<notin> op_id ` set ops"
  shows "fst (lookup (foldl (routes_step add lookup) t (Add q r # ops)) q) = Some r"
proof -
  have "inv (foldl (routes_step add lookup) t (Add q r # ops))" "outst (foldl (routes_step add lookup) t (Add q r # ops)) q = Some r"
    using run_refines [OF assms(1,2)] amap_other [OF assms(3)] by simp_all
  then show ?thesis by (rule take_result)
qed

end

type_synonym route = "bytes \<times> bytes \<times> u32 \<times> u16"

definition route_of :: "macaddr_map_s \<Rightarrow> route" where
  "route_of m = (smac m, dmac m, mm_saddr m, mm_source m)"

definition outstanding :: "macaddr_map_s list \<Rightarrow> u16 \<rightharpoonup> route" where
  "outstanding ms q = map_option route_of (find (\<lambda>m. dirty m \<and> qid m = q) ms)"

fun no_shadow :: "macaddr_map_s list \<Rightarrow> bool" where
  "no_shadow [] = True"
| "no_shadow (s # ss) = (list_all (\<lambda>m. dirty m \<longrightarrow> qid m \<noteq> qid s) ss \<and> no_shadow ss)"

lemma outstanding_Cons: "outstanding (s # ss) =
    (if dirty s then (outstanding ss)(qid s \<mapsto> route_of s) else outstanding ss)"
  by (auto simp: outstanding_def fun_eq_iff)

lemma outstanding_Nil [simp]: "outstanding [] = Map.empty"
  by (auto simp: outstanding_def)

lemma outstanding_None: "outstanding ms q = None \<longleftrightarrow> list_all (\<lambda>m. dirty m \<longrightarrow> qid m \<noteq> q) ms"
  by (induction ms) (auto simp: outstanding_Cons)

lemma card_outstanding: "no_shadow ms \<Longrightarrow> finite (dom (outstanding ms)) \<and>
    card (dom (outstanding ms)) = length (filter dirty ms)"
proof (induction ms)
  case (Cons s ss)
  have "qid s \<notin> dom (outstanding ss)" using Cons.prems by (auto simp: dom_def outstanding_None)
  then show ?case using Cons by (auto simp: outstanding_Cons)
qed simp

lemma place_other: "set (place_macaddr ms m) \<subseteq> insert m (set ms)"
  by (induction ms m rule: place_macaddr.induct) auto

lemma length_place [simp]: "length (place_macaddr ms m) = length ms"
  by (induction ms m rule: place_macaddr.induct) auto

lemma place_outstanding:
  "dirty m \<Longrightarrow> \<exists>s \<in> set ms. \<not> dirty s \<Longrightarrow> outstanding ms (qid m) = None \<Longrightarrow> no_shadow ms \<Longrightarrow>
   no_shadow (place_macaddr ms m) \<and> outstanding (place_macaddr ms m) = (outstanding ms)(qid m \<mapsto> route_of m)"
proof (induction ms m rule: place_macaddr.induct)
  case (3 s s' ss m)
  show ?case
  proof (cases "dirty s")
    case True
    have "qid m \<noteq> qid s" using True 3(4) by (auto simp: outstanding_Cons split: if_splits)
    moreover have "list_all (\<lambda>x. dirty x \<longrightarrow> qid x \<noteq> qid s) (place_macaddr (s' # ss) m)"
      using place_other [of "s' # ss" m] 3(5) calculation by (fastforce simp: list_all_iff)
    moreover have "outstanding (s' # ss) (qid m) = None"
      using True 3(4) outstanding_Cons [of s "s' # ss"] by (auto split: if_splits)
    ultimately show ?thesis
      using 3 True outstanding_Cons [of s "place_macaddr (s' # ss) m"] outstanding_Cons [of s "s' # ss"]
      by (auto simp: fun_upd_twist)
  next
    case False
    then have "list_all (\<lambda>x. dirty x \<longrightarrow> qid x \<noteq> qid m) (s' # ss)"
      using 3(4) by (auto simp: outstanding_None)
    then show ?thesis
      using 3(2,5) False outstanding_Cons [of m "s' # ss"] outstanding_Cons [of s "s' # ss"] by simp
  qed
qed (auto simp: outstanding_Cons)

lemma take_none: "take_macmap ms q = None \<longleftrightarrow> list_all (\<lambda>m. qid m \<noteq> q) ms"
  by (induction ms q rule: take_macmap.induct) auto

text \<open>A lookup does not look at \<open>dirty\<close>: an id that is not pending is found in a free slot if one still holds it.\<close>

definition stale :: "macaddr_map_s list \<Rightarrow> u16 \<rightharpoonup> route" where
  "stale ms q = map_option route_of (find (\<lambda>m. \<not> dirty m \<and> qid m = q) ms)"

lemma take_absent:
  "outstanding ms q = None \<Longrightarrow> take_macmap ms q = map_option (\<lambda>m. (m, ms)) (find (\<lambda>m. \<not> dirty m \<and> qid m = q) ms)"
proof (induction ms q rule: take_macmap.induct)
  case (2 s ss q)
  have "\<not> dirty s \<or> qid s \<noteq> q" "outstanding ss q = None" using "2.prems" by (auto simp: outstanding_None)
  moreover have "\<not> dirty s \<Longrightarrow> s\<lparr>dirty := False\<rparr> = s" by simp
  ultimately show ?case using "2.IH" by (auto simp: option.map_comp o_def)
qed simp

lemma get_absent:
  "outstanding (g_macaddr_map g) q = None \<Longrightarrow> netmap_get_macmap g q = (stale (g_macaddr_map g) q, g)"
  by (auto simp: netmap_get_macmap_def take_absent stale_def route_of_def split: option.split)

lemma take_outstanding:
  "take_macmap ms q = Some (m, ms') \<Longrightarrow> no_shadow ms \<Longrightarrow>
   no_shadow ms' \<and> outstanding ms' = (outstanding ms)(q := None) \<and> qid m = q \<and> length ms' = length ms \<and>
   (\<forall>r. outstanding ms q = Some r \<longrightarrow> r = route_of m)"
proof (induction ms q arbitrary: ms' rule: take_macmap.induct)
  case (2 s ss q)
  show ?case
  proof (cases "qid s = q")
    case True
    then have "outstanding ss q = None" using 2(3) by (simp add: outstanding_None)
    moreover have "m = s" "ms' = s\<lparr>dirty := False\<rparr> # ss" using 2(2) True by auto
    ultimately show ?thesis using True 2(3) by (auto simp: outstanding_Cons fun_eq_iff)
  next
    case False
    then obtain ss' where t: "take_macmap ss q = Some (m, ss')" "ms' = s # ss'" using 2(2) by auto
    note ih = 2(1) [OF False t(1)]
    have n: "outstanding ss (qid s) = None" using 2(3) by (simp add: outstanding_None)
    then have "outstanding ss' (qid s) = None" using ih 2(3) by auto
    then show ?thesis using ih 2(3) t(2) False n by (auto simp: outstanding_Cons outstanding_None fun_upd_twist)
  qed
qed simp

definition routes_ok :: "nm_globals \<Rightarrow> bool" where
  "routes_ok g \<longleftrightarrow> routes_sized g \<and> no_shadow (g_macaddr_map g) \<and>
     (g_macaddr_map_inited g \<or> g_macaddr_map g = replicate MAC_ADDR_MAP_ITEMS empty_macaddr)"

definition add_route :: "nm_globals \<Rightarrow> u16 \<Rightarrow> route \<Rightarrow> nm_globals" where
  "add_route g q r = (case r of (sm, dm, sa, src) \<Rightarrow> netmap_add_macaddr g sm dm sa src q)"

definition route_macs :: "route \<Rightarrow> bool" where
  "route_macs r = (case r of (sm, dm, sa, src) \<Rightarrow> length sm = 6 \<and> length dm = 6)"

lemma add_macaddr_map:
  "routes_ok g \<Longrightarrow> netmap_add_macaddr g sm dm sa src q = g\<lparr>g_macaddr_map_inited := True,
     g_macaddr_map := place_macaddr (g_macaddr_map g)
       \<lparr>smac = sm, dmac = dm, dirty = True, qid = q, mm_saddr = sa, mm_source = src\<rparr>\<rparr>"
  by (auto simp: netmap_add_macaddr_def routes_ok_def)

lemma free_slot:
  assumes "routes_ok g" and "card (dom (outstanding (g_macaddr_map g))) < 8"
  shows "\<exists>s \<in> set (g_macaddr_map g). \<not> dirty s"
proof (rule ccontr)
  assume "\<not> ?thesis"
  then have "filter dirty (g_macaddr_map g) = g_macaddr_map g" by (auto simp: filter_id_conv)
  then show False
    using assms card_outstanding [of "g_macaddr_map g"]
    by (simp add: routes_ok_def routes_sized_def MAC_ADDR_MAP_ITEMS_def)
qed

lemma add_route_ok:
  assumes ok: "routes_ok g" and r: "route_macs r" and room: "card (dom (outstanding (g_macaddr_map g))) < 8"
    and new: "outstanding (g_macaddr_map g) q = None"
  shows "routes_ok (add_route g q r)"
    and "outstanding (g_macaddr_map (add_route g q r)) = (outstanding (g_macaddr_map g))(q \<mapsto> r)"
proof -
  obtain sm dm sa src where r_def: "r = (sm, dm, sa, src)" by (cases r)
  let ?m = "\<lparr>smac = sm, dmac = dm, dirty = True, qid = q, mm_saddr = sa, mm_source = src\<rparr>"
  note p = place_outstanding [of ?m "g_macaddr_map g"]
  have s: "no_shadow (place_macaddr (g_macaddr_map g) ?m)"
    "outstanding (place_macaddr (g_macaddr_map g) ?m) = (outstanding (g_macaddr_map g))(q \<mapsto> r)"
    using p free_slot [OF ok room] new ok by (simp_all add: routes_ok_def route_of_def r_def)
  have "list_all (\<lambda>m. length (smac m) = 6 \<and> length (dmac m) = 6) (place_macaddr (g_macaddr_map g) ?m)"
    using place_other [of "g_macaddr_map g" ?m] ok r
    by (auto simp: list_all_iff routes_ok_def routes_sized_def route_macs_def r_def)
  then show "routes_ok (add_route g q r)"
    using s ok by (simp add: add_route_def r_def add_macaddr_map [OF ok] routes_ok_def routes_sized_def)
  show "outstanding (g_macaddr_map (add_route g q r)) = (outstanding (g_macaddr_map g))(q \<mapsto> r)"
    using s by (simp add: add_route_def r_def add_macaddr_map [OF ok])
qed

lemma take_set: "take_macmap ms q = Some (m, ms') \<Longrightarrow> list_all P ms \<Longrightarrow> (\<And>x. P x \<Longrightarrow> P (x\<lparr>dirty := False\<rparr>)) \<Longrightarrow>
    list_all P ms'"
  by (induction ms q arbitrary: ms' rule: take_macmap.induct) (auto split: if_splits)

lemma take_empty: "take_macmap (replicate n empty_macaddr) q = Some (m, ms') \<Longrightarrow> ms' = replicate n empty_macaddr"
proof (induction n arbitrary: ms')
  case (Suc n)
  then show ?case by (auto simp: empty_macaddr_def split: if_splits)
qed simp

lemma get_macmap_ok:
  assumes ok: "routes_ok g"
  shows "routes_ok (snd (netmap_get_macmap g q))"
    and "outstanding (g_macaddr_map (snd (netmap_get_macmap g q))) = (outstanding (g_macaddr_map g))(q := None)"
    and "outstanding (g_macaddr_map g) q = Some r \<Longrightarrow> fst (netmap_get_macmap g q) = Some r"
proof -
  let ?P = "\<lambda>m. length (smac m) = 6 \<and> length (dmac m) = 6"
  have "routes_ok (snd (netmap_get_macmap g q)) \<and>
    outstanding (g_macaddr_map (snd (netmap_get_macmap g q))) = (outstanding (g_macaddr_map g))(q := None) \<and>
    (outstanding (g_macaddr_map g) q = Some r \<longrightarrow> fst (netmap_get_macmap g q) = Some r)"
  proof (cases "take_macmap (g_macaddr_map g) q")
    case None
    then have "outstanding (g_macaddr_map g) q = None" by (auto simp: take_none outstanding_None list_all_iff)
    then show ?thesis using None ok by (auto simp: netmap_get_macmap_def)
  next
    case (Some a)
    then obtain m ms where t: "take_macmap (g_macaddr_map g) q = Some (m, ms)" by (cases a) auto
    have "list_all ?P ms" using take_set [OF t, of ?P] ok by (simp add: routes_ok_def routes_sized_def)
    then show ?thesis
      using take_outstanding [OF t] ok t take_empty [of MAC_ADDR_MAP_ITEMS q m ms]
      by (cases r) (auto simp: netmap_get_macmap_def routes_ok_def routes_sized_def route_of_def)
  qed
  then show "routes_ok (snd (netmap_get_macmap g q))"
    "outstanding (g_macaddr_map (snd (netmap_get_macmap g q))) = (outstanding (g_macaddr_map g))(q := None)"
    "outstanding (g_macaddr_map g) q = Some r \<Longrightarrow> fst (netmap_get_macmap g q) = Some r" by auto
qed

interpretation routes: route_store routes_ok "\<lambda>g. outstanding (g_macaddr_map g)" MAC_ADDR_MAP_ITEMS
    add_route netmap_get_macmap route_macs
  by unfold_locales (simp_all add: add_route_ok get_macmap_ok MAC_ADDR_MAP_ITEMS_def)

lemma nm_globals_init_ok: "routes_ok nm_globals_init" "outstanding (g_macaddr_map nm_globals_init) = Map.empty"
proof -
  have "no_shadow (replicate n empty_macaddr)" for n by (induction n) (auto simp: list_all_iff empty_macaddr_def)
  moreover have "outstanding (replicate n empty_macaddr) = Map.empty" for n
    by (induction n) (auto simp: outstanding_Cons empty_macaddr_def)
  ultimately show "routes_ok nm_globals_init" "outstanding (g_macaddr_map nm_globals_init) = Map.empty"
    by (simp_all add: routes_ok_def routes_sized_def nm_globals_init_def list_all_iff MAC_ADDR_MAP_ITEMS_def)
      (simp_all add: empty_macaddr_def)
qed

section \<open>Properties\<close>

text \<open>C27: The Internet checksum verifies: with the computed value stored in its field, at an even offset
  that held zero during the computation, the checksum of the data is zero. This holds for every
  field offset and odd or even length of the data.\<close>

theorem cksum_verifies:
  assumes "even (length pre)" and "length pre + length post < 65534"
  shows "in_cksum (pre @ le16 (in_cksum (pre @ le16 0 @ post)) @ post) = 0"
  using assms by (rule in_cksum_verifies)

theorem cksum_verifies_witness:
  "in_cksum ([0x45, 0] @ le16 (in_cksum ([0x45, 0] @ le16 0 @ [1, 2, 3])) @ [1, 2, 3]) = 0"
  using cksum_verifies [of "[0x45, 0]" "[1, 2, 3]"] by simp

text \<open>C8: The table of routes keeps the routes of the outstanding queries: after every sequence of additions and lookups
  that adds an id only when it is not outstanding and fewer than eight are, the outstanding routes are those of a finite
  map under the same operations; a lookup of an outstanding id returns the route that was added for it, whatever happened
  to other ids in between; and a lookup of an id that is not outstanding changes nothing and returns what a free slot
  still holds for the id, or \<open>-1\<close> if none does.\<close>

theorem netmap_route_survives:
  assumes "routes_ok g" and "routes_legal MAC_ADDR_MAP_ITEMS route_macs (outstanding (g_macaddr_map g)) ops"
  shows "let g' = foldl (routes_step add_route netmap_get_macmap) g ops; m = foldl amap_step (outstanding (g_macaddr_map g)) ops in
    outstanding (g_macaddr_map g') = m \<and> (\<forall>q r. m q = Some r \<longrightarrow> fst (netmap_get_macmap g' q) = Some r) \<and>
    (\<forall>q. m q = None \<longrightarrow> netmap_get_macmap g' q = (stale (g_macaddr_map g') q, g'))"
proof -
  let ?g = "foldl (routes_step add_route netmap_get_macmap) g ops"
  show ?thesis using routes.run_refines [OF assms] routes.take_result [of ?g] get_absent [of ?g] by (auto simp: Let_def)
qed

definition sample_route :: route where
  "sample_route = ([1, 2, 3, 4, 5, 6], [7, 8, 9, 10, 11, 12], 0x0100007f, 0x3500)"

theorem netmap_route_survives_witness:
  "let g = foldl (routes_step add_route netmap_get_macmap) nm_globals_init
       [Add 17 sample_route, Add 18 sample_route, Take 18, Add 19 sample_route, Take 19] in
   fst (netmap_get_macmap g 17) = Some sample_route \<and> netmap_get_macmap g 19 = (Some sample_route, g) \<and> netmap_get_macmap g 18 = (None, g)"
proof -
  let ?ops = "[Add 17 sample_route, Add 18 sample_route, Take 18, Add 19 sample_route, Take 19]"
  let ?g = "foldl (routes_step add_route netmap_get_macmap) nm_globals_init ?ops"
  have "routes_legal MAC_ADDR_MAP_ITEMS route_macs (outstanding (g_macaddr_map nm_globals_init)) ?ops"
    unfolding nm_globals_init_ok(2) by (simp add: sample_route_def route_macs_def MAC_ADDR_MAP_ITEMS_def)
  note t = netmap_route_survives [OF nm_globals_init_ok(1) this, unfolded nm_globals_init_ok(2) Let_def]
  have m: "foldl amap_step Map.empty ?ops = [17 \<mapsto> sample_route]" by (auto simp: fun_eq_iff)
  have "stale (g_macaddr_map ?g) 19 = Some sample_route" "stale (g_macaddr_map ?g) 18 = None" by code_simp+
  moreover have "fst (netmap_get_macmap ?g 17) = Some sample_route" by (rule t [THEN conjunct2, THEN conjunct1, rule_format, unfolded m]) simp
  moreover have "netmap_get_macmap ?g q = (stale (g_macaddr_map ?g) q, ?g)" if "q \<noteq> 17" for q
    by (rule t [THEN conjunct2, THEN conjunct2, rule_format, unfolded m]) (use that in simp)
  ultimately show ?thesis unfolding Let_def by (auto simp del: foldl_Cons)
qed

text \<open>A second lookup of a query returns its route again, and the id 0 is found in a table that never held a route.\<close>

theorem netmap_stale_lookup:
  "fst (netmap_get_macmap nm_globals_init 0) = Some (replicate 6 0, replicate 6 0, 0, 0) \<and>
   fst (netmap_get_macmap (foldl (routes_step add_route netmap_get_macmap) nm_globals_init [Add 17 sample_route, Take 17]) 17) = Some sample_route"
  by code_simp

lemma place_full: "list_all dirty ms \<Longrightarrow> ms \<noteq> [] \<Longrightarrow> place_macaddr ms m = butlast ms @ [m]"
  by (induction ms m rule: place_macaddr.induct) auto

lemma outstanding_last:
  assumes "list_all dirty ms" and "distinct (map qid ms)" and "m \<in> set ms"
  shows "outstanding ms (qid m) = Some (route_of m)"
  using assms
proof (induction ms)
  case (Cons a ms)
  show ?case
  proof (cases "m = a")
    case False
    then have "m \<in> set ms" "qid m \<noteq> qid a" using Cons.prems by auto (metis image_eqI)
    then show ?thesis using Cons by (simp add: outstanding_Cons)
  qed (use Cons.prems in \<open>simp add: outstanding_Cons\<close>)
qed simp

text \<open>With eight queries outstanding, a ninth one takes the slot of the last: its route replaces the
  other's, whose reply can then no longer be addressed.\<close>

theorem netmap_ninth_query_evicts:
  assumes init: "g_macaddr_map_inited g" and len: "length (g_macaddr_map g) = MAC_ADDR_MAP_ITEMS"
    and full: "list_all dirty (g_macaddr_map g)" and dist: "distinct (map qid (g_macaddr_map g))"
    and new: "q \<notin> set (map qid (g_macaddr_map g))"
  shows "let old = last (g_macaddr_map g); g' = netmap_add_macaddr g sm dm sa src q in
    outstanding (g_macaddr_map g) (qid old) = Some (route_of old) \<and>
    outstanding (g_macaddr_map g') (qid old) = None \<and> netmap_get_macmap g' (qid old) = (None, g')"
proof -
  let ?ms = "g_macaddr_map g"
  let ?m = "\<lparr>smac = sm, dmac = dm, dirty = True, qid = q, mm_saddr = sa, mm_source = src\<rparr>"
  have ne: "?ms \<noteq> []" using len by (auto simp: MAC_ADDR_MAP_ITEMS_def)
  have ms: "g_macaddr_map (netmap_add_macaddr g sm dm sa src q) = butlast ?ms @ [?m]"
    using place_full [OF full ne, of ?m] init by (simp add: netmap_add_macaddr_def)
  have "distinct (map qid (butlast ?ms @ [last ?ms]))" using dist ne by simp
  then have "list_all (\<lambda>x. qid x \<noteq> qid (last ?ms)) (butlast ?ms)"
    by (simp add: list_all_iff image_iff) metis
  moreover have "q \<noteq> qid (last ?ms)" using new ne by auto
  ultimately have all: "list_all (\<lambda>x. qid x \<noteq> qid (last ?ms)) (butlast ?ms @ [?m])" by simp
  then have "list_all (\<lambda>x. dirty x \<longrightarrow> qid x \<noteq> qid (last ?ms)) (butlast ?ms @ [?m])"
    by (auto simp: list_all_iff)
  then have "outstanding (butlast ?ms @ [?m]) (qid (last ?ms)) = None" by (simp only: outstanding_None)
  moreover have "take_macmap (butlast ?ms @ [?m]) (qid (last ?ms)) = None" using all by (simp only: take_none)
  ultimately show ?thesis
    using outstanding_last [OF full dist last_in_set [OF ne]] ms by (simp add: Let_def netmap_get_macmap_def)
qed

definition full_globals :: nm_globals where
  "full_globals = nm_globals_init\<lparr>g_macaddr_map_inited := True,
     g_macaddr_map := map (\<lambda>i. empty_macaddr\<lparr>dirty := True, qid := of_nat i\<rparr>) [1, 2, 3, 4, 5, 6, 7, 8]\<rparr>"

theorem netmap_ninth_query_evicts_witness:
  "let old = last (g_macaddr_map full_globals); g' = netmap_add_macaddr full_globals [] [] 0 0 9 in
    outstanding (g_macaddr_map full_globals) (qid old) = Some (route_of old) \<and>
    outstanding (g_macaddr_map g') (qid old) = None"
  using netmap_ninth_query_evicts [of full_globals 9 "[]" "[]" 0 0]
  by (simp add: full_globals_def MAC_ADDR_MAP_ITEMS_def Let_def)

lemma reply_frame_fields [simp]:
  "f_totlen (reply_frame f r i k io) = be16 (of_nat (28 + k))" "f_ulen (reply_frame f r i k io) = be16 (of_nat (8 + k))"
  "f_daddr (reply_frame f r i k io) = le32 (io_daddr io)" "f_dport (reply_frame f r i k io) = le16 (io_dest io)"
  "f_ipsum (reply_frame f r i k io) = le16 0" "f_usum (reply_frame f r i k io) = le16 0"
  by (simp_all add: reply_frame_def)

lemma ip_checksum_verifies:
  assumes "frame_sized f" and "f_ipsum f = le16 0"
  shows "in_cksum (ip_bytes (f\<lparr>f_ipsum := le16 (in_cksum (ip_bytes f))\<rparr>)) = 0"
  using in_cksum_verifies [of "f_vhl f @ f_totlen f @ f_id f @ f_frag f @ [f_proto f]" "f_saddr f @ f_daddr f"] assms
  by (simp add: ip_bytes_def frame_sized_def)

lemma udp_checksum_verifies:
  assumes "frame_sized f" and "f_usum f = le16 0" and "length xs \<le> 60000"
  shows "in_cksum (pseudo_bytes f @ udp_bytes (f\<lparr>f_usum := le16 (in_cksum (pseudo_bytes f @ udp_bytes f @ xs))\<rparr>) @ xs) = 0"
  using in_cksum_verifies [of "pseudo_bytes f @ f_sport f @ f_dport f @ f_ulen f" xs] assms
  by (simp add: udp_bytes_def pseudo_bytes_def frame_sized_def)

lemma pseudo_bytes_update [simp]: "pseudo_bytes (f\<lparr>f_usum := b\<rparr>) = pseudo_bytes f"
  by (simp add: pseudo_bytes_def)

lemma reply_frame_sized:
  assumes "frame_sized f" and "routes_sized g" and "netmap_get_macmap g q = (r, g')"
  shows "frame_sized (reply_frame f r i k io)"
  using set_route_frame(2) [OF assms] by (simp add: reply_frame_def)

text \<open>C28: A reply built for a packet of 42 to 534 bytes has the length fields of that packet, the destination the
  caller asked for, an unchanged DNS message, and IP and UDP checksums that verify.\<close>

theorem build_pkt_header_valid:
  assumes g: "routes_sized g" and n: "42 \<le> n" "n \<le> 534" "nat n \<le> length buff" and q: "44 \<le> length buff"
  shows "\<exists>g' f. build_pkt_header g buff n iomsg = Some (g', frame_bytes f @ drop 42 buff) \<and> frame_sized f \<and>
    in_cksum (ip_bytes f) = 0 \<and>
    in_cksum (pseudo_bytes f @ udp_bytes f @ take (nat n - 42) (drop 42 buff)) = 0 \<and>
    f_totlen f = be16 (of_int (n - 14)) \<and> f_ulen f = be16 (of_int (n - 34)) \<and>
    f_daddr f = le32 (io_daddr iomsg) \<and> f_dport f = le16 (io_dest iomsg)"
proof -
  obtain f rest where f: "frame_sized f" "buff = frame_bytes f @ rest"
    using frame_exists [of buff] q by auto
  have len: "length (frame_bytes f) = 42" using f(1) by (simp add: frame_defs)
  obtain k where k: "n = 42 + int k" using n(1) zle_iff_zadd by auto
  obtain r g1 where r: "netmap_get_macmap g (of_le16 rest) = (r, g1)" by fastforce
  have l: "2 \<le> length rest" "k \<le> length rest" "k \<le> 492" using n q k f(2) len by auto
  have nk: "nat n - 42 = k" using k by simp
  let ?h = "reply_frame f r (g_ip_id_next g + 1) k iomsg"
  let ?h1 = "?h\<lparr>f_ipsum := le16 (in_cksum (ip_bytes ?h))\<rparr>"
  let ?h2 = "?h1\<lparr>f_usum := le16 (in_cksum (pseudo_bytes ?h1 @ udp_bytes ?h1 @ take k rest))\<rparr>"
  have h: "frame_sized ?h" by (rule reply_frame_sized [OF f(1) g r])
  then have h1: "frame_sized ?h1" by simp
  have "build_pkt_header g buff n iomsg = Some (g1\<lparr>g_ip_id_next := g_ip_id_next g + 1\<rparr>, frame_bytes ?h2 @ drop 42 buff)"
    using build_pkt_header_frame [OF f(1) g l(1,2) r, of iomsg] l(3) len by (simp add: f(2) k)
  moreover have "frame_sized ?h2" using h1 by simp
  moreover have "in_cksum (ip_bytes ?h2) = 0" using ip_checksum_verifies [OF h] by simp
  moreover have "in_cksum (pseudo_bytes ?h2 @ udp_bytes ?h2 @ take (nat n - 42) (drop 42 buff)) = 0"
    using udp_checksum_verifies [OF h1, of "take k rest"] l(3) len by (simp add: f(2) nk)
  moreover have "f_totlen ?h2 = be16 (of_int (n - 14)) \<and> f_ulen ?h2 = be16 (of_int (n - 34)) \<and>
    f_daddr ?h2 = le32 (io_daddr iomsg) \<and> f_dport ?h2 = le16 (io_dest iomsg)" by (simp add: k)
  ultimately show ?thesis by blast
qed

definition sample_frame :: frame where
  "sample_frame = \<lparr>f_dst = [1, 2, 3, 4, 5, 6], f_src = [7, 8, 9, 10, 11, 12], f_type = [8, 0], f_vhl = [0x45, 0],
     f_totlen = [0, 40], f_id = [0, 1], f_frag = [0, 0, 64], f_proto = 17, f_ipsum = [0, 0],
     f_saddr = [10, 0, 0, 1], f_daddr = [10, 0, 0, 2], f_sport = [0x30, 0x39], f_dport = [0, 53],
     f_ulen = [0, 20], f_usum = [0, 0]\<rparr>"

definition sample_msg :: io_msg_s where
  "sample_msg = \<lparr>io_buff = [], io_n = 0, io_saddr = 0, io_daddr = 5, io_source = 0, io_dest = 6\<rparr>"

theorem build_pkt_header_valid_witness:
  "\<exists>g' f. build_pkt_header nm_globals_init (frame_bytes sample_frame @ replicate 100 1) 60 sample_msg =
      Some (g', frame_bytes f @ replicate 100 1) \<and> in_cksum (ip_bytes f) = 0 \<and> f_daddr f = le32 5"
  using build_pkt_header_valid [of nm_globals_init 60 "frame_bytes sample_frame @ replicate 100 1" sample_msg]
    nm_globals_init_ok(1)
  by (force simp: routes_ok_def sample_msg_def frame_bytes_def ip_bytes_def udp_bytes_def sample_frame_def)

text \<open>C29: A packet of more than 534 bytes, a DNS message of more than 492, overflows the 512 byte
  buffer on the stack in which \<open>build_pkt_header\<close> assembles the input of the UDP checksum.\<close>

theorem build_pkt_header_overflow:
  assumes g: "routes_sized g" and n: "534 < n" "nat n \<le> length buff"
  shows "build_pkt_header g buff n iomsg = None"
proof -
  have "42 \<le> length buff" using n by linarith
  then obtain f rest where f: "frame_sized f" "buff = frame_bytes f @ rest" by (rule frame_exists)
  have len: "length (frame_bytes f) = 42" using f(1) by (simp add: frame_defs)
  obtain k where k: "n = 42 + int k" using n(1) zle_iff_zadd [of 42 n] by auto
  obtain r g1 where r: "netmap_get_macmap g (of_le16 rest) = (r, g1)" by fastforce
  have l: "2 \<le> length rest" "k \<le> length rest" "492 < k" using n k f(2) len by auto
  show ?thesis using build_pkt_header_frame [OF f(1) g l(1,2) r, of iomsg] l(3) by (simp add: f(2) k)
qed

theorem build_pkt_header_overflow_witness:
  "build_pkt_header nm_globals_init (replicate 2048 1) 535 sample_msg = None"
  using build_pkt_header_overflow [of nm_globals_init 535 "replicate 2048 1" sample_msg] nm_globals_init_ok(1)
  by (simp add: routes_ok_def)

lemma routes_step_header: "g_pkt_header (routes_step add_route netmap_get_macmap g op) = g_pkt_header g"
proof (cases op)
  case (Add q r)
  then show ?thesis by (cases r) (simp add: add_route_def netmap_add_macaddr_def)
next
  case (Take q)
  then show ?thesis by (auto simp: netmap_get_macmap_def split: option.splits)
qed

lemma routes_run_header: "g_pkt_header (foldl (routes_step add_route netmap_get_macmap) g ops) = g_pkt_header g"
  by (induction ops arbitrary: g) (simp_all add: routes_step_header)

definition query_route :: "frame \<Rightarrow> route" where
  "query_route f = (f_dst f, f_src f, of_le32 (f_daddr f), of_le16 (f_dport f))"

lemma parse_addr_frame:
  assumes f: "frame_sized f" and l: "2 \<le> length rest"
  defines "g0 g \<equiv> (if g_pkt_header_inited g then g else g\<lparr>g_pkt_header_inited := True, g_pkt_header := frame_bytes f\<rparr>)"
  shows "parse_addr g (frame_bytes f @ rest) iomsg =
    Some (add_route (g0 g) (of_le16 rest) (query_route f),
      iomsg\<lparr>io_saddr := of_le32 (f_saddr f), io_daddr := of_le32 (f_daddr f),
        io_source := of_le16 (f_sport f), io_dest := of_le16 (f_dport f)\<rparr>)"
  using assms by (simp add: parse_addr_def frame_loads frame_reads add_route_def query_route_def Let_def)

lemma of_le16_take: "take 2 p = take 2 xs \<Longrightarrow> 2 \<le> length p \<Longrightarrow> of_le16 (p @ ys) = of_le16 xs"
proof -
  assume a: "take 2 p = take 2 xs" and l: "2 \<le> length p"
  have "take 2 p ! 0 = take 2 xs ! 0" "take 2 p ! 1 = take 2 xs ! 1" using a by simp_all
  then show ?thesis using l by (cases p) (auto simp: of_le16_def nth_append)
qed

text \<open>C7: A query that was received is answered to where it came from: when fewer than eight queries are outstanding and
  none has the id of the query, then after \<open>parse_addr\<close> on the query, and any additions and lookups of other ids that never
  add a pending id or exceed eight, a reply of 2 to 492 bytes with the same id, sent to the address that \<open>parse_addr\<close>
  reported, carries the query's addresses swapped at all three layers, and the DNS message unchanged.\<close>

theorem query_reply_swaps:
  assumes ok: "routes_ok g" and f: "frame_sized f" and l: "2 \<le> length rest"
    and new: "outstanding (g_macaddr_map g) (of_le16 rest) = None"
    and room: "card (dom (outstanding (g_macaddr_map g))) < 8"
    and legal: "routes_legal MAC_ADDR_MAP_ITEMS route_macs
      ((outstanding (g_macaddr_map g))(of_le16 rest \<mapsto> query_route f)) ops"
    and other: "of_le16 rest \<notin> op_id ` set ops"
    and p: "take 2 p = take 2 rest" "2 \<le> length p" "length p \<le> 492"
  shows "\<exists>g1 io1. parse_addr g (frame_bytes f @ rest) io = Some (g1, io1) \<and>
    (\<forall>io2. io_daddr io2 = io_saddr io1 \<and> io_dest io2 = io_source io1 \<longrightarrow>
      (let g2 = foldl (routes_step add_route netmap_get_macmap) g1 ops in
       \<exists>g3 h. build_pkt_header g2 (g_pkt_header g2 @ p @ junk) (42 + int (length p)) io2 =
           Some (g3, frame_bytes h @ p @ junk) \<and>
         f_dst h = f_src f \<and> f_src h = f_dst f \<and> f_saddr h = f_daddr f \<and> f_daddr h = f_saddr f \<and>
         f_sport h = f_dport f \<and> f_dport h = f_sport f))"
proof -
  let ?q = "of_le16 rest" and ?r = "query_route f"
  let ?g0 = "if g_pkt_header_inited g then g else g\<lparr>g_pkt_header_inited := True, g_pkt_header := frame_bytes f\<rparr>"
  have len: "length (frame_bytes f) = 42" using f by (simp add: frame_defs)
  have ok0: "routes_ok ?g0" "g_macaddr_map ?g0 = g_macaddr_map g"
    using ok len by (auto simp: routes_ok_def routes_sized_def)
  have rm: "route_macs ?r" using f by (simp add: query_route_def route_macs_def frame_sized_def)
  have legal': "routes_legal MAC_ADDR_MAP_ITEMS route_macs (outstanding (g_macaddr_map ?g0)) (Add ?q ?r # ops)"
    using legal new room rm ok0(2) by (simp add: MAC_ADDR_MAP_ITEMS_def)
  let ?g2 = "foldl (routes_step add_route netmap_get_macmap) (add_route ?g0 ?q ?r) ops"
  have ok2: "routes_sized ?g2"
    using routes.run_refines [OF ok0(1) legal'] by (simp add: routes_ok_def)
  obtain g3 where look: "netmap_get_macmap ?g2 ?q = (Some ?r, g3)"
    using routes.route_survives [OF ok0(1) legal' other] by (cases "netmap_get_macmap ?g2 ?q") auto
  have "42 \<le> length (g_pkt_header ?g2)" using ok2 by (simp add: routes_sized_def)
  then obtain t e where t: "frame_sized t" "g_pkt_header ?g2 = frame_bytes t @ e" by (rule frame_exists)
  then have e: "e = []" using ok2 by (simp add: routes_sized_def frame_defs)
  have look': "netmap_get_macmap ?g2 (of_le16 (p @ junk)) = (Some ?r, g3)"
    using look of_le16_take [OF p(1,2), of junk] by simp
  have addr: "le32 (of_le32 (f_saddr f)) = f_saddr f" "le32 (of_le32 (f_daddr f)) = f_daddr f"
    "le16 (of_le16 (f_sport f)) = f_sport f" "le16 (of_le16 (f_dport f)) = f_dport f"
    using f by (simp_all add: le_roundtrips frame_sized_def)
  have "\<exists>g3 h. build_pkt_header ?g2 (g_pkt_header ?g2 @ p @ junk) (42 + int (length p)) io2 =
           Some (g3, frame_bytes h @ p @ junk) \<and>
         f_dst h = f_src f \<and> f_src h = f_dst f \<and> f_saddr h = f_daddr f \<and> f_daddr h = f_saddr f \<and>
         f_sport h = f_dport f \<and> f_dport h = f_sport f"
    if "io_daddr io2 = of_le32 (f_saddr f)" "io_dest io2 = of_le16 (f_sport f)" for io2
    using build_pkt_header_frame [OF t(1) ok2 _ _ look', of "length p" io2] p(2,3) that addr t(2) e
    by (auto simp: reply_frame_def apply_route_def query_route_def)
  then show ?thesis
    using parse_addr_frame [OF f l, of g io] by (simp add: Let_def)
qed

theorem query_reply_swaps_witness:
  "\<exists>g1 io1. parse_addr nm_globals_init (frame_bytes sample_frame @ [1, 2, 3]) sample_msg = Some (g1, io1) \<and>
    (\<forall>io2. io_daddr io2 = io_saddr io1 \<and> io_dest io2 = io_source io1 \<longrightarrow>
      (\<exists>g3 h. build_pkt_header g1 (g_pkt_header g1 @ [1, 2, 9, 9]) 46 io2 =
           Some (g3, frame_bytes h @ [1, 2, 9, 9]) \<and> f_daddr h = f_saddr sample_frame))"
proof -
  have "frame_sized sample_frame" by (simp add: frame_sized_def sample_frame_def)
  then show ?thesis
    using query_reply_swaps [OF nm_globals_init_ok(1), of sample_frame "[1, 2, 3]" "[]" "[1, 2, 9, 9]" sample_msg "[]"]
    by (fastforce simp: nm_globals_init_ok(2))
qed

end
