(* ===== verification/Netmap_Ring.thy ===== *)
theory Netmap_Ring
  imports Netmap_Packet Isc_Buffer
begin

text \<open>
  The rings of a netmap interface (\<open>netmap/dns_util.c\<close>, \<open>netmap/nm_util.c\<close>) and the two socket
  functions that use them (\<open>doio_netmap_recv\<close> and \<open>doio_netmap_send\<close> of \<open>lib/isc/unix/socket.c\<close>).

  The shared memory of the kernel module is the state \<open>netmap\<close>: the interfaces with their rings,
  by address, and the packet buffers, by index. \<open>num_slots\<close> is the length of the list of slots;
  the counters of a ring never leave its range, so they are natural numbers. What the kernel
  answers to \<open>open\<close>, \<open>mmap\<close> and \<open>ioctl\<close> is a parameter of the functions that ask it. The build is
  the one for Linux, where \<open>ifr_flagshigh\<close> is \<open>ifr_flags\<close>, and \<open>ISC_NET_RECVOVERFLOW\<close> is not defined.
\<close>

section \<open>Rings\<close>

record netmap_slot =
  buf_idx :: nat
  slot_len :: u16
  slot_flags :: u16

record netmap_ring =
  ring_avail :: nat
  ring_cur :: nat
  ring_slots :: "netmap_slot list"

record netmap_if =
  ni_txrings :: "netmap_ring list"
  ni_rxrings :: "netmap_ring list"

definition NS_BUF_CHANGED :: u16 where
  "NS_BUF_CHANGED = 0x0001"

definition NETMAP_RING_NEXT :: "netmap_ring \<Rightarrow> nat \<Rightarrow> nat" where
  "NETMAP_RING_NEXT r i = (if i + 1 = length (ring_slots r) then 0 else i + 1)"

definition mark_slot :: "netmap_ring \<Rightarrow> nat \<Rightarrow> netmap_ring" where
  "mark_slot r j = r\<lparr>ring_slots := (ring_slots r)[j := (ring_slots r ! j)
     \<lparr>slot_flags := slot_flags (ring_slots r ! j) OR NS_BUF_CHANGED\<rparr>]\<rparr>"

section \<open>Receiving and sending on one ring\<close>

text \<open>One packet that is a DNS query: the addresses, the route, and the copy of the DNS message into
  the buffer of the caller.\<close>

definition accept_query ::
    "nm_globals \<Rightarrow> bytes \<Rightarrow> u16 \<Rightarrow> io_msg_s \<Rightarrow> (nm_globals \<times> io_msg_s) option" where
  "accept_query g rxbuf len iomsg = do {
     (g, iomsg) \<leftarrow> parse_addr g rxbuf iomsg;
     let n = uint len - 14 - 20 - 8 in do {
     REQUIRE (0 \<le> n);
     msg \<leftarrow> mem_read rxbuf 42 (nat n);
     buff \<leftarrow> mem_write (io_buff iomsg) 0 msg;
     Some (g, iomsg\<lparr>io_buff := buff, io_n := n\<rparr>) } }"

text \<open>The loop: the first argument is the number of slots still to be looked at, \<open>limit - m\<close>.\<close>

fun recv_loop :: "nat \<Rightarrow> (nat \<Rightarrow> bytes) \<Rightarrow> nm_globals \<Rightarrow> netmap_ring \<Rightarrow> nat \<Rightarrow> nat \<Rightarrow> io_msg_s \<Rightarrow>
    (nm_globals \<times> netmap_ring \<times> nat \<times> nat \<times> io_msg_s) option" where
  "recv_loop 0 bufs g ring j m iomsg = Some (g, ring, j, m, iomsg)"
| "recv_loop (Suc k) bufs g ring j m iomsg = do {
     REQUIRE (j < length (ring_slots ring));
     let rs = ring_slots ring ! j; rxbuf = bufs (buf_idx rs) in do {
     REQUIRE (unat (slot_len rs) < length (io_buff iomsg));
     query \<leftarrow> is_dns_query rxbuf;
     if query \<noteq> 0
     then recv_loop k bufs g (mark_slot ring j) (NETMAP_RING_NEXT ring j) (m + 1) iomsg
     else do {
       (g, iomsg) \<leftarrow> accept_query g rxbuf (slot_len rs) iomsg;
       Some (g, mark_slot ring j, NETMAP_RING_NEXT ring j, m + 1, iomsg) } } }"

definition process_recv_ring :: "(nat \<Rightarrow> bytes) \<Rightarrow> nm_globals \<Rightarrow> netmap_ring \<Rightarrow> nat \<Rightarrow> io_msg_s \<Rightarrow>
    (nm_globals \<times> netmap_ring \<times> nat \<times> io_msg_s) option" where
  "process_recv_ring bufs g rxring limit iomsg = do {
     let limit = (if ring_avail rxring < limit then ring_avail rxring else limit) in do {
     (g, rxring, j, m, iomsg) \<leftarrow> recv_loop limit bufs g rxring (ring_cur rxring) 0 iomsg;
     Some (g, rxring\<lparr>ring_avail := ring_avail rxring - m, ring_cur := j\<rparr>, m, iomsg) } }"

definition process_send_ring :: "(nat \<Rightarrow> bytes) \<Rightarrow> nm_globals \<Rightarrow> netmap_ring \<Rightarrow> nat \<Rightarrow> io_msg_s \<Rightarrow>
    ((nat \<Rightarrow> bytes) \<times> nm_globals \<times> netmap_ring \<times> nat \<times> io_msg_s) option" where
  "process_send_ring bufs g txring limit iomsg = do {
     let k = ring_cur txring;
         limit = (if ring_avail txring < limit then ring_avail txring else limit) in
     if 0 < limit then do {
       REQUIRE (k < length (ring_slots txring));
       let ts = ring_slots txring ! k;
           len = of_nat (length (io_buff iomsg) + 14 + 20 + 8) :: u16;
           txbuf = bufs (buf_idx ts) in do {
       txbuf \<leftarrow> mem_write txbuf 0 (g_pkt_header g);
       txbuf \<leftarrow> mem_write txbuf 42 (io_buff iomsg);
       (g, txbuf) \<leftarrow> build_pkt_header g txbuf (uint len) iomsg;
       let txring = txring\<lparr>ring_slots := (ring_slots txring)[k := ts\<lparr>slot_len := len\<rparr>]\<rparr> in
       Some (bufs(buf_idx ts := txbuf), g,
         (mark_slot txring k)\<lparr>ring_avail := ring_avail txring - 1, ring_cur := NETMAP_RING_NEXT txring k\<rparr>,
         1, iomsg\<lparr>io_n := int (length (io_buff iomsg))\<rparr>) } }
     else Some (bufs, g, txring, 0, iomsg) }"

section \<open>Descriptors\<close>

record my_ring =
  mr_fd :: int
  mr_mem :: "nat option"
  mr_memsize :: nat
  mr_queueid :: nat
  mr_begin :: nat
  mr_end :: nat
  mr_nifp :: nat
  mr_tx :: nat
  mr_rx :: nat
  mr_if_flags :: u32

record netmap_storage_s =
  sto_ring :: my_ring
  sto_ifname :: string
  sto_fd :: int

record netmap =
  nm_g :: nm_globals
  nm_bufs :: "nat \<Rightarrow> bytes"
  nm_ifs :: "nat \<Rightarrow> netmap_if"
  g_storage :: "netmap_storage_s list"
  g_inited :: bool
  g_fds_index :: int

datatype if_ioctl = SIOCGIFFLAGS | SIOCSIFFLAGS | SIOCETHTOOL

record nmreq =
  nr_offset :: nat
  nr_memsize :: nat
  nr_tx_rings :: nat
  nr_rx_rings :: nat

record nm_kernel =
  k_open :: int
  k_ginfo :: "int \<times> nmreq"
  k_regif :: "int \<times> nmreq"
  k_mmap :: "nat option"
  k_socket :: int
  k_ioctl :: "if_ioctl \<Rightarrow> u16 \<Rightarrow> int \<times> u16"

definition NETMAP_HW_RING :: nat where "NETMAP_HW_RING = 0x4000"
definition NETMAP_SW_RING :: nat where "NETMAP_SW_RING = 0x2000"
definition NETMAP_RING_MASK :: nat where "NETMAP_RING_MASK = 0xfff"
definition NM_MAX_FDS :: nat where "NM_MAX_FDS = 32"
definition IFF_UP :: u32 where "IFF_UP = 0x1"
definition IFF_PPROMISC :: u32 where "IFF_PPROMISC = 0x100"

definition nm_do_ioctl :: "nm_kernel \<Rightarrow> my_ring \<Rightarrow> if_ioctl \<Rightarrow> int \<times> my_ring" where
  "nm_do_ioctl kern me what =
     (if k_socket kern < 0 then (- 1, me)
      else let ifr_flags = (case what of SIOCSIFFLAGS \<Rightarrow> ucast (mr_if_flags me AND 0xffff) | _ \<Rightarrow> 0);
               (error, ifr_flags) = k_ioctl kern what ifr_flags
           in if error \<noteq> 0 then (error, me)
              else (error, case what of
                 SIOCGIFFLAGS \<Rightarrow> me\<lparr>mr_if_flags := push_bit 16 (ucast ifr_flags) OR (0xffff AND ucast ifr_flags)\<rparr>
               | _ \<Rightarrow> me))"

definition set_mode :: "nm_kernel \<Rightarrow> my_ring \<Rightarrow> bool \<Rightarrow> my_ring" where
  "set_mode kern me promisc =
     (let me = snd (nm_do_ioctl kern me SIOCGIFFLAGS);
          me = (if mr_if_flags me AND IFF_UP = 0 then me\<lparr>mr_if_flags := mr_if_flags me OR IFF_UP\<rparr> else me)
      in if promisc
         then snd (nm_do_ioctl kern (me\<lparr>mr_if_flags := mr_if_flags me OR IFF_PPROMISC\<rparr>) SIOCSIFFLAGS)
         else me)"

definition bind_rings :: "my_ring \<Rightarrow> nat \<Rightarrow> nmreq \<Rightarrow> my_ring" where
  "bind_rings me ringid req =
     (if ringid AND NETMAP_SW_RING \<noteq> 0
      then me\<lparr>mr_begin := nr_rx_rings req, mr_end := nr_rx_rings req + 1,
              mr_tx := nr_tx_rings req, mr_rx := nr_rx_rings req\<rparr>
      else if ringid AND NETMAP_HW_RING \<noteq> 0
      then let b = ringid AND NETMAP_RING_MASK
           in me\<lparr>mr_begin := b, mr_end := b + 1, mr_tx := b, mr_rx := b\<rparr>
      else me\<lparr>mr_begin := 0, mr_end := nr_rx_rings req, mr_tx := 0, mr_rx := 0\<rparr>)"

definition netmap_open :: "nm_kernel \<Rightarrow> my_ring \<Rightarrow> nat \<Rightarrow> bool \<Rightarrow> int \<times> my_ring" where
  "netmap_open kern me ringid promisc =
     (let me = me\<lparr>mr_fd := k_open kern\<rparr>;
          (err, req) = k_ginfo kern
      in if k_open kern < 0 then (- 1, me)
         else if err \<noteq> 0 then (- 1, me)
         else let me = me\<lparr>mr_memsize := nr_memsize req\<rparr>;
                  (err, req) = k_regif kern
              in if err \<noteq> 0 then (- 1, me)
                 else case (if mr_mem me = None then k_mmap kern else mr_mem me) of
                   None \<Rightarrow> (- 1, me\<lparr>mr_mem := None\<rparr>)
                 | Some mem \<Rightarrow>
                     (let me = me\<lparr>mr_mem := Some mem\<rparr>;
                          me = (if ringid \<noteq> NETMAP_SW_RING then set_mode kern me promisc else me);
                          me = me\<lparr>mr_nifp := mem + nr_offset req, mr_queueid := ringid\<rparr>
                      in (0, bind_rings me ringid req)))"

definition empty_storage :: netmap_storage_s where
  "empty_storage = \<lparr>sto_ring = \<lparr>mr_fd = 0, mr_mem = None, mr_memsize = 0, mr_queueid = 0, mr_begin = 0,
     mr_end = 0, mr_nifp = 0, mr_tx = 0, mr_rx = 0, mr_if_flags = 0\<rparr>, sto_ifname = [], sto_fd = 0\<rparr>"

definition netmap_init :: "netmap \<Rightarrow> netmap" where
  "netmap_init s = s\<lparr>g_storage := replicate NM_MAX_FDS empty_storage\<rparr>"

definition netmap_free_node :: "netmap \<Rightarrow> (nat \<times> netmap) option" where
  "netmap_free_node s = do {
     let s = s\<lparr>g_fds_index := g_fds_index s + 1\<rparr> in do {
     REQUIRE (g_fds_index s < int NM_MAX_FDS);
     Some (nat (g_fds_index s), s) } }"

definition netmap_getfd :: "nm_kernel \<Rightarrow> netmap \<Rightarrow> string \<Rightarrow> (int \<times> netmap) option" where
  "netmap_getfd kern s ifname = do {
     let s = (if g_inited s then s else netmap_init (s\<lparr>g_inited := True\<rparr>)) in do {
     (i, s) \<leftarrow> netmap_free_node s;
     let sto = (g_storage s ! i)\<lparr>sto_ifname := take 31 ifname\<rparr>;
         ring = snd (netmap_open kern (sto_ring sto) 0 False);
         sto = sto\<lparr>sto_ring := ring, sto_fd := mr_fd ring\<rparr> in
     Some (sto_fd sto, s\<lparr>g_storage := (g_storage s)[i := sto]\<rparr>) } }"

definition netmap_getring :: "netmap \<Rightarrow> int \<Rightarrow> my_ring option" where
  "netmap_getring s fd = map_option sto_ring (find (\<lambda>sto. sto_fd sto = fd) (g_storage s))"

text \<open>How many packets on this set of queues: a 32-bit sum.\<close>

definition pkt_queued :: "netmap \<Rightarrow> my_ring \<Rightarrow> bool \<Rightarrow> u32 option" where
  "pkt_queued s me tx =
     (let rings = (if tx then ni_txrings (nm_ifs s (mr_nifp me)) else ni_rxrings (nm_ifs s (mr_nifp me)))
      in if mr_begin me < mr_end me \<and> length rings < mr_end me then None
         else Some (sum_list (map (\<lambda>i. of_nat (ring_avail (rings ! i))) [mr_begin me..<mr_end me])))"

section \<open>Receiving and sending on a descriptor\<close>

text \<open>The search for a ring with packets, or with room: the loop over \<open>ri\<close>. Reading a ring that does
  not exist is an access out of bounds.\<close>

fun find_ring :: "netmap_ring list \<Rightarrow> nat list \<Rightarrow> nat option option" where
  "find_ring rings [] = Some None"
| "find_ring rings (ri # ris) =
     (if ri < length rings
      then if ring_avail (rings ! ri) = 0 then find_ring rings ris else Some (Some ri)
      else None)"

definition netmap_recv_from_ring :: "netmap \<Rightarrow> my_ring \<Rightarrow> io_msg_s \<Rightarrow> (nat \<times> netmap \<times> io_msg_s) option" where
  "netmap_recv_from_ring s src iomsg = do {
     let nif = nm_ifs s (mr_nifp src) in do {
     ri \<leftarrow> find_ring (ni_rxrings nif) [mr_begin src..<mr_end src];
     case ri of
       None \<Rightarrow> Some (0, s, iomsg)
     | Some i \<Rightarrow> do {
         (g, ring, m, iomsg) \<leftarrow> process_recv_ring (nm_bufs s) (nm_g s) (ni_rxrings nif ! i) 512 iomsg;
         Some (m, s\<lparr>nm_g := g, nm_ifs := (nm_ifs s)(mr_nifp src :=
           nif\<lparr>ni_rxrings := (ni_rxrings nif)[i := ring]\<rparr>)\<rparr>, iomsg) } } }"

definition netmap_send_to_ring :: "netmap \<Rightarrow> my_ring \<Rightarrow> io_msg_s \<Rightarrow> (nat \<times> netmap \<times> io_msg_s) option" where
  "netmap_send_to_ring s src iomsg = do {
     let nif = nm_ifs s (mr_nifp src) in do {
     ti \<leftarrow> find_ring (ni_txrings nif) [mr_begin src..<mr_end src];
     case ti of
       None \<Rightarrow> Some (0, s, iomsg)
     | Some i \<Rightarrow> do {
         (bufs, g, ring, m, iomsg) \<leftarrow> process_send_ring (nm_bufs s) (nm_g s) (ni_txrings nif ! i) 512 iomsg;
         Some (m, s\<lparr>nm_bufs := bufs, nm_g := g, nm_ifs := (nm_ifs s)(mr_nifp src :=
           nif\<lparr>ni_txrings := (ni_txrings nif)[i := ring]\<rparr>)\<rparr>, iomsg) } } }"

definition netmap_recv :: "netmap \<Rightarrow> int \<Rightarrow> io_msg_s \<Rightarrow> (int \<times> netmap \<times> io_msg_s) option" where
  "netmap_recv s fd iomsg =
     (case netmap_getring s fd of
        None \<Rightarrow> Some (- 1, s, iomsg)
      | Some ring \<Rightarrow> map_option (\<lambda>(m, r). (int m, r)) (netmap_recv_from_ring s ring iomsg))"

definition netmap_send :: "netmap \<Rightarrow> int \<Rightarrow> io_msg_s \<Rightarrow> (int \<times> netmap \<times> io_msg_s) option" where
  "netmap_send s fd iomsg =
     (case netmap_getring s fd of
        None \<Rightarrow> Some (- 1, s, iomsg)
      | Some ring \<Rightarrow> map_option (\<lambda>(m, r). (int m, r)) (netmap_send_to_ring s ring iomsg))"

section \<open>The socket functions\<close>

datatype doio_result = DOIO_SUCCESS | DOIO_SOFT | DOIO_HARD | DOIO_EOF

record socketevent =
  dev_result :: "isc_result option"
  dev_minimum :: nat
  dev_n :: nat
  dev_region :: bytes
  dev_bufferlist :: "isc_buffer list"
  dev_port :: u16
  dev_addr :: u32

text \<open>The loop that accounts for the received bytes in the buffers of the event.\<close>

fun add_received :: "isc_buffer list \<Rightarrow> nat \<Rightarrow> isc_buffer list option" where
  "add_received [] actual_count = Some []"
| "add_received (b # bs) actual_count =
     (if actual_count = 0 then Some (b # bs)
      else do {
        REQUIRE (ISC_BUFFER_VALID b);
        if unat (isc_buffer_availablelength b) \<le> actual_count then do {
          let rest = actual_count - unat (isc_buffer_availablelength b) in do {
          b \<leftarrow> isc__buffer_add b (isc_buffer_availablelength b);
          REQUIRE (bs = [] \<longrightarrow> rest = 0);
          bs \<leftarrow> add_received bs rest;
          Some (b # bs) } }
        else do {
          b \<leftarrow> isc__buffer_add b (of_nat actual_count);
          Some (b # bs) } })"

definition doio_netmap_recv :: "netmap \<Rightarrow> int \<Rightarrow> int \<Rightarrow> socketevent \<Rightarrow> (doio_result \<times> netmap \<times> socketevent) option" where
  "doio_netmap_recv s fd maxudp dev = do {
     base \<leftarrow> mem_read (dev_region dev) (dev_n dev) (length (dev_region dev) - dev_n dev);
     let iomsg = \<lparr>io_buff = base, io_n = 0, io_saddr = 0, io_daddr = 0, io_source = 0, io_dest = 0\<rparr> in do {
     (_, s, iomsg) \<leftarrow> netmap_recv s fd iomsg;
     let cc = io_n iomsg; read_count = length base in do {
     region \<leftarrow> mem_write (dev_region dev) (dev_n dev) (io_buff iomsg);
     let dev = dev\<lparr>dev_region := region, dev_port := io_source iomsg, dev_addr := io_saddr iomsg\<rparr> in
     if dev_port dev = 0 then Some (DOIO_SOFT, s, dev)
     else if maxudp \<noteq> 0 \<and> cc > maxudp then Some (DOIO_SOFT, s, dev)
     else do {
       let dev = dev\<lparr>dev_n := dev_n dev + nat cc\<rparr> in do {
       bs \<leftarrow> add_received (dev_bufferlist dev) (nat cc);
       let dev = dev\<lparr>dev_bufferlist := bs\<rparr> in
       if nat cc \<noteq> read_count \<and> dev_n dev < dev_minimum dev then Some (DOIO_SOFT, s, dev)
       else Some (DOIO_SUCCESS, s, dev\<lparr>dev_result := Some ISC_R_SUCCESS\<rparr>) } } } } }"

definition doio_netmap_send :: "netmap \<Rightarrow> int \<Rightarrow> socketevent \<Rightarrow> (doio_result \<times> netmap \<times> socketevent) option" where
  "doio_netmap_send s fd dev = do {
     base \<leftarrow> mem_read (dev_region dev) (dev_n dev) (length (dev_region dev) - dev_n dev);
     let iomsg = \<lparr>io_buff = base, io_n = 0, io_saddr = 0, io_daddr = dev_addr dev, io_source = 0,
                  io_dest = dev_port dev\<rparr> in do {
     (_, s, iomsg) \<leftarrow> netmap_send s fd iomsg;
     Some (DOIO_SUCCESS, s, dev\<lparr>dev_n := dev_n dev + nat (io_n iomsg), dev_result := Some ISC_R_SUCCESS\<rparr>) } }"

section \<open>What the receive loop does\<close>

definition slot_ok :: "(nat \<Rightarrow> bytes) \<Rightarrow> nat \<Rightarrow> netmap_slot \<Rightarrow> bool" where
  "slot_ok bufs room rs \<longleftrightarrow> 44 \<le> length (bufs (buf_idx rs)) \<and> 42 \<le> unat (slot_len rs) \<and>
     unat (slot_len rs) \<le> length (bufs (buf_idx rs)) \<and> unat (slot_len rs) < room"

definition ring_ok :: "netmap_ring \<Rightarrow> bool" where
  "ring_ok r \<longleftrightarrow> ring_cur r < length (ring_slots r) \<and> ring_avail r \<le> length (ring_slots r)"

text \<open>The packet \<open>i\<close> positions after slot \<open>j\<close>.\<close>

definition pkt :: "(nat \<Rightarrow> bytes) \<Rightarrow> netmap_ring \<Rightarrow> nat \<Rightarrow> nat \<Rightarrow> bytes" where
  "pkt bufs r j i = bufs (buf_idx (ring_slots r ! ((j + i) mod length (ring_slots r))))"

definition pkt_len :: "netmap_ring \<Rightarrow> nat \<Rightarrow> nat \<Rightarrow> u16" where
  "pkt_len r j i = slot_len (ring_slots r ! ((j + i) mod length (ring_slots r)))"

definition same_slots :: "netmap_ring \<Rightarrow> netmap_ring \<Rightarrow> bool" where
  "same_slots r r' \<longleftrightarrow> map buf_idx (ring_slots r') = map buf_idx (ring_slots r) \<and>
     map slot_len (ring_slots r') = map slot_len (ring_slots r)"

lemma same_slots_length: "same_slots r r' \<Longrightarrow> length (ring_slots r') = length (ring_slots r)"
  unfolding same_slots_def by (metis length_map)

lemma same_slots_nth:
  assumes "same_slots r r'" and "i < length (ring_slots r)"
  shows "buf_idx (ring_slots r' ! i) = buf_idx (ring_slots r ! i)" "slot_len (ring_slots r' ! i) = slot_len (ring_slots r ! i)"
  using assms same_slots_length [OF assms(1)] unfolding same_slots_def by (metis nth_map)+

lemma same_slots_pkt:
  assumes "same_slots r r'" and "0 < length (ring_slots r)"
  shows "pkt bufs r' j i = pkt bufs r j i" "pkt_len r' j i = pkt_len r j i"
  using assms same_slots_length [OF assms(1)] same_slots_nth [OF assms(1)]
  by (simp_all add: pkt_def pkt_len_def)

lemma same_slots_refl [simp]: "same_slots r r"
  by (simp add: same_slots_def)

lemma same_slots_trans: "same_slots a b \<Longrightarrow> same_slots b c \<Longrightarrow> same_slots a c"
  by (simp add: same_slots_def)

lemma mark_slot_same [simp]: "same_slots r (mark_slot r j)"
  by (cases "j < length (ring_slots r)") (simp_all add: same_slots_def mark_slot_def map_update list_update_beyond list_update_same_conv)

lemma mark_avail [simp]: "ring_avail (mark_slot r j) = ring_avail r" "ring_cur (mark_slot r j) = ring_cur r"
  by (simp_all add: mark_slot_def)

lemma same_slots_ok:
  assumes "same_slots r r'" and "list_all (slot_ok bufs room) (ring_slots r)"
  shows "list_all (slot_ok bufs room) (ring_slots r')"
  using assms(2) same_slots_length [OF assms(1)] same_slots_nth [OF assms(1)]
  by (simp add: list_all_length slot_ok_def)

lemma ring_next_mod: "j < length (ring_slots r) \<Longrightarrow> NETMAP_RING_NEXT r j = (j + 1) mod length (ring_slots r)"
  by (auto simp: NETMAP_RING_NEXT_def)

lemma pkt_next: "0 < length (ring_slots r) \<Longrightarrow> pkt bufs r ((j + 1) mod length (ring_slots r)) i = pkt bufs r j (Suc i)"
    "0 < length (ring_slots r) \<Longrightarrow> pkt_len r ((j + 1) mod length (ring_slots r)) i = pkt_len r j (Suc i)"
  by (simp_all add: pkt_def pkt_len_def mod_simps)

lemma is_dns_query_total: "44 \<le> length b \<Longrightarrow> \<exists>v. is_dns_query b = Some v"
  by (simp add: is_dns_query_def load16_def mem_read_def)

lemma parse_addr_total: "44 \<le> length b \<Longrightarrow> \<exists>g' io'. parse_addr g b io = Some (g', io') \<and> io_buff io' = io_buff io"
  by (simp add: parse_addr_def load16_def load32_def mem_read_def Let_def)

lemma accept_query_total:
  assumes "44 \<le> length b" and "42 \<le> unat len" and "unat len \<le> length b" and "unat len < length (io_buff io)"
  shows "\<exists>g' io'. accept_query g b len io = Some (g', io') \<and> io_n io' = int (unat len - 42) \<and>
    length (io_buff io') = length (io_buff io) \<and>
    take (nat (io_n io')) (io_buff io') = take (nat (io_n io')) (drop 42 b)"
proof -
  obtain g' io' where p: "parse_addr g b io = Some (g', io')" "io_buff io' = io_buff io"
    using parse_addr_total [OF assms(1)] by blast
  obtain k where k: "unat len = 42 + k" using assms(2) le_Suc_ex by blast
  have u: "uint len = 42 + int k" using arg_cong [OF k, of int] by simp
  show ?thesis
    using p assms by (simp add: accept_query_def u k mem_read_def mem_write_def Let_def)
qed

lemma all_less_Suc_conv_0: "(\<forall>i < Suc n. P i) \<longleftrightarrow> P 0 \<and> (\<forall>i < n. P (Suc i))"
  by (auto simp: less_Suc_eq_0_disj)

lemma recv_loop_spec:
  assumes "list_all (slot_ok bufs (length (io_buff io))) (ring_slots r)" and "j < length (ring_slots r)"
  shows "\<exists>g' r' m' io'. recv_loop k bufs g r j m io = Some (g', r', (j + m') mod length (ring_slots r), m + m', io') \<and>
    same_slots r r' \<and> ring_avail r' = ring_avail r \<and> m' \<le> k \<and>
    (if \<exists>i < k. is_dns_query (pkt bufs r j i) = Some 0
     then 0 < m' \<and> is_dns_query (pkt bufs r j (m' - 1)) = Some 0 \<and>
       (\<forall>i < m' - 1. is_dns_query (pkt bufs r j i) \<noteq> Some 0) \<and>
       accept_query g (pkt bufs r j (m' - 1)) (pkt_len r j (m' - 1)) io = Some (g', io')
     else m' = k \<and> g' = g \<and> io' = io)"
  using assms
proof (induction k arbitrary: r j m)
  case 0
  then show ?case by (intro exI [of _ g] exI [of _ r] exI [of _ 0] exI [of _ io]) simp
next
  case (Suc k)
  let ?rs = "ring_slots r ! j" and ?N = "length (ring_slots r)"
  have N: "0 < ?N" using Suc.prems(2) by linarith
  have ok: "slot_ok bufs (length (io_buff io)) ?rs" using Suc.prems by (simp add: list_all_length)
  have p0: "pkt bufs r j 0 = bufs (buf_idx ?rs)" "pkt_len r j 0 = slot_len ?rs"
    using Suc.prems(2) by (simp_all add: pkt_def pkt_len_def)
  obtain v where v: "is_dns_query (bufs (buf_idx ?rs)) = Some v"
    using is_dns_query_total ok by (auto simp: slot_ok_def)
  show ?case
  proof (cases "v = 0")
    case True
    obtain g' io' where a: "accept_query g (bufs (buf_idx ?rs)) (slot_len ?rs) io = Some (g', io')"
      using accept_query_total [of "bufs (buf_idx ?rs)" "slot_len ?rs" io g] ok by (auto simp: slot_ok_def)
    have "recv_loop (Suc k) bufs g r j m io = Some (g', mark_slot r j, (j + 1) mod ?N, m + 1, io')"
      using Suc.prems(2) ok v True a by (simp add: slot_ok_def ring_next_mod)
    then show ?thesis
      using v True p0 a by (intro exI [of _ g'] exI [of _ "mark_slot r j"] exI [of _ 1] exI [of _ io'])
        (auto simp: mark_avail)
  next
    case False
    let ?r = "mark_slot r j" and ?j = "(j + 1) mod ?N"
    have same: "same_slots r ?r" by simp
    note len = same_slots_length [OF same]
    have run: "recv_loop (Suc k) bufs g r j m io = recv_loop k bufs g ?r ?j (m + 1) io"
      using Suc.prems(2) ok v False by (simp add: slot_ok_def ring_next_mod)
    have shift: "pkt bufs ?r ?j i = pkt bufs r j (Suc i)" "pkt_len ?r ?j i = pkt_len r j (Suc i)" for i
      using same_slots_pkt [OF same N] pkt_next [OF N] by simp_all
    have ex: "(\<exists>i < Suc k. is_dns_query (pkt bufs r j i) = Some 0) \<longleftrightarrow>
        (\<exists>i < k. is_dns_query (pkt bufs r j (Suc i)) = Some 0)"
      using v False p0 by (auto simp: less_Suc_eq_0_disj)
    obtain g' r' m' io' where ih: "recv_loop k bufs g ?r ?j (m + 1) io = Some (g', r', (?j + m') mod ?N, m + 1 + m', io')"
      "same_slots ?r r'" "ring_avail r' = ring_avail ?r" "m' \<le> k"
      "if \<exists>i < k. is_dns_query (pkt bufs r j (Suc i)) = Some 0
       then 0 < m' \<and> is_dns_query (pkt bufs r j (Suc (m' - 1))) = Some 0 \<and>
         (\<forall>i < m' - 1. is_dns_query (pkt bufs r j (Suc i)) \<noteq> Some 0) \<and>
         accept_query g (pkt bufs r j (Suc (m' - 1))) (pkt_len r j (Suc (m' - 1))) io = Some (g', io')
       else m' = k \<and> g' = g \<and> io' = io"
      using Suc.IH [OF same_slots_ok [OF same Suc.prems(1)], of ?j "m + 1", unfolded shift len, OF mod_less_divisor [OF N]]
      by (elim exE conjE) (rule that)
    show ?thesis
    proof (intro exI conjI)
      show "recv_loop (Suc k) bufs g r j m io = Some (g', r', (j + Suc m') mod ?N, m + Suc m', io')"
        using run ih(1) by (simp add: mod_simps)
      show "same_slots r r'" using same_slots_trans [OF same ih(2)] .
      show "ring_avail r' = ring_avail r" using ih(3) by (simp add: mark_slot_def)
      show "Suc m' \<le> Suc k" using ih(4) by simp
      show "if \<exists>i < Suc k. is_dns_query (pkt bufs r j i) = Some 0
       then 0 < Suc m' \<and> is_dns_query (pkt bufs r j (Suc m' - 1)) = Some 0 \<and>
         (\<forall>i < Suc m' - 1. is_dns_query (pkt bufs r j i) \<noteq> Some 0) \<and>
         accept_query g (pkt bufs r j (Suc m' - 1)) (pkt_len r j (Suc m' - 1)) io = Some (g', io')
       else Suc m' = Suc k \<and> g' = g \<and> io' = io"
      proof (cases "\<exists>i < k. is_dns_query (pkt bufs r j (Suc i)) = Some 0")
        case True
        note t = ih(5) [unfolded if_P [OF True]]
        obtain n where n: "m' = Suc n" using t by (auto simp: gr0_conv_Suc)
        have "\<forall>i < Suc n. is_dns_query (pkt bufs r j i) \<noteq> Some 0"
          unfolding all_less_Suc_conv_0 using t v False p0(1) n by simp
        then show ?thesis unfolding ex if_P [OF True] using t n by simp
      next
        case none: False
        show ?thesis unfolding ex if_not_P [OF none] using ih(5) [unfolded if_not_P [OF none]] by simp
      qed
    qed
  qed
qed

section \<open>Properties\<close>

text \<open>C12: Receiving on a ring looks at its packets in order, at most \<open>limit\<close> of them, and stops at the first
  DNS query: exactly the packets looked at are released, and the message of that query, if there
  is one, is delivered; otherwise nothing changes but the ring.\<close>

theorem process_recv_ring_spec:
  fixes limit :: nat
  assumes ok: "ring_ok r" and slots: "list_all (slot_ok bufs (length (io_buff io))) (ring_slots r)"
  defines "k \<equiv> min (ring_avail r) limit"
  shows "\<exists>g' r' m io'. process_recv_ring bufs g r limit io = Some (g', r', m, io') \<and> m \<le> k \<and>
    same_slots r r' \<and> ring_avail r' = ring_avail r - m \<and>
    ring_cur r' = (ring_cur r + m) mod length (ring_slots r) \<and> ring_ok r' \<and>
    (if \<exists>i < k. is_dns_query (pkt bufs r (ring_cur r) i) = Some 0
     then 0 < m \<and> is_dns_query (pkt bufs r (ring_cur r) (m - 1)) = Some 0 \<and>
       (\<forall>i < m - 1. is_dns_query (pkt bufs r (ring_cur r) i) \<noteq> Some 0) \<and>
       io_n io' = int (unat (pkt_len r (ring_cur r) (m - 1)) - 42) \<and>
       take (nat (io_n io')) (io_buff io') = take (nat (io_n io')) (drop 42 (pkt bufs r (ring_cur r) (m - 1)))
     else m = k \<and> g' = g \<and> io' = io)"
proof -
  let ?N = "length (ring_slots r)" and ?c = "ring_cur r"
  have c: "?c < ?N" using ok by (simp add: ring_ok_def)
  have kk: "(if ring_avail r < limit then ring_avail r else limit) = k" by (simp add: k_def min_def)
  obtain g' r1 m io' where run: "recv_loop k bufs g r ?c 0 io = Some (g', r1, (?c + m) mod ?N, 0 + m, io')"
    and same: "same_slots r r1" and av: "ring_avail r1 = ring_avail r" and m: "m \<le> k"
    and res: "if \<exists>i < k. is_dns_query (pkt bufs r ?c i) = Some 0
     then 0 < m \<and> is_dns_query (pkt bufs r ?c (m - 1)) = Some 0 \<and>
       (\<forall>i < m - 1. is_dns_query (pkt bufs r ?c i) \<noteq> Some 0) \<and>
       accept_query g (pkt bufs r ?c (m - 1)) (pkt_len r ?c (m - 1)) io = Some (g', io')
     else m = k \<and> g' = g \<and> io' = io"
    using recv_loop_spec [OF slots c, of k g 0] by (elim exE conjE) (rule that)
  let ?r' = "r1\<lparr>ring_avail := ring_avail r1 - m, ring_cur := (?c + m) mod ?N\<rparr>"
  have p: "process_recv_ring bufs g r limit io = Some (g', ?r', m, io')"
    using run kk by (simp add: process_recv_ring_def)
  have "slot_ok bufs (length (io_buff io)) (ring_slots r ! ((?c + (m - 1)) mod ?N))"
  proof -
    have "(?c + (m - 1)) mod ?N < ?N" by (rule mod_less_divisor) (use c in linarith)
    then show ?thesis using slots by (simp only: list_all_length)
  qed
  then have acc: "io_n io' = int (unat (pkt_len r ?c (m - 1)) - 42) \<and>
      take (nat (io_n io')) (io_buff io') = take (nat (io_n io')) (drop 42 (pkt bufs r ?c (m - 1)))"
    if "accept_query g (pkt bufs r ?c (m - 1)) (pkt_len r ?c (m - 1)) io = Some (g', io')"
    using accept_query_total [of "pkt bufs r ?c (m - 1)" "pkt_len r ?c (m - 1)" io g] that
    unfolding slot_ok_def pkt_def [symmetric] pkt_len_def [symmetric] by auto
  have "(?c + m) mod ?N < ?N" by (rule mod_less_divisor) (use c in linarith)
  then have "ring_ok ?r'" using ok same_slots_length [OF same] av by (auto simp: ring_ok_def)
  moreover have "same_slots r ?r'" using same by (simp add: same_slots_def)
  moreover have "if \<exists>i < k. is_dns_query (pkt bufs r ?c i) = Some 0
     then 0 < m \<and> is_dns_query (pkt bufs r ?c (m - 1)) = Some 0 \<and>
       (\<forall>i < m - 1. is_dns_query (pkt bufs r ?c i) \<noteq> Some 0) \<and>
       io_n io' = int (unat (pkt_len r ?c (m - 1)) - 42) \<and>
       take (nat (io_n io')) (io_buff io') = take (nat (io_n io')) (drop 42 (pkt bufs r ?c (m - 1)))
     else m = k \<and> g' = g \<and> io' = io" (is "if ?E then ?A else ?B")
  proof (cases ?E)
    case True
    show ?thesis unfolding if_P [OF True] using res [unfolded if_P [OF True]] acc by blast
  next
    case False
    show ?thesis unfolding if_not_P [OF False] using res [unfolded if_not_P [OF False]] .
  qed
  moreover have "ring_avail ?r' = ring_avail r - m" "ring_cur ?r' = (?c + m) mod ?N" using av by simp_all
  ultimately show ?thesis using p m by blast
qed

definition query_bytes :: bytes where
  "query_bytes = frame_bytes sample_frame @ [0, 7, 1, 0, 0, 1]"

definition sample_bufs :: "nat \<Rightarrow> bytes" where
  "sample_bufs i = (if i = 2 then query_bytes else replicate 60 0)"

definition sample_ring :: netmap_ring where
  "sample_ring = \<lparr>ring_avail = 2, ring_cur = 2, ring_slots =
     [\<lparr>buf_idx = 2, slot_len = 48, slot_flags = 0\<rparr>, \<lparr>buf_idx = 3, slot_len = 60, slot_flags = 0\<rparr>,
      \<lparr>buf_idx = 4, slot_len = 60, slot_flags = 0\<rparr>]\<rparr>"

definition empty_msg :: io_msg_s where
  "empty_msg = \<lparr>io_buff = replicate 512 0, io_n = 0, io_saddr = 0, io_daddr = 0, io_source = 0, io_dest = 0\<rparr>"

theorem process_recv_ring_spec_witness:
  "ring_ok sample_ring \<and> list_all (slot_ok sample_bufs 512) (ring_slots sample_ring) \<and>
   (\<exists>g' r' m io'. process_recv_ring sample_bufs nm_globals_init sample_ring 512 empty_msg = Some (g', r', m, io') \<and>
      m \<le> 2 \<and> ring_avail r' = 2 - m \<and> ring_ok r')"
proof -
  have ok: "ring_ok sample_ring" by (simp add: ring_ok_def sample_ring_def)
  have slots: "list_all (slot_ok sample_bufs 512) (ring_slots sample_ring)"
    by (simp add: sample_ring_def slot_ok_def sample_bufs_def query_bytes_def frame_defs sample_frame_def)
  have l: "length (io_buff empty_msg) = 512" "ring_avail sample_ring = 2" by (simp_all add: empty_msg_def sample_ring_def)
  obtain g' r' m io' where "process_recv_ring sample_bufs nm_globals_init sample_ring 512 empty_msg = Some (g', r', m, io')"
    "m \<le> min (ring_avail sample_ring) 512" "ring_avail r' = ring_avail sample_ring - m" "ring_ok r'"
    using process_recv_ring_spec [OF ok slots [folded l(1)], of nm_globals_init 512] by (elim exE conjE) (rule that)
  then show ?thesis using ok slots l(2) by auto
qed

lemma find_ring_none:
  "list_all (\<lambda>i. i < length rings \<and> ring_avail (rings ! i) = 0) is \<Longrightarrow> find_ring rings is = Some None"
  by (induction "is") auto

text \<open>When no transmit ring has room, \<open>doio_netmap_send\<close> sends nothing and still reports success for the
  whole request.\<close>

theorem netmap_send_full_is_lost:
  assumes "netmap_getring s fd = Some ring"
    and "list_all (\<lambda>i. i < length (ni_txrings (nm_ifs s (mr_nifp ring))) \<and>
      ring_avail (ni_txrings (nm_ifs s (mr_nifp ring)) ! i) = 0) [mr_begin ring..<mr_end ring]"
    and "dev_n dev \<le> length (dev_region dev)"
  shows "doio_netmap_send s fd dev = Some (DOIO_SUCCESS, s, dev\<lparr>dev_result := Some ISC_R_SUCCESS\<rparr>)"
  using assms(1,3) find_ring_none [OF assms(2)]
  by (simp add: doio_netmap_send_def netmap_send_def netmap_send_to_ring_def mem_read_def Let_def)

definition sample_netmap :: netmap where
  "sample_netmap = \<lparr>nm_g = nm_globals_init, nm_bufs = sample_bufs,
     nm_ifs = (\<lambda>_. \<lparr>ni_txrings = [sample_ring\<lparr>ring_avail := 0\<rparr>], ni_rxrings = [sample_ring]\<rparr>),
     g_storage = [empty_storage\<lparr>sto_fd := 5, sto_ring := (sto_ring empty_storage)\<lparr>mr_fd := 5, mr_end := 1\<rparr>\<rparr>],
     g_inited = True, g_fds_index = 0\<rparr>"

definition sample_event :: socketevent where
  "sample_event = \<lparr>dev_result = None, dev_minimum = 1, dev_n = 0, dev_region = [0, 7, 1, 0], dev_bufferlist = [],
     dev_port = 1, dev_addr = 1\<rparr>"

theorem netmap_send_full_is_lost_witness:
  "doio_netmap_send sample_netmap 5 sample_event =
     Some (DOIO_SUCCESS, sample_netmap, sample_event\<lparr>dev_result := Some ISC_R_SUCCESS\<rparr>)"
proof -
  let ?ring = "(sto_ring empty_storage)\<lparr>mr_fd := 5, mr_end := 1\<rparr>"
  have "netmap_getring sample_netmap 5 = Some ?ring"
    by (simp add: netmap_getring_def sample_netmap_def)
  then show ?thesis
    by (rule netmap_send_full_is_lost)
      (simp_all add: sample_netmap_def sample_event_def empty_storage_def)
qed

definition storage_ok :: "netmap \<Rightarrow> bool" where
  "storage_ok s \<longleftrightarrow> length (g_storage s) = NM_MAX_FDS \<and> - 1 \<le> g_fds_index s \<and>
     (\<not> g_inited s \<longrightarrow> g_storage s = replicate NM_MAX_FDS empty_storage) \<and>
     (\<forall>i < NM_MAX_FDS. g_fds_index s < int i \<longrightarrow> g_storage s ! i = empty_storage)"

lemma find_update:
  assumes "i < length xs" and "\<And>j. j < i \<Longrightarrow> \<not> P (xs ! j)" and "P x"
  shows "find P (xs[i := x]) = Some x"
  using assms
proof (induction xs arbitrary: i)
  case (Cons a xs)
  show ?case
  proof (cases i)
    case (Suc k)
    have "\<not> P a" using Cons.prems(2) [of 0] Suc by simp
    moreover have "find P (xs[k := x]) = Some x"
      using Cons.IH [of k] Cons.prems Suc by force
    ultimately show ?thesis using Suc by simp
  qed (use Cons.prems in simp)
qed simp

lemma find_update_other: "\<not> P (xs ! i) \<Longrightarrow> \<not> P x \<Longrightarrow> find P (xs[i := x]) = find P xs"
  by (induction xs arbitrary: i) (auto split: nat.splits)

lemma ioctl_fd [simp]: "mr_fd (snd (nm_do_ioctl kern me what)) = mr_fd me"
  by (auto simp: nm_do_ioctl_def Let_def split: prod.splits if_ioctl.splits)

lemma open_fd [simp]: "mr_fd (snd (netmap_open kern me ringid promisc)) = k_open kern"
  by (auto simp: netmap_open_def set_mode_def bind_rings_def Let_def split: prod.splits option.splits)

lemma getfd_run:
  fixes kern :: nm_kernel
  assumes ok: "storage_ok s" and room: "g_fds_index s < 31"
  defines "i \<equiv> nat (g_fds_index s + 1)" and "ring \<equiv> snd (netmap_open kern (sto_ring empty_storage) 0 False)"
  shows "netmap_getfd kern s ifname = Some (k_open kern, s\<lparr>g_inited := True, g_fds_index := g_fds_index s + 1,
      g_storage := (g_storage s)[i := \<lparr>sto_ring = ring, sto_ifname = take 31 ifname, sto_fd = k_open kern\<rparr>]\<rparr>)"
proof -
  have i: "i < NM_MAX_FDS" "int i = g_fds_index s + 1" using ok room by (auto simp: i_def storage_ok_def NM_MAX_FDS_def)
  then have e: "g_storage s ! i = empty_storage" using ok by (auto simp: storage_ok_def)
  have e2: "replicate NM_MAX_FDS empty_storage ! i = empty_storage" using i by simp
  show ?thesis
    using ok room e e2
    by (auto simp: netmap_getfd_def netmap_free_node_def netmap_init_def storage_ok_def NM_MAX_FDS_def Let_def
        i_def ring_def empty_storage_def)
qed

text \<open>A descriptor that \<open>netmap_getfd\<close> returns, and that no earlier entry of the table holds,
  leads back to the ring opened for it, and the other descriptors keep theirs.\<close>

theorem netmap_getfd_getring:
  assumes ok: "storage_ok s" and room: "g_fds_index s < 31"
    and fresh: "\<forall>i < NM_MAX_FDS. int i \<le> g_fds_index s \<longrightarrow> sto_fd (g_storage s ! i) \<noteq> k_open kern"
  shows "\<exists>s'. netmap_getfd kern s ifname = Some (k_open kern, s') \<and> storage_ok s' \<and>
    netmap_getring s' (k_open kern) = Some (snd (netmap_open kern (sto_ring empty_storage) 0 False)) \<and>
    (\<forall>fd. fd \<noteq> k_open kern \<and> fd \<noteq> 0 \<longrightarrow> netmap_getring s' fd = netmap_getring s fd)"
proof -
  let ?i = "nat (g_fds_index s + 1)" and ?ring = "snd (netmap_open kern (sto_ring empty_storage) 0 False)"
  let ?sto = "\<lparr>sto_ring = ?ring, sto_ifname = take 31 ifname, sto_fd = k_open kern\<rparr>"
  let ?s = "s\<lparr>g_inited := True, g_fds_index := g_fds_index s + 1, g_storage := (g_storage s)[?i := ?sto]\<rparr>"
  have i: "?i < NM_MAX_FDS" "int ?i = g_fds_index s + 1" and len: "length (g_storage s) = NM_MAX_FDS"
    using ok room by (auto simp: storage_ok_def NM_MAX_FDS_def)
  have "storage_ok ?s" using ok i unfolding storage_ok_def by (auto simp: nth_list_update split: if_splits)
  moreover have "netmap_getring ?s (k_open kern) = Some ?ring"
  proof -
    have "find (\<lambda>sto. sto_fd sto = k_open kern) ((g_storage s)[?i := ?sto]) = Some ?sto"
      by (rule find_update) (use i len fresh in auto)
    then show ?thesis by (simp add: netmap_getring_def)
  qed
  moreover have "netmap_getring ?s fd = netmap_getring s fd" if "fd \<noteq> k_open kern" "fd \<noteq> 0" for fd
  proof -
    have "g_storage s ! ?i = empty_storage" using ok i by (auto simp: storage_ok_def)
    then have "find (\<lambda>sto. sto_fd sto = fd) ((g_storage s)[?i := ?sto]) = find (\<lambda>sto. sto_fd sto = fd) (g_storage s)"
      by (intro find_update_other) (use that in \<open>simp_all add: empty_storage_def\<close>)
    then show ?thesis by (simp add: netmap_getring_def)
  qed
  ultimately show ?thesis using getfd_run [OF ok room, of kern ifname] by blast
qed

definition sample_kernel :: nm_kernel where
  "sample_kernel = \<lparr>k_open = 7, k_ginfo = (22, \<lparr>nr_offset = 0, nr_memsize = 4096, nr_tx_rings = 1, nr_rx_rings = 1\<rparr>),
     k_regif = (0, \<lparr>nr_offset = 0, nr_memsize = 4096, nr_tx_rings = 1, nr_rx_rings = 1\<rparr>), k_mmap = Some 4096,
     k_socket = 3, k_ioctl = (\<lambda>_ f. (0, f))\<rparr>"

definition fresh_netmap :: netmap where
  "fresh_netmap = sample_netmap\<lparr>g_storage := replicate NM_MAX_FDS empty_storage, g_inited := False,
     g_fds_index := - 1\<rparr>"

lemma fresh_netmap_ok: "storage_ok fresh_netmap" "g_fds_index fresh_netmap = - 1"
  by (simp_all add: storage_ok_def fresh_netmap_def)

theorem netmap_getfd_getring_witness:
  "\<exists>s'. netmap_getfd sample_kernel fresh_netmap ''eth0'' = Some (7, s') \<and>
     netmap_getring s' 7 = Some (snd (netmap_open sample_kernel (sto_ring empty_storage) 0 False))"
  using netmap_getfd_getring [OF fresh_netmap_ok(1), of sample_kernel "''eth0''"] fresh_netmap_ok(2)
  by (auto simp: sample_kernel_def)

text \<open>When \<open>netmap_open\<close> fails after the device was opened, it closes the descriptor and returns -1, but
  \<open>netmap_getfd\<close> does not look at that result: it returns the closed descriptor.\<close>

theorem netmap_getfd_returns_closed:
  assumes ok: "storage_ok s" and room: "g_fds_index s < 31"
    and fail: "fst (k_ginfo kern) \<noteq> 0 \<or> fst (k_regif kern) \<noteq> 0 \<or> k_mmap kern = None"
  shows "fst (netmap_open kern (sto_ring empty_storage) 0 False) = - 1 \<and>
    (\<exists>s'. netmap_getfd kern s ifname = Some (k_open kern, s'))"
proof -
  have "fst (netmap_open kern (sto_ring empty_storage) 0 False) = - 1"
    using fail by (auto simp: netmap_open_def empty_storage_def Let_def split: prod.splits option.splits)
  then show ?thesis using getfd_run [OF ok room, of kern ifname] by blast
qed

theorem netmap_getfd_returns_closed_witness:
  "fst (netmap_open sample_kernel (sto_ring empty_storage) 0 False) = - 1 \<and>
    (\<exists>s'. netmap_getfd sample_kernel fresh_netmap ''eth0'' = Some (7, s'))"
  using netmap_getfd_returns_closed [OF fresh_netmap_ok(1), of sample_kernel "''eth0''"] fresh_netmap_ok(2)
  by (auto simp: sample_kernel_def)

end
