(* ===== verification/Lwres_Buffer.thy ===== *)
theory Lwres_Buffer
  imports Wire_Channel
begin

text \<open>
  The buffer of the lightweight resolver library (\<open>lib/lwres/lwbuffer.c\<close>), the macros of
  \<open>lib/lwres/include/lwres/lwbuffer.h\<close> and \<open>lib/lwres/assert_p.h\<close>, and the result codes of
  \<open>lib/lwres/include/lwres/result.h\<close>. As for \<open>isc_buffer\<close>, the memory is a list of bytes and the
  pointers are 32-bit offsets into it.

  \<open>writes\<close> and \<open>reads\<close> are the vocabulary in which the codecs of the library are verified: what a
  computation appends to the buffer, and what it takes from it.
\<close>

section \<open>The buffer and its operations\<close>

datatype lwres_result =
    LWRES_R_SUCCESS | LWRES_R_NOMEMORY | LWRES_R_TIMEOUT | LWRES_R_NOTFOUND | LWRES_R_UNEXPECTEDEND
  | LWRES_R_FAILURE | LWRES_R_IOERROR | LWRES_R_NOTIMPLEMENTED | LWRES_R_UNEXPECTED
  | LWRES_R_TRAILINGDATA | LWRES_R_INCOMPLETE | LWRES_R_RETRY | LWRES_R_TYPENOTFOUND | LWRES_R_TOOLARGE

record lwres_buffer =
  l_magic :: u32
  l_base :: bytes
  l_length :: u32
  l_used :: u32
  l_current :: u32
  l_active :: u32

definition LWRES_BUFFER_MAGIC :: u32 where
  "LWRES_BUFFER_MAGIC = 0x4275663f"

definition LWRES_BUFFER_VALID :: "lwres_buffer \<Rightarrow> bool" where
  "LWRES_BUFFER_VALID b = (l_magic b = LWRES_BUFFER_MAGIC)"

definition LWRES_BUFFER_USEDCOUNT :: "lwres_buffer \<Rightarrow> u32" where
  "LWRES_BUFFER_USEDCOUNT b = l_used b"

definition LWRES_BUFFER_AVAILABLECOUNT :: "lwres_buffer \<Rightarrow> u32" where
  "LWRES_BUFFER_AVAILABLECOUNT b = l_length b - l_used b"

definition LWRES_BUFFER_REMAINING :: "lwres_buffer \<Rightarrow> u32" where
  "LWRES_BUFFER_REMAINING b = l_used b - l_current b"

definition SPACE_OK :: "lwres_buffer \<Rightarrow> nat \<Rightarrow> bool" where
  "SPACE_OK b s = (unat (LWRES_BUFFER_AVAILABLECOUNT b) \<ge> s)"

definition SPACE_REMAINING :: "lwres_buffer \<Rightarrow> nat \<Rightarrow> bool" where
  "SPACE_REMAINING b s = (unat (LWRES_BUFFER_REMAINING b) \<ge> s)"

definition lwres_buffer_init :: "bytes \<Rightarrow> u32 \<Rightarrow> lwres_buffer" where
  "lwres_buffer_init base len = \<lparr>l_magic = LWRES_BUFFER_MAGIC, l_base = base, l_length = len,
     l_used = 0, l_current = 0, l_active = 0\<rparr>"

definition lwres_buffer_invalidate :: "lwres_buffer \<Rightarrow> lwres_buffer option" where
  "lwres_buffer_invalidate b = do {
     REQUIRE (LWRES_BUFFER_VALID b);
     Some \<lparr>l_magic = 0, l_base = [], l_length = 0, l_used = 0, l_current = 0, l_active = 0\<rparr> }"

definition lwres_buffer_add :: "lwres_buffer \<Rightarrow> u32 \<Rightarrow> lwres_buffer option" where
  "lwres_buffer_add b n = do {
     REQUIRE (LWRES_BUFFER_VALID b);
     REQUIRE (l_used b + n \<le> l_length b);
     Some (b\<lparr>l_used := l_used b + n\<rparr>) }"

definition lwres_buffer_subtract :: "lwres_buffer \<Rightarrow> u32 \<Rightarrow> lwres_buffer option" where
  "lwres_buffer_subtract b n = do {
     REQUIRE (LWRES_BUFFER_VALID b);
     REQUIRE (l_used b \<ge> n);
     let u = l_used b - n in
     Some (b\<lparr>l_used := u,
             l_current := (if l_current b > u then u else l_current b),
             l_active := (if l_active b > u then u else l_active b)\<rparr>) }"

definition lwres_buffer_clear :: "lwres_buffer \<Rightarrow> lwres_buffer option" where
  "lwres_buffer_clear b = do {
     REQUIRE (LWRES_BUFFER_VALID b);
     Some (b\<lparr>l_used := 0, l_current := 0, l_active := 0\<rparr>) }"

definition lwres_buffer_first :: "lwres_buffer \<Rightarrow> lwres_buffer option" where
  "lwres_buffer_first b = do {
     REQUIRE (LWRES_BUFFER_VALID b);
     Some (b\<lparr>l_current := 0\<rparr>) }"

definition lwres_buffer_forward :: "lwres_buffer \<Rightarrow> u32 \<Rightarrow> lwres_buffer option" where
  "lwres_buffer_forward b n = do {
     REQUIRE (LWRES_BUFFER_VALID b);
     REQUIRE (l_current b + n \<le> l_used b);
     Some (b\<lparr>l_current := l_current b + n\<rparr>) }"

definition lwres_buffer_back :: "lwres_buffer \<Rightarrow> u32 \<Rightarrow> lwres_buffer option" where
  "lwres_buffer_back b n = do {
     REQUIRE (LWRES_BUFFER_VALID b);
     REQUIRE (n \<le> l_current b);
     Some (b\<lparr>l_current := l_current b - n\<rparr>) }"

text \<open>\<open>lwres_buffer_getmem\<close> also is the common part of the loads: the guard on the remaining length,
  the read at \<open>current\<close> and the advance; \<open>lwres_buffer_putmem\<close> that of the stores.\<close>

definition lwres_buffer_getmem :: "lwres_buffer \<Rightarrow> u32 \<Rightarrow> (bytes \<times> lwres_buffer) option" where
  "lwres_buffer_getmem b len = do {
     REQUIRE (LWRES_BUFFER_VALID b);
     REQUIRE (l_used b - l_current b \<ge> len);
     cp \<leftarrow> mem_read (l_base b) (unat (l_current b)) (unat len);
     Some (cp, b\<lparr>l_current := l_current b + len\<rparr>) }"

definition lwres_buffer_putmem :: "lwres_buffer \<Rightarrow> bytes \<Rightarrow> lwres_buffer option" where
  "lwres_buffer_putmem b base = do {
     let len = of_nat (length base) in do {
     REQUIRE (LWRES_BUFFER_VALID b);
     REQUIRE (l_used b + len \<le> l_length b);
     m \<leftarrow> mem_write (l_base b) (unat (l_used b)) base;
     Some (b\<lparr>l_base := m, l_used := l_used b + len\<rparr>) } }"

definition lwres_buffer_getuint8 :: "lwres_buffer \<Rightarrow> (u8 \<times> lwres_buffer) option" where
  "lwres_buffer_getuint8 b = do {
     (cp, b) \<leftarrow> lwres_buffer_getmem b 1;
     Some (cp ! 0, b) }"

definition lwres_buffer_putuint8 :: "lwres_buffer \<Rightarrow> u8 \<Rightarrow> lwres_buffer option" where
  "lwres_buffer_putuint8 b val = lwres_buffer_putmem b [val AND 0x00ff]"

definition lwres_buffer_getuint16 :: "lwres_buffer \<Rightarrow> (u16 \<times> lwres_buffer) option" where
  "lwres_buffer_getuint16 b = do {
     (cp, b) \<leftarrow> lwres_buffer_getmem b 2;
     Some (push_bit 8 (ucast (cp ! 0)) OR ucast (cp ! 1), b) }"

definition lwres_buffer_putuint16 :: "lwres_buffer \<Rightarrow> u16 \<Rightarrow> lwres_buffer option" where
  "lwres_buffer_putuint16 b val =
     lwres_buffer_putmem b [ucast (drop_bit 8 (val AND 0xff00)), ucast (val AND 0x00ff)]"

definition lwres_buffer_getuint32 :: "lwres_buffer \<Rightarrow> (u32 \<times> lwres_buffer) option" where
  "lwres_buffer_getuint32 b = do {
     (cp, b) \<leftarrow> lwres_buffer_getmem b 4;
     Some (push_bit 24 (ucast (cp ! 0)) OR push_bit 16 (ucast (cp ! 1)) OR
           push_bit 8 (ucast (cp ! 2)) OR ucast (cp ! 3), b) }"

definition lwres_buffer_putuint32 :: "lwres_buffer \<Rightarrow> u32 \<Rightarrow> lwres_buffer option" where
  "lwres_buffer_putuint32 b val =
     lwres_buffer_putmem b [ucast (drop_bit 24 (val AND 0xff000000)), ucast (drop_bit 16 (val AND 0x00ff0000)),
       ucast (drop_bit 8 (val AND 0x0000ff00)), ucast (val AND 0x000000ff)]"

section \<open>Invariant and abstraction\<close>

definition lw_wf :: "lwres_buffer \<Rightarrow> bool" where
  "lw_wf b \<longleftrightarrow> LWRES_BUFFER_VALID b \<and> length (l_base b) = unat (l_length b) \<and>
     unat (l_used b) \<le> unat (l_length b) \<and> unat (l_current b) \<le> unat (l_used b) \<and>
     unat (l_active b) \<le> unat (l_used b)"

definition lw_content :: "lwres_buffer \<Rightarrow> bytes" where
  "lw_content b = take (unat (l_used b)) (l_base b)"

definition lw_pending :: "lwres_buffer \<Rightarrow> bytes" where
  "lw_pending b = drop (unat (l_current b)) (lw_content b)"

definition lw_room :: "lwres_buffer \<Rightarrow> nat" where
  "lw_room b = unat (l_length b) - unat (l_used b)"

lemmas lw_abs_defs = lw_content_def lw_pending_def lw_room_def

lemma length_lw_content: "lw_wf b \<Longrightarrow> length (lw_content b) = unat (l_used b)"
  by (simp add: lw_wf_def lw_content_def)

lemma length_lw_pending: "lw_wf b \<Longrightarrow> length (lw_pending b) = unat (l_used b) - unat (l_current b)"
  by (simp add: lw_pending_def length_lw_content)

lemma lw_spaces [simp]:
  assumes "lw_wf b"
  shows "SPACE_OK b s \<longleftrightarrow> s \<le> lw_room b" and "SPACE_REMAINING b s \<longleftrightarrow> s \<le> length (lw_pending b)"
    and "unat (LWRES_BUFFER_REMAINING b) = length (lw_pending b)"
    and "unat (LWRES_BUFFER_AVAILABLECOUNT b) = lw_room b"
  using assms
  by (simp_all add: SPACE_OK_def SPACE_REMAINING_def LWRES_BUFFER_AVAILABLECOUNT_def LWRES_BUFFER_REMAINING_def
      unat_minus_le length_lw_pending lw_room_def lw_wf_def)

lemma lw_init_wf:
  assumes "length base < 2 ^ 32"
  shows "lw_wf (lwres_buffer_init base (of_nat (length base)))"
    and "lw_room (lwres_buffer_init base (of_nat (length base))) = length base"
    and "lw_content (lwres_buffer_init base n) = []" and "l_current (lwres_buffer_init base n) = 0"
    and "l_length (lwres_buffer_init base n) = n" and "l_used (lwres_buffer_init base n) = 0"
  using assms
  by (simp_all add: lwres_buffer_init_def lw_wf_def LWRES_BUFFER_VALID_def lw_room_def lw_content_def unat_of_nat_small)

section \<open>What is written\<close>

definition writes :: "lwres_buffer \<Rightarrow> bytes \<Rightarrow> lwres_buffer option \<Rightarrow> bool" where
  "writes b xs r \<longleftrightarrow> (\<exists>b'. r = Some b' \<and> lw_wf b' \<and> lw_room b = length xs + lw_room b' \<and>
     lw_content b' = lw_content b @ xs \<and> l_current b' = l_current b \<and> l_length b' = l_length b)"

lemma writes_putmem:
  assumes wf: "lw_wf b" and room: "length xs \<le> lw_room b"
  shows "writes b xs (lwres_buffer_putmem b xs)"
proof -
  have lt: "unat (l_used b) + length xs < 2 ^ 32"
    using assms unat_u32_less [of "l_length b"] by (auto simp: lw_room_def lw_wf_def)
  note u = unat_plus_of_nat [OF lt]
  have le: "unat (l_used b) + length xs \<le> length (l_base b)" "unat (l_used b) + length xs \<le> unat (l_length b)"
    using assms by (auto simp: lw_wf_def lw_room_def)
  have "l_used b + of_nat (length xs) \<le> l_length b" using u le(2) by (simp add: word_le_nat_alt)
  then have put: "lwres_buffer_putmem b xs = Some (b\<lparr>l_base := take (unat (l_used b)) (l_base b) @ xs @
      drop (unat (l_used b) + length xs) (l_base b), l_used := l_used b + of_nat (length xs)\<rparr>)"
    using wf le(1) by (simp add: lwres_buffer_putmem_def mem_write_Some lw_wf_def)
  show ?thesis
    unfolding writes_def put
    using wf le u by (auto simp: lw_wf_def LWRES_BUFFER_VALID_def lw_content_def lw_room_def)
qed

lemma writes_put:
  "lw_wf b \<Longrightarrow> 1 \<le> lw_room b \<Longrightarrow> writes b [v] (lwres_buffer_putuint8 b v)"
  "lw_wf b \<Longrightarrow> 2 \<le> lw_room b \<Longrightarrow> writes b (be16 w) (lwres_buffer_putuint16 b w)"
  "lw_wf b \<Longrightarrow> 4 \<le> lw_room b \<Longrightarrow> writes b (be32 x) (lwres_buffer_putuint32 b x)"
proof -
  have "v AND 0xff = v"
    using take_bit_word_eq_self [of 8 v] by (simp add: take_bit_eq_mask mask_eq_exp_minus_1)
  then show "lw_wf b \<Longrightarrow> 1 \<le> lw_room b \<Longrightarrow> writes b [v] (lwres_buffer_putuint8 b v)"
    using writes_putmem [of b "[v]"] by (simp add: lwres_buffer_putuint8_def)
  show "lw_wf b \<Longrightarrow> 2 \<le> lw_room b \<Longrightarrow> writes b (be16 w) (lwres_buffer_putuint16 b w)"
    using writes_putmem [of b "be16 w"] unfolding lwres_buffer_putuint16_def be16_def by simp
  show "lw_wf b \<Longrightarrow> 4 \<le> lw_room b \<Longrightarrow> writes b (be32 x) (lwres_buffer_putuint32 b x)"
    using writes_putmem [of b "be32 x"] unfolding lwres_buffer_putuint32_def be32_def by simp
qed

lemma writes_return: "lw_wf b \<Longrightarrow> writes b [] (Some b)"
  by (simp add: writes_def)

lemma writes_bind:
  assumes "writes b xs m" and "\<And>b'. lw_wf b' \<Longrightarrow> lw_room b = length xs + lw_room b' \<Longrightarrow> writes b' ys (f b')"
  shows "writes b (xs @ ys) (Option.bind m f)"
proof -
  obtain b1 where b1: "m = Some b1" "lw_wf b1" "lw_room b = length xs + lw_room b1"
      "lw_content b1 = lw_content b @ xs" "l_current b1 = l_current b" "l_length b1 = l_length b"
    using assms(1) by (auto simp: writes_def)
  obtain b2 where "f b1 = Some b2" "lw_wf b2" "lw_room b1 = length ys + lw_room b2"
      "lw_content b2 = lw_content b1 @ ys" "l_current b2 = l_current b1" "l_length b2 = l_length b1"
    using assms(2) [OF b1(2,3)] by (auto simp: writes_def)
  then show ?thesis using b1 by (auto simp: writes_def)
qed

section \<open>What is read\<close>

definition reads :: "'v \<Rightarrow> bytes \<Rightarrow> ('v \<times> lwres_buffer) option \<Rightarrow> bool" where
  "reads v rest r \<longleftrightarrow> (\<exists>b'. r = Some (v, b') \<and> lw_wf b' \<and> lw_pending b' = rest)"

lemma reads_getmem:
  assumes wf: "lw_wf b" and len: "unat len \<le> length (lw_pending b)"
  shows "reads (take (unat len) (lw_pending b)) (drop (unat len) (lw_pending b)) (lwres_buffer_getmem b len)"
proof -
  have sum: "unat (l_current b) + unat len \<le> unat (l_used b)"
    using len wf length_lw_pending [OF wf] by (auto simp: lw_wf_def)
  then have c: "unat (l_current b + len) = unat (l_current b) + unat len"
    using unat_u32_less [of "l_used b"] by (intro unat_plus_small) simp
  have g: "len \<le> l_used b - l_current b"
    using sum by (simp add: word_le_nat_alt unat_minus_le)
  have "take (unat len) (drop (unat (l_current b)) (l_base b)) = take (unat len) (lw_pending b)"
    using sum by (simp add: lw_pending_def lw_content_def drop_take min_def)
  then have "lwres_buffer_getmem b len =
      Some (take (unat len) (lw_pending b), b\<lparr>l_current := l_current b + len\<rparr>)"
    using g sum wf by (simp add: lwres_buffer_getmem_def mem_read_def lw_wf_def)
  then show ?thesis
    using sum wf c
    by (auto simp: reads_def lw_wf_def lw_abs_defs LWRES_BUFFER_VALID_def add.commute)
qed

lemma be_parts:
  obtains (two) a b where "be16 w = [a, b]" "of_be16 a b = w"
proof -
  show thesis by (rule two [OF be16_def of_be16_be16])
qed

lemma be_parts4:
  obtains (four) a b c d where "be32 x = [a, b, c, d]" "of_be32 a b c d = x"
proof -
  show thesis by (rule four [OF be32_def of_be32_be32])
qed

lemma reads_get:
  "lw_wf b \<Longrightarrow> lw_pending b = v # rest \<Longrightarrow> reads v rest (lwres_buffer_getuint8 b)"
  "lw_wf b \<Longrightarrow> lw_pending b = be16 w @ rest \<Longrightarrow> reads w rest (lwres_buffer_getuint16 b)"
  "lw_wf b \<Longrightarrow> lw_pending b = be32 x @ rest \<Longrightarrow> reads x rest (lwres_buffer_getuint32 b)"
proof -
  show "lw_wf b \<Longrightarrow> lw_pending b = v # rest \<Longrightarrow> reads v rest (lwres_buffer_getuint8 b)"
    using reads_getmem [of b 1] by (auto simp: reads_def lwres_buffer_getuint8_def)
  show "reads w rest (lwres_buffer_getuint16 b)" if "lw_wf b" "lw_pending b = be16 w @ rest"
  proof (rule be_parts [of w])
    fix p q assume "be16 w = [p, q]" "of_be16 p q = w"
    then show ?thesis
      using reads_getmem [of b 2] that
      by (auto simp: reads_def lwres_buffer_getuint16_def of_be16_def [symmetric])
  qed
  show "reads x rest (lwres_buffer_getuint32 b)" if "lw_wf b" "lw_pending b = be32 x @ rest"
  proof (rule be_parts4 [of x])
    fix p q r s assume "be32 x = [p, q, r, s]" "of_be32 p q r s = x"
    then show ?thesis
      using reads_getmem [of b 4] that
      by (auto simp: reads_def lwres_buffer_getuint32_def of_be32_def [symmetric])
  qed
qed

lemma reads_forward:
  assumes wf: "lw_wf b" and len: "unat len \<le> length (lw_pending b)"
  shows "\<exists>b'. lwres_buffer_forward b len = Some b' \<and> lw_wf b' \<and> lw_pending b' = drop (unat len) (lw_pending b) \<and>
    mem_read (l_base b) (unat (l_current b)) (unat len) = Some (take (unat len) (lw_pending b))"
proof -
  have sum: "unat (l_current b) + unat len \<le> unat (l_used b)"
    using len wf length_lw_pending [OF wf] by (auto simp: lw_wf_def)
  then have c: "unat (l_current b + len) = unat (l_current b) + unat len"
    using unat_u32_less [of "l_used b"] by (intro unat_plus_small) simp
  then have "lwres_buffer_forward b len = Some (b\<lparr>l_current := l_current b + len\<rparr>)"
    using sum wf by (simp add: lwres_buffer_forward_def lw_wf_def word_le_nat_alt)
  then show ?thesis
    using sum wf c
    by (auto simp: lw_wf_def lw_abs_defs LWRES_BUFFER_VALID_def add.commute mem_read_def drop_take min_def)
qed

section \<open>The buffer is a wire channel\<close>

lemma writes_pending:
  assumes "writes b xs r" and "lw_wf b"
  shows "\<exists>b'. r = Some b' \<and> lw_wf b' \<and> lw_room b' = lw_room b - length xs \<and> lw_pending b' = lw_pending b @ xs"
  using assms length_lw_content [OF assms(2)] by (auto simp: writes_def lw_pending_def lw_wf_def)

lemma reads_room:
  "lwres_buffer_getmem b len = Some (xs, b') \<Longrightarrow> lw_room b' = lw_room b"
  by (auto simp: lwres_buffer_getmem_def run_simps lw_room_def elim!: bind_SomeE)

lemma reads_get_room:
  "lwres_buffer_getuint8 b = Some (v, b') \<Longrightarrow> lw_room b' = lw_room b"
  "lwres_buffer_getuint16 b = Some (w, b') \<Longrightarrow> lw_room b' = lw_room b"
  "lwres_buffer_getuint32 b = Some (x, b') \<Longrightarrow> lw_room b' = lw_room b"
  by (auto simp: lwres_buffer_getuint8_def lwres_buffer_getuint16_def lwres_buffer_getuint32_def
      dest: reads_room elim!: bind_SomeE)

interpretation lwres_channel: wire_channel lw_wf lw_room lw_pending
    lwres_buffer_putuint8 lwres_buffer_putuint16 lwres_buffer_putuint32
    lwres_buffer_getuint8 lwres_buffer_getuint16 lwres_buffer_getuint32
  using writes_pending [OF writes_put(1)] writes_pending [OF writes_put(2)] writes_pending [OF writes_put(3)]
    reads_get reads_get_room
  by unfold_locales (fastforce simp: reads_def)+

end
