(* ===== verification/Lwres_Packet.thy ===== *)
theory Lwres_Packet
  imports Lwres_Buffer
begin

text \<open>
  The packet header of the lightweight resolver protocol (\<open>lib/lwres/lwpacket.c\<close>) and the parsers of
  its elements (\<open>lwres_data_parse\<close>, \<open>lwres_string_parse\<close> and \<open>lwres_addr_parse\<close> of
  \<open>lib/lwres/lwresutil.c\<close>).

  A parser returns the error or the parsed value, with the buffer after it: a pointer into the
  buffer is represented by the bytes it designates.
\<close>

section \<open>Headers\<close>

record lwres_lwpacket =
  lp_length :: u32
  lp_version :: u16
  lp_pktflags :: u16
  lp_serial :: u32
  lp_opcode :: u32
  lp_result :: u32
  lp_recvlength :: u32
  lp_authtype :: u16
  lp_authlength :: u16

definition LWPACKET_LENGTH :: nat where
  "LWPACKET_LENGTH = 2 * 4 + 4 * 5"

definition LWRES_LWPACKETFLAG_RESPONSE :: u16 where
  "LWRES_LWPACKETFLAG_RESPONSE = 0x0001"

definition LWRES_LWPACKETVERSION_0 :: u16 where
  "LWRES_LWPACKETVERSION_0 = 0"

definition put_header :: "lwres_buffer \<Rightarrow> lwres_lwpacket \<Rightarrow> lwres_buffer option" where
  "put_header b pkt = do {
     b \<leftarrow> lwres_buffer_putuint32 b (lp_length pkt);
     b \<leftarrow> lwres_buffer_putuint16 b (lp_version pkt);
     b \<leftarrow> lwres_buffer_putuint16 b (lp_pktflags pkt);
     b \<leftarrow> lwres_buffer_putuint32 b (lp_serial pkt);
     b \<leftarrow> lwres_buffer_putuint32 b (lp_opcode pkt);
     b \<leftarrow> lwres_buffer_putuint32 b (lp_result pkt);
     b \<leftarrow> lwres_buffer_putuint32 b (lp_recvlength pkt);
     b \<leftarrow> lwres_buffer_putuint16 b (lp_authtype pkt);
     lwres_buffer_putuint16 b (lp_authlength pkt) }"

definition lwres_lwpacket_renderheader ::
    "lwres_buffer \<Rightarrow> lwres_lwpacket \<Rightarrow> (lwres_result \<times> lwres_buffer) option" where
  "lwres_lwpacket_renderheader b pkt =
     (if \<not> SPACE_OK b LWPACKET_LENGTH then Some (LWRES_R_UNEXPECTEDEND, b)
      else do {
        b \<leftarrow> put_header b pkt;
        Some (LWRES_R_SUCCESS, b) })"

text \<open>On an error \<open>pkt\<close> may be filled in partly; the callers do not use it then.\<close>

definition lwres_lwpacket_parseheader ::
    "lwres_buffer \<Rightarrow> ((lwres_result + lwres_lwpacket) \<times> lwres_buffer) option" where
  "lwres_lwpacket_parseheader b =
     (let space = LWRES_BUFFER_REMAINING b
      in if unat space < LWPACKET_LENGTH then Some (Inl LWRES_R_UNEXPECTEDEND, b)
      else do {
        (len, b) \<leftarrow> lwres_buffer_getuint32 b;
        if len > space then Some (Inl LWRES_R_UNEXPECTEDEND, b)
        else do {
          (version, b) \<leftarrow> lwres_buffer_getuint16 b;
          (pktflags, b) \<leftarrow> lwres_buffer_getuint16 b;
          (serial, b) \<leftarrow> lwres_buffer_getuint32 b;
          (opcode, b) \<leftarrow> lwres_buffer_getuint32 b;
          (result, b) \<leftarrow> lwres_buffer_getuint32 b;
          (recvlength, b) \<leftarrow> lwres_buffer_getuint32 b;
          (authtype, b) \<leftarrow> lwres_buffer_getuint16 b;
          (authlength, b) \<leftarrow> lwres_buffer_getuint16 b;
          Some (Inr \<lparr>lp_length = len, lp_version = version, lp_pktflags = pktflags, lp_serial = serial,
            lp_opcode = opcode, lp_result = result, lp_recvlength = recvlength, lp_authtype = authtype,
            lp_authlength = authlength\<rparr>, b) } })"

section \<open>Elements\<close>

definition lwres_data_parse :: "lwres_buffer \<Rightarrow> ((lwres_result + u16 \<times> bytes) \<times> lwres_buffer) option" where
  "lwres_data_parse b =
     (if \<not> SPACE_REMAINING b 2 then Some (Inl LWRES_R_UNEXPECTEDEND, b)
      else do {
        (datalen, b) \<leftarrow> lwres_buffer_getuint16 b;
        if \<not> SPACE_REMAINING b (unat datalen) then Some (Inl LWRES_R_UNEXPECTEDEND, b)
        else do {
          data \<leftarrow> mem_read (l_base b) (unat (l_current b)) (unat datalen);
          b \<leftarrow> lwres_buffer_forward b (ucast datalen);
          Some (Inr (datalen, data), b) } })"

definition lwres_string_parse :: "lwres_buffer \<Rightarrow> ((lwres_result + u16 \<times> bytes) \<times> lwres_buffer) option" where
  "lwres_string_parse b =
     (if \<not> SPACE_REMAINING b 2 then Some (Inl LWRES_R_UNEXPECTEDEND, b)
      else do {
        (datalen, b) \<leftarrow> lwres_buffer_getuint16 b;
        if \<not> SPACE_REMAINING b (unat datalen) then Some (Inl LWRES_R_UNEXPECTEDEND, b)
        else do {
          str \<leftarrow> mem_read (l_base b) (unat (l_current b)) (unat datalen);
          b \<leftarrow> lwres_buffer_forward b (ucast datalen);
          if \<not> SPACE_REMAINING b 1 then Some (Inl LWRES_R_UNEXPECTEDEND, b)
          else do {
            (z, b) \<leftarrow> lwres_buffer_getuint8 b;
            if 0 \<noteq> z then Some (Inl LWRES_R_FAILURE, b)
            else Some (Inr (datalen, str), b) } } })"

definition LWRES_ADDR_MAXLEN :: nat where
  "LWRES_ADDR_MAXLEN = 16"

record lwres_addr =
  la_family :: u32
  la_length :: u16
  la_address :: bytes

text \<open>\<open>addr\<close> is the structure to be filled: its address field has \<open>LWRES_ADDR_MAXLEN\<close> bytes, of which the
  first \<open>la_length\<close> are overwritten.\<close>

definition lwres_addr_parse ::
    "lwres_buffer \<Rightarrow> lwres_addr \<Rightarrow> ((lwres_result + lwres_addr) \<times> lwres_buffer) option" where
  "lwres_addr_parse b addr =
     (if \<not> SPACE_REMAINING b 6 then Some (Inl LWRES_R_UNEXPECTEDEND, b)
      else do {
        (family, b) \<leftarrow> lwres_buffer_getuint32 b;
        (len, b) \<leftarrow> lwres_buffer_getuint16 b;
        if \<not> SPACE_REMAINING b (unat len) then Some (Inl LWRES_R_UNEXPECTEDEND, b)
        else if unat len > LWRES_ADDR_MAXLEN then Some (Inl LWRES_R_FAILURE, b)
        else do {
          (data, b) \<leftarrow> lwres_buffer_getmem b (ucast len);
          address \<leftarrow> mem_write (la_address addr) 0 data;
          Some (Inr \<lparr>la_family = family, la_length = len, la_address = address\<rparr>, b) } })"

section \<open>Round trips\<close>

text \<open>The network representation of a header and of the elements.\<close>

definition header_image :: "lwres_lwpacket \<Rightarrow> bytes" where
  "header_image p = be32 (lp_length p) @ be16 (lp_version p) @ be16 (lp_pktflags p) @ be32 (lp_serial p) @
     be32 (lp_opcode p) @ be32 (lp_result p) @ be32 (lp_recvlength p) @ be16 (lp_authtype p) @
     be16 (lp_authlength p)"

definition data_image :: "u16 \<Rightarrow> bytes \<Rightarrow> bytes" where
  "data_image len xs = be16 len @ xs"

definition string_image :: "u16 \<Rightarrow> bytes \<Rightarrow> bytes" where
  "string_image len xs = be16 len @ xs @ [0]"

definition addr_image :: "lwres_addr \<Rightarrow> bytes" where
  "addr_image a = be32 (la_family a) @ be16 (la_length a) @ take (unat (la_length a)) (la_address a)"

lemma length_images [simp]:
  "length (header_image p) = 28" "length (data_image len xs) = 2 + length xs"
  "length (string_image len xs) = 3 + length xs"
  by (simp_all add: header_image_def data_image_def string_image_def)

lemma unat_ucast_u16 [simp]: "unat (ucast (w::u16) :: u32) = unat w"
  using unsigned_less [of w, where 'a = nat] by (simp add: unsigned_ucast_eq take_bit_nat_eq_self)

text \<open>Any bytes parse as numbers.\<close>

lemma two_bytes:
  assumes "2 \<le> length xs"
  shows "\<exists>w rest. xs = be16 w @ rest \<and> length xs = 2 + length rest"
proof -
  obtain a b rest where "xs = a # b # rest"
    using assms by (auto simp: numeral_2_eq_2 Suc_le_length_iff)
  then show ?thesis using be16_of_be16 [of a b]
    by (intro exI [of _ "of_be16 a b"] exI [of _ rest]) simp
qed

lemma four_bytes:
  assumes "4 \<le> length xs"
  shows "\<exists>x rest. xs = be32 x @ rest \<and> length xs = 4 + length rest"
proof -
  obtain a b c d rest where "xs = a # b # c # d # rest"
    using assms by (auto simp: eval_nat_numeral Suc_le_length_iff)
  then show ?thesis using be32_of_be32 [of a b c d]
    by (intro exI [of _ "of_be32 a b c d"] exI [of _ rest]) simp
qed

lemma renderheader_ok:
  assumes "lw_wf b" and "28 \<le> lw_room b"
  shows "\<exists>b'. lwres_lwpacket_renderheader b p = Some (LWRES_R_SUCCESS, b') \<and> writes b (header_image p) (Some b')"
proof -
  have w: "writes b (header_image p) (put_header b p)"
    unfolding header_image_def put_header_def by (intro writes_bind writes_put) (use assms in simp_all)
  then show ?thesis
    using assms by (auto simp: lwres_lwpacket_renderheader_def LWPACKET_LENGTH_def writes_def)
qed

lemma reads_bind:
  assumes "reads v rest m" and "\<And>b'. lw_wf b' \<Longrightarrow> lw_pending b' = rest \<Longrightarrow> reads w rest' (f (v, b'))"
  shows "reads w rest' (Option.bind m f)"
  using assms by (auto simp: reads_def)

lemma reads_return: "lw_wf b \<Longrightarrow> lw_pending b = rest \<Longrightarrow> reads v rest (Some (v, b))"
  by (simp add: reads_def)

lemmas reads_steps =
  reads_bind [OF reads_get(1)] reads_bind [OF reads_get(2)] reads_bind [OF reads_get(3)]

lemma parseheader_ok:
  assumes "lw_wf b" and "lw_pending b = header_image p @ rest" and "unat (lp_length p) \<le> 28 + length rest"
  shows "reads (Inr p) rest (lwres_lwpacket_parseheader b)"
proof -
  have s: "unat (LWRES_BUFFER_REMAINING b) = 28 + length rest" using assms by simp
  have c: "\<not> unat (LWRES_BUFFER_REMAINING b) < LWPACKET_LENGTH" "\<not> LWRES_BUFFER_REMAINING b < lp_length p"
    using assms(3) s by (simp_all add: LWPACKET_LENGTH_def word_less_nat_alt not_less)
  show ?thesis
    unfolding lwres_lwpacket_parseheader_def Let_def if_not_P [OF c(1)]
    using assms(1,2) unfolding header_image_def append_assoc
    apply -
    apply (erule (1) reads_steps, simp only: prod.case if_not_P [OF c(2)])+
    apply (simp add: reads_def)
    done
qed

lemma reads_region:
  assumes wf: "lw_wf b" and p: "lw_pending b = xs @ ys" and n: "unat (len::u16) = length xs"
    and cont: "\<And>b'. lw_wf b' \<Longrightarrow> lw_pending b' = ys \<Longrightarrow> reads w rest (f xs b')"
  shows "reads w rest (do { d \<leftarrow> mem_read (l_base b) (unat (l_current b)) (length xs);
     b \<leftarrow> lwres_buffer_forward b (ucast len); f d b })"
proof -
  obtain b' where "lwres_buffer_forward b (ucast len) = Some b'" "lw_wf b'" "lw_pending b' = ys"
      "mem_read (l_base b) (unat (l_current b)) (unat len) = Some xs"
    using reads_forward [OF wf, of "ucast len"] p n by auto
  then show ?thesis using cont n by simp
qed

lemma data_parse_ok:
  assumes "lw_wf b" and "lw_pending b = data_image len xs @ rest" and "unat len = length xs"
  shows "reads (Inr (len, xs)) rest (lwres_data_parse b)"
proof -
  have "SPACE_REMAINING b 2" using assms by simp
  then show ?thesis
    unfolding lwres_data_parse_def
    using assms(1,2) unfolding data_image_def append_assoc
    apply simp
    apply (erule (1) reads_steps)
    apply (simp add: assms(3))
    apply (rule reads_region [of _ xs rest], simp_all add: assms(3) reads_return)
    done
qed

lemma string_parse_ok:
  assumes "lw_wf b" and "lw_pending b = string_image len xs @ rest" and "unat len = length xs"
  shows "reads (Inr (len, xs)) rest (lwres_string_parse b)"
proof -
  have "SPACE_REMAINING b 2" using assms by simp
  then show ?thesis
    unfolding lwres_string_parse_def
    using assms(1,2) unfolding string_image_def append_assoc
    apply simp
    apply (erule (1) reads_steps)
    apply (simp add: assms(3))
    apply (rule reads_region [of _ xs "0 # rest"], simp_all add: assms(3))
    apply (erule (1) reads_steps)
    apply (simp add: reads_return)
    done
qed

lemma addr_parse_ok:
  assumes "lw_wf b" and "lw_pending b = addr_image a @ rest" and "unat (la_length a) \<le> length (la_address a)"
    and "unat (la_length a) \<le> 16" and "length (la_address a0) = 16"
  shows "reads (Inr (a\<lparr>la_address := take (unat (la_length a)) (la_address a) @ drop (unat (la_length a)) (la_address a0)\<rparr>))
    rest (lwres_addr_parse b a0)"
proof -
  let ?d = "take (unat (la_length a)) (la_address a)"
  have d: "length ?d = unat (la_length a)" using assms(3) by simp
  have m: "\<not> 16 < unat (la_length a)" using assms(4) by simp
  have sp: "SPACE_REMAINING b 6" using assms by (simp add: addr_image_def)
  have g: "reads ?d rest (lwres_buffer_getmem b' (ucast (la_length a)))"
    if "lw_wf b'" "lw_pending b' = ?d @ rest" for b'
    using reads_getmem [of b' "ucast (la_length a)"] that d by simp
  show ?thesis
    unfolding lwres_addr_parse_def
    using assms(1,2) sp unfolding addr_image_def append_assoc
    apply simp
    apply (erule (1) reads_steps, simp only: prod.case)
    apply (erule (1) reads_steps, simp only: prod.case)
    apply (simp add: d LWRES_ADDR_MAXLEN_def assms(3) m)
    apply (rule reads_bind, rule g, assumption+)
    apply (use assms in \<open>simp add: mem_write_def reads_def min_def\<close>)
    done
qed

section \<open>Parsers return on every input\<close>

definition returns :: "(('e + 'v) \<times> lwres_buffer) option \<Rightarrow> bool" where
  "returns r \<longleftrightarrow> (\<exists>x b'. r = Some (x, b') \<and> lw_wf b')"

lemma total_return: "lw_wf b \<Longrightarrow> returns (Some (x, b))"
  by (simp add: returns_def)

lemma total_get:
  "lw_wf b \<Longrightarrow> 1 \<le> length (lw_pending b) \<Longrightarrow>
    (\<And>v b'. lw_wf b' \<Longrightarrow> length (lw_pending b) = 1 + length (lw_pending b') \<Longrightarrow> returns (f (v, b'))) \<Longrightarrow>
    returns (lwres_buffer_getuint8 b \<bind> f)"
  "lw_wf b \<Longrightarrow> 2 \<le> length (lw_pending b) \<Longrightarrow>
    (\<And>w b'. lw_wf b' \<Longrightarrow> length (lw_pending b) = 2 + length (lw_pending b') \<Longrightarrow> returns (f2 (w, b'))) \<Longrightarrow>
    returns (lwres_buffer_getuint16 b \<bind> f2)"
  "lw_wf b \<Longrightarrow> 4 \<le> length (lw_pending b) \<Longrightarrow>
    (\<And>x b'. lw_wf b' \<Longrightarrow> length (lw_pending b) = 4 + length (lw_pending b') \<Longrightarrow> returns (f4 (x, b'))) \<Longrightarrow>
    returns (lwres_buffer_getuint32 b \<bind> f4)"
proof goal_cases
  case 1
  then obtain v rest where "lw_pending b = v # rest" by (cases "lw_pending b") auto
  then show ?case using reads_get(1) [of b v rest] 1 by (auto simp: reads_def)
next
  case 2
  then obtain w rest where "lw_pending b = be16 w @ rest" using two_bytes by blast
  then show ?case using reads_get(2) [of b w rest] 2 by (auto simp: reads_def)
next
  case 3
  then obtain x rest where "lw_pending b = be32 x @ rest" using four_bytes by blast
  then show ?case using reads_get(3) [of b x rest] 3 by (auto simp: reads_def)
qed

lemma total_region:
  assumes "lw_wf b" and "unat (len::u16) \<le> length (lw_pending b)"
    and "\<And>d b'. lw_wf b' \<Longrightarrow> returns (f d b')"
  shows "returns (do { d \<leftarrow> mem_read (l_base b) (unat (l_current b)) (unat len);
     b \<leftarrow> lwres_buffer_forward b (ucast len); f d b })"
  using reads_forward [OF assms(1), of "ucast len"] assms(2,3) by auto

lemma total_bind:
  assumes "returns m" and "\<And>x b'. lw_wf b' \<Longrightarrow> returns (f (x, b'))"
  shows "returns (m \<bind> f)"
  using assms by (auto simp: returns_def)

lemma data_parse_total: "lw_wf b \<Longrightarrow> returns (lwres_data_parse b)"
  by (auto simp: lwres_data_parse_def total_return intro!: total_get total_region)

lemma string_parse_total: "lw_wf b \<Longrightarrow> returns (lwres_string_parse b)"
  by (auto simp: lwres_string_parse_def total_return intro!: total_get total_region)

lemma total_getmem:
  assumes "lw_wf b" and "unat len \<le> length (lw_pending b)"
    and "\<And>d b'. lw_wf b' \<Longrightarrow> length d = unat len \<Longrightarrow> returns (f (d, b'))"
  shows "returns (lwres_buffer_getmem b len \<bind> f)"
  using reads_getmem [OF assms(1,2)] assms(2,3) by (auto simp: reads_def)

lemma addr_parse_total:
  assumes "lw_wf b" and "length (la_address a0) = 16"
  shows "returns (lwres_addr_parse b a0)"
  using assms
  by (auto simp: lwres_addr_parse_def total_return LWRES_ADDR_MAXLEN_def mem_write_def not_less
      intro!: total_get total_getmem)

lemma parseheader_total: "lw_wf b \<Longrightarrow> returns (lwres_lwpacket_parseheader b)"
  by (auto simp: lwres_lwpacket_parseheader_def Let_def LWPACKET_LENGTH_def not_less total_return intro!: total_get)

end
