(* ===== verification/Lwres_Messages.thy ===== *)
theory Lwres_Messages
  imports Lwres_Packet
begin

text \<open>
  The messages of the lightweight resolver protocol: rendering and parsing of the requests and
  responses of \<open>lib/lwres/lwres_noop.c\<close>, \<open>lwres_gabn.c\<close> (addresses by name), \<open>lwres_gnba.c\<close> (name by
  address) and \<open>lwres_grbn.c\<close> (resource data by name).

  \<open>malloc n\<close> is what \<open>CTXMALLOC(n)\<close> returns for the packet: \<open>None\<close>, or memory of \<open>n\<close> bytes. The parsers
  allocate structures and tables: \<open>alloc i\<close> is whether their \<open>i\<close>-th allocation succeeds. The
  structures are returned by value, without the fields \<open>base\<close> and \<open>baselen\<close>, which only the
  deallocation uses.
\<close>

section \<open>Rendering\<close>

text \<open>The part all render functions share: the packet, its header, the checks before and after the payload.\<close>

definition request_packet :: "u32 \<Rightarrow> u32 \<Rightarrow> lwres_lwpacket \<Rightarrow> lwres_lwpacket" where
  "request_packet opcode len pkt = pkt\<lparr>lp_length := len, lp_version := LWRES_LWPACKETVERSION_0,
     lp_pktflags := lp_pktflags pkt AND NOT LWRES_LWPACKETFLAG_RESPONSE, lp_opcode := opcode, lp_result := 0,
     lp_authtype := 0, lp_authlength := 0\<rparr>"

definition response_packet :: "u32 \<Rightarrow> u32 \<Rightarrow> lwres_lwpacket \<Rightarrow> lwres_lwpacket" where
  "response_packet opcode len pkt = pkt\<lparr>lp_length := len, lp_version := LWRES_LWPACKETVERSION_0,
     lp_pktflags := lp_pktflags pkt OR LWRES_LWPACKETFLAG_RESPONSE, lp_opcode := opcode,
     lp_authtype := 0, lp_authlength := 0\<rparr>"

definition render_message ::
    "(nat \<Rightarrow> bytes option) \<Rightarrow> (u32 \<Rightarrow> lwres_lwpacket \<Rightarrow> lwres_lwpacket) \<Rightarrow> lwres_lwpacket \<Rightarrow> nat \<Rightarrow>
     (lwres_buffer \<Rightarrow> lwres_buffer option) \<Rightarrow> (lwres_result \<times> lwres_lwpacket \<times> lwres_buffer option) option" where
  "render_message malloc mkpkt pkt payload_length put =
     (let buflen = LWPACKET_LENGTH + payload_length
      in case malloc buflen of
           None \<Rightarrow> Some (LWRES_R_NOMEMORY, pkt, None)
         | Some buf \<Rightarrow>
             (let b = lwres_buffer_init buf (of_nat buflen);
                  pkt = mkpkt (of_nat buflen) pkt
              in do {
                (ret, b) \<leftarrow> lwres_lwpacket_renderheader b pkt;
                if ret \<noteq> LWRES_R_SUCCESS then do {
                  b \<leftarrow> lwres_buffer_invalidate b;
                  Some (ret, pkt, Some b) }
                else do {
                  REQUIRE (SPACE_OK b payload_length);
                  b \<leftarrow> put b;
                  REQUIRE (LWRES_BUFFER_AVAILABLECOUNT b = 0);
                  Some (LWRES_R_SUCCESS, pkt, Some b) } }))"

text \<open>The last check of the two renderers whose packets may be large.\<close>

definition check_length ::
    "(lwres_result \<times> lwres_lwpacket \<times> lwres_buffer option) option \<Rightarrow>
     (lwres_result \<times> lwres_lwpacket \<times> lwres_buffer option) option" where
  "check_length r = do {
     (ret, pkt, b) \<leftarrow> r;
     case b of
       Some b' \<Rightarrow> do { REQUIRE (ret = LWRES_R_SUCCESS \<longrightarrow> LWRES_BUFFER_USEDCOUNT b' = lp_length pkt); Some (ret, pkt, b) }
     | None \<Rightarrow> Some (ret, pkt, b) }"

definition put_data :: "lwres_buffer \<Rightarrow> u16 \<times> bytes \<Rightarrow> lwres_buffer option" where
  "put_data b d = do {
     b \<leftarrow> lwres_buffer_putuint16 b (fst d);
     src \<leftarrow> mem_read (snd d) 0 (unat (fst d));
     lwres_buffer_putmem b src }"

definition put_string :: "lwres_buffer \<Rightarrow> u16 \<times> bytes \<Rightarrow> lwres_buffer option" where
  "put_string b d = do {
     b \<leftarrow> put_data b d;
     lwres_buffer_putuint8 b 0 }"

definition put_addr :: "lwres_buffer \<Rightarrow> lwres_addr \<Rightarrow> lwres_buffer option" where
  "put_addr b a = do {
     b \<leftarrow> lwres_buffer_putuint32 b (la_family a);
     put_data b (la_length a, la_address a) }"

fun put_all :: "(lwres_buffer \<Rightarrow> 'x \<Rightarrow> lwres_buffer option) \<Rightarrow> lwres_buffer \<Rightarrow> 'x list \<Rightarrow> lwres_buffer option" where
  "put_all put b [] = Some b"
| "put_all put b (x # xs) = do { b \<leftarrow> put b x; put_all put b xs }"

text \<open>The first \<open>n\<close> entries of a table of lengths and a table of pointers.\<close>

definition table :: "u16 list \<Rightarrow> bytes list \<Rightarrow> u16 \<Rightarrow> (u16 \<times> bytes) list option" where
  "table lens ptrs n = do {
     l \<leftarrow> mem_read lens 0 (unat n);
     p \<leftarrow> mem_read ptrs 0 (unat n);
     Some (zip l p) }"

text \<open>A C string is given by its bytes up to the terminating NUL.\<close>

definition strlen :: "bytes \<Rightarrow> nat" where
  "strlen s = length (takeWhile (\<lambda>c. c \<noteq> 0) s)"

section \<open>Parsing\<close>

fun parse_many :: "(nat \<Rightarrow> lwres_buffer \<Rightarrow> ((lwres_result + 'x) \<times> lwres_buffer) option) \<Rightarrow> nat \<Rightarrow> nat \<Rightarrow>
    lwres_buffer \<Rightarrow> ((lwres_result + 'x list) \<times> lwres_buffer) option" where
  "parse_many p x 0 b = Some (Inr [], b)"
| "parse_many p x (Suc n) b = do {
     (r, b) \<leftarrow> p x b;
     case r of
       Inl ret \<Rightarrow> Some (Inl ret, b)
     | Inr v \<Rightarrow> do {
         (r, b) \<leftarrow> parse_many p (Suc x) n b;
         case r of Inl ret \<Rightarrow> Some (Inl ret, b) | Inr vs \<Rightarrow> Some (Inr (v # vs), b) } }"

section \<open>No operation\<close>

definition LWRES_OPCODE_NOOP :: u32 where "LWRES_OPCODE_NOOP = 0x00000000"
definition LWRES_OPCODE_GETADDRSBYNAME :: u32 where "LWRES_OPCODE_GETADDRSBYNAME = 0x00010001"
definition LWRES_OPCODE_GETNAMEBYADDR :: u32 where "LWRES_OPCODE_GETNAMEBYADDR = 0x00010002"
definition LWRES_OPCODE_GETRDATABYNAME :: u32 where "LWRES_OPCODE_GETRDATABYNAME = 0x00010003"

record lwres_noop =
  np_datalength :: u16
  np_data :: bytes

definition lwres_nooprequest_render where
  "lwres_nooprequest_render malloc req pkt =
     render_message malloc (request_packet LWRES_OPCODE_NOOP) pkt (2 + unat (np_datalength req))
       (\<lambda>b. put_data b (np_datalength req, np_data req))"

definition lwres_noopresponse_render where
  "lwres_noopresponse_render malloc req pkt =
     render_message malloc (response_packet LWRES_OPCODE_NOOP) pkt (2 + unat (np_datalength req))
       (\<lambda>b. put_data b (np_datalength req, np_data req))"

text \<open>The body of the two parsers after the check of the packet flags; the code of
  \<open>lwres_data_parse\<close> is repeated in it.\<close>

definition parse_noop :: "(nat \<Rightarrow> bool) \<Rightarrow> lwres_buffer \<Rightarrow> ((lwres_result + lwres_noop) \<times> lwres_buffer) option" where
  "parse_noop alloc b =
     (if \<not> alloc 0 then Some (Inl LWRES_R_NOMEMORY, b)
      else do {
        (r, b) \<leftarrow> lwres_data_parse b;
        case r of
          Inl ret \<Rightarrow> Some (Inl ret, b)
        | Inr (len, d) \<Rightarrow>
            if LWRES_BUFFER_REMAINING b \<noteq> 0 then Some (Inl LWRES_R_TRAILINGDATA, b)
            else Some (Inr \<lparr>np_datalength = len, np_data = d\<rparr>, b) })"

definition lwres_nooprequest_parse where
  "lwres_nooprequest_parse alloc b pkt =
     (if lp_pktflags pkt AND LWRES_LWPACKETFLAG_RESPONSE \<noteq> 0 then Some (Inl LWRES_R_FAILURE, b)
      else parse_noop alloc b)"

definition lwres_noopresponse_parse where
  "lwres_noopresponse_parse alloc b pkt =
     (if lp_pktflags pkt AND LWRES_LWPACKETFLAG_RESPONSE = 0 then Some (Inl LWRES_R_FAILURE, b)
      else parse_noop alloc b)"

section \<open>Addresses by name\<close>

record lwres_gabnrequest =
  gq_flags :: u32
  gq_addrtypes :: u32
  gq_namelen :: u16
  gq_name :: bytes

record lwres_gabnresponse =
  gr_flags :: u32
  gr_naliases :: u16
  gr_naddrs :: u16
  gr_realname :: bytes
  gr_aliases :: "bytes list"
  gr_realnamelen :: u16
  gr_aliaslen :: "u16 list"
  gr_addrs :: "lwres_addr list"

definition put_gabnrequest where
  "put_gabnrequest req datalen b = do {
     b \<leftarrow> lwres_buffer_putuint32 b (gq_flags req);
     b \<leftarrow> lwres_buffer_putuint32 b (gq_addrtypes req);
     put_string b (datalen, gq_name req) }"

definition lwres_gabnrequest_render where
  "lwres_gabnrequest_render malloc req pkt =
     (let datalen = of_nat (strlen (gq_name req)) :: u16
      in render_message malloc (request_packet LWRES_OPCODE_GETADDRSBYNAME) pkt
           (4 + 4 + 2 + unat (gq_namelen req) + 1)
           (put_gabnrequest req datalen))"

definition put_gabnresponse where
  "put_gabnresponse req aliases b = do {
     b \<leftarrow> lwres_buffer_putuint32 b (gr_flags req);
     b \<leftarrow> lwres_buffer_putuint16 b (gr_naliases req);
     b \<leftarrow> lwres_buffer_putuint16 b (gr_naddrs req);
     b \<leftarrow> put_string b (gr_realnamelen req, gr_realname req);
     b \<leftarrow> put_all put_string b aliases;
     put_all put_addr b (gr_addrs req) }"

definition lwres_gabnresponse_render where
  "lwres_gabnresponse_render malloc req pkt = do {
     aliases \<leftarrow> table (gr_aliaslen req) (gr_aliases req) (gr_naliases req);
     REQUIRE (length (gr_addrs req) = unat (gr_naddrs req));
     let payload_length = 4 + 2 + 2 + (2 + unat (gr_realnamelen req) + 1) +
           (\<Sum>a \<leftarrow> aliases. 2 + unat (fst a) + 1) + (\<Sum>a \<leftarrow> gr_addrs req. 4 + 2 + unat (la_length a)) in
     check_length (render_message malloc (response_packet LWRES_OPCODE_GETADDRSBYNAME) pkt payload_length
       (put_gabnresponse req aliases)) }"

definition lwres_gabnrequest_parse where
  "lwres_gabnrequest_parse alloc b pkt =
     (if lp_pktflags pkt AND LWRES_LWPACKETFLAG_RESPONSE \<noteq> 0 then Some (Inl LWRES_R_FAILURE, b)
      else if \<not> SPACE_REMAINING b (4 + 4) then Some (Inl LWRES_R_UNEXPECTEDEND, b)
      else do {
        (flags, b) \<leftarrow> lwres_buffer_getuint32 b;
        (addrtypes, b) \<leftarrow> lwres_buffer_getuint32 b;
        (r, b) \<leftarrow> lwres_string_parse b;
        case r of
          Inl ret \<Rightarrow> Some (Inl ret, b)
        | Inr (namelen, name) \<Rightarrow>
            if LWRES_BUFFER_REMAINING b \<noteq> 0 then Some (Inl LWRES_R_TRAILINGDATA, b)
            else if \<not> alloc (0::nat) then Some (Inl LWRES_R_NOMEMORY, b)
            else Some (Inr \<lparr>gq_flags = flags, gq_addrtypes = addrtypes, gq_namelen = namelen, gq_name = name\<rparr>, b) })"

text \<open>\<open>newaddr x\<close> is the memory of the \<open>x\<close>-th address structure before it is filled in. Allocation 0 is
  the response, 1 and 2 the tables of aliases, the others the address structures.\<close>

definition lwres_gabnresponse_parse where
  "lwres_gabnresponse_parse alloc newaddr b pkt =
     (if lp_pktflags pkt AND LWRES_LWPACKETFLAG_RESPONSE = 0 then Some (Inl LWRES_R_FAILURE, b)
      else if \<not> SPACE_REMAINING b (4 + 2 + 2) then Some (Inl LWRES_R_UNEXPECTEDEND, b)
      else do {
        (flags, b) \<leftarrow> lwres_buffer_getuint32 b;
        (naliases, b) \<leftarrow> lwres_buffer_getuint16 b;
        (naddrs, b) \<leftarrow> lwres_buffer_getuint16 b;
        if \<not> alloc 0 \<or> (naliases > 0 \<and> (\<not> alloc 1 \<or> \<not> alloc 2)) \<or>
           (\<exists>x \<in> set [0..<unat naddrs]. \<not> alloc (3 + x)) then Some (Inl LWRES_R_NOMEMORY, b)
        else do {
          (r, b) \<leftarrow> lwres_string_parse b;
          case r of
            Inl ret \<Rightarrow> Some (Inl ret, b)
          | Inr (realnamelen, realname) \<Rightarrow> do {
              (r, b) \<leftarrow> parse_many (\<lambda>x. lwres_string_parse) 0 (unat naliases) b;
              case r of
                Inl ret \<Rightarrow> Some (Inl ret, b)
              | Inr aliases \<Rightarrow> do {
                  (r, b) \<leftarrow> parse_many (\<lambda>x b. lwres_addr_parse b (newaddr x)) 0 (unat naddrs) b;
                  case r of
                    Inl ret \<Rightarrow> Some (Inl ret, b)
                  | Inr addrs \<Rightarrow>
                      if LWRES_BUFFER_REMAINING b \<noteq> 0 then Some (Inl LWRES_R_TRAILINGDATA, b)
                      else Some (Inr \<lparr>gr_flags = flags, gr_naliases = naliases, gr_naddrs = naddrs,
                        gr_realname = realname, gr_aliases = map snd aliases, gr_realnamelen = realnamelen,
                        gr_aliaslen = map fst aliases, gr_addrs = addrs\<rparr>, b) } } } })"

section \<open>Name by address\<close>

record lwres_gnbarequest =
  nq_flags :: u32
  nq_addr :: lwres_addr

record lwres_gnbaresponse =
  nr_flags :: u32
  nr_naliases :: u16
  nr_realname :: bytes
  nr_aliases :: "bytes list"
  nr_realnamelen :: u16
  nr_aliaslen :: "u16 list"

definition put_gnbarequest where
  "put_gnbarequest req b = do {
     b \<leftarrow> lwres_buffer_putuint32 b (nq_flags req);
     put_addr b (nq_addr req) }"

definition lwres_gnbarequest_render where
  "lwres_gnbarequest_render malloc req pkt = do {
     REQUIRE (la_family (nq_addr req) \<noteq> 0);
     REQUIRE (la_length (nq_addr req) \<noteq> 0);
     render_message malloc (request_packet LWRES_OPCODE_GETNAMEBYADDR) pkt
       (4 + 4 + 2 + unat (la_length (nq_addr req)))
       (put_gnbarequest req) }"

definition put_gnbaresponse where
  "put_gnbaresponse req aliases b = do {
     b \<leftarrow> lwres_buffer_putuint32 b (nr_flags req);
     b \<leftarrow> lwres_buffer_putuint16 b (nr_naliases req);
     b \<leftarrow> put_string b (nr_realnamelen req, nr_realname req);
     put_all put_string b aliases }"

definition lwres_gnbaresponse_render where
  "lwres_gnbaresponse_render malloc req pkt = do {
     aliases \<leftarrow> table (nr_aliaslen req) (nr_aliases req) (nr_naliases req);
     let payload_length = 4 + 2 + (2 + unat (nr_realnamelen req) + 1) + (\<Sum>a \<leftarrow> aliases. 2 + unat (fst a) + 1) in
     render_message malloc (response_packet LWRES_OPCODE_GETNAMEBYADDR) pkt payload_length
       (put_gnbaresponse req aliases) }"

definition lwres_gnbarequest_parse where
  "lwres_gnbarequest_parse alloc newaddr b pkt =
     (if lp_pktflags pkt AND LWRES_LWPACKETFLAG_RESPONSE \<noteq> 0 then Some (Inl LWRES_R_FAILURE, b)
      else if \<not> SPACE_REMAINING b 4 then Some (Inl LWRES_R_UNEXPECTEDEND, b)
      else if \<not> alloc (0::nat) then Some (Inl LWRES_R_NOMEMORY, b)
      else do {
        (flags, b) \<leftarrow> lwres_buffer_getuint32 b;
        (r, b) \<leftarrow> lwres_addr_parse b newaddr;
        case r of
          Inl ret \<Rightarrow> Some (Inl ret, b)
        | Inr addr \<Rightarrow>
            if LWRES_BUFFER_REMAINING b \<noteq> 0 then Some (Inl LWRES_R_TRAILINGDATA, b)
            else Some (Inr \<lparr>nq_flags = flags, nq_addr = addr\<rparr>, b) })"

definition lwres_gnbaresponse_parse where
  "lwres_gnbaresponse_parse alloc b pkt =
     (if lp_pktflags pkt AND LWRES_LWPACKETFLAG_RESPONSE = 0 then Some (Inl LWRES_R_FAILURE, b)
      else if \<not> SPACE_REMAINING b (4 + 2) then Some (Inl LWRES_R_UNEXPECTEDEND, b)
      else do {
        (flags, b) \<leftarrow> lwres_buffer_getuint32 b;
        (naliases, b) \<leftarrow> lwres_buffer_getuint16 b;
        if \<not> alloc (0::nat) \<or> (naliases > 0 \<and> (\<not> alloc 1 \<or> \<not> alloc 2)) then Some (Inl LWRES_R_NOMEMORY, b)
        else do {
          (r, b) \<leftarrow> lwres_string_parse b;
          case r of
            Inl ret \<Rightarrow> Some (Inl ret, b)
          | Inr (realnamelen, realname) \<Rightarrow> do {
              (r, b) \<leftarrow> parse_many (\<lambda>x. lwres_string_parse) 0 (unat naliases) b;
              case r of
                Inl ret \<Rightarrow> Some (Inl ret, b)
              | Inr aliases \<Rightarrow>
                  if LWRES_BUFFER_REMAINING b \<noteq> 0 then Some (Inl LWRES_R_TRAILINGDATA, b)
                  else Some (Inr \<lparr>nr_flags = flags, nr_naliases = naliases, nr_realname = realname,
                    nr_aliases = map snd aliases, nr_realnamelen = realnamelen,
                    nr_aliaslen = map fst aliases\<rparr>, b) } } })"

section \<open>Resource data by name\<close>

record lwres_grbnrequest =
  rq_flags :: u32
  rq_rdclass :: u16
  rq_rdtype :: u16
  rq_namelen :: u16
  rq_name :: bytes

record lwres_grbnresponse =
  rr_flags :: u32
  rr_rdclass :: u16
  rr_rdtype :: u16
  rr_ttl :: u32
  rr_nrdatas :: u16
  rr_nsigs :: u16
  rr_realname :: bytes
  rr_realnamelen :: u16
  rr_rdatas :: "bytes list"
  rr_rdatalen :: "u16 list"
  rr_sigs :: "bytes list"
  rr_siglen :: "u16 list"

definition put_grbnrequest where
  "put_grbnrequest req datalen b = do {
     b \<leftarrow> lwres_buffer_putuint32 b (rq_flags req);
     b \<leftarrow> lwres_buffer_putuint16 b (rq_rdclass req);
     b \<leftarrow> lwres_buffer_putuint16 b (rq_rdtype req);
     put_string b (datalen, rq_name req) }"

definition lwres_grbnrequest_render where
  "lwres_grbnrequest_render malloc req pkt =
     (let datalen = of_nat (strlen (rq_name req)) :: u16
      in render_message malloc (request_packet LWRES_OPCODE_GETRDATABYNAME) pkt
           (4 + 2 + 2 + 2 + unat (rq_namelen req) + 1)
           (put_grbnrequest req datalen))"

definition put_grbnresponse where
  "put_grbnresponse req rdatas sigs b = do {
     b \<leftarrow> lwres_buffer_putuint32 b (rr_flags req);
     b \<leftarrow> lwres_buffer_putuint16 b (rr_rdclass req);
     b \<leftarrow> lwres_buffer_putuint16 b (rr_rdtype req);
     b \<leftarrow> lwres_buffer_putuint32 b (rr_ttl req);
     b \<leftarrow> lwres_buffer_putuint16 b (rr_nrdatas req);
     b \<leftarrow> lwres_buffer_putuint16 b (rr_nsigs req);
     b \<leftarrow> put_string b (rr_realnamelen req, rr_realname req);
     b \<leftarrow> put_all put_data b rdatas;
     put_all put_data b sigs }"

definition lwres_grbnresponse_render where
  "lwres_grbnresponse_render malloc req pkt = do {
     rdatas \<leftarrow> table (rr_rdatalen req) (rr_rdatas req) (rr_nrdatas req);
     sigs \<leftarrow> table (rr_siglen req) (rr_sigs req) (rr_nsigs req);
     let payload_length = 4 + 2 + 2 + 4 + 2 + 2 + (2 + unat (rr_realnamelen req) + 1) +
           (\<Sum>a \<leftarrow> rdatas. 2 + unat (fst a)) + (\<Sum>a \<leftarrow> sigs. 2 + unat (fst a)) in
     check_length (render_message malloc (response_packet LWRES_OPCODE_GETRDATABYNAME) pkt payload_length
       (put_grbnresponse req rdatas sigs)) }"

definition lwres_grbnrequest_parse where
  "lwres_grbnrequest_parse alloc b pkt =
     (if lp_pktflags pkt AND LWRES_LWPACKETFLAG_RESPONSE \<noteq> 0 then Some (Inl LWRES_R_FAILURE, b)
      else if \<not> SPACE_REMAINING b (4 + 2 + 2) then Some (Inl LWRES_R_UNEXPECTEDEND, b)
      else do {
        (flags, b) \<leftarrow> lwres_buffer_getuint32 b;
        (rdclass, b) \<leftarrow> lwres_buffer_getuint16 b;
        (rdtype, b) \<leftarrow> lwres_buffer_getuint16 b;
        (r, b) \<leftarrow> lwres_string_parse b;
        case r of
          Inl ret \<Rightarrow> Some (Inl ret, b)
        | Inr (namelen, name) \<Rightarrow>
            if LWRES_BUFFER_REMAINING b \<noteq> 0 then Some (Inl LWRES_R_TRAILINGDATA, b)
            else if \<not> alloc (0::nat) then Some (Inl LWRES_R_NOMEMORY, b)
            else Some (Inr \<lparr>rq_flags = flags, rq_rdclass = rdclass, rq_rdtype = rdtype, rq_namelen = namelen,
              rq_name = name\<rparr>, b) })"

definition lwres_grbnresponse_parse where
  "lwres_grbnresponse_parse alloc b pkt =
     (if lp_pktflags pkt AND LWRES_LWPACKETFLAG_RESPONSE = 0 then Some (Inl LWRES_R_FAILURE, b)
      else if \<not> SPACE_REMAINING b (4 + 2 + 2 + 4 + 2 + 2) then Some (Inl LWRES_R_UNEXPECTEDEND, b)
      else do {
        (flags, b) \<leftarrow> lwres_buffer_getuint32 b;
        (rdclass, b) \<leftarrow> lwres_buffer_getuint16 b;
        (rdtype, b) \<leftarrow> lwres_buffer_getuint16 b;
        (ttl, b) \<leftarrow> lwres_buffer_getuint32 b;
        (nrdatas, b) \<leftarrow> lwres_buffer_getuint16 b;
        (nsigs, b) \<leftarrow> lwres_buffer_getuint16 b;
        if \<not> alloc (0::nat) \<or> (nrdatas > 0 \<and> (\<not> alloc 1 \<or> \<not> alloc 2)) \<or>
           (nsigs > 0 \<and> (\<not> alloc 3 \<or> \<not> alloc 4)) then Some (Inl LWRES_R_NOMEMORY, b)
        else do {
          (r, b) \<leftarrow> lwres_string_parse b;
          case r of
            Inl ret \<Rightarrow> Some (Inl ret, b)
          | Inr (realnamelen, realname) \<Rightarrow> do {
              (r, b) \<leftarrow> parse_many (\<lambda>x. lwres_data_parse) 0 (unat nrdatas) b;
              case r of
                Inl ret \<Rightarrow> Some (Inl ret, b)
              | Inr rdatas \<Rightarrow> do {
                  (r, b) \<leftarrow> parse_many (\<lambda>x. lwres_data_parse) 0 (unat nsigs) b;
                  case r of
                    Inl ret \<Rightarrow> Some (Inl ret, b)
                  | Inr sigs \<Rightarrow>
                      if LWRES_BUFFER_REMAINING b \<noteq> 0 then Some (Inl LWRES_R_TRAILINGDATA, b)
                      else Some (Inr \<lparr>rr_flags = flags, rr_rdclass = rdclass, rr_rdtype = rdtype, rr_ttl = ttl,
                        rr_nrdatas = nrdatas, rr_nsigs = nsigs, rr_realname = realname,
                        rr_realnamelen = realnamelen, rr_rdatas = map snd rdatas, rr_rdatalen = map fst rdatas,
                        rr_sigs = map snd sigs, rr_siglen = map fst sigs\<rparr>, b) } } } })"

section \<open>What the renderers write\<close>

definition sized :: "u16 \<times> bytes \<Rightarrow> bool" where
  "sized d \<longleftrightarrow> unat (fst d) = length (snd d)"

definition addr_ok :: "lwres_addr \<Rightarrow> bool" where
  "addr_ok a \<longleftrightarrow> unat (la_length a) \<le> 16 \<and> length (la_address a) = 16"

abbreviation data_img :: "u16 \<times> bytes \<Rightarrow> bytes" where
  "data_img d \<equiv> data_image (fst d) (snd d)"

abbreviation string_img :: "u16 \<times> bytes \<Rightarrow> bytes" where
  "string_img d \<equiv> string_image (fst d) (snd d)"

lemma writes_put_data:
  assumes "lw_wf b" and "length (data_img d) \<le> lw_room b" and "sized d"
  shows "writes b (data_img d) (put_data b d)"
  unfolding put_data_def data_image_def
  by (rule writes_bind [OF writes_put(2)]) (use assms in \<open>auto simp: sized_def mem_read_def intro!: writes_putmem\<close>)

lemma writes_put_string:
  assumes "lw_wf b" and "length (string_img d) \<le> lw_room b" and "sized d"
  shows "writes b (string_img d) (put_string b d)"
proof -
  have "writes b (data_img d @ [0]) (put_string b d)"
    unfolding put_string_def
    by (rule writes_bind [OF writes_put_data]) (use assms in \<open>auto intro!: writes_put\<close>)
  then show ?thesis by (simp add: string_image_def data_image_def)
qed

lemma length_addr_image: "addr_ok a \<Longrightarrow> length (addr_image a) = 6 + unat (la_length a)"
  by (simp add: addr_image_def addr_ok_def)

lemma writes_put_addr:
  assumes "lw_wf b" and "length (addr_image a) \<le> lw_room b" and "addr_ok a"
  shows "writes b (addr_image a) (put_addr b a)"
  unfolding put_addr_def addr_image_def
proof (rule writes_bind [OF writes_put(3)])
  let ?d = "take (unat (la_length a)) (la_address a)"
  fix b' assume b': "lw_wf b'" "lw_room b = length (be32 (la_family a)) + lw_room b'"
  have l: "length ?d = unat (la_length a)" using assms(3) by (simp add: addr_ok_def)
  have "writes b' (be16 (la_length a) @ ?d) (put_data b' (la_length a, la_address a))"
    unfolding put_data_def fst_conv snd_conv
    by (rule writes_bind [OF writes_put(2)])
      (use assms b' l length_addr_image [OF assms(3)] in \<open>auto simp: mem_read_def addr_ok_def intro!: writes_putmem\<close>)
  then show "writes b' (be16 (la_length a) @ ?d) (put_data b' (la_length a, la_address a))" .
qed (use assms length_addr_image [OF assms(3)] in auto)

lemma writes_put_all:
  assumes "\<And>x b. x \<in> set xs \<Longrightarrow> lw_wf b \<Longrightarrow> length (img x) \<le> lw_room b \<Longrightarrow> writes b (img x) (put b x)"
    and "lw_wf b" and "length (concat (map img xs)) \<le> lw_room b"
  shows "writes b (concat (map img xs)) (put_all put b xs)"
  using assms
proof (induction xs arbitrary: b)
  case Nil
  then show ?case by (simp add: writes_return)
next
  case (Cons x xs)
  show ?case
    unfolding put_all.simps list.map concat.simps
    by (rule writes_bind) (use Cons in auto)
qed

lemma render_message_ok:
  fixes pkt :: lwres_lwpacket and mkpkt :: "u32 \<Rightarrow> lwres_lwpacket \<Rightarrow> lwres_lwpacket"
  assumes malloc: "malloc (28 + n) = Some buf" "length buf = 28 + n" and n: "28 + n < 2 ^ 32"
    and put: "\<And>b. lw_wf b \<Longrightarrow> lw_room b = n \<Longrightarrow> writes b img (put b)" and img: "length img = n"
  defines "p \<equiv> mkpkt (of_nat (28 + n)) pkt"
  shows "\<exists>b. render_message malloc mkpkt pkt n put = Some (LWRES_R_SUCCESS, p, Some b) \<and> lw_wf b \<and>
    lw_pending b = header_image p @ img \<and> l_used b = of_nat (28 + n)"
proof -
  let ?b0 = "lwres_buffer_init buf (of_nat (28 + n))"
  have b0: "lw_wf ?b0" "lw_room ?b0 = 28 + n" "lw_content ?b0 = []" "l_current ?b0 = 0"
    using lw_init_wf [of buf] malloc(2) n by auto
  obtain b1 where b1: "lwres_lwpacket_renderheader ?b0 p = Some (LWRES_R_SUCCESS, b1)"
      "lw_wf b1" "lw_room b1 = n" "lw_content b1 = header_image p" "l_current b1 = 0"
      "l_length b1 = l_length ?b0"
    using renderheader_ok [of ?b0 p] b0 by (auto simp: writes_def)
  obtain b2 where b2: "put b1 = Some b2" "lw_wf b2" "lw_room b2 = 0" "lw_content b2 = header_image p @ img"
      "l_current b2 = 0" "l_length b2 = l_length b1"
    using put [OF b1(2,3)] b1 img by (auto simp: writes_def)
  have av: "LWRES_BUFFER_AVAILABLECOUNT b2 = 0"
    using lw_spaces(4) [OF b2(2)] b2(3) by (metis unat_0_iff)
  have "unat (l_used b2) = 28 + n" using length_lw_content [OF b2(2)] b2(4) img by simp
  moreover have "l_used b2 = of_nat (unat (l_used b2))" by simp
  ultimately have u: "l_used b2 = of_nat (28 + n)" by simp
  have "render_message malloc mkpkt pkt n put = Some (LWRES_R_SUCCESS, p, Some b2)"
    using malloc(1) b1 b2(1) av
    by (simp add: render_message_def LWPACKET_LENGTH_def p_def Let_def del: of_nat_add)
  then show ?thesis using b2 u by (auto simp: lw_pending_def)
qed

lemma check_length_ok:
  assumes "r = Some (LWRES_R_SUCCESS, p, Some b)" and "l_used b = lp_length p"
  shows "check_length r = r"
  using assms by (simp add: check_length_def LWRES_BUFFER_USEDCOUNT_def)

section \<open>What the parsers read\<close>

lemma reads_inr:
  assumes "reads (Inr v) rest m" and "\<And>b'. lw_wf b' \<Longrightarrow> lw_pending b' = rest \<Longrightarrow> reads w rest' (f v b')"
  shows "reads w rest' (m \<bind> (\<lambda>(r, b). case r of Inl ret \<Rightarrow> h ret b | Inr v \<Rightarrow> f v b))"
  by (rule reads_bind [OF assms(1)]) (simp add: assms(2))

lemma parse_many_ok:
  assumes "\<And>i b rest. i < length xs \<Longrightarrow> lw_wf b \<Longrightarrow> lw_pending b = img (xs ! i) @ rest \<Longrightarrow>
      reads (Inr (ys ! i)) rest (p (x + i) b)"
    and "length ys = length xs" and "lw_wf b" and "lw_pending b = concat (map img xs) @ rest"
  shows "reads (Inr ys) rest (parse_many p x (length xs) b)"
  using assms
proof (induction xs arbitrary: x ys b)
  case Nil
  then show ?case by (simp add: reads_return)
next
  case (Cons a xs)
  obtain y zs where ys: "ys = y # zs" using Cons.prems(2) by (cases ys) auto
  have hd: "reads (Inr y) (concat (map img xs) @ rest) (p x b)"
    using Cons.prems(1) [of 0 b] Cons.prems(3,4) by (simp add: ys)
  have tl: "reads (Inr zs) rest (parse_many p (Suc x) (length xs) b')"
    if "lw_wf b'" "lw_pending b' = concat (map img xs) @ rest" for b'
    by (rule Cons.IH) (use Cons.prems(1) [of "Suc i" for i] Cons.prems(2) that in \<open>simp_all add: ys\<close>)
  show ?case
    unfolding list.size parse_many.simps add_0_right add_Suc_right One_nat_def
    by (rule reads_inr [OF hd], rule reads_inr [OF tl]) (simp_all add: ys reads_return)
qed

lemma lw_remaining_zero: "lw_wf b \<Longrightarrow> LWRES_BUFFER_REMAINING b = 0 \<longleftrightarrow> lw_pending b = []"
  using lw_spaces(3) [of b] by (metis length_0_conv unat_0_iff)

lemma packet_flags [simp]:
  "lp_pktflags (request_packet opc n pkt) AND LWRES_LWPACKETFLAG_RESPONSE = 0"
  "lp_pktflags (response_packet opc n pkt) AND LWRES_LWPACKETFLAG_RESPONSE \<noteq> 0"
  "lp_length (request_packet opc n pkt) = n" "lp_length (response_packet opc n pkt) = n"
proof -
  show "lp_pktflags (request_packet opc n pkt) AND LWRES_LWPACKETFLAG_RESPONSE = 0"
    by (simp add: request_packet_def LWRES_LWPACKETFLAG_RESPONSE_def and.assoc)
  have "bit (lp_pktflags (response_packet opc n pkt) AND LWRES_LWPACKETFLAG_RESPONSE) 0"
    by (simp add: response_packet_def LWRES_LWPACKETFLAG_RESPONSE_def bit_simps)
  then show "lp_pktflags (response_packet opc n pkt) AND LWRES_LWPACKETFLAG_RESPONSE \<noteq> 0" by auto
qed (simp_all add: request_packet_def response_packet_def)

lemma message_roundtrip:
  fixes pkt :: lwres_lwpacket and mkpkt :: "u32 \<Rightarrow> lwres_lwpacket \<Rightarrow> lwres_lwpacket"
  assumes mal: "\<And>n. \<exists>buf. malloc n = Some buf \<and> length buf = n" and lt: "28 + length img < 2 ^ 32"
    and len: "lp_length (mkpkt (of_nat (28 + length img)) pkt) = of_nat (28 + length img)"
    and put: "\<And>b. lw_wf b \<Longrightarrow> lw_room b = length img \<Longrightarrow> writes b img (put b)"
    and parse: "\<And>b. lw_wf b \<Longrightarrow> lw_pending b = img \<Longrightarrow>
      reads (Inr v) [] (parse b (mkpkt (of_nat (28 + length img)) pkt))"
  shows "\<exists>b p b1 b2. render_message malloc mkpkt pkt (length img) put = Some (LWRES_R_SUCCESS, p, Some b) \<and>
    l_used b = lp_length p \<and> lwres_lwpacket_parseheader b = Some (Inr p, b1) \<and> parse b1 p = Some (Inr v, b2)"
proof -
  let ?p = "mkpkt (of_nat (28 + length img)) pkt"
  obtain buf where m: "malloc (28 + length img) = Some buf" "length buf = 28 + length img" using mal by blast
  obtain b where b: "render_message malloc mkpkt pkt (length img) put = Some (LWRES_R_SUCCESS, ?p, Some b)"
      "lw_wf b" "lw_pending b = header_image ?p @ img" "l_used b = of_nat (28 + length img)"
    using render_message_ok [where malloc = malloc and put = put and img = img and mkpkt = mkpkt and pkt = pkt,
        OF m lt put refl] by blast
  have "unat (lp_length ?p) = 28 + length img" using len lt by (simp add: unat_of_nat_small del: of_nat_add)
  then obtain b1 where b1: "lwres_lwpacket_parseheader b = Some (Inr ?p, b1)" "lw_wf b1" "lw_pending b1 = img"
    using parseheader_ok [OF b(2,3)] by (auto simp: reads_def)
  obtain b2 where "parse b1 ?p = Some (Inr v, b2)" using parse [OF b1(2,3)] by (auto simp: reads_def)
  then show ?thesis using b b1 len by metis
qed

text \<open>No operation.\<close>

lemma noop_parse_ok:
  assumes "lw_wf b" and "lw_pending b = data_img d" and "sized d" and "alloc 0"
  shows "reads (Inr \<lparr>np_datalength = fst d, np_data = snd d\<rparr>) [] (parse_noop alloc b)"
proof -
  have d: "reads (Inr d) [] (lwres_data_parse b)"
    using data_parse_ok [of b "fst d" "snd d" "[]"] assms by (simp add: sized_def)
  show ?thesis
    unfolding parse_noop_def using assms(4)
    by simp (rule reads_inr [OF d], cases d, simp add: lw_remaining_zero reads_return)
qed

lemma u16_bound: "unat (w::u16) \<le> 65535"
  using unsigned_less [of w, where 'a = nat] by simp

text \<open>A no-operation request or response whose length field is right is rendered, and its parser, applied
  after the header parser to the rendered packet, returns it unchanged, with the header as it was sent.\<close>

theorem noop_roundtrip:
  assumes r: "unat (np_datalength r) = length (np_data r)"
    and mal: "\<And>n. \<exists>buf. malloc n = Some buf \<and> length buf = n" and al: "alloc 0"
  shows "(\<exists>b p b1 b2. lwres_nooprequest_render malloc r pkt = Some (LWRES_R_SUCCESS, p, Some b) \<and>
      lwres_lwpacket_parseheader b = Some (Inr p, b1) \<and> lwres_nooprequest_parse alloc b1 p = Some (Inr r, b2)) \<and>
    (\<exists>b p b1 b2. lwres_noopresponse_render malloc r pkt = Some (LWRES_R_SUCCESS, p, Some b) \<and>
      lwres_lwpacket_parseheader b = Some (Inr p, b1) \<and> lwres_noopresponse_parse alloc b1 p = Some (Inr r, b2))"
proof -
  let ?d = "(np_datalength r, np_data r)" and ?n = "2 + unat (np_datalength r)"
  have s: "sized ?d" using r by (simp add: sized_def)
  have l: "?n = length (data_img ?d)" using r by simp
  have lt: "28 + length (data_img ?d) < 2 ^ 32" using u16_bound [of "np_datalength r"] r by simp
  have put: "writes b (data_img ?d) (put_data b ?d)" if "lw_wf b" "lw_room b = length (data_img ?d)" for b
    using writes_put_data [OF that(1) _ s] that(2) by simp
  have par: "reads (Inr r) [] (parse_noop alloc b1)" if "lw_wf b1" "lw_pending b1 = data_img ?d" for b1
    using noop_parse_ok [of b1 ?d alloc] that s al by (cases r) simp
  show ?thesis
    unfolding lwres_nooprequest_render_def lwres_noopresponse_render_def l
  proof (intro conjI, goal_cases)
    case 1
    show ?case
      using message_roundtrip [OF mal lt _ put, where mkpkt = "request_packet LWRES_OPCODE_NOOP" and v = r
          and parse = "lwres_nooprequest_parse alloc" and pkt = pkt] par
      by (fastforce simp: lwres_nooprequest_parse_def)
  next
    case 2
    show ?case
      using message_roundtrip [OF mal lt _ put, where mkpkt = "response_packet LWRES_OPCODE_NOOP" and v = r
          and parse = "lwres_noopresponse_parse alloc" and pkt = pkt] par
      by (fastforce simp: lwres_noopresponse_parse_def)
  qed
qed

text \<open>Addresses by name.\<close>

lemma strlen_no_nul: "0 \<notin> set s \<Longrightarrow> strlen s = length s"
  unfolding strlen_def by (subst takeWhile_eq_all_conv [THEN iffD2]) auto

lemma string_parse_img:
  "lw_wf b \<Longrightarrow> lw_pending b = string_img d @ rest \<Longrightarrow> sized d \<Longrightarrow> reads (Inr d) rest (lwres_string_parse b)"
  using string_parse_ok [of b "fst d" "snd d" rest] by (simp add: sized_def)

lemma data_parse_img:
  "lw_wf b \<Longrightarrow> lw_pending b = data_img d @ rest \<Longrightarrow> sized d \<Longrightarrow> reads (Inr d) rest (lwres_data_parse b)"
  using data_parse_ok [of b "fst d" "snd d" rest] by (simp add: sized_def)

lemma parse_strings_ok:
  "lw_wf b \<Longrightarrow> lw_pending b = concat (map string_img ds) @ rest \<Longrightarrow> list_all sized ds \<Longrightarrow> n = length ds \<Longrightarrow>
    reads (Inr ds) rest (parse_many (\<lambda>x. lwres_string_parse) 0 n b)"
  using parse_many_ok [of ds string_img ds "\<lambda>x. lwres_string_parse" 0 b rest] string_parse_img
  by (auto simp: list_all_length)

lemma parse_datas_ok:
  "lw_wf b \<Longrightarrow> lw_pending b = concat (map data_img ds) @ rest \<Longrightarrow> list_all sized ds \<Longrightarrow> n = length ds \<Longrightarrow>
    reads (Inr ds) rest (parse_many (\<lambda>x. lwres_data_parse) 0 n b)"
  using parse_many_ok [of ds data_img ds "\<lambda>x. lwres_data_parse" 0 b rest] data_parse_img
  by (auto simp: list_all_length)

text \<open>The address as it is read into a structure whose memory was \<open>a0\<close>.\<close>

definition addr_into :: "lwres_addr \<Rightarrow> lwres_addr \<Rightarrow> lwres_addr" where
  "addr_into a0 a = a\<lparr>la_address := take (unat (la_length a)) (la_address a) @ drop (unat (la_length a)) (la_address a0)\<rparr>"

lemma addr_parse_img:
  "lw_wf b \<Longrightarrow> lw_pending b = addr_image a @ rest \<Longrightarrow> addr_ok a \<Longrightarrow> length (la_address a0) = 16 \<Longrightarrow>
    reads (Inr (addr_into a0 a)) rest (lwres_addr_parse b a0)"
  using addr_parse_ok [of b a rest a0] by (simp add: addr_into_def addr_ok_def)

lemma parse_addrs_ok:
  assumes "lw_wf b" and "lw_pending b = concat (map addr_image as) @ rest" and "list_all addr_ok as"
    and "n = length as" and "\<And>x. length (la_address (newaddr x)) = 16"
  shows "reads (Inr (map (\<lambda>i. addr_into (newaddr i) (as ! i)) [0..<n])) rest
    (parse_many (\<lambda>x b. lwres_addr_parse b (newaddr x)) 0 n b)"
  unfolding assms(4)
  by (rule parse_many_ok [where img = addr_image]) (use assms addr_parse_img in \<open>auto simp: list_all_length\<close>)

definition gabnrequest_image :: "lwres_gabnrequest \<Rightarrow> bytes" where
  "gabnrequest_image r = be32 (gq_flags r) @ be32 (gq_addrtypes r) @ string_img (gq_namelen r, gq_name r)"

lemma gabnrequest_parse_ok:
  assumes "lw_wf b" and "lw_pending b = gabnrequest_image r" and s: "sized (gq_namelen r, gq_name r)" and "alloc 0"
  shows "reads (Inr r) [] (lwres_gabnrequest_parse alloc b (request_packet opc n pkt))"
proof -
  have "SPACE_REMAINING b 8" using assms(1,2) by (simp add: gabnrequest_image_def)
  moreover have str: "reads (Inr (gq_namelen r, gq_name r)) [] (lwres_string_parse b')"
    if "lw_wf b'" "lw_pending b' = string_img (gq_namelen r, gq_name r)" for b'
    using string_parse_img [of b' "(gq_namelen r, gq_name r)" "[]"] that s by simp
  ultimately show ?thesis
    unfolding lwres_gabnrequest_parse_def
    using assms(1,2,4) unfolding gabnrequest_image_def append_assoc
    apply simp
    apply (erule (1) reads_steps, simp only: prod.case)+
    apply (rule reads_inr, rule str, assumption, simp)
    apply (simp add: lw_remaining_zero reads_def)
    done
qed

lemma gabnrequest_rendered:
  assumes r: "unat (gq_namelen r) = length (gq_name r)" "0 \<notin> set (gq_name r)"
  shows "lwres_gabnrequest_render malloc r pkt = render_message malloc (request_packet LWRES_OPCODE_GETADDRSBYNAME) pkt
      (length (gabnrequest_image r)) (put_gabnrequest r (gq_namelen r))"
    and "28 + length (gabnrequest_image r) < 2 ^ 32"
    and "lw_wf b \<Longrightarrow> lw_room b = length (gabnrequest_image r) \<Longrightarrow>
      writes b (gabnrequest_image r) (put_gabnrequest r (gq_namelen r) b)"
proof -
  have s: "sized (gq_namelen r, gq_name r)" using r by (simp add: sized_def)
  have dl: "of_nat (strlen (gq_name r)) = gq_namelen r"
    by (simp add: strlen_no_nul [OF r(2)] flip: r(1))
  have l: "4 + 4 + 2 + unat (gq_namelen r) + 1 = length (gabnrequest_image r)"
    using r by (simp add: gabnrequest_image_def)
  show "lwres_gabnrequest_render malloc r pkt = render_message malloc (request_packet LWRES_OPCODE_GETADDRSBYNAME) pkt
      (length (gabnrequest_image r)) (put_gabnrequest r (gq_namelen r))"
    unfolding lwres_gabnrequest_render_def Let_def dl l ..
  show "28 + length (gabnrequest_image r) < 2 ^ 32"
    using u16_bound [of "gq_namelen r"] r by (simp add: gabnrequest_image_def)
  show "writes b (gabnrequest_image r) (put_gabnrequest r (gq_namelen r) b)"
    if "lw_wf b" "lw_room b = length (gabnrequest_image r)"
    unfolding gabnrequest_image_def put_gabnrequest_def
    by (intro writes_bind writes_put writes_put_string) (use that s in \<open>simp_all add: gabnrequest_image_def\<close>)
qed

lemma gabnrequest_roundtrip:
  assumes r: "unat (gq_namelen r) = length (gq_name r)" "0 \<notin> set (gq_name r)"
    and mal: "\<And>n. \<exists>buf. malloc n = Some buf \<and> length buf = n" and al: "alloc 0"
  shows "\<exists>b p b1 b2. lwres_gabnrequest_render malloc r pkt = Some (LWRES_R_SUCCESS, p, Some b) \<and>
      lwres_lwpacket_parseheader b = Some (Inr p, b1) \<and> lwres_gabnrequest_parse alloc b1 p = Some (Inr r, b2)"
proof -
  have s: "sized (gq_namelen r, gq_name r)" using r by (simp add: sized_def)
  note rr = gabnrequest_rendered [OF r]
  show ?thesis
    unfolding rr(1)
    using message_roundtrip [OF mal rr(2) _ rr(3), where mkpkt = "request_packet LWRES_OPCODE_GETADDRSBYNAME" and v = r
        and parse = "lwres_gabnrequest_parse alloc" and pkt = pkt] gabnrequest_parse_ok [OF _ _ s, of _ alloc] al
    by fastforce
qed

definition tabled :: "u16 \<Rightarrow> u16 list \<Rightarrow> bytes list \<Rightarrow> bool" where
  "tabled n lens ptrs \<longleftrightarrow> length ptrs = unat n \<and> map unat lens = map length ptrs"

lemma tabled_zip:
  assumes "tabled n lens ptrs"
  shows "table lens ptrs n = Some (zip lens ptrs)" and "list_all sized (zip lens ptrs)"
    and "length (zip lens ptrs) = unat n" and "map fst (zip lens ptrs) = lens" and "map snd (zip lens ptrs) = ptrs"
proof -
  have l: "length lens = unat n" "length ptrs = unat n"
    using assms by (metis length_map tabled_def)+
  have "unat (lens ! i) = length (ptrs ! i)" if "i < unat n" for i
  proof -
    have "map unat lens ! i = map length ptrs ! i" using assms by (simp add: tabled_def)
    then show ?thesis using l that by simp
  qed
  then show "list_all sized (zip lens ptrs)" using l by (simp add: list_all_length sized_def)
  show "table lens ptrs n = Some (zip lens ptrs)" using l by (simp add: table_def mem_read_def)
  show "length (zip lens ptrs) = unat n" "map fst (zip lens ptrs) = lens" "map snd (zip lens ptrs) = ptrs"
    using l by simp_all
qed

lemma string_img_lengths:
  "list_all sized ds \<Longrightarrow> (\<Sum>a \<leftarrow> ds. 2 + unat (fst a) + 1) = length (concat (map string_img ds))"
  by (induction ds) (auto simp: sized_def)

lemma data_img_lengths:
  "list_all sized ds \<Longrightarrow> (\<Sum>a \<leftarrow> ds. 2 + unat (fst a)) = length (concat (map data_img ds))"
  by (induction ds) (auto simp: sized_def)

lemma addr_img_lengths:
  "list_all addr_ok as \<Longrightarrow> (\<Sum>a \<leftarrow> as. 4 + 2 + unat (la_length a)) = length (concat (map addr_image as))"
  by (induction as) (auto simp: length_addr_image)

lemma writes_strings:
  "lw_wf b \<Longrightarrow> length (concat (map string_img ds)) \<le> lw_room b \<Longrightarrow> list_all sized ds \<Longrightarrow>
    writes b (concat (map string_img ds)) (put_all put_string b ds)"
  by (rule writes_put_all) (auto simp: list_all_iff intro: writes_put_string)

lemma writes_datas:
  "lw_wf b \<Longrightarrow> length (concat (map data_img ds)) \<le> lw_room b \<Longrightarrow> list_all sized ds \<Longrightarrow>
    writes b (concat (map data_img ds)) (put_all put_data b ds)"
  by (rule writes_put_all) (auto simp: list_all_iff intro: writes_put_data)

lemma writes_addrs:
  "lw_wf b \<Longrightarrow> length (concat (map addr_image as)) \<le> lw_room b \<Longrightarrow> list_all addr_ok as \<Longrightarrow>
    writes b (concat (map addr_image as)) (put_all put_addr b as)"
  by (rule writes_put_all) (auto simp: list_all_iff intro: writes_put_addr)

lemma roundtrip_checked:
  assumes "\<exists>b p b1 b2. r = Some (LWRES_R_SUCCESS, p, Some b) \<and> l_used b = lp_length p \<and>
      lwres_lwpacket_parseheader b = Some (Inr p, b1) \<and> parse b1 p = Some (Inr v, b2)"
  shows "\<exists>b p b1 b2. check_length r = Some (LWRES_R_SUCCESS, p, Some b) \<and>
      lwres_lwpacket_parseheader b = Some (Inr p, b1) \<and> parse b1 p = Some (Inr v, b2)"
  using assms check_length_ok by metis

definition gabnresponse_image :: "lwres_gabnresponse \<Rightarrow> bytes" where
  "gabnresponse_image r = be32 (gr_flags r) @ be16 (gr_naliases r) @ be16 (gr_naddrs r) @
     string_img (gr_realnamelen r, gr_realname r) @ concat (map string_img (zip (gr_aliaslen r) (gr_aliases r))) @
     concat (map addr_image (gr_addrs r))"

definition gabnresponse_ok :: "lwres_gabnresponse \<Rightarrow> bool" where
  "gabnresponse_ok r \<longleftrightarrow> unat (gr_realnamelen r) = length (gr_realname r) \<and>
     tabled (gr_naliases r) (gr_aliaslen r) (gr_aliases r) \<and>
     length (gr_addrs r) = unat (gr_naddrs r) \<and> list_all addr_ok (gr_addrs r) \<and>
     28 + length (gabnresponse_image r) < 2 ^ 32"

definition gabnresponse_into :: "(nat \<Rightarrow> lwres_addr) \<Rightarrow> lwres_gabnresponse \<Rightarrow> lwres_gabnresponse" where
  "gabnresponse_into newaddr r =
     r\<lparr>gr_addrs := map (\<lambda>i. addr_into (newaddr i) (gr_addrs r ! i)) [0..<unat (gr_naddrs r)]\<rparr>"

lemma gabnresponse_parse_ok:
  assumes ok: "gabnresponse_ok r" and wf: "lw_wf b" and pend: "lw_pending b = gabnresponse_image r"
    and al: "\<And>i. alloc i" and na: "\<And>x. length (la_address (newaddr x)) = 16"
  shows "reads (Inr (gabnresponse_into newaddr r)) []
    (lwres_gabnresponse_parse alloc newaddr b (response_packet opc n pkt))"
proof -
  let ?s = "(gr_realnamelen r, gr_realname r)" and ?ds = "zip (gr_aliaslen r) (gr_aliases r)"
  have s: "sized ?s" and t: "tabled (gr_naliases r) (gr_aliaslen r) (gr_aliases r)"
    and a: "list_all addr_ok (gr_addrs r)" "unat (gr_naddrs r) = length (gr_addrs r)"
    using ok by (auto simp: gabnresponse_ok_def sized_def)
  note tz = tabled_zip [OF t]
  have sp: "SPACE_REMAINING b 8" using wf pend by (simp add: gabnresponse_image_def)
  note str = string_parse_img [where d = ?s, OF _ _ s]
  note strs = parse_strings_ok [where ds = ?ds, OF _ _ tz(2) tz(3) [symmetric]]
  note addrs = parse_addrs_ok [where newaddr = newaddr, OF _ _ a na]
  show ?thesis
    unfolding lwres_gabnresponse_parse_def
    using wf pend sp al unfolding gabnresponse_image_def append_assoc
    apply simp
    apply (erule (1) reads_steps, simp only: prod.case)+
    apply (rule reads_inr, rule str, assumption, simp, simp only: prod.case)
    apply (rule reads_inr, rule strs, assumption, simp)
    apply (rule reads_inr, rule addrs [where rest = "[]"], assumption, simp)
    apply (use tz in \<open>simp add: lw_remaining_zero reads_def gabnresponse_into_def\<close>)
    done
qed

lemma gabnresponse_rendered:
  assumes ok: "gabnresponse_ok r"
  defines "ds \<equiv> zip (gr_aliaslen r) (gr_aliases r)"
  shows "lwres_gabnresponse_render malloc r pkt = check_length (render_message malloc
      (response_packet LWRES_OPCODE_GETADDRSBYNAME) pkt (length (gabnresponse_image r)) (put_gabnresponse r ds))"
    and "28 + length (gabnresponse_image r) < 2 ^ 32"
    and "lw_wf b \<Longrightarrow> lw_room b = length (gabnresponse_image r) \<Longrightarrow>
      writes b (gabnresponse_image r) (put_gabnresponse r ds b)"
proof -
  have s: "sized (gr_realnamelen r, gr_realname r)" and t: "tabled (gr_naliases r) (gr_aliaslen r) (gr_aliases r)"
    and a: "list_all addr_ok (gr_addrs r)" "length (gr_addrs r) = unat (gr_naddrs r)"
    and lt: "28 + length (gabnresponse_image r) < 2 ^ 32"
    using ok by (auto simp: gabnresponse_ok_def sized_def)
  note tz = tabled_zip [OF t, folded ds_def]
  have l: "4 + 2 + 2 + (2 + unat (gr_realnamelen r) + 1) + (\<Sum>a \<leftarrow> ds. 2 + unat (fst a) + 1) +
      (\<Sum>a \<leftarrow> gr_addrs r. 4 + 2 + unat (la_length a)) = length (gabnresponse_image r)"
    using s string_img_lengths [OF tz(2)] addr_img_lengths [OF a(1)]
    by (simp add: gabnresponse_image_def sized_def flip: ds_def)
  show "lwres_gabnresponse_render malloc r pkt = check_length (render_message malloc
      (response_packet LWRES_OPCODE_GETADDRSBYNAME) pkt (length (gabnresponse_image r)) (put_gabnresponse r ds))"
    unfolding lwres_gabnresponse_render_def tz(1) Option.bind.simps Let_def l a(2) simp_thms(6) REQUIRE_simps ..
  show "writes b (gabnresponse_image r) (put_gabnresponse r ds b)"
    if "lw_wf b" "lw_room b = length (gabnresponse_image r)"
    unfolding gabnresponse_image_def put_gabnresponse_def ds_def
    by (intro writes_bind writes_put writes_put_string writes_strings writes_addrs)
      (use that s tz(2) a(1) in \<open>simp_all add: gabnresponse_image_def ds_def\<close>)
qed (use ok in \<open>simp add: gabnresponse_ok_def\<close>)

lemma gabnresponse_roundtrip:
  assumes ok: "gabnresponse_ok r"
    and mal: "\<And>n. \<exists>buf. malloc n = Some buf \<and> length buf = n" and al: "\<And>i. alloc i"
    and na: "\<And>x. length (la_address (newaddr x)) = 16"
  shows "\<exists>b p b1 b2. lwres_gabnresponse_render malloc r pkt = Some (LWRES_R_SUCCESS, p, Some b) \<and>
      lwres_lwpacket_parseheader b = Some (Inr p, b1) \<and>
      lwres_gabnresponse_parse alloc newaddr b1 p = Some (Inr (gabnresponse_into newaddr r), b2)"
  unfolding gabnresponse_rendered(1) [OF ok]
  by (rule roundtrip_checked, rule message_roundtrip [OF mal gabnresponse_rendered(2) [OF ok] _ gabnresponse_rendered(3) [OF ok]])
    (simp_all add: gabnresponse_parse_ok [OF ok _ _ al na])

text \<open>C19: A request for the addresses of a name, and a response with any number of aliases and addresses,
  are rendered when their lengths are right and the packet fits, and the parsers return them unchanged (the
  bytes of an address beyond its length are those of the structure it is read into).\<close>

theorem gabn_roundtrip:
  assumes q: "unat (gq_namelen q) = length (gq_name q)" "0 \<notin> set (gq_name q)" and r: "gabnresponse_ok r"
    and mal: "\<And>n. \<exists>buf. malloc n = Some buf \<and> length buf = n" and al: "\<And>i. alloc i"
    and na: "\<And>x. length (la_address (newaddr x)) = 16"
  shows "(\<exists>b p b1 b2. lwres_gabnrequest_render malloc q pkt = Some (LWRES_R_SUCCESS, p, Some b) \<and>
      lwres_lwpacket_parseheader b = Some (Inr p, b1) \<and> lwres_gabnrequest_parse alloc b1 p = Some (Inr q, b2)) \<and>
    (\<exists>b p b1 b2. lwres_gabnresponse_render malloc r pkt = Some (LWRES_R_SUCCESS, p, Some b) \<and>
      lwres_lwpacket_parseheader b = Some (Inr p, b1) \<and>
      lwres_gabnresponse_parse alloc newaddr b1 p = Some (Inr (gabnresponse_into newaddr r), b2))"
  by (intro conjI gabnrequest_roundtrip q mal al gabnresponse_roundtrip r na)

text \<open>Name by address.\<close>

definition gnbarequest_image :: "lwres_gnbarequest \<Rightarrow> bytes" where
  "gnbarequest_image r = be32 (nq_flags r) @ addr_image (nq_addr r)"

definition gnbaresponse_image :: "lwres_gnbaresponse \<Rightarrow> bytes" where
  "gnbaresponse_image r = be32 (nr_flags r) @ be16 (nr_naliases r) @
     string_img (nr_realnamelen r, nr_realname r) @ concat (map string_img (zip (nr_aliaslen r) (nr_aliases r)))"

definition gnbaresponse_ok :: "lwres_gnbaresponse \<Rightarrow> bool" where
  "gnbaresponse_ok r \<longleftrightarrow> unat (nr_realnamelen r) = length (nr_realname r) \<and>
     tabled (nr_naliases r) (nr_aliaslen r) (nr_aliases r) \<and> 28 + length (gnbaresponse_image r) < 2 ^ 32"

lemma gnbarequest_parse_ok:
  assumes wf: "lw_wf b" and pend: "lw_pending b = gnbarequest_image r" and a: "addr_ok (nq_addr r)"
    and al: "alloc 0" and na: "length (la_address a0) = 16"
  shows "reads (Inr (r\<lparr>nq_addr := addr_into a0 (nq_addr r)\<rparr>)) []
    (lwres_gnbarequest_parse alloc a0 b (request_packet opc n pkt))"
proof -
  have sp: "SPACE_REMAINING b 4" using wf pend by (simp add: gnbarequest_image_def)
  note adr = addr_parse_img [where rest = "[]", OF _ _ a na]
  show ?thesis
    unfolding lwres_gnbarequest_parse_def
    using wf pend sp al unfolding gnbarequest_image_def append_assoc
    apply simp
    apply (erule (1) reads_steps, simp only: prod.case)+
    apply (rule reads_inr, rule adr, assumption, simp)
    apply (simp add: lw_remaining_zero reads_def)
    done
qed

lemma gnbaresponse_parse_ok:
  assumes ok: "gnbaresponse_ok r" and wf: "lw_wf b" and pend: "lw_pending b = gnbaresponse_image r"
    and al: "\<And>i. alloc i"
  shows "reads (Inr r) [] (lwres_gnbaresponse_parse alloc b (response_packet opc n pkt))"
proof -
  let ?s = "(nr_realnamelen r, nr_realname r)" and ?ds = "zip (nr_aliaslen r) (nr_aliases r)"
  have s: "sized ?s" and t: "tabled (nr_naliases r) (nr_aliaslen r) (nr_aliases r)"
    using ok by (auto simp: gnbaresponse_ok_def sized_def)
  note tz = tabled_zip [OF t]
  have sp: "SPACE_REMAINING b 6" using wf pend by (simp add: gnbaresponse_image_def)
  note str = string_parse_img [where d = ?s, OF _ _ s]
  note strs = parse_strings_ok [where ds = ?ds and rest = "[]", OF _ _ tz(2) tz(3) [symmetric]]
  show ?thesis
    unfolding lwres_gnbaresponse_parse_def
    using wf pend sp al unfolding gnbaresponse_image_def append_assoc
    apply simp
    apply (erule (1) reads_steps, simp only: prod.case)+
    apply (rule reads_inr, rule str, assumption, simp, simp only: prod.case)
    apply (rule reads_inr, rule strs, assumption, simp)
    apply (use tz in \<open>simp add: lw_remaining_zero reads_def\<close>)
    done
qed

lemma gnbarequest_rendered:
  assumes a: "addr_ok (nq_addr r)" "la_family (nq_addr r) \<noteq> 0" "la_length (nq_addr r) \<noteq> 0"
  shows "lwres_gnbarequest_render malloc r pkt = render_message malloc (request_packet LWRES_OPCODE_GETNAMEBYADDR) pkt
      (length (gnbarequest_image r)) (put_gnbarequest r)"
    and "28 + length (gnbarequest_image r) < 2 ^ 32"
    and "lw_wf b \<Longrightarrow> lw_room b = length (gnbarequest_image r) \<Longrightarrow> writes b (gnbarequest_image r) (put_gnbarequest r b)"
proof -
  have l: "4 + 4 + 2 + unat (la_length (nq_addr r)) = length (gnbarequest_image r)"
    using length_addr_image [OF a(1)] by (simp add: gnbarequest_image_def)
  show "lwres_gnbarequest_render malloc r pkt = render_message malloc (request_packet LWRES_OPCODE_GETNAMEBYADDR) pkt
      (length (gnbarequest_image r)) (put_gnbarequest r)"
    unfolding lwres_gnbarequest_render_def l using a(2,3) by simp
  show "28 + length (gnbarequest_image r) < 2 ^ 32" using l u16_bound [of "la_length (nq_addr r)"] by simp
  show "writes b (gnbarequest_image r) (put_gnbarequest r b)"
    if "lw_wf b" "lw_room b = length (gnbarequest_image r)"
    unfolding gnbarequest_image_def put_gnbarequest_def
    by (intro writes_bind writes_put writes_put_addr) (use that a in \<open>simp_all add: gnbarequest_image_def\<close>)
qed

lemma gnbarequest_roundtrip:
  assumes a: "addr_ok (nq_addr r)" "la_family (nq_addr r) \<noteq> 0" "la_length (nq_addr r) \<noteq> 0"
    and mal: "\<And>n. \<exists>buf. malloc n = Some buf \<and> length buf = n" and al: "alloc 0"
    and na: "length (la_address a0) = 16"
  shows "\<exists>b p b1 b2. lwres_gnbarequest_render malloc r pkt = Some (LWRES_R_SUCCESS, p, Some b) \<and>
      lwres_lwpacket_parseheader b = Some (Inr p, b1) \<and>
      lwres_gnbarequest_parse alloc a0 b1 p = Some (Inr (r\<lparr>nq_addr := addr_into a0 (nq_addr r)\<rparr>), b2)"
proof -
  note rr = gnbarequest_rendered [OF a]
  have "\<exists>b p b1 b2. render_message malloc (request_packet LWRES_OPCODE_GETNAMEBYADDR) pkt
        (length (gnbarequest_image r)) (put_gnbarequest r) = Some (LWRES_R_SUCCESS, p, Some b) \<and>
      l_used b = lp_length p \<and> lwres_lwpacket_parseheader b = Some (Inr p, b1) \<and>
      lwres_gnbarequest_parse alloc a0 b1 p = Some (Inr (r\<lparr>nq_addr := addr_into a0 (nq_addr r)\<rparr>), b2)"
    by (rule message_roundtrip [OF mal rr(2) _ rr(3)])
      (simp_all add: gnbarequest_parse_ok [where alloc = alloc, OF _ _ a(1) al na])
  then show ?thesis unfolding rr(1) by blast
qed

lemma gnbaresponse_rendered:
  assumes ok: "gnbaresponse_ok r"
  defines "ds \<equiv> zip (nr_aliaslen r) (nr_aliases r)"
  shows "lwres_gnbaresponse_render malloc r pkt = render_message malloc
      (response_packet LWRES_OPCODE_GETNAMEBYADDR) pkt (length (gnbaresponse_image r)) (put_gnbaresponse r ds)"
    and "28 + length (gnbaresponse_image r) < 2 ^ 32"
    and "lw_wf b \<Longrightarrow> lw_room b = length (gnbaresponse_image r) \<Longrightarrow>
      writes b (gnbaresponse_image r) (put_gnbaresponse r ds b)"
proof -
  have s: "sized (nr_realnamelen r, nr_realname r)" and t: "tabled (nr_naliases r) (nr_aliaslen r) (nr_aliases r)"
    using ok by (auto simp: gnbaresponse_ok_def sized_def)
  note tz = tabled_zip [OF t, folded ds_def]
  have l: "4 + 2 + (2 + unat (nr_realnamelen r) + 1) + (\<Sum>a \<leftarrow> ds. 2 + unat (fst a) + 1) =
      length (gnbaresponse_image r)"
    using s string_img_lengths [OF tz(2)] by (simp add: gnbaresponse_image_def sized_def flip: ds_def)
  show "lwres_gnbaresponse_render malloc r pkt = render_message malloc
      (response_packet LWRES_OPCODE_GETNAMEBYADDR) pkt (length (gnbaresponse_image r)) (put_gnbaresponse r ds)"
    unfolding lwres_gnbaresponse_render_def tz(1) Option.bind.simps Let_def l ..
  show "writes b (gnbaresponse_image r) (put_gnbaresponse r ds b)"
    if "lw_wf b" "lw_room b = length (gnbaresponse_image r)"
    unfolding gnbaresponse_image_def put_gnbaresponse_def ds_def
    by (intro writes_bind writes_put writes_put_string writes_strings)
      (use that s tz(2) in \<open>simp_all add: gnbaresponse_image_def ds_def\<close>)
qed (use ok in \<open>simp add: gnbaresponse_ok_def\<close>)

lemma gnbaresponse_roundtrip:
  assumes ok: "gnbaresponse_ok r"
    and mal: "\<And>n. \<exists>buf. malloc n = Some buf \<and> length buf = n" and al: "\<And>i. alloc i"
  shows "\<exists>b p b1 b2. lwres_gnbaresponse_render malloc r pkt = Some (LWRES_R_SUCCESS, p, Some b) \<and>
      lwres_lwpacket_parseheader b = Some (Inr p, b1) \<and> lwres_gnbaresponse_parse alloc b1 p = Some (Inr r, b2)"
proof -
  note rr = gnbaresponse_rendered [OF ok]
  have "\<exists>b p b1 b2. lwres_gnbaresponse_render malloc r pkt = Some (LWRES_R_SUCCESS, p, Some b) \<and>
      l_used b = lp_length p \<and> lwres_lwpacket_parseheader b = Some (Inr p, b1) \<and>
      lwres_gnbaresponse_parse alloc b1 p = Some (Inr r, b2)"
    unfolding rr(1)
    by (rule message_roundtrip [OF mal rr(2) _ rr(3)]) (simp_all add: gnbaresponse_parse_ok [OF ok _ _ al])
  then show ?thesis by blast
qed

text \<open>A request for the name of an address of at most 16 bytes, and a response with any number of
  aliases, are rendered and parsed back unchanged.\<close>

theorem gnba_roundtrip:
  assumes q: "addr_ok (nq_addr q)" "la_family (nq_addr q) \<noteq> 0" "la_length (nq_addr q) \<noteq> 0"
    and r: "gnbaresponse_ok r"
    and mal: "\<And>n. \<exists>buf. malloc n = Some buf \<and> length buf = n" and al: "\<And>i. alloc i"
    and na: "length (la_address a0) = 16"
  shows "(\<exists>b p b1 b2. lwres_gnbarequest_render malloc q pkt = Some (LWRES_R_SUCCESS, p, Some b) \<and>
      lwres_lwpacket_parseheader b = Some (Inr p, b1) \<and>
      lwres_gnbarequest_parse alloc a0 b1 p = Some (Inr (q\<lparr>nq_addr := addr_into a0 (nq_addr q)\<rparr>), b2)) \<and>
    (\<exists>b p b1 b2. lwres_gnbaresponse_render malloc r pkt = Some (LWRES_R_SUCCESS, p, Some b) \<and>
      lwres_lwpacket_parseheader b = Some (Inr p, b1) \<and> lwres_gnbaresponse_parse alloc b1 p = Some (Inr r, b2))"
  by (intro conjI gnbarequest_roundtrip q mal al na gnbaresponse_roundtrip r)

text \<open>Resource data by name.\<close>

definition grbnrequest_image :: "lwres_grbnrequest \<Rightarrow> bytes" where
  "grbnrequest_image r = be32 (rq_flags r) @ be16 (rq_rdclass r) @ be16 (rq_rdtype r) @
     string_img (rq_namelen r, rq_name r)"

definition grbnresponse_image :: "lwres_grbnresponse \<Rightarrow> bytes" where
  "grbnresponse_image r = be32 (rr_flags r) @ be16 (rr_rdclass r) @ be16 (rr_rdtype r) @ be32 (rr_ttl r) @
     be16 (rr_nrdatas r) @ be16 (rr_nsigs r) @ string_img (rr_realnamelen r, rr_realname r) @
     concat (map data_img (zip (rr_rdatalen r) (rr_rdatas r))) @ concat (map data_img (zip (rr_siglen r) (rr_sigs r)))"

definition grbnresponse_ok :: "lwres_grbnresponse \<Rightarrow> bool" where
  "grbnresponse_ok r \<longleftrightarrow> unat (rr_realnamelen r) = length (rr_realname r) \<and>
     tabled (rr_nrdatas r) (rr_rdatalen r) (rr_rdatas r) \<and> tabled (rr_nsigs r) (rr_siglen r) (rr_sigs r) \<and>
     28 + length (grbnresponse_image r) < 2 ^ 32"

lemma grbnrequest_parse_ok:
  assumes wf: "lw_wf b" and pend: "lw_pending b = grbnrequest_image r" and s: "sized (rq_namelen r, rq_name r)"
    and al: "alloc 0"
  shows "reads (Inr r) [] (lwres_grbnrequest_parse alloc b (request_packet opc n pkt))"
proof -
  have sp: "SPACE_REMAINING b 8" using wf pend by (simp add: grbnrequest_image_def)
  note str = string_parse_img [where rest = "[]", OF _ _ s]
  show ?thesis
    unfolding lwres_grbnrequest_parse_def
    using wf pend sp al unfolding grbnrequest_image_def append_assoc
    apply simp
    apply (erule (1) reads_steps, simp only: prod.case)+
    apply (rule reads_inr, rule str, assumption, simp)
    apply (simp add: lw_remaining_zero reads_def)
    done
qed

lemma grbnresponse_parse_ok:
  assumes ok: "grbnresponse_ok r" and wf: "lw_wf b" and pend: "lw_pending b = grbnresponse_image r"
    and al: "\<And>i. alloc i"
  shows "reads (Inr r) [] (lwres_grbnresponse_parse alloc b (response_packet opc n pkt))"
proof -
  let ?s = "(rr_realnamelen r, rr_realname r)"
  have s: "sized ?s" and t: "tabled (rr_nrdatas r) (rr_rdatalen r) (rr_rdatas r)"
    and u: "tabled (rr_nsigs r) (rr_siglen r) (rr_sigs r)"
    using ok by (auto simp: grbnresponse_ok_def sized_def)
  note tz = tabled_zip [OF t] and uz = tabled_zip [OF u]
  have sp: "SPACE_REMAINING b 16" using wf pend by (simp add: grbnresponse_image_def)
  note str = string_parse_img [where d = ?s, OF _ _ s]
  note rds = parse_datas_ok [where ds = "zip (rr_rdatalen r) (rr_rdatas r)", OF _ _ tz(2) tz(3) [symmetric]]
  note sgs = parse_datas_ok [where ds = "zip (rr_siglen r) (rr_sigs r)" and rest = "[]", OF _ _ uz(2) uz(3) [symmetric]]
  show ?thesis
    unfolding lwres_grbnresponse_parse_def
    using wf pend sp al unfolding grbnresponse_image_def append_assoc
    apply simp
    apply (erule (1) reads_steps, simp only: prod.case)+
    apply (rule reads_inr, rule str, assumption, simp, simp only: prod.case)
    apply (rule reads_inr, rule rds, assumption, simp)
    apply (rule reads_inr, rule sgs, assumption, simp)
    apply (use tz uz in \<open>simp add: lw_remaining_zero reads_def\<close>)
    done
qed

lemma grbnrequest_rendered:
  assumes r: "unat (rq_namelen r) = length (rq_name r)" "0 \<notin> set (rq_name r)"
  shows "lwres_grbnrequest_render malloc r pkt = render_message malloc (request_packet LWRES_OPCODE_GETRDATABYNAME) pkt
      (length (grbnrequest_image r)) (put_grbnrequest r (rq_namelen r))"
    and "28 + length (grbnrequest_image r) < 2 ^ 32"
    and "lw_wf b \<Longrightarrow> lw_room b = length (grbnrequest_image r) \<Longrightarrow>
      writes b (grbnrequest_image r) (put_grbnrequest r (rq_namelen r) b)"
proof -
  have s: "sized (rq_namelen r, rq_name r)" using r by (simp add: sized_def)
  have dl: "of_nat (strlen (rq_name r)) = rq_namelen r"
    by (simp add: strlen_no_nul [OF r(2)] flip: r(1))
  have l: "4 + 2 + 2 + 2 + unat (rq_namelen r) + 1 = length (grbnrequest_image r)"
    using r by (simp add: grbnrequest_image_def)
  show "lwres_grbnrequest_render malloc r pkt = render_message malloc (request_packet LWRES_OPCODE_GETRDATABYNAME) pkt
      (length (grbnrequest_image r)) (put_grbnrequest r (rq_namelen r))"
    unfolding lwres_grbnrequest_render_def Let_def dl l ..
  show "28 + length (grbnrequest_image r) < 2 ^ 32"
    using u16_bound [of "rq_namelen r"] r by (simp add: grbnrequest_image_def)
  show "writes b (grbnrequest_image r) (put_grbnrequest r (rq_namelen r) b)"
    if "lw_wf b" "lw_room b = length (grbnrequest_image r)"
    unfolding grbnrequest_image_def put_grbnrequest_def
    by (intro writes_bind writes_put writes_put_string) (use that s in \<open>simp_all add: grbnrequest_image_def\<close>)
qed

lemma grbnrequest_roundtrip:
  assumes r: "unat (rq_namelen r) = length (rq_name r)" "0 \<notin> set (rq_name r)"
    and mal: "\<And>n. \<exists>buf. malloc n = Some buf \<and> length buf = n" and al: "alloc 0"
  shows "\<exists>b p b1 b2. lwres_grbnrequest_render malloc r pkt = Some (LWRES_R_SUCCESS, p, Some b) \<and>
      lwres_lwpacket_parseheader b = Some (Inr p, b1) \<and> lwres_grbnrequest_parse alloc b1 p = Some (Inr r, b2)"
proof -
  have s: "sized (rq_namelen r, rq_name r)" using r by (simp add: sized_def)
  note rr = grbnrequest_rendered [OF r]
  have "\<exists>b p b1 b2. render_message malloc (request_packet LWRES_OPCODE_GETRDATABYNAME) pkt
        (length (grbnrequest_image r)) (put_grbnrequest r (rq_namelen r)) = Some (LWRES_R_SUCCESS, p, Some b) \<and>
      l_used b = lp_length p \<and> lwres_lwpacket_parseheader b = Some (Inr p, b1) \<and>
      lwres_grbnrequest_parse alloc b1 p = Some (Inr r, b2)"
    by (rule message_roundtrip [OF mal rr(2) _ rr(3)])
      (simp_all add: grbnrequest_parse_ok [where alloc = alloc, OF _ _ s al])
  then show ?thesis unfolding rr(1) by blast
qed

lemma grbnresponse_rendered:
  assumes ok: "grbnresponse_ok r"
  defines "rd \<equiv> zip (rr_rdatalen r) (rr_rdatas r)" and "sg \<equiv> zip (rr_siglen r) (rr_sigs r)"
  shows "lwres_grbnresponse_render malloc r pkt = check_length (render_message malloc
      (response_packet LWRES_OPCODE_GETRDATABYNAME) pkt (length (grbnresponse_image r)) (put_grbnresponse r rd sg))"
    and "28 + length (grbnresponse_image r) < 2 ^ 32"
    and "lw_wf b \<Longrightarrow> lw_room b = length (grbnresponse_image r) \<Longrightarrow>
      writes b (grbnresponse_image r) (put_grbnresponse r rd sg b)"
proof -
  have s: "sized (rr_realnamelen r, rr_realname r)" and t: "tabled (rr_nrdatas r) (rr_rdatalen r) (rr_rdatas r)"
    and u: "tabled (rr_nsigs r) (rr_siglen r) (rr_sigs r)"
    using ok by (auto simp: grbnresponse_ok_def sized_def)
  note tz = tabled_zip [OF t, folded rd_def] and uz = tabled_zip [OF u, folded sg_def]
  have l: "4 + 2 + 2 + 4 + 2 + 2 + (2 + unat (rr_realnamelen r) + 1) + (\<Sum>a \<leftarrow> rd. 2 + unat (fst a)) +
      (\<Sum>a \<leftarrow> sg. 2 + unat (fst a)) = length (grbnresponse_image r)"
    using s data_img_lengths [OF tz(2)] data_img_lengths [OF uz(2)]
    by (simp add: grbnresponse_image_def sized_def flip: rd_def sg_def)
  show "lwres_grbnresponse_render malloc r pkt = check_length (render_message malloc
      (response_packet LWRES_OPCODE_GETRDATABYNAME) pkt (length (grbnresponse_image r)) (put_grbnresponse r rd sg))"
    unfolding lwres_grbnresponse_render_def tz(1) uz(1) Option.bind.simps Let_def l ..
  show "writes b (grbnresponse_image r) (put_grbnresponse r rd sg b)"
    if "lw_wf b" "lw_room b = length (grbnresponse_image r)"
    unfolding grbnresponse_image_def put_grbnresponse_def rd_def sg_def
    by (intro writes_bind writes_put writes_put_string writes_datas)
      (use that s tz(2) uz(2) in \<open>simp_all add: grbnresponse_image_def rd_def sg_def\<close>)
qed (use ok in \<open>simp add: grbnresponse_ok_def\<close>)

lemma grbnresponse_roundtrip:
  assumes ok: "grbnresponse_ok r"
    and mal: "\<And>n. \<exists>buf. malloc n = Some buf \<and> length buf = n" and al: "\<And>i. alloc i"
  shows "\<exists>b p b1 b2. lwres_grbnresponse_render malloc r pkt = Some (LWRES_R_SUCCESS, p, Some b) \<and>
      lwres_lwpacket_parseheader b = Some (Inr p, b1) \<and> lwres_grbnresponse_parse alloc b1 p = Some (Inr r, b2)"
  unfolding grbnresponse_rendered(1) [OF ok]
  by (rule roundtrip_checked, rule message_roundtrip [OF mal grbnresponse_rendered(2) [OF ok] _ grbnresponse_rendered(3) [OF ok]])
    (simp_all add: grbnresponse_parse_ok [OF ok _ _ al])

text \<open>C30: A request for the resource data of a name, and a response with any number of records and
  signatures, are rendered and parsed back unchanged.\<close>

theorem grbn_roundtrip:
  assumes q: "unat (rq_namelen q) = length (rq_name q)" "0 \<notin> set (rq_name q)" and r: "grbnresponse_ok r"
    and mal: "\<And>n. \<exists>buf. malloc n = Some buf \<and> length buf = n" and al: "\<And>i. alloc i"
  shows "(\<exists>b p b1 b2. lwres_grbnrequest_render malloc q pkt = Some (LWRES_R_SUCCESS, p, Some b) \<and>
      lwres_lwpacket_parseheader b = Some (Inr p, b1) \<and> lwres_grbnrequest_parse alloc b1 p = Some (Inr q, b2)) \<and>
    (\<exists>b p b1 b2. lwres_grbnresponse_render malloc r pkt = Some (LWRES_R_SUCCESS, p, Some b) \<and>
      lwres_lwpacket_parseheader b = Some (Inr p, b1) \<and> lwres_grbnresponse_parse alloc b1 p = Some (Inr r, b2))"
  by (intro conjI grbnrequest_roundtrip q mal al grbnresponse_roundtrip r)

section \<open>Every parser returns on every input\<close>

lemma total_inr:
  assumes "returns m" and "\<And>ret b'. lw_wf b' \<Longrightarrow> returns (h ret b')" and "\<And>v b'. lw_wf b' \<Longrightarrow> returns (f v b')"
  shows "returns (m \<bind> (\<lambda>(r, b). case r of Inl ret \<Rightarrow> h ret b | Inr v \<Rightarrow> f v b))"
  by (rule total_bind [OF assms(1)]) (auto simp: assms(2,3) split: sum.splits)

lemma parse_many_total:
  "(\<And>i b. lw_wf b \<Longrightarrow> returns (p i b)) \<Longrightarrow> lw_wf b \<Longrightarrow> returns (parse_many p x n b)"
proof (induction n arbitrary: x b)
  case 0
  then show ?case by (simp add: total_return)
next
  case (Suc n)
  show ?case
    unfolding parse_many.simps
    by (intro total_inr Suc.prems Suc.IH total_return) assumption+
qed

lemmas total_rules = total_inr total_get parse_many_total data_parse_total string_parse_total addr_parse_total total_return

lemma noop_parsers_total:
  assumes "lw_wf b"
  shows "returns (lwres_nooprequest_parse alloc b pkt)" and "returns (lwres_noopresponse_parse alloc b pkt)"
  using assms
  by (auto simp: lwres_nooprequest_parse_def lwres_noopresponse_parse_def parse_noop_def intro!: total_rules
      split: prod.splits)

lemma request_parsers_total:
  assumes "lw_wf b" and "length (la_address a0) = 16"
  shows "returns (lwres_gabnrequest_parse alloc b pkt)" and "returns (lwres_grbnrequest_parse alloc b pkt)"
    and "returns (lwres_gnbarequest_parse alloc a0 b pkt)"
  using assms
  by (auto simp: lwres_gabnrequest_parse_def lwres_grbnrequest_parse_def lwres_gnbarequest_parse_def
      intro!: total_rules split: prod.splits)

lemma response_parsers_total:
  assumes "lw_wf b" and "\<And>x. length (la_address (newaddr x)) = 16"
  shows "returns (lwres_gabnresponse_parse alloc newaddr b pkt)" and "returns (lwres_gnbaresponse_parse alloc b pkt)"
    and "returns (lwres_grbnresponse_parse alloc b pkt)"
  using assms
  by (auto simp: lwres_gabnresponse_parse_def lwres_gnbaresponse_parse_def lwres_grbnresponse_parse_def
      intro!: total_rules split: prod.splits)

text \<open>C31: Every parser, on every well-formed buffer with any contents and any packet header, returns a result
  or an error code; none reads past the received bytes, and the buffer stays well formed.\<close>

theorem lwres_parsers_total:
  assumes wf: "lw_wf b" and na: "\<And>x. length (la_address (newaddr x)) = 16"
  shows "returns (lwres_lwpacket_parseheader b) \<and> returns (lwres_nooprequest_parse alloc b pkt) \<and>
    returns (lwres_noopresponse_parse alloc b pkt) \<and> returns (lwres_gabnrequest_parse alloc b pkt) \<and>
    returns (lwres_gabnresponse_parse alloc newaddr b pkt) \<and> returns (lwres_gnbarequest_parse alloc (newaddr 0) b pkt) \<and>
    returns (lwres_gnbaresponse_parse alloc b pkt) \<and> returns (lwres_grbnrequest_parse alloc b pkt) \<and>
    returns (lwres_grbnresponse_parse alloc b pkt)"
  by (intro conjI parseheader_total [OF wf] noop_parsers_total [OF wf] request_parsers_total [OF wf na [of 0]]
      response_parsers_total [OF wf na])

section \<open>Witnesses\<close>

text \<open>Memory that is zeroed and never runs out, and sample messages.\<close>

definition calloc :: "nat \<Rightarrow> bytes option" where
  "calloc n = Some (replicate n 0)"

definition sample_packet :: lwres_lwpacket where
  "sample_packet = \<lparr>lp_length = 0, lp_version = 0, lp_pktflags = 0, lp_serial = 7, lp_opcode = 0, lp_result = 0,
     lp_recvlength = 1024, lp_authtype = 0, lp_authlength = 0\<rparr>"

definition sample_addr :: lwres_addr where
  "sample_addr = \<lparr>la_family = 1, la_length = 4, la_address = [192, 0, 2, 1] @ replicate 12 0\<rparr>"

lemma calloc_ok: "\<exists>buf. calloc n = Some buf \<and> length buf = n"
  by (simp add: calloc_def)

lemma sample_addr_ok: "addr_ok sample_addr" "length (la_address sample_addr) = 16"
    "la_family sample_addr \<noteq> 0" "la_length sample_addr \<noteq> 0"
  by (simp_all add: sample_addr_def addr_ok_def)

definition sample_noop :: lwres_noop where
  "sample_noop = \<lparr>np_datalength = 3, np_data = [1, 2, 3]\<rparr>"

definition sample_gabnrequest :: lwres_gabnrequest where
  "sample_gabnrequest = \<lparr>gq_flags = 0, gq_addrtypes = 1, gq_namelen = 2, gq_name = [119, 46]\<rparr>"

definition sample_gabnresponse :: lwres_gabnresponse where
  "sample_gabnresponse = \<lparr>gr_flags = 0, gr_naliases = 2, gr_naddrs = 1, gr_realname = [119],
     gr_aliases = [[97, 98], [99]], gr_realnamelen = 1, gr_aliaslen = [2, 1], gr_addrs = [sample_addr]\<rparr>"

definition sample_gnbaresponse :: lwres_gnbaresponse where
  "sample_gnbaresponse = \<lparr>nr_flags = 0, nr_naliases = 1, nr_realname = [119], nr_aliases = [[97, 98]],
     nr_realnamelen = 1, nr_aliaslen = [2]\<rparr>"

definition sample_grbnrequest :: lwres_grbnrequest where
  "sample_grbnrequest = \<lparr>rq_flags = 0, rq_rdclass = 1, rq_rdtype = 15, rq_namelen = 2, rq_name = [119, 46]\<rparr>"

definition sample_grbnresponse :: lwres_grbnresponse where
  "sample_grbnresponse = \<lparr>rr_flags = 0, rr_rdclass = 1, rr_rdtype = 15, rr_ttl = 300, rr_nrdatas = 1, rr_nsigs = 0,
     rr_realname = [119], rr_realnamelen = 1, rr_rdatas = [[0, 5, 97]], rr_rdatalen = [3], rr_sigs = [], rr_siglen = []\<rparr>"

lemma samples_ok:
  "unat (np_datalength sample_noop) = length (np_data sample_noop)"
  "unat (gq_namelen sample_gabnrequest) = length (gq_name sample_gabnrequest)" "0 \<notin> set (gq_name sample_gabnrequest)"
  "gabnresponse_ok sample_gabnresponse" "gnbaresponse_ok sample_gnbaresponse"
  "unat (rq_namelen sample_grbnrequest) = length (rq_name sample_grbnrequest)" "0 \<notin> set (rq_name sample_grbnrequest)"
  "grbnresponse_ok sample_grbnresponse"
  by (simp_all add: sample_noop_def sample_gabnrequest_def sample_gabnresponse_def sample_gnbaresponse_def
      sample_grbnrequest_def sample_grbnresponse_def gabnresponse_ok_def gnbaresponse_ok_def grbnresponse_ok_def
      tabled_def sample_addr_ok length_addr_image gabnresponse_image_def gnbaresponse_image_def
      grbnresponse_image_def) (simp_all add: sample_addr_def)

theorem noop_roundtrip_witness:
  "(\<exists>b p b1 b2. lwres_nooprequest_render calloc sample_noop sample_packet = Some (LWRES_R_SUCCESS, p, Some b) \<and>
      lwres_lwpacket_parseheader b = Some (Inr p, b1) \<and>
      lwres_nooprequest_parse (\<lambda>i. True) b1 p = Some (Inr sample_noop, b2)) \<and>
    (\<exists>b p b1 b2. lwres_noopresponse_render calloc sample_noop sample_packet = Some (LWRES_R_SUCCESS, p, Some b) \<and>
      lwres_lwpacket_parseheader b = Some (Inr p, b1) \<and>
      lwres_noopresponse_parse (\<lambda>i. True) b1 p = Some (Inr sample_noop, b2))"
  by (rule noop_roundtrip [OF samples_ok(1) calloc_ok TrueI])

theorem gabn_roundtrip_witness:
  "(\<exists>b p b1 b2. lwres_gabnrequest_render calloc sample_gabnrequest sample_packet = Some (LWRES_R_SUCCESS, p, Some b) \<and>
      lwres_lwpacket_parseheader b = Some (Inr p, b1) \<and>
      lwres_gabnrequest_parse (\<lambda>i. True) b1 p = Some (Inr sample_gabnrequest, b2)) \<and>
    (\<exists>b p b1 b2. lwres_gabnresponse_render calloc sample_gabnresponse sample_packet =
        Some (LWRES_R_SUCCESS, p, Some b) \<and>
      lwres_lwpacket_parseheader b = Some (Inr p, b1) \<and>
      lwres_gabnresponse_parse (\<lambda>i. True) (\<lambda>x. sample_addr) b1 p =
        Some (Inr (gabnresponse_into (\<lambda>x. sample_addr) sample_gabnresponse), b2))"
  by (rule gabn_roundtrip [OF samples_ok(2,3,4) calloc_ok TrueI sample_addr_ok(2)])

theorem gnba_roundtrip_witness:
  "(\<exists>b p b1 b2. lwres_gnbarequest_render calloc \<lparr>nq_flags = 0, nq_addr = sample_addr\<rparr> sample_packet =
        Some (LWRES_R_SUCCESS, p, Some b) \<and>
      lwres_lwpacket_parseheader b = Some (Inr p, b1) \<and>
      lwres_gnbarequest_parse (\<lambda>i. True) sample_addr b1 p =
        Some (Inr \<lparr>nq_flags = 0, nq_addr = addr_into sample_addr sample_addr\<rparr>, b2)) \<and>
    (\<exists>b p b1 b2. lwres_gnbaresponse_render calloc sample_gnbaresponse sample_packet =
        Some (LWRES_R_SUCCESS, p, Some b) \<and>
      lwres_lwpacket_parseheader b = Some (Inr p, b1) \<and>
      lwres_gnbaresponse_parse (\<lambda>i. True) b1 p = Some (Inr sample_gnbaresponse, b2))"
  using gnba_roundtrip [of "\<lparr>nq_flags = 0, nq_addr = sample_addr\<rparr>" sample_gnbaresponse calloc "\<lambda>i. True" sample_addr
      sample_packet] sample_addr_ok samples_ok(5) calloc_ok by simp

theorem grbn_roundtrip_witness:
  "(\<exists>b p b1 b2. lwres_grbnrequest_render calloc sample_grbnrequest sample_packet = Some (LWRES_R_SUCCESS, p, Some b) \<and>
      lwres_lwpacket_parseheader b = Some (Inr p, b1) \<and>
      lwres_grbnrequest_parse (\<lambda>i. True) b1 p = Some (Inr sample_grbnrequest, b2)) \<and>
    (\<exists>b p b1 b2. lwres_grbnresponse_render calloc sample_grbnresponse sample_packet =
        Some (LWRES_R_SUCCESS, p, Some b) \<and>
      lwres_lwpacket_parseheader b = Some (Inr p, b1) \<and>
      lwres_grbnresponse_parse (\<lambda>i. True) b1 p = Some (Inr sample_grbnresponse, b2))"
  by (rule grbn_roundtrip [OF samples_ok(6,7,8) calloc_ok TrueI])

definition sample_lwbuffer :: lwres_buffer where
  "sample_lwbuffer = (lwres_buffer_init [0, 0, 0, 9] 4)\<lparr>l_used := 4\<rparr>"

theorem lwres_parsers_total_witness:
  "returns (lwres_lwpacket_parseheader sample_lwbuffer) \<and>
    returns (lwres_nooprequest_parse (\<lambda>i. True) sample_lwbuffer sample_packet) \<and>
    returns (lwres_gabnresponse_parse (\<lambda>i. i = 0) (\<lambda>x. sample_addr) sample_lwbuffer sample_packet) \<and>
    returns (lwres_grbnresponse_parse (\<lambda>i. False) sample_lwbuffer sample_packet)"
proof -
  have wf: "lw_wf sample_lwbuffer"
    by (simp add: sample_lwbuffer_def lwres_buffer_init_def lw_wf_def LWRES_BUFFER_VALID_def)
  show ?thesis
    using lwres_parsers_total [OF wf sample_addr_ok(2), of "\<lambda>i. True" sample_packet]
      lwres_parsers_total [OF wf sample_addr_ok(2), of "\<lambda>i. i = 0" sample_packet]
      lwres_parsers_total [OF wf sample_addr_ok(2), of "\<lambda>i. False" sample_packet] by simp
qed

end
