(* ===== verification/Lwres_Client.thy ===== *)
theory Lwres_Client
  imports Lwres_Messages
begin

text \<open>
  The client side of the lightweight resolver: the context of \<open>lib/lwres/context.c\<close> (connecting,
  sending, waiting for a reply from the configured server) and the three queries of
  \<open>lib/lwres/lwresutil.c\<close>.

  The kernel is a parameter: the answers of \<open>socket\<close>, \<open>connect\<close>, \<open>fcntl\<close>, \<open>sendto\<close>, \<open>select\<close> and
  \<open>recvfrom\<close> are given to the functions as values. The two loops \<open>again:\<close> run for as long as the
  kernel delivers datagrams that do not answer the query, so they recurse over the list of these
  answers, and \<open>None\<close> is also the result of a run that is still waiting at the end of the list. A query also
  returns the packets it has sent. What \<open>time\<close> and the allocator return are arguments as well.
\<close>

section \<open>Contexts\<close>

definition LWRES_ADDRTYPE_V4 :: u32 where "LWRES_ADDRTYPE_V4 = 1"
definition LWRES_ADDRTYPE_V6 :: u32 where "LWRES_ADDRTYPE_V6 = 2"
definition LWRES_UDP_PORT :: u16 where "LWRES_UDP_PORT = 921"
definition LWRES_RECVLENGTH :: nat where "LWRES_RECVLENGTH = 16384"
definition FD_SETSIZE :: int where "FD_SETSIZE = 1024"
definition LWRES_CONTEXT_USEIPV4 :: u32 where "LWRES_CONTEXT_USEIPV4 = 2"
definition LWRES_CONTEXT_USEIPV6 :: u32 where "LWRES_CONTEXT_USEIPV6 = 4"

text \<open>Of the configuration read from \<open>resolv.conf\<close>, the servers \<open>confdata.lwservers[0 .. lwnext - 1]\<close>. The
  last field is the global variable \<open>lwres_udp_port\<close>, which is initialised to \<open>LWRES_UDP_PORT\<close> and which the program may
  set to another port; no function of the library changes it.\<close>

record lwres_context =
  lc_timeout :: u32
  lc_serial :: u32
  lc_sock :: int
  lc_address :: lwres_addr
  lc_use_ipv4 :: bool
  lc_use_ipv6 :: bool
  lc_lwservers :: "lwres_addr list"
  lwres_udp_port :: u16

text \<open>\<open>fresh\<close> is the content of the memory the allocator returned.\<close>

definition lwres_context_create :: "lwres_context option \<Rightarrow> u32 \<Rightarrow> u32 \<Rightarrow> lwres_result + lwres_context" where
  "lwres_context_create fresh now flags =
     (case fresh of
        None \<Rightarrow> Inl LWRES_R_NOMEMORY
      | Some ctx \<Rightarrow>
          (let v = flags AND (LWRES_CONTEXT_USEIPV4 OR LWRES_CONTEXT_USEIPV6)
           in Inr (ctx\<lparr>lc_sock := -1, lc_timeout := 120, lc_serial := now,
                lc_use_ipv4 := (v \<noteq> LWRES_CONTEXT_USEIPV6), lc_use_ipv6 := (v \<noteq> LWRES_CONTEXT_USEIPV4),
                lc_lwservers := []\<rparr>)))"

definition lwres_context_nextserial :: "lwres_context \<Rightarrow> u32 \<times> lwres_context" where
  "lwres_context_nextserial ctx = (lc_serial ctx, ctx\<lparr>lc_serial := lc_serial ctx + 1\<rparr>)"

definition lwres_context_initserial :: "lwres_context \<Rightarrow> u32 \<Rightarrow> lwres_context" where
  "lwres_context_initserial ctx serial = ctx\<lparr>lc_serial := serial\<rparr>"

text \<open>The descriptor that is closed, if there is one.\<close>

definition lwres_context_destroy :: "lwres_context \<Rightarrow> int option" where
  "lwres_context_destroy ctx = (if lc_sock ctx \<noteq> -1 then Some (lc_sock ctx) else None)"

definition lwres_context_getsocket :: "lwres_context \<Rightarrow> int" where
  "lwres_context_getsocket ctx = lc_sock ctx"

section \<open>Sending and receiving\<close>

text \<open>The answers of the kernel while a socket is set up.\<close>

record connecting =
  k_socket :: int
  k_connect :: int
  k_fcntl :: int

definition context_connect :: "connecting \<Rightarrow> lwres_context \<Rightarrow> lwres_result \<times> lwres_context" where
  "context_connect k ctx =
     (let ctx = (case lc_lwservers ctx of
            s # _ \<Rightarrow> ctx\<lparr>lc_address := s\<rparr>
          | [] \<Rightarrow> ctx\<lparr>lc_address := \<lparr>la_family = LWRES_ADDRTYPE_V4, la_length = 4,
                   la_address = [127, 0, 0, 1] @ replicate 12 0\<rparr>\<rparr>)
      in if la_family (lc_address ctx) \<noteq> LWRES_ADDRTYPE_V4 \<and> la_family (lc_address ctx) \<noteq> LWRES_ADDRTYPE_V6
         then (LWRES_R_IOERROR, ctx)
         else if k_socket k < 0 then (LWRES_R_IOERROR, ctx)
         else if k_connect k \<noteq> 0 then (LWRES_R_IOERROR, ctx)
         else if k_fcntl k < 0 then (LWRES_R_IOERROR, ctx)
         else (LWRES_R_SUCCESS, ctx\<lparr>lc_sock := k_socket k\<rparr>))"

definition lwres_context_send ::
    "connecting \<Rightarrow> (bytes \<Rightarrow> int) \<Rightarrow> lwres_context \<Rightarrow> bytes \<Rightarrow> (lwres_result \<times> lwres_context) option" where
  "lwres_context_send k sendto ctx msg =
     (let unconnected = (lc_sock ctx = -1);
          (lwresult, ctx) = (if unconnected then context_connect k ctx else (LWRES_R_SUCCESS, ctx))
      in if lwresult \<noteq> LWRES_R_SUCCESS then Some (lwresult, ctx)
         else do {
           REQUIRE (unconnected \<longrightarrow> lc_sock ctx \<ge> 0);
           let ret = sendto msg in
           if ret < 0 then Some (LWRES_R_IOERROR, ctx)
           else if ret \<noteq> int (length msg) then Some (LWRES_R_IOERROR, ctx)
           else Some (LWRES_R_SUCCESS, ctx) })"

text \<open>What \<open>recvfrom\<close> reports: an error, or a datagram and the address it came from. A datagram longer
  than the buffer is cut off.\<close>

record source =
  src_len :: nat
  src_addr :: bytes
  src_port :: u16

type_synonym datagram = "(bytes \<times> source) option"

definition from_server :: "lwres_context \<Rightarrow> source \<Rightarrow> bool" where
  "from_server ctx s =
     (let n = (if la_family (lc_address ctx) = LWRES_ADDRTYPE_V4 then 4 else 16);
          size = (if la_family (lc_address ctx) = LWRES_ADDRTYPE_V4 then 16 else 28)
      in \<not> (src_len s \<noteq> size \<or> take n (src_addr s) \<noteq> take n (la_address (lc_address ctx)) \<or>
            src_port s \<noteq> lwres_udp_port ctx))"

definition lwres_context_recv :: "lwres_context \<Rightarrow> nat \<Rightarrow> datagram \<Rightarrow> lwres_result + bytes" where
  "lwres_context_recv ctx recvlen d =
     (case d of
        None \<Rightarrow> Inl LWRES_R_IOERROR
      | Some (msg, s) \<Rightarrow>
          (let ret = min (length msg) recvlen
           in if ret = recvlen then Inl LWRES_R_TOOLARGE
              else if \<not> from_server ctx s then Inl LWRES_R_RETRY
              else Inr (take ret msg)))"

fun wait_reply :: "lwres_context \<Rightarrow> nat \<Rightarrow> (int \<times> datagram) list \<Rightarrow> (lwres_result + bytes) option" where
  "wait_reply ctx recvlen [] = None"
| "wait_reply ctx recvlen ((ret2, d) # rest) =
     (if ret2 < 0 then Some (Inl LWRES_R_IOERROR)
      else if ret2 = 0 then Some (Inl LWRES_R_TIMEOUT)
      else (let result = lwres_context_recv ctx recvlen d
            in if result = Inl LWRES_R_RETRY then wait_reply ctx recvlen rest else Some result))"

text \<open>The answers of the kernel to one round of a query, with the memory for the packet.\<close>

record round =
  rd_malloc :: "nat \<Rightarrow> bytes option"
  rd_connect :: connecting
  rd_sendto :: "bytes \<Rightarrow> int"
  rd_waits :: "(int \<times> datagram) list"

definition lwres_context_sendrecv ::
    "round \<Rightarrow> lwres_context \<Rightarrow> bytes \<Rightarrow> nat \<Rightarrow> ((lwres_result + bytes) \<times> lwres_context) option" where
  "lwres_context_sendrecv rd ctx msg recvlen = do {
     (result, ctx) \<leftarrow> lwres_context_send (rd_connect rd) (rd_sendto rd) ctx msg;
     if result \<noteq> LWRES_R_SUCCESS then Some (Inl result, ctx)
     else if lc_sock ctx \<ge> FD_SETSIZE then Some (Inl LWRES_R_IOERROR, ctx\<lparr>lc_sock := -1\<rparr>)
     else do {
       r \<leftarrow> wait_reply ctx recvlen (rd_waits rd);
       Some (r, ctx) } }"

section \<open>Queries\<close>

text \<open>A query returns a code of this library or the code in the reply of the server.\<close>

datatype query_error = Local lwres_result | Remote u32

text \<open>The loop all queries share: render and send the request, wait, parse the header of the reply,
  start again while the serial or the opcode is not the expected one. \<open>pkt\<close> is the header structure
  that the request is rendered from and that the header of the reply is parsed into.\<close>

fun query_loop ::
    "((nat \<Rightarrow> bytes option) \<Rightarrow> lwres_lwpacket \<Rightarrow> (lwres_result \<times> lwres_lwpacket \<times> lwres_buffer option) option) \<Rightarrow>
     u32 \<Rightarrow> (lwres_buffer \<Rightarrow> lwres_lwpacket \<Rightarrow> ((lwres_result + 'r) \<times> lwres_buffer) option) \<Rightarrow>
     u32 \<Rightarrow> round list \<Rightarrow> lwres_context \<Rightarrow> lwres_lwpacket \<Rightarrow>
     ((query_error + 'r) \<times> lwres_context \<times> bytes list) option" where
  "query_loop render opcode parse serial [] ctx pkt = None"
| "query_loop render opcode parse serial (rd # rds) ctx pkt = do {
     (ret, pkt, b_out) \<leftarrow> render (rd_malloc rd) pkt;
     case b_out of
       None \<Rightarrow> Some (Inl (Local ret), ctx, [])
     | Some b_out \<Rightarrow>
         if ret \<noteq> LWRES_R_SUCCESS then Some (Inl (Local ret), ctx, [])
         else do {
           (r, ctx) \<leftarrow> lwres_context_sendrecv rd ctx (l_base b_out) LWRES_RECVLENGTH;
           case r of
             Inl ret \<Rightarrow> Some (Inl (Local ret), ctx, [l_base b_out])
           | Inr msg \<Rightarrow>
               (let b_in = (lwres_buffer_init msg (of_nat (length msg)))\<lparr>l_used := of_nat (length msg)\<rparr>
                in do {
                  (h, b_in) \<leftarrow> lwres_lwpacket_parseheader b_in;
                  case h of
                    Inl ret \<Rightarrow> Some (Inl (Local ret), ctx, [l_base b_out])
                  | Inr pkt \<Rightarrow>
                      if lp_serial pkt \<noteq> serial \<or> lp_opcode pkt \<noteq> opcode then do {
                        (r, ctx, sent) \<leftarrow> query_loop render opcode parse serial rds ctx pkt;
                        Some (r, ctx, l_base b_out # sent) }
                      else if lp_result pkt \<noteq> 0 then Some (Inl (Remote (lp_result pkt)), ctx, [l_base b_out])
                      else do {
                        (v, b_in) \<leftarrow> parse b_in pkt;
                        Some (case v of Inl ret \<Rightarrow> Inl (Local ret) | Inr response \<Rightarrow> Inr response, ctx,
                          [l_base b_out]) } }) } }"

text \<open>The header structure before the first round; \<open>junk\<close> is its uninitialised content.\<close>

definition query_packet :: "lwres_lwpacket \<Rightarrow> u32 \<Rightarrow> lwres_lwpacket" where
  "query_packet junk serial = junk\<lparr>lp_pktflags := 0, lp_serial := serial, lp_result := 0,
     lp_recvlength := of_nat LWRES_RECVLENGTH\<rparr>"

text \<open>\<open>bufok\<close>: whether the buffer for the reply could be allocated; \<open>name\<close>: the bytes of the string.\<close>

definition lwres_getaddrsbyname where
  "lwres_getaddrsbyname bufok junk alloc newaddr rds ctx name addrtypes = do {
     REQUIRE (addrtypes \<noteq> 0);
     let (serial, ctx) = lwres_context_nextserial ctx; target_length = strlen name in
     if \<not> bufok then Some (Inl (Local LWRES_R_NOMEMORY), ctx, [])
     else if target_length \<ge> 1024 then Some (Inl (Local LWRES_R_FAILURE), ctx, [])
     else query_loop
       (\<lambda>malloc. lwres_gabnrequest_render malloc
          \<lparr>gq_flags = 0, gq_addrtypes = addrtypes, gq_namelen = of_nat target_length, gq_name = take target_length name\<rparr>)
       LWRES_OPCODE_GETADDRSBYNAME (lwres_gabnresponse_parse alloc newaddr) serial rds ctx
       (query_packet junk serial) }"

text \<open>\<open>address\<close> is the uninitialised field \<open>request.addr.address\<close>, of 16 bytes.\<close>

definition lwres_getnamebyaddr where
  "lwres_getnamebyaddr bufok junk address alloc rds ctx addrtype addrlen addr = do {
     REQUIRE (addrtype \<noteq> 0);
     REQUIRE (addrlen \<noteq> (0::u16));
     let (serial, ctx) = lwres_context_nextserial ctx in
     if \<not> bufok then Some (Inl (Local LWRES_R_NOMEMORY), ctx, [])
     else do {
       src \<leftarrow> mem_read addr 0 (unat addrlen);
       a \<leftarrow> mem_write address 0 src;
       query_loop
         (\<lambda>malloc. lwres_gnbarequest_render malloc
            \<lparr>nq_flags = 0, nq_addr = \<lparr>la_family = addrtype, la_length = addrlen, la_address = a\<rparr>\<rparr>)
         LWRES_OPCODE_GETNAMEBYADDR (lwres_gnbaresponse_parse alloc) serial rds ctx
         (query_packet junk serial) } }"

definition lwres_getrdatabyname where
  "lwres_getrdatabyname bufok junk alloc rds ctx name rdclass rdtype flags =
     (let (serial, ctx) = lwres_context_nextserial ctx; target_length = strlen name in
     if \<not> bufok then Some (Inl (Local LWRES_R_NOMEMORY), ctx, [])
     else if target_length \<ge> 1024 then Some (Inl (Local LWRES_R_FAILURE), ctx, [])
     else query_loop
       (\<lambda>malloc. lwres_grbnrequest_render malloc
          \<lparr>rq_flags = flags, rq_rdclass = rdclass, rq_rdtype = rdtype, rq_namelen = of_nat target_length,
           rq_name = take target_length name\<rparr>)
       LWRES_OPCODE_GETRDATABYNAME (lwres_grbnresponse_parse alloc) serial rds ctx
       (query_packet junk serial))"

section \<open>Waiting for a reply\<close>

lemma wait_reply_from_server:
  assumes "wait_reply ctx n ws = Some (Inr msg)"
  shows "\<exists>ret2 s. (ret2, Some (msg, s)) \<in> set ws \<and> from_server ctx s \<and> length msg < n"
  using assms
proof (induction ctx n ws rule: wait_reply.induct)
  case (2 ctx n ret2 d rest)
  show ?case
  proof (cases "lwres_context_recv ctx n d = Inl LWRES_R_RETRY")
    case True
    then show ?thesis using 2 by (fastforce split: if_splits)
  next
    case False
    then have "lwres_context_recv ctx n d = Inr msg" using 2 by (auto simp: Let_def split: if_splits)
    then obtain s where "d = Some (msg, s)" "from_server ctx s" "length msg < n"
      by (auto simp: lwres_context_recv_def Let_def min_def split: option.splits if_splits)
    then show ?thesis by auto
  qed
qed simp

lemma wait_reply_skips:
  assumes "list_all (\<lambda>(m, s). length m < n \<and> \<not> from_server ctx s) strays"
    and "from_server ctx s" and "length msg < n"
  shows "wait_reply ctx n (map (\<lambda>d. (1, Some d)) strays @ (1, Some (msg, s)) # rest) = Some (Inr msg)"
  using assms by (induction strays) (auto simp: lwres_context_recv_def Let_def min_def)

text \<open>The context once a socket is available.\<close>

definition established :: "connecting \<Rightarrow> lwres_context \<Rightarrow> lwres_context option" where
  "established k ctx =
     (if lc_sock ctx \<noteq> -1 then Some ctx
      else if fst (context_connect k ctx) = LWRES_R_SUCCESS then Some (snd (context_connect k ctx)) else None)"

lemma context_connect_sock: "fst (context_connect k ctx) = LWRES_R_SUCCESS \<Longrightarrow> 0 \<le> lc_sock (snd (context_connect k ctx))"
  by (auto simp: context_connect_def Let_def split: if_splits list.splits)

lemma send_established:
  assumes "established k ctx = Some ctx'" and "sendto msg = int (length msg)"
  shows "lwres_context_send k sendto ctx msg = Some (LWRES_R_SUCCESS, ctx')"
  using assms context_connect_sock [of k ctx]
  by (auto simp: established_def lwres_context_send_def Let_def split: if_splits prod.splits)

text \<open>A round whose request is sent and which, after any number of datagrams from elsewhere, receives
  \<open>msg\<close> from the server.\<close>

definition delivers :: "round \<Rightarrow> lwres_context \<Rightarrow> bytes \<Rightarrow> bool" where
  "delivers rd ctx' msg \<longleftrightarrow> (\<forall>m. rd_sendto rd m = int (length m)) \<and> lc_sock ctx' < FD_SETSIZE \<and>
     length msg < LWRES_RECVLENGTH \<and>
     (\<exists>strays s rest. rd_waits rd = map (\<lambda>d. (1, Some d)) strays @ (1, Some (msg, s)) # rest \<and> from_server ctx' s \<and>
        list_all (\<lambda>(m, s). length m < LWRES_RECVLENGTH \<and> \<not> from_server ctx' s) strays)"

lemma sendrecv_delivers:
  assumes "established (rd_connect rd) ctx = Some ctx'" and "delivers rd ctx' msg"
  shows "lwres_context_sendrecv rd ctx out LWRES_RECVLENGTH = Some (Inr msg, ctx')"
  using assms send_established [of "rd_connect rd" ctx ctx' "rd_sendto rd" out]
    wait_reply_skips [where ctx = ctx' and n = LWRES_RECVLENGTH and msg = msg]
  by (auto simp: delivers_def lwres_context_sendrecv_def)

section \<open>The buffer of a received message\<close>

definition input_buffer :: "bytes \<Rightarrow> lwres_buffer" where
  "input_buffer msg = (lwres_buffer_init msg (of_nat (length msg)))\<lparr>l_used := of_nat (length msg)\<rparr>"

lemma input_buffer_wf:
  assumes "length msg < 2 ^ 32"
  shows "lw_wf (input_buffer msg)" and "lw_pending (input_buffer msg) = msg"
  using assms
  by (simp_all add: input_buffer_def lwres_buffer_init_def lw_wf_def LWRES_BUFFER_VALID_def lw_pending_def lw_content_def
      unat_of_nat_small)

lemma recvlength_small: "length msg < LWRES_RECVLENGTH \<Longrightarrow> length msg < 2 ^ 32"
  by (simp add: LWRES_RECVLENGTH_def)

lemma parse_input:
  assumes "length img + 28 < LWRES_RECVLENGTH" and "unat (lp_length p) \<le> 28 + length img"
  shows "reads (Inr p) img (lwres_lwpacket_parseheader (input_buffer (header_image p @ img)))"
  using parseheader_ok [of "input_buffer (header_image p @ img)" p img] assms
    input_buffer_wf [of "header_image p @ img"] by (simp add: LWRES_RECVLENGTH_def)

text \<open>A rendered packet is the memory of its buffer.\<close>

lemma rendered_base:
  assumes "lw_wf b" and "lw_pending b = xs" and "l_used b = l_length b" and "length xs = unat (l_used b)"
  shows "l_base b = xs"
proof -
  have "unat (l_current b) = 0"
    using assms length_lw_pending [OF assms(1)] by (auto simp: lw_wf_def)
  then show ?thesis using assms by (auto simp: lw_pending_def lw_content_def lw_wf_def)
qed

section \<open>An exchange with the server\<close>

text \<open>The message a reply was accepted from.\<close>

definition sent_by_server :: "lwres_context \<Rightarrow> source \<Rightarrow> bool" where
  "sent_by_server ctx s \<longleftrightarrow> src_port s = lwres_udp_port ctx \<and>
     (if la_family (lc_address ctx) = LWRES_ADDRTYPE_V4
      then src_len s = 16 \<and> take 4 (src_addr s) = take 4 (la_address (lc_address ctx))
      else src_len s = 28 \<and> take 16 (src_addr s) = take 16 (la_address (lc_address ctx)))"

lemma from_server_sent: "from_server ctx s = sent_by_server ctx s"
  by (auto simp: from_server_def sent_by_server_def)

definition accepted ::
    "round list \<Rightarrow> lwres_context \<Rightarrow> u32 \<Rightarrow> u32 \<Rightarrow>
     (lwres_buffer \<Rightarrow> lwres_lwpacket \<Rightarrow> ((lwres_result + 'r) \<times> lwres_buffer) option) \<Rightarrow> 'r \<Rightarrow> bool" where
  "accepted rds ctx serial opcode parse v \<longleftrightarrow>
     (\<exists>rd \<in> set rds. \<exists>ret2 msg s h b1 b2. (ret2, Some (msg, s)) \<in> set (rd_waits rd) \<and> sent_by_server ctx s \<and>
        length msg < LWRES_RECVLENGTH \<and> lwres_lwpacket_parseheader (input_buffer msg) = Some (Inr h, b1) \<and>
        lp_serial h = serial \<and> lp_opcode h = opcode \<and> lp_result h = 0 \<and> parse b1 h = Some (Inr v, b2))"

lemma sendrecv_accepts:
  assumes "lwres_context_sendrecv rd ctx out n = Some (Inr msg, ctx')"
  shows "\<exists>ret2 s. (ret2, Some (msg, s)) \<in> set (rd_waits rd) \<and> sent_by_server ctx' s \<and> length msg < n"
proof -
  have "wait_reply ctx' n (rd_waits rd) = Some (Inr msg)"
    using assms unfolding lwres_context_sendrecv_def
    by (auto elim!: bind_SomeE split: prod.splits if_splits)
  then show ?thesis using wait_reply_from_server [of ctx' n] by (simp add: from_server_sent)
qed

lemma query_loop_accepted:
  assumes "query_loop render opcode parse serial rds ctx pkt = Some (Inr v, ctx', sent)"
  shows "accepted rds ctx' serial opcode parse v"
  using assms
proof (induction rds arbitrary: ctx pkt sent)
  case (Cons rd rds)
  obtain ret pkt1 b_out where 1: "render (rd_malloc rd) pkt = Some (ret, pkt1, Some b_out)" "ret = LWRES_R_SUCCESS"
    using Cons.prems by (auto elim!: bind_SomeE split: prod.splits option.splits if_splits)
  obtain msg ctx1 where 2: "lwres_context_sendrecv rd ctx (l_base b_out) LWRES_RECVLENGTH = Some (Inr msg, ctx1)"
    using Cons.prems 1 by (auto elim!: bind_SomeE split: prod.splits sum.splits)
  obtain h b1 where 3: "lwres_lwpacket_parseheader (input_buffer msg) = Some (Inr h, b1)"
    using Cons.prems 1 2 by (auto simp: input_buffer_def Let_def elim!: bind_SomeE split: prod.splits sum.splits)
  show ?case
  proof (cases "lp_serial h \<noteq> serial \<or> lp_opcode h \<noteq> opcode")
    case True
    then obtain sent' where "query_loop render opcode parse serial rds ctx1 h = Some (Inr v, ctx', sent')"
      using Cons.prems 1 2 3 by (auto simp: input_buffer_def Let_def elim!: bind_SomeE split: prod.splits)
    from Cons.IH [OF this] show ?thesis by (auto simp: accepted_def)
  next
    case False
    then have r: "lp_result h = 0" and c: "ctx1 = ctx'"
      using Cons.prems 1 2 3 by (auto simp: input_buffer_def Let_def elim!: bind_SomeE split: if_splits prod.splits)
    then obtain b2 where "parse b1 h = Some (Inr v, b2)"
      using Cons.prems 1 2 3 False
      by (auto simp: input_buffer_def Let_def elim!: bind_SomeE split: prod.splits sum.splits)
    then show ?thesis
      using sendrecv_accepts [OF 2] 3 False r c unfolding accepted_def by (auto intro!: bexI [of _ rd]) 
  qed
qed simp

definition malloc_ok :: "(nat \<Rightarrow> bytes option) \<Rightarrow> bool" where
  "malloc_ok malloc \<longleftrightarrow> (\<forall>n. \<exists>buf. malloc n = Some buf \<and> length buf = n)"

text \<open>What a query relies on: its requests are rendered to a header and a payload, and its parser reads
  the payload of a response. \<open>env\<close> stands for the memory the parser is given.\<close>

locale lwres_exchange =
  fixes opcode :: u32
    and req_ok :: "'q \<Rightarrow> bool"
    and req_image :: "'q \<Rightarrow> bytes"
    and render :: "'q \<Rightarrow> (nat \<Rightarrow> bytes option) \<Rightarrow> lwres_lwpacket \<Rightarrow>
      (lwres_result \<times> lwres_lwpacket \<times> lwres_buffer option) option"
    and resp_ok :: "'r \<Rightarrow> bool"
    and resp_image :: "'r \<Rightarrow> bytes"
    and env_ok :: "'e \<Rightarrow> bool"
    and into :: "'e \<Rightarrow> 'r \<Rightarrow> 'r"
    and respond :: "'r \<Rightarrow> (nat \<Rightarrow> bytes option) \<Rightarrow> lwres_lwpacket \<Rightarrow>
      (lwres_result \<times> lwres_lwpacket \<times> lwres_buffer option) option"
    and parse :: "'e \<Rightarrow> lwres_buffer \<Rightarrow> lwres_lwpacket \<Rightarrow> ((lwres_result + 'r) \<times> lwres_buffer) option"
  assumes render_ok: "req_ok q \<Longrightarrow> malloc_ok malloc \<Longrightarrow>
      \<exists>b. render q malloc pkt = Some (LWRES_R_SUCCESS, request_packet opcode (of_nat (28 + length (req_image q))) pkt, Some b) \<and>
        l_base b = header_image (request_packet opcode (of_nat (28 + length (req_image q))) pkt) @ req_image q"
    and respond_ok: "resp_ok r \<Longrightarrow> malloc_ok malloc \<Longrightarrow>
      \<exists>b. respond r malloc pkt = Some (LWRES_R_SUCCESS, response_packet opcode (of_nat (28 + length (resp_image r))) pkt, Some b) \<and>
        l_base b = header_image (response_packet opcode (of_nat (28 + length (resp_image r))) pkt) @ resp_image r"
    and parse_ok: "resp_ok r \<Longrightarrow> env_ok e \<Longrightarrow> lw_wf b \<Longrightarrow> lw_pending b = resp_image r \<Longrightarrow>
      reads (Inr (into e r)) [] (parse e b (response_packet opcode len pkt))"
begin

definition request :: "'q \<Rightarrow> lwres_lwpacket \<Rightarrow> bytes" where
  "request q pkt = header_image (request_packet opcode (of_nat (28 + length (req_image q))) pkt) @ req_image q"

definition response :: "'r \<Rightarrow> lwres_lwpacket \<Rightarrow> bytes" where
  "response r pkt = header_image (response_packet opcode (of_nat (28 + length (resp_image r))) pkt) @ resp_image r"

lemma response_parsed:
  assumes "length (response r pkt) < LWRES_RECVLENGTH" and "resp_ok r" and "env_ok e"
  shows "\<exists>b1 b2. lwres_lwpacket_parseheader (input_buffer (response r pkt)) =
      Some (Inr (response_packet opcode (of_nat (28 + length (resp_image r))) pkt), b1) \<and>
    parse e b1 (response_packet opcode (of_nat (28 + length (resp_image r))) pkt) = Some (Inr (into e r), b2)"
proof -
  let ?p = "response_packet opcode (of_nat (28 + length (resp_image r))) pkt"
  have l: "28 + length (resp_image r) < LWRES_RECVLENGTH" using assms(1) by (simp add: response_def)
  then have "reads (Inr ?p) (resp_image r) (lwres_lwpacket_parseheader (input_buffer (header_image ?p @ resp_image r)))"
    by (intro parse_input) (simp_all add: LWRES_RECVLENGTH_def unat_of_nat_small del: of_nat_add)
  then obtain b1 where b1: "lwres_lwpacket_parseheader (input_buffer (response r pkt)) = Some (Inr ?p, b1)"
      "lw_wf b1" "lw_pending b1 = resp_image r" by (auto simp: reads_def response_def)
  then show ?thesis using parse_ok [OF assms(2,3) b1(2,3)] by (auto simp: reads_def)
qed

text \<open>One round in which the server's reply to the query arrives.\<close>

lemma answered:
  assumes "req_ok q" and "malloc_ok (rd_malloc rd)" and "established (rd_connect rd) ctx = Some ctx'"
    and d: "delivers rd ctx' (l_base b)" and "resp_ok r" and "env_ok e"
    and b: "respond r m pkt = Some (LWRES_R_SUCCESS, p, Some b)" "malloc_ok m"
    and "lp_serial pkt = serial" and "lp_result pkt = 0"
  shows "query_loop (\<lambda>m. render q m) opcode (parse e) serial (rd # rds) ctx pkt0 =
    Some (Inr (into e r), ctx', [request q pkt0])"
proof -
  have r: "l_base b = response r pkt"
    using respond_ok [OF assms(5) b(2), of pkt] b(1) by (auto simp: response_def)
  then have "length (response r pkt) < LWRES_RECVLENGTH" using d by (simp add: delivers_def)
  from response_parsed [OF this assms(5,6)] render_ok [OF assms(1,2), of pkt0]
    sendrecv_delivers [OF assms(3) d [unfolded r]]
  show ?thesis using assms(9,10)
    by (auto simp: input_buffer_def request_def response_packet_def Let_def)
qed

text \<open>A round that receives a packet from the server with another serial or opcode: the loop goes on
  with the header of that packet.\<close>

lemma retried:
  assumes "req_ok q" and "malloc_ok (rd_malloc rd)" and "established (rd_connect rd) ctx = Some ctx'"
    and d: "delivers rd ctx' msg" and h: "lwres_lwpacket_parseheader (input_buffer msg) = Some (Inr h, b1)"
    and "lp_serial h \<noteq> serial \<or> lp_opcode h \<noteq> opcode"
  shows "query_loop (\<lambda>m. render q m) opcode (parse e) serial (rd # rds) ctx pkt0 =
    map_option (\<lambda>(r, c, sent). (r, c, request q pkt0 # sent))
      (query_loop (\<lambda>m. render q m) opcode (parse e) serial rds ctx' h)"
proof -
  have "Option.bind m (\<lambda>(r, c, sent). Some (r, c, x # sent)) = map_option (\<lambda>(r, c, sent). (r, c, x # sent)) m"
    for m :: "('x \<times> 'y \<times> 'z list) option" and x
    by (cases m) auto
  then show ?thesis
    using render_ok [OF assms(1,2), of pkt0] sendrecv_delivers [OF assms(3) d] h assms(6)
    by (auto simp: input_buffer_def request_def Let_def)
qed

end

section \<open>The three queries\<close>

lemma rendered:
  fixes mkpkt :: "u32 \<Rightarrow> lwres_lwpacket \<Rightarrow> lwres_lwpacket" and pkt :: lwres_lwpacket
  assumes "malloc_ok malloc" and "28 + length img < 2 ^ 32"
    and "\<And>b. lw_wf b \<Longrightarrow> lw_room b = length img \<Longrightarrow> writes b img (put b)"
  defines "p \<equiv> mkpkt (of_nat (28 + length img)) pkt"
  shows "\<exists>b. render_message malloc mkpkt pkt (length img) put = Some (LWRES_R_SUCCESS, p, Some b) \<and>
    l_base b = header_image p @ img \<and> l_used b = of_nat (28 + length img)"
proof -
  obtain buf where m: "malloc (28 + length img) = Some buf" "length buf = 28 + length img"
    using assms(1) by (auto simp: malloc_ok_def)
  obtain b where b: "render_message malloc mkpkt pkt (length img) put = Some (LWRES_R_SUCCESS, p, Some b)"
      "lw_wf b" "lw_pending b = header_image p @ img" "l_used b = of_nat (28 + length img)"
    using render_message_ok [where malloc = malloc and put = put and img = img and mkpkt = mkpkt
        and pkt = pkt, OF m assms(2,3) refl] by (auto simp: p_def)
  have u: "unat (l_used b) = 28 + length img" using b(4) assms(2) by (simp add: unat_of_nat_small del: of_nat_add)
  have av: "LWRES_BUFFER_AVAILABLECOUNT b = 0"
    using b(1) by (auto simp: render_message_def Let_def elim!: bind_SomeE split: option.splits if_splits prod.splits)
  then have "l_used b = l_length b" by (simp add: LWRES_BUFFER_AVAILABLECOUNT_def)
  then have "l_base b = header_image p @ img"
    using b u by (intro rendered_base) simp_all
  then show ?thesis using b by blast
qed

lemma rendered_checked:
  fixes mkpkt :: "u32 \<Rightarrow> lwres_lwpacket \<Rightarrow> lwres_lwpacket" and pkt :: lwres_lwpacket
  assumes "malloc_ok malloc" and "28 + length img < 2 ^ 32"
    and "\<And>b. lw_wf b \<Longrightarrow> lw_room b = length img \<Longrightarrow> writes b img (put b)"
    and "\<And>n. lp_length (mkpkt n pkt) = n"
  defines "p \<equiv> mkpkt (of_nat (28 + length img)) pkt"
  shows "\<exists>b. check_length (render_message malloc mkpkt pkt (length img) put) = Some (LWRES_R_SUCCESS, p, Some b) \<and>
    l_base b = header_image p @ img"
  using rendered [where mkpkt = mkpkt and pkt = pkt, OF assms(1-3)] assms(4) check_length_ok
  unfolding p_def by (metis (no_types, lifting))

definition gabnrequest_ok :: "lwres_gabnrequest \<Rightarrow> bool" where
  "gabnrequest_ok r \<longleftrightarrow> unat (gq_namelen r) = length (gq_name r) \<and> 0 \<notin> set (gq_name r)"

definition grbnrequest_ok :: "lwres_grbnrequest \<Rightarrow> bool" where
  "grbnrequest_ok r \<longleftrightarrow> unat (rq_namelen r) = length (rq_name r) \<and> 0 \<notin> set (rq_name r)"

definition gnbarequest_ok :: "lwres_gnbarequest \<Rightarrow> bool" where
  "gnbarequest_ok r \<longleftrightarrow> addr_ok (nq_addr r) \<and> la_family (nq_addr r) \<noteq> 0 \<and> la_length (nq_addr r) \<noteq> 0"

text \<open>The memory the parsers are given: every allocation succeeds, addresses have 16 bytes.\<close>

definition parser_env :: "(nat \<Rightarrow> bool) \<times> (nat \<Rightarrow> lwres_addr) \<Rightarrow> bool" where
  "parser_env e \<longleftrightarrow> (\<forall>i. fst e i) \<and> (\<forall>x. length (la_address (snd e x)) = 16)"

interpretation gabn: lwres_exchange LWRES_OPCODE_GETADDRSBYNAME gabnrequest_ok gabnrequest_image
  "\<lambda>q malloc. lwres_gabnrequest_render malloc q" gabnresponse_ok gabnresponse_image parser_env
  "\<lambda>e. gabnresponse_into (snd e)" "\<lambda>r malloc. lwres_gabnresponse_render malloc r"
  "\<lambda>e. lwres_gabnresponse_parse (fst e) (snd e)"
proof unfold_locales
  fix q malloc pkt
  assume q: "gabnrequest_ok q" and m: "malloc_ok malloc"
  then have q': "unat (gq_namelen q) = length (gq_name q)" "0 \<notin> set (gq_name q)" by (simp_all add: gabnrequest_ok_def)
  note rr = gabnrequest_rendered [OF q']
  show "\<exists>b. lwres_gabnrequest_render malloc q pkt = Some (LWRES_R_SUCCESS,
      request_packet LWRES_OPCODE_GETADDRSBYNAME (of_nat (28 + length (gabnrequest_image q))) pkt, Some b) \<and>
    l_base b = header_image (request_packet LWRES_OPCODE_GETADDRSBYNAME (of_nat (28 + length (gabnrequest_image q))) pkt) @
      gabnrequest_image q"
    unfolding rr(1) using rendered [OF m rr(2,3)] by blast
next
  fix r malloc pkt
  assume r: "gabnresponse_ok r" and m: "malloc_ok malloc"
  note rr = gabnresponse_rendered [OF r]
  show "\<exists>b. lwres_gabnresponse_render malloc r pkt = Some (LWRES_R_SUCCESS,
      response_packet LWRES_OPCODE_GETADDRSBYNAME (of_nat (28 + length (gabnresponse_image r))) pkt, Some b) \<and>
    l_base b = header_image (response_packet LWRES_OPCODE_GETADDRSBYNAME (of_nat (28 + length (gabnresponse_image r))) pkt) @
      gabnresponse_image r"
    unfolding rr(1) by (rule rendered_checked [OF m rr(2,3)]) simp_all
qed (rule gabnresponse_parse_ok, auto simp: parser_env_def)

interpretation gnba: lwres_exchange LWRES_OPCODE_GETNAMEBYADDR gnbarequest_ok gnbarequest_image
  "\<lambda>q malloc. lwres_gnbarequest_render malloc q" gnbaresponse_ok gnbaresponse_image parser_env
  "\<lambda>e r. r" "\<lambda>r malloc. lwres_gnbaresponse_render malloc r"
  "\<lambda>e. lwres_gnbaresponse_parse (fst e)"
proof unfold_locales
  fix q malloc pkt
  assume q: "gnbarequest_ok q" and m: "malloc_ok malloc"
  then have q': "addr_ok (nq_addr q)" "la_family (nq_addr q) \<noteq> 0" "la_length (nq_addr q) \<noteq> 0"
    by (simp_all add: gnbarequest_ok_def)
  note rr = gnbarequest_rendered [OF q']
  show "\<exists>b. lwres_gnbarequest_render malloc q pkt = Some (LWRES_R_SUCCESS,
      request_packet LWRES_OPCODE_GETNAMEBYADDR (of_nat (28 + length (gnbarequest_image q))) pkt, Some b) \<and>
    l_base b = header_image (request_packet LWRES_OPCODE_GETNAMEBYADDR (of_nat (28 + length (gnbarequest_image q))) pkt) @
      gnbarequest_image q"
    unfolding rr(1) using rendered [OF m rr(2,3)] by blast
next
  fix r malloc pkt
  assume r: "gnbaresponse_ok r" and m: "malloc_ok malloc"
  note rr = gnbaresponse_rendered [OF r]
  show "\<exists>b. lwres_gnbaresponse_render malloc r pkt = Some (LWRES_R_SUCCESS,
      response_packet LWRES_OPCODE_GETNAMEBYADDR (of_nat (28 + length (gnbaresponse_image r))) pkt, Some b) \<and>
    l_base b = header_image (response_packet LWRES_OPCODE_GETNAMEBYADDR (of_nat (28 + length (gnbaresponse_image r))) pkt) @
      gnbaresponse_image r"
    unfolding rr(1) using rendered [OF m rr(2,3)] by blast
qed (rule gnbaresponse_parse_ok, auto simp: parser_env_def)

interpretation grbn: lwres_exchange LWRES_OPCODE_GETRDATABYNAME grbnrequest_ok grbnrequest_image
  "\<lambda>q malloc. lwres_grbnrequest_render malloc q" grbnresponse_ok grbnresponse_image parser_env
  "\<lambda>e r. r" "\<lambda>r malloc. lwres_grbnresponse_render malloc r"
  "\<lambda>e. lwres_grbnresponse_parse (fst e)"
proof unfold_locales
  fix q malloc pkt
  assume q: "grbnrequest_ok q" and m: "malloc_ok malloc"
  then have q': "unat (rq_namelen q) = length (rq_name q)" "0 \<notin> set (rq_name q)" by (simp_all add: grbnrequest_ok_def)
  note rr = grbnrequest_rendered [OF q']
  show "\<exists>b. lwres_grbnrequest_render malloc q pkt = Some (LWRES_R_SUCCESS,
      request_packet LWRES_OPCODE_GETRDATABYNAME (of_nat (28 + length (grbnrequest_image q))) pkt, Some b) \<and>
    l_base b = header_image (request_packet LWRES_OPCODE_GETRDATABYNAME (of_nat (28 + length (grbnrequest_image q))) pkt) @
      grbnrequest_image q"
    unfolding rr(1) using rendered [OF m rr(2,3)] by blast
next
  fix r malloc pkt
  assume r: "grbnresponse_ok r" and m: "malloc_ok malloc"
  note rr = grbnresponse_rendered [OF r]
  show "\<exists>b. lwres_grbnresponse_render malloc r pkt = Some (LWRES_R_SUCCESS,
      response_packet LWRES_OPCODE_GETRDATABYNAME (of_nat (28 + length (grbnresponse_image r))) pkt, Some b) \<and>
    l_base b = header_image (response_packet LWRES_OPCODE_GETRDATABYNAME (of_nat (28 + length (grbnresponse_image r))) pkt) @
      grbnresponse_image r"
    unfolding rr(1) by (rule rendered_checked [OF m rr(2,3)]) simp_all
qed (rule grbnresponse_parse_ok, auto simp: parser_env_def)

section \<open>Properties\<close>

text \<open>C18: A query that returns a response has parsed it from a datagram that was received from the
  configured server and whose header has the serial of the query, its opcode and no error.\<close>

theorem lwres_queries_accept_only_replies:
  "(lwres_getaddrsbyname bufok junk alloc newaddr rds ctx name types = Some (Inr r1, ctx', sent) \<longrightarrow>
      accepted rds ctx' (lc_serial ctx) LWRES_OPCODE_GETADDRSBYNAME (lwres_gabnresponse_parse alloc newaddr) r1) \<and>
    (lwres_getnamebyaddr bufok junk address alloc rds ctx fam len addr = Some (Inr r2, ctx', sent) \<longrightarrow>
      accepted rds ctx' (lc_serial ctx) LWRES_OPCODE_GETNAMEBYADDR (lwres_gnbaresponse_parse alloc) r2) \<and>
    (lwres_getrdatabyname bufok junk alloc rds ctx name rdclass rdtype flags = Some (Inr r3, ctx', sent) \<longrightarrow>
      accepted rds ctx' (lc_serial ctx) LWRES_OPCODE_GETRDATABYNAME (lwres_grbnresponse_parse alloc) r3)"
  by (auto simp: lwres_getaddrsbyname_def lwres_getnamebyaddr_def lwres_getrdatabyname_def
      lwres_context_nextserial_def Let_def run_simps dest: query_loop_accepted elim!: bind_SomeE split: if_splits)

abbreviation name_ok :: "bytes \<Rightarrow> bool" where
  "name_ok name \<equiv> 0 \<notin> set name \<and> length name < 1024"

definition gabn_query :: "bytes \<Rightarrow> u32 \<Rightarrow> lwres_gabnrequest" where
  "gabn_query name types = \<lparr>gq_flags = 0, gq_addrtypes = types, gq_namelen = of_nat (length name), gq_name = name\<rparr>"

definition grbn_query :: "bytes \<Rightarrow> u16 \<Rightarrow> u16 \<Rightarrow> u32 \<Rightarrow> lwres_grbnrequest" where
  "grbn_query name rdclass rdtype flags =
     \<lparr>rq_flags = flags, rq_rdclass = rdclass, rq_rdtype = rdtype, rq_namelen = of_nat (length name), rq_name = name\<rparr>"

lemma query_ok:
  assumes "name_ok name"
  shows "gabnrequest_ok (gabn_query name types)" and "grbnrequest_ok (grbn_query name rdclass rdtype flags)"
  using assms by (simp_all add: gabnrequest_ok_def gabn_query_def grbnrequest_ok_def grbn_query_def unat_of_nat take_bit_nat_eq_self)

lemma getaddrsbyname_loop:
  assumes "name_ok name" and "types \<noteq> 0"
  shows "lwres_getaddrsbyname True junk alloc newaddr rds ctx name types =
    query_loop (\<lambda>m. lwres_gabnrequest_render m (gabn_query name types)) LWRES_OPCODE_GETADDRSBYNAME
      (lwres_gabnresponse_parse alloc newaddr) (lc_serial ctx) rds (snd (lwres_context_nextserial ctx))
      (query_packet junk (lc_serial ctx))"
  using assms by (simp add: lwres_getaddrsbyname_def Let_def strlen_no_nul gabn_query_def lwres_context_nextserial_def)

lemma getrdatabyname_loop:
  assumes "name_ok name"
  shows "lwres_getrdatabyname True junk alloc rds ctx name rdclass rdtype flags =
    query_loop (\<lambda>m. lwres_grbnrequest_render m (grbn_query name rdclass rdtype flags)) LWRES_OPCODE_GETRDATABYNAME
      (lwres_grbnresponse_parse alloc) (lc_serial ctx) rds (snd (lwres_context_nextserial ctx))
      (query_packet junk (lc_serial ctx))"
  using assms by (simp add: lwres_getrdatabyname_def Let_def strlen_no_nul grbn_query_def lwres_context_nextserial_def)

lemma getnamebyaddr_loop:
  assumes "fam \<noteq> 0" and "len \<noteq> 0" and "unat len \<le> 16" and "unat len \<le> length addr" and "length address = 16"
  shows "\<exists>q. gnbarequest_ok q \<and> (\<forall>rds. lwres_getnamebyaddr True junk address alloc rds ctx fam len addr =
    query_loop (\<lambda>m. lwres_gnbarequest_render m q) LWRES_OPCODE_GETNAMEBYADDR
      (lwres_gnbaresponse_parse alloc) (lc_serial ctx) rds (snd (lwres_context_nextserial ctx))
      (query_packet junk (lc_serial ctx)))"
  by (rule exI [of _ "\<lparr>nq_flags = 0, nq_addr = \<lparr>la_family = fam, la_length = len,
        la_address = take (unat len) addr @ drop (unat len) address\<rparr>\<rparr>"])
    (use assms in \<open>simp add: lwres_getnamebyaddr_def Let_def gnbarequest_ok_def addr_ok_def mem_read_def mem_write_def
      lwres_context_nextserial_def min_def\<close>)

lemma getaddrsbyname_answered:
  assumes rd: "malloc_ok (rd_malloc rd)" "established (rd_connect rd) (snd (lwres_context_nextserial ctx)) = Some ctx'"
      "delivers rd ctx' (l_base b)"
    and env: "\<forall>i. alloc i" "\<forall>x. length (la_address (newaddr x)) = 16"
    and srv: "malloc_ok m" "lp_serial pkt = lc_serial ctx" "lp_result pkt = 0"
    and q: "name_ok name" "types \<noteq> 0"
    and r: "gabnresponse_ok r" "lwres_gabnresponse_render m r pkt = Some (LWRES_R_SUCCESS, p, Some b)"
  shows "\<exists>sent. lwres_getaddrsbyname True junk alloc newaddr (rd # rds) ctx name types =
    Some (Inr (gabnresponse_into newaddr r), ctx', sent)"
proof -
  have e: "parser_env (alloc, newaddr)" using env by (simp add: parser_env_def)
  show ?thesis
    unfolding getaddrsbyname_loop [OF q] using gabn.answered [OF query_ok(1) [OF q(1)] rd r(1) e r(2) srv] by simp
qed

lemma getnamebyaddr_answered:
  assumes rd: "malloc_ok (rd_malloc rd)" "established (rd_connect rd) (snd (lwres_context_nextserial ctx)) = Some ctx'"
      "delivers rd ctx' (l_base b)"
    and env: "\<forall>i. alloc i"
    and srv: "malloc_ok m" "lp_serial pkt = lc_serial ctx" "lp_result pkt = 0"
    and q: "fam \<noteq> 0" "len \<noteq> 0" "unat len \<le> 16" "unat len \<le> length addr" "length address = 16"
    and r: "gnbaresponse_ok r" "lwres_gnbaresponse_render m r pkt = Some (LWRES_R_SUCCESS, p, Some b)"
  shows "\<exists>sent. lwres_getnamebyaddr True junk address alloc (rd # rds) ctx fam len addr = Some (Inr r, ctx', sent)"
proof -
  have e: "parser_env (alloc, \<lambda>x. \<lparr>la_family = 0, la_length = 0, la_address = replicate 16 0\<rparr>)"
    using env by (simp add: parser_env_def)
  obtain q where q: "gnbarequest_ok q" and "\<And>rds. lwres_getnamebyaddr True junk address alloc rds ctx fam len addr =
      query_loop (\<lambda>m. lwres_gnbarequest_render m q) LWRES_OPCODE_GETNAMEBYADDR
        (lwres_gnbaresponse_parse alloc) (lc_serial ctx) rds (snd (lwres_context_nextserial ctx))
        (query_packet junk (lc_serial ctx))"
    using getnamebyaddr_loop [OF q] by blast
  then show ?thesis using gnba.answered [OF q rd r(1) e r(2) srv] by simp
qed

lemma getrdatabyname_answered:
  assumes rd: "malloc_ok (rd_malloc rd)" "established (rd_connect rd) (snd (lwres_context_nextserial ctx)) = Some ctx'"
      "delivers rd ctx' (l_base b)"
    and env: "\<forall>i. alloc i"
    and srv: "malloc_ok m" "lp_serial pkt = lc_serial ctx" "lp_result pkt = 0"
    and q: "name_ok name"
    and r: "grbnresponse_ok r" "lwres_grbnresponse_render m r pkt = Some (LWRES_R_SUCCESS, p, Some b)"
  shows "\<exists>sent. lwres_getrdatabyname True junk alloc (rd # rds) ctx name rdclass rdtype flags = Some (Inr r, ctx', sent)"
proof -
  have e: "parser_env (alloc, \<lambda>x. \<lparr>la_family = 0, la_length = 0, la_address = replicate 16 0\<rparr>)"
    using env by (simp add: parser_env_def)
  show ?thesis
    unfolding getrdatabyname_loop [OF q] using grbn.answered [OF query_ok(2) [OF q] rd r(1) e r(2) srv] by simp
qed

text \<open>C17: When the server renders a response with the serial of the query and it arrives, in the first round and
  preceded only by datagrams from other sources, all of them below 16384 bytes, each of the three queries returns that
  response.\<close>

theorem lwres_queries_answered:
  assumes rd: "malloc_ok (rd_malloc rd)" "established (rd_connect rd) (snd (lwres_context_nextserial ctx)) = Some ctx'"
      "delivers rd ctx' (l_base b)"
    and env: "\<forall>i. alloc i" "\<forall>x. length (la_address (newaddr x)) = 16"
    and srv: "malloc_ok m" "lp_serial pkt = lc_serial ctx" "lp_result pkt = 0"
  shows "(name_ok name \<and> types \<noteq> 0 \<and> gabnresponse_ok r1 \<and>
      lwres_gabnresponse_render m r1 pkt = Some (LWRES_R_SUCCESS, p, Some b) \<longrightarrow>
      (\<exists>sent. lwres_getaddrsbyname True junk alloc newaddr (rd # rds) ctx name types =
        Some (Inr (gabnresponse_into newaddr r1), ctx', sent))) \<and>
    (fam \<noteq> 0 \<and> len \<noteq> 0 \<and> unat len \<le> 16 \<and> unat len \<le> length addr \<and> length address = 16 \<and> gnbaresponse_ok r2 \<and>
      lwres_gnbaresponse_render m r2 pkt = Some (LWRES_R_SUCCESS, p, Some b) \<longrightarrow>
      (\<exists>sent. lwres_getnamebyaddr True junk address alloc (rd # rds) ctx fam len addr = Some (Inr r2, ctx', sent))) \<and>
    (name_ok name \<and> grbnresponse_ok r3 \<and>
      lwres_grbnresponse_render m r3 pkt = Some (LWRES_R_SUCCESS, p, Some b) \<longrightarrow>
      (\<exists>sent. lwres_getrdatabyname True junk alloc (rd # rds) ctx name rdclass rdtype flags =
        Some (Inr r3, ctx', sent)))"
proof (intro conjI impI, goal_cases)
  case 1
  then show ?case by (elim conjE) (intro getaddrsbyname_answered [OF rd env srv]; simp)
next
  case 2
  then show ?case by (elim conjE) (rule getnamebyaddr_answered [OF rd env(1) srv])
next
  case 3
  then show ?case by (elim conjE) (intro getrdatabyname_answered [OF rd env(1) srv]; simp)
qed

text \<open>C32: After a packet of the server with another serial, the request that is sent again carries the serial of
  that packet instead of the serial the query waits for.\<close>

theorem lwres_retry_has_stale_serial:
  assumes q: "name_ok name" "types \<noteq> 0"
    and rd1: "malloc_ok (rd_malloc rd1)" "established (rd_connect rd1) (snd (lwres_context_nextserial ctx)) = Some ctx1"
      "delivers rd1 ctx1 stale" "lwres_lwpacket_parseheader (input_buffer stale) = Some (Inr h, b0)"
      "lp_serial h \<noteq> lc_serial ctx"
    and rd2: "malloc_ok (rd_malloc rd2)" "established (rd_connect rd2) ctx1 = Some ctx2" "delivers rd2 ctx2 (l_base b)"
    and env: "\<forall>i. alloc i" "\<forall>x. length (la_address (newaddr x)) = 16"
    and srv: "malloc_ok m" "lp_serial pkt = lc_serial ctx" "lp_result pkt = 0" "gabnresponse_ok r"
      "lwres_gabnresponse_render m r pkt = Some (LWRES_R_SUCCESS, p, Some b)"
  shows "\<exists>m1 m2 p1 p2 b1 b2. lwres_getaddrsbyname True junk alloc newaddr [rd1, rd2] ctx name types =
      Some (Inr (gabnresponse_into newaddr r), ctx2, [m1, m2]) \<and>
    lwres_lwpacket_parseheader (input_buffer m1) = Some (Inr p1, b1) \<and> lp_serial p1 = lc_serial ctx \<and>
    lwres_lwpacket_parseheader (input_buffer m2) = Some (Inr p2, b2) \<and> lp_serial p2 = lp_serial h"
proof -
  let ?q = "gabn_query name types" and ?p0 = "query_packet junk (lc_serial ctx)"
  have e: "parser_env (alloc, newaddr)" using env by (simp add: parser_env_def)
  have l: "28 + length (gabnrequest_image ?q) < LWRES_RECVLENGTH"
    using q(1) by (simp add: gabnrequest_image_def gabn_query_def LWRES_RECVLENGTH_def)
  have "lwres_getaddrsbyname True junk alloc newaddr [rd1, rd2] ctx name types =
      Some (Inr (gabnresponse_into newaddr r), ctx2, [gabn.request ?q ?p0, gabn.request ?q h])"
    unfolding getaddrsbyname_loop [OF q]
    using gabn.answered [OF query_ok(1) [OF q(1)] rd2 srv(4) e srv(5,1,2,3)]
      gabn.retried [OF query_ok(1) [OF q(1)] rd1(1-4) disjI1 [OF rd1(5)], of types "(alloc, newaddr)"]
    by (simp del: query_loop.simps)
  moreover have "\<exists>b1. lwres_lwpacket_parseheader (input_buffer (gabn.request ?q x)) =
      Some (Inr (request_packet LWRES_OPCODE_GETADDRSBYNAME (of_nat (28 + length (gabnrequest_image ?q))) x), b1)" for x
    using parse_input [of "gabnrequest_image ?q"
        "request_packet LWRES_OPCODE_GETADDRSBYNAME (of_nat (28 + length (gabnrequest_image ?q))) x"] l
    by (simp add: gabn.request_def reads_def unat_of_nat_small LWRES_RECVLENGTH_def del: of_nat_add) blast
  moreover have "lp_serial (request_packet opc n x) = lp_serial x" for opc n x
    by (simp add: request_packet_def)
  moreover have "lp_serial ?p0 = lc_serial ctx" by (simp add: query_packet_def)
  ultimately show ?thesis by metis
qed

text \<open>\<open>lwres_getnamebyaddr\<close> copies an address of any length into the 16 bytes of its request: it overruns
  them exactly when the length is greater than 16.\<close>

theorem getnamebyaddr_overflow:
  assumes "fam \<noteq> 0" and "len \<noteq> 0" and "unat len \<le> length addr" and "length address = 16"
    and rd: "malloc_ok (rd_malloc rd)" "established (rd_connect rd) (snd (lwres_context_nextserial ctx)) = Some ctx'"
      "delivers rd ctx' (l_base b)"
    and env: "\<forall>i. alloc i" and srv: "malloc_ok m" "lp_serial pkt = lc_serial ctx" "lp_result pkt = 0" "gnbaresponse_ok r"
      "lwres_gnbaresponse_render m r pkt = Some (LWRES_R_SUCCESS, p, Some b)"
  shows "lwres_getnamebyaddr True junk address alloc (rd # rds) ctx fam len addr = None \<longleftrightarrow> unat len > 16"
  using getnamebyaddr_answered [OF rd env srv(1-3) assms(1,2) _ assms(3,4) srv(4,5), of junk rds] assms(1-4)
  by (cases "unat len \<le> 16")
    (auto simp: lwres_getnamebyaddr_def Let_def mem_read_def mem_write_def lwres_context_nextserial_def)

section \<open>Witnesses\<close>

text \<open>An unconnected context without configured server, and a round in which a stray datagram arrives
  before the message of the server.\<close>

definition sample_context :: lwres_context where
  "sample_context = \<lparr>lc_timeout = 120, lc_serial = 7, lc_sock = -1, lc_address = sample_addr, lc_use_ipv4 = True,
     lc_use_ipv6 = True, lc_lwservers = [], lwres_udp_port = LWRES_UDP_PORT\<rparr>"

definition sample_round :: "bytes \<Rightarrow> round" where
  "sample_round msg = \<lparr>rd_malloc = calloc, rd_connect = \<lparr>k_socket = 5, k_connect = 0, k_fcntl = 0\<rparr>,
     rd_sendto = (\<lambda>m. int (length m)),
     rd_waits = [(1, Some ([1, 2, 3], \<lparr>src_len = 16, src_addr = [192, 0, 2, 1], src_port = 921\<rparr>)),
       (1, Some (msg, \<lparr>src_len = 16, src_addr = [127, 0, 0, 1], src_port = 921\<rparr>))]\<rparr>"

definition sample_connected :: lwres_context where
  "sample_connected = sample_context\<lparr>lc_serial := 8, lc_sock := 5,
     lc_address := \<lparr>la_family = 1, la_length = 4, la_address = [127, 0, 0, 1] @ replicate 12 0\<rparr>\<rparr>"

lemma calloc_malloc_ok: "malloc_ok calloc"
  by (simp add: malloc_ok_def calloc_def)

lemma sample_round_malloc: "malloc_ok (rd_malloc (sample_round msg))"
  by (simp add: sample_round_def calloc_malloc_ok)

lemma sample_established:
  "established (rd_connect (sample_round msg)) (snd (lwres_context_nextserial sample_context)) = Some sample_connected"
  "established (rd_connect (sample_round msg)) sample_connected = Some sample_connected"
  by (simp_all add: established_def sample_round_def sample_context_def sample_connected_def context_connect_def
      lwres_context_nextserial_def LWRES_ADDRTYPE_V4_def Let_def)

lemma sample_delivers:
  assumes "length msg < LWRES_RECVLENGTH"
  shows "delivers (sample_round msg) sample_connected msg"
  unfolding delivers_def
proof (intro conjI exI)
  show "rd_waits (sample_round msg) = map (\<lambda>d. (1, Some d))
      [([1, 2, 3], \<lparr>src_len = 16, src_addr = [192, 0, 2, 1], src_port = 921\<rparr>)] @
      (1, Some (msg, \<lparr>src_len = 16, src_addr = [127, 0, 0, 1], src_port = 921\<rparr>)) # []"
    by (simp add: sample_round_def)
qed (use assms in \<open>simp_all add: sample_round_def sample_connected_def sample_context_def FD_SETSIZE_def from_server_def LWRES_ADDRTYPE_V4_def
    LWRES_UDP_PORT_def LWRES_RECVLENGTH_def\<close>)

text \<open>The replies of the server to the samples.\<close>

lemma sample_reply:
  "\<exists>p b. lwres_gabnresponse_render calloc sample_gabnresponse sample_packet = Some (LWRES_R_SUCCESS, p, Some b) \<and>
    length (l_base b) < LWRES_RECVLENGTH"
  "\<exists>p b. lwres_gnbaresponse_render calloc sample_gnbaresponse sample_packet = Some (LWRES_R_SUCCESS, p, Some b) \<and>
    length (l_base b) < LWRES_RECVLENGTH"
  using gabn.respond_ok [OF samples_ok(4) calloc_malloc_ok, of sample_packet]
    gnba.respond_ok [OF samples_ok(5) calloc_malloc_ok, of sample_packet]
  by (auto simp: LWRES_RECVLENGTH_def gabnresponse_image_def gnbaresponse_image_def sample_gabnresponse_def
      sample_gnbaresponse_def length_addr_image sample_addr_ok sample_addr_def addr_ok_def)

lemma sample_packet_serial: "lp_serial sample_packet = lc_serial sample_context" "lp_result sample_packet = 0"
  by (simp_all add: sample_packet_def sample_context_def)

lemma sample_env: "\<forall>i::nat. True" "\<forall>x::nat. length (la_address sample_addr) = 16"
  by (simp_all add: sample_addr_ok)

lemma name_ok_sample: "name_ok [119, 46]"
  by simp

theorem lwres_queries_answered_witness:
  "\<exists>p b. lwres_gabnresponse_render calloc sample_gabnresponse sample_packet = Some (LWRES_R_SUCCESS, p, Some b) \<and>
    (\<exists>sent. lwres_getaddrsbyname True sample_packet (\<lambda>i. True) (\<lambda>x. sample_addr) [sample_round (l_base b)]
      sample_context [119, 46] 1 =
      Some (Inr (gabnresponse_into (\<lambda>x. sample_addr) sample_gabnresponse), sample_connected, sent))"
proof -
  obtain p b where b: "lwres_gabnresponse_render calloc sample_gabnresponse sample_packet = Some (LWRES_R_SUCCESS, p, Some b)"
      "length (l_base b) < LWRES_RECVLENGTH" using sample_reply(1) by blast
  have "\<exists>sent. lwres_getaddrsbyname True sample_packet (\<lambda>i. True) (\<lambda>x. sample_addr) [sample_round (l_base b)]
      sample_context [119, 46] 1 =
      Some (Inr (gabnresponse_into (\<lambda>x. sample_addr) sample_gabnresponse), sample_connected, sent)"
    by (rule conjunct1 [OF lwres_queries_answered [OF sample_round_malloc sample_established(1) sample_delivers [OF b(2)]
        sample_env calloc_malloc_ok sample_packet_serial], THEN mp]) (simp add: b samples_ok)
  then show ?thesis using b by blast
qed

theorem lwres_queries_accept_only_replies_witness:
  "\<exists>msg r ctx' sent. lwres_getaddrsbyname True sample_packet (\<lambda>i. True) (\<lambda>x. sample_addr) [sample_round msg]
      sample_context [119, 46] 1 = Some (Inr r, ctx', sent) \<and>
    accepted [sample_round msg] ctx' 7 LWRES_OPCODE_GETADDRSBYNAME
      (lwres_gabnresponse_parse (\<lambda>i. True) (\<lambda>x. sample_addr)) r"
proof -
  obtain p b where b: "lwres_gabnresponse_render calloc sample_gabnresponse sample_packet = Some (LWRES_R_SUCCESS, p, Some b)"
      "length (l_base b) < LWRES_RECVLENGTH" using sample_reply(1) by blast
  obtain sent where s: "lwres_getaddrsbyname True sample_packet (\<lambda>i. True) (\<lambda>x. sample_addr) [sample_round (l_base b)]
      sample_context [119, 46] 1 =
      Some (Inr (gabnresponse_into (\<lambda>x. sample_addr) sample_gabnresponse), sample_connected, sent)"
    using getaddrsbyname_answered [OF sample_round_malloc sample_established(1) sample_delivers [OF b(2)]
        sample_env calloc_malloc_ok sample_packet_serial name_ok_sample one_neq_zero samples_ok(4) b(1)] by blast
  have "lc_serial sample_context = 7" by (simp add: sample_context_def)
  with lwres_queries_accept_only_replies [THEN conjunct1, THEN mp, OF s] s show ?thesis by metis
qed

definition stale_packet :: lwres_lwpacket where
  "stale_packet = response_packet LWRES_OPCODE_GETADDRSBYNAME 28 (sample_packet\<lparr>lp_serial := 6\<rparr>)"

theorem lwres_retry_has_stale_serial_witness:
  "\<exists>(b::lwres_buffer) r m1 m2 p1 p2 b1 b2. lwres_getaddrsbyname True sample_packet (\<lambda>i. True) (\<lambda>x. sample_addr)
      [sample_round (header_image stale_packet), sample_round (l_base b)] sample_context [119, 46] 1 =
      Some (Inr r, sample_connected, [m1, m2]) \<and>
    lwres_lwpacket_parseheader (input_buffer m1) = Some (Inr p1, b1) \<and> lp_serial p1 = 7 \<and>
    lwres_lwpacket_parseheader (input_buffer m2) = Some (Inr p2, b2) \<and> lp_serial p2 = 6"
proof -
  obtain p b where b: "lwres_gabnresponse_render calloc sample_gabnresponse sample_packet = Some (LWRES_R_SUCCESS, p, Some b)"
      "length (l_base b) < LWRES_RECVLENGTH" using sample_reply(1) by blast
  have st: "delivers (sample_round (header_image stale_packet)) sample_connected (header_image stale_packet)"
    by (rule sample_delivers) (simp add: LWRES_RECVLENGTH_def)
  obtain b0 where h: "lwres_lwpacket_parseheader (input_buffer (header_image stale_packet)) = Some (Inr stale_packet, b0)"
    using parse_input [of "[]" stale_packet]
    by (auto simp: reads_def LWRES_RECVLENGTH_def stale_packet_def)
  have s: "lp_serial stale_packet \<noteq> lc_serial sample_context" "lc_serial sample_context = 7" "lp_serial stale_packet = 6"
    by (simp_all add: stale_packet_def response_packet_def sample_context_def)
  show ?thesis
    using lwres_retry_has_stale_serial [OF name_ok_sample one_neq_zero sample_round_malloc sample_established(1) st h s(1)
        sample_round_malloc sample_established(2) sample_delivers [OF b(2)] sample_env calloc_malloc_ok
        sample_packet_serial samples_ok(4) b(1), of sample_packet]
    unfolding s by (intro exI [of _ b] exI [of _ "gabnresponse_into (\<lambda>x. sample_addr) sample_gabnresponse"])
qed

theorem getnamebyaddr_overflow_witness:
  "\<exists>b::lwres_buffer. lwres_getnamebyaddr True sample_packet (replicate 16 0) (\<lambda>i. True) [sample_round (l_base b)] sample_context
      1 17 (replicate 17 0) = None \<and>
    lwres_getnamebyaddr True sample_packet (replicate 16 0) (\<lambda>i. True) [sample_round (l_base b)] sample_context
      1 16 (replicate 16 0) \<noteq> None"
proof -
  obtain p b where b: "lwres_gnbaresponse_render calloc sample_gnbaresponse sample_packet = Some (LWRES_R_SUCCESS, p, Some b)"
      "length (l_base b) < LWRES_RECVLENGTH" using sample_reply(2) by blast
  have "lwres_getnamebyaddr True sample_packet (replicate 16 0) (\<lambda>i. True) [sample_round (l_base b)] sample_context
      1 len (replicate (unat len) 0) = None \<longleftrightarrow> unat len > 16" if "len \<noteq> 0" for len
    by (rule getnamebyaddr_overflow [OF one_neq_zero that _ _ sample_round_malloc sample_established(1)
        sample_delivers [OF b(2)] sample_env(1) calloc_malloc_ok sample_packet_serial samples_ok(5) b(1)]) simp_all
  from this [of 17] this [of 16] show ?thesis by (intro exI [of _ b]) auto
qed

end
