(* ===== verification/Isc_Codec.thy ===== *)
theory Isc_Codec
  imports Isc_Buffer
begin

text \<open>
  The code that \<open>lib/isc/base64.c\<close>, \<open>hex.c\<close> and \<open>base32.c\<close> share (each file has its own copy): writing text
  and bytes to the end of a buffer, looking up a digit, and the loops over the characters of a
  string, a region or the tokens of a lexer.

  A region is the list of its bytes, a C string the list of its bytes before the terminating NUL. The
  contract \<open>text_codec\<close> says what the three encodings promise, and its lemmas that decoding what was
  encoded, with any white space inserted, gives back the data.
\<close>

section \<open>Writing to a buffer\<close>

definition ascii :: "string \<Rightarrow> bytes" where
  "ascii s = map of_char s"

definition mem_tobuffer :: "isc_buffer \<Rightarrow> bytes \<Rightarrow> (isc_result \<times> isc_buffer) option" where
  "mem_tobuffer target base = do {
     tr \<leftarrow> isc__buffer_availableregion target;
     let len = (of_nat (length base) :: u32) in
     if len > r_length tr then Some (ISC_R_NOSPACE, target)
     else do {
       off \<leftarrow> r_base tr;
       m \<leftarrow> mem_write (b_base target) off (take (unat len) base);
       t \<leftarrow> isc__buffer_add (target\<lparr>b_base := m\<rparr>) len;
       Some (ISC_R_SUCCESS, t) } }"

definition str_totext :: "bytes \<Rightarrow> isc_buffer \<Rightarrow> (isc_result \<times> isc_buffer) option" where
  "str_totext source target = do {
     region \<leftarrow> isc__buffer_availableregion target;
     let l = (of_nat (length source) :: u32) in
     if l > r_length region then Some (ISC_R_NOSPACE, target)
     else do {
       off \<leftarrow> r_base region;
       m \<leftarrow> mem_write (b_base target) off (take (unat l) source);
       t \<leftarrow> isc__buffer_add (target\<lparr>b_base := m\<rparr>) l;
       Some (ISC_R_SUCCESS, t) } }"

text \<open>\<open>strchr(s, c)\<close>, as an index: the terminating NUL belongs to the string.\<close>

definition strchr :: "bytes \<Rightarrow> u8 \<Rightarrow> nat option" where
  "strchr s c = (let s = s @ [0] in if c \<in> set s then Some (length (takeWhile (\<lambda>d. d \<noteq> c) s)) else None)"

text \<open>\<open>RETERR(m)\<close> followed by \<open>f\<close>.\<close>

definition RETERR :: "(isc_result \<times> 's) option \<Rightarrow> ('s \<Rightarrow> (isc_result \<times> 's) option) \<Rightarrow> (isc_result \<times> 's) option" where
  "RETERR m f = do { (r, s) \<leftarrow> m; if r \<noteq> ISC_R_SUCCESS then Some (r, s) else f s }"

section \<open>Encoding\<close>

text \<open>The loop of the three encoders: a group of at most \<open>m + 1\<close> bytes is written as \<open>k\<close> characters
  (\<open>grp\<close>), and a word break follows when another group would reach \<open>wordlength\<close>. Returns the result, what is left of the source and the target.\<close>

fun totext_loop :: "nat \<Rightarrow> u32 \<Rightarrow> (bytes \<Rightarrow> bytes) \<Rightarrow> int \<Rightarrow> bytes \<Rightarrow> u32 \<Rightarrow> bytes \<Rightarrow> isc_buffer \<Rightarrow>
    (isc_result \<times> bytes \<times> isc_buffer) option" where
  "totext_loop m k grp wordlength wordbreak loops [] t = Some (ISC_R_SUCCESS, [], t)"
| "totext_loop m k grp wordlength wordbreak loops (a # s) t = do {
     (r, t) \<leftarrow> str_totext (grp (a # take m s)) t;
     if r \<noteq> ISC_R_SUCCESS then Some (r, a # s, t)
     else (let loops = loops + 1; rest = drop m s in
       if rest \<noteq> [] \<and> wordlength \<ge> 0 \<and> sint ((loops + 1) * k) \<ge> wordlength then do {
         (r, t) \<leftarrow> str_totext wordbreak t;
         if r \<noteq> ISC_R_SUCCESS then Some (r, rest, t)
         else totext_loop m k grp wordlength wordbreak 0 rest t }
       else totext_loop m k grp wordlength wordbreak loops rest t) }"

section \<open>Loops over characters\<close>

definition white :: "u8 \<Rightarrow> bool" where
  "white c \<longleftrightarrow> c = 32 \<or> c = 9 \<or> c = 10 \<or> c = 13"

fun decode_chars :: "('c \<Rightarrow> u8 \<Rightarrow> (isc_result \<times> 'c) option) \<Rightarrow> 'c \<Rightarrow> bytes \<Rightarrow> (isc_result \<times> 'c) option" where
  "decode_chars f ctx [] = Some (ISC_R_SUCCESS, ctx)"
| "decode_chars f ctx (c # cs) = RETERR (f ctx c) (\<lambda>ctx. decode_chars f ctx cs)"

fun decode_cstr :: "('c \<Rightarrow> u8 \<Rightarrow> (isc_result \<times> 'c) option) \<Rightarrow> 'c \<Rightarrow> bytes \<Rightarrow> (isc_result \<times> 'c) option" where
  "decode_cstr f ctx [] = Some (ISC_R_SUCCESS, ctx)"
| "decode_cstr f ctx (c # cs) =
     (if c = 0 then Some (ISC_R_SUCCESS, ctx)
      else if white c then decode_cstr f ctx cs
      else RETERR (f ctx c) (\<lambda>ctx. decode_cstr f ctx cs))"

text \<open>What \<open>isc_lex_getmastertoken\<close> returns: an error, a string, or another token. The lexer is given by
  the list of its answers; a token that is put back is its next answer.\<close>

datatype lex_answer = LexError isc_result | LexString bytes | LexOther

fun decode_tokens ::
    "('c \<Rightarrow> u8 \<Rightarrow> (isc_result \<times> 'c) option) \<Rightarrow> ('c \<Rightarrow> bool) \<Rightarrow> 'c \<Rightarrow> lex_answer option \<Rightarrow> lex_answer list \<Rightarrow>
     (isc_result \<times> 'c \<times> lex_answer option \<times> lex_answer list) option" where
  "decode_tokens f go ctx token [] = (if go ctx then None else Some (ISC_R_SUCCESS, ctx, token, []))"
| "decode_tokens f go ctx token (a # as) =
     (if \<not> go ctx then Some (ISC_R_SUCCESS, ctx, token, a # as)
      else case a of
          LexError r \<Rightarrow> Some (r, ctx, token, as)
        | LexOther \<Rightarrow> Some (ISC_R_SUCCESS, ctx, Some LexOther, as)
        | LexString tr \<Rightarrow> do {
            (r, ctx) \<leftarrow> decode_chars f ctx tr;
            if r \<noteq> ISC_R_SUCCESS then Some (r, ctx, Some a, as)
            else decode_tokens f go ctx (Some a) as })"

section \<open>Lemmas\<close>

text \<open>\<open>t'\<close> is \<open>t\<close> with \<open>xs\<close> written to its end.\<close>

definition appended :: "isc_buffer \<Rightarrow> bytes \<Rightarrow> isc_buffer \<Rightarrow> bool" where
  "appended t xs t' \<longleftrightarrow> buf_wf t' \<and> buf_room t = length xs + buf_room t' \<and>
     buf_used_bytes t' = buf_used_bytes t @ xs \<and> b_current t' = b_current t"

lemma appended_trans: "appended t xs t1 \<Longrightarrow> appended t1 ys t2 \<Longrightarrow> appended t (xs @ ys) t2"
  by (simp add: appended_def)

lemma appended_nil: "buf_wf t \<Longrightarrow> appended t [] t"
  by (simp add: appended_def)

lemma appendedD: "appended t xs t' \<Longrightarrow> buf_wf t'" "appended t xs t' \<Longrightarrow> buf_room t = length xs + buf_room t'"
  by (simp_all add: appended_def)

lemma tobuffer_eq: "mem_tobuffer t xs = str_totext xs t"
  by (simp add: mem_tobuffer_def str_totext_def)

lemma str_totext_ok:
  assumes wf: "buf_wf t" and room: "length xs \<le> buf_room t"
  shows "\<exists>t'. str_totext xs t = Some (ISC_R_SUCCESS, t') \<and> appended t xs t'"
proof -
  obtain t' where t': "ISC__BUFFER_PUTMEM t xs = Some t'" "buf_wf t'" "buf_room t' = buf_room t - length xs"
      "buf_used_bytes t' = buf_used_bytes t @ xs" "b_current t' = b_current t"
    using PUTMEM_ok [OF assms] by blast
  have n: "unat (of_nat (length xs) :: u32) = length xs"
    using room_no_wrap [OF assms] by (intro unat_of_nat_small) simp
  have le: "\<not> (of_nat (length xs) :: u32) > isc_buffer_availablelength t"
    using room n unat_availablelength [OF wf] by (simp add: word_less_nat_alt)
  have g: "b_used t + of_nat (length xs) \<le> b_length t"
    using put_guard [OF wf room_no_wrap [OF assms]] room by simp
  obtain m where m: "mem_write (b_base t) (unat (b_used t)) xs = Some m"
      "t' = t\<lparr>b_base := m, b_used := b_used t + of_nat (length xs)\<rparr>"
    using t'(1) by (auto simp: ISC__BUFFER_PUTMEM_def elim!: bind_SomeE)
  have "str_totext xs t = Some (ISC_R_SUCCESS, t')"
    using wf le g m n
    by (simp add: str_totext_def isc__buffer_availableregion_def isc__buffer_add_def buf_wf_valid Let_def
        ISC_BUFFER_VALID_def buf_wf_def)
  then show ?thesis using t' room by (auto simp: appended_def)
qed

lemma str_totext_nospace:
  assumes wf: "buf_wf t" and room: "buf_room t < length xs" and l: "length xs < 2 ^ 32"
  shows "str_totext xs t = Some (ISC_R_NOSPACE, t)"
proof -
  have "(of_nat (length xs) :: u32) > isc_buffer_availablelength t"
    using room unat_availablelength [OF wf] l by (simp add: word_less_nat_alt unat_of_nat_small)
  then show ?thesis
    using wf by (simp add: str_totext_def isc__buffer_availableregion_def buf_wf_valid Let_def)
qed

lemma strchr_nth:
  assumes "distinct (take n xs)" and "k < n" and "n \<le> length xs"
  shows "strchr xs (xs ! k) = Some k"
proof -
  have "(xs @ [0]) ! i \<noteq> xs ! k" if "i < k" for i
    using that assms nth_eq_iff_index_eq [OF assms(1), of i k] by (simp add: nth_append)
  then have "takeWhile (\<lambda>d. d \<noteq> xs ! k) (xs @ [0]) = take k (xs @ [0])"
    by (intro takeWhile_eq_take_P_nth) (use assms in \<open>auto simp: nth_append\<close>)
  then show ?thesis using assms by (simp add: strchr_def)
qed

lemma decode_chars_append:
  "decode_chars f ctx (xs @ ys) = RETERR (decode_chars f ctx xs) (\<lambda>ctx. decode_chars f ctx ys)"
proof (induction xs arbitrary: ctx)
  case Nil
  then show ?case by (simp add: RETERR_def)
next
  case (Cons x xs)
  then show ?case by (cases "f ctx x") (auto simp: RETERR_def)
qed

lemma RETERR_simps [simp]:
  "RETERR (Some (ISC_R_SUCCESS, s)) f = f s"
  "r \<noteq> ISC_R_SUCCESS \<Longrightarrow> RETERR (Some (r, s)) f = Some (r, s)"
  "RETERR m (\<lambda>s. Some (ISC_R_SUCCESS, s)) = m"
proof -
  show "RETERR m (\<lambda>s. Some (ISC_R_SUCCESS, s)) = m" by (cases m) (auto simp: RETERR_def)
qed (simp_all add: RETERR_def)

lemma u8_eqI:
  fixes x y :: u8
  assumes "bit x 0 = bit y 0" "bit x 1 = bit y 1" "bit x 2 = bit y 2" "bit x 3 = bit y 3"
    "bit x 4 = bit y 4" "bit x 5 = bit y 5" "bit x 6 = bit y 6" "bit x 7 = bit y 7"
  shows "x = y"
proof (rule bit_word_eqI)
  fix n :: nat assume "n < LENGTH(8)"
  then have "n \<in> {0, 1, 2, 3, 4, 5, 6, 7}" by auto
  then show "bit x n = bit y n" using assms by auto
qed

lemma unat_masked: "w = w AND mask n \<Longrightarrow> unat (w::u32) < 2 ^ n"
  using take_bit_nat_less_exp [of n "unat w"] by (metis take_bit_eq_mask unsigned_take_bit_eq)

text \<open>White space in a string does not matter.\<close>

lemma decode_cstr_white:
  "0 \<notin> set cs \<Longrightarrow> decode_cstr f ctx cs = decode_chars f ctx (filter (\<lambda>c. \<not> white c) cs)"
proof (induction cs arbitrary: ctx)
  case Nil
  then show ?case by simp
next
  case (Cons c cs)
  then show ?case by (auto simp: RETERR_def)
qed

section \<open>The text of an encoding\<close>

fun encode_all :: "nat \<Rightarrow> (bytes \<Rightarrow> bytes) \<Rightarrow> bytes \<Rightarrow> bytes" where
  "encode_all m grp [] = []"
| "encode_all m grp (a # s) = grp (a # take m s) @ encode_all m grp (drop m s)"

fun text_all :: "nat \<Rightarrow> u32 \<Rightarrow> (bytes \<Rightarrow> bytes) \<Rightarrow> int \<Rightarrow> bytes \<Rightarrow> u32 \<Rightarrow> bytes \<Rightarrow> bytes" where
  "text_all m k grp wordlength wordbreak loops [] = []"
| "text_all m k grp wordlength wordbreak loops (a # s) = grp (a # take m s) @
     (if drop m s \<noteq> [] \<and> wordlength \<ge> 0 \<and> sint ((loops + 1 + 1) * k) \<ge> wordlength
      then wordbreak @ text_all m k grp wordlength wordbreak 0 (drop m s)
      else text_all m k grp wordlength wordbreak (loops + 1) (drop m s))"

definition plain_chars :: "bytes \<Rightarrow> bool" where
  "plain_chars = list_all (\<lambda>c. \<not> white c \<and> c \<noteq> 0)"

lemma filter_plain: "plain_chars xs \<Longrightarrow> filter (\<lambda>c. \<not> white c) xs = xs"
  by (auto simp: plain_chars_def list_all_iff filter_id_conv)

lemma text_all_encode:
  assumes "list_all white wb" and "\<And>xs. xs \<noteq> [] \<Longrightarrow> length xs \<le> Suc m \<Longrightarrow> plain_chars (grp xs)"
  shows "filter (\<lambda>c. \<not> white c) (text_all m k grp wl wb loops src) = encode_all m grp src"
proof -
  have "filter (\<lambda>c. \<not> white c) wb = []" using assms(1) by (auto simp: list_all_iff filter_empty_conv)
  then show ?thesis
    using assms(2) by (induction m k grp wl wb loops src rule: text_all.induct) (simp_all add: filter_plain)
qed

lemma text_all_nonzero:
  assumes "0 \<notin> set wb" and "\<And>xs. xs \<noteq> [] \<Longrightarrow> length xs \<le> Suc m \<Longrightarrow> plain_chars (grp xs)"
  shows "0 \<notin> set (text_all m k grp wl wb loops src)"
  using assms
proof (induction m k grp wl wb loops src rule: text_all.induct)
  case (2 m k grp wl wb loops a s)
  then have "0 \<notin> set (grp (a # take m s))" by (force simp: plain_chars_def list_all_iff)
  with 2 show ?case by auto
qed simp

lemma text_all_length:
  assumes "\<And>xs. xs \<noteq> [] \<Longrightarrow> length xs \<le> Suc m \<Longrightarrow> length (grp xs) = c"
  shows "length (text_all m k grp wl [] loops src) = c * ((length src + m) div Suc m)"
  using assms
proof (induction m k grp wl "[] :: bytes" loops src rule: text_all.induct)
  case (2 m k grp wl loops a s)
  have g: "length (grp (a # take m s)) = c" using 2(3) by simp
  have "(length (a # s) + m) div Suc m = Suc ((length (drop m s) + m) div Suc m)"
  proof (cases "m \<le> length s")
    case True
    have "length (a # s) + m = (length (drop m s) + m) + Suc m" using True by simp
    then show ?thesis by (simp only: div_add_self2)
  next
    case False
    have "length (a # s) + m = length s + Suc m" by simp
    moreover have "length s div Suc m = 0" "(length (drop m s) + m) div Suc m = 0" using False by simp_all
    ultimately show ?thesis by (simp only: div_add_self2)
  qed
  then show ?case using 2 g by (simp del: length_drop)
qed simp

lemma totext_loop_ok:
  assumes "buf_wf t" and "length (text_all m k grp wl wb loops src) \<le> buf_room t"
  shows "\<exists>t'. totext_loop m k grp wl wb loops src t = Some (ISC_R_SUCCESS, [], t') \<and>
    appended t (text_all m k grp wl wb loops src) t'"
  using assms
proof (induction m k grp wl wb loops src arbitrary: t rule: text_all.induct)
  case (2 m k grp wl wb loops a s)
  obtain t1 where t1: "str_totext (grp (a # take m s)) t = Some (ISC_R_SUCCESS, t1)" "appended t (grp (a # take m s)) t1"
    using str_totext_ok [OF 2(3), of "grp (a # take m s)"] 2(4) by auto
  note t1' = appendedD [OF t1(2)]
  show ?case
  proof (cases "drop m s \<noteq> [] \<and> wl \<ge> 0 \<and> sint ((loops + 1 + 1) * k) \<ge> wl")
    case True
    obtain t2 where t2: "str_totext wb t1 = Some (ISC_R_SUCCESS, t2)" "appended t1 wb t2"
      using str_totext_ok [OF t1'(1), of wb] 2(4) True t1'(2) by auto
    obtain t3 where "totext_loop m k grp wl wb 0 (drop m s) t2 = Some (ISC_R_SUCCESS, [], t3)"
        "appended t2 (text_all m k grp wl wb 0 (drop m s)) t3"
      using 2(1) [OF True appendedD(1) [OF t2(2)]] 2(4) True t1'(2) appendedD(2) [OF t2(2)] by auto
    then show ?thesis
      using t1 t2 True appended_trans [OF t1(2) appended_trans [OF t2(2)]] by (auto simp: Let_def)
  next
    case False
    obtain t3 where "totext_loop m k grp wl wb (loops + 1) (drop m s) t1 = Some (ISC_R_SUCCESS, [], t3)"
        "appended t1 (text_all m k grp wl wb (loops + 1) (drop m s)) t3"
      using 2(2) [OF False t1'(1)] 2(4) False t1'(2) by auto
    then show ?thesis using t1 False appended_trans [OF t1(2)] by (auto simp: Let_def)
  qed
qed (simp add: appended_nil)

lemma totext_loop_nospace:
  assumes "buf_wf t" and "buf_room t < length (text_all m k grp wl wb loops src)" and "length wb < 2 ^ 32"
    and "\<And>xs. length (grp xs) < 2 ^ 32"
  shows "\<exists>s t'. totext_loop m k grp wl wb loops src t = Some (ISC_R_NOSPACE, s, t')"
  using assms
proof (induction m k grp wl wb loops src arbitrary: t rule: text_all.induct)
  case (2 m k grp wl wb loops a s)
  show ?case
  proof (cases "length (grp (a # take m s)) \<le> buf_room t")
    case False
    then show ?thesis using str_totext_nospace [OF 2(3), of "grp (a # take m s)"] 2(6) by simp
  next
    case True
    obtain t1 where t1: "str_totext (grp (a # take m s)) t = Some (ISC_R_SUCCESS, t1)" "appended t (grp (a # take m s)) t1"
      using str_totext_ok [OF 2(3) True] by auto
    note t1' = appendedD [OF t1(2)]
    show ?thesis
    proof (cases "drop m s \<noteq> [] \<and> wl \<ge> 0 \<and> sint ((loops + 1 + 1) * k) \<ge> wl")
      case brk: True
      show ?thesis
      proof (cases "length wb \<le> buf_room t1")
        case True
        then obtain t2 where t2: "str_totext wb t1 = Some (ISC_R_SUCCESS, t2)" "appended t1 wb t2"
          using str_totext_ok [OF t1'(1)] by auto
        show ?thesis
          using 2(1) [OF brk appendedD(1) [OF t2(2)]] 2(4-6) brk t1 t1'(2) t2 appendedD(2) [OF t2(2)]
          by (auto simp: Let_def)
      next
        case False
        then show ?thesis using str_totext_nospace [OF t1'(1), of wb] 2(5) t1 brk by (simp add: Let_def)
      qed
    next
      case False
      show ?thesis using 2(2) [OF False t1'(1)] 2(4-6) False t1 t1'(2) by (auto simp: Let_def)
    qed
  qed
qed simp

text \<open>A decoder that reads back every full group and stays ready (\<open>R\<close>), and reads the last, shorter group as \<open>g\<close>
  of it, reads the whole text as the full groups followed by \<open>g\<close> of the rest.\<close>

definition regroup :: "nat \<Rightarrow> (bytes \<Rightarrow> bytes) \<Rightarrow> bytes \<Rightarrow> bytes" where
  "regroup m g src = (let n = length src - length src mod Suc m in take n src @ g (drop n src))"

lemma regroup_short: "length src < Suc m \<Longrightarrow> regroup m g src = g src"
  by (simp add: regroup_def)

lemma regroup_step:
  assumes "length xs = Suc m"
  shows "regroup m g (xs @ rest) = xs @ regroup m g rest"
proof -
  define q where "q = length rest - length rest mod Suc m"
  have "length (xs @ rest) mod Suc m = length rest mod Suc m"
    using assms by (simp only: length_append mod_add_self1)
  moreover have "length (xs @ rest) = Suc m + length rest" using assms by simp
  ultimately have "length (xs @ rest) - length (xs @ rest) mod Suc m = Suc m + q"
    using mod_less_eq_dividend [of "length rest" "Suc m"] unfolding q_def by linarith
  then show ?thesis
    using assms unfolding regroup_def Let_def q_def [symmetric] by (simp add: take_append drop_append)
qed

lemma decode_all:
  assumes full: "\<And>ctx xs. R ctx \<Longrightarrow> length xs = Suc m \<Longrightarrow> length xs \<le> buf_room (target ctx) \<Longrightarrow>
      \<exists>ctx'. decode_chars f ctx (grp xs) = Some (ISC_R_SUCCESS, ctx') \<and> R ctx' \<and> appended (target ctx) xs (target ctx')"
    and last: "\<And>ctx xs. R ctx \<Longrightarrow> xs \<noteq> [] \<Longrightarrow> length xs < Suc m \<Longrightarrow> length (g xs) \<le> buf_room (target ctx) \<Longrightarrow>
      \<exists>ctx'. decode_chars f ctx (grp xs) = Some (ISC_R_SUCCESS, ctx') \<and> D ctx' \<and> appended (target ctx) (g xs) (target ctx')"
    and ready: "\<And>ctx. R ctx \<Longrightarrow> D ctx \<and> buf_wf (target ctx)" and g: "g [] = []"
    and src: "R ctx" "length (regroup m g src) \<le> buf_room (target ctx)"
  shows "\<exists>ctx'. decode_chars f ctx (encode_all m grp src) = Some (ISC_R_SUCCESS, ctx') \<and> D ctx' \<and>
    appended (target ctx) (regroup m g src) (target ctx')"
  using src
proof (induction "length src" arbitrary: src ctx rule: less_induct)
  case less
  show ?case
  proof (cases "length src < Suc m")
    case True
    then show ?thesis
      using last [OF less(2), of src] less(2-) ready [OF less(2)] g
      by (cases src) (auto simp: appended_nil regroup_short)
  next
    case False
    define xs rest where "xs = take (Suc m) src" and "rest = drop (Suc m) src"
    have sp: "src = xs @ rest" "length xs = Suc m" "length src = Suc m + length rest"
      using False by (simp_all add: xs_def rest_def)
    then have en: "encode_all m grp src = grp xs @ encode_all m grp rest"
      by (cases src) (simp_all add: xs_def rest_def)
    note rg = regroup_step [OF sp(2), of g rest, folded sp(1)]
    obtain ctx1 where c1: "decode_chars f ctx (grp xs) = Some (ISC_R_SUCCESS, ctx1)" "R ctx1"
        "appended (target ctx) xs (target ctx1)"
      using full [OF less(2) sp(2)] less(3) rg by auto
    then obtain ctx2 where "decode_chars f ctx1 (encode_all m grp rest) = Some (ISC_R_SUCCESS, ctx2)" "D ctx2"
        "appended (target ctx1) (regroup m g rest) (target ctx2)"
      using less(1) [of rest ctx1] sp less(3) rg appendedD(2) [OF c1(3)] by auto
    then show ?thesis using c1 en rg appended_trans [OF c1(3)] by (auto simp: decode_chars_append)
  qed
qed

section \<open>The contract of an encoding\<close>

text \<open>\<open>encode\<close> is the text of the data without word breaks and \<open>printed\<close> the text with them; \<open>ok\<close> is the data for
  which the decoder inverts the encoder.\<close>

locale text_codec =
  fixes encode :: "bytes \<Rightarrow> bytes"
    and printed :: "int \<Rightarrow> bytes \<Rightarrow> bytes \<Rightarrow> bytes"
    and totext :: "bytes \<Rightarrow> int \<Rightarrow> bytes \<Rightarrow> isc_buffer \<Rightarrow> (isc_result \<times> bytes \<times> isc_buffer) option"
    and slots :: nat
    and init :: "u32 list \<Rightarrow> int \<Rightarrow> isc_buffer \<Rightarrow> 'c"
    and decode_char :: "'c \<Rightarrow> u8 \<Rightarrow> (isc_result \<times> 'c) option"
    and finish :: "'c \<Rightarrow> isc_result"
    and target :: "'c \<Rightarrow> isc_buffer"
    and decodestring :: "u32 list \<Rightarrow> bytes \<Rightarrow> isc_buffer \<Rightarrow> (isc_result \<times> isc_buffer) option"
    and ok :: "bytes \<Rightarrow> bool"
  assumes text_encode: "list_all white wb \<Longrightarrow> filter (\<lambda>c. \<not> white c) (printed wl wb src) = encode src"
    and text_nonzero: "0 \<notin> set wb \<Longrightarrow> 0 \<notin> set (printed wl wb src)"
    and totext_ok: "buf_wf t \<Longrightarrow> length (printed wl wb src) \<le> buf_room t \<Longrightarrow>
      \<exists>t'. totext src wl wb t = Some (ISC_R_SUCCESS, [], t') \<and> appended t (printed wl wb src) t'"
    and totext_nospace: "buf_wf t \<Longrightarrow> length wb < 2 ^ 32 \<Longrightarrow> buf_room t < length (printed wl wb src) \<Longrightarrow>
      \<exists>s t'. totext src wl wb t = Some (ISC_R_NOSPACE, s, t')"
    and decode_ok: "ok src \<Longrightarrow> length val = slots \<Longrightarrow> buf_wf t \<Longrightarrow> length src \<le> buf_room t \<Longrightarrow>
      \<exists>ctx. decode_chars decode_char (init val (-1) t) (encode src) = Some (ISC_R_SUCCESS, ctx) \<and>
        finish ctx = ISC_R_SUCCESS \<and> appended t src (target ctx)"
    and decodestring_eq: "decodestring val cs t =
      map_option (\<lambda>(r, ctx). (if r \<noteq> ISC_R_SUCCESS then r else finish ctx, target ctx))
        (decode_cstr decode_char (init val (-1) t) cs)"
begin

lemma white_nonzero: "list_all white wb \<Longrightarrow> 0 \<notin> set wb"
  by (auto simp: list_all_iff white_def)

lemma decodestring_text:
  assumes "ok src" and "length val = slots" and "list_all white wb" and "buf_wf t" and "length src \<le> buf_room t"
  shows "\<exists>t'. decodestring val (printed wl wb src) t = Some (ISC_R_SUCCESS, t') \<and> appended t src t'"
  using decode_ok [OF assms(1,2,4,5)] text_encode [OF assms(3), of wl src]
    decode_cstr_white [OF text_nonzero [OF white_nonzero [OF assms(3)]], of decode_char "init val (-1) t" wl src]
  by (auto simp: decodestring_eq)

lemma roundtrip:
  assumes "ok src" and "length val = slots" and "list_all white wb" and t: "buf_wf t" "length (printed wl wb src) \<le> buf_room t"
    and u: "buf_wf u" "length src \<le> buf_room u"
  shows "\<exists>t' u'. totext src wl wb t = Some (ISC_R_SUCCESS, [], t') \<and>
    buf_used_bytes t' = buf_used_bytes t @ printed wl wb src \<and>
    decodestring val (printed wl wb src) u = Some (ISC_R_SUCCESS, u') \<and> buf_used_bytes u' = buf_used_bytes u @ src"
  using totext_ok [OF t] decodestring_text [OF assms(1-3) u, of wl] by (auto simp: appended_def)

lemma success_roundtrip:
  assumes "ok src" and "length val = slots" and "list_all white wb" and "length wb < 2 ^ 32" and "buf_wf t"
    and "totext src wl wb t = Some (ISC_R_SUCCESS, s, t')" and "buf_wf u" and "length src \<le> buf_room u"
  shows "\<exists>txt u'. buf_used_bytes t' = buf_used_bytes t @ txt \<and> decodestring val txt u = Some (ISC_R_SUCCESS, u') \<and>
    buf_used_bytes u' = buf_used_bytes u @ src"
proof -
  have "length (printed wl wb src) \<le> buf_room t"
    using totext_nospace [OF assms(5,4), of wl src] assms(6) by (fastforce simp: not_le [symmetric])
  from roundtrip [OF assms(1-3,5) this assms(7,8)] assms(6) show ?thesis by auto
qed

lemma totext_result:
  assumes "buf_wf t" and "length wb < 2 ^ 32"
  shows "\<exists>r s t'. totext src wl wb t = Some (r, s, t') \<and>
    (r = ISC_R_SUCCESS \<longleftrightarrow> length (printed wl wb src) \<le> buf_room t) \<and> (r \<noteq> ISC_R_SUCCESS \<longrightarrow> r = ISC_R_NOSPACE)"
  using totext_ok [OF assms(1), of wl wb src] totext_nospace [OF assms, of wl src]
  by (cases "length (printed wl wb src) \<le> buf_room t") auto

end

end
