(* ===== verification/Isc_Base64.thy ===== *)
theory Isc_Base64
  imports Isc_Codec
begin

text \<open>
  Base 64: \<open>lib/isc/base64.c\<close>. The values of the digits are 32-bit words; a decoding context has the four
  slots of \<open>val\<close>.
\<close>

definition base64 :: bytes where
  "base64 = ascii ''ABCDEFGHIJKLMNOPQRSTUVWXYZabcdefghijklmnopqrstuvwxyz0123456789+/=''"

definition digit64 :: "u32 \<Rightarrow> u8" where
  "digit64 i = base64 ! unat i"

section \<open>Encoding\<close>

text \<open>The four characters for a group of three, two and one bytes.\<close>

definition quad3 :: "u8 \<Rightarrow> u8 \<Rightarrow> u8 \<Rightarrow> bytes" where
  "quad3 a b c = (let a = ucast a :: u32; b = ucast b; c = ucast c in
     [digit64 (drop_bit 2 a AND 0x3f), digit64 ((push_bit 4 a AND 0x30) OR (drop_bit 4 b AND 0x0f)),
      digit64 ((push_bit 2 b AND 0x3c) OR (drop_bit 6 c AND 0x03)), digit64 (c AND 0x3f)])"

definition quad2 :: "u8 \<Rightarrow> u8 \<Rightarrow> bytes" where
  "quad2 a b = (let a = ucast a :: u32; b = ucast b in
     [digit64 (drop_bit 2 a AND 0x3f), digit64 ((push_bit 4 a AND 0x30) OR (drop_bit 4 b AND 0x0f)),
      digit64 (push_bit 2 b AND 0x3c), 61])"

definition quad1 :: "u8 \<Rightarrow> bytes" where
  "quad1 a = (let a = ucast a :: u32 in
     [digit64 (drop_bit 2 a AND 0x3f), digit64 (push_bit 4 a AND 0x30), 61, 61])"

fun group64 :: "bytes \<Rightarrow> bytes" where
  "group64 [a] = quad1 a"
| "group64 [a, b] = quad2 a b"
| "group64 (a # b # c # _) = quad3 a b c"
| "group64 [] = []"

definition isc_base64_totext :: "bytes \<Rightarrow> int \<Rightarrow> bytes \<Rightarrow> isc_buffer \<Rightarrow> (isc_result \<times> bytes \<times> isc_buffer) option" where
  "isc_base64_totext source wordlength wordbreak target =
     (let wordlength = (if wordlength < 4 then 4 else wordlength) in
      totext_loop 2 4 group64 wordlength wordbreak 0 source target)"

section \<open>Decoding\<close>

record base64_decode_ctx =
  c64_length :: int
  c64_target :: isc_buffer
  c64_digits :: nat
  c64_seen_end :: bool
  c64_val :: "u32 list"

text \<open>\<open>val\<close> is the uninitialised array of four digits.\<close>

definition base64_decode_init :: "u32 list \<Rightarrow> int \<Rightarrow> isc_buffer \<Rightarrow> base64_decode_ctx" where
  "base64_decode_init val len target =
     \<lparr>c64_length = len, c64_target = target, c64_digits = 0, c64_seen_end = False, c64_val = val\<rparr>"

text \<open>The three bytes of a group of four digits.\<close>

definition bytes64 :: "u32 list \<Rightarrow> bytes" where
  "bytes64 v = [ucast (push_bit 2 (v ! 0) OR drop_bit 4 (v ! 1)), ucast (push_bit 4 (v ! 1) OR drop_bit 2 (v ! 2)),
     ucast (push_bit 6 (v ! 2) OR v ! 3)]"

definition base64_group :: "base64_decode_ctx \<Rightarrow> (isc_result \<times> base64_decode_ctx) option" where
  "base64_group ctx =
     (let v = c64_val ctx in
      if v ! 0 = 64 \<or> v ! 1 = 64 then Some (ISC_R_BADBASE64, ctx)
      else if v ! 2 = 64 \<and> v ! 3 \<noteq> 64 then Some (ISC_R_BADBASE64, ctx)
      else if v ! 2 = 64 \<and> v ! 1 AND 0xf \<noteq> 0 then Some (ISC_R_BADBASE64, ctx)
      else if v ! 3 = 64 \<and> v ! 2 AND 0x3 \<noteq> 0 then Some (ISC_R_BADBASE64, ctx)
      else (let n = (if v ! 2 = 64 then 1 else if v ! 3 = 64 then 2 else 3 :: nat);
                w = (if n \<noteq> 3 then v[2 := (if v ! 2 = 64 then 0 else v ! 2), 3 := (if v ! 3 = 64 then 0 else v ! 3)] else v);
                ctx = ctx\<lparr>c64_seen_end := c64_seen_end ctx \<or> n \<noteq> 3, c64_val := w\<rparr>
            in do {
              (r, t) \<leftarrow> mem_tobuffer (c64_target ctx) (take n (bytes64 w));
              let ctx = ctx\<lparr>c64_target := t\<rparr> in
              if r \<noteq> ISC_R_SUCCESS then Some (r, ctx)
              else if c64_length ctx \<ge> 0 \<and> int n > c64_length ctx then Some (ISC_R_BADBASE64, ctx)
              else Some (ISC_R_SUCCESS, ctx\<lparr>c64_digits := 0,
                c64_length := (if c64_length ctx \<ge> 0 then c64_length ctx - int n else c64_length ctx)\<rparr>) }))"

definition base64_decode_char :: "base64_decode_ctx \<Rightarrow> u8 \<Rightarrow> (isc_result \<times> base64_decode_ctx) option" where
  "base64_decode_char ctx c =
     (if c64_seen_end ctx then Some (ISC_R_BADBASE64, ctx)
      else case strchr base64 c of
          None \<Rightarrow> Some (ISC_R_BADBASE64, ctx)
        | Some s \<Rightarrow> do {
            REQUIRE (c64_digits ctx < length (c64_val ctx));
            let ctx = ctx\<lparr>c64_val := (c64_val ctx)[c64_digits ctx := of_nat s], c64_digits := c64_digits ctx + 1\<rparr> in
            if c64_digits ctx = 4 then base64_group ctx else Some (ISC_R_SUCCESS, ctx) })"

definition base64_decode_finish :: "base64_decode_ctx \<Rightarrow> isc_result" where
  "base64_decode_finish ctx =
     (if c64_length ctx > 0 then ISC_R_UNEXPECTEDEND
      else if c64_digits ctx \<noteq> 0 then ISC_R_BADBASE64
      else ISC_R_SUCCESS)"

text \<open>Returns the result, the target and the answers of the lexer that are left.\<close>

definition isc_base64_tobuffer ::
    "u32 list \<Rightarrow> lex_answer list \<Rightarrow> isc_buffer \<Rightarrow> int \<Rightarrow> (isc_result \<times> isc_buffer \<times> lex_answer list) option" where
  "isc_base64_tobuffer val lexer target len = do {
     (r, ctx, token, lexer) \<leftarrow>
       decode_tokens base64_decode_char (\<lambda>ctx. \<not> c64_seen_end ctx \<and> c64_length ctx \<noteq> 0)
         (base64_decode_init val len target) None lexer;
     if r \<noteq> ISC_R_SUCCESS then Some (r, c64_target ctx, lexer)
     else do {
       lexer \<leftarrow> (if c64_length ctx < 0 \<and> \<not> c64_seen_end ctx
                then map_option (\<lambda>t. t # lexer) token else Some lexer);
       Some (base64_decode_finish ctx, c64_target ctx, lexer) } }"

definition isc_base64_decodestring :: "u32 list \<Rightarrow> bytes \<Rightarrow> isc_buffer \<Rightarrow> (isc_result \<times> isc_buffer) option" where
  "isc_base64_decodestring val cstr target = do {
     (r, ctx) \<leftarrow> decode_cstr base64_decode_char (base64_decode_init val (-1) target) cstr;
     Some (if r \<noteq> ISC_R_SUCCESS then r else base64_decode_finish ctx, c64_target ctx) }"

section \<open>Decoding a group\<close>

lemma base64_length: "length base64 = 65"
  by (simp add: base64_def ascii_def)

lemma base64_distinct: "distinct base64"
  by (simp add: base64_def ascii_def)

lemma base64_chars: "list_all (\<lambda>c. \<not> white c \<and> c \<noteq> 0) base64"
  by (simp add: base64_def ascii_def white_def)

lemma digit64_ok:
  assumes "unat i < 65"
  shows "\<not> white (digit64 i)" and "digit64 i \<noteq> 0" and "strchr base64 (digit64 i) = Some (unat i)"
proof -
  show "\<not> white (digit64 i)" and "digit64 i \<noteq> 0"
    using assms base64_chars by (auto simp: digit64_def base64_length list_all_length)
  show "strchr base64 (digit64 i) = Some (unat i)"
    unfolding digit64_def by (rule strchr_nth [of 65]) (use assms base64_distinct base64_length in auto)
qed

lemma digit64_pad: "digit64 64 = 61"
  by (simp add: digit64_def base64_def ascii_def)

lemma pad_not_white: "\<not> white 61"
  by (simp add: white_def)

lemma mask_bounds:
  "unat (x AND 0x3f :: u32) < 64" 
  "unat ((push_bit 4 x AND 0x30) OR (drop_bit 4 y AND 0x0f) :: u32) < 64"
  "unat ((push_bit 2 x AND 0x3c) OR (drop_bit 6 y AND 0x03) :: u32) < 64"
  "unat (push_bit 2 x AND 0x3c :: u32) < 64" "unat (push_bit 4 x AND 0x30 :: u32) < 64"
proof -
  have lt: "unat w < 64" if "w = w AND 0x3f" for w :: u32
    using unat_masked [of w 6] that by (simp add: mask_eq_exp_minus_1)
  show "unat (x AND 0x3f :: u32) < 64" by (rule lt) (simp add: and.assoc)
  show "unat (push_bit 2 x AND 0x3c :: u32) < 64" by (rule lt) (simp add: and.assoc)
  show "unat (push_bit 4 x AND 0x30 :: u32) < 64" by (rule lt) (simp add: and.assoc)
  show "unat ((push_bit 4 x AND 0x30) OR (drop_bit 4 y AND 0x0f) :: u32) < 64"
    by (rule lt) (simp add: and.assoc bit.conj_disj_distrib2)
  show "unat ((push_bit 2 x AND 0x3c) OR (drop_bit 6 y AND 0x03) :: u32) < 64"
    by (rule lt) (simp add: and.assoc bit.conj_disj_distrib2)
qed

lemma decode_quad:
  assumes ctx: "c64_digits ctx = 0" "\<not> c64_seen_end ctx" "length (c64_val ctx) = 4"
    and k: "unat k0 < 65" "unat k1 < 65" "unat k2 < 65" "unat k3 < 65"
  shows "decode_chars base64_decode_char ctx [digit64 k0, digit64 k1, digit64 k2, digit64 k3] =
    base64_group (ctx\<lparr>c64_val := [k0, k1, k2, k3], c64_digits := 4\<rparr>)"
proof -
  obtain a b c d where "c64_val ctx = [a, b, c, d]"
    using ctx(3) by (auto simp: length_Suc_conv eval_nat_numeral)
  then show ?thesis using ctx k by (simp add: base64_decode_char_def digit64_ok Let_def eval_nat_numeral)
qed

lemma bytes64_list:
  "bytes64 [k0, k1, k2, k3] = [ucast (push_bit 2 k0 OR drop_bit 4 k1), ucast (push_bit 4 k1 OR drop_bit 2 k2),
     ucast (push_bit 6 k2 OR k3)]"
  by (simp add: bytes64_def)

lemma bytes64_quads:
  fixes a b c :: u8
  defines "A \<equiv> ucast a :: u32" and "B \<equiv> ucast b" and "C \<equiv> ucast c"
  shows "ucast (push_bit 2 (drop_bit 2 A AND 0x3f) OR drop_bit 4 ((push_bit 4 A AND 0x30) OR (drop_bit 4 B AND 0x0f))) = a"
    "ucast (push_bit 4 ((push_bit 4 A AND 0x30) OR (drop_bit 4 B AND 0x0f)) OR
       drop_bit 2 ((push_bit 2 B AND 0x3c) OR (drop_bit 6 C AND 0x03))) = b"
    "ucast (push_bit 6 ((push_bit 2 B AND 0x3c) OR (drop_bit 6 C AND 0x03)) OR (C AND 0x3f)) = c"
    "ucast (push_bit 4 ((push_bit 4 A AND 0x30) OR (drop_bit 4 B AND 0x0f)) OR drop_bit 2 (push_bit 2 B AND 0x3c)) = b"
    "ucast (push_bit 2 (drop_bit 2 A AND 0x3f) OR drop_bit 4 (push_bit 4 A AND 0x30)) = a"
proof -
  have m: "(0x3f::u32) = mask 6" "(0x30::u32) = push_bit 4 (mask 2)" "(0x0f::u32) = mask 4"
      "(0x3c::u32) = push_bit 2 (mask 4)" "(0x03::u32) = mask 2"
    by (simp_all add: mask_eq_exp_minus_1 push_bit_eq_mult)
  note ms = m A_def B_def C_def
  show "ucast (push_bit 2 (drop_bit 2 A AND 0x3f) OR drop_bit 4 ((push_bit 4 A AND 0x30) OR (drop_bit 4 B AND 0x0f))) = a"
    unfolding ms by (rule u8_eqI) (simp_all add: bit_simps)
  show "ucast (push_bit 4 ((push_bit 4 A AND 0x30) OR (drop_bit 4 B AND 0x0f)) OR
       drop_bit 2 ((push_bit 2 B AND 0x3c) OR (drop_bit 6 C AND 0x03))) = b"
    unfolding ms by (rule u8_eqI) (simp_all add: bit_simps)
  show "ucast (push_bit 6 ((push_bit 2 B AND 0x3c) OR (drop_bit 6 C AND 0x03)) OR (C AND 0x3f)) = c"
    unfolding ms by (rule u8_eqI) (simp_all add: bit_simps)
  show "ucast (push_bit 4 ((push_bit 4 A AND 0x30) OR (drop_bit 4 B AND 0x0f)) OR drop_bit 2 (push_bit 2 B AND 0x3c)) = b"
    unfolding ms by (rule u8_eqI) (simp_all add: bit_simps)
  show "ucast (push_bit 2 (drop_bit 2 A AND 0x3f) OR drop_bit 4 (push_bit 4 A AND 0x30)) = a"
    unfolding ms by (rule u8_eqI) (simp_all add: bit_simps)
qed

definition ready64 :: "base64_decode_ctx \<Rightarrow> bool" where
  "ready64 ctx \<longleftrightarrow> c64_digits ctx = 0 \<and> \<not> c64_seen_end ctx \<and> length (c64_val ctx) = 4 \<and> c64_length ctx = -1 \<and>
     buf_wf (c64_target ctx)"

text \<open>The context after a group.\<close>

definition after64 :: "base64_decode_ctx \<Rightarrow> bytes \<Rightarrow> base64_decode_ctx \<Rightarrow> bool" where
  "after64 ctx xs ctx' \<longleftrightarrow> c64_digits ctx' = 0 \<and> length (c64_val ctx') = 4 \<and> c64_length ctx' = -1 \<and>
     appended (c64_target ctx) xs (c64_target ctx')"

lemma after64_finish:
  "after64 ctx xs ctx' \<Longrightarrow> base64_decode_finish ctx' = ISC_R_SUCCESS \<and> appended (c64_target ctx) xs (c64_target ctx')"
  by (simp add: after64_def base64_decode_finish_def)

lemma not_64: "unat (k::u32) < 64 \<Longrightarrow> k \<noteq> 64"
  by auto

lemma mem_tobuffer_ok:
  "buf_wf t \<Longrightarrow> length xs \<le> buf_room t \<Longrightarrow> \<exists>t'. mem_tobuffer t xs = Some (ISC_R_SUCCESS, t') \<and> appended t xs t'"
  unfolding tobuffer_eq by (rule str_totext_ok)

text \<open>A complete group, a group with one and a group with two pad characters.\<close>

lemma base64_group_simps:
  assumes "c64_length ctx = -1" and "k0 \<noteq> 64" "k1 \<noteq> 64"
  shows "k2 \<noteq> 64 \<Longrightarrow> k3 \<noteq> 64 \<Longrightarrow>
      mem_tobuffer (c64_target ctx) (bytes64 [k0, k1, k2, k3]) = Some (ISC_R_SUCCESS, t') \<Longrightarrow>
      base64_group (ctx\<lparr>c64_val := [k0, k1, k2, k3], c64_digits := 4\<rparr>) =
        Some (ISC_R_SUCCESS, ctx\<lparr>c64_val := [k0, k1, k2, k3], c64_digits := 0, c64_target := t'\<rparr>)"
    and "k2 \<noteq> 64 \<Longrightarrow> k2 AND 3 = 0 \<Longrightarrow>
      mem_tobuffer (c64_target ctx) (take 2 (bytes64 [k0, k1, k2, 0])) = Some (ISC_R_SUCCESS, t') \<Longrightarrow>
      base64_group (ctx\<lparr>c64_val := [k0, k1, k2, 64], c64_digits := 4\<rparr>) =
        Some (ISC_R_SUCCESS, ctx\<lparr>c64_seen_end := True, c64_val := [k0, k1, k2, 0], c64_digits := 0, c64_target := t'\<rparr>)"
    and "k1 AND 0xf = 0 \<Longrightarrow>
      mem_tobuffer (c64_target ctx) (take 1 (bytes64 [k0, k1, 0, 0])) = Some (ISC_R_SUCCESS, t') \<Longrightarrow>
      base64_group (ctx\<lparr>c64_val := [k0, k1, 64, 64], c64_digits := 4\<rparr>) =
        Some (ISC_R_SUCCESS, ctx\<lparr>c64_seen_end := True, c64_val := [k0, k1, 0, 0], c64_digits := 0, c64_target := t'\<rparr>)"
  using assms by (simp_all add: base64_group_def Let_def) (simp_all add: bytes64_def)

lemma decode_quad3:
  assumes r: "ready64 ctx" and room: "3 \<le> buf_room (c64_target ctx)"
  shows "\<exists>ctx'. decode_chars base64_decode_char ctx (quad3 a b c) = Some (ISC_R_SUCCESS, ctx') \<and>
    after64 ctx [a, b, c] ctx' \<and> \<not> c64_seen_end ctx'"
proof -
  let ?k = "[drop_bit 2 (ucast a) AND 0x3f, (push_bit 4 (ucast a) AND 0x30) OR (drop_bit 4 (ucast b) AND 0x0f),
    (push_bit 2 (ucast b) AND 0x3c) OR (drop_bit 6 (ucast c) AND 0x03), ucast c AND 0x3f] :: u32 list"
  have b: "bytes64 ?k = [a, b, c]" unfolding bytes64_list bytes64_quads by simp
  obtain t' where t': "mem_tobuffer (c64_target ctx) (bytes64 ?k) = Some (ISC_R_SUCCESS, t')"
      "appended (c64_target ctx) [a, b, c] t'"
    using mem_tobuffer_ok [of "c64_target ctx" "[a, b, c]"] r room unfolding b by (auto simp: ready64_def)
  have "decode_chars base64_decode_char ctx (quad3 a b c) = base64_group (ctx\<lparr>c64_val := ?k, c64_digits := 4\<rparr>)"
    unfolding quad3_def Let_def
    by (rule decode_quad) (use r mask_bounds [THEN less_trans, of 65] in \<open>simp_all add: ready64_def\<close>)
  also have "\<dots> = Some (ISC_R_SUCCESS, ctx\<lparr>c64_val := ?k, c64_digits := 0, c64_target := t'\<rparr>)"
    by (rule base64_group_simps(1) [OF _ _ _ _ _ t'(1)])
      (use r mask_bounds [THEN not_64] in \<open>simp_all add: ready64_def\<close>)
  finally show ?thesis using r t' by (simp add: after64_def ready64_def)
qed

lemma decode_quad2:
  assumes r: "ready64 ctx" and room: "2 \<le> buf_room (c64_target ctx)"
  shows "\<exists>ctx'. decode_chars base64_decode_char ctx (quad2 a b) = Some (ISC_R_SUCCESS, ctx') \<and> after64 ctx [a, b] ctx'"
proof -
  let ?k0 = "drop_bit 2 (ucast a) AND 0x3f :: u32" and ?k1 = "(push_bit 4 (ucast a) AND 0x30) OR (drop_bit 4 (ucast b) AND 0x0f) :: u32"
    and ?k2 = "push_bit 2 (ucast b) AND 0x3c :: u32"
  have b: "take 2 (bytes64 [?k0, ?k1, ?k2, 0]) = [a, b]" unfolding bytes64_list bytes64_quads by simp
  obtain t' where t': "mem_tobuffer (c64_target ctx) (take 2 (bytes64 [?k0, ?k1, ?k2, 0])) = Some (ISC_R_SUCCESS, t')"
      "appended (c64_target ctx) [a, b] t'"
    using mem_tobuffer_ok [of "c64_target ctx" "[a, b]"] r room unfolding b by (auto simp: ready64_def)
  have "decode_chars base64_decode_char ctx (quad2 a b) = base64_group (ctx\<lparr>c64_val := [?k0, ?k1, ?k2, 64], c64_digits := 4\<rparr>)"
    unfolding quad2_def Let_def digit64_pad [symmetric]
    by (rule decode_quad) (use r mask_bounds [THEN less_trans, of 65] in \<open>simp_all add: ready64_def\<close>)
  also have "\<dots> = Some (ISC_R_SUCCESS,
      ctx\<lparr>c64_seen_end := True, c64_val := [?k0, ?k1, ?k2, 0], c64_digits := 0, c64_target := t'\<rparr>)"
    by (rule base64_group_simps(2) [OF _ _ _ _ _ t'(1)])
      (use r mask_bounds [THEN not_64] in \<open>simp_all add: ready64_def and.assoc\<close>)
  finally show ?thesis using r t' by (simp add: after64_def ready64_def)
qed

lemma decode_quad1:
  assumes r: "ready64 ctx" and room: "1 \<le> buf_room (c64_target ctx)"
  shows "\<exists>ctx'. decode_chars base64_decode_char ctx (quad1 a) = Some (ISC_R_SUCCESS, ctx') \<and> after64 ctx [a] ctx'"
proof -
  let ?k0 = "drop_bit 2 (ucast a) AND 0x3f :: u32" and ?k1 = "push_bit 4 (ucast a) AND 0x30 :: u32"
  have b: "take 1 (bytes64 [?k0, ?k1, 0, 0]) = [a]" unfolding bytes64_list bytes64_quads by simp
  obtain t' where t': "mem_tobuffer (c64_target ctx) (take 1 (bytes64 [?k0, ?k1, 0, 0])) = Some (ISC_R_SUCCESS, t')"
      "appended (c64_target ctx) [a] t'"
    using mem_tobuffer_ok [of "c64_target ctx" "[a]"] r room unfolding b by (auto simp: ready64_def)
  have "decode_chars base64_decode_char ctx (quad1 a) = base64_group (ctx\<lparr>c64_val := [?k0, ?k1, 64, 64], c64_digits := 4\<rparr>)"
    unfolding quad1_def Let_def digit64_pad [symmetric]
    by (rule decode_quad) (use r mask_bounds [THEN less_trans, of 65] in \<open>simp_all add: ready64_def\<close>)
  also have "\<dots> = Some (ISC_R_SUCCESS,
      ctx\<lparr>c64_seen_end := True, c64_val := [?k0, ?k1, 0, 0], c64_digits := 0, c64_target := t'\<rparr>)"
    by (rule base64_group_simps(3) [OF _ _ _ _ t'(1)])
      (use r mask_bounds [THEN not_64] in \<open>simp_all add: ready64_def and.assoc\<close>)
  finally show ?thesis using r t' by (simp add: after64_def ready64_def)
qed

lemma base64_group_length: "length (group64 xs) < 2 ^ 32"
  by (cases xs rule: group64.cases) (simp_all add: quad3_def quad2_def quad1_def Let_def)

lemma group64_plain: "plain_chars (group64 xs)"
  by (cases xs rule: group64.cases)
    (simp_all add: plain_chars_def quad3_def quad2_def quad1_def Let_def digit64_ok mask_bounds [THEN less_trans, of 65] pad_not_white)

lemma base64_decode_ok:
  assumes "length val = 4" and "buf_wf t" and "length src \<le> buf_room t"
  shows "\<exists>ctx. decode_chars base64_decode_char (base64_decode_init val (-1) t) (encode_all 2 group64 src) =
      Some (ISC_R_SUCCESS, ctx) \<and> base64_decode_finish ctx = ISC_R_SUCCESS \<and> appended t src (c64_target ctx)"
proof -
  have "\<exists>ctx. decode_chars base64_decode_char (base64_decode_init val (-1) t) (encode_all 2 group64 src) =
      Some (ISC_R_SUCCESS, ctx) \<and> base64_decode_finish ctx = ISC_R_SUCCESS \<and>
      appended (c64_target (base64_decode_init val (-1) t)) (regroup 2 (\<lambda>xs. xs) src) (c64_target ctx)"
  proof (rule decode_all [where R = ready64])
    fix ctx :: base64_decode_ctx and xs :: bytes
    assume r: "ready64 ctx" and room: "length xs \<le> buf_room (c64_target ctx)"
    show "\<exists>ctx'. decode_chars base64_decode_char ctx (group64 xs) = Some (ISC_R_SUCCESS, ctx') \<and> ready64 ctx' \<and>
        appended (c64_target ctx) xs (c64_target ctx')" if l: "length xs = Suc 2"
    proof -
      obtain a b c where "xs = [a, b, c]" using l by (cases xs rule: group64.cases) auto
      then show ?thesis
        using decode_quad3 [OF r, of a b c] room by (auto simp: after64_def ready64_def dest: appendedD)
    qed
    show "\<exists>ctx'. decode_chars base64_decode_char ctx (group64 xs) = Some (ISC_R_SUCCESS, ctx') \<and>
        base64_decode_finish ctx' = ISC_R_SUCCESS \<and> appended (c64_target ctx) xs (c64_target ctx')"
      if "xs \<noteq> []" "length xs < Suc 2"
      using that decode_quad2 [OF r] decode_quad1 [OF r] room after64_finish
      by (cases xs rule: group64.cases) (simp_all, blast+)
  qed (use assms in \<open>auto simp: ready64_def base64_decode_finish_def base64_decode_init_def regroup_def\<close>)
  then show ?thesis by (simp add: base64_decode_init_def regroup_def)
qed

definition base64_text :: "int \<Rightarrow> bytes \<Rightarrow> bytes \<Rightarrow> bytes" where
  "base64_text wl wb src = text_all 2 4 group64 (if wl < 4 then 4 else wl) wb 0 src"

interpretation base64: text_codec "encode_all 2 group64" base64_text isc_base64_totext 4 base64_decode_init
  base64_decode_char base64_decode_finish c64_target isc_base64_decodestring "\<lambda>_. True"
proof unfold_locales
  fix wb wl src t
  show "filter (\<lambda>c. \<not> white c) (base64_text wl wb src) = encode_all 2 group64 src" if "list_all white wb"
    unfolding base64_text_def by (rule text_all_encode [OF that group64_plain])
  show "0 \<notin> set (base64_text wl wb src)" if "0 \<notin> set wb"
    unfolding base64_text_def by (rule text_all_nonzero [OF that group64_plain])
  show "\<exists>t'. isc_base64_totext src wl wb t = Some (ISC_R_SUCCESS, [], t') \<and> appended t (base64_text wl wb src) t'"
    if "buf_wf t" "length (base64_text wl wb src) \<le> buf_room t"
    using totext_loop_ok that by (simp add: base64_text_def isc_base64_totext_def)
  show "\<exists>s t'. isc_base64_totext src wl wb t = Some (ISC_R_NOSPACE, s, t')"
    if "buf_wf t" "length wb < 2 ^ 32" "buf_room t < length (base64_text wl wb src)"
    using totext_loop_nospace that base64_group_length unfolding base64_text_def isc_base64_totext_def Let_def by blast
  show "isc_base64_decodestring val cs t = map_option (\<lambda>(r, ctx). (if r \<noteq> ISC_R_SUCCESS then r else base64_decode_finish ctx,
      c64_target ctx)) (decode_cstr base64_decode_char (base64_decode_init val (-1) t) cs)" for val cs
    by (cases "decode_cstr base64_decode_char (base64_decode_init val (-1) t) cs")
      (auto simp: isc_base64_decodestring_def)
qed (rule base64_decode_ok)

end
