(* ===== verification/Isc_Hex.thy ===== *)
theory Isc_Hex
  imports Isc_Codec
begin

text \<open>
  Hexadecimal: \<open>lib/isc/hex.c\<close>.
\<close>

definition hex :: bytes where
  "hex = ascii ''0123456789ABCDEF''"

definition hexdigit :: "u32 \<Rightarrow> u8" where
  "hexdigit i = hex ! unat i"

section \<open>Encoding\<close>

fun group16 :: "bytes \<Rightarrow> bytes" where
  "group16 (a # _) = (let a = ucast a :: u32 in [hexdigit (drop_bit 4 a AND 0xf), hexdigit (a AND 0xf)])"
| "group16 [] = []"

definition isc_hex_totext :: "bytes \<Rightarrow> int \<Rightarrow> bytes \<Rightarrow> isc_buffer \<Rightarrow> (isc_result \<times> bytes \<times> isc_buffer) option" where
  "isc_hex_totext source wordlength wordbreak target =
     (let wordlength = (if wordlength < 2 then 2 else wordlength) in
      totext_loop 0 2 group16 wordlength wordbreak 0 source target)"

section \<open>Decoding\<close>

record hex_decode_ctx =
  c16_length :: int
  c16_target :: isc_buffer
  c16_digits :: nat
  c16_val :: "u32 list"

definition hex_decode_init :: "u32 list \<Rightarrow> int \<Rightarrow> isc_buffer \<Rightarrow> hex_decode_ctx" where
  "hex_decode_init val len target = \<lparr>c16_length = len, c16_target = target, c16_digits = 0, c16_val = val\<rparr>"

definition toupper :: "u8 \<Rightarrow> u8" where
  "toupper c = (if 97 \<le> c \<and> c \<le> 122 then c - 32 else c)"

definition hex_decode_char :: "hex_decode_ctx \<Rightarrow> u8 \<Rightarrow> (isc_result \<times> hex_decode_ctx) option" where
  "hex_decode_char ctx c =
     (case strchr hex (toupper c) of
        None \<Rightarrow> Some (ISC_R_BADHEX, ctx)
      | Some s \<Rightarrow> do {
          REQUIRE (c16_digits ctx < length (c16_val ctx));
          let ctx = ctx\<lparr>c16_val := (c16_val ctx)[c16_digits ctx := of_nat s], c16_digits := c16_digits ctx + 1\<rparr> in
          if c16_digits ctx = 2 then do {
            let num = ucast (push_bit 4 (c16_val ctx ! 0) + c16_val ctx ! 1) in do {
            (r, t) \<leftarrow> mem_tobuffer (c16_target ctx) [num];
            let ctx = ctx\<lparr>c16_target := t\<rparr> in
            if r \<noteq> ISC_R_SUCCESS then Some (r, ctx)
            else if c16_length ctx = 0 then Some (ISC_R_BADHEX, ctx)
            else Some (ISC_R_SUCCESS, ctx\<lparr>c16_digits := 0,
              c16_length := (if c16_length ctx \<ge> 0 then c16_length ctx - 1 else c16_length ctx)\<rparr>) } }
          else Some (ISC_R_SUCCESS, ctx) })"

definition hex_decode_finish :: "hex_decode_ctx \<Rightarrow> isc_result" where
  "hex_decode_finish ctx =
     (if c16_length ctx > 0 then ISC_R_UNEXPECTEDEND
      else if c16_digits ctx \<noteq> 0 then ISC_R_BADHEX
      else ISC_R_SUCCESS)"

definition isc_hex_tobuffer ::
    "u32 list \<Rightarrow> lex_answer list \<Rightarrow> isc_buffer \<Rightarrow> int \<Rightarrow> (isc_result \<times> isc_buffer \<times> lex_answer list) option" where
  "isc_hex_tobuffer val lexer target len = do {
     (r, ctx, token, lexer) \<leftarrow>
       decode_tokens hex_decode_char (\<lambda>ctx. c16_length ctx \<noteq> 0) (hex_decode_init val len target) None lexer;
     if r \<noteq> ISC_R_SUCCESS then Some (r, c16_target ctx, lexer)
     else do {
       lexer \<leftarrow> (if c16_length ctx < 0 then map_option (\<lambda>t. t # lexer) token else Some lexer);
       Some (hex_decode_finish ctx, c16_target ctx, lexer) } }"

definition isc_hex_decodestring :: "u32 list \<Rightarrow> bytes \<Rightarrow> isc_buffer \<Rightarrow> (isc_result \<times> isc_buffer) option" where
  "isc_hex_decodestring val cstr target = do {
     (r, ctx) \<leftarrow> decode_cstr hex_decode_char (hex_decode_init val (-1) target) cstr;
     Some (if r \<noteq> ISC_R_SUCCESS then r else hex_decode_finish ctx, c16_target ctx) }"

section \<open>Reading back a group\<close>

lemma hex_facts: "length hex = 16" "distinct hex" "list_all (\<lambda>c. \<not> white c \<and> c \<noteq> 0 \<and> toupper c = c) hex"
  by (simp_all add: hex_def ascii_def white_def toupper_def)

lemma hexdigit_ok:
  assumes "unat i < 16"
  shows "\<not> white (hexdigit i)" and "hexdigit i \<noteq> 0" and "strchr hex (toupper (hexdigit i)) = Some (unat i)"
proof -
  have "hexdigit i \<in> set hex" using assms hex_facts(1) by (simp add: hexdigit_def)
  then show "\<not> white (hexdigit i)" "hexdigit i \<noteq> 0" using hex_facts(3) by (auto simp: list_all_iff)
  have "toupper (hexdigit i) = hexdigit i"
    using \<open>hexdigit i \<in> set hex\<close> hex_facts(3) by (auto simp: list_all_iff)
  moreover have "strchr hex (hexdigit i) = Some (unat i)"
    unfolding hexdigit_def by (rule strchr_nth [of 16]) (use assms hex_facts in auto)
  ultimately show "strchr hex (toupper (hexdigit i)) = Some (unat i)" by simp
qed

lemma nibble: "unat (x AND 0xf :: u32) < 16"
  using unat_masked [of "x AND 0xf" 4] by (simp add: mask_eq_exp_minus_1 and.assoc)

lemma nibbles:
  fixes a :: u8
  shows "ucast (push_bit 4 (drop_bit 4 (ucast a) AND 0xf) + (ucast a AND 0xf) :: u32) = a"
proof -
  have m: "(0xf::u32) = mask 4" by (simp add: mask_eq_exp_minus_1)
  have "push_bit 4 (drop_bit 4 (ucast a) AND 0xf) + (ucast a AND 0xf) =
      push_bit 4 (drop_bit 4 (ucast a) AND 0xf) OR (ucast a AND 0xf :: u32)"
    unfolding m by (rule disjunctive_add) (simp add: bit_simps)
  moreover have "ucast (push_bit 4 (drop_bit 4 (ucast a) AND 0xf) OR (ucast a AND 0xf) :: u32) = a"
    unfolding m by (rule u8_eqI) (simp_all add: bit_simps)
  ultimately show ?thesis by simp
qed

definition ready16 :: "hex_decode_ctx \<Rightarrow> bool" where
  "ready16 ctx \<longleftrightarrow> c16_digits ctx = 0 \<and> length (c16_val ctx) = 2 \<and> c16_length ctx = -1 \<and> buf_wf (c16_target ctx)"

lemma decode_pair:
  assumes r: "ready16 ctx" and room: "1 \<le> buf_room (c16_target ctx)"
  shows "\<exists>ctx'. decode_chars hex_decode_char ctx (group16 [a]) = Some (ISC_R_SUCCESS, ctx') \<and> ready16 ctx' \<and>
    appended (c16_target ctx) [a] (c16_target ctx')"
proof -
  obtain x y where v: "c16_val ctx = [x, y]"
    using r by (auto simp: ready16_def length_Suc_conv numeral_2_eq_2)
  obtain t' where t': "mem_tobuffer (c16_target ctx) [a] = Some (ISC_R_SUCCESS, t')" "appended (c16_target ctx) [a] t'"
    using str_totext_ok [of "c16_target ctx" "[a]"] r room by (auto simp: ready16_def tobuffer_eq)
  have "decode_chars hex_decode_char ctx (group16 [a]) = Some (ISC_R_SUCCESS,
      ctx\<lparr>c16_val := [drop_bit 4 (ucast a) AND 0xf, ucast a AND 0xf], c16_digits := 0, c16_target := t'\<rparr>)"
    using r v t' nibbles [of a] unfolding ready16_def
    by (simp add: hex_decode_char_def hexdigit_ok nibble Let_def del: push_bit_and)
  then show ?thesis using r t' by (auto simp: ready16_def dest: appendedD)
qed

lemma group16_plain: "plain_chars (group16 xs)"
  by (cases xs) (simp_all add: plain_chars_def Let_def hexdigit_ok nibble)

lemma group16_length: "length (group16 xs) < 2 ^ 32"
  by (cases xs) (simp_all add: Let_def)

lemma hex_decode_ok:
  assumes "length val = 2" and "buf_wf t" and "length src \<le> buf_room t"
  shows "\<exists>ctx. decode_chars hex_decode_char (hex_decode_init val (-1) t) (encode_all 0 group16 src) =
      Some (ISC_R_SUCCESS, ctx) \<and> hex_decode_finish ctx = ISC_R_SUCCESS \<and> appended t src (c16_target ctx)"
proof -
  have "\<exists>ctx. decode_chars hex_decode_char (hex_decode_init val (-1) t) (encode_all 0 group16 src) =
      Some (ISC_R_SUCCESS, ctx) \<and> hex_decode_finish ctx = ISC_R_SUCCESS \<and>
      appended (c16_target (hex_decode_init val (-1) t)) (regroup 0 (\<lambda>xs. xs) src) (c16_target ctx)"
  proof (rule decode_all [where R = ready16])
    show "\<exists>ctx'. decode_chars hex_decode_char ctx (group16 xs) = Some (ISC_R_SUCCESS, ctx') \<and> ready16 ctx' \<and>
        appended (c16_target ctx) xs (c16_target ctx')"
      if "ready16 ctx" "length xs = Suc 0" "length xs \<le> buf_room (c16_target ctx)" for ctx xs
      using decode_pair [OF that(1), of "hd xs"] that(2,3) by (cases xs) auto
  qed (use assms in \<open>auto simp: ready16_def hex_decode_finish_def hex_decode_init_def regroup_def\<close>)
  then show ?thesis by (simp add: hex_decode_init_def regroup_def)
qed

definition hex_text :: "int \<Rightarrow> bytes \<Rightarrow> bytes \<Rightarrow> bytes" where
  "hex_text wl wb src = text_all 0 2 group16 (if wl < 2 then 2 else wl) wb 0 src"

interpretation hex: text_codec "encode_all 0 group16" hex_text isc_hex_totext 2 hex_decode_init
  hex_decode_char hex_decode_finish c16_target isc_hex_decodestring "\<lambda>_. True"
proof unfold_locales
  fix wb wl src t
  show "filter (\<lambda>c. \<not> white c) (hex_text wl wb src) = encode_all 0 group16 src" if "list_all white wb"
    unfolding hex_text_def by (rule text_all_encode [OF that group16_plain])
  show "0 \<notin> set (hex_text wl wb src)" if "0 \<notin> set wb"
    unfolding hex_text_def by (rule text_all_nonzero [OF that group16_plain])
  show "\<exists>t'. isc_hex_totext src wl wb t = Some (ISC_R_SUCCESS, [], t') \<and> appended t (hex_text wl wb src) t'"
    if "buf_wf t" "length (hex_text wl wb src) \<le> buf_room t"
    using totext_loop_ok that by (simp add: hex_text_def isc_hex_totext_def)
  show "\<exists>s t'. isc_hex_totext src wl wb t = Some (ISC_R_NOSPACE, s, t')"
    if "buf_wf t" "length wb < 2 ^ 32" "buf_room t < length (hex_text wl wb src)"
    using totext_loop_nospace that group16_length unfolding hex_text_def isc_hex_totext_def Let_def by blast
  show "isc_hex_decodestring val cs t = map_option (\<lambda>(r, ctx). (if r \<noteq> ISC_R_SUCCESS then r else hex_decode_finish ctx,
      c16_target ctx)) (decode_cstr hex_decode_char (hex_decode_init val (-1) t) cs)" for val cs
    by (cases "decode_cstr hex_decode_char (hex_decode_init val (-1) t) cs")
      (auto simp: isc_hex_decodestring_def)
qed (rule hex_decode_ok)

end
