(* ===== verification/Isc_Base32.thy ===== *)
theory Isc_Base32
  imports Isc_Codec
begin

text \<open>
  Base 32 and base 32 with the extended hexadecimal alphabet: \<open>lib/isc/base32.c\<close>. The alphabets hold the
  upper case digits, the pad character at index 32 and the lower case digits from index 33 on.
\<close>

definition base32 :: bytes where
  "base32 = ascii ''ABCDEFGHIJKLMNOPQRSTUVWXYZ234567=abcdefghijklmnopqrstuvwxyz234567''"

definition base32hex :: bytes where
  "base32hex = ascii ''0123456789ABCDEFGHIJKLMNOPQRSTUV=0123456789abcdefghijklmnopqrstuv''"

section \<open>Encoding\<close>

fun group32 :: "bytes \<Rightarrow> bytes \<Rightarrow> bytes" where
  "group32 base [] = []"
| "group32 base [a] = (let a = ucast a :: u32 in
     [base ! unat (drop_bit 3 a AND 0x1f), base ! unat (push_bit 2 a AND 0x1c), 61, 61, 61, 61, 61, 61])"
| "group32 base [a, b] = (let a = ucast a :: u32; b = ucast b :: u32 in
     [base ! unat (drop_bit 3 a AND 0x1f), base ! unat ((push_bit 2 a AND 0x1c) OR (drop_bit 6 b AND 0x03)),
      base ! unat (drop_bit 1 b AND 0x1f), base ! unat (push_bit 4 b AND 0x10), 61, 61, 61, 61])"
| "group32 base [a, b, c] = (let a = ucast a :: u32; b = ucast b :: u32; c = ucast c :: u32 in
     [base ! unat (drop_bit 3 a AND 0x1f), base ! unat ((push_bit 2 a AND 0x1c) OR (drop_bit 6 b AND 0x03)),
      base ! unat (drop_bit 1 b AND 0x1f), base ! unat ((push_bit 4 b AND 0x10) OR (drop_bit 4 c AND 0x0f)),
      base ! unat (push_bit 1 c AND 0x1e), 61, 61, 61])"
| "group32 base [a, b, c, d] = (let a = ucast a :: u32; b = ucast b :: u32; c = ucast c :: u32; d = ucast d :: u32 in
     [base ! unat (drop_bit 3 a AND 0x1f), base ! unat ((push_bit 2 a AND 0x1c) OR (drop_bit 6 b AND 0x03)),
      base ! unat (drop_bit 1 b AND 0x1f), base ! unat ((push_bit 4 b AND 0x10) OR (drop_bit 4 c AND 0x0f)),
      base ! unat ((push_bit 1 c AND 0x1e) OR (drop_bit 7 d AND 0x01)), base ! unat (drop_bit 2 d AND 0x1f),
      base ! unat (push_bit 3 d AND 0x18), 61])"
| "group32 base (a # b # c # d # e # _) =
     (let a = ucast a :: u32; b = ucast b :: u32; c = ucast c :: u32; d = ucast d :: u32; e = ucast e :: u32 in
     [base ! unat (drop_bit 3 a AND 0x1f), base ! unat ((push_bit 2 a AND 0x1c) OR (drop_bit 6 b AND 0x03)),
      base ! unat (drop_bit 1 b AND 0x1f), base ! unat ((push_bit 4 b AND 0x10) OR (drop_bit 4 c AND 0x0f)),
      base ! unat ((push_bit 1 c AND 0x1e) OR (drop_bit 7 d AND 0x01)), base ! unat (drop_bit 2 d AND 0x1f),
      base ! unat ((push_bit 3 d AND 0x18) OR (drop_bit 5 e AND 0x07)), base ! unat (e AND 0x1f)])"

definition base32_totext ::
    "bytes \<Rightarrow> int \<Rightarrow> bytes \<Rightarrow> isc_buffer \<Rightarrow> bytes \<Rightarrow> (isc_result \<times> bytes \<times> isc_buffer) option" where
  "base32_totext source wordlength wordbreak target base =
     (let wordlength = (if wordlength \<ge> 0 \<and> wordlength < 8 then 8 else wordlength) in
      totext_loop 4 8 (group32 base) wordlength wordbreak 0 source target)"

definition isc_base32_totext :: "bytes \<Rightarrow> int \<Rightarrow> bytes \<Rightarrow> isc_buffer \<Rightarrow> (isc_result \<times> bytes \<times> isc_buffer) option" where
  "isc_base32_totext source wordlength wordbreak target = base32_totext source wordlength wordbreak target base32"

definition isc_base32hex_totext :: "bytes \<Rightarrow> int \<Rightarrow> bytes \<Rightarrow> isc_buffer \<Rightarrow> (isc_result \<times> bytes \<times> isc_buffer) option" where
  "isc_base32hex_totext source wordlength wordbreak target = base32_totext source wordlength wordbreak target base32hex"

section \<open>Decoding\<close>

record base32_decode_ctx =
  c32_length :: int
  c32_target :: isc_buffer
  c32_digits :: nat
  c32_seen_end :: bool
  c32_val :: "u32 list"
  c32_base :: bytes
  c32_seen_32 :: nat

definition base32_decode_init :: "bytes \<Rightarrow> u32 list \<Rightarrow> int \<Rightarrow> isc_buffer \<Rightarrow> base32_decode_ctx" where
  "base32_decode_init base val len target =
     \<lparr>c32_length = len, c32_target = target, c32_digits = 0, c32_seen_end = False, c32_val = val, c32_base = base,
      c32_seen_32 = 0\<rparr>"

text \<open>The switch on the position of the first pad character: \<open>None\<close> for a bad one, otherwise the number of
  significant bytes that is recorded.\<close>

definition pad_start :: "nat \<Rightarrow> u32 list \<Rightarrow> nat option" where
  "pad_start digits val =
     (if digits = 2 then (if val ! 1 AND 0x03 \<noteq> 0 then None else Some 1)
      else if digits = 4 then (if val ! 3 AND 0x0f \<noteq> 0 then None else Some 3)
      else if digits = 5 then (if val ! 4 AND 0x01 \<noteq> 0 then None else Some 3)
      else if digits = 7 then (if val ! 6 AND 0x07 \<noteq> 0 then None else Some 4)
      else None)"

definition bytes32 :: "u32 list \<Rightarrow> bytes" where
  "bytes32 v = [ucast (push_bit 3 (v ! 0) OR drop_bit 2 (v ! 1)),
     ucast (push_bit 6 (v ! 1) OR push_bit 1 (v ! 2) OR drop_bit 4 (v ! 3)),
     ucast (push_bit 4 (v ! 3) OR drop_bit 1 (v ! 4)),
     ucast (push_bit 7 (v ! 4) OR push_bit 2 (v ! 5) OR drop_bit 3 (v ! 6)),
     ucast (push_bit 5 (v ! 6) OR v ! 7)]"

definition base32_group :: "base32_decode_ctx \<Rightarrow> (isc_result \<times> base32_decode_ctx) option" where
  "base32_group ctx =
     (let n = (if c32_seen_32 ctx \<noteq> 0 then c32_seen_32 ctx else 5);
          ctx = ctx\<lparr>c32_seen_end := c32_seen_end ctx \<or> c32_seen_32 ctx \<noteq> 0\<rparr>
      in do {
        (r, t) \<leftarrow> mem_tobuffer (c32_target ctx) (take n (bytes32 (c32_val ctx)));
        let ctx = ctx\<lparr>c32_target := t\<rparr> in
        if r \<noteq> ISC_R_SUCCESS then Some (r, ctx)
        else if c32_length ctx \<ge> 0 \<and> int n > c32_length ctx then Some (ISC_R_BADBASE32, ctx)
        else Some (ISC_R_SUCCESS, ctx\<lparr>c32_digits := 0,
          c32_length := (if c32_length ctx \<ge> 0 then c32_length ctx - int n else c32_length ctx)\<rparr>) })"

definition base32_decode_char :: "base32_decode_ctx \<Rightarrow> u8 \<Rightarrow> (isc_result \<times> base32_decode_ctx) option" where
  "base32_decode_char ctx c =
     (if c32_seen_end ctx then Some (ISC_R_BADBASE32, ctx)
      else case strchr (c32_base ctx) c of
          None \<Rightarrow> Some (ISC_R_BADBASE32, ctx)
        | Some s \<Rightarrow>
            (let last = (if s > 32 then s - 33 else s) in
             if last \<noteq> 32 \<and> c32_seen_32 ctx \<noteq> 0 then Some (ISC_R_BADBASE32, ctx)
             else (case (if last = 32 \<and> c32_seen_32 ctx = 0 then pad_start (c32_digits ctx) (c32_val ctx)
                         else Some (c32_seen_32 ctx)) of
                 None \<Rightarrow> Some (ISC_R_BADBASE32, ctx)
               | Some n \<Rightarrow> do {
                   REQUIRE (c32_digits ctx < length (c32_val ctx));
                   let ctx = ctx\<lparr>c32_seen_32 := n,
                     c32_val := (c32_val ctx)[c32_digits ctx := (if last = 32 then 0 else of_nat last)],
                     c32_digits := c32_digits ctx + 1\<rparr> in
                   if c32_digits ctx = 8 then base32_group ctx else Some (ISC_R_SUCCESS, ctx) })))"

definition base32_decode_finish :: "base32_decode_ctx \<Rightarrow> isc_result" where
  "base32_decode_finish ctx =
     (if c32_length ctx > 0 then ISC_R_UNEXPECTEDEND
      else if c32_digits ctx \<noteq> 0 then ISC_R_BADBASE32
      else ISC_R_SUCCESS)"

definition base32_tobuffer ::
    "bytes \<Rightarrow> u32 list \<Rightarrow> lex_answer list \<Rightarrow> isc_buffer \<Rightarrow> int \<Rightarrow> (isc_result \<times> isc_buffer \<times> lex_answer list) option" where
  "base32_tobuffer base val lexer target len = do {
     (r, ctx, token, lexer) \<leftarrow>
       decode_tokens base32_decode_char (\<lambda>ctx. \<not> c32_seen_end ctx \<and> c32_length ctx \<noteq> 0)
         (base32_decode_init base val len target) None lexer;
     if r \<noteq> ISC_R_SUCCESS then Some (r, c32_target ctx, lexer)
     else do {
       lexer \<leftarrow> (if c32_length ctx < 0 \<and> \<not> c32_seen_end ctx
                then map_option (\<lambda>t. t # lexer) token else Some lexer);
       Some (base32_decode_finish ctx, c32_target ctx, lexer) } }"

definition isc_base32_tobuffer where
  "isc_base32_tobuffer = base32_tobuffer base32"

definition isc_base32hex_tobuffer where
  "isc_base32hex_tobuffer = base32_tobuffer base32hex"

definition base32_decodestring :: "bytes \<Rightarrow> u32 list \<Rightarrow> bytes \<Rightarrow> isc_buffer \<Rightarrow> (isc_result \<times> isc_buffer) option" where
  "base32_decodestring base val cstr target = do {
     (r, ctx) \<leftarrow> decode_cstr base32_decode_char (base32_decode_init base val (-1) target) cstr;
     Some (if r \<noteq> ISC_R_SUCCESS then r else base32_decode_finish ctx, c32_target ctx) }"

definition isc_base32_decodestring where
  "isc_base32_decodestring = base32_decodestring base32"

definition isc_base32hex_decodestring where
  "isc_base32hex_decodestring = base32_decodestring base32hex"

definition base32_decoderegion :: "bytes \<Rightarrow> u32 list \<Rightarrow> bytes \<Rightarrow> isc_buffer \<Rightarrow> (isc_result \<times> isc_buffer) option" where
  "base32_decoderegion base val source target = do {
     (r, ctx) \<leftarrow> decode_chars base32_decode_char (base32_decode_init base val (-1) target) source;
     Some (if r \<noteq> ISC_R_SUCCESS then r else base32_decode_finish ctx, c32_target ctx) }"

definition isc_base32_decoderegion where
  "isc_base32_decoderegion = base32_decoderegion base32"

definition isc_base32hex_decoderegion where
  "isc_base32hex_decoderegion = base32_decoderegion base32hex"

section \<open>Reading back a group\<close>

definition alphabet :: "bytes \<Rightarrow> bool" where
  "alphabet base \<longleftrightarrow> length base = 65 \<and> distinct (take 33 base) \<and> base ! 32 = 61 \<and> plain_chars base"

lemma alphabets: "alphabet base32" "alphabet base32hex"
  by (simp_all add: alphabet_def base32_def base32hex_def ascii_def plain_chars_def white_def)

lemma alphabet_digit:
  assumes "alphabet base" and "k < 33"
  shows "strchr base (base ! k) = Some k" and "\<not> white (base ! k)" and "base ! k \<noteq> 0"
proof -
  show "strchr base (base ! k) = Some k"
    by (rule strchr_nth [of 33]) (use assms in \<open>auto simp: alphabet_def\<close>)
  show "\<not> white (base ! k)" "base ! k \<noteq> 0"
    using assms by (auto simp: alphabet_def plain_chars_def list_all_length)
qed

lemma alphabet_pad: "alphabet base \<Longrightarrow> strchr base 61 = Some 32"
  using alphabet_digit(1) [of base 32] by (simp add: alphabet_def)

definition ready32 :: "bytes \<Rightarrow> base32_decode_ctx \<Rightarrow> bool" where
  "ready32 base ctx \<longleftrightarrow> c32_digits ctx = 0 \<and> \<not> c32_seen_end ctx \<and> c32_seen_32 ctx = 0 \<and> length (c32_val ctx) = 8 \<and>
     c32_base ctx = base \<and> c32_length ctx = -1 \<and> buf_wf (c32_target ctx)"

text \<open>One digit, the first pad character and a further pad character.\<close>

lemma char32_digit:
  assumes "alphabet base" and "k < 32" and "c32_base ctx = base" and "\<not> c32_seen_end ctx" and "c32_seen_32 ctx = 0"
    and "c32_digits ctx < 8" and "length (c32_val ctx) = 8"
  shows "base32_decode_char ctx (base ! k) =
    (let ctx = ctx\<lparr>c32_val := (c32_val ctx)[c32_digits ctx := of_nat k], c32_digits := c32_digits ctx + 1\<rparr> in
     if c32_digits ctx = 8 then base32_group ctx else Some (ISC_R_SUCCESS, ctx))"
  using assms alphabet_digit(1) [of base k] by (cases ctx) (simp add: base32_decode_char_def Let_def)

lemma char32_pad:
  assumes "alphabet base" and "c32_base ctx = base" and "\<not> c32_seen_end ctx"
    and "(if c32_seen_32 ctx = 0 then pad_start (c32_digits ctx) (c32_val ctx) else Some (c32_seen_32 ctx)) = Some n"
    and "c32_digits ctx < 8" and "length (c32_val ctx) = 8"
  shows "base32_decode_char ctx 61 =
    (let ctx = ctx\<lparr>c32_seen_32 := n, c32_val := (c32_val ctx)[c32_digits ctx := 0], c32_digits := c32_digits ctx + 1\<rparr> in
     if c32_digits ctx = 8 then base32_group ctx else Some (ISC_R_SUCCESS, ctx))"
  using assms alphabet_pad [of base] by (simp add: base32_decode_char_def Let_def split: if_splits)

lemma decode_digits:
  assumes "alphabet base" and "list_all (\<lambda>k. k < 32) ks" and "c32_base ctx = base" and "\<not> c32_seen_end ctx"
    and "c32_seen_32 ctx = 0" and "length (c32_val ctx) = 8" and "c32_digits ctx + length ks < 8"
  shows "decode_chars base32_decode_char ctx (map ((!) base) ks) = Some (ISC_R_SUCCESS,
    ctx\<lparr>c32_val := take (c32_digits ctx) (c32_val ctx) @ map of_nat ks @ drop (c32_digits ctx + length ks) (c32_val ctx),
      c32_digits := c32_digits ctx + length ks\<rparr>)"
  using assms
proof (induction ks arbitrary: ctx)
  case (Cons k ks)
  let ?c = "ctx\<lparr>c32_val := (c32_val ctx)[c32_digits ctx := of_nat k], c32_digits := c32_digits ctx + 1\<rparr>"
  have "base32_decode_char ctx (base ! k) = Some (ISC_R_SUCCESS, ?c)"
    using char32_digit [of base k ctx] Cons.prems by simp
  moreover have "decode_chars base32_decode_char ?c (map ((!) base) ks) = Some (ISC_R_SUCCESS,
      ?c\<lparr>c32_val := take (c32_digits ?c) (c32_val ?c) @ map of_nat ks @ drop (c32_digits ?c + length ks) (c32_val ?c),
        c32_digits := c32_digits ?c + length ks\<rparr>)"
    using Cons.prems by (intro Cons.IH) auto
  moreover have "take (Suc (c32_digits ctx)) ((c32_val ctx)[c32_digits ctx := of_nat k]) =
      take (c32_digits ctx) (c32_val ctx) @ [of_nat k]"
    using Cons.prems by (simp add: take_Suc_conv_app_nth)
  ultimately show ?case by simp
qed simp

lemma decode_pads:
  assumes "alphabet base" and "c32_base ctx = base" and "\<not> c32_seen_end ctx" and "c32_seen_32 ctx \<noteq> 0"
    and "length (c32_val ctx) = 8" and "c32_digits ctx + Suc j = 8"
  shows "decode_chars base32_decode_char ctx (replicate (Suc j) 61) =
    base32_group (ctx\<lparr>c32_val := take (c32_digits ctx) (c32_val ctx) @ replicate (Suc j) 0, c32_digits := 8\<rparr>)"
  using assms
proof (induction j arbitrary: ctx)
  case 0
  then have "take 7 (c32_val ctx) @ [0] = (c32_val ctx)[7 := 0]"
    by (simp add: upd_conv_take_nth_drop)
  then show ?case
    using char32_pad [of base ctx "c32_seen_32 ctx"] 0 by (cases ctx) simp
next
  case (Suc j)
  let ?c = "ctx\<lparr>c32_val := (c32_val ctx)[c32_digits ctx := 0], c32_digits := c32_digits ctx + 1\<rparr>"
  have "base32_decode_char ctx 61 = Some (ISC_R_SUCCESS, ?c)"
    using char32_pad [of base ctx "c32_seen_32 ctx"] Suc.prems by (cases ctx) simp
  moreover have "decode_chars base32_decode_char ?c (replicate (Suc j) 61) =
      base32_group (?c\<lparr>c32_val := take (c32_digits ?c) (c32_val ?c) @ replicate (Suc j) 0, c32_digits := 8\<rparr>)"
    using Suc.prems by (intro Suc.IH) auto
  moreover have "take (Suc (c32_digits ctx)) ((c32_val ctx)[c32_digits ctx := 0]) = take (c32_digits ctx) (c32_val ctx) @ [0]"
    using Suc.prems by (simp add: take_Suc_conv_app_nth)
  ultimately show ?case by simp
qed

text \<open>A group of eight digits, and a group of \<open>length ks\<close> digits filled up with pad characters.\<close>

lemma decode_full:
  assumes b: "alphabet base" and r: "ready32 base ctx" and ks: "list_all (\<lambda>k. k < 32) ks" "length ks = 8"
  shows "decode_chars base32_decode_char ctx (map ((!) base) ks) =
    base32_group (ctx\<lparr>c32_val := map of_nat ks, c32_digits := 8\<rparr>)"
proof -
  obtain ks' k where k: "ks = ks' @ [k]" using ks(2) by (cases ks rule: rev_cases) auto
  let ?c = "ctx\<lparr>c32_val := map of_nat ks' @ drop 7 (c32_val ctx), c32_digits := 7\<rparr>"
  have "decode_chars base32_decode_char ctx (map ((!) base) ks') = Some (ISC_R_SUCCESS, ?c)"
    using decode_digits [OF b, of ks' ctx] r ks k by (simp add: ready32_def)
  moreover have "base32_decode_char ?c (base ! k) = base32_group (?c\<lparr>c32_val := (c32_val ?c)[7 := of_nat k], c32_digits := 8\<rparr>)"
    using char32_digit [OF b, of k ?c] r ks k by (simp add: ready32_def)
  moreover have "(map of_nat ks' @ drop 7 (c32_val ctx))[7 := of_nat k] = map of_nat ks"
  proof -
    have "length (drop 7 (c32_val ctx)) = Suc 0" using r by (simp add: ready32_def)
    then obtain y where "drop 7 (c32_val ctx) = [y]" unfolding length_Suc_conv length_0_conv by blast
    then show ?thesis using ks k by (simp add: list_update_append)
  qed
  ultimately show ?thesis by (simp add: k decode_chars_append)
qed

lemma decode_padded:
  assumes b: "alphabet base" and r: "ready32 base ctx" and ks: "list_all (\<lambda>k. k < 32) ks" "length ks + Suc j = 8"
    and n: "\<And>ys. pad_start (length ks) (map of_nat ks @ ys) = Some n" "n \<noteq> 0"
  shows "decode_chars base32_decode_char ctx (map ((!) base) ks @ replicate (Suc j) 61) =
    base32_group (ctx\<lparr>c32_seen_32 := n, c32_val := map of_nat ks @ replicate (Suc j) 0, c32_digits := 8\<rparr>)"
proof -
  let ?c = "ctx\<lparr>c32_val := map of_nat ks @ drop (length ks) (c32_val ctx), c32_digits := length ks\<rparr>"
  have "decode_chars base32_decode_char ctx (map ((!) base) ks) = Some (ISC_R_SUCCESS, ?c)"
    using decode_digits [OF b ks(1), of ctx] r ks by (simp add: ready32_def)
  moreover have "decode_chars base32_decode_char ?c (replicate (Suc j) 61) =
      decode_chars base32_decode_char (?c\<lparr>c32_seen_32 := n\<rparr>) (replicate (Suc j) 61)"
    using char32_pad [OF b, of ?c n] char32_pad [OF b, of "?c\<lparr>c32_seen_32 := n\<rparr>" n] n r ks by (simp add: ready32_def)
  moreover have "\<dots> = base32_group (ctx\<lparr>c32_seen_32 := n, c32_val := map of_nat ks @ replicate (Suc j) 0, c32_digits := 8\<rparr>)"
    using decode_pads [OF b, of "?c\<lparr>c32_seen_32 := n\<rparr>" j] n r ks by (simp add: ready32_def)
  ultimately show ?thesis by (simp add: decode_chars_append)
qed

section \<open>The digits of five bytes\<close>

definition digits32 :: "u8 \<Rightarrow> u8 \<Rightarrow> u8 \<Rightarrow> u8 \<Rightarrow> u8 \<Rightarrow> u32 list" where
  "digits32 a b c d e =
     (let a = ucast a :: u32; b = ucast b :: u32; c = ucast c :: u32; d = ucast d :: u32; e = ucast e :: u32 in
     [drop_bit 3 a AND 0x1f, (push_bit 2 a AND 0x1c) OR (drop_bit 6 b AND 0x03),
      drop_bit 1 b AND 0x1f, (push_bit 4 b AND 0x10) OR (drop_bit 4 c AND 0x0f),
      (push_bit 1 c AND 0x1e) OR (drop_bit 7 d AND 0x01), drop_bit 2 d AND 0x1f,
      (push_bit 3 d AND 0x18) OR (drop_bit 5 e AND 0x07), e AND 0x1f])"

lemma length_digits32 [simp]: "length (digits32 a b c d e) = 8"
  by (simp add: digits32_def Let_def)

lemma digits32_small: "list_all (\<lambda>k. k < 32) (map unat (digits32 a b c d e))"
proof -
  have lt: "unat w < 32" if "w = w AND 0x1f" for w :: u32
    using unat_masked [of w 5] that by (simp add: mask_eq_exp_minus_1)
  show ?thesis
    unfolding digits32_def Let_def list.map list.pred_inject
    by (intro conjI lt TrueI) (simp_all add: and.assoc bit.conj_disj_distrib2)
qed

lemma bytes32_list:
  "bytes32 [k0, k1, k2, k3, k4, k5, k6, k7] = [ucast (push_bit 3 k0 OR drop_bit 2 k1),
     ucast (push_bit 6 k1 OR push_bit 1 k2 OR drop_bit 4 k3), ucast (push_bit 4 k3 OR drop_bit 1 k4),
     ucast (push_bit 7 k4 OR push_bit 2 k5 OR drop_bit 3 k6), ucast (push_bit 5 k6 OR k7)]"
  by (simp add: bytes32_def)

lemma bytes32_digits32: "bytes32 (digits32 a b c d e) = [a, b, c, d, e]"
proof -
  have m: "(0x1f::u32) = mask 5" "(0x1c::u32) = push_bit 2 (mask 3)" "(0x03::u32) = mask 2" "(0x10::u32) = push_bit 4 (mask 1)"
      "(0x0f::u32) = mask 4" "(0x1e::u32) = push_bit 1 (mask 4)" "(0x01::u32) = mask 1" "(0x18::u32) = push_bit 3 (mask 2)"
      "(0x07::u32) = mask 3"
    by (simp_all add: mask_eq_exp_minus_1 push_bit_eq_mult)
  show ?thesis
    unfolding digits32_def Let_def bytes32_list m list.inject
    by (intro conjI refl; rule u8_eqI) (simp_all add: bit_simps del: push_bit_Suc drop_bit_Suc One_nat_def, simp_all)
qed

text \<open>A group of fewer than five bytes has the digits of the bytes followed by zeros.\<close>

lemma digits32_short:
  "digits32 a 0 0 0 0 = take 2 (digits32 a 0 0 0 0) @ replicate 6 0"
  "digits32 a b 0 0 0 = take 4 (digits32 a b 0 0 0) @ replicate 4 0"
  "digits32 a b c 0 0 = take 5 (digits32 a b c 0 0) @ replicate 3 0"
  "digits32 a b c d 0 = take 7 (digits32 a b c d 0) @ replicate 1 0"
  by (simp_all add: digits32_def Let_def eval_nat_numeral)

lemma group32_digits:
  "group32 base [a, b, c, d, e] = map ((!) base) (map unat (digits32 a b c d e))"
  "group32 base [a, b, c, d] = map ((!) base) (map unat (take 7 (digits32 a b c d 0))) @ replicate 1 61"
  "group32 base [a, b, c] = map ((!) base) (map unat (take 5 (digits32 a b c 0 0))) @ replicate 3 61"
  "group32 base [a, b] = map ((!) base) (map unat (take 4 (digits32 a b 0 0 0))) @ replicate 4 61"
  "group32 base [a] = map ((!) base) (map unat (take 2 (digits32 a 0 0 0 0))) @ replicate 6 61"
  by (simp_all add: digits32_def Let_def eval_nat_numeral)

lemma pad_start_digits:
  "pad_start 7 (take 7 (digits32 a b c d 0) @ ys) = Some 4" "pad_start 5 (take 5 (digits32 a b c 0 0) @ ys) = Some 3"
  "pad_start 4 (take 4 (digits32 a b 0 0 0) @ ys) = Some 3" "pad_start 2 (take 2 (digits32 a 0 0 0 0) @ ys) = Some 1"
  by (simp_all add: pad_start_def digits32_def Let_def and.assoc nth_append)

definition after32 :: "base32_decode_ctx \<Rightarrow> bytes \<Rightarrow> base32_decode_ctx \<Rightarrow> bool" where
  "after32 ctx xs ctx' \<longleftrightarrow> base32_decode_finish ctx' = ISC_R_SUCCESS \<and> appended (c32_target ctx) xs (c32_target ctx')"

lemma group32_result:
  assumes "c32_length ctx = -1" and "buf_wf (c32_target ctx)"
    and "n = (if c32_seen_32 ctx \<noteq> 0 then c32_seen_32 ctx else 5)" and "xs = take n (bytes32 (c32_val ctx))"
    and "length xs \<le> buf_room (c32_target ctx)"
  shows "\<exists>t'. base32_group ctx = Some (ISC_R_SUCCESS,
      ctx\<lparr>c32_seen_end := c32_seen_end ctx \<or> c32_seen_32 ctx \<noteq> 0, c32_target := t', c32_digits := 0\<rparr>) \<and>
    appended (c32_target ctx) xs t'"
proof -
  obtain t' where "mem_tobuffer (c32_target ctx) xs = Some (ISC_R_SUCCESS, t')" "appended (c32_target ctx) xs t'"
    using str_totext_ok [OF assms(2,5)] by (auto simp: tobuffer_eq)
  then show ?thesis using assms by (intro exI [of _ t']) (simp add: base32_group_def Let_def)
qed

lemma decode_group32_full:
  assumes b: "alphabet base" and r: "ready32 base ctx" and xs: "length xs = 5" "length xs \<le> buf_room (c32_target ctx)"
  shows "\<exists>ctx'. decode_chars base32_decode_char ctx (group32 base xs) = Some (ISC_R_SUCCESS, ctx') \<and> ready32 base ctx' \<and>
    appended (c32_target ctx) xs (c32_target ctx')"
proof -
  obtain a b' c d e where x: "xs = [a, b', c, d, e]"
    using xs(1) by (auto simp: length_Suc_conv eval_nat_numeral)
  let ?c = "ctx\<lparr>c32_val := digits32 a b' c d e, c32_digits := 8\<rparr>"
  have "decode_chars base32_decode_char ctx (group32 base xs) = base32_group ?c"
    unfolding x group32_digits using decode_full [OF b r digits32_small] by (simp add: comp_def)
  moreover obtain t' where "base32_group ?c = Some (ISC_R_SUCCESS, ?c\<lparr>c32_seen_end := False, c32_target := t', c32_digits := 0\<rparr>)"
      "appended (c32_target ctx) xs t'"
    using group32_result [of ?c 5 xs] r xs x by (auto simp: ready32_def bytes32_digits32)
  ultimately show ?thesis using r by (auto simp: ready32_def dest: appendedD)
qed

text \<open>What the decoder makes of a last group of two bytes: one byte too many.\<close>

definition padded_tail :: "bytes \<Rightarrow> bytes" where
  "padded_tail xs = (if length xs = 2 then xs @ [0] else xs)"

lemma decode_padded_result:
  assumes b: "alphabet base" and r: "ready32 base ctx"
    and v: "val = ks @ replicate j 0" "length ks + j = 8" "0 < j" "list_all (\<lambda>k. k < 32) (map unat ks)"
    and n: "\<And>ys. pad_start (length ks) (ks @ ys) = Some n" "n \<noteq> 0"
    and xs: "xs = take n (bytes32 val)" "length xs \<le> buf_room (c32_target ctx)"
  shows "\<exists>ctx'. decode_chars base32_decode_char ctx (map ((!) base) (map unat ks) @ replicate j 61) =
      Some (ISC_R_SUCCESS, ctx') \<and> after32 ctx xs ctx'"
proof -
  let ?c = "ctx\<lparr>c32_seen_32 := n, c32_val := val, c32_digits := 8\<rparr>"
  have "decode_chars base32_decode_char ctx (map ((!) base) (map unat ks) @ replicate j 61) = base32_group ?c"
    using decode_padded [OF b r v(4), of "j - 1" n] v(1-3) n by (simp add: comp_def)
  moreover obtain t' where "base32_group ?c = Some (ISC_R_SUCCESS, ?c\<lparr>c32_seen_end := True, c32_target := t', c32_digits := 0\<rparr>)"
      "appended (c32_target ctx) xs t'"
    using group32_result [of ?c n xs] r xs n(2) by (auto simp: ready32_def)
  ultimately show ?thesis using r by (simp add: after32_def base32_decode_finish_def ready32_def)
qed

lemma list_all_take: "list_all P (map f xs) \<Longrightarrow> list_all P (map f (take n xs))"
  by (auto simp: list_all_iff dest: in_set_takeD)

lemma decode_group32_last:
  assumes b: "alphabet base" and r: "ready32 base ctx" and xs: "xs \<noteq> []" "length xs < 5"
    and room: "length (padded_tail xs) \<le> buf_room (c32_target ctx)"
  shows "\<exists>ctx'. decode_chars base32_decode_char ctx (group32 base xs) = Some (ISC_R_SUCCESS, ctx') \<and>
    after32 ctx (padded_tail xs) ctx'"
proof -
  have pad: "\<exists>ctx'. decode_chars base32_decode_char ctx (map ((!) base) (map unat (take i (digits32 a b' c d 0))) @ replicate j 61) =
      Some (ISC_R_SUCCESS, ctx') \<and> after32 ctx (take n [a, b', c, d, 0]) ctx'"
    if "digits32 a b' c d 0 = take i (digits32 a b' c d 0) @ replicate j 0" "i + j = 8" "0 < j"
      "\<And>ys. pad_start i (take i (digits32 a b' c d 0) @ ys) = Some n" "n \<noteq> 0" "length (take n [a, b', c, d, 0]) \<le> buf_room (c32_target ctx)"
    for a b' c d i j n
    by (rule decode_padded_result [OF b r that(1)])
      (use that list_all_take [OF digits32_small] in \<open>simp_all add: bytes32_digits32 min_def\<close>)
  consider a where "xs = [a]" | a b' where "xs = [a, b']" | a b' c where "xs = [a, b', c]" | a b' c d where "xs = [a, b', c, d]"
    using xs by (cases "(base, xs)" rule: group32.cases) auto
  then show ?thesis
  proof cases
    case 1
    with pad [OF digits32_short(1) _ _ pad_start_digits(4)] room show ?thesis
      unfolding 1 group32_digits by (simp add: padded_tail_def)
  next
    case 2
    with pad [OF digits32_short(2) _ _ pad_start_digits(3)] room show ?thesis
      unfolding 2 group32_digits by (simp add: padded_tail_def)
  next
    case 3
    with pad [OF digits32_short(3) _ _ pad_start_digits(2)] room show ?thesis
      unfolding 3 group32_digits by (simp add: padded_tail_def)
  next
    case 4
    with pad [OF digits32_short(4) _ _ pad_start_digits(1)] room show ?thesis
      unfolding 4 group32_digits by (simp add: padded_tail_def)
  qed
qed

section \<open>The whole text\<close>

lemma base32_decode_all:
  assumes b: "alphabet base" and "length val = 8" and "buf_wf t" and "length (regroup 4 padded_tail src) \<le> buf_room t"
  shows "\<exists>ctx. decode_chars base32_decode_char (base32_decode_init base val (-1) t) (encode_all 4 (group32 base) src) =
      Some (ISC_R_SUCCESS, ctx) \<and> base32_decode_finish ctx = ISC_R_SUCCESS \<and>
    appended t (regroup 4 padded_tail src) (c32_target ctx)"
proof -
  have "\<exists>ctx. decode_chars base32_decode_char (base32_decode_init base val (-1) t) (encode_all 4 (group32 base) src) =
      Some (ISC_R_SUCCESS, ctx) \<and> base32_decode_finish ctx = ISC_R_SUCCESS \<and>
      appended (c32_target (base32_decode_init base val (-1) t)) (regroup 4 padded_tail src) (c32_target ctx)"
  proof (rule decode_all [where R = "ready32 base"])
    fix ctx xs
    assume r: "ready32 base ctx"
    show "\<exists>ctx'. decode_chars base32_decode_char ctx (group32 base xs) = Some (ISC_R_SUCCESS, ctx') \<and> ready32 base ctx' \<and>
        appended (c32_target ctx) xs (c32_target ctx')" if "length xs = Suc 4" "length xs \<le> buf_room (c32_target ctx)"
      using decode_group32_full [OF b r] that by simp
    show "\<exists>ctx'. decode_chars base32_decode_char ctx (group32 base xs) = Some (ISC_R_SUCCESS, ctx') \<and>
        base32_decode_finish ctx' = ISC_R_SUCCESS \<and> appended (c32_target ctx) (padded_tail xs) (c32_target ctx')"
      if "xs \<noteq> []" "length xs < Suc 4" "length (padded_tail xs) \<le> buf_room (c32_target ctx)"
      using decode_group32_last [OF b r that(1) _ that(3)] that(2) by (simp add: after32_def)
  next
    show "padded_tail [] = []" by (simp add: padded_tail_def)
  qed (use assms in \<open>auto simp: ready32_def base32_decode_finish_def base32_decode_init_def\<close>)
  then show ?thesis by (simp add: base32_decode_init_def)
qed

lemma regroup_padded_tail:
  "regroup 4 padded_tail src = (if length src mod 5 = 2 then src @ [0] else src)"
proof -
  have "length src - (length src - length src mod 5) = length src mod 5"
    using mod_less_eq_dividend [of "length src" 5] by simp
  then show ?thesis by (simp add: regroup_def Let_def padded_tail_def)
qed

lemma base32_decode_ok:
  assumes "alphabet base" and "length src mod 5 \<noteq> 2" and "length val = 8" and "buf_wf t" and "length src \<le> buf_room t"
  shows "\<exists>ctx. decode_chars base32_decode_char (base32_decode_init base val (-1) t) (encode_all 4 (group32 base) src) =
      Some (ISC_R_SUCCESS, ctx) \<and> base32_decode_finish ctx = ISC_R_SUCCESS \<and> appended t src (c32_target ctx)"
  using base32_decode_all [OF assms(1,3,4), of src] assms(2,5) by (simp add: regroup_padded_tail)

lemma group32_plain:
  assumes "alphabet base" and "xs \<noteq> []" and "length xs \<le> Suc 4"
  shows "plain_chars (group32 base xs)"
proof -
  have d: "plain_chars (map ((!) base) (map unat (take n (digits32 a b c d e))))" for n a b c d e
    using alphabet_digit(2,3) [OF assms(1)] list_all_take [OF digits32_small, of n a b c d e]
    by (auto simp: plain_chars_def list_all_iff)
  have d8: "plain_chars (map ((!) base) (map unat (digits32 a b c d e)))" for a b c d e
    using d [of 8 a b c d e] by simp
  have r: "plain_chars (replicate n 61)" for n
    by (auto simp: plain_chars_def list_all_iff white_def)
  have ap: "plain_chars xs \<Longrightarrow> plain_chars ys \<Longrightarrow> plain_chars (xs @ ys)" for xs ys
    by (simp add: plain_chars_def)
  consider a where "xs = [a]" | a b where "xs = [a, b]" | a b c where "xs = [a, b, c]" | a b c d where "xs = [a, b, c, d]"
    | a b c d e where "xs = [a, b, c, d, e]"
    using assms(2,3) by (cases "(base, xs)" rule: group32.cases) auto
  then show ?thesis
    by cases (simp_all only: group32_digits ap [OF d r] d8)
qed

lemma group32_length: "length (group32 base xs) < 2 ^ 32"
  by (cases "(base, xs)" rule: group32.cases) (simp_all add: Let_def)

definition base32_text :: "bytes \<Rightarrow> int \<Rightarrow> bytes \<Rightarrow> bytes \<Rightarrow> bytes" where
  "base32_text base wl wb src = text_all 4 8 (group32 base) (if wl \<ge> 0 \<and> wl < 8 then 8 else wl) wb 0 src"

lemma base32_codec:
  assumes b: "alphabet base"
  shows "text_codec (encode_all 4 (group32 base)) (base32_text base) (\<lambda>src wl wb t. base32_totext src wl wb t base) 8
    (base32_decode_init base) base32_decode_char base32_decode_finish c32_target (base32_decodestring base)
    (\<lambda>src. length src mod 5 \<noteq> 2)"
proof
  fix wb wl src t
  show "filter (\<lambda>c. \<not> white c) (base32_text base wl wb src) = encode_all 4 (group32 base) src" if "list_all white wb"
    unfolding base32_text_def by (rule text_all_encode [OF that group32_plain [OF b]])
  show "0 \<notin> set (base32_text base wl wb src)" if "0 \<notin> set wb"
    unfolding base32_text_def by (rule text_all_nonzero [OF that group32_plain [OF b]])
  show "\<exists>t'. base32_totext src wl wb t base = Some (ISC_R_SUCCESS, [], t') \<and> appended t (base32_text base wl wb src) t'"
    if "buf_wf t" "length (base32_text base wl wb src) \<le> buf_room t"
    using totext_loop_ok that by (simp add: base32_text_def base32_totext_def)
  show "\<exists>s t'. base32_totext src wl wb t base = Some (ISC_R_NOSPACE, s, t')"
    if "buf_wf t" "length wb < 2 ^ 32" "buf_room t < length (base32_text base wl wb src)"
    using totext_loop_nospace that group32_length unfolding base32_text_def base32_totext_def Let_def by blast
  show "base32_decodestring base val cs t = map_option (\<lambda>(r, ctx). (if r \<noteq> ISC_R_SUCCESS then r else base32_decode_finish ctx,
      c32_target ctx)) (decode_cstr base32_decode_char (base32_decode_init base val (-1) t) cs)" for val cs
    by (cases "decode_cstr base32_decode_char (base32_decode_init base val (-1) t) cs")
      (auto simp: base32_decodestring_def)
qed (rule base32_decode_ok [OF b])

interpretation base32: text_codec "encode_all 4 (group32 base32)" "base32_text base32" isc_base32_totext 8
  "base32_decode_init base32" base32_decode_char base32_decode_finish c32_target isc_base32_decodestring
  "\<lambda>src. length src mod 5 \<noteq> 2"
  using base32_codec [OF alphabets(1)]
  by (simp add: isc_base32_decodestring_def isc_base32_totext_def [abs_def])

interpretation base32hex: text_codec "encode_all 4 (group32 base32hex)" "base32_text base32hex" isc_base32hex_totext 8
  "base32_decode_init base32hex" base32_decode_char base32_decode_finish c32_target isc_base32hex_decodestring
  "\<lambda>src. length src mod 5 \<noteq> 2"
  using base32_codec [OF alphabets(2)]
  by (simp add: isc_base32hex_decodestring_def isc_base32hex_totext_def [abs_def])

end
