(* ===== verification/Isc_Text.thy ===== *)
theory Isc_Text
  imports Isc_Base64 Isc_Hex Isc_Base32
begin

text \<open>
  The properties of the text encodings of binary data.
\<close>

text \<open>C20: Whenever base64, hexadecimal, base32 or base32hex encoding succeeds, with any word length and a word break of
  white space, decoding the text that was written returns the data. The base32 encodings need data whose
  length is not 2 modulo 5.\<close>

theorem text_codecs_roundtrip:
  assumes wb: "list_all white wb" "length wb < 2 ^ 32" and t: "buf_wf t" and u: "buf_wf u" "length src \<le> buf_room u"
  shows "(length v = 4 \<and> isc_base64_totext src wl wb t = Some (ISC_R_SUCCESS, s, t') \<longrightarrow>
      (\<exists>txt u'. buf_used_bytes t' = buf_used_bytes t @ txt \<and> isc_base64_decodestring v txt u = Some (ISC_R_SUCCESS, u') \<and>
        buf_used_bytes u' = buf_used_bytes u @ src)) \<and>
    (length v = 2 \<and> isc_hex_totext src wl wb t = Some (ISC_R_SUCCESS, s, t') \<longrightarrow>
      (\<exists>txt u'. buf_used_bytes t' = buf_used_bytes t @ txt \<and> isc_hex_decodestring v txt u = Some (ISC_R_SUCCESS, u') \<and>
        buf_used_bytes u' = buf_used_bytes u @ src)) \<and>
    (length v = 8 \<and> length src mod 5 \<noteq> 2 \<and> isc_base32_totext src wl wb t = Some (ISC_R_SUCCESS, s, t') \<longrightarrow>
      (\<exists>txt u'. buf_used_bytes t' = buf_used_bytes t @ txt \<and> isc_base32_decodestring v txt u = Some (ISC_R_SUCCESS, u') \<and>
        buf_used_bytes u' = buf_used_bytes u @ src)) \<and>
    (length v = 8 \<and> length src mod 5 \<noteq> 2 \<and> isc_base32hex_totext src wl wb t = Some (ISC_R_SUCCESS, s, t') \<longrightarrow>
      (\<exists>txt u'. buf_used_bytes t' = buf_used_bytes t @ txt \<and> isc_base32hex_decodestring v txt u = Some (ISC_R_SUCCESS, u') \<and>
        buf_used_bytes u' = buf_used_bytes u @ src))"
proof (intro conjI impI, goal_cases)
  case 1
  then show ?case by (elim conjE) (rule base64.success_roundtrip [OF TrueI _ wb t _ u])
next
  case 2
  then show ?case by (elim conjE) (rule hex.success_roundtrip [OF TrueI _ wb t _ u])
next
  case 3
  then show ?case by (elim conjE) (rule base32.success_roundtrip [OF _ _ wb t _ u])
next
  case 4
  then show ?case by (elim conjE) (rule base32hex.success_roundtrip [OF _ _ wb t _ u])
qed

lemma group_chars:
  "xs \<noteq> [] \<Longrightarrow> length (group64 xs) = 4" "xs \<noteq> [] \<Longrightarrow> length (group16 xs) = 2" "xs \<noteq> [] \<Longrightarrow> length (group32 base xs) = 8"
proof -
  show "xs \<noteq> [] \<Longrightarrow> length (group64 xs) = 4"
    by (cases xs rule: group64.cases) (simp_all add: quad1_def quad2_def quad3_def Let_def)
  show "xs \<noteq> [] \<Longrightarrow> length (group16 xs) = 2" by (cases xs) (simp_all add: Let_def)
  show "xs \<noteq> [] \<Longrightarrow> length (group32 base xs) = 8"
    by (cases "(base, xs)" rule: group32.cases) (simp_all add: Let_def)
qed

text \<open>Without word breaks the encoders succeed exactly when the target has room for 4 characters per 3 bytes, 2 per
  byte and 8 per 5 bytes, rounded up; otherwise they return \<open>ISC_R_NOSPACE\<close>.\<close>

theorem text_codecs_room:
  assumes t: "buf_wf t"
  shows "(\<exists>r s t'. isc_base64_totext src wl [] t = Some (r, s, t') \<and>
      r = (if 4 * ((length src + 2) div 3) \<le> buf_room t then ISC_R_SUCCESS else ISC_R_NOSPACE)) \<and>
    (\<exists>r s t'. isc_hex_totext src wl [] t = Some (r, s, t') \<and>
      r = (if 2 * length src \<le> buf_room t then ISC_R_SUCCESS else ISC_R_NOSPACE)) \<and>
    (\<exists>r s t'. isc_base32_totext src wl [] t = Some (r, s, t') \<and>
      r = (if 8 * ((length src + 4) div 5) \<le> buf_room t then ISC_R_SUCCESS else ISC_R_NOSPACE)) \<and>
    (\<exists>r s t'. isc_base32hex_totext src wl [] t = Some (r, s, t') \<and>
      r = (if 8 * ((length src + 4) div 5) \<le> buf_room t then ISC_R_SUCCESS else ISC_R_NOSPACE))"
proof -
  have nil: "length ([] :: bytes) < 2 ^ 32" by simp
  have "length (base64_text wl [] src) = 4 * ((length src + 2) div Suc 2)"
    unfolding base64_text_def by (rule text_all_length) (rule group_chars)
  moreover have "length (hex_text wl [] src) = 2 * ((length src + 0) div Suc 0)"
    unfolding hex_text_def by (rule text_all_length) (rule group_chars)
  moreover have "length (base32_text base wl [] src) = 8 * ((length src + 4) div Suc 4)" for base
    unfolding base32_text_def by (rule text_all_length) (rule group_chars)
  ultimately show ?thesis
    using base64.totext_result [OF t nil, of src wl] hex.totext_result [OF t nil, of src wl]
      base32.totext_result [OF t nil, of src wl] base32hex.totext_result [OF t nil, of src wl]
    by fastforce
qed

text \<open>Data whose length is 2 modulo 5 does not survive base32 and base32hex: decoding returns it with a zero byte
  appended.\<close>

theorem base32_two_byte_tail:
  assumes "length src mod 5 = 2" and "length v = 8" and "buf_wf u" and "length src + 1 \<le> buf_room u"
  shows "\<exists>u'. isc_base32hex_decoderegion v (encode_all 4 (group32 base32hex) src) u = Some (ISC_R_SUCCESS, u') \<and>
    buf_used_bytes u' = buf_used_bytes u @ src @ [0]"
  using base32_decode_all [OF alphabets(2) assms(2,3), of src] assms(1,4)
  by (auto simp: regroup_padded_tail isc_base32hex_decoderegion_def base32_decoderegion_def appended_def)

text \<open>The base32 decoders take a NUL character for a pad character.\<close>

theorem base32_nul_is_pad:
  assumes "c32_base ctx = base32 \<or> c32_base ctx = base32hex"
  shows "base32_decode_char ctx 0 = base32_decode_char ctx 61"
proof -
  have "strchr (c32_base ctx) 0 = Some 65" "strchr (c32_base ctx) 61 = Some 32"
    using assms by (auto simp: strchr_def base32_def base32hex_def ascii_def)
  then show ?thesis by (simp add: base32_decode_char_def Let_def)
qed

section \<open>Witnesses\<close>

definition text_buffer :: isc_buffer where
  "text_buffer = isc__buffer_init (replicate 64 0) 64"

lemma text_buffer_ok: "buf_wf text_buffer" "buf_room text_buffer = 64" "buf_used_bytes text_buffer = []"
  by (simp_all add: text_buffer_def isc__buffer_init_def ISC__BUFFER_INIT_def buf_wf_def ISC_BUFFER_VALID_def
      buf_room_def buf_used_bytes_def)

lemma space_ok: "list_all white [32]" "length [32::u8] < 2 ^ 32"
  by (simp_all add: white_def)

theorem text_codecs_roundtrip_witness:
  "\<exists>s t' txt u'. isc_base64_totext [1, 2, 3, 4] 4 [32] text_buffer = Some (ISC_R_SUCCESS, s, t') \<and>
    buf_used_bytes t' = txt \<and> isc_base64_decodestring [0, 0, 0, 0] txt text_buffer = Some (ISC_R_SUCCESS, u') \<and>
    buf_used_bytes u' = [1, 2, 3, 4]"
proof -
  have "length (base64_text 4 [32] [1, 2, 3, 4]) \<le> buf_room text_buffer"
    by (simp add: base64_text_def text_buffer_ok quad3_def quad1_def Let_def)
  then obtain t' where "isc_base64_totext [1, 2, 3, 4] 4 [32] text_buffer = Some (ISC_R_SUCCESS, [], t')"
    using base64.totext_ok [OF text_buffer_ok(1)] by blast
  moreover have "length [1, 2, 3, 4 :: u8] \<le> buf_room text_buffer" "length [0, 0, 0, 0 :: u32] = 4"
    by (simp_all add: text_buffer_ok)
  ultimately show ?thesis
    using text_codecs_roundtrip [OF space_ok text_buffer_ok(1,1), of "[1, 2, 3, 4]" "[0, 0, 0, 0]" 4 "[]" t']
    unfolding text_buffer_ok(3) append_Nil by blast
qed

theorem text_codecs_room_witness:
  "\<exists>s t'. isc_base64_totext (replicate 49 0) 0 [] text_buffer = Some (ISC_R_NOSPACE, s, t')"
  using text_codecs_room [OF text_buffer_ok(1), of "replicate 49 0" 0] by (simp add: text_buffer_ok)

theorem base32_two_byte_tail_witness:
  "\<exists>u'. isc_base32hex_decoderegion (replicate 8 0) (encode_all 4 (group32 base32hex) [255, 1]) text_buffer =
    Some (ISC_R_SUCCESS, u') \<and> buf_used_bytes u' = [255, 1, 0]"
  using base32_two_byte_tail [of "[255, 1]" "replicate 8 0" text_buffer] by (simp add: text_buffer_ok)

theorem base32_nul_is_pad_witness:
  "base32_decode_char (base32_decode_init base32 (replicate 8 0) (-1) text_buffer) 0 =
    base32_decode_char (base32_decode_init base32 (replicate 8 0) (-1) text_buffer) 61"
  by (rule base32_nul_is_pad) (simp add: base32_decode_init_def)

end
