(* ===== verification/Dns_Name.thy ===== *)
theory Dns_Name
  imports Isc_Buffer
begin

text \<open>
  Domain names, from \<open>lib/dns/name.c\<close> and \<open>dns/name.h\<close>: the structure, its offset tables, the
  predicates on names and the operations that take names apart and put them together.

  A name refers to bytes it does not own. \<open>n_ndata\<close> is the object behind the pointer, from the
  pointer on, so a read past its end is \<open>None\<close>. \<open>n_offsets\<close> is the table of label offsets, if the
  name has one: the entries written so far, so that reading another entry is \<open>None\<close> too.
  \<open>n_length\<close> and \<open>n_labels\<close> are natural numbers: the code keeps them at most 255 and 128, and no
  sum or difference of them wraps. The list links of the structure, which belong to the message
  code, are left out.
\<close>

section \<open>Reading bytes\<close>

text \<open>A checked read of one element.\<close>

definition rd :: "'a list \<Rightarrow> nat \<Rightarrow> 'a option" where
  "rd m i = (if i < length m then Some (m ! i) else None)"

lemma rd_drop:
  assumes "drop p m = x # xs"
  shows "rd m p = Some x" and "drop (Suc p) m = xs"
proof -
  have "p < length m" using assms by (cases "p < length m") auto
  then show "rd m p = Some x" "drop (Suc p) m = xs"
    using assms by (auto simp: rd_def Cons_nth_drop_Suc [symmetric])
qed

lemma rd_eq_Some: "rd m i = Some x \<longleftrightarrow> i < length m \<and> x = m ! i"
  by (auto simp: rd_def)

section \<open>The structure\<close>

record dns_name =
  n_magic :: u32
  n_ndata :: bytes
  n_length :: nat
  n_labels :: nat
  n_attributes :: u32
  n_offsets :: "u8 list option"
  n_buffer :: "isc_buffer option"

definition DNS_NAME_MAGIC :: u32 where
  "DNS_NAME_MAGIC = 0x444e536e"

definition VALID_NAME :: "dns_name \<Rightarrow> bool" where
  "VALID_NAME name = (n_magic name = DNS_NAME_MAGIC)"

definition DNS_NAMEATTR_ABSOLUTE :: u32 where "DNS_NAMEATTR_ABSOLUTE = 0x1"
definition DNS_NAMEATTR_READONLY :: u32 where "DNS_NAMEATTR_READONLY = 0x2"
definition DNS_NAMEATTR_DYNAMIC :: u32 where "DNS_NAMEATTR_DYNAMIC = 0x4"
definition DNS_NAMEATTR_DYNOFFSETS :: u32 where "DNS_NAMEATTR_DYNOFFSETS = 0x8"
definition DNS_NAMEATTR_NOCOMPRESS :: u32 where "DNS_NAMEATTR_NOCOMPRESS = 0x10"

lemmas attr_defs = DNS_NAMEATTR_ABSOLUTE_def DNS_NAMEATTR_READONLY_def DNS_NAMEATTR_DYNAMIC_def
  DNS_NAMEATTR_DYNOFFSETS_def DNS_NAMEATTR_NOCOMPRESS_def

definition DNS_NAME_MAXWIRE :: nat where
  "DNS_NAME_MAXWIRE = 255"

definition BINDABLE :: "dns_name \<Rightarrow> bool" where
  "BINDABLE name = (n_attributes name AND (DNS_NAMEATTR_READONLY OR DNS_NAMEATTR_DYNAMIC) = 0)"

definition MAKE_EMPTY :: "dns_name \<Rightarrow> dns_name" where
  "MAKE_EMPTY name =
     name\<lparr>n_ndata := [], n_length := 0, n_labels := 0,
          n_attributes := n_attributes name AND NOT DNS_NAMEATTR_ABSOLUTE\<rparr>"

definition DNS_NAME_INIT :: "u8 list option \<Rightarrow> dns_name" where
  "DNS_NAME_INIT offsets =
     \<lparr>n_magic = DNS_NAME_MAGIC, n_ndata = [], n_length = 0, n_labels = 0, n_attributes = 0,
      n_offsets = offsets, n_buffer = None\<rparr>"

definition DNS_NAME_RESET :: "dns_name \<Rightarrow> dns_name option" where
  "DNS_NAME_RESET name = do {
     let name = MAKE_EMPTY name in
     case n_buffer name of
       None \<Rightarrow> Some name
     | Some b \<Rightarrow> do { b \<leftarrow> isc__buffer_clear b; Some (name\<lparr>n_buffer := Some b\<rparr>) } }"

definition maptolower :: "u8 \<Rightarrow> u8" where
  "maptolower c = (if 0x41 \<le> c \<and> c \<le> 0x5a then c + 0x20 else c)"

definition dns_rootname :: dns_name where
  "dns_rootname =
     \<lparr>n_magic = DNS_NAME_MAGIC, n_ndata = [0], n_length = 1, n_labels = 1,
      n_attributes = DNS_NAMEATTR_READONLY OR DNS_NAMEATTR_ABSOLUTE,
      n_offsets = Some [0], n_buffer = None\<rparr>"

definition dns_wildcardname :: dns_name where
  "dns_wildcardname =
     \<lparr>n_magic = DNS_NAME_MAGIC, n_ndata = [1, 0x2a], n_length = 2, n_labels = 1,
      n_attributes = DNS_NAMEATTR_READONLY, n_offsets = Some [0], n_buffer = None\<rparr>"

section \<open>Offset tables\<close>

text \<open>The loop of \<open>set_offsets\<close>: \<open>offs\<close> are the entries written, so \<open>nlabels\<close> is its length. The
  result has the final offset and whether the root label was met.\<close>

function set_offsets_loop ::
    "bytes \<Rightarrow> nat \<Rightarrow> nat \<Rightarrow> u8 list \<Rightarrow> (u8 list \<times> nat \<times> bool) option" where
  "set_offsets_loop ndata len offset offs =
     (if offset = len then Some (offs, offset, False)
      else do {
        REQUIRE (length offs < 128);
        count \<leftarrow> rd ndata offset;
        REQUIRE (count \<le> 63);
        REQUIRE (offset + 1 + unat count \<le> len);
        if count = 0 then Some (offs @ [of_nat offset], offset + 1 + unat count, True)
        else set_offsets_loop ndata len (offset + 1 + unat count) (offs @ [of_nat offset]) })"
  by pat_completeness auto
termination
  by (relation "measure (\<lambda>(ndata, len, offset, offs). len - offset)") auto

declare set_offsets_loop.simps [simp del]

definition set_offsets :: "dns_name \<Rightarrow> bool \<Rightarrow> (u8 list \<times> dns_name) option" where
  "set_offsets name set_name = do {
     (offs, offset, absolute) \<leftarrow> set_offsets_loop (n_ndata name) (n_length name) 0 [];
     let name = (if set_name
       then name\<lparr>n_labels := length offs, n_length := offset,
              n_attributes := (if absolute then n_attributes name OR DNS_NAMEATTR_ABSOLUTE
                               else n_attributes name AND NOT DNS_NAMEATTR_ABSOLUTE)\<rparr>
       else name) in do {
       REQUIRE (length offs = n_labels name);
       REQUIRE (offset = n_length name);
       Some (offs, name) } }"

definition SETUP_OFFSETS :: "dns_name \<Rightarrow> u8 list option" where
  "SETUP_OFFSETS name =
     (case n_offsets name of
        Some offs \<Rightarrow> Some offs
      | None \<Rightarrow> map_option fst (set_offsets name False))"

text \<open>\<open>set_offsets(name, name->offsets, NULL)\<close> where the name has a table.\<close>

definition refresh_offsets :: "dns_name \<Rightarrow> dns_name option" where
  "refresh_offsets name =
     (if n_offsets name = None then Some name
      else do { (offs, name) \<leftarrow> set_offsets name False; Some (name\<lparr>n_offsets := Some offs\<rparr>) })"

section \<open>Initialisation and predicates\<close>

definition dns_name_init :: "u8 list option \<Rightarrow> dns_name" where
  "dns_name_init offsets = DNS_NAME_INIT offsets"

definition dns_name_reset :: "dns_name \<Rightarrow> dns_name option" where
  "dns_name_reset name = do {
     REQUIRE (VALID_NAME name);
     REQUIRE (BINDABLE name);
     DNS_NAME_RESET name }"

definition dns_name_invalidate :: "dns_name \<Rightarrow> dns_name option" where
  "dns_name_invalidate name = do {
     REQUIRE (VALID_NAME name);
     Some \<lparr>n_magic = 0, n_ndata = [], n_length = 0, n_labels = 0, n_attributes = 0,
           n_offsets = None, n_buffer = None\<rparr> }"

definition dns_name_setbuffer :: "dns_name \<Rightarrow> isc_buffer option \<Rightarrow> dns_name option" where
  "dns_name_setbuffer name buffer = do {
     REQUIRE (VALID_NAME name);
     REQUIRE (buffer \<noteq> None \<and> n_buffer name = None \<or> buffer = None);
     Some (name\<lparr>n_buffer := buffer\<rparr>) }"

definition dns_name_hasbuffer :: "dns_name \<Rightarrow> bool option" where
  "dns_name_hasbuffer name = do {
     REQUIRE (VALID_NAME name);
     Some (n_buffer name \<noteq> None) }"

definition absolute_attr :: "dns_name \<Rightarrow> bool" where
  "absolute_attr name = (n_attributes name AND DNS_NAMEATTR_ABSOLUTE \<noteq> 0)"

definition dns_name_isabsolute :: "dns_name \<Rightarrow> bool option" where
  "dns_name_isabsolute name = do {
     REQUIRE (VALID_NAME name);
     Some (absolute_attr name) }"

definition hyphenchar :: "u8 \<Rightarrow> bool" where
  "hyphenchar c = (c = 0x2d)"
definition alphachar :: "u8 \<Rightarrow> bool" where
  "alphachar c = (c \<ge> 0x41 \<and> c \<le> 0x5a \<or> c \<ge> 0x61 \<and> c \<le> 0x7a)"
definition digitchar :: "u8 \<Rightarrow> bool" where
  "digitchar c = (c \<ge> 0x30 \<and> c \<le> 0x39)"
definition borderchar :: "u8 \<Rightarrow> bool" where
  "borderchar c = (alphachar c \<or> digitchar c)"
definition middlechar :: "u8 \<Rightarrow> bool" where
  "middlechar c = (borderchar c \<or> hyphenchar c)"
definition domainchar :: "u8 \<Rightarrow> bool" where
  "domainchar c = (c > 0x20 \<and> c < 0x7f)"

text \<open>The loop over the characters of one label (\<open>while (n--)\<close>) and the loop over the labels up
  to the end of the name, shared by \<open>dns_name_ismailbox\<close> and \<open>dns_name_ishostname\<close>. The first
  returns \<open>None\<close> as its inner value when a character is refused.\<close>

fun host_chars :: "bytes \<Rightarrow> nat \<Rightarrow> nat \<Rightarrow> bool \<Rightarrow> nat option option" where
  "host_chars ndata p 0 first = Some (Some p)"
| "host_chars ndata p (Suc n) first = do {
     ch \<leftarrow> rd ndata p;
     if (if first \<or> n = 0 then borderchar ch else middlechar ch)
     then host_chars ndata (p + 1) n False
     else Some None }"

lemma host_chars_pos: "host_chars ndata p n first = Some (Some q) \<Longrightarrow> q = p + n"
  by (induction ndata p n first rule: host_chars.induct)
    (auto simp: bind_eq_Some_conv split: if_splits)

function host_labels :: "bytes \<Rightarrow> nat \<Rightarrow> nat \<Rightarrow> bool option" where
  "host_labels ndata len p =
     (if p < len then do {
        n \<leftarrow> rd ndata p;
        REQUIRE (n \<le> 63);
        r \<leftarrow> host_chars ndata (p + 1) (unat n) True;
        case r of
          None \<Rightarrow> Some False
        | Some q \<Rightarrow> host_labels ndata len q }
      else Some True)"
  by pat_completeness auto
termination
  by (relation "measure (\<lambda>(ndata, len, p). len - p)") (auto dest: host_chars_pos)

declare host_labels.simps [simp del]

fun domain_chars :: "bytes \<Rightarrow> nat \<Rightarrow> nat \<Rightarrow> nat option option" where
  "domain_chars ndata p 0 = Some (Some p)"
| "domain_chars ndata p (Suc n) = do {
     ch \<leftarrow> rd ndata p;
     if domainchar ch then domain_chars ndata (p + 1) n else Some None }"

definition dns_name_ismailbox :: "dns_name \<Rightarrow> bool option" where
  "dns_name_ismailbox name = do {
     REQUIRE (VALID_NAME name);
     REQUIRE (n_labels name > 0);
     REQUIRE (absolute_attr name);
     if n_length name = 1 then Some True
     else do {
       n \<leftarrow> rd (n_ndata name) 0;
       REQUIRE (n \<le> 63);
       r \<leftarrow> domain_chars (n_ndata name) 1 (unat n);
       case r of
         None \<Rightarrow> Some False
       | Some p \<Rightarrow>
           if p = n_length name then Some False
           else host_labels (n_ndata name) (n_length name) p } }"

definition dns_name_ishostname :: "dns_name \<Rightarrow> bool \<Rightarrow> bool option" where
  "dns_name_ishostname name wildcard = do {
     REQUIRE (VALID_NAME name);
     REQUIRE (n_labels name > 0);
     REQUIRE (absolute_attr name);
     if n_length name = 1 then Some True
     else do {
       skip \<leftarrow> (if wildcard then do {
          c0 \<leftarrow> rd (n_ndata name) 0;
          if c0 = 1 then do { c1 \<leftarrow> rd (n_ndata name) 1; Some (c1 = 0x2a) } else Some False }
        else Some False);
       host_labels (n_ndata name) (n_length name) (if skip then 2 else 0) } }"

definition dns_name_iswildcard :: "dns_name \<Rightarrow> bool option" where
  "dns_name_iswildcard name = do {
     REQUIRE (VALID_NAME name);
     REQUIRE (n_labels name > 0);
     if n_length name \<ge> 2 then do {
       c0 \<leftarrow> rd (n_ndata name) 0;
       if c0 = 1 then do { c1 \<leftarrow> rd (n_ndata name) 1; Some (c1 = 0x2a) } else Some False }
     else Some False }"

text \<open>The loop of \<open>dns_name_internalwildcard\<close>; \<open>n\<close> is \<open>name->labels - 1 - label\<close>.\<close>

fun internalwildcard_loop :: "bytes \<Rightarrow> nat \<Rightarrow> nat \<Rightarrow> bool option" where
  "internalwildcard_loop ndata p 0 = Some False"
| "internalwildcard_loop ndata p (Suc n) = do {
     count \<leftarrow> rd ndata p;
     REQUIRE (count \<le> 63);
     star \<leftarrow> (if count = 1 then do { c \<leftarrow> rd ndata (p + 1); Some (c = 0x2a) } else Some False);
     if star then Some True
     else internalwildcard_loop ndata (p + 1 + unat count) n }"

definition dns_name_internalwildcard :: "dns_name \<Rightarrow> bool option" where
  "dns_name_internalwildcard name = do {
     REQUIRE (VALID_NAME name);
     REQUIRE (n_labels name > 0);
     count \<leftarrow> rd (n_ndata name) 0;
     REQUIRE (count \<le> 63);
     internalwildcard_loop (n_ndata name) (1 + unat count) (n_labels name - 2) }"

definition dns_name_countlabels :: "dns_name \<Rightarrow> nat option" where
  "dns_name_countlabels name = do {
     REQUIRE (VALID_NAME name);
     REQUIRE (n_labels name \<le> 128);
     Some (n_labels name) }"

section \<open>Parts of names\<close>

definition dns_name_getlabel :: "dns_name \<Rightarrow> nat \<Rightarrow> bytes option" where
  "dns_name_getlabel name n = do {
     REQUIRE (VALID_NAME name);
     REQUIRE (n_labels name > 0);
     REQUIRE (n < n_labels name);
     offsets \<leftarrow> SETUP_OFFSETS name;
     o1 \<leftarrow> rd offsets n;
     o2 \<leftarrow> (if n = n_labels name - 1 then Some (n_length name)
           else do { o2 \<leftarrow> rd offsets (n + 1); Some (unat o2) });
     mem_read (n_ndata name) (unat o1) (o2 - unat o1) }"

text \<open>\<open>same\<close> is whether \<open>target\<close> and \<open>source\<close> are one object; then the prefix keeps the table of
  the source.\<close>

definition dns_name_getlabelsequence ::
    "dns_name \<Rightarrow> nat \<Rightarrow> nat \<Rightarrow> dns_name \<Rightarrow> bool \<Rightarrow> dns_name option" where
  "dns_name_getlabelsequence source first n target same = do {
     REQUIRE (VALID_NAME source);
     REQUIRE (VALID_NAME target);
     REQUIRE (first \<le> n_labels source);
     REQUIRE (n \<le> n_labels source - first);
     REQUIRE (BINDABLE target);
     offsets \<leftarrow> SETUP_OFFSETS source;
     firstoffset \<leftarrow> (if first = n_labels source then Some (n_length source)
                    else map_option unat (rd offsets first));
     endoffset \<leftarrow> (if first + n = n_labels source then Some (n_length source)
                  else map_option unat (rd offsets (first + n)));
     let target = target\<lparr>n_ndata := drop firstoffset (n_ndata source),
           n_length := endoffset - firstoffset,
           n_attributes :=
             (if first + n = n_labels source \<and> n > 0 \<and> absolute_attr source
              then n_attributes target OR DNS_NAMEATTR_ABSOLUTE
              else n_attributes target AND NOT DNS_NAMEATTR_ABSOLUTE),
           n_labels := n\<rparr> in
     if \<not> same \<or> first \<noteq> 0 then refresh_offsets target else Some target }"

definition dns_name_split ::
    "dns_name \<Rightarrow> nat \<Rightarrow> dns_name option \<Rightarrow> dns_name option \<Rightarrow>
     (dns_name option \<times> dns_name option) option" where
  "dns_name_split name suffixlabels prefix suffix = do {
     REQUIRE (VALID_NAME name);
     REQUIRE (suffixlabels > 0);
     REQUIRE (suffixlabels < n_labels name);
     REQUIRE (prefix \<noteq> None \<or> suffix \<noteq> None);
     REQUIRE (case prefix of None \<Rightarrow> True
              | Some p \<Rightarrow> VALID_NAME p \<and> n_buffer p \<noteq> None \<and> BINDABLE p);
     REQUIRE (case suffix of None \<Rightarrow> True
              | Some s \<Rightarrow> VALID_NAME s \<and> n_buffer s \<noteq> None \<and> BINDABLE s);
     let splitlabel = n_labels name - suffixlabels in do {
       prefix \<leftarrow> (case prefix of None \<Rightarrow> Some None
         | Some p \<Rightarrow> map_option Some (dns_name_getlabelsequence name 0 splitlabel p False));
       suffix \<leftarrow> (case suffix of None \<Rightarrow> Some None
         | Some s \<Rightarrow>
             map_option Some (dns_name_getlabelsequence name splitlabel suffixlabels s False));
       Some (prefix, suffix) } }"

definition dns_name_clone :: "dns_name \<Rightarrow> dns_name \<Rightarrow> dns_name option" where
  "dns_name_clone source target = do {
     REQUIRE (VALID_NAME source);
     REQUIRE (VALID_NAME target);
     REQUIRE (BINDABLE target);
     let target = target\<lparr>n_ndata := n_ndata source, n_length := n_length source,
           n_labels := n_labels source,
           n_attributes := n_attributes source AND
             NOT (DNS_NAMEATTR_READONLY OR DNS_NAMEATTR_DYNAMIC OR DNS_NAMEATTR_DYNOFFSETS)\<rparr> in
     if n_offsets target \<noteq> None \<and> n_labels source > 0 then
       (case n_offsets source of
          Some offs \<Rightarrow> do {
            t \<leftarrow> mem_read offs 0 (n_labels source);
            Some (target\<lparr>n_offsets := Some t\<rparr>) }
        | None \<Rightarrow> refresh_offsets target)
     else Some target }"

text \<open>The region is given by its bytes.\<close>

definition dns_name_fromregion :: "dns_name \<Rightarrow> bytes \<Rightarrow> dns_name option" where
  "dns_name_fromregion name r = do {
     REQUIRE (VALID_NAME name);
     REQUIRE (BINDABLE name);
     name \<leftarrow> (case n_buffer name of
         Some b \<Rightarrow> do {
           b \<leftarrow> isc__buffer_clear b;
           r2 \<leftarrow> isc__buffer_availableregion b;
           base \<leftarrow> r_base r2;
           let len = min (min (length r) (unat (r_length r2))) DNS_NAME_MAXWIRE in do {
             m \<leftarrow> mem_write (b_base b) base (take len r);
             Some (name\<lparr>n_ndata := drop base m, n_length := len,
                        n_buffer := Some (b\<lparr>b_base := m\<rparr>)\<rparr>) } }
       | None \<Rightarrow>
           Some (name\<lparr>n_ndata := r, n_length := min (length r) DNS_NAME_MAXWIRE\<rparr>));
     name \<leftarrow> (if length r > 0 then do {
           (offs, name) \<leftarrow> set_offsets name True;
           Some (name\<lparr>n_offsets := map_option (\<lambda>_. offs) (n_offsets name)\<rparr>) }
         else Some (name\<lparr>n_labels := 0,
                n_attributes := n_attributes name AND NOT DNS_NAMEATTR_ABSOLUTE\<rparr>));
     case n_buffer name of
       None \<Rightarrow> Some name
     | Some b \<Rightarrow> do {
         b \<leftarrow> isc__buffer_add b (of_nat (n_length name));
         Some (name\<lparr>n_buffer := Some b\<rparr>) } }"

definition dns_name_toregion :: "dns_name \<Rightarrow> bytes option" where
  "dns_name_toregion name = do {
     REQUIRE (VALID_NAME name);
     mem_read (n_ndata name) 0 (n_length name) }"

text \<open>
  The functions that copy a name write it to a target buffer, or to the buffer of the name when
  no target is given; that buffer is cleared first. The name they fill is another object than the
  names they read. They return the result, the name and the target.
\<close>

definition open_target :: "dns_name \<Rightarrow> isc_buffer option \<Rightarrow> isc_buffer option" where
  "open_target name target =
     (case target of
        Some b \<Rightarrow> do { REQUIRE (ISC_BUFFER_VALID b); Some b }
      | None \<Rightarrow> do { b \<leftarrow> n_buffer name; REQUIRE (ISC_BUFFER_VALID b); isc__buffer_clear b })"

definition close_target ::
    "isc_result \<Rightarrow> dns_name \<Rightarrow> isc_buffer option \<Rightarrow> isc_buffer \<Rightarrow>
     isc_result \<times> dns_name \<times> isc_buffer option" where
  "close_target result name target b =
     (if target = None then (result, name\<lparr>n_buffer := Some b\<rparr>, None) else (result, name, Some b))"

fun downcase_loop :: "bytes \<Rightarrow> nat \<Rightarrow> nat \<Rightarrow> nat \<Rightarrow> bytes option" where
  "downcase_loop sndata p 0 nlen = Some []"
| "downcase_loop sndata p (Suc labels) nlen =
     (if nlen = 0 then Some []
      else do {
        count \<leftarrow> rd sndata p;
        REQUIRE (count < 64);
        REQUIRE (nlen - 1 \<ge> unat count);
        cs \<leftarrow> mem_read sndata (p + 1) (unat count);
        rest \<leftarrow> downcase_loop sndata (p + 1 + unat count) labels (nlen - 1 - unat count);
        Some (count # map maptolower cs @ rest) })"

definition dns_name_downcase ::
    "dns_name \<Rightarrow> dns_name \<Rightarrow> isc_buffer option \<Rightarrow>
     (isc_result \<times> dns_name \<times> isc_buffer option) option" where
  "dns_name_downcase source name target = do {
     REQUIRE (VALID_NAME source);
     REQUIRE (VALID_NAME name);
     REQUIRE (BINDABLE name);
     b \<leftarrow> open_target name target;
     if n_length source > unat (b_length b - b_used b)
     then Some (close_target ISC_R_NOSPACE (MAKE_EMPTY name) target b)
     else do {
       xs \<leftarrow> downcase_loop (n_ndata source) 0 (n_labels source) (n_length source);
       m \<leftarrow> mem_write (b_base b) (unat (b_used b)) xs;
       name \<leftarrow> (let name = name\<lparr>n_ndata := drop (unat (b_used b)) m, n_labels := n_labels source,
             n_length := n_length source,
             n_attributes := (if absolute_attr source then DNS_NAMEATTR_ABSOLUTE else 0)\<rparr> in
           if n_labels name > 0 then refresh_offsets name else Some name);
       b \<leftarrow> isc__buffer_add (b\<lparr>b_base := m\<rparr>) (of_nat (n_length name));
       Some (close_target ISC_R_SUCCESS name target b) } }"

text \<open>\<open>source\<close> and \<open>name\<close> are one object: the bytes of the name are changed in place.\<close>

definition dns_name_downcase_self :: "dns_name \<Rightarrow> (isc_result \<times> dns_name) option" where
  "dns_name_downcase_self name = do {
     REQUIRE (VALID_NAME name);
     REQUIRE (n_attributes name AND DNS_NAMEATTR_READONLY = 0);
     xs \<leftarrow> downcase_loop (n_ndata name) 0 (n_labels name) (n_length name);
     m \<leftarrow> mem_write (n_ndata name) 0 xs;
     Some (ISC_R_SUCCESS, name\<lparr>n_ndata := m\<rparr>) }"

definition dns_name_concatenate ::
    "dns_name option \<Rightarrow> dns_name option \<Rightarrow> dns_name option \<Rightarrow> isc_buffer option \<Rightarrow>
     (isc_result \<times> dns_name \<times> isc_buffer option) option" where
  "dns_name_concatenate prefix suffix name target = do {
     REQUIRE (case prefix of None \<Rightarrow> True | Some p \<Rightarrow> VALID_NAME p);
     REQUIRE (case suffix of None \<Rightarrow> True | Some s \<Rightarrow> VALID_NAME s);
     REQUIRE (case name of None \<Rightarrow> True | Some n \<Rightarrow> VALID_NAME n);
     REQUIRE (case target of
                Some b \<Rightarrow> ISC_BUFFER_VALID b
              | None \<Rightarrow> (case name of
                  Some n \<Rightarrow> (case n_buffer n of Some b \<Rightarrow> ISC_BUFFER_VALID b | None \<Rightarrow> False)
                | None \<Rightarrow> False));
     let prefix = Option.bind prefix (\<lambda>p. if n_labels p = 0 then None else Some p);
         suffix = Option.bind suffix (\<lambda>s. if n_labels s = 0 then None else Some s);
         absolute = (case prefix of None \<Rightarrow> False | Some p \<Rightarrow> absolute_attr p) in do {
     REQUIRE (\<not> absolute \<or> suffix = None);
     let name = (case name of None \<Rightarrow> DNS_NAME_INIT (Some []) | Some n \<Rightarrow> n) in do {
     b \<leftarrow> open_target name target;
     REQUIRE (BINDABLE name);
     let nrem = min (unat (b_length b - b_used b)) DNS_NAME_MAXWIRE;
         prefix_length = (case prefix of None \<Rightarrow> 0 | Some p \<Rightarrow> n_length p);
         len = prefix_length + (case suffix of None \<Rightarrow> 0 | Some s \<Rightarrow> n_length s);
         labels = (case prefix of None \<Rightarrow> 0 | Some p \<Rightarrow> n_labels p) +
                  (case suffix of None \<Rightarrow> 0 | Some s \<Rightarrow> n_labels s) in
     if len > DNS_NAME_MAXWIRE then Some (close_target DNS_R_NAMETOOLONG (MAKE_EMPTY name) target b)
     else if len > nrem then Some (close_target ISC_R_NOSPACE (MAKE_EMPTY name) target b)
     else do {
       m \<leftarrow> (case suffix of None \<Rightarrow> Some (b_base b)
             | Some s \<Rightarrow> do {
                 xs \<leftarrow> mem_read (n_ndata s) 0 (n_length s);
                 mem_write (b_base b) (unat (b_used b) + prefix_length) xs });
       m \<leftarrow> (case prefix of None \<Rightarrow> Some m
             | Some p \<Rightarrow> do {
                 xs \<leftarrow> mem_read (n_ndata p) 0 prefix_length;
                 mem_write m (unat (b_used b)) xs });
       let absolute = (absolute \<or> (case suffix of None \<Rightarrow> False | Some s \<Rightarrow> absolute_attr s));
           name = name\<lparr>n_ndata := drop (unat (b_used b)) m, n_labels := labels, n_length := len,
             n_attributes := (if absolute then DNS_NAMEATTR_ABSOLUTE else 0)\<rparr> in do {
       name \<leftarrow> (if n_labels name > 0 then refresh_offsets name else Some name);
       b \<leftarrow> isc__buffer_add (b\<lparr>b_base := m\<rparr>) (of_nat (n_length name));
       Some (close_target ISC_R_SUCCESS name target b) } } } } }"

text \<open>\<open>mem\<close> is whether \<open>isc_mem_get\<close> finds memory for the copy.\<close>

definition dns_name_dup :: "dns_name \<Rightarrow> bool \<Rightarrow> dns_name \<Rightarrow> (isc_result \<times> dns_name) option" where
  "dns_name_dup source mem target = do {
     REQUIRE (VALID_NAME source);
     REQUIRE (n_length source > 0);
     REQUIRE (VALID_NAME target);
     REQUIRE (BINDABLE target);
     let target = MAKE_EMPTY target in
     if \<not> mem then Some (ISC_R_NOMEMORY, target)
     else do {
       xs \<leftarrow> mem_read (n_ndata source) 0 (n_length source);
       let target = target\<lparr>n_ndata := xs, n_length := n_length source,
             n_labels := n_labels source,
             n_attributes := (if absolute_attr source
                then DNS_NAMEATTR_DYNAMIC OR DNS_NAMEATTR_ABSOLUTE else DNS_NAMEATTR_DYNAMIC)\<rparr> in
       if n_offsets target = None then Some (ISC_R_SUCCESS, target)
       else (case n_offsets source of
          Some offs \<Rightarrow> do {
            t \<leftarrow> mem_read offs 0 (n_labels source);
            Some (ISC_R_SUCCESS, target\<lparr>n_offsets := Some t\<rparr>) }
        | None \<Rightarrow> do { target \<leftarrow> refresh_offsets target; Some (ISC_R_SUCCESS, target) }) } }"

definition dns_name_dupwithoffsets ::
    "dns_name \<Rightarrow> bool \<Rightarrow> dns_name \<Rightarrow> (isc_result \<times> dns_name) option" where
  "dns_name_dupwithoffsets source mem target = do {
     REQUIRE (VALID_NAME source);
     REQUIRE (n_length source > 0);
     REQUIRE (VALID_NAME target);
     REQUIRE (BINDABLE target);
     REQUIRE (n_offsets target = None);
     let target = MAKE_EMPTY target in
     if \<not> mem then Some (ISC_R_NOMEMORY, target)
     else do {
       xs \<leftarrow> mem_read (n_ndata source) 0 (n_length source);
       let target = target\<lparr>n_ndata := xs, n_length := n_length source,
             n_labels := n_labels source,
             n_attributes := (let a = DNS_NAMEATTR_DYNAMIC OR DNS_NAMEATTR_DYNOFFSETS OR
                 DNS_NAMEATTR_READONLY in
               if absolute_attr source then a OR DNS_NAMEATTR_ABSOLUTE else a)\<rparr> in do {
       t \<leftarrow> (case n_offsets source of
          Some offs \<Rightarrow> mem_read offs 0 (n_labels source)
        | None \<Rightarrow> map_option fst (set_offsets target False));
       Some (ISC_R_SUCCESS, target\<lparr>n_offsets := Some t\<rparr>) } } }"

definition dns_name_dynamic :: "dns_name \<Rightarrow> bool option" where
  "dns_name_dynamic name = do {
     REQUIRE (VALID_NAME name);
     Some (n_attributes name AND DNS_NAMEATTR_DYNAMIC \<noteq> 0) }"

text \<open>The memory goes back to the allocator; what is left is an invalid name.\<close>

definition dns_name_free :: "dns_name \<Rightarrow> dns_name option" where
  "dns_name_free name = do {
     REQUIRE (VALID_NAME name);
     REQUIRE (n_attributes name AND DNS_NAMEATTR_DYNAMIC \<noteq> 0);
     dns_name_invalidate name }"

section \<open>Names as lists of labels\<close>

text \<open>
  What a name denotes: a list of labels. \<open>name_repr name ls\<close> says that the structure holds the
  wire form of \<open>ls\<close>, with the counts, the attribute of absolute names and the offset table that
  go with it. Labels have at most 63 bytes, only the last one can be the root label, and the wire
  form has at most 255 bytes.
\<close>

definition wire_label :: "bytes \<Rightarrow> bytes" where
  "wire_label l = of_nat (length l) # l"

definition wire :: "bytes list \<Rightarrow> bytes" where
  "wire ls = concat (map wire_label ls)"

definition ends_root :: "bytes list \<Rightarrow> bool" where
  "ends_root ls = (ls \<noteq> [] \<and> last ls = [])"

definition labels_ok :: "bytes list \<Rightarrow> bool" where
  "labels_ok ls \<longleftrightarrow> (\<forall>l \<in> set ls. length l \<le> 63) \<and> (\<forall>l \<in> set (butlast ls). l \<noteq> []) \<and>
     length (wire ls) \<le> DNS_NAME_MAXWIRE"

definition offsets_of :: "bytes list \<Rightarrow> u8 list" where
  "offsets_of ls = map (\<lambda>i. of_nat (length (wire (take i ls)))) [0..<length ls]"

definition name_repr :: "dns_name \<Rightarrow> bytes list \<Rightarrow> bool" where
  "name_repr name ls \<longleftrightarrow> VALID_NAME name \<and> labels_ok ls \<and> n_labels name = length ls \<and>
     n_length name = length (wire ls) \<and> mem_read (n_ndata name) 0 (n_length name) = Some (wire ls) \<and>
     absolute_attr name = ends_root ls \<and>
     (case n_offsets name of None \<Rightarrow> True | Some t \<Rightarrow> take (length ls) t = offsets_of ls)"

lemma wire_simps [simp]:
  "wire [] = []" "wire (l # ls) = of_nat (length l) # l @ wire ls"
  by (simp_all add: wire_def wire_label_def)

lemma wire_append [simp]: "wire (xs @ ys) = wire xs @ wire ys"
  by (simp add: wire_def)

lemma wire_split: "i < length ls \<Longrightarrow> wire ls = wire (take i ls) @ wire_label (ls ! i) @ wire (drop (Suc i) ls)"
  by (subst id_take_nth_drop [of i ls]) (simp_all add: wire_label_def)

lemma length_wire_take: "length (wire (take i ls)) \<le> length (wire ls)"
  by (metis append_take_drop_id length_append le_add1 wire_append)

lemma length_wire_mono: "i \<le> j \<Longrightarrow> length (wire (take i ls)) \<le> length (wire (take j ls))"
  using length_wire_take [of i "take j ls"] by (simp add: min_def)

lemma labels_ok_simps:
  "labels_ok []"
  "labels_ok (l # ls) \<longleftrightarrow> length l \<le> 63 \<and> (ls \<noteq> [] \<longrightarrow> l \<noteq> []) \<and> labels_ok ls \<and>
     length (wire (l # ls)) \<le> DNS_NAME_MAXWIRE"
  by (auto simp: labels_ok_def DNS_NAME_MAXWIRE_def)

lemma labels_ok_append:
  assumes "labels_ok (xs @ ys)"
  shows "labels_ok xs \<and> labels_ok ys"
  using assms by (induction xs) (auto simp: labels_ok_simps)

lemma labels_ok_take: "labels_ok ls \<Longrightarrow> labels_ok (take i ls)"
  by (metis append_take_drop_id labels_ok_append)

lemma labels_ok_drop: "labels_ok ls \<Longrightarrow> labels_ok (drop i ls)"
  by (metis append_take_drop_id labels_ok_append)

lemma labels_count: "labels_ok ls \<Longrightarrow> 2 * length ls \<le> Suc (length (wire ls))"
proof (induction ls)
  case (Cons l ls)
  then show ?case by (cases l; cases ls) (auto simp: labels_ok_simps)
qed simp

lemma labels_le_128: "labels_ok ls \<Longrightarrow> length ls \<le> 128"
  using labels_count [of ls] by (simp add: labels_ok_def DNS_NAME_MAXWIRE_def)

lemma label_length: "labels_ok ls \<Longrightarrow> i < length ls \<Longrightarrow> length (ls ! i) \<le> 63"
  by (simp add: labels_ok_def)

lemma unat_label_length [simp]: "length l \<le> 63 \<Longrightarrow> unat (of_nat (length l) :: u8) = length l"
  by (simp add: unat_of_nat take_bit_nat_eq_self)

lemma label_length_le [simp]: "length l \<le> 63 \<Longrightarrow> (of_nat (length l) :: u8) \<le> 63"
  by (simp add: word_le_nat_alt)

lemma label_length_zero [simp]: "length l \<le> 63 \<Longrightarrow> (of_nat (length l) :: u8) = 0 \<longleftrightarrow> l = []"
  by (simp add: word_unat_eq_iff)

lemma ends_root_simps [simp]:
  "\<not> ends_root []" "ends_root (l # ls) \<longleftrightarrow> (if ls = [] then l = [] else ends_root ls)"
  by (simp_all add: ends_root_def)

lemma ends_root_drop: "i < length ls \<Longrightarrow> ends_root (drop i ls) = ends_root ls"
  by (auto simp: ends_root_def)

lemma no_inner_root: "labels_ok (xs @ ys) \<Longrightarrow> ys \<noteq> [] \<Longrightarrow> \<not> ends_root xs"
  by (induction xs) (auto simp: labels_ok_simps)

lemma ends_root_take: "labels_ok ls \<Longrightarrow> i < length ls \<Longrightarrow> \<not> ends_root (take i ls)"
  using no_inner_root [of "take i ls" "drop i ls"] by simp

lemma absolute_attr_bit: "absolute_attr n = bit (n_attributes n) 0"
  by (simp add: absolute_attr_def DNS_NAMEATTR_ABSOLUTE_def and_one_eq odd_iff_mod_2_eq_one [symmetric] bit_0)

lemma offsets_of_simps [simp]:
  "offsets_of [] = []"
  "offsets_of (xs @ [y]) = offsets_of xs @ [of_nat (length (wire xs))]"
  "length (offsets_of xs) = length xs"
  by (auto simp: offsets_of_def intro!: map_cong)

lemma offsets_of_append: "take (length xs) (offsets_of (xs @ ys)) = offsets_of xs"
  by (auto simp: offsets_of_def take_map intro!: map_cong)

lemma take_offsets_of: "take i (offsets_of ls) = offsets_of (take i ls)"
proof (cases "i \<le> length ls")
  case True
  then show ?thesis using offsets_of_append [of "take i ls" "drop i ls"] by (simp add: min.absorb2)
qed simp

lemma nth_offsets_of:
  assumes "labels_ok ls" and "i < length ls"
  shows "unat (offsets_of ls ! i) = length (wire (take i ls))"
  using assms length_wire_take [of i ls]
  by (simp add: offsets_of_def labels_ok_def DNS_NAME_MAXWIRE_def unat_of_nat take_bit_nat_eq_self)

lemma set_offsets_loop_repr:
  assumes "labels_ok (xs @ ys)" and "drop (length (wire xs)) ndata = wire ys @ rest"
    and "ys = [] \<longrightarrow> \<not> ends_root xs"
  shows "set_offsets_loop ndata (length (wire (xs @ ys))) (length (wire xs)) (offsets_of xs) =
    Some (offsets_of (xs @ ys), length (wire (xs @ ys)), ends_root (xs @ ys))"
  using assms
proof (induction ys arbitrary: xs)
  case Nil
  then show ?case by (subst set_offsets_loop.simps) simp
next
  case (Cons y ys)
  have y: "length y \<le> 63" using Cons.prems(1) label_length [of "xs @ y # ys" "length xs"] by simp
  have lt: "length xs < 128" using labels_le_128 [OF Cons.prems(1)] by simp
  have rd: "rd ndata (length (wire xs)) = Some (of_nat (length y))"
    using Cons.prems(2) by (auto dest: rd_drop)
  have dr: "drop (length (wire (xs @ [y]))) ndata = wire ys @ rest"
  proof -
    have "drop (length (wire (xs @ [y]))) ndata = drop (Suc (length y)) (drop (length (wire xs)) ndata)"
      by (simp add: add.commute)
    then show ?thesis by (simp add: Cons.prems(2))
  qed
  show ?case
  proof (cases "y = []")
    case True
    then have "ys = []" using Cons.prems(1) no_inner_root [of "xs @ [y]" ys] by (auto simp: ends_root_def)
    with True y show ?thesis
      by (subst set_offsets_loop.simps) (simp add: rd lt ends_root_def)
  next
    case False
    have "set_offsets_loop ndata (length (wire (xs @ y # ys))) (length (wire (xs @ [y])))
        (offsets_of (xs @ [y])) = Some (offsets_of (xs @ y # ys), length (wire (xs @ y # ys)), ends_root (xs @ y # ys))"
      using Cons.IH [of "xs @ [y]"] Cons.prems(1) dr False by (simp add: ends_root_def)
    with False y show ?thesis
      by (subst set_offsets_loop.simps) (simp add: rd lt add.commute)
  qed
qed

lemma name_repr_bytes:
  assumes "name_repr name ls"
  shows "n_ndata name = wire ls @ drop (length (wire ls)) (n_ndata name)"
proof -
  have "take (length (wire ls)) (n_ndata name) = wire ls"
    using assms unfolding name_repr_def by (metis mem_read_eq_Some drop_0)
  then show ?thesis using append_take_drop_id [of "length (wire ls)" "n_ndata name"] by metis
qed

lemma set_offsets_repr:
  assumes "labels_ok ls" and "n_ndata name = wire ls @ rest" and "n_length name = length (wire ls)"
    and "n_labels name = length ls"
  shows "set_offsets name False = Some (offsets_of ls, name)"
  using assms set_offsets_loop_repr [of "[]" ls "n_ndata name" rest]
  by (simp add: set_offsets_def)

lemma name_reprD:
  assumes "name_repr name ls"
  shows "VALID_NAME name" "labels_ok ls" "n_labels name = length ls"
    "n_length name = length (wire ls)" "absolute_attr name = ends_root ls"
    "dns_name_toregion name = Some (wire ls)"
  using assms by (auto simp: name_repr_def dns_name_toregion_def)

lemma SETUP_OFFSETS_repr:
  assumes "name_repr name ls"
  obtains t where "SETUP_OFFSETS name = Some t" and "take (length ls) t = offsets_of ls"
proof (cases "n_offsets name")
  case None
  have "set_offsets name False = Some (offsets_of ls, name)"
    by (rule set_offsets_repr [OF _ name_repr_bytes]) (use assms name_reprD in auto)
  then show ?thesis using None that by (simp add: SETUP_OFFSETS_def)
next
  case (Some t)
  then show ?thesis using assms that by (auto simp: SETUP_OFFSETS_def name_repr_def)
qed

lemma rd_offsets:
  assumes "labels_ok ls" and "take (length ls) t = offsets_of ls" and "i < length ls"
  shows "map_option unat (rd t i) = Some (length (wire (take i ls)))"
proof -
  have "length ls \<le> length t" using assms(2) by (metis offsets_of_simps(3) length_take min.cobounded1 min.commute)
  moreover have "t ! i = offsets_of ls ! i" using assms by (metis nth_take)
  ultimately show ?thesis using assms by (simp add: rd_def nth_offsets_of)
qed

lemma label_at:
  assumes "name_repr name ls" and "i < length ls"
  shows "drop (length (wire (take i ls))) (n_ndata name) =
    of_nat (length (ls ! i)) # ls ! i @ wire (drop (Suc i) ls) @ drop (length (wire ls)) (n_ndata name)"
  by (subst name_repr_bytes [OF assms(1)], subst wire_split [OF assms(2)]) (simp add: wire_label_def)

lemma name_reprI:
  assumes "VALID_NAME name" and "labels_ok ls" and "n_labels name = length ls"
    and "n_length name = length (wire ls)" and "n_ndata name = wire ls @ rest"
    and "absolute_attr name = ends_root ls"
    and "\<And>t. n_offsets name = Some t \<Longrightarrow> take (length ls) t = offsets_of ls"
  shows "name_repr name ls"
  using assms by (auto simp: name_repr_def mem_read_eq_Some split: option.split)

lemma refresh_offsets_repr:
  assumes "labels_ok ls" and "n_ndata name = wire ls @ rest" and "n_length name = length (wire ls)"
    and "n_labels name = length ls"
  shows "refresh_offsets name = Some (name\<lparr>n_offsets := map_option (\<lambda>_. offsets_of ls) (n_offsets name)\<rparr>)"
  using set_offsets_repr [OF assms] by (cases "n_offsets name") (auto simp: refresh_offsets_def)

lemma attr_absolute:
  "(a OR DNS_NAMEATTR_ABSOLUTE) AND DNS_NAMEATTR_ABSOLUTE \<noteq> 0"
  "(a AND NOT DNS_NAMEATTR_ABSOLUTE) AND DNS_NAMEATTR_ABSOLUTE = 0"
  "(DNS_NAMEATTR_ABSOLUTE :: u32) \<noteq> 0"
  by (auto simp: DNS_NAMEATTR_ABSOLUTE_def and_one_eq even_or_iff even_and_iff mod_2_eq_odd)

lemma attr_bindable:
  "(a OR DNS_NAMEATTR_ABSOLUTE) AND (DNS_NAMEATTR_READONLY OR DNS_NAMEATTR_DYNAMIC) = 
   a AND (DNS_NAMEATTR_READONLY OR DNS_NAMEATTR_DYNAMIC)"
  "(a AND NOT DNS_NAMEATTR_ABSOLUTE) AND (DNS_NAMEATTR_READONLY OR DNS_NAMEATTR_DYNAMIC) = 
   a AND (DNS_NAMEATTR_READONLY OR DNS_NAMEATTR_DYNAMIC)"
proof -
  have "(0x2 OR 0x4 :: u32) = 6" by simp
  moreover have "(a OR 1) AND 6 = a AND (6::u32)" "a AND NOT 1 AND 6 = a AND (6::u32)"
    by (simp_all add: bit.conj_disj_distrib2 and.assoc)
  ultimately show "(a OR DNS_NAMEATTR_ABSOLUTE) AND (DNS_NAMEATTR_READONLY OR DNS_NAMEATTR_DYNAMIC) = 
   a AND (DNS_NAMEATTR_READONLY OR DNS_NAMEATTR_DYNAMIC)"
  "(a AND NOT DNS_NAMEATTR_ABSOLUTE) AND (DNS_NAMEATTR_READONLY OR DNS_NAMEATTR_DYNAMIC) = 
   a AND (DNS_NAMEATTR_READONLY OR DNS_NAMEATTR_DYNAMIC)"
    by (simp_all add: attr_defs and.assoc)
qed

lemma wire_sub:
  assumes "first + n \<le> length ls"
  shows "wire ls = wire (take first ls) @ wire (take n (drop first ls)) @ wire (drop (first + n) ls)"
  by (metis append_take_drop_id drop_drop wire_append add.commute)

lemma getlabelsequence_repr:
  assumes src: "name_repr source ls" and le: "first + n \<le> length ls"
    and tgt: "VALID_NAME target" "BINDABLE target"
  obtains t where "dns_name_getlabelsequence source first n target False = Some t"
    and "name_repr t (take n (drop first ls))" and "n_buffer t = n_buffer target"
    and "BINDABLE t" and "n_offsets t = None \<longleftrightarrow> n_offsets target = None"
    and "n_length t = length (wire (take n (drop first ls)))"
    and "n_labels t = n"
proof -
  let ?sub = "take n (drop first ls)"
  obtain tb where tb: "SETUP_OFFSETS source = Some tb" "take (length ls) tb = offsets_of ls"
    using SETUP_OFFSETS_repr [OF src] .
  note d = name_reprD [OF src]
  have off: "(if i = n_labels source then Some (n_length source) else map_option unat (rd tb i)) =
      Some (length (wire (take i ls)))" if "i \<le> length ls" for i
    using rd_offsets [OF d(2) tb(2), of i] that by (simp add: d)
  define t0 where "t0 = target\<lparr>n_ndata := drop (length (wire (take first ls))) (n_ndata source),
     n_length := length (wire (take (first + n) ls)) - length (wire (take first ls)),
     n_attributes := (if first + n = n_labels source \<and> n > 0 \<and> absolute_attr source
        then n_attributes target OR DNS_NAMEATTR_ABSOLUTE
        else n_attributes target AND NOT DNS_NAMEATTR_ABSOLUTE), n_labels := n\<rparr>"
  define rest where "rest = wire (drop (first + n) ls) @ drop (length (wire ls)) (n_ndata source)"
  have "n \<le> length ls - first" "first \<le> length ls" using le by auto
  then have call: "dns_name_getlabelsequence source first n target False = refresh_offsets t0"
    using tgt d off [of first] off [of "first + n"] 
    unfolding dns_name_getlabelsequence_def by (simp add: tb t0_def)
  have nd: "n_ndata t0 = wire ?sub @ rest"
  proof -
    have "n_ndata source = wire (take first ls) @ wire ?sub @ rest"
      using name_repr_bytes [OF src] wire_sub [OF le] by (metis append.assoc rest_def)
    then show ?thesis by (simp add: t0_def)
  qed
  have ok: "labels_ok ?sub" using d(2) by (intro labels_ok_take labels_ok_drop)
  have len: "n_length t0 = length (wire ?sub)"
    by (simp add: t0_def take_add)
  have lab: "n_labels t0 = length ?sub" using le by (simp add: t0_def)
  have abs: "absolute_attr t0 = ends_root ?sub"
  proof (cases "first + n = length ls \<and> n > 0")
    case True
    then show ?thesis
      using d(3,5) ends_root_drop [of first ls] by (auto simp: t0_def absolute_attr_def attr_absolute)
  next
    case False
    moreover have "\<not> ends_root ?sub"
      using False le ends_root_take [OF labels_ok_drop [OF d(2)], of n first] by (cases "n = 0") auto
    ultimately show ?thesis using d(3) by (auto simp: t0_def absolute_attr_def attr_absolute)
  qed
  let ?t = "t0\<lparr>n_offsets := map_option (\<lambda>_. offsets_of ?sub) (n_offsets t0)\<rparr>"
  have "refresh_offsets t0 = Some ?t" by (rule refresh_offsets_repr [OF ok nd len lab])
  moreover have "name_repr ?t ?sub"
    by (rule name_reprI [of _ _ rest])
      (use ok nd len lab abs tgt in \<open>auto simp: t0_def VALID_NAME_def absolute_attr_def\<close>)
  moreover have "BINDABLE ?t" using tgt(2) by (simp add: t0_def BINDABLE_def attr_bindable)
  ultimately show ?thesis using that call len lab le by (simp add: t0_def)
qed

lemma labels_ok_join:
  assumes "labels_ok xs" and "labels_ok ys" and "ends_root xs \<longrightarrow> ys = []"
    and "length (wire (xs @ ys)) \<le> DNS_NAME_MAXWIRE"
  shows "labels_ok (xs @ ys)"
  using assms by (induction xs) (auto simp: labels_ok_simps DNS_NAME_MAXWIRE_def split: if_splits)

text \<open>What a copied name leaves behind: the labels in the name, the wire form after the bytes the
  target held before.\<close>

definition copied :: "isc_result \<times> dns_name \<times> isc_buffer option \<Rightarrow> isc_buffer option \<Rightarrow> isc_buffer \<Rightarrow>
    bytes list \<Rightarrow> bool" where
  "copied r target b ls \<longleftrightarrow> (\<exists>name b'. r = close_target ISC_R_SUCCESS name target b' \<and>
     name_repr name ls \<and> buf_wf b' \<and> b_length b' = b_length b \<and>
     buf_used_bytes b' = buf_used_bytes b @ wire ls)"

lemma open_target_wf:
  assumes "open_target name target = Some b"
    and "\<And>b. target = Some b \<Longrightarrow> buf_wf b" and "\<And>b. n_buffer name = Some b \<Longrightarrow> buf_wf b"
  shows "buf_wf b"
  using assms by (cases target)
    (auto simp: open_target_def bind_eq_Some_conv run_simps isc__buffer_clear_def buf_wf_def ISC_BUFFER_VALID_def)

lemma buffer_store:
  assumes "buf_wf b" and "length xs \<le> buf_room b"
  obtains m where "mem_write (b_base b) (unat (b_used b)) xs = Some m"
    and "drop (unat (b_used b)) m = xs @ drop (unat (b_used b) + length xs) (b_base b)"
    and "length m = length (b_base b)"
    and "\<And>n. n = of_nat (length xs) \<Longrightarrow>
      \<exists>b'. isc__buffer_add (b\<lparr>b_base := m\<rparr>) n = Some b' \<and> buf_wf b' \<and> b_length b' = b_length b \<and>
        b_used b' = b_used b + n \<and> unat (b_used b') = unat (b_used b) + length xs \<and>
        b_base b' = m \<and> b_current b' = b_current b \<and> b_active b' = b_active b \<and>
        buf_used_bytes b' = buf_used_bytes b @ xs"
proof -
  have fit: "unat (b_used b) + length xs \<le> length (b_base b)"
    using assms by (auto simp: buf_wf_def buf_room_def)
  have nw: "unat (b_used b) + length xs < 2 ^ 32" using room_no_wrap [OF assms] .
  define m where "m = take (unat (b_used b)) (b_base b) @ xs @ drop (unat (b_used b) + length xs) (b_base b)"
  have l: "length (take (unat (b_used b)) (b_base b)) = unat (b_used b)" using fit by simp
  have w: "mem_write (b_base b) (unat (b_used b)) xs = Some m"
    using fit by (simp add: m_def mem_write_def)
  moreover have "drop (unat (b_used b)) m = xs @ drop (unat (b_used b) + length xs) (b_base b)"
    using l by (simp add: m_def)
  moreover have "length m = length (b_base b)" by (rule length_mem_write [OF w])
  moreover have "\<exists>b'. isc__buffer_add (b\<lparr>b_base := m\<rparr>) n = Some b' \<and> buf_wf b' \<and> b_length b' = b_length b \<and>
        b_used b' = b_used b + n \<and> unat (b_used b') = unat (b_used b) + length xs \<and>
        b_base b' = m \<and> b_current b' = b_current b \<and> b_active b' = b_active b \<and>
        buf_used_bytes b' = buf_used_bytes b @ xs" if "n = of_nat (length xs)" for n
  proof -
    have u: "unat (b_used b + n) = unat (b_used b) + length xs"
      using unat_plus_of_nat [OF nw] that by simp
    have "b_used b + n \<le> b_length b" using fit assms(1) u by (simp add: word_le_nat_alt buf_wf_def)
    then show ?thesis
      using assms(1) u fit \<open>length m = _\<close> l
      by (auto simp: isc__buffer_add_def buf_wf_def ISC_BUFFER_VALID_def buf_used_bytes_def m_def)
  qed
  ultimately show ?thesis using that by blast
qed

lemma mem_write_join:
  "p + length xs + length ys \<le> length m \<Longrightarrow>
   Option.bind (mem_write m (p + length xs) ys) (\<lambda>m1. mem_write m1 p xs) = mem_write m p (xs @ ys)"
  by (auto simp: mem_write_def add.assoc min_def)

definition repr_opt :: "dns_name option \<Rightarrow> bytes list \<Rightarrow> bool" where
  "repr_opt name ls = (case name of None \<Rightarrow> ls = [] | Some n \<Rightarrow> name_repr n ls)"

text \<open>The part that is copied, as the code selects it.\<close>

lemma nonempty_part:
  assumes "repr_opt name ls"
  shows "Option.bind name (\<lambda>p. if n_labels p = 0 then None else Some p) = (if ls = [] then None else name)"
    and "ls \<noteq> [] \<Longrightarrow> \<exists>p. name = Some p \<and> name_repr p ls"
    and "(case name of None \<Rightarrow> True | Some p \<Rightarrow> VALID_NAME p)"
  using assms by (auto simp: repr_opt_def name_reprD split: option.splits)

lemma wire_empty [simp]: "wire ls = [] \<longleftrightarrow> ls = []"
  by (cases ls) simp_all

lemma ends_root_append: "ys \<noteq> [] \<Longrightarrow> ends_root (xs @ ys) = ends_root ys"
  by (simp add: ends_root_def)

lemma fill_name:
  assumes "buf_wf b" and "labels_ok ls" and "length (wire ls) \<le> buf_room b" and "VALID_NAME name"
    and "mem_write (b_base b) (unat (b_used b)) (wire ls) = Some m"
    and "r = do {
       name \<leftarrow> (let name = name\<lparr>n_ndata := drop (unat (b_used b)) m, n_labels := length ls,
          n_length := length (wire ls),
          n_attributes := (if ends_root ls then DNS_NAMEATTR_ABSOLUTE else 0)\<rparr> in
        if n_labels name > 0 then refresh_offsets name else Some name);
       b \<leftarrow> isc__buffer_add (b\<lparr>b_base := m\<rparr>) (of_nat (n_length name));
       Some (close_target ISC_R_SUCCESS name target b) }"
  shows "\<exists>res. r = Some res \<and> copied res target b ls"
proof -
  obtain b' where dr: "drop (unat (b_used b)) m = wire ls @ drop (unat (b_used b) + length (wire ls)) (b_base b)"
    and b': "isc__buffer_add (b\<lparr>b_base := m\<rparr>) (of_nat (length (wire ls))) = Some b'" "buf_wf b'"
      "b_length b' = b_length b" "buf_used_bytes b' = buf_used_bytes b @ wire ls"
    using buffer_store [OF assms(1,3)] assms(5) by (metis option.inject)
  let ?n = "name\<lparr>n_ndata := drop (unat (b_used b)) m, n_labels := length ls,
          n_length := length (wire ls),
          n_attributes := (if ends_root ls then DNS_NAMEATTR_ABSOLUTE else 0)\<rparr>"
  let ?n' = "?n\<lparr>n_offsets := map_option (\<lambda>_. offsets_of ls) (n_offsets name)\<rparr>"
  have rf: "refresh_offsets ?n = Some ?n'"
    using refresh_offsets_repr [OF assms(2), of ?n "drop (unat (b_used b) + length (wire ls)) (b_base b)"] dr by simp
  obtain n'' where n'': "(if n_labels ?n > 0 then refresh_offsets ?n else Some ?n) = Some n''"
    and len: "n_length n'' = length (wire ls)" and rep: "name_repr n'' ls"
  proof (cases "ls = []")
    case True
    have "name_repr ?n ls"
      by (rule name_reprI [of _ _ "drop (unat (b_used b)) m"])
        (use True assms(2,4) in \<open>auto simp: VALID_NAME_def absolute_attr_def ends_root_def\<close>)
    then show ?thesis using True that [of ?n] by simp
  next
    case False
    have "name_repr ?n' ls"
      by (rule name_reprI [of _ _ "drop (unat (b_used b) + length (wire ls)) (b_base b)"])
        (use dr assms(2,4) in \<open>auto simp: VALID_NAME_def absolute_attr_def attr_absolute\<close>)
    then show ?thesis using False that [of ?n'] rf by simp
  qed
  show ?thesis
    using b' n'' len rep unfolding assms(6) copied_def Let_def by auto
qed

lemma concatenate_repr:
  assumes p: "repr_opt prefix xs" and s: "repr_opt suffix ys" and root: "ends_root xs \<longrightarrow> ys = []"
    and name: "VALID_NAME name" "BINDABLE name" and b: "open_target name target = Some b" "buf_wf b"
  shows "if length (wire (xs @ ys)) > DNS_NAME_MAXWIRE
    then dns_name_concatenate prefix suffix (Some name) target =
      Some (close_target DNS_R_NAMETOOLONG (MAKE_EMPTY name) target b)
    else if length (wire (xs @ ys)) > buf_room b
    then dns_name_concatenate prefix suffix (Some name) target =
      Some (close_target ISC_R_NOSPACE (MAKE_EMPTY name) target b)
    else \<exists>r. dns_name_concatenate prefix suffix (Some name) target = Some r \<and>
      copied r target b (xs @ ys)"
proof -
  define P where "P = (if xs = [] then None else prefix)"
  define S where "S = (if ys = [] then None else suffix)"
  have P: "xs \<noteq> [] \<Longrightarrow> \<exists>p. P = Some p \<and> name_repr p xs" "xs = [] \<Longrightarrow> P = None"
    "Option.bind prefix (\<lambda>p. if n_labels p = 0 then None else Some p) = P"
    using nonempty_part [OF p] by (auto simp: P_def)
  have S: "ys \<noteq> [] \<Longrightarrow> \<exists>p. S = Some p \<and> name_repr p ys" "ys = [] \<Longrightarrow> S = None"
    "Option.bind suffix (\<lambda>p. if n_labels p = 0 then None else Some p) = S"
    using nonempty_part [OF s] by (auto simp: S_def)
  have ab: "(case P of None \<Rightarrow> False | Some p \<Rightarrow> absolute_attr p) = ends_root xs"
    using P by (cases "xs = []") (auto simp: name_reprD(3-5))
  have as: "(case S of None \<Rightarrow> False | Some p \<Rightarrow> absolute_attr p) = ends_root ys"
    using S by (cases "ys = []") (auto simp: name_reprD(3-5))
  have lp: "(case P of None \<Rightarrow> 0 | Some p \<Rightarrow> n_length p) = length (wire xs)"
    using P by (cases "xs = []") (auto simp: name_reprD(3-5))
  have lp2: "(case P of None \<Rightarrow> 0 | Some p \<Rightarrow> n_labels p) = length xs"
    using P by (cases "xs = []") (auto simp: name_reprD(3-5))
  have ls: "(case S of None \<Rightarrow> 0 | Some p \<Rightarrow> n_length p) = length (wire ys)"
    using S by (cases "ys = []") (auto simp: name_reprD(3-5))
  have ls2: "(case S of None \<Rightarrow> 0 | Some p \<Rightarrow> n_labels p) = length ys"
    using S by (cases "ys = []") (auto simp: name_reprD(3-5))
  have vt: "case target of Some b \<Rightarrow> ISC_BUFFER_VALID b
              | None \<Rightarrow> (case Some name of Some n \<Rightarrow>
                  (case n_buffer n of Some b \<Rightarrow> ISC_BUFFER_VALID b | None \<Rightarrow> False)
                | None \<Rightarrow> False)"
    using b(1) by (auto simp: open_target_def bind_eq_Some_conv split: option.splits)
  have av: "unat (b_length b - b_used b) = buf_room b"
    using unat_availablelength [OF b(2)] by (simp add: isc_buffer_availablelength_def)
  have nosuf: "ends_root xs \<Longrightarrow> S = None" using root S(2) by simp
  have er: "(ends_root xs \<or> ends_root ys) = ends_root (xs @ ys)"
    using root ends_root_append [of ys xs] by (cases "ys = []") auto
  note run = dns_name_concatenate_def nonempty_part(3) [OF p] nonempty_part(3) [OF s] P(3) S(3) name ab as lp lp2 ls ls2 b(1) av Let_def vt nosuf
  show ?thesis
  proof (cases "length (wire (xs @ ys)) > DNS_NAME_MAXWIRE \<or> length (wire (xs @ ys)) > buf_room b")
    case True
    then show ?thesis by (auto simp: run)
  next
    case False
    have mr: "(case S of None \<Rightarrow> Some (b_base b)
             | Some s \<Rightarrow> do {
                 xs' \<leftarrow> mem_read (n_ndata s) 0 (n_length s);
                 mem_write (b_base b) (unat (b_used b) + (case P of None \<Rightarrow> 0 | Some p \<Rightarrow> n_length p)) xs' }) =
       mem_write (b_base b) (unat (b_used b) + length (wire xs)) (wire ys)"
      using S(1,2) False b(2) unfolding lp
      by (cases "ys = []") (auto simp: name_repr_def mem_write_def buf_wf_def buf_room_def)
    have mp: "(case P of None \<Rightarrow> Some m
             | Some s \<Rightarrow> do {
                 xs' \<leftarrow> mem_read (n_ndata s) 0 (case P of None \<Rightarrow> 0 | Some p \<Rightarrow> n_length p);
                 mem_write m (unat (b_used b)) xs' }) =
       mem_write m (unat (b_used b)) (wire xs)" if "length m = length (b_base b)" for m
      using P(1,2) that b(2) unfolding lp
      by (cases "xs = []") (auto simp: name_repr_def mem_write_def buf_wf_def)
    have fit: "unat (b_used b) + length (wire xs) + length (wire ys) \<le> length (b_base b)"
      using False b(2) by (auto simp: buf_wf_def buf_room_def)
    define m1 where "m1 = take (unat (b_used b) + length (wire xs)) (b_base b) @ wire ys @ drop (unat (b_used b) + length (wire xs) + length (wire ys)) (b_base b)"
    have m1: "mem_write (b_base b) (unat (b_used b) + length (wire xs)) (wire ys) = Some m1" "length m1 = length (b_base b)"
      using fit by (auto simp: m1_def mem_write_def)
    obtain m where m: "mem_write (b_base b) (unat (b_used b)) (wire (xs @ ys)) = Some m"
      using fit by (simp add: mem_write_def)
    have m2: "mem_write m1 (unat (b_used b)) (wire xs) = Some m"
      using mem_write_join [OF fit] m m1 by simp
    have ok: "labels_ok (xs @ ys)"
      using labels_ok_join [of xs ys] p s root False
      by (auto simp: repr_opt_def name_reprD labels_ok_simps split: option.splits)
    have "\<exists>r. dns_name_concatenate prefix suffix (Some name) target = Some r \<and>
      copied r target b (xs @ ys)"
      by (rule fill_name [OF b(2) ok _ name(1) m])
        (use False m2 in \<open>auto simp: run mr mp m1 er DNS_NAME_MAXWIRE_def\<close>)
    then show ?thesis using False by auto
  qed
qed

definition lower :: "bytes list \<Rightarrow> bytes list" where
  "lower ls = map (map maptolower) ls"

lemma lower_simps [simp]:
  "lower [] = []" "lower (l # ls) = map maptolower l # lower ls" "length (lower ls) = length ls"
  "lower (xs @ ys) = lower xs @ lower ys" "lower ls = [] \<longleftrightarrow> ls = []"
  by (simp_all add: lower_def)

lemma length_wire_lower [simp]: "length (wire (lower ls)) = length (wire ls)"
  by (induction ls) simp_all

lemma ends_root_lower [simp]: "ends_root (lower ls) = ends_root ls"
  by (induction ls) simp_all

lemma labels_ok_lower [simp]: "labels_ok (lower ls) = labels_ok ls"
  by (induction ls) (simp_all add: labels_ok_simps)

lemma offsets_of_lower [simp]: "offsets_of (lower ls) = offsets_of ls"
proof -
  have "take i (lower ls) = lower (take i ls)" for i by (simp add: lower_def take_map)
  then show ?thesis by (simp add: offsets_of_def)
qed

lemma maptolower_idem [simp]: "maptolower (maptolower c) = maptolower c"
proof -
  have "\<not> (0x41 \<le> c + 0x20 \<and> c + 0x20 \<le> 0x5a)" if "0x41 \<le> c" "c \<le> 0x5a"
  proof -
    have "unat (c + 0x20) = unat c + 32" using that by (simp add: word_le_nat_alt unat_word_ariths)
    then show ?thesis using that by (simp add: word_le_nat_alt)
  qed
  then show ?thesis by (auto simp: maptolower_def)
qed

lemma drop_label:
  assumes "drop p nd = wire (l # ls) @ rest" and "length l \<le> 63"
  shows "rd nd p = Some (of_nat (length l))" and "mem_read nd (Suc p) (length l) = Some l"
    and "drop (Suc (p + length l)) nd = wire ls @ rest"
    and "drop (Suc p) nd = l @ wire ls @ rest"
proof -
  show rd: "rd nd p = Some (of_nat (length l))" and d: "drop (Suc p) nd = l @ wire ls @ rest"
    using rd_drop assms(1) by auto
  have "length (drop (Suc p) nd) = length l + (length (wire ls) + length rest)" by (simp only: d length_append)
  then have "Suc p + length l \<le> length nd" using rd by (auto simp: rd_eq_Some)
  then show "mem_read nd (Suc p) (length l) = Some l"
    using d by (auto simp: mem_read_eq_Some)
  have "drop (length l) (drop (Suc p) nd) = wire ls @ rest" by (simp add: d)
  then show "drop (Suc (p + length l)) nd = wire ls @ rest" by (simp add: add.commute)
qed

lemma downcase_loop_repr:
  assumes "drop p nd = wire ls @ rest" and "labels_ok ls"
  shows "downcase_loop nd p (length ls) (length (wire ls)) = Some (wire (lower ls))"
  using assms
proof (induction ls arbitrary: p)
  case (Cons l ls)
  then have l: "length l \<le> 63" "labels_ok ls" by (auto simp: labels_ok_simps)
  note d = drop_label [OF Cons.prems(1) l(1)]
  have c: "(of_nat (length l) :: u8) < 64" using l(1) by (simp add: word_less_nat_alt)
  show ?case using Cons.IH [OF d(3) l(2)] l c by (simp add: d)
qed simp

lemma downcase_repr:
  assumes src: "name_repr source ls" and name: "VALID_NAME name" "BINDABLE name"
    and b: "open_target name target = Some b" "buf_wf b"
  shows "if length (wire ls) > buf_room b
    then dns_name_downcase source name target =
      Some (close_target ISC_R_NOSPACE (MAKE_EMPTY name) target b)
    else \<exists>r. dns_name_downcase source name target = Some r \<and> copied r target b (lower ls)"
proof (cases "length (wire ls) > buf_room b")
  case True
  then show ?thesis
    using assms unat_availablelength [OF b(2)]
    by (simp add: dns_name_downcase_def name_reprD isc_buffer_availablelength_def)
next
  case False
  then have fit: "length (wire (lower ls)) \<le> buf_room b" by simp
  obtain m where m: "mem_write (b_base b) (unat (b_used b)) (wire (lower ls)) = Some m"
    using buffer_store [OF b(2) fit] by metis
  have ok: "labels_ok (lower ls)" using name_reprD(2) [OF src] by simp
  have d: "drop 0 (n_ndata source) = wire ls @ drop (length (wire ls)) (n_ndata source)"
    using name_repr_bytes [OF src] by simp
  have dl: "downcase_loop (n_ndata source) 0 (length ls) (length (wire ls)) = Some (wire (lower ls))"
    using downcase_loop_repr [OF d name_reprD(2) [OF src]] .
  have "\<exists>r. dns_name_downcase source name target = Some r \<and> copied r target b (lower ls)"
    by (rule fill_name [OF b(2) ok fit name(1) m])
      (use False name b m dl unat_availablelength [OF b(2)] in
        \<open>simp add: dns_name_downcase_def name_reprD [OF src] isc_buffer_availablelength_def Let_def\<close>)
  with False show ?thesis by simp
qed

lemma downcase_self_repr:
  assumes "name_repr name ls" and "n_attributes name AND DNS_NAMEATTR_READONLY = 0"
  shows "\<exists>name'. dns_name_downcase_self name = Some (ISC_R_SUCCESS, name') \<and> name_repr name' (lower ls)"
proof -
  note d = name_reprD [OF assms(1)]
  have "drop 0 (n_ndata name) = wire ls @ drop (length (wire ls)) (n_ndata name)"
    using name_repr_bytes [OF assms(1)] by simp
  note dl = downcase_loop_repr [OF this d(2)]
  have "length (wire (lower ls)) \<le> length (n_ndata name)"
    using assms(1) by (auto simp: name_repr_def mem_read_def split: if_splits)
  then have w: "mem_write (n_ndata name) 0 (wire (lower ls)) =
      Some (wire (lower ls) @ drop (length (wire ls)) (n_ndata name))"
    by (simp add: mem_write_def)
  have "name_repr (name\<lparr>n_ndata := wire (lower ls) @ drop (length (wire ls)) (n_ndata name)\<rparr>) (lower ls)"
    by (rule name_reprI)
      (use assms d in \<open>auto simp: VALID_NAME_def absolute_attr_def name_repr_def\<close>)
  then show ?thesis using assms(2) d dl w by (simp add: dns_name_downcase_self_def)
qed

text \<open>The labels of host names (RFC 952 and RFC 1123): letters, digits and hyphens, with no hyphen
  at either end.\<close>

definition host_label :: "bytes \<Rightarrow> bool" where
  "host_label l \<longleftrightarrow> l = [] \<or> borderchar (hd l) \<and> borderchar (last l) \<and> (\<forall>c \<in> set l. middlechar c)"

lemma host_chars_repr:
  assumes "drop p nd = l @ rest"
  shows "host_chars nd p (length l) first =
    Some (if l = [] \<or> (first \<longrightarrow> borderchar (hd l)) \<and> borderchar (last l) \<and> (\<forall>c \<in> set l. middlechar c)
          then Some (p + length l) else None)"
  using assms
proof (induction l arbitrary: p first)
  case (Cons c l)
  then have d: "rd nd p = Some c" "drop (Suc p) nd = l @ rest" by (auto dest: rd_drop)
  show ?case using Cons.IH [OF d(2), of False] d(1) by (cases l) (auto simp: middlechar_def)
qed simp

lemma host_labels_repr:
  assumes "drop p nd = wire ls @ rest" and "labels_ok ls" and "len = p + length (wire ls)"
  shows "host_labels nd len p = Some (\<forall>l \<in> set ls. host_label l)"
  using assms
proof (induction ls arbitrary: p)
  case Nil
  then show ?case by (subst host_labels.simps) simp
next
  case (Cons l ls)
  then have l: "length l \<le> 63" "labels_ok ls" by (auto simp: labels_ok_simps)
  note d = drop_label [OF Cons.prems(1) l(1)]
  have h: "host_chars nd (Suc p) (length l) True = Some (if host_label l then Some (Suc p + length l) else None)"
    using host_chars_repr [OF d(4), of True] by (simp add: host_label_def)
  show ?case using Cons.IH [OF d(3) l(2)] Cons.prems(3) l d(1) h
    by (subst host_labels.simps) simp
qed

lemma domain_chars_repr:
  "drop p nd = l @ rest \<Longrightarrow> domain_chars nd p (length l) =
    Some (if \<forall>c \<in> set l. domainchar c then Some (p + length l) else None)"
proof (induction l arbitrary: p)
  case (Cons c l)
  then have d: "rd nd p = Some c" "drop (Suc p) nd = l @ rest" by (auto dest: rd_drop)
  show ?case using Cons.IH [OF d(2)] d(1) by auto
qed simp

lemma root_name: "labels_ok ls \<Longrightarrow> ends_root ls \<Longrightarrow> length (wire ls) = 1 \<longleftrightarrow> ls = [[]]"
  by (cases ls; cases "tl ls"; cases "hd ls") (auto simp: labels_ok_simps split: if_splits)

lemma iswildcard_repr:
  assumes "name_repr name ls" and "ls \<noteq> []"
  shows "dns_name_iswildcard name = Some (hd ls = [0x2a])"
proof -
  obtain l ls' where ls: "ls = l # ls'" using assms(2) by (cases ls) auto
  have l: "length l \<le> 63" using name_reprD(2) [OF assms(1)] ls by (simp add: labels_ok_simps)
  have "drop 0 (n_ndata name) = wire (l # ls') @ drop (length (wire ls)) (n_ndata name)"
    using name_repr_bytes [OF assms(1)] ls by simp
  note d = drop_label [OF this l]
  have one: "(of_nat (length l) :: u8) = 1 \<longleftrightarrow> length l = 1" using l by (simp add: word_unat_eq_iff)
  have nd: "rd (n_ndata name) 1 = Some c" if "l = [c]" for c
    using d(4) that by (auto dest: rd_drop)
  show ?thesis
    using name_reprD [OF assms(1)] ls d(1) one nd
    by (cases l; cases "tl l") (auto simp: dns_name_iswildcard_def)
qed

lemma ishostname_repr:
  assumes rep: "name_repr name ls" and root: "ends_root ls"
  shows "dns_name_ishostname name wildcard =
    Some (\<forall>l \<in> set (if wildcard \<and> hd ls = [0x2a] then tl ls else ls). host_label l)"
proof (cases "ls = [[]]")
  case True
  then show ?thesis using rep
    by (simp add: dns_name_ishostname_def name_reprD [OF rep] host_label_def)
next
  case False
  note d = name_reprD [OF rep]
  obtain l ls' where ls: "ls = l # ls'" using root by (cases ls) auto
  have l: "length l \<le> 63" "labels_ok ls'" using d(2) ls by (auto simp: labels_ok_simps)
  have b: "drop 0 (n_ndata name) = wire (l # ls') @ drop (length (wire ls)) (n_ndata name)"
    using name_repr_bytes [OF rep] ls by simp
  note dl = drop_label [OF b l(1)]
  have n1: "n_length name \<noteq> 1" using root_name [OF d(2) root] False d(4) by simp
  moreover have "n_length name \<noteq> 0" using d(4) ls by simp
  ultimately have ge: "n_length name \<ge> 2" by linarith
  have w: "(do { c0 \<leftarrow> rd (n_ndata name) 0;
      if c0 = 1 then do { c1 \<leftarrow> rd (n_ndata name) 1; Some (c1 = 0x2a) } else Some False }) = Some (hd ls = [0x2a])"
    using iswildcard_repr [OF rep] ge d ls by (simp add: dns_name_iswildcard_def)
  have all: "host_labels (n_ndata name) (length (wire ls)) 0 = Some (\<forall>l \<in> set ls. host_label l)"
    by (rule host_labels_repr [OF b [folded ls] d(2)]) simp
  have rest: "host_labels (n_ndata name) (length (wire ls)) 2 = Some (\<forall>l \<in> set ls'. host_label l)"
    if "l = [0x2a]"
    by (rule host_labels_repr [OF _ l(2)]) (use dl(3) that ls in \<open>auto simp: numeral_2_eq_2\<close>)
  show ?thesis
    using n1 all rest root w ls unfolding dns_name_ishostname_def d(4)
    by (auto simp: d(1,3,5) ends_root_def)
qed

lemma ismailbox_repr:
  assumes rep: "name_repr name ls" and root: "ends_root ls"
  shows "dns_name_ismailbox name =
    Some (ls = [[]] \<or> (\<forall>c \<in> set (hd ls). domainchar c) \<and> (\<forall>l \<in> set (tl ls). host_label l))"
proof (cases "ls = [[]]")
  case True
  then show ?thesis by (simp add: dns_name_ismailbox_def name_reprD [OF rep])
next
  case False
  note d = name_reprD [OF rep]
  obtain l ls' where ls: "ls = l # ls'" and ne: "ls' \<noteq> []" using root False by (cases ls) (auto split: if_splits)
  have l: "length l \<le> 63" "labels_ok ls'" using d(2) ls by (auto simp: labels_ok_simps)
  have b: "drop 0 (n_ndata name) = wire (l # ls') @ drop (length (wire ls)) (n_ndata name)"
    using name_repr_bytes [OF rep] ls by simp
  note dl = drop_label [OF b l(1)]
  have n1: "length (wire ls) \<noteq> 1" using root_name [OF d(2) root] False by simp
  have rest: "host_labels (n_ndata name) (length (wire ls)) (Suc (length l)) = Some (\<forall>l \<in> set ls'. host_label l)"
    by (rule host_labels_repr [OF _ l(2)]) (use dl(3) ls in auto)
  show ?thesis
    using n1 rest root ls ne dl(1) l domain_chars_repr [OF dl(4)]
    by (auto simp: dns_name_ismailbox_def d ends_root_def)
qed

lemma internalwildcard_loop_repr:
  assumes "drop p nd = wire (xs @ ys) @ rest" and "labels_ok (xs @ ys)"
  shows "internalwildcard_loop nd p (length xs) = Some ([0x2a] \<in> set xs)"
  using assms
proof (induction xs arbitrary: p)
  case (Cons l xs)
  then have l: "length l \<le> 63" "labels_ok (xs @ ys)" by (auto simp: labels_ok_simps)
  note d = drop_label [OF Cons.prems(1) [unfolded append_Cons] l(1)]
  have one: "(of_nat (length l) :: u8) = 1 \<longleftrightarrow> length l = 1" using l(1) by (simp add: word_unat_eq_iff)
  have nd: "rd nd (Suc p) = Some c" if "l = [c]" for c
    using d(4) that by (auto dest: rd_drop)
  show ?case
  proof (cases "length l = 1")
    case True
    then obtain c where "l = [c]" by (auto simp: length_Suc_conv)
    then show ?thesis using Cons.IH [OF d(3) l(2)] l nd d(1) by auto
  next
    case False
    then show ?thesis using Cons.IH [OF d(3) l(2)] l one d(1) by auto
  qed
qed simp

lemma internalwildcard_repr:
  assumes rep: "name_repr name ls" and "ls \<noteq> []"
  shows "dns_name_internalwildcard name = Some ([0x2a] \<in> set (butlast (tl ls)))"
proof -
  note d = name_reprD [OF rep]
  obtain l ls' where ls: "ls = l # ls'" using assms(2) by (cases ls) auto
  have l: "length l \<le> 63" "labels_ok ls'" using d(2) ls by (auto simp: labels_ok_simps)
  have b: "drop 0 (n_ndata name) = wire (l # ls') @ drop (length (wire ls)) (n_ndata name)"
    using name_repr_bytes [OF rep] ls by simp
  note dl = drop_label [OF b l(1)]
  have sp: "ls' = butlast ls' @ drop (length ls' - 1) ls'" by (simp add: butlast_conv_take)
  have dr: "drop (Suc (length l)) (n_ndata name) =
      wire (butlast ls' @ drop (length ls' - 1) ls') @ drop (length (wire ls)) (n_ndata name)"
    using dl(3) sp by simp
  have "internalwildcard_loop (n_ndata name) (Suc (length l)) (length (butlast ls')) =
      Some ([0x2a] \<in> set (butlast ls'))"
    by (rule internalwildcard_loop_repr [OF dr]) (use l(2) sp in simp)
  then show ?thesis
    using l dl(1) ls by (simp add: dns_name_internalwildcard_def d(1,3))
qed

lemma name_repr_offsets:
  assumes "name_repr name ls" and "n_offsets name = Some t"
  shows "mem_read t 0 (n_labels name) = Some (offsets_of ls)"
proof -
  have "take (length ls) t = offsets_of ls" using assms by (simp add: name_repr_def)
  moreover from this have "length ls \<le> length t"
    by (metis offsets_of_simps(3) length_take min.cobounded1 min.commute)
  ultimately show ?thesis using name_reprD(3) [OF assms(1)] by (simp add: mem_read_def)
qed

text \<open>A copy of the fields of a name: its table comes from the source or is computed.\<close>

lemma copy_repr:
  assumes rep: "name_repr source ls" and "VALID_NAME t" and "n_ndata t = wire ls @ rest"
    and "n_length t = n_length source" and "n_labels t = n_labels source"
    and "absolute_attr t = absolute_attr source" and "n_offsets t \<noteq> None"
  shows "(case n_offsets source of
      Some offs \<Rightarrow> map_option (\<lambda>x. t\<lparr>n_offsets := Some x\<rparr>) (mem_read offs 0 (n_labels source))
    | None \<Rightarrow> refresh_offsets t) = Some (t\<lparr>n_offsets := Some (offsets_of ls)\<rparr>)"
    and "name_repr (t\<lparr>n_offsets := Some (offsets_of ls)\<rparr>) ls"
proof -
  note d = name_reprD [OF rep]
  show "(case n_offsets source of
      Some offs \<Rightarrow> map_option (\<lambda>x. t\<lparr>n_offsets := Some x\<rparr>) (mem_read offs 0 (n_labels source))
    | None \<Rightarrow> refresh_offsets t) = Some (t\<lparr>n_offsets := Some (offsets_of ls)\<rparr>)"
    using name_repr_offsets [OF rep] refresh_offsets_repr [OF d(2) assms(3)] assms(4-7) d(3,4)
    by (auto split: option.split)
  show "name_repr (t\<lparr>n_offsets := Some (offsets_of ls)\<rparr>) ls"
    by (rule name_reprI [OF _ d(2), of _ rest])
      (use assms(2-6) d in \<open>auto simp: VALID_NAME_def absolute_attr_def\<close>)
qed

lemma attr_clone:
  "(a AND NOT DNS_NAMEATTR_READONLY AND NOT DNS_NAMEATTR_DYNAMIC AND NOT DNS_NAMEATTR_DYNOFFSETS)
     AND DNS_NAMEATTR_ABSOLUTE = a AND DNS_NAMEATTR_ABSOLUTE"
  "(DNS_NAMEATTR_DYNAMIC OR DNS_NAMEATTR_ABSOLUTE) AND DNS_NAMEATTR_ABSOLUTE \<noteq> (0::u32)"
  "DNS_NAMEATTR_DYNAMIC AND DNS_NAMEATTR_ABSOLUTE = (0::u32)"
  by (simp_all add: attr_defs and.assoc)

lemma clone_repr:
  assumes rep: "name_repr source ls" and t: "VALID_NAME target" "BINDABLE target"
  shows "\<exists>name. dns_name_clone source target = Some name \<and> name_repr name ls"
proof -
  note d = name_reprD [OF rep]
  let ?t = "target\<lparr>n_ndata := n_ndata source, n_length := n_length source,
           n_labels := n_labels source,
           n_attributes := n_attributes source AND
             NOT (DNS_NAMEATTR_READONLY OR DNS_NAMEATTR_DYNAMIC OR DNS_NAMEATTR_DYNOFFSETS)\<rparr>"
  note b = name_repr_bytes [OF rep]
  have f: "VALID_NAME ?t" "absolute_attr ?t = absolute_attr source"
    using t by (simp_all add: VALID_NAME_def absolute_attr_def attr_clone)
  have none: "name_repr ?t ls" if "n_offsets target = None \<or> ls = []"
    by (rule name_reprI [OF f(1) d(2), of "drop (length (wire ls)) (n_ndata source)"])
      (use d b that f(2) in \<open>auto\<close>)
  show ?thesis
  proof (cases "n_offsets target \<noteq> None \<and> n_labels source > 0")
    case True
    have "dns_name_clone source target = (case n_offsets source of
      Some offs \<Rightarrow> map_option (\<lambda>x. ?t\<lparr>n_offsets := Some x\<rparr>) (mem_read offs 0 (n_labels source))
    | None \<Rightarrow> refresh_offsets ?t)"
      using True t d(1) by (auto simp: dns_name_clone_def map_conv_bind_option comp_def split: option.split)
    moreover have nd: "n_ndata ?t = wire ls @ drop (length (wire ls)) (n_ndata source)"
      by (simp, rule b)
    ultimately show ?thesis using copy_repr [OF rep f(1) nd _ _ f(2)] True by auto
  next
    case False
    then show ?thesis using none t d by (auto simp: dns_name_clone_def)
  qed
qed

lemma dup_repr:
  assumes rep: "name_repr source ls" and ne: "ls \<noteq> []" and t: "VALID_NAME target" "BINDABLE target"
  shows "\<exists>name. dns_name_dup source mem target = Some (if mem then ISC_R_SUCCESS else ISC_R_NOMEMORY, name) \<and>
    name_repr name (if mem then ls else [])"
proof (cases mem)
  case False
  have "name_repr (MAKE_EMPTY target) []"
    by (rule name_reprI [of _ _ "[]"])
      (use t in \<open>auto simp: MAKE_EMPTY_def VALID_NAME_def labels_ok_simps absolute_attr_def attr_absolute\<close>)
  then show ?thesis
    using False t ne name_reprD [OF rep] by (simp add: dns_name_dup_def)
next
  case True
  note d = name_reprD [OF rep]
  let ?t = "(MAKE_EMPTY target)\<lparr>n_ndata := wire ls, n_length := n_length source,
           n_labels := n_labels source,
           n_attributes := (if absolute_attr source
                then DNS_NAMEATTR_DYNAMIC OR DNS_NAMEATTR_ABSOLUTE else DNS_NAMEATTR_DYNAMIC)\<rparr>"
  have f: "VALID_NAME ?t" "absolute_attr ?t = absolute_attr source"
    using t by (simp_all add: VALID_NAME_def absolute_attr_def attr_clone attr_absolute MAKE_EMPTY_def)
  have mr: "mem_read (n_ndata source) 0 (length (wire ls)) = Some (wire ls)"
    using rep by (auto simp: name_repr_def)
  show ?thesis
  proof (cases "n_offsets target = None")
    case None: True
    have "name_repr ?t ls"
      by (rule name_reprI [OF f(1) d(2), of "[]"]) (use d None f(2) in \<open>auto simp: MAKE_EMPTY_def\<close>)
    then show ?thesis using t d ne mr True None
      by (simp add: dns_name_dup_def MAKE_EMPTY_def)
  next
    case Some: False
    have "dns_name_dup source mem target = map_option (Pair ISC_R_SUCCESS) (case n_offsets source of
      Some offs \<Rightarrow> map_option (\<lambda>x. ?t\<lparr>n_offsets := Some x\<rparr>) (mem_read offs 0 (n_labels source))
    | None \<Rightarrow> refresh_offsets ?t)"
      using True Some t d ne mr
      by (auto simp: dns_name_dup_def MAKE_EMPTY_def map_conv_bind_option comp_def Let_def split: option.split)
    moreover have "n_offsets ?t \<noteq> None" using Some by (simp add: MAKE_EMPTY_def)
    moreover have nd: "n_ndata ?t = wire ls @ []" by simp
    ultimately show ?thesis using copy_repr [OF rep f(1) nd _ _ f(2)] True by auto
  qed
qed

lemma set_offsets_set_repr:
  assumes "labels_ok ls" and "n_ndata name = wire ls @ rest" and "n_length name = length (wire ls)"
  shows "set_offsets name True = Some (offsets_of ls,
    name\<lparr>n_labels := length ls, n_length := length (wire ls),
      n_attributes := (if ends_root ls then n_attributes name OR DNS_NAMEATTR_ABSOLUTE
                       else n_attributes name AND NOT DNS_NAMEATTR_ABSOLUTE)\<rparr>)"
  using assms set_offsets_loop_repr [of "[]" ls "n_ndata name" rest]
  by (simp add: set_offsets_def)

text \<open>The buffer of a name after the wire form was copied to it.\<close>

definition holds_copy :: "isc_buffer option \<Rightarrow> isc_buffer option \<Rightarrow> bytes list \<Rightarrow> bool" where
  "holds_copy b b' ls \<longleftrightarrow> (case b of
       None \<Rightarrow> b' = None
     | Some b \<Rightarrow> \<exists>c. b' = Some c \<and> buf_wf c \<and> b_length c = b_length b \<and> buf_used_bytes c = wire ls)"

lemma fromregion_repr:
  assumes ok: "labels_ok ls" and name: "VALID_NAME name" "BINDABLE name"
    and buf: "\<And>b. n_buffer name = Some b \<Longrightarrow> buf_wf b \<and> length (wire ls) \<le> unat (b_length b)"
  shows "\<exists>name'. dns_name_fromregion name (wire ls) = Some name' \<and> name_repr name' ls \<and> holds_copy (n_buffer name) (n_buffer name') ls"
proof -
  have max: "length (wire ls) \<le> DNS_NAME_MAXWIRE" using ok by (simp add: labels_ok_def)
  define set_name where "set_name n = n\<lparr>n_labels := length ls, n_length := length (wire ls),
     n_attributes := (if ends_root ls then n_attributes n OR DNS_NAMEATTR_ABSOLUTE
                       else n_attributes n AND NOT DNS_NAMEATTR_ABSOLUTE),
     n_offsets := (if ls = [] then n_offsets n else map_option (\<lambda>_. offsets_of ls) (n_offsets n))\<rparr>" for n :: dns_name
  have mid: "(if length (wire ls) > 0 then do {
           (offs, name) \<leftarrow> set_offsets n True;
           Some (name\<lparr>n_offsets := map_option (\<lambda>_. offs) (n_offsets name)\<rparr>) }
         else Some (n\<lparr>n_labels := 0,
                n_attributes := n_attributes n AND NOT DNS_NAMEATTR_ABSOLUTE\<rparr>)) = Some (set_name n)"
    and rep: "name_repr (set_name n\<lparr>n_buffer := x\<rparr>) ls"
    if "n_ndata n = wire ls @ rest" "n_length n = length (wire ls)" "VALID_NAME n" for n rest x
  proof -
    show "(if length (wire ls) > 0 then do {
           (offs, name) \<leftarrow> set_offsets n True;
           Some (name\<lparr>n_offsets := map_option (\<lambda>_. offs) (n_offsets name)\<rparr>) }
         else Some (n\<lparr>n_labels := 0,
                n_attributes := n_attributes n AND NOT DNS_NAMEATTR_ABSOLUTE\<rparr>)) = Some (set_name n)"
      using set_offsets_set_repr [OF ok that(1,2)] that(2) by (auto simp: set_name_def)
    show "name_repr (set_name n\<lparr>n_buffer := x\<rparr>) ls"
      by (rule name_reprI [OF _ ok, of _ rest])
        (use that in \<open>auto simp: set_name_def VALID_NAME_def absolute_attr_def attr_absolute split: if_splits\<close>)
  qed
  show ?thesis
  proof (cases "n_buffer name")
    case None
    let ?n = "name\<lparr>n_ndata := wire ls, n_length := length (wire ls)\<rparr>"
    have h: "n_ndata ?n = wire ls @ []" "n_length ?n = length (wire ls)" "VALID_NAME ?n"
      using name by (simp_all add: VALID_NAME_def)
    have "n_buffer (set_name ?n) = None" using None by (simp add: set_name_def)
    then have "dns_name_fromregion name (wire ls) = Some (set_name ?n)"
      using None name max mid [OF h] by (simp add: dns_name_fromregion_def min_def cong: option.case_cong)
    moreover have "set_name ?n\<lparr>n_buffer := None\<rparr> = set_name ?n" using None by (simp add: set_name_def)
    moreover have "holds_copy (n_buffer name) (n_buffer (set_name ?n)) ls" using None by (simp add: set_name_def holds_copy_def)
    ultimately show ?thesis using rep [OF h, of None] by metis
  next
    case (Some b)
    define b0 where "b0 = b\<lparr>b_used := 0, b_current := 0, b_active := 0\<rparr>"
    have wf: "buf_wf b" "length (wire ls) \<le> unat (b_length b)" using buf [OF Some] by auto
    have b0: "isc__buffer_clear b = Some b0" "buf_wf b0" "b_used b0 = 0" "buf_room b0 = unat (b_length b)"
      using wf by (auto simp: isc__buffer_clear_def b0_def buf_wf_def ISC_BUFFER_VALID_def buf_room_def)
    obtain m b' where m: "mem_write (b_base b0) 0 (wire ls) = Some m"
      "m = wire ls @ drop (length (wire ls)) (b_base b0)"
      and b': "isc__buffer_add (b0\<lparr>b_base := m\<rparr>) (of_nat (length (wire ls))) = Some b'"
      and c: "buf_wf b'" "b_length b' = b_length b0" "buf_used_bytes b' = buf_used_bytes b0 @ wire ls"
      using buffer_store [OF b0(2), of "wire ls"] wf(2) b0(3,4) by auto metis
    let ?n = "name\<lparr>n_ndata := m, n_length := length (wire ls), n_buffer := Some (b0\<lparr>b_base := m\<rparr>)\<rparr>"
    have h: "n_ndata ?n = wire ls @ drop (length (wire ls)) (b_base b0)" "n_length ?n = length (wire ls)" "VALID_NAME ?n"
      using name m(2) by (simp_all add: VALID_NAME_def)
    have av: "isc__buffer_availableregion b0 = Some \<lparr>r_base = Some 0, r_length = b_length b\<rparr>"
      using b0 by (simp add: isc__buffer_availableregion_def isc_buffer_availablelength_def buf_wf_def b0_def)
    have nb: "n_buffer (set_name ?n) = Some (b0\<lparr>b_base := m\<rparr>)" "n_length (set_name ?n) = length (wire ls)"
      by (simp_all add: set_name_def)
    have "dns_name_fromregion name (wire ls) = Some (set_name ?n\<lparr>n_buffer := Some b'\<rparr>)"
      using Some name max mid [OF h] b0(1) av wf(2) m(1) b' nb
      unfolding dns_name_fromregion_def by (simp add: min_def cong: option.case_cong)
    moreover have "holds_copy (n_buffer name) (n_buffer (set_name ?n\<lparr>n_buffer := Some b'\<rparr>)) ls"
      using Some c by (simp add: holds_copy_def b0_def buf_used_bytes_def)
    ultimately show ?thesis using rep [OF h] by blast
  qed
qed

section \<open>Properties\<close>

text \<open>A name built from its labels, for the examples.\<close>

definition sample_name :: "bytes list \<Rightarrow> dns_name" where
  "sample_name ls = (DNS_NAME_INIT None)\<lparr>n_ndata := wire ls, n_length := length (wire ls),
     n_labels := length ls, n_attributes := (if ends_root ls then DNS_NAMEATTR_ABSOLUTE else 0)\<rparr>"

lemma sample_name_repr: "labels_ok ls \<Longrightarrow> name_repr (sample_name ls) ls"
  by (rule name_reprI [of _ _ "[]"])
    (auto simp: sample_name_def DNS_NAME_INIT_def VALID_NAME_def absolute_attr_def attr_absolute)

lemma init_name:
  "VALID_NAME (DNS_NAME_INIT t)" "BINDABLE (DNS_NAME_INIT t)"
  "VALID_NAME (DNS_NAME_INIT t\<lparr>n_buffer := b\<rparr>)" "BINDABLE (DNS_NAME_INIT t\<lparr>n_buffer := b\<rparr>)"
  by (simp_all add: DNS_NAME_INIT_def VALID_NAME_def BINDABLE_def)

text \<open>The predicates on names read exactly the labels: a name is a wildcard when its first label
  is \<open>*\<close>; it has an internal wildcard when a label other than the first and the last is \<open>*\<close>; an
  absolute name is a host name when every label (after a leading \<open>*\<close> where that is allowed) is made
  of letters, digits and inner hyphens; it is a mailbox name when its first label is printable and
  the others are host labels, or it is the root.\<close>

theorem name_predicates:
  assumes "name_repr name ls" and "ls \<noteq> []"
  shows "dns_name_iswildcard name = Some (hd ls = [0x2a]) \<and>
    dns_name_internalwildcard name = Some ([0x2a] \<in> set (butlast (tl ls))) \<and>
    (ends_root ls \<longrightarrow>
      dns_name_ishostname name wildcard =
        Some (\<forall>l \<in> set (if wildcard \<and> hd ls = [0x2a] then tl ls else ls). host_label l) \<and>
      dns_name_ismailbox name =
        Some (ls = [[]] \<or> (\<forall>c \<in> set (hd ls). domainchar c) \<and> (\<forall>l \<in> set (tl ls). host_label l)))"
  using iswildcard_repr [OF assms] internalwildcard_repr [OF assms] ishostname_repr [OF assms(1)]
    ismailbox_repr [OF assms(1)] by simp

text \<open>The names \<open>*.a-b.\<close> and \<open>*.b-.\<close>\<close>

theorem name_predicates_witness:
  "dns_name_iswildcard (sample_name [[0x2a], [0x61, 0x2d, 0x62], []]) = Some True \<and>
   dns_name_internalwildcard (sample_name [[0x2a], [0x61, 0x2d, 0x62], []]) = Some False \<and>
   dns_name_ishostname (sample_name [[0x2a], [0x61, 0x2d, 0x62], []]) True = Some True \<and>
   dns_name_ishostname (sample_name [[0x2a], [0x62, 0x2d], []]) True = Some False \<and>
   dns_name_ismailbox (sample_name [[0x2a], [0x61, 0x2d, 0x62], []]) = Some True"
proof -
  have r: "name_repr (sample_name [[0x2a], [0x61, 0x2d, 0x62], []]) [[0x2a], [0x61, 0x2d, 0x62], []]"
    "name_repr (sample_name [[0x2a], [0x62, 0x2d], []]) [[0x2a], [0x62, 0x2d], []]"
    by (rule sample_name_repr, simp add: labels_ok_simps DNS_NAME_MAXWIRE_def)+
  note chars = host_label_def borderchar_def middlechar_def alphachar_def digitchar_def hyphenchar_def domainchar_def
  show ?thesis
    using name_predicates [OF r(1)] name_predicates [OF r(2)] by (simp add: chars)
qed

text \<open>C33: Splitting a name between two labels and concatenating the two parts gives the name back:
  the parts refer to the labels before and after the split, and a target with room for the wire
  form receives exactly it; with less room the result is \<open>ISC_R_NOSPACE\<close> and an empty name.\<close>

theorem name_split_concatenate:
  assumes rep: "name_repr name ls" and k: "0 < k" "k < length ls"
    and parts: "VALID_NAME p0" "BINDABLE p0" "n_buffer p0 \<noteq> None"
      "VALID_NAME s0" "BINDABLE s0" "n_buffer s0 \<noteq> None"
    and tgt: "VALID_NAME t0" "BINDABLE t0" "buf_wf b"
  shows "\<exists>p s. dns_name_split name k (Some p0) (Some s0) = Some (Some p, Some s) \<and>
    name_repr p (take (length ls - k) ls) \<and> name_repr s (drop (length ls - k) ls) \<and>
    (if length (wire ls) \<le> buf_room b
     then \<exists>r. dns_name_concatenate (Some p) (Some s) (Some t0) (Some b) = Some r \<and>
       copied r (Some b) b ls
     else dns_name_concatenate (Some p) (Some s) (Some t0) (Some b) =
       Some (ISC_R_NOSPACE, MAKE_EMPTY t0, Some b))"
proof -
  let ?i = "length ls - k"
  note d = name_reprD [OF rep]
  obtain p where p: "dns_name_getlabelsequence name 0 ?i p0 False = Some p" "name_repr p (take ?i (drop 0 ls))"
    using getlabelsequence_repr [OF rep, of 0 ?i p0] parts by auto
  obtain s where s: "dns_name_getlabelsequence name ?i k s0 False = Some s" "name_repr s (take k (drop ?i ls))"
    using getlabelsequence_repr [OF rep, of ?i k s0] parts k by auto
  have all: "take k (drop ?i ls) = drop ?i ls" by simp
  have split: "dns_name_split name k (Some p0) (Some s0) = Some (Some p, Some s)"
    using p s k parts d by (simp add: dns_name_split_def)
  have o: "open_target t0 (Some b) = Some b" using tgt(3) by (simp add: open_target_def buf_wf_def)
  have "\<not> ends_root (take ?i ls)" using ends_root_take [OF d(2)] k by simp
  then show ?thesis
    using concatenate_repr [of "Some p" "take ?i ls" "Some s" "drop ?i ls" t0 "Some b" b]
      p s split o tgt d(2) unfolding repr_opt_def
    by (auto simp: labels_ok_def close_target_def simp flip: wire_append length_append)
qed

theorem name_split_concatenate_witness:
  "\<exists>p s r. dns_name_split (sample_name [[0x61], [0x62], []]) 2
      (Some (DNS_NAME_INIT None\<lparr>n_buffer := Some isc__buffer_initnull\<rparr>))
      (Some (DNS_NAME_INIT None\<lparr>n_buffer := Some isc__buffer_initnull\<rparr>)) = Some (Some p, Some s) \<and>
    dns_name_concatenate (Some p) (Some s) (Some (DNS_NAME_INIT None)) (Some sample_buffer) = Some r \<and>
    copied r (Some sample_buffer) sample_buffer [[0x61], [0x62], []]"
proof -
  have "name_repr (sample_name [[0x61], [0x62], []]) [[0x61], [0x62], []]"
    by (rule sample_name_repr) (simp add: labels_ok_simps DNS_NAME_MAXWIRE_def)
  moreover have "buf_room sample_buffer \<ge> 5" by (simp add: sample_defs buf_room_def)
  ultimately show ?thesis
    using name_split_concatenate [of _ "[[0x61], [0x62], []]" 2
        "DNS_NAME_INIT None\<lparr>n_buffer := Some isc__buffer_initnull\<rparr>"
        "DNS_NAME_INIT None\<lparr>n_buffer := Some isc__buffer_initnull\<rparr>" "DNS_NAME_INIT None" sample_buffer]
      sample_buffer_wf
    by (simp add: init_name) (metis dns_name.simps)
qed

text \<open>C34: Copies of a name are well-formed names with the labels they should have. A clone, a duplicate in allocated
  memory and a name set to the region of another denote the same labels; where the target of the region has a
  buffer of its own that is long enough, the buffer then holds exactly the wire form. A downcased copy, in the buffer of
  the name or in another, has the labels in lower case and is stored after what the buffer held. Without memory, or
  without room for a downcased copy, the result says so and the name is empty.\<close>

theorem name_copies:
  assumes "name_repr source ls" and "ls \<noteq> []" and "VALID_NAME target" and "BINDABLE target"
    and "\<forall>t. n_buffer target = Some t \<longrightarrow> buf_wf t \<and> length (wire ls) \<le> unat (b_length t)"
    and "open_target target tb = Some b" and "buf_wf b"
  shows "(\<exists>name. dns_name_clone source target = Some name \<and> name_repr name ls) \<and>
    (\<exists>name. dns_name_dup source mem target =
        Some (if mem then ISC_R_SUCCESS else ISC_R_NOMEMORY, name) \<and>
      name_repr name (if mem then ls else [])) \<and>
    (\<exists>r name. dns_name_toregion source = Some r \<and> dns_name_fromregion target r = Some name \<and>
      name_repr name ls \<and> holds_copy (n_buffer target) (n_buffer name) ls) \<and>
    (if length (wire ls) \<le> buf_room b
     then \<exists>r. dns_name_downcase source target tb = Some r \<and> copied r tb b (lower ls)
     else dns_name_downcase source target tb =
       Some (close_target ISC_R_NOSPACE (MAKE_EMPTY target) tb b))"
proof -
  note rep = assms(1) and t = assms(3,4)
  have "\<exists>r name. dns_name_toregion source = Some r \<and> dns_name_fromregion target r = Some name \<and>
         name_repr name ls \<and> holds_copy (n_buffer target) (n_buffer name) ls"
    using name_reprD [OF rep] fromregion_repr [OF name_reprD(2) [OF rep] t] assms(5) by auto
  then show ?thesis
    using clone_repr [OF rep t] dup_repr [OF rep assms(2) t, of mem] downcase_repr [OF rep t assms(6,7)]
    by (simp add: not_le [symmetric] split: if_splits)
qed

theorem name_copies_witness:
  "(\<exists>name. dns_name_clone (sample_name [[0x41], []]) (DNS_NAME_INIT (Some [])\<lparr>n_buffer := Some sample_buffer\<rparr>) = Some name \<and>
     name_repr name [[0x41], []]) \<and>
   (\<exists>name b. dns_name_fromregion (DNS_NAME_INIT (Some [])\<lparr>n_buffer := Some sample_buffer\<rparr>) [1, 0x41, 0] = Some name \<and>
     name_repr name [[0x41], []] \<and> n_buffer name = Some b \<and> buf_used_bytes b = [1, 0x41, 0]) \<and>
   (\<exists>r. dns_name_downcase (sample_name [[0x41], []]) (DNS_NAME_INIT (Some [])\<lparr>n_buffer := Some sample_buffer\<rparr>) (Some sample_buffer) =
     Some r \<and> copied r (Some sample_buffer) sample_buffer [[0x61], []])"
proof -
  let ?t = "DNS_NAME_INIT (Some [])\<lparr>n_buffer := Some sample_buffer\<rparr>"
  have r: "name_repr (sample_name [[0x41], []]) [[0x41], []]"
    by (rule sample_name_repr) (simp add: labels_ok_simps DNS_NAME_MAXWIRE_def)
  have v: "VALID_NAME ?t" "BINDABLE ?t" using init_name(1,2) by (simp_all add: VALID_NAME_def BINDABLE_def)
  have b: "buf_room sample_buffer = 8" "b_length sample_buffer = 8" by (simp_all add: sample_defs buf_room_def)
  have o: "open_target ?t (Some sample_buffer) = Some sample_buffer"
    using sample_buffer_wf by (simp add: open_target_def buf_wf_def)
  have "lower [[0x41], []] = [[0x61], []]" by (simp add: lower_def maptolower_def)
  moreover have "dns_name_toregion (sample_name [[0x41], []]) = Some [1, 0x41, 0]" using name_reprD(6) [OF r] by simp
  ultimately show ?thesis
    using name_copies [OF r _ v _ o sample_buffer_wf, where mem = True] b sample_buffer_wf by (fastforce simp: holds_copy_def)
qed

end
