(* ===== verification/Dns_Name_Order.thy ===== *)
theory Dns_Name_Order
  imports Dns_Name "HOL-Library.List_Lexorder" "HOL-Library.Sublist"
begin

text \<open>
  Hashing and comparison of names, from \<open>lib/dns/name.c\<close>. The reference is the canonical order of
  RFC 4034: names are compared by their labels from the right, labels by their bytes in lower case.
  \<open>canonical ls\<close> is the list of lower-case labels from the right, and the order is the
  lexicographic order of lists, once over labels and once over bytes.
\<close>

section \<open>Hashing\<close>

text \<open>The loop of \<open>name_hash\<close>, with \<open>h += (h << 3) + c\<close> in 32 bits.\<close>

fun hash_loop :: "bool \<Rightarrow> bytes \<Rightarrow> nat \<Rightarrow> nat \<Rightarrow> u32 \<Rightarrow> u32 option" where
  "hash_loop case_sensitive ndata p 0 h = Some h"
| "hash_loop case_sensitive ndata p (Suc len) h = do {
     c \<leftarrow> rd ndata p;
     let c = (if case_sensitive then c else maptolower c) in
     hash_loop case_sensitive ndata (p + 1) len (h + (push_bit 3 h + ucast c)) }"

definition name_hash :: "dns_name \<Rightarrow> bool \<Rightarrow> u32 option" where
  "name_hash name case_sensitive =
     hash_loop case_sensitive (n_ndata name) 0 (if n_length name > 16 then 16 else n_length name) 0"

definition dns_name_hash :: "dns_name \<Rightarrow> bool \<Rightarrow> u32 option" where
  "dns_name_hash name case_sensitive = do {
     REQUIRE (VALID_NAME name);
     if n_labels name = 0 then Some 0 else name_hash name case_sensitive }"

text \<open>The loop of \<open>dns_name_hashbylabel\<close> over the labels from \<open>i\<close> on; \<open>n\<close> labels remain.\<close>

fun hashbylabel_loop :: "dns_name \<Rightarrow> u8 list \<Rightarrow> bool \<Rightarrow> nat \<Rightarrow> nat \<Rightarrow> u32 \<Rightarrow> u32 option" where
  "hashbylabel_loop name offsets case_sensitive i 0 h = Some h"
| "hashbylabel_loop name offsets case_sensitive i (Suc n) h = do {
     o1 \<leftarrow> rd offsets i;
     o2 \<leftarrow> (if i = n_labels name - 1 then Some (n_length name)
           else map_option unat (rd offsets (i + 1)));
     d \<leftarrow> name_hash ((DNS_NAME_INIT None)\<lparr>n_labels := 1, n_ndata := drop (unat o1) (n_ndata name),
           n_length := o2 - unat o1\<rparr>) case_sensitive;
     hashbylabel_loop name offsets case_sensitive (i + 1) n (h + d) }"

definition dns_name_hashbylabel :: "dns_name \<Rightarrow> bool \<Rightarrow> u32 option" where
  "dns_name_hashbylabel name case_sensitive = do {
     REQUIRE (VALID_NAME name);
     if n_labels name = 0 then Some 0
     else if n_labels name = 1 then name_hash name case_sensitive
     else do {
       offsets \<leftarrow> SETUP_OFFSETS name;
       hashbylabel_loop name offsets case_sensitive 0 (n_labels name) 0 } }"

section \<open>Comparison\<close>

datatype dns_namereln =
    dns_namereln_none | dns_namereln_contains | dns_namereln_subdomain | dns_namereln_equal
  | dns_namereln_commonancestor

text \<open>The loop over the characters of two labels: the first difference, or 0.\<close>

fun chdiff_loop :: "bytes \<Rightarrow> nat \<Rightarrow> bytes \<Rightarrow> nat \<Rightarrow> nat \<Rightarrow> int option" where
  "chdiff_loop nd1 p1 nd2 p2 0 = Some 0"
| "chdiff_loop nd1 p1 nd2 p2 (Suc n) = do {
     c1 \<leftarrow> rd nd1 p1;
     c2 \<leftarrow> rd nd2 p2;
     let chdiff = uint (maptolower c1) - uint (maptolower c2) in
     if chdiff \<noteq> 0 then Some chdiff
     else chdiff_loop nd1 (p1 + 1) nd2 (p2 + 1) n }"

text \<open>The loop over the labels, from the last one back; \<open>l\<close> is the number of labels to compare and
  \<open>l1\<close>, \<open>l2\<close> the positions reached. The result is the relation, the order and \<open>nlabels\<close>.\<close>

fun fullcompare_loop ::
    "dns_name \<Rightarrow> u8 list \<Rightarrow> dns_name \<Rightarrow> u8 list \<Rightarrow> int \<Rightarrow> nat \<Rightarrow> nat \<Rightarrow> nat \<Rightarrow> nat \<Rightarrow>
     (dns_namereln \<times> int \<times> nat) option" where
  "fullcompare_loop name1 offsets1 name2 offsets2 ldiff 0 l1 l2 nlabels =
     Some (if ldiff < 0 then dns_namereln_contains
           else if ldiff > 0 then dns_namereln_subdomain
           else dns_namereln_equal, ldiff, nlabels)"
| "fullcompare_loop name1 offsets1 name2 offsets2 ldiff (Suc l) l1 l2 nlabels = do {
     o1 \<leftarrow> rd offsets1 (l1 - 1);
     o2 \<leftarrow> rd offsets2 (l2 - 1);
     count1 \<leftarrow> rd (n_ndata name1) (unat o1);
     count2 \<leftarrow> rd (n_ndata name2) (unat o2);
     REQUIRE (count1 \<le> 63 \<and> count2 \<le> 63);
     let cdiff = uint count1 - uint count2 in do {
       chdiff \<leftarrow> chdiff_loop (n_ndata name1) (unat o1 + 1) (n_ndata name2) (unat o2 + 1)
                  (if cdiff < 0 then unat count1 else unat count2);
       let reln = (if nlabels > 0 then dns_namereln_commonancestor else dns_namereln_none) in
       if chdiff \<noteq> 0 then Some (reln, chdiff, nlabels)
       else if cdiff \<noteq> 0 then Some (reln, cdiff, nlabels)
       else fullcompare_loop name1 offsets1 name2 offsets2 ldiff l (l1 - 1) (l2 - 1)
              (nlabels + 1) } }"

definition dns_name_fullcompare ::
    "dns_name \<Rightarrow> dns_name \<Rightarrow> (dns_namereln \<times> int \<times> nat) option" where
  "dns_name_fullcompare name1 name2 = do {
     REQUIRE (VALID_NAME name1);
     REQUIRE (VALID_NAME name2);
     REQUIRE (absolute_attr name1 = absolute_attr name2);
     offsets1 \<leftarrow> SETUP_OFFSETS name1;
     offsets2 \<leftarrow> SETUP_OFFSETS name2;
     let l1 = n_labels name1; l2 = n_labels name2;
         l = (if l2 > l1 then l1 else l2);
         ldiff = (if l2 > l1 then - int (l2 - l1) else int (l1 - l2)) in
     fullcompare_loop name1 offsets1 name2 offsets2 ldiff l l1 l2 0 }"

definition dns_name_compare :: "dns_name \<Rightarrow> dns_name \<Rightarrow> int option" where
  "dns_name_compare name1 name2 = do {
     (_, order, _) \<leftarrow> dns_name_fullcompare name1 name2;
     Some order }"

text \<open>The loops of \<open>dns_name_equal\<close>: the characters of one label, then the labels. Both pointers
  advance together, but in different objects.\<close>

fun eq_chars :: "bytes \<Rightarrow> nat \<Rightarrow> bytes \<Rightarrow> nat \<Rightarrow> nat \<Rightarrow> bool option" where
  "eq_chars nd1 p1 nd2 p2 0 = Some True"
| "eq_chars nd1 p1 nd2 p2 (Suc n) = do {
     c1 \<leftarrow> rd nd1 p1;
     c2 \<leftarrow> rd nd2 p2;
     if maptolower c1 \<noteq> maptolower c2 then Some False
     else eq_chars nd1 (p1 + 1) nd2 (p2 + 1) n }"

fun equal_loop :: "bytes \<Rightarrow> nat \<Rightarrow> bytes \<Rightarrow> nat \<Rightarrow> nat \<Rightarrow> bool option" where
  "equal_loop nd1 p1 nd2 p2 0 = Some True"
| "equal_loop nd1 p1 nd2 p2 (Suc l) = do {
     count \<leftarrow> rd nd1 p1;
     count2 \<leftarrow> rd nd2 p2;
     if count \<noteq> count2 then Some False
     else do {
       REQUIRE (count \<le> 63);
       e \<leftarrow> eq_chars nd1 (p1 + 1) nd2 (p2 + 1) (unat count);
       if e then equal_loop nd1 (p1 + 1 + unat count) nd2 (p2 + 1 + unat count) l
       else Some False } }"

definition dns_name_equal :: "dns_name \<Rightarrow> dns_name \<Rightarrow> bool option" where
  "dns_name_equal name1 name2 = do {
     REQUIRE (VALID_NAME name1);
     REQUIRE (VALID_NAME name2);
     REQUIRE (absolute_attr name1 = absolute_attr name2);
     if n_length name1 \<noteq> n_length name2 then Some False
     else if n_labels name1 \<noteq> n_labels name2 then Some False
     else equal_loop (n_ndata name1) 0 (n_ndata name2) 0 (n_labels name1) }"

definition dns_name_caseequal :: "dns_name \<Rightarrow> dns_name \<Rightarrow> bool option" where
  "dns_name_caseequal name1 name2 = do {
     REQUIRE (VALID_NAME name1);
     REQUIRE (VALID_NAME name2);
     REQUIRE (absolute_attr name1 = absolute_attr name2);
     if n_length name1 \<noteq> n_length name2 then Some False
     else do {
       a \<leftarrow> mem_read (n_ndata name1) 0 (n_length name1);
       b \<leftarrow> mem_read (n_ndata name2) 0 (n_length name1);
       Some (a = b) } }"

text \<open>The loops of \<open>dns_name_rdatacompare\<close>; the result of the inner one is 0 when the labels are
  equal.\<close>

fun rdata_chars :: "bytes \<Rightarrow> nat \<Rightarrow> bytes \<Rightarrow> nat \<Rightarrow> nat \<Rightarrow> int option" where
  "rdata_chars nd1 p1 nd2 p2 0 = Some 0"
| "rdata_chars nd1 p1 nd2 p2 (Suc n) = do {
     c1 \<leftarrow> map_option maptolower (rd nd1 p1);
     c2 \<leftarrow> map_option maptolower (rd nd2 p2);
     if c1 < c2 then Some (- 1)
     else if c1 > c2 then Some 1
     else rdata_chars nd1 (p1 + 1) nd2 (p2 + 1) n }"

fun rdatacompare_loop ::
    "bytes \<Rightarrow> nat \<Rightarrow> bytes \<Rightarrow> nat \<Rightarrow> nat \<Rightarrow> bool \<Rightarrow> int option" where
  "rdatacompare_loop nd1 p1 nd2 p2 0 samelabels = do { REQUIRE samelabels; Some 0 }"
| "rdatacompare_loop nd1 p1 nd2 p2 (Suc l) samelabels = do {
     count1 \<leftarrow> rd nd1 p1;
     count2 \<leftarrow> rd nd2 p2;
     REQUIRE (count1 \<le> 63 \<and> count2 \<le> 63);
     if count1 \<noteq> count2 then Some (if count1 < count2 then - 1 else 1)
     else do {
       d \<leftarrow> rdata_chars nd1 (p1 + 1) nd2 (p2 + 1) (unat count1);
       if d \<noteq> 0 then Some d
       else rdatacompare_loop nd1 (p1 + 1 + unat count1) nd2 (p2 + 1 + unat count1) l
              samelabels } }"

definition dns_name_rdatacompare :: "dns_name \<Rightarrow> dns_name \<Rightarrow> int option" where
  "dns_name_rdatacompare name1 name2 = do {
     REQUIRE (VALID_NAME name1);
     REQUIRE (n_labels name1 > 0);
     REQUIRE (absolute_attr name1);
     REQUIRE (VALID_NAME name2);
     REQUIRE (n_labels name2 > 0);
     REQUIRE (absolute_attr name2);
     let l1 = n_labels name1; l2 = n_labels name2 in
     rdatacompare_loop (n_ndata name1) 0 (n_ndata name2) 0 (if l1 < l2 then l1 else l2) (l1 = l2) }"

definition dns_name_issubdomain :: "dns_name \<Rightarrow> dns_name \<Rightarrow> bool option" where
  "dns_name_issubdomain name1 name2 = do {
     (namereln, _, _) \<leftarrow> dns_name_fullcompare name1 name2;
     Some (namereln = dns_namereln_subdomain \<or> namereln = dns_namereln_equal) }"

definition dns_name_matcheswildcard :: "dns_name \<Rightarrow> dns_name \<Rightarrow> bool option" where
  "dns_name_matcheswildcard name wname = do {
     REQUIRE (VALID_NAME name);
     REQUIRE (n_labels name > 0);
     REQUIRE (VALID_NAME wname);
     REQUIRE (n_labels wname > 0);
     w \<leftarrow> dns_name_iswildcard wname;
     REQUIRE w;
     tname \<leftarrow> dns_name_getlabelsequence wname 1 (n_labels wname - 1) (DNS_NAME_INIT None) False;
     (namereln, _, _) \<leftarrow> dns_name_fullcompare name tname;
     Some (namereln = dns_namereln_subdomain) }"

section \<open>The canonical order\<close>

definition canonical :: "bytes list \<Rightarrow> bytes list" where
  "canonical ls = rev (lower ls)"

definition common_labels :: "bytes list \<Rightarrow> bytes list \<Rightarrow> nat" where
  "common_labels xs ys = length (takeWhile (\<lambda>(x, y). x = y) (zip (canonical xs) (canonical ys)))"

definition name_relation :: "bytes list \<Rightarrow> bytes list \<Rightarrow> dns_namereln" where
  "name_relation xs ys =
     (if canonical xs = canonical ys then dns_namereln_equal
      else if prefix (canonical ys) (canonical xs) then dns_namereln_subdomain
      else if prefix (canonical xs) (canonical ys) then dns_namereln_contains
      else if common_labels xs ys > 0 then dns_namereln_commonancestor
      else dns_namereln_none)"

subsection \<open>Labels\<close>

fun chdiff :: "bytes \<Rightarrow> bytes \<Rightarrow> int" where
  "chdiff (x # xs) (y # ys) =
     (let d = uint (maptolower x) - uint (maptolower y) in if d \<noteq> 0 then d else chdiff xs ys)"
| "chdiff _ _ = 0"

definition label_order :: "bytes \<Rightarrow> bytes \<Rightarrow> int" where
  "label_order x y = (if chdiff x y \<noteq> 0 then chdiff x y else int (length x) - int (length y))"

lemma Nil_less_list [simp]: "[] < xs \<longleftrightarrow> xs \<noteq> []" for xs :: "'a::order list"
  by (cases xs) simp_all

lemma label_order_sign:
  "label_order x y < 0 \<longleftrightarrow> map maptolower x < map maptolower y"
  "label_order x y = 0 \<longleftrightarrow> map maptolower x = map maptolower y"
  by (induction x y rule: chdiff.induct)
    (auto simp: label_order_def Let_def word_less_def word_uint_eq_iff)

lemma chdiff_loop_repr:
  assumes "drop p1 nd1 = xs @ r1" and "drop p2 nd2 = ys @ r2" and "n = min (length xs) (length ys)"
  shows "chdiff_loop nd1 p1 nd2 p2 n = Some (chdiff xs ys)"
  using assms
proof (induction xs ys arbitrary: p1 p2 n rule: chdiff.induct)
  case (1 x xs y ys)
  then have d: "rd nd1 p1 = Some x" "drop (Suc p1) nd1 = xs @ r1"
    "rd nd2 p2 = Some y" "drop (Suc p2) nd2 = ys @ r2" by (auto dest: rd_drop)
  show ?case using "1.IH" [OF refl _ d(2) d(4) refl] "1.prems"(3) d(1,3) by (simp add: Let_def)
qed simp_all

subsection \<open>Names\<close>

text \<open>The comparison on label lists from the right, with the number of equal labels so far.\<close>

fun ref_compare :: "bytes list \<Rightarrow> bytes list \<Rightarrow> nat \<Rightarrow> dns_namereln \<times> int \<times> nat" where
  "ref_compare (x # xs) (y # ys) k =
     (if label_order x y \<noteq> 0
      then (if k > 0 then dns_namereln_commonancestor else dns_namereln_none, label_order x y, k)
      else ref_compare xs ys (Suc k))"
| "ref_compare [] ys k =
     (if ys = [] then dns_namereln_equal else dns_namereln_contains, - int (length ys), k)"
| "ref_compare (x # xs) [] k = (dns_namereln_subdomain, int (length (x # xs)), k)"

lemma rev_take_Suc: "i < length xs \<Longrightarrow> rev (take (Suc i) xs) = xs ! i # rev (take i xs)"
  by (simp add: take_Suc_conv_app_nth)

lemma uint_label_length: "length l \<le> 63 \<Longrightarrow> uint (of_nat (length l) :: u8) = int (length l)"
  using unat_label_length [of l] by (metis uint_nat of_nat_unat)

lemma fullcompare_loop_repr:
  assumes r1: "name_repr n1 ls1" and t1: "take (length ls1) o1 = offsets_of ls1"
    and r2: "name_repr n2 ls2" and t2: "take (length ls2) o2 = offsets_of ls2"
    and "l1 \<le> length ls1" and "l2 \<le> length ls2" and "l = min l1 l2" and "ld = int l1 - int l2"
  shows "fullcompare_loop n1 o1 n2 o2 ld l l1 l2 k =
    Some (ref_compare (rev (take l1 ls1)) (rev (take l2 ls2)) k)"
  using assms(5-)
proof (induction l arbitrary: l1 l2 k)
  case 0
  then show ?case by (cases l1; cases l2) (auto simp: rev_take_Suc)
next
  case (Suc l)
  obtain i1 i2 where i: "l1 = Suc i1" "l2 = Suc i2" using Suc.prems by (cases l1; cases l2) auto
  have lt: "i1 < length ls1" "i2 < length ls2" using Suc.prems i by auto
  note d1 = name_reprD [OF r1] and d2 = name_reprD [OF r2]
  have len: "length (ls1 ! i1) \<le> 63" "length (ls2 ! i2) \<le> 63"
    using label_length [OF d1(2) lt(1)] label_length [OF d2(2) lt(2)] by auto
  obtain u1 where u1: "rd o1 i1 = Some u1" "unat u1 = length (wire (take i1 ls1))"
    using rd_offsets [OF d1(2) t1 lt(1)] by auto
  obtain u2 where u2: "rd o2 i2 = Some u2" "unat u2 = length (wire (take i2 ls2))"
    using rd_offsets [OF d2(2) t2 lt(2)] by auto
  note c1 = rd_drop [OF label_at [OF r1 lt(1)]] and c2 = rd_drop [OF label_at [OF r2 lt(2)]]
  have ch: "chdiff_loop (n_ndata n1) (Suc (unat u1)) (n_ndata n2) (Suc (unat u2))
      (if length (ls1 ! i1) < length (ls2 ! i2) then length (ls1 ! i1) else length (ls2 ! i2)) =
      Some (chdiff (ls1 ! i1) (ls2 ! i2))"
    by (rule chdiff_loop_repr) (use u1 u2 c1(2) c2(2) in auto)
  have IH: "fullcompare_loop n1 o1 n2 o2 ld l i1 i2 (Suc k) =
      Some (ref_compare (rev (take i1 ls1)) (rev (take i2 ls2)) (Suc k))"
    by (rule Suc.IH) (use Suc.prems i in auto)
  show ?case
    using IH ch u1(1) u2(1) c1(1) c2(1) len unfolding i rev_take_Suc [OF lt(1)] rev_take_Suc [OF lt(2)]
    by (cases "length (ls1 ! i1) < length (ls2 ! i2)")
      (simp_all add: u1(2) u2(2) uint_label_length label_order_def Let_def)
qed

lemma fullcompare_ref:
  assumes "name_repr n1 ls1" and "name_repr n2 ls2" and "ends_root ls1 = ends_root ls2"
  shows "dns_name_fullcompare n1 n2 = Some (ref_compare (rev ls1) (rev ls2) 0)"
proof -
  obtain o1 where o1: "SETUP_OFFSETS n1 = Some o1" "take (length ls1) o1 = offsets_of ls1"
    using SETUP_OFFSETS_repr [OF assms(1)] .
  obtain o2 where o2: "SETUP_OFFSETS n2 = Some o2" "take (length ls2) o2 = offsets_of ls2"
    using SETUP_OFFSETS_repr [OF assms(2)] .
  note d1 = name_reprD [OF assms(1)] and d2 = name_reprD [OF assms(2)]
  show ?thesis
    using fullcompare_loop_repr [OF assms(1) o1(2) assms(2) o2(2) le_refl le_refl refl refl, of 0]
    by (cases "length ls1 < length ls2") (simp_all add: dns_name_fullcompare_def d1 d2 o1(1) o2(1) assms(3) Let_def not_less min.absorb1 min.absorb2)
qed

lemma ref_compare_spec:
  assumes "K1 = map (map maptolower) xs" and "K2 = map (map maptolower) ys"
  obtains reln d where "ref_compare xs ys k = (reln, d, k + length (takeWhile (\<lambda>(x, y). x = y) (zip K1 K2)))"
    and "d < 0 \<longleftrightarrow> K1 < K2" and "d = 0 \<longleftrightarrow> K1 = K2"
    and "reln = (if K1 = K2 then dns_namereln_equal
      else if prefix K2 K1 then dns_namereln_subdomain
      else if prefix K1 K2 then dns_namereln_contains
      else if k + length (takeWhile (\<lambda>(x, y). x = y) (zip K1 K2)) > 0 then dns_namereln_commonancestor
      else dns_namereln_none)"
  using assms
proof (induction xs ys k arbitrary: K1 K2 thesis rule: ref_compare.induct)
  case (1 x xs y ys k)
  show ?case
  proof (cases "label_order x y = 0")
    case True
    then have eq: "map maptolower x = map maptolower y" by (simp add: label_order_sign)
    show ?thesis
      by (rule "1.IH" [OF _ _ refl refl]) (use True eq "1.prems" in auto)
  next
    case False
    then have "map maptolower x \<noteq> map maptolower y" by (simp add: label_order_sign)
    then show ?thesis
      by (intro "1.prems"(1)) (use False "1.prems"(2,3) label_order_sign(1) [of x y] in auto)
  qed
next
  case (2 ys k)
  then have "K1 = []" by simp
  then show ?case using "2.prems" by (cases ys) auto
next
  case (3 x xs k)
  then have "K2 = []" by simp
  then show ?case using "3.prems" by auto
qed

subsection \<open>Equality\<close>

lemma eq_chars_repr:
  assumes "drop p1 nd1 = xs @ r1" and "drop p2 nd2 = ys @ r2" and "length xs = length ys"
  shows "eq_chars nd1 p1 nd2 p2 (length xs) = Some (map maptolower xs = map maptolower ys)"
  using assms(3,1,2)
proof (induction xs ys arbitrary: p1 p2 rule: list_induct2)
  case (Cons x xs y ys)
  then have d: "rd nd1 p1 = Some x" "drop (Suc p1) nd1 = xs @ r1"
    "rd nd2 p2 = Some y" "drop (Suc p2) nd2 = ys @ r2" by (auto dest: rd_drop)
  show ?case using Cons.IH [OF d(2,4)] d(1,3) by simp
qed simp

lemma label_length_eq:
  "length x \<le> 63 \<Longrightarrow> length y \<le> 63 \<Longrightarrow> (of_nat (length x) :: u8) = of_nat (length y) \<longleftrightarrow> length x = length y"
  by (metis unat_label_length)

lemma equal_loop_repr:
  assumes "drop p1 nd1 = wire ls1 @ r1" and "drop p2 nd2 = wire ls2 @ r2"
    and "labels_ok ls1" and "labels_ok ls2" and "length ls1 = length ls2"
  shows "equal_loop nd1 p1 nd2 p2 (length ls1) = Some (lower ls1 = lower ls2)"
  using assms(5,1-4)
proof (induction ls1 ls2 arbitrary: p1 p2 rule: list_induct2)
  case (Cons x xs y ys)
  then have l: "length x \<le> 63" "length y \<le> 63" "labels_ok xs" "labels_ok ys" by (auto simp: labels_ok_simps)
  note d1 = drop_label [OF Cons.prems(1) l(1)] and d2 = drop_label [OF Cons.prems(2) l(2)]
  show ?case
  proof (cases "length x = length y")
    case True
    then show ?thesis
      using Cons.IH [OF d1(3) d2(3) l(3,4)] eq_chars_repr [OF d1(4) d2(4) True] d1(1) d2(1) l by auto
  next
    case False
    then have "map maptolower x \<noteq> map maptolower y" by (metis length_map)
    then show ?thesis using False d1(1) d2(1) l by (simp add: label_length_eq)
  qed
qed simp

lemma name_repr_drop0:
  "name_repr name ls \<Longrightarrow> drop 0 (n_ndata name) = wire ls @ drop (length (wire ls)) (n_ndata name)"
  using name_repr_bytes by simp

lemma equal_repr:
  assumes "name_repr n1 ls1" and "name_repr n2 ls2" and "ends_root ls1 = ends_root ls2"
  shows "dns_name_equal n1 n2 = Some (lower ls1 = lower ls2)"
proof -
  note d1 = name_reprD [OF assms(1)] and d2 = name_reprD [OF assms(2)]
  have len: "length (wire ls1) = length (wire ls2) \<and> length ls1 = length ls2" if "lower ls1 = lower ls2"
    using that by (metis length_wire_lower lower_simps(3))
  show ?thesis
  proof (cases "length (wire ls1) = length (wire ls2) \<and> length ls1 = length ls2")
    case True
    then show ?thesis
      using equal_loop_repr [OF name_repr_drop0 [OF assms(1)] name_repr_drop0 [OF assms(2)] d1(2) d2(2)]
      by (simp add: dns_name_equal_def d1 d2 assms(3))
  next
    case False
    then show ?thesis using len by (auto simp: dns_name_equal_def d1 d2 assms(3))
  qed
qed

lemma wire_inj:
  assumes "wire xs = wire ys" and "\<forall>l \<in> set xs. length l \<le> 63" and "\<forall>l \<in> set ys. length l \<le> 63"
  shows "xs = ys"
  using assms
proof (induction xs arbitrary: ys)
  case Nil
  then show ?case by (metis wire_empty)
next
  case (Cons x xs)
  then obtain y ys' where ys: "ys = y # ys'" by (cases ys) auto
  have "length x = length y" using Cons.prems ys by (simp add: label_length_eq)
  then show ?case using Cons ys by simp
qed

lemma caseequal_repr:
  assumes "name_repr n1 ls1" and "name_repr n2 ls2" and "ends_root ls1 = ends_root ls2"
  shows "dns_name_caseequal n1 n2 = Some (ls1 = ls2)"
proof -
  note d1 = name_reprD [OF assms(1)] and d2 = name_reprD [OF assms(2)]
  have m: "mem_read (n_ndata n1) 0 (length (wire ls1)) = Some (wire ls1)"
    "mem_read (n_ndata n2) 0 (length (wire ls2)) = Some (wire ls2)"
    using assms(1,2) by (auto simp: name_repr_def)
  have "wire ls1 = wire ls2 \<longleftrightarrow> ls1 = ls2" using wire_inj [of ls1 ls2] d1(2) d2(2) by (auto simp: labels_ok_def)
  then show ?thesis using m by (auto simp: dns_name_caseequal_def d1 d2 assms(3))
qed

subsection \<open>Hash values\<close>

definition hash_bytes :: "bytes \<Rightarrow> u32" where
  "hash_bytes cs = foldl (\<lambda>h c. h + (push_bit 3 h + ucast c)) 0 cs"

lemma hash_loop_eq:
  assumes "p + n \<le> length nd"
  shows "hash_loop cs nd p n h =
    Some (foldl (\<lambda>h c. h + (push_bit 3 h + ucast c)) h
      (map (if cs then id else maptolower) (take n (drop p nd))))"
  using assms
proof (induction n arbitrary: p h)
  case (Suc n)
  then have "drop p nd = nd ! p # drop (Suc p) nd" by (simp add: Cons_nth_drop_Suc)
  then show ?case using Suc by (simp add: rd_def)
qed simp

lemma maptolower_length [simp]: "length l \<le> 63 \<Longrightarrow> maptolower (of_nat (length l)) = of_nat (length l)"
  by (simp add: maptolower_def word_le_nat_alt)

lemma lower_wire: "\<forall>l \<in> set ls. length l \<le> 63 \<Longrightarrow> map maptolower (wire ls) = wire (lower ls)"
  by (induction ls) simp_all

lemma name_hash_repr:
  assumes "name_repr name ls"
  shows "name_hash name cs = Some (hash_bytes (take 16 (wire (if cs then ls else lower ls))))"
proof -
  note d = name_reprD [OF assms]
  have low: "map maptolower (wire ls) = wire (lower ls)"
    using d(2) by (intro lower_wire) (simp add: labels_ok_def)
  obtain rest where nd: "n_ndata name = wire ls @ rest" using name_repr_bytes [OF assms] by blast
  let ?n = "if length (wire ls) > 16 then 16 else length (wire ls)"
  have "take ?n (drop 0 (n_ndata name)) = take 16 (wire ls)" by (simp add: nd)
  moreover have "0 + ?n \<le> length (n_ndata name)" by (simp add: nd)
  ultimately have "name_hash name cs =
      Some (hash_bytes (map (if cs then id else maptolower) (take 16 (wire ls))))"
    by (simp only: name_hash_def d(4) hash_loop_eq hash_bytes_def)
  then show ?thesis by (cases cs) (simp_all add: take_map [symmetric] flip: low)
qed

lemma hash_repr:
  "name_repr name ls \<Longrightarrow> dns_name_hash name cs =
     Some (if ls = [] then 0 else hash_bytes (take 16 (wire (if cs then ls else lower ls))))"
  using name_hash_repr by (simp add: dns_name_hash_def name_reprD)

subsection \<open>Rdata order\<close>

lemma append_less_append:
  "length xs = length ys \<Longrightarrow> xs @ u < ys @ v \<longleftrightarrow> xs < ys \<or> xs = ys \<and> u < v" for xs :: "'a::linorder list"
  by (induction xs ys rule: list_induct2) auto

definition three_way :: "bytes \<Rightarrow> bytes \<Rightarrow> int" where
  "three_way xs ys = (if xs < ys then - 1 else if xs = ys then 0 else 1)"

lemma rdata_chars_repr:
  assumes "drop p1 nd1 = xs @ r1" and "drop p2 nd2 = ys @ r2" and "length xs = length ys"
  shows "rdata_chars nd1 p1 nd2 p2 (length xs) = Some (three_way (map maptolower xs) (map maptolower ys))"
  using assms(3,1,2)
proof (induction xs ys arbitrary: p1 p2 rule: list_induct2)
  case (Cons x xs y ys)
  then have d: "rd nd1 p1 = Some x" "drop (Suc p1) nd1 = xs @ r1"
    "rd nd2 p2 = Some y" "drop (Suc p2) nd2 = ys @ r2" by (auto dest: rd_drop)
  show ?case using Cons.IH [OF d(2,4)] d(1,3) by (auto simp: three_way_def)
qed (simp add: three_way_def)

lemma label_length_less:
  "length x \<le> 63 \<Longrightarrow> length y \<le> 63 \<Longrightarrow> (of_nat (length x) :: u8) < of_nat (length y) \<longleftrightarrow> length x < length y"
  by (simp add: word_less_nat_alt)

lemma rdatacompare_loop_repr:
  assumes "drop p1 nd1 = wire xs @ r1" and "drop p2 nd2 = wire ys @ r2"
    and "labels_ok xs" and "labels_ok ys"
    and "xs = [] \<and> ys = [] \<or> ends_root xs \<and> ends_root ys"
  shows "rdatacompare_loop nd1 p1 nd2 p2 (min (length xs) (length ys)) (length xs = length ys) =
    Some (three_way (wire (lower xs)) (wire (lower ys)))"
  using assms
proof (induction xs arbitrary: ys p1 p2)
  case Nil
  then show ?case by (auto simp: three_way_def)
next
  case (Cons x xs)
  then obtain y ys' where ys: "ys = y # ys'" by (cases ys) auto
  have l: "length x \<le> 63" "length y \<le> 63" "labels_ok xs" "labels_ok ys'"
    using Cons.prems(3,4) ys by (auto simp: labels_ok_simps)
  note d1 = drop_label [OF Cons.prems(1) l(1)] and d2 = drop_label [OF Cons.prems(2) [unfolded ys] l(2)]
  show ?case
  proof (cases "length x = length y")
    case True
    have tails: "xs = [] \<and> ys' = [] \<or> ends_root xs \<and> ends_root ys'"
      using Cons.prems(3-5) True ys by (auto simp: labels_ok_simps split: if_splits)
    have cat: "three_way (map maptolower x @ u) (map maptolower y @ v) =
        (if three_way (map maptolower x) (map maptolower y) \<noteq> 0
         then three_way (map maptolower x) (map maptolower y) else three_way u v)" for u v
      using True append_less_append [of "map maptolower x" "map maptolower y" u v]
      by (auto simp: three_way_def)
    have cons: "three_way (c # u) (c # v) = three_way u v" for c u v by (simp add: three_way_def)
    show ?thesis
      using Cons.IH [OF d1(3) d2(3) l(3,4) tails] rdata_chars_repr [OF d1(4) d2(4) True] d1(1) d2(1) l True ys
      by (auto simp: cons cat)
  next
    case False
    then show ?thesis using d1(1) d2(1) l ys
      by (auto simp: label_length_eq label_length_less three_way_def)
  qed
qed

lemma rdatacompare_repr:
  assumes "name_repr n1 ls1" and "name_repr n2 ls2" and "ends_root ls1" and "ends_root ls2"
  shows "dns_name_rdatacompare n1 n2 = Some (three_way (wire (lower ls1)) (wire (lower ls2)))"
proof -
  note d1 = name_reprD [OF assms(1)] and d2 = name_reprD [OF assms(2)]
  have ne: "ls1 \<noteq> []" "ls2 \<noteq> []" using assms(3,4) by (auto simp: ends_root_def)
  have m: "(if a < b then a else b) = min a b" for a b :: nat by (simp add: min_def)
  show ?thesis
    using rdatacompare_loop_repr [OF name_repr_drop0 [OF assms(1)] name_repr_drop0 [OF assms(2)] d1(2) d2(2)]
      assms(3,4) ne
    by (simp add: dns_name_rdatacompare_def d1 d2 m)
qed

section \<open>Properties\<close>

text \<open>C9: \<open>dns_name_fullcompare\<close> implements the canonical order of names. For any two well-formed
  names that are both absolute or both relative it returns: the order it reports is negative, zero
  or positive exactly when the first name is before, equal to or after the second in the canonical
  order; the number of common labels and the relation (equal, subdomain, contains, common ancestor,
  none) are those of the two label lists, up to letter case.\<close>

theorem name_fullcompare_canonical:
  assumes "name_repr n1 ls1" and "name_repr n2 ls2" and "ends_root ls1 = ends_root ls2"
  shows "\<exists>order. dns_name_fullcompare n1 n2 =
      Some (name_relation ls1 ls2, order, common_labels ls1 ls2) \<and>
    dns_name_compare n1 n2 = Some order \<and>
    (order < 0 \<longleftrightarrow> canonical ls1 < canonical ls2) \<and>
    (order = 0 \<longleftrightarrow> canonical ls1 = canonical ls2) \<and>
    (order > 0 \<longleftrightarrow> canonical ls2 < canonical ls1)"
proof -
  have k: "canonical ls = map (map maptolower) (rev ls)" for ls
    by (simp add: canonical_def lower_def rev_map)
  obtain reln d where r: "ref_compare (rev ls1) (rev ls2) 0 = (reln, d, common_labels ls1 ls2)"
    and d: "d < 0 \<longleftrightarrow> canonical ls1 < canonical ls2" "d = 0 \<longleftrightarrow> canonical ls1 = canonical ls2"
    and reln: "reln = name_relation ls1 ls2"
    using ref_compare_spec [OF k [of ls1] k [of ls2], of 0 thesis]
    by (simp add: common_labels_def name_relation_def)
  moreover have "d > 0 \<longleftrightarrow> canonical ls2 < canonical ls1"
    using d by (metis less_linear order_less_asym)
  ultimately show ?thesis
    using fullcompare_ref [OF assms] by (simp add: dns_name_compare_def)
qed

text \<open>\<open>b.A.\<close> comes before \<open>z.a.\<close>, with which it has two labels in common.\<close>

theorem name_fullcompare_canonical_witness:
  "\<exists>order. dns_name_fullcompare (sample_name [[0x62], [0x41], []]) (sample_name [[0x7a], [0x61], []]) =
     Some (dns_namereln_commonancestor, order, 2) \<and> order < 0"
proof -
  have r: "name_repr (sample_name [[0x62], [0x41], []]) [[0x62], [0x41], []]"
    "name_repr (sample_name [[0x7a], [0x61], []]) [[0x7a], [0x61], []]"
    by (rule sample_name_repr, simp add: labels_ok_simps DNS_NAME_MAXWIRE_def)+
  have "common_labels [[0x62], [0x41], []] [[0x7a], [0x61], []] = 2"
    "name_relation [[0x62], [0x41], []] [[0x7a], [0x61], []] = dns_namereln_commonancestor"
    "canonical [[0x62], [0x41], []] < canonical [[0x7a], [0x61], []]"
    by (simp_all add: name_relation_def common_labels_def canonical_def maptolower_def)
  then show ?thesis using name_fullcompare_canonical [OF r] by auto
qed

text \<open>C35: \<open>dns_name_equal\<close> holds exactly for names that are equal up to letter case, the names for
  which \<open>dns_name_fullcompare\<close> reports equality, and such names have the same case-insensitive
  hash value; \<open>dns_name_caseequal\<close> holds exactly for names with the same bytes, which have the same
  hash value of either kind.\<close>

theorem name_equality_and_hash:
  assumes "name_repr n1 ls1" and "name_repr n2 ls2" and "ends_root ls1 = ends_root ls2"
  shows "dns_name_equal n1 n2 = Some (canonical ls1 = canonical ls2) \<and>
    (dns_name_equal n1 n2 = Some True \<longleftrightarrow> dns_name_compare n1 n2 = Some 0) \<and>
    (dns_name_equal n1 n2 = Some True \<longrightarrow>
      dns_name_hash n1 False = dns_name_hash n2 False \<and> dns_name_hash n1 False \<noteq> None) \<and>
    dns_name_caseequal n1 n2 = Some (ls1 = ls2) \<and>
    (dns_name_caseequal n1 n2 = Some True \<longrightarrow>
      dns_name_hash n1 cs = dns_name_hash n2 cs \<and> dns_name_hash n1 cs \<noteq> None)"
proof -
  have can: "canonical ls1 = canonical ls2 \<longleftrightarrow> lower ls1 = lower ls2" by (simp add: canonical_def)
  have eq: "dns_name_equal n1 n2 = Some (canonical ls1 = canonical ls2)"
    using equal_repr [OF assms] can by simp
  have k: "map (map maptolower) (rev ls) = canonical ls" for ls
    by (simp add: canonical_def lower_def rev_map)
  have "dns_name_equal n1 n2 = Some True \<longleftrightarrow> dns_name_compare n1 n2 = Some 0"
    using ref_compare_spec [OF refl refl, of "rev ls1" "rev ls2" 0 ?thesis] fullcompare_ref [OF assms] eq
    by (auto simp: dns_name_compare_def k)
  moreover have "dns_name_equal n1 n2 = Some True \<longrightarrow>
      dns_name_hash n1 False = dns_name_hash n2 False \<and> dns_name_hash n1 False \<noteq> None"
    using equal_repr [OF assms] hash_repr [OF assms(1), of False] hash_repr [OF assms(2), of False]
    by (auto dest: arg_cong [of _ _ length])
  moreover have "dns_name_caseequal n1 n2 = Some True \<longrightarrow>
      dns_name_hash n1 cs = dns_name_hash n2 cs \<and> dns_name_hash n1 cs \<noteq> None"
    using caseequal_repr [OF assms] hash_repr [OF assms(1), of cs] hash_repr [OF assms(2), of cs]
    by simp
  ultimately show ?thesis using eq caseequal_repr [OF assms] by blast
qed

theorem name_equality_and_hash_witness:
  "dns_name_equal (sample_name [[0x41], []]) (sample_name [[0x61], []]) = Some True \<and>
   dns_name_caseequal (sample_name [[0x41], []]) (sample_name [[0x61], []]) = Some False \<and>
   dns_name_hash (sample_name [[0x41], []]) False = dns_name_hash (sample_name [[0x61], []]) False \<and>
   dns_name_caseequal (sample_name [[0x41], []]) (sample_name [[0x41], []]) = Some True"
proof -
  have r: "name_repr (sample_name [[0x41], []]) [[0x41], []]" "name_repr (sample_name [[0x61], []]) [[0x61], []]"
    by (rule sample_name_repr, simp add: labels_ok_simps DNS_NAME_MAXWIRE_def)+
  have "canonical [[0x41], []] = canonical [[0x61], []]" by (simp add: canonical_def maptolower_def)
  then show ?thesis
    using name_equality_and_hash [OF r] name_equality_and_hash [OF r(1) r(1)] by simp
qed

lemma name_relation_prefix:
  "name_relation xs ys = dns_namereln_subdomain \<longleftrightarrow> strict_prefix (canonical ys) (canonical xs)"
  "name_relation xs ys = dns_namereln_subdomain \<or> name_relation xs ys = dns_namereln_equal \<longleftrightarrow>
     prefix (canonical ys) (canonical xs)"
  by (auto simp: name_relation_def strict_prefix_def)

lemma fullcompare_relation:
  assumes "name_repr n1 ls1" and "name_repr n2 ls2" and "ends_root ls1 = ends_root ls2"
  obtains d k where "dns_name_fullcompare n1 n2 = Some (name_relation ls1 ls2, d, k)"
proof -
  have k: "canonical ls = map (map maptolower) (rev ls)" for ls
    by (simp add: canonical_def lower_def rev_map)
  obtain d where "ref_compare (rev ls1) (rev ls2) 0 = (name_relation ls1 ls2, d, common_labels ls1 ls2)"
    using ref_compare_spec [OF k [of ls1] k [of ls2], of 0 thesis]
    by (simp add: common_labels_def name_relation_def)
  then show ?thesis using that fullcompare_ref [OF assms] by simp
qed

text \<open>A name is a subdomain of another exactly when its labels end with those of the other, up
  to letter case; a name matches a wildcard \<open>*.suffix\<close> exactly when it lies strictly below the
  suffix; and two absolute names are ordered as rdata by the bytes of their wire forms in lower
  case. None of these calls aborts on well-formed names.\<close>

theorem name_domain_relations:
  assumes "name_repr n1 ls1" and "name_repr n2 ls2" and "name_repr w ([0x2a] # ws)"
    and "ends_root ls1 = ends_root ls2" and "ends_root ls1 = ends_root ws" and "ls1 \<noteq> []"
  shows "dns_name_issubdomain n1 n2 = Some (prefix (canonical ls2) (canonical ls1)) \<and>
    dns_name_matcheswildcard n1 w = Some (strict_prefix (canonical ws) (canonical ls1)) \<and>
    (ends_root ls1 \<longrightarrow>
      dns_name_rdatacompare n1 n2 = Some (three_way (wire (lower ls1)) (wire (lower ls2))))"
proof -
  obtain d k where "dns_name_fullcompare n1 n2 = Some (name_relation ls1 ls2, d, k)"
    by (rule fullcompare_relation [OF assms(1,2,4)])
  then have sub: "dns_name_issubdomain n1 n2 = Some (prefix (canonical ls2) (canonical ls1))"
    by (simp add: dns_name_issubdomain_def name_relation_prefix(2))
  obtain t where t: "dns_name_getlabelsequence w 1 (length ws) (DNS_NAME_INIT None) False = Some t"
    "name_repr t (take (length ws) (drop 1 ([0x2a] # ws)))"
    by (rule getlabelsequence_repr [OF assms(3) _ init_name(1,2), of 1 "length ws" None]) auto
  then have rep: "name_repr t ws" by simp
  obtain d k where "dns_name_fullcompare n1 t = Some (name_relation ls1 ws, d, k)"
    by (rule fullcompare_relation [OF assms(1) rep assms(5)])
  then have "dns_name_matcheswildcard n1 w = Some (strict_prefix (canonical ws) (canonical ls1))"
    using name_reprD [OF assms(1)] name_reprD [OF assms(3)] iswildcard_repr [OF assms(3)] t(1) assms(6)
    by (simp add: dns_name_matcheswildcard_def name_relation_prefix(1))
  then show ?thesis using sub rdatacompare_repr [OF assms(1,2)] assms(4) by simp
qed

theorem name_domain_relations_witness:
  "dns_name_issubdomain (sample_name [[0x62], [0x41], []]) (sample_name [[0x61], []]) = Some True \<and>
   dns_name_matcheswildcard (sample_name [[0x62], [0x41], []]) (sample_name [[0x2a], [0x61], []]) = Some True \<and>
   dns_name_rdatacompare (sample_name [[0x62], [0x41], []]) (sample_name [[0x61], []]) = Some 1"
proof -
  have r: "name_repr (sample_name [[0x62], [0x41], []]) [[0x62], [0x41], []]"
    "name_repr (sample_name [[0x61], []]) [[0x61], []]"
    "name_repr (sample_name [[0x2a], [0x61], []]) ([0x2a] # [[0x61], []])"
    by (rule sample_name_repr, simp add: labels_ok_simps DNS_NAME_MAXWIRE_def)+
  have "prefix (canonical [[0x61], []]) (canonical [[0x62], [0x41], []])"
    "strict_prefix (canonical [[0x61], []]) (canonical [[0x62], [0x41], []])"
    "three_way (wire (lower [[0x62], [0x41], []])) (wire (lower [[0x61], []])) = 1"
    by (simp_all add: canonical_def maptolower_def three_way_def strict_prefix_def)
  then show ?thesis using name_domain_relations [OF r] by simp
qed

end
