(* ===== verification/Dns_Name_Wire.thy ===== *)
theory Dns_Name_Wire
  imports Dns_Name
begin

text \<open>
  Reading names from messages: the decompression contexts of \<open>lib/dns/compress.c\<close> and
  \<open>dns_name_fromwire\<close> of \<open>lib/dns/name.c\<close>. The code is a state machine that consumes one byte at a
  time and follows compression pointers; it is compared with a reference decoder that works label
  by label, and with the relation \<open>name_at\<close> between positions of a message and names.
\<close>

section \<open>Decompression contexts\<close>

definition DNS_COMPRESS_NONE :: u32 where "DNS_COMPRESS_NONE = 0x00"
definition DNS_COMPRESS_GLOBAL14 :: u32 where "DNS_COMPRESS_GLOBAL14 = 0x01"
definition DNS_COMPRESS_ALL :: u32 where "DNS_COMPRESS_ALL = 0x01"
definition DNS_COMPRESS_CASESENSITIVE :: u32 where "DNS_COMPRESS_CASESENSITIVE = 0x02"

datatype dns_decompresstype = DNS_DECOMPRESS_ANY | DNS_DECOMPRESS_STRICT | DNS_DECOMPRESS_NONE

record dns_decompress =
  dctx_magic :: u32
  dctx_allowed :: u32
  dctx_edns :: int
  dctx_type :: dns_decompresstype

definition DCTX_MAGIC :: u32 where
  "DCTX_MAGIC = 0x44435458"

definition VALID_DCTX :: "dns_decompress \<Rightarrow> bool" where
  "VALID_DCTX dctx = (dctx_magic dctx = DCTX_MAGIC)"

definition dns_decompress_init :: "int \<Rightarrow> dns_decompresstype \<Rightarrow> dns_decompress option" where
  "dns_decompress_init edns type = do {
     REQUIRE (edns \<ge> - 1 \<and> edns \<le> 255);
     Some \<lparr>dctx_magic = DCTX_MAGIC, dctx_allowed = DNS_COMPRESS_NONE, dctx_edns = edns,
           dctx_type = type\<rparr> }"

definition dns_decompress_invalidate :: "dns_decompress \<Rightarrow> dns_decompress option" where
  "dns_decompress_invalidate dctx = do {
     REQUIRE (VALID_DCTX dctx);
     Some (dctx\<lparr>dctx_magic := 0\<rparr>) }"

definition dns_decompress_setmethods :: "dns_decompress \<Rightarrow> u32 \<Rightarrow> dns_decompress option" where
  "dns_decompress_setmethods dctx allowed = do {
     REQUIRE (VALID_DCTX dctx);
     Some (dctx\<lparr>dctx_allowed :=
       (case dctx_type dctx of
          DNS_DECOMPRESS_ANY \<Rightarrow> DNS_COMPRESS_ALL
        | DNS_DECOMPRESS_NONE \<Rightarrow> DNS_COMPRESS_NONE
        | DNS_DECOMPRESS_STRICT \<Rightarrow> allowed)\<rparr>) }"

definition dns_decompress_getmethods :: "dns_decompress \<Rightarrow> u32 option" where
  "dns_decompress_getmethods dctx = do { REQUIRE (VALID_DCTX dctx); Some (dctx_allowed dctx) }"

definition dns_decompress_edns :: "dns_decompress \<Rightarrow> int option" where
  "dns_decompress_edns dctx = do { REQUIRE (VALID_DCTX dctx); Some (dctx_edns dctx) }"

definition dns_decompress_type :: "dns_decompress \<Rightarrow> dns_decompresstype option" where
  "dns_decompress_type dctx = do { REQUIRE (VALID_DCTX dctx); Some (dctx_type dctx) }"

section \<open>The state machine\<close>

datatype fw_state = fw_start | fw_ordinary | fw_copy | fw_newcurrent

text \<open>The variables of \<open>dns_name_fromwire\<close>. \<open>cdata\<close> always is the base of the source plus
  \<open>current\<close>; \<open>labels\<close> is the length of the table written so far; \<open>v_ndata\<close> is the position in the
  memory of the target.\<close>

record fw_vars =
  v_state :: fw_state
  v_current :: nat
  v_cused :: nat
  v_nused :: nat
  v_offsets :: "u8 list"
  v_n :: nat
  v_new_current :: nat
  v_biggest_pointer :: nat
  v_done :: bool
  v_seen_pointer :: bool
  v_ndata :: nat
  v_mem :: bytes

definition put_byte :: "fw_vars \<Rightarrow> u8 \<Rightarrow> fw_vars option" where
  "put_byte v c = do {
     m \<leftarrow> mem_write (v_mem v) (v_ndata v) [c];
     Some (v\<lparr>v_mem := m, v_ndata := v_ndata v + 1\<rparr>) }"

text \<open>The body of the loop after the byte \<open>c\<close> was taken. A first component \<open>Some r\<close> is a return
  from the function with result \<open>r\<close>. \<open>n--\<close> is never executed with \<open>n = 0\<close>; that wrap is \<open>None\<close>.
  The offset table has 128 entries.\<close>

definition fw_step ::
    "bool \<Rightarrow> bool \<Rightarrow> nat \<Rightarrow> u8 \<Rightarrow> fw_vars \<Rightarrow> (isc_result option \<times> fw_vars) option" where
  "fw_step downcase global14 nmax c v =
     (case v_state v of
        fw_start \<Rightarrow>
          if c < 64 then do {
            REQUIRE (length (v_offsets v) < 128);
            let v = v\<lparr>v_offsets := v_offsets v @ [of_nat (v_nused v)]\<rparr> in
            if v_nused v + unat c + 1 > nmax
            then Some (Some (if nmax = DNS_NAME_MAXWIRE then DNS_R_NAMETOOLONG else ISC_R_NOSPACE), v)
            else do {
              v \<leftarrow> put_byte (v\<lparr>v_nused := v_nused v + unat c + 1\<rparr>) c;
              Some (None, v\<lparr>v_done := (if c = 0 then True else v_done v), v_n := unat c,
                            v_state := fw_ordinary\<rparr>) } }
          else if c \<ge> 128 \<and> c < 192 then Some (Some DNS_R_BADLABELTYPE, v)
          else if c \<ge> 192 then
            if \<not> global14 then Some (Some DNS_R_DISALLOWED, v)
            else Some (None, v\<lparr>v_new_current := unat (c AND 0x3F), v_n := 1,
                               v_state := fw_newcurrent\<rparr>)
          else Some (Some DNS_R_BADLABELTYPE, v)
      | fw_newcurrent \<Rightarrow> do {
          let v = v\<lparr>v_new_current := v_new_current v * 256 + unat c\<rparr> in do {
          REQUIRE (v_n v > 0);
          let v = v\<lparr>v_n := v_n v - 1\<rparr> in
          if v_n v \<noteq> 0 then Some (None, v)
          else if v_new_current v \<ge> v_biggest_pointer v then Some (Some DNS_R_BADPOINTER, v)
          else Some (None, v\<lparr>v_biggest_pointer := v_new_current v, v_current := v_new_current v,
                 v_seen_pointer := True, v_state := fw_start\<rparr>) } }
      | s \<Rightarrow> do {
          v \<leftarrow> put_byte v (if s = fw_ordinary \<and> downcase then maptolower c else c);
          REQUIRE (v_n v > 0);
          let v = v\<lparr>v_n := v_n v - 1\<rparr> in
          Some (None, if v_n v = 0 then v\<lparr>v_state := fw_start\<rparr> else v) })"

definition fw_take :: "fw_vars \<Rightarrow> fw_vars" where
  "fw_take v = v\<lparr>v_current := v_current v + 1,
     v_cused := (if v_seen_pointer v then v_cused v else v_cused v + 1)\<rparr>"

lemma fw_step_pointer:
  assumes "fw_step downcase global14 nmax c v = Some (None, v')"
  shows "v_biggest_pointer v' < v_biggest_pointer v \<or>
    v_biggest_pointer v' = v_biggest_pointer v \<and> v_current v' = v_current v"
  using assms unfolding fw_step_def
  by (auto simp: Let_def put_byte_def bind_eq_Some_conv run_simps split: fw_state.splits if_splits)

function fw_loop ::
    "bytes \<Rightarrow> nat \<Rightarrow> bool \<Rightarrow> bool \<Rightarrow> nat \<Rightarrow> fw_vars \<Rightarrow> (isc_result option \<times> fw_vars) option" where
  "fw_loop base active downcase global14 nmax v =
     (if v_current v < active \<and> \<not> v_done v then do {
        c \<leftarrow> rd base (v_current v);
        (r, v) \<leftarrow> fw_step downcase global14 nmax c (fw_take v);
        case r of
          Some e \<Rightarrow> Some (Some e, v)
        | None \<Rightarrow> fw_loop base active downcase global14 nmax v }
      else Some (None, v))"
  by pat_completeness auto
termination
proof (relation "measures [\<lambda>(base, active, d, g, nmax, v). v_biggest_pointer v,
    \<lambda>(base, active, d, g, nmax, v). active - v_current v]", goal_cases)
  case 1
  then show ?case by simp
next
  case (2 base active downcase global14 nmax v c p r v')
  then have "fw_step downcase global14 nmax c (fw_take v) = Some (None, v')" by simp
  from fw_step_pointer [OF this] 2 show ?case by (auto simp: fw_take_def)
qed

declare fw_loop.simps [simp del]

definition DNS_NAME_DOWNCASE :: u32 where
  "DNS_NAME_DOWNCASE = 0x0001"

definition dns_name_fromwire ::
    "dns_name \<Rightarrow> isc_buffer \<Rightarrow> dns_decompress \<Rightarrow> u32 \<Rightarrow> isc_buffer option \<Rightarrow>
     ((isc_result \<times> dns_name \<times> isc_buffer option) \<times> isc_buffer) option" where
  "dns_name_fromwire name source dctx options target = do {
     REQUIRE (VALID_NAME name);
     b \<leftarrow> open_target name target;
     REQUIRE (BINDABLE name);
     let name = MAKE_EMPTY name;
         nmax = min (unat (isc_buffer_availablelength b)) DNS_NAME_MAXWIRE in do {
     (r, v) \<leftarrow> fw_loop (b_base source) (unat (b_active source)) (options AND DNS_NAME_DOWNCASE \<noteq> 0)
        (dctx_allowed dctx AND DNS_COMPRESS_GLOBAL14 \<noteq> 0) nmax
        \<lparr>v_state = fw_start, v_current = unat (b_current source), v_cused = 0, v_nused = 0,
         v_offsets = [], v_n = 0, v_new_current = 0, v_biggest_pointer = unat (b_current source),
         v_done = False, v_seen_pointer = False, v_ndata = unat (b_used b), v_mem = b_base b\<rparr>;
     let name = name\<lparr>n_offsets := map_option (\<lambda>_. v_offsets v) (n_offsets name)\<rparr>;
         b = b\<lparr>b_base := v_mem v\<rparr> in
     case r of
       Some e \<Rightarrow> Some (close_target e name target b, source)
     | None \<Rightarrow>
         if \<not> v_done v then Some (close_target ISC_R_UNEXPECTEDEND name target b, source)
         else do {
           source \<leftarrow> isc__buffer_forward source (of_nat (v_cused v));
           let name = name\<lparr>n_ndata := drop (unat (b_used b)) (b_base b),
                 n_labels := length (v_offsets v), n_length := v_nused v,
                 n_attributes := n_attributes name OR DNS_NAMEATTR_ABSOLUTE\<rparr> in do {
             b \<leftarrow> isc__buffer_add b (of_nat (n_length name));
             Some (close_target ISC_R_SUCCESS name target b, source) } } } }"

section \<open>The reference decoder\<close>

text \<open>\<open>decode_name ptr nmax msg lim p used\<close> reads the name at position \<open>p\<close> of \<open>msg\<close>, where \<open>used\<close>
  bytes of its wire form have been read already and pointers must point before \<open>lim\<close>. It returns
  the labels and the position after the part of the name that starts at \<open>p\<close>.\<close>

function decode_name ::
    "bool \<Rightarrow> nat \<Rightarrow> bytes \<Rightarrow> nat \<Rightarrow> nat \<Rightarrow> nat \<Rightarrow> isc_result + (bytes list \<times> nat)" where
  "decode_name ptr nmax msg lim p used =
     (if p \<ge> length msg then Inl ISC_R_UNEXPECTEDEND
      else if msg ! p < 64 then
        if used + unat (msg ! p) + 1 > nmax
        then Inl (if nmax = DNS_NAME_MAXWIRE then DNS_R_NAMETOOLONG else ISC_R_NOSPACE)
        else if msg ! p = 0 then Inr ([[]], p + 1)
        else if p + 1 + unat (msg ! p) > length msg then Inl ISC_R_UNEXPECTEDEND
        else (case decode_name ptr nmax msg lim (p + 1 + unat (msg ! p)) (used + unat (msg ! p) + 1) of
                Inl e \<Rightarrow> Inl e
              | Inr (ls, q) \<Rightarrow> Inr (take (unat (msg ! p)) (drop (p + 1) msg) # ls, q))
      else if msg ! p < 192 then Inl DNS_R_BADLABELTYPE
      else if \<not> ptr then Inl DNS_R_DISALLOWED
      else if p + 1 \<ge> length msg then Inl ISC_R_UNEXPECTEDEND
      else if unat (msg ! p AND 0x3F) * 256 + unat (msg ! (p + 1)) \<ge> lim then Inl DNS_R_BADPOINTER
      else (case decode_name ptr nmax msg (unat (msg ! p AND 0x3F) * 256 + unat (msg ! (p + 1)))
                   (unat (msg ! p AND 0x3F) * 256 + unat (msg ! (p + 1))) used of
              Inl e \<Rightarrow> Inl e
            | Inr (ls, q) \<Rightarrow> Inr (ls, p + 2)))"
  by pat_completeness auto
termination
  by (relation "measures [\<lambda>(ptr, nmax, msg, lim, p, used). lim, \<lambda>(ptr, nmax, msg, lim, p, used). length msg - p]")
    auto

declare decode_name.simps [simp del]

section \<open>The state machine follows the reference\<close>

lemma mem_write_Cons:
  "mem_write m q (c # cs) = Option.bind (mem_write m q [c]) (\<lambda>m. mem_write m (Suc q) cs)"
  by (auto simp: mem_write_def min_def add.commute)

text \<open>A run that stops: what the target held below \<open>t\<close> is kept.\<close>

definition stopped :: "(isc_result option \<times> fw_vars) option \<Rightarrow> nat \<Rightarrow> bytes \<Rightarrow> isc_result \<Rightarrow> bool" where
  "stopped r t m e \<longleftrightarrow> (\<exists>v. r = Some (if e = ISC_R_UNEXPECTEDEND then None else Some e, v) \<and>
     (e = ISC_R_UNEXPECTEDEND \<longrightarrow> \<not> v_done v) \<and> length (v_mem v) = length m \<and> take t (v_mem v) = take t m)"

lemma stopped_mem:
  assumes "stopped r t m' e" and "length m' = length m" and "take t m' = take t m"
  shows "stopped r t m e"
  using assms by (auto simp: stopped_def)

lemma fw_loop_more:
  assumes "v_current v < active" and "\<not> v_done v" and "active \<le> length base"
    and "fw_step dc g nmax (base ! v_current v) (fw_take v) = Some (None, v')"
  shows "fw_loop base active dc g nmax v = fw_loop base active dc g nmax v'"
  using assms by (subst fw_loop.simps) (simp add: rd_def)

lemma fw_loop_return:
  assumes "v_current v < active" and "\<not> v_done v" and "active \<le> length base"
    and "fw_step dc g nmax (base ! v_current v) (fw_take v) = Some (Some e, v')"
  shows "fw_loop base active dc g nmax v = Some (Some e, v')"
  using assms by (subst fw_loop.simps) (simp add: rd_def)

lemma fw_loop_end:
  "\<not> v_current v < active \<or> v_done v \<Longrightarrow> fw_loop base active dc g nmax v = Some (None, v)"
  by (subst fw_loop.simps) auto

lemma fw_loop_ordinary:
  assumes "v_state v = fw_ordinary" and "v_n v = Suc k" and "\<not> v_done v" and "active \<le> length base"
    and "v_ndata v < length (v_mem v)" and "v_current v < active"
  obtains m where "mem_write (v_mem v) (v_ndata v) [(if dc then maptolower else id) (base ! v_current v)] = Some m"
    and "fw_loop base active dc g nmax v = fw_loop base active dc g nmax
      (v\<lparr>v_state := (if k = 0 then fw_start else fw_ordinary), v_current := v_current v + 1, v_n := k,
         v_cused := (if v_seen_pointer v then v_cused v else v_cused v + 1),
         v_ndata := v_ndata v + 1, v_mem := m\<rparr>)"
proof -
  obtain m where m: "mem_write (v_mem v) (v_ndata v) [(if dc then maptolower else id) (base ! v_current v)] = Some m"
    using assms(5) by (simp add: mem_write_def)
  have m': "mem_write (v_mem v) (v_ndata v) [if dc then maptolower (base ! v_current v) else base ! v_current v] = Some m"
    using m by (cases dc) simp_all
  have "fw_step dc g nmax (base ! v_current v) (fw_take v) = Some (None,
      v\<lparr>v_state := (if k = 0 then fw_start else fw_ordinary), v_current := v_current v + 1, v_n := k,
         v_cused := (if v_seen_pointer v then v_cused v else v_cused v + 1),
         v_ndata := v_ndata v + 1, v_mem := m\<rparr>)"
    using assms(1,2) m' by (simp add: fw_step_def fw_take_def put_byte_def Let_def)
  from fw_loop_more [OF assms(6,3,4) this] m show ?thesis using that by blast
qed

lemma fw_loop_copy:
  assumes "v_state v = fw_ordinary" and "v_n v = Suc k" and "\<not> v_done v" and "active \<le> length base"
    and "v_ndata v + Suc k \<le> length (v_mem v)"
  shows "if v_current v + Suc k \<le> active
    then \<exists>m. mem_write (v_mem v) (v_ndata v)
        (map (if dc then maptolower else id) (take (Suc k) (drop (v_current v) base))) = Some m \<and>
      fw_loop base active dc g nmax v = fw_loop base active dc g nmax
        (v\<lparr>v_state := fw_start, v_current := v_current v + Suc k, v_n := 0,
          v_cused := (if v_seen_pointer v then v_cused v else v_cused v + Suc k),
          v_ndata := v_ndata v + Suc k, v_mem := m\<rparr>)
    else stopped (fw_loop base active dc g nmax v) (v_ndata v) (v_mem v) ISC_R_UNEXPECTEDEND"
  using assms
proof (induction k arbitrary: v)
  case 0
  show ?case
  proof (cases "v_current v < active")
    case True
    then have dr: "take 1 (drop (v_current v) base) = [base ! v_current v]"
      using 0 by (simp add: Cons_nth_drop_Suc [symmetric])
    obtain m where "mem_write (v_mem v) (v_ndata v) [(if dc then maptolower else id) (base ! v_current v)] = Some m"
      "fw_loop base active dc g nmax v = fw_loop base active dc g nmax
      (v\<lparr>v_state := (if 0 = (0::nat) then fw_start else fw_ordinary), v_current := v_current v + 1, v_n := 0,
         v_cused := (if v_seen_pointer v then v_cused v else v_cused v + 1),
         v_ndata := v_ndata v + 1, v_mem := m\<rparr>)"
      by (rule fw_loop_ordinary [OF 0(1-4) _ True]) (use 0 in auto)
    then show ?thesis using dr True by simp
  next
    case False
    then show ?thesis using 0 fw_loop_end [of v active] by (auto simp: stopped_def)
  qed
next
  case (Suc k)
  show ?case
  proof (cases "v_current v < active")
    case True
    then have dr: "drop (v_current v) base = base ! v_current v # drop (Suc (v_current v)) base"
      using Suc by (simp add: Cons_nth_drop_Suc)
    obtain m where m: "mem_write (v_mem v) (v_ndata v) [(if dc then maptolower else id) (base ! v_current v)] = Some m"
      and step: "fw_loop base active dc g nmax v = fw_loop base active dc g nmax
      (v\<lparr>v_state := (if Suc k = 0 then fw_start else fw_ordinary), v_current := v_current v + 1, v_n := Suc k,
         v_cused := (if v_seen_pointer v then v_cused v else v_cused v + 1),
         v_ndata := v_ndata v + 1, v_mem := m\<rparr>)" (is "_ = fw_loop _ _ _ _ _ ?v")
      by (rule fw_loop_ordinary [OF Suc.prems(1-4) _ True]) (use Suc.prems in auto)
    have lm: "length m = length (v_mem v)" "take (v_ndata v) m = take (v_ndata v) (v_mem v)"
      using length_mem_write [OF m] take_mem_write [OF m] by auto
    note IH = Suc.IH [of ?v]
    show ?thesis
    proof (cases "v_current v + Suc (Suc k) \<le> active")
      case True
      then obtain m2 where m2: "mem_write m (Suc (v_ndata v))
          (map (if dc then maptolower else id) (take (Suc k) (drop (Suc (v_current v)) base))) = Some m2"
        and l2: "fw_loop base active dc g nmax ?v = fw_loop base active dc g nmax
        (?v\<lparr>v_state := fw_start, v_current := v_current ?v + Suc k, v_n := 0,
          v_cused := (if v_seen_pointer ?v then v_cused ?v else v_cused ?v + Suc k),
          v_ndata := v_ndata ?v + Suc k, v_mem := m2\<rparr>)"
        using IH Suc.prems lm by auto
      have "mem_write (v_mem v) (v_ndata v)
          (map (if dc then maptolower else id) (take (Suc (Suc k)) (drop (v_current v) base))) = Some m2"
        using m2 m unfolding dr by (subst take_Suc_Cons, subst list.map, subst mem_write_Cons) simp
      then show ?thesis using True step l2 by simp
    next
      case False
      then have "stopped (fw_loop base active dc g nmax v) (Suc (v_ndata v)) m ISC_R_UNEXPECTEDEND"
        using IH step Suc.prems lm by auto
      then have "stopped (fw_loop base active dc g nmax v) (v_ndata v) m ISC_R_UNEXPECTEDEND"
        unfolding stopped_def by (metis min.absorb1 le_SucI order_refl take_take)
      then show ?thesis using False stopped_mem lm by auto
    qed
  next
    case False
    then show ?thesis using Suc.prems fw_loop_end [of v active] by (auto simp: stopped_def)
  qed
qed

lemma mem_write_append:
  "mem_write m t (xs @ ys) = Option.bind (mem_write m t xs) (\<lambda>m. mem_write m (t + length xs) ys)"
proof (cases "t + length xs \<le> length m")
  case True
  then show ?thesis by (simp add: mem_write_def ac_simps)
next
  case False
  then show ?thesis by (simp add: mem_write_def)
qed

text \<open>The variables at the start of a label, after the labels \<open>xs\<close> were written at \<open>t\<close>.\<close>

definition at_label :: "bytes list \<Rightarrow> nat \<Rightarrow> nat \<Rightarrow> nat \<Rightarrow> bytes \<Rightarrow> nat \<Rightarrow> bool \<Rightarrow> fw_vars \<Rightarrow> bool" where
  "at_label xs p lim t m cu seen v \<longleftrightarrow>
     v_state v = fw_start \<and> v_current v = p \<and> v_cused v = cu \<and> v_nused v = length (wire xs) \<and>
     v_offsets v = offsets_of xs \<and> v_biggest_pointer v = lim \<and> \<not> v_done v \<and>
     v_seen_pointer v = seen \<and> v_ndata v = t + length (wire xs) \<and>
     mem_write m t (wire xs) = Some (v_mem v) \<and> (\<forall>l \<in> set xs. l \<noteq> [])"

lemma nonempty_labels: "\<forall>l \<in> set xs. l \<noteq> [] \<Longrightarrow> 2 * length xs \<le> length (wire xs)"
proof (induction xs)
  case (Cons x xs)
  then show ?case by (cases x) auto
qed simp

lemma at_label_mem:
  assumes "at_label xs p lim t m cu seen v"
  shows "length (v_mem v) = length m" and "take t (v_mem v) = take t m"
  using assms unfolding at_label_def by (metis length_mem_write, metis take_mem_write order_refl)

lemma fw_start_label:
  assumes v: "at_label xs p lim t m cu seen v" and act: "p < active" "active \<le> length base"
    and max: "nmax \<le> 255" "t + nmax \<le> length m" and c: "base ! p < 64"
    and fit: "length (wire xs) + unat (base ! p) + 1 \<le> nmax"
  obtains m' v' where "mem_write m t (wire xs @ [base ! p]) = Some m'"
    and "v' = v\<lparr>v_state := fw_ordinary, v_current := p + 1, v_cused := (if seen then cu else cu + 1),
        v_nused := length (wire xs) + unat (base ! p) + 1,
        v_offsets := offsets_of xs @ [of_nat (length (wire xs))], v_n := unat (base ! p),
        v_done := (base ! p = 0), v_ndata := t + length (wire xs) + 1, v_mem := m'\<rparr>"
    and "fw_loop base active dc g nmax v = fw_loop base active dc g nmax v'"
proof -
  note d = v [unfolded at_label_def]
  have lt: "length xs < 128" using nonempty_labels [of xs] d fit max(1) by auto
  have "t + length (wire xs) < length (v_mem v)" using fit max(2) at_label_mem(1) [OF v] by simp
  then obtain m' where m': "mem_write (v_mem v) (t + length (wire xs)) [base ! p] = Some m'"
    by (simp add: mem_write_def)
  let ?v = "v\<lparr>v_state := fw_ordinary, v_current := p + 1, v_cused := (if seen then cu else cu + 1),
        v_nused := length (wire xs) + unat (base ! p) + 1,
        v_offsets := offsets_of xs @ [of_nat (length (wire xs))], v_n := unat (base ! p),
        v_done := (base ! p = 0), v_ndata := t + length (wire xs) + 1, v_mem := m'\<rparr>"
  have "fw_step dc g nmax (base ! v_current v) (fw_take v) = Some (None, ?v)"
    using d lt c fit m' by (simp add: fw_step_def fw_take_def put_byte_def Let_def)
  then have "fw_loop base active dc g nmax v = fw_loop base active dc g nmax ?v"
    by (intro fw_loop_more) (use d act in auto)
  moreover have "mem_write m t (wire xs @ [base ! p]) = Some m'"
    using d m' by (simp add: mem_write_append)
  ultimately show ?thesis using that by blast
qed

definition as_read :: "bool \<Rightarrow> bytes list \<Rightarrow> bytes list" where
  "as_read dc ls = (if dc then lower ls else ls)"

lemma as_read_simps [simp]:
  "as_read dc [] = []" "as_read dc (l # ls) = map (if dc then maptolower else id) l # as_read dc ls"
  "length (as_read dc ls) = length ls" "length (wire (as_read dc ls)) = length (wire ls)"
  by (simp_all add: as_read_def)

definition finished :: "(isc_result option \<times> fw_vars) option \<Rightarrow> bytes list \<Rightarrow> nat \<Rightarrow> bytes \<Rightarrow> nat \<Rightarrow> bool" where
  "finished r ys t m cu \<longleftrightarrow> (\<exists>v. r = Some (None, v) \<and> v_done v \<and> v_nused v = length (wire ys) \<and>
     v_offsets v = offsets_of ys \<and> v_cused v = cu \<and> mem_write m t (wire ys) = Some (v_mem v))"

text \<open>What the loop has to do at a label, given the answer of the reference.\<close>

definition follows ::
    "(isc_result option \<times> fw_vars) option \<Rightarrow> isc_result + (bytes list \<times> nat) \<Rightarrow> nat \<Rightarrow> bool \<Rightarrow>
     bytes list \<Rightarrow> nat \<Rightarrow> nat \<Rightarrow> bytes \<Rightarrow> nat \<Rightarrow> bool \<Rightarrow> bool" where
  "follows r d active dc xs p t m cu seen \<longleftrightarrow>
     (case d of
        Inl e \<Rightarrow> stopped r t m e
      | Inr (ls, q) \<Rightarrow> p < q \<and> q \<le> active \<and>
          finished r (xs @ as_read dc ls) t m (if seen then cu else cu + (q - p)))"

lemma follows_stop:
  assumes v: "at_label xs p lim t m cu seen v" and "r = Some (Some e, v')" and "v_mem v' = v_mem v"
    and "e \<noteq> ISC_R_UNEXPECTEDEND"
  shows "follows r (Inl e) active dc xs p t m cu seen"
  using assms at_label_mem [OF v] by (simp add: follows_def stopped_def)

lemma follows_end:
  assumes v: "at_label xs p lim t m cu seen v" and "\<not> p < active"
  shows "follows (fw_loop base active dc g nmax v) (Inl ISC_R_UNEXPECTEDEND) active dc xs p t m cu seen"
  using assms at_label_mem [OF v] fw_loop_end [of v active]
  by (auto simp: follows_def stopped_def at_label_def)

lemma follows_full:
  assumes v: "at_label xs p lim t m cu seen v" and act: "p < active" "active \<le> length base"
    and "nmax \<le> 255" and c: "base ! p < 64" and "length (wire xs) \<le> nmax"
    and full: "length (wire xs) + unat (base ! p) + 1 > nmax"
  shows "follows (fw_loop base active dc g nmax v)
    (Inl (if nmax = DNS_NAME_MAXWIRE then DNS_R_NAMETOOLONG else ISC_R_NOSPACE)) active dc xs p t m cu seen"
proof -
  note d = v [unfolded at_label_def]
  have lt: "length xs < 128" using nonempty_labels [of xs] d assms(4,6) by auto
  obtain v' where "fw_step dc g nmax (base ! v_current v) (fw_take v) =
      Some (Some (if nmax = DNS_NAME_MAXWIRE then DNS_R_NAMETOOLONG else ISC_R_NOSPACE), v')" "v_mem v' = v_mem v"
    using d lt c full by (simp add: fw_step_def fw_take_def Let_def)
  then have "fw_loop base active dc g nmax v =
      Some (Some (if nmax = DNS_NAME_MAXWIRE then DNS_R_NAMETOOLONG else ISC_R_NOSPACE), v')"
    by (intro fw_loop_return) (use d act in auto)
  then show ?thesis by (intro follows_stop [OF v _ \<open>v_mem v' = v_mem v\<close>]) auto
qed

lemma follows_root:
  assumes v: "at_label xs p lim t m cu seen v" and act: "p < active" "active \<le> length base"
    and max: "nmax \<le> 255" "t + nmax \<le> length m" and c: "base ! p = 0"
    and fit: "length (wire xs) + 1 \<le> nmax"
  shows "follows (fw_loop base active dc g nmax v) (Inr ([[]], p + 1)) active dc xs p t m cu seen"
proof -
  have c64: "base ! p < 64" using c by simp
  obtain m' v' where m': "mem_write m t (wire xs @ [base ! p]) = Some m'"
    and v': "v' = v\<lparr>v_state := fw_ordinary, v_current := p + 1, v_cused := (if seen then cu else cu + 1),
        v_nused := length (wire xs) + unat (base ! p) + 1,
        v_offsets := offsets_of xs @ [of_nat (length (wire xs))], v_n := unat (base ! p),
        v_done := (base ! p = 0), v_ndata := t + length (wire xs) + 1, v_mem := m'\<rparr>"
    and loop: "fw_loop base active dc g nmax v = fw_loop base active dc g nmax v'"
    by (rule fw_start_label [OF v act max c64]) (use c fit in auto)
  have "v_done v'" using v' c by simp
  then have "fw_loop base active dc g nmax v = Some (None, v')"
    using loop fw_loop_end [of v' active] by simp
  then show ?thesis using v' m' c act by (auto simp: follows_def finished_def)
qed

lemma follows_pointer:
  assumes v: "at_label xs p lim t m cu seen v" and act: "p < active" "active \<le> length base"
    and c: "\<not> base ! p < 64" "\<not> base ! p < 192" and g: "g"
    and q: "q = unat (base ! p AND 0x3F) * 256 + unat (base ! (p + 1))"
  shows "p + 1 \<ge> active \<Longrightarrow>
      follows (fw_loop base active dc g nmax v) (Inl ISC_R_UNEXPECTEDEND) active dc xs p t m cu seen"
    and "p + 1 < active \<Longrightarrow> q \<ge> lim \<Longrightarrow>
      follows (fw_loop base active dc g nmax v) (Inl DNS_R_BADPOINTER) active dc xs p t m cu seen"
    and "p + 1 < active \<Longrightarrow> q < lim \<Longrightarrow> \<exists>v'. fw_loop base active dc g nmax v = fw_loop base active dc g nmax v' \<and>
      at_label xs q q t m (if seen then cu else cu + 2) True v'"
proof -
  note d = v [unfolded at_label_def]
  define v1 where "v1 = (fw_take v)\<lparr>v_new_current := unat (base ! p AND 0x3F), v_n := 1, v_state := fw_newcurrent\<rparr>"
  have "fw_step dc g nmax (base ! v_current v) (fw_take v) = Some (None, v1)"
    using d c g by (auto simp: fw_step_def fw_take_def v1_def)
  then have l1: "fw_loop base active dc g nmax v = fw_loop base active dc g nmax v1"
    by (intro fw_loop_more) (use d act in auto)
  have f1: "v_current v1 = p + 1" "\<not> v_done v1" "v_mem v1 = v_mem v"
    using d by (simp_all add: v1_def fw_take_def)
  show "follows (fw_loop base active dc g nmax v) (Inl ISC_R_UNEXPECTEDEND) active dc xs p t m cu seen"
    if "p + 1 \<ge> active"
    using l1 f1 fw_loop_end [of v1 active] that at_label_mem [OF v] by (auto simp: follows_def stopped_def)
  define v2 where "v2 = (fw_take v1)\<lparr>v_new_current := q, v_n := 0\<rparr>"
  have s2: "fw_step dc g nmax (base ! v_current v1) (fw_take v1) =
      (if q \<ge> lim then Some (Some DNS_R_BADPOINTER, v2)
       else Some (None, v2\<lparr>v_biggest_pointer := q, v_current := q, v_seen_pointer := True, v_state := fw_start\<rparr>))"
    using d by (simp add: fw_step_def fw_take_def v1_def v2_def q Let_def)
  have m2: "v_mem v2 = v_mem v" by (simp add: v2_def v1_def fw_take_def)
  show "follows (fw_loop base active dc g nmax v) (Inl DNS_R_BADPOINTER) active dc xs p t m cu seen"
    if "p + 1 < active" "q \<ge> lim"
    by (rule follows_stop [OF v _ m2]) (use that f1 l1 s2 act fw_loop_return [of v1 active base] in auto)
  show "\<exists>v'. fw_loop base active dc g nmax v = fw_loop base active dc g nmax v' \<and>
      at_label xs q q t m (if seen then cu else cu + 2) True v'" if "p + 1 < active" "q < lim"
    using fw_loop_more [of v1 active base dc g nmax] that f1 l1 s2 act d
    by (intro exI [of _ "v2\<lparr>v_biggest_pointer := q, v_current := q, v_seen_pointer := True, v_state := fw_start\<rparr>"])
      (auto simp: at_label_def v2_def v1_def fw_take_def)
qed


lemma follows_label:
  assumes v: "at_label xs p lim t m cu seen v" and act: "p < active" "active \<le> length base"
    and max: "nmax \<le> 255" "t + nmax \<le> length m" and c: "base ! p < 64" "base ! p \<noteq> 0"
    and fit: "length (wire xs) + unat (base ! p) + 1 \<le> nmax" and k: "k = unat (base ! p)"
    and l: "l = take k (drop (p + 1) base)"
  shows "p + 1 + k > active \<Longrightarrow>
      follows (fw_loop base active dc g nmax v) (Inl ISC_R_UNEXPECTEDEND) active dc xs p t m cu seen"
    and "p + 1 + k \<le> active \<Longrightarrow> \<exists>v'. fw_loop base active dc g nmax v = fw_loop base active dc g nmax v' \<and>
      at_label (xs @ as_read dc [l]) (p + 1 + k) lim t m (if seen then cu else cu + 1 + k) seen v'"
proof -
  note d = v [unfolded at_label_def]
  obtain m' v' where m': "mem_write m t (wire xs @ [base ! p]) = Some m'"
    and v': "v' = v\<lparr>v_state := fw_ordinary, v_current := p + 1, v_cused := (if seen then cu else cu + 1),
        v_nused := length (wire xs) + unat (base ! p) + 1,
        v_offsets := offsets_of xs @ [of_nat (length (wire xs))], v_n := unat (base ! p),
        v_done := (base ! p = 0), v_ndata := t + length (wire xs) + 1, v_mem := m'\<rparr>"
    and loop: "fw_loop base active dc g nmax v = fw_loop base active dc g nmax v'"
    by (rule fw_start_label [OF v act max c(1) fit])
  have "k \<noteq> 0" using c(2) k by (simp add: unat_eq_0)
  then obtain k' where k': "k = Suc k'" using not0_implies_Suc by blast
  have len: "length m' = length m" "take t m' = take t m"
    using length_mem_write [OF m'] take_mem_write [OF m', of t] by auto
  note cp = fw_loop_copy [of v' k' active base dc g nmax]
  have pre: "v_state v' = fw_ordinary" "v_n v' = Suc k'" "\<not> v_done v'" "v_current v' = p + 1"
    "v_ndata v' + Suc k' \<le> length (v_mem v')" "v_mem v' = m'" "v_ndata v' = t + length (wire xs) + 1"
    "v_seen_pointer v' = seen" "v_cused v' = (if seen then cu else cu + 1)"
    using v' c(2) k k' fit max(2) len d by auto
  show "follows (fw_loop base active dc g nmax v) (Inl ISC_R_UNEXPECTEDEND) active dc xs p t m cu seen"
    if "p + 1 + k > active"
  proof -
    have "stopped (fw_loop base active dc g nmax v) (t + length (wire xs) + 1) m' ISC_R_UNEXPECTEDEND"
      using cp [OF pre(1-3) act(2) pre(5)] that pre(4,6,7) k' loop by auto
    then have "stopped (fw_loop base active dc g nmax v) t m' ISC_R_UNEXPECTEDEND"
      unfolding stopped_def by (metis add.assoc le_add1 min.absorb1 take_take)
    then show ?thesis using stopped_mem len by (simp add: follows_def)
  qed
  show "\<exists>v'. fw_loop base active dc g nmax v = fw_loop base active dc g nmax v' \<and>
      at_label (xs @ as_read dc [l]) (p + 1 + k) lim t m (if seen then cu else cu + 1 + k) seen v'"
    if "p + 1 + k \<le> active"
  proof -
    have "p + 1 + Suc k' \<le> active" using that k' by simp
    with cp [OF pre(1-3) act(2) pre(5)]
    obtain m2 where m2: "mem_write m' (t + length (wire xs) + 1) (map (if dc then maptolower else id) l) = Some m2"
      and l2: "fw_loop base active dc g nmax v' = fw_loop base active dc g nmax
        (v'\<lparr>v_state := fw_start, v_current := p + 1 + k, v_n := 0,
          v_cused := (if seen then v_cused v' else v_cused v' + k),
          v_ndata := t + length (wire xs) + 1 + k, v_mem := m2\<rparr>)"
      unfolding pre(4,6-8) l k' by (simp only: if_True) blast
    have ll: "length l = k" using that act(2) l by simp
    have "mem_write m t (wire (xs @ as_read dc [l])) = Some m2"
    proof -
      have "wire (xs @ as_read dc [l]) = (wire xs @ [base ! p]) @ map (if dc then maptolower else id) l"
        using ll k by simp
      then show ?thesis using m' m2 by (simp only: mem_write_append) simp
    qed
    then show ?thesis
      using loop l2 d v' ll k k' pre(9)
      by (intro exI [of _ "v'\<lparr>v_state := fw_start, v_current := p + 1 + k, v_n := 0,
          v_cused := (if seen then v_cused v' else v_cused v' + k),
          v_ndata := t + length (wire xs) + 1 + k, v_mem := m2\<rparr>"])
        (auto simp: at_label_def)
  qed
qed


lemma decode_end: "p \<ge> length msg \<Longrightarrow> decode_name g nmax msg lim p used = Inl ISC_R_UNEXPECTEDEND"
  by (subst decode_name.simps) simp

lemma decode_toolong:
  "p < length msg \<Longrightarrow> msg ! p < 64 \<Longrightarrow> used + unat (msg ! p) + 1 > nmax \<Longrightarrow>
   decode_name g nmax msg lim p used =
     Inl (if nmax = DNS_NAME_MAXWIRE then DNS_R_NAMETOOLONG else ISC_R_NOSPACE)"
  by (subst decode_name.simps) simp

lemma decode_root:
  "p < length msg \<Longrightarrow> msg ! p = 0 \<Longrightarrow> used + 1 \<le> nmax \<Longrightarrow>
   decode_name g nmax msg lim p used = Inr ([[]], p + 1)"
  by (subst decode_name.simps) simp

lemma decode_label:
  assumes "p < length msg" and "msg ! p < 64" and "msg ! p \<noteq> 0" and "used + unat (msg ! p) + 1 \<le> nmax"
  shows "p + 1 + unat (msg ! p) > length msg \<Longrightarrow>
      decode_name g nmax msg lim p used = Inl ISC_R_UNEXPECTEDEND"
    and "p + 1 + unat (msg ! p) \<le> length msg \<Longrightarrow> decode_name g nmax msg lim p used =
      (case decode_name g nmax msg lim (p + 1 + unat (msg ! p)) (used + unat (msg ! p) + 1) of
         Inl e \<Rightarrow> Inl e
       | Inr (ls, q) \<Rightarrow> Inr (take (unat (msg ! p)) (drop (p + 1) msg) # ls, q))"
  using assms by (subst decode_name.simps, simp)+

lemma decode_bad:
  "p < length msg \<Longrightarrow> \<not> msg ! p < 64 \<Longrightarrow> msg ! p < 192 \<Longrightarrow>
   decode_name g nmax msg lim p used = Inl DNS_R_BADLABELTYPE"
  by (subst decode_name.simps) simp

lemma decode_pointer:
  assumes "p < length msg" and "\<not> msg ! p < 64" and "\<not> msg ! p < 192"
    and "q = unat (msg ! p AND 0x3F) * 256 + unat (msg ! (p + 1))"
  shows "\<not> g \<Longrightarrow> decode_name g nmax msg lim p used = Inl DNS_R_DISALLOWED"
    and "g \<Longrightarrow> p + 1 \<ge> length msg \<Longrightarrow> decode_name g nmax msg lim p used = Inl ISC_R_UNEXPECTEDEND"
    and "g \<Longrightarrow> p + 1 < length msg \<Longrightarrow> q \<ge> lim \<Longrightarrow>
      decode_name g nmax msg lim p used = Inl DNS_R_BADPOINTER"
    and "g \<Longrightarrow> p + 1 < length msg \<Longrightarrow> q < lim \<Longrightarrow> decode_name g nmax msg lim p used =
      (case decode_name g nmax msg q q used of Inl e \<Rightarrow> Inl e | Inr (ls, _) \<Rightarrow> Inr (ls, p + 2))"
  unfolding assms(4) using assms(1-3) by (subst decode_name.simps, simp)+

lemma follows_refuse:
  assumes v: "at_label xs p lim t m cu seen v" and act: "p < active" "active \<le> length base"
    and c: "\<not> base ! p < 64"
  shows "base ! p < 192 \<Longrightarrow>
      follows (fw_loop base active dc g nmax v) (Inl DNS_R_BADLABELTYPE) active dc xs p t m cu seen"
    and "\<not> base ! p < 192 \<Longrightarrow> \<not> g \<Longrightarrow>
      follows (fw_loop base active dc g nmax v) (Inl DNS_R_DISALLOWED) active dc xs p t m cu seen"
proof -
  note d = v [unfolded at_label_def]
  have "fw_step dc g nmax (base ! v_current v) (fw_take v) =
      Some (Some (if base ! p < 192 then DNS_R_BADLABELTYPE else DNS_R_DISALLOWED), fw_take v)"
    if "base ! p < 192 \<or> \<not> g"
    using d c that by (auto simp: fw_step_def fw_take_def)
  then have "base ! p < 192 \<or> \<not> g \<Longrightarrow> fw_loop base active dc g nmax v =
      Some (Some (if base ! p < 192 then DNS_R_BADLABELTYPE else DNS_R_DISALLOWED), fw_take v)"
    by (intro fw_loop_return) (use d act in auto)
  moreover have "v_mem (fw_take v) = v_mem v" by (simp add: fw_take_def)
  ultimately show "base ! p < 192 \<Longrightarrow>
      follows (fw_loop base active dc g nmax v) (Inl DNS_R_BADLABELTYPE) active dc xs p t m cu seen"
    and "\<not> base ! p < 192 \<Longrightarrow> \<not> g \<Longrightarrow>
      follows (fw_loop base active dc g nmax v) (Inl DNS_R_DISALLOWED) active dc xs p t m cu seen"
    by (auto intro: follows_stop [OF v])
qed

lemma follows_cons:
  assumes "follows r d active dc (xs @ as_read dc [l]) (p + 1 + k) t m (if seen then cu else cu + 1 + k) seen"
  shows "follows r (case d of Inl e \<Rightarrow> Inl e | Inr (ls, q) \<Rightarrow> Inr (l # ls, q)) active dc xs p t m cu seen"
proof (cases d)
  case (Inr lq)
  obtain ls q where lq: "lq = (ls, q)" by (cases lq)
  have "p + 1 + k < q" using assms Inr lq by (simp add: follows_def)
  then have "cu + 1 + k + (q - (p + 1 + k)) = cu + (q - p)" "Suc (cu + q - Suc p) = cu + q - p" by simp_all
  then show ?thesis using assms Inr lq by (auto simp: follows_def split: if_splits)
qed (use assms in \<open>simp add: follows_def\<close>)

lemma follows_jump:
  assumes "follows r d active dc xs q t m (if seen then cu else cu + 2) True" and "p + 2 \<le> active"
  shows "follows r (case d of Inl e \<Rightarrow> Inl e | Inr (ls, _) \<Rightarrow> Inr (ls, p + 2)) active dc xs p t m cu seen"
  using assms by (auto simp: follows_def split: sum.splits prod.splits)

text \<open>One label or one pointer, given that the loop follows the reference from there on.\<close>

lemma follows_label_step:
  assumes v: "at_label xs p lim t m cu seen v" and act: "p < active" "active \<le> length base"
    and max: "nmax \<le> 255" "t + nmax \<le> length m" and c: "base ! p < 64" "base ! p \<noteq> 0"
    and fit: "length (wire xs) + unat (base ! p) + 1 \<le> nmax"
    and k: "k = unat (base ! p)" and l: "l = take k (drop (p + 1) base)"
    and IH: "\<And>v. p + 1 + k \<le> active \<Longrightarrow>
      at_label (xs @ as_read dc [l]) (p + 1 + k) lim t m (if seen then cu else cu + 1 + k) seen v \<Longrightarrow>
      length (wire xs) + k + 1 = length (wire (xs @ as_read dc [l])) \<Longrightarrow>
      follows (fw_loop base active dc g nmax v)
        (decode_name g nmax (take active base) lim (p + 1 + k) (length (wire xs) + k + 1))
        active dc (xs @ as_read dc [l]) (p + 1 + k) t m (if seen then cu else cu + 1 + k) seen"
  shows "follows (fw_loop base active dc g nmax v)
    (decode_name g nmax (take active base) lim p (length (wire xs))) active dc xs p t m cu seen"
proof -
  have len: "length (take active base) = active" and p: "p < length (take active base)"
    and nth: "take active base ! p = base ! p" using act by auto
  note fl = follows_label [OF v act max c fit k l, of dc g]
  note dl = decode_label [OF p, where used = "length (wire xs)", unfolded nth len, OF c fit, folded k]
  show ?thesis
  proof (cases "p + 1 + k > active")
    case True
    then show ?thesis using fl(1) dl(1) by simp
  next
    case False
    then have le: "p + 1 + k \<le> active" by simp
    obtain v' where v': "fw_loop base active dc g nmax v = fw_loop base active dc g nmax v'"
      "at_label (xs @ as_read dc [l]) (p + 1 + k) lim t m (if seen then cu else cu + 1 + k) seen v'"
      using fl(2) [OF le] by blast
    have "length l = k" using le act l by simp
    then have lw: "length (wire xs) + k + 1 = length (wire (xs @ as_read dc [l]))" by simp
    have tk: "take k (drop (p + 1) (take active base)) = l" using le l by (simp add: take_drop)
    show ?thesis using follows_cons [OF IH [OF le v'(2) lw]] dl(2) [OF le, unfolded tk] v'(1) by simp
  qed
qed

lemma follows_pointer_step:
  assumes v: "at_label xs p lim t m cu seen v" and act: "p < active" "active \<le> length base"
    and c: "\<not> base ! p < 64" "\<not> base ! p < 192"
    and q: "q = unat (base ! p AND 0x3F) * 256 + unat (base ! (p + 1))"
    and IH: "\<And>v. g \<Longrightarrow> p + 1 < active \<Longrightarrow> q < lim \<Longrightarrow>
      at_label xs q q t m (if seen then cu else cu + 2) True v \<Longrightarrow>
      follows (fw_loop base active dc g nmax v)
        (decode_name g nmax (take active base) q q (length (wire xs)))
        active dc xs q t m (if seen then cu else cu + 2) True"
  shows "follows (fw_loop base active dc g nmax v)
    (decode_name g nmax (take active base) lim p (length (wire xs))) active dc xs p t m cu seen"
proof -
  have p: "p < length (take active base)" and nth: "take active base ! p = base ! p" using act by auto
  note fp = follows_pointer [OF v act c _ q]
  note dp = decode_pointer [OF p, unfolded nth, OF c]
  consider (off) "\<not> g" | (short) "g" "p + 1 \<ge> active" | (bad) "g" "p + 1 < active" "q \<ge> lim"
    | (jump) "g" "p + 1 < active" "q < lim"
    by linarith
  then show ?thesis
  proof cases
    case off
    then show ?thesis using dp(1) [OF refl] follows_refuse(2) [OF v act c] by simp
  next
    case short
    then show ?thesis using dp(2) [OF refl] fp(1) act by simp
  next
    case bad
    then have "q = unat (base ! p AND 0x3F) * 256 + unat (take active base ! (p + 1))" using q by simp
    then show ?thesis using bad dp(3) fp(2) act by simp
  next
    case jump
    then have q': "q = unat (base ! p AND 0x3F) * 256 + unat (take active base ! (p + 1))" using q by simp
    obtain v' where v': "fw_loop base active dc g nmax v = fw_loop base active dc g nmax v'"
      "at_label xs q q t m (if seen then cu else cu + 2) True v'"
      using fp(3) [OF jump] by blast
    show ?thesis
      using follows_jump [OF IH [OF jump v'(2)], of p] dp(4) [OF q'] v'(1) jump act by simp
  qed
qed

lemma fw_loop_decode:
  assumes act: "active \<le> length base" and "nmax \<le> 255" and "t + nmax \<le> length m"
    and "at_label xs p lim t m cu seen v" and "length (wire xs) \<le> nmax"
  shows "follows (fw_loop base active dc g nmax v)
    (decode_name g nmax (take active base) lim p (length (wire xs))) active dc xs p t m cu seen"
  using assms(2-5)
proof (induction g nmax "take active base" lim p "length (wire xs)" arbitrary: xs cu seen v rule: decode_name.induct)
  case (1 g nmax lim p)
  note max = "1.prems"(1,2) and v = "1.prems"(3) and le = "1.prems"(4)
  show ?case
  proof (cases "p < active")
    case False
    then show ?thesis using follows_end [OF v] by (simp add: decode_end act)
  next
    case True
    then have p: "p < length (take active base)" and nth: "take active base ! p = base ! p"
      "p + 1 < active \<Longrightarrow> take active base ! (p + 1) = base ! (p + 1)"
      using act by auto
    consider (full) "base ! p < 64" "length (wire xs) + unat (base ! p) + 1 > nmax"
      | (root) "base ! p = 0" "length (wire xs) + 1 \<le> nmax"
      | (label) "base ! p < 64" "base ! p \<noteq> 0" "length (wire xs) + unat (base ! p) + 1 \<le> nmax"
      | (bad) "\<not> base ! p < 64" "base ! p < 192"
      | (pointer) "\<not> base ! p < 64" "\<not> base ! p < 192"
      by fastforce
    then show ?thesis
    proof cases
      case full
      then show ?thesis
        using follows_full [OF v True act max(1) _ le] decode_toolong [OF p] by (simp only: nth)
    next
      case root
      then show ?thesis
        using follows_root [OF v True act max] decode_root [OF p] by (simp only: nth)
    next
      case label
      let ?l = "take (unat (base ! p)) (drop (p + 1) base)"
      note IH = "1.hyps"(1) [of "xs @ as_read dc [?l]", unfolded nth(1)]
      show ?thesis
      proof (rule follows_label_step [OF v True act max label refl refl])
        fix v'
        assume a: "p + 1 + unat (base ! p) \<le> active"
          "at_label (xs @ as_read dc [?l]) (p + 1 + unat (base ! p)) lim t m
             (if seen then cu else cu + 1 + unat (base ! p)) seen v'"
          and eq: "length (wire xs) + unat (base ! p) + 1 = length (wire (xs @ as_read dc [?l]))"
        show "follows (fw_loop base active dc g nmax v') (decode_name g nmax (take active base) lim
              (p + 1 + unat (base ! p)) (length (wire xs) + unat (base ! p) + 1)) active dc
            (xs @ as_read dc [?l]) (p + 1 + unat (base ! p)) t m
            (if seen then cu else cu + 1 + unat (base ! p)) seen"
          unfolding eq by (rule IH) (use a eq p label max act in auto)
      qed
    next
      case bad
      then show ?thesis
        using follows_refuse(1) [OF v True act] decode_bad [OF p] nth(1) by simp
    next
      case pointer
      show ?thesis
        by (rule follows_pointer_step [OF v True act pointer refl])
          (use "1.hyps"(2) p pointer max act le nth in auto)
    qed
  qed
qed

section \<open>What is decoded\<close>

lemma u8_less_64: "(c::u8) < 64 \<Longrightarrow> unat c \<le> 63"
  by (simp add: word_less_nat_alt)

lemma decode_cases:
  assumes "decode_name g nmax msg lim p used = Inr (ls, q)"
  obtains (root) "p < length msg" "msg ! p = 0" "used + 1 \<le> nmax" "ls = [[]]"
    | (label) ls' where "p < length msg" "msg ! p < 64" "msg ! p \<noteq> 0" "used + unat (msg ! p) + 1 \<le> nmax"
      "p + 1 + unat (msg ! p) \<le> length msg"
      "decode_name g nmax msg lim (p + 1 + unat (msg ! p)) (used + unat (msg ! p) + 1) = Inr (ls', q)"
      "ls = take (unat (msg ! p)) (drop (p + 1) msg) # ls'"
    | (pointer) q' where "p < length msg" "\<not> msg ! p < 64" "\<not> msg ! p < 192" "g" "p + 1 < length msg"
      "unat (msg ! p AND 0x3F) * 256 + unat (msg ! (p + 1)) < lim"
      "decode_name g nmax msg (unat (msg ! p AND 0x3F) * 256 + unat (msg ! (p + 1)))
         (unat (msg ! p AND 0x3F) * 256 + unat (msg ! (p + 1))) used = Inr (ls, q')"
  using assms by (subst (asm) decode_name.simps) (fastforce split: if_splits sum.splits prod.splits)

lemma decode_wf:
  assumes "decode_name g nmax msg lim p used = Inr (ls, q)"
  shows "ends_root ls \<and> (\<forall>l \<in> set ls. length l \<le> 63) \<and> (\<forall>l \<in> set (butlast ls). l \<noteq> []) \<and>
    used + length (wire ls) \<le> nmax"
  using assms
proof (induction g nmax msg lim p used arbitrary: ls q rule: decode_name.induct)
  case (1 g nmax msg lim p used)
  from "1.prems" show ?case
  proof (cases rule: decode_cases)
    case label
    have "unat (msg ! p) \<noteq> 0" using label(3) by (simp add: unat_eq_0)
    then have l: "length (take (unat (msg ! p)) (drop (p + 1) msg)) = unat (msg ! p)"
      "take (unat (msg ! p)) (drop (p + 1) msg) \<noteq> []"
      using label(5) by auto
    then show ?thesis
      using "1.IH"(1) [OF _ label(2) _ label(3) _ label(6)] label u8_less_64 [OF label(2)]
      by (auto simp: not_less)
  next
    case pointer
    then show ?thesis using "1.IH"(2) [OF _ _ _ _ _ _ pointer(7)] by auto
  qed simp
qed

lemma decode_labels_ok:
  assumes "decode_name g nmax msg lim p 0 = Inr (ls, q)" and "nmax \<le> 255"
  shows "labels_ok (as_read dc ls) \<and> ends_root (as_read dc ls)"
proof -
  have "labels_ok ls \<and> ends_root ls"
    using decode_wf [OF assms(1)] assms(2) by (auto simp: labels_ok_def DNS_NAME_MAXWIRE_def)
  then show ?thesis by (simp add: as_read_def)
qed

text \<open>The meaning of a message: \<open>name_at msg lim p ls e\<close> when the name \<open>ls\<close> starts at position \<open>p\<close>
  and its first part ends at \<open>e\<close>, and every pointer points before the start of the part it ends,
  the first one before \<open>lim\<close>.\<close>

inductive name_at :: "bytes \<Rightarrow> nat \<Rightarrow> nat \<Rightarrow> bytes list \<Rightarrow> nat \<Rightarrow> bool" for msg where
  root: "name_at msg lim p [[]] (p + 1)" if "rd msg p = Some 0"
| label: "name_at msg lim p (l # ls) e"
    if "rd msg p = Some (of_nat (length l))" "l \<noteq> []" "length l \<le> 63"
      "mem_read msg (p + 1) (length l) = Some l" "name_at msg lim (p + 1 + length l) ls e"
| pointer: "name_at msg lim p ls (p + 2)"
    if "rd msg p = Some c" "192 \<le> c" "rd msg (p + 1) = Some d"
      "q = unat (c AND 0x3F) * 256 + unat d" "q < lim" "name_at msg q q ls e"

lemma name_at_decode:
  assumes "name_at msg lim p ls e" and "used + length (wire ls) \<le> nmax"
  shows "decode_name True nmax msg lim p used = Inr (ls, e)"
  using assms
proof (induction arbitrary: used rule: name_at.induct)
  case (root p lim)
  then show ?case using decode_root [of p msg used nmax True lim] by (auto simp: rd_eq_Some)
next
  case (label p l lim ls e)
  have p: "p < length msg" "msg ! p = of_nat (length l)" using label(1) by (auto simp: rd_eq_Some)
  have u: "unat (msg ! p) = length l" using p label(3) by simp
  have c: "msg ! p < 64" "msg ! p \<noteq> 0" using u label(2,3) by (auto simp: word_less_nat_alt)
  have mr: "p + 1 + length l \<le> length msg" "take (length l) (drop (p + 1) msg) = l"
    using label(4) unfolding mem_read_eq_Some by auto
  have "decode_name True nmax msg lim (p + 1 + length l) (used + length l + 1) = Inr (ls, e)"
    using label.IH [of "used + length l + 1"] label.prems by auto
  then show ?case
    using decode_label(2) [OF p(1) c, of used nmax True lim, unfolded u] label.prems mr by simp
next
  case (pointer p c d q lim ls e)
  have p: "p < length msg" "msg ! p = c" "p + 1 < length msg" "msg ! (p + 1) = d"
    using pointer(1,3) by (auto simp: rd_eq_Some)
  have c: "\<not> msg ! p < 64" "\<not> msg ! p < 192"
    using pointer(2) p by (auto simp: word_less_nat_alt word_le_nat_alt)
  have "decode_name True nmax msg q q used = Inr (ls, e)"
    using pointer.IH [of used] pointer.prems by auto
  then show ?case using decode_pointer(4) [OF p(1) c, of q True lim nmax used] pointer(4,5) p by simp
qed

lemma name_at_append: "name_at msg lim p ls e \<Longrightarrow> name_at (msg @ ext) lim p ls e"
proof (induction rule: name_at.induct)
  case (root p lim)
  then show ?case by (intro name_at.root) (auto simp: rd_def nth_append split: if_splits)
next
  case (label p l lim ls e)
  then show ?case
    by (intro name_at.label) (auto simp: rd_def nth_append mem_read_def split: if_splits)
next
  case (pointer p c d q lim ls e)
  then show ?case
    by (intro name_at.pointer [of _ p c d q lim ls e]) (auto simp: rd_def nth_append split: if_splits)
qed

lemma name_at_lim: "name_at msg lim p ls e \<Longrightarrow> lim \<le> lim' \<Longrightarrow> name_at msg lim' p ls e"
proof (induction arbitrary: lim' rule: name_at.induct)
  case (pointer p c d q lim ls e)
  then show ?case by (intro name_at.pointer [of _ p c d q lim' ls e]) auto
next
  case (root p lim)
  then show ?case by (intro name_at.root)
next
  case (label p l lim ls e)
  then show ?case by (intro name_at.label) auto
qed

lemma name_at_end: "name_at msg lim p ls e \<Longrightarrow> p < e \<and> e \<le> length msg"
  by (induction rule: name_at.induct) (auto simp: rd_def split: if_splits)

section \<open>dns\_name\_fromwire\<close>

text \<open>The outcome of \<open>dns_name_fromwire\<close> that belongs to an answer of the reference: on an error
  the name is empty and the bytes the buffers held are kept; on success the name has the labels,
  the target their wire form, and the source is advanced past the name.\<close>

definition wire_outcome ::
    "((isc_result \<times> dns_name \<times> isc_buffer option) \<times> isc_buffer) option \<Rightarrow>
     isc_result + (bytes list \<times> nat) \<Rightarrow> bool \<Rightarrow> isc_buffer \<Rightarrow> isc_buffer option \<Rightarrow> isc_buffer \<Rightarrow> bool" where
  "wire_outcome out d dc source target b \<longleftrightarrow>
     (case d of
        Inl e \<Rightarrow> \<exists>name b'. out = Some (close_target e name target b', source) \<and> name_repr name [] \<and>
          buf_wf b' \<and> buf_used_bytes b' = buf_used_bytes b
      | Inr (ls, q) \<Rightarrow> \<exists>r. out = Some (r, source\<lparr>b_current := of_nat q\<rparr>) \<and>
          unat (b_current source) < q \<and> q \<le> unat (b_active source) \<and>
          copied r target b (as_read dc ls))"

lemma empty_repr:
  "VALID_NAME name \<Longrightarrow> name_repr (MAKE_EMPTY name\<lparr>n_offsets := t\<rparr>) []"
  by (rule name_reprI [of _ _ "[]"])
    (auto simp: MAKE_EMPTY_def VALID_NAME_def labels_ok_simps absolute_attr_def attr_absolute)

lemma buf_wf_base:
  assumes "buf_wf b" and "length m = length (b_base b)" and "take (unat (b_used b)) m = take (unat (b_used b)) (b_base b)"
  shows "buf_wf (b\<lparr>b_base := m\<rparr>)" and "buf_used_bytes (b\<lparr>b_base := m\<rparr>) = buf_used_bytes b"
  using assms by (auto simp: buf_wf_def ISC_BUFFER_VALID_def buf_used_bytes_def)

lemma forward_to:
  assumes "buf_wf source" and "unat (b_current source) < q" and "q \<le> unat (b_active source)"
  shows "isc__buffer_forward source (of_nat (q - unat (b_current source))) = Some (source\<lparr>b_current := of_nat q\<rparr>)"
proof -
  have q: "q \<le> unat (b_used source)" "q < 2 ^ 32" using assms unat_u32_less [of "b_used source"] by (auto simp: buf_wf_def)
  have eq: "b_current source + of_nat (q - unat (b_current source)) = of_nat q"
    using assms(2) by (simp add: of_nat_diff)
  have "of_nat q \<le> b_used source" using q by (simp add: word_le_nat_alt unat_of_nat_small)
  then show ?thesis using assms(1) eq by (simp add: isc__buffer_forward_def buf_wf_def)
qed

lemma fromwire_outcome:
  assumes name: "VALID_NAME name" "BINDABLE name" and b: "open_target name target = Some b" "buf_wf b"
    and src: "buf_wf source"
    and dc: "dc = (options AND DNS_NAME_DOWNCASE \<noteq> 0)"
    and g: "g = (dctx_allowed dctx AND DNS_COMPRESS_GLOBAL14 \<noteq> 0)"
  shows "wire_outcome (dns_name_fromwire name source dctx options target)
    (decode_name g (min (buf_room b) DNS_NAME_MAXWIRE) (take (unat (b_active source)) (b_base source))
       (unat (b_current source)) (unat (b_current source)) 0) dc source target b"
proof -
  let ?nmax = "min (buf_room b) DNS_NAME_MAXWIRE"
  let ?act = "unat (b_active source)" and ?cur = "unat (b_current source)"
  let ?v = "\<lparr>v_state = fw_start, v_current = ?cur, v_cused = 0, v_nused = 0,
         v_offsets = [], v_n = 0, v_new_current = 0, v_biggest_pointer = ?cur,
         v_done = False, v_seen_pointer = False, v_ndata = unat (b_used b), v_mem = b_base b\<rparr>"
  let ?d = "decode_name g ?nmax (take ?act (b_base source)) ?cur ?cur 0"
  let ?n = "MAKE_EMPTY name"
  have av: "unat (isc_buffer_availablelength b) = buf_room b" by (rule unat_availablelength [OF b(2)])
  have fit: "?nmax \<le> 255" "unat (b_used b) + ?nmax \<le> length (b_base b)" "?act \<le> length (b_base source)"
    using b(2) src by (auto simp: DNS_NAME_MAXWIRE_def buf_room_def buf_wf_def)
  have at: "at_label [] ?cur ?cur (unat (b_used b)) (b_base b) 0 False ?v"
    using fit(2) by (auto simp: at_label_def mem_write_def)
  have fol: "follows (fw_loop (b_base source) ?act dc g ?nmax ?v) ?d ?act dc [] ?cur (unat (b_used b)) (b_base b) 0 False"
    using fw_loop_decode [OF fit(3,1,2) at] by simp
  note run = dns_name_fromwire_def name b(1) av dc [symmetric] g [symmetric] Let_def
  show ?thesis
  proof (cases ?d)
    case (Inl e)
    then obtain v where v: "fw_loop (b_base source) ?act dc g ?nmax ?v =
        Some (if e = ISC_R_UNEXPECTEDEND then None else Some e, v)" "e = ISC_R_UNEXPECTEDEND \<longrightarrow> \<not> v_done v"
      and m: "length (v_mem v) = length (b_base b)" "take (unat (b_used b)) (v_mem v) = take (unat (b_used b)) (b_base b)"
      using fol by (auto simp: follows_def stopped_def)
    have "dns_name_fromwire name source dctx options target =
        Some (close_target e (?n\<lparr>n_offsets := map_option (\<lambda>_. v_offsets v) (n_offsets ?n)\<rparr>) target
          (b\<lparr>b_base := v_mem v\<rparr>), source)"
      using v by (simp add: run)
    then show ?thesis
      using Inl buf_wf_base [OF b(2) m] empty_repr [OF name(1)] by (auto simp: wire_outcome_def)
  next
    case (Inr lq)
    obtain ls q where lq: "lq = (ls, q)" by (cases lq)
    let ?ys = "as_read dc ls"
    obtain v where q: "?cur < q" "q \<le> ?act"
      and v: "fw_loop (b_base source) ?act dc g ?nmax ?v = Some (None, v)" "v_done v"
        "v_nused v = length (wire ?ys)" "v_offsets v = offsets_of ?ys" "v_cused v = q - ?cur"
        "mem_write (b_base b) (unat (b_used b)) (wire ?ys) = Some (v_mem v)"
      using fol Inr lq by (auto simp: follows_def finished_def)
    have ok: "labels_ok ?ys" "ends_root ?ys" using decode_labels_ok [of g ?nmax _ ?cur ?cur ls q dc] Inr lq fit by auto
    have room: "length (wire ?ys) \<le> buf_room b" using decode_wf [of g ?nmax _ ?cur ?cur 0 ls q] Inr lq by simp
    obtain b' where dr: "drop (unat (b_used b)) (v_mem v) = wire ?ys @ drop (unat (b_used b) + length (wire ?ys)) (b_base b)"
      and b': "isc__buffer_add (b\<lparr>b_base := v_mem v\<rparr>) (of_nat (length (wire ?ys))) = Some b'" "buf_wf b'"
      "b_length b' = b_length b" "buf_used_bytes b' = buf_used_bytes b @ wire ?ys"
      using buffer_store [OF b(2) room] v(6) by (metis option.inject)
    let ?n' = "?n\<lparr>n_offsets := map_option (\<lambda>_. offsets_of ?ys) (n_offsets ?n),
        n_ndata := drop (unat (b_used b)) (v_mem v), n_labels := length ?ys, n_length := length (wire ?ys),
        n_attributes := n_attributes ?n OR DNS_NAMEATTR_ABSOLUTE\<rparr>"
    have "dns_name_fromwire name source dctx options target =
        Some (close_target ISC_R_SUCCESS ?n' target b', source\<lparr>b_current := of_nat q\<rparr>)"
      using v forward_to [OF src q] b'(1) by (simp add: run)
    moreover have "name_repr ?n' ?ys"
      by (rule name_reprI [OF _ ok(1), of _ "drop (unat (b_used b) + length (wire ?ys)) (b_base b)"])
        (use name dr ok(2) in \<open>auto simp: VALID_NAME_def MAKE_EMPTY_def absolute_attr_def attr_absolute\<close>)
    ultimately show ?thesis using Inr lq q b' by (auto simp: wire_outcome_def copied_def)
  qed
qed

definition wire_errors :: "isc_result set" where
  "wire_errors = {ISC_R_UNEXPECTEDEND, DNS_R_NAMETOOLONG, ISC_R_NOSPACE, DNS_R_BADLABELTYPE,
     DNS_R_DISALLOWED, DNS_R_BADPOINTER}"

lemma decode_errors: "decode_name g nmax msg lim p used = Inl e \<Longrightarrow> e \<in> wire_errors"
proof (induction g nmax msg lim p used arbitrary: e rule: decode_name.induct)
  case (1 g nmax msg lim p used)
  note d = "1.prems" [unfolded decode_name.simps [of g nmax msg lim p used]]
  have "x \<in> wire_errors" if "x \<in> {ISC_R_UNEXPECTEDEND, DNS_R_NAMETOOLONG, ISC_R_NOSPACE,
      DNS_R_BADLABELTYPE, DNS_R_DISALLOWED, DNS_R_BADPOINTER}" for x
    using that by (simp add: wire_errors_def)
  then show ?case using d "1.IH" by (auto split: if_splits sum.splits prod.splits)
qed

lemma close_target_fst [simp]: "fst (close_target r name target b) = r"
  by (simp add: close_target_def)

lemma close_target_repr: "name_repr name ls \<Longrightarrow> name_repr (fst (snd (close_target r name target b))) ls"
  by (auto simp: close_target_def name_repr_def VALID_NAME_def absolute_attr_def)

section \<open>Properties\<close>

text \<open>A message with the name \<open>a.\<close> at position 0 and a pointer to it at position 3, about to be read
  from there.\<close>

definition sample_message :: isc_buffer where
  "sample_message = (isc__buffer_init [1, 0x61, 0, 0xc0, 0] 5)
     \<lparr>b_used := 5, b_active := 5, b_current := 3\<rparr>"

definition sample_dctx :: dns_decompress where
  "sample_dctx = \<lparr>dctx_magic = DCTX_MAGIC, dctx_allowed = DNS_COMPRESS_GLOBAL14, dctx_edns = 0,
     dctx_type = DNS_DECOMPRESS_ANY\<rparr>"

lemma sample_message_wf: "buf_wf sample_message"
  by (simp add: sample_message_def isc__buffer_init_def ISC__BUFFER_INIT_def buf_wf_def ISC_BUFFER_VALID_def)

lemma sample_target:
  "open_target (DNS_NAME_INIT None) (Some sample_buffer) = Some sample_buffer" "buf_room sample_buffer = 8"
  by (simp_all add: open_target_def sample_defs ISC_BUFFER_VALID_def buf_room_def)

lemma sample_decode: "decode_name True 8 [1, 0x61, 0, 0xc0, 0] 3 3 0 = Inr ([[0x61], []], 5)"
proof -
  have "decode_name True 8 [1, 0x61, 0, 0xc0, 0] 0 (Suc (Suc 0)) (Suc (Suc 0)) = Inr ([[]], 3)"
    by (subst decode_name.simps) simp
  then have "decode_name True 8 [1, 0x61, 0, 0xc0, 0] 0 0 0 = Inr ([[0x61], []], 3)"
    by (subst decode_name.simps) simp
  then show ?thesis by (subst decode_name.simps) simp
qed

text \<open>C2: \<open>dns_name_fromwire\<close>, a machine over single bytes that follows compression pointers, agrees
  with the decoder that reads label by label, on every message, position and target: it returns the
  same error, leaving the name empty, the source where it was and the bytes of the target intact;
  or it succeeds with the same labels (in lower case when asked), stores their wire form after the
  bytes of the target, and advances the source to the end of the name.\<close>

theorem fromwire_reference:
  assumes "VALID_NAME name" and "BINDABLE name"
    and "open_target name target = Some b" and "buf_wf b" and "buf_wf source"
  shows "wire_outcome (dns_name_fromwire name source dctx options target)
    (decode_name (dctx_allowed dctx AND DNS_COMPRESS_GLOBAL14 \<noteq> 0) (min (buf_room b) DNS_NAME_MAXWIRE)
       (take (unat (b_active source)) (b_base source))
       (unat (b_current source)) (unat (b_current source)) 0)
    (options AND DNS_NAME_DOWNCASE \<noteq> 0) source target b"
  by (rule fromwire_outcome [OF assms refl refl])

theorem fromwire_reference_witness:
  "\<exists>r. dns_name_fromwire (DNS_NAME_INIT None) sample_message sample_dctx 0 (Some sample_buffer) =
     Some (r, sample_message\<lparr>b_current := 5\<rparr>) \<and> copied r (Some sample_buffer) sample_buffer [[0x61], []]"
  using fromwire_reference [OF init_name(1,2) sample_target(1) sample_buffer_wf sample_message_wf, of sample_dctx 0]
    sample_decode
  by (simp add: sample_target wire_outcome_def sample_message_def isc__buffer_init_def ISC__BUFFER_INIT_def
      sample_dctx_def DNS_COMPRESS_GLOBAL14_def DNS_NAME_MAXWIRE_def as_read_def)

text \<open>C13: Reading a name terminates on every message: whatever bytes the source holds, also with
  pointers that form chains or try to form cycles, \<open>dns_name_fromwire\<close> returns, without an access
  outside the source, the target or the table of 128 offsets. The result is success with a
  well-formed absolute name of at most 255 bytes, or one of six error codes with an empty name.\<close>

theorem fromwire_returns:
  assumes "VALID_NAME name" and "BINDABLE name"
    and "open_target name target = Some b" and "buf_wf b" and "buf_wf source"
  shows "\<exists>result name' target' source' ls.
    dns_name_fromwire name source dctx options target = Some ((result, name', target'), source') \<and>
    name_repr name' ls \<and> length (wire ls) \<le> 255 \<and>
    (result = ISC_R_SUCCESS \<and> ends_root ls \<or> result \<in> wire_errors \<and> ls = [] \<and> source' = source)"
proof -
  let ?g = "dctx_allowed dctx AND DNS_COMPRESS_GLOBAL14 \<noteq> 0" and ?dc = "options AND DNS_NAME_DOWNCASE \<noteq> 0"
  let ?nmax = "min (buf_room b) DNS_NAME_MAXWIRE"
  let ?d = "decode_name ?g ?nmax (take (unat (b_active source)) (b_base source))
       (unat (b_current source)) (unat (b_current source)) 0"
  have out: "wire_outcome (dns_name_fromwire name source dctx options target) ?d ?dc source target b"
    by (rule fromwire_outcome [OF assms refl refl])
  show ?thesis
  proof (cases ?d)
    case (Inl e)
    then obtain n b' where "dns_name_fromwire name source dctx options target = Some (close_target e n target b', source)"
      "name_repr n []" using out by (auto simp: wire_outcome_def)
    then show ?thesis
      using decode_errors [OF Inl] close_target_repr [of n "[]" e target b']
      by (cases "close_target e n target b'") (metis close_target_fst fst_conv snd_conv wire_simps(1) list.size(3) le0)
  next
    case (Inr lq)
    then obtain ls q where d: "?d = Inr (ls, q)" by (cases lq) auto
    then obtain r where r: "dns_name_fromwire name source dctx options target = Some (r, source\<lparr>b_current := of_nat q\<rparr>)"
      "copied r target b (as_read ?dc ls)" using out by (auto simp: wire_outcome_def)
    then obtain n b' where "r = close_target ISC_R_SUCCESS n target b'" "name_repr n (as_read ?dc ls)"
      by (auto simp: copied_def)
    moreover have "labels_ok (as_read ?dc ls) \<and> ends_root (as_read ?dc ls)"
      by (rule decode_labels_ok [OF d]) (simp add: DNS_NAME_MAXWIRE_def)
    ultimately show ?thesis
      using r(1) close_target_repr [of n "as_read ?dc ls" ISC_R_SUCCESS target b']
      unfolding labels_ok_def DNS_NAME_MAXWIRE_def
      by (cases r) (metis close_target_fst fst_conv snd_conv)
  qed
qed

text \<open>A pointer to itself.\<close>

theorem fromwire_returns_witness:
  "\<exists>result name' target' source' ls.
    dns_name_fromwire (DNS_NAME_INIT None) (sample_message\<lparr>b_base := [1, 0x61, 0, 0xc0, 3]\<rparr>) sample_dctx 0
      (Some sample_buffer) = Some ((result, name', target'), source') \<and>
    name_repr name' ls \<and> length (wire ls) \<le> 255 \<and>
    (result = ISC_R_SUCCESS \<and> ends_root ls \<or> result \<in> wire_errors \<and> ls = [] \<and>
     source' = sample_message\<lparr>b_base := [1, 0x61, 0, 0xc0, 3]\<rparr>)"
proof -
  have "buf_wf (sample_message\<lparr>b_base := [1, 0x61, 0, 0xc0, 3]\<rparr>)"
    by (simp add: sample_message_def isc__buffer_init_def ISC__BUFFER_INIT_def buf_wf_def ISC_BUFFER_VALID_def)
  then show ?thesis
    by (rule fromwire_returns [OF init_name(1,2) sample_target(1) sample_buffer_wf])
qed

end
