(* ===== verification/Dns_Compress.thy ===== *)
theory Dns_Compress
  imports Dns_Name_Order Dns_Name_Wire
begin

text \<open>
  Name compression: the table of \<open>lib/dns/compress.c\<close> and \<open>dns_name_towire\<close> of
  \<open>lib/dns/name.c\<close>.

  The table has 64 chains of nodes, the newest node first. A node refers to the bytes of a name
  that was rendered and to the offset of its wire form in the message. The names that were added
  stay unchanged while the context is in use, so a node holds their bytes. \<open>alloc\<close> tells for a node
  number whether \<open>isc_mem_get\<close> finds memory for it; the first 16 nodes are preallocated.
\<close>

section \<open>Compression contexts\<close>

definition DNS_COMPRESS_TABLESIZE :: nat where "DNS_COMPRESS_TABLESIZE = 64"
definition DNS_COMPRESS_INITIALNODES :: nat where "DNS_COMPRESS_INITIALNODES = 16"

record dns_compressnode =
  node_r :: bytes
  node_offset :: u16
  node_count :: u16
  node_labels :: u8

record dns_compress =
  cctx_magic :: u32
  cctx_allowed :: u32
  cctx_edns :: int
  cctx_table :: "dns_compressnode list list"
  cctx_count :: u16

definition CCTX_MAGIC :: u32 where
  "CCTX_MAGIC = 0x43435458"

definition VALID_CCTX :: "dns_compress \<Rightarrow> bool" where
  "VALID_CCTX cctx = (cctx_magic cctx = CCTX_MAGIC)"

definition dns_compress_init :: "int \<Rightarrow> dns_compress" where
  "dns_compress_init edns =
     \<lparr>cctx_magic = CCTX_MAGIC, cctx_allowed = 0, cctx_edns = edns,
      cctx_table = replicate DNS_COMPRESS_TABLESIZE [], cctx_count = 0\<rparr>"

definition dns_compress_invalidate :: "dns_compress \<Rightarrow> dns_compress option" where
  "dns_compress_invalidate cctx = do {
     REQUIRE (VALID_CCTX cctx);
     Some (cctx\<lparr>cctx_magic := 0, cctx_table := replicate DNS_COMPRESS_TABLESIZE [],
                cctx_allowed := 0, cctx_edns := - 1\<rparr>) }"

definition dns_compress_setmethods :: "dns_compress \<Rightarrow> u32 \<Rightarrow> dns_compress option" where
  "dns_compress_setmethods cctx allowed = do {
     REQUIRE (VALID_CCTX cctx);
     Some (cctx\<lparr>cctx_allowed :=
       (cctx_allowed cctx AND NOT DNS_COMPRESS_ALL) OR (allowed AND DNS_COMPRESS_ALL)\<rparr>) }"

definition dns_compress_getmethods :: "dns_compress \<Rightarrow> u32 option" where
  "dns_compress_getmethods cctx = do {
     REQUIRE (VALID_CCTX cctx);
     Some (cctx_allowed cctx AND DNS_COMPRESS_ALL) }"

definition dns_compress_setsensitive :: "dns_compress \<Rightarrow> bool \<Rightarrow> dns_compress option" where
  "dns_compress_setsensitive cctx sensitive = do {
     REQUIRE (VALID_CCTX cctx);
     Some (cctx\<lparr>cctx_allowed :=
       (if sensitive then cctx_allowed cctx OR DNS_COMPRESS_CASESENSITIVE
        else cctx_allowed cctx AND NOT DNS_COMPRESS_CASESENSITIVE)\<rparr>) }"

definition dns_compress_getsensitive :: "dns_compress \<Rightarrow> bool option" where
  "dns_compress_getsensitive cctx = do {
     REQUIRE (VALID_CCTX cctx);
     Some (cctx_allowed cctx AND DNS_COMPRESS_CASESENSITIVE \<noteq> 0) }"

definition dns_compress_getedns :: "dns_compress \<Rightarrow> int option" where
  "dns_compress_getedns cctx = do { REQUIRE (VALID_CCTX cctx); Some (cctx_edns cctx) }"

definition NODENAME :: "dns_compressnode \<Rightarrow> dns_name" where
  "NODENAME node = (DNS_NAME_INIT None)\<lparr>n_length := length (node_r node),
     n_labels := unat (node_labels node), n_ndata := node_r node,
     n_attributes := DNS_NAMEATTR_ABSOLUTE\<rparr>"

text \<open>The search in one chain, and the loop over the suffixes of the name from the longest on; \<open>n\<close>
  is the number of labels before the suffix and \<open>k\<close> the number of suffixes left.\<close>

fun find_chain :: "bool \<Rightarrow> dns_name \<Rightarrow> dns_compressnode list \<Rightarrow> dns_compressnode option option" where
  "find_chain sensitive tname [] = Some None"
| "find_chain sensitive tname (node # nodes) = do {
     e \<leftarrow> (if sensitive then dns_name_caseequal (NODENAME node) tname
          else dns_name_equal (NODENAME node) tname);
     if e then Some (Some node) else find_chain sensitive tname nodes }"

definition hash_chain :: "dns_compress \<Rightarrow> dns_name \<Rightarrow> nat option" where
  "hash_chain cctx tname = do {
     h \<leftarrow> dns_name_hash tname False;
     Some (unat h mod DNS_COMPRESS_TABLESIZE) }"

fun findglobal_loop ::
    "dns_compress \<Rightarrow> dns_name \<Rightarrow> nat \<Rightarrow> nat \<Rightarrow> nat \<Rightarrow> (nat \<times> dns_compressnode) option option" where
  "findglobal_loop cctx name labels n 0 = Some None"
| "findglobal_loop cctx name labels n (Suc k) = do {
     tname \<leftarrow> dns_name_getlabelsequence name n (labels - n) (dns_name_init None) False;
     hash \<leftarrow> hash_chain cctx tname;
     chain \<leftarrow> rd (cctx_table cctx) hash;
     r \<leftarrow> find_chain (cctx_allowed cctx AND DNS_COMPRESS_CASESENSITIVE \<noteq> 0) tname chain;
     case r of
       Some node \<Rightarrow> Some (Some (n, node))
     | None \<Rightarrow> findglobal_loop cctx name labels (n + 1) k }"

definition dns_compress_findglobal ::
    "dns_compress \<Rightarrow> dns_name \<Rightarrow> dns_name \<Rightarrow> (dns_name \<times> u16) option option" where
  "dns_compress_findglobal cctx name pfx = do {
     REQUIRE (VALID_CCTX cctx);
     absolute \<leftarrow> dns_name_isabsolute name;
     REQUIRE absolute;
     if cctx_count cctx = 0 then Some None
     else do {
       labels \<leftarrow> dns_name_countlabels name;
       REQUIRE (labels > 0);
       r \<leftarrow> findglobal_loop cctx name labels 0 (labels - 1);
       case r of
         None \<Rightarrow> Some None
       | Some (n, node) \<Rightarrow> do {
           pfx \<leftarrow> (if n = 0 then dns_name_reset pfx
                     else dns_name_getlabelsequence name 0 n pfx False);
           Some (Some (pfx, node_offset node)) } } }"

definition name_length :: "dns_name \<Rightarrow> nat option" where
  "name_length name = map_option length (dns_name_toregion name)"

fun add_loop ::
    "(nat \<Rightarrow> bool) \<Rightarrow> dns_name \<Rightarrow> u16 \<Rightarrow> nat \<Rightarrow> nat \<Rightarrow> nat \<Rightarrow> nat \<Rightarrow> dns_compress \<Rightarrow> dns_compress option" where
  "add_loop alloc name offset len start n 0 cctx = Some cctx"
| "add_loop alloc name offset len start n (Suc k) cctx =
     (if offset \<ge> 0x4000 then Some cctx
      else do {
        tname \<leftarrow> dns_name_getlabelsequence name start n (dns_name_init None) False;
        hash \<leftarrow> hash_chain cctx tname;
        tlength \<leftarrow> name_length tname;
        let toffset = offset + of_nat (len - tlength) in
        if unat (cctx_count cctx) \<ge> DNS_COMPRESS_INITIALNODES \<and> \<not> alloc (unat (cctx_count cctx))
        then Some cctx
        else do {
          r \<leftarrow> dns_name_toregion tname;
          labels \<leftarrow> dns_name_countlabels tname;
          chain \<leftarrow> rd (cctx_table cctx) hash;
          let node = \<lparr>node_r = r, node_offset = toffset, node_count = cctx_count cctx,
                      node_labels = of_nat labels\<rparr> in
          add_loop alloc name offset len (start + 1) (n - 1) k
            (cctx\<lparr>cctx_count := cctx_count cctx + 1,
                  cctx_table := (cctx_table cctx)[hash := node # chain]\<rparr>) } })"

definition dns_compress_add ::
    "(nat \<Rightarrow> bool) \<Rightarrow> dns_compress \<Rightarrow> dns_name \<Rightarrow> dns_name \<Rightarrow> u16 \<Rightarrow> dns_compress option" where
  "dns_compress_add alloc cctx name pfx offset = do {
     REQUIRE (VALID_CCTX cctx);
     absolute \<leftarrow> dns_name_isabsolute name;
     REQUIRE absolute;
     n \<leftarrow> dns_name_countlabels name;
     k \<leftarrow> dns_name_countlabels pfx;
     pabs \<leftarrow> dns_name_isabsolute pfx;
     len \<leftarrow> name_length name;
     add_loop alloc name offset len 0 n (if pabs then k - 1 else k) cctx }"

fun rollback_chain :: "u16 \<Rightarrow> dns_compressnode list \<Rightarrow> u16 \<Rightarrow> dns_compressnode list \<times> u16" where
  "rollback_chain offset [] cnt = ([], cnt)"
| "rollback_chain offset (node # nodes) cnt =
     (if node_offset node \<ge> offset then rollback_chain offset nodes (cnt - 1)
      else (node # nodes, cnt))"

fun rollback_table ::
    "u16 \<Rightarrow> dns_compressnode list list \<Rightarrow> u16 \<Rightarrow> dns_compressnode list list \<times> u16" where
  "rollback_table offset [] cnt = ([], cnt)"
| "rollback_table offset (chain # rest) cnt =
     (let (chain, cnt) = rollback_chain offset chain cnt;
          (rest, cnt) = rollback_table offset rest cnt in (chain # rest, cnt))"

definition dns_compress_rollback :: "dns_compress \<Rightarrow> u16 \<Rightarrow> dns_compress option" where
  "dns_compress_rollback cctx offset = do {
     REQUIRE (VALID_CCTX cctx);
     let (table, cnt) = rollback_table offset (cctx_table cctx) (cctx_count cctx) in
     Some (cctx\<lparr>cctx_table := table, cctx_count := cnt\<rparr>) }"

section \<open>dns\_name\_towire\<close>

definition dns_name_towire ::
    "(nat \<Rightarrow> bool) \<Rightarrow> dns_name \<Rightarrow> dns_compress \<Rightarrow> isc_buffer \<Rightarrow>
     (isc_result \<times> dns_compress \<times> isc_buffer) option" where
  "dns_name_towire alloc name cctx target = do {
     REQUIRE (VALID_NAME name);
     REQUIRE (ISC_BUFFER_VALID target);
     name \<leftarrow> (if n_offsets name = None then dns_name_clone name (DNS_NAME_INIT (Some []))
             else Some name);
     let gp = DNS_NAME_INIT None; offset = (ucast (b_used target) :: u16) in do {
     methods \<leftarrow> dns_compress_getmethods cctx;
     gf \<leftarrow> (if n_attributes name AND DNS_NAMEATTR_NOCOMPRESS = 0 \<and>
              methods AND DNS_COMPRESS_GLOBAL14 \<noteq> 0
           then dns_compress_findglobal cctx name gp else Some None);
     let gf = (case gf of
                 None \<Rightarrow> None
               | Some (gp, go) \<Rightarrow>
                   if go \<ge> 0x4000 then None
                   else if n_length gp + 2 \<ge> n_length name then None
                   else Some (gp, go)) in
     case gf of
       Some (gp, go) \<Rightarrow>
         if unat (b_length target - b_used target) < n_length gp
         then Some (ISC_R_NOSPACE, cctx, target)
         else do {
           xs \<leftarrow> mem_read (n_ndata gp) 0 (n_length gp);
           m \<leftarrow> mem_write (b_base target) (unat (b_used target)) xs;
           target \<leftarrow> isc__buffer_add (target\<lparr>b_base := m\<rparr>) (of_nat (n_length gp));
           if unat (b_length target - b_used target) < 2
           then Some (ISC_R_NOSPACE, cctx, target)
           else do {
             target \<leftarrow> isc__buffer_putuint16 target (go OR 0xc000);
             cctx \<leftarrow> (if n_length gp \<noteq> 0 then dns_compress_add alloc cctx name gp offset
                     else Some cctx);
             Some (ISC_R_SUCCESS, cctx, target) } }
     | None \<Rightarrow>
         if unat (b_length target - b_used target) < n_length name
         then Some (ISC_R_NOSPACE, cctx, target)
         else do {
           xs \<leftarrow> mem_read (n_ndata name) 0 (n_length name);
           m \<leftarrow> mem_write (b_base target) (unat (b_used target)) xs;
           target \<leftarrow> isc__buffer_add (target\<lparr>b_base := m\<rparr>) (of_nat (n_length name));
           cctx \<leftarrow> dns_compress_add alloc cctx name name offset;
           Some (ISC_R_SUCCESS, cctx, target) } } }"

section \<open>What the table says about the message\<close>

text \<open>Names agree when they have the same labels, up to letter case unless the context is case
  sensitive. A node is right for a message when the name at its offset agrees with the name of the
  node.\<close>

definition agree :: "bool \<Rightarrow> bytes list \<Rightarrow> bytes list \<Rightarrow> bool" where
  "agree sensitive xs ys = (if sensitive then xs = ys else lower xs = lower ys)"

definition found_at :: "bool \<Rightarrow> bytes \<Rightarrow> nat \<Rightarrow> bytes list \<Rightarrow> bool" where
  "found_at sensitive msg p ls \<longleftrightarrow> (\<exists>ls' e. name_at msg p p ls' e \<and> agree sensitive ls' ls)"

definition node_ok :: "bool \<Rightarrow> bytes \<Rightarrow> dns_compressnode \<Rightarrow> bool" where
  "node_ok sensitive msg node \<longleftrightarrow> (\<exists>ls. node_r node = wire ls \<and> unat (node_labels node) = length ls \<and>
     labels_ok ls \<and> ends_root ls \<and> found_at sensitive msg (unat (node_offset node)) ls)"

definition sensitive :: "dns_compress \<Rightarrow> bool" where
  "sensitive cctx = (cctx_allowed cctx AND DNS_COMPRESS_CASESENSITIVE \<noteq> 0)"

definition cctx_ok :: "dns_compress \<Rightarrow> bytes \<Rightarrow> bool" where
  "cctx_ok cctx msg \<longleftrightarrow> VALID_CCTX cctx \<and> length (cctx_table cctx) = DNS_COMPRESS_TABLESIZE \<and>
     (\<forall>chain \<in> set (cctx_table cctx). \<forall>node \<in> set chain. node_ok (sensitive cctx) msg node)"

lemma agree_refl [simp]: "agree s xs xs"
  by (simp add: agree_def)

lemma agree_append: "agree s xs ys \<Longrightarrow> agree s (zs @ xs) (zs @ ys)"
  by (simp add: agree_def)

lemma agree_trans: "agree s xs ys \<Longrightarrow> agree s ys zs \<Longrightarrow> agree s xs zs"
  by (simp add: agree_def split: if_splits)

lemma agree_wire: "agree s xs ys \<Longrightarrow> length (wire xs) = length (wire ys)"
  by (metis agree_def length_wire_lower)

lemma found_at_append: "found_at s msg p ls \<Longrightarrow> found_at s (msg @ ext) p ls"
  unfolding found_at_def using name_at_append by blast

lemma found_at_less: "found_at s msg p ls \<Longrightarrow> p < length msg"
  unfolding found_at_def using name_at_end by (meson less_le_trans)

lemma cctx_ok_append: "cctx_ok cctx msg \<Longrightarrow> cctx_ok cctx (msg @ ext)"
  unfolding cctx_ok_def node_ok_def using found_at_append by blast

lemma NODENAME_repr:
  assumes "node_ok s msg node"
  obtains ls where "name_repr (NODENAME node) ls" and "ends_root ls"
    and "found_at s msg (unat (node_offset node)) ls"
proof -
  obtain ls where ls: "node_r node = wire ls" "unat (node_labels node) = length ls"
     "labels_ok ls" "ends_root ls" "found_at s msg (unat (node_offset node)) ls"
    using assms by (auto simp: node_ok_def)
  have "name_repr (NODENAME node) ls"
    by (rule name_reprI [OF _ ls(3), of _ "[]"])
      (use ls in \<open>auto simp: NODENAME_def DNS_NAME_INIT_def VALID_NAME_def absolute_attr_def attr_absolute\<close>)
  then show ?thesis using that ls by blast
qed

subsection \<open>Searching\<close>

lemma find_chain_ok:
  assumes "\<forall>node \<in> set chain. node_ok s msg node" and "name_repr tname ts" and "ends_root ts"
  shows "\<exists>r. find_chain s tname chain = Some r \<and>
    (\<forall>node. r = Some node \<longrightarrow> node \<in> set chain \<and> found_at s msg (unat (node_offset node)) ts)"
  using assms(1)
proof (induction chain)
  case (Cons node chain)
  obtain ls where ls: "name_repr (NODENAME node) ls" "ends_root ls" "found_at s msg (unat (node_offset node)) ls"
    using NODENAME_repr Cons.prems by (metis list.set_intros(1))
  have e: "(if s then dns_name_caseequal (NODENAME node) tname else dns_name_equal (NODENAME node) tname) =
      Some (agree s ls ts)"
    using caseequal_repr [OF ls(1) assms(2)] equal_repr [OF ls(1) assms(2)] ls(2) assms(3)
    by (simp add: agree_def)
  have "found_at s msg (unat (node_offset node)) ts" if "agree s ls ts"
    using ls(3) that agree_trans unfolding found_at_def by blast
  then show ?case using Cons e by auto
qed simp

lemma hash_chain_ok:
  assumes "name_repr tname ts"
  obtains h where "hash_chain cctx tname = Some h" and "h < DNS_COMPRESS_TABLESIZE"
  using hash_repr [OF assms, of False] that
  by (simp add: hash_chain_def DNS_COMPRESS_TABLESIZE_def)

lemma suffix_name:
  assumes "name_repr name ls" and "n \<le> length ls"
  obtains t where "dns_name_getlabelsequence name n (length ls - n) (dns_name_init None) False = Some t"
    and "name_repr t (drop n ls)"
proof -
  have le: "n + (length ls - n) \<le> length ls" using assms(2) by simp
  obtain t where "dns_name_getlabelsequence name n (length ls - n) (DNS_NAME_INIT None) False = Some t"
    "name_repr t (take (length ls - n) (drop n ls))"
    by (rule getlabelsequence_repr [OF assms(1) le init_name(1,2), of None])
  then show ?thesis using that by (simp add: dns_name_init_def)
qed

lemma findglobal_loop_ok:
  assumes ok: "cctx_ok cctx msg" and rep: "name_repr name ls" and root: "ends_root ls"
    and "n + k = length ls - 1"
  shows "\<exists>r. findglobal_loop cctx name (length ls) n k = Some r \<and>
    (\<forall>i node. r = Some (i, node) \<longrightarrow> i < length ls - 1 \<and>
       found_at (sensitive cctx) msg (unat (node_offset node)) (drop i ls))"
  using assms(4)
proof (induction k arbitrary: n)
  case (Suc k)
  then have n: "n < length ls - 1" "n < length ls" by auto
  obtain t where t: "dns_name_getlabelsequence name n (length ls - n) (dns_name_init None) False = Some t"
    "name_repr t (drop n ls)"
    using suffix_name [OF rep less_imp_le [OF n(2)]] .
  obtain h where h: "hash_chain cctx t = Some h" "h < DNS_COMPRESS_TABLESIZE" using hash_chain_ok [OF t(2)] .
  have rt: "ends_root (drop n ls)" using root ends_root_drop n(2) by blast
  define chain where "chain = cctx_table cctx ! h"
  have c: "rd (cctx_table cctx) h = Some chain" "\<forall>node \<in> set chain. node_ok (sensitive cctx) msg node"
    using ok h(2) by (auto simp: cctx_ok_def rd_def chain_def)
  from find_chain_ok [OF c(2) t(2) rt] obtain r where r: "find_chain (sensitive cctx) t chain = Some r"
    "\<And>node. r = Some node \<Longrightarrow> found_at (sensitive cctx) msg (unat (node_offset node)) (drop n ls)"
    by blast
  have IH: "\<exists>r. findglobal_loop cctx name (length ls) (Suc n) k = Some r \<and>
    (\<forall>i node. r = Some (i, node) \<longrightarrow> i < length ls - 1 \<and>
       found_at (sensitive cctx) msg (unat (node_offset node)) (drop i ls))"
    using Suc.IH [of "Suc n"] Suc.prems by simp
  show ?case
  proof (cases r)
    case None
    then show ?thesis using t(1) h(1) c(1) r(1) IH by (auto simp: sensitive_def)
  next
    case (Some node)
    then show ?thesis using t(1) h(1) c(1) r n by (auto simp: sensitive_def)
  qed
qed simp

lemma findglobal_ok:
  assumes ok: "cctx_ok cctx msg" and rep: "name_repr name ls" and root: "ends_root ls"
  shows "\<exists>r. dns_compress_findglobal cctx name (DNS_NAME_INIT None) = Some r \<and>
    (\<forall>gp go. r = Some (gp, go) \<longrightarrow> (\<exists>i < length ls - 1. name_repr gp (take i ls) \<and>
       found_at (sensitive cctx) msg (unat go) (drop i ls)))"
proof -
  note d = name_reprD [OF rep]
  have ne: "ls \<noteq> []" using root by auto
  have v: "VALID_CCTX cctx" using ok by (simp add: cctx_ok_def)
  obtain r where r: "findglobal_loop cctx name (length ls) 0 (length ls - 1) = Some r"
    and fnd: "\<And>i node. r = Some (i, node) \<Longrightarrow> i < length ls - 1 \<and>
       found_at (sensitive cctx) msg (unat (node_offset node)) (drop i ls)"
    using findglobal_loop_ok [OF ok rep root, of 0 "length ls - 1"] by auto
  show ?thesis
  proof (cases "cctx_count cctx = 0 \<or> r = None")
    case True
    then show ?thesis
      using r v d root ne labels_le_128 [OF d(2)]
      by (auto simp: dns_compress_findglobal_def dns_name_isabsolute_def dns_name_countlabels_def)
  next
    case False
    then obtain i node where rn: "r = Some (i, node)" by auto
    note f = fnd [OF rn]
    have "\<exists>gp. (if i = 0 then dns_name_reset (DNS_NAME_INIT None)
        else dns_name_getlabelsequence name 0 i (DNS_NAME_INIT None) False) = Some gp \<and>
        name_repr gp (take i ls)"
    proof (cases "i = 0")
      case True
      have "DNS_NAME_RESET (DNS_NAME_INIT None) = Some (MAKE_EMPTY (DNS_NAME_INIT None))"
        by (simp add: DNS_NAME_RESET_def MAKE_EMPTY_def DNS_NAME_INIT_def)
      moreover have "name_repr (MAKE_EMPTY (DNS_NAME_INIT None)) []"
        using empty_repr [OF init_name(1), of None None] by (simp add: MAKE_EMPTY_def DNS_NAME_INIT_def)
      ultimately show ?thesis using True by (simp add: dns_name_reset_def init_name)
    next
      case False
      have "0 + i \<le> length ls" using f by linarith
      then obtain t where "dns_name_getlabelsequence name 0 i (DNS_NAME_INIT None) False = Some t"
        "name_repr t (take i (drop 0 ls))"
        by (rule getlabelsequence_repr [OF rep _ init_name(1,2), of 0 i None])
      then show ?thesis using False by simp
    qed
    then show ?thesis
      using False r rn f v d root ne labels_le_128 [OF d(2)]
      by (auto simp: dns_compress_findglobal_def dns_name_isabsolute_def dns_name_countlabels_def)
  qed
qed

subsection \<open>Adding\<close>

text \<open>\<open>grown off cctx cctx'\<close>: nodes with offsets from \<open>off\<close> on were put in front of the chains.\<close>

definition grown :: "nat \<Rightarrow> dns_compress \<Rightarrow> dns_compress \<Rightarrow> bool" where
  "grown off cctx cctx' \<longleftrightarrow> (\<exists>adds. length adds = length (cctx_table cctx) \<and>
     (\<forall>node \<in> set (concat adds). off \<le> unat (node_offset node)) \<and>
     cctx' = cctx\<lparr>cctx_table := map2 (@) adds (cctx_table cctx),
                  cctx_count := cctx_count cctx + of_nat (length (concat adds))\<rparr>)"

lemma map2_Nil: "map2 (@) (replicate (length xs) []) xs = xs"
  by (induction xs) simp_all

lemma map2_assoc:
  "length as = length xs \<Longrightarrow> length bs = length xs \<Longrightarrow>
   map2 (@) bs (map2 (@) as xs) = map2 (@) (map2 (@) bs as) xs"
  by (induction as xs arbitrary: bs rule: list_induct2) (auto simp: length_Suc_conv)

lemma length_concat_map2:
  "length as = length bs \<Longrightarrow> length (concat (map2 (@) as bs)) = length (concat as) + length (concat bs)"
  by (induction as bs rule: list_induct2) simp_all

lemma set_concat_map2:
  "length as = length bs \<Longrightarrow> set (concat (map2 (@) as bs)) = set (concat as) \<union> set (concat bs)"
  by (induction as bs rule: list_induct2) auto

lemma grown_refl: "grown off cctx cctx"
  unfolding grown_def
  by (rule exI [of _ "replicate (length (cctx_table cctx)) []"]) (simp add: map2_Nil)

lemma grown_trans:
  assumes "grown off c1 c2" and "grown off' c2 c3" and "off \<le> off'"
  shows "grown off c1 c3"
proof -
  obtain as where a: "length as = length (cctx_table c1)" "\<forall>node \<in> set (concat as). off \<le> unat (node_offset node)"
    "c2 = c1\<lparr>cctx_table := map2 (@) as (cctx_table c1), cctx_count := cctx_count c1 + of_nat (length (concat as))\<rparr>"
    using assms(1) by (auto simp: grown_def)
  obtain bs where b: "length bs = length (cctx_table c2)" "\<forall>node \<in> set (concat bs). off' \<le> unat (node_offset node)"
    "c3 = c2\<lparr>cctx_table := map2 (@) bs (cctx_table c2), cctx_count := cctx_count c2 + of_nat (length (concat bs))\<rparr>"
    using assms(2) by (auto simp: grown_def)
  have l: "length bs = length as" using a b by simp
  show ?thesis
    unfolding grown_def
  proof (intro exI conjI)
    show "length (map2 (@) bs as) = length (cctx_table c1)" using a l by simp
    show "\<forall>node \<in> set (concat (map2 (@) bs as)). off \<le> unat (node_offset node)"
      using a(2) b(2) assms(3) unfolding set_concat_map2 [OF l] by (fastforce intro: le_trans)
    show "c3 = c1\<lparr>cctx_table := map2 (@) (map2 (@) bs as) (cctx_table c1),
        cctx_count := cctx_count c1 + of_nat (length (concat (map2 (@) bs as)))\<rparr>"
      using a b l map2_assoc [of as "cctx_table c1" bs] length_concat_map2 [OF l] by (simp add: add_ac)
  qed
qed

lemma map2_single:
  "h < length xs \<Longrightarrow> map2 (@) ((replicate (length xs) [])[h := [y]]) xs = xs[h := y # xs ! h]"
proof (induction xs arbitrary: h)
  case (Cons x xs)
  then show ?case by (cases h) (simp_all add: map2_Nil)
qed simp

lemma length_concat_single: "h < n \<Longrightarrow> length (concat ((replicate n [])[h := [y]])) = 1"
  by (induction n arbitrary: h) (auto simp: less_Suc_eq_0_disj)

lemma set_concat_single: "set (concat ((replicate n [])[h := [y]])) \<subseteq> {y}"
proof (induction n arbitrary: h)
  case (Suc n)
  then show ?case by (cases h) auto
qed simp

lemma grown_node:
  assumes "h < length (cctx_table cctx)" and "off \<le> unat (node_offset node)"
  shows "grown off cctx (cctx\<lparr>cctx_count := cctx_count cctx + 1,
    cctx_table := (cctx_table cctx)[h := node # cctx_table cctx ! h]\<rparr>)"
  unfolding grown_def
proof (intro exI conjI)
  let ?a = "(replicate (length (cctx_table cctx)) [])[h := [node]]"
  show "length ?a = length (cctx_table cctx)" by simp
  have "set (concat ?a) \<subseteq> {node}" by (rule set_concat_single)
  then have "nd = node" if "nd \<in> set (concat ?a)" for nd using that by (simp only: subset_singleton_iff) auto
  then show "\<forall>nd \<in> set (concat ?a). off \<le> unat (node_offset nd)" using assms(2) by metis
  show "cctx\<lparr>cctx_count := cctx_count cctx + 1, cctx_table := (cctx_table cctx)[h := node # cctx_table cctx ! h]\<rparr> =
      cctx\<lparr>cctx_table := map2 (@) ?a (cctx_table cctx), cctx_count := cctx_count cctx + of_nat (length (concat ?a))\<rparr>"
    by (simp only: map2_single [OF assms(1)] length_concat_single [OF assms(1)] of_nat_1) simp
qed

lemma grown_sensitive: "grown off c c' \<Longrightarrow> sensitive c' = sensitive c"
  by (auto simp: grown_def sensitive_def)

lemma unat_toffset:
  assumes "(offset::u16) < 0x4000" and "n \<le> 255"
  shows "unat (offset + of_nat n) = unat offset + n"
proof -
  have o: "unat offset < 0x4000" using assms(1) by (simp add: word_less_nat_alt)
  have "unat (of_nat n :: u16) = n" using assms(2) by (simp add: unat_of_nat take_bit_nat_eq_self)
  then show ?thesis using o assms(2) by (simp add: unat_word_ariths)
qed

lemma cctx_ok_node:
  assumes "cctx_ok cctx msg" and "h < DNS_COMPRESS_TABLESIZE" and "node_ok (sensitive cctx) msg node"
  shows "cctx_ok (cctx\<lparr>cctx_count := c, cctx_table := (cctx_table cctx)[h := node # cctx_table cctx ! h]\<rparr>) msg"
proof -
  have "\<forall>nd \<in> set chain. node_ok (sensitive cctx) msg nd"
    if "chain \<in> set ((cctx_table cctx)[h := node # cctx_table cctx ! h])" for chain
  proof -
    have "chain = node # cctx_table cctx ! h \<or> chain \<in> set (cctx_table cctx)"
      using subsetD [OF set_update_subset_insert that] by simp
    moreover have "cctx_table cctx ! h \<in> set (cctx_table cctx)"
      using assms(1,2) by (intro nth_mem) (simp add: cctx_ok_def)
    ultimately show ?thesis using assms(1,3) unfolding cctx_ok_def by auto
  qed
  then show ?thesis using assms(1) by (auto simp: cctx_ok_def sensitive_def VALID_CCTX_def)
qed

lemma add_loop_ok:
  assumes rep: "name_repr name ls" and root: "ends_root ls" and ok: "cctx_ok cctx msg"
    and "start + k \<le> length ls - 1"
    and "\<forall>i. start \<le> i \<and> i < start + k \<longrightarrow>
      found_at (sensitive cctx) msg (unat offset + length (wire (take i ls))) (drop i ls)"
  shows "\<exists>cctx'. add_loop alloc name offset (length (wire ls)) start (length ls - start) k cctx = Some cctx' \<and>
    cctx_ok cctx' msg \<and> grown (unat offset) cctx cctx'"
  using assms(3-5)
proof (induction k arbitrary: start cctx)
  case 0
  then show ?case using grown_refl by auto
next
  case (Suc k)
  note d = name_reprD [OF rep]
  have st: "start < length ls" using Suc.prems(2) by linarith
  obtain t where t: "dns_name_getlabelsequence name start (length ls - start) (dns_name_init None) False = Some t"
    "name_repr t (drop start ls)" using suffix_name [OF rep less_imp_le [OF st]] .
  note dt = name_reprD [OF t(2)]
  obtain h where h: "hash_chain cctx t = Some h" "h < DNS_COMPRESS_TABLESIZE" using hash_chain_ok [OF t(2)] .
  have ht: "h < length (cctx_table cctx)" using Suc.prems(1) h(2) by (simp add: cctx_ok_def)
  have lw: "length (wire ls) - length (wire (drop start ls)) = length (wire (take start ls))"
    by (metis append_take_drop_id diff_add_inverse2 length_append wire_append)
  have small: "length (wire (take start ls)) \<le> 255"
    using length_wire_take [of start ls] d(2) by (simp add: labels_ok_def DNS_NAME_MAXWIRE_def)
  define node where "node = \<lparr>node_r = wire (drop start ls),
      node_offset = offset + of_nat (length (wire (take start ls))), node_count = cctx_count cctx,
      node_labels = of_nat (length ls - start)\<rparr>"
  define c1 where "c1 = cctx\<lparr>cctx_count := cctx_count cctx + 1,
      cctx_table := (cctx_table cctx)[h := node # cctx_table cctx ! h]\<rparr>"
  show ?case
  proof (cases "offset \<ge> 0x4000 \<or>
      unat (cctx_count cctx) \<ge> DNS_COMPRESS_INITIALNODES \<and> \<not> alloc (unat (cctx_count cctx))")
    case True
    then show ?thesis using t(1) h(1) dt Suc.prems(1) grown_refl by (auto simp: name_length_def Let_def)
  next
    case False
    then have off: "offset < 0x4000" unfolding de_Morgan_disj by (simp only: not_le)
    note to = unat_toffset [OF off small]
    have lab: "unat (of_nat (length ls - start) :: u8) = length ls - start"
      using labels_le_128 [OF d(2)] by (simp add: unat_of_nat take_bit_nat_eq_self)
    have "found_at (sensitive cctx) msg (unat offset + length (wire (take start ls))) (drop start ls)"
      using Suc.prems(3) by simp
    then have "node_ok (sensitive cctx) msg node"
      unfolding node_ok_def using dt(2) lab to root ends_root_drop [OF st]
      by (intro exI [of _ "drop start ls"]) (simp add: node_def)
    then have ok1: "cctx_ok c1 msg" using cctx_ok_node [OF Suc.prems(1) h(2)] by (simp add: c1_def)
    have g1: "grown (unat offset) cctx c1"
      unfolding c1_def by (rule grown_node [OF ht]) (use to in \<open>simp add: node_def\<close>)
    have "\<exists>c'. add_loop alloc name offset (length (wire ls)) (Suc start) (length ls - Suc start) k c1 = Some c' \<and>
        cctx_ok c' msg \<and> grown (unat offset) c1 c'"
      by (rule Suc.IH [OF ok1]) (use Suc.prems(2,3) grown_sensitive [OF g1] in auto)
    then obtain c' where c': "add_loop alloc name offset (length (wire ls)) (Suc start) (length ls - Suc start) k c1 = Some c'"
      "cctx_ok c' msg" "grown (unat offset) c1 c'" by blast
    have "add_loop alloc name offset (length (wire ls)) start (length ls - start) (Suc k) cctx = Some c'"
      using False t(1) h(1) ht dt labels_le_128 [OF dt(2)] c'(1)
      by (auto simp: name_length_def Let_def rd_def lw node_def c1_def dns_name_countlabels_def)
    then show ?thesis using c' grown_trans [OF g1 c'(3)] by auto
  qed
qed

lemma compress_add_ok:
  assumes rep: "name_repr name ls" and root: "ends_root ls" and ok: "cctx_ok cctx msg"
    and pre: "name_repr pfx (take i ls)" and i: "i \<le> length ls"
    and fnd: "\<And>j. j < i \<Longrightarrow> j < length ls - 1 \<Longrightarrow>
      found_at (sensitive cctx) msg (unat offset + length (wire (take j ls))) (drop j ls)"
  shows "\<exists>cctx'. dns_compress_add alloc cctx name pfx offset = Some cctx' \<and>
    cctx_ok cctx' msg \<and> grown (unat offset) cctx cctx'"
proof -
  note d = name_reprD [OF rep] and dp = name_reprD [OF pre]
  have v: "VALID_CCTX cctx" using ok by (simp add: cctx_ok_def)
  have l: "length ls \<le> 128" by (rule labels_le_128 [OF d(2)])
  let ?k = "if ends_root (take i ls) then i - 1 else i"
  have k: "?k \<le> length ls - 1"
    using i root ends_root_take [OF d(2), of i] by (cases "i = length ls") auto
  have "\<exists>cctx'. add_loop alloc name offset (length (wire ls)) 0 (length ls - 0) ?k cctx = Some cctx' \<and>
    cctx_ok cctx' msg \<and> grown (unat offset) cctx cctx'"
    by (rule add_loop_ok [OF rep root ok]) (use k fnd in auto)
  then show ?thesis
    using v d dp root i l
    by (auto simp: dns_compress_add_def dns_name_isabsolute_def dns_name_countlabels_def name_length_def min_def)
qed

subsection \<open>Rolling back\<close>

lemma rollback_chain_grown:
  assumes "\<forall>node \<in> set add. off \<le> node_offset node" and "\<forall>node \<in> set chain. node_offset node < off"
  shows "rollback_chain off (add @ chain) cnt = (chain, cnt - of_nat (length add))"
  using assms(1)
proof (induction add arbitrary: cnt)
  case Nil
  then show ?case using assms(2) by (cases chain) auto
qed (simp add: algebra_simps)

lemma rollback_table_grown:
  assumes "length adds = length table" and "\<forall>node \<in> set (concat adds). off \<le> node_offset node"
    and "\<forall>node \<in> set (concat table). node_offset node < off"
  shows "rollback_table off (map2 (@) adds table) cnt = (table, cnt - of_nat (length (concat adds)))"
  using assms
proof (induction adds table arbitrary: cnt rule: list_induct2)
  case (Cons a as t ts)
  have "rollback_chain off (a @ t) cnt = (t, cnt - of_nat (length a))"
    by (rule rollback_chain_grown) (use Cons.prems in auto)
  moreover have "rollback_table off (map2 (@) as ts) (cnt - of_nat (length a)) =
      (ts, cnt - of_nat (length a) - of_nat (length (concat as)))"
    by (rule Cons.IH) (use Cons.prems in auto)
  ultimately show ?case by (simp add: algebra_simps)
qed simp

lemma rollback_grown:
  assumes "grown (unat off) cctx cctx'" and "VALID_CCTX cctx"
    and "\<forall>node \<in> set (concat (cctx_table cctx)). node_offset node < off"
  shows "dns_compress_rollback cctx' off = Some cctx"
proof -
  obtain adds where a: "length adds = length (cctx_table cctx)"
    "\<forall>node \<in> set (concat adds). unat off \<le> unat (node_offset node)"
    "cctx' = cctx\<lparr>cctx_table := map2 (@) adds (cctx_table cctx),
                  cctx_count := cctx_count cctx + of_nat (length (concat adds))\<rparr>"
    using assms(1) by (auto simp: grown_def)
  have "rollback_table off (map2 (@) adds (cctx_table cctx)) cnt =
      (cctx_table cctx, cnt - of_nat (length (concat adds)))" for cnt
    by (rule rollback_table_grown [OF a(1) _ assms(3)]) (use a(2) in \<open>simp add: word_le_nat_alt\<close>)
  then show ?thesis using a(3) assms(2) by (simp add: dns_compress_rollback_def VALID_CCTX_def)
qed

subsection \<open>Rendering one name\<close>

lemma name_at_labels:
  assumes "\<forall>l \<in> set xs. l \<noteq> [] \<and> length l \<le> 63"
    and "name_at (pre @ wire xs @ rest) lim (length pre + length (wire xs)) ts e"
  shows "name_at (pre @ wire xs @ rest) lim (length pre) (xs @ ts) e"
  using assms
proof (induction xs arbitrary: pre)
  case (Cons l xs)
  let ?m = "pre @ wire (l # xs) @ rest"
  have m: "?m = (pre @ wire_label l) @ wire xs @ rest" by (simp add: wire_label_def)
  have "name_at ?m lim (length (pre @ wire_label l)) (xs @ ts) e"
    unfolding m by (rule Cons.IH) (use Cons.prems in \<open>simp_all add: wire_label_def add.assoc\<close>)
  then have "name_at ?m lim (length pre) (l # (xs @ ts)) e"
    by (intro name_at.label) (use Cons.prems(1) in \<open>simp_all add: rd_def nth_append wire_label_def mem_read_def\<close>)
  then show ?case by simp
qed simp

lemma name_at_plain:
  assumes "labels_ok ls" and "ends_root ls"
  shows "name_at (pre @ wire ls @ rest) lim (length pre) ls (length pre + length (wire ls))"
proof -
  obtain xs where xs: "ls = xs @ [[]]" using assms(2) by (metis append_butlast_last_id ends_root_def)
  have "\<forall>l \<in> set xs. l \<noteq> [] \<and> length l \<le> 63" using assms(1) by (auto simp: labels_ok_def xs)
  moreover have "name_at (pre @ wire xs @ 0 # rest) lim (length pre + length (wire xs)) [[]]
      (length pre + length (wire xs) + 1)"
    by (rule name_at.root) (simp add: rd_def nth_append)
  ultimately have "name_at (pre @ wire xs @ 0 # rest) lim (length pre) (xs @ [[]]) (length pre + length (wire xs) + 1)"
    by (rule name_at_labels)
  then show ?thesis by (simp add: xs wire_label_def)
qed

lemma pointer_bytes:
  assumes "(go::u16) < 0x4000"
  obtains c d where "be16 (go OR 0xc000) = [c, d]" and "192 \<le> c" and "unat (c AND 0x3F) * 256 + unat d = unat go"
proof -
  have n: "unat go < 0x4000" using assms by (simp add: word_less_nat_alt)
  have "take_bit 14 go = go"
    using n by (simp add: word_unat_eq_iff unsigned_take_bit_eq take_bit_nat_eq_self)
  then have "go AND 0xc000 = take_bit 14 (go AND 0xc000)" by (metis take_bit_and take_bit_tightened and.assoc take_bit_eq_mask and.commute)
  also have "\<dots> = take_bit 14 go AND take_bit 14 0xc000" by (rule take_bit_and)
  also have "take_bit 14 0xc000 = (0::u16)" by simp
  finally have "go AND 0xc000 = 0" by simp
  then have "go OR 0xc000 = go + 0xc000" by (simp add: disjunctive_add_eq_or)
  then have u: "unat (go OR 0xc000) = unat go + 0xc000" using n by (simp add: unat_word_ariths)
  let ?c = "ucast (drop_bit 8 ((go OR 0xc000) AND 0xff00)) :: u8" and ?d = "ucast ((go OR 0xc000) AND 0xff) :: u8"
  have c: "unat ?c = (unat go + 0xc000) div 256"
  proof -
    have "drop_bit 8 ((go OR 0xc000) AND 0xff00) = drop_bit 8 (go OR 0xc000) AND 0xff" by (simp add: drop_bit_and)
    also have "\<dots> = take_bit 8 (drop_bit 8 (go OR 0xc000))" by (simp add: take_bit_eq_mask mask_eq_exp_minus_1)
    finally have "unat ?c = unat (go OR 0xc000) div 256 mod 256"
      by (simp add: unsigned_ucast_eq unsigned_take_bit_eq unsigned_drop_bit_eq take_bit_eq_mod drop_bit_eq_div unat_div unat_mod)
    then show ?thesis using u n by simp
  qed
  have d: "unat ?d = unat go mod 256"
  proof -
    have "(go OR 0xc000) AND 0xff = take_bit 8 (go OR 0xc000)" by (simp add: take_bit_eq_mask mask_eq_exp_minus_1)
    then have "unat ?d = unat (go OR 0xc000) mod 256"
      by (simp add: unsigned_ucast_eq unsigned_take_bit_eq take_bit_eq_mod unat_mod)
    also have "\<dots> = (unat go + 256 * 192) mod 256" by (simp add: u)
    finally show ?thesis by (simp only: mod_mult_self2)
  qed
  have a: "unat (?c AND 0x3F) = unat ?c mod 64"
  proof -
    have "?c AND 0x3F = take_bit 6 ?c" by (simp add: take_bit_eq_mask mask_eq_exp_minus_1)
    then show ?thesis by (simp add: unsigned_take_bit_eq take_bit_eq_mod unat_mod)
  qed
  have "(unat go + 0xc000) div 256 = unat go div 256 + 64 * 3" by simp
  then have "(unat go + 0xc000) div 256 mod 64 = unat go div 256" using n by (simp only: mod_mult_self2) simp
  then have e: "(unat go + 0xc000) div 256 mod 64 * 256 + unat go mod 256 = unat go" by simp
  show ?thesis
    by (rule that [of ?c ?d]) (use c d a n e in \<open>simp_all add: be16_def word_le_nat_alt\<close>)
qed

lemma name_at_pointer:
  assumes "name_at pre q q ts e" and "unat go = q" and "go < 0x4000"
    and "\<forall>l \<in> set xs. l \<noteq> [] \<and> length l \<le> 63"
  shows "name_at (pre @ ys @ wire xs @ be16 (go OR 0xc000)) (length (pre @ ys)) (length (pre @ ys)) (xs @ ts)
    (length (pre @ ys) + length (wire xs) + 2)"
proof -
  let ?m = "pre @ ys @ wire xs @ be16 (go OR 0xc000)" and ?p = "length (pre @ ys) + length (wire xs)"
  obtain c d where cd: "be16 (go OR 0xc000) = [c, d]" "192 \<le> c" "unat (c AND 0x3F) * 256 + unat d = unat go"
    using pointer_bytes [OF assms(3)] .
  have "name_at ?m q q ts e" by (rule name_at_append [OF assms(1)])
  moreover have "q < length (pre @ ys)" using name_at_end [OF assms(1)] by simp
  ultimately have "name_at ?m (length (pre @ ys)) ?p ts (?p + 2)"
    by (intro name_at.pointer [of _ _ c d q _ _ e]) (use cd assms(2) in \<open>simp_all add: rd_def nth_append\<close>)
  then show ?thesis
    using name_at_labels [OF assms(4), of "pre @ ys" "be16 (go OR 0xc000)" "length (pre @ ys)" ts "?p + 2"]
    by simp
qed


text \<open>The outcome of rendering a name: the target keeps what it held; it has no room for the labels
  and the context is unchanged, or the name can be found where the target ended, the context is right for the longer
  message and only nodes with offsets from there on are new.\<close>

definition rendered ::
    "bytes list \<Rightarrow> dns_compress \<Rightarrow> isc_buffer \<Rightarrow> (isc_result \<times> dns_compress \<times> isc_buffer) \<Rightarrow> bool" where
  "rendered ls cctx target = (\<lambda>(result, cctx', target').
     buf_wf target' \<and> b_length target' = b_length target \<and>
     (\<exists>ext. buf_used_bytes target' = buf_used_bytes target @ ext \<and> length ext \<le> length (wire ls)) \<and>
     (if result = ISC_R_SUCCESS then
        cctx_ok cctx' (buf_used_bytes target') \<and> grown (unat (b_used target)) cctx cctx' \<and>
        (\<exists>ls'. name_at (buf_used_bytes target') (unat (b_used target)) (unat (b_used target)) ls'
                (unat (b_used target')) \<and> agree (sensitive cctx) ls' ls)
      else result = ISC_R_NOSPACE \<and> cctx' = cctx \<and> buf_room target < length (wire ls)))"

lemma name_bytes: "name_repr name ls \<Longrightarrow> mem_read (n_ndata name) 0 (n_length name) = Some (wire ls)"
  using name_repr_bytes [of name ls] name_reprD [of name ls]
  by (metis append_eq_conv_conj append_take_drop_id drop0 length_append le_add1 add_0 mem_read_Some)

lemma towire_plain:
  assumes rep: "name_repr name ls" and root: "ends_root ls"
    and ok: "cctx_ok cctx (buf_used_bytes target)" and wf: "buf_wf target"
    and off: "unat offset = unat (b_used target)"
  shows "\<exists>r. (if unat (b_length target - b_used target) < n_length name
         then Some (ISC_R_NOSPACE, cctx, target)
         else do {
           xs \<leftarrow> mem_read (n_ndata name) 0 (n_length name);
           m \<leftarrow> mem_write (b_base target) (unat (b_used target)) xs;
           target \<leftarrow> isc__buffer_add (target\<lparr>b_base := m\<rparr>) (of_nat (n_length name));
           cctx \<leftarrow> dns_compress_add alloc cctx name name offset;
           Some (ISC_R_SUCCESS, cctx, target) }) = Some r \<and> rendered ls cctx target r"
proof -
  note d = name_reprD [OF rep]
  have room: "unat (b_length target - b_used target) = buf_room target"
    using wf by (simp add: buf_wf_def buf_room_def unat_minus_le)
  show ?thesis
  proof (cases "buf_room target < length (wire ls)")
    case True
    then show ?thesis using wf d by (auto simp: room rendered_def)
  next
    case False
    then have fit: "length (wire ls) \<le> buf_room target" by simp
    obtain m b' where m: "mem_write (b_base target) (unat (b_used target)) (wire ls) = Some m"
      "isc__buffer_add (target\<lparr>b_base := m\<rparr>) (of_nat (length (wire ls))) = Some b'" "buf_wf b'"
      "b_length b' = b_length target" "unat (b_used b') = unat (b_used target) + length (wire ls)"
      "buf_used_bytes b' = buf_used_bytes target @ wire ls"
      using buffer_store [OF wf fit] by metis
    note u = length_buf_used [OF wf]
    have at: "name_at (buf_used_bytes b') lim (unat (b_used target) + length (wire (take j ls))) (drop j ls)
        (unat (b_used b'))" if "j < length ls" for j lim
    proof -
      have w: "wire ls = wire (take j ls) @ wire (drop j ls)" by (metis append_take_drop_id wire_append)
      show ?thesis
        using name_at_plain [OF labels_ok_drop [OF d(2), of j], of "buf_used_bytes target @ wire (take j ls)" "[]" lim]
          ends_root_drop [OF that] root u w
        by (simp add: m(5,6) add.assoc)
    qed
    have "cctx_ok cctx (buf_used_bytes b')" unfolding m(6) by (rule cctx_ok_append [OF ok])
    then obtain c' where c': "dns_compress_add alloc cctx name name offset = Some c'"
      "cctx_ok c' (buf_used_bytes b')" "grown (unat offset) cctx c'"
      using compress_add_ok [OF rep root, of cctx "buf_used_bytes b'" name "length ls" offset alloc] rep at off
      by (fastforce simp: found_at_def)
    have "0 < length ls" using root by auto
    from at [OF this] have "name_at (buf_used_bytes b') (unat (b_used target)) (unat (b_used target)) ls (unat (b_used b'))"
      by simp
    then have "rendered ls cctx target (ISC_R_SUCCESS, c', b')"
      using m c' off by (auto simp: rendered_def intro: exI [of _ ls])
    then show ?thesis using False m c'(1) d name_bytes [OF rep] by (simp add: room)
  qed
qed

lemma put16_ok:
  assumes wf: "buf_wf b" and room: "2 \<le> buf_room b"
  shows "\<exists>b'. isc__buffer_putuint16 b v = Some b' \<and> buf_wf b' \<and> b_length b' = b_length b \<and>
    buf_used_bytes b' = buf_used_bytes b @ be16 v"
proof -
  obtain b' where b': "isc__buffer_putuint16 b v = Some b'" "buf_wf b'" "buf_room b' = buf_room b - 2"
    "buf_used_bytes b' = buf_used_bytes b @ be16 v"
    using put_ok [OF wf, of "be16 v" 2] room
    by (auto simp: isc__buffer_putuint16_def ISC__BUFFER_PUTUINT16_def be16_def)
  have "unat (b_used b') = unat (b_used b) + 2"
    using length_buf_used [OF wf] length_buf_used [OF b'(2)] by (simp add: b'(4))
  then have "unat (b_length b') = unat (b_length b)"
    using b'(2,3) wf room by (auto simp: buf_room_def buf_wf_def)
  then show ?thesis using b' by (auto simp: word_unat_eq_iff)
qed

lemma pointer_suffixes:
  assumes ls: "labels_ok ls" and fnd: "found_at s msg (unat go) (drop i ls)" and go: "go < 0x4000"
    and i: "i < length ls - 1" and j: "j \<le> i"
  shows "\<exists>ls'. name_at (msg @ wire (take i ls) @ be16 (go OR 0xc000)) (length msg + length (wire (take j ls)))
      (length msg + length (wire (take j ls))) ls' (length msg + length (wire (take i ls)) + 2) \<and>
    agree s ls' (drop j ls)"
proof -
  obtain ts e where ts: "name_at msg (unat go) (unat go) ts e" "agree s ts (drop i ls)"
    using fnd by (auto simp: found_at_def)
  have good: "\<forall>l \<in> set (drop j (take i ls)). l \<noteq> [] \<and> length l \<le> 63"
  proof -
    have "take i ls = take i (butlast ls)" using i by (simp add: take_butlast)
    then have "set (drop j (take i ls)) \<subseteq> set (butlast ls)"
      using set_drop_subset [of j "take i ls"] set_take_subset [of i "butlast ls"] by auto
    then show ?thesis using ls by (auto simp: labels_ok_def dest: in_set_butlastD)
  qed
  have w: "wire (take i ls) = wire (take j ls) @ wire (drop j (take i ls))"
    using j by (metis append_take_drop_id min.absorb1 take_take wire_append)
  have "name_at (msg @ wire (take i ls) @ be16 (go OR 0xc000)) (length msg + length (wire (take j ls)))
      (length msg + length (wire (take j ls))) (drop j (take i ls) @ ts) (length msg + length (wire (take i ls)) + 2)"
    using name_at_pointer [OF ts(1) refl go good, of "wire (take j ls)"] by (simp add: w add.assoc)
  moreover have "drop j ls = drop j (take i ls) @ drop i ls"
    using j i drop_append [of j "take i ls" "drop i ls"] by simp
  ultimately show ?thesis using agree_append [OF ts(2)] by auto
qed

lemma towire_pointer:
  assumes rep: "name_repr name ls" and root: "ends_root ls"
    and ok: "cctx_ok cctx (buf_used_bytes target)" and wf: "buf_wf target"
    and off: "unat offset = unat (b_used target)"
    and gp: "name_repr gp (take i ls)" and i: "i < length ls - 1"
    and fnd: "found_at (sensitive cctx) (buf_used_bytes target) (unat go) (drop i ls)"
    and go: "go < 0x4000" and short: "n_length gp + 2 < n_length name"
  shows "\<exists>r. (if unat (b_length target - b_used target) < n_length gp
         then Some (ISC_R_NOSPACE, cctx, target)
         else do {
           xs \<leftarrow> mem_read (n_ndata gp) 0 (n_length gp);
           m \<leftarrow> mem_write (b_base target) (unat (b_used target)) xs;
           target \<leftarrow> isc__buffer_add (target\<lparr>b_base := m\<rparr>) (of_nat (n_length gp));
           if unat (b_length target - b_used target) < 2
           then Some (ISC_R_NOSPACE, cctx, target)
           else do {
             target \<leftarrow> isc__buffer_putuint16 target (go OR 0xc000);
             cctx \<leftarrow> (if n_length gp \<noteq> 0 then dns_compress_add alloc cctx name gp offset
                     else Some cctx);
             Some (ISC_R_SUCCESS, cctx, target) } }) = Some r \<and> rendered ls cctx target r"
proof -
  note d = name_reprD [OF rep] and dg = name_reprD [OF gp]
  let ?w = "wire (take i ls)"
  have room: "unat (b_length b - b_used b) = buf_room b" if "buf_wf b" for b
    using that by (simp add: buf_wf_def buf_room_def unat_minus_le)
  show ?thesis
  proof (cases "buf_room target < length ?w")
    case True
    then show ?thesis using wf dg length_wire_take [of i ls] by (auto simp: room rendered_def)
  next
    case False
    then have fit: "length ?w \<le> buf_room target" by simp
    obtain m b1 where m: "mem_write (b_base target) (unat (b_used target)) ?w = Some m"
      "isc__buffer_add (target\<lparr>b_base := m\<rparr>) (of_nat (length ?w)) = Some b1" "buf_wf b1"
      "b_length b1 = b_length target" "unat (b_used b1) = unat (b_used target) + length ?w"
      "buf_used_bytes b1 = buf_used_bytes target @ ?w"
      using buffer_store [OF wf fit] by metis
    note u = length_buf_used [OF wf]
    have room1: "unat (b_length target - b_used b1) = buf_room b1" using room [OF m(3)] m(4) by simp
    show ?thesis
    proof (cases "buf_room b1 < 2")
      case True
      have "rendered ls cctx target (ISC_R_NOSPACE, cctx, b1)"
        using m short d dg True by (simp add: rendered_def buf_room_def)
      then show ?thesis using True False m name_bytes [OF gp] dg by (simp add: room [OF wf] room1)
    next
      case False
      obtain b2 where b2: "isc__buffer_putuint16 b1 (go OR 0xc000) = Some b2" "buf_wf b2"
        "b_length b2 = b_length target" "buf_used_bytes b2 = buf_used_bytes target @ ?w @ be16 (go OR 0xc000)"
        using put16_ok [OF m(3), of "go OR 0xc000"] False m(4,6) by auto
      have u2: "unat (b_used b2) = unat (b_used target) + length ?w + 2"
        using length_buf_used [OF b2(2)] u by (simp add: b2(4))
      have at: "\<exists>ls'. name_at (buf_used_bytes b2) (unat (b_used target) + length (wire (take j ls)))
          (unat (b_used target) + length (wire (take j ls))) ls' (unat (b_used b2)) \<and>
          agree (sensitive cctx) ls' (drop j ls)" if "j \<le> i" for j
        using pointer_suffixes [OF d(2) fnd go i that] by (simp add: u u2 b2(4))
      have ok2: "cctx_ok cctx (buf_used_bytes b2)" unfolding b2(4) by (rule cctx_ok_append [OF ok])
      obtain c' where c': "(if n_length gp \<noteq> 0 then dns_compress_add alloc cctx name gp offset else Some cctx) = Some c'"
        "cctx_ok c' (buf_used_bytes b2)" "grown (unat offset) cctx c'"
      proof (cases "n_length gp = 0")
        case True
        then show ?thesis using that ok2 grown_refl by auto
      next
        case nz: False
        have fa: "found_at (sensitive cctx) (buf_used_bytes b2) (unat offset + length (wire (take j ls))) (drop j ls)"
          if "j < i" for j using at [of j] that off unfolding found_at_def by auto
        have "i \<le> length ls" using i by simp
        from compress_add_ok [OF rep root ok2 gp this fa, of alloc] obtain c2 where
          "dns_compress_add alloc cctx name gp offset = Some c2" "cctx_ok c2 (buf_used_bytes b2)"
          "grown (unat offset) cctx c2" by blast
        then show ?thesis using that nz by simp
      qed
      have "rendered ls cctx target (ISC_R_SUCCESS, c', b2)"
        using b2 c' off at [of 0] short d dg by (simp add: rendered_def)
      then show ?thesis using False fit m b2 c'(1) name_bytes [OF gp] dg by (simp add: room [OF wf] room1)
    qed
  qed
qed

lemma towire_ok:
  assumes rep: "name_repr name ls" and root: "ends_root ls"
    and ok: "cctx_ok cctx (buf_used_bytes target)" and wf: "buf_wf target"
    and small: "unat (b_used target) < 65536"
  shows "\<exists>r. dns_name_towire alloc name cctx target = Some r \<and> rendered ls cctx target r"
proof -
  have off: "unat (ucast (b_used target) :: u16) = unat (b_used target)"
    using small by (simp add: unsigned_ucast_eq take_bit_nat_eq_self)
  obtain name' where n': "(if n_offsets name = None then dns_name_clone name (DNS_NAME_INIT (Some []))
      else Some name) = Some name'" "name_repr name' ls"
    using clone_repr [OF rep init_name(1,2), of "Some []"] rep by (cases "n_offsets name = None") auto
  note d = name_reprD [OF rep]
  have v: "VALID_CCTX cctx" using ok by (simp add: cctx_ok_def)
  obtain methods where me: "dns_compress_getmethods cctx = Some methods"
    using v by (simp add: dns_compress_getmethods_def)
  obtain g where g: "(if n_attributes name' AND DNS_NAMEATTR_NOCOMPRESS = 0 \<and>
      methods AND DNS_COMPRESS_GLOBAL14 \<noteq> 0
      then dns_compress_findglobal cctx name' (DNS_NAME_INIT None) else Some None) = Some g"
    "\<And>gp go. g = Some (gp, go) \<Longrightarrow> \<exists>i < length ls - 1. name_repr gp (take i ls) \<and>
       found_at (sensitive cctx) (buf_used_bytes target) (unat go) (drop i ls)"
    using findglobal_ok [OF ok n'(2) root] by (fastforce split: if_splits)
  define gf where "gf = (case g of None \<Rightarrow> None | Some (gp, go) \<Rightarrow>
     if go \<ge> 0x4000 then None else if n_length gp + 2 \<ge> n_length name' then None else Some (gp, go))"
  note eq = dns_name_towire_def n'(1) me g(1) gf_def [symmetric] v d(1) buf_wf_valid [OF wf]
  show ?thesis
  proof (cases gf)
    case None
    then show ?thesis using towire_plain [OF n'(2) root ok wf off, of alloc] by (simp add: eq)
  next
    case (Some p)
    obtain gp go where p: "p = (gp, go)" by force
    have "g = Some (gp, go)" "go < 0x4000" "n_length gp + 2 < n_length name'"
      using Some p by (auto simp: gf_def not_le split: option.splits if_splits)
    with g(2) obtain i where "i < length ls - 1" "name_repr gp (take i ls)"
       "found_at (sensitive cctx) (buf_used_bytes target) (unat go) (drop i ls)" by blast
    then show ?thesis
      using towire_pointer [OF n'(2) root ok wf off, of gp i go alloc] Some p
        \<open>go < 0x4000\<close> \<open>n_length gp + 2 < n_length name'\<close> by (simp add: eq)
  qed
qed

section \<open>Rendering a message\<close>

text \<open>
  \<open>rendering alloc cctx0 target0 cctx target log\<close>: a message that is rendered from the context
  \<open>cctx0\<close> and the buffer \<open>target0\<close> on reaches \<open>cctx\<close> and \<open>target\<close>. It renders absolute names, also ones
  that do not fit, stores other bytes, and changes the compression methods, as the record types do.
  Like \<open>dns_message_rendersection\<close> of \<open>lib/dns/message.c\<close> it can go back to an earlier point: the
  saved structure is copied to the buffer, whose memory stays as it is, and the context is rolled
  back. \<open>log\<close> holds the start, the labels and the end of the names in the message.
\<close>

inductive rendering ::
    "(nat \<Rightarrow> bool) \<Rightarrow> dns_compress \<Rightarrow> isc_buffer \<Rightarrow> dns_compress \<Rightarrow> isc_buffer \<Rightarrow>
     (nat \<times> bytes list \<times> nat) list \<Rightarrow> bool" for alloc where
  start: "rendering alloc c t c t []"
| name: "rendering alloc c0 t0 c' t' ((unat (b_used t), ls, unat (b_used t')) # log)"
    if "rendering alloc c0 t0 c t log" "unat (b_used t) < 65536" "name_repr name ls" "ends_root ls"
      "dns_name_towire alloc name c t = Some (ISC_R_SUCCESS, c', t')"
| full: "rendering alloc c0 t0 c' t' log"
    if "rendering alloc c0 t0 c t log" "unat (b_used t) < 65536" "name_repr name ls" "ends_root ls"
      "dns_name_towire alloc name c t = Some (ISC_R_NOSPACE, c', t')"
| bytes: "rendering alloc c0 t0 c t' log"
    if "rendering alloc c0 t0 c t log" "length xs \<le> buf_room t" "isc__buffer_putmem t xs = Some t'"
| methods: "rendering alloc c0 t0 c' t log"
    if "rendering alloc c0 t0 c t log" "dns_compress_setmethods c allowed = Some c'"
| rollback: "rendering alloc c0 t0 c' (t\<lparr>b_base := b_base t'\<rparr>) log"
    if "rendering alloc c0 t0 c t log" "unat (b_used t) < 65536" "rendering alloc c t c2 t' log2"
      "dns_compress_rollback c2 (ucast (b_used t)) = Some c'"

definition rendering_ok ::
    "dns_compress \<Rightarrow> isc_buffer \<Rightarrow> dns_compress \<Rightarrow> isc_buffer \<Rightarrow> (nat \<times> bytes list \<times> nat) list \<Rightarrow> bool" where
  "rendering_ok c0 t0 c t log \<longleftrightarrow> cctx_ok c (buf_used_bytes t) \<and> buf_wf t \<and> b_length t = b_length t0 \<and>
     (\<exists>ext. buf_used_bytes t = buf_used_bytes t0 @ ext) \<and>
     grown (unat (b_used t0)) (c0\<lparr>cctx_allowed := cctx_allowed c\<rparr>) c \<and> sensitive c = sensitive c0 \<and>
     (\<forall>(p, ls, e) \<in> set log. labels_ok ls \<and> (\<exists>ls'. name_at (buf_used_bytes t) p p ls' e \<and> agree (sensitive c0) ls' ls))"

lemma grown_allowed: "grown off c c' \<Longrightarrow> grown off (c\<lparr>cctx_allowed := a\<rparr>) (c'\<lparr>cctx_allowed := a\<rparr>)"
  unfolding grown_def by auto

lemma used_mono:
  assumes "buf_wf t" and "buf_wf t'" and "buf_used_bytes t' = buf_used_bytes t @ ext"
  shows "unat (b_used t) \<le> unat (b_used t')"
  using length_buf_used [OF assms(1)] length_buf_used [OF assms(2)] by (simp add: assms(3))

lemma same_length:
  assumes "buf_wf t" and "buf_wf t' \<and> buf_room t' = buf_room t - n \<and> buf_used_bytes t' = buf_used_bytes t @ xs"
    and "length xs \<le> buf_room t" and "n = length xs"
  shows "b_length t' = b_length t"
proof -
  have "unat (b_used t') = unat (b_used t) + n"
    using length_buf_used [OF assms(1)] length_buf_used [of t'] assms(2,4) by simp
  then have "unat (b_length t') = unat (b_length t)" using assms by (auto simp: buf_room_def buf_wf_def)
  then show ?thesis by (simp add: word_unat_eq_iff)
qed

lemma restored:
  assumes "buf_wf t" and "buf_wf t'" and "b_length t' = b_length t" and "buf_used_bytes t' = buf_used_bytes t @ ext"
  shows "buf_used_bytes (t\<lparr>b_base := b_base t'\<rparr>) = buf_used_bytes t" and "buf_wf (t\<lparr>b_base := b_base t'\<rparr>)"
proof -
  have le: "unat (b_used t) \<le> unat (b_used t')" by (rule used_mono [OF assms(1,2,4)])
  have "take (unat (b_used t)) (b_base t') = take (unat (b_used t)) (buf_used_bytes t')"
    using le by (simp add: buf_used_bytes_def min_def)
  then show "buf_used_bytes (t\<lparr>b_base := b_base t'\<rparr>) = buf_used_bytes t"
    using length_buf_used [OF assms(1)] by (simp add: assms(4) buf_used_bytes_def [of "t\<lparr>b_base := b_base t'\<rparr>"])
  show "buf_wf (t\<lparr>b_base := b_base t'\<rparr>)"
    using assms(1-3) by (simp add: buf_wf_def ISC_BUFFER_VALID_def)
qed

lemma log_append:
  assumes "\<forall>(p, ls, e) \<in> set log. labels_ok ls \<and> (\<exists>ls'. name_at msg p p ls' e \<and> agree s ls' ls)"
  shows "\<forall>(p, ls, e) \<in> set log. labels_ok ls \<and> (\<exists>ls'. name_at (msg @ ext) p p ls' e \<and> agree s ls' ls)"
  using assms name_at_append by fastforce

lemma rendering_extend:
  assumes "rendering_ok c0 t0 c t log" and "buf_wf t0" and "buf_wf t'" and "b_length t' = b_length t"
    and "buf_used_bytes t' = buf_used_bytes t @ ext"
    and "cctx_ok c' (buf_used_bytes t')" and "grown (unat (b_used t)) c c'"
  shows "rendering_ok c0 t0 c' t' log"
proof -
  have r: "buf_wf t" "b_length t = b_length t0" "\<exists>e. buf_used_bytes t = buf_used_bytes t0 @ e"
    "grown (unat (b_used t0)) (c0\<lparr>cctx_allowed := cctx_allowed c\<rparr>) c" "sensitive c = sensitive c0"
    "\<forall>(p, ls, e) \<in> set log. labels_ok ls \<and> (\<exists>ls'. name_at (buf_used_bytes t) p p ls' e \<and> agree (sensitive c0) ls' ls)"
    using assms(1) unfolding rendering_ok_def by blast+
  have "unat (b_used t0) \<le> unat (b_used t)" using used_mono [OF assms(2) r(1)] r(3) by blast
  then have g: "grown (unat (b_used t0)) (c0\<lparr>cctx_allowed := cctx_allowed c\<rparr>) c'"
    using grown_trans [OF r(4) assms(7)] by blast
  have a: "cctx_allowed c' = cctx_allowed c" using assms(7) by (auto simp: grown_def)
  show ?thesis
    unfolding rendering_ok_def
    using assms(3,4,5,6) r(2,3,5) g a log_append [OF r(6), of ext] grown_sensitive [OF assms(7)] by auto
qed

lemma rendering_nodes:
  "cctx_ok c msg \<Longrightarrow> node \<in> set (concat (cctx_table c)) \<Longrightarrow> unat (node_offset node) < length msg"
  unfolding cctx_ok_def node_ok_def using found_at_less by fastforce

lemma rendering_rollback:
  assumes "rendering_ok c t c2 t' log" and "cctx_ok c (buf_used_bytes t)" and "buf_wf t"
    and "unat (b_used t) < 65536"
  shows "dns_compress_rollback c2 (ucast (b_used t)) = Some (c\<lparr>cctx_allowed := cctx_allowed c2\<rparr>)"
proof (rule rollback_grown)
  have off: "unat (ucast (b_used t) :: u16) = unat (b_used t)"
    using assms(4) by (simp add: unsigned_ucast_eq take_bit_nat_eq_self)
  show "grown (unat (ucast (b_used t) :: u16)) (c\<lparr>cctx_allowed := cctx_allowed c2\<rparr>) c2"
    using assms(1) by (simp add: off rendering_ok_def)
  show "VALID_CCTX (c\<lparr>cctx_allowed := cctx_allowed c2\<rparr>)"
    using assms(2) by (simp add: cctx_ok_def VALID_CCTX_def)
  show "\<forall>node \<in> set (concat (cctx_table (c\<lparr>cctx_allowed := cctx_allowed c2\<rparr>))). node_offset node < ucast (b_used t)"
    using rendering_nodes [OF assms(2)] length_buf_used [OF assms(3)] by (simp add: word_less_nat_alt off)
qed

lemma cctx_ok_allowed:
  "cctx_ok c msg \<Longrightarrow> sensitive (c\<lparr>cctx_allowed := a\<rparr>) = sensitive c \<Longrightarrow> cctx_ok (c\<lparr>cctx_allowed := a\<rparr>) msg"
  by (simp add: cctx_ok_def VALID_CCTX_def)

lemma setmethods_sensitive:
  assumes "dns_compress_setmethods c allowed = Some c'"
  shows "c' = c\<lparr>cctx_allowed := cctx_allowed c'\<rparr>" and "sensitive c' = sensitive c"
proof -
  have "((x AND NOT 1) OR (y AND 1)) AND 2 = x AND (2::u32)" for x y :: u32
    by (rule bit_eqI) (auto simp: bit_simps)
  then show "c' = c\<lparr>cctx_allowed := cctx_allowed c'\<rparr>" and "sensitive c' = sensitive c"
    using assms by (auto simp: dns_compress_setmethods_def run_simps sensitive_def DNS_COMPRESS_ALL_def
        DNS_COMPRESS_CASESENSITIVE_def)
qed

lemma render_name_ok:
  assumes ok: "rendering_ok c0 t0 c t log" and t0: "buf_wf t0" and "unat (b_used t) < 65536"
    and "name_repr name ls" and "ends_root ls" and "dns_name_towire alloc name c t = Some (result, c', t')"
  shows "rendering_ok c0 t0 c' t' (if result = ISC_R_SUCCESS then (unat (b_used t), ls, unat (b_used t')) # log else log)"
proof -
  have c: "cctx_ok c (buf_used_bytes t)" "buf_wf t" "sensitive c = sensitive c0"
    using ok by (simp_all add: rendering_ok_def)
  have r: "rendered ls c t (result, c', t')"
    using towire_ok [OF assms(4,5) c(1,2) assms(3), of alloc] assms(6) by simp
  then obtain ext where e: "buf_used_bytes t' = buf_used_bytes t @ ext" by (auto simp: rendered_def)
  have "cctx_ok c' (buf_used_bytes t') \<and> grown (unat (b_used t)) c c'"
    using r cctx_ok_append [OF c(1), of ext] grown_refl e by (auto simp: rendered_def split: if_splits)
  then have "rendering_ok c0 t0 c' t' log"
    using rendering_extend [OF ok t0 _ _ e] r by (auto simp: rendered_def)
  then show ?thesis
    using r c(3) name_reprD(2) [OF assms(4)] by (auto simp: rendering_ok_def rendered_def)
qed

lemma rendering_invariant:
  assumes "rendering alloc c0 t0 c t log" and "cctx_ok c0 (buf_used_bytes t0)" and "buf_wf t0"
  shows "rendering_ok c0 t0 c t log"
  using assms
proof (induction rule: rendering.induct)
  case (start c t)
  have "c\<lparr>cctx_allowed := cctx_allowed c\<rparr> = c" by simp
  then show ?case using start grown_refl by (simp add: rendering_ok_def)
next
  case (name c0 t0 c t log name ls c' t')
  then show ?case using render_name_ok [OF name.IH [OF name.prems] name.prems(2) name.hyps(2-5)] by simp
next
  case (full c0 t0 c t log name ls c' t')
  then show ?case using render_name_ok [OF full.IH [OF full.prems] full.prems(2) full.hyps(2-5)] by simp
next
  case (bytes c0 t0 c t log xs t')
  note ok = bytes.IH [OF bytes.prems]
  then have wf: "buf_wf t" "cctx_ok c (buf_used_bytes t)" by (simp_all add: rendering_ok_def)
  have "buf_wf t' \<and> buf_room t' = buf_room t - length xs \<and> buf_used_bytes t' = buf_used_bytes t @ xs"
    using put_ok [OF wf(1) bytes.hyps(2) refl] bytes.hyps(3) by (simp add: isc__buffer_putmem_def)
  then show ?case
    using rendering_extend [OF ok bytes.prems(2), of t' xs c] cctx_ok_append [OF wf(2)] grown_refl
      same_length [OF wf(1) _ bytes.hyps(2) refl] by simp
next
  case (methods c0 t0 c t log allowed c')
  note ok = methods.IH [OF methods.prems] and m = setmethods_sensitive [OF methods.hyps(2)]
  have "cctx_ok c' (buf_used_bytes t)"
    using cctx_ok_allowed [of c "buf_used_bytes t" "cctx_allowed c'"] ok m by (simp add: rendering_ok_def)
  moreover have "grown (unat (b_used t0)) (c0\<lparr>cctx_allowed := cctx_allowed c'\<rparr>) c'"
    using grown_allowed [of "unat (b_used t0)" "c0\<lparr>cctx_allowed := cctx_allowed c\<rparr>" c "cctx_allowed c'"] ok m(1)
    by (simp add: rendering_ok_def)
  ultimately show ?case using ok m(2) by (simp add: rendering_ok_def)
next
  case (rollback c0 t0 c t log c2 t' log2 c')
  note ok = rollback.IH(1) [OF rollback.prems]
  then have c: "cctx_ok c (buf_used_bytes t)" "buf_wf t" by (simp_all add: rendering_ok_def)
  note ok2 = rollback.IH(2) [OF c]
  have c': "c' = c\<lparr>cctx_allowed := cctx_allowed c2\<rparr>"
    using rendering_rollback [OF ok2 c rollback.hyps(2)] rollback.hyps(4) by simp
  let ?t = "t\<lparr>b_base := b_base t'\<rparr>"
  have u: "buf_used_bytes ?t = buf_used_bytes t" "buf_wf ?t"
    using restored [OF c(2)] ok2 by (auto simp: rendering_ok_def)
  have "sensitive c' = sensitive c" using ok2 c' by (simp add: rendering_ok_def sensitive_def)
  then have "cctx_ok c' (buf_used_bytes ?t)" "sensitive c' = sensitive c0"
    using cctx_ok_allowed [OF c(1), of "cctx_allowed c2"] ok c' u(1) by (simp_all add: rendering_ok_def)
  moreover have "grown (unat (b_used t0)) (c0\<lparr>cctx_allowed := cctx_allowed c'\<rparr>) c'"
    using grown_allowed [of "unat (b_used t0)" "c0\<lparr>cctx_allowed := cctx_allowed c\<rparr>" c "cctx_allowed c2"] ok c'
    by (simp add: rendering_ok_def)
  ultimately show ?case using ok u by (simp add: rendering_ok_def)
qed


section \<open>Properties\<close>

definition sample_cctx :: dns_compress where
  "sample_cctx = (dns_compress_init 0)\<lparr>cctx_allowed := DNS_COMPRESS_GLOBAL14\<rparr>"

definition sample_storage :: isc_buffer where
  "sample_storage = isc__buffer_init (replicate 255 0) 255"

lemma sample_cctx_ok: "cctx_ok sample_cctx msg" "\<not> sensitive sample_cctx"
  by (simp_all add: sample_cctx_def dns_compress_init_def cctx_ok_def VALID_CCTX_def sensitive_def
      DNS_COMPRESS_GLOBAL14_def DNS_COMPRESS_CASESENSITIVE_def DNS_COMPRESS_TABLESIZE_def)

lemma sample_storage_wf: "buf_wf sample_storage" "buf_room sample_storage = 255" "b_used sample_storage = 0"
  by (simp_all add: sample_storage_def isc__buffer_init_def ISC__BUFFER_INIT_def buf_wf_def buf_room_def
      ISC_BUFFER_VALID_def)

lemma rendering_fits:
  assumes r: "rendering alloc c0 t0 c t log" and c0: "cctx_ok c0 (buf_used_bytes t0)" "buf_wf t0"
    and ls: "labels_ok ls" "ends_root ls" and fits: "length (wire ls) \<le> buf_room t" "unat (b_used t) < 65536"
  shows "\<exists>c' t'. rendering alloc c0 t0 c' t' ((unat (b_used t), ls, unat (b_used t')) # log) \<and>
    buf_room t - length (wire ls) \<le> buf_room t' \<and> unat (b_used t') \<le> unat (b_used t) + length (wire ls)"
proof -
  have t: "cctx_ok c (buf_used_bytes t)" "buf_wf t"
    using rendering_invariant [OF r c0] by (simp_all add: rendering_ok_def)
  obtain result c' t' where x: "dns_name_towire alloc (sample_name ls) c t = Some (result, c', t')"
    "rendered ls c t (result, c', t')"
    using towire_ok [OF sample_name_repr [OF ls(1)] ls(2) t fits(2), of alloc] by auto
  then have "result = ISC_R_SUCCESS" using fits(1) by (auto simp: rendered_def split: if_splits)
  then have "rendering alloc c0 t0 c' t' ((unat (b_used t), ls, unat (b_used t')) # log)"
    using rendering.name [OF r fits(2) sample_name_repr [OF ls(1)] ls(2)] x(1) by simp
  moreover have "unat (b_used t') \<le> unat (b_used t) + length (wire ls)"
    using x(2) length_buf_used [OF t(2)] length_buf_used [of t'] by (auto simp: rendered_def)
  moreover from this have "buf_room t - length (wire ls) \<le> buf_room t'"
    using x(2) by (auto simp: rendered_def buf_room_def)
  ultimately show ?thesis by blast
qed

lemma sample_rendering:
  "\<exists>c t p e e1. rendering (\<lambda>_. True) sample_cctx sample_storage c t
     [(p, [[0x62], [0x41], []], e), (0, [[0x61], []], e1)] \<and> unat (b_used t) \<le> 8"
proof -
  note ok = sample_cctx_ok(1) sample_storage_wf(1)
  have l: "labels_ok [[0x61], []]" "labels_ok [[0x62], [0x41], []]"
    by (simp_all add: labels_ok_simps DNS_NAME_MAXWIRE_def)
  obtain c t where c: "rendering (\<lambda>_. True) sample_cctx sample_storage c t [(0, [[0x61], []], unat (b_used t))]"
    "252 \<le> buf_room t" "unat (b_used t) \<le> 3"
    using rendering_fits [OF rendering.start ok l(1), of "\<lambda>_. True"] by (auto simp: sample_storage_wf ends_root_def)
  from rendering_fits [OF c(1) ok l(2)] c(2,3) show ?thesis by (fastforce simp: ends_root_def)
qed

text \<open>C1: Names survive compression. Whatever sequence of names, of other bytes, of changes of the
  methods, of full buffers and of roll backs a message was rendered with, \<open>dns_name_fromwire\<close> reads
  every name that is still part of it from its place: it succeeds, it stops where rendering the name
  stopped, and the labels are those of the rendered name, exactly when the context is case
  sensitive and up to letter case otherwise.\<close>

theorem compression_roundtrip:
  assumes "rendering alloc cctx0 target0 cctx target log"
    and "cctx_ok cctx0 (buf_used_bytes target0)" and "buf_wf target0"
    and "(p, ls, e) \<in> set log"
    and "buf_wf source" and "take (unat (b_active source)) (b_base source) = buf_used_bytes target"
    and "unat (b_current source) = p"
    and "dctx_allowed dctx AND DNS_COMPRESS_GLOBAL14 \<noteq> 0" and "options AND DNS_NAME_DOWNCASE = 0"
    and "VALID_NAME name" and "BINDABLE name" and "open_target name tgt = Some b" and "buf_wf b"
    and "DNS_NAME_MAXWIRE \<le> buf_room b"
  shows "\<exists>r ls'. dns_name_fromwire name source dctx options tgt = Some (r, source\<lparr>b_current := of_nat e\<rparr>) \<and>
    copied r tgt b ls' \<and> (if sensitive cctx0 then ls' = ls else lower ls' = lower ls)"
proof -
  obtain ls' where ls': "name_at (buf_used_bytes target) p p ls' e" "agree (sensitive cctx0) ls' ls" "labels_ok ls"
    using rendering_invariant [OF assms(1-3)] assms(4) by (auto simp: rendering_ok_def)
  have "length (wire ls') \<le> DNS_NAME_MAXWIRE"
    using agree_wire [OF ls'(2)] ls'(3) by (simp add: labels_ok_def)
  then have "decode_name True (min (buf_room b) DNS_NAME_MAXWIRE) (buf_used_bytes target) p p 0 = Inr (ls', e)"
    using name_at_decode [OF ls'(1), of 0] assms(14) by (simp add: min_def)
  then show ?thesis
    using fromwire_outcome [OF assms(10-13,5) refl refl, of dctx options] assms(6-9) ls'(2)
    by (auto simp: wire_outcome_def as_read_def agree_def intro!: exI [of _ ls'])
qed

theorem compression_roundtrip_witness:
  "\<exists>c t p e e1 r ls'. rendering (\<lambda>_. True) sample_cctx sample_storage c t
       [(p, [[0x62], [0x41], []], e), (0, [[0x61], []], e1)] \<and>
     dns_name_fromwire (DNS_NAME_INIT None) (t\<lparr>b_current := of_nat p, b_active := b_used t\<rparr>) sample_dctx 0
       (Some sample_storage) = Some (r, t\<lparr>b_current := of_nat e, b_active := b_used t\<rparr>) \<and>
     copied r (Some sample_storage) sample_storage ls' \<and> lower ls' = [[0x62], [0x61], []]"
proof -
  obtain c t p e e1 where r: "rendering (\<lambda>_. True) sample_cctx sample_storage c t
     [(p, [[0x62], [0x41], []], e), (0, [[0x61], []], e1)]" "unat (b_used t) \<le> 8" using sample_rendering by blast
  have t: "buf_wf t" and "\<exists>ls'. name_at (buf_used_bytes t) p p ls' e"
    using rendering_invariant [OF r(1) sample_cctx_ok(1) sample_storage_wf(1)] by (auto simp: rendering_ok_def)
  then have p: "p < unat (b_used t)" using name_at_end length_buf_used [OF t] by fastforce
  then have up: "unat (of_nat p :: u32) = p" using r(2) by (simp add: unat_of_nat take_bit_nat_eq_self)
  let ?s = "t\<lparr>b_current := of_nat p, b_active := b_used t\<rparr>"
  have s: "buf_wf ?s" using t p up by (simp add: buf_wf_def ISC_BUFFER_VALID_def)
  have u: "take (unat (b_active ?s)) (b_base ?s) = buf_used_bytes t" by (simp add: buf_used_bytes_def)
  have o: "open_target (DNS_NAME_INIT None) (Some sample_storage) = Some sample_storage"
    by (simp add: open_target_def sample_storage_wf buf_wf_valid)
  have "\<exists>r ls'. dns_name_fromwire (DNS_NAME_INIT None) ?s sample_dctx 0 (Some sample_storage) =
      Some (r, ?s\<lparr>b_current := of_nat e\<rparr>) \<and> copied r (Some sample_storage) sample_storage ls' \<and>
      (if sensitive sample_cctx then ls' = [[0x62], [0x41], []] else lower ls' = lower [[0x62], [0x41], []])"
    by (rule compression_roundtrip [OF r(1) sample_cctx_ok(1) sample_storage_wf(1) _ s u _ _ _ init_name(1,2) o
          sample_storage_wf(1), of p])
      (use up in \<open>simp_all add: sample_storage_wf DNS_NAME_MAXWIRE_def sample_dctx_def DNS_COMPRESS_GLOBAL14_def\<close>)
  then show ?thesis
    using r(1) sample_cctx_ok(2) by (fastforce simp: lower_def maptolower_def)
qed

text \<open>C14: Rolling back undoes rendering. After any continuation of a message from a point in its first
  64 KB on, \<open>dns_compress_rollback\<close> to that point restores the table and the number of nodes of the
  context exactly; only the chosen methods stay. So a record that did not fit leaves no pointer
  targets behind.\<close>

theorem compression_rollback:
  assumes "rendering alloc cctx target cctx' target' log"
    and "cctx_ok cctx (buf_used_bytes target)" and "buf_wf target" and "unat (b_used target) < 65536"
  shows "dns_compress_rollback cctx' (ucast (b_used target)) = Some (cctx\<lparr>cctx_allowed := cctx_allowed cctx'\<rparr>)"
  by (rule rendering_rollback [OF rendering_invariant [OF assms(1-3)] assms(2-4)])

theorem compression_rollback_witness:
  "\<exists>c t p e e1. rendering (\<lambda>_. True) sample_cctx sample_storage c t
       [(p, [[0x62], [0x41], []], e), (0, [[0x61], []], e1)] \<and>
     dns_compress_rollback c 0 = Some (sample_cctx\<lparr>cctx_allowed := cctx_allowed c\<rparr>)"
proof -
  obtain c t p e e1 where r: "rendering (\<lambda>_. True) sample_cctx sample_storage c t
     [(p, [[0x62], [0x41], []], e), (0, [[0x61], []], e1)]" using sample_rendering by blast
  moreover have "dns_compress_rollback c 0 = Some (sample_cctx\<lparr>cctx_allowed := cctx_allowed c\<rparr>)"
    using compression_rollback [OF r sample_cctx_ok(1) sample_storage_wf(1)] by (simp add: sample_storage_wf)
  ultimately show ?thesis by blast
qed

end
