(* ===== verification/Dns_Name_Text.thy ===== *)
theory Dns_Name_Text
  imports Dns_Name_Wire
begin

text \<open>
  Names as text, from \<open>lib/dns/name.c\<close>: the state machine of \<open>dns_name_fromtext\<close>, the writers
  \<open>dns_name_totext2\<close> and \<open>dns_name_tofilenametext\<close>, the functions on strings built on them, \<open>dns_name_copy\<close> and
  \<open>dns_name_digest\<close>, and the filter of a thread. The lemmas are on the writers; reading is in \<open>Dns_Name_Parse\<close>.

  A \<open>char\<close> is signed, as on the platforms the server runs on: indexing a table with a character
  above 127 is an access before the table, \<open>None\<close>.
\<close>

section \<open>dns\_name\_fromtext\<close>

datatype ft_state =
  ft_init | ft_start | ft_ordinary | ft_initialescape | ft_escape | ft_escdecimal | ft_at

text \<open>The variables of \<open>dns_name_fromtext\<close>. \<open>label\<close> and \<open>ndata\<close> are positions in the memory of the
  target; the table of offsets is the list of the entries written so far.\<close>

record ft_vars =
  f_state :: ft_state
  f_label :: nat
  f_count :: nat
  f_value :: nat
  f_digits :: nat
  f_ndata :: nat
  f_nrem :: nat
  f_nused :: nat
  f_labels :: nat
  f_offsets :: "u8 list"
  f_done :: bool
  f_mem :: bytes

definition isdigit :: "u8 \<Rightarrow> bool" where
  "isdigit c = (0x30 \<le> c \<and> c \<le> 0x39)"

text \<open>The table is only read at digits.\<close>

definition digitvalue :: "u8 \<Rightarrow> nat" where
  "digitvalue c = unat (c - 0x30)"

text \<open>\<open>maptolower[(int)c]\<close> for a \<open>char\<close>.\<close>

definition lower_char :: "bool \<Rightarrow> u8 \<Rightarrow> u8 option" where
  "lower_char downcase c = (if \<not> downcase then Some c else if c < 128 then Some (maptolower c) else None)"

text \<open>\<open>*ndata++ = c; nrem--; nused++\<close>\<close>

definition ft_put :: "ft_vars \<Rightarrow> u8 \<Rightarrow> ft_vars option" where
  "ft_put v c = do {
     m \<leftarrow> mem_write (f_mem v) (f_ndata v) [c];
     Some (v\<lparr>f_mem := m, f_ndata := f_ndata v + 1, f_nrem := f_nrem v - 1, f_nused := f_nused v + 1\<rparr>) }"

text \<open>A character of a label.\<close>

definition ft_char :: "bool \<Rightarrow> u8 \<Rightarrow> ft_vars \<Rightarrow> (isc_result option \<times> ft_vars) option" where
  "ft_char downcase c v =
     (if f_count v \<ge> 63 then Some (Some DNS_R_LABELTOOLONG, v)
      else do {
        c \<leftarrow> lower_char downcase c;
        v \<leftarrow> ft_put (v\<lparr>f_count := f_count v + 1\<rparr>) c;
        Some (None, v\<lparr>f_state := ft_ordinary\<rparr>) })"

text \<open>\<open>*label = count; labels++; offsets[labels] = nused\<close>\<close>

definition ft_endlabel :: "ft_vars \<Rightarrow> ft_vars option" where
  "ft_endlabel v = do {
     m \<leftarrow> mem_write (f_mem v) (f_label v) [of_nat (f_count v)];
     let v = v\<lparr>f_mem := m, f_labels := f_labels v + 1\<rparr> in do {
     REQUIRE (f_labels v \<le> 127);
     Some (v\<lparr>f_offsets := f_offsets v @ [of_nat (f_nused v)]\<rparr>) } }"

text \<open>\<open>labels++; *ndata++ = 0; nrem--; nused++; done = ISC_TRUE\<close>\<close>

definition ft_root :: "ft_vars \<Rightarrow> ft_vars option" where
  "ft_root v = do { v \<leftarrow> ft_put (v\<lparr>f_labels := f_labels v + 1\<rparr>) 0; Some (v\<lparr>f_done := True\<rparr>) }"

text \<open>The cases of the \<open>switch\<close>, each falling through to the next where the source does. \<open>final\<close> is
  \<open>tlen == 0\<close>.\<close>

definition ordinary_case :: "bool \<Rightarrow> bool \<Rightarrow> u8 \<Rightarrow> ft_vars \<Rightarrow> (isc_result option \<times> ft_vars) option" where
  "ordinary_case downcase final c v =
     (if c = 0x2e then
        if f_count v = 0 then Some (Some DNS_R_EMPTYLABEL, v)
        else do {
          v \<leftarrow> ft_endlabel v;
          v \<leftarrow> (if final then ft_root v else Some v);
          Some (None, v\<lparr>f_state := ft_start\<rparr>) }
      else if c = 0x5c then Some (None, v\<lparr>f_state := ft_escape\<rparr>)
      else ft_char downcase c v)"

definition start_case :: "bool \<Rightarrow> bool \<Rightarrow> u8 \<Rightarrow> ft_vars \<Rightarrow> (isc_result option \<times> ft_vars) option" where
  "start_case downcase final c v =
     (let v = v\<lparr>f_label := f_ndata v, f_ndata := f_ndata v + 1, f_nrem := f_nrem v - 1,
                f_nused := f_nused v + 1, f_count := 0\<rparr> in
      if c = 0x5c then Some (None, v\<lparr>f_state := ft_initialescape\<rparr>)
      else
        let v = v\<lparr>f_state := ft_ordinary\<rparr> in
        if f_nrem v = 0 then Some (Some ISC_R_NOSPACE, v)
        else ordinary_case downcase final c v)"

definition init_case :: "bool \<Rightarrow> bool \<Rightarrow> u8 \<Rightarrow> ft_vars \<Rightarrow> (isc_result option \<times> ft_vars) option" where
  "init_case downcase final c v =
     (if c = 0x2e then
        if \<not> final then Some (Some DNS_R_EMPTYLABEL, v)
        else do { v \<leftarrow> ft_root v; Some (None, v) }
      else if c = 0x40 \<and> final then Some (None, v\<lparr>f_state := ft_at\<rparr>)
      else start_case downcase final c v)"

definition escdecimal_case :: "bool \<Rightarrow> u8 \<Rightarrow> ft_vars \<Rightarrow> (isc_result option \<times> ft_vars) option" where
  "escdecimal_case downcase c v =
     (if \<not> isdigit c then Some (Some DNS_R_BADESCAPE, v)
      else
        let v = v\<lparr>f_value := f_value v * 10 + digitvalue c, f_digits := f_digits v + 1\<rparr> in
        if f_digits v = 3 then
          if f_value v > 255 then Some (Some DNS_R_BADESCAPE, v)
          else if f_count v \<ge> 63 then Some (Some DNS_R_LABELTOOLONG, v)
          else do {
            v \<leftarrow> ft_put (v\<lparr>f_count := f_count v + 1\<rparr>)
                  (if downcase then maptolower (of_nat (f_value v)) else of_nat (f_value v));
            Some (None, v\<lparr>f_state := ft_ordinary\<rparr>) }
        else Some (None, v))"

definition escape_case :: "bool \<Rightarrow> u8 \<Rightarrow> ft_vars \<Rightarrow> (isc_result option \<times> ft_vars) option" where
  "escape_case downcase c v =
     (if \<not> isdigit c then ft_char downcase c v
      else escdecimal_case downcase c (v\<lparr>f_digits := 0, f_value := 0, f_state := ft_escdecimal\<rparr>))"

definition ft_step :: "bool \<Rightarrow> bool \<Rightarrow> u8 \<Rightarrow> ft_vars \<Rightarrow> (isc_result option \<times> ft_vars) option" where
  "ft_step downcase final c v =
     (case f_state v of
        ft_init \<Rightarrow> init_case downcase final c v
      | ft_start \<Rightarrow> start_case downcase final c v
      | ft_ordinary \<Rightarrow> ordinary_case downcase final c v
      | ft_initialescape \<Rightarrow>
          if c = 0x5b then Some (Some DNS_R_BADLABELTYPE, v)
          else escape_case downcase c (v\<lparr>f_state := ft_escape\<rparr>)
      | ft_escape \<Rightarrow> escape_case downcase c v
      | ft_escdecimal \<Rightarrow> escdecimal_case downcase c v
      | ft_at \<Rightarrow> None)"

text \<open>The loop over the text; it returns what is left of the text.\<close>

fun ft_loop :: "bool \<Rightarrow> bytes \<Rightarrow> ft_vars \<Rightarrow> (isc_result option \<times> bytes \<times> ft_vars) option" where
  "ft_loop downcase [] v = Some (None, [], v)"
| "ft_loop downcase (c # cs) v =
     (if f_nrem v > 0 \<and> \<not> f_done v then do {
        (r, v) \<leftarrow> ft_step downcase (cs = []) c v;
        case r of
          Some e \<Rightarrow> Some (Some e, cs, v)
        | None \<Rightarrow> ft_loop downcase cs v }
      else Some (None, c # cs, v))"

text \<open>The copy of the origin: \<open>p\<close> is the position of \<open>label\<close> in its data, \<open>n1\<close> the bytes left. A name
  whose length does not end with a label is read beyond it.\<close>

fun origin_chars :: "bool \<Rightarrow> bytes \<Rightarrow> nat \<Rightarrow> nat \<Rightarrow> ft_vars \<Rightarrow> ft_vars option" where
  "origin_chars downcase odata p 0 v = Some v"
| "origin_chars downcase odata p (Suc n2) v = do {
     c \<leftarrow> rd odata p;
     c \<leftarrow> lower_char downcase c;
     m \<leftarrow> mem_write (f_mem v) (f_ndata v) [c];
     origin_chars downcase odata (p + 1) n2 (v\<lparr>f_mem := m, f_ndata := f_ndata v + 1\<rparr>) }"

function origin_loop :: "bool \<Rightarrow> bytes \<Rightarrow> nat \<Rightarrow> nat \<Rightarrow> ft_vars \<Rightarrow> ft_vars option" where
  "origin_loop downcase odata p n1 v =
     (if n1 = 0 then Some v
      else do {
        n2 \<leftarrow> rd odata p;
        REQUIRE (n2 \<le> 63);
        m \<leftarrow> mem_write (f_mem v) (f_ndata v) [n2];
        REQUIRE (unat n2 + 1 \<le> n1);
        let v = v\<lparr>f_mem := m, f_ndata := f_ndata v + 1, f_nused := f_nused v + (unat n2 + 1)\<rparr> in do {
        v \<leftarrow> origin_chars downcase odata (p + 1) (unat n2) v;
        let v = v\<lparr>f_labels := f_labels v + 1\<rparr>; n1' = n1 - (unat n2 + 1) in do {
        v \<leftarrow> (if n1' > 0 then do {
                REQUIRE (f_labels v \<le> 127);
                Some (v\<lparr>f_offsets := f_offsets v @ [of_nat (f_nused v)]\<rparr>) }
              else Some v);
        origin_loop downcase odata (p + (unat n2 + 1)) n1' v } } })"
  by pat_completeness auto
termination by (relation "measure (\<lambda>(downcase, odata, p, n1, v). n1)") auto

declare origin_loop.simps [simp del]

definition dns_name_fromtext ::
    "dns_name \<Rightarrow> isc_buffer \<Rightarrow> dns_name option \<Rightarrow> u32 \<Rightarrow> isc_buffer option \<Rightarrow>
     ((isc_result \<times> dns_name \<times> isc_buffer option) \<times> isc_buffer) option" where
  "dns_name_fromtext name source origin options target = do {
     REQUIRE (VALID_NAME name);
     REQUIRE (ISC_BUFFER_VALID source);
     b \<leftarrow> open_target name target;
     REQUIRE (BINDABLE name);
     let downcase = (options AND DNS_NAME_DOWNCASE \<noteq> 0); name = MAKE_EMPTY name;
         tlen = unat (isc_buffer_remaininglength source);
         nrem = min (unat (isc_buffer_availablelength b)) 255 in do {
     text \<leftarrow> mem_read (b_base source) (unat (b_current source)) tlen;
     (r, left, v) \<leftarrow> ft_loop downcase text
        \<lparr>f_state = ft_init, f_label = 0, f_count = 0, f_value = 0, f_digits = 0,
         f_ndata = unat (b_used b), f_nrem = nrem, f_nused = 0, f_labels = 0, f_offsets = [0],
         f_done = False, f_mem = b_base b\<rparr>;
     let fail = (\<lambda>e v. Some (close_target e (name\<lparr>n_offsets := map_option (\<lambda>_. f_offsets v) (n_offsets name)\<rparr>)
                    target (b\<lparr>b_base := f_mem v\<rparr>), source));
         finish = (\<lambda>absolute v. do {
           let name = name\<lparr>n_offsets := map_option (\<lambda>_. f_offsets v) (n_offsets name),
                 n_attributes := (if absolute then n_attributes name OR DNS_NAMEATTR_ABSOLUTE
                                  else n_attributes name),
                 n_ndata := drop (unat (b_used b)) (f_mem v), n_labels := f_labels v,
                 n_length := f_nused v\<rparr> in do {
           source \<leftarrow> isc__buffer_forward source (of_nat (tlen - length left));
           b \<leftarrow> isc__buffer_add (b\<lparr>b_base := f_mem v\<rparr>) (of_nat (n_length name));
           Some (close_target ISC_R_SUCCESS name target b, source) } }) in
     case r of
       Some e \<Rightarrow> fail e v
     | None \<Rightarrow>
         if f_done v then finish True v
         else if f_nrem v = 0 then fail ISC_R_NOSPACE v
         else do {
           REQUIRE (left = []);
           if f_state v \<noteq> ft_ordinary \<and> f_state v \<noteq> ft_at then fail ISC_R_UNEXPECTEDEND v
           else do {
             v \<leftarrow> (if f_state v = ft_ordinary then do { REQUIRE (f_count v \<noteq> 0); ft_endlabel v } else Some v);
             case origin of
               None \<Rightarrow> finish False v
             | Some origin \<Rightarrow>
                 if f_nrem v < n_length origin then fail ISC_R_NOSPACE v
                 else do {
                   v \<leftarrow> origin_loop downcase (n_ndata origin) 0 (n_length origin) v;
                   finish (absolute_attr origin) v } } } } }"

section \<open>dns\_name\_totext\<close>

definition DNS_NAME_OMITFINALDOT :: u32 where "DNS_NAME_OMITFINALDOT = 0x01"
definition DNS_NAME_MASTERFILE :: u32 where "DNS_NAME_MASTERFILE = 0x02"

text \<open>The writers collect the text in \<open>out\<close>; it is stored after the used part of the target when they
  return. \<open>trem\<close> is the room that remains. The result of the loops is \<open>False\<close> for a return with
  \<open>ISC_R_NOSPACE\<close>.\<close>

fun totext_chars :: "u32 \<Rightarrow> bytes \<Rightarrow> nat \<Rightarrow> nat \<Rightarrow> nat \<Rightarrow> bytes \<Rightarrow> (bool \<times> nat \<times> bytes) option" where
  "totext_chars options ndata p 0 trem out = Some (True, trem, out)"
| "totext_chars options ndata p (Suc n) trem out = do {
     c \<leftarrow> rd ndata p;
     if (c = 0x40 \<or> c = 0x24) \<and> options AND DNS_NAME_MASTERFILE \<noteq> 0 \<or>
        c = 0x22 \<or> c = 0x28 \<or> c = 0x29 \<or> c = 0x2e \<or> c = 0x3b \<or> c = 0x5c
     then if trem < 2 then Some (False, trem, out)
          else totext_chars options ndata (p + 1) n (trem - 2) (out @ [0x5c, c])
     else if c > 0x20 \<and> c < 0x7f
     then if trem = 0 then Some (False, trem, out)
          else totext_chars options ndata (p + 1) n (trem - 1) (out @ [c])
     else if trem < 4 then Some (False, trem, out)
          else totext_chars options ndata (p + 1) n (trem - 4)
                 (out @ [0x5c, 0x30 + ((c div 100) mod 10), 0x30 + ((c div 10) mod 10), 0x30 + (c mod 10)]) }"

fun totext_labels ::
    "u32 \<Rightarrow> bytes \<Rightarrow> nat \<Rightarrow> nat \<Rightarrow> nat \<Rightarrow> nat \<Rightarrow> bytes \<Rightarrow> (bool \<times> nat \<times> nat \<times> bytes \<times> bool) option" where
  "totext_labels options ndata p 0 nlen trem out = Some (True, nlen, trem, out, False)"
| "totext_labels options ndata p (Suc labels) nlen trem out =
     (if nlen = 0 \<or> trem = 0 then Some (True, nlen, trem, out, False)
      else do {
        cnt \<leftarrow> rd ndata p;
        let nlen = nlen - 1 in
        if cnt = 0 then Some (True, nlen, trem, out, True)
        else do {
          REQUIRE (cnt < 64);
          REQUIRE (nlen \<ge> unat cnt);
          (ok, trem, out) \<leftarrow> totext_chars options ndata (p + 1) (unat cnt) trem out;
          if \<not> ok \<or> trem = 0 then Some (False, nlen, trem, out, False)
          else totext_labels options ndata (p + 1 + unat cnt) labels (nlen - unat cnt) (trem - 1)
                 (out @ [0x2e]) } })"

text \<open>\<open>keyinit\<close> is the result of \<open>totext_filter_proc_key_init\<close>, which creates the thread specific key of
  the filter at the first call; \<open>filt\<close> is the filter of the thread, if one was set.\<close>

definition dns_name_totext2 ::
    "isc_result \<Rightarrow> (isc_buffer \<Rightarrow> u32 \<Rightarrow> bool \<Rightarrow> isc_result \<times> isc_buffer) option \<Rightarrow>
     dns_name \<Rightarrow> u32 \<Rightarrow> isc_buffer \<Rightarrow> (isc_result \<times> isc_buffer) option" where
  "dns_name_totext2 keyinit filt name options target = do {
     REQUIRE (VALID_NAME name);
     REQUIRE (ISC_BUFFER_VALID target);
     if keyinit \<noteq> ISC_R_SUCCESS then Some (keyinit, target)
     else do {
       let omit_final_dot = (options AND DNS_NAME_OMITFINALDOT \<noteq> 0);
           tlen = unat (isc_buffer_availablelength target) in do {
       root \<leftarrow> (if n_length name = 1 \<and> n_labels name = 1
               then do { c \<leftarrow> rd (n_ndata name) 0; Some (c = 0) } else Some False);
       (ok, nlen, trem, out, saw_root, omit_final_dot) \<leftarrow>
         (if n_labels name = 0 \<and> n_length name = 0
          then Some (tlen \<noteq> 0, 0, tlen - 1, [0x40], True, False)
          else if root then Some (tlen \<noteq> 0, 0, tlen - 1, [0x2e], True, False)
          else do {
            (ok, nlen, trem, out, saw_root) \<leftarrow>
              totext_labels options (n_ndata name) 0 (n_labels name) (n_length name) tlen [];
            Some (ok, nlen, trem, out, saw_root, omit_final_dot) });
       let out = (if tlen = 0 then [] else out) in do {
       m \<leftarrow> mem_write (b_base target) (unat (b_used target)) out;
       let target' = target\<lparr>b_base := m\<rparr> in
       if \<not> ok \<or> nlen \<noteq> 0 \<and> trem = 0 then Some (ISC_R_NOSPACE, target')
       else
         let trem = (if \<not> saw_root \<or> omit_final_dot then trem + 1 else trem) in do {
         target' \<leftarrow> isc__buffer_add target' (of_nat tlen - of_nat trem);
         Some (case filt of
                 None \<Rightarrow> (ISC_R_SUCCESS, target')
               | Some proc \<Rightarrow> proc target' (b_used target) saw_root) } } } } }"

definition dns_name_totext ::
    "isc_result \<Rightarrow> (isc_buffer \<Rightarrow> u32 \<Rightarrow> bool \<Rightarrow> isc_result \<times> isc_buffer) option \<Rightarrow>
     dns_name \<Rightarrow> bool \<Rightarrow> isc_buffer \<Rightarrow> (isc_result \<times> isc_buffer) option" where
  "dns_name_totext keyinit filt name omit_final_dot target =
     dns_name_totext2 keyinit filt name
       (if omit_final_dot then DNS_NAME_MASTERFILE OR DNS_NAME_OMITFINALDOT else DNS_NAME_MASTERFILE) target"

definition dns_name_toprincipal ::
    "isc_result \<Rightarrow> (isc_buffer \<Rightarrow> u32 \<Rightarrow> bool \<Rightarrow> isc_result \<times> isc_buffer) option \<Rightarrow>
     dns_name \<Rightarrow> isc_buffer \<Rightarrow> (isc_result \<times> isc_buffer) option" where
  "dns_name_toprincipal keyinit filt name target = dns_name_totext2 keyinit filt name DNS_NAME_OMITFINALDOT target"

text \<open>\<open>sprintf(tdata, "%%%02X", c)\<close> writes three characters and a NUL. The NUL is overwritten by what
  follows; \<open>spare\<close> is the room of the memory behind the target, so the write is out of bounds when
  the room that remains and the spare room are less than four bytes.\<close>

definition hexdig :: "u8 \<Rightarrow> u8" where
  "hexdig d = (if d < 10 then 0x30 + d else 0x37 + d)"

fun filename_chars :: "nat \<Rightarrow> bytes \<Rightarrow> nat \<Rightarrow> nat \<Rightarrow> nat \<Rightarrow> bytes \<Rightarrow> (bool \<times> nat \<times> bytes) option" where
  "filename_chars spare ndata p 0 trem out = Some (True, trem, out)"
| "filename_chars spare ndata p (Suc n) trem out = do {
     c \<leftarrow> rd ndata p;
     if 0x30 \<le> c \<and> c \<le> 0x39 \<or> 0x41 \<le> c \<and> c \<le> 0x5a \<or> 0x61 \<le> c \<and> c \<le> 0x7a \<or> c = 0x2d \<or> c = 0x5f
     then if trem = 0 then Some (False, trem, out)
          else filename_chars spare ndata (p + 1) n (trem - 1)
                 (out @ [if 0x41 \<le> c \<and> c \<le> 0x5a then c + 0x20 else c])
     else if trem < 3 then Some (False, trem, out)
          else do {
            REQUIRE (4 \<le> trem + spare);
            filename_chars spare ndata (p + 1) n (trem - 3)
              (out @ [0x25, hexdig (c div 16), hexdig (c mod 16)]) } }"

fun filename_labels ::
    "nat \<Rightarrow> bytes \<Rightarrow> nat \<Rightarrow> nat \<Rightarrow> nat \<Rightarrow> nat \<Rightarrow> bytes \<Rightarrow> (bool \<times> nat \<times> nat \<times> bytes) option" where
  "filename_labels spare ndata p 0 nlen trem out = Some (True, nlen, trem, out)"
| "filename_labels spare ndata p (Suc labels) nlen trem out =
     (if nlen = 0 \<or> trem = 0 then Some (True, nlen, trem, out)
      else do {
        cnt \<leftarrow> rd ndata p;
        let nlen = nlen - 1 in
        if cnt = 0 then Some (True, nlen, trem, out)
        else do {
          REQUIRE (cnt < 64);
          REQUIRE (nlen \<ge> unat cnt);
          (ok, trem, out) \<leftarrow> filename_chars spare ndata (p + 1) (unat cnt) trem out;
          if \<not> ok \<or> trem = 0 then Some (False, nlen, trem, out)
          else filename_labels spare ndata (p + 1 + unat cnt) labels (nlen - unat cnt) (trem - 1)
                 (out @ [0x2e]) } })"

definition dns_name_tofilenametext :: "dns_name \<Rightarrow> bool \<Rightarrow> isc_buffer \<Rightarrow> (isc_result \<times> isc_buffer) option" where
  "dns_name_tofilenametext name omit_final_dot target = do {
     REQUIRE (VALID_NAME name);
     REQUIRE (absolute_attr name);
     REQUIRE (ISC_BUFFER_VALID target);
     let tlen = unat (isc_buffer_availablelength target);
         spare = length (b_base target) - unat (b_length target) in do {
     root \<leftarrow> (if n_length name = 1 \<and> n_labels name = 1
             then do { c \<leftarrow> rd (n_ndata name) 0; Some (c = 0) } else Some False);
     (ok, nlen, trem, out) \<leftarrow>
       (if root then Some (tlen \<noteq> 0, 0, tlen - 1, [0x2e])
        else filename_labels spare (n_ndata name) 0 (n_labels name) (n_length name) tlen []);
     let out = (if tlen = 0 then [] else out) in do {
     m \<leftarrow> mem_write (b_base target) (unat (b_used target)) out;
     let target' = target\<lparr>b_base := m\<rparr> in
     if \<not> ok \<or> nlen \<noteq> 0 \<and> trem = 0 then Some (ISC_R_NOSPACE, target')
     else
       let trem = (if omit_final_dot \<and> \<not> root then trem + 1 else trem) in do {
       target' \<leftarrow> isc__buffer_add target' (of_nat tlen - of_nat trem);
       Some (ISC_R_SUCCESS, target') } } } }"

section \<open>Strings\<close>

definition DNS_NAME_FORMATSIZE :: nat where
  "DNS_NAME_FORMATSIZE = 1024"

text \<open>\<open>cp\<close> is the array of \<open>size\<close> characters the name is formatted into; the buffer is its part
  before the last character.\<close>

definition dns_name_format ::
    "isc_result \<Rightarrow> (isc_buffer \<Rightarrow> u32 \<Rightarrow> bool \<Rightarrow> isc_result \<times> isc_buffer) option \<Rightarrow>
     dns_name \<Rightarrow> bytes \<Rightarrow> u32 \<Rightarrow> bytes option" where
  "dns_name_format keyinit filt name cp sz = do {
     REQUIRE (sz > 0);
     room \<leftarrow> mem_read cp 0 (unat sz - 1);
     (result, buf) \<leftarrow> dns_name_totext keyinit filt name True (isc__buffer_init room (sz - 1));
     let cp = b_base buf @ drop (unat sz - 1) cp in
     if result = ISC_R_SUCCESS then mem_write cp (unat (b_used buf)) [0]
     else mem_write cp 0
            (take (unat sz - 1) [0x3c, 0x75, 0x6e, 0x6b, 0x6e, 0x6f, 0x77, 0x6e, 0x3e] @ [0]) }"

text \<open>\<open>txt_array\<close> is the uninitialised array, \<open>mem\<close> whether the allocation succeeds: its result is not
  checked.\<close>

definition dns_name_tostring ::
    "isc_result \<Rightarrow> (isc_buffer \<Rightarrow> u32 \<Rightarrow> bool \<Rightarrow> isc_result \<times> isc_buffer) option \<Rightarrow>
     dns_name \<Rightarrow> bytes \<Rightarrow> bool \<Rightarrow> (isc_result \<times> bytes option) option" where
  "dns_name_tostring keyinit filt name txt_array mem = do {
     REQUIRE (VALID_NAME name);
     (result, buf) \<leftarrow> dns_name_totext keyinit filt name False
        (isc__buffer_init txt_array (of_nat DNS_NAME_FORMATSIZE));
     if result \<noteq> ISC_R_SUCCESS then Some (result, None)
     else do {
       REQUIRE mem;
       xs \<leftarrow> mem_read (b_base buf) 0 (unat (b_used buf));
       Some (ISC_R_SUCCESS, Some (xs @ [0])) } }"

definition dns_fixedname :: "bytes \<Rightarrow> dns_name" where
  "dns_fixedname data = (dns_name_init (Some []))\<lparr>n_buffer := Some (isc__buffer_init data (of_nat DNS_NAME_MAXWIRE))\<rparr>"

text \<open>\<open>src\<close> is a string without its NUL; \<open>data\<close> is the uninitialised data of the fixed name.\<close>

definition dns_name_fromstring2 ::
    "bytes \<Rightarrow> dns_name \<Rightarrow> bytes \<Rightarrow> dns_name option \<Rightarrow> u32 \<Rightarrow> bool \<Rightarrow> (isc_result \<times> dns_name) option" where
  "dns_name_fromstring2 data target src origin options mem = do {
     buf \<leftarrow> isc__buffer_add (isc__buffer_init src (of_nat (length src))) (of_nat (length src));
     if BINDABLE target \<and> n_buffer target \<noteq> None then do {
       ((result, name, _), _) \<leftarrow> dns_name_fromtext target buf origin options None;
       Some (result, name) }
     else do {
       ((result, name, _), _) \<leftarrow> dns_name_fromtext (dns_fixedname data) buf origin options None;
       if result \<noteq> ISC_R_SUCCESS then Some (result, target)
       else dns_name_dupwithoffsets name mem target } }"

definition dns_name_fromstring ::
    "bytes \<Rightarrow> dns_name \<Rightarrow> bytes \<Rightarrow> u32 \<Rightarrow> bool \<Rightarrow> (isc_result \<times> dns_name) option" where
  "dns_name_fromstring data target src options mem =
     dns_name_fromstring2 data target src (Some dns_rootname) options mem"

text \<open>\<open>stream\<close> is what was written to the stream before; \<open>t\<close> is the uninitialised array.\<close>

definition dns_name_print ::
    "isc_result \<Rightarrow> (isc_buffer \<Rightarrow> u32 \<Rightarrow> bool \<Rightarrow> isc_result \<times> isc_buffer) option \<Rightarrow>
     dns_name \<Rightarrow> bytes \<Rightarrow> bytes \<Rightarrow> (isc_result \<times> bytes) option" where
  "dns_name_print keyinit filt name t stream = do {
     REQUIRE (VALID_NAME name);
     (result, b) \<leftarrow> dns_name_totext keyinit filt name False (isc__buffer_init t 1024);
     if result \<noteq> ISC_R_SUCCESS then Some (result, stream)
     else do {
       r \<leftarrow> mem_read (b_base b) 0 (unat (b_used b));
       Some (ISC_R_SUCCESS, stream @ r) } }"

section \<open>Copies and digests\<close>

definition dns_name_copy ::
    "dns_name \<Rightarrow> dns_name \<Rightarrow> isc_buffer option \<Rightarrow> (isc_result \<times> dns_name \<times> isc_buffer option) option" where
  "dns_name_copy source dest target = do {
     REQUIRE (VALID_NAME source);
     REQUIRE (VALID_NAME dest);
     REQUIRE (target \<noteq> None \<or> n_buffer dest \<noteq> None);
     b \<leftarrow> open_target dest target;
     REQUIRE (BINDABLE dest);
     if unat (b_length b - b_used b) < n_length source then Some (close_target ISC_R_NOSPACE dest target b)
     else do {
       xs \<leftarrow> mem_read (n_ndata source) 0 (n_length source);
       m \<leftarrow> mem_write (b_base b) (unat (b_used b)) xs;
       let dest = dest\<lparr>n_ndata := drop (unat (b_used b)) m, n_labels := n_labels source, n_length := n_length source,
             n_attributes := (if absolute_attr source then DNS_NAMEATTR_ABSOLUTE else 0)\<rparr> in do {
       dest \<leftarrow> (if n_labels dest > 0 \<and> n_offsets dest \<noteq> None then
                  case n_offsets source of
                    Some offs \<Rightarrow> do { t \<leftarrow> mem_read offs 0 (n_labels source); Some (dest\<lparr>n_offsets := Some t\<rparr>) }
                  | None \<Rightarrow> refresh_offsets dest
                else Some dest);
       b \<leftarrow> isc__buffer_add (b\<lparr>b_base := m\<rparr>) (of_nat (n_length dest));
       Some (close_target ISC_R_SUCCESS dest target b) } } }"

text \<open>\<open>data\<close> is the uninitialised array, \<open>digest\<close> the function the name is sent to.\<close>

definition dns_name_digest :: "bytes \<Rightarrow> dns_name \<Rightarrow> (bytes \<Rightarrow> isc_result) \<Rightarrow> isc_result option" where
  "dns_name_digest data name digest = do {
     REQUIRE (VALID_NAME name);
     (result, _, buffer) \<leftarrow> dns_name_downcase name (DNS_NAME_INIT None) (Some (isc__buffer_init data 256));
     if result \<noteq> ISC_R_SUCCESS then Some result
     else do {
       b \<leftarrow> buffer;
       r \<leftarrow> mem_read (b_base b) 0 (unat (b_used b));
       Some (digest r) } }"

section \<open>The filter of a thread\<close>

text \<open>\<open>k_mctx\<close> is \<open>thread_key_mctx != NULL\<close>, \<open>k_specific\<close> what the key holds for the thread. The results of
  the once control, the allocator and the thread library are arguments.\<close>

record 'p totext_key =
  k_initialized :: bool
  k_mctx :: bool
  k_specific :: "'p option"

definition totext_filter_proc_key_init ::
    "isc_result \<Rightarrow> isc_result \<Rightarrow> bool \<Rightarrow> 'p totext_key \<Rightarrow> isc_result \<times> 'p totext_key" where
  "totext_filter_proc_key_init once_do mem_create2 key_create k =
     (if once_do \<noteq> ISC_R_SUCCESS then (once_do, k)
      else if \<not> k_initialized k then
        let result = (if \<not> k_mctx k then mem_create2 else once_do) in
        if result \<noteq> ISC_R_SUCCESS then (result, k)
        else if \<not> key_create then (ISC_R_FAILURE, k\<lparr>k_mctx := False\<rparr>)
        else (ISC_R_SUCCESS, k\<lparr>k_mctx := True, k_initialized := True\<rparr>)
      else (once_do, k))"

text \<open>\<open>isc_mem_put\<close> requires a pointer that is not null. When the key cannot be cleared it still holds the pointer that
  was freed.\<close>

definition dns_name_settotextfilter ::
    "isc_result \<Rightarrow> isc_result \<Rightarrow> bool \<Rightarrow> bool \<Rightarrow> bool \<Rightarrow> 'p option \<Rightarrow> 'p totext_key \<Rightarrow> (isc_result \<times> 'p totext_key) option" where
  "dns_name_settotextfilter once_do mem_create2 key_create mem_get setspecific proc k =
     (let (result, k) = totext_filter_proc_key_init once_do mem_create2 key_create k in
      if result \<noteq> ISC_R_SUCCESS then Some (result, k)
      else case (k_specific k, proc) of
        (Some _, Some p) \<Rightarrow> Some (ISC_R_SUCCESS, k\<lparr>k_specific := Some p\<rparr>)
      | (mem, None) \<Rightarrow> do {
          REQUIRE (mem \<noteq> None);
          Some (if setspecific then (result, k\<lparr>k_specific := None\<rparr>) else (ISC_R_UNEXPECTED, k)) }
      | (None, Some p) \<Rightarrow>
          if \<not> mem_get then Some (ISC_R_NOMEMORY, k)
          else if \<not> setspecific then Some (ISC_R_UNEXPECTED, k)
          else Some (result, k\<lparr>k_specific := Some p\<rparr>))"

definition dns_name_destroy :: "isc_result \<Rightarrow> 'p totext_key \<Rightarrow> 'p totext_key option" where
  "dns_name_destroy once_do k = do {
     REQUIRE (once_do = ISC_R_SUCCESS);
     Some (if k_initialized k then k\<lparr>k_mctx := False, k_initialized := False, k_specific := None\<rparr> else k) }"

section \<open>The text of a name\<close>

definition text_char :: "u32 \<Rightarrow> u8 \<Rightarrow> bytes" where
  "text_char options c =
     (if (c = 0x40 \<or> c = 0x24) \<and> options AND DNS_NAME_MASTERFILE \<noteq> 0 \<or>
        c = 0x22 \<or> c = 0x28 \<or> c = 0x29 \<or> c = 0x2e \<or> c = 0x3b \<or> c = 0x5c then [0x5c, c]
      else if c > 0x20 \<and> c < 0x7f then [c]
      else [0x5c, 0x30 + ((c div 100) mod 10), 0x30 + ((c div 10) mod 10), 0x30 + (c mod 10)])"

definition label_text :: "u32 \<Rightarrow> bytes \<Rightarrow> bytes" where
  "label_text options l = concat (map (text_char options) l)"

definition dotted :: "u32 \<Rightarrow> bytes list \<Rightarrow> bytes" where
  "dotted options xs = concat (map (\<lambda>l. label_text options l @ [0x2e]) xs)"

definition name_text :: "u32 \<Rightarrow> bytes list \<Rightarrow> bytes" where
  "name_text options ls =
     (if ls = [] then [0x40] else if ls = [[]] then [0x2e]
      else if ends_root ls then
        if options AND DNS_NAME_OMITFINALDOT \<noteq> 0 then butlast (dotted options (butlast ls))
        else dotted options (butlast ls)
      else butlast (dotted options ls))"

text \<open>The room the writer needs: one byte more than the text in most cases.\<close>

definition text_need :: "u32 \<Rightarrow> bytes list \<Rightarrow> nat" where
  "text_need options ls =
     (if ls = [] \<or> ls = [[]] then 1
      else if ends_root ls then length (dotted options (butlast ls)) + 1 else length (dotted options ls))"

lemma dotted_simps [simp]:
  "dotted options [] = []" "dotted options (l # xs) = label_text options l @ 0x2e # dotted options xs"
  "dotted options (xs @ ys) = dotted options xs @ dotted options ys"
  by (simp_all add: dotted_def)

lemma label_text_simps [simp]:
  "label_text options [] = []" "label_text options (c # l) = text_char options c @ label_text options l"
  by (simp_all add: label_text_def)

lemma totext_chars_step:
  assumes "rd ndata p = Some c"
  shows "totext_chars options ndata p (Suc n) trem out =
    (if trem < length (text_char options c) then Some (False, trem, out)
     else totext_chars options ndata (p + 1) n (trem - length (text_char options c)) (out @ text_char options c))"
proof -
  define e where "e \<longleftrightarrow> (c = 0x40 \<or> c = 0x24) \<and> options AND DNS_NAME_MASTERFILE \<noteq> 0 \<or>
    c = 0x22 \<or> c = 0x28 \<or> c = 0x29 \<or> c = 0x2e \<or> c = 0x3b \<or> c = 0x5c"
  define d where "d = [0x5c, 0x30 + ((c div 100) mod 10), 0x30 + ((c div 10) mod 10), 0x30 + (c mod 10)]"
  have t: "text_char options c = (if e then [0x5c, c] else if c > 0x20 \<and> c < 0x7f then [c] else d)"
    unfolding text_char_def e_def d_def ..
  have l: "length d = 4" by (simp add: d_def)
  show ?thesis
    unfolding totext_chars.simps(2) assms bind.bind_lunit e_def [symmetric] d_def [symmetric] t
    using l by (cases e; cases "c > 0x20 \<and> c < 0x7f") (simp_all only: if_True if_False simp_thms, simp_all add: numeral_2_eq_2)
qed

declare totext_chars.simps(2) [simp del]

lemma totext_chars_ok:
  assumes "drop p ndata = l @ rest"
  shows "if length (label_text options l) \<le> trem
    then totext_chars options ndata p (length l) trem out =
      Some (True, trem - length (label_text options l), out @ label_text options l)
    else \<exists>t o'. totext_chars options ndata p (length l) trem out = Some (False, t, o') \<and>
      length o' + t = length out + trem"
  using assms
proof (induction l arbitrary: p trem out)
  case (Cons c l)
  have c: "rd ndata p = Some c" and d: "drop (Suc p) ndata = l @ rest"
    using rd_drop [of p ndata c "l @ rest"] Cons.prems by auto
  let ?k = "length (text_char options c)"
  note IH = Cons.IH [OF d, of "trem - ?k" "out @ text_char options c"]
  show ?case
  proof (cases "trem < ?k")
    case True
    then show ?thesis using c by (simp add: totext_chars_step)
  next
    case False
    then have e: "totext_chars options ndata p (length (c # l)) trem out =
        totext_chars options ndata (Suc p) (length l) (trem - ?k) (out @ text_char options c)"
      using c by (simp add: totext_chars_step)
    show ?thesis
    proof (cases "length (label_text options (c # l)) \<le> trem")
      case True
      then show ?thesis using IH e by (simp add: diff_diff_eq)
    next
      case False
      then have "\<not> length (label_text options l) \<le> trem - ?k" using \<open>\<not> trem < ?k\<close> by simp
      then show ?thesis unfolding e using IH False \<open>\<not> trem < ?k\<close> by simp
    qed
  qed
qed simp

lemma totext_labels_ok:
  assumes "drop p ndata = wire (xs @ root) @ rest" and "\<forall>l \<in> set xs. l \<noteq> [] \<and> length l \<le> 63"
    and "root = [] \<or> root = [[]]"
  shows "if length (dotted options xs) + length root \<le> trem
    then totext_labels options ndata p (length (xs @ root)) (length (wire (xs @ root))) trem out =
      Some (True, 0, trem - length (dotted options xs), out @ dotted options xs, root \<noteq> [])
    else \<exists>ok n t o' s. totext_labels options ndata p (length (xs @ root)) (length (wire (xs @ root))) trem out =
      Some (ok, n, t, o', s) \<and> (ok \<longrightarrow> n \<noteq> 0 \<and> t = 0) \<and> length o' + t = length out + trem"
  using assms(1,2)
proof (induction xs arbitrary: p trem out)
  case Nil
  have "rd ndata p = Some 0" if "root = [[]]" using rd_drop(1) [of p ndata 0 rest] Nil that by simp
  then show ?case using assms(3) by auto
next
  case (Cons l xs)
  have l: "l \<noteq> []" "length l \<le> 63" using Cons.prems(2) by auto
  have c: "rd ndata p = Some (of_nat (length l))" and d: "drop (Suc p) ndata = l @ wire (xs @ root) @ rest"
    using rd_drop [of p ndata "of_nat (length l)" "l @ wire (xs @ root) @ rest"] Cons.prems(1) by auto
  have d2: "drop (Suc p + length l) ndata = wire (xs @ root) @ rest"
    using d by (metis append_eq_conv_conj drop_drop add.commute)
  let ?t = "label_text options l" and ?lab = "totext_labels options ndata p (length ((l # xs) @ root)) (length (wire ((l # xs) @ root))) trem out"
  note ch = totext_chars_ok [OF d, of options trem out]
  have n: "(of_nat (length l) :: u8) < 64" "unat (of_nat (length l) :: u8) = length l" "(of_nat (length l) :: u8) \<noteq> 0"
    using l by (simp_all add: word_less_nat_alt)
  note run = c n l Let_def
  show ?case
  proof (cases "length ?t < trem")
    case True
    then have "?lab = totext_labels options ndata (Suc p + length l) (length (xs @ root)) (length (wire (xs @ root)))
        (trem - length ?t - 1) (out @ ?t @ [0x2e])"
      using ch by (simp add: run)
    then show ?thesis
      using Cons.IH [OF d2, of "trem - length ?t - 1" "out @ ?t @ [0x2e]"] Cons.prems(2) True
      by (simp split: if_splits) (auto simp: diff_diff_eq)
  next
    case False
    have "\<exists>ok n t o' s. ?lab = Some (ok, n, t, o', s) \<and> (ok \<longrightarrow> n \<noteq> 0 \<and> t = 0) \<and> length o' + t = length out + trem"
    proof (cases "trem = 0")
      case True
      then show ?thesis by simp blast
    next
      case nz: False
      show ?thesis
      proof (cases "length ?t = trem")
        case True
        then show ?thesis using ch nz by (simp add: run) blast
      next
        case ne: False
        then obtain t o' where "totext_chars options ndata (Suc p) (length l) trem out = Some (False, t, o')"
          "length o' + t = length out + trem" using ch False by auto
        then show ?thesis using nz by (simp add: run) blast
      qed
    qed
    then show ?thesis using False by auto
  qed
qed

lemma store_part:
  assumes "buf_wf b" and "length out \<le> buf_room b" and "n \<le> length out"
  shows "\<exists>m b'. mem_write (b_base b) (unat (b_used b)) out = Some m \<and>
    isc__buffer_add (b\<lparr>b_base := m\<rparr>) (of_nat n) = Some b' \<and> buf_wf b' \<and> b_length b' = b_length b \<and>
    buf_used_bytes b' = buf_used_bytes b @ take n out \<and> buf_wf (b\<lparr>b_base := m\<rparr>) \<and>
    buf_used_bytes (b\<lparr>b_base := m\<rparr>) = buf_used_bytes b"
proof -
  have fit: "unat (b_used b) + length out \<le> length (b_base b)"
    using assms by (auto simp: buf_wf_def buf_room_def)
  have nw: "unat (b_used b) + n < 2 ^ 32" using room_no_wrap [OF assms(1,2)] assms(3) by simp
  define m where "m = take (unat (b_used b)) (b_base b) @ out @ drop (unat (b_used b) + length out) (b_base b)"
  have w: "mem_write (b_base b) (unat (b_used b)) out = Some m"
    using fit by (simp add: m_def mem_write_def)
  have l: "length m = length (b_base b)" by (rule length_mem_write [OF w])
  have u: "unat (b_used b + of_nat n) = unat (b_used b) + n" using unat_plus_of_nat [OF nw] by simp
  have "b_used b + of_nat n \<le> b_length b" using fit assms u by (simp add: word_le_nat_alt buf_wf_def)
  then have "isc__buffer_add (b\<lparr>b_base := m\<rparr>) (of_nat n) = Some (b\<lparr>b_base := m, b_used := b_used b + of_nat n\<rparr>)"
    using assms(1) by (simp add: isc__buffer_add_def buf_wf_def ISC_BUFFER_VALID_def)
  moreover have "buf_wf (b\<lparr>b_base := m, b_used := b_used b + of_nat n\<rparr>)"
    using assms u l fit by (auto simp: buf_wf_def ISC_BUFFER_VALID_def)
  moreover have "buf_wf (b\<lparr>b_base := m\<rparr>)"
    using assms(1) l by (simp add: buf_wf_def ISC_BUFFER_VALID_def)
  moreover have "buf_used_bytes (b\<lparr>b_base := m, b_used := b_used b + of_nat n\<rparr>) = buf_used_bytes b @ take n out"
    "buf_used_bytes (b\<lparr>b_base := m\<rparr>) = buf_used_bytes b"
    using fit u assms(3) by (simp_all add: buf_used_bytes_def m_def)
  ultimately show ?thesis using w by auto
qed

lemma split_root:
  assumes "labels_ok ls"
  obtains xs root where "ls = xs @ root" and "root = [] \<or> root = [[]]" and "\<forall>l \<in> set xs. l \<noteq> [] \<and> length l \<le> 63"
    and "root \<noteq> [] \<longleftrightarrow> ends_root ls" and "xs = (if ends_root ls then butlast ls else ls)"
proof (cases "ends_root ls")
  case True
  then have "ls = butlast ls @ [[]]" by (metis append_butlast_last_id ends_root_def)
  moreover have "\<forall>l \<in> set (butlast ls). l \<noteq> [] \<and> length l \<le> 63"
    using assms by (auto simp: labels_ok_def dest: in_set_butlastD)
  ultimately show ?thesis using that [of "butlast ls" "[[]]"] True by simp
next
  case False
  have "l \<noteq> []" if "l \<in> set ls" for l
  proof -
    have "ls \<noteq> []" using that by auto
    then have "set ls = insert (last ls) (set (butlast ls))"
      by (metis append_butlast_last_id list.set(2) rotate1.simps(2) set_rotate1)
    then show ?thesis using that False assms \<open>ls \<noteq> []\<close> by (auto simp: labels_ok_def ends_root_def)
  qed
  then show ?thesis using that [of ls "[]"] False assms by (auto simp: labels_ok_def)
qed

lemma totext_store:
  assumes wf: "buf_wf target" and len: "length out + trem = buf_room target"
    and fail: "failed \<longleftrightarrow> \<not> ok \<or> nlen \<noteq> 0 \<and> trem = 0" and ne: "out = [] \<Longrightarrow> failed \<or> \<not> omit"
  shows "\<exists>t'. do {
       m \<leftarrow> mem_write (b_base target) (unat (b_used target)) out;
       if \<not> ok \<or> nlen \<noteq> 0 \<and> trem = 0 then Some (ISC_R_NOSPACE, target\<lparr>b_base := m\<rparr>)
       else do {
         target' \<leftarrow> isc__buffer_add (target\<lparr>b_base := m\<rparr>)
           (of_nat (buf_room target) - of_nat (if omit then trem + 1 else trem));
         Some (ISC_R_SUCCESS, target') } } = Some (if failed then ISC_R_NOSPACE else ISC_R_SUCCESS, t') \<and>
    buf_wf t' \<and> b_length t' = b_length target \<and>
    buf_used_bytes t' = buf_used_bytes target @ (if failed then [] else if omit then butlast out else out)"
proof -
  have n: "of_nat (buf_room target) - of_nat (if omit then trem + 1 else trem) = (of_nat (if omit then length out - 1 else length out) :: u32)"
    if "\<not> failed"
  proof -
    have "(if omit then trem + 1 else trem) \<le> buf_room target" using len ne that by (cases out) auto
    moreover have "buf_room target - (if omit then trem + 1 else trem) = (if omit then length out - 1 else length out)" using len by auto
    ultimately show ?thesis using of_nat_diff [of "if omit then trem + 1 else trem" "buf_room target", where ?'a = u32] by simp
  qed
  have le: "(if omit then length out - 1 else length out) \<le> length out" "length out \<le> buf_room target"
    using len by auto
  obtain m b' where m: "mem_write (b_base target) (unat (b_used target)) out = Some m"
    "isc__buffer_add (target\<lparr>b_base := m\<rparr>) (of_nat (if omit then length out - 1 else length out)) = Some b'"
    "buf_wf b'" "b_length b' = b_length target"
    "buf_used_bytes b' = buf_used_bytes target @ take (if omit then length out - 1 else length out) out"
    "buf_wf (target\<lparr>b_base := m\<rparr>)" "buf_used_bytes (target\<lparr>b_base := m\<rparr>) = buf_used_bytes target"
    using store_part [OF wf le(2,1)] by blast
  show ?thesis using m fail n by (cases failed) (auto simp: butlast_conv_take)
qed

lemma totext2_ok:
  assumes rep: "name_repr name ls" and wf: "buf_wf target"
  shows "\<exists>t'. dns_name_totext2 ISC_R_SUCCESS None name options target =
      Some (if text_need options ls \<le> buf_room target then ISC_R_SUCCESS else ISC_R_NOSPACE, t') \<and>
    buf_wf t' \<and> b_length t' = b_length target \<and>
    buf_used_bytes t' = buf_used_bytes target @ (if text_need options ls \<le> buf_room target then name_text options ls else [])"
proof -
  note d = name_reprD [OF rep]
  let ?r = "buf_room target"
  have av: "unat (isc_buffer_availablelength target) = ?r" by (rule unat_availablelength [OF wf])
  note run = dns_name_totext2_def d buf_wf_valid [OF wf] av Let_def
  show ?thesis
  proof (cases "ls = [] \<or> ls = [[]]")
    case True
    define c :: u8 where "c = (if ls = [] then 0x40 else 0x2e)"
    have root: "rd (n_ndata name) 0 = Some 0" if "ls = [[]]"
      using rd_drop(1) [of 0 "n_ndata name" 0 "drop (Suc 0) (n_ndata name)"] name_repr_bytes [OF rep] that by simp
    have len: "length (if ?r = 0 then [] else [c]) + (?r - 1) = ?r" by simp
    show ?thesis
      using totext_store [OF wf len, of "1 > ?r" "?r \<noteq> 0" 0 False] True root
      by (auto simp: run text_need_def name_text_def c_def)
  next
    case False
    obtain xs root where x: "ls = xs @ root" "root = [] \<or> root = [[]]" "\<forall>l \<in> set xs. l \<noteq> [] \<and> length l \<le> 63"
      "root \<noteq> [] \<longleftrightarrow> ends_root ls" "xs = (if ends_root ls then butlast ls else ls)" using split_root [OF d(2)] .
    have b: "drop 0 (n_ndata name) = wire (xs @ root) @ drop (length (wire ls)) (n_ndata name)"
      using name_repr_bytes [OF rep] x(1) by simp
    note l = totext_labels_ok [OF b x(3,2), of options ?r "[]"]
    have need: "text_need options ls = length (dotted options xs) + length root"
      using False x(2,4,5) by (auto simp: text_need_def)
    have "xs \<noteq> []" using False x(1,2) by auto
    then have ne: "dotted options xs \<noteq> []" by (cases xs) simp_all
    have root: "(if n_length name = 1 \<and> n_labels name = 1 then do { c \<leftarrow> rd (n_ndata name) 0; Some (c = 0) } else Some False) =
        Some False"
    proof (cases "length (wire ls) = 1")
      case True
      then have "ls = [[]]" using \<open>xs \<noteq> []\<close> x(1,3) by (cases xs) auto
      then show ?thesis using False by simp
    qed (simp add: d)
    obtain ok n t o' s where lab: "totext_labels options (n_ndata name) 0 (length ls) (length (wire ls)) ?r [] = Some (ok, n, t, o', s)"
      "length o' + t = ?r" "text_need options ls \<le> ?r \<Longrightarrow> ok \<and> n = 0 \<and> o' = dotted options xs \<and> s = (root \<noteq> [])"
      "\<not> text_need options ls \<le> ?r \<Longrightarrow> ok \<longrightarrow> n \<noteq> 0 \<and> t = 0"
    proof (cases "text_need options ls \<le> ?r")
      case True
      then have "length (dotted options xs) + length root \<le> ?r" unfolding need .
      with l have "totext_labels options (n_ndata name) 0 (length ls) (length (wire ls)) ?r [] =
          Some (True, 0, ?r - length (dotted options xs), dotted options xs, root \<noteq> [])"
        unfolding x(1) by (simp only: if_True append_Nil)
      then show ?thesis by (rule that) (use True need in simp_all)
    next
      case False
      then have "\<not> length (dotted options xs) + length root \<le> ?r" unfolding need .
      with l obtain ok n t o' s where "totext_labels options (n_ndata name) 0 (length ls) (length (wire ls)) ?r [] =
          Some (ok, n, t, o', s)" "ok \<longrightarrow> n \<noteq> 0 \<and> t = 0" "length o' + t = ?r"
        unfolding x(1) by (simp only: if_False list.size add_0) blast
      then show ?thesis using that False by blast
    qed
    let ?omit = "\<not> s \<or> options AND DNS_NAME_OMITFINALDOT \<noteq> 0"
    have nt: "name_text options ls = (if ?omit then butlast (dotted options xs) else dotted options xs)"
      if "s = (root \<noteq> [])" using False that x(4,5) by (auto simp: name_text_def)
    have lz: "o' = []" if "?r = 0" using lab(2) that by simp
    have lz: "(if ?r = 0 then [] else o') = o'" using lz by auto
    have eq: "dns_name_totext2 ISC_R_SUCCESS None name options target = do {
       m \<leftarrow> mem_write (b_base target) (unat (b_used target)) o';
       if \<not> ok \<or> n \<noteq> 0 \<and> t = 0 then Some (ISC_R_NOSPACE, target\<lparr>b_base := m\<rparr>)
       else do {
         target' \<leftarrow> isc__buffer_add (target\<lparr>b_base := m\<rparr>)
           (of_nat ?r - of_nat (if ?omit then t + 1 else t));
         Some (ISC_R_SUCCESS, target') } }"
      using False lab(1) unfolding dns_name_totext2_def Let_def av root option.case by (simp add: d buf_wf_valid [OF wf] lz)
    show ?thesis
    proof (cases "text_need options ls \<le> ?r")
      case True
      note l3 = lab(3) [OF True]
      have f: "False \<longleftrightarrow> \<not> ok \<or> n \<noteq> 0 \<and> t = 0" using l3 by simp
      have nt': "name_text options ls = (if ?omit then butlast o' else o')" using nt l3 by simp
      show ?thesis
        using totext_store [OF wf lab(2) f, of ?omit] l3 ne unfolding eq nt' by (simp only: True if_True if_False)
    next
      case F: False
      have f: "True \<longleftrightarrow> \<not> ok \<or> n \<noteq> 0 \<and> t = 0" using lab(4) [OF F] by blast
      show ?thesis
        using totext_store [OF wf lab(2) f, of ?omit] unfolding eq by (simp only: F if_True if_False simp_thms)
    qed
  qed
qed

section \<open>Copies and digests of names\<close>

lemma name_copy_repr:
  assumes src: "name_repr source ls" and dest: "VALID_NAME dest" "BINDABLE dest"
    and b: "open_target dest target = Some b" "buf_wf b"
  shows "if length (wire ls) > buf_room b
    then dns_name_copy source dest target = Some (close_target ISC_R_NOSPACE dest target b)
    else \<exists>r. dns_name_copy source dest target = Some r \<and> copied r target b ls"
proof -
  note d = name_reprD [OF src]
  have tg: "target \<noteq> None \<or> n_buffer dest \<noteq> None" using b(1) by (cases target; cases "n_buffer dest") (simp_all add: open_target_def)
  have av: "unat (b_length b - b_used b) = buf_room b"
    using unat_availablelength [OF b(2)] by (simp add: isc_buffer_availablelength_def)
  show ?thesis
  proof (cases "length (wire ls) > buf_room b")
    case True
    then show ?thesis using tg dest b by (simp add: dns_name_copy_def d av)
  next
    case False
    then have fit: "length (wire ls) \<le> buf_room b" by simp
    obtain m where m: "mem_write (b_base b) (unat (b_used b)) (wire ls) = Some m"
      using buffer_store [OF b(2) fit] by metis
    have "\<exists>r. dns_name_copy source dest target = Some r \<and> copied r target b ls"
    proof (rule fill_name [OF b(2) d(2) fit dest(1) m])
      let ?n = "dest\<lparr>n_ndata := drop (unat (b_used b)) m, n_labels := length ls, n_length := length (wire ls),
        n_attributes := (if ends_root ls then DNS_NAMEATTR_ABSOLUTE else 0)\<rparr>"
      have dr: "drop (unat (b_used b)) m = wire ls @ drop (unat (b_used b) + length (wire ls)) (b_base b)"
        using buffer_store [OF b(2) fit] m by (metis option.inject)
      have rf: "refresh_offsets ?n = Some (?n\<lparr>n_offsets := map_option (\<lambda>_. offsets_of ls) (n_offsets dest)\<rparr>)"
        using refresh_offsets_repr [OF d(2), of ?n] dr by simp
      have off: "mem_read offs 0 (length ls) = Some (offsets_of ls)" if "n_offsets source = Some offs" for offs
        using name_repr_offsets [OF src that] by (simp add: d)
      have e: "(if n_labels ?n > 0 \<and> n_offsets ?n \<noteq> None then
                  case n_offsets source of
                    Some offs \<Rightarrow> do { t \<leftarrow> mem_read offs 0 (length ls); Some (?n\<lparr>n_offsets := Some t\<rparr>) }
                  | None \<Rightarrow> refresh_offsets ?n
                else Some ?n) = (if n_labels ?n > 0 then refresh_offsets ?n else Some ?n)"
        using off rf by (auto simp: d refresh_offsets_def split: option.split)
      have rd: "mem_read (n_ndata source) 0 (length (wire ls)) = Some (wire ls)" using src by (auto simp: name_repr_def)
      have g: "REQUIRE (target \<noteq> None \<or> n_buffer dest \<noteq> None) = Some ()" "REQUIRE (VALID_NAME source) = Some ()"
        "REQUIRE (VALID_NAME dest) = Some ()" "REQUIRE (BINDABLE dest) = Some ()" using tg d dest by simp_all
      show "dns_name_copy source dest target = do {
       name \<leftarrow> (let name = ?n in if n_labels name > 0 then refresh_offsets name else Some name);
       b \<leftarrow> isc__buffer_add (b\<lparr>b_base := m\<rparr>) (of_nat (n_length name));
       Some (close_target ISC_R_SUCCESS name target b) }"
        unfolding dns_name_copy_def g b(1) bind.bind_lunit Let_def d av rd m e using False by simp
    qed
    then show ?thesis using False by simp
  qed
qed

lemma digest_ok:
  assumes "name_repr name ls" and "length data = 256"
  shows "dns_name_digest data name digest = Some (digest (wire (lower ls)))"
proof -
  let ?b = "isc__buffer_init data 256"
  have wf: "buf_wf ?b" "buf_room ?b = 256" "buf_used_bytes ?b = []" 
    using assms(2) by (simp_all add: isc__buffer_init_def ISC__BUFFER_INIT_def buf_wf_def ISC_BUFFER_VALID_def buf_room_def buf_used_bytes_def)
  have "length (wire ls) \<le> 255" using name_reprD(2) [OF assms(1)] by (simp add: labels_ok_def DNS_NAME_MAXWIRE_def)
  then obtain r where r: "dns_name_downcase name (DNS_NAME_INIT None) (Some ?b) = Some r" "copied r (Some ?b) ?b (lower ls)"
    using downcase_repr [OF assms(1), of "DNS_NAME_INIT None" "Some ?b" ?b] wf
    by (auto simp: open_target_def buf_wf_def DNS_NAME_INIT_def VALID_NAME_def BINDABLE_def)
  then obtain n b' where "r = (ISC_R_SUCCESS, n, Some b')" "buf_wf b'" "buf_used_bytes b' = wire (lower ls)"
    using wf(3) by (auto simp: copied_def close_target_def)
  moreover from this have "mem_read (b_base b') 0 (unat (b_used b')) = Some (wire (lower ls))"
    by (auto simp: mem_read_def buf_wf_def buf_used_bytes_def)
  ultimately show ?thesis using r(1) assms(1) by (simp add: dns_name_digest_def name_reprD)
qed


section \<open>Buffers that hold every name\<close>

abbreviation master_options :: "bool \<Rightarrow> u32" where
  "master_options omit \<equiv> if omit then DNS_NAME_MASTERFILE OR DNS_NAME_OMITFINALDOT else DNS_NAME_MASTERFILE"

lemma master_options_bits:
  "master_options omit AND DNS_NAME_MASTERFILE \<noteq> 0" "master_options omit AND DNS_NAME_OMITFINALDOT \<noteq> 0 \<longleftrightarrow> omit"
  by (simp_all add: DNS_NAME_MASTERFILE_def DNS_NAME_OMITFINALDOT_def)

lemma length_dotted:
  assumes "\<forall>l \<in> set xs. l \<noteq> []"
  shows "length (dotted options xs) + 3 * length xs \<le> 4 * length (wire xs)"
  using assms
proof (induction xs)
  case (Cons l xs)
  have "length (label_text options l) \<le> 4 * length l"
  proof (induction l)
    case (Cons c l)
    have "length (text_char options c) \<le> 4" by (simp add: text_char_def)
    then show ?case using Cons.IH by simp
  qed simp
  then show ?case using Cons by simp
qed simp

lemma text_need_max:
  assumes "labels_ok ls"
  shows "text_need options ls \<le> 1017"
proof (cases "ls = [] \<or> ls = [[]]")
  case False
  obtain xs root where x: "ls = xs @ root" "root = [] \<or> root = [[]]" "\<forall>l \<in> set xs. l \<noteq> [] \<and> length l \<le> 63"
    "root \<noteq> [] \<longleftrightarrow> ends_root ls" "xs = (if ends_root ls then butlast ls else ls)" using split_root [OF assms] .
  have n: "length xs \<ge> 1" using False x(1,2) by (cases xs) auto
  have w: "length (wire xs) + length root \<le> 255" using assms x(1,2) by (auto simp: labels_ok_def DNS_NAME_MAXWIRE_def)
  have need: "text_need options ls = length (dotted options xs) + length root"
    using False x(2,4,5) by (auto simp: text_need_def)
  show ?thesis using length_dotted [of xs options] x(2,3) n w unfolding need by auto
qed (simp add: text_need_def)

lemma init_wf:
  assumes "length m = unat n"
  shows "buf_wf (isc__buffer_init m n)" "buf_room (isc__buffer_init m n) = unat n" "buf_used_bytes (isc__buffer_init m n) = []"
    "b_length (isc__buffer_init m n) = n"
  using assms by (simp_all add: isc__buffer_init_def ISC__BUFFER_INIT_def buf_wf_def ISC_BUFFER_VALID_def buf_room_def buf_used_bytes_def)

lemma totext_into:
  assumes rep: "name_repr name ls" and len: "length m = unat n" "1017 \<le> unat n"
  shows "\<exists>b. dns_name_totext ISC_R_SUCCESS None name omit (isc__buffer_init m n) = Some (ISC_R_SUCCESS, b) \<and>
    length (b_base b) = length m \<and> unat (b_used b) = length (name_text (master_options omit) ls) \<and>
    unat (b_used b) \<le> length m \<and>
    take (unat (b_used b)) (b_base b) = name_text (master_options omit) ls"
proof -
  have "text_need (master_options omit) ls \<le> unat n" using text_need_max [OF name_reprD(2) [OF rep]] len(2) le_trans by blast
  then obtain b where b: "dns_name_totext ISC_R_SUCCESS None name omit (isc__buffer_init m n) = Some (ISC_R_SUCCESS, b)"
    "buf_wf b" "b_length b = n" "buf_used_bytes b = name_text (master_options omit) ls"
    using totext2_ok [OF rep init_wf(1) [OF len(1)], of "master_options omit"] init_wf [OF len(1)]
    unfolding dns_name_totext_def by auto
  then show ?thesis using len length_buf_used [OF b(2)] by (auto simp: buf_wf_def buf_used_bytes_def)
qed

lemma name_strings:
  assumes "name_repr name ls" and "length cp = DNS_NAME_FORMATSIZE" and "length ta = DNS_NAME_FORMATSIZE"
  shows "\<exists>cp'. dns_name_format ISC_R_SUCCESS None name cp (of_nat DNS_NAME_FORMATSIZE) = Some cp' \<and> length cp' = length cp \<and>
      take (length (name_text (master_options True) ls) + 1) cp' = name_text (master_options True) ls @ [0]"
    and "dns_name_tostring ISC_R_SUCCESS None name ta True = Some (ISC_R_SUCCESS, Some (name_text (master_options False) ls @ [0]))"
    and "dns_name_print ISC_R_SUCCESS None name ta stream = Some (ISC_R_SUCCESS, stream @ name_text (master_options False) ls)"
proof -
  obtain b where b: "dns_name_totext ISC_R_SUCCESS None name True (isc__buffer_init (take 1023 cp) 1023) = Some (ISC_R_SUCCESS, b)"
    "length (b_base b) = 1023" "unat (b_used b) = length (name_text (master_options True) ls)" "unat (b_used b) \<le> 1023"
    "take (unat (b_used b)) (b_base b) = name_text (master_options True) ls"
    using totext_into [OF assms(1), of "take 1023 cp" 1023 True] assms(2) by (auto simp: DNS_NAME_FORMATSIZE_def)
  show "\<exists>cp'. dns_name_format ISC_R_SUCCESS None name cp (of_nat DNS_NAME_FORMATSIZE) = Some cp' \<and> length cp' = length cp \<and>
      take (length (name_text (master_options True) ls) + 1) cp' = name_text (master_options True) ls @ [0]"
    using b assms(2) by (simp add: dns_name_format_def DNS_NAME_FORMATSIZE_def mem_read_def mem_write_def)
  obtain c where c: "dns_name_totext ISC_R_SUCCESS None name False (isc__buffer_init ta 1024) = Some (ISC_R_SUCCESS, c)"
    "length (b_base c) = 1024" "unat (b_used c) = length (name_text (master_options False) ls)" "unat (b_used c) \<le> 1024"
    "take (unat (b_used c)) (b_base c) = name_text (master_options False) ls"
    using totext_into [OF assms(1), of ta 1024 False] assms(3) by (auto simp: DNS_NAME_FORMATSIZE_def)
  show "dns_name_tostring ISC_R_SUCCESS None name ta True = Some (ISC_R_SUCCESS, Some (name_text (master_options False) ls @ [0]))"
    using c name_reprD(1) [OF assms(1)] by (simp add: dns_name_tostring_def DNS_NAME_FORMATSIZE_def mem_read_def)
  show "dns_name_print ISC_R_SUCCESS None name ta stream = Some (ISC_R_SUCCESS, stream @ name_text (master_options False) ls)"
    using c name_reprD(1) [OF assms(1)] by (simp add: dns_name_print_def mem_read_def)
qed

section \<open>File names\<close>

definition file_plain :: "u8 \<Rightarrow> bool" where
  "file_plain c \<longleftrightarrow> 0x30 \<le> c \<and> c \<le> 0x39 \<or> 0x41 \<le> c \<and> c \<le> 0x5a \<or> 0x61 \<le> c \<and> c \<le> 0x7a \<or> c = 0x2d \<or> c = 0x5f"

definition file_char :: "u8 \<Rightarrow> bytes" where
  "file_char c = (if file_plain c then [maptolower c] else [0x25, hexdig (c div 16), hexdig (c mod 16)])"

definition file_dotted :: "bytes list \<Rightarrow> bytes" where
  "file_dotted xs = concat (map (\<lambda>l. concat (map file_char l) @ [0x2e]) xs)"

definition file_text :: "bool \<Rightarrow> bytes list \<Rightarrow> bytes" where
  "file_text omit ls =
     (if ls = [[]] then [0x2e] else if omit then butlast (file_dotted (butlast ls)) else file_dotted (butlast ls))"

lemma file_dotted_simps [simp]:
  "file_dotted [] = []" "file_dotted (l # xs) = concat (map file_char l) @ 0x2e # file_dotted xs"
  by (simp_all add: file_dotted_def)

lemma filename_chars_step:
  assumes "rd ndata p = Some c" and "length (file_char c) < trem"
  shows "filename_chars spare ndata p (Suc n) trem out =
    filename_chars spare ndata (p + 1) n (trem - length (file_char c)) (out @ file_char c)"
proof (cases "file_plain c")
  case True
  then show ?thesis using assms unfolding filename_chars.simps(2) assms(1) bind.bind_lunit file_plain_def [symmetric]
    by (simp add: file_char_def maptolower_def)
next
  case False
  then show ?thesis using assms unfolding filename_chars.simps(2) assms(1) bind.bind_lunit file_plain_def [symmetric]
    by (simp add: file_char_def numeral_3_eq_3)
qed

lemma filename_chars_append:
  assumes "drop p ndata = l @ rest" and "length (concat (map file_char l)) < trem"
  shows "filename_chars spare ndata p (length l + n) trem out =
    filename_chars spare ndata (p + length l) n (trem - length (concat (map file_char l))) (out @ concat (map file_char l))"
  using assms
proof (induction l arbitrary: p trem out)
  case (Cons c l)
  have "rd ndata p = Some c" and d: "drop (p + 1) ndata = l @ rest"
    using rd_drop [of p ndata c "l @ rest"] Cons.prems by auto
  then show ?case
    using filename_chars_step [of ndata p c trem spare "length l + n" out] Cons.prems Cons.IH [OF d, of "trem - length (file_char c)" "out @ file_char c"]
    by (simp add: diff_diff_eq del: filename_chars.simps)
qed simp

lemma filename_chars_ok:
  assumes "drop p ndata = l @ rest" and "length (concat (map file_char l)) < trem"
  shows "filename_chars spare ndata p (length l) trem out =
    Some (True, trem - length (concat (map file_char l)), out @ concat (map file_char l))"
  using filename_chars_append [OF assms, of spare 0 out] by simp

lemma filename_labels_ok:
  assumes "drop p ndata = wire (xs @ [[]]) @ rest" and "\<forall>l \<in> set xs. l \<noteq> [] \<and> length l \<le> 63" and "length (file_dotted xs) < trem"
  shows "filename_labels spare ndata p (length xs + 1) (length (wire xs) + 1) trem out =
    Some (True, 0, trem - length (file_dotted xs), out @ file_dotted xs)"
  using assms
proof (induction xs arbitrary: p trem out)
  case Nil
  have "rd ndata p = Some 0" using rd_drop(1) [of p ndata 0 rest] Nil by simp
  then show ?case using Nil by simp
next
  case (Cons l xs)
  have l: "l \<noteq> []" "length l \<le> 63" using Cons.prems(2) by auto
  have c: "rd ndata p = Some (of_nat (length l))" and d: "drop (Suc p) ndata = l @ wire (xs @ [[]]) @ rest"
    using rd_drop [of p ndata "of_nat (length l)" "l @ wire (xs @ [[]]) @ rest"] Cons.prems(1) by auto
  have d2: "drop (Suc p + length l) ndata = wire (xs @ [[]]) @ rest"
    using d by (metis append_eq_conv_conj drop_drop add.commute)
  have n: "(of_nat (length l) :: u8) < 64" "unat (of_nat (length l) :: u8) = length l" "(of_nat (length l) :: u8) \<noteq> 0"
    using l by (simp_all add: word_less_nat_alt)
  let ?t = "concat (map file_char l)"
  have "length ?t < trem" using Cons.prems(3) by simp
  note ch = filename_chars_ok [OF d this, of spare out]
  have k: "length (l # xs) + 1 = Suc (length xs + 1)" by simp
  have "filename_labels spare ndata p (length (l # xs) + 1) (length (wire (l # xs)) + 1) trem out =
      filename_labels spare ndata (Suc p + length l) (length xs + 1) (length (wire xs) + 1) (trem - length ?t - 1) (out @ ?t @ [0x2e])"
    using Cons.prems(3) c n l ch unfolding k filename_labels.simps(2)
    by (simp add: Let_def del: filename_labels.simps)
  then show ?case
    using Cons.IH [OF d2, of "trem - length ?t - 1" "out @ ?t @ [0x2e]"] Cons.prems(2,3)
    by (simp add: diff_diff_eq del: filename_labels.simps)
qed

lemma filename_ok:
  assumes rep: "name_repr name ls" "ends_root ls" and wf: "buf_wf target" and room: "length (file_text False ls) < buf_room target"
  shows "\<exists>t'. dns_name_tofilenametext name omit target = Some (ISC_R_SUCCESS, t') \<and> buf_wf t' \<and> b_length t' = b_length target \<and>
    buf_used_bytes t' = buf_used_bytes target @ file_text omit ls"
proof -
  note d = name_reprD [OF rep(1)]
  let ?r = "buf_room target"
  have av: "unat (isc_buffer_availablelength target) = ?r" by (rule unat_availablelength [OF wf])
  obtain xs root where x: "ls = xs @ root" "root = [] \<or> root = [[]]" "\<forall>l \<in> set xs. l \<noteq> [] \<and> length l \<le> 63"
    "root \<noteq> [] \<longleftrightarrow> ends_root ls" "xs = (if ends_root ls then butlast ls else ls)" using split_root [OF d(2)] .
  have ls: "ls = xs @ [[]]" using x rep(2) by auto
  show ?thesis
  proof (cases "xs = []")
    case True
    have root: "rd (n_ndata name) 0 = Some 0"
      using rd_drop(1) [of 0 "n_ndata name" 0 "drop (Suc 0) (n_ndata name)"] name_repr_bytes [OF rep(1)] True ls by simp
    have len: "length [0x2e::u8] + (?r - 1) = ?r" using room by simp
    show ?thesis
      using totext_store [OF wf len, of False True 0 False] True root ls d buf_wf_valid [OF wf] room rep(2)
      by (simp add: dns_name_tofilenametext_def av Let_def file_text_def)
  next
    case False
    have b: "drop 0 (n_ndata name) = wire (xs @ [[]]) @ drop (length (wire ls)) (n_ndata name)"
      using name_repr_bytes [OF rep(1)] ls by simp
    have room': "length (file_dotted xs) < ?r" using room False ls by (simp add: file_text_def)
    note l = filename_labels_ok [OF b x(3) room', of _ "[]"]
    have len: "length (file_dotted xs) + (?r - length (file_dotted xs)) = ?r" using room' by simp
    have nw: "length (wire ls) \<noteq> 1" using False ls x(3) by (cases xs) auto
    have eq: "dns_name_tofilenametext name omit target = do {
       m \<leftarrow> mem_write (b_base target) (unat (b_used target)) (file_dotted xs);
       if \<not> True \<or> (0::nat) \<noteq> 0 \<and> ?r - length (file_dotted xs) = 0 then Some (ISC_R_NOSPACE, target\<lparr>b_base := m\<rparr>)
       else do {
         target' \<leftarrow> isc__buffer_add (target\<lparr>b_base := m\<rparr>)
           (of_nat ?r - of_nat (if omit then ?r - length (file_dotted xs) + 1 else ?r - length (file_dotted xs)));
         Some (ISC_R_SUCCESS, target') } }"
      using l nw rep(2) room' unfolding dns_name_tofilenametext_def Let_def av
      by (simp add: d buf_wf_valid [OF wf] ls)
    have "file_dotted xs \<noteq> []" using False by (cases xs) simp_all
    then show ?thesis
      using totext_store [OF wf len, of False True 0 omit] False ls unfolding eq by (auto simp: file_text_def)
  qed
qed


lemma file_plain_lower:
  assumes "file_plain c"
  shows "maptolower c \<noteq> 0x25" "maptolower c \<noteq> 0x2e" "maptolower c \<noteq> 0x2f" "maptolower c \<noteq> 0" "file_plain (maptolower c)"
  using assms by (auto simp: file_plain_def maptolower_def word_le_nat_alt word_unat_eq_iff unat_word_ariths split: if_splits)

lemma hexdig_inj:
  assumes "hexdig a = hexdig b" and "a < 16" and "b < 16"
  shows "a = b"
  using assms by (auto simp: hexdig_def word_less_nat_alt word_unat_eq_iff unat_word_ariths split: if_splits)

lemma byte_nibbles: "(c::u8) div 16 < 16" "c mod 16 < 16" "c div 16 * 16 + c mod 16 = c"
proof -
  have "unat c < 256" using unsigned_less [where ?'a = nat, of c] by simp
  then show "c div 16 < 16" "c mod 16 < 16" by (simp_all add: word_less_nat_alt unat_div unat_mod)
qed (rule div_mult_mod_eq)

lemma file_char_lower: "file_char (maptolower c) = file_char c"
proof (cases "file_plain c")
  case True
  then show ?thesis using file_plain_lower(5) by (simp add: file_char_def)
next
  case False
  then have "maptolower c = c" by (auto simp: maptolower_def file_plain_def)
  then show ?thesis by simp
qed

lemma file_char_split:
  assumes "file_char c @ r = file_char c' @ r'"
  shows "maptolower c = maptolower c' \<and> r = r'"
proof (cases "file_plain c \<or> file_plain c'")
  case True
  then show ?thesis using assms file_plain_lower(1) [of c] file_plain_lower(1) [of c'] by (auto simp: file_char_def split: if_splits)
next
  case False
  then have "hexdig (c div 16) = hexdig (c' div 16)" "hexdig (c mod 16) = hexdig (c' mod 16)" "r = r'"
    using assms by (simp_all add: file_char_def)
  then have "c div 16 = c' div 16" "c mod 16 = c' mod 16" "r = r'" using hexdig_inj byte_nibbles by blast+
  then have "c = c'" by (metis byte_nibbles(3))
  then show ?thesis using \<open>r = r'\<close> by simp
qed

lemma file_char_hd: "\<exists>x w. file_char c = x # w \<and> x \<noteq> 0x2e"
  using file_plain_lower(2) [of c] by (simp add: file_char_def)

lemma file_label_split:
  assumes "concat (map file_char l) @ 0x2e # r = concat (map file_char l') @ 0x2e # r'"
  shows "map maptolower l = map maptolower l' \<and> r = r'"
  using assms
proof (induction l arbitrary: l')
  case Nil
  show ?case
  proof (cases l')
    case (Cons c' k)
    then show ?thesis using Nil file_char_hd [of c'] by auto
  qed (use Nil in simp)
next
  case (Cons c l)
  show ?case
  proof (cases l')
    case Nil
    then show ?thesis using Cons.prems file_char_hd [of c] by auto
  next
    case l': (Cons c' k)
    then show ?thesis
      using file_char_split [of c "concat (map file_char l) @ 0x2e # r" c' "concat (map file_char k) @ 0x2e # r'"] Cons.prems Cons.IH [of k]
      by simp
  qed
qed

lemma file_dotted_inj: "file_dotted xs = file_dotted ys \<longleftrightarrow> lower xs = lower ys"
proof
  show "file_dotted xs = file_dotted ys \<Longrightarrow> lower xs = lower ys"
  proof (induction xs arbitrary: ys)
    case Nil
    then show ?case by (cases ys) simp_all
  next
    case (Cons l xs)
    show ?case
    proof (cases ys)
      case ys: (Cons k ys')
      have "map maptolower l = map maptolower k \<and> file_dotted xs = file_dotted ys'"
        by (rule file_label_split) (use Cons.prems ys in simp)
      then show ?thesis using Cons.IH ys by simp
    qed (use Cons.prems in simp)
  qed
next
  have "file_dotted (lower zs) = file_dotted zs" for zs
    by (simp add: lower_def file_dotted_def comp_def file_char_lower)
  then show "lower xs = lower ys \<Longrightarrow> file_dotted xs = file_dotted ys" by metis
qed

lemma file_dotted_last: "xs \<noteq> [] \<Longrightarrow> \<exists>w. file_dotted xs = w @ [0x2e]"
  by (cases xs rule: rev_cases) (simp_all add: file_dotted_def)

lemma file_text_inj:
  assumes "labels_ok ls" "ends_root ls" and "labels_ok ls'" "ends_root ls'"
  shows "file_text omit ls = file_text omit ls' \<longleftrightarrow> lower ls = lower ls'"
proof -
  obtain xs where x: "ls = xs @ [[]]" "\<forall>l \<in> set xs. l \<noteq> []" using split_root [OF assms(1)] assms(2) by (metis append_Nil2)
  obtain ys where y: "ls' = ys @ [[]]" "\<forall>l \<in> set ys. l \<noteq> []" using split_root [OF assms(3)] assms(4) by (metis append_Nil2)
  have ne: "file_dotted zs \<noteq> [0x2e]" "butlast (file_dotted zs) \<noteq> [0x2e]" if zs: "zs \<noteq> []" "\<forall>l \<in> set zs. l \<noteq> []" for zs
  proof -
    obtain c l zs' where "zs = (c # l) # zs'" using zs by (cases zs; cases "hd zs") auto
    moreover obtain a w where "file_char c = a # w" "a \<noteq> 0x2e" using file_char_hd by blast
    ultimately show "file_dotted zs \<noteq> [0x2e]" "butlast (file_dotted zs) \<noteq> [0x2e]" by (auto simp: butlast_append)
  qed
  have "butlast (file_dotted xs) = butlast (file_dotted ys) \<longleftrightarrow> file_dotted xs = file_dotted ys" if "xs \<noteq> []" "ys \<noteq> []"
    using file_dotted_last [OF that(1)] file_dotted_last [OF that(2)] by auto
  then show ?thesis
    using file_dotted_inj [of xs ys] ne [of xs] ne [of ys] x y
    by (cases "xs = []"; cases "ys = []") (auto simp: file_text_def dest: sym)
qed

lemma hexdig_safe: "d < 16 \<Longrightarrow> hexdig d \<noteq> 0x2f \<and> hexdig d \<noteq> 0"
  by (auto simp: hexdig_def word_less_nat_alt word_unat_eq_iff unat_word_ariths)

lemma file_text_safe: "0x2f \<notin> set (file_text omit ls)" "0 \<notin> set (file_text omit ls)"
proof -
  have "0x2f \<notin> set (file_char c) \<and> 0 \<notin> set (file_char c)" for c
    using file_plain_lower [of c] hexdig_safe [OF byte_nibbles(1) [of c]] hexdig_safe [OF byte_nibbles(2) [of c]] by (auto simp: file_char_def)
  then have "0x2f \<notin> set (file_dotted xs) \<and> 0 \<notin> set (file_dotted xs)" for xs by (auto simp: file_dotted_def)
  then show "0x2f \<notin> set (file_text omit ls)" "0 \<notin> set (file_text omit ls)"
    by (auto simp: file_text_def dest: in_set_butlastD)
qed

lemma filename_overrun:
  assumes rep: "name_repr name ((l @ c # l') # xs)" "ends_root ((l @ c # l') # xs)" and wf: "buf_wf target"
    and room: "buf_room target = length (concat (map file_char l)) + 3" and c: "\<not> file_plain c"
  shows "dns_name_tofilenametext name omit target = None"
proof -
  let ?ls = "(l @ c # l') # xs" and ?n = "length (l @ c # l')" and ?t = "concat (map file_char l)"
  note d = name_reprD [OF rep(1)]
  have n: "?n \<le> 63" using d(2) by (simp add: labels_ok_def)
  have b: "n_ndata name = of_nat ?n # l @ (c # l' @ wire xs @ drop (length (wire ?ls)) (n_ndata name))" (is "_ = _ # l @ ?rest")
    using name_repr_bytes [OF rep(1)] by simp
  have c0: "rd (n_ndata name) 0 = Some (of_nat ?n)" and d1: "drop 1 (n_ndata name) = l @ ?rest"
    using rd_drop [of 0 "n_ndata name" "of_nat ?n" "l @ ?rest"] b by auto
  have d2: "drop (1 + length l) (n_ndata name) = ?rest" using d1 by (metis append_eq_conv_conj drop_drop add.commute)
  have cl: "rd (n_ndata name) (1 + length l) = Some c" using rd_drop(1) [OF d2] .
  have un: "(of_nat ?n :: u8) < 64" "unat (of_nat ?n :: u8) = ?n" "(of_nat ?n :: u8) \<noteq> 0" "?n = length l + Suc (length l')"
    using n by (simp_all add: word_less_nat_alt unat_of_nat of_nat_eq_0_iff word_unat_eq_iff del: of_nat_add of_nat_Suc)
  have "filename_chars 0 (n_ndata name) 1 (length l + Suc (length l')) (length ?t + 3) [] =
      filename_chars 0 (n_ndata name) (1 + length l) (Suc (length l')) 3 ?t"
    using filename_chars_append [OF d1, of "length ?t + 3" 0 "Suc (length l')" "[]"] by simp
  also have "\<dots> = None"
    using c unfolding filename_chars.simps(2) cl bind.bind_lunit file_plain_def [symmetric] by simp
  finally have ch: "filename_chars 0 (n_ndata name) 1 ?n (length ?t + 3) [] = None" by (simp only: un(4))
  have "filename_labels 0 (n_ndata name) 0 (length ?ls) (length (wire ?ls)) (length ?t + 3) [] = None"
    using ch un(1-3) unfolding list.size(4) add.right_neutral Suc_eq_plus1 [symmetric]
    by (simp add: c0 Let_def)
  moreover have "length (b_base target) - unat (b_length target) = 0" using wf by (simp add: buf_wf_def)
  moreover have "n_length name \<noteq> 1" using d by simp
  ultimately show ?thesis
    using d rep(2) buf_wf_valid [OF wf] unat_availablelength [OF wf] room by (simp add: dns_name_tofilenametext_def Let_def)
qed

section \<open>Setting the filter\<close>

lemma settotextfilter_sets:
  assumes "k_initialized k" and "\<And>p. proc = Some p \<Longrightarrow> mem_get" and "proc = None \<Longrightarrow> k_specific k \<noteq> None"
  shows "dns_name_settotextfilter ISC_R_SUCCESS mem_create2 key_create mem_get True proc k =
    Some (ISC_R_SUCCESS, k\<lparr>k_specific := proc\<rparr>)"
  using assms by (cases "k_specific k"; cases proc) (auto simp: dns_name_settotextfilter_def totext_filter_proc_key_init_def)

lemma settotextfilter_unset_aborts:
  assumes "k_specific k = None" and "fst (totext_filter_proc_key_init once_do mem_create2 key_create k) = ISC_R_SUCCESS"
  shows "dns_name_settotextfilter once_do mem_create2 key_create mem_get setspecific None k = None"
  using assms by (auto simp: dns_name_settotextfilter_def totext_filter_proc_key_init_def Let_def split: if_splits)

section \<open>Properties\<close>

text \<open>C36: A buffer of \<open>DNS_NAME_FORMATSIZE\<close> holds every name. With a buffer of 1024 bytes \<open>dns_name_format\<close> never falls back
  to \<open><unknown>\<close>: it stores the whole text and a NUL within the buffer; \<open>dns_name_tostring\<close> and \<open>dns_name_print\<close>, which use
  such a buffer, give the whole text.
\<close>

theorem name_format_complete:
  assumes "name_repr name ls" and "length cp = DNS_NAME_FORMATSIZE" and "length ta = DNS_NAME_FORMATSIZE"
  shows "(\<exists>cp'. dns_name_format ISC_R_SUCCESS None name cp (of_nat DNS_NAME_FORMATSIZE) = Some cp' \<and> length cp' = length cp \<and>
      take (length (name_text (master_options True) ls) + 1) cp' = name_text (master_options True) ls @ [0]) \<and>
    dns_name_tostring ISC_R_SUCCESS None name ta True = Some (ISC_R_SUCCESS, Some (name_text (master_options False) ls @ [0])) \<and>
    dns_name_print ISC_R_SUCCESS None name ta stream = Some (ISC_R_SUCCESS, stream @ name_text (master_options False) ls)"
  using name_strings [OF assms] by blast

abbreviation example_name :: dns_name where
  "example_name \<equiv> (DNS_NAME_INIT None)\<lparr>n_ndata := [1, 0x2e, 0], n_length := 3, n_labels := 2, n_attributes := DNS_NAMEATTR_ABSOLUTE\<rparr>"

abbreviation other_name :: dns_name where
  "other_name \<equiv> (DNS_NAME_INIT None)\<lparr>n_ndata := [1, 0x61, 0], n_length := 3, n_labels := 2, n_attributes := DNS_NAMEATTR_ABSOLUTE\<rparr>"

lemma example_names: "name_repr example_name [[0x2e], []]" "name_repr other_name [[0x61], []]"
  by (rule name_reprI [of _ _ "[]"],
      simp_all add: DNS_NAME_INIT_def VALID_NAME_def labels_ok_def DNS_NAME_MAXWIRE_def absolute_attr_def ends_root_def
        DNS_NAMEATTR_ABSOLUTE_def)+

theorem name_format_complete_witness:
  "dns_name_tostring ISC_R_SUCCESS None example_name (replicate 1024 0) True = Some (ISC_R_SUCCESS, Some [0x5c, 0x2e, 0x2e, 0])"
proof -
  have "name_text (master_options False) [[0x2e], []] = [0x5c, 0x2e, 0x2e]" by code_simp
  then show ?thesis
    using name_format_complete [OF example_names(1), of "replicate 1024 0" "replicate 1024 0" "[]"]
    by (simp add: DNS_NAME_FORMATSIZE_def)
qed

text \<open>C37: File names identify names. Two absolute names are written by \<open>dns_name_tofilenametext\<close> to buffers with enough room:
  both calls succeed, no \<open>/\<close> and no NUL is written, and the two file names are equal exactly when the names are equal
  without regard to case.
\<close>

theorem filename_identifies_name:
  assumes "name_repr name ls" and "ends_root ls" and "buf_wf target" and "length (file_text False ls) < buf_room target"
    and "name_repr name' ls'" and "ends_root ls'" and "buf_wf target'" and "length (file_text False ls') < buf_room target'"
  shows "\<exists>t t' w w'. dns_name_tofilenametext name omit target = Some (ISC_R_SUCCESS, t) \<and>
    dns_name_tofilenametext name' omit target' = Some (ISC_R_SUCCESS, t') \<and>
    buf_used_bytes t = buf_used_bytes target @ w \<and> buf_used_bytes t' = buf_used_bytes target' @ w' \<and>
    0x2f \<notin> set w \<and> 0 \<notin> set w \<and> (w = w' \<longleftrightarrow> lower ls = lower ls')"
  using filename_ok [OF assms(1-4), of omit] filename_ok [OF assms(5-8), of omit]
    file_text_inj [OF name_reprD(2) [OF assms(1)] assms(2) name_reprD(2) [OF assms(5)] assms(6), of omit] file_text_safe [of omit ls]
  by blast

theorem filename_identifies_name_witness:
  "\<exists>t t' w w'. dns_name_tofilenametext example_name True (isc__buffer_init (replicate 8 0) 8) = Some (ISC_R_SUCCESS, t) \<and>
    dns_name_tofilenametext other_name True (isc__buffer_init (replicate 8 0) 8) = Some (ISC_R_SUCCESS, t') \<and>
    buf_used_bytes t = buf_used_bytes (isc__buffer_init (replicate 8 0) 8) @ w \<and>
    buf_used_bytes t' = buf_used_bytes (isc__buffer_init (replicate 8 0) 8) @ w' \<and>
    0x2f \<notin> set w \<and> 0 \<notin> set w \<and> (w = w' \<longleftrightarrow> lower [[0x2e], []] = lower [[0x61], []])"
proof -
  have w: "buf_wf (isc__buffer_init (replicate 8 0) 8)" "buf_room (isc__buffer_init (replicate 8 0) 8) = 8"
    using init_wf [of "replicate 8 0" 8] by simp_all
  have l: "length (file_text False [[0x2e], []]) < 8" "length (file_text False [[0x61], []]) < 8" by code_simp+
  show ?thesis
    by (rule filename_identifies_name [OF example_names(1) _ w(1) _ example_names(2) _ w(1)])
      (use l w in \<open>simp_all add: ends_root_def\<close>)
qed

text \<open>The NUL of sprintf. When \<open>dns_name_tofilenametext\<close> meets a character it has to escape and exactly three bytes remain
  in the target, its check for three bytes passes, but \<open>sprintf\<close> writes a fourth one, beyond the target.
\<close>

theorem filename_sprintf_overrun:
  assumes "name_repr name ((l @ c # l') # xs)" and "ends_root ((l @ c # l') # xs)" and "buf_wf target"
    and "buf_room target = length (concat (map file_char l)) + 3" and "\<not> file_plain c"
  shows "dns_name_tofilenametext name omit target = None"
  by (rule filename_overrun [OF assms])

theorem filename_sprintf_overrun_witness:
  "dns_name_tofilenametext example_name True (isc__buffer_init [0, 0, 0] 3) = None"
proof -
  have "\<not> file_plain 0x2e" by code_simp
  then show ?thesis
    using filename_sprintf_overrun [of example_name "[]" "0x2e" "[]" "[[]]" "isc__buffer_init [0, 0, 0] 3" True]
      example_names(1) init_wf [of "[0, 0, 0]" 3] by (simp add: ends_root_def)
qed

end
