(* ===== verification/Dns_Name_Parse.thy ===== *)
theory Dns_Name_Parse
  imports Dns_Name_Text
begin

text \<open>
  Reading names from text: the invariant of the state machine of \<open>dns_name_fromtext\<close>, that every text gives a name or
  one of six errors, and that the text of a name is read back.
\<close>

section \<open>Reading text\<close>

text \<open>The states of the machine, for a target whose memory \<open>m\<close> has \<open>nmax\<close> bytes of room from \<open>t\<close> on: at the
  start of a label after the labels \<open>xs\<close>; within a label with the characters \<open>cur\<close>, whose length is
  not stored yet; and after the root label.\<close>

definition label_good :: "bytes \<Rightarrow> bool" where
  "label_good l \<longleftrightarrow> l \<noteq> [] \<and> length l \<le> 63"

definition at_start :: "bytes \<Rightarrow> nat \<Rightarrow> nat \<Rightarrow> bytes list \<Rightarrow> ft_vars \<Rightarrow> bool" where
  "at_start m t nmax xs v \<longleftrightarrow> (\<forall>l \<in> set xs. label_good l) \<and> \<not> f_done v \<and>
     f_labels v = length xs \<and> f_offsets v = offsets_of xs @ [of_nat (length (wire xs))] \<and>
     f_nused v = length (wire xs) \<and> f_ndata v = t + f_nused v \<and> f_nused v + f_nrem v = nmax \<and>
     mem_write m t (wire xs) = Some (f_mem v)"

definition in_label :: "bytes \<Rightarrow> nat \<Rightarrow> nat \<Rightarrow> bytes list \<Rightarrow> bytes \<Rightarrow> ft_vars \<Rightarrow> bool" where
  "in_label m t nmax xs cur v \<longleftrightarrow> (\<forall>l \<in> set xs. label_good l) \<and> length cur \<le> 63 \<and> \<not> f_done v \<and>
     f_labels v = length xs \<and> f_offsets v = offsets_of xs @ [of_nat (length (wire xs))] \<and>
     f_label v = t + length (wire xs) \<and> f_count v = length cur \<and>
     f_nused v = length (wire xs) + 1 + length cur \<and> f_ndata v = t + f_nused v \<and>
     f_nused v + f_nrem v = nmax \<and> (\<exists>b. mem_write m t (wire xs @ b # cur) = Some (f_mem v))"

definition complete :: "bytes \<Rightarrow> nat \<Rightarrow> nat \<Rightarrow> bytes list \<Rightarrow> ft_vars \<Rightarrow> bool" where
  "complete m t nmax ls v \<longleftrightarrow> labels_ok ls \<and> f_labels v = length ls \<and>
     take (length ls) (f_offsets v) = offsets_of ls \<and> f_nused v = length (wire ls) \<and>
     length (wire ls) \<le> nmax \<and> mem_write m t (wire ls) = Some (f_mem v)"

lemmas ft_state_defs = at_start_def in_label_def complete_def

lemma good_labels_ok:
  assumes "\<forall>l \<in> set xs. label_good l" and "length (wire xs) \<le> 255"
  shows "labels_ok xs"
  using assms by (auto simp: labels_ok_def label_good_def DNS_NAME_MAXWIRE_def dest: in_set_butlastD)

lemma good_labels_count: "\<forall>l \<in> set xs. label_good l \<Longrightarrow> 2 * length xs \<le> length (wire xs)"
proof (induction xs)
  case (Cons l xs)
  then show ?case by (cases l) (auto simp: label_good_def)
qed simp

lemma mem_write_next:
  assumes "mem_write m t ys = Some m1" and "t + length ys < length m"
  shows "\<exists>m2. mem_write m1 (t + length ys) [c] = Some m2 \<and> mem_write m t (ys @ [c]) = Some m2"
proof -
  have "\<exists>m2. mem_write m t (ys @ [c]) = Some m2" using assms(2) by (simp add: mem_write_def)
  then show ?thesis using assms(1) by (auto simp: mem_write_append)
qed

lemma mem_write_patch:
  assumes "mem_write m t (ws @ b # cur) = Some m1"
  shows "\<exists>m2. mem_write m1 (t + length ws) [c] = Some m2 \<and> mem_write m t (ws @ c # cur) = Some m2"
proof -
  have "t + length ws + 1 + length cur \<le> length m" using assms by (simp add: mem_write_eq_Some)
  then show ?thesis using assms by (auto simp: mem_write_eq_Some)
qed

lemma ft_put_ok:
  assumes "mem_write m t ys = Some (f_mem v)" and "f_ndata v = t + length ys" and "t + length ys < length m"
  shows "\<exists>m2. ft_put v c = Some (v\<lparr>f_mem := m2, f_ndata := f_ndata v + 1, f_nrem := f_nrem v - 1,
      f_nused := f_nused v + 1\<rparr>) \<and> mem_write m t (ys @ [c]) = Some m2"
  using mem_write_next [OF assms(1,3), of c] assms(2) by (auto simp: ft_put_def)

lemma put_in_label:
  assumes "in_label m t nmax xs cur v" and "length cur < 63" and "f_nrem v > 0" and "t + nmax \<le> length m"
  shows "\<exists>v'. ft_put (v\<lparr>f_count := f_count v + 1\<rparr>) c = Some v' \<and>
    in_label m t nmax xs (cur @ [c]) (v'\<lparr>f_state := s\<rparr>)"
proof -
  obtain b where b: "mem_write m t (wire xs @ b # cur) = Some (f_mem v)" using assms(1) by (auto simp: in_label_def)
  have "\<exists>m2. ft_put (v\<lparr>f_count := f_count v + 1\<rparr>) c = Some (v\<lparr>f_count := f_count v + 1, f_mem := m2, f_ndata := f_ndata v + 1,
      f_nrem := f_nrem v - 1, f_nused := f_nused v + 1\<rparr>) \<and> mem_write m t ((wire xs @ b # cur) @ [c]) = Some m2"
    using ft_put_ok [of m t "wire xs @ b # cur" "v\<lparr>f_count := f_count v + 1\<rparr>" c] b assms by (auto simp: in_label_def)
  then show ?thesis using assms by (auto simp: in_label_def)
qed

lemma char_ok:
  assumes "in_label m t nmax xs cur v" and "f_nrem v > 0" and "t + nmax \<le> length m" and "lower_char d c = Some c'"
  shows "if length cur < 63
    then \<exists>v'. ft_char d c v = Some (None, v') \<and> in_label m t nmax xs (cur @ [c']) v' \<and> f_state v' = ft_ordinary
    else ft_char d c v = Some (Some DNS_R_LABELTOOLONG, v)"
proof (cases "length cur < 63")
  case True
  then show ?thesis
    using put_in_label [OF assms(1) True assms(2,3), of c' ft_ordinary] assms(1,4)
    by (auto simp: ft_char_def in_label_def)
next
  case False
  then show ?thesis using assms(1) by (simp add: ft_char_def in_label_def)
qed

lemma endlabel_ok:
  assumes "in_label m t nmax xs cur v" and "cur \<noteq> []" and "nmax \<le> 255"
  shows "\<exists>v'. ft_endlabel v = Some v' \<and> at_start m t nmax (xs @ [cur]) v' \<and> f_state v' = f_state v \<and> f_nrem v' = f_nrem v"
proof -
  note i = assms(1) [unfolded in_label_def]
  obtain b where b: "mem_write m t (wire xs @ b # cur) = Some (f_mem v)" using i by auto
  obtain m2 where m2: "mem_write (f_mem v) (f_label v) [of_nat (length cur)] = Some m2"
    "mem_write m t (wire xs @ of_nat (length cur) # cur) = Some m2"
    using mem_write_patch [OF b, of "of_nat (length cur)"] i by auto
  have g: "\<forall>l \<in> set (xs @ [cur]). label_good l" using i assms(2) by (auto simp: label_good_def)
  have "2 * length (xs @ [cur]) \<le> length (wire (xs @ [cur]))" by (rule good_labels_count [OF g])
  then have "length xs + 1 \<le> 127" using i assms(3) by simp
  then show ?thesis using i m2 g by (auto simp: ft_endlabel_def at_start_def)
qed

lemma root_ok:
  assumes "at_start m t nmax xs v" and "f_nrem v > 0" and "t + nmax \<le> length m" and "nmax \<le> 255"
  shows "\<exists>v'. ft_root v = Some v' \<and> f_done v' \<and> f_state v' = f_state v \<and> complete m t nmax (xs @ [[]]) v'"
proof -
  note s = assms(1) [unfolded at_start_def]
  have "\<exists>m2. ft_put (v\<lparr>f_labels := f_labels v + 1\<rparr>) 0 = Some (v\<lparr>f_labels := f_labels v + 1, f_mem := m2, f_ndata := f_ndata v + 1,
      f_nrem := f_nrem v - 1, f_nused := f_nused v + 1\<rparr>) \<and> mem_write m t (wire xs @ [0]) = Some m2"
    using ft_put_ok [of m t "wire xs" "v\<lparr>f_labels := f_labels v + 1\<rparr>" 0] s assms(2,3) by auto
  moreover have "labels_ok (xs @ [[]])"
    using s assms(2,4) by (auto simp: labels_ok_def label_good_def DNS_NAME_MAXWIRE_def)
  ultimately show ?thesis using s assms(2) by (auto simp: ft_root_def complete_def)
qed

lemma begin_label:
  assumes "at_start m t nmax xs v" and "f_nrem v > 0" and "t + nmax \<le> length m"
  shows "in_label m t nmax xs [] (v\<lparr>f_label := f_ndata v, f_ndata := f_ndata v + 1, f_nrem := f_nrem v - 1,
                f_nused := f_nused v + 1, f_count := 0, f_state := s\<rparr>)"
proof -
  note a = assms(1) [unfolded at_start_def]
  have "t + length (wire xs) < length m" using a assms(2,3) by linarith
  then have "mem_write m t (wire xs @ [f_mem v ! (t + length (wire xs))]) = Some (f_mem v)"
    using a by (auto simp: mem_write_eq_Some nth_append Cons_nth_drop_Suc)
  then show ?thesis using a assms(2) by (auto simp: in_label_def)
qed

subsection \<open>Every text\<close>

definition text_errors :: "isc_result set" where
  "text_errors = {ISC_R_NOSPACE, ISC_R_UNEXPECTEDEND, DNS_R_EMPTYLABEL, DNS_R_LABELTOOLONG, DNS_R_BADESCAPE,
     DNS_R_BADLABELTYPE}"

definition ft_inv :: "bytes \<Rightarrow> nat \<Rightarrow> nat \<Rightarrow> ft_vars \<Rightarrow> bool" where
  "ft_inv m t nmax v \<longleftrightarrow>
     (if f_done v then \<exists>ls. complete m t nmax ls v \<and> ends_root ls
      else case f_state v of
        ft_init \<Rightarrow> at_start m t nmax [] v
      | ft_start \<Rightarrow> \<exists>xs. at_start m t nmax xs v
      | ft_ordinary \<Rightarrow> \<exists>xs cur. cur \<noteq> [] \<and> in_label m t nmax xs cur v
      | ft_at \<Rightarrow> at_start m t nmax [] v
      | ft_escdecimal \<Rightarrow> f_digits v < 3 \<and> (\<exists>xs cur. in_label m t nmax xs cur v)
      | _ \<Rightarrow> \<exists>xs cur. in_label m t nmax xs cur v)"

definition kept :: "bytes \<Rightarrow> nat \<Rightarrow> ft_vars \<Rightarrow> bool" where
  "kept m t v \<longleftrightarrow> length (f_mem v) = length m \<and> take t (f_mem v) = take t m"

definition step_ok :: "bytes \<Rightarrow> nat \<Rightarrow> nat \<Rightarrow> bool \<Rightarrow> (isc_result option \<times> ft_vars) option \<Rightarrow> bool" where
  "step_ok m t nmax final out \<longleftrightarrow> (\<exists>r v. out = Some (r, v) \<and> kept m t v \<and>
     (case r of Some e \<Rightarrow> e \<in> text_errors
      | None \<Rightarrow> ft_inv m t nmax v \<and> (f_state v = ft_at \<longrightarrow> f_done v \<or> final)))"

lemma mem_write_kept: "mem_write m t ys = Some m' \<Longrightarrow> length m' = length m \<and> take t m' = take t m"
  by (auto simp: mem_write_eq_Some)

lemma ft_kept:
  "at_start m t nmax xs v \<Longrightarrow> kept m t v" "in_label m t nmax xs cur v \<Longrightarrow> kept m t v"
  "complete m t nmax ls v \<Longrightarrow> kept m t v"
  using mem_write_kept by (auto simp: ft_state_defs kept_def)

lemma in_label_update [simp]:
  "in_label m t nmax xs cur (v\<lparr>f_state := s\<rparr>) = in_label m t nmax xs cur v"
  "in_label m t nmax xs cur (v\<lparr>f_value := x\<rparr>) = in_label m t nmax xs cur v"
  "in_label m t nmax xs cur (v\<lparr>f_digits := y\<rparr>) = in_label m t nmax xs cur v"
  "at_start m t nmax xs (v\<lparr>f_state := s\<rparr>) = at_start m t nmax xs v"
  "complete m t nmax ls (v\<lparr>f_state := s\<rparr>) = complete m t nmax ls v"
  by (simp_all add: ft_state_defs)

lemma not_done: "in_label m t nmax xs cur v \<Longrightarrow> \<not> f_done v" "at_start m t nmax xs v \<Longrightarrow> \<not> f_done v"
  by (simp_all add: ft_state_defs)

lemma step_okI:
  "in_label m t nmax xs cur v \<Longrightarrow> f_state v = ft_ordinary \<Longrightarrow> cur \<noteq> [] \<Longrightarrow> step_ok m t nmax final (Some (None, v))"
  "in_label m t nmax xs cur v \<Longrightarrow> f_state v = ft_initialescape \<or> f_state v = ft_escape \<Longrightarrow>
    step_ok m t nmax final (Some (None, v))"
  "in_label m t nmax xs cur v \<Longrightarrow> f_state v = ft_escdecimal \<Longrightarrow> f_digits v < 3 \<Longrightarrow>
    step_ok m t nmax final (Some (None, v))"
  "at_start m t nmax xs v \<Longrightarrow> f_state v = ft_start \<Longrightarrow> step_ok m t nmax final (Some (None, v))"
  "at_start m t nmax [] v \<Longrightarrow> f_state v = ft_at \<Longrightarrow> final \<Longrightarrow> step_ok m t nmax final (Some (None, v))"
  "complete m t nmax ls v \<Longrightarrow> ends_root ls \<Longrightarrow> f_done v \<Longrightarrow> step_ok m t nmax final (Some (None, v))"
  using ft_kept [of m t nmax] not_done [of m t nmax] by (auto simp: step_ok_def ft_inv_def) blast+

lemma step_failI:
  "kept m t v \<Longrightarrow> e \<in> text_errors \<Longrightarrow> step_ok m t nmax final (Some (Some e, v))"
  by (simp add: step_ok_def)

lemma char_step_ok:
  assumes "in_label m t nmax xs cur v" and "f_nrem v > 0" and "d \<longrightarrow> c < 128"
    and "t + nmax \<le> length m"
  shows "step_ok m t nmax final (ft_char d c v)"
proof -
  obtain c' where "lower_char d c = Some c'" using assms(3) by (cases d) (simp_all add: lower_char_def)
  note ch = char_ok [OF assms(1,2,4) this]
  show ?thesis
  proof (cases "length cur < 63")
    case True
    then obtain v' where "ft_char d c v = Some (None, v')" "in_label m t nmax xs (cur @ [c']) v'" "f_state v' = ft_ordinary"
      using ch by auto
    then show ?thesis using step_okI(1) by auto
  next
    case False
    then show ?thesis using ch step_failI [OF ft_kept(2) [OF assms(1)]] by (simp add: text_errors_def)
  qed
qed

lemma escdecimal_step_ok:
  assumes v: "in_label m t nmax xs cur v" "f_nrem v > 0" "f_state v = ft_escdecimal" "f_digits v < 3"
    and fits: "t + nmax \<le> length m"
  shows "step_ok m t nmax final (escdecimal_case d c v)"
proof -
  let ?v = "v\<lparr>f_value := f_value v * 10 + digitvalue c, f_digits := f_digits v + 1\<rparr>"
  have i: "in_label m t nmax xs cur ?v" "f_nrem ?v > 0" using v by simp_all
  have f: "step_ok m t nmax final (Some (Some e, ?v))" "step_ok m t nmax final (Some (Some e, v))" if "e \<in> text_errors" for e
    using step_failI ft_kept(2) [OF i(1)] ft_kept(2) [OF v(1)] that by auto
  consider (bad) "\<not> isdigit c" | (more) "isdigit c" "f_digits ?v \<noteq> 3"
    | (big) "isdigit c" "f_digits ?v = 3" "f_value ?v > 255"
    | (long) "isdigit c" "f_digits ?v = 3" "\<not> f_value ?v > 255" "f_count ?v \<ge> 63"
    | (ok) "isdigit c" "f_digits ?v = 3" "\<not> f_value ?v > 255" "\<not> f_count ?v \<ge> 63"
    by blast
  then show ?thesis
  proof cases
    case ok
    then have "length cur < 63" using i(1) by (simp add: in_label_def)
    then obtain v' where "ft_put (?v\<lparr>f_count := f_count ?v + 1\<rparr>)
        (if d then maptolower (of_nat (f_value ?v)) else of_nat (f_value ?v)) = Some v'"
      "in_label m t nmax xs (cur @ [if d then maptolower (of_nat (f_value ?v)) else of_nat (f_value ?v)]) (v'\<lparr>f_state := ft_ordinary\<rparr>)"
      using put_in_label [OF i(1) _ i(2) fits] by blast
    then show ?thesis using ok step_okI(1) by (auto simp: escdecimal_case_def Let_def)
  next
    case bad
    then show ?thesis using f(2) by (simp add: escdecimal_case_def text_errors_def)
  next
    case more
    then have "step_ok m t nmax final (Some (None, ?v))" using v by (intro step_okI(3) [OF i(1)]) auto
    then show ?thesis using more unfolding escdecimal_case_def Let_def by (simp only: if_False not_not if_True simp_thms)
  next
    case big
    have "step_ok m t nmax final (Some (Some DNS_R_BADESCAPE, ?v))" by (rule f(1)) (simp add: text_errors_def)
    then show ?thesis using big unfolding escdecimal_case_def Let_def by (simp only: if_False not_not if_True simp_thms)
  next
    case long
    have "step_ok m t nmax final (Some (Some DNS_R_LABELTOOLONG, ?v))" by (rule f(1)) (simp add: text_errors_def)
    then show ?thesis using long unfolding escdecimal_case_def Let_def by (simp only: if_False not_not if_True simp_thms)
  qed
qed

lemma escape_step_ok:
  assumes v: "in_label m t nmax xs cur v" "f_nrem v > 0" and fits: "t + nmax \<le> length m" and "d \<longrightarrow> c < 128"
  shows "step_ok m t nmax final (escape_case d c v)"
  using char_step_ok [OF v(1,2) assms(4) fits] escdecimal_step_ok [of m t nmax xs cur
      "v\<lparr>f_digits := 0, f_value := 0, f_state := ft_escdecimal\<rparr>"] v fits
  by (simp add: escape_case_def)

lemma ordinary_step_ok:
  assumes v: "in_label m t nmax xs cur v" "f_nrem v > 0" and fits: "t + nmax \<le> length m" "nmax \<le> 255"
    and c: "d \<longrightarrow> c < 128"
  shows "step_ok m t nmax final (ordinary_case d final c v)"
proof -
  have "step_ok m t nmax final (ordinary_case d final 0x2e v)"
  proof (cases "cur = []")
    case True
    then show ?thesis using v(1) step_failI [OF ft_kept(2) [OF v(1)]] by (simp add: ordinary_case_def in_label_def text_errors_def)
  next
    case False
    obtain v1 where v1: "ft_endlabel v = Some v1" "at_start m t nmax (xs @ [cur]) v1" "f_nrem v1 = f_nrem v"
      using endlabel_ok [OF v(1) False fits(2)] by auto
    obtain v2 where v2: "ft_root v1 = Some v2" "f_done v2" "complete m t nmax ((xs @ [cur]) @ [[]]) v2"
      using root_ok [OF v1(2) _ fits] v(2) v1(3) by auto
    have "f_count v \<noteq> 0" using v(1) False by (simp add: in_label_def)
    then show ?thesis
      using v1 v2 step_okI(4) [of m t nmax "xs @ [cur]" "v1\<lparr>f_state := ft_start\<rparr>"]
        step_okI(6) [of m t nmax "(xs @ [cur]) @ [[]]" "v2\<lparr>f_state := ft_start\<rparr>"]
      by (cases final) (simp_all add: ordinary_case_def ends_root_append)
  qed
  then show ?thesis
    using char_step_ok [OF v c fits(1)] step_okI(2) [of m t nmax xs cur "v\<lparr>f_state := ft_escape\<rparr>"] v(1)
    by (simp add: ordinary_case_def)
qed

lemma start_step_ok:
  assumes v: "at_start m t nmax xs v" "f_nrem v > 0" and fits: "t + nmax \<le> length m" "nmax \<le> 255"
    and c: "d \<longrightarrow> c < 128"
  shows "step_ok m t nmax final (start_case d final c v)"
proof -
  define w where "w = v\<lparr>f_label := f_ndata v, f_ndata := f_ndata v + 1, f_nrem := f_nrem v - 1,
                f_nused := f_nused v + 1, f_count := 0, f_state := ft_ordinary\<rparr>"
  have i: "in_label m t nmax xs [] w" unfolding w_def by (rule begin_label [OF v fits(1)])
  have "start_case d final c v = (if c = 0x5c then Some (None, w\<lparr>f_state := ft_initialescape\<rparr>)
      else if f_nrem w = 0 then Some (Some ISC_R_NOSPACE, w) else ordinary_case d final c w)"
    by (simp add: start_case_def Let_def w_def)
  then show ?thesis
    using step_okI(2) [of m t nmax xs "[]" "w\<lparr>f_state := ft_initialescape\<rparr>"] ordinary_step_ok [OF i _ fits c]
      step_failI [OF ft_kept(2) [OF i]] i
    by (simp add: text_errors_def)
qed

lemma ft_step_ok:
  assumes inv: "ft_inv m t nmax v" and go: "\<not> f_done v" "f_nrem v > 0" "f_state v \<noteq> ft_at"
    and fits: "t + nmax \<le> length m" "nmax \<le> 255" and c: "d \<longrightarrow> c < 128"
  shows "step_ok m t nmax final (ft_step d final c v)"
proof (cases "f_state v")
  case ft_init
  then have s: "at_start m t nmax [] v" using inv go by (simp add: ft_inv_def)
  obtain v2 where v2: "ft_root v = Some v2" "f_done v2" "complete m t nmax ([] @ [[]]) v2"
    using root_ok [OF s go(2) fits] by auto
  show ?thesis
    using ft_init start_step_ok [OF s go(2) fits c] step_failI [OF ft_kept(1) [OF s]] v2
      step_okI(5) [of m t nmax "v\<lparr>f_state := ft_at\<rparr>" final] step_okI(6) [OF v2(3) _ v2(2)] s
    by (auto simp: ft_step_def init_case_def text_errors_def ends_root_def)
next
  case ft_start
  then show ?thesis using inv go start_step_ok [OF _ go(2) fits c] by (auto simp: ft_step_def ft_inv_def)
next
  case ft_ordinary
  then show ?thesis using inv go ordinary_step_ok [OF _ go(2) fits c] by (auto simp: ft_step_def ft_inv_def)
next
  case ft_initialescape
  then obtain xs cur where i: "in_label m t nmax xs cur v" using inv go by (auto simp: ft_inv_def)
  then show ?thesis
    using ft_initialescape step_failI [OF ft_kept(2) [OF i]] escape_step_ok [of m t nmax xs cur "v\<lparr>f_state := ft_escape\<rparr>" d c] go fits c
    by (auto simp: ft_step_def text_errors_def)
next
  case ft_escape
  then show ?thesis using inv go escape_step_ok [OF _ go(2) fits(1) c] by (auto simp: ft_step_def ft_inv_def)
next
  case ft_escdecimal
  then show ?thesis using inv go escdecimal_step_ok [OF _ go(2) ft_escdecimal _ fits(1)] by (auto simp: ft_step_def ft_inv_def)
next
  case ft_at
  then show ?thesis using go by simp
qed

lemma ft_loop_ok:
  assumes "ft_inv m t nmax v" and "kept m t v" and "t + nmax \<le> length m" "nmax \<le> 255"
    and "d \<longrightarrow> (\<forall>c \<in> set cs. c < 128)" and "f_state v = ft_at \<longrightarrow> f_done v \<or> cs = []"
  shows "\<exists>r left v'. ft_loop d cs v = Some (r, left, v') \<and> kept m t v' \<and> length left \<le> length cs \<and>
    (case r of Some e \<Rightarrow> e \<in> text_errors
     | None \<Rightarrow> ft_inv m t nmax v' \<and> (f_done v' \<or> f_nrem v' = 0 \<or> left = []))"
  using assms
proof (induction cs arbitrary: v)
  case (Cons c cs)
  show ?case
  proof (cases "f_nrem v > 0 \<and> \<not> f_done v")
    case True
    have "step_ok m t nmax (cs = []) (ft_step d (cs = []) c v)"
      by (rule ft_step_ok [OF Cons.prems(1)]) (use True Cons.prems in auto)
    then obtain r v' where s: "ft_step d (cs = []) c v = Some (r, v')" "kept m t v'"
      "case r of Some e \<Rightarrow> e \<in> text_errors | None \<Rightarrow> ft_inv m t nmax v' \<and> (f_state v' = ft_at \<longrightarrow> f_done v' \<or> cs = [])"
      by (auto simp: step_ok_def)
    show ?thesis
    proof (cases r)
      case None
      then show ?thesis using Cons.IH [of v'] s Cons.prems True by fastforce
    next
      case (Some e)
      then show ?thesis using s True by auto
    qed
  next
    case False
    then show ?thesis using Cons.prems by auto
  qed
qed auto

subsection \<open>The origin\<close>

abbreviation ascii_labels :: "bytes list \<Rightarrow> bool" where
  "ascii_labels ls \<equiv> \<forall>l \<in> set ls. \<forall>c \<in> set l. c < 128"

lemma lower_char_ok: "d \<longrightarrow> c < 128 \<Longrightarrow> lower_char d c = Some (if d then maptolower c else c)"
  by (simp add: lower_char_def)

lemma origin_chars_ok:
  assumes "drop p odata = l @ rest" and "d \<longrightarrow> (\<forall>c \<in> set l. c < 128)"
    and "mem_write m t ys = Some (f_mem v)" and "f_ndata v = t + length ys" and "t + length ys + length l \<le> length m"
  shows "\<exists>m'. origin_chars d odata p (length l) v = Some (v\<lparr>f_mem := m', f_ndata := f_ndata v + length l\<rparr>) \<and>
    mem_write m t (ys @ map (if d then maptolower else id) l) = Some m'"
  using assms
proof (induction l arbitrary: p ys v)
  case (Cons c l)
  have c: "rd odata p = Some c" and dr: "drop (Suc p) odata = l @ rest"
    using rd_drop [of p odata c "l @ rest"] Cons.prems(1) by auto
  let ?c = "if d then maptolower c else c"
  obtain m1 where m1: "mem_write (f_mem v) (t + length ys) [?c] = Some m1" "mem_write m t (ys @ [?c]) = Some m1"
    using mem_write_next [OF Cons.prems(3), of ?c] Cons.prems(5) by auto
  let ?v = "v\<lparr>f_mem := m1, f_ndata := f_ndata v + 1\<rparr>"
  obtain m' where "origin_chars d odata (Suc p) (length l) ?v = Some (?v\<lparr>f_mem := m', f_ndata := f_ndata ?v + length l\<rparr>)"
    "mem_write m t ((ys @ [?c]) @ map (if d then maptolower else id) l) = Some m'"
    using Cons.IH [OF dr, of "ys @ [?c]" ?v] Cons.prems m1 by auto
  then show ?case
    using c m1(1) Cons.prems(2,4) lower_char_ok [of d c] by auto
qed simp

text \<open>After the labels \<open>xs\<close> the labels \<open>ys\<close> of the origin were copied.\<close>

definition copying :: "bytes \<Rightarrow> nat \<Rightarrow> bytes list \<Rightarrow> ft_vars \<Rightarrow> bool" where
  "copying m t xs v \<longleftrightarrow> f_labels v = length xs \<and> f_offsets v = offsets_of xs @ [of_nat (length (wire xs))] \<and>
     f_nused v = length (wire xs) \<and> f_ndata v = t + length (wire xs) \<and> mem_write m t (wire xs) = Some (f_mem v)"

lemma origin_loop_ok:
  assumes "drop p odata = wire ys @ rest" and "\<forall>l \<in> set ys. length l \<le> 63" and "d \<longrightarrow> ascii_labels ys"
    and "copying m t xs v" and "t + length (wire (xs @ ys)) \<le> length m" and "length (xs @ ys) \<le> 128"
  shows "\<exists>v'. origin_loop d odata p (length (wire ys)) v = Some v' \<and> f_labels v' = length (xs @ ys) \<and>
    take (length (xs @ ys)) (f_offsets v') = offsets_of (xs @ as_read d ys) \<and>
    f_nused v' = length (wire (xs @ ys)) \<and> mem_write m t (wire (xs @ as_read d ys)) = Some (f_mem v')"
  using assms
proof (induction ys arbitrary: p xs v)
  case Nil
  then show ?case by (auto simp: copying_def origin_loop.simps)
next
  case (Cons l ys)
  let ?l = "map (if d then maptolower else id) l" and ?n = "of_nat (length l) :: u8"
  have len: "length l \<le> 63" "unat ?n = length l" "?n \<le> 63" using Cons.prems(2) by simp_all
  have c: "rd odata p = Some ?n" and dr: "drop (Suc p) odata = l @ wire ys @ rest"
    using rd_drop [of p odata ?n "l @ wire ys @ rest"] Cons.prems(1) by auto
  have dr2: "drop (p + (length l + 1)) odata = wire ys @ rest"
    using dr by (metis Suc_eq_plus1 add.commute add_Suc_right append_eq_conv_conj drop_drop)
  note cp = Cons.prems(4) [unfolded copying_def]
  obtain m1 where m1: "mem_write (f_mem v) (t + length (wire xs)) [?n] = Some m1" "mem_write m t (wire xs @ [?n]) = Some m1"
    using mem_write_next [of m t "wire xs" "f_mem v" ?n] cp Cons.prems(5) by auto
  let ?v = "v\<lparr>f_mem := m1, f_ndata := f_ndata v + 1, f_nused := f_nused v + (length l + 1)\<rparr>"
  obtain m2 where m2: "origin_chars d odata (Suc p) (length l) ?v = Some (?v\<lparr>f_mem := m2, f_ndata := f_ndata ?v + length l\<rparr>)"
    "mem_write m t ((wire xs @ [?n]) @ ?l) = Some m2"
    using origin_chars_ok [OF dr, of d m t "wire xs @ [?n]" ?v] m1 cp Cons.prems(3,5) by auto
  let ?w = "?v\<lparr>f_mem := m2, f_ndata := f_ndata ?v + length l, f_labels := f_labels v + 1\<rparr>"
  have w: "wire (xs @ [?l]) = (wire xs @ [?n]) @ ?l" by simp
  show ?case
  proof (cases "ys = []")
    case True
    have "origin_loop d odata p (length (wire (l # ys))) v = Some ?w"
      using c len m1(1) m2(1) cp by (subst origin_loop.simps) (simp add: True Let_def origin_loop.simps)
    then show ?thesis using True cp m2(2) w by auto
  next
    case False
    let ?w2 = "?w\<lparr>f_offsets := f_offsets v @ [of_nat (f_nused v + (length l + 1))]\<rparr>"
    have "copying m t (xs @ [?l]) ?w2" using cp m2(2) w by (auto simp: copying_def)
    moreover have lab: "length xs + 1 \<le> 127" using Cons.prems(6) False by (cases ys) auto
    ultimately obtain v' where v': "origin_loop d odata (p + (length l + 1)) (length (wire ys)) ?w2 = Some v'"
      "f_labels v' = length ((xs @ [?l]) @ ys)"
      "take (length ((xs @ [?l]) @ ys)) (f_offsets v') = offsets_of ((xs @ [?l]) @ as_read d ys)"
      "f_nused v' = length (wire ((xs @ [?l]) @ ys))" "mem_write m t (wire ((xs @ [?l]) @ as_read d ys)) = Some (f_mem v')"
      using Cons.IH [OF dr2, of "xs @ [?l]" ?w2] Cons.prems by auto
    have "0 < length (wire ys)" using False by (cases ys) auto
    then have "origin_loop d odata p (length (wire (l # ys))) v = Some v'"
      using c len m1(1) m2(1) cp v'(1) lab by (subst origin_loop.simps) (simp add: Let_def)
    then show ?thesis using v' by (auto simp: id_def)
  qed
qed

subsection \<open>The outcome\<close>

definition parsed ::
    "((isc_result \<times> dns_name \<times> isc_buffer option) \<times> isc_buffer) option \<Rightarrow> isc_buffer \<Rightarrow> nat \<Rightarrow>
     isc_buffer option \<Rightarrow> isc_buffer \<Rightarrow> bytes list \<Rightarrow> bool" where
  "parsed out source n target b ls \<longleftrightarrow>
     (\<exists>r. out = Some (r, source\<lparr>b_current := b_current source + of_nat n\<rparr>) \<and> copied r target b ls)"

definition refused ::
    "((isc_result \<times> dns_name \<times> isc_buffer option) \<times> isc_buffer) option \<Rightarrow> isc_result \<Rightarrow> isc_buffer \<Rightarrow>
     isc_buffer option \<Rightarrow> isc_buffer \<Rightarrow> bool" where
  "refused out e source target b \<longleftrightarrow>
     (\<exists>name b'. out = Some (close_target e name target b', source) \<and> name_repr name [] \<and>
        buf_wf b' \<and> buf_used_bytes b' = buf_used_bytes b)"

lemma forward_ok:
  assumes "buf_wf source" and "n \<le> length (buf_pending source)"
  shows "isc__buffer_forward source (of_nat n) = Some (source\<lparr>b_current := b_current source + of_nat n\<rparr>)"
proof -
  have l: "unat (b_current source) + n \<le> unat (b_used source)"
    using assms length_buf_used [OF assms(1)] by (auto simp: buf_pending_def buf_wf_def)
  then have "unat (b_current source) + n < 2 ^ 32" using unat_u32_less [of "b_used source"] by simp
  then have "unat (b_current source + of_nat n) = unat (b_current source) + n" by (rule unat_plus_of_nat)
  then have "b_current source + of_nat n \<le> b_used source" using l by (simp add: word_le_nat_alt)
  then show ?thesis using assms(1) by (simp add: isc__buffer_forward_def buf_wf_def)
qed

lemma finish_ok:
  assumes name: "VALID_NAME name" and b: "buf_wf b" and src: "buf_wf source" "n \<le> length (buf_pending source)"
    and v: "complete (b_base b) (unat (b_used b)) nmax ls v" and max: "nmax \<le> buf_room b"
    and abs: "absolute = ends_root ls"
  shows "parsed (do {
      source \<leftarrow> isc__buffer_forward source (of_nat n);
      b' \<leftarrow> isc__buffer_add (b\<lparr>b_base := f_mem v\<rparr>) (of_nat (f_nused v));
      Some (close_target ISC_R_SUCCESS ((MAKE_EMPTY name)\<lparr>n_offsets := map_option (\<lambda>_. f_offsets v) (n_offsets (MAKE_EMPTY name)),
                 n_attributes := (if absolute then n_attributes (MAKE_EMPTY name) OR DNS_NAMEATTR_ABSOLUTE
                                  else n_attributes (MAKE_EMPTY name)),
                 n_ndata := drop (unat (b_used b)) (f_mem v), n_labels := f_labels v,
                 n_length := f_nused v\<rparr>) target b', source) }) source n target b ls"
proof -
  note c = v [unfolded complete_def]
  have room: "length (wire ls) \<le> buf_room b" using c max by simp
  obtain b' where dr: "drop (unat (b_used b)) (f_mem v) = wire ls @ drop (unat (b_used b) + length (wire ls)) (b_base b)"
    and b': "isc__buffer_add (b\<lparr>b_base := f_mem v\<rparr>) (of_nat (length (wire ls))) = Some b'" "buf_wf b'"
    "b_length b' = b_length b" "buf_used_bytes b' = buf_used_bytes b @ wire ls"
    using buffer_store [OF b room] c by (metis option.inject)
  let ?n = "(MAKE_EMPTY name)\<lparr>n_offsets := map_option (\<lambda>_. f_offsets v) (n_offsets (MAKE_EMPTY name)),
                 n_attributes := (if absolute then n_attributes (MAKE_EMPTY name) OR DNS_NAMEATTR_ABSOLUTE
                                  else n_attributes (MAKE_EMPTY name)),
                 n_ndata := drop (unat (b_used b)) (f_mem v), n_labels := f_labels v,
                 n_length := f_nused v\<rparr>"
  have "name_repr ?n ls"
    by (rule name_reprI [of _ _ "drop (unat (b_used b) + length (wire ls)) (b_base b)"])
      (use c name dr abs in \<open>auto simp: VALID_NAME_def MAKE_EMPTY_def absolute_attr_def attr_absolute\<close>)
  then have "copied (close_target ISC_R_SUCCESS ?n target b') target b ls"
    unfolding copied_def using b'(2-4) by blast
  moreover have "isc__buffer_add (b\<lparr>b_base := f_mem v\<rparr>) (of_nat (f_nused v)) = Some b'" using b'(1) c by simp
  ultimately show ?thesis
    unfolding parsed_def forward_ok [OF src] bind.bind_lunit by (simp only: bind.bind_lunit) blast
qed

lemma refuse_ok:
  assumes "VALID_NAME name" and "buf_wf b" and "kept (b_base b) (unat (b_used b)) v"
  shows "refused (Some (close_target e ((MAKE_EMPTY name)\<lparr>n_offsets := x\<rparr>) target (b\<lparr>b_base := f_mem v\<rparr>), source))
    e source target b"
  using buf_wf_base [OF assms(2)] assms(3) empty_repr [OF assms(1)] by (fastforce simp: refused_def kept_def)

abbreviation ft_start_vars :: "isc_buffer \<Rightarrow> ft_vars" where
  "ft_start_vars b \<equiv> \<lparr>f_state = ft_init, f_label = 0, f_count = 0, f_value = 0, f_digits = 0,
         f_ndata = unat (b_used b), f_nrem = min (buf_room b) 255, f_nused = 0, f_labels = 0, f_offsets = [0],
         f_done = False, f_mem = b_base b\<rparr>"

lemma pending_read:
  assumes "buf_wf source"
  shows "unat (isc_buffer_remaininglength source) = length (buf_pending source)"
    and "mem_read (b_base source) (unat (b_current source)) (length (buf_pending source)) = Some (buf_pending source)"
proof -
  have "unat (isc_buffer_remaininglength source) = unat (b_used source) - unat (b_current source)"
    using assms by (simp add: isc_buffer_remaininglength_def unat_minus_le buf_wf_def)
  then show "unat (isc_buffer_remaininglength source) = length (buf_pending source)"
    using length_buf_used [OF assms] by (simp add: buf_pending_def)
  show "mem_read (b_base source) (unat (b_current source)) (length (buf_pending source)) = Some (buf_pending source)"
    using assms by (auto simp: mem_read_def buf_pending_def buf_used_bytes_def drop_take buf_wf_def)
qed

text \<open>The tail of \<open>dns_name_fromtext\<close> after the loop.\<close>

lemma fromtext_loop:
  assumes name: "VALID_NAME name" "BINDABLE name" and b: "open_target name target = Some b" "buf_wf b"
    and src: "buf_wf source" and d: "d = (options AND DNS_NAME_DOWNCASE \<noteq> 0)"
    and loop: "ft_loop d (buf_pending source) (ft_start_vars b) = Some (r, left, v)"
  defines "fail \<equiv> \<lambda>e v. Some (close_target e ((MAKE_EMPTY name)\<lparr>n_offsets := map_option (\<lambda>_. f_offsets v) (n_offsets (MAKE_EMPTY name))\<rparr>)
                    target (b\<lparr>b_base := f_mem v\<rparr>), source)"
    and "finish \<equiv> \<lambda>absolute v. do {
      source \<leftarrow> isc__buffer_forward source (of_nat (length (buf_pending source) - length left));
      b' \<leftarrow> isc__buffer_add (b\<lparr>b_base := f_mem v\<rparr>) (of_nat (f_nused v));
      Some (close_target ISC_R_SUCCESS ((MAKE_EMPTY name)\<lparr>n_offsets := map_option (\<lambda>_. f_offsets v) (n_offsets (MAKE_EMPTY name)),
                 n_attributes := (if absolute then n_attributes (MAKE_EMPTY name) OR DNS_NAMEATTR_ABSOLUTE
                                  else n_attributes (MAKE_EMPTY name)),
                 n_ndata := drop (unat (b_used b)) (f_mem v), n_labels := f_labels v,
                 n_length := f_nused v\<rparr>) target b', source) }"
  shows "dns_name_fromtext name source origin options target =
    (case r of
       Some e \<Rightarrow> fail e v
     | None \<Rightarrow>
         if f_done v then finish True v
         else if f_nrem v = 0 then fail ISC_R_NOSPACE v
         else do {
           REQUIRE (left = []);
           if f_state v \<noteq> ft_ordinary \<and> f_state v \<noteq> ft_at then fail ISC_R_UNEXPECTEDEND v
           else do {
             v \<leftarrow> (if f_state v = ft_ordinary then do { REQUIRE (f_count v \<noteq> 0); ft_endlabel v } else Some v);
             case origin of
               None \<Rightarrow> finish False v
             | Some origin \<Rightarrow>
                 if f_nrem v < n_length origin then fail ISC_R_NOSPACE v
                 else do {
                   v \<leftarrow> origin_loop d (n_ndata origin) 0 (n_length origin) v;
                   finish (absolute_attr origin) v } } })"
  unfolding dns_name_fromtext_def fail_def finish_def Let_def pending_read [OF src]
    unat_availablelength [OF b(2)] d [symmetric] b(1) bind.bind_lunit loop
  using name buf_wf_valid [OF src] by (simp cong: if_cong option.case_cong)

lemma at_start_complete:
  assumes "at_start m t nmax xs v" and "nmax \<le> 255"
  shows "complete m t nmax xs v" and "\<not> ends_root xs"
  using assms good_labels_ok [of xs] by (auto simp: at_start_def complete_def ends_root_def label_good_def)

text \<open>What follows a relative name: the origin, if one is given and fits.\<close>

lemma fromtext_relative:
  assumes name: "VALID_NAME name" "BINDABLE name" and b: "open_target name target = Some b" "buf_wf b"
    and src: "buf_wf source" and d: "d = (options AND DNS_NAME_DOWNCASE \<noteq> 0)"
    and loop: "ft_loop d (buf_pending source) (ft_start_vars b) = Some (None, [], v)"
    and v: "\<not> f_done v" "f_nrem v > 0" and xs: "at_start (b_base b) (unat (b_used b)) (min (buf_room b) 255) xs v1"
    and v1: "f_state v = ft_ordinary \<and> f_count v \<noteq> 0 \<and> ft_endlabel v = Some v1 \<or> f_state v = ft_at \<and> v1 = v"
    and org: "repr_opt origin ys" "d \<longrightarrow> ascii_labels ys"
  shows "if f_nrem v1 < length (wire ys) then refused (dns_name_fromtext name source origin options target) ISC_R_NOSPACE source target b
    else parsed (dns_name_fromtext name source origin options target) source (length (buf_pending source)) target b (xs @ as_read d ys)"
proof -
  let ?nmax = "min (buf_room b) 255" and ?t = "unat (b_used b)"
  note tail = fromtext_loop [OF name b src d loop, of origin]
  have k: "kept (b_base b) ?t v1" by (rule ft_kept(1) [OF xs])
  have nm: "?nmax \<le> buf_room b" "?nmax \<le> 255" by simp_all
  have ending: "(if f_state v = ft_ordinary then do { REQUIRE (f_count v \<noteq> 0); ft_endlabel v } else Some v) = Some v1"
    using v1 by auto
  have st: "\<not> (f_state v \<noteq> ft_ordinary \<and> f_state v \<noteq> ft_at)" "f_nrem v \<noteq> 0" using v1 v(2) by auto
  show ?thesis
  proof (cases origin)
    case None
    then have ys: "ys = []" using org(1) by (simp add: repr_opt_def)
    have "parsed (dns_name_fromtext name source origin options target) source (length (buf_pending source)) target b xs"
      using finish_ok [OF name(1) b(2) src _ at_start_complete(1) [OF xs nm(2)] nm(1), of "length (buf_pending source)" False target]
        at_start_complete(2) [OF xs nm(2)] None st v
      unfolding tail ending by auto
    then show ?thesis using ys by (simp add: as_read_def)
  next
    case (Some o')
    note r = org(1) [unfolded Some repr_opt_def option.case] 
    note dr = name_reprD [OF r]
    show ?thesis
    proof (cases "f_nrem v1 < length (wire ys)")
      case True
      then have "refused (dns_name_fromtext name source origin options target) ISC_R_NOSPACE source target b"
        using refuse_ok [OF name(1) b(2) k, of ISC_R_NOSPACE _ target source] st v Some dr unfolding tail ending by auto
      then show ?thesis using True by simp
    next
      case False
      have a: "f_nused v1 + f_nrem v1 = ?nmax" "f_nused v1 = length (wire xs)" using xs by (simp_all add: at_start_def)
      have cp: "copying (b_base b) ?t xs v1" using xs by (simp add: at_start_def copying_def)
      have ok: "labels_ok (xs @ as_read d ys)"
        by (rule labels_ok_join) (use at_start_complete [OF xs nm(2)] dr(2) False a nm(2) in
          \<open>auto simp: complete_def as_read_def DNS_NAME_MAXWIRE_def\<close>)
      have fit: "?t + length (wire (xs @ ys)) \<le> length (b_base b)"
        using False a b(2) by (auto simp: buf_wf_def buf_room_def)
      have cnt: "length (xs @ ys) \<le> 128" using labels_le_128 [OF ok] by simp
      have bytes: "drop 0 (n_ndata o') = wire ys @ drop (length (wire ys)) (n_ndata o')"
        using name_repr_bytes [OF r] by simp
      obtain v2 where v2: "origin_loop d (n_ndata o') 0 (length (wire ys)) v1 = Some v2"
        "complete (b_base b) ?t ?nmax (xs @ as_read d ys) v2"
      proof -
        have "length (wire xs) + length (wire ys) \<le> ?nmax" using False a by linarith
        moreover have "\<forall>l \<in> set ys. length l \<le> 63" using dr(2) by (simp add: labels_ok_def)
        ultimately show ?thesis using that origin_loop_ok [OF bytes _ org(2) cp fit cnt] ok by (auto simp: complete_def)
      qed
      have "ends_root (xs @ as_read d ys) = absolute_attr o'"
        using at_start_complete(2) [OF xs nm(2)] dr(5) by (cases "ys = []") (auto simp: ends_root_append as_read_def)
      then have "parsed (dns_name_fromtext name source origin options target) source (length (buf_pending source)) target b (xs @ as_read d ys)"
        using finish_ok [OF name(1) b(2) src _ v2(2) nm(1), of "length (buf_pending source)" "absolute_attr o'" target] v2(1) Some st v dr False
        unfolding tail ending by auto
      then show ?thesis using False by simp
    qed
  qed
qed

lemma start_vars: "buf_wf b \<Longrightarrow> at_start (b_base b) (unat (b_used b)) (min (buf_room b) 255) [] (ft_start_vars b)"
  "buf_wf b \<Longrightarrow> unat (b_used b) + min (buf_room b) 255 \<le> length (b_base b)"
  by (auto simp: at_start_def mem_write_def buf_wf_def buf_room_def)

lemma fromtext_total:
  assumes name: "VALID_NAME name" "BINDABLE name" and b: "open_target name target = Some b" "buf_wf b"
    and src: "buf_wf source" and org: "repr_opt origin ys"
    and low: "options AND DNS_NAME_DOWNCASE \<noteq> 0 \<longrightarrow> (\<forall>c \<in> set (buf_pending source). c < 128) \<and> ascii_labels ys"
  shows "(\<exists>n ls. parsed (dns_name_fromtext name source origin options target) source n target b ls \<and>
      n \<le> length (buf_pending source)) \<or>
    (\<exists>e \<in> text_errors. refused (dns_name_fromtext name source origin options target) e source target b)"
    (is "?P \<or> ?R")
proof -
  let ?d = "options AND DNS_NAME_DOWNCASE \<noteq> 0" and ?m = "b_base b" and ?t = "unat (b_used b)" and ?n = "min (buf_room b) 255"
  have i: "ft_inv ?m ?t ?n (ft_start_vars b)" using start_vars(1) [OF b(2)] by (simp add: ft_inv_def)
  obtain r left v where l: "ft_loop ?d (buf_pending source) (ft_start_vars b) = Some (r, left, v)" "kept ?m ?t v"
    "length left \<le> length (buf_pending source)"
    "case r of Some e \<Rightarrow> e \<in> text_errors | None \<Rightarrow> ft_inv ?m ?t ?n v \<and> (f_done v \<or> f_nrem v = 0 \<or> left = [])"
    using ft_loop_ok [OF i _ start_vars(2) [OF b(2)], of ?d "buf_pending source"] low by (auto simp: kept_def)
  note tail = fromtext_loop [OF name b src refl l(1), of origin]
  have ref: "refused (Some (close_target e ((MAKE_EMPTY name)\<lparr>n_offsets := x\<rparr>) target (b\<lparr>b_base := f_mem v\<rparr>), source)) e source target b"
    for e x by (rule refuse_ok [OF name(1) b(2) l(2)])
  have un: "ISC_R_UNEXPECTEDEND \<in> text_errors" "ISC_R_NOSPACE \<in> text_errors" by (simp_all add: text_errors_def)
  show ?thesis
  proof (cases r)
    case (Some e)
    then show ?thesis using l(4) ref [of e] unfolding tail by (intro disjI2 bexI [of _ e]) simp_all
  next
    case None
    note inv = l(4) [unfolded None option.case]
    consider (ready) "f_done v" | (full) "\<not> f_done v" "f_nrem v = 0"
      | (stop) "\<not> f_done v" "f_nrem v > 0" "left = []" "f_state v \<noteq> ft_ordinary" "f_state v \<noteq> ft_at"
      | (rel) "\<not> f_done v" "f_nrem v > 0" "left = []" "f_state v = ft_ordinary \<or> f_state v = ft_at"
      using inv by (cases "f_nrem v = 0") auto
    then show ?thesis
    proof cases
      case ready
      then obtain ls where ls: "complete ?m ?t ?n ls v" "ends_root ls" using inv by (auto simp: ft_inv_def)
      have "parsed (dns_name_fromtext name source origin options target) source (length (buf_pending source) - length left) target b ls"
        using finish_ok [OF name(1) b(2) src _ ls(1), of "length (buf_pending source) - length left" True target] ls(2) ready None
        unfolding tail by simp
      then show ?thesis by (intro disjI1) auto
    next
      case full
      then show ?thesis
        using ref [of ISC_R_NOSPACE] un None unfolding tail by (intro disjI2 bexI [of _ ISC_R_NOSPACE]) simp_all
    next
      case stop
      then show ?thesis
        using ref [of ISC_R_UNEXPECTEDEND] un None unfolding tail by (intro disjI2 bexI [of _ ISC_R_UNEXPECTEDEND]) simp_all
    next
      case rel
      have "\<exists>xs v1. at_start ?m ?t ?n xs v1 \<and> (f_state v = ft_ordinary \<and> f_count v \<noteq> 0 \<and> ft_endlabel v = Some v1 \<or> f_state v = ft_at \<and> v1 = v)"
      proof (cases "f_state v = ft_at")
        case True
        then show ?thesis using inv rel(1) by (auto simp: ft_inv_def)
      next
        case False
        then obtain xs cur where c: "cur \<noteq> []" "in_label ?m ?t ?n xs cur v" using inv rel by (auto simp: ft_inv_def)
        then have "f_count v \<noteq> 0" by (simp add: in_label_def)
        then show ?thesis using endlabel_ok [OF c(2,1)] False rel(4) by auto
      qed
      then obtain xs v1 where x: "at_start ?m ?t ?n xs v1"
        "f_state v = ft_ordinary \<and> f_count v \<noteq> 0 \<and> ft_endlabel v = Some v1 \<or> f_state v = ft_at \<and> v1 = v" by blast
      have "ft_loop ?d (buf_pending source) (ft_start_vars b) = Some (None, [], v)" using l(1) None rel(3) by simp
      from fromtext_relative [OF name b src refl this rel(1,2) x org] low
      have "if f_nrem v1 < length (wire ys) then refused (dns_name_fromtext name source origin options target) ISC_R_NOSPACE source target b
    else parsed (dns_name_fromtext name source origin options target) source (length (buf_pending source)) target b (xs @ as_read ?d ys)"
        by blast
      then show ?thesis using un by (auto split: if_splits)
    qed
  qed
qed

subsection \<open>The text of a name is read back\<close>

abbreviation folded :: "bool \<Rightarrow> u8 \<Rightarrow> u8" where
  "folded d \<equiv> if d then maptolower else id"

text \<open>\<open>runs d text rest v P\<close>: the loop reads \<open>text\<close> and goes on with \<open>rest\<close> in a state with \<open>P\<close>.\<close>

definition runs :: "bool \<Rightarrow> bytes \<Rightarrow> bytes \<Rightarrow> ft_vars \<Rightarrow> (ft_vars \<Rightarrow> bool) \<Rightarrow> bool" where
  "runs d cs rest v P \<longleftrightarrow> (\<exists>v'. ft_loop d (cs @ rest) v = ft_loop d rest v' \<and> P v')"

lemma runs_step:
  assumes "f_nrem v > 0" and "\<not> f_done v" and "ft_step d (cs @ rest = []) c v = Some (None, v')" and "runs d cs rest v' P"
  shows "runs d (c # cs) rest v P"
  using assms by (auto simp: runs_def)

lemma runs_Nil: "P v \<Longrightarrow> runs d [] rest v P"
  by (auto simp: runs_def)

lemma runs_append: "runs d cs (ds @ rest) v P \<Longrightarrow> (\<And>v'. P v' \<Longrightarrow> runs d ds rest v' Q) \<Longrightarrow> runs d (cs @ ds) rest v Q"
  unfolding runs_def by fastforce

lemma decimal_digit:
  assumes "n < 10"
  shows "isdigit (0x30 + of_nat n)" and "digitvalue (0x30 + of_nat n) = n" and "(0x30 + of_nat n :: u8) \<noteq> 0x5b"
proof -
  have "unat (0x30 + of_nat n :: u8) = 48 + n"
    using assms by (simp add: unat_word_ariths unat_of_nat)
  then show "isdigit (0x30 + of_nat n)" "(0x30 + of_nat n :: u8) \<noteq> 0x5b"
    using assms by (auto simp: isdigit_def word_le_nat_alt)
  show "digitvalue (0x30 + of_nat n) = n" using assms by (simp add: digitvalue_def unat_of_nat)
qed

lemma decimal_text:
  fixes c :: u8
  shows "0x30 + ((c div 100) mod 10) = 0x30 + of_nat (unat c div 100 mod 10)"
    "0x30 + ((c div 10) mod 10) = 0x30 + of_nat (unat c div 10 mod 10)"
    "0x30 + (c mod 10) = 0x30 + of_nat (unat c mod 10)"
proof -
  have *: "c div 100 mod 10 = of_nat (unat c div 100 mod 10)" "c div 10 mod 10 = of_nat (unat c div 10 mod 10)"
    "c mod 10 = of_nat (unat c mod 10)"
    by (simp_all add: word_unat_eq_iff unat_div unat_mod unat_of_nat)
  show "0x30 + ((c div 100) mod 10) = 0x30 + of_nat (unat c div 100 mod 10)"
    "0x30 + ((c div 10) mod 10) = 0x30 + of_nat (unat c div 10 mod 10)"
    "0x30 + (c mod 10) = 0x30 + of_nat (unat c mod 10)"
    by (simp_all only: *)
qed

lemma decimal_value:
  assumes "(n::nat) < 256"
  shows "((n div 100 mod 10) * 10 + n div 10 mod 10) * 10 + n mod 10 = n"
proof -
  have "n div 100 = n div 10 div 10" by (simp add: div_mult2_eq [symmetric])
  moreover have "n div 100 mod 10 = n div 100" using assms by simp
  ultimately show ?thesis by (simp only: div_mult_mod_eq)
qed

lemma escaped_decimal_runs:
  assumes v: "in_label m t nmax xs cur v" "length cur < 63" "f_nrem v > 0" and fits: "t + nmax \<le> length m"
    and s: "f_state v = ft_escape \<or> f_state v = ft_initialescape"
  shows "runs d [0x30 + ((c div 100) mod 10), 0x30 + ((c div 10) mod 10), 0x30 + (c mod 10)] rest v
    (\<lambda>v'. in_label m t nmax xs (cur @ [folded d c]) v' \<and> f_state v' = ft_ordinary)"
proof -
  let ?a = "unat c div 100 mod 10" and ?b = "unat c div 10 mod 10" and ?e = "unat c mod 10"
  have dg: "?a < 10" "?b < 10" "?e < 10" by simp_all
  have uc: "unat c < 256" using unsigned_less [where ?'a = nat, of c] by simp
  define v1 where "v1 = v\<lparr>f_digits := 1, f_value := ?a, f_state := ft_escdecimal\<rparr>"
  define v2 where "v2 = v\<lparr>f_digits := 2, f_value := ?a * 10 + ?b, f_state := ft_escdecimal\<rparr>"
  define v3 where "v3 = v\<lparr>f_digits := 3, f_value := unat c, f_state := ft_escdecimal\<rparr>"
  have i3: "in_label m t nmax xs cur v3" "f_nrem v3 > 0" using v by (simp_all add: v3_def)
  obtain v4 where v4: "ft_put (v3\<lparr>f_count := f_count v3 + 1\<rparr>) (folded d c) = Some v4"
    "in_label m t nmax xs (cur @ [folded d c]) (v4\<lparr>f_state := ft_ordinary\<rparr>)"
    using put_in_label [OF i3(1) v(2) i3(2) fits] by blast
  note nd = not_done(1) [OF v(1)]
  have cnt: "f_count v < 63" using v by (simp add: in_label_def)
  note dd = decimal_digit [OF dg(1)] decimal_digit [OF dg(2)] decimal_digit [OF dg(3)]
  show ?thesis
    unfolding decimal_text [of c]
  proof (rule runs_step)
    show "ft_step d ([0x30 + of_nat ?b, 0x30 + of_nat ?e] @ rest = []) (0x30 + of_nat ?a) v = Some (None, v1)"
      using s dd(1-3) by (auto simp: ft_step_def escape_case_def escdecimal_case_def v1_def)
    show "runs d [0x30 + of_nat ?b, 0x30 + of_nat ?e] rest v1
        (\<lambda>v'. in_label m t nmax xs (cur @ [folded d c]) v' \<and> f_state v' = ft_ordinary)"
    proof (rule runs_step)
      show "ft_step d ([0x30 + of_nat ?e] @ rest = []) (0x30 + of_nat ?b) v1 = Some (None, v2)"
        using dd(4-6) by (auto simp: ft_step_def escdecimal_case_def v1_def v2_def)
      show "runs d [0x30 + of_nat ?e] rest v2 (\<lambda>v'. in_label m t nmax xs (cur @ [folded d c]) v' \<and> f_state v' = ft_ordinary)"
      proof (rule runs_step)
        have val: "(?a * 10 + ?b) * 10 + ?e = unat c" by (rule decimal_value [OF uc])
        have "f_value v2 = ?a * 10 + ?b" by (simp add: v2_def)
        then have fv: "f_value v2 * 10 + ?e = unat c" by (simp only: val)
        have eq: "v2\<lparr>f_value := f_value v2 * 10 + digitvalue (0x30 + of_nat ?e), f_digits := f_digits v2 + 1\<rparr> = v3"
          unfolding dd(8) fv by (simp add: v2_def v3_def)
        show "ft_step d ([] @ rest = []) (0x30 + of_nat ?e) v2 = Some (None, v4\<lparr>f_state := ft_ordinary\<rparr>)"
        proof -
          have "f_digits v3 = 3" "f_value v3 = unat c" "f_count v3 = f_count v" "f_state v2 = ft_escdecimal"
            by (simp_all add: v2_def v3_def)
          then show ?thesis
            using dd(7) v4(1) uc cnt unfolding ft_step_def escdecimal_case_def eq Let_def
            by (cases d) simp_all
        qed
      qed (use v nd v4(2) in \<open>simp_all add: v2_def runs_Nil\<close>)
    qed (use v nd in \<open>simp_all add: v1_def\<close>)
  qed (use v nd in simp_all)
qed

text \<open>The characters that are escaped by a backslash.\<close>

lemma text_char_cases:
  obtains (escaped) "text_char options c = [0x5c, c]" "\<not> isdigit c" "c \<noteq> 0x5b" "c < 128"
  | (plain) "text_char options c = [c]" "c \<noteq> 0x2e" "c \<noteq> 0x5c" "c < 128"
      "c = 0x40 \<longrightarrow> options AND DNS_NAME_MASTERFILE = 0"
  | (decimal) "text_char options c = 0x5c # [0x30 + ((c div 100) mod 10), 0x30 + ((c div 10) mod 10), 0x30 + (c mod 10)]"
proof (cases "(c = 0x40 \<or> c = 0x24) \<and> options AND DNS_NAME_MASTERFILE \<noteq> 0 \<or>
        c = 0x22 \<or> c = 0x28 \<or> c = 0x29 \<or> c = 0x2e \<or> c = 0x3b \<or> c = 0x5c")
  case True
  then have "text_char options c = [0x5c, c]" unfolding text_char_def by (simp only: if_True)
  then show ?thesis using True escaped by (auto simp: isdigit_def)
next
  case no: False
  show ?thesis
  proof (cases "c > 0x20 \<and> c < 0x7f")
    case True
    then have "text_char options c = [c]" unfolding text_char_def using no by (simp only: if_True if_False simp_thms)
    moreover have "c < 128" using True by (simp add: word_less_nat_alt)
    ultimately show ?thesis using no plain by blast
  next
    case False
    then have "text_char options c = 0x5c # [0x30 + ((c div 100) mod 10), 0x30 + ((c div 10) mod 10), 0x30 + (c mod 10)]"
      unfolding text_char_def using no by (simp only: if_False simp_thms)
    then show ?thesis by (rule decimal)
  qed
qed

lemma escape_runs:
  assumes v: "in_label m t nmax xs cur v" "length cur < 63" "f_nrem v > 0" and fits: "t + nmax \<le> length m"
    and s: "f_state v = ft_escape \<or> f_state v = ft_initialescape" and w: "text_char options c = 0x5c # w" "w \<noteq> []"
  shows "runs d w rest v (\<lambda>v'. in_label m t nmax xs (cur @ [folded d c]) v' \<and> f_state v' = ft_ordinary)"
proof (cases rule: text_char_cases [of options c])
  case escaped
  have lc: "lower_char d c = Some (folded d c)" using escaped by (simp add: lower_char_def)
  have i: "in_label m t nmax xs cur (v\<lparr>f_state := ft_escape\<rparr>)" "f_nrem (v\<lparr>f_state := ft_escape\<rparr>) > 0" using v by simp_all
  obtain v' where v': "ft_char d c (v\<lparr>f_state := ft_escape\<rparr>) = Some (None, v')"
    "in_label m t nmax xs (cur @ [folded d c]) v'" "f_state v' = ft_ordinary"
    using char_ok [OF i fits lc] v(2) by auto
  have same: "v\<lparr>f_state := ft_escape\<rparr> = v" if "f_state v = ft_escape" using that by (cases v) simp
  have "ft_step d f c v = Some (None, v')" for f
    using s
  proof
    assume e: "f_state v = ft_escape"
    then show ?thesis using v'(1) [unfolded same [OF e]] escaped(2) by (simp add: ft_step_def escape_case_def)
  next
    assume "f_state v = ft_initialescape"
    then show ?thesis using v'(1) escaped(2,3) by (simp add: ft_step_def escape_case_def)
  qed
  then have "runs d [c] rest v (\<lambda>v'. in_label m t nmax xs (cur @ [folded d c]) v' \<and> f_state v' = ft_ordinary)"
    using v' v(3) not_done(1) [OF v(1)] by (intro runs_step [of v]) (auto intro: runs_Nil)
  then show ?thesis using w escaped by simp
next
  case plain
  then show ?thesis using w by simp
next
  case decimal
  then show ?thesis using w escaped_decimal_runs [OF v fits s] by simp
qed

lemma char_runs:
  assumes v: "in_label m t nmax xs cur v" "length cur < 63" "f_nrem v > 0" and fits: "t + nmax \<le> length m"
    and s: "f_state v = ft_ordinary"
  shows "runs d (text_char options c) rest v
    (\<lambda>v'. in_label m t nmax xs (cur @ [folded d c]) v' \<and> f_state v' = ft_ordinary)"
proof (cases "\<exists>w. text_char options c = 0x5c # w \<and> w \<noteq> []")
  case True
  then obtain w where w: "text_char options c = 0x5c # w" "w \<noteq> []" by blast
  have "runs d w rest (v\<lparr>f_state := ft_escape\<rparr>) (\<lambda>v'. in_label m t nmax xs (cur @ [folded d c]) v' \<and> f_state v' = ft_ordinary)"
    by (rule escape_runs [OF _ v(2) _ fits _ w]) (use v in simp_all)
  then show ?thesis
    unfolding w(1) by (rule runs_step [OF v(3) not_done(1) [OF v(1)], rotated]) (simp add: ft_step_def s ordinary_case_def)
next
  case False
  show ?thesis
  proof (cases rule: text_char_cases [of options c])
    case plain
    have lc: "lower_char d c = Some (folded d c)" using plain by (simp add: lower_char_def)
    obtain v' where v': "ft_char d c v = Some (None, v')" "in_label m t nmax xs (cur @ [folded d c]) v'" "f_state v' = ft_ordinary"
      using char_ok [OF v(1,3) fits lc] v(2) by auto
    then show ?thesis
      unfolding plain(1)
      by (intro runs_step [OF v(3) not_done(1) [OF v(1)]]) (use plain in \<open>auto simp: ft_step_def s ordinary_case_def intro: runs_Nil\<close>)
  qed (use False in auto)
qed


lemma label_text_nonempty: "l \<noteq> [] \<Longrightarrow> label_text options l \<noteq> []"
  by (cases l) (auto simp: text_char_def)

lemma as_read_append: "as_read d (xs @ ys) = as_read d xs @ as_read d ys"
  by (simp add: as_read_def lower_def)

lemma first_runs:
  assumes v: "at_start m t nmax xs v" "f_nrem v \<ge> 2" and fits: "t + nmax \<le> length m"
    and s: "f_state v = ft_init \<or> f_state v = ft_start" and at: "f_state v = ft_init \<longrightarrow> text_char options c @ rest \<noteq> [0x40]"
  shows "runs d (text_char options c) rest v
    (\<lambda>v'. in_label m t nmax xs [folded d c] v' \<and> f_state v' = ft_ordinary)"
proof (cases "\<exists>w. text_char options c = 0x5c # w \<and> w \<noteq> []")
  case True
  then obtain w where w: "text_char options c = 0x5c # w" "w \<noteq> []" by blast
  let ?v = "v\<lparr>f_label := f_ndata v, f_ndata := f_ndata v + 1, f_nrem := f_nrem v - 1, f_nused := f_nused v + 1,
    f_count := 0, f_state := ft_initialescape\<rparr>"
  have i: "in_label m t nmax xs [] ?v" using begin_label [OF v(1) _ fits] v(2) by simp
  have "runs d w rest ?v (\<lambda>v'. in_label m t nmax xs ([] @ [folded d c]) v' \<and> f_state v' = ft_ordinary)"
    by (rule escape_runs [OF i _ _ fits _ w]) (use v in simp_all)
  then have "runs d (0x5c # w) rest v (\<lambda>v'. in_label m t nmax xs ([] @ [folded d c]) v' \<and> f_state v' = ft_ordinary)"
    by (rule runs_step [rotated 3]) (use v not_done(2) [OF v(1)] s in \<open>auto simp: ft_step_def init_case_def start_case_def\<close>)
  then show ?thesis unfolding w(1) by simp
next
  case False
  show ?thesis
  proof (cases rule: text_char_cases [of options c])
    case plain
    let ?v = "v\<lparr>f_label := f_ndata v, f_ndata := f_ndata v + 1, f_nrem := f_nrem v - 1, f_nused := f_nused v + 1,
      f_count := 0, f_state := ft_ordinary\<rparr>"
    have i: "in_label m t nmax xs [] ?v" "f_nrem ?v > 0" using begin_label [OF v(1) _ fits] v(2) by simp_all
    have lc: "lower_char d c = Some (folded d c)" using plain by (simp add: lower_char_def)
    obtain v' where v': "ft_char d c ?v = Some (None, v')" "in_label m t nmax xs [folded d c] v'" "f_state v' = ft_ordinary"
      using char_ok [OF i fits lc] by auto
    have "ft_step d ([] @ rest = []) c v = Some (None, v')"
      using s plain at v(2) v'(1) by (auto simp: ft_step_def init_case_def start_case_def ordinary_case_def)
    then show ?thesis
      unfolding plain(1) by (rule runs_step [rotated 2]) (use v v' not_done(2) [OF v(1)] in \<open>auto intro: runs_Nil\<close>)
  qed (use False in auto)
qed

lemma chars_runs:
  assumes "in_label m t nmax xs cur v" and "f_state v = ft_ordinary" and "length cur + length l \<le> 63"
    and "length (wire xs) + 1 + length cur + length l \<le> nmax" and fits: "t + nmax \<le> length m"
  shows "runs d (label_text options l) rest v
    (\<lambda>v'. in_label m t nmax xs (cur @ map (folded d) l) v' \<and> f_state v' = ft_ordinary)"
  using assms(1-4)
proof (induction l arbitrary: cur v)
  case (Cons c l)
  have "length cur < 63" "f_nrem v > 0" using Cons.prems by (simp_all add: in_label_def)
  from char_runs [OF Cons.prems(1) this fits Cons.prems(2)]
  have "runs d (text_char options c) (label_text options l @ rest) v
    (\<lambda>v'. in_label m t nmax xs (cur @ [folded d c]) v' \<and> f_state v' = ft_ordinary)" .
  then have "runs d (text_char options c @ label_text options l) rest v
    (\<lambda>v'. in_label m t nmax xs ((cur @ [folded d c]) @ map (folded d) l) v' \<and> f_state v' = ft_ordinary)"
    by (rule runs_append) (rule Cons.IH; use Cons.prems in simp)
  then show ?case by simp
qed (auto intro: runs_Nil)

lemma label_runs:
  assumes v: "at_start m t nmax xs v" and l: "label_good l" "length (wire xs) + 1 + length l \<le> nmax"
    and fits: "t + nmax \<le> length m" and s: "f_state v = ft_init \<or> f_state v = ft_start"
    and at: "f_state v = ft_init \<longrightarrow> label_text options l @ rest \<noteq> [0x40]"
  shows "runs d (label_text options l) rest v
    (\<lambda>v'. in_label m t nmax xs (map (folded d) l) v' \<and> f_state v' = ft_ordinary)"
proof -
  obtain c l' where c: "l = c # l'" using l(1) by (cases l) (auto simp: label_good_def)
  have "f_nrem v \<ge> 2" using v l(2) c by (simp add: at_start_def)
  from first_runs [OF v this fits s, of options c "label_text options l' @ rest"] at
  have "runs d (text_char options c) (label_text options l' @ rest) v
    (\<lambda>v'. in_label m t nmax xs [folded d c] v' \<and> f_state v' = ft_ordinary)" by (simp add: c)
  then have "runs d (text_char options c @ label_text options l') rest v
    (\<lambda>v'. in_label m t nmax xs ([folded d c] @ map (folded d) l') v' \<and> f_state v' = ft_ordinary)"
    by (rule runs_append) (rule chars_runs; use l c fits in \<open>auto simp: label_good_def\<close>)
  then show ?thesis by (simp add: c)
qed

lemma dot_runs:
  assumes v: "in_label m t nmax xs cur v" "f_state v = ft_ordinary" "cur \<noteq> []" "f_nrem v > 0"
    and fits: "t + nmax \<le> length m" "nmax \<le> 255"
  shows "runs d [0x2e] rest v
    (\<lambda>v'. if rest = [] then complete m t nmax (xs @ [cur] @ [[]]) v' \<and> f_done v'
          else at_start m t nmax (xs @ [cur]) v' \<and> f_state v' = ft_start)"
proof -
  have c: "f_count v \<noteq> 0" using v by (simp add: in_label_def)
  obtain v1 where v1: "ft_endlabel v = Some v1" "at_start m t nmax (xs @ [cur]) v1" "f_nrem v1 > 0"
    using endlabel_ok [OF v(1,3) fits(2)] v(4) by auto
  obtain v2 where v2: "ft_root v1 = Some v2" "f_done v2" "complete m t nmax ((xs @ [cur]) @ [[]]) v2"
    using root_ok [OF v1(2,3) fits] by auto
  have "ft_step d ([] @ rest = []) 0x2e v = Some (None, (if rest = [] then v2 else v1)\<lparr>f_state := ft_start\<rparr>)"
    using v(2) c v1(1) v2(1) by (simp add: ft_step_def ordinary_case_def)
  then show ?thesis
    by (rule runs_step [OF v(4) not_done(1) [OF v(1)]]) (use v1(2) v2 in \<open>auto intro!: runs_Nil\<close>)
qed

lemma dotted_runs:
  assumes "at_start m t nmax xs v" and "\<forall>l \<in> set ys. label_good l" and "length (wire xs) + length (wire ys) < nmax"
    and "f_state v = ft_init \<or> f_state v = ft_start" and "rest \<noteq> []" and fits: "t + nmax \<le> length m" "nmax \<le> 255"
  shows "runs d (dotted options ys) rest v
    (\<lambda>v'. at_start m t nmax (xs @ as_read d ys) v' \<and> f_state v' = (if ys = [] then f_state v else ft_start))"
  using assms(1-4)
proof (induction ys arbitrary: xs v)
  case (Cons l ys)
  have l: "label_good l" "length (wire xs) + 1 + length l \<le> nmax" using Cons.prems by auto
  have ne: "map (folded d) l \<noteq> []" using l by (auto simp: label_good_def)
  let ?r = "[0x2e] @ dotted options ys @ rest" and ?s = "dotted options ys @ rest"
  have a: "runs d (label_text options l) ?r v (\<lambda>v'. in_label m t nmax xs (map (folded d) l) v' \<and> f_state v' = ft_ordinary)"
  proof (rule label_runs [OF Cons.prems(1) l fits(1) Cons.prems(4)])
    have "length (label_text options l @ ?r) \<noteq> length [0x40::u8]" using \<open>rest \<noteq> []\<close> by simp
    then show "f_state v = ft_init \<longrightarrow> label_text options l @ ?r \<noteq> [0x40]" by metis
  qed
  have b: "runs d [0x2e] ?s v' (\<lambda>v'. at_start m t nmax (xs @ [map (folded d) l]) v' \<and> f_state v' = ft_start)"
    if "in_label m t nmax xs (map (folded d) l) v' \<and> f_state v' = ft_ordinary" for v'
    using dot_runs [of m t nmax xs "map (folded d) l" v' d ?s] that ne fits \<open>rest \<noteq> []\<close> Cons.prems(3)
    by (auto simp: in_label_def)
  have "runs d (label_text options l @ [0x2e]) ?s v (\<lambda>v'. at_start m t nmax (xs @ [map (folded d) l]) v' \<and> f_state v' = ft_start)"
    by (rule runs_append [OF a b])
  then have "runs d ((label_text options l @ [0x2e]) @ dotted options ys) rest v
    (\<lambda>v'. at_start m t nmax ((xs @ [map (folded d) l]) @ as_read d ys) v' \<and> f_state v' = ft_start)"
  proof (rule runs_append)
    fix v' assume v': "at_start m t nmax (xs @ [map (folded d) l]) v' \<and> f_state v' = ft_start"
    show "runs d (dotted options ys) rest v' (\<lambda>v'. at_start m t nmax ((xs @ [map (folded d) l]) @ as_read d ys) v' \<and> f_state v' = ft_start)"
      using Cons.IH [of "xs @ [map (folded d) l]" v'] v' Cons.prems(2,3) by (auto simp: if_split)
  qed
  then show ?case by simp
qed (auto intro: runs_Nil)


text \<open>The whole text of a name: with its final dot, and without it.\<close>

lemma text_runs:
  assumes v: "at_start m t nmax [] v" "f_state v = ft_init" and ys: "ys \<noteq> []" "\<forall>l \<in> set ys. label_good l" "length (wire ys) < nmax"
    and fits: "t + nmax \<le> length m" "nmax \<le> 255"
  shows "runs d (dotted options ys) [] v (\<lambda>v'. complete m t nmax (as_read d ys @ [[]]) v' \<and> f_done v')"
    and "butlast (dotted options ys) \<noteq> [0x40] \<Longrightarrow> runs d (butlast (dotted options ys)) [] v
      (\<lambda>v'. in_label m t nmax (as_read d (butlast ys)) (map (folded d) (last ys)) v' \<and> f_state v' = ft_ordinary)"
proof -
  obtain zs l where y: "ys = zs @ [l]" using ys(1) by (cases ys rule: rev_cases) auto
  have l: "label_good l" "length (wire (as_read d zs)) + 1 + length l < nmax" "map (folded d) l \<noteq> []"
    using ys(2,3) y by (auto simp: label_good_def)
  have bl: "butlast (dotted options ys) = dotted options zs @ label_text options l" by (simp add: y butlast_append)
  have zs: "runs d (dotted options zs) (label_text options l @ rest) v
    (\<lambda>v'. at_start m t nmax ([] @ as_read d zs) v' \<and> f_state v' = (if zs = [] then f_state v else ft_start))" for rest
    by (rule dotted_runs [OF v(1) _ _ _ _ fits]) (use v ys(2,3) y l in \<open>auto simp: label_text_nonempty\<close>)
  have lab: "runs d (dotted options zs @ label_text options l) rest v
      (\<lambda>v'. in_label m t nmax (as_read d zs) (map (folded d) l) v' \<and> f_state v' = ft_ordinary)"
    if "dotted options zs @ label_text options l @ rest \<noteq> [0x40]" for rest
  proof (rule runs_append [OF zs])
    fix v' assume v': "at_start m t nmax ([] @ as_read d zs) v' \<and> f_state v' = (if zs = [] then f_state v else ft_start)"
    show "runs d (label_text options l) rest v' (\<lambda>v'. in_label m t nmax (as_read d zs) (map (folded d) l) v' \<and> f_state v' = ft_ordinary)"
      by (rule label_runs [OF _ l(1) _ fits(1)]) (use v' v l(2) that in \<open>auto split: if_splits\<close>)
  qed
  show "runs d (butlast (dotted options ys)) [] v
      (\<lambda>v'. in_label m t nmax (as_read d (butlast ys)) (map (folded d) (last ys)) v' \<and> f_state v' = ft_ordinary)"
    if "butlast (dotted options ys) \<noteq> [0x40]"
    using lab [of "[]"] that unfolding bl by (simp add: y)
  have "last (dotted options zs @ label_text options l @ [0x2e]) \<noteq> last [0x40::u8]" by simp
  then have "dotted options zs @ label_text options l @ [0x2e] \<noteq> [0x40]" by metis
  note whole = runs_append [where rest = "[]" and ds = "[0x2e]", unfolded append_Nil2, OF lab [OF this]]
  have "runs d ((dotted options zs @ label_text options l) @ [0x2e]) [] v (\<lambda>v'. complete m t nmax (as_read d zs @ [map (folded d) l] @ [[]]) v' \<and> f_done v')"
  proof -
    have "runs d [0x2e] [] v' (\<lambda>v'. complete m t nmax (as_read d zs @ [map (folded d) l] @ [[]]) v' \<and> f_done v')"
      if "in_label m t nmax (as_read d zs) (map (folded d) l) v' \<and> f_state v' = ft_ordinary" for v'
      using dot_runs [of m t nmax "as_read d zs" "map (folded d) l" v' d "[]"] that l fits by (auto simp: in_label_def)
    then show ?thesis by (rule whole)
  qed
  then show "runs d (dotted options ys) [] v (\<lambda>v'. complete m t nmax (as_read d ys @ [[]]) v' \<and> f_done v')"
    by (simp add: y as_read_append)
qed


text \<open>What is read when the text of the labels \<open>ls\<close> is read with an origin of labels \<open>ys\<close>.\<close>

definition read_back :: "bool \<Rightarrow> bytes list \<Rightarrow> bytes list \<Rightarrow> bytes list" where
  "read_back omit ls ys =
     (if ends_root ls \<and> (\<not> omit \<or> ls = [[]]) then ls
      else if ends_root ls then butlast ls @ ys else ls @ ys)"

lemma fromtext_dotted:
  assumes name: "VALID_NAME name" "BINDABLE name" and b: "open_target name target = Some b" "buf_wf b" and src: "buf_wf source"
    and ys: "ys \<noteq> []" "\<forall>l \<in> set ys. label_good l" and pend: "buf_pending source = dotted opt ys"
    and room: "length (wire ys) < min (buf_room b) 255" and d: "d = (options AND DNS_NAME_DOWNCASE \<noteq> 0)"
  shows "parsed (dns_name_fromtext name source origin options target) source (length (buf_pending source)) target b
    (as_read d ys @ [[]])"
proof -
  have "runs d (buf_pending source) [] (ft_start_vars b)
    (\<lambda>v'. complete (b_base b) (unat (b_used b)) (min (buf_room b) 255) (as_read d ys @ [[]]) v' \<and> f_done v')"
    unfolding pend by (rule text_runs(1) [OF start_vars(1) [OF b(2)] _ ys room start_vars(2) [OF b(2)]]) simp_all
  then obtain v where v: "ft_loop d (buf_pending source) (ft_start_vars b) = Some (None, [], v)"
    "complete (b_base b) (unat (b_used b)) (min (buf_room b) 255) (as_read d ys @ [[]]) v" "f_done v"
    by (auto simp: runs_def)
  show ?thesis
    using finish_ok [OF name(1) b(2) src _ v(2), of "length (buf_pending source)" True target] v(3)
    unfolding fromtext_loop [OF name b src d v(1)] by (simp add: ends_root_def)
qed

lemma fromtext_undotted:
  assumes name: "VALID_NAME name" "BINDABLE name" and b: "open_target name target = Some b" "buf_wf b" and src: "buf_wf source"
    and ys: "\<forall>l \<in> set ys. label_good l"
    and pend: "buf_pending source = (if ys = [] then [0x40] else butlast (dotted opt ys))" "ys \<noteq> [] \<Longrightarrow> buf_pending source \<noteq> [0x40]"
    and room: "length (wire ys) < min (buf_room b) 255" and d: "d = (options AND DNS_NAME_DOWNCASE \<noteq> 0)"
    and org: "repr_opt origin os" "d \<longrightarrow> ascii_labels os"
  shows "if length (wire (ys @ os)) \<le> min (buf_room b) 255
    then parsed (dns_name_fromtext name source origin options target) source (length (buf_pending source)) target b (as_read d (ys @ os))
    else refused (dns_name_fromtext name source origin options target) ISC_R_NOSPACE source target b"
proof -
  let ?m = "b_base b" and ?t = "unat (b_used b)" and ?n = "min (buf_room b) 255"
  obtain v v1 where v: "ft_loop d (buf_pending source) (ft_start_vars b) = Some (None, [], v)" "\<not> f_done v" "f_nrem v > 0"
    "at_start ?m ?t ?n (as_read d ys) v1"
    "f_state v = ft_ordinary \<and> f_count v \<noteq> 0 \<and> ft_endlabel v = Some v1 \<or> f_state v = ft_at \<and> v1 = v"
  proof (cases "ys = []")
    case True
    let ?v = "(ft_start_vars b)\<lparr>f_state := ft_at\<rparr>"
    have "ft_loop d (buf_pending source) (ft_start_vars b) = Some (None, [], ?v)"
      using pend True room by (simp add: ft_step_def init_case_def)
    then show ?thesis by (rule that [of ?v ?v]) (use start_vars(1) [OF b(2)] True room in \<open>simp_all add: at_start_def\<close>)
  next
    case False
    have "runs d (buf_pending source) [] (ft_start_vars b)
        (\<lambda>v'. in_label ?m ?t ?n (as_read d (butlast ys)) (map (folded d) (last ys)) v' \<and> f_state v' = ft_ordinary)"
      using text_runs(2) [OF start_vars(1) [OF b(2)] _ False ys room start_vars(2) [OF b(2)], of opt d] pend False by simp
    then obtain v where v: "ft_loop d (buf_pending source) (ft_start_vars b) = Some (None, [], v)"
      "in_label ?m ?t ?n (as_read d (butlast ys)) (map (folded d) (last ys)) v" "f_state v = ft_ordinary"
      by (auto simp: runs_def)
    obtain zs l where y: "ys = zs @ [l]" using False by (cases ys rule: rev_cases) auto
    have l: "map (folded d) l \<noteq> []" using ys y by (auto simp: label_good_def)
    obtain v1 where v1: "ft_endlabel v = Some v1" "at_start ?m ?t ?n (as_read d ys) v1"
      using endlabel_ok [OF v(2) _] l by (auto simp: y as_read_append)
    show ?thesis
      by (rule that [OF v(1) _ _ v1(2)]) (use v v1 l room y in \<open>auto simp: in_label_def\<close>)
  qed
  have "f_nrem v1 = ?n - length (wire ys)" using v(4) by (auto simp: at_start_def)
  then show ?thesis
    using fromtext_relative [OF name b src d v org] room by (auto simp: as_read_append split: if_splits)
qed


lemma masterfile_not_at:
  assumes "options AND DNS_NAME_MASTERFILE \<noteq> 0" and "ys \<noteq> []" and "\<forall>l \<in> set ys. label_good l"
  shows "butlast (dotted options ys) \<noteq> [0x40]"
proof -
  obtain c l zs where y: "ys = (c # l) # zs" using assms(2,3) by (cases ys; cases "hd ys") (auto simp: label_good_def)
  have "hd (text_char options c) \<noteq> 0x40" "text_char options c \<noteq> []"
    using assms(1) by (auto simp: text_char_def)
  then have "hd (butlast (dotted options ys)) \<noteq> 0x40"
    by (cases "text_char options c") (auto simp: y butlast_append)
  then show ?thesis by (metis list.sel(1))
qed

text \<open>The text that \<open>dns_name_totext\<close> writes is read back by \<open>dns_name_fromtext\<close>.\<close>

lemma text_read_back:
  assumes ls: "labels_ok ls" and pend: "buf_pending source = name_text (master_options omit) ls"
    and name: "VALID_NAME name" "BINDABLE name" and b: "open_target name target = Some b" "buf_wf b" and src: "buf_wf source"
    and org: "repr_opt origin ys" "d \<longrightarrow> ascii_labels ys" and d: "d = (options AND DNS_NAME_DOWNCASE \<noteq> 0)"
    and room: "length (wire (read_back omit ls ys)) + (if ends_root (read_back omit ls ys) then 0 else 1) \<le> min (buf_room b) 255"
  shows "parsed (dns_name_fromtext name source origin options target) source (length (buf_pending source)) target b
    (as_read d (read_back omit ls ys))"
proof -
  obtain xs root where x: "ls = xs @ root" "root = [] \<or> root = [[]]" "\<forall>l \<in> set xs. l \<noteq> [] \<and> length l \<le> 63"
    "root \<noteq> [] \<longleftrightarrow> ends_root ls" "xs = (if ends_root ls then butlast ls else ls)" using split_root [OF ls] .
  have good: "\<forall>l \<in> set xs. label_good l" using x(3) by (simp add: label_good_def)
  note bits = master_options_bits [of omit]
  consider (root) "ls = [[]]" | (dotted) "ls = xs @ [[]]" "xs \<noteq> []" "\<not> omit" | (rel) "read_back omit ls ys = xs @ ys" "ls \<noteq> [[]]" "ends_root ls \<longrightarrow> omit"
    using x by (fastforce simp: read_back_def)
  then show ?thesis
  proof cases
    case root
    then have rb: "read_back omit ls ys = [[]]" by (simp add: read_back_def ends_root_def)
    then have n: "min (buf_room b) 255 > 0" using room by auto
    have p: "buf_pending source = [0x2e]" using pend root by (simp add: name_text_def)
    obtain v where v: "ft_root (ft_start_vars b) = Some v" "f_done v"
      "complete (b_base b) (unat (b_used b)) (min (buf_room b) 255) ([] @ [[]]) v"
      using root_ok [OF start_vars(1) [OF b(2)] _ start_vars(2) [OF b(2)]] n by auto
    have l: "ft_loop d (buf_pending source) (ft_start_vars b) = Some (None, [], v)"
      using v(1) n by (simp add: p ft_step_def init_case_def)
    show ?thesis
      using finish_ok [OF name(1) b(2) src _ v(3), of "length (buf_pending source)" True target] v(2)
      unfolding fromtext_loop [OF name b src d l] rb by (simp add: ends_root_def)
  next
    case dotted
    have rb: "read_back omit ls ys = ls" "ends_root ls" using dotted by (simp_all add: read_back_def ends_root_def)
    have p: "buf_pending source = dotted (master_options omit) xs"
      using pend dotted rb(2) bits(2) by (auto simp: name_text_def)
    have "length (wire xs) < min (buf_room b) 255" using room rb dotted(1) by simp
    from fromtext_dotted [OF name b src dotted(2) good p this d, of origin]
    show ?thesis unfolding rb(1) by (simp add: dotted(1) as_read_append)
  next
    case rel
    have p: "buf_pending source = (if xs = [] then [0x40] else butlast (dotted (master_options omit) xs))"
    proof (cases "ends_root ls")
      case True
      then have l: "ls = xs @ [[]]" using x(1,2,4) by auto
      then have "xs \<noteq> []" using rel(2) by auto
      then show ?thesis using pend True rel(3) bits(2) by (simp add: name_text_def l)
    next
      case False
      then have "ls = xs" using x(1,4) by auto
      then show ?thesis using pend False rel(2) by (simp add: name_text_def)
    qed
    have at: "xs \<noteq> [] \<Longrightarrow> buf_pending source \<noteq> [0x40]"
      using masterfile_not_at [OF bits(1) _ good] p by simp
    have "length (wire xs) < min (buf_room b) 255"
      using room x(3) rel(1) by (cases ys) (auto simp: ends_root_def split: if_splits)
    from fromtext_undotted [OF name b src good p at this d org] room rel(1)
    show ?thesis by simp
  qed
qed

lemma downcase_high_byte:
  assumes name: "VALID_NAME name" "BINDABLE name" and b: "open_target name target = Some b" "buf_wf b" and src: "buf_wf source"
    and ys: "\<forall>l \<in> set ys. label_good l" and pend: "buf_pending source = dotted opt ys @ c # rest"
    and high: "c \<ge> 128" "options AND DNS_NAME_DOWNCASE \<noteq> 0" and room: "length (wire ys) + 2 \<le> min (buf_room b) 255"
  shows "dns_name_fromtext name source origin options target = None"
proof -
  let ?m = "b_base b" and ?t = "unat (b_used b)" and ?n = "min (buf_room b) 255"
  have "runs True (dotted opt ys) (c # rest) (ft_start_vars b)
      (\<lambda>v'. at_start ?m ?t ?n ([] @ as_read True ys) v' \<and> f_state v' = (if ys = [] then f_state (ft_start_vars b) else ft_start))"
    by (rule dotted_runs [OF start_vars(1) [OF b(2)] ys _ _ _ start_vars(2) [OF b(2)]]) (use room in simp_all)
  then obtain v where v: "ft_loop True (buf_pending source) (ft_start_vars b) = ft_loop True (c # rest) v"
    "at_start ?m ?t ?n (as_read True ys) v" "f_state v = ft_init \<or> f_state v = ft_start"
    unfolding pend runs_def append_Nil by (metis ft_vars.simps(1))
  have c: "c \<noteq> 0x2e" "c \<noteq> 0x40" "c \<noteq> 0x5c" using high(1) by (auto simp: word_le_nat_alt)
  have nr: "f_nrem v \<ge> 2" "\<not> f_done v" using v(2) room by (auto simp: at_start_def)
  have "ft_char True c (v\<lparr>f_label := f_ndata v, f_ndata := f_ndata v + 1, f_nrem := f_nrem v - 1,
      f_nused := f_nused v + 1, f_count := 0, f_state := ft_ordinary\<rparr>) = None"
    using high(1) by (simp add: ft_char_def lower_char_def word_less_nat_alt word_le_nat_alt)
  then have "ft_step True (rest = []) c v = None"
    using v(3) c nr(1) by (auto simp: ft_step_def init_case_def start_case_def ordinary_case_def)
  then have "ft_loop True (buf_pending source) (ft_start_vars b) = None" unfolding v(1) using nr by simp
  then show ?thesis
    using high(2) name b buf_wf_valid [OF src] pending_read [OF src] unat_availablelength [OF b(2)]
    by (simp add: dns_name_fromtext_def Let_def)
qed

section \<open>Properties\<close>

text \<open>C15: The text of a name is read back. When \<open>dns_name_totext\<close> writes the text of a name, and \<open>dns_name_fromtext\<close>
  reads that text into a name with enough room, then all of the text is consumed and the name read has the labels of
  the first one, in lower case when \<open>DNS_NAME_DOWNCASE\<close> is given. This holds for every byte a label can have. A name
  written without its final dot, or a relative one, is completed with the labels of the origin; with the root as origin
  an absolute name is read back.
\<close>

theorem name_text_roundtrip:
  assumes "name_repr name ls" and "buf_wf text"
    and "dns_name_totext ISC_R_SUCCESS None name omit text = Some (ISC_R_SUCCESS, text')"
    and "buf_wf source" and "buf_used_bytes text' = buf_used_bytes text @ buf_pending source"
    and "VALID_NAME out" and "BINDABLE out" and "open_target out target = Some b" and "buf_wf b"
    and "repr_opt origin ys" and "options AND DNS_NAME_DOWNCASE \<noteq> 0 \<longrightarrow> ascii_labels ys"
    and "length (wire (read_back omit ls ys)) + (if ends_root (read_back omit ls ys) then 0 else 1) \<le> min (buf_room b) 255"
  shows "parsed (dns_name_fromtext out source origin options target) source (length (buf_pending source)) target b
    (as_read (options AND DNS_NAME_DOWNCASE \<noteq> 0) (read_back omit ls ys))"
proof -
  have "buf_pending source = name_text (master_options omit) ls"
    using totext2_ok [OF assms(1,2), of "master_options omit"] assms(3,5) unfolding dns_name_totext_def
    by (auto split: if_splits)
  then show ?thesis
    by (rule text_read_back [OF name_reprD(2) [OF assms(1)] _ assms(6-9,4,10,11) refl assms(12)])
qed

abbreviation example_text :: isc_buffer where
  "example_text \<equiv> (isc__buffer_init [0x5c, 0x2e, 0x2e, 0] 4)\<lparr>b_used := 3\<rparr>"

lemma fixedname_ready:
  assumes "length data = 255"
  shows "VALID_NAME (dns_fixedname data)" "BINDABLE (dns_fixedname data)"
    "open_target (dns_fixedname data) None = Some (isc__buffer_init data 255)" "buf_wf (isc__buffer_init data 255)"
    "buf_room (isc__buffer_init data 255) = 255"
  using assms by (simp_all add: dns_fixedname_def dns_name_init_def DNS_NAME_INIT_def VALID_NAME_def BINDABLE_def open_target_def
      isc__buffer_clear_def isc__buffer_init_def ISC__BUFFER_INIT_def ISC_BUFFER_VALID_def buf_wf_def buf_room_def
      DNS_NAME_MAXWIRE_def)

theorem name_text_roundtrip_witness:
  "parsed (dns_name_fromtext (dns_fixedname (replicate 255 0)) example_text None 0 None) example_text 3 None
     (isc__buffer_init (replicate 255 0) 255) [[0x2e], []]"
proof -
  have "dns_name_totext ISC_R_SUCCESS None example_name False (isc__buffer_init [0, 0, 0, 0] 4) =
      Some (ISC_R_SUCCESS, example_text)"
    by code_simp
  moreover have "buf_wf example_text" "buf_wf (isc__buffer_init [0, 0, 0, 0] 4)" "buf_pending example_text = [0x5c, 0x2e, 0x2e]"
    "buf_used_bytes example_text = buf_used_bytes (isc__buffer_init [0, 0, 0, 0] 4) @ buf_pending example_text"
    by code_simp+
  ultimately have "parsed (dns_name_fromtext (dns_fixedname (replicate 255 0)) example_text None 0 None) example_text
      (length (buf_pending example_text)) None (isc__buffer_init (replicate 255 0) 255)
      (as_read (0 AND DNS_NAME_DOWNCASE \<noteq> 0) (read_back False [[0x2e], []] []))"
    by (intro name_text_roundtrip [OF example_names(1), of "isc__buffer_init [0, 0, 0, 0] 4" False example_text])
      (simp_all add: fixedname_ready repr_opt_def read_back_def ends_root_def)
  then show ?thesis using \<open>buf_pending example_text = _\<close> by (simp add: as_read_def read_back_def ends_root_def numeral_3_eq_3)
qed

text \<open>C16: Every text gives a name or an error. Whatever the text is, \<open>dns_name_fromtext\<close> returns: either it has read a name
  whose labels are well formed from a part of the text and has appended exactly the wire form to the target, or the name
  is empty, the text is not consumed, the bytes in use of the target are unchanged, and the error is one of six. With
  \<open>DNS_NAME_DOWNCASE\<close> the text and the origin have to be ASCII.
\<close>

theorem fromtext_every_text:
  assumes "VALID_NAME name" and "BINDABLE name" and "open_target name target = Some b" and "buf_wf b"
    and "buf_wf source" and "repr_opt origin ys"
    and "options AND DNS_NAME_DOWNCASE \<noteq> 0 \<longrightarrow> (\<forall>c \<in> set (buf_pending source). c < 128) \<and> ascii_labels ys"
  shows "(\<exists>n ls. parsed (dns_name_fromtext name source origin options target) source n target b ls \<and>
      n \<le> length (buf_pending source)) \<or>
    (\<exists>e \<in> text_errors. refused (dns_name_fromtext name source origin options target) e source target b)"
  by (rule fromtext_total [OF assms])

theorem fromtext_every_text_witness:
  "(\<exists>n ls. parsed (dns_name_fromtext (dns_fixedname (replicate 255 0)) example_text None 0 None) example_text n None
        (isc__buffer_init (replicate 255 0) 255) ls \<and> n \<le> 3) \<or>
    (\<exists>e \<in> text_errors. refused (dns_name_fromtext (dns_fixedname (replicate 255 0)) example_text None 0 None) e example_text
        None (isc__buffer_init (replicate 255 0) 255))"
proof -
  have p: "buf_wf example_text" "length (buf_pending example_text) = 3" by code_simp+
  show ?thesis
    using fromtext_every_text [of "dns_fixedname (replicate 255 0)" None "isc__buffer_init (replicate 255 0) 255" example_text None "[]" 0]
      fixedname_ready [of "replicate 255 0"] p by (simp add: repr_opt_def)
qed

text \<open>Lower case needs ASCII. The characters of the text are of type \<open>char\<close>, and with \<open>DNS_NAME_DOWNCASE\<close> a character
  indexes the table \<open>maptolower\<close>. A byte above 127 at the start of a label is read from before the table.
\<close>

theorem fromtext_downcase_high_byte:
  assumes "VALID_NAME name" and "BINDABLE name" and "open_target name target = Some b" and "buf_wf b" and "buf_wf source"
    and "\<forall>l \<in> set ys. label_good l" and "buf_pending source = dotted opt ys @ c # rest"
    and "c \<ge> 128" and "options AND DNS_NAME_DOWNCASE \<noteq> 0" and "length (wire ys) + 2 \<le> min (buf_room b) 255"
  shows "dns_name_fromtext name source origin options target = None"
  by (rule downcase_high_byte [OF assms])

abbreviation latin_text :: isc_buffer where
  "latin_text \<equiv> (isc__buffer_init [0xe4] 1)\<lparr>b_used := 1\<rparr>"

theorem fromtext_downcase_high_byte_witness:
  "dns_name_fromtext (dns_fixedname (replicate 255 0)) latin_text None DNS_NAME_DOWNCASE None = None"
proof -
  have p: "buf_wf latin_text" "buf_pending latin_text = dotted 0 [] @ 0xe4 # []" by code_simp+
  show ?thesis
    by (rule fromtext_downcase_high_byte [OF fixedname_ready(1-4) p(1) _ p(2)])
      (simp_all add: fixedname_ready(5) DNS_NAME_DOWNCASE_def word_le_nat_alt)
qed

end
