(* ===== verification/Dns_Rbt.thy ===== *)
theory Dns_Rbt
  imports Prelude
begin

text \<open>
  One level of the red-black tree of trees of \<open>lib/dns/rbt.c\<close>: rotations, insertion and deletion. The lemmas are on
  rotations and insertion; deletion is in \<open>Dns_Rbt_Delete\<close>.

  The nodes are kept in a store under their addresses; \<open>NULL\<close> is \<open>None\<close>. Reading or writing a node through \<open>NULL\<close> or
  at an address that is not in the store is \<open>None\<close>. The cell \<open>*rootp\<close>, which is the root of the whole tree or the
  \<open>down\<close> field of a node of another level, is passed and returned; the functions read no \<open>down\<close> field.
\<close>

section \<open>Nodes\<close>

datatype node_color = RED | BLACK

text \<open>The fields of \<open>struct dns_rbtnode\<close> that the functions on one level use; the others extend the record.\<close>

record rbtnode =
  parent :: "nat option"
  left :: "nat option"
  right :: "nat option"
  is_root :: bool
  color :: node_color

type_synonym 'a nodes = "nat \<Rightarrow> 'a rbtnode_scheme option"

definition node_get :: "'a nodes \<Rightarrow> nat option \<Rightarrow> 'a rbtnode_scheme option" where
  "node_get s p = Option.bind p s"

definition node_set :: "'a nodes \<Rightarrow> nat option \<Rightarrow> ('a rbtnode_scheme \<Rightarrow> 'a rbtnode_scheme) \<Rightarrow> 'a nodes option" where
  "node_set s p f = do { a \<leftarrow> p; n \<leftarrow> s a; Some (s(a \<mapsto> f n)) }"

definition IS_RED :: "'a nodes \<Rightarrow> nat option \<Rightarrow> bool option" where
  "IS_RED s p = (if p = None then Some False else do { n \<leftarrow> node_get s p; Some (color n = RED) })"

definition IS_BLACK :: "'a nodes \<Rightarrow> nat option \<Rightarrow> bool option" where
  "IS_BLACK s p = (if p = None then Some True else do { n \<leftarrow> node_get s p; Some (color n = BLACK) })"

definition MAKE_RED :: "'a nodes \<Rightarrow> nat option \<Rightarrow> 'a nodes option" where
  "MAKE_RED s p = node_set s p (\<lambda>n. n\<lparr>color := RED\<rparr>)"

definition MAKE_BLACK :: "'a nodes \<Rightarrow> nat option \<Rightarrow> 'a nodes option" where
  "MAKE_BLACK s p = node_set s p (\<lambda>n. n\<lparr>color := BLACK\<rparr>)"

section \<open>Rotations\<close>

definition rotate_left :: "'a nodes \<Rightarrow> nat option \<Rightarrow> nat option \<Rightarrow> ('a nodes \<times> nat option) option" where
  "rotate_left s node root = do {
     n \<leftarrow> node_get s node;
     let child = right n in do {
     REQUIRE (child \<noteq> None);
     c \<leftarrow> node_get s child;
     s \<leftarrow> node_set s node (\<lambda>n. n\<lparr>right := left c\<rparr>);
     s \<leftarrow> (if left c \<noteq> None then node_set s (left c) (\<lambda>l. l\<lparr>parent := node\<rparr>) else Some s);
     s \<leftarrow> node_set s child (\<lambda>c. c\<lparr>left := node\<rparr>);
     n \<leftarrow> node_get s node;
     s \<leftarrow> node_set s child (\<lambda>c. c\<lparr>parent := parent n\<rparr>);
     n \<leftarrow> node_get s node;
     (s, root) \<leftarrow>
       (if is_root n then do {
          s \<leftarrow> node_set s child (\<lambda>c. c\<lparr>is_root := True\<rparr>);
          s \<leftarrow> node_set s node (\<lambda>n. n\<lparr>is_root := False\<rparr>);
          Some (s, child) }
        else do {
          p \<leftarrow> node_get s (parent n);
          s \<leftarrow> (if left p = node then node_set s (parent n) (\<lambda>p. p\<lparr>left := child\<rparr>)
                else node_set s (parent n) (\<lambda>p. p\<lparr>right := child\<rparr>));
          Some (s, root) });
     s \<leftarrow> node_set s node (\<lambda>n. n\<lparr>parent := child\<rparr>);
     Some (s, root) } }"

definition rotate_right :: "'a nodes \<Rightarrow> nat option \<Rightarrow> nat option \<Rightarrow> ('a nodes \<times> nat option) option" where
  "rotate_right s node root = do {
     n \<leftarrow> node_get s node;
     let child = left n in do {
     REQUIRE (child \<noteq> None);
     c \<leftarrow> node_get s child;
     s \<leftarrow> node_set s node (\<lambda>n. n\<lparr>left := right c\<rparr>);
     s \<leftarrow> (if right c \<noteq> None then node_set s (right c) (\<lambda>l. l\<lparr>parent := node\<rparr>) else Some s);
     s \<leftarrow> node_set s child (\<lambda>c. c\<lparr>right := node\<rparr>);
     n \<leftarrow> node_get s node;
     s \<leftarrow> node_set s child (\<lambda>c. c\<lparr>parent := parent n\<rparr>);
     n \<leftarrow> node_get s node;
     (s, root) \<leftarrow>
       (if is_root n then do {
          s \<leftarrow> node_set s child (\<lambda>c. c\<lparr>is_root := True\<rparr>);
          s \<leftarrow> node_set s node (\<lambda>n. n\<lparr>is_root := False\<rparr>);
          Some (s, child) }
        else do {
          p \<leftarrow> node_get s (parent n);
          s \<leftarrow> (if left p = node then node_set s (parent n) (\<lambda>p. p\<lparr>left := child\<rparr>)
                else node_set s (parent n) (\<lambda>p. p\<lparr>right := child\<rparr>));
          Some (s, root) });
     s \<leftarrow> node_set s node (\<lambda>n. n\<lparr>parent := child\<rparr>);
     Some (s, root) } }"

text \<open>The branches of the fix-up loops come in pairs that are mirror images. \<open>L\<close> stands for the branch written with
  \<open>LEFT\<close>, where \<open>near L\<close> is the left link, \<open>far L\<close> the right one and \<open>rotate_side L\<close> a rotation to the left.\<close>

datatype side = L | R

definition near :: "side \<Rightarrow> 'a rbtnode_scheme \<Rightarrow> nat option" where
  "near d n = (case d of L \<Rightarrow> left n | R \<Rightarrow> right n)"

definition opposite :: "side \<Rightarrow> side" where
  "opposite d = (case d of L \<Rightarrow> R | R \<Rightarrow> L)"

definition far :: "side \<Rightarrow> 'a rbtnode_scheme \<Rightarrow> nat option" where
  "far d n = near (opposite d) n"

definition set_near :: "side \<Rightarrow> nat option \<Rightarrow> 'a rbtnode_scheme \<Rightarrow> 'a rbtnode_scheme" where
  "set_near d p n = (case d of L \<Rightarrow> n\<lparr>left := p\<rparr> | R \<Rightarrow> n\<lparr>right := p\<rparr>)"

definition rotate_side :: "side \<Rightarrow> 'a nodes \<Rightarrow> nat option \<Rightarrow> nat option \<Rightarrow> ('a nodes \<times> nat option) option" where
  "rotate_side d = (case d of L \<Rightarrow> rotate_left | R \<Rightarrow> rotate_right)"

section \<open>Insertion\<close>

text \<open>A pass of the loop of \<open>dns_rbt_addonlevel\<close> in the branch for a parent that is the child on side \<open>d\<close>.\<close>

definition add_side ::
    "side \<Rightarrow> 'a nodes \<Rightarrow> nat option \<Rightarrow> nat option \<Rightarrow> nat option \<Rightarrow> nat option \<Rightarrow>
     ('a nodes \<times> nat option \<times> nat option) option" where
  "add_side d s node par grandparent root = do {
     g \<leftarrow> node_get s grandparent;
     let child = far d g in do {
     red \<leftarrow> IS_RED s child;
     if red then do {
       s \<leftarrow> MAKE_BLACK s par;
       s \<leftarrow> MAKE_BLACK s child;
       s \<leftarrow> MAKE_RED s grandparent;
       Some (s, grandparent, root) }
     else do {
       p \<leftarrow> node_get s par;
       (s, node, par, grandparent, root) \<leftarrow>
         (if node = far d p then do {
            (s, root) \<leftarrow> rotate_side d s par root;
            let node = par in do {
            n \<leftarrow> node_get s node;
            let par = parent n in do {
            p \<leftarrow> node_get s par;
            Some (s, node, par, parent p, root) } } }
          else Some (s, node, par, grandparent, root));
       s \<leftarrow> MAKE_BLACK s par;
       s \<leftarrow> MAKE_RED s grandparent;
       (s, root) \<leftarrow> rotate_side (opposite d) s grandparent root;
       Some (s, node, root) } } }"

partial_function (option) level_add_loop ::
    "'a nodes \<Rightarrow> nat option \<Rightarrow> nat option \<Rightarrow> ('a nodes \<times> nat option) option" where
  "level_add_loop s node root =
     (if node = root then Some (s, root)
      else do {
        n \<leftarrow> node_get s node;
        red \<leftarrow> IS_RED s (parent n);
        if \<not> red then Some (s, root)
        else do {
          let par = parent n in do {
          p \<leftarrow> node_get s par;
          let grandparent = parent p in do {
          g \<leftarrow> node_get s grandparent;
          (s, node, root) \<leftarrow> add_side (if par = left g then L else R) s node par grandparent root;
          level_add_loop s node root } } } })"

definition dns_rbt_addonlevel ::
    "'a nodes \<Rightarrow> nat option \<Rightarrow> nat option \<Rightarrow> int \<Rightarrow> nat option \<Rightarrow> ('a nodes \<times> nat option) option" where
  "dns_rbt_addonlevel s node current order rootp = do {
     n \<leftarrow> node_get s node;
     REQUIRE (left n = None \<and> right n = None);
     REQUIRE (current \<noteq> None);
     let root = rootp in
     if root = None then do {
       s \<leftarrow> MAKE_BLACK s node;
       s \<leftarrow> node_set s node (\<lambda>n. n\<lparr>is_root := True\<rparr>);
       s \<leftarrow> node_set s node (\<lambda>n. n\<lparr>parent := current\<rparr>);
       Some (s, node) }
     else do {
       c \<leftarrow> node_get s current;
       s \<leftarrow> (if order < 0 then do {
               REQUIRE (left c = None);
               node_set s current (\<lambda>c. c\<lparr>left := node\<rparr>) }
             else do {
               REQUIRE (right c = None);
               node_set s current (\<lambda>c. c\<lparr>right := node\<rparr>) });
       n \<leftarrow> node_get s node;
       REQUIRE (parent n = None);
       s \<leftarrow> node_set s node (\<lambda>n. n\<lparr>parent := current\<rparr>);
       s \<leftarrow> MAKE_RED s node;
       (s, root) \<leftarrow> level_add_loop s node root;
       s \<leftarrow> MAKE_BLACK s root;
       r \<leftarrow> node_get s root;
       REQUIRE (is_root r);
       Some (s, root) } }"

section \<open>Deletion\<close>

partial_function (option) leftmost :: "'a nodes \<Rightarrow> nat option \<Rightarrow> nat option option" where
  "leftmost s p = do {
     n \<leftarrow> node_get s p;
     if left n \<noteq> None then leftmost s (left n) else Some p }"

text \<open>The node \<open>delete\<close> with two children and its successor change places.\<close>

definition swap_successor ::
    "'a nodes \<Rightarrow> nat option \<Rightarrow> nat option \<Rightarrow> nat option \<Rightarrow> ('a nodes \<times> nat option) option" where
  "swap_successor s delete successor rootp = do {
     tmp \<leftarrow> node_get s successor;
     d \<leftarrow> node_get s delete;
     (s, rootp) \<leftarrow>
       (if is_root d then do {
          s \<leftarrow> node_set s successor (\<lambda>n. n\<lparr>is_root := True\<rparr>);
          s \<leftarrow> node_set s delete (\<lambda>n. n\<lparr>is_root := False\<rparr>);
          Some (s, successor) }
        else do {
          p \<leftarrow> node_get s (parent d);
          s \<leftarrow> (if left p = delete then node_set s (parent d) (\<lambda>p. p\<lparr>left := successor\<rparr>)
                else node_set s (parent d) (\<lambda>p. p\<lparr>right := successor\<rparr>));
          Some (s, rootp) });
     d \<leftarrow> node_get s delete;
     s \<leftarrow> node_set s successor (\<lambda>n. n\<lparr>parent := parent d\<rparr>);
     d \<leftarrow> node_get s delete;
     s \<leftarrow> node_set s successor (\<lambda>n. n\<lparr>left := left d\<rparr>);
     d \<leftarrow> node_get s delete;
     s \<leftarrow> node_set s successor (\<lambda>n. n\<lparr>right := right d\<rparr>);
     d \<leftarrow> node_get s delete;
     s \<leftarrow> node_set s successor (\<lambda>n. n\<lparr>color := color d\<rparr>);
     c \<leftarrow> node_get s successor;
     s \<leftarrow> (if left c \<noteq> None then node_set s (left c) (\<lambda>n. n\<lparr>parent := successor\<rparr>) else Some s);
     c \<leftarrow> node_get s successor;
     s \<leftarrow> (if right c \<noteq> successor then node_set s (right c) (\<lambda>n. n\<lparr>parent := successor\<rparr>) else Some s);
     d \<leftarrow> node_get s delete;
     REQUIRE (\<not> is_root d);
     s \<leftarrow> (if parent tmp = delete then do {
             s \<leftarrow> node_set s successor (\<lambda>n. n\<lparr>right := delete\<rparr>);
             node_set s delete (\<lambda>n. n\<lparr>parent := successor\<rparr>) }
           else do {
             s \<leftarrow> node_set s (parent tmp) (\<lambda>n. n\<lparr>left := delete\<rparr>);
             node_set s delete (\<lambda>n. n\<lparr>parent := parent tmp\<rparr>) });
     s \<leftarrow> node_set s delete (\<lambda>n. n\<lparr>left := None\<rparr>);
     s \<leftarrow> node_set s delete (\<lambda>n. n\<lparr>right := right tmp\<rparr>);
     s \<leftarrow> node_set s delete (\<lambda>n. n\<lparr>color := color tmp\<rparr>);
     Some (s, rootp) }"

text \<open>A pass of the loop that repairs the colours, for a child on side \<open>d\<close> of \<open>par\<close>: the treatment of a red sibling, and
  the rest of the pass, with the sibling that is then black.\<close>

definition red_sibling ::
    "side \<Rightarrow> 'a nodes \<Rightarrow> nat option \<Rightarrow> nat option \<Rightarrow> nat option \<Rightarrow> ('a nodes \<times> nat option \<times> nat option) option" where
  "red_sibling d s sibling par rootp = do {
     s \<leftarrow> MAKE_BLACK s sibling;
     s \<leftarrow> MAKE_RED s par;
     (s, rootp) \<leftarrow> rotate_side d s par rootp;
     p \<leftarrow> node_get s par;
     Some (s, far d p, rootp) }"

definition black_sibling ::
    "side \<Rightarrow> 'a nodes \<Rightarrow> nat option \<Rightarrow> nat option \<Rightarrow> nat option \<Rightarrow> ('a nodes \<times> nat option \<times> nat option) option" where
  "black_sibling d s sibling par rootp = do {
     REQUIRE (sibling \<noteq> None);
     b \<leftarrow> node_get s sibling;
     black_near \<leftarrow> IS_BLACK s (near d b);
     black_far \<leftarrow> IS_BLACK s (far d b);
     if black_near \<and> black_far then do {
       s \<leftarrow> MAKE_RED s sibling;
       Some (s, par, rootp) }
     else do {
       (s, sibling, rootp) \<leftarrow>
         (if black_far then do {
            s \<leftarrow> MAKE_BLACK s (near d b);
            s \<leftarrow> MAKE_RED s sibling;
            (s, rootp) \<leftarrow> rotate_side (opposite d) s sibling rootp;
            p \<leftarrow> node_get s par;
            Some (s, far d p, rootp) }
          else Some (s, sibling, rootp));
       p \<leftarrow> node_get s par;
       s \<leftarrow> node_set s sibling (\<lambda>n. n\<lparr>color := color p\<rparr>);
       s \<leftarrow> MAKE_BLACK s par;
       b \<leftarrow> node_get s sibling;
       REQUIRE (far d b \<noteq> None);
       s \<leftarrow> MAKE_BLACK s (far d b);
       (s, rootp) \<leftarrow> rotate_side d s par rootp;
       Some (s, rootp, rootp) } }"

definition delete_side ::
    "side \<Rightarrow> 'a nodes \<Rightarrow> nat option \<Rightarrow> nat option \<Rightarrow> ('a nodes \<times> nat option \<times> nat option) option" where
  "delete_side d s par rootp = do {
     p \<leftarrow> node_get s par;
     let sibling = far d p in do {
     red \<leftarrow> IS_RED s sibling;
     (s, sibling, rootp) \<leftarrow> (if red then red_sibling d s sibling par rootp else Some (s, sibling, rootp));
     black_sibling d s sibling par rootp } }"

partial_function (option) delete_loop ::
    "'a nodes \<Rightarrow> nat option \<Rightarrow> nat option \<Rightarrow> nat option \<Rightarrow> ('a nodes \<times> nat option \<times> nat option) option" where
  "delete_loop s child par rootp = do {
     black \<leftarrow> IS_BLACK s child;
     if child = rootp \<or> \<not> black then Some (s, child, rootp)
     else do {
       REQUIRE (child = None \<or> (case node_get s child of Some c \<Rightarrow> \<not> is_root c | None \<Rightarrow> False));
       p \<leftarrow> node_get s par;
       (s, child, rootp) \<leftarrow> delete_side (if left p = child then L else R) s par rootp;
       c \<leftarrow> node_get s child;
       delete_loop s child (parent c) rootp } }"

text \<open>The removal of the links to the node.\<close>

definition unlink :: "'a nodes \<Rightarrow> nat option \<Rightarrow> nat option \<Rightarrow> nat option \<Rightarrow> ('a nodes \<times> nat option) option" where
  "unlink s delete child rootp = do {
     d \<leftarrow> node_get s delete;
     if \<not> is_root d then do {
       p \<leftarrow> node_get s (parent d);
       s \<leftarrow> (if left p = delete then node_set s (parent d) (\<lambda>p. p\<lparr>left := child\<rparr>)
             else node_set s (parent d) (\<lambda>p. p\<lparr>right := child\<rparr>));
       s \<leftarrow> (if child \<noteq> None then node_set s child (\<lambda>c. c\<lparr>parent := parent d\<rparr>) else Some s);
       Some (s, rootp) }
     else do {
       s \<leftarrow> node_set s child (\<lambda>c. c\<lparr>is_root := True\<rparr>);
       s \<leftarrow> node_set s child (\<lambda>c. c\<lparr>parent := parent d\<rparr>);
       Some (s, child) } }"

definition dns_rbt_deletefromlevel :: "'a nodes \<Rightarrow> nat option \<Rightarrow> nat option \<Rightarrow> ('a nodes \<times> nat option) option" where
  "dns_rbt_deletefromlevel s delete rootp = do {
     d \<leftarrow> node_get s delete;
     (if is_root d then REQUIRE (rootp = delete)
      else do {
        p \<leftarrow> node_get s (parent d);
        REQUIRE (left p = delete \<or> right p = delete) });
     if left d = None \<and> right d = None \<and> is_root d then Some (s, None)
     else do {
       (s, child, rootp) \<leftarrow>
         (if left d = None then Some (s, right d, rootp)
          else if right d = None then Some (s, left d, rootp)
          else do {
            successor \<leftarrow> leftmost s (right d);
            c \<leftarrow> node_get s successor;
            (s, rootp) \<leftarrow> swap_successor s delete successor rootp;
            Some (s, right c, rootp) });
       (s, rootp) \<leftarrow> unlink s delete child rootp;
       d \<leftarrow> node_get s delete;
       if color d = BLACK then do {
         (s, child, rootp) \<leftarrow> delete_loop s child (parent d) rootp;
         red \<leftarrow> IS_RED s child;
         s \<leftarrow> (if red then MAKE_BLACK s child else Some s);
         Some (s, rootp) }
       else Some (s, rootp) } }"

section \<open>Levels as trees\<close>

text \<open>A level as a tree of addresses with colours. \<open>tree_at s f par p t\<close>: in the store the pointer \<open>p\<close> leads to the tree
  \<open>t\<close>, whose top has the parent \<open>par\<close> and the root flag \<open>f\<close>.\<close>

datatype rbt = Lf | Nd rbt nat node_color rbt

fun inorder :: "rbt \<Rightarrow> nat list" where
  "inorder Lf = []"
| "inorder (Nd l a c r) = inorder l @ a # inorder r"

fun ptr :: "rbt \<Rightarrow> nat option" where
  "ptr Lf = None"
| "ptr (Nd l a c r) = Some a"

fun tree_at :: "'a nodes \<Rightarrow> bool \<Rightarrow> nat option \<Rightarrow> nat option \<Rightarrow> rbt \<Rightarrow> bool" where
  "tree_at s f par p Lf = (p = None)"
| "tree_at s f par p (Nd l a c r) = (p = Some a \<and>
     (case s a of None \<Rightarrow> False
      | Some n \<Rightarrow> parent n = par \<and> is_root n = f \<and> color n = c \<and>
          tree_at s False (Some a) (left n) l \<and> tree_at s False (Some a) (right n) r))"

text \<open>\<open>join d t a c u\<close> has \<open>t\<close> on side \<open>d\<close>. A context is the path from a place in the tree to the top.\<close>

definition join :: "side \<Rightarrow> rbt \<Rightarrow> nat \<Rightarrow> node_color \<Rightarrow> rbt \<Rightarrow> rbt" where
  "join d t a c u = (case d of L \<Rightarrow> Nd t a c u | R \<Rightarrow> Nd u a c t)"

type_synonym rbt_frame = "side \<times> nat \<times> node_color \<times> rbt"

fun plug :: "rbt_frame list \<Rightarrow> rbt \<Rightarrow> rbt" where
  "plug [] t = t"
| "plug ((d, a, c, u) # k) t = plug k (join d t a c u)"

fun path_at :: "'a nodes \<Rightarrow> nat option \<Rightarrow> nat option \<Rightarrow> bool \<Rightarrow> rbt_frame list \<Rightarrow> nat option \<Rightarrow> nat option \<Rightarrow> bool \<Rightarrow> bool" where
  "path_at s up root g [] par p f = (p = root \<and> par = up \<and> f = g)"
| "path_at s up root g ((d, a, c, u) # k) par p f = (par = Some a \<and> \<not> f \<and>
     (case s a of None \<Rightarrow> False
      | Some n \<Rightarrow> color n = c \<and> near d n = p \<and> tree_at s False (Some a) (far d n) u \<and>
          path_at s up root g k (parent n) (Some a) (is_root n)))"

abbreviation ctx_at :: "'a nodes \<Rightarrow> nat option \<Rightarrow> nat option \<Rightarrow> rbt_frame list \<Rightarrow> nat option \<Rightarrow> nat option \<Rightarrow> bool \<Rightarrow> bool" where
  "ctx_at s up root \<equiv> path_at s up root True"

fun ctx_set :: "rbt_frame list \<Rightarrow> nat set" where
  "ctx_set [] = {}"
| "ctx_set ((d, a, c, u) # k) = insert a (set (inorder u) \<union> ctx_set k)"

lemma opposite_simps [simp]: "opposite L = R" "opposite R = L" "opposite (opposite d) = d" "opposite d \<noteq> d"
  by (cases d; simp add: opposite_def)+

lemma near_simps [simp]:
  "near L n = left n" "near R n = right n" "far L n = right n" "far R n = left n"
  "near (opposite d) n = far d n" "far (opposite d) n = near d n"
  by (cases d; simp add: near_def far_def)+

lemma near_update [simp]:
  "near d (n\<lparr>parent := p\<rparr>) = near d n" "near d (n\<lparr>is_root := f\<rparr>) = near d n" "near d (n\<lparr>color := c\<rparr>) = near d n"
  "far d (n\<lparr>parent := p\<rparr>) = far d n" "far d (n\<lparr>is_root := f\<rparr>) = far d n" "far d (n\<lparr>color := c\<rparr>) = far d n"
  "near d (set_near d q n) = q" "far d (set_near d q n) = far d n" "near d (set_near (opposite d) q n) = near d n"
  "far d (set_near (opposite d) q n) = q"
  "parent (set_near d q n) = parent n" "is_root (set_near d q n) = is_root n" "color (set_near d q n) = color n"
  "rbtnode.more (set_near d q n) = rbtnode.more n"
  by (cases d; simp add: near_def far_def set_near_def)+

lemma set_near_simps: "set_near L q n = n\<lparr>left := q\<rparr>" "set_near R q n = n\<lparr>right := q\<rparr>"
  by (simp_all add: set_near_def)

lemma join_simps [simp]:
  "set (inorder (join d t a c u)) = insert a (set (inorder t) \<union> set (inorder u))" "ptr (join d t a c u) = Some a"
  "distinct (inorder (join d t a c u)) \<longleftrightarrow> distinct (inorder t) \<and> distinct (inorder u) \<and> a \<notin> set (inorder t) \<and>
     a \<notin> set (inorder u) \<and> set (inorder t) \<inter> set (inorder u) = {}"
  by (cases d; auto simp: join_def)+

lemma tree_at_join [simp]:
  "tree_at s f par p (join d t a c u) \<longleftrightarrow> p = Some a \<and>
     (case s a of None \<Rightarrow> False
      | Some n \<Rightarrow> parent n = par \<and> is_root n = f \<and> color n = c \<and>
          tree_at s False (Some a) (near d n) t \<and> tree_at s False (Some a) (far d n) u)"
  by (cases d) (auto simp: join_def split: option.split)

lemma tree_at_ptr: "tree_at s f par p t \<Longrightarrow> p = ptr t"
  by (cases t) auto

lemma join_cases:
  obtains "t = Lf" | t' a c u where "t = join d t' a c u"
proof (cases t)
  case (Nd l a c r)
  then have "t = join d (case d of L \<Rightarrow> l | R \<Rightarrow> r) a c (case d of L \<Rightarrow> r | R \<Rightarrow> l)" by (cases d) (simp_all add: join_def)
  then show ?thesis using that by blast
qed simp

lemma tree_at_cong:
  assumes "\<forall>a \<in> set (inorder t). s' a = s a"
  shows "tree_at s' f par p t = tree_at s f par p t"
  using assms by (induction t arbitrary: f par p) (auto split: option.split)

lemma tree_at_plug:
  "tree_at s True up root (plug k t) \<longleftrightarrow> (\<exists>par p f. ctx_at s up root k par p f \<and> tree_at s f par p t)"
proof (induction k arbitrary: t)
  case (Cons x k)
  obtain d a c u where x: "x = (d, a, c, u)" by (cases x)
  show ?case unfolding x by (auto simp: Cons.IH split: option.splits)
qed auto

lemma set_plug [simp]: "set (inorder (plug k t)) = ctx_set k \<union> set (inorder t)"
  by (induction k t rule: plug.induct) auto

lemma ctx_at_cong:
  assumes "\<forall>a \<in> ctx_set k. s' a = s a"
  shows "path_at s' up root g k par p f = path_at s up root g k par p f"
  using assms
proof (induction k arbitrary: par p f)
  case (Cons x k)
  obtain d a c u where x: "x = (d, a, c, u)" by (cases x)
  then have "\<And>par p f. path_at s' up root g k par p f = path_at s up root g k par p f" using Cons by auto
  moreover have "\<And>f par p. tree_at s' f par p u = tree_at s f par p u" using Cons.prems x by (intro tree_at_cong) auto
  ultimately show ?case using Cons.prems by (auto simp: x split: option.split)
qed simp

lemma distinct_plug:
  "distinct (inorder (plug k t)) \<longleftrightarrow> distinct (inorder (plug k Lf)) \<and> distinct (inorder t) \<and> ctx_set k \<inter> set (inorder t) = {}"
proof (induction k arbitrary: t)
  case (Cons x k)
  obtain d a c u where x: "x = (d, a, c, u)" by (cases x)
  have "distinct (inorder (plug k (join d t a c u))) \<longleftrightarrow>
      distinct (inorder (plug k Lf)) \<and> distinct (inorder (join d t a c u)) \<and> ctx_set k \<inter> set (inorder (join d t a c u)) = {}"
    by (rule Cons)
  moreover have "distinct (inorder (plug k (join d Lf a c u))) \<longleftrightarrow>
      distinct (inorder (plug k Lf)) \<and> distinct (inorder (join d Lf a c u)) \<and> ctx_set k \<inter> set (inorder (join d Lf a c u)) = {}"
    by (rule Cons)
  ultimately show ?case unfolding x by auto
qed simp

text \<open>The hole of a context is filled with another tree.\<close>

lemma ctx_relink:
  assumes "ctx_at s up root ((d, a, c, u) # k) par p f" and "distinct (inorder (plug ((d, a, c, u) # k) Lf))"
    and "s a = Some n"
  shows "ctx_at (s(a \<mapsto> set_near d q n)) up root ((d, a, c, u) # k) par q f"
proof -
  have dis: "a \<notin> set (inorder u)" "a \<notin> ctx_set k"
    using assms(2) distinct_plug [of k "join d Lf a c u"] by auto
  then have "tree_at (s(a \<mapsto> set_near d q n)) f par p u = tree_at s f par p u"
    "ctx_at (s(a \<mapsto> set_near d q n)) up root k par p f = ctx_at s up root k par p f" for f par p
    by (auto intro!: tree_at_cong ctx_at_cong)
  then show ?thesis using assms(1,3) by simp
qed

lemma tree_at_reparent:
  assumes "tree_at s f par p t" and "distinct (inorder t)" and "p = Some a" and "s a = Some n"
  shows "tree_at (s(a \<mapsto> n\<lparr>parent := par', is_root := f'\<rparr>)) f' par' p t"
proof (cases t)
  case (Nd l b c r)
  then have b: "b = a" "a \<notin> set (inorder l)" "a \<notin> set (inorder r)" using assms by auto
  then have "tree_at (s(a \<mapsto> n\<lparr>parent := par', is_root := f'\<rparr>)) f q p l = tree_at s f q p l"
    "tree_at (s(a \<mapsto> n\<lparr>parent := par', is_root := f'\<rparr>)) f q p r = tree_at s f q p r" for f q p
    by (auto intro!: tree_at_cong)
  then show ?thesis using assms Nd b(1) by simp
qed (use assms in simp)

text \<open>What is read at a node.\<close>

lemma ctx_root:
  assumes "ctx_at s up root k par p f"
  shows "(k = [] \<and> root = p \<and> par = up \<and> f) \<or> (k \<noteq> [] \<and> root \<noteq> None \<and> the root \<in> ctx_set k \<and> \<not> f \<and> par = Some (fst (snd (hd k))))"
  using assms
proof (induction k arbitrary: par p f)
  case (Cons x k)
  obtain d a c u where x: "x = (d, a, c, u)" by (cases x)
  then obtain n where "s a = Some n" "ctx_at s up root k (parent n) (Some a) (is_root n)"
    using Cons.prems by (auto split: option.splits)
  from Cons.IH [OF this(2)] show ?case using Cons.prems by (auto simp: x)
qed simp

lemma node_at:
  assumes "tree_at s True up root (plug k (join d t a c u))" and "distinct (inorder (plug k (join d t a c u)))"
  obtains n where "s a = Some n" and "color n = c" and "near d n = ptr t" and "far d n = ptr u"
    and "is_root n \<longleftrightarrow> k = []" and "parent n = (if k = [] then up else Some (fst (snd (hd k))))"
    and "root = Some a \<longleftrightarrow> k = []"
proof -
  obtain par p f where "ctx_at s up root k par p f" "tree_at s f par p (join d t a c u)"
    using assms(1) by (auto simp: tree_at_plug)
  then obtain n where n: "s a = Some n" "parent n = par" "is_root n = f" "color n = c" "near d n = ptr t" "far d n = ptr u"
    "p = Some a" "ctx_at s up root k par p f"
    by (auto dest: tree_at_ptr split: option.splits)
  have "a \<notin> ctx_set k" using assms(2) distinct_plug [of k "join d t a c u"] by auto
  then have "root = Some a \<longleftrightarrow> k = []" using ctx_root [OF n(8)] n(7) by auto
  then show ?thesis using that [OF n(1,4-6)] ctx_root [OF n(8)] n(2,3) by auto
qed


section \<open>The operations on trees\<close>

text \<open>Nodes outside of the tree are not touched, and no field of another part of the program changes.\<close>

definition evolves :: "rbt \<Rightarrow> 'a nodes \<Rightarrow> 'a nodes \<Rightarrow> bool" where
  "evolves t s s' \<longleftrightarrow> (\<forall>z. z \<notin> set (inorder t) \<longrightarrow> s' z = s z) \<and>
     (\<forall>z. map_option rbtnode.more (s' z) = map_option rbtnode.more (s z))"

definition level :: "'a nodes \<Rightarrow> nat option \<Rightarrow> nat option \<Rightarrow> rbt \<Rightarrow> bool" where
  "level s up root t \<longleftrightarrow> tree_at s True up root t \<and> distinct (inorder t)"

lemma evolves_trans:
  "evolves t s s' \<Longrightarrow> evolves t' s' s'' \<Longrightarrow> set (inorder t') = set (inorder t) \<Longrightarrow> evolves t s s''"
  by (simp add: evolves_def)

lemma node_set_Some [simp]: "s a = Some n \<Longrightarrow> node_set s (Some a) f = Some (s(a \<mapsto> f n))"
  by (simp add: node_set_def)

lemma node_get_Some [simp]: "node_get s (Some a) = s a"
  by (simp add: node_get_def)

lemma rotate_mirror:
  "rotate_side d s node root = do {
     n \<leftarrow> node_get s node;
     let child = far d n in do {
     REQUIRE (child \<noteq> None);
     c \<leftarrow> node_get s child;
     s \<leftarrow> node_set s node (set_near (opposite d) (near d c));
     s \<leftarrow> (if near d c \<noteq> None then node_set s (near d c) (\<lambda>l. l\<lparr>parent := node\<rparr>) else Some s);
     s \<leftarrow> node_set s child (set_near d node);
     n \<leftarrow> node_get s node;
     s \<leftarrow> node_set s child (\<lambda>c. c\<lparr>parent := parent n\<rparr>);
     n \<leftarrow> node_get s node;
     (s, root) \<leftarrow>
       (if is_root n then do {
          s \<leftarrow> node_set s child (\<lambda>c. c\<lparr>is_root := True\<rparr>);
          s \<leftarrow> node_set s node (\<lambda>n. n\<lparr>is_root := False\<rparr>);
          Some (s, child) }
        else do {
          p \<leftarrow> node_get s (parent n);
          s \<leftarrow> node_set s (parent n) (set_near (if left p = node then L else R) child);
          Some (s, root) });
     s \<leftarrow> node_set s node (\<lambda>n. n\<lparr>parent := child\<rparr>);
     Some (s, root) } }"
proof -
  have f: "set_near L q = (\<lambda>n. n\<lparr>left := q\<rparr>)" "set_near R q = (\<lambda>n. n\<lparr>right := q\<rparr>)" for q
    by (simp_all add: set_near_simps fun_eq_iff)
  have i: "node_set s q (set_near (if b then L else R) child) =
      (if b then node_set s q (\<lambda>p. p\<lparr>left := child\<rparr>) else node_set s q (\<lambda>p. p\<lparr>right := child\<rparr>))" for s b q child
    by (simp add: f)
  show ?thesis
    unfolding i by (cases d) (simp_all add: rotate_side_def rotate_left_def rotate_right_def f cong: if_cong)
qed

lemma rotate_effect:
  assumes x: "s x = Some n" and y: "far d n = Some y" "s y = Some c" "x \<noteq> y"
    and b: "\<And>b. near d c = Some b \<Longrightarrow> b \<noteq> x \<and> b \<noteq> y \<and> s b \<noteq> None"
    and p: "\<not> is_root n \<Longrightarrow> parent n = Some p \<and> s p = Some pn \<and> p \<noteq> x \<and> p \<noteq> y \<and> near d c \<noteq> Some p"
  defines "s1 \<equiv> s(x \<mapsto> (set_near (opposite d) (near d c) n)\<lparr>parent := Some y, is_root := False\<rparr>,
      y \<mapsto> (set_near d (Some x) c)\<lparr>parent := parent n, is_root := (is_root n \<or> is_root c)\<rparr>)"
  defines "s2 \<equiv> (case near d c of None \<Rightarrow> s1 | Some b \<Rightarrow> s1(b \<mapsto> (the (s b))\<lparr>parent := Some x\<rparr>))"
  shows "rotate_side d s (Some x) root =
    Some (if is_root n then s2 else s2(p \<mapsto> set_near (if left pn = Some x then L else R) (Some y) pn),
          if is_root n then Some y else root)"
proof (cases "near d c")
  case None
  show ?thesis
  proof (cases "is_root n")
    case True
    then show ?thesis using x y None
      by (simp add: rotate_mirror Let_def s2_def s1_def fun_eq_iff)
  next
    case False
    then show ?thesis using x y None p
      by (auto simp: rotate_mirror Let_def s2_def s1_def fun_eq_iff)
  qed
next
  case (Some b')
  then obtain bn where bn: "s b' = Some bn" "b' \<noteq> x" "b' \<noteq> y" using b by auto
  show ?thesis
  proof (cases "is_root n")
    case True
    then show ?thesis using x y Some bn
      by (simp add: rotate_mirror Let_def s2_def s1_def fun_eq_iff)
  next
    case False
    then show ?thesis using x y Some bn p
      by (auto simp: rotate_mirror Let_def s2_def s1_def fun_eq_iff)
  qed
qed

lemma tree_at_node:
  assumes "tree_at s f par p (join d t a c u)"
  obtains n where "p = Some a" and "s a = Some n" and "parent n = par" and "is_root n = f" and "color n = c"
    and "near d n = ptr t" and "far d n = ptr u" and "tree_at s False (Some a) (ptr t) t" and "tree_at s False (Some a) (ptr u) u"
proof -
  obtain n where n: "p = Some a" "s a = Some n" "parent n = par" "is_root n = f" "color n = c"
    "tree_at s False (Some a) (near d n) t" "tree_at s False (Some a) (far d n) u" using assms by (auto split: option.splits)
  then show ?thesis using that tree_at_ptr [OF n(6)] tree_at_ptr [OF n(7)] by auto
qed

lemma level_parts:
  assumes "level s up root (plug k t)"
  obtains par p f where "ctx_at s up root k par p f" and "tree_at s f par p t" and "distinct (inorder (plug k Lf))"
    and "distinct (inorder t)" and "ctx_set k \<inter> set (inorder t) = {}"
  using assms distinct_plug [of k t] by (auto simp: level_def tree_at_plug)

lemma levelI:
  assumes "ctx_at s up root k par p f" and "tree_at s f par p t" and "distinct (inorder (plug k Lf))"
    and "distinct (inorder t)" and "ctx_set k \<inter> set (inorder t) = {}"
  shows "level s up root (plug k t)"
  using assms distinct_plug [of k t] by (auto simp: level_def tree_at_plug)

lemma tree_at_new_parent:
  assumes "tree_at s f par (ptr t) t" and "distinct (inorder t)"
    and "\<forall>z \<in> set (inorder t). s' z = (if Some z = ptr t then map_option (\<lambda>n. n\<lparr>parent := par'\<rparr>) (s z) else s z)"
  shows "tree_at s' f par' (ptr t) t"
proof (cases t)
  case (Nd l a c r)
  then obtain n where n: "s a = Some n" "is_root n = f" using assms(1) by (auto split: option.splits)
  have "tree_at (s(a \<mapsto> n\<lparr>parent := par', is_root := f\<rparr>)) f par' (ptr t) t"
    by (rule tree_at_reparent [OF assms(1,2)]) (use Nd n in simp_all)
  moreover have "n\<lparr>parent := par', is_root := f\<rparr> = n\<lparr>parent := par'\<rparr>" using n(2) by (cases n) simp
  moreover have "tree_at s' f par' (ptr t) t = tree_at (s(a \<mapsto> n\<lparr>parent := par'\<rparr>)) f par' (ptr t) t"
    by (rule tree_at_cong) (use assms(3) Nd n in auto)
  ultimately show ?thesis by simp
qed simp

lemma ctx_fill:
  assumes "ctx_at s up root k par p f" and "distinct (inorder (plug k Lf))"
    and "\<forall>z \<in> ctx_set k. s' z = (if k \<noteq> [] \<and> z = fst (snd (hd k)) then map_option (set_near (fst (hd k)) q) (s z) else s z)"
  shows "ctx_at s' up (if k = [] then q else root) k par q f"
proof (cases k)
  case (Cons x k')
  obtain d a c u where x: "x = (d, a, c, u)" by (cases x)
  obtain n where n: "s a = Some n" using assms(1) Cons x by (auto split: option.splits)
  have "ctx_at (s(a \<mapsto> set_near d q n)) up root k par q f"
    using ctx_relink [of s up root d a c u k' par p f n q] assms(1,2) Cons x n by simp
  moreover have "ctx_at s' up root k par q f = ctx_at (s(a \<mapsto> set_near d q n)) up root k par q f"
    by (rule ctx_at_cong) (use assms(3) Cons x n in auto)
  ultimately show ?thesis using Cons by simp
qed (use assms in simp)

lemma rotate_tree:
  assumes lev: "level s up root (plug k (join d A x c (join d B y e E)))"
  shows "\<exists>s' root'. rotate_side d s (Some x) root = Some (s', root') \<and>
    level s' up root' (plug k (join d (join d A x c B) y e E)) \<and>
    evolves (plug k (join d A x c (join d B y e E))) s s'"
proof -
  obtain par p f where z: "ctx_at s up root k par p f" "tree_at s f par p (join d A x c (join d B y e E))"
    "distinct (inorder (plug k Lf))" "distinct (inorder (join d A x c (join d B y e E)))"
    "ctx_set k \<inter> set (inorder (join d A x c (join d B y e E))) = {}"
    using level_parts [OF lev] .
  obtain n where n: "s x = Some n" "parent n = par" "is_root n = f" "color n = c" "p = Some x" "near d n = ptr A" "far d n = Some y"
    "tree_at s False (Some x) (ptr A) A" and Y: "tree_at s False (Some x) (Some y) (join d B y e E)"
    using tree_at_node [OF z(2)] by (metis join_simps(2))
  obtain cn where cn: "s y = Some cn" "parent cn = Some x" "is_root cn = False" "color cn = e" "near d cn = ptr B" "far d cn = ptr E"
    "tree_at s False (Some y) (ptr B) B" "tree_at s False (Some y) (ptr E) E"
    using tree_at_node [OF Y] by metis
  have B: "b \<in> set (inorder B)" "s b \<noteq> None" if "ptr B = Some b" for b
    using that cn(7) by (cases B; auto split: option.splits)+
  define par_node where "par_node = (if k = [] then undefined else fst (snd (hd k)))"
  have pn: "par = Some par_node" "par_node \<in> ctx_set k" "s par_node \<noteq> None" "near (fst (hd k)) (the (s par_node)) = Some x"
      "(if left (the (s par_node)) = Some x then L else R) = fst (hd k)" if k: "k \<noteq> []"
  proof -
    obtain d' a' c' u' k' where k': "k = (d', a', c', u') # k'" using k by (cases k) auto
    then obtain m where m: "s a' = Some m" "near d' m = Some x" "far d' m = ptr u'" using z(1) n(5) tree_at_ptr by (fastforce split: option.splits)
    have "x \<notin> set (inorder u')" using z(5) k' by auto
    then have "far d' m \<noteq> Some x" using m(3) by (cases u') auto
    then show "par = Some par_node" "par_node \<in> ctx_set k" "s par_node \<noteq> None" "near (fst (hd k)) (the (s par_node)) = Some x"
      "(if left (the (s par_node)) = Some x then L else R) = fst (hd k)"
      using z(1) k' m by (cases d'; simp add: par_node_def)+
  qed
  have f: "f \<longleftrightarrow> k = []" using ctx_root [OF z(1)] by auto
  have dis: "x \<noteq> y" "x \<notin> set (inorder B)" "y \<notin> set (inorder B)" "x \<notin> ctx_set k" "y \<notin> ctx_set k" "ctx_set k \<inter> set (inorder B) = {}"
    "ctx_set k \<inter> set (inorder A) = {}" "ctx_set k \<inter> set (inorder E) = {}" "x \<notin> set (inorder A)" "y \<notin> set (inorder A)"
    "x \<notin> set (inorder E)" "y \<notin> set (inorder E)" "set (inorder A) \<inter> set (inorder B) = {}" "set (inorder E) \<inter> set (inorder B) = {}"
    "distinct (inorder A)" "distinct (inorder B)" "distinct (inorder E)" "set (inorder A) \<inter> set (inorder E) = {}"
    using z(4,5) by auto
  define s1 where "s1 = s(x \<mapsto> (set_near (opposite d) (near d cn) n)\<lparr>parent := Some y, is_root := False\<rparr>,
      y \<mapsto> (set_near d (Some x) cn)\<lparr>parent := parent n, is_root := (is_root n \<or> is_root cn)\<rparr>)"
  define s2 where "s2 = (case near d cn of None \<Rightarrow> s1 | Some b \<Rightarrow> s1(b \<mapsto> (the (s b))\<lparr>parent := Some x\<rparr>))"
  define s3 where "s3 = (if is_root n then s2
      else s2(par_node \<mapsto> set_near (if left (the (s par_node)) = Some x then L else R) (Some y) (the (s par_node))))"
  have rot: "rotate_side d s (Some x) root = Some (s3, if is_root n then Some y else root)"
    unfolding s3_def s2_def s1_def
    by (rule rotate_effect [OF n(1,7) cn(1) dis(1)]) (use B cn(5) dis n(2,3) f pn in auto)
  have at: "s3 w = (if w = x then Some ((set_near (opposite d) (ptr B) n)\<lparr>parent := Some y, is_root := False\<rparr>)
      else if w = y then Some ((set_near d (Some x) cn)\<lparr>parent := par, is_root := f\<rparr>)
      else if Some w = ptr B then map_option (\<lambda>n. n\<lparr>parent := Some x\<rparr>) (s w)
      else if k \<noteq> [] \<and> w = par_node then map_option (set_near (fst (hd k)) (Some y)) (s w) else s w)" for w
    using pn B dis f n(2,3) cn(3,5) by (auto simp: s3_def s2_def s1_def split: option.splits)
  have ctx: "ctx_at s3 up (if k = [] then Some y else root) k par (Some y) f"
    by (rule ctx_fill [OF z(1,3)]) (use dis B in \<open>auto simp: at par_node_def\<close>)
  have A: "tree_at s3 False (Some x) (ptr A) A"
    by (rule tree_at_cong [THEN iffD2, OF _ n(8)]) (use dis B pn in \<open>auto simp: at\<close>)
  have E: "tree_at s3 False (Some y) (ptr E) E"
    by (rule tree_at_cong [THEN iffD2, OF _ cn(8)]) (use dis B pn in \<open>auto simp: at\<close>)
  have Bt: "tree_at s3 False (Some x) (ptr B) B"
    by (rule tree_at_new_parent [OF cn(7) dis(16)]) (use dis pn in \<open>auto simp: at\<close>)
  have "tree_at s3 f par (Some y) (join d (join d A x c B) y e E)"
    using A E Bt n cn dis(1) by (simp add: at)
  moreover have "distinct (inorder (join d (join d A x c B) y e E))" "ctx_set k \<inter> set (inorder (join d (join d A x c B) y e E)) = {}"
    using z(4,5) by auto
  ultimately have "level s3 up (if k = [] then Some y else root) (plug k (join d (join d A x c B) y e E))"
    using levelI [OF ctx _ z(3)] by blast
  moreover have "evolves (plug k (join d A x c (join d B y e E))) s s3"
    using B(1) pn(2) n(1) cn(1) by (auto simp: evolves_def at option.map_comp comp_def)
  ultimately show ?thesis using rot f n(3) by auto
qed

lemma level_node:
  assumes "level s up root (plug k (join d t a c u))"
  obtains n where "s a = Some n" and "color n = c" and "near d n = ptr t" and "far d n = ptr u"
    and "is_root n \<longleftrightarrow> k = []" and "parent n = (if k = [] then up else Some (fst (snd (hd k))))"
    and "root = Some a \<longleftrightarrow> k = []"
  using node_at assms unfolding level_def by blast

lemma recolor:
  assumes lev: "level s up root (plug k (join d t a c u))"
  shows "\<exists>s'. node_set s (Some a) (\<lambda>n. n\<lparr>color := c'\<rparr>) = Some s' \<and> level s' up root (plug k (join d t a c' u)) \<and>
    evolves (plug k (join d t a c u)) s s'"
proof -
  obtain par p f where z: "ctx_at s up root k par p f" "tree_at s f par p (join d t a c u)" "distinct (inorder (plug k Lf))"
    "distinct (inorder (join d t a c u))" "ctx_set k \<inter> set (inorder (join d t a c u)) = {}" using level_parts [OF lev] .
  obtain n where n: "p = Some a" "s a = Some n" "parent n = par" "is_root n = f" "near d n = ptr t" "far d n = ptr u"
    "tree_at s False (Some a) (ptr t) t" "tree_at s False (Some a) (ptr u) u" using tree_at_node [OF z(2)] by metis
  let ?s = "s(a \<mapsto> n\<lparr>color := c'\<rparr>)"
  have "ctx_at ?s up root k par p f" by (rule ctx_at_cong [THEN iffD2, OF _ z(1)]) (use z(5) in auto)
  moreover have "tree_at ?s False (Some a) (ptr t) t" "tree_at ?s False (Some a) (ptr u) u"
    by (rule tree_at_cong [THEN iffD2, OF _ n(7)], use z(4) in auto) (rule tree_at_cong [THEN iffD2, OF _ n(8)], use z(4) in auto)
  ultimately have "level ?s up root (plug k (join d t a c' u))"
    using n z(3-5) by (intro levelI [of _ _ _ _ par p f]) auto
  moreover have "evolves (plug k (join d t a c u)) s ?s" using n(2) by (auto simp: evolves_def)
  ultimately show ?thesis using n(2) by auto
qed

lemma join_opposite [simp]: "join (opposite d) t a c u = join d u a c t"
  by (cases d) (simp_all add: join_def)

subsection \<open>Colours and heights\<close>

fun tcolor :: "rbt \<Rightarrow> node_color" where
  "tcolor Lf = BLACK"
| "tcolor (Nd l a c r) = c"

fun bheight :: "rbt \<Rightarrow> nat" where
  "bheight Lf = 0"
| "bheight (Nd l a c r) = bheight l + (if c = BLACK then 1 else 0)"

fun invh :: "rbt \<Rightarrow> bool" where
  "invh Lf = True"
| "invh (Nd l a c r) = (invh l \<and> invh r \<and> bheight l = bheight r)"

fun invc :: "rbt \<Rightarrow> bool" where
  "invc Lf = True"
| "invc (Nd l a c r) = ((c = RED \<longrightarrow> tcolor l = BLACK \<and> tcolor r = BLACK) \<and> invc l \<and> invc r)"

fun blacken :: "rbt \<Rightarrow> rbt" where
  "blacken Lf = Lf"
| "blacken (Nd l a c r) = Nd l a BLACK r"

fun ctxh :: "rbt_frame list \<Rightarrow> nat \<Rightarrow> bool" where
  "ctxh [] n = True"
| "ctxh ((d, a, c, u) # k) n = (invh u \<and> bheight u = n \<and> ctxh k (n + (if c = BLACK then 1 else 0)))"

fun ctxc :: "rbt_frame list \<Rightarrow> node_color \<Rightarrow> bool" where
  "ctxc [] c = True"
| "ctxc ((d, a, c, u) # k) hole = (invc u \<and> (c = RED \<longrightarrow> hole = BLACK \<and> tcolor u = BLACK) \<and> ctxc k c)"

lemma join_inv [simp]:
  "tcolor (join d t a c u) = c" "blacken (join d t a c u) = join d t a BLACK u"
  "invh (join d t a c u) \<longleftrightarrow> invh t \<and> invh u \<and> bheight t = bheight u"
  "invc (join d t a c u) \<longleftrightarrow> (c = RED \<longrightarrow> tcolor t = BLACK \<and> tcolor u = BLACK) \<and> invc t \<and> invc u"
  by (cases d; auto simp: join_def)+

lemma bheight_join [simp]: "bheight t = bheight u \<Longrightarrow> bheight (join d t a c u) = bheight t + (if c = BLACK then 1 else 0)"
  by (cases d) (simp_all add: join_def)

lemma invh_plug: "invh (plug k t) \<longleftrightarrow> invh t \<and> ctxh k (bheight t)"
proof (induction k arbitrary: t)
  case (Cons x k)
  obtain d a c u where x: "x = (d, a, c, u)" by (cases x)
  show ?case unfolding x plug.simps Cons.IH by (cases "bheight t = bheight u") auto
qed simp

lemma invc_plug: "invc (plug k t) \<longleftrightarrow> invc t \<and> ctxc k (tcolor t)"
proof (induction k arbitrary: t)
  case (Cons x k)
  obtain d a c u where x: "x = (d, a, c, u)" by (cases x)
  show ?case unfolding x plug.simps Cons.IH by auto
qed simp

lemma tcolor_plug: "k \<noteq> [] \<Longrightarrow> tcolor (plug k t) = tcolor (plug k t')"
proof (induction k arbitrary: t t')
  case (Cons x k)
  obtain d a c u where x: "x = (d, a, c, u)" by (cases x)
  show ?case
  proof (cases k)
    case (Cons y k')
    then show ?thesis using Cons.IH x by simp
  qed (simp add: x)
qed simp

lemma inorder_plug: "inorder t = inorder t' \<Longrightarrow> inorder (plug k t) = inorder (plug k t')"
proof (induction k arbitrary: t t')
  case (Cons x k)
  obtain d a c u where x: "x = (d, a, c, u)" by (cases x)
  show ?case using Cons.IH [of "join d t a c u" "join d t' a c u"] Cons.prems unfolding x by (cases d) (simp_all add: join_def)
qed simp

lemma inorder_join [simp]:
  "inorder (join L t a c u) = inorder t @ a # inorder u" "inorder (join R t a c u) = inorder u @ a # inorder t"
  by (simp_all add: join_def)

section \<open>Insertion\<close>

lemma color_not [simp]: "c \<noteq> RED \<longleftrightarrow> c = BLACK" "c \<noteq> BLACK \<longleftrightarrow> c = RED"
  by (cases c; simp)+

lemma level_color:
  assumes "level s up root (plug k t)"
  shows "IS_RED s (ptr t) = Some (tcolor t = RED)" and "IS_BLACK s (ptr t) = Some (tcolor t = BLACK)"
proof -
  have "IS_RED s (ptr t) = Some (tcolor t = RED) \<and> IS_BLACK s (ptr t) = Some (tcolor t = BLACK)"
  proof (cases t rule: join_cases [where d = L])
    case (2 t' a c u)
    then obtain n where "s a = Some n" "color n = c" using level_node assms by metis
    then show ?thesis using 2 by (simp add: IS_RED_def IS_BLACK_def)
  qed (simp add: IS_RED_def IS_BLACK_def)
  then show "IS_RED s (ptr t) = Some (tcolor t = RED)" "IS_BLACK s (ptr t) = Some (tcolor t = BLACK)" by simp_all
qed

text \<open>The step of the colours and of the rotations, in the notation of the code.\<close>

lemma make_color:
  assumes "level s up root (plug k (join d t a c u))"
  shows "\<exists>s'. MAKE_BLACK s (Some a) = Some s' \<and> level s' up root (plug k (join d t a BLACK u)) \<and> evolves (plug k (join d t a c u)) s s'"
    and "\<exists>s'. MAKE_RED s (Some a) = Some s' \<and> level s' up root (plug k (join d t a RED u)) \<and> evolves (plug k (join d t a c u)) s s'"
  using recolor [OF assms] by (simp_all add: MAKE_BLACK_def MAKE_RED_def)

lemma level_side:
  assumes "level s up root (plug ((d, g, c, u) # k) t)" and "ptr t = Some p" and "s g = Some n"
  shows "(if Some p = left n then L else R) = d" "(if left n = Some p then L else R) = d" "far d n = ptr u" "near d n = ptr t"
proof -
  obtain n' where n: "s g = Some n'" "near d n' = ptr t" "far d n' = ptr u"
    using level_node [of s up root k d t g c u] assms(1) by auto
  have "p \<in> set (inorder t)" using assms(2) by (cases t) auto
  then have "p \<notin> set (inorder u)" using assms(1) distinct_plug [of k "join d t g c u"] by (auto simp: level_def)
  then have "ptr u \<noteq> Some p" by (cases u) auto
  then show "(if Some p = left n then L else R) = d" "(if left n = Some p then L else R) = d" "far d n = ptr u" "near d n = ptr t"
    using n assms(2,3) by (cases d; auto)+
qed

lemma level_add_loop_exit:
  assumes "level s up root (plug k (join d A x c B))" and "k = [] \<or> fst (snd (snd (hd k))) = BLACK"
  shows "level_add_loop s (Some x) root = Some (s, root)"
proof (cases k)
  case Nil
  then show ?thesis using level_node [OF assms(1)] by (subst level_add_loop.simps) auto
next
  case (Cons f k')
  obtain d' p c' u where f: "f = (d', p, c', u)" by (cases f)
  obtain n where n: "s x = Some n" "parent n = Some p" "root \<noteq> Some x"
    using level_node [OF assms(1)] Cons f by (metis fst_conv list.discI list.sel(1) snd_conv)
  have "level s up root (plug k' (join d' (join d A x c B) p c' u))" using assms(1) Cons f by simp
  from level_color(1) [OF this] have "IS_RED s (Some p) = Some False" using assms(2) Cons f by simp
  then show ?thesis using n by (subst level_add_loop.simps) auto
qed

lemma level_add_loop_pass:
  assumes "level s up root (plug ((d1, p, RED, u1) # (d2, g, cg, unc) # k) (join d A x RED B))"
  shows "level_add_loop s (Some x) root = do {
     (s, node, root) \<leftarrow> add_side d2 s (Some x) (Some p) (Some g) root;
     level_add_loop s node root }"
proof -
  obtain n where n: "s x = Some n" "parent n = Some p" "root \<noteq> Some x" using level_node [OF assms(1)] by auto
  have lp: "level s up root (plug ((d2, g, cg, unc) # k) (join d1 (join d A x RED B) p RED u1))" using assms by simp
  obtain m where m: "s p = Some m" "parent m = Some g" using level_node [OF lp] by auto
  have lg: "level s up root (plug k (join d2 (join d1 (join d A x RED B) p RED u1) g cg unc))" using assms by simp
  obtain gn where gn: "s g = Some gn" using level_node [OF lg] by auto
  have r: "IS_RED s (Some p) = Some True" using level_color(1) [OF lp] by simp
  have "(if Some p = left gn then L else R) = d2" using level_side(1) [OF lp _ gn] by simp
  then show ?thesis using n m gn r by (subst level_add_loop.simps) (simp add: Let_def)
qed

lemma add_side_uncle:
  assumes lev: "level s up root (plug ((d1, p, RED, u1) # (d2, g, cg, join d3 C a RED E) # k) (join d A x RED B))"
  shows "\<exists>s'. add_side d2 s (Some x) (Some p) (Some g) root = Some (s', Some g, root) \<and>
    level s' up root (plug k (join d2 (join d1 (join d A x RED B) p BLACK u1) g RED (join d3 C a BLACK E))) \<and>
    evolves (plug ((d1, p, RED, u1) # (d2, g, cg, join d3 C a RED E) # k) (join d A x RED B)) s s'"
proof -
  let ?x = "join d A x RED B" and ?u = "join d3 C a RED E" and ?u' = "join d3 C a BLACK E"
  have lg: "level s up root (plug k (join d2 (join d1 ?x p RED u1) g cg ?u))" using lev by simp
  obtain gn where gn: "s g = Some gn" "far d2 gn = Some a" using level_node [OF lg] by auto
  have lu: "level s up root (plug ((opposite d2, g, cg, join d1 ?x p RED u1) # k) ?u)" using lg by simp
  have r: "IS_RED s (Some a) = Some True" using level_color(1) [OF lu] by simp
  obtain s1 where s1: "MAKE_BLACK s (Some p) = Some s1" "level s1 up root (plug ((d2, g, cg, ?u) # k) (join d1 ?x p BLACK u1))"
    "evolves (plug ((d2, g, cg, ?u) # k) (join d1 ?x p RED u1)) s s1"
    using make_color(1) [of s up root "(d2, g, cg, ?u) # k" d1 ?x p RED u1] lev by auto
  obtain s2 where s2: "MAKE_BLACK s1 (Some a) = Some s2" "level s2 up root (plug ((opposite d2, g, cg, join d1 ?x p BLACK u1) # k) ?u')"
    "evolves (plug ((opposite d2, g, cg, join d1 ?x p BLACK u1) # k) ?u) s1 s2"
    using make_color(1) [of s1 up root "(opposite d2, g, cg, join d1 ?x p BLACK u1) # k" d3 C a RED E] s1(2) by auto
  obtain s3 where s3: "MAKE_RED s2 (Some g) = Some s3" "level s3 up root (plug k (join d2 (join d1 ?x p BLACK u1) g RED ?u'))"
    "evolves (plug k (join d2 (join d1 ?x p BLACK u1) g cg ?u')) s2 s3"
    using make_color(2) [of s2 up root k d2 "join d1 ?x p BLACK u1" g cg ?u'] s2(2) by auto
  have "add_side d2 s (Some x) (Some p) (Some g) root = Some (s3, Some g, root)"
    using gn r s1(1) s2(1) s3(1) by (simp add: add_side_def)
  moreover have "evolves (plug ((d1, p, RED, u1) # (d2, g, cg, ?u) # k) ?x) s s3"
    using s1(3) s2(3) s3(3) by (auto simp: evolves_def)
  ultimately show ?thesis using s3(2) by blast
qed

text \<open>The last two steps: recolouring and the rotation at the grandparent.\<close>

lemma add_side_finish:
  assumes lev: "level s up root (plug ((d2, g, cg, unc) # k) (join d2 t p RED u1))"
  shows "\<exists>s' root'. do {
       s \<leftarrow> MAKE_BLACK s (Some p);
       s \<leftarrow> MAKE_RED s (Some g);
       (s, root) \<leftarrow> rotate_side (opposite d2) s (Some g) root;
       Some (s, node, root) } = Some (s', node, root') \<and>
    level s' up root' (plug k (join d2 t p BLACK (join d2 u1 g RED unc))) \<and>
    evolves (plug ((d2, g, cg, unc) # k) (join d2 t p RED u1)) s s'"
proof -
  obtain s1 where s1: "MAKE_BLACK s (Some p) = Some s1" "level s1 up root (plug ((d2, g, cg, unc) # k) (join d2 t p BLACK u1))"
    "evolves (plug ((d2, g, cg, unc) # k) (join d2 t p RED u1)) s s1"
    using make_color(1) [OF lev] by auto
  obtain s2 where s2: "MAKE_RED s1 (Some g) = Some s2" "level s2 up root (plug k (join d2 (join d2 t p BLACK u1) g RED unc))"
    "evolves (plug k (join d2 (join d2 t p BLACK u1) g cg unc)) s1 s2"
    using make_color(2) [of s1 up root k d2 "join d2 t p BLACK u1" g cg unc] s1(2) by auto
  have "level s2 up root (plug k (join (opposite d2) unc g RED (join (opposite d2) u1 p BLACK t)))" using s2(2) by simp
  from rotate_tree [OF this] obtain s3 root' where s3: "rotate_side (opposite d2) s2 (Some g) root = Some (s3, root')"
    "level s3 up root' (plug k (join d2 t p BLACK (join d2 u1 g RED unc)))"
    "evolves (plug k (join d2 (join d2 t p BLACK u1) g RED unc)) s2 s3" by auto
  have "evolves (plug ((d2, g, cg, unc) # k) (join d2 t p RED u1)) s s3"
    using s1(3) s2(3) s3(3) by (auto simp: evolves_def)
  then show ?thesis using s1(1) s2(1) s3 by auto
qed

lemma add_side_rotate:
  assumes lev: "level s up root (plug ((d1, p, RED, u1) # (d2, g, cg, unc) # k) (join d2 A x RED B))" and "tcolor unc = BLACK"
  shows "\<exists>s' root' y D E F. add_side d2 s (Some x) (Some p) (Some g) root = Some (s', Some y, root') \<and>
    level s' up root' (plug k (join d2 (join d2 D y RED E) (if d1 = d2 then p else x) BLACK F)) \<and>
    evolves (plug ((d1, p, RED, u1) # (d2, g, cg, unc) # k) (join d2 A x RED B)) s s' \<and>
    (if d1 = d2 then y = x \<and> D = A \<and> E = B \<and> F = join d2 u1 g RED unc
     else y = p \<and> D = u1 \<and> E = A \<and> F = join d2 B g RED unc)"
proof -
  let ?x = "join d2 A x RED B"
  have lg: "level s up root (plug k (join d2 (join d1 ?x p RED u1) g cg unc))" using lev by simp
  obtain gn where gn: "s g = Some gn" "far d2 gn = ptr unc" using level_node [OF lg] by auto
  have lu: "level s up root (plug ((opposite d2, g, cg, join d1 ?x p RED u1) # k) unc)" using lg by simp
  have r: "IS_RED s (ptr unc) = Some False" using level_color(1) [OF lu] assms(2) by simp
  have lp: "level s up root (plug ((d2, g, cg, unc) # k) (join d1 ?x p RED u1))" using lev by simp
  obtain pn where pn: "s p = Some pn" "near d1 pn = Some x" "far d1 pn = ptr u1" using level_node [OF lp] by auto
  have xu: "ptr u1 \<noteq> Some x"
    using lp distinct_plug [of "(d2, g, cg, unc) # k" "join d1 ?x p RED u1"] by (cases u1) (auto simp: level_def)
  show ?thesis
  proof (cases "d1 = d2")
    case True
    have nf: "Some x \<noteq> far d2 pn" using pn(3) xu True by auto
    have "level s up root (plug ((d2, g, cg, unc) # k) (join d2 ?x p RED u1))" using lp True by simp
    from add_side_finish [OF this, of "Some x"] show ?thesis
      using gn r pn(1) nf True by (auto simp: add_side_def Let_def)
  next
    case False
    then have d1: "d1 = opposite d2" by (cases d1; cases d2) simp_all
    have f: "far d2 pn = Some x" using pn(2) d1 by simp
    have "level s up root (plug ((d2, g, cg, unc) # k) (join d2 u1 p RED ?x))" using lp d1 by simp
    from rotate_tree [OF this] obtain s1 root1 where s1: "rotate_side d2 s (Some p) root = Some (s1, root1)"
      "level s1 up root1 (plug ((d2, g, cg, unc) # k) (join d2 (join d2 u1 p RED A) x RED B))"
      "evolves (plug ((d2, g, cg, unc) # k) (join d2 u1 p RED ?x)) s s1" by auto
    have "level s1 up root1 (plug ((d2, x, RED, B) # (d2, g, cg, unc) # k) (join d2 u1 p RED A))" using s1(2) by simp
    from level_node [OF this] obtain pn1 where pn1: "s1 p = Some pn1" "parent pn1 = Some x" by auto
    obtain xn1 where xn1: "s1 x = Some xn1" "parent xn1 = Some g" using level_node [OF s1(2)] by auto
    from add_side_finish [OF s1(2), of "Some p"] obtain s2 root2 where s2: "do {
       s \<leftarrow> MAKE_BLACK s1 (Some x);
       s \<leftarrow> MAKE_RED s (Some g);
       (s, root) \<leftarrow> rotate_side (opposite d2) s (Some g) root1;
       Some (s, Some p, root) } = Some (s2, Some p, root2)"
      "level s2 up root2 (plug k (join d2 (join d2 u1 p RED A) x BLACK (join d2 B g RED unc)))"
      "evolves (plug ((d2, g, cg, unc) # k) (join d2 (join d2 u1 p RED A) x RED B)) s1 s2" by blast
    have "add_side d2 s (Some x) (Some p) (Some g) root = Some (s2, Some p, root2)"
      using gn r pn(1) f s1(1) pn1 xn1 s2(1) by (simp add: add_side_def Let_def)
    moreover have "evolves (plug ((d1, p, RED, u1) # (d2, g, cg, unc) # k) ?x) s s2"
      using s1(3) s2(3) by (auto simp: evolves_def)
    ultimately show ?thesis using s2(2) False by auto
  qed
qed

text \<open>The loop started at a red node \<open>x\<close> ends in a tree that is red-black but for the colour of its root.\<close>

lemma level_add_loop_ok:
  assumes "level s up root (plug k (join d A x RED B))"
    and "invc (join d A x RED B)" and "ctxc k BLACK" and "k \<noteq> [] \<longrightarrow> tcolor (plug k Lf) = BLACK"
    and "invh (plug k (join d A x RED B))"
  shows "\<exists>s' root' t'. level_add_loop s (Some x) root = Some (s', root') \<and> level s' up root' t' \<and>
    evolves (plug k (join d A x RED B)) s s' \<and> inorder t' = inorder (plug k (join d A x RED B)) \<and> invc t' \<and> invh t'"
  using assms
proof (induction "length k" arbitrary: k s root d A x B rule: less_induct)
  case less
  note lev = less.prems(1)
  show ?case
  proof (cases "k = [] \<or> fst (snd (snd (hd k))) = BLACK")
    case True
    have "ctxc k RED" using less.prems(3) True by (cases k) auto
    then have "invc (plug k (join d A x RED B))" using less.prems(2) by (simp add: invc_plug)
    then show ?thesis using level_add_loop_exit [OF lev True] lev less.prems(5) by (auto simp: evolves_def)
  next
    case False
    then obtain d1 p u1 k1 where k1: "k = (d1, p, RED, u1) # k1" by (cases k) auto
    then have "k1 \<noteq> []" using less.prems(4) by (cases "k1 = []") auto
    then obtain d2 g cg unc k2 where k: "k = (d1, p, RED, u1) # (d2, g, cg, unc) # k2" using k1 by (cases k1) auto
    have c: "invc u1" "tcolor u1 = BLACK" "cg = BLACK" "invc unc" "ctxc k2 BLACK" using less.prems(3) by (auto simp: k)
    note pass = level_add_loop_pass [OF lev [unfolded k]]
    let ?x = "join d A x RED B"
    have h: "invh ?x" "invh u1" "bheight ?x = bheight u1" "bheight unc = bheight ?x" "invh unc" "ctxh k2 (bheight ?x + 1)"
      using less.prems(5) by (auto simp: k invh_plug c(3))
    have ht: "bheight A = bheight B" "invh A" "invh B" "bheight ?x = bheight A" using h(1) by auto
    show ?thesis
    proof (cases "tcolor unc = RED")
      case True
      then obtain C a E where u: "unc = join L C a RED E" by (cases unc) (auto simp: join_def)
      let ?t = "join d2 (join d1 ?x p BLACK u1) g RED (join L C a BLACK E)"
      obtain s1 where s1: "add_side d2 s (Some x) (Some p) (Some g) root = Some (s1, Some g, root)"
        "level s1 up root (plug k2 ?t)" "evolves (plug k ?x) s s1"
        using add_side_uncle [of s up root d1 p u1 d2 g cg L C a E k2 d A x B] lev k u by auto
      have i: "invc ?t" using less.prems(2) c u by auto
      have bt: "bheight (join L C a BLACK E) = bheight u1 + 1" "invh (join L C a BLACK E)" using h(3-5) u by auto
      have b1: "bheight (join d1 ?x p BLACK u1) = bheight u1 + 1" "invh (join d1 ?x p BLACK u1)"
        using bheight_join [OF h(3), of d1 p BLACK] h(1-3) by simp_all
      have b2: "bheight (join d1 ?x p BLACK u1) = bheight (join L C a BLACK E)" by (simp only: b1 bt)
      have b3: "bheight ?t = bheight u1 + 1" using bheight_join [OF b2, of d2 g RED] b1(1) by simp
      have "invh ?t" using b1(2) b2 bt(2) by (simp only: join_inv simp_thms)
      then have hh: "invh (plug k2 ?t)" using h(6) by (simp only: invh_plug h(3) b3 simp_thms)
      have cc: "k2 \<noteq> [] \<longrightarrow> tcolor (plug k2 Lf) = BLACK"
        using less.prems(4) tcolor_plug [of k2 Lf "join d2 (join d1 Lf p RED u1) g cg unc"] by (simp add: k)
      have ino: "inorder (plug k2 ?t) = inorder (plug k ?x)"
        unfolding k plug.simps by (rule inorder_plug) (cases d1; cases d2; simp add: u)
      obtain s' root' t' where "level_add_loop s1 (Some g) root = Some (s', root')" "level s' up root' t'" "evolves (plug k2 ?t) s1 s'"
        "inorder t' = inorder (plug k2 ?t)" "invc t'" "invh t'"
        using less.hyps [of k2 s1 root d2 "join d1 ?x p BLACK u1" g "join L C a BLACK E"] s1(2) i c(5) cc hh k by auto
      then show ?thesis using pass s1 ino evolves_trans [OF s1(3)] by (metis (no_types, lifting) bind.bind_lunit split_conv)
    next
      case blk: False
      obtain A' B' where AB: "?x = join d2 A' x RED B'" by (cases d; cases d2) (simp_all add: join_def)
      obtain s1 root1 y D E F where s1: "add_side d2 s (Some x) (Some p) (Some g) root = Some (s1, Some y, root1)"
        "level s1 up root1 (plug k2 (join d2 (join d2 D y RED E) (if d1 = d2 then p else x) BLACK F))"
        "evolves (plug k ?x) s s1"
        "if d1 = d2 then y = x \<and> D = A' \<and> E = B' \<and> F = join d2 u1 g RED unc else y = p \<and> D = u1 \<and> E = A' \<and> F = join d2 B' g RED unc"
        using add_side_rotate [of s up root d1 p u1 d2 g cg unc k2 A' x B'] lev blk AB k by auto
      let ?t = "join d2 (join d2 D y RED E) (if d1 = d2 then p else x) BLACK F"
      have lx: "level s1 up root1 (plug ((d2, if d1 = d2 then p else x, BLACK, F) # k2) (join d2 D y RED E))" using s1(2) by simp
      have ex: "level_add_loop s1 (Some y) root1 = Some (s1, root1)" by (rule level_add_loop_exit [OF lx]) simp
      have i: "invc ?x" "invh ?x" using less.prems(2) h by auto
      note i = i [unfolded AB]
      have hA: "bheight A' = bheight ?x" "bheight B' = bheight ?x" using i(2) unfolding AB by auto
      have it: "invc ?t" using i(1) c blk s1(4) by (cases "d1 = d2") auto
      have ihe: "invh ?t \<and> bheight ?t = bheight ?x + 1" using i(2) h hA s1(4) by (cases "d1 = d2") auto
      have ino: "inorder (plug k2 ?t) = inorder (plug k ?x)"
        unfolding k plug.simps AB
        by (rule inorder_plug) (use s1(4) in \<open>cases d1; cases d2; simp\<close>)
      have "invc (plug k2 ?t)" "invh (plug k2 ?t)" using it ihe c(5) h(6) by (auto simp: invc_plug invh_plug)
      then show ?thesis using pass s1 ex ino by auto
    qed
  qed
qed

definition rb_level :: "'a nodes \<Rightarrow> nat option \<Rightarrow> nat option \<Rightarrow> rbt \<Rightarrow> bool" where
  "rb_level s up root t \<longleftrightarrow> level s up root t \<and> invc t \<and> invh t \<and> tcolor t = BLACK"

text \<open>The place of a new node in the order of the level.\<close>

fun beside :: "bool \<Rightarrow> nat \<Rightarrow> nat \<Rightarrow> nat list \<Rightarrow> nat list" where
  "beside before c x [] = []"
| "beside before c x (y # ys) = (if y = c then (if before then x # y # ys else y # x # ys) else y # beside before c x ys)"

lemma beside_append: "c \<notin> set xs \<Longrightarrow> beside before c x (xs @ c # ys) = xs @ (if before then [x, c] else [c, x]) @ ys"
  by (induction xs) auto

lemma focus:
  assumes "a \<in> set (inorder t)"
  obtains k l c r where "t = plug k (join d l a c r)"
proof -
  have "\<exists>k' l c r. plug k t = plug k' (join d l a c r)" for k
    using assms
  proof (induction t arbitrary: k)
    case (Nd l b c r)
    have n: "Nd l b c r = join L l b c r" "Nd l b c r = join R r b c l" "Nd l b c r = join d (case d of L \<Rightarrow> l | R \<Rightarrow> r) b c (case d of L \<Rightarrow> r | R \<Rightarrow> l)"
      by (cases d; simp add: join_def)+
    consider "a = b" | "a \<in> set (inorder l)" | "a \<in> set (inorder r)" using Nd.prems by auto
    then show ?case
    proof cases
      case 1
      then show ?thesis using n(3) by metis
    next
      case 2
      then show ?thesis using Nd.IH(1) [of "(L, b, c, r) # k"] n(1) by simp
    next
      case 3
      then show ?thesis using Nd.IH(2) [of "(R, b, c, l) # k"] n(2) by simp
    qed
  qed simp
  from this [of "[]"] show ?thesis using that by auto
qed

lemma inorder_plug_split: "\<exists>xs ys. \<forall>t. inorder (plug k t) = xs @ inorder t @ ys"
proof (induction k)
  case (Cons x k)
  obtain d a c u where x: "x = (d, a, c, u)" by (cases x)
  from Cons obtain xs ys where xy: "inorder (plug k t) = xs @ inorder t @ ys" for t by blast
  show ?case
  proof (cases d)
    case L
    then have "inorder (plug (x # k) t) = xs @ inorder t @ (a # inorder u @ ys)" for t by (simp add: x xy)
    then show ?thesis by blast
  next
    case R
    then have "inorder (plug (x # k) t) = (xs @ inorder u @ [a]) @ inorder t @ ys" for t by (simp add: x xy)
    then show ?thesis by blast
  qed
qed (simp add: exI [of _ "[]"])

lemma inorder_beside:
  assumes "t = plug k (join d Lf a c u)" and "distinct (inorder t)" and "before \<longleftrightarrow> d = L"
  shows "inorder (plug k (join d (Nd Lf x c' Lf) a c u)) = beside before a x (inorder t)"
proof -
  obtain xs ys where xy: "inorder (plug k t) = xs @ inorder t @ ys" for t using inorder_plug_split by blast
  show ?thesis
  proof (cases d)
    case L
    then have "a \<notin> set xs" using assms(1,2) by (auto simp: xy)
    then show ?thesis using L assms by (simp add: xy beside_append)
  next
    case R
    have i: "inorder t = (xs @ inorder u) @ a # ys" using R assms(1) by (simp add: xy)
    then have "a \<notin> set (xs @ inorder u)" using assms(2) by auto
    from beside_append [OF this] show ?thesis unfolding i using R assms(3) by (simp add: xy)
  qed
qed

lemma link_leaf:
  assumes lev: "level s up root (plug k (join d Lf cur c u))" and node: "s node = Some nn" "left nn = None" "right nn = None" "\<not> is_root nn"
    and fresh: "node \<notin> set (inorder (plug k (join d Lf cur c u)))" and cn: "s cur = Some cn"
  shows "level (s(cur \<mapsto> set_near d (Some node) cn, node \<mapsto> nn\<lparr>parent := Some cur, color := RED\<rparr>)) up root
    (plug ((d, cur, c, u) # k) (join L Lf node RED Lf))"
proof -
  let ?s = "s(cur \<mapsto> set_near d (Some node) cn, node \<mapsto> nn\<lparr>parent := Some cur, color := RED\<rparr>)"
  have "level s up root (plug ((d, cur, c, u) # k) Lf)" using lev by simp
  then obtain par p f where z: "ctx_at s up root ((d, cur, c, u) # k) par p f" "distinct (inorder (plug ((d, cur, c, u) # k) Lf))"
    using level_parts by metis
  have par: "par = Some cur" "\<not> f" using z(1) by auto
  have "ctx_at ?s up (if (d, cur, c, u) # k = [] then Some node else root) ((d, cur, c, u) # k) par (Some node) f"
    by (rule ctx_fill [OF z]) (use fresh cn in auto)
  moreover have "tree_at ?s f par (Some node) (join L Lf node RED Lf)" using node par by simp
  ultimately show ?thesis using z(2) fresh by (intro levelI) auto
qed

lemma addonlevel_ok:
  assumes lev: "rb_level s up root t" and cur: "cur \<in> set (inorder t)" "s cur = Some cn" "if order < 0 then left cn = None else right cn = None"
    and node: "s node = Some nn" "left nn = None" "right nn = None" "parent nn = None" "\<not> is_root nn" and fresh: "node \<notin> set (inorder t)"
  shows "\<exists>s' root' t'. dns_rbt_addonlevel s (Some node) (Some cur) order root = Some (s', root') \<and> rb_level s' up root' t' \<and>
    evolves t' s s' \<and> inorder t' = beside (order < 0) cur node (inorder t)"
proof -
  define d where "d = (if order < 0 then L else R)"
  obtain k l c u where t: "t = plug k (join d l cur c u)" using focus [OF cur(1)] .
  have lv: "level s up root (plug k (join d l cur c u))" using lev t by (simp add: rb_level_def)
  have "near d cn = None" using cur(3) by (auto simp: d_def)
  then have "l = Lf" using level_node [OF lv] cur(2) by (cases l) auto
  note t = t [unfolded this] and lv = lv [unfolded this]
  have ne: "cur \<noteq> node" using cur(1) fresh by auto
  have inv: "invc t" "invh t" "tcolor t = BLACK" "distinct (inorder t)" using lev by (auto simp: rb_level_def level_def)
  let ?k = "(d, cur, c, u) # k" and ?x = "join L Lf node RED Lf"
  define s1 where "s1 = s(cur \<mapsto> set_near d (Some node) cn, node \<mapsto> nn\<lparr>parent := Some cur, color := RED\<rparr>)"
  have l1: "level s1 up root (plug ?k ?x)"
    unfolding s1_def by (rule link_leaf [OF lv]) (use node fresh t cur in auto)
  have c1: "ctxc ?k BLACK" using inv(1) t by (simp add: invc_plug)
  have c2: "tcolor (plug ?k Lf) = BLACK" using inv(3) t by simp
  have h1: "invh (plug ?k ?x)" using inv(2) t bheight_join [of Lf u d cur c] by (auto simp: invh_plug)
  have i1: "invc ?x" by simp
  obtain s2 root2 t2 where s2: "level_add_loop s1 (Some node) root = Some (s2, root2)" "level s2 up root2 t2" "evolves (plug ?k ?x) s1 s2"
    "inorder t2 = inorder (plug ?k ?x)" "invc t2" "invh t2"
    using level_add_loop_ok [OF l1 i1 c1 _ h1] c2 by blast
  have "t2 \<noteq> Lf" using s2(4) by (cases "t2 = Lf") (auto dest: arg_cong [where f = set])
  then obtain A a' ca B where t2: "t2 = join L A a' ca B" by (cases t2) (auto simp: join_def)
  obtain n2 where n2: "s2 a' = Some n2" "is_root n2" "root2 = Some a'"
    using level_node [of s2 up root2 "[]" L A a' ca B] s2(2) t2 by auto
  obtain s3 where s3: "MAKE_BLACK s2 (Some a') = Some s3" "level s3 up root2 (join L A a' BLACK B)" "evolves t2 s2 s3"
    using make_color(1) [of s2 up root2 "[]" L A a' ca B] s2(2) t2 by auto
  have r3: "\<exists>n3. s3 a' = Some n3 \<and> is_root n3" using level_node [of s3 up root2 "[]" L A a' BLACK B] s3(2) by auto
  have "root = ptr t" using lev tree_at_ptr by (auto simp: rb_level_def level_def)
  then have rt: "root \<noteq> None" using cur(1) by (cases t) auto
  have "dns_rbt_addonlevel s (Some node) (Some cur) order root = Some (s3, root2)"
    using node cur ne rt s2(1) s3(1) r3 n2(3)
    by (cases d) (auto simp: dns_rbt_addonlevel_def d_def s1_def set_near_simps MAKE_RED_def fun_upd_twist split: if_splits)
  moreover have "rb_level s3 up root2 (join L A a' BLACK B)"
    using s2(5,6) s3(2) by (auto simp: rb_level_def t2)
  moreover have io: "inorder (join L A a' BLACK B) = beside (order < 0) cur node (inorder t)"
    using inorder_beside [OF t inv(4), of "order < 0" node RED] s2(4) by (simp add: t2 d_def join_def)
  moreover have "evolves (join L A a' BLACK B) s s3"
  proof -
    have se: "set (inorder (join L A a' BLACK B)) = set (inorder (plug ?k ?x))" using s2(4) by (simp add: t2 flip: s2(4))
    have "evolves (plug ?k ?x) s s1" using cur(2) node(1) by (auto simp: evolves_def s1_def)
    then show ?thesis using s2(3) s3(3) se by (auto simp: evolves_def s2(4) t2)
  qed
  ultimately show ?thesis by blast
qed

fun height :: "rbt \<Rightarrow> nat" where
  "height Lf = 0"
| "height (Nd l a c r) = max (height l) (height r) + 1"

lemma height_le: "invc t \<Longrightarrow> invh t \<Longrightarrow> height t \<le> 2 * bheight t + (if tcolor t = RED then 1 else 0)"
  by (induction t) (auto split: if_splits)

lemma bheight_le: "invh t \<Longrightarrow> 2 ^ bheight t \<le> length (inorder t) + 1"
  by (induction t) auto

section \<open>Properties\<close>

lemma addonlevel_first:
  assumes "s node = Some nn" and "left nn = None" and "right nn = None"
  shows "\<exists>s'. dns_rbt_addonlevel s (Some node) (Some cur) order None = Some (s', Some node) \<and>
    rb_level s' (Some cur) (Some node) (Nd Lf node BLACK Lf) \<and> evolves (Nd Lf node BLACK Lf) s s'"
  using assms by (auto simp: dns_rbt_addonlevel_def MAKE_BLACK_def rb_level_def level_def evolves_def)

text \<open>C6: Insertion keeps a level a red-black tree. A new node is added to a level of the tree, below the node \<open>cur\<close> that has
  no child on the side \<open>order\<close> asks for, or as the first node of the level below \<open>cur\<close>. Then \<open>dns_rbt_addonlevel\<close> returns; the
  level is again a tree with right parent pointers and root flags, with no red node below a red one, the same number of
  black nodes on all paths and a black root; its nodes in order are the old ones with the new one beside \<open>cur\<close>; nodes of other
  levels, and the other fields of all nodes, are unchanged.\<close>

theorem level_insert:
  assumes "rb_level s up root t" and "s node = Some nn" "left nn = None" "right nn = None" "parent nn = None" "\<not> is_root nn"
    and "node \<notin> set (inorder t)"
    and "if t = Lf then up = Some cur
      else cur \<in> set (inorder t) \<and> s cur = Some cn \<and> (if order < 0 then left cn = None else right cn = None)"
  shows "\<exists>s' root' t'. dns_rbt_addonlevel s (Some node) (Some cur) order root = Some (s', root') \<and> rb_level s' up root' t' \<and>
    evolves t' s s' \<and> inorder t' = (if t = Lf then [node] else beside (order < 0) cur node (inorder t))"
proof (cases "t = Lf")
  case True
  then have "root = None" using assms(1) by (simp add: rb_level_def level_def)
  then show ?thesis using addonlevel_first [of s node nn cur order, OF assms(2-4)] assms(8) True by force
next
  case False
  then show ?thesis using addonlevel_ok [of s up root t cur cn order node nn] assms by auto
qed

abbreviation new_node :: rbtnode where
  "new_node \<equiv> \<lparr>parent = None, left = None, right = None, is_root = False, color = BLACK\<rparr>"

theorem level_insert_witness:
  "\<exists>s' root' t'. dns_rbt_addonlevel [1 \<mapsto> new_node\<lparr>is_root := True\<rparr>, 2 \<mapsto> new_node] (Some 2) (Some 1) 1 (Some 1) = Some (s', root') \<and>
    rb_level s' None root' t' \<and> evolves t' [1 \<mapsto> new_node\<lparr>is_root := True\<rparr>, 2 \<mapsto> new_node] s' \<and> inorder t' = [1, 2]"
proof -
  have "rb_level [1 \<mapsto> new_node\<lparr>is_root := True\<rparr>, 2 \<mapsto> new_node] None (Some 1) (Nd Lf 1 BLACK Lf)"
    by (simp add: rb_level_def level_def)
  from level_insert [OF this, of 2 new_node 1 "new_node\<lparr>is_root := True\<rparr>" 1] show ?thesis by simp
qed

text \<open>The height of a level is logarithmic. In a level with \<open>n\<close> nodes no path from the root is longer than twice the
  logarithm of \<open>n + 1\<close>.\<close>

theorem level_height:
  assumes "rb_level s up root t"
  shows "2 ^ ((height t + 1) div 2) \<le> length (inorder t) + 1"
proof -
  have "height t \<le> 2 * bheight t" using height_le [of t] assms by (simp add: rb_level_def)
  then have "(height t + 1) div 2 \<le> bheight t" by simp
  then have "2 ^ ((height t + 1) div 2) \<le> (2 ^ bheight t :: nat)" by (rule power_increasing) simp
  also have "\<dots> \<le> length (inorder t) + 1" using bheight_le [of t] assms by (simp add: rb_level_def)
  finally show ?thesis .
qed

theorem level_height_witness:
  "(2::nat) ^ ((height (Nd Lf 1 BLACK Lf) + 1) div 2) \<le> length (inorder (Nd Lf 1 BLACK Lf)) + 1"
proof (rule level_height)
  show "rb_level [1 \<mapsto> new_node\<lparr>is_root := True\<rparr>] None (Some 1) (Nd Lf 1 BLACK Lf)" by (simp add: rb_level_def level_def)
qed

end
