(* ===== verification/Dns_Rbt_Delete.thy ===== *)
theory Dns_Rbt_Delete
  imports Dns_Rbt
begin

text \<open>
  Deletion from a level of the red-black tree (\<open>lib/dns/rbt.c\<close>): the loop that repairs the colours, the exchange of a
  node with its successor, and the whole of \<open>dns_rbt_deletefromlevel\<close>.
\<close>

section \<open>Deletion\<close>

lemma red_sibling_ok:
  assumes lev: "level s up root (plug ((d, p, cp, join d S1 b RED S2) # k) t)"
  shows "\<exists>s' root'. red_sibling d s (Some b) (Some p) root = Some (s', ptr S1, root') \<and>
    level s' up root' (plug ((d, p, RED, S1) # (d, b, BLACK, S2) # k) t) \<and>
    evolves (plug ((d, p, cp, join d S1 b RED S2) # k) t) s s'"
proof -
  have l0: "level s up root (plug ((opposite d, p, cp, t) # k) (join d S1 b RED S2))" using lev by simp
  obtain s1 where s1: "MAKE_BLACK s (Some b) = Some s1" "level s1 up root (plug ((opposite d, p, cp, t) # k) (join d S1 b BLACK S2))"
    "evolves (plug ((opposite d, p, cp, t) # k) (join d S1 b RED S2)) s s1" using make_color(1) [OF l0] by auto
  have l1: "level s1 up root (plug k (join d t p cp (join d S1 b BLACK S2)))" using s1(2) by simp
  obtain s2 where s2: "MAKE_RED s1 (Some p) = Some s2" "level s2 up root (plug k (join d t p RED (join d S1 b BLACK S2)))"
    "evolves (plug k (join d t p cp (join d S1 b BLACK S2))) s1 s2" using make_color(2) [OF l1] by auto
  obtain s3 root' where s3: "rotate_side d s2 (Some p) root = Some (s3, root')"
    "level s3 up root' (plug k (join d (join d t p RED S1) b BLACK S2))"
    "evolves (plug k (join d t p RED (join d S1 b BLACK S2))) s2 s3" using rotate_tree [OF s2(2)] by auto
  have l3: "level s3 up root' (plug ((d, b, BLACK, S2) # k) (join d t p RED S1))" using s3(2) by simp
  obtain n where "s3 p = Some n" "far d n = ptr S1" using level_node [OF l3] by auto
  then have "red_sibling d s (Some b) (Some p) root = Some (s3, ptr S1, root')"
    using s1(1) s2(1) s3(1) by (simp add: red_sibling_def)
  moreover have "evolves (plug ((d, p, cp, join d S1 b RED S2) # k) t) s s3" using s1(3) s2(3) s3(3) by (auto simp: evolves_def)
  ultimately show ?thesis using s3(2) by auto
qed

lemma sibling_colors:
  assumes "level s up root (plug ((d, p, cp, join d S1 b c S2) # k) t)"
  obtains n where "s b = Some n" and "near d n = ptr S1" and "far d n = ptr S2"
    and "IS_BLACK s (ptr S1) = Some (tcolor S1 = BLACK)" and "IS_BLACK s (ptr S2) = Some (tcolor S2 = BLACK)"
proof -
  have l0: "level s up root (plug ((opposite d, p, cp, t) # k) (join d S1 b c S2))" using assms by simp
  have l1: "level s up root (plug ((d, b, c, S2) # (opposite d, p, cp, t) # k) S1)"
    "level s up root (plug ((opposite d, b, c, S1) # (opposite d, p, cp, t) # k) S2)" using l0 by simp_all
  obtain n where "s b = Some n" "near d n = ptr S1" "far d n = ptr S2" using level_node [OF l0] by auto
  then show ?thesis using that level_color(2) [OF l1(1)] level_color(2) [OF l1(2)] by blast
qed

lemma black_sibling_recolor:
  assumes lev: "level s up root (plug ((d, p, cp, join d S1 b BLACK S2) # k) t)" and "tcolor S1 = BLACK" "tcolor S2 = BLACK"
  shows "\<exists>s'. black_sibling d s (Some b) (Some p) root = Some (s', Some p, root) \<and>
    level s' up root (plug k (join d t p cp (join d S1 b RED S2))) \<and>
    evolves (plug ((d, p, cp, join d S1 b BLACK S2) # k) t) s s'"
proof -
  have l0: "level s up root (plug ((opposite d, p, cp, t) # k) (join d S1 b BLACK S2))" using lev by simp
  obtain s1 where s1: "MAKE_RED s (Some b) = Some s1" "level s1 up root (plug ((opposite d, p, cp, t) # k) (join d S1 b RED S2))"
    "evolves (plug ((opposite d, p, cp, t) # k) (join d S1 b BLACK S2)) s s1" using make_color(2) [OF l0] by auto
  obtain n where "s b = Some n" "near d n = ptr S1" "far d n = ptr S2"
    "IS_BLACK s (ptr S1) = Some (tcolor S1 = BLACK)" "IS_BLACK s (ptr S2) = Some (tcolor S2 = BLACK)" using sibling_colors [OF lev] .
  then have "black_sibling d s (Some b) (Some p) root = Some (s1, Some p, root)"
    using s1(1) assms(2,3) by (simp add: black_sibling_def)
  then show ?thesis using s1(2,3) by auto
qed

text \<open>The rotation that ends the loop, with a red nephew on the far side.\<close>

lemma black_sibling_rotate:
  assumes lev: "level s up root (plug ((d, p, cp, join d S1 b BLACK (join d Y e RED Z)) # k) t)"
  shows "\<exists>s' root'. do {
       p' \<leftarrow> node_get s (Some p);
       s \<leftarrow> node_set s (Some b) (\<lambda>n. n\<lparr>color := color p'\<rparr>);
       s \<leftarrow> MAKE_BLACK s (Some p);
       b' \<leftarrow> node_get s (Some b);
       REQUIRE (far d b' \<noteq> None);
       s \<leftarrow> MAKE_BLACK s (far d b');
       (s, rootp) \<leftarrow> rotate_side d s (Some p) root;
       Some (s, rootp, rootp) } = Some (s', root', root') \<and>
    level s' up root' (plug k (join d (join d t p BLACK S1) b cp (join d Y e BLACK Z))) \<and>
    evolves (plug ((d, p, cp, join d S1 b BLACK (join d Y e RED Z)) # k) t) s s'"
proof -
  let ?S2 = "join d Y e RED Z" and ?S2' = "join d Y e BLACK Z"
  have lp: "level s up root (plug k (join d t p cp (join d S1 b BLACK ?S2)))" using lev by simp
  obtain pn where pn: "s p = Some pn" "color pn = cp" using level_node [OF lp] by auto
  have l0: "level s up root (plug ((opposite d, p, cp, t) # k) (join d S1 b BLACK ?S2))" using lev by simp
  obtain s1 where s1: "node_set s (Some b) (\<lambda>n. n\<lparr>color := cp\<rparr>) = Some s1"
    "level s1 up root (plug ((opposite d, p, cp, t) # k) (join d S1 b cp ?S2))"
    "evolves (plug ((opposite d, p, cp, t) # k) (join d S1 b BLACK ?S2)) s s1" using recolor [OF l0, of cp] by auto
  have l1: "level s1 up root (plug k (join d t p cp (join d S1 b cp ?S2)))" using s1(2) by simp
  obtain s2 where s2: "MAKE_BLACK s1 (Some p) = Some s2" "level s2 up root (plug k (join d t p BLACK (join d S1 b cp ?S2)))"
    "evolves (plug k (join d t p cp (join d S1 b cp ?S2))) s1 s2" using make_color(1) [OF l1] by auto
  have l2: "level s2 up root (plug ((opposite d, p, BLACK, t) # k) (join d S1 b cp ?S2))" using s2(2) by simp
  obtain bn where bn: "s2 b = Some bn" "far d bn = Some e" using level_node [OF l2] by auto
  have l3: "level s2 up root (plug ((opposite d, b, cp, S1) # (opposite d, p, BLACK, t) # k) ?S2)" using s2(2) by simp
  obtain s3 where s3: "MAKE_BLACK s2 (Some e) = Some s3" "level s3 up root (plug ((opposite d, b, cp, S1) # (opposite d, p, BLACK, t) # k) ?S2')"
    "evolves (plug ((opposite d, b, cp, S1) # (opposite d, p, BLACK, t) # k) ?S2) s2 s3" using make_color(1) [OF l3] by auto
  have l4: "level s3 up root (plug k (join d t p BLACK (join d S1 b cp ?S2')))" using s3(2) by simp
  obtain s4 root' where s4: "rotate_side d s3 (Some p) root = Some (s4, root')"
    "level s4 up root' (plug k (join d (join d t p BLACK S1) b cp ?S2'))"
    "evolves (plug k (join d t p BLACK (join d S1 b cp ?S2'))) s3 s4" using rotate_tree [OF l4] by auto
  have "evolves (plug ((d, p, cp, join d S1 b BLACK ?S2) # k) t) s s4"
    using s1(3) s2(3) s3(3) s4(3) by (auto simp: evolves_def)
  then show ?thesis using pn s1(1) s2(1) bn s3(1) s4 by simp
qed


lemma black_sibling_final:
  assumes lev: "level s up root (plug ((d, p, cp, join d S1 b BLACK S2) # k) t)" and red: "tcolor S1 = RED \<or> tcolor S2 = RED"
    and inv: "invc (join d S1 b BLACK S2)" "invh (join d S1 b BLACK S2)" "invc t" "invh t" "bheight S1 = bheight t"
      "cp = RED \<longrightarrow> tcolor t = BLACK"
  shows "\<exists>s' root' t'. black_sibling d s (Some b) (Some p) root = Some (s', root', root') \<and> level s' up root' (plug k t') \<and>
    evolves (plug ((d, p, cp, join d S1 b BLACK S2) # k) t) s s' \<and> inorder t' = inorder (join d t p cp (join d S1 b BLACK S2)) \<and>
    invc t' \<and> invh t' \<and> tcolor t' = cp \<and> bheight t' = bheight t + 1 + (if cp = BLACK then 1 else 0)"
proof -
  obtain n where n: "s b = Some n" "near d n = ptr S1" "far d n = ptr S2"
    "IS_BLACK s (ptr S1) = Some (tcolor S1 = BLACK)" "IS_BLACK s (ptr S2) = Some (tcolor S2 = BLACK)" using sibling_colors [OF lev] .
  show ?thesis
  proof (cases "tcolor S2 = BLACK")
    case False
    then obtain Y e Z where S2: "S2 = join d Y e RED Z" by (cases S2 rule: join_cases [where d = d]) auto
    let ?t = "join d (join d t p BLACK S1) b cp (join d Y e BLACK Z)"
    obtain s' root' where s': "do {
       p' \<leftarrow> node_get s (Some p);
       s \<leftarrow> node_set s (Some b) (\<lambda>n. n\<lparr>color := color p'\<rparr>);
       s \<leftarrow> MAKE_BLACK s (Some p);
       b' \<leftarrow> node_get s (Some b);
       REQUIRE (far d b' \<noteq> None);
       s \<leftarrow> MAKE_BLACK s (far d b');
       (s, rootp) \<leftarrow> rotate_side d s (Some p) root;
       Some (s, rootp, rootp) } = Some (s', root', root')"
      "level s' up root' (plug k ?t)" "evolves (plug ((d, p, cp, join d S1 b BLACK S2) # k) t) s s'"
      using black_sibling_rotate [of s up root d p cp S1 b Y e Z k t] lev S2 by blast
    have "black_sibling d s (Some b) (Some p) root = Some (s', root', root')"
      using s'(1) n False by (simp add: black_sibling_def)
    moreover have "inorder ?t = inorder (join d t p cp (join d S1 b BLACK S2))" by (cases d) (simp_all add: S2)
    moreover have "bheight (join d Y e BLACK Z) = bheight t + 1" "bheight (join d t p BLACK S1) = bheight t + 1"
      using inv S2 by auto
    moreover have "invc ?t" "invh ?t" using inv S2 calculation by auto
    ultimately show ?thesis using s'(2,3) by (intro exI [of _ s'] exI [of _ root'] exI [of _ ?t]) auto
  next
    case True
    then obtain X x Y where S1: "S1 = join d X x RED Y" using red by (cases S1 rule: join_cases [where d = d]) auto
    let ?N = "join d X x BLACK (join d Y b RED S2)"
    have l0: "level s up root (plug ((d, b, BLACK, S2) # (opposite d, p, cp, t) # k) (join d X x RED Y))" using lev S1 by simp
    obtain s1 where s1: "MAKE_BLACK s (Some x) = Some s1" "level s1 up root (plug ((d, b, BLACK, S2) # (opposite d, p, cp, t) # k) (join d X x BLACK Y))"
      "evolves (plug ((d, b, BLACK, S2) # (opposite d, p, cp, t) # k) (join d X x RED Y)) s s1" using make_color(1) [OF l0] by auto
    have l1: "level s1 up root (plug ((opposite d, p, cp, t) # k) (join d (join d X x BLACK Y) b BLACK S2))" using s1(2) by simp
    obtain s2 where s2: "MAKE_RED s1 (Some b) = Some s2" "level s2 up root (plug ((opposite d, p, cp, t) # k) (join d (join d X x BLACK Y) b RED S2))"
      "evolves (plug ((opposite d, p, cp, t) # k) (join d (join d X x BLACK Y) b BLACK S2)) s1 s2" using make_color(2) [OF l1] by auto
    have l2: "level s2 up root (plug ((opposite d, p, cp, t) # k) (join (opposite d) S2 b RED (join (opposite d) Y x BLACK X)))" using s2(2) by simp
    obtain s3 root3 where s3: "rotate_side (opposite d) s2 (Some b) root = Some (s3, root3)"
      "level s3 up root3 (plug ((opposite d, p, cp, t) # k) ?N)"
      "evolves (plug ((opposite d, p, cp, t) # k) (join (opposite d) S2 b RED (join (opposite d) Y x BLACK X))) s2 s3"
      using rotate_tree [OF l2] by auto
    have l3: "level s3 up root3 (plug ((d, p, cp, ?N) # k) t)" using s3(2) by simp
    have l3': "level s3 up root3 (plug k (join d t p cp ?N))" using s3(2) by simp
    obtain pn where pn: "s3 p = Some pn" "far d pn = Some x" using level_node [OF l3'] by auto
    let ?t = "join d (join d t p BLACK X) x cp (join d Y b BLACK S2)"
    obtain s' root' where s': "do {
       p' \<leftarrow> node_get s3 (Some p);
       s \<leftarrow> node_set s3 (Some x) (\<lambda>n. n\<lparr>color := color p'\<rparr>);
       s \<leftarrow> MAKE_BLACK s (Some p);
       b' \<leftarrow> node_get s (Some x);
       REQUIRE (far d b' \<noteq> None);
       s \<leftarrow> MAKE_BLACK s (far d b');
       (s, rootp) \<leftarrow> rotate_side d s (Some p) root3;
       Some (s, rootp, rootp) } = Some (s', root', root')"
      "level s' up root' (plug k ?t)" "evolves (plug ((d, p, cp, ?N) # k) t) s3 s'"
      using black_sibling_rotate [of s3 up root3 d p cp X x Y b S2 k t] l3 by blast
    have "black_sibling d s (Some b) (Some p) root = Some (s', root', root')"
      using s'(1) n True S1 s1(1) s2(1) s3(1) pn by (simp add: black_sibling_def)
    moreover have "inorder ?t = inorder (join d t p cp (join d S1 b BLACK S2))" by (cases d) (simp_all add: S1)
    moreover have "bheight X = bheight t" "bheight Y = bheight t" "bheight S2 = bheight t" using inv S1 by auto
    moreover have "bheight (join d Y b BLACK S2) = bheight t + 1" "bheight (join d t p BLACK X) = bheight t + 1"
      using calculation(3-5) by auto
    moreover have "invc ?t" "invh ?t" using inv S1 calculation(3-7) True by auto
    moreover have "evolves (plug ((d, p, cp, join d S1 b BLACK S2) # k) t) s s'"
      using s1(3) s2(3) s3(3) s'(3) by (auto simp: evolves_def S1)
    ultimately show ?thesis using s'(2) by (intro exI [of _ s'] exI [of _ root'] exI [of _ ?t]) auto
  qed
qed

lemma blacken_simps [simp]: "invh (blacken t) = invh t" "inorder (blacken t) = inorder t" "tcolor (blacken t) = BLACK"
  "tcolor t = BLACK \<Longrightarrow> blacken t = t" "tcolor t = RED \<Longrightarrow> bheight (blacken t) = bheight t + 1" "invc t \<Longrightarrow> invc (blacken t)"
  by (cases t; simp)+

text \<open>What the loop leaves: the tree is red-black once the node it returns is black.\<close>

definition repaired :: "'a nodes \<Rightarrow> nat option \<Rightarrow> rbt \<Rightarrow> ('a nodes \<times> nat option \<times> nat option) option \<Rightarrow> bool" where
  "repaired s up t out \<longleftrightarrow> (\<exists>s' root' k' t'. out = Some (s', ptr t', root') \<and> level s' up root' (plug k' t') \<and> evolves t s s' \<and>
     inorder (plug k' t') = inorder t \<and> invc (plug k' (blacken t')) \<and> invh (plug k' (blacken t')) \<and>
     tcolor (plug k' (blacken t')) = BLACK)"

lemma level_root: "level s up root t \<Longrightarrow> root = ptr t"
  unfolding level_def by (blast dest: tree_at_ptr)

lemma ptr_plug: "k \<noteq> [] \<Longrightarrow> ptr (plug k t) \<noteq> None"
proof (induction k arbitrary: t)
  case (Cons x k)
  obtain d a c u where x: "x = (d, a, c, u)" by (cases x)
  show ?case by (cases "k = []") (use Cons.IH in \<open>simp_all add: x\<close>)
qed simp

lemma delete_loop_exit:
  assumes lev: "level s up root (plug k t)" and inv: "invc (blacken t)" "invh t" "ctxh k (bheight t + 1)" "ctxc k BLACK"
      "k \<noteq> [] \<longrightarrow> tcolor (plug k Lf) = BLACK"
    and exit: "k = [] \<or> tcolor t = RED"
  shows "repaired s up (plug k t) (delete_loop s (ptr t) par root)"
proof -
  have c: "IS_BLACK s (ptr t) = Some (tcolor t = BLACK)" by (rule level_color(2) [OF lev])
  have r: "k = [] \<Longrightarrow> ptr t = root" using level_root [OF lev] by simp
  have "delete_loop s (ptr t) par root = Some (s, ptr t, root)"
    using exit c r by (subst delete_loop.simps) auto
  moreover have "invh (plug k (blacken t))" using inv(2,3) exit by (cases "k = []") (auto simp: invh_plug)
  moreover have "invc (plug k (blacken t))" using inv(1,4) by (simp add: invc_plug)
  moreover have "tcolor (plug k (blacken t)) = BLACK"
  proof (cases "k = []")
    case False
    then show ?thesis using inv(5) tcolor_plug [OF False, of "blacken t" Lf] by simp
  qed simp
  ultimately show ?thesis using lev unfolding repaired_def by (metis evolves_def)
qed

lemma repaired_trans:
  assumes "repaired s1 up t1 out" and "evolves t s s1" and "inorder t1 = inorder t"
  shows "repaired s up t out"
  using assms unfolding repaired_def by (metis evolves_trans)

lemma delete_loop_pass:
  assumes lev: "level s up root (plug ((d, p, cp, sib) # k) t)" and "tcolor t = BLACK" and "sib \<noteq> Lf"
  shows "delete_loop s (ptr t) (Some p) root = do {
     (s, child, rootp) \<leftarrow> delete_side d s (Some p) root;
     c \<leftarrow> node_get s child;
     delete_loop s child (parent c) rootp }"
proof -
  have lp: "level s up root (plug k (join d t p cp sib))" using lev by simp
  obtain pn where pn: "s p = Some pn" "near d pn = ptr t" "far d pn = ptr sib" using level_node [OF lp] by auto
  have c: "IS_BLACK s (ptr t) = Some True" using level_color(2) [OF lev] assms(2) by simp
  have side: "(if left pn = ptr t then L else R) = d"
  proof (cases t)
    case Lf
    then show ?thesis using pn assms(3) by (cases d; cases sib) auto
  next
    case (Nd l a c r)
    then show ?thesis using level_side(2) [OF lev _ pn(1)] by simp
  qed
  have root: "ptr t \<noteq> root" "ptr t = None \<or> (case node_get s (ptr t) of Some c \<Rightarrow> \<not> is_root c | None \<Rightarrow> False)"
  proof -
    have r: "root = ptr (plug ((d, p, cp, sib) # k) t)" by (rule level_root [OF lev])
    have "ptr t \<noteq> root \<and> (ptr t = None \<or> (case node_get s (ptr t) of Some c \<Rightarrow> \<not> is_root c | None \<Rightarrow> False))"
    proof (cases t)
      case Lf
      then show ?thesis using r ptr_plug [of "(d, p, cp, sib) # k" t] by auto
    next
      case (Nd l a c r)
      then have "level s up root (plug ((d, p, cp, sib) # k) (join L l a c r))" using lev by (simp add: join_def)
      from level_node [OF this] obtain n where "s a = Some n" "\<not> is_root n" "root \<noteq> Some a" by auto
      then show ?thesis using Nd by auto
    qed
    then show "ptr t \<noteq> root" "ptr t = None \<or> (case node_get s (ptr t) of Some c \<Rightarrow> \<not> is_root c | None \<Rightarrow> False)" by auto
  qed
  show ?thesis using c root pn(1) side by (subst delete_loop.simps) simp
qed


text \<open>One pass with a black sibling.\<close>

lemma delete_pass_black:
  assumes lev: "level s up root (plug ((d, p, cp, sib) # k) t)" and sib: "tcolor sib = BLACK" "invc sib" "invh sib" "bheight sib = bheight t + 1"
    and t: "tcolor t = BLACK" "invc t" "invh t"
    and k: "ctxh k (bheight t + 1 + (if cp = BLACK then 1 else 0))" "ctxc k cp" "k = [] \<longrightarrow> cp = BLACK"
      "k \<noteq> [] \<longrightarrow> tcolor (plug k Lf) = BLACK"
  obtains (again) s' where "black_sibling d s (ptr sib) (Some p) root = Some (s', Some p, root)"
      and "\<exists>u. level s' up root (plug k (join d t p cp u)) \<and> inorder (plug k (join d t p cp u)) = inorder (plug ((d, p, cp, sib) # k) t) \<and>
        invc (join d t p BLACK u) \<and> invh (join d t p cp u) \<and> bheight u = bheight t"
      and "evolves (plug ((d, p, cp, sib) # k) t) s s'"
  | (ready) s' root' t' where "black_sibling d s (ptr sib) (Some p) root = Some (s', root', root')" and "level s' up root' t'"
      and "evolves (plug ((d, p, cp, sib) # k) t) s s'" and "inorder t' = inorder (plug ((d, p, cp, sib) # k) t)"
      and "invc t'" and "invh t'" and "tcolor t' = BLACK"
proof -
  obtain S1 b c S2 where "sib = join d S1 b c S2" using sib(4) by (cases sib rule: join_cases [where d = d]) auto
  then have s: "sib = join d S1 b BLACK S2" using sib(1) by simp
  have h: "bheight S1 = bheight t" "bheight S2 = bheight t" "invh S1" "invh S2" "invc S1" "invc S2" using sib(2-4) s by auto
  show ?thesis
  proof (cases "tcolor S1 = RED \<or> tcolor S2 = RED")
    case False
    then have b: "tcolor S1 = BLACK" "tcolor S2 = BLACK" by auto
    obtain s' where s': "black_sibling d s (Some b) (Some p) root = Some (s', Some p, root)"
      "level s' up root (plug k (join d t p cp (join d S1 b RED S2)))" "evolves (plug ((d, p, cp, sib) # k) t) s s'"
      using black_sibling_recolor [of s up root d p cp S1 b S2 k t] lev s b by blast
    let ?u = "join d S1 b RED S2"
    have "inorder (plug k (join d t p cp ?u)) = inorder (plug ((d, p, cp, sib) # k) t)"
      unfolding plug.simps by (rule inorder_plug) (cases d; simp add: s)
    moreover have "invc (join d t p BLACK ?u)" "invh (join d t p cp ?u)" "bheight ?u = bheight t" using b h t by auto
    ultimately show ?thesis using again [of s'] s' s by (metis join_simps(2))
  next
    case True
    have l: "level s up root (plug ((d, p, cp, join d S1 b BLACK S2) # k) t)" using lev s by simp
    obtain s' root' t' where s': "black_sibling d s (Some b) (Some p) root = Some (s', root', root')" "level s' up root' (plug k t')"
      "evolves (plug ((d, p, cp, sib) # k) t) s s'" "inorder t' = inorder (join d t p cp sib)"
      "invc t'" "invh t'" "tcolor t' = cp" "bheight t' = bheight t + 1 + (if cp = BLACK then 1 else 0)"
      using black_sibling_final [OF l True] sib(2,3) t h(1) s by auto
    have "inorder (plug k t') = inorder (plug ((d, p, cp, sib) # k) t)" unfolding plug.simps by (rule inorder_plug) (rule s'(4))
    moreover have "invc (plug k t')" "invh (plug k t')" using s'(5-8) k(1,2) by (simp_all add: invc_plug invh_plug)
    moreover have "tcolor (plug k t') = BLACK"
    proof (cases "k = []")
      case True
      then show ?thesis using k(3) s'(7) by simp
    next
      case False
      then show ?thesis using tcolor_plug [OF False, of t' Lf] k(4) by simp
    qed
    ultimately show ?thesis using ready [OF _ s'(2,3)] s'(1) s by auto
  qed
qed

lemma delete_ready:
  assumes "level s up root t" and "invc t" "invh t" "tcolor t = BLACK"
  shows "repaired s up t (do { c \<leftarrow> node_get s root; delete_loop s root (parent c) root }) \<or> t = Lf"
proof (cases t)
  case (Nd l a c r)
  then have "level s up root (plug [] (join L l a c r))" using assms(1) by (simp add: join_def)
  from level_node [OF this] obtain n where n: "s a = Some n" "root = Some a" by auto
  have "repaired s up (plug [] t) (delete_loop s (ptr t) (parent n) root)"
    by (rule delete_loop_exit) (use assms in simp_all)
  then show ?thesis using n Nd by simp
qed simp

lemma repaired_ready:
  assumes "out = do { (s, child, rootp) \<leftarrow> Some (s', root', root'); c \<leftarrow> node_get s child; delete_loop s child (parent c) rootp }"
    and "level s' up root' t'" "evolves t s s'" "inorder t' = inorder t" "invc t'" "invh t'" "tcolor t' = BLACK" "t' \<noteq> Lf"
  shows "repaired s up t out"
proof -
  have "repaired s' up t' (do { c \<leftarrow> node_get s' root'; delete_loop s' root' (parent c) root' })"
    using delete_ready [OF assms(2,5-7)] assms(8) by blast
  then show ?thesis using repaired_trans [OF _ assms(3,4)] assms(1) by simp
qed

text \<open>A pass after which the loop looks at the parent.\<close>

lemma repaired_again:
  assumes out: "out = do { (s, child, rootp) \<leftarrow> Some (s', Some p, root'); c \<leftarrow> node_get s child; delete_loop s child (parent c) rootp }"
    and lev: "level s' up root' (plug k (join d t p cp u))" and "evolves T s s'" and "inorder (plug k (join d t p cp u)) = inorder T"
    and rep: "\<And>par. par = (if k = [] then up else Some (fst (snd (hd k)))) \<Longrightarrow>
      repaired s' up (plug k (join d t p cp u)) (delete_loop s' (Some p) par root')"
  shows "repaired s up T out"
proof -
  obtain n where n: "s' p = Some n" "parent n = (if k = [] then up else Some (fst (snd (hd k))))" using level_node [OF lev] by auto
  have "repaired s' up (plug k (join d t p cp u)) out" using rep [OF n(2)] n(1) unfolding out by simp
  then show ?thesis by (rule repaired_trans [OF _ assms(3,4)])
qed

lemma delete_loop_ok:
  assumes "level s up root (plug k t)" and "invc (blacken t)" and "invh t" and "ctxh k (bheight t + 1)" and "ctxc k BLACK"
    and "k \<noteq> [] \<longrightarrow> tcolor (plug k Lf) = BLACK \<and> par = Some (fst (snd (hd k)))"
  shows "repaired s up (plug k t) (delete_loop s (ptr t) par root)"
  using assms
proof (induction "length k" arbitrary: k s root t par rule: less_induct)
  case less
  show ?case
  proof (cases "k = [] \<or> tcolor t = RED")
    case True
    then show ?thesis using delete_loop_exit [OF less.prems(1-5)] less.prems(6) by blast
  next
    case False
    then obtain d p cp sib k2 where k: "k = (d, p, cp, sib) # k2" by (cases k) auto
    have t: "tcolor t = BLACK" "invc t" "invh t" using False less.prems(2,3) by auto
    have sib: "invh sib" "bheight sib = bheight t + 1" "invc sib" "cp = RED \<longrightarrow> tcolor sib = BLACK"
      and k2: "ctxh k2 (bheight t + 1 + (if cp = BLACK then 1 else 0))" "ctxc k2 cp"
      using less.prems(4,5) by (auto simp: k)
    have kc: "k2 = [] \<longrightarrow> cp = BLACK" "k2 \<noteq> [] \<longrightarrow> tcolor (plug k2 Lf) = BLACK"
      using less.prems(6) tcolor_plug [of k2 Lf "join d Lf p cp sib"] by (auto simp: k)
    have sl: "sib \<noteq> Lf" using sib(2) by auto
    have par: "par = Some p" using less.prems(6) k by simp
    have lev: "level s up root (plug ((d, p, cp, sib) # k2) t)" using less.prems(1) k by simp
    note pass = delete_loop_pass [OF lev t(1) sl]
    have lp: "level s up root (plug k2 (join d t p cp sib))" using lev by simp
    obtain pn where pn: "s p = Some pn" "far d pn = ptr sib" using level_node [OF lp] by auto
    have ls: "level s up root (plug ((opposite d, p, cp, t) # k2) sib)" using lev by simp
    note red = level_color(1) [OF ls]
    have plug_Lf: "t' \<noteq> Lf" if "inorder t' = inorder (plug k t)" for t'
      using that by (auto simp: k dest!: arg_cong [where f = set])
    show ?thesis
    proof (cases "tcolor sib = RED")
      case False
      then have ds: "delete_side d s (Some p) root = black_sibling d s (ptr sib) (Some p) root"
        using pn red by (simp add: delete_side_def)
      have sb: "tcolor sib = BLACK" using False by simp
      show ?thesis
      proof (cases rule: delete_pass_black [OF lev sb sib(3,1,2) t k2 kc])
        case again: (1 s')
        then obtain u where u: "level s' up root (plug k2 (join d t p cp u))" "inorder (plug k2 (join d t p cp u)) = inorder (plug k t)"
          "invc (join d t p BLACK u)" "invh (join d t p cp u)" "bheight u = bheight t" by (auto simp: k)
        have ctx: "ctxh k2 (bheight (join d t p cp u) + 1)" using k2(1) u(5) by auto
        have cc: "ctxc k2 BLACK" using k2(2) by (cases k2) auto
        show ?thesis
          unfolding par
        proof (rule repaired_again [OF _ u(1) _ u(2)])
          show "delete_loop s (ptr t) (Some p) root = do { (s, child, rootp) \<leftarrow> Some (s', Some p, root);
              c \<leftarrow> node_get s child; delete_loop s child (parent c) rootp }" using pass ds again(1) by simp
          show "evolves (plug k t) s s'" using again(3) k by simp
          show "repaired s' up (plug k2 (join d t p cp u)) (delete_loop s' (Some p) par root)"
            if "par = (if k2 = [] then up else Some (fst (snd (hd k2))))" for par
            using less.hyps [of k2 s' root "join d t p cp u" par] u ctx cc kc k that by simp
        qed
      next
        case ready: (2 s' root' t')
        show ?thesis
          by (rule repaired_ready [OF _ ready(2) _ _ ready(5-7) plug_Lf]) (use pass ds ready(1,3,4) k par in simp_all)
      qed
    next
      case True
      then have cp: "cp = BLACK" using sib(4) by (cases cp) auto
      obtain S1 b S2 where s: "sib = join d S1 b RED S2" using True by (cases sib rule: join_cases [where d = d]) auto
      have S: "tcolor S1 = BLACK" "invc S1" "invh S1" "bheight S1 = bheight t + 1" "tcolor S2 = BLACK" "invc S2" "invh S2" "bheight S2 = bheight t + 1"
        using sib(1-3) s by auto
      let ?k = "(d, b, BLACK, S2) # k2"
      have "level s up root (plug ((d, p, cp, join d S1 b RED S2) # k2) t)" using lev s by simp
      from red_sibling_ok [OF this] obtain s1 root1 where s1: "red_sibling d s (Some b) (Some p) root = Some (s1, ptr S1, root1)"
        "level s1 up root1 (plug ((d, p, RED, S1) # ?k) t)" "evolves (plug k t) s s1" by (auto simp: k s)
      have i1: "inorder (plug ((d, p, RED, S1) # ?k) t) = inorder (plug k t)"
        unfolding k plug.simps by (rule inorder_plug) (cases d; simp add: s)
      have ds: "delete_side d s (Some p) root = black_sibling d s1 (ptr S1) (Some p) root1"
        using pn red True s s1(1) by (simp add: delete_side_def)
      have k3: "ctxh ?k (bheight t + 1 + (if RED = BLACK then 1 else 0))" "ctxc ?k RED" "?k = [] \<longrightarrow> RED = BLACK"
        "?k \<noteq> [] \<longrightarrow> tcolor (plug ?k Lf) = BLACK"
        using k2 S cp kc tcolor_plug [of k2 Lf "join d Lf b BLACK S2"] by (cases "k2 = []"; simp)+
      show ?thesis
      proof (cases rule: delete_pass_black [OF s1(2) S(1-4) t k3])
        case again: (1 s')
        then obtain u where u: "level s' up root1 (plug ?k (join d t p RED u))" "inorder (plug ?k (join d t p RED u)) = inorder (plug k t)"
          "invc (join d t p BLACK u)" "invh (join d t p RED u)" "bheight u = bheight t" using i1 by auto
        have ex: "repaired s' up (plug ?k (join d t p RED u)) (delete_loop s' (ptr (join d t p RED u)) par' root1)" for par'
          by (rule delete_loop_exit [OF u(1)]) (use u k3 in auto)
        show ?thesis
          unfolding par
        proof (rule repaired_again [OF _ u(1) _ u(2)])
          show "delete_loop s (ptr t) (Some p) root = do { (s, child, rootp) \<leftarrow> Some (s', Some p, root1);
              c \<leftarrow> node_get s child; delete_loop s child (parent c) rootp }" using pass ds again(1) by simp
          show "evolves (plug k t) s s'" using evolves_trans [OF s1(3) again(3)] i1 by (metis)
          show "repaired s' up (plug ?k (join d t p RED u)) (delete_loop s' (Some p) par root1)"
            if "par = (if ?k = [] then up else Some (fst (snd (hd ?k))))" for par
            using ex [of par] by simp
        qed
      next
        case ready: (2 s' root' t')
        have io: "inorder t' = inorder (plug k t)" using ready(4) i1 by simp
        have ev: "evolves (plug k t) s s'" using evolves_trans [OF s1(3) ready(3)] i1 by metis
        show ?thesis
          by (rule repaired_ready [OF _ ready(2) ev io ready(5-7) plug_Lf [OF io]]) (use pass ds ready(1) par in simp)
      qed
    qed
  qed
qed

text \<open>A node that the hole of a context points to is replaced by its child; the parent of the child need not be known.\<close>

lemma unlink_ok:
  assumes ctx: "ctx_at s up root k par (Some del) f" "distinct (inorder (plug k Lf))" and del: "s del = Some dn" "parent dn = par" "is_root dn = f"
      "del \<notin> ctx_set k" "del \<notin> set (inorder ch)"
    and ch: "tree_at s False q (ptr ch) ch" "distinct (inorder ch)" "ctx_set k \<inter> set (inorder ch) = {}" "k = [] \<longrightarrow> ch \<noteq> Lf"
  shows "\<exists>s' root'. unlink s (Some del) (ptr ch) root = Some (s', root') \<and> level s' up root' (plug k ch) \<and> s' del = s del \<and>
    evolves (plug k ch) s s'"
proof (cases k)
  case Nil
  then obtain c n where c: "ptr ch = Some c" "s c = Some n" "c \<in> set (inorder ch)"
    using ch(1,4) by (cases ch) (auto split: option.splits)
  have f: "f" "par = up" using ctx(1) Nil by auto
  let ?s = "s(c \<mapsto> n\<lparr>parent := up, is_root := True\<rparr>)"
  have "tree_at ?s True up (ptr ch) ch" by (rule tree_at_reparent [OF ch(1,2) c(1,2)])
  moreover have "unlink s (Some del) (ptr ch) root = Some (?s, ptr ch)" using del f c by (auto simp: unlink_def)
  moreover have "evolves ch s ?s" using c by (auto simp: evolves_def)
  ultimately show ?thesis using Nil ch(2) c(3) del(5) by (auto simp: level_def)
next
  case (Cons x k')
  obtain d p cp u where x: "x = (d, p, cp, u)" by (cases x)
  then obtain pn where pn: "s p = Some pn" "near d pn = Some del" "far d pn = ptr u" "par = Some p" "\<not> f"
    using ctx(1) Cons tree_at_ptr by (fastforce split: option.splits)
  have "ptr u \<noteq> Some del" using del(4) Cons x by (cases u) auto
  then have side: "(if left pn = Some del then L else R) = d" using pn(2,3) by (cases d) auto
  have cc: "c \<in> set (inorder ch)" "s c \<noteq> None" if "ptr ch = Some c" for c using that ch(1) by (cases ch; auto split: option.splits)+
  define s1 where "s1 = s(p \<mapsto> set_near d (ptr ch) pn)"
  define s2 where "s2 = (case ptr ch of None \<Rightarrow> s1 | Some c \<Rightarrow> s1(c \<mapsto> (the (s c))\<lparr>parent := par\<rparr>))"
  have pc: "p \<in> ctx_set k" using Cons x by simp
  have ne: "ptr ch \<noteq> Some p" "p \<noteq> del" using cc(1) pc ch(3) del(4) by auto
  have at: "s2 z = (if Some z = ptr ch then map_option (\<lambda>n. n\<lparr>parent := par\<rparr>) (s z)
      else if z = p then map_option (set_near d (ptr ch)) (s z) else s z)" for z
    using ne cc pn(1) by (auto simp: s1_def s2_def split: option.splits)
  have un: "unlink s (Some del) (ptr ch) root = Some (s2, root)"
  proof -
    have "(if left pn = Some del then node_set s (Some p) (\<lambda>q. q\<lparr>left := ptr ch\<rparr>) else node_set s (Some p) (\<lambda>q. q\<lparr>right := ptr ch\<rparr>)) = Some s1"
      using side pn(1) by (cases d) (auto simp: s1_def set_near_simps split: if_splits)
    then show ?thesis using del(1-3) pn ne cc
      by (cases "ptr ch") (auto simp: unlink_def s2_def s1_def)
  qed
  have "ctx_at s2 up (if k = [] then ptr ch else root) k par (ptr ch) f"
    by (rule ctx_fill [OF ctx]) (use Cons x ne cc ch(3) in \<open>auto simp: at\<close>)
  moreover have "\<forall>z \<in> set (inorder ch). s2 z = (if Some z = ptr ch then map_option (\<lambda>n. n\<lparr>parent := par\<rparr>) (s z) else s z)"
    using ch(3) pc by (auto simp: at)
  from tree_at_new_parent [OF ch(1,2) this] have "tree_at s2 f par (ptr ch) ch" using pn(5) by simp
  ultimately have "level s2 up root (plug k ch)" using Cons ctx(2) ch(2,3) by (auto intro!: levelI)
  moreover have "s2 del = s del" using ne(2) cc(1) del(5) by (auto simp: at)
  moreover have "evolves (plug k ch) s s2" using pc cc by (auto simp: evolves_def at option.map_comp comp_def)
  ultimately show ?thesis using un by blast
qed

lemma plug_append: "plug (k1 @ k2) t = plug k2 (plug k1 t)"
proof (induction k1 arbitrary: t)
  case (Cons x k1)
  obtain d a c u where "x = (d, a, c, u)" by (cases x)
  then show ?case using Cons by simp
qed simp

lemma ctx_set_append [simp]: "ctx_set (k1 @ k2) = ctx_set k1 \<union> ctx_set k2"
proof (induction k1)
  case (Cons x k1)
  obtain d a c u where "x = (d, a, c, u)" by (cases x)
  then show ?case using Cons by auto
qed simp

lemma path_at_append:
  "path_at s up root g (k1 @ k2) par p f \<longleftrightarrow>
     (\<exists>par1 p1 f1. path_at s up root g k2 par1 p1 f1 \<and> path_at s par1 p1 f1 k1 par p f)"
proof (induction k1 arbitrary: par p f)
  case (Cons x k1)
  obtain d a c u where "x = (d, a, c, u)" by (cases x)
  then show ?case using Cons by (auto split: option.splits)
qed auto

text \<open>The path along left links from a node to the successor.\<close>

lemma leftmost_ok:
  assumes "level s up root (plug k t)" and "t \<noteq> Lf"
  shows "\<exists>kl suc c r. leftmost s (ptr t) = Some (Some suc) \<and> t = plug kl (join L Lf suc c r) \<and> (\<forall>x \<in> set kl. fst x = L)"
  using assms
proof (induction t arbitrary: k)
  case (Nd l a c r)
  have j: "Nd l a c r = join L l a c r" by (simp add: join_def)
  obtain n where n: "s a = Some n" "left n = ptr l"
    using level_node [of s up root k L l a c r] Nd.prems(1) j by (metis near_simps(1))
  show ?case
  proof (cases "l = Lf")
    case True
    have "leftmost s (ptr (Nd l a c r)) = Some (Some a)" using n True by (subst leftmost.simps) simp
    then show ?thesis using True j by (intro exI [of _ "[]"]) auto
  next
    case False
    then have "level s up root (plug ((L, a, c, r) # k) l)" using Nd.prems(1) j by simp
    from Nd.IH(1) [OF this False] obtain kl suc c' r' where kl: "leftmost s (ptr l) = Some (Some suc)"
      "l = plug kl (join L Lf suc c' r')" "\<forall>x \<in> set kl. fst x = L" by blast
    have "ptr l \<noteq> None" using False by (cases l) auto
    then have "leftmost s (ptr (Nd l a c r)) = Some (Some suc)" using n kl(1) by (subst leftmost.simps) simp
    moreover have "Nd l a c r = plug (kl @ [(L, a, c, r)]) (join L Lf suc c' r')" using kl(2) j by (simp add: plug_append)
    ultimately show ?thesis using kl(3) by (intro exI [of _ "kl @ [(L, a, c, r)]"]) auto
  qed
qed simp

lemma swap_effect:
  assumes suc: "s suc = Some sn" and del: "s del = Some dn" "suc \<noteq> del" "left dn = Some la" "right dn = Some ra"
    and la: "s la = Some ln" "la \<noteq> suc" "la \<noteq> del"
    and par: "\<not> is_root dn \<Longrightarrow> parent dn = Some pa \<and> s pa = Some pn \<and> pa \<noteq> suc \<and> pa \<noteq> del \<and> pa \<noteq> la \<and> pa \<noteq> ra"
    and near: "parent sn = Some del \<Longrightarrow> ra = suc"
    and far: "parent sn \<noteq> Some del \<Longrightarrow> parent sn = Some ha \<and> ha \<noteq> suc \<and> ha \<noteq> del \<and> ha \<noteq> la \<and> s ha = Some hn \<and>
      ra \<noteq> suc \<and> ra \<noteq> del \<and> ra \<noteq> la \<and> s ra = Some rn \<and> (\<not> is_root dn \<longrightarrow> ha \<noteq> pa)"
  shows "swap_successor s (Some del) (Some suc) root = Some (\<lambda>z.
      if z = suc then Some (sn\<lparr>parent := parent dn, left := left dn, right := (if parent sn = Some del then Some del else Some ra),
        is_root := (is_root dn \<or> is_root sn), color := color dn\<rparr>)
      else if z = del then Some (dn\<lparr>parent := (if parent sn = Some del then Some suc else parent sn), left := None, right := right sn,
        is_root := False, color := color sn\<rparr>)
      else if z = la then Some (ln\<lparr>parent := Some suc\<rparr>)
      else if \<not> is_root dn \<and> z = pa then Some (if left pn = Some del then pn\<lparr>left := Some suc\<rparr> else pn\<lparr>right := Some suc\<rparr>)
      else if parent sn \<noteq> Some del \<and> z = ra then Some (if ra = ha then rn\<lparr>parent := Some suc, left := Some del\<rparr> else rn\<lparr>parent := Some suc\<rparr>)
      else if parent sn \<noteq> Some del \<and> z = ha then Some (hn\<lparr>left := Some del\<rparr>)
      else s z, if is_root dn then Some suc else root)"
proof (cases "parent sn = Some del")
  case True
  have ra: "ra = suc" using near True by simp
  show ?thesis
  proof (cases "is_root dn")
    case r: True
    show ?thesis
      using suc del la True ra r unfolding swap_successor_def
      by (simp add: fun_eq_iff)
  next
    case False
    then show ?thesis
      using suc del la True ra par unfolding swap_successor_def
      by (auto simp: fun_eq_iff)
  qed
next
  case False
  note fr = far [OF False]
  show ?thesis
  proof (cases "is_root dn")
    case True
    then show ?thesis
      using suc del la fr False unfolding swap_successor_def by (auto simp: fun_eq_iff)
  next
    case r: False
    then show ?thesis
      using suc del la fr False par unfolding swap_successor_def by (auto simp: fun_eq_iff)
  qed
qed

lemma path_outer:
  assumes "path_at s up root g k par p f" and "k \<noteq> []"
  obtains b n where "root = Some b" and "b \<in> ctx_set k" and "s b = Some n" and "parent n = up" and "is_root n = g"
proof -
  have "\<exists>b n. root = Some b \<and> b \<in> ctx_set k \<and> s b = Some n \<and> parent n = up \<and> is_root n = g"
    using assms
  proof (induction k arbitrary: par p f)
    case (Cons x k)
    obtain d a c u where x: "x = (d, a, c, u)" by (cases x)
    then obtain n where n: "s a = Some n" "path_at s up root g k (parent n) (Some a) (is_root n)"
      using Cons.prems(1) by (auto split: option.splits)
    show ?case
    proof (cases "k = []")
      case True
      then show ?thesis using n x by auto
    next
      case False
      then show ?thesis using Cons.IH [OF n(2)] x by auto
    qed
  qed simp
  then show ?thesis using that by blast
qed

lemma path_reparent:
  assumes "path_at s up root g k par p f" and "k \<noteq> []" and "distinct (inorder (plug k Lf))"
    and "\<forall>z \<in> ctx_set k. s' z = (if Some z = root then map_option (\<lambda>n. n\<lparr>parent := q\<rparr>) (s z) else s z)"
  shows "path_at s' q root g k par p f"
  using assms
proof (induction k arbitrary: par p f)
  case (Cons x k)
  obtain d a c u where x: "x = (d, a, c, u)" by (cases x)
  then obtain n where n: "s a = Some n" "color n = c" "near d n = p" "tree_at s False (Some a) (far d n) u"
    "path_at s up root g k (parent n) (Some a) (is_root n)" "par = Some a" "\<not> f"
    using Cons.prems(1) by (auto split: option.splits)
  have dis: "a \<notin> set (inorder u)" "a \<notin> ctx_set k" "distinct (inorder (plug k Lf))" "ctx_set k \<inter> set (inorder u) = {}"
    using Cons.prems(3) distinct_plug [of k "join d Lf a c u"] by (auto simp: x)
  show ?case
  proof (cases "k = []")
    case True
    then have r: "root = Some a" "parent n = up" "is_root n = g" using n(5) by auto
    have "tree_at s' False (Some a) (far d n) u"
      by (rule tree_at_cong [THEN iffD2, OF _ n(4)]) (use Cons.prems(4) x r dis in auto)
    then show ?thesis using n r True Cons.prems(4) by (simp add: x)
  next
    case False
    obtain b where b: "root = Some b" "b \<in> ctx_set k" using path_outer [OF n(5) False] by metis
    have "b \<noteq> a" "b \<notin> set (inorder u)" using b(2) dis by auto
    then have sa: "s' a = s a" and "tree_at s' False (Some a) (far d n) u"
      using Cons.prems(4) x b(1) by simp (rule tree_at_cong [THEN iffD2, OF _ n(4)], use Cons.prems(4) x b(1) \<open>b \<notin> set (inorder u)\<close> in auto)
    moreover have "path_at s' q root g k (parent n) (Some a) (is_root n)"
      by (rule Cons.IH [OF n(5) False dis(3)]) (use Cons.prems(4) x in auto)
    ultimately show ?thesis using n by (simp add: x)
  qed
qed simp

lemma path_fill:
  assumes "path_at s up root g ((d, a, c, u) # k) par p f" and "distinct (inorder (plug ((d, a, c, u) # k) Lf))"
    and "\<forall>z \<in> ctx_set ((d, a, c, u) # k). s' z = (if z = a then map_option (set_near d q) (s z) else s z)"
  shows "path_at s' up root g ((d, a, c, u) # k) par q f"
proof -
  have dis: "a \<notin> set (inorder u)" "a \<notin> ctx_set k" using assms(2) distinct_plug [of k "join d Lf a c u"] by auto
  have t: "tree_at s' f par p u = tree_at s f par p u" for f par p by (rule tree_at_cong) (use dis assms(3) in auto)
  have "path_at s' up root g k par p f = path_at s up root g k par p f" for f par p by (rule ctx_at_cong) (use dis assms(3) in auto)
  with t show ?thesis using assms(1,3) by (auto split: option.splits)
qed

lemma path_par:
  assumes "path_at s up root g k par p f" and "k \<noteq> []"
  shows "\<exists>n. par = Some (fst (snd (hd k))) \<and> \<not> f \<and> s (fst (snd (hd k))) = Some n"
  using assms by (cases k) (auto split: option.splits)

lemma swap_ok:
  assumes lev: "level s up root (plug (kl @ (R, del, c, l) # k) (join L Lf suc cs sr))" and l: "l \<noteq> Lf" and kl: "\<forall>x \<in> set kl. fst x = L"
  shows "\<exists>s' root' par' dn'. swap_successor s (Some del) (Some suc) root = Some (s', root') \<and>
    ctx_at s' up root' (kl @ (R, suc, c, l) # k) par' (Some del) False \<and>
    s' del = Some dn' \<and> parent dn' = par' \<and> \<not> is_root dn' \<and> color dn' = cs \<and>
    tree_at s' False (Some suc) (ptr sr) sr \<and> evolves (plug (kl @ (R, del, c, l) # k) (join L Lf suc cs sr)) s s'"
proof -
  let ?K = "kl @ (R, del, c, l) # k"
  obtain par p f where z: "ctx_at s up root ?K par p f" "tree_at s f par p (join L Lf suc cs sr)" "distinct (inorder (plug ?K Lf))"
    "distinct (inorder (join L Lf suc cs sr))" "ctx_set ?K \<inter> set (inorder (join L Lf suc cs sr)) = {}" using level_parts [OF lev] .
  obtain sn where sn: "p = Some suc" "s suc = Some sn" "parent sn = par" "is_root sn = f" "color sn = cs" "right sn = ptr sr"
    "tree_at s False (Some suc) (ptr sr) sr" using tree_at_node [OF z(2)] by (metis near_simps(3))
  obtain par1 p1 f1 where pa: "ctx_at s up root ((R, del, c, l) # k) par1 p1 f1" "path_at s par1 p1 f1 kl par p f"
    using z(1) unfolding path_at_append by blast
  then obtain dn where dn: "par1 = Some del" "\<not> f1" "s del = Some dn" "color dn = c" "right dn = p1" "tree_at s False (Some del) (left dn) l"
    "ctx_at s up root k (parent dn) (Some del) (is_root dn)" by (auto split: option.splits)
  have dis: "distinct (inorder (plug k Lf))" "distinct (inorder l)" "ctx_set k \<inter> set (inorder l) = {}" "del \<notin> ctx_set k" "del \<notin> set (inorder l)"
    "distinct (inorder (plug kl Lf))" "ctx_set kl \<inter> ctx_set k = {}" "ctx_set kl \<inter> set (inorder l) = {}" "del \<notin> ctx_set kl"
    using z(3) distinct_plug [of k "join R (plug kl Lf) del c l"] by (auto simp: plug_append)
  have disj: "suc \<noteq> del" "suc \<notin> ctx_set k" "suc \<notin> ctx_set kl" "suc \<notin> set (inorder l)" "set (inorder sr) \<inter> ctx_set k = {}" "del \<notin> set (inorder sr)"
    "set (inorder sr) \<inter> ctx_set kl = {}" "set (inorder sr) \<inter> set (inorder l) = {}" "suc \<notin> set (inorder sr)" "distinct (inorder sr)"
    using z(4,5) by auto
  obtain la ln where la: "ptr l = Some la" "left dn = Some la" "s la = Some ln" "la \<in> set (inorder l)"
    using dn(6) l by (cases l) (auto split: option.splits)
  have fr: "is_root dn \<longleftrightarrow> k = []" using ctx_root [OF dn(7)] by auto
  define pn_a where "pn_a = fst (snd (hd k))"
  obtain pn where pn: "k \<noteq> [] \<Longrightarrow> parent dn = Some pn_a \<and> s pn_a = Some pn \<and> pn_a \<in> ctx_set k \<and>
      (if left pn = Some del then pn\<lparr>left := Some suc\<rparr> else pn\<lparr>right := Some suc\<rparr>) = set_near (fst (hd k)) (Some suc) pn"
  proof (cases k)
    case (Cons x k')
    obtain d' a' c' u' where x: "x = (d', a', c', u')" by (cases x)
    obtain m where m: "s a' = Some m" "near d' m = Some del" "far d' m = ptr u'" "parent dn = Some a'"
      using dn(7) Cons x tree_at_ptr by (fastforce split: option.splits)
    have "ptr u' \<noteq> Some del" using dis(4) Cons x by (cases u') auto
    then show ?thesis using that [of m] m Cons x by (cases d') (auto simp: pn_a_def set_near_simps)
  qed (use that in simp)
  define ha where "ha = fst (snd (hd kl))"
  obtain hn where hn: "kl \<noteq> [] \<Longrightarrow> par = Some ha \<and> s ha = Some hn \<and> ha \<in> ctx_set kl"
    using path_par [OF pa(2)] by (cases "kl = []") (auto simp: ha_def neq_Nil_conv)
  obtain ra rn where ra: "p1 = Some ra" "kl = [] \<Longrightarrow> ra = suc" "kl \<noteq> [] \<Longrightarrow> ra \<in> ctx_set kl \<and> s ra = Some rn \<and> parent rn = par1 \<and> is_root rn = f1"
  proof (cases "kl = []")
    case True
    then show ?thesis using that pa(2) sn(1) by auto
  next
    case False
    from path_outer [OF pa(2) False] show ?thesis using that False by metis
  qed
  have ps: "parent sn = Some del \<longleftrightarrow> kl = []" using sn(3) hn dis(9) pa(2) dn(1) by (cases "kl = []") auto
  note effect = swap_effect [where s = s and suc = suc and del = del and la = la and ra = ra and pa = pn_a and pn = pn and ha = ha and hn = hn and rn = rn
    and sn = sn and dn = dn and ln = ln and root = root]
  define s' where "s' = (\<lambda>z.
      if z = suc then Some (sn\<lparr>parent := parent dn, left := left dn, right := (if parent sn = Some del then Some del else Some ra),
        is_root := (is_root dn \<or> is_root sn), color := color dn\<rparr>)
      else if z = del then Some (dn\<lparr>parent := (if parent sn = Some del then Some suc else parent sn), left := None, right := right sn,
        is_root := False, color := color sn\<rparr>)
      else if z = la then Some (ln\<lparr>parent := Some suc\<rparr>)
      else if \<not> is_root dn \<and> z = pn_a then Some (if left pn = Some del then pn\<lparr>left := Some suc\<rparr> else pn\<lparr>right := Some suc\<rparr>)
      else if parent sn \<noteq> Some del \<and> z = ra then Some (if ra = ha then rn\<lparr>parent := Some suc, left := Some del\<rparr> else rn\<lparr>parent := Some suc\<rparr>)
      else if parent sn \<noteq> Some del \<and> z = ha then Some (hn\<lparr>left := Some del\<rparr>)
      else s z)"
  have swap: "swap_successor s (Some del) (Some suc) root = Some (s', if is_root dn then Some suc else root)"
    unfolding s'_def
  proof (rule effect [OF sn(2) dn(3) disj(1) la(2) _ la(3)])
    show "right dn = Some ra" using dn(5) ra(1) by simp
    show "la \<noteq> suc" "la \<noteq> del" using la(4) disj(4) dis(5) by auto
    show "parent dn = Some pn_a \<and> s pn_a = Some pn \<and> pn_a \<noteq> suc \<and> pn_a \<noteq> del \<and> pn_a \<noteq> la \<and> pn_a \<noteq> ra" if "\<not> is_root dn"
      using pn fr that disj dis la(4) ra by (cases "kl = []") auto
    show "ra = suc" if "parent sn = Some del" using that ps ra(2) by simp
    show "parent sn = Some ha \<and> ha \<noteq> suc \<and> ha \<noteq> del \<and> ha \<noteq> la \<and> s ha = Some hn \<and> ra \<noteq> suc \<and> ra \<noteq> del \<and> ra \<noteq> la \<and> s ra = Some rn \<and>
      (\<not> is_root dn \<longrightarrow> ha \<noteq> pn_a)" if "parent sn \<noteq> Some del"
      using that ps hn ra(3) sn(3) disj dis la(4) pn fr by auto
  qed
  have ctx_k: "ctx_at s' up (if k = [] then Some suc else root) k (parent dn) (Some suc) (is_root dn)"
    by (rule ctx_fill [OF dn(7) dis(1)])
      (use disj dis la(4) ra hn pn fr ps in \<open>auto simp: s'_def pn_a_def [symmetric]\<close>)
  have l': "tree_at s False (Some del) (ptr l) l" using dn(6) la(1,2) by simp
  have lt: "tree_at s' False (Some suc) (ptr l) l"
    by (rule tree_at_new_parent [OF l' dis(2)])
      (use disj dis la ra hn pn fr ps in \<open>auto simp: s'_def\<close>)
  have srt: "tree_at s' False (Some suc) (ptr sr) sr"
    by (rule tree_at_cong [THEN iffD2, OF _ sn(7)])
      (use disj dis la ra hn pn fr ps in \<open>auto simp: s'_def\<close>)
  define par' where "par' = (if kl = [] then Some suc else par)"
  have path_kl: "path_at s' (Some suc) (if kl = [] then Some del else p1) f1 kl par' (Some del) False"
  proof (cases kl)
    case Nil
    then show ?thesis using dn(2) by (simp add: par'_def)
  next
    case (Cons x kl')
    obtain d' a' c' u' where x: "x = (d', a', c', u')" by (cases x)
    have d': "d' = L" "a' = ha" using kl Cons x by (simp_all add: ha_def)
    define s1 where "s1 = (\<lambda>z. if Some z = p1 then map_option (\<lambda>n. n\<lparr>parent := Some suc\<rparr>) (s z) else s z)"
    have "path_at s1 (Some suc) p1 f1 kl par p f"
      by (rule path_reparent [OF pa(2) _ dis(6)]) (use Cons in \<open>auto simp: s1_def\<close>)
    then have p1': "path_at s1 (Some suc) p1 f1 ((L, ha, c', u') # kl') par p f" unfolding Cons x d' .
    have ne: "kl \<noteq> []" "parent sn \<noteq> Some del" using Cons ps by auto
    note hr = hn [OF ne(1)] ra(3) [OF ne(1)]
    have q: "s' z = (if z = ha then map_option (set_near L (Some del)) (s1 z) else s1 z)" if "z \<in> ctx_set kl" for z
    proof -
      have "z \<noteq> suc" "z \<noteq> del" "z \<noteq> la" using that disj(3) dis(8,9) la(4) by auto
      moreover have "\<not> (\<not> is_root dn \<and> z = pn_a)" using that pn fr dis(7) by auto
      ultimately show ?thesis
        using hr ne(2) ra(1) by (cases "z = ra"; cases "z = ha") (auto simp: s'_def s1_def set_near_simps)
    qed
    have "path_at s' (Some suc) p1 f1 ((L, ha, c', u') # kl') par (Some del) f"
      by (rule path_fill [OF p1']) (use dis(6) q Cons x d' in auto)
    moreover have "\<not> f" using path_par [OF pa(2)] Cons by auto
    ultimately show ?thesis using Cons x d' by (simp add: par'_def)
  qed
  have ctx: "ctx_at s' up (if is_root dn then Some suc else root) (kl @ (R, suc, c, l) # k) par' (Some del) False"
    unfolding path_at_append
  proof (intro exI conjI)
    show "path_at s' (Some suc) (if kl = [] then Some del else p1) f1 kl par' (Some del) False" by (rule path_kl)
    show "ctx_at s' up (if is_root dn then Some suc else root) ((R, suc, c, l) # k) (Some suc) (if kl = [] then Some del else p1) f1"
      using ctx_k lt dn(2,4) la ra(1) ps fr sn(4) ctx_root [OF z(1)] by (auto simp: s'_def)
  qed
  have "evolves (plug ?K (join L Lf suc cs sr)) s s'"
    using sn(2) dn(3) la(3,4) pn hn ra fr ps by (auto simp: evolves_def s'_def)
  then show ?thesis
    using swap ctx srt sn(3,5) ps disj(1)
    by (intro exI [of _ s'] exI [of _ "if is_root dn then Some suc else root"] exI [of _ par']) (auto simp: s'_def par'_def)
qed

text \<open>The colours are repaired after the node \<open>del\<close>, which had at most one child, is unlinked.\<close>

lemma delete_finish:
  assumes lev: "level s up root (plug k ch)" and del: "s del = Some dn" "k \<noteq> [] \<longrightarrow> parent dn = Some (fst (snd (hd k)))"
    and inv: "invc (plug k (join L Lf a (color dn) ch))" "invh (plug k (join L Lf a (color dn) ch))"
      "tcolor (plug k (join L Lf a (color dn) ch)) = BLACK"
  shows "\<exists>s' root' t'. do {
       d \<leftarrow> node_get s (Some del);
       if color d = BLACK then do {
         (s, child, rootp) \<leftarrow> delete_loop s (ptr ch) (parent d) root;
         red \<leftarrow> IS_RED s child;
         s \<leftarrow> (if red then MAKE_BLACK s child else Some s);
         Some (s, rootp) }
       else Some (s, root) } = Some (s', root') \<and> rb_level s' up root' t' \<and> evolves (plug k ch) s s' \<and>
    inorder t' = inorder (plug k ch)"
proof (cases "color dn")
  case BLACK
  have h: "invh ch" "bheight ch = 0" "ctxh k 1" "invc ch" "ctxc k BLACK"
    using inv(1,2) BLACK bheight_join [of Lf ch L a BLACK] by (auto simp: invh_plug invc_plug)
  have "repaired s up (plug k ch) (delete_loop s (ptr ch) (parent dn) root)"
  proof (rule delete_loop_ok [OF lev _ h(1) _ h(5)])
    show "invc (blacken ch)" using h(4) by simp
    show "ctxh k (bheight ch + 1)" using h(2,3) by simp
    show "k \<noteq> [] \<longrightarrow> tcolor (plug k Lf) = BLACK \<and> parent dn = Some (fst (snd (hd k)))"
      using inv(3) del(2) tcolor_plug [of k Lf "join L Lf a (color dn) ch"] by simp
  qed
  then obtain s1 root1 k1 t1 where r: "delete_loop s (ptr ch) (parent dn) root = Some (s1, ptr t1, root1)" "level s1 up root1 (plug k1 t1)"
    "evolves (plug k ch) s s1" "inorder (plug k1 t1) = inorder (plug k ch)" "invc (plug k1 (blacken t1))" "invh (plug k1 (blacken t1))"
    "tcolor (plug k1 (blacken t1)) = BLACK" by (auto simp: repaired_def)
  note red = level_color(1) [OF r(2)]
  show ?thesis
  proof (cases "tcolor t1 = RED")
    case True
    then obtain A x B where t1: "t1 = join L A x RED B" by (cases t1 rule: join_cases [where d = L]) auto
    obtain s2 where s2: "MAKE_BLACK s1 (Some x) = Some s2" "level s2 up root1 (plug k1 (join L A x BLACK B))" "evolves (plug k1 t1) s1 s2"
      using make_color(1) [of s1 up root1 k1 L A x RED B] r(2) t1 by auto
    have "inorder (plug k1 (blacken t1)) = inorder (plug k ch)" using inorder_plug [of "blacken t1" t1 k1] r(4) by simp
    moreover have "evolves (plug k ch) s s2" using evolves_trans [OF r(3) s2(3)] r(4) by metis
    moreover have "rb_level s2 up root1 (plug k1 (blacken t1))" using s2(2) r(5-7) by (simp add: rb_level_def t1)
    ultimately show ?thesis using del(1) BLACK r(1) red True s2(1) t1 by auto
  next
    case False
    then have "blacken t1 = t1" by simp
    then have "rb_level s1 up root1 (plug k1 t1)" using r(2,5-7) by (simp add: rb_level_def)
    then show ?thesis using del(1) BLACK r(1,3,4) red False by auto
  qed
next
  case RED
  have h: "invh ch" "bheight ch = 0" "ctxh k 0" "invc ch" "ctxc k RED" "tcolor ch = BLACK"
    using inv(1,2) RED bheight_join [of Lf ch L a RED] by (auto simp: invh_plug invc_plug)
  have kn: "k \<noteq> []" using inv(3) RED by auto
  have "ctxc k BLACK" using h(5) by (cases k) auto
  then have "rb_level s up root (plug k ch)"
    using lev h inv(3) tcolor_plug [OF kn, of ch "join L Lf a (color dn) ch"] by (auto simp: rb_level_def invc_plug invh_plug)
  then show ?thesis using del(1) RED by (auto simp: evolves_def)
qed

lemma rename_ctx:
  "ctxh (kl @ (d, a, c, u) # k) n = ctxh (kl @ (d, a', c, u) # k) n" "ctxc (kl @ (d, a, c, u) # k) h = ctxc (kl @ (d, a', c, u) # k) h"
  "tcolor (plug (kl @ (d, a, c, u) # k) t) = tcolor (plug (kl @ (d, a', c, u) # k) t)"
proof -
  show "ctxh (kl @ (d, a, c, u) # k) n = ctxh (kl @ (d, a', c, u) # k) n"
    by (induction kl arbitrary: n) auto
  show "ctxc (kl @ (d, a, c, u) # k) h = ctxc (kl @ (d, a', c, u) # k) h"
    by (induction kl arbitrary: h) auto
  have "tcolor (plug ((d, a, c, u) # k) t) = tcolor (plug ((d, a', c, u) # k) t)" for t
  proof (cases k)
    case (Cons x k')
    then show ?thesis using tcolor_plug [of k "join d t a c u" "join d t a' c u"] by simp
  qed simp
  then show "tcolor (plug (kl @ (d, a, c, u) # k) t) = tcolor (plug (kl @ (d, a', c, u) # k) t)"
    by (simp add: plug_append)
qed

lemma left_path: "\<forall>x \<in> set kl. fst x = L \<Longrightarrow> \<exists>zs. \<forall>t. inorder (plug kl t) = inorder t @ zs"
proof (induction kl)
  case (Cons x kl)
  obtain a c u where x: "x = (L, a, c, u)" using Cons.prems by (cases x) auto
  obtain zs where zs: "inorder (plug kl t) = inorder t @ zs" for t using Cons by auto
  have "inorder (plug (x # kl) t) = inorder t @ (a # inorder u @ zs)" for t by (simp add: x zs)
  then show ?case by blast
qed (simp add: exI [of _ "[]"])

lemma inorder_remove:
  assumes "distinct (inorder (plug k (join d l a c r)))" and "l = Lf \<or> r = Lf"
  shows "inorder (plug k (if l = Lf then r else l)) = remove1 a (inorder (plug k (join d l a c r)))"
proof -
  obtain xs ys where xy: "inorder (plug k t) = xs @ inorder t @ ys" for t using inorder_plug_split by blast
  have "a \<notin> set xs" "a \<notin> set (inorder l)" "a \<notin> set (inorder r)"
    using assms(1) unfolding xy by (cases d; auto)+
  then show ?thesis using assms(2) unfolding xy by (cases d) (auto simp: remove1_append)
qed

lemma inorder_swap_remove:
  assumes "distinct (inorder (plug (kl @ (R, del, c, l) # k) (join L Lf suc cs sr)))" and "\<forall>x \<in> set kl. fst x = L"
  shows "inorder (plug (kl @ (R, suc, c, l) # k) sr) = remove1 del (inorder (plug (kl @ (R, del, c, l) # k) (join L Lf suc cs sr)))"
proof -
  obtain xs ys where xy: "inorder (plug k t) = xs @ inorder t @ ys" for t using inorder_plug_split by blast
  obtain zs where zs: "inorder (plug kl t) = inorder t @ zs" for t using left_path [OF assms(2)] by blast
  have i: "inorder (plug (kl @ (R, del, c, l) # k) (join L Lf suc cs sr)) = xs @ (inorder l @ del # suc # inorder sr @ zs) @ ys"
    by (simp add: plug_append xy zs)
  have "del \<notin> set xs" "del \<notin> set (inorder l)" using assms(1) unfolding i by auto
  then show ?thesis unfolding i by (simp add: plug_append xy zs remove1_append)
qed


lemma delete_checks:
  assumes "level s up root (plug k (join L l del c r))"
  obtains dn where "s del = Some dn" and "left dn = ptr l" and "right dn = ptr r" and "color dn = c" and "is_root dn \<longleftrightarrow> k = []"
    and "parent dn = (if k = [] then up else Some (fst (snd (hd k))))"
    and "(if is_root dn then REQUIRE (root = Some del)
      else do { p \<leftarrow> node_get s (parent dn); REQUIRE (left p = Some del \<or> right p = Some del) }) = Some ()"
proof -
  obtain dn where dn: "s del = Some dn" "color dn = c" "left dn = ptr l" "right dn = ptr r" "is_root dn \<longleftrightarrow> k = []"
    "parent dn = (if k = [] then up else Some (fst (snd (hd k))))" "root = Some del \<longleftrightarrow> k = []"
    using level_node [OF assms] by (metis near_simps(1,3))
  have "(if is_root dn then REQUIRE (root = Some del)
      else do { p \<leftarrow> node_get s (parent dn); REQUIRE (left p = Some del \<or> right p = Some del) }) = Some ()"
  proof (cases k)
    case (Cons x k')
    obtain d p cp u where x: "x = (d, p, cp, u)" by (cases x)
    have "level s up root (plug k' (join d (join L l del c r) p cp u))" using assms Cons x by simp
    from level_node [OF this] obtain pn where "s p = Some pn" "near d pn = Some del" by auto
    then show ?thesis using dn Cons x by (cases d) auto
  qed (use dn in simp)
  then show ?thesis using that dn by blast
qed

text \<open>The part of the function after the choice of the child.\<close>

lemma delete_tail:
  assumes ctx: "ctx_at s up root k (parent dn) (Some del) (is_root dn)" "distinct (inorder (plug k Lf))" and del: "s del = Some dn"
      "del \<notin> ctx_set k" "del \<notin> set (inorder ch)"
    and ch: "tree_at s False q (ptr ch) ch" "distinct (inorder ch)" "ctx_set k \<inter> set (inorder ch) = {}" "k = [] \<longrightarrow> ch \<noteq> Lf"
    and inv: "invc (plug k (join L Lf a (color dn) ch))" "invh (plug k (join L Lf a (color dn) ch))"
      "tcolor (plug k (join L Lf a (color dn) ch)) = BLACK"
  shows "\<exists>s' root' t'. do {
       (s, rootp) \<leftarrow> unlink s (Some del) (ptr ch) root;
       d \<leftarrow> node_get s (Some del);
       if color d = BLACK then do {
         (s, child, rootp) \<leftarrow> delete_loop s (ptr ch) (parent d) rootp;
         red \<leftarrow> IS_RED s child;
         s \<leftarrow> (if red then MAKE_BLACK s child else Some s);
         Some (s, rootp) }
       else Some (s, rootp) } = Some (s', root') \<and> rb_level s' up root' t' \<and> evolves (plug k ch) s s' \<and>
    inorder t' = inorder (plug k ch)"
proof -
  obtain s1 root1 where s1: "unlink s (Some del) (ptr ch) root = Some (s1, root1)" "level s1 up root1 (plug k ch)" "s1 del = s del"
    "evolves (plug k ch) s s1" using unlink_ok [OF ctx del(1) refl refl del(2,3) ch] by blast
  have p: "k \<noteq> [] \<longrightarrow> parent dn = Some (fst (snd (hd k)))" using path_par [OF ctx(1)] by auto
  have d1: "s1 del = Some dn" using s1(3) del(1) by simp
  from delete_finish [OF s1(2) d1 p inv] obtain s2 root2 t2 where s2: "do {
       d \<leftarrow> node_get s1 (Some del);
       if color d = BLACK then do {
         (s, child, rootp) \<leftarrow> delete_loop s1 (ptr ch) (parent d) root1;
         red \<leftarrow> IS_RED s child;
         s \<leftarrow> (if red then MAKE_BLACK s child else Some s);
         Some (s, rootp) }
       else Some (s1, root1) } = Some (s2, root2)" "rb_level s2 up root2 t2" "evolves (plug k ch) s1 s2" "inorder t2 = inorder (plug k ch)"
    by blast
  moreover have "evolves (plug k ch) s s2" using evolves_trans [OF s1(4) s2(3)] by blast
  ultimately show ?thesis using s1(1) by auto
qed

lemma delete_split:
  assumes "s del = Some dn" and "(if is_root dn then REQUIRE (root = Some del)
      else do { p \<leftarrow> node_get s (parent dn); REQUIRE (left p = Some del \<or> right p = Some del) }) = Some ()"
    and "\<not> (left dn = None \<and> right dn = None \<and> is_root dn)"
    and "(if left dn = None then Some (s, right dn, root)
          else if right dn = None then Some (s, left dn, root)
          else do {
            successor \<leftarrow> leftmost s (right dn);
            c \<leftarrow> node_get s successor;
            (s, rootp) \<leftarrow> swap_successor s (Some del) successor root;
            Some (s, right c, rootp) }) = Some (s1, child, root1)"
  shows "dns_rbt_deletefromlevel s (Some del) root = do {
       (s, rootp) \<leftarrow> unlink s1 (Some del) child root1;
       d \<leftarrow> node_get s (Some del);
       if color d = BLACK then do {
         (s, child, rootp) \<leftarrow> delete_loop s child (parent d) rootp;
         red \<leftarrow> IS_RED s child;
         s \<leftarrow> (if red then MAKE_BLACK s child else Some s);
         Some (s, rootp) }
       else Some (s, rootp) }"
  unfolding dns_rbt_deletefromlevel_def node_get_Some assms(1) bind.bind_lunit assms(2,4) split_conv
  using assms(3) by (simp only: if_False)

lemma evolves_subset: "evolves t s s' \<Longrightarrow> set (inorder t) \<subseteq> set (inorder t') \<Longrightarrow> evolves t' s s'"
  by (auto simp: evolves_def)

lemma deletefromlevel_ok:
  assumes lev: "rb_level s up root t" and del: "del \<in> set (inorder t)"
  shows "\<exists>s' root' t'. dns_rbt_deletefromlevel s (Some del) root = Some (s', root') \<and> rb_level s' up root' t' \<and> evolves t s s' \<and>
    inorder t' = remove1 del (inorder t)"
proof -
  obtain k l c r where t: "t = plug k (join L l del c r)" using focus [OF del] .
  have lv: "level s up root (plug k (join L l del c r))" and inv: "invc t" "invh t" "tcolor t = BLACK" and dis: "distinct (inorder t)"
    using lev t by (auto simp: rb_level_def level_def)
  obtain dn where dn: "s del = Some dn" "left dn = ptr l" "right dn = ptr r" "color dn = c" "is_root dn \<longleftrightarrow> k = []"
    "parent dn = (if k = [] then up else Some (fst (snd (hd k))))"
    and chk: "(if is_root dn then REQUIRE (root = Some del)
      else do { p \<leftarrow> node_get s (parent dn); REQUIRE (left p = Some del \<or> right p = Some del) }) = Some ()"
    using delete_checks [OF lv] .
  have pl: "ptr l = None \<longleftrightarrow> l = Lf" "ptr r = None \<longleftrightarrow> r = Lf" by (cases l; simp) (cases r; simp)
  obtain par p f where z: "ctx_at s up root k par p f" "tree_at s f par p (join L l del c r)" "distinct (inorder (plug k Lf))"
    "distinct (inorder (join L l del c r))" "ctx_set k \<inter> set (inorder (join L l del c r)) = {}" using level_parts [OF lv] .
  from tree_at_node [OF z(2)] have z2: "p = Some del" "parent dn = par" "is_root dn = f" "tree_at s False (Some del) (ptr l) l"
    "tree_at s False (Some del) (ptr r) r" using dn(1) by (metis option.inject)+
  consider (only) "l = Lf" "r = Lf" "k = []" | (one) "l = Lf \<or> r = Lf" "\<not> (l = Lf \<and> r = Lf \<and> k = [])" | (two) "l \<noteq> Lf" "r \<noteq> Lf" by blast
  then show ?thesis
  proof cases
    case only
    have "dns_rbt_deletefromlevel s (Some del) root = Some (s, None)"
      using dn(1,2,3,5) chk only by (simp add: dns_rbt_deletefromlevel_def)
    moreover have "rb_level s up None Lf" by (simp add: rb_level_def level_def)
    ultimately show ?thesis using only t by (intro exI [of _ s] exI [of _ None] exI [of _ Lf]) (simp add: evolves_def)
  next
    case one
    define ch where "ch = (if l = Lf then r else l)"
    have c: "tree_at s False (Some del) (ptr ch) ch" "distinct (inorder ch)" "ctx_set k \<inter> set (inorder ch) = {}" "k = [] \<longrightarrow> ch \<noteq> Lf"
      "del \<notin> set (inorder ch)" "del \<notin> ctx_set k" using z(4,5) z2(4,5) one by (auto simp: ch_def)
    have "tcolor (plug k (join L Lf del c ch)) = tcolor t"
      using tcolor_plug [of k "join L Lf del c ch" "join L l del c r"] t by (cases "k = []") simp_all
    then have iv: "invc (plug k (join L Lf del (color dn) ch))" "invh (plug k (join L Lf del (color dn) ch))"
      "tcolor (plug k (join L Lf del (color dn) ch)) = BLACK"
      using inv one dn(4) t by (auto simp: ch_def invc_plug invh_plug bheight_join [of Lf] bheight_join [of _ Lf] split: if_splits)
    have cx: "ctx_at s up root k (parent dn) (Some del) (is_root dn)" using z(1) z2 by simp
    obtain s' root' t' where s': "do {
       (s, rootp) \<leftarrow> unlink s (Some del) (ptr ch) root;
       d \<leftarrow> node_get s (Some del);
       if color d = BLACK then do {
         (s, child, rootp) \<leftarrow> delete_loop s (ptr ch) (parent d) rootp;
         red \<leftarrow> IS_RED s child;
         s \<leftarrow> (if red then MAKE_BLACK s child else Some s);
         Some (s, rootp) }
       else Some (s, rootp) } = Some (s', root')" "rb_level s' up root' t'" "evolves (plug k ch) s s'" "inorder t' = inorder (plug k ch)"
      using delete_tail [OF cx z(3) dn(1) c(6,5,1-4) iv] by blast
    have "dns_rbt_deletefromlevel s (Some del) root = Some (s', root')"
      using delete_split [OF dn(1) chk, of s "ptr ch" root] dn(2,3,5) one pl s'(1) by (cases "l = Lf") (simp_all add: ch_def)
    moreover have "inorder t' = remove1 del (inorder t)"
      using inorder_remove [of k L l del c r] dis t one(1) s'(4) by (simp add: ch_def)
    moreover have "evolves t s s'" by (rule evolves_subset [OF s'(3)]) (auto simp: t ch_def)
    ultimately show ?thesis using s'(2) by blast
  next
    case two
    have "level s up root (plug ((R, del, c, l) # k) r)" using lv by (simp add: join_def)
    from leftmost_ok [OF this two(2)] obtain kl suc cs sr where lm: "leftmost s (ptr r) = Some (Some suc)"
      "r = plug kl (join L Lf suc cs sr)" "\<forall>x \<in> set kl. fst x = L" by blast
    let ?K = "kl @ (R, del, c, l) # k" and ?K' = "kl @ (R, suc, c, l) # k"
    have t2: "t = plug ?K (join L Lf suc cs sr)" using t lm(2) by (simp add: plug_append join_def)
    have lv2: "level s up root (plug ?K (join L Lf suc cs sr))" using lv t t2 by simp
    obtain sn where sn: "s suc = Some sn" "right sn = ptr sr" using level_node [OF lv2] by (metis near_simps(3))
    obtain s1 root1 par' dn' where s1: "swap_successor s (Some del) (Some suc) root = Some (s1, root1)"
      "ctx_at s1 up root1 ?K' par' (Some del) False" "s1 del = Some dn'" "parent dn' = par'" "\<not> is_root dn'" "color dn' = cs"
      "tree_at s1 False (Some suc) (ptr sr) sr" "evolves t s s1" using swap_ok [OF lv2 two(1) lm(3)] t2 by auto
    have dd: "distinct (inorder (plug ?K' sr))" "del \<notin> set (inorder (plug ?K' sr))"
    proof -
      have "inorder (plug ?K' sr) = remove1 del (inorder t)" using inorder_swap_remove [of kl del c l k suc cs sr] dis lm(3) t2 by simp
      then show "distinct (inorder (plug ?K' sr))" "del \<notin> set (inorder (plug ?K' sr))" using dis by simp_all
    qed
    have ds: "distinct (inorder (plug ?K' Lf))" "del \<notin> ctx_set ?K'" "del \<notin> set (inorder sr)" "distinct (inorder sr)"
      "ctx_set ?K' \<inter> set (inorder sr) = {}" using dd distinct_plug [of ?K' sr] by auto
    have iv: "invc (plug ?K' (join L Lf del (color dn') sr))" "invh (plug ?K' (join L Lf del (color dn') sr))"
      "tcolor (plug ?K' (join L Lf del (color dn') sr)) = BLACK"
    proof -
      have e: "tcolor (join L Lf del cs sr) = tcolor (join L Lf suc cs sr)" "bheight (join L Lf del cs sr) = bheight (join L Lf suc cs sr)"
        by (simp_all add: join_def)
      show "invc (plug ?K' (join L Lf del (color dn') sr))" "invh (plug ?K' (join L Lf del (color dn') sr))"
        using inv(1,2) unfolding t2 invc_plug invh_plug s1(6) e rename_ctx [of kl R del c l k _ suc] by auto
      have "tcolor (plug ?K' (join L Lf del cs sr)) = tcolor t"
        unfolding t2 rename_ctx(3) [of kl R del c l k _ suc] by (rule tcolor_plug) simp
      then show "tcolor (plug ?K' (join L Lf del (color dn') sr)) = BLACK" using inv(3) s1(6) by simp
    qed
    have cx: "ctx_at s1 up root1 ?K' (parent dn') (Some del) (is_root dn')" using s1(2,4,5) by simp
    obtain s' root' t' where s': "do {
       (s, rootp) \<leftarrow> unlink s1 (Some del) (ptr sr) root1;
       d \<leftarrow> node_get s (Some del);
       if color d = BLACK then do {
         (s, child, rootp) \<leftarrow> delete_loop s (ptr sr) (parent d) rootp;
         red \<leftarrow> IS_RED s child;
         s \<leftarrow> (if red then MAKE_BLACK s child else Some s);
         Some (s, rootp) }
       else Some (s, rootp) } = Some (s', root')" "rb_level s' up root' t'" "evolves (plug ?K' sr) s1 s'" "inorder t' = inorder (plug ?K' sr)"
      using delete_tail [OF cx ds(1) s1(3) ds(2,3) s1(7) ds(4,5) _ iv] by auto
    have "dns_rbt_deletefromlevel s (Some del) root = Some (s', root')"
      using delete_split [OF dn(1) chk, of s1 "ptr sr" root1] dn(2,3) two pl lm(1) sn s1(1) s'(1) by simp
    moreover have i: "inorder t' = remove1 del (inorder t)"
      using inorder_swap_remove [of kl del c l k suc cs sr] dis lm(3) t2 s'(4) by simp
    moreover have "evolves t s s'"
    proof -
      have "set (inorder (plug ?K' sr)) \<subseteq> set (inorder t)" using i s'(4) by (metis notin_set_remove1 subsetI)
      from evolves_trans [OF s1(8) evolves_subset [OF s'(3) this]] show ?thesis by simp
    qed
    ultimately show ?thesis using s'(2) by blast
  qed
qed

section \<open>Properties\<close>

text \<open>C5: Deletion keeps a level a red-black tree. \<open>dns_rbt_deletefromlevel\<close> of any node of a level returns; the level is again
  a red-black tree with right parent pointers and root flags, or empty; its nodes in order are the old ones without the deleted
  one, each at its old address; nodes of other levels, and the other fields of all nodes, are unchanged.\<close>

theorem level_delete:
  assumes "rb_level s up root t" and "del \<in> set (inorder t)"
  shows "\<exists>s' root' t'. dns_rbt_deletefromlevel s (Some del) root = Some (s', root') \<and> rb_level s' up root' t' \<and> evolves t s s' \<and>
    inorder t' = remove1 del (inorder t)"
  by (rule deletefromlevel_ok [OF assms])

theorem level_delete_witness:
  "\<exists>s' root' t'. dns_rbt_deletefromlevel [1 \<mapsto> new_node\<lparr>right := Some 2, is_root := True\<rparr>, 2 \<mapsto> new_node\<lparr>parent := Some 1, color := RED\<rparr>]
      (Some 1) (Some 1) = Some (s', root') \<and> rb_level s' None root' t' \<and>
    evolves (Nd Lf 1 BLACK (Nd Lf 2 RED Lf)) [1 \<mapsto> new_node\<lparr>right := Some 2, is_root := True\<rparr>, 2 \<mapsto> new_node\<lparr>parent := Some 1, color := RED\<rparr>] s' \<and>
    inorder t' = [2]"
proof -
  have "rb_level [1 \<mapsto> new_node\<lparr>right := Some 2, is_root := True\<rparr>, 2 \<mapsto> new_node\<lparr>parent := Some 1, color := RED\<rparr>] None (Some 1)
      (Nd Lf 1 BLACK (Nd Lf 2 RED Lf))"
    by (simp add: rb_level_def level_def)
  from level_delete [OF this, of 1] show ?thesis by simp
qed

end
