(* ===== verification/Isc_Hash.thy ===== *)
theory Isc_Hash
  imports Dns_Name
begin

text \<open>
  The universal hash of \<open>lib/isc/hash.c\<close> and the random numbers of \<open>lib/isc/random.c\<close> that fill its vector. 

  A context is a record; \<open>hash\<close>, the context the library shares, is passed and returned as \<open>isc_hash option\<close>. The vector
  is kept as the bytes of its memory, little endian. Parameters: the outcome of allocations and of the creation of the
  lock and of the counter (\<open>hash_env\<close>), the values the coming calls of \<open>rand()\<close> return, and the bytes of the entropy source.
  Locks are not modelled.
\<close>

section \<open>Random numbers\<close>

text \<open>\<open>rand\<close> lists the values of the coming calls of \<open>rand()\<close>, with \<open>RAND_MAX\<close> at least \<open>0xfffff\<close>; each call of
  \<open>isc_random_get\<close> takes two.\<close>

definition isc_random_get :: "(nat \<Rightarrow> u32) \<Rightarrow> nat \<Rightarrow> u32 \<times> nat" where
  "isc_random_get rand k =
     ((drop_bit 4 (rand k) AND 0xffff) OR (push_bit 12 (rand (k + 1)) AND 0xffff0000), k + 2)"

definition isc_random_jitter :: "(nat \<Rightarrow> u32) \<Rightarrow> u32 \<Rightarrow> u32 \<Rightarrow> u32 option" where
  "isc_random_jitter rand maxval jitter = do {
     REQUIRE (jitter < maxval \<or> jitter = 0 \<and> maxval = 0);
     if jitter = 0 then Some maxval
     else let (rnd, _) = isc_random_get rand 0 in Some (maxval - rnd mod jitter) }"

section \<open>Contexts\<close>

definition HASH_MAGIC :: u32 where
  "HASH_MAGIC = 0x48617368"

definition PRIME32 :: u32 where
  "PRIME32 = 0xFFFFFFFB"

record isc_hash =
  hc_magic :: u32
  hc_initialized :: bool
  hc_refcnt :: nat
  hc_entropy :: bool
  hc_limit :: u32
  hc_vectorlen :: nat
  hc_rndvector :: bytes

definition VALID_HASH :: "isc_hash \<Rightarrow> bool" where
  "VALID_HASH h = (hc_magic h = HASH_MAGIC)"

record hash_env =
  he_mem :: bool
  he_vector :: "nat \<Rightarrow> bytes option"
  he_mutex :: isc_result
  he_refcount :: isc_result

definition isc_hash_ctxcreate ::
    "hash_env \<Rightarrow> bool \<Rightarrow> u32 \<Rightarrow> isc_hash option \<Rightarrow> (isc_result \<times> isc_hash option) option" where
  "isc_hash_ctxcreate env entropy limit hctxp = do {
     REQUIRE (hctxp = None);
     let overflow_limit = push_bit ((4 - 2) * 8) (1::u32) in
     if overflow_limit < (limit + 1) * 0xff then Some (ISC_R_RANGE, None)
     else if \<not> he_mem env then Some (ISC_R_NOMEMORY, None)
     else let vlen = 2 * unat (limit + 1) in
       case he_vector env vlen of
         None \<Rightarrow> Some (ISC_R_NOMEMORY, None)
       | Some rv \<Rightarrow>
           if he_mutex env \<noteq> ISC_R_SUCCESS then Some (he_mutex env, None)
           else if he_refcount env \<noteq> ISC_R_SUCCESS then Some (he_refcount env, None)
           else Some (ISC_R_SUCCESS, Some \<lparr>hc_magic = HASH_MAGIC, hc_initialized = False, hc_refcnt = 1,
             hc_entropy = entropy, hc_limit = limit, hc_vectorlen = vlen, hc_rndvector = rv\<rparr>) }"

text \<open>The \<open>size_t\<close> argument is passed on as an \<open>unsigned int\<close>.\<close>

definition isc_hash_create :: "hash_env \<Rightarrow> bool \<Rightarrow> u64 \<Rightarrow> isc_hash option \<Rightarrow> (isc_result \<times> isc_hash option) option" where
  "isc_hash_create env entropy limit hash = do {
     REQUIRE (hash = None);
     isc_hash_ctxcreate env entropy (ucast limit) hash }"

text \<open>The loop that fills the vector from \<open>isc_random_get\<close>; \<open>p\<close> is the position of the pointer in the vector.\<close>

partial_function (option) ctxinit_loop :: "(nat \<Rightarrow> u32) \<Rightarrow> nat \<Rightarrow> u32 \<Rightarrow> nat \<Rightarrow> nat \<Rightarrow> bytes \<Rightarrow> (bytes \<times> nat) option" where
  "ctxinit_loop rand k i p vectorlen rv =
     (if unat i < vectorlen then
        let (pr, k) = isc_random_get rand k;
            copylen = (if unat i + 4 \<le> vectorlen then 4 else of_nat (vectorlen - unat i)) in do {
        rv \<leftarrow> mem_write rv p (take (unat (copylen :: u32)) (rev (be32 pr)));
        ctxinit_loop rand k (i + copylen) (p + unat copylen) vectorlen rv }
      else Some (rv, p))"

text \<open>\<open>getdata\<close> is \<open>isc_entropy_getdata\<close>: its result and the bytes it stores.\<close>

definition isc_hash_ctxinit :: "(nat \<Rightarrow> isc_result \<times> bytes) \<Rightarrow> (nat \<Rightarrow> u32) \<Rightarrow> isc_hash \<Rightarrow> isc_hash option" where
  "isc_hash_ctxinit getdata rand hctx =
     (if hc_initialized hctx then Some hctx
      else do {
        rv \<leftarrow>
          (if hc_entropy hctx then do {
             let (result, data) = getdata (hc_vectorlen hctx) in do {
             rv \<leftarrow> mem_write (hc_rndvector hctx) 0 data;
             REQUIRE (result = ISC_R_SUCCESS);
             Some rv } }
           else do {
             (rv, p) \<leftarrow> ctxinit_loop rand 0 0 0 (hc_vectorlen hctx) (hc_rndvector hctx);
             REQUIRE (p = hc_vectorlen hctx);
             Some rv });
        Some (hctx\<lparr>hc_rndvector := rv, hc_initialized := True\<rparr>) })"

definition isc_hash_init :: "(nat \<Rightarrow> isc_result \<times> bytes) \<Rightarrow> (nat \<Rightarrow> u32) \<Rightarrow> isc_hash option \<Rightarrow> isc_hash option option" where
  "isc_hash_init getdata rand hash = do {
     hctx \<leftarrow> hash;
     REQUIRE (VALID_HASH hctx);
     hctx \<leftarrow> isc_hash_ctxinit getdata rand hctx;
     Some (Some hctx) }"

definition isc_hash_ctxattach :: "isc_hash \<Rightarrow> isc_hash option" where
  "isc_hash_ctxattach hctx = do {
     REQUIRE (VALID_HASH hctx);
     Some (hctx\<lparr>hc_refcnt := hc_refcnt hctx + 1\<rparr>) }"

text \<open>A reference is given up; \<open>None\<close> inside the result is a context that has been freed. \<open>isc_refcount_decrement\<close>
  requires a positive count and \<open>isc_refcount_destroy\<close>, in \<open>destroy\<close>, a count of zero.\<close>

definition isc_hash_ctxdetach :: "isc_hash \<Rightarrow> isc_hash option option" where
  "isc_hash_ctxdetach hctx = do {
     REQUIRE (VALID_HASH hctx);
     REQUIRE (hc_refcnt hctx > 0);
     let refs = hc_refcnt hctx - 1 in
     Some (if refs = 0 then None else Some (hctx\<lparr>hc_refcnt := refs\<rparr>)) }"

definition isc_hash_destroy :: "isc_hash option \<Rightarrow> isc_hash option option" where
  "isc_hash_destroy hash = do {
     hctx \<leftarrow> hash;
     REQUIRE (VALID_HASH hctx);
     REQUIRE (hc_refcnt hctx > 0);
     let refs = hc_refcnt hctx - 1 in do {
     REQUIRE (refs = 0);
     Some None } }"

section \<open>Hash values\<close>

text \<open>\<open>p[i]\<close> of the vector. The table \<open>maptolower\<close> of the file has the contents of the one in \<open>lib/dns/name.c\<close>.\<close>

definition rnd_at :: "bytes \<Rightarrow> nat \<Rightarrow> u16 option" where
  "rnd_at rv i = do { b \<leftarrow> mem_read rv (2 * i) 2; Some (of_be16 (b ! 1) (b ! 0)) }"

fun hash_sum :: "bool \<Rightarrow> bytes \<Rightarrow> bytes \<Rightarrow> nat \<Rightarrow> nat \<Rightarrow> u32 \<Rightarrow> u32 option" where
  "hash_sum case_sensitive rv key i 0 partial_sum = Some partial_sum"
| "hash_sum case_sensitive rv key i (Suc n) partial_sum = do {
     k \<leftarrow> rd key i;
     p \<leftarrow> rnd_at rv i;
     hash_sum case_sensitive rv key (i + 1) n
       (partial_sum + ucast (if case_sensitive then k else maptolower k) * ucast p) }"

definition hash_calc ::
    "(nat \<Rightarrow> isc_result \<times> bytes) \<Rightarrow> (nat \<Rightarrow> u32) \<Rightarrow> isc_hash \<Rightarrow> bytes \<Rightarrow> nat \<Rightarrow> bool \<Rightarrow> (u32 \<times> isc_hash) option" where
  "hash_calc getdata rand hctx key keylen case_sensitive = do {
     hctx \<leftarrow> (if \<not> hc_initialized hctx then isc_hash_ctxinit getdata rand hctx else Some hctx);
     partial_sum \<leftarrow> hash_sum case_sensitive (hc_rndvector hctx) key 0 keylen 0;
     p \<leftarrow> rnd_at (hc_rndvector hctx) keylen;
     Some ((partial_sum + ucast p) mod PRIME32, hctx) }"

definition isc_hash_ctxcalc ::
    "(nat \<Rightarrow> isc_result \<times> bytes) \<Rightarrow> (nat \<Rightarrow> u32) \<Rightarrow> isc_hash \<Rightarrow> bytes \<Rightarrow> nat \<Rightarrow> bool \<Rightarrow> (u32 \<times> isc_hash) option" where
  "isc_hash_ctxcalc getdata rand hctx key keylen case_sensitive = do {
     REQUIRE (VALID_HASH hctx);
     REQUIRE (keylen \<le> unat (hc_limit hctx));
     hash_calc getdata rand hctx key keylen case_sensitive }"

definition isc_hash_calc ::
    "(nat \<Rightarrow> isc_result \<times> bytes) \<Rightarrow> (nat \<Rightarrow> u32) \<Rightarrow> isc_hash option \<Rightarrow> bytes \<Rightarrow> nat \<Rightarrow> bool \<Rightarrow> (u32 \<times> isc_hash option) option" where
  "isc_hash_calc getdata rand hash key keylen case_sensitive = do {
     hctx \<leftarrow> hash;
     REQUIRE (VALID_HASH hctx);
     REQUIRE (keylen \<le> unat (hc_limit hctx));
     (h, hctx) \<leftarrow> hash_calc getdata rand hctx key keylen case_sensitive;
     Some (h, Some hctx) }"

text \<open>From \<open>lib/dns/name.c\<close>: the hash of a name by this function.\<close>

definition dns_name_fullhash ::
    "(nat \<Rightarrow> isc_result \<times> bytes) \<Rightarrow> (nat \<Rightarrow> u32) \<Rightarrow> isc_hash option \<Rightarrow> dns_name \<Rightarrow> bool \<Rightarrow> (u32 \<times> isc_hash option) option" where
  "dns_name_fullhash getdata rand hash name case_sensitive = do {
     REQUIRE (VALID_NAME name);
     if n_labels name = 0 then Some (0, hash)
     else isc_hash_calc getdata rand hash (n_ndata name) (n_length name) case_sensitive }"

definition dns_fullname_hash ::
    "(nat \<Rightarrow> isc_result \<times> bytes) \<Rightarrow> (nat \<Rightarrow> u32) \<Rightarrow> isc_hash option \<Rightarrow> dns_name \<Rightarrow> bool \<Rightarrow> (u32 \<times> isc_hash option) option" where
  "dns_fullname_hash getdata rand hash name case_sensitive = do {
     REQUIRE (VALID_NAME name);
     dns_name_fullhash getdata rand hash name case_sensitive }"

section \<open>Values without overflow\<close>

definition rnd_vector :: "isc_hash \<Rightarrow> u16 list" where
  "rnd_vector h = map (\<lambda>i. of_be16 (hc_rndvector h ! (2 * i + 1)) (hc_rndvector h ! (2 * i))) [0..<length (hc_rndvector h) div 2]"

definition folded :: "bool \<Rightarrow> u8 \<Rightarrow> u8" where
  "folded case_sensitive k = (if case_sensitive then k else maptolower k)"

text \<open>The hash value as a number, with sums and products of unbounded numbers.\<close>

definition hash_value :: "bool \<Rightarrow> u16 list \<Rightarrow> bytes \<Rightarrow> nat" where
  "hash_value case_sensitive v key =
     ((\<Sum>i<length key. unat (folded case_sensitive (key ! i)) * unat (v ! i)) + unat (v ! length key)) mod 4294967291"

definition hash_ready :: "isc_hash \<Rightarrow> bool" where
  "hash_ready h \<longleftrightarrow> VALID_HASH h \<and> hc_initialized h \<and> unat (hc_limit h) \<le> 256 \<and>
     length (hc_rndvector h) = 2 * (unat (hc_limit h) + 1)"

lemma rnd_at_vector: "i < length (hc_rndvector h) div 2 \<Longrightarrow> rnd_at (hc_rndvector h) i = Some (rnd_vector h ! i)"
  by (auto simp: rnd_at_def rnd_vector_def mem_read_def)

lemma u8_u16_product: "unat (a::u8) * unat (b::u16) \<le> 255 * 65535"
  using unsigned_less [of a, where 'a = nat] unsigned_less [of b, where 'a = nat] by (intro mult_le_mono) simp_all

lemma unat_widen: "unat (ucast (a::u8) :: u32) = unat a" "unat (ucast (b::u16) :: u32) = unat b"
  using unsigned_less [of a, where 'a = nat] unsigned_less [of b, where 'a = nat]
  by (simp_all add: unsigned_ucast_eq take_bit_nat_eq_self)

lemma unat_product: "unat (ucast (a::u8) * ucast (b::u16) :: u32) = unat a * unat b"
  using u8_u16_product [of a b] by (simp add: unat_word_ariths unat_widen)

lemma hash_sum_exact:
  assumes "i + n \<le> 256" and "i + n \<le> length key" and "i + n \<le> length (hc_rndvector h) div 2" and "unat s \<le> i * (255 * 65535)"
  shows "\<exists>s'. hash_sum cs (hc_rndvector h) key i n s = Some s' \<and>
    unat s' = unat s + (\<Sum>j = i..<i + n. unat (folded cs (key ! j)) * unat (rnd_vector h ! j)) \<and> unat s' \<le> (i + n) * (255 * 65535)"
  using assms
proof (induction n arbitrary: i s)
  case (Suc n)
  let ?p = "unat (folded cs (key ! i)) * unat (rnd_vector h ! i)"
  let ?s = "s + ucast (folded cs (key ! i)) * ucast (rnd_vector h ! i) :: u32"
  have le: "unat s + ?p \<le> Suc i * (255 * 65535)" using Suc.prems(4) u8_u16_product [of "folded cs (key ! i)" "rnd_vector h ! i"] by simp
  also have "\<dots> \<le> 256 * (255 * 65535)" using Suc.prems(1) by (intro mult_le_mono1) simp
  finally have u: "unat ?s = unat s + ?p" by (simp add: unat_word_ariths(1) unat_product)
  have r: "rd key i = Some (key ! i)" "rnd_at (hc_rndvector h) i = Some (rnd_vector h ! i)"
    using Suc.prems by (simp_all add: rd_def rnd_at_vector)
  have "{i..<i + Suc n} = insert i {Suc i..<Suc i + n}" by auto
  then show ?case using Suc.IH [of "Suc i" ?s] Suc.prems le u r by (auto simp: folded_def)
qed simp

lemma hash_calc_exact:
  assumes "hash_ready h" and "length key \<le> unat (hc_limit h)"
  shows "isc_hash_ctxcalc getdata rand h key (length key) cs = Some (of_nat (hash_value cs (rnd_vector h) key), h)"
proof -
  note d = assms [unfolded hash_ready_def]
  obtain s where s: "hash_sum cs (hc_rndvector h) key 0 (length key) 0 = Some s"
    "unat s = (\<Sum>j<length key. unat (folded cs (key ! j)) * unat (rnd_vector h ! j))" "unat s \<le> length key * (255 * 65535)"
    using hash_sum_exact [of 0 "length key" key h 0 cs] d by (auto simp: atLeast0LessThan)
  let ?v = "rnd_vector h ! length key"
  have "unat s \<le> 256 * (255 * 65535)" using s(3) d by (meson le_trans mult_le_mono1)
  moreover have "unat ?v < 65536" using unsigned_less [of ?v, where 'a = nat] by simp
  ultimately have "unat (s + ucast ?v) = unat s + unat ?v" by (simp add: unat_word_ariths(1) unat_widen)
  then have u: "unat ((s + ucast ?v) mod PRIME32) = hash_value cs (rnd_vector h) key"
    by (simp add: unat_mod PRIME32_def hash_value_def s(2))
  have "(s + ucast ?v) mod PRIME32 = of_nat (hash_value cs (rnd_vector h) key)" unfolding u [symmetric] by simp
  then show ?thesis using d s(1) rnd_at_vector [of "length key" h]
    by (simp add: isc_hash_ctxcalc_def hash_calc_def)
qed

lemma hash_value_fold: "map maptolower k1 = map maptolower k2 \<Longrightarrow> hash_value False v k1 = hash_value False v k2"
proof -
  assume m: "map maptolower k1 = map maptolower k2"
  then have "length k1 = length k2" by (metis length_map)
  moreover have "maptolower (k1 ! i) = maptolower (k2 ! i)" if "i < length k2" for i using m that calculation by (metis nth_map)
  ultimately show ?thesis by (simp add: hash_value_def folded_def)
qed

section \<open>The vector\<close>

lemma ctxinit_loop_ok:
  assumes "length rv = n" and "unat i \<le> n" and "n < 2 ^ 32"
  shows "\<exists>rv'. ctxinit_loop rand k i (unat i) n rv = Some (rv', n) \<and> length rv' = n"
  using assms
proof (induction "n - unat i" arbitrary: k i rv rule: less_induct)
  case less
  show ?case
  proof (cases "unat i < n")
    case True
    define c :: u32 where "c = (if unat i + 4 \<le> n then 4 else of_nat (n - unat i))"
    have "unat (of_nat (n - unat i) :: u32) = n - unat i" using less.prems(3) by (simp add: unsigned_of_nat take_bit_nat_eq_self del: of_nat_diff)
    then have c: "unat c = min 4 (n - unat i)" using True by (simp add: c_def del: of_nat_diff)
    obtain pr k' where g: "isc_random_get rand k = (pr, k')" by fastforce
    obtain rv1 where w: "mem_write rv (unat i) (take (unat c) (rev (be32 pr))) = Some rv1"
      using less.prems(1) c True by (fastforce simp: mem_write_def)
    have l: "length rv1 = n" using length_mem_write [OF w] less.prems(1) by simp
    have u: "unat (i + c) = unat i + unat c" using c True less.prems(3) by (intro unat_add_lem [THEN iffD1]) simp
    have "\<exists>rv'. ctxinit_loop rand k' (i + c) (unat (i + c)) n rv1 = Some (rv', n) \<and> length rv' = n"
      by (rule less.hyps) (use u c True l less.prems in auto)
    then show ?thesis using True g w u by (subst ctxinit_loop.simps) (simp add: c_def Let_def)
  next
    case False
    then show ?thesis using less.prems by (subst ctxinit_loop.simps) simp
  qed
qed

lemma ctxinit_ready:
  assumes "VALID_HASH h" and "\<not> hc_initialized h" and "unat (hc_limit h) \<le> 256"
    and "hc_vectorlen h = 2 * (unat (hc_limit h) + 1)" and "length (hc_rndvector h) = hc_vectorlen h"
    and "hc_entropy h \<Longrightarrow> fst (getdata (hc_vectorlen h)) = ISC_R_SUCCESS \<and> length (snd (getdata (hc_vectorlen h))) = hc_vectorlen h"
  shows "\<exists>h'. isc_hash_ctxinit getdata rand h = Some h' \<and> hash_ready h' \<and> hc_limit h' = hc_limit h"
proof (cases "hc_entropy h")
  case True
  then show ?thesis using assms
    by (cases "getdata (hc_vectorlen h)") (auto simp: isc_hash_ctxinit_def hash_ready_def VALID_HASH_def mem_write_def)
next
  case False
  obtain rv where "ctxinit_loop rand 0 0 0 (hc_vectorlen h) (hc_rndvector h) = Some (rv, hc_vectorlen h)" "length rv = hc_vectorlen h"
    using ctxinit_loop_ok [OF assms(5), of 0 rand 0] assms(3,4) by auto
  then show ?thesis using False assms by (auto simp: isc_hash_ctxinit_def hash_ready_def VALID_HASH_def)
qed


section \<open>Properties\<close>

text \<open>The creation refuses limits for which the sum could overflow, as long as the check itself does not.\<close>

lemma create_limit:
  assumes "isc_hash_ctxcreate env entropy limit None = Some (ISC_R_SUCCESS, Some h)" and "unat limit < 16843008"
  shows "unat limit \<le> 256" and "hc_limit h = limit" and "VALID_HASH h" and "\<not> hc_initialized h" and "hc_entropy h = entropy"
    and "hc_vectorlen h = 2 * (unat limit + 1)" and "he_vector env (hc_vectorlen h) = Some (hc_rndvector h)"
proof -
  have l: "unat (limit + 1) = unat limit + 1" using assms(2) by (simp add: unat_word_ariths(1))
  have "unat ((limit + 1) * 0xff) = unat (limit + 1) * unat (0xff :: u32) mod 2 ^ 32" by (simp only: unat_word_ariths(2)) simp
  then have "unat ((limit + 1) * 0xff) = (unat limit + 1) * 255" using assms(2) l by simp
  moreover have "\<not> (push_bit 16 1 :: u32) < (limit + 1) * 0xff" using assms(1) by (auto simp: isc_hash_ctxcreate_def Let_def)
  ultimately show "unat limit \<le> 256" by (simp add: word_less_nat_alt)
  show "hc_limit h = limit" "VALID_HASH h" "\<not> hc_initialized h" "hc_entropy h = entropy" "hc_vectorlen h = 2 * (unat limit + 1)"
    "he_vector env (hc_vectorlen h) = Some (hc_rndvector h)"
    using assms(1) l by (auto simp: isc_hash_ctxcreate_def Let_def VALID_HASH_def split: if_splits option.splits)
qed

text \<open>C38: Hash values are exact. A context that \<open>isc_hash_ctxcreate\<close> makes for a limit below 16843008 is initialised by the first
  use; from then on its vector stays, and the value of every key up to the limit is the sum of the products of the bytes and the
  entries of the vector, plus the entry after the last byte, modulo \<open>PRIME32\<close>, with no overflow in the 32-bit accumulator;
  without case sensitivity, keys that are equal up to letter case have the same value.\<close>

theorem hash_values_exact:
  assumes "isc_hash_ctxcreate env entropy limit None = Some (ISC_R_SUCCESS, Some h)" and "unat limit < 16843008"
    and "\<forall>n rv. he_vector env n = Some rv \<longrightarrow> length rv = n"
    and "\<forall>n. fst (getdata n) = ISC_R_SUCCESS \<and> length (snd (getdata n)) = n"
  shows "\<exists>h'. hc_limit h' = limit \<and>
    (\<forall>key cs. length key \<le> unat limit \<longrightarrow>
      isc_hash_ctxcalc getdata rand h key (length key) cs = Some (of_nat (hash_value cs (rnd_vector h') key), h') \<and>
      isc_hash_ctxcalc getdata rand h' key (length key) cs = Some (of_nat (hash_value cs (rnd_vector h') key), h')) \<and>
    (\<forall>k1 k2. map maptolower k1 = map maptolower k2 \<longrightarrow> hash_value False (rnd_vector h') k1 = hash_value False (rnd_vector h') k2)"
proof -
  note c = create_limit [OF assms(1,2)]
  have "length (hc_rndvector h) = hc_vectorlen h" using assms(3) c(7) by blast
  then have "\<exists>h'. isc_hash_ctxinit getdata rand h = Some h' \<and> hash_ready h' \<and> hc_limit h' = hc_limit h"
    by (intro ctxinit_ready) (use c(1-4,6) assms(4) in \<open>simp_all only: c(2) not_False_eq_True\<close>)
  then obtain h' where h': "isc_hash_ctxinit getdata rand h = Some h'" "hash_ready h'" "hc_limit h' = limit" unfolding c(2) by blast
  have e: "isc_hash_ctxcalc getdata rand h key n cs = isc_hash_ctxcalc getdata rand h' key n cs" for key n cs
    using h' c by (auto simp: isc_hash_ctxcalc_def hash_calc_def hash_ready_def)
  show ?thesis unfolding e
    by (intro exI [of _ h'] conjI allI impI hash_calc_exact [OF h'(2)] hash_value_fold h'(3)) (simp_all add: h'(3))
qed

definition sample_env :: hash_env where
  "sample_env = \<lparr>he_mem = True, he_vector = \<lambda>n. Some (replicate n 0), he_mutex = ISC_R_SUCCESS, he_refcount = ISC_R_SUCCESS\<rparr>"

definition sample_hash :: isc_hash where
  "sample_hash = \<lparr>hc_magic = HASH_MAGIC, hc_initialized = False, hc_refcnt = 1, hc_entropy = True, hc_limit = 255, hc_vectorlen = 512,
     hc_rndvector = replicate 512 0\<rparr>"

lemma sample_created: "isc_hash_create sample_env True 255 None = Some (ISC_R_SUCCESS, Some sample_hash)"
  by (simp add: isc_hash_create_def isc_hash_ctxcreate_def sample_env_def sample_hash_def)

abbreviation sample_entropy :: "nat \<Rightarrow> isc_result \<times> bytes" where
  "sample_entropy \<equiv> \<lambda>n. (ISC_R_SUCCESS, replicate n 7)"

theorem hash_values_exact_witness:
  "\<exists>h' v. isc_hash_ctxcalc sample_entropy (\<lambda>_. 0) sample_hash [0x41] 1 False = Some (v, h') \<and>
    isc_hash_ctxcalc sample_entropy (\<lambda>_. 0) h' [0x61] 1 False = Some (v, h')"
proof -
  have c: "isc_hash_ctxcreate sample_env True 255 None = Some (ISC_R_SUCCESS, Some sample_hash)"
    using sample_created by (simp add: isc_hash_create_def)
  obtain h' where h': "\<And>key cs. length key \<le> 255 \<Longrightarrow>
      isc_hash_ctxcalc sample_entropy (\<lambda>_. 0) sample_hash key (length key) cs = Some (of_nat (hash_value cs (rnd_vector h') key), h')"
    "\<And>key cs. length key \<le> 255 \<Longrightarrow>
      isc_hash_ctxcalc sample_entropy (\<lambda>_. 0) h' key (length key) cs = Some (of_nat (hash_value cs (rnd_vector h') key), h')"
    "\<And>k1 k2. map maptolower k1 = map maptolower k2 \<Longrightarrow> hash_value False (rnd_vector h') k1 = hash_value False (rnd_vector h') k2"
    using hash_values_exact [OF c, of sample_entropy "\<lambda>_. 0"] by (auto simp: sample_env_def)
  from h'(1) [of "[0x41]" False] h'(2) [of "[0x61]" False] h'(3) [of "[0x41]" "[0x61]"]
  show ?thesis by (simp add: maptolower_def)
qed

text \<open>The check of the limit can overflow itself: the product wraps around for a limit of 16843009, which is accepted.\<close>

theorem hash_limit_check_wraps:
  "\<exists>h. isc_hash_ctxcreate sample_env entropy 16843009 None = Some (ISC_R_SUCCESS, Some h) \<and> hc_limit h = 16843009"
  by (simp add: isc_hash_ctxcreate_def sample_env_def)

text \<open>A jittered value lies in the interval of length \<open>jitter\<close> that ends at the maximum.\<close>

theorem jitter_range:
  assumes "jitter < maxval"
  shows "\<exists>v. isc_random_jitter rand maxval jitter = Some v \<and> v \<le> maxval \<and> (jitter = 0 \<longrightarrow> v = maxval) \<and>
    (jitter \<noteq> 0 \<longrightarrow> unat maxval < unat v + unat jitter)"
proof (cases "jitter = 0")
  case False
  let ?r = "fst (isc_random_get rand 0) mod jitter"
  have "?r < jitter" using False by (simp add: word_mod_less_divisor word_neq_0_conv)
  moreover from this have "?r \<le> maxval" using assms by simp
  ultimately show ?thesis using False assms
    by (auto simp: isc_random_jitter_def split_beta word_le_nat_alt word_less_nat_alt unat_sub)
qed (use assms in \<open>auto simp: isc_random_jitter_def\<close>)

end
