(* ===== verification/Dns_Rbt_Hash.thy ===== *)
theory Dns_Rbt_Hash
  imports Dns_Rbt Dns_Name_Order Isc_Hash
begin

text \<open>
  The nodes and the hash table of the tree of trees of \<open>lib/dns/rbt.c\<close>. The table has all nodes of the tree, under the hash
  values of their full names; a bucket is a list linked by \<open>hashnext\<close>.

  The nodes extend those of \<open>Dns_Rbt\<close>. Parameters: \<open>mem\<close>, which stands for \<open>isc_mem_get\<close> and returns for the nodes that
  exist and a size the address of a new block or \<open>None\<close>; and \<open>fullhash\<close>, which stands for \<open>dns_name_fullhash\<close>: the locale
  \<open>name_hashing\<close> states what the table needs of it. Pointers to data are numbers; \<open>isc_mem_put\<close> of a table is not modelled.
\<close>

section \<open>Nodes and trees\<close>

text \<open>\<open>tail\<close> is the memory after the structure: the name, the number of offsets and the offsets. \<open>deadlink\<close> is whether the
  link is in a list.\<close>

record tree_node = rbtnode +
  down :: "nat option"
  hashnext :: "nat option"
  deadlink :: bool
  find_callback :: bool
  attributes :: "3 word"
  nsec :: "2 word"
  namelen :: u8
  offsetlen :: u8
  oldnamelen :: u8
  hashval :: u32
  data :: "nat option"
  dirty :: bool
  wild :: bool
  locknum :: nat
  references :: nat
  tail :: bytes

type_synonym node_store = "nat \<Rightarrow> tree_node option"
type_synonym allocator = "node_store \<Rightarrow> nat \<Rightarrow> nat option"

record dns_rbt =
  rt_root :: "nat option"
  rt_nodecount :: u32
  rt_hashsize :: u32
  rt_hashtable :: "nat option list option"

definition RBT_HASH_SIZE :: u32 where
  "RBT_HASH_SIZE = 64"

section \<open>The hash table\<close>

definition bucket_of :: "dns_rbt \<Rightarrow> tree_node \<Rightarrow> nat option" where
  "bucket_of rbt n = (if rt_hashsize rbt = 0 then None else Some (unat (hashval n mod rt_hashsize rbt)))"

definition hash_add_node ::
    "(dns_name \<Rightarrow> bool \<Rightarrow> u32 option) \<Rightarrow> dns_rbt \<Rightarrow> node_store \<Rightarrow> nat option \<Rightarrow> dns_name \<Rightarrow> (dns_rbt \<times> node_store) option" where
  "hash_add_node fullhash rbt s node name = do {
     hv \<leftarrow> fullhash name False;
     s \<leftarrow> node_set s node (\<lambda>n. n\<lparr>hashval := hv\<rparr>);
     n \<leftarrow> node_get s node;
     hash \<leftarrow> bucket_of rbt n;
     tab \<leftarrow> rt_hashtable rbt;
     first \<leftarrow> rd tab hash;
     s \<leftarrow> node_set s node (\<lambda>n. n\<lparr>hashnext := first\<rparr>);
     Some (rbt\<lparr>rt_hashtable := Some (tab[hash := node])\<rparr>, s) }"

definition inithash :: "allocator \<Rightarrow> node_store \<Rightarrow> dns_rbt \<Rightarrow> isc_result \<times> dns_rbt" where
  "inithash mem s rbt =
     (let rbt = rbt\<lparr>rt_hashsize := RBT_HASH_SIZE\<rparr> in
      if mem s (unat (rt_hashsize rbt) * 8) = None then (ISC_R_NOMEMORY, rbt\<lparr>rt_hashtable := None\<rparr>)
      else (ISC_R_SUCCESS, rbt\<lparr>rt_hashtable := Some (replicate (unat (rt_hashsize rbt)) None)\<rparr>))"

partial_function (option) rehash_chain ::
    "u32 \<Rightarrow> nat \<Rightarrow> nat option \<Rightarrow> node_store \<Rightarrow> nat option list \<Rightarrow> nat option list \<Rightarrow>
     (node_store \<times> nat option list \<times> nat option list) option" where
  "rehash_chain hashsize i node s oldtable hashtable =
     (if node = None then Some (s, oldtable, hashtable)
      else do {
        n \<leftarrow> node_get s node;
        let hash = unat (hashval n mod hashsize) in do {
        let oldtable = oldtable[i := hashnext n] in do {
        first \<leftarrow> rd hashtable hash;
        s \<leftarrow> node_set s node (\<lambda>n. n\<lparr>hashnext := first\<rparr>);
        let hashtable = hashtable[hash := node] in do {
        node \<leftarrow> rd oldtable i;
        rehash_chain hashsize i node s oldtable hashtable } } } })"

declare rehash_chain.simps [code]

fun rehash_table ::
    "u32 \<Rightarrow> nat \<Rightarrow> nat \<Rightarrow> node_store \<Rightarrow> nat option list \<Rightarrow> nat option list \<Rightarrow>
     (node_store \<times> nat option list \<times> nat option list) option" where
  "rehash_table hashsize i 0 s oldtable hashtable = Some (s, oldtable, hashtable)"
| "rehash_table hashsize i (Suc k) s oldtable hashtable = do {
     node \<leftarrow> rd oldtable i;
     (s, oldtable, hashtable) \<leftarrow> rehash_chain hashsize i node s oldtable hashtable;
     rehash_table hashsize (i + 1) k s oldtable hashtable }"

definition rehash :: "allocator \<Rightarrow> dns_rbt \<Rightarrow> node_store \<Rightarrow> (dns_rbt \<times> node_store) option" where
  "rehash mem rbt s =
     (let oldsize = rt_hashsize rbt;
          hashsize = rt_hashsize rbt * 2 + 1 in
      if mem s (unat hashsize * 8) = None then Some (rbt, s)
      else do {
        REQUIRE (hashsize > 0);
        oldtable \<leftarrow> (if oldsize = 0 then Some [] else rt_hashtable rbt);
        (s, oldtable, hashtable) \<leftarrow> rehash_table hashsize 0 (unat oldsize) s oldtable (replicate (unat hashsize) None);
        Some (rbt\<lparr>rt_hashsize := hashsize, rt_hashtable := Some hashtable\<rparr>, s) })"

definition hash_node ::
    "(dns_name \<Rightarrow> bool \<Rightarrow> u32 option) \<Rightarrow> allocator \<Rightarrow> dns_rbt \<Rightarrow> node_store \<Rightarrow> nat option \<Rightarrow> dns_name \<Rightarrow>
     (dns_rbt \<times> node_store) option" where
  "hash_node fullhash mem rbt s node name = do {
     (rbt, s) \<leftarrow> (if rt_nodecount rbt \<ge> rt_hashsize rbt * 3 then rehash mem rbt s else Some (rbt, s));
     hash_add_node fullhash rbt s node name }"

partial_function (option) unhash_chain :: "node_store \<Rightarrow> nat option \<Rightarrow> nat option \<Rightarrow> nat option option" where
  "unhash_chain s node bucket_node = do {
     b \<leftarrow> node_get s bucket_node;
     if hashnext b = node then Some bucket_node
     else do {
       REQUIRE (hashnext b \<noteq> None);
       unhash_chain s node (hashnext b) } }"

declare unhash_chain.simps [code]

definition unhash_node :: "dns_rbt \<Rightarrow> node_store \<Rightarrow> nat option \<Rightarrow> (dns_rbt \<times> node_store) option" where
  "unhash_node rbt s node =
     (case rt_hashtable rbt of
        None \<Rightarrow> Some (rbt, s)
      | Some tab \<Rightarrow> do {
          n \<leftarrow> node_get s node;
          bucket \<leftarrow> bucket_of rbt n;
          bucket_node \<leftarrow> rd tab bucket;
          if bucket_node = node then Some (rbt\<lparr>rt_hashtable := Some (tab[bucket := hashnext n])\<rparr>, s)
          else do {
            bucket_node \<leftarrow> unhash_chain s node bucket_node;
            s \<leftarrow> node_set s bucket_node (\<lambda>b. b\<lparr>hashnext := hashnext n\<rparr>);
            Some (rbt, s) } })"

section \<open>Chains\<close>

text \<open>\<open>chained s p xs\<close>: the pointer \<open>p\<close> leads to the nodes \<open>xs\<close>, linked by \<open>hashnext\<close>.\<close>

fun chained :: "node_store \<Rightarrow> nat option \<Rightarrow> nat list \<Rightarrow> bool" where
  "chained s p [] = (p = None)"
| "chained s p (a # xs) = (p = Some a \<and> (\<exists>n. s a = Some n \<and> chained s (hashnext n) xs))"

text \<open>A table of \<open>sz\<close> buckets, the lists \<open>cs\<close> of their nodes.\<close>

definition table_at :: "node_store \<Rightarrow> u32 \<Rightarrow> nat option list \<Rightarrow> (nat \<Rightarrow> nat list) \<Rightarrow> bool" where
  "table_at s sz tab cs \<longleftrightarrow> length tab = unat sz \<and>
     (\<forall>i < unat sz. chained s (tab ! i) (cs i) \<and> distinct (cs i) \<and> (\<forall>a \<in> set (cs i). \<exists>n. s a = Some n \<and> unat (hashval n mod sz) = i))"

text \<open>The tree's table holds the nodes \<open>N\<close>.\<close>

definition hash_holds :: "dns_rbt \<Rightarrow> node_store \<Rightarrow> nat set \<Rightarrow> bool" where
  "hash_holds rbt s N \<longleftrightarrow> rt_hashsize rbt > 0 \<and>
     (\<exists>tab cs. rt_hashtable rbt = Some tab \<and> table_at s (rt_hashsize rbt) tab cs \<and> N = (\<Union>i < unat (rt_hashsize rbt). set (cs i)))"

text \<open>A change of the store that keeps the hash fields of some nodes.\<close>

definition same_hash :: "nat set \<Rightarrow> node_store \<Rightarrow> node_store \<Rightarrow> bool" where
  "same_hash N s s' \<longleftrightarrow> (\<forall>a \<in> N. \<forall>n. s a = Some n \<longrightarrow> (\<exists>n'. s' a = Some n' \<and> hashval n' = hashval n \<and> hashnext n' = hashnext n))"

lemma chained_cong:
  assumes "chained s p xs" and "same_hash (set xs) s s'"
  shows "chained s' p xs"
  using assms
proof (induction xs arbitrary: p)
  case (Cons a xs)
  then obtain n where n: "p = Some a" "s a = Some n" "chained s (hashnext n) xs" by auto
  then obtain n' where "s' a = Some n'" "hashnext n' = hashnext n" using Cons.prems(2) by (auto simp: same_hash_def)
  then show ?case using n Cons by (auto simp: same_hash_def)
qed simp

lemma table_cong:
  assumes "table_at s sz tab cs" and "same_hash (\<Union>i < unat sz. set (cs i)) s s'"
  shows "table_at s' sz tab cs"
proof -
  have "chained s' (tab ! i) (cs i)" if "i < unat sz" for i
    by (rule chained_cong [of s]) (use assms that in \<open>auto simp: table_at_def same_hash_def\<close>)
  moreover have "\<exists>n. s' a = Some n \<and> unat (hashval n mod sz) = i" if "i < unat sz" "a \<in> set (cs i)" for i a
    using assms that by (fastforce simp: table_at_def same_hash_def)
  ultimately show ?thesis using assms(1) by (simp add: table_at_def)
qed

lemma holds_cong:
  assumes "hash_holds rbt s N" and "same_hash N s s'" and "rt_hashsize rbt' = rt_hashsize rbt" and "rt_hashtable rbt' = rt_hashtable rbt"
  shows "hash_holds rbt' s' N"
  using assms table_cong by (fastforce simp: hash_holds_def)

text \<open>The change of links among the nodes \<open>N\<close>.\<close>

definition relinked :: "nat set \<Rightarrow> node_store \<Rightarrow> node_store \<Rightarrow> bool" where
  "relinked N s s' \<longleftrightarrow> (\<forall>a. if a \<in> N then (\<forall>n. s a = Some n \<longrightarrow> (\<exists>p. s' a = Some (n\<lparr>hashnext := p\<rparr>))) else s' a = s a)"

lemma relinked_refl [simp]: "relinked N s s"
  unfolding relinked_def by (metis (no_types) tree_node.surjective tree_node.update_convs(2))

lemma hashnext_self: "\<exists>p. n = n\<lparr>hashnext := p\<rparr>" for n :: tree_node
  by (rule exI [of _ "hashnext n"]) simp

lemma relinkedD:
  assumes "relinked N s s'" and "s a = Some n"
  obtains p where "s' a = Some (n\<lparr>hashnext := p\<rparr>)"
proof (cases "a \<in> N")
  case True
  then have "\<exists>p. s' a = Some (n\<lparr>hashnext := p\<rparr>)" using assms unfolding relinked_def by metis
  then show ?thesis using that by blast
next
  case False
  then have "s' a = Some (n\<lparr>hashnext := hashnext n\<rparr>)" using assms by (simp add: relinked_def)
  then show ?thesis by (rule that)
qed

lemma relinked_update: "s w = Some m \<Longrightarrow> w \<in> N \<Longrightarrow> relinked N s (s(w \<mapsto> m\<lparr>hashnext := p\<rparr>))"
  by (auto simp: relinked_def hashnext_self)

lemma relinked_trans: "relinked M s s1 \<Longrightarrow> relinked N s1 s2 \<Longrightarrow> relinked (M \<union> N) s s2"
  unfolding relinked_def by (fastforce split: if_splits)

lemma relinked_mono: "relinked M s s' \<Longrightarrow> M \<subseteq> N \<Longrightarrow> relinked N s s'"
  using relinked_trans [of M s s' N s'] by (simp add: sup_absorb2)

lemma relinked_same: "relinked M s s' \<Longrightarrow> M \<inter> N = {} \<Longrightarrow> same_hash N s s'"
  by (fastforce simp: relinked_def same_hash_def split: if_splits)

lemma chained_node: "chained s p xs \<Longrightarrow> a \<in> set xs \<Longrightarrow> \<exists>n. s a = Some n"
  by (induction xs arbitrary: p) auto

lemma table_node:
  assumes "table_at s sz tab cs" and "i < unat sz" and "a \<in> set (cs i)"
  obtains n where "s a = Some n" and "unat (hashval n mod sz) = i"
  using assms by (auto simp: table_at_def)

lemma table_push:
  assumes tab: "table_at s sz tab cs" and x: "s x = Some n" "\<forall>i < unat sz. x \<notin> set (cs i)" and sz: "sz > 0"
    and h: "h = unat (hashval n mod sz)"
  shows "table_at (s(x \<mapsto> n\<lparr>hashnext := tab ! h\<rparr>)) sz (tab[h := Some x]) (cs(h := x # cs h))"
    and "h < unat sz" and "h < length tab"
proof -
  show lt: "h < unat sz" using sz h by (simp add: unat_mod word_less_nat_alt)
  then show "h < length tab" using tab by (simp add: table_at_def)
  let ?s = "s(x \<mapsto> n\<lparr>hashnext := tab ! h\<rparr>)"
  have t: "table_at ?s sz tab cs" by (rule table_cong [OF tab]) (use x(2) in \<open>auto simp: same_hash_def\<close>)
  show "table_at ?s sz (tab[h := Some x]) (cs(h := x # cs h))"
    unfolding table_at_def
  proof (intro conjI allI impI)
    show "length (tab[h := Some x]) = unat sz" using tab by (simp add: table_at_def)
    fix i assume i: "i < unat sz"
    show "chained ?s (tab[h := Some x] ! i) ((cs(h := x # cs h)) i)" using t i by (auto simp: table_at_def nth_list_update)
    show "distinct ((cs(h := x # cs h)) i)" using t i x(2) by (auto simp: table_at_def)
    show "\<forall>a \<in> set ((cs(h := x # cs h)) i). \<exists>n. ?s a = Some n \<and> unat (hashval n mod sz) = i"
    proof
      fix a assume a: "a \<in> set ((cs(h := x # cs h)) i)"
      then show "\<exists>n. ?s a = Some n \<and> unat (hashval n mod sz) = i"
        using t i h by (cases "a = x") (auto simp: table_at_def split: if_splits)
    qed
  qed
qed

lemma set_push: "h < m \<Longrightarrow> (\<Union>i < m. set ((cs(h := x # cs h)) i)) = insert x (\<Union>i < m. set (cs i))" for m :: nat
  by (auto split: if_splits)

section \<open>The operations keep the table\<close>

lemma rehash_chain_ok:
  assumes "chained s p xs" and "distinct xs" and "table_at s sz tab cs" and "sz > 0" and "set xs \<inter> (\<Union>i < unat sz. set (cs i)) = {}"
    and "i < length old" and "old ! i = p"
  shows "\<exists>s' tab' cs'. rehash_chain sz i p s old tab = Some (s', old[i := None], tab') \<and> table_at s' sz tab' cs' \<and>
    (\<Union>i < unat sz. set (cs' i)) = set xs \<union> (\<Union>i < unat sz. set (cs i)) \<and> relinked (set xs) s s'"
  using assms
proof (induction xs arbitrary: s p tab cs old)
  case Nil
  have "old[i := None] = old" using Nil.prems(1,7) by (metis chained.simps(1) list_update_id)
  then show ?case using Nil.prems by (subst rehash_chain.simps) auto
next
  case (Cons x xs)
  obtain n where n: "p = Some x" "s x = Some n" "chained s (hashnext n) xs" using Cons.prems(1) by auto
  define h where "h = unat (hashval n mod sz)"
  define s1 where "s1 = s(x \<mapsto> n\<lparr>hashnext := tab ! h\<rparr>)"
  have x: "x \<notin> set xs" "distinct xs" "\<forall>i < unat sz. x \<notin> set (cs i)" using Cons.prems(2,5) by auto
  note push = table_push [OF Cons.prems(3) n(2) x(3) Cons.prems(4) h_def]
  have r1: "relinked {x} s s1" using n(2) by (auto simp: relinked_def s1_def)
  have c1: "chained s1 (hashnext n) xs" by (rule chained_cong [OF n(3)]) (use x(1) in \<open>auto simp: same_hash_def s1_def\<close>)
  have u1: "(\<Union>i < unat sz. set ((cs(h := x # cs h)) i)) = insert x (\<Union>i < unat sz. set (cs i))" by (rule set_push [OF push(2)])
  have d1: "set xs \<inter> (\<Union>i < unat sz. set ((cs(h := x # cs h)) i)) = {}" unfolding u1 using Cons.prems(5) x(1) by auto
  obtain s' tab' cs' where s': "rehash_chain sz i (hashnext n) s1 (old[i := hashnext n]) (tab[h := Some x]) = Some (s', old[i := None], tab')"
    "table_at s' sz tab' cs'" "(\<Union>i < unat sz. set (cs' i)) = set xs \<union> (\<Union>i < unat sz. set ((cs(h := x # cs h)) i))" "relinked (set xs) s1 s'"
    using Cons.IH [OF c1 x(2) push(1) [folded s1_def] Cons.prems(4) d1, of "old[i := hashnext n]"] Cons.prems(6) by auto
  have "rehash_chain sz i p s old tab = Some (s', old[i := None], tab')"
    using s'(1) n(1,2) push(3) Cons.prems(6) by (subst rehash_chain.simps) (simp add: rd_def Let_def h_def [symmetric] s1_def)
  moreover have "relinked (set (x # xs)) s s'" using relinked_trans [OF r1 s'(4)] by simp
  ultimately show ?case using s'(2,3) unfolding u1 by auto
qed

lemma rehash_table_ok:
  assumes "i + k = length old" and "\<forall>j. i \<le> j \<and> j < length old \<longrightarrow> chained s (old ! j) (ocs j) \<and> distinct (ocs j)"
    and "\<forall>j l. j < l \<and> l < length old \<longrightarrow> set (ocs j) \<inter> set (ocs l) = {}"
    and "table_at s sz tab cs" and "sz > 0" and "(\<Union>j \<in> {i..<length old}. set (ocs j)) \<inter> (\<Union>i < unat sz. set (cs i)) = {}"
  shows "\<exists>s' old' tab' cs'. rehash_table sz i k s old tab = Some (s', old', tab') \<and> table_at s' sz tab' cs' \<and>
    (\<Union>i < unat sz. set (cs' i)) = (\<Union>j \<in> {i..<length old}. set (ocs j)) \<union> (\<Union>i < unat sz. set (cs i)) \<and>
    relinked (\<Union>j \<in> {i..<length old}. set (ocs j)) s s'"
  using assms
proof (induction k arbitrary: i s old tab cs)
  case (Suc k)
  have i: "i < length old" and r: "{i..<length old} = insert i {Suc i..<length old}" using Suc.prems(1) by auto
  obtain s1 tab1 cs1 where s1: "rehash_chain sz i (old ! i) s old tab = Some (s1, old[i := None], tab1)" "table_at s1 sz tab1 cs1"
    "(\<Union>i < unat sz. set (cs1 i)) = set (ocs i) \<union> (\<Union>i < unat sz. set (cs i))" "relinked (set (ocs i)) s s1"
    using rehash_chain_ok [of s "old ! i" "ocs i" sz tab cs i old] Suc.prems i
    by (metis (no_types, lifting) Int_Un_distrib2 UN_insert le_refl r sup_eq_bot_iff)
  let ?old = "old[i := None]"
  have ch: "\<forall>j. Suc i \<le> j \<and> j < length ?old \<longrightarrow> chained s1 (?old ! j) (ocs j) \<and> distinct (ocs j)"
  proof (intro allI impI)
    fix j assume j: "Suc i \<le> j \<and> j < length ?old"
    then have "same_hash (set (ocs j)) s s1" by (intro relinked_same [OF s1(4)]) (use Suc.prems(3) in auto)
    then show "chained s1 (?old ! j) (ocs j) \<and> distinct (ocs j)" using chained_cong [of s "old ! j" "ocs j" s1] j Suc.prems(2) by auto
  qed
  have "set (ocs j) \<inter> (set (ocs i) \<union> (\<Union>i < unat sz. set (cs i))) = {}" if "j \<in> {Suc i..<length old}" for j
  proof -
    have "set (ocs i) \<inter> set (ocs j) = {}" using Suc.prems(3) that by simp
    moreover have "set (ocs j) \<inter> (\<Union>i < unat sz. set (cs i)) = {}" using Suc.prems(6) that unfolding r by blast
    ultimately show ?thesis by blast
  qed
  then have "(\<Union>j \<in> {Suc i..<length ?old}. set (ocs j)) \<inter> (\<Union>i < unat sz. set (cs1 i)) = {}"
    unfolding s1(3) length_list_update by blast
  with Suc.IH [of "Suc i" ?old s1 tab1 cs1] Suc.prems(1,3,5) ch s1(2)
  obtain s' old' tab' cs' where s': "rehash_table sz (Suc i) k s1 ?old tab1 = Some (s', old', tab')" "table_at s' sz tab' cs'"
    "(\<Union>i < unat sz. set (cs' i)) = (\<Union>j \<in> {Suc i..<length ?old}. set (ocs j)) \<union> (\<Union>i < unat sz. set (cs1 i))"
    "relinked (\<Union>j \<in> {Suc i..<length ?old}. set (ocs j)) s1 s'" by auto
  have "rehash_table sz i (Suc k) s old tab = Some (s', old', tab')" using s1(1) s'(1) i by (simp add: rd_def)
  moreover have "relinked (\<Union>j \<in> {i..<length old}. set (ocs j)) s s'" using relinked_trans [OF s1(4) s'(4)] by (simp add: r)
  moreover have "(\<Union>i < unat sz. set (cs' i)) = (\<Union>j \<in> {i..<length old}. set (ocs j)) \<union> (\<Union>i < unat sz. set (cs i))"
    unfolding s'(3) s1(3) r by auto
  ultimately show ?case using s'(2) by blast
qed auto

lemma hash_holdsE:
  assumes "hash_holds rbt s N"
  obtains tab cs where "rt_hashtable rbt = Some tab" and "table_at s (rt_hashsize rbt) tab cs" and "rt_hashsize rbt > 0"
    and "length tab = unat (rt_hashsize rbt)" and "N = (\<Union>i < unat (rt_hashsize rbt). set (cs i))"
  using assms by (auto simp: hash_holds_def table_at_def)

lemma table_disjoint:
  assumes "table_at s sz tab cs" and "i < unat sz" and "j < unat sz" and "i \<noteq> j"
  shows "set (cs i) \<inter> set (cs j) = {}"
proof -
  have "i = j" if "a \<in> set (cs i)" "a \<in> set (cs j)" for a
    using table_node [OF assms(1,2) that(1)] table_node [OF assms(1,3) that(2)] by (metis option.inject)
  then show ?thesis using assms(4) by auto
qed

lemma rehash_ok:
  assumes "hash_holds rbt s N"
  shows "\<exists>rbt' s'. rehash mem rbt s = Some (rbt', s') \<and> hash_holds rbt' s' N \<and> relinked N s s' \<and>
    rt_root rbt' = rt_root rbt \<and> rt_nodecount rbt' = rt_nodecount rbt"
proof -
  obtain tab cs where t: "rt_hashtable rbt = Some tab" "table_at s (rt_hashsize rbt) tab cs" "rt_hashsize rbt > 0"
    "length tab = unat (rt_hashsize rbt)" "N = (\<Union>i < unat (rt_hashsize rbt). set (cs i))" using hash_holdsE [OF assms] .
  define sz where "sz = rt_hashsize rbt * 2 + 1"
  have odd: "sz \<noteq> 0"
  proof
    assume "sz = 0"
    moreover have "bit sz 0" by (simp add: sz_def bit_0)
    ultimately show False by simp
  qed
  then have pos: "sz > 0" by (simp add: word_neq_0_conv)
  let ?new = "replicate (unat sz) None :: nat option list"
  have e: "table_at s sz ?new (\<lambda>_. [])" by (simp add: table_at_def)
  have "\<forall>j. 0 \<le> j \<and> j < length tab \<longrightarrow> chained s (tab ! j) (cs j) \<and> distinct (cs j)" using t(2,4) by (simp add: table_at_def)
  moreover have "\<forall>j l. j < l \<and> l < length tab \<longrightarrow> set (cs j) \<inter> set (cs l) = {}" using table_disjoint [OF t(2)] t(4) by auto
  ultimately obtain s' old' tab' cs' where s': "rehash_table sz 0 (unat (rt_hashsize rbt)) s tab ?new = Some (s', old', tab')"
    "table_at s' sz tab' cs'" "(\<Union>i < unat sz. set (cs' i)) = (\<Union>j \<in> {0..<length tab}. set (cs j))"
    "relinked (\<Union>j \<in> {0..<length tab}. set (cs j)) s s'"
    using rehash_table_ok [of 0 "unat (rt_hashsize rbt)" tab s cs sz ?new "\<lambda>_. []"] t(4) e pos by auto
  have n: "N = (\<Union>j \<in> {0..<length tab}. set (cs j))" using t(4,5) by (simp add: atLeast0LessThan)
  let ?rbt = "rbt\<lparr>rt_hashsize := sz, rt_hashtable := Some tab'\<rparr>"
  have h: "hash_holds ?rbt s' N"
    unfolding hash_holds_def n by (intro conjI exI [of _ tab'] exI [of _ cs']) (simp_all add: pos s'(2,3))
  have "rehash mem rbt s = (if mem s (unat sz * 8) = None then Some (rbt, s) else Some (?rbt, s'))"
    using t(1) t(3) [folded word_neq_0_conv] s'(1) pos by (simp add: rehash_def sz_def [symmetric] Let_def)
  then show ?thesis using h assms s'(4) n by (cases "mem s (unat sz * 8) = None") auto
qed

lemma hash_add_ok:
  assumes "hash_holds rbt s N" and "x \<notin> N" and "s x = Some n" and "fullhash name False = Some hv"
  shows "\<exists>rbt' p. hash_add_node fullhash rbt s (Some x) name = Some (rbt', s(x \<mapsto> n\<lparr>hashval := hv, hashnext := p\<rparr>)) \<and>
    hash_holds rbt' (s(x \<mapsto> n\<lparr>hashval := hv, hashnext := p\<rparr>)) (insert x N) \<and>
    rt_root rbt' = rt_root rbt \<and> rt_nodecount rbt' = rt_nodecount rbt"
proof -
  obtain tab cs where t: "rt_hashtable rbt = Some tab" "table_at s (rt_hashsize rbt) tab cs" "rt_hashsize rbt > 0"
    "length tab = unat (rt_hashsize rbt)" "N = (\<Union>i < unat (rt_hashsize rbt). set (cs i))" using hash_holdsE [OF assms(1)] .
  define s1 where "s1 = s(x \<mapsto> n\<lparr>hashval := hv\<rparr>)"
  have t1: "table_at s1 (rt_hashsize rbt) tab cs" by (rule table_cong [OF t(2)]) (use assms(2) t(5) in \<open>auto simp: s1_def same_hash_def\<close>)
  define h where "h = unat (hv mod rt_hashsize rbt)"
  have x: "s1 x = Some (n\<lparr>hashval := hv\<rparr>)" "\<forall>i < unat (rt_hashsize rbt). x \<notin> set (cs i)" using assms(2) t(5) by (auto simp: s1_def)
  have "h = unat (hashval (n\<lparr>hashval := hv\<rparr>) mod rt_hashsize rbt)" by (simp add: h_def)
  note push = table_push [OF t1 x t(3) this]
  have "hash_add_node fullhash rbt s (Some x) name =
      Some (rbt\<lparr>rt_hashtable := Some (tab[h := Some x])\<rparr>, s(x \<mapsto> n\<lparr>hashval := hv, hashnext := tab ! h\<rparr>))"
    using assms(3,4) t(1,3) push(3) by (simp add: hash_add_node_def bucket_of_def rd_def h_def)
  moreover have "hash_holds (rbt\<lparr>rt_hashtable := Some (tab[h := Some x])\<rparr>) (s(x \<mapsto> n\<lparr>hashval := hv, hashnext := tab ! h\<rparr>)) (insert x N)"
    unfolding hash_holds_def
    by (intro conjI exI [of _ "tab[h := Some x]"] exI [of _ "cs(h := x # cs h)"])
      (use push(1) t(3,5) set_push [OF push(2), of cs x] in \<open>simp_all add: s1_def fun_upd_upd del: fun_upd_apply\<close>)
  ultimately show ?thesis by auto
qed

lemma hash_node_ok:
  assumes "hash_holds rbt s N" and "x \<notin> N" and "s x = Some n" and "fullhash name False = Some hv"
  shows "\<exists>rbt' s1 p. hash_node fullhash mem rbt s (Some x) name = Some (rbt', s1(x \<mapsto> n\<lparr>hashval := hv, hashnext := p\<rparr>)) \<and>
    relinked N s s1 \<and> hash_holds rbt' (s1(x \<mapsto> n\<lparr>hashval := hv, hashnext := p\<rparr>)) (insert x N) \<and>
    rt_root rbt' = rt_root rbt \<and> rt_nodecount rbt' = rt_nodecount rbt"
proof -
  obtain rbt1 s1 where r: "(if rt_nodecount rbt \<ge> rt_hashsize rbt * 3 then rehash mem rbt s else Some (rbt, s)) = Some (rbt1, s1)"
    "hash_holds rbt1 s1 N" "relinked N s s1" "rt_root rbt1 = rt_root rbt" "rt_nodecount rbt1 = rt_nodecount rbt"
    using rehash_ok [OF assms(1), of mem] assms(1) by (cases "rt_nodecount rbt \<ge> rt_hashsize rbt * 3") auto
  have "s1 x = Some n" using r(3) assms(2,3) by (metis relinked_def)
  from hash_add_ok [OF r(2) assms(2) this, of fullhash name, OF assms(4)] show ?thesis
    using r(1,3-5) by (auto simp: hash_node_def)
qed

lemma unhash_chain_ok:
  assumes "chained s p xs" and "xs = ys @ b # x # zs" and "distinct xs"
  shows "unhash_chain s (Some x) p = Some (Some b)"
  using assms
proof (induction ys arbitrary: p xs)
  case Nil
  then show ?case by (subst unhash_chain.simps) auto
next
  case (Cons y ys)
  obtain n where n: "p = Some y" "s y = Some n" "chained s (hashnext n) (ys @ b # x # zs)" using Cons.prems by auto
  have "hashnext n \<noteq> Some x" "hashnext n \<noteq> None" using n(3) Cons.prems by (cases ys; auto)+
  then show ?case using Cons.IH [OF n(3) refl] Cons.prems n(1,2) by (subst unhash_chain.simps) auto
qed

lemma chained_unlink:
  assumes "chained s p (ys @ b # x # zs)" and "distinct (ys @ b # x # zs)" and "s b = Some m" and "s x = Some n"
  shows "chained (s(b \<mapsto> m\<lparr>hashnext := hashnext n\<rparr>)) p (ys @ b # zs)"
  using assms
proof (induction ys arbitrary: p)
  case Nil
  have "chained (s(b \<mapsto> m\<lparr>hashnext := hashnext n\<rparr>)) (hashnext n) zs"
    by (rule chained_cong [of s]) (use Nil in \<open>auto simp: same_hash_def\<close>)
  then show ?case using Nil by (auto simp del: fun_upd_apply simp: fun_upd_same)
next
  case (Cons y ys)
  then obtain k where k: "p = Some y" "s y = Some k" "chained s (hashnext k) (ys @ b # x # zs)" by auto
  from Cons.IH [OF k(3)] Cons.prems k(1,2) show ?case by auto
qed

lemma remove1_middle: "distinct (ys @ x # zs) \<Longrightarrow> remove1 x (ys @ x # zs) = ys @ zs"
  by (simp add: remove1_append)

lemma table_pop:
  assumes "table_at s sz tab cs" and "h < unat sz" and "chained s' p (remove1 x (cs h))" and "relinked (set (cs h) - {x}) s s'" and "x \<in> set (cs h)"
  shows "table_at s' sz (tab[h := p]) (cs(h := remove1 x (cs h)))"
  unfolding table_at_def
proof (intro conjI allI impI)
  show "length (tab[h := p]) = unat sz" using assms(1) by (simp add: table_at_def)
  fix i assume i: "i < unat sz"
  have l: "h < length tab" using assms(1,2) by (simp add: table_at_def)
  have "same_hash (set (cs i)) s s'" if "i \<noteq> h"
    by (rule relinked_same [OF assms(4)]) (use table_disjoint [OF assms(1) i assms(2) that] in blast)
  then show "chained s' (tab[h := p] ! i) ((cs(h := remove1 x (cs h))) i)"
    using assms(1,3) i l chained_cong [of s "tab ! i" "cs i" s'] by (auto simp: table_at_def nth_list_update)
  show "distinct ((cs(h := remove1 x (cs h))) i)" using assms(1) i by (simp add: table_at_def)
  show "\<forall>a \<in> set ((cs(h := remove1 x (cs h))) i). \<exists>n. s' a = Some n \<and> unat (hashval n mod sz) = i"
  proof
    fix a assume "a \<in> set ((cs(h := remove1 x (cs h))) i)"
    then have "a \<in> set (cs i)" using set_remove1_subset [of x "cs h"] by (auto split: if_splits)
    from table_node [OF assms(1) i this] obtain n where n: "s a = Some n" "unat (hashval n mod sz) = i" .
    show "\<exists>n. s' a = Some n \<and> unat (hashval n mod sz) = i"
      using n by (auto elim: relinkedD [OF assms(4)])
  qed
qed

lemma set_pop:
  assumes "table_at s sz tab cs" and "h < unat sz" and "x \<in> set (cs h)"
  shows "(\<Union>i < unat sz. set ((cs(h := remove1 x (cs h))) i)) = (\<Union>i < unat sz. set (cs i)) - {x}"
proof -
  have "x \<notin> set (cs i)" if "i < unat sz" "i \<noteq> h" for i using table_disjoint [OF assms(1) that(1) assms(2) that(2)] assms(3) by auto
  moreover have "set (remove1 x (cs h)) = set (cs h) - {x}" using assms(1,2) by (simp add: table_at_def)
  ultimately show ?thesis using assms(2) by (auto split: if_splits)
qed

lemma unhash_ok:
  assumes "hash_holds rbt s N" and "x \<in> N"
  shows "\<exists>rbt' s'. unhash_node rbt s (Some x) = Some (rbt', s') \<and> hash_holds rbt' s' (N - {x}) \<and> relinked (N - {x}) s s' \<and>
    rt_root rbt' = rt_root rbt \<and> rt_nodecount rbt' = rt_nodecount rbt"
proof -
  obtain tab cs where t: "rt_hashtable rbt = Some tab" "table_at s (rt_hashsize rbt) tab cs" "rt_hashsize rbt > 0"
    "length tab = unat (rt_hashsize rbt)" "N = (\<Union>i < unat (rt_hashsize rbt). set (cs i))" using hash_holdsE [OF assms(1)] .
  let ?sz = "rt_hashsize rbt"
  obtain h where h: "h < unat ?sz" "x \<in> set (cs h)" using assms(2) t(5) by auto
  obtain n where n: "s x = Some n" "unat (hashval n mod ?sz) = h" using table_node [OF t(2) h] .
  have c: "chained s (tab ! h) (cs h)" "distinct (cs h)" using t(2) h(1) by (simp_all add: table_at_def)
  have b: "bucket_of rbt n = Some h" "rd tab h = Some (tab ! h)"
    using t(3) [folded word_neq_0_conv] n(2) h(1) t(4) by (simp_all add: bucket_of_def rd_def)
  have sub: "set (cs h) - {x} \<subseteq> N - {x}" using t(5) h(1) by auto
  obtain ys zs where yz: "cs h = ys @ x # zs" using h(2) by (meson split_list)
  have rm: "remove1 x (cs h) = ys @ zs" using remove1_middle c(2) yz by metis
  have fin: ?thesis if "unhash_node rbt s (Some x) = Some (rbt\<lparr>rt_hashtable := Some (tab[h := p])\<rparr>, s')"
    "chained s' p (ys @ zs)" "relinked (set (cs h) - {x}) s s'" for s' p
  proof -
    have "table_at s' ?sz (tab[h := p]) (cs(h := remove1 x (cs h)))"
      by (rule table_pop [OF t(2) h(1) _ that(3) h(2)]) (simp add: rm that(2))
    then have "hash_holds (rbt\<lparr>rt_hashtable := Some (tab[h := p])\<rparr>) s' (N - {x})"
      unfolding hash_holds_def t(5) set_pop [OF t(2) h, symmetric]
      by (intro conjI exI [of _ "tab[h := p]"] exI [of _ "cs(h := remove1 x (cs h))"]) (simp_all add: t(3) del: fun_upd_apply)
    then show ?thesis using that(1) relinked_mono [OF that(3) sub] by auto
  qed
  show ?thesis
  proof (cases ys rule: rev_cases)
    case Nil
    have "chained s (hashnext n) (ys @ zs)" "tab ! h = Some x" using c(1) yz Nil n(1) by auto
    then show ?thesis using fin [of "hashnext n" s] t(1) n(1) b by (simp add: unhash_node_def)
  next
    case (snoc us w)
    have cs: "cs h = us @ w # x # zs" using yz snoc by simp
    obtain m where m: "s w = Some m" using chained_node [OF c(1), of w] cs by auto
    let ?s = "s(w \<mapsto> m\<lparr>hashnext := hashnext n\<rparr>)"
    have "chained ?s (tab ! h) (us @ w # zs)" by (rule chained_unlink) (use c cs m n(1) in auto)
    moreover have "tab ! h \<noteq> Some x" using c cs by (cases us) auto
    moreover have "unhash_chain s (Some x) (tab ! h) = Some (Some w)" by (rule unhash_chain_ok [OF c(1) cs c(2)])
    moreover have "relinked (set (cs h) - {x}) s ?s" by (rule relinked_update [where m = m]) (use m cs c(2) in auto)
    moreover have "tab[h := tab ! h] = tab" by simp
    ultimately show ?thesis using fin [of "tab ! h" ?s] t(1) n(1) b m snoc by (simp add: unhash_node_def)
  qed
qed

text \<open>C40: The hash table of the tree keeps each node exactly once, in the chain of the bucket of its hash value. \<open>hash_node\<close> adds a
  node, and enlarges the table before that where it is three times full or leaves it as it is where there is no memory;
  \<open>unhash_node\<close> then finds and removes any of the nodes. Of a node that exists only the link to the next node of its chain changes, of
  the added one also its hash value. All loops end.\<close>

theorem hash_table_nodes:
  assumes "hash_holds rbt s N" and "x \<notin> N" and "s x = Some n" and "fullhash name False = Some hv"
  shows "\<exists>rbt' s'. hash_node fullhash mem rbt s (Some x) name = Some (rbt', s') \<and> hash_holds rbt' s' (insert x N) \<and>
    (\<exists>p. s' x = Some (n\<lparr>hashval := hv, hashnext := p\<rparr>)) \<and> (\<forall>a. a \<noteq> x \<longrightarrow> (\<forall>m. s a = Some m \<longrightarrow> (\<exists>p. s' a = Some (m\<lparr>hashnext := p\<rparr>)))) \<and>
    (\<forall>y \<in> insert x N. \<exists>rbt'' s''. unhash_node rbt' s' (Some y) = Some (rbt'', s'') \<and> hash_holds rbt'' s'' (insert x N - {y}) \<and>
      rt_root rbt'' = rt_root rbt \<and> rt_nodecount rbt'' = rt_nodecount rbt)"
proof -
  obtain rbt' s1 p where h: "hash_node fullhash mem rbt s (Some x) name = Some (rbt', s1(x \<mapsto> n\<lparr>hashval := hv, hashnext := p\<rparr>))"
    "relinked N s s1" "hash_holds rbt' (s1(x \<mapsto> n\<lparr>hashval := hv, hashnext := p\<rparr>)) (insert x N)" "rt_root rbt' = rt_root rbt"
    "rt_nodecount rbt' = rt_nodecount rbt" using hash_node_ok [where fullhash = fullhash and name = name and mem = mem, OF assms] by blast
  let ?s = "s1(x \<mapsto> n\<lparr>hashval := hv, hashnext := p\<rparr>)"
  have "\<forall>a. a \<noteq> x \<longrightarrow> (\<forall>m. s a = Some m \<longrightarrow> (\<exists>q. ?s a = Some (m\<lparr>hashnext := q\<rparr>)))" using relinkedD [OF h(2)] by (metis fun_upd_other)
  moreover have "\<forall>y \<in> insert x N. \<exists>rbt'' s''. unhash_node rbt' ?s (Some y) = Some (rbt'', s'') \<and> hash_holds rbt'' s'' (insert x N - {y}) \<and>
      rt_root rbt'' = rt_root rbt \<and> rt_nodecount rbt'' = rt_nodecount rbt" using unhash_ok [OF h(3)] unfolding h(4,5) by blast
  moreover have "\<exists>q. ?s x = Some (n\<lparr>hashval := hv, hashnext := q\<rparr>)" by (rule exI [of _ p]) simp
  ultimately show ?thesis using h(1,3) by (intro exI [of _ rbt'] exI [of _ ?s] conjI)
qed

definition sample_chain_node :: tree_node where
  "sample_chain_node = \<lparr>parent = None, left = None, right = None, is_root = True, color = BLACK,
     down = None, hashnext = None, deadlink = False, find_callback = False, attributes = 1,
     nsec = 0, namelen = 1, offsetlen = 1, oldnamelen = 1,
     hashval = 0, data = None, dirty = False, wild = False, locknum = 0, references = 0, tail = [0, 1, 0]\<rparr>"

theorem hash_table_nodes_witness:
  "\<exists>rbt' s'. hash_node (\<lambda>_ _. Some 9) (\<lambda>_ _. None) \<lparr>rt_root = Some 1, rt_nodecount = 1, rt_hashsize = 2, rt_hashtable = Some [None, None]\<rparr>
      [1 \<mapsto> sample_chain_node] (Some 1) (DNS_NAME_INIT None) = Some (rbt', s') \<and> hash_holds rbt' s' {1}"
proof -
  let ?rbt = "\<lparr>rt_root = Some 1, rt_nodecount = 1, rt_hashsize = 2, rt_hashtable = Some [None, None]\<rparr> :: dns_rbt"
  have "hash_holds ?rbt [1 \<mapsto> sample_chain_node] {}"
    unfolding hash_holds_def
    by (intro conjI exI [of _ "[None, None]"] exI [of _ "\<lambda>_. []"]) (auto simp: table_at_def nth_Cons split: nat.splits)
  from hash_table_nodes [OF this, of 1 sample_chain_node "\<lambda>_ _. Some 9" "DNS_NAME_INIT None" 9 "\<lambda>_ _. None"] show ?thesis by auto
qed

end
