(* ===== verification/Dns_Rbt_Tree.thy ===== *)
theory Dns_Rbt_Tree
  imports Dns_Name_Text Dns_Rbt_Hash
begin

text \<open>
  The tree of trees of \<open>lib/dns/rbt.c\<close>: creation, adding names, and the names of nodes. A node has the labels of its name that
  its level adds to the name of the node above the level; \<open>down\<close> leads to the level below.

  The functions take the tree, the store of nodes and the parameters of \<open>Dns_Rbt_Hash\<close>. A pointer to a root cell
  (\<open>dns_rbtnode_t **root\<close>) is \<open>None\<close> for the root of the tree and \<open>Some x\<close> for the field \<open>down\<close> of the node \<open>x\<close>. Of the
  chain that \<open>dns_rbt_addnode\<close> fills, the number of levels is kept: writing beyond its array is \<open>None\<close>.
\<close>

section \<open>Trees and nodes\<close>

definition dns_rbt_create :: "allocator \<Rightarrow> bool \<Rightarrow> node_store \<Rightarrow> isc_result \<times> dns_rbt option" where
  "dns_rbt_create mem rbt_mem s =
     (if \<not> rbt_mem then (ISC_R_NOMEMORY, None)
      else let (result, rbt) = inithash mem s \<lparr>rt_root = None, rt_nodecount = 0, rt_hashsize = 0, rt_hashtable = None\<rparr> in
        if result \<noteq> ISC_R_SUCCESS then (result, None) else (ISC_R_SUCCESS, Some rbt))"

definition dns_rbt_nodecount :: "dns_rbt \<Rightarrow> u32" where
  "dns_rbt_nodecount rbt = rt_nodecount rbt"

text \<open>\<open>sizeof(dns_rbtnode_t)\<close> with pointers of 64 bits.\<close>

definition SIZEOF_RBTNODE :: nat where
  "SIZEOF_RBTNODE = 80"

definition DNS_RBT_NSEC_NORMAL :: "2 word" where "DNS_RBT_NSEC_NORMAL = 0"
definition DNS_RBT_NSEC_HAS_NSEC :: "2 word" where "DNS_RBT_NSEC_HAS_NSEC = 1"

definition create_node :: "allocator \<Rightarrow> node_store \<Rightarrow> dns_name \<Rightarrow> (isc_result \<times> node_store \<times> nat option) option" where
  "create_node mem s name = do {
     offsets \<leftarrow> n_offsets name;
     region \<leftarrow> dns_name_toregion name;
     labels \<leftarrow> dns_name_countlabels name;
     REQUIRE (labels > 0);
     case mem s (SIZEOF_RBTNODE + length region + labels + 1) of
       None \<Rightarrow> Some (ISC_R_NOMEMORY, s, None)
     | Some node \<Rightarrow> do {
         let oldlen = (of_nat (length region) :: u8) in do {
         t \<leftarrow> mem_write (replicate (length region + labels + 1) 0) (unat oldlen) [of_nat labels];
         t \<leftarrow> mem_write t 0 region;
         offs \<leftarrow> mem_read offsets 0 labels;
         t \<leftarrow> mem_write t (unat oldlen + 1) offs;
         Some (ISC_R_SUCCESS,
           s(node \<mapsto> \<lparr>parent = None, left = None, right = None, is_root = False, color = BLACK,
             down = None, hashnext = None, deadlink = False, find_callback = False, attributes = ucast (n_attributes name),
             nsec = DNS_RBT_NSEC_NORMAL, namelen = of_nat (length region), offsetlen = of_nat labels, oldnamelen = oldlen,
             hashval = 0, data = None, dirty = False, wild = False, locknum = 0, references = 0, tail = t\<rparr>), Some node) } } }"

definition NODENAME :: "tree_node \<Rightarrow> dns_name \<Rightarrow> dns_name" where
  "NODENAME n name = name\<lparr>n_length := unat (namelen n), n_labels := unat (offsetlen n), n_ndata := tail n,
     n_offsets := Some (drop (unat (oldnamelen n) + 1) (tail n)),
     n_attributes := ucast (attributes n) OR DNS_NAMEATTR_READONLY\<rparr>"

section \<open>Adding names\<close>

definition DNS_RBT_LEVELBLOCK :: nat where
  "DNS_RBT_LEVELBLOCK = 254"

definition ADD_LEVEL :: "nat \<Rightarrow> nat option" where
  "ADD_LEVEL level_count = (if level_count < DNS_RBT_LEVELBLOCK then Some (level_count + 1) else None)"

definition root_get :: "dns_rbt \<Rightarrow> node_store \<Rightarrow> nat option \<Rightarrow> nat option option" where
  "root_get rbt s cell = (case cell of None \<Rightarrow> Some (rt_root rbt) | Some x \<Rightarrow> map_option down (s x))"

definition root_set :: "dns_rbt \<Rightarrow> node_store \<Rightarrow> nat option \<Rightarrow> nat option \<Rightarrow> (dns_rbt \<times> node_store) option" where
  "root_set rbt s cell p = (case cell of
       None \<Rightarrow> Some (rbt\<lparr>rt_root := p\<rparr>, s)
     | Some x \<Rightarrow> do { s \<leftarrow> node_set s (Some x) (\<lambda>n. n\<lparr>down := p\<rparr>); Some (rbt, s) })"

abbreviation fixedname :: dns_name where
  "fixedname \<equiv> dns_fixedname (replicate 255 0)"

text \<open>\<open>dns_name_split(name, n, name, NULL)\<close>: the name loses its last \<open>n\<close> labels.\<close>

definition dns_name_split_self :: "dns_name \<Rightarrow> nat \<Rightarrow> dns_name option" where
  "dns_name_split_self name suffixlabels = do {
     REQUIRE (VALID_NAME name);
     REQUIRE (suffixlabels > 0);
     REQUIRE (suffixlabels < n_labels name);
     REQUIRE (n_buffer name \<noteq> None \<and> BINDABLE name);
     dns_name_getlabelsequence name 0 (n_labels name - suffixlabels) name True }"

text \<open>The node \<open>current\<close> is divided: a new node with the common suffix takes its place in the level, and \<open>current\<close>, with the
  labels that are left, becomes the root of a level below it.\<close>

definition split_node ::
    "(dns_name \<Rightarrow> bool \<Rightarrow> u32 option) \<Rightarrow> allocator \<Rightarrow> dns_name \<Rightarrow> nat \<Rightarrow> nat \<Rightarrow> nat \<Rightarrow> nat option \<Rightarrow> nat option \<Rightarrow> nat option \<Rightarrow>
     dns_rbt \<Rightarrow> node_store \<Rightarrow> (isc_result \<times> dns_rbt \<times> node_store \<times> nat option) option" where
  "split_node fullhash mem name nlabels hlabels common current par root rbt s = do {
     c \<leftarrow> node_get s current;
     (prefix, suffix) \<leftarrow> dns_name_split (NODENAME c (dns_name_init (Some []))) common (Some fixedname) (Some fixedname);
     prefix \<leftarrow> prefix;
     suffix \<leftarrow> suffix;
     (result, s, new_current) \<leftarrow> create_node mem s suffix;
     if result \<noteq> ISC_R_SUCCESS then Some (result, rbt, s, None)
     else do {
       c \<leftarrow> node_get s current;
       s \<leftarrow> node_set s new_current (\<lambda>n. n\<lparr>is_root := is_root c\<rparr>);
       s \<leftarrow> node_set s new_current
         (\<lambda>n. n\<lparr>nsec := if nsec c = DNS_RBT_NSEC_HAS_NSEC then DNS_RBT_NSEC_NORMAL else nsec c\<rparr>);
       s \<leftarrow> node_set s new_current (\<lambda>n. n\<lparr>parent := parent c, left := left c, right := right c, color := color c\<rparr>);
       s \<leftarrow> (if par \<noteq> None then do {
               p \<leftarrow> node_get s par;
               if left p = current then node_set s par (\<lambda>p. p\<lparr>left := new_current\<rparr>)
               else node_set s par (\<lambda>p. p\<lparr>right := new_current\<rparr>) }
             else Some s);
       n \<leftarrow> node_get s new_current;
       s \<leftarrow> (if left n \<noteq> None then node_set s (left n) (\<lambda>l. l\<lparr>parent := new_current\<rparr>) else Some s);
       s \<leftarrow> (if right n \<noteq> None then node_set s (right n) (\<lambda>r. r\<lparr>parent := new_current\<rparr>) else Some s);
       r \<leftarrow> root_get rbt s root;
       (rbt, s) \<leftarrow> (if r = current then root_set rbt s root new_current else Some (rbt, s));
       s \<leftarrow> node_set s current (\<lambda>n. n\<lparr>namelen := of_nat (n_length prefix), offsetlen := of_nat (n_labels prefix)\<rparr>);
       s \<leftarrow> node_set s current (\<lambda>n. n\<lparr>is_root := True, parent := new_current\<rparr>);
       s \<leftarrow> node_set s new_current (\<lambda>n. n\<lparr>down := current\<rparr>);
       s \<leftarrow> node_set s current (\<lambda>n. n\<lparr>left := None, right := None, color := BLACK,
              attributes := attributes n AND NOT (ucast DNS_NAMEATTR_ABSOLUTE)\<rparr>);
       let rbt = rbt\<lparr>rt_nodecount := rt_nodecount rbt + 1\<rparr> in do {
       new_name \<leftarrow> dns_name_getlabelsequence name (nlabels - hlabels) hlabels fixedname False;
       (rbt, s) \<leftarrow> hash_node fullhash mem rbt s new_current new_name;
       Some (ISC_R_SUCCESS, rbt, s, new_current) } } }"

text \<open>The loop of \<open>dns_rbt_addnode\<close>. Its result has the value of \<open>result\<close>, the tree, the node to return if there is one, and
  what the code after the loop uses otherwise: the rest of the name, the node, the order and the root cell of the level.\<close>

partial_function (option) addnode_loop ::
    "(dns_name \<Rightarrow> bool \<Rightarrow> u32 option) \<Rightarrow> allocator \<Rightarrow> dns_name \<Rightarrow> nat \<Rightarrow> dns_rbt \<Rightarrow> node_store \<Rightarrow>
     dns_name \<Rightarrow> nat option \<Rightarrow> nat option \<Rightarrow> nat option \<Rightarrow> nat \<Rightarrow> nat \<Rightarrow>
     (isc_result \<times> dns_rbt \<times> node_store \<times> nat option \<times> (dns_name \<times> nat option \<times> int \<times> nat option) option) option" where
  "addnode_loop fullhash mem name nlabels rbt s add_name root par child hlabels level_count = do {
     let current = child in do {
     c \<leftarrow> node_get s current;
     (compared, order, common) \<leftarrow> dns_name_fullcompare add_name (NODENAME c (dns_name_init (Some [])));
     if compared = dns_namereln_equal then Some (ISC_R_EXISTS, rbt, s, current, None)
     else if compared = dns_namereln_none then
       let par' = (if order \<noteq> 0 then current else par);
           child' = (if order < 0 then left c else if order > 0 then right c else child) in
       if child' \<noteq> None
       then addnode_loop fullhash mem name nlabels rbt s add_name root par' child' hlabels level_count
       else Some (ISC_R_SUCCESS, rbt, s, None, Some (add_name, current, order, root))
     else let hlabels = hlabels + common in
       if compared = dns_namereln_subdomain then do {
         add_name \<leftarrow> dns_name_split_self add_name common;
         let root = current in do {
         r \<leftarrow> root_get rbt s root;
         REQUIRE (r = None \<or> (case node_get s r of Some r \<Rightarrow> is_root r \<and> parent r = current | None \<Rightarrow> False));
         level_count \<leftarrow> ADD_LEVEL level_count;
         if down c \<noteq> None
         then addnode_loop fullhash mem name nlabels rbt s add_name root None (down c) hlabels level_count
         else Some (ISC_R_SUCCESS, rbt, s, None, Some (add_name, current, order, root)) } }
       else do {
         REQUIRE (compared = dns_namereln_commonancestor \<or> compared = dns_namereln_contains);
         if level_count = DNS_RBT_LEVELBLOCK then Some (ISC_R_NOSPACE, rbt, s, None, None)
         else do {
           (result, rbt, s, new_current) \<leftarrow> split_node fullhash mem name nlabels hlabels common current par root rbt s;
           if result \<noteq> ISC_R_SUCCESS then Some (result, rbt, s, None, None)
           else do {
             level_count \<leftarrow> ADD_LEVEL level_count;
             count \<leftarrow> dns_name_countlabels add_name;
             if common = count then Some (ISC_R_SUCCESS, rbt, s, new_current, None)
             else do {
               add_name \<leftarrow> dns_name_split_self add_name common;
               Some (ISC_R_SUCCESS, rbt, s, None, Some (add_name, current, order, new_current)) } } } } } }"

text \<open>The code after the loop.\<close>

definition addnode_insert ::
    "(dns_name \<Rightarrow> bool \<Rightarrow> u32 option) \<Rightarrow> allocator \<Rightarrow> dns_name \<Rightarrow> dns_name \<times> nat option \<times> int \<times> nat option \<Rightarrow> dns_rbt \<Rightarrow> node_store \<Rightarrow>
     (isc_result \<times> dns_rbt \<times> node_store \<times> nat option) option" where
  "addnode_insert fullhash mem name place rbt s = (case place of (add_name, current, order, root) \<Rightarrow> do {
     (result, s, new_current) \<leftarrow> create_node mem s add_name;
     if result \<noteq> ISC_R_SUCCESS then Some (result, rbt, s, None)
     else do {
       r \<leftarrow> root_get rbt s root;
       (s, r) \<leftarrow> dns_rbt_addonlevel s new_current current order r;
       (rbt, s) \<leftarrow> root_set rbt s root r;
       let rbt = rbt\<lparr>rt_nodecount := rt_nodecount rbt + 1\<rparr> in do {
       (rbt, s) \<leftarrow> hash_node fullhash mem rbt s new_current name;
       Some (ISC_R_SUCCESS, rbt, s, new_current) } } })"

definition dns_rbt_addnode ::
    "(dns_name \<Rightarrow> bool \<Rightarrow> u32 option) \<Rightarrow> allocator \<Rightarrow> dns_rbt \<Rightarrow> node_store \<Rightarrow> dns_name \<Rightarrow> nat option \<Rightarrow>
     (isc_result \<times> dns_rbt \<times> node_store \<times> nat option) option" where
  "dns_rbt_addnode fullhash mem rbt s name nodep = do {
     absolute \<leftarrow> dns_name_isabsolute name;
     REQUIRE absolute;
     REQUIRE (nodep = None);
     add_name \<leftarrow> dns_name_clone name fixedname;
     if rt_root rbt = None then do {
       (result, s, new_current) \<leftarrow> create_node mem s add_name;
       if result \<noteq> ISC_R_SUCCESS then Some (result, rbt, s, nodep)
       else do {
         let rbt = rbt\<lparr>rt_nodecount := rt_nodecount rbt + 1\<rparr> in do {
         s \<leftarrow> node_set s new_current (\<lambda>n. n\<lparr>is_root := True\<rparr>);
         let rbt = rbt\<lparr>rt_root := new_current\<rparr> in do {
         (rbt, s) \<leftarrow> hash_node fullhash mem rbt s new_current name;
         Some (ISC_R_SUCCESS, rbt, s, new_current) } } } }
     else do {
       r \<leftarrow> node_get s (rt_root rbt);
       REQUIRE (is_root r);
       nlabels \<leftarrow> dns_name_countlabels name;
       (result, rbt, s, node, place) \<leftarrow>
         addnode_loop fullhash mem name nlabels rbt s add_name None None (rt_root rbt) 0 0;
       case place of
         None \<Rightarrow> Some (result, rbt, s, node)
       | Some place \<Rightarrow> addnode_insert fullhash mem name place rbt s } }"

text \<open>\<open>ndata\<close> is the pointer to the data.\<close>

definition dns_rbt_addname ::
    "(dns_name \<Rightarrow> bool \<Rightarrow> u32 option) \<Rightarrow> allocator \<Rightarrow> dns_rbt \<Rightarrow> node_store \<Rightarrow> dns_name \<Rightarrow> nat option \<Rightarrow>
     (isc_result \<times> dns_rbt \<times> node_store) option" where
  "dns_rbt_addname fullhash mem rbt s name ndata = do {
     absolute \<leftarrow> dns_name_isabsolute name;
     REQUIRE absolute;
     (result, rbt, s, node) \<leftarrow> dns_rbt_addnode fullhash mem rbt s name None;
     unused \<leftarrow> (if result = ISC_R_EXISTS then do { n \<leftarrow> node_get s node; Some (data n = None) } else Some False);
     if result = ISC_R_SUCCESS \<or> unused then do {
       s \<leftarrow> node_set s node (\<lambda>n. n\<lparr>data := ndata\<rparr>);
       Some (ISC_R_SUCCESS, rbt, s) }
     else Some (result, rbt, s) }"

declare addnode_loop.simps [code]

section \<open>Names of nodes\<close>

partial_function (option) find_up :: "'a nodes \<Rightarrow> nat option \<Rightarrow> nat option option" where
  "find_up s node = do {
     n \<leftarrow> node_get s node;
     if is_root n then Some (parent n) else find_up s (parent n) }"

definition dns_rbt_namefromnode :: "node_store \<Rightarrow> nat option \<Rightarrow> dns_name \<Rightarrow> dns_name option" where
  "dns_rbt_namefromnode s node name = do {
     REQUIRE (n_offsets name = None);
     n \<leftarrow> node_get s node;
     Some (NODENAME n name) }"

text \<open>The prefix and the result of \<open>dns_name_concatenate\<close> are one object with its own buffer; the bytes of the prefix, which the
  code leaves where they are, are written to the same place.\<close>

partial_function (option) fullname_loop :: "node_store \<Rightarrow> nat option \<Rightarrow> dns_name \<Rightarrow> (isc_result \<times> dns_name) option" where
  "fullname_loop s node name = do {
     n \<leftarrow> node_get s node;
     (result, name, _) \<leftarrow> dns_name_concatenate (Some name) (Some (NODENAME n (dns_name_init None))) (Some name) None;
     if result \<noteq> ISC_R_SUCCESS then Some (result, name)
     else do {
       node \<leftarrow> find_up s node;
       absolute \<leftarrow> dns_name_isabsolute name;
       if absolute then Some (result, name) else fullname_loop s node name } }"

declare find_up.simps [code]
declare fullname_loop.simps [code]

definition dns_rbt_fullnamefromnode :: "node_store \<Rightarrow> nat option \<Rightarrow> dns_name \<Rightarrow> (isc_result \<times> dns_name) option" where
  "dns_rbt_fullnamefromnode s node name = do {
     REQUIRE (n_buffer name \<noteq> None);
     name \<leftarrow> dns_name_reset name;
     fullname_loop s node name }"

text \<open>\<open>printname\<close> is the array of the caller; \<open>totext\<close> gives the registered text of a result (\<open>dns_result_totext\<close>).\<close>

definition dns_rbt_formatnodename ::
    "isc_result \<Rightarrow> (isc_buffer \<Rightarrow> u32 \<Rightarrow> bool \<Rightarrow> isc_result \<times> isc_buffer) option \<Rightarrow> (isc_result \<Rightarrow> bytes) \<Rightarrow>
     node_store \<Rightarrow> nat option \<Rightarrow> bytes \<Rightarrow> u32 \<Rightarrow> bytes option" where
  "dns_rbt_formatnodename keyinit filt totext s node printname sz = do {
     (result, name) \<leftarrow> dns_rbt_fullnamefromnode s node fixedname;
     if result = ISC_R_SUCCESS then dns_name_format keyinit filt name printname sz
     else if sz = 0 then Some printname
     else mem_write printname 0 (take (unat sz - 1)
       ([0x3c, 0x65, 0x72, 0x72, 0x6f, 0x72, 0x20, 0x62, 0x75, 0x69, 0x6c, 0x64, 0x69, 0x6e, 0x67, 0x20,
         0x6e, 0x61, 0x6d, 0x65, 0x3a, 0x20] @ totext result @ [0x3e]) @ [0]) }"

end
