(* ===== verification/Dns_Rbt_Forest.thy ===== *)
theory Dns_Rbt_Forest
  imports Dns_Rbt_Tree
begin

text \<open>
  What a tree of trees is: the names of its nodes, the levels and the full names (\<open>forest\<close>), and what a node that is added or
  divided changes of it. The full name of a node is its own labels and the full name of the node above its level; the nodes of
  a level differ in their last labels, so that a full name, up to letter case, belongs to one node.
\<close>

section \<open>Names of nodes\<close>

definition node_named :: "tree_node \<Rightarrow> bytes list \<Rightarrow> bool" where
  "node_named n ls \<longleftrightarrow> ls \<noteq> [] \<and> name_repr (NODENAME n (dns_name_init (Some []))) ls"

lemma absolute_nodename: "absolute_attr (NODENAME n name) \<longleftrightarrow> bit (attributes n) 0"
  by (simp add: absolute_attr_bit NODENAME_def bit_simps DNS_NAMEATTR_READONLY_def)

lemma absolute_masked: "bit (a AND NOT (ucast DNS_NAMEATTR_ABSOLUTE) :: 3 word) 0 = False"
  by (simp add: DNS_NAMEATTR_ABSOLUTE_def bit_simps)

lemma nodename_magic: "VALID_NAME (NODENAME n (dns_name_init (Some [])))"
  by (simp add: NODENAME_def VALID_NAME_def dns_name_init_def DNS_NAME_INIT_def)

lemma node_namedI:
  assumes "ls \<noteq> []" and "labels_ok ls" and "unat (offsetlen n) = length ls" and "unat (namelen n) = length (wire ls)"
    and "tail n = wire ls @ rest" and "bit (attributes n) 0 = ends_root ls" and "take (length ls) (drop (unat (oldnamelen n) + 1) (tail n)) = offsets_of ls"
  shows "node_named n ls"
  unfolding node_named_def
  using assms absolute_nodename [of n "dns_name_init (Some [])"] nodename_magic [of n]
  by (intro conjI name_reprI [where rest = rest]) (auto simp: NODENAME_def)

lemma node_namedD:
  assumes "node_named n ls"
  shows "ls \<noteq> []" "labels_ok ls" "unat (offsetlen n) = length ls" "unat (namelen n) = length (wire ls)"
    "tail n = wire ls @ drop (length (wire ls)) (tail n)" "bit (attributes n) 0 = ends_root ls"
    "take (length ls) (drop (unat (oldnamelen n) + 1) (tail n)) = offsets_of ls"
  using assms absolute_nodename [of n "dns_name_init (Some [])"] name_repr_bytes [of "NODENAME n (dns_name_init (Some []))" ls]
    name_reprD [of "NODENAME n (dns_name_init (Some []))" ls]
  by (auto simp: node_named_def NODENAME_def name_repr_def)

text \<open>The name depends on these fields only.\<close>

definition same_name :: "tree_node \<Rightarrow> tree_node \<Rightarrow> bool" where
  "same_name n n' \<longleftrightarrow> namelen n' = namelen n \<and> offsetlen n' = offsetlen n \<and> oldnamelen n' = oldnamelen n \<and>
     attributes n' = attributes n \<and> tail n' = tail n"

lemma same_nodename: "same_name n n' \<Longrightarrow> NODENAME n' = NODENAME n"
  by (simp add: same_name_def NODENAME_def fun_eq_iff)

lemma same_named: "same_name n n' \<Longrightarrow> node_named n' ls = node_named n ls"
  by (simp add: node_named_def same_nodename)

text \<open>A node loses the last labels of its name.\<close>

lemma node_prefix:
  assumes "node_named n (pre @ suf)" and "pre \<noteq> []" and "suf \<noteq> []" and "namelen n' = of_nat (length (wire pre))"
    and "offsetlen n' = of_nat (length pre)" and "oldnamelen n' = oldnamelen n" and "tail n' = tail n" and "\<not> bit (attributes n') 0"
  shows "node_named n' pre"
proof -
  note d = node_namedD [OF assms(1)]
  have ok: "labels_ok pre" using labels_ok_take [OF d(2), of "length pre"] by simp
  have "length (wire pre) \<le> 255" "length pre \<le> 128" using ok labels_le_128 [OF ok] by (simp_all add: labels_ok_def DNS_NAME_MAXWIRE_def)
  moreover have "take (length pre) (drop (unat (oldnamelen n) + 1) (tail n)) = take (length pre) (offsets_of (pre @ suf))"
    using arg_cong [OF d(7), of "take (length pre)"] by simp
  ultimately show ?thesis
    using assms ok d(5) no_inner_root [OF d(2) assms(3)]
    by (intro node_namedI [where rest = "wire suf @ drop (length (wire (pre @ suf))) (tail n)"])
      (auto simp: offsets_of_append unsigned_of_nat take_bit_nat_eq_self)
qed

section \<open>The working copy of a name\<close>

definition work_name :: "dns_name \<Rightarrow> bytes list \<Rightarrow> bool" where
  "work_name a ls \<longleftrightarrow> name_repr a ls \<and> n_buffer a \<noteq> None \<and> BINDABLE a \<and> n_offsets a \<noteq> None"

lemma fixedname_work: "VALID_NAME (dns_fixedname d)" "BINDABLE (dns_fixedname d)" "n_buffer (dns_fixedname d) \<noteq> None" "n_offsets (dns_fixedname d) = Some []"
  by (simp_all add: dns_fixedname_def VALID_NAME_def BINDABLE_def dns_name_init_def DNS_NAME_INIT_def)

lemma attr_masked: "(a AND NOT (DNS_NAMEATTR_READONLY OR DNS_NAMEATTR_DYNAMIC OR DNS_NAMEATTR_DYNOFFSETS)) AND
    (DNS_NAMEATTR_READONLY OR DNS_NAMEATTR_DYNAMIC) = 0"
  by (simp add: attr_defs and.assoc)

lemma clone_work:
  assumes "name_repr name ls" and "ls \<noteq> []"
  shows "\<exists>a. dns_name_clone name (dns_fixedname d) = Some a \<and> work_name a ls"
proof -
  obtain a where a: "dns_name_clone name (dns_fixedname d) = Some a" "name_repr a ls"
    using clone_repr [OF assms(1) fixedname_work(1,2)] by blast
  have "n_labels name > 0" using name_reprD(3) [OF assms(1)] assms(2) by simp
  then have "n_buffer a \<noteq> None \<and> BINDABLE a \<and> n_offsets a \<noteq> None"
    using a(1) fixedname_work [of d] attr_masked [of "n_attributes name"]
    by (auto simp: dns_name_clone_def refresh_offsets_def set_offsets_def BINDABLE_def Let_def bind_eq_Some_conv split: option.splits if_splits)
  then show ?thesis using a by (auto simp: work_name_def)
qed

lemma split_self_work:
  assumes w: "work_name a ls" and k: "0 < k" "k < length ls"
  shows "\<exists>a'. dns_name_split_self a k = Some a' \<and> work_name a' (take (length ls - k) ls)"
proof -
  have r: "name_repr a ls" "n_buffer a \<noteq> None" "BINDABLE a" using w by (simp_all add: work_name_def)
  obtain t where t: "n_offsets a = Some t" using w by (auto simp: work_name_def)
  have tb: "take (length ls) t = offsets_of ls" using r(1) t by (simp add: name_repr_def)
  note d = name_reprD [OF r(1)]
  let ?n = "length ls - k" and ?sub = "take (length ls - k) ls"
  let ?a = "a\<lparr>n_length := length (wire ?sub), n_attributes := n_attributes a AND NOT DNS_NAMEATTR_ABSOLUTE, n_labels := ?n\<rparr>"
  have off: "map_option unat (rd t i) = Some (length (wire (take i ls)))" if "i < length ls" for i
    using rd_offsets [OF d(2) tb] that by simp
  obtain z0 where z0: "rd t 0 = Some z0" "unat z0 = 0" using off [of 0] k by (cases ls) auto
  have "?n < length ls" using k by linarith
  then obtain z where z: "rd t ?n = Some z" "unat z = length (wire ?sub)" using off [of ?n] by auto
  have "ls \<noteq> []" "?n \<noteq> length ls" using k by auto
  then have "dns_name_split_self a k = Some ?a"
    using k r d z0 z t by (simp add: dns_name_split_self_def dns_name_getlabelsequence_def SETUP_OFFSETS_def)
  moreover have "work_name ?a ?sub"
  proof -
    have "name_repr ?a ?sub"
    proof (rule name_reprI [where rest = "wire (drop ?n ls) @ drop (length (wire ls)) (n_ndata a)"])
      show "VALID_NAME ?a" using d(1) by (simp add: VALID_NAME_def)
      show "labels_ok ?sub" by (rule labels_ok_take [OF d(2)])
      show "n_labels ?a = length ?sub" "n_length ?a = length (wire ?sub)" by simp_all
      show "n_ndata ?a = wire ?sub @ wire (drop ?n ls) @ drop (length (wire ls)) (n_ndata a)"
        using name_repr_bytes [OF r(1)] by (simp flip: wire_append append.assoc)
      show "absolute_attr ?a = ends_root ?sub"
        using ends_root_take [OF d(2), of ?n] k by (simp add: absolute_attr_def attr_absolute)
      show "take (length ?sub) t' = offsets_of ?sub" if "n_offsets ?a = Some t'" for t'
        using that t arg_cong [OF tb, of "take ?n"] by (simp add: take_offsets_of)
    qed
    then show ?thesis using r t by (simp add: work_name_def BINDABLE_def attr_bindable)
  qed
  ultimately show ?thesis by blast
qed

section \<open>New nodes\<close>

definition new_tree_node :: "tree_node \<Rightarrow> bytes list \<Rightarrow> bool" where
  "new_tree_node n ls \<longleftrightarrow> node_named n ls \<and> parent n = None \<and> left n = None \<and> right n = None \<and> \<not> is_root n \<and> color n = BLACK \<and>
     down n = None \<and> data n = None"

lemma create_node_ok:
  assumes r: "name_repr name ls" and "ls \<noteq> []" and "n_offsets name \<noteq> None"
  shows "case mem s (SIZEOF_RBTNODE + length (wire ls) + length ls + 1) of
      None \<Rightarrow> create_node mem s name = Some (ISC_R_NOMEMORY, s, None)
    | Some a \<Rightarrow> \<exists>n. create_node mem s name = Some (ISC_R_SUCCESS, s(a \<mapsto> n), Some a) \<and> new_tree_node n ls"
proof -
  note d = name_reprD [OF r]
  obtain t where t: "n_offsets name = Some t" using assms(3) by auto
  have l: "length (wire ls) \<le> 255" "length ls \<le> 128" using d(2) labels_le_128 [OF d(2)] by (simp_all add: labels_ok_def DNS_NAME_MAXWIRE_def)
  have u: "unat (of_nat (length (wire ls)) :: u8) = length (wire ls)" "unat (of_nat (length ls) :: u8) = length ls"
    using l by (simp_all add: unsigned_of_nat take_bit_nat_eq_self)
  have m: "mem_read t 0 (length ls) = Some (offsets_of ls)" using name_repr_offsets [OF r t] d(3) by simp
  let ?w = "length (wire ls)" and ?l = "length ls"
  have 1: "mem_write (replicate (?w + ?l + 1) 0) ?w [of_nat ?l :: u8] = Some (replicate ?w 0 @ of_nat ?l # replicate ?l 0)"
    by (simp add: mem_write_def min_def del: replicate.simps)
  have 2: "mem_write (replicate ?w 0 @ of_nat ?l # replicate ?l 0) 0 (wire ls) = Some (wire ls @ of_nat ?l # replicate ?l 0)"
    by (simp add: mem_write_def)
  have 3: "mem_write (wire ls @ of_nat ?l # replicate ?l 0) (?w + 1) (offsets_of ls) = Some (wire ls @ of_nat ?l # offsets_of ls)"
    by (simp add: mem_write_def)
  have c: "dns_name_countlabels name = Some (length ls)" using d(1,3) l(2) by (simp add: dns_name_countlabels_def)
  show ?thesis
  proof (cases "mem s (SIZEOF_RBTNODE + ?w + ?l + 1)")
    case None
    then show ?thesis using t d(6) c assms(2) by (simp add: create_node_def)
  next
    case (Some a)
    let ?n = "\<lparr>parent = None, left = None, right = None, is_root = False, color = BLACK,
             down = None, hashnext = None, deadlink = False, find_callback = False, attributes = ucast (n_attributes name),
             nsec = DNS_RBT_NSEC_NORMAL, namelen = of_nat ?w, offsetlen = of_nat ?l, oldnamelen = of_nat ?w,
             hashval = 0, data = None, dirty = False, wild = False, locknum = 0, references = 0, tail = wire ls @ of_nat ?l # offsets_of ls\<rparr>"
    have "create_node mem s name = Some (ISC_R_SUCCESS, s(a \<mapsto> ?n), Some a)"
      using t d(6) c assms(2) Some m u 1 2 3 by (simp add: create_node_def Let_def)
    moreover have "node_named ?n ls"
      by (rule node_namedI [where rest = "of_nat ?l # offsets_of ls"]) (use assms(2) d(2,5) u in \<open>simp_all add: absolute_attr_bit bit_simps\<close>)
    ultimately have "\<exists>n. create_node mem s name = Some (ISC_R_SUCCESS, s(a \<mapsto> n), Some a) \<and> new_tree_node n ls"
      by (intro exI [of _ ?n]) (simp add: new_tree_node_def)
    then show ?thesis using Some by simp
  qed
qed

section \<open>Trees of trees\<close>

text \<open>A tree of trees with the nodes \<open>N\<close>: \<open>lv u\<close> is the tree of the level below the node \<open>u\<close>, and \<open>lv None\<close> the top level;
  \<open>nm a\<close> are the labels of the node \<open>a\<close> and \<open>fn a\<close> those of its full name. The nodes of a level are in the order of the
  last labels of their names, and no two of them have the same last label.\<close>

definition level_key :: "bytes list \<Rightarrow> bytes" where
  "level_key ls = map maptolower (last ls)"

definition levels :: "nat set \<Rightarrow> nat option set" where
  "levels N = insert None (Some ` N)"

definition full :: "(nat \<Rightarrow> bytes list) \<Rightarrow> nat option \<Rightarrow> bytes list" where
  "full fn u = (case u of None \<Rightarrow> [] | Some a \<Rightarrow> fn a)"

definition root_cell :: "node_store \<Rightarrow> nat option \<Rightarrow> nat option \<Rightarrow> nat option" where
  "root_cell s root u = (case u of None \<Rightarrow> root | Some a \<Rightarrow> Option.bind (s a) down)"

definition level_sorted :: "(nat \<Rightarrow> bytes list) \<Rightarrow> nat list \<Rightarrow> bool" where
  "level_sorted nm xs \<longleftrightarrow> sorted_wrt (\<lambda>a b. level_key (nm a) < level_key (nm b)) xs"

definition forest ::
    "node_store \<Rightarrow> nat option \<Rightarrow> (nat option \<Rightarrow> rbt) \<Rightarrow> (nat \<Rightarrow> bytes list) \<Rightarrow> (nat \<Rightarrow> bytes list) \<Rightarrow> nat set \<Rightarrow> bool" where
  "forest s root lv nm fn N \<longleftrightarrow>
     N = (\<Union>u \<in> levels N. set (inorder (lv u))) \<and>
     (\<forall>u \<in> levels N. \<forall>v \<in> levels N. u \<noteq> v \<longrightarrow> set (inorder (lv u)) \<inter> set (inorder (lv v)) = {}) \<and>
     (\<forall>u \<in> levels N. rb_level s u (root_cell s root u) (lv u) \<and> level_sorted nm (inorder (lv u))) \<and>
     (\<forall>u \<in> levels N. \<forall>a \<in> set (inorder (lv u)). fn a = nm a @ full fn u \<and> labels_ok (fn a) \<and> ends_root (fn a)) \<and>
     (\<forall>a \<in> N. \<exists>n. s a = Some n \<and> node_named n (nm a))"

lemma levels_simps [simp]: "None \<in> levels N" "Some a \<in> levels N \<longleftrightarrow> a \<in> N" "levels (insert a N) = insert (Some a) (levels N)"
  by (auto simp: levels_def)

lemma full_simps [simp]: "full fn None = []" "full fn (Some a) = fn a"
  by (simp_all add: full_def)

lemma root_cell_simps [simp]: "root_cell s root None = root" "s a = Some n \<Longrightarrow> root_cell s root (Some a) = down n"
  by (simp_all add: root_cell_def)

lemma forestD:
  assumes "forest s root lv nm fn N" and "u \<in> levels N"
  shows "rb_level s u (root_cell s root u) (lv u)" and "level_sorted nm (inorder (lv u))" and "set (inorder (lv u)) \<subseteq> N"
    and "a \<in> set (inorder (lv u)) \<Longrightarrow> fn a = nm a @ full fn u \<and> labels_ok (fn a) \<and> ends_root (fn a)"
    and "v \<in> levels N \<Longrightarrow> u \<noteq> v \<Longrightarrow> set (inorder (lv u)) \<inter> set (inorder (lv v)) = {}"
  using assms unfolding forest_def by blast+

lemma forest_node:
  assumes "forest s root lv nm fn N" and "a \<in> N"
  obtains n where "s a = Some n" and "node_named n (nm a)"
  using assms unfolding forest_def by blast

lemma forest_level:
  assumes "forest s root lv nm fn N" and "a \<in> N"
  obtains u where "u \<in> levels N" and "a \<in> set (inorder (lv u))"
  using assms unfolding forest_def by blast

lemma forest_fn:
  assumes "forest s root lv nm fn N" and "a \<in> N"
  shows "labels_ok (fn a)" and "ends_root (fn a)" and "fn a \<noteq> []"
  using forest_level [OF assms] forestD(4) [OF assms(1)] by (metis ends_root_def)+

lemma forest_full_root:
  assumes "forest s root lv nm fn N" and "u \<in> levels N"
  shows "ends_root (full fn u) \<longleftrightarrow> u \<noteq> None"
  using assms forest_fn [OF assms(1)] by (cases u) auto

lemma nm_root:
  assumes "forest s root lv nm fn N" and "u \<in> levels N" and "a \<in> set (inorder (lv u))"
  shows "ends_root (nm a) \<longleftrightarrow> u = None"
proof -
  have a: "fn a = nm a @ full fn u" "labels_ok (fn a)" "ends_root (fn a)" using forestD(4) [OF assms] by blast+
  show ?thesis
  proof (cases u)
    case (Some b)
    then have "fn b \<noteq> []" using forest_fn(3) [OF assms(1)] assms(2) by simp
    then show ?thesis using no_inner_root [of "nm a" "fn b"] a Some by simp
  qed (use a in simp)
qed

section \<open>Changes of the store\<close>

definition same_links :: "'a rbtnode_scheme \<Rightarrow> 'a rbtnode_scheme \<Rightarrow> bool" where
  "same_links n n' \<longleftrightarrow> parent n' = parent n \<and> left n' = left n \<and> right n' = right n \<and> is_root n' = is_root n \<and> color n' = color n"

lemma tree_at_links:
  assumes "tree_at s f par p t" and "\<And>a n. a \<in> set (inorder t) \<Longrightarrow> s a = Some n \<Longrightarrow> \<exists>n'. s' a = Some n' \<and> same_links n n'"
  shows "tree_at s' f par p t"
  using assms
proof (induction t arbitrary: f par p)
  case (Nd l a c r)
  then obtain n where n: "p = Some a" "s a = Some n" "parent n = par" "is_root n = f" "color n = c"
    "tree_at s False (Some a) (left n) l" "tree_at s False (Some a) (right n) r" by (auto split: option.splits)
  obtain n' where n': "s' a = Some n'" "same_links n n'" using Nd.prems(2) [of a n] n(2) by auto
  have "tree_at s' False (Some a) (left n) l" "tree_at s' False (Some a) (right n) r"
    using Nd.IH n(6,7) Nd.prems(2) by auto
  then show ?case using n n' by (auto simp: same_links_def)
qed simp

lemma rb_level_links:
  assumes "rb_level s up root t" and "\<And>a n. a \<in> set (inorder t) \<Longrightarrow> s a = Some n \<Longrightarrow> \<exists>n'. s' a = Some n' \<and> same_links n n'"
  shows "rb_level s' up root t"
  using assms tree_at_links [of s True up root t s'] by (auto simp: rb_level_def level_def)

lemma same_links_refl [simp]: "same_links n n"
  by (simp add: same_links_def)

lemma same_name_refl [simp]: "same_name n n"
  by (simp add: same_name_def)

lemma more_fields:
  assumes "rbtnode.more n' = rbtnode.more n"
  shows "same_name n n'" "down n' = down n" "data n' = data n" "hashval n' = hashval n" "hashnext n' = hashnext n"
  using assms by (cases n; cases n'; simp add: same_name_def)+

text \<open>A change that keeps links, down pointers and names of all nodes.\<close>

lemma forest_cong:
  assumes f: "forest s root lv nm fn N"
    and c: "\<And>a n. a \<in> N \<Longrightarrow> s a = Some n \<Longrightarrow> \<exists>n'. s' a = Some n' \<and> same_links n n' \<and> same_name n n' \<and> down n' = down n"
  shows "forest s' root lv nm fn N"
  unfolding forest_def
proof (intro conjI ballI impI)
  show "N = (\<Union>u \<in> levels N. set (inorder (lv u)))" using f by (simp add: forest_def)
  fix u assume u: "u \<in> levels N"
  have "root_cell s' root u = root_cell s root u"
  proof (cases u)
    case (Some a)
    then obtain n where n: "s a = Some n" using forest_node [OF f] u by auto
    then obtain n' where "s' a = Some n'" "down n' = down n" using c [of a n] u Some by auto
    then show ?thesis using n Some by simp
  qed simp
  then show "rb_level s' u (root_cell s' root u) (lv u)"
    using rb_level_links [OF forestD(1) [OF f u], of s'] c forestD(3) [OF f u] by fastforce
  show "level_sorted nm (inorder (lv u))" by (rule forestD(2) [OF f u])
  show "set (inorder (lv u)) \<inter> set (inorder (lv v)) = {}" if "v \<in> levels N" "u \<noteq> v" for v using forestD(5) [OF f u that] .
  show "fn a = nm a @ full fn u" "labels_ok (fn a)" "ends_root (fn a)" if "a \<in> set (inorder (lv u))" for a
    using forestD(4) [OF f u that] by blast+
next
  fix a assume "a \<in> N"
  then show "\<exists>n. s' a = Some n \<and> node_named n (nm a)" using forest_node [OF f] c same_named by metis
qed

text \<open>A node is added to a level.\<close>

lemma forest_add:
  assumes f: "forest s root lv nm fn N" and u: "u \<in> levels N" and x: "x \<notin> N" "s' x = Some xn" "node_named xn al" "down xn = None"
    and t: "rb_level s' u (root_cell s' root' u) t" "set (inorder t) = insert x (set (inorder (lv u)))" "level_sorted (nm(x := al)) (inorder t)"
    and r: "u \<noteq> None \<Longrightarrow> root' = root" and al: "labels_ok (al @ full fn u)" "ends_root (al @ full fn u)"
    and c: "\<And>a n. a \<in> N \<Longrightarrow> s a = Some n \<Longrightarrow> \<exists>n'. s' a = Some n' \<and> same_name n n' \<and> (a \<notin> set (inorder (lv u)) \<longrightarrow> same_links n n') \<and>
      (u \<noteq> Some a \<longrightarrow> down n' = down n)"
  shows "forest s' root' (lv(u := t, Some x := Lf)) (nm(x := al)) (fn(x := al @ full fn u)) (insert x N)"
proof -
  let ?lv = "lv(u := t, Some x := Lf)" and ?nm = "nm(x := al)" and ?fn = "fn(x := al @ full fn u)"
  have ux: "u \<noteq> Some x" using u x(1) by auto
  have lv: "?lv v = lv v" if "v \<in> levels N" "v \<noteq> u" for v using that x(1) by auto
  have sub: "set (inorder (lv v)) \<subseteq> N" if "v \<in> levels N" for v using forestD(3) [OF f that] .
  have fu: "full ?fn v = full fn v" if "v \<in> levels N" for v using that x(1) by (cases v) auto
  show ?thesis
    unfolding forest_def
  proof (intro conjI ballI impI)
    have "(\<Union>v \<in> levels (insert x N). set (inorder (?lv v))) = (\<Union>v \<in> levels N. set (inorder (?lv v)))" by auto
    also have "\<dots> = (\<Union>v \<in> levels N. set (inorder (if v = u then t else lv v)))" using x(1) ux by (intro SUP_cong) auto
    also have "\<dots> = set (inorder t) \<union> (\<Union>v \<in> levels N - {u}. set (inorder (lv v)))" using u by (auto split: if_splits)
    also have "\<dots> = insert x (\<Union>v \<in> levels N. set (inorder (lv v)))" using u t(2) by auto
    also have "\<dots> = insert x N" using f by (simp add: forest_def)
    finally show "insert x N = (\<Union>v \<in> levels (insert x N). set (inorder (?lv v)))" by simp
  next
    fix v w assume vw: "v \<in> levels (insert x N)" "w \<in> levels (insert x N)" "v \<noteq> w"
    have "set (inorder t) \<inter> set (inorder (lv w)) = {}" if "w \<in> levels N" "w \<noteq> u" for w
      unfolding t(2) using forestD(5) [OF f u that(1)] that sub x(1) by blast
    then show "set (inorder (?lv v)) \<inter> set (inorder (?lv w)) = {}"
      using vw forestD(5) [OF f, of v w] by (auto split: if_splits)
  next
    fix v assume v: "v \<in> levels (insert x N)"
    consider "v = Some x" | "v = u" "v \<noteq> Some x" | "v \<in> levels N" "v \<noteq> u" "v \<noteq> Some x" using v by auto
    then show "rb_level s' v (root_cell s' root' v) (?lv v)"
    proof cases
      case 1
      then show ?thesis using x by (simp add: rb_level_def level_def)
    next
      case 2
      then show ?thesis using t(1) by simp
    next
      case 3
      have "root_cell s' root' v = root_cell s root v"
      proof (cases v)
        case None
        then show ?thesis using r 3 by (cases u) auto
      next
        case (Some a)
        then obtain n where n: "s a = Some n" using forest_node [OF f] 3(1) by auto
        obtain n' where "s' a = Some n'" "down n' = down n" using c [of a n] n Some 3 by auto
        then show ?thesis using n Some by simp
      qed
      moreover have "rb_level s' v (root_cell s root v) (lv v)"
      proof (rule rb_level_links [OF forestD(1) [OF f 3(1)]])
        fix a n assume a: "a \<in> set (inorder (lv v))" "s a = Some n"
        have "a \<in> N" "a \<notin> set (inorder (lv u))" using a(1) sub [OF 3(1)] forestD(5) [OF f u 3(1)] 3(2) by auto
        then show "\<exists>n'. s' a = Some n' \<and> same_links n n'" using c a(2) by blast
      qed
      ultimately show ?thesis using lv [OF 3(1,2)] by simp
    qed
    show "level_sorted ?nm (inorder (?lv v))"
    proof (cases "v = u \<or> v = Some x")
      case True
      then show ?thesis using t(3) ux by (auto simp: level_sorted_def)
    next
      case False
      then have "v \<in> levels N" using v by auto
      then have "sorted_wrt (\<lambda>a b. level_key (nm a) < level_key (nm b)) (inorder (lv v))" "\<forall>a \<in> set (inorder (lv v)). a \<noteq> x"
        using forestD(2) [OF f] sub x(1) by (auto simp: level_sorted_def)
      then show ?thesis using False by (auto simp: level_sorted_def elim!: sorted_wrt_mono_rel [rotated])
    qed
    fix a assume a: "a \<in> set (inorder (?lv v))"
    have "?fn a = ?nm a @ full ?fn v \<and> labels_ok (?fn a) \<and> ends_root (?fn a)"
    proof (cases "a = x")
      case True
      have "v \<in> levels N" "v = u" using a True v lv sub x(1) by (auto split: if_splits)
      then show ?thesis using True al fu by simp
    next
      case False
      have "v \<in> levels N" "a \<in> set (inorder (lv v))" using a v t(2) False by (auto split: if_splits)
      then show ?thesis using forestD(4) [OF f, of v a] fu [of v] False by auto
    qed
    then show "?fn a = ?nm a @ full ?fn v" "labels_ok (?fn a)" "ends_root (?fn a)" by blast+
  next
    fix a assume "a \<in> insert x N"
    then show "\<exists>n. s' a = Some n \<and> node_named n (?nm a)"
      using x forest_node [OF f] c same_named by (cases "a = x") (simp, metis fun_upd_other insertE)
  qed
qed

lemma level_sorted_cong:
  assumes "level_sorted nm xs" and "\<And>a. a \<in> set xs \<Longrightarrow> level_key (nm' a) = level_key (nm a)"
  shows "level_sorted nm' xs"
  using assms unfolding level_sorted_def by (auto elim!: sorted_wrt_mono_rel [rotated])

lemma not_own_level:
  assumes "forest s root lv nm fn N" and "c \<in> N"
  shows "c \<notin> set (inorder (lv (Some c)))"
proof
  assume c: "c \<in> set (inorder (lv (Some c)))"
  then have "fn c = nm c @ fn c" using forestD(4) [OF assms(1), of "Some c" c] assms(2) by simp
  moreover have "nm c \<noteq> []" using forest_node [OF assms] by (metis node_named_def)
  ultimately show False by simp
qed

text \<open>A node is divided.\<close>

lemma forest_split:
  assumes f: "forest s root lv nm fn N" and u: "u \<in> levels N" and c: "c \<in> set (inorder (lv u))" "nm c = pre @ suf" "pre \<noteq> []" "suf \<noteq> []"
    and y: "y \<notin> N" "s' y = Some yn" "node_named yn suf" "down yn = Some c"
    and cn: "s c = Some cn" "s' c = Some cn'" "node_named cn' pre" "down cn' = down cn"
    and t: "rb_level s' u (root_cell s' root' u) t" "inorder t = map (\<lambda>a. if a = c then y else a) (inorder (lv u))"
    and lc: "rb_level s' (Some y) (Some c) (Nd Lf c BLACK Lf)" and r: "u \<noteq> None \<Longrightarrow> root' = root"
    and o: "\<And>a n. a \<in> N \<Longrightarrow> a \<noteq> c \<Longrightarrow> s a = Some n \<Longrightarrow> \<exists>n'. s' a = Some n' \<and> same_name n n' \<and>
      (a \<notin> set (inorder (lv u)) \<longrightarrow> same_links n n') \<and> (u \<noteq> Some a \<longrightarrow> down n' = down n)"
  shows "forest s' root' (lv(u := t, Some y := Nd Lf c BLACK Lf)) (nm(c := pre, y := suf)) (fn(y := suf @ full fn u)) (insert y N)"
proof -
  let ?lv = "lv(u := t, Some y := Nd Lf c BLACK Lf)" and ?nm = "nm(c := pre, y := suf)" and ?fn = "fn(y := suf @ full fn u)"
  have sub: "set (inorder (lv v)) \<subseteq> N" if "v \<in> levels N" for v using forestD(3) [OF f that] .
  have cN: "c \<in> N" "c \<noteq> y" "u \<noteq> Some y" "u \<noteq> Some c" using c(1) sub [OF u] y(1) u not_own_level [OF f] by auto
  have lv: "?lv v = lv v" if "v \<in> levels N" "v \<noteq> u" for v using that y(1) by auto
  have fu: "full ?fn v = full fn v" if "v \<in> levels N" for v using that y(1) by (cases v) auto
  have fc: "fn c = pre @ suf @ full fn u" "labels_ok (fn c)" "ends_root (fn c)" using forestD(4) [OF f u c(1)] c(2) by auto
  have st: "set (inorder t) = insert y (set (inorder (lv u)) - {c})" using t(2) c(1) by auto
  have dis: "c \<notin> set (inorder (lv v))" if "v \<in> levels N" "v \<noteq> u" for v using forestD(5) [OF f u that(1)] that(2) c(1) by auto
  show ?thesis
    unfolding forest_def
  proof (intro conjI ballI impI)
    have "(\<Union>v \<in> levels (insert y N). set (inorder (?lv v))) = insert c (\<Union>v \<in> levels N. set (inorder (?lv v)))" using cN y(1) by auto
    also have "(\<Union>v \<in> levels N. set (inorder (?lv v))) = (\<Union>v \<in> levels N. set (inorder (if v = u then t else lv v)))"
      using y(1) cN by (intro SUP_cong) auto
    also have "\<dots> = insert y (set (inorder (lv u)) - {c}) \<union> (\<Union>v \<in> levels N - {u}. set (inorder (lv v)))" using u st by (auto split: if_splits)
    also have "insert c \<dots> = insert y (\<Union>v \<in> levels N. set (inorder (lv v)))" using u c(1) by auto
    also have "\<dots> = insert y N" using f by (simp add: forest_def)
    finally show "insert y N = (\<Union>v \<in> levels (insert y N). set (inorder (?lv v)))" by (rule sym)
  next
    fix v w assume vw: "v \<in> levels (insert y N)" "w \<in> levels (insert y N)" "v \<noteq> w"
    have "set (inorder t) \<inter> set (inorder (lv w)) = {}" if "w \<in> levels N" "w \<noteq> u" for w
      unfolding st using forestD(5) [OF f u that(1)] that sub y(1) by blast
    then show "set (inorder (?lv v)) \<inter> set (inorder (?lv w)) = {}"
      using vw forestD(5) [OF f, of v w] dis [of v] dis [of w] st cN by (auto split: if_splits)
  next
    fix v assume v: "v \<in> levels (insert y N)"
    consider "v = Some y" | "v = u" "v \<noteq> Some y" | "v \<in> levels N" "v \<noteq> u" "v \<noteq> Some y" using v by auto
    then show "rb_level s' v (root_cell s' root' v) (?lv v)"
    proof cases
      case 1
      then show ?thesis using lc y by simp
    next
      case 2
      then show ?thesis using t(1) by simp
    next
      case 3
      have "root_cell s' root' v = root_cell s root v"
      proof (cases v)
        case None
        then show ?thesis using r 3 by (cases u) auto
      next
        case (Some a)
        then obtain n where n: "s a = Some n" using forest_node [OF f] 3(1) by auto
        have "\<exists>n'. s' a = Some n' \<and> down n' = down n" using o [of a n] n Some 3 cn by (cases "a = c") auto
        then show ?thesis using n Some by auto
      qed
      moreover have "rb_level s' v (root_cell s root v) (lv v)"
      proof (rule rb_level_links [OF forestD(1) [OF f 3(1)]])
        fix a n assume a: "a \<in> set (inorder (lv v))" "s a = Some n"
        have "a \<in> N" "a \<notin> set (inorder (lv u))" using a(1) sub [OF 3(1)] forestD(5) [OF f u 3(1)] 3(2) by auto
        then show "\<exists>n'. s' a = Some n' \<and> same_links n n'" using o [of a n] a(2) c(1) by blast
      qed
      ultimately show ?thesis using lv [OF 3(1,2)] by simp
    qed
    show "level_sorted ?nm (inorder (?lv v))"
    proof (cases "v = u \<or> v = Some y")
      case True
      have "level_sorted (\<lambda>a. ?nm (if a = c then y else a)) (inorder (lv u))"
        by (rule level_sorted_cong [OF forestD(2) [OF f u]]) (use c y(1) sub [OF u] in \<open>auto simp: level_key_def\<close>)
      then have "level_sorted ?nm (inorder t)" unfolding t(2) by (simp add: level_sorted_def sorted_wrt_map)
      then show ?thesis using True cN by (auto simp: level_sorted_def)
    next
      case False
      then have v': "v \<in> levels N" "v \<noteq> u" using v by auto
      have "level_sorted ?nm (inorder (lv v))"
        by (rule level_sorted_cong [OF forestD(2) [OF f v'(1)]]) (use dis [OF v'] sub [OF v'(1)] y(1) in auto)
      then show ?thesis using lv [OF v'] by simp
    qed
    fix a assume a: "a \<in> set (inorder (?lv v))"
    have "?fn a = ?nm a @ full ?fn v \<and> labels_ok (?fn a) \<and> ends_root (?fn a)"
    proof (cases "v = Some y")
      case True
      then show ?thesis using a fc cN by simp
    next
      case False
      then have v': "v \<in> levels N" using v by auto
      show ?thesis
      proof (cases "a = y")
        case True
        have "v = u" using a True v' lv sub [OF v'] y(1) by (auto split: if_splits)
        then show ?thesis
          using True fu [OF v'] labels_ok_drop [OF fc(2), of "length pre"] fc c(4) by (simp add: ends_root_append)
      next
        case ne: False
        have "a \<in> set (inorder (lv v))" "a \<noteq> c" using a False ne st v' dis [OF v'] by (auto split: if_splits)
        then show ?thesis using forestD(4) [OF f v', of a] fu [OF v'] ne by auto
      qed
    qed
    then show "?fn a = ?nm a @ full ?fn v" "labels_ok (?fn a)" "ends_root (?fn a)" by blast+
  next
    fix a assume a: "a \<in> insert y N"
    consider "a = y" | "a = c" | "a \<in> N" "a \<noteq> c" "a \<noteq> y" using a by auto
    then show "\<exists>n. s' a = Some n \<and> node_named n (?nm a)"
    proof cases
      case 3
      obtain n where n: "s a = Some n" "node_named n (nm a)" using forest_node [OF f 3(1)] .
      then show ?thesis using o [OF 3(1,2) n(1)] same_named 3 by auto
    qed (use y cn cN in auto)
  qed
qed

section \<open>Names are unique\<close>

text \<open>The nodes above a node.\<close>

inductive above :: "(nat option \<Rightarrow> rbt) \<Rightarrow> nat \<Rightarrow> nat \<Rightarrow> bool" for lv where
  above_refl: "above lv a a"
| above_step: "above lv a b \<Longrightarrow> c \<in> set (inorder (lv (Some b))) \<Longrightarrow> above lv a c"

lemma nm_nonempty: "forest s root lv nm fn N \<Longrightarrow> a \<in> N \<Longrightarrow> nm a \<noteq> []"
  by (metis forest_node node_named_def)

lemma above_fn:
  assumes f: "forest s root lv nm fn N" and "above lv a b" and "a \<in> N"
  shows "b \<in> N \<and> (\<exists>p. fn b = p @ fn a \<and> (a \<noteq> b \<longrightarrow> p \<noteq> []))"
  using assms(2,3)
proof (induction rule: above.induct)
  case (above_step a b c)
  then obtain p where p: "b \<in> N" "fn b = p @ fn a" by auto
  have c: "c \<in> N" "fn c = nm c @ fn b" using forestD(3,4) [OF f, of "Some b"] above_step.hyps p(1) by auto
  then show ?case using p nm_nonempty [OF f c(1)] by auto
qed simp

lemma above_child: "above lv p b \<Longrightarrow> p \<noteq> b \<Longrightarrow> \<exists>q \<in> set (inorder (lv (Some p))). above lv q b"
  by (induction rule: above.induct) (metis above.intros)+

lemma above_top:
  assumes f: "forest s root lv nm fn N" and "b \<in> N"
  shows "\<exists>t \<in> set (inorder (lv None)). above lv t b"
  using assms(2)
proof (induction "length (fn b)" arbitrary: b rule: less_induct)
  case less
  obtain u where u: "u \<in> levels N" "b \<in> set (inorder (lv u))" using forest_level [OF f less.prems] .
  show ?case
  proof (cases u)
    case None
    then show ?thesis using u above_refl by auto
  next
    case (Some p)
    then have p: "p \<in> N" "fn b = nm b @ fn p" using u forestD(4) [OF f u] by auto
    then have "length (fn p) < length (fn b)" using nm_nonempty [OF f less.prems] by simp
    from less.hyps [OF this p(1)] show ?thesis using u Some above_step by blast
  qed
qed

lemma key_unique:
  assumes "level_sorted nm xs" and "a \<in> set xs" and "b \<in> set xs" and "level_key (nm a) = level_key (nm b)"
  shows "a = b"
proof -
  obtain i j where "a = xs ! i" "i < length xs" "b = xs ! j" "j < length xs" using assms(2,3) by (metis in_set_conv_nth)
  then show ?thesis using assms(1,4) unfolding level_sorted_def
    by (metis less_irrefl linorder_neqE_nat sorted_wrt_nth_less)
qed

lemma last_lower: "ls \<noteq> [] \<Longrightarrow> last (lower ls) = level_key ls"
  by (simp add: lower_def level_key_def last_map)

lemma suffix_above:
  assumes f: "forest s root lv nm fn N" and "a \<in> N" and "b \<in> N" and "lower (fn b) = X @ lower (fn a)"
  shows "above lv a b"
  using assms(2-)
proof (induction "length (fn a)" arbitrary: a X rule: less_induct)
  case less
  obtain u where u: "u \<in> levels N" "a \<in> set (inorder (lv u))" using forest_level [OF f less.prems(1)] .
  have fa: "fn a = nm a @ full fn u" "nm a \<noteq> []" using forestD(4) [OF f u] nm_nonempty [OF f less.prems(1)] by auto
  have same: "above lv a b" if q: "q \<in> set (inorder (lv u))" "above lv q b" for q
  proof -
    have qN: "q \<in> N" using q(1) forestD(3) [OF f u(1)] by auto
    obtain P where P: "fn b = P @ fn q" using above_fn [OF f q(2) qN] by auto
    have "fn q = nm q @ full fn u" "nm q \<noteq> []" using forestD(4) [OF f u(1) q(1)] nm_nonempty [OF f qN] by auto
    then have "lower P @ lower (nm q) = X @ lower (nm a)" using P less.prems(3) fa by simp
    then have "last (lower (nm q)) = last (lower (nm a))" using \<open>nm q \<noteq> []\<close> fa(2) by (metis last_appendR lower_simps(5))
    then have "level_key (nm q) = level_key (nm a)" using \<open>nm q \<noteq> []\<close> fa(2) by (simp add: last_lower)
    then have "q = a" using key_unique [OF forestD(2) [OF f u(1)]] q(1) u(2) by blast
    then show ?thesis using q(2) by simp
  qed
  show ?case
  proof (cases u)
    case None
    then show ?thesis using above_top [OF f less.prems(2)] same by auto
  next
    case (Some p)
    then have p: "p \<in> N" "fn a = nm a @ fn p" using u fa by auto
    have "above lv p b" by (rule less.hyps [of p "X @ lower (nm a)"]) (use p fa less.prems in auto)
    moreover have "p \<noteq> b"
    proof
      assume "p = b"
      then have "length (lower (fn b)) = length X + length (nm a) + length (fn b)" using less.prems(3) p(2) by (simp add: lower_def)
      then show False using fa(2) by (simp add: lower_def)
    qed
    ultimately show ?thesis using above_child same Some by blast
  qed
qed

lemma fn_unique:
  assumes f: "forest s root lv nm fn N" and "a \<in> N" and "b \<in> N" and "lower (fn a) = lower (fn b)"
  shows "a = b"
proof (rule ccontr)
  assume "a \<noteq> b"
  then obtain p where "fn b = p @ fn a" "p \<noteq> []" using above_fn [OF f suffix_above [OF f assms(2,3), of "[]"] assms(2)] assms(4) by auto
  then show False using arg_cong [OF assms(4), of length] by (simp add: lower_def)
qed

end
