(* ===== verification/Dns_Rbt_Split.thy ===== *)
theory Dns_Rbt_Split
  imports Dns_Rbt_Forest
begin

text \<open>
  The two changes of \<open>dns_rbt_addnode\<close> to a tree of trees: a new node is put into a level, or a node is divided and its
  labels that are left go to a level of their own. The hash function is an interface (\<open>name_hashing\<close>).
\<close>

section \<open>The tree and its table\<close>

text \<open>What the table needs of the hash function: it returns a value for every name, and the values of names that are equal up
  to letter case are the same.\<close>

locale name_hashing =
  fixes fullhash :: "dns_name \<Rightarrow> bool \<Rightarrow> u32 option" and hv :: "bytes list \<Rightarrow> u32"
  assumes fullhash_repr: "name_repr name ls \<Longrightarrow> ls \<noteq> [] \<Longrightarrow> fullhash name False = Some (hv (lower ls))"

text \<open>What the tree needs of the allocator: a block it returns is not one of the nodes that exist.\<close>

definition fresh_blocks :: "allocator \<Rightarrow> bool" where
  "fresh_blocks mem \<longleftrightarrow> (\<forall>s n a. mem s n = Some a \<longrightarrow> s a = None)"

definition tree_of ::
    "(bytes list \<Rightarrow> u32) \<Rightarrow> dns_rbt \<Rightarrow> node_store \<Rightarrow> (nat option \<Rightarrow> rbt) \<Rightarrow> (nat \<Rightarrow> bytes list) \<Rightarrow> (nat \<Rightarrow> bytes list) \<Rightarrow> nat set \<Rightarrow> bool" where
  "tree_of hv rbt s lv nm fn N \<longleftrightarrow> forest s (rt_root rbt) lv nm fn N \<and> hash_holds rbt s N \<and> finite N \<and> rt_nodecount rbt = of_nat (card N) \<and>
     (\<forall>a \<in> N. \<forall>n. s a = Some n \<longrightarrow> hashval n = hv (lower (fn a)))"

definition same_user :: "tree_node \<Rightarrow> tree_node \<Rightarrow> bool" where
  "same_user n n' \<longleftrightarrow> data n' = data n \<and> nsec n' = nsec n \<and> find_callback n' = find_callback n \<and> deadlink n' = deadlink n \<and>
     dirty n' = dirty n \<and> wild n' = wild n \<and> locknum n' = locknum n \<and> references n' = references n"

definition nodes_kept :: "nat set \<Rightarrow> node_store \<Rightarrow> node_store \<Rightarrow> bool" where
  "nodes_kept N s s' \<longleftrightarrow> (\<forall>a \<in> N. \<forall>n. s a = Some n \<longrightarrow> (\<exists>n'. s' a = Some n' \<and> same_user n n'))"

lemma more_user: "rbtnode.more n' = rbtnode.more n \<Longrightarrow> same_user n n'"
  by (cases n; cases n'; simp add: same_user_def)

lemma nodes_kept_refl [simp]: "nodes_kept N s s"
  by (simp add: nodes_kept_def same_user_def)

lemma nodes_kept_trans: "nodes_kept N s s1 \<Longrightarrow> nodes_kept N s1 s2 \<Longrightarrow> nodes_kept N s s2"
  by (fastforce simp: nodes_kept_def same_user_def)

lemma nodes_kept_mono: "nodes_kept N s s' \<Longrightarrow> M \<subseteq> N \<Longrightarrow> nodes_kept M s s'"
  by (auto simp: nodes_kept_def)

lemma evolvesD:
  assumes "evolves t s s'" and "s a = Some n"
  obtains n' where "s' a = Some n'" and "rbtnode.more n' = rbtnode.more n" and "a \<notin> set (inorder t) \<Longrightarrow> n' = n"
proof -
  have "map_option rbtnode.more (s' a) = Some (rbtnode.more n)" using assms by (simp add: evolves_def)
  then obtain n' where "s' a = Some n'" "rbtnode.more n' = rbtnode.more n" by auto
  moreover from this have "a \<notin> set (inorder t) \<Longrightarrow> n' = n" using assms by (auto simp: evolves_def)
  ultimately show ?thesis by (rule that)
qed

lemma tree_node_fresh:
  assumes "forest s root lv nm fn N" and "s x = None"
  shows "x \<notin> N"
  using forest_node [OF assms(1)] assms(2) by (metis option.discI)

lemma root_get_cell:
  assumes "forest s (rt_root rbt) lv nm fn N" and "u \<in> levels N"
  shows "root_get rbt s u = Some (root_cell s (rt_root rbt) u)"
  using assms(2) by (cases u) (auto simp: root_get_def elim: forest_node [OF assms(1)])

lemma root_get_fresh: "s x = None \<Longrightarrow> u \<noteq> Some x \<Longrightarrow> root_get rbt (s(x \<mapsto> n)) u = root_get rbt s u"
  by (cases u) (auto simp: root_get_def)

lemma addonlevel_place:
  assumes "rb_level s u root t" and "s x = Some xn" "left xn = None" "right xn = None" "parent xn = None" "\<not> is_root xn" and "x \<notin> set (inorder t)"
    and "if t = Lf then u = Some cur
      else cur \<in> set (inorder t) \<and> (\<exists>cn. s cur = Some cn \<and> (if order < 0 then left cn = None else right cn = None))"
  obtains s' root' t' where "dns_rbt_addonlevel s (Some x) (Some cur) order root = Some (s', root')" and "rb_level s' u root' t'"
    and "evolves t' s s'" and "inorder t' = (if t = Lf then [x] else beside (order < 0) cur x (inorder t))"
proof (cases "t = Lf")
  case True
  then have "root = None" using assms(1) by (simp add: rb_level_def level_def)
  then show ?thesis using addonlevel_first [of s x xn cur order, OF assms(2-4)] assms(8) True that by force
next
  case False
  then have "\<exists>cn. cur \<in> set (inorder t) \<and> s cur = Some cn \<and> (if order < 0 then left cn = None else right cn = None)" using assms(8) by auto
  then obtain cn where "cur \<in> set (inorder t)" "s cur = Some cn" "if order < 0 then left cn = None else right cn = None" by blast
  from addonlevel_ok [OF assms(1) this assms(2-7)] obtain s' root' t' where
    "dns_rbt_addonlevel s (Some x) (Some cur) order root = Some (s', root')" "rb_level s' u root' t'" "evolves t' s s'"
    "inorder t' = beside (order < 0) cur x (inorder t)" by blast
  then show ?thesis using False by (intro that) simp_all
qed

lemma set_beside: "cur \<in> set xs \<Longrightarrow> set (beside b cur x xs) = insert x (set xs)"
proof (induction xs)
  case (Cons y ys)
  then show ?case by (cases "y = cur") (simp_all add: insert_commute)
qed simp

lemma forest_fresh:
  assumes "forest s root lv nm fn N" and "s x = None"
  shows "forest (s(x \<mapsto> n)) root lv nm fn N"
  by (rule forest_cong [OF assms(1)]) (use tree_node_fresh [OF assms] in auto)

lemma rb_level_upd:
  assumes "rb_level s up root t" and "\<And>a. a \<in> set (inorder t) \<Longrightarrow> a \<noteq> x \<Longrightarrow> s' a = s a" and "s x = Some n" and "s' x = Some n'" and "same_links n n'"
  shows "rb_level s' up root t"
proof (rule rb_level_links [OF assms(1)])
  fix a m assume "a \<in> set (inorder t)" "s a = Some m"
  then show "\<exists>n'. s' a = Some n' \<and> same_links m n'" using assms by (cases "a = x") auto
qed

lemma nodes_kept_fresh: "s x = None \<Longrightarrow> nodes_kept N s (s(x \<mapsto> n))"
  by (auto simp: nodes_kept_def same_user_def)

text \<open>The part of an insertion after the node is created.\<close>

lemma place_store:
  assumes f: "forest s (rt_root rbt) lv nm fn N" and u: "u \<in> levels N" and x: "s x = None" "new_tree_node xn al"
    and pl: "if lv u = Lf then u = Some cur
      else cur \<in> set (inorder (lv u)) \<and> (\<exists>cn. s cur = Some cn \<and> (if order < 0 then left cn = None else right cn = None))"
  obtains r s2 t rbt3 s3 xn' where "root_get rbt (s(x \<mapsto> xn)) u = Some (root_cell s (rt_root rbt) u)"
    and "dns_rbt_addonlevel (s(x \<mapsto> xn)) (Some x) (Some cur) order (root_cell s (rt_root rbt) u) = Some (s2, r)"
    and "root_set rbt s2 u r = Some (rbt3, s3)" and "rb_level s3 u (root_cell s3 (rt_root rbt3) u) t"
    and "inorder t = (if lv u = Lf then [x] else beside (order < 0) cur x (inorder (lv u)))"
    and "s3 x = Some xn'" and "same_name xn xn'" and "down xn' = None" and "data xn' = None" and "u \<noteq> None \<Longrightarrow> rt_root rbt3 = rt_root rbt"
    and "rt_nodecount rbt3 = rt_nodecount rbt" and "rt_hashsize rbt3 = rt_hashsize rbt" and "rt_hashtable rbt3 = rt_hashtable rbt"
    and "\<And>a n. a \<in> N \<Longrightarrow> s a = Some n \<Longrightarrow> \<exists>n'. s3 a = Some n' \<and> same_name n n' \<and> (a \<notin> set (inorder (lv u)) \<longrightarrow> same_links n n') \<and>
      (u \<noteq> Some a \<longrightarrow> down n' = down n) \<and> same_user n n' \<and> hashval n' = hashval n \<and> hashnext n' = hashnext n"
proof -
  let ?s = "s(x \<mapsto> xn)" and ?c = "root_cell s (rt_root rbt) u"
  have xN: "x \<notin> N" by (rule tree_node_fresh [OF f x(1)])
  have ux: "u \<noteq> Some x" using u xN by auto
  have sub: "set (inorder (lv u)) \<subseteq> N" by (rule forestD(3) [OF f u])
  note xd = x(2) [unfolded new_tree_node_def]
  have l1: "rb_level ?s u ?c (lv u)"
    by (rule rb_level_links [OF forestD(1) [OF f u]]) (use sub xN in auto)
  have pl1: "if lv u = Lf then u = Some cur
      else cur \<in> set (inorder (lv u)) \<and> (\<exists>cn. ?s cur = Some cn \<and> (if order < 0 then left cn = None else right cn = None))"
    using pl sub xN by (auto split: if_splits)
  obtain s2 r t where a: "dns_rbt_addonlevel ?s (Some x) (Some cur) order ?c = Some (s2, r)" "rb_level s2 u r t" "evolves t ?s s2"
    "inorder t = (if lv u = Lf then [x] else beside (order < 0) cur x (inorder (lv u)))"
    by (rule addonlevel_place [OF l1, of x xn cur order]) (use xd sub xN pl1 in auto)
  have st: "set (inorder t) = insert x (set (inorder (lv u)))" using a(4) pl by (auto simp: set_beside split: if_splits)
  obtain xn2 where x2: "s2 x = Some xn2" "rbtnode.more xn2 = rbtnode.more xn" using evolvesD [OF a(3), of x xn] by auto
  have old: "\<exists>n'. s2 b = Some n' \<and> rbtnode.more n' = rbtnode.more n \<and> (b \<notin> set (inorder (lv u)) \<longrightarrow> n' = n)" if "b \<in> N" "s b = Some n" for b n
  proof -
    have "?s b = Some n" "b \<noteq> x" using that xN by auto
    from evolvesD [OF a(3) this(1)] show ?thesis using st \<open>b \<noteq> x\<close> by (metis insertE)
  qed
  show ?thesis
  proof (cases u)
    case None
    have "root_set rbt s2 u r = Some (rbt\<lparr>rt_root := r\<rparr>, s2)" using None by (simp add: root_set_def)
    moreover have "\<exists>n'. s2 b = Some n' \<and> same_name n n' \<and> (b \<notin> set (inorder (lv u)) \<longrightarrow> same_links n n') \<and>
      (u \<noteq> Some b \<longrightarrow> down n' = down n) \<and> same_user n n' \<and> hashval n' = hashval n \<and> hashnext n' = hashnext n" if "b \<in> N" "s b = Some n" for b n
      using old [OF that] more_fields more_user by (metis same_links_refl)
    ultimately show ?thesis
      by (intro that [of s2 r "rbt\<lparr>rt_root := r\<rparr>" s2 t xn2])
        (use None a root_get_fresh [where s = s, OF x(1) ux] root_get_cell [OF f u] x2 more_fields [OF x2(2)] xd in auto)
  next
    case (Some p)
    obtain pn where p: "s p = Some pn" "p \<in> N" "p \<noteq> x" using Some u forest_node [OF f] xN by auto
    obtain pn2 where p2: "s2 p = Some pn2" "rbtnode.more pn2 = rbtnode.more pn" "p \<notin> set (inorder (lv u)) \<longrightarrow> pn2 = pn" using old [OF p(2,1)] by auto
    let ?s3 = "s2(p \<mapsto> pn2\<lparr>down := r\<rparr>)"
    have "root_set rbt s2 u r = Some (rbt, ?s3)" using Some p2(1) by (simp add: root_set_def)
    moreover have "rb_level ?s3 u (root_cell ?s3 (rt_root rbt) u) t"
      using rb_level_upd [OF a(2), of p ?s3 pn2 "pn2\<lparr>down := r\<rparr>"] p2(1) Some by (simp add: same_links_def)
    moreover have "\<exists>n'. ?s3 b = Some n' \<and> same_name n n' \<and> (b \<notin> set (inorder (lv u)) \<longrightarrow> same_links n n') \<and>
      (u \<noteq> Some b \<longrightarrow> down n' = down n) \<and> same_user n n' \<and> hashval n' = hashval n \<and> hashnext n' = hashnext n" if "b \<in> N" "s b = Some n" for b n
    proof (cases "b = p")
      case True
      then show ?thesis using p2 p(1) that Some more_fields [OF p2(2)] more_user [OF p2(2)]
        by (auto simp: same_name_def same_user_def same_links_def)
    next
      case False
      then show ?thesis using old [OF that] more_fields more_user by (metis fun_upd_other same_links_refl)
    qed
    ultimately show ?thesis
      by (intro that [of s2 r rbt ?s3 t xn2])
        (use a root_get_fresh [where s = s, OF x(1) ux] root_get_cell [OF f u] x2 more_fields [OF x2(2)] xd p(3) in auto)
  qed
qed

text \<open>What an operation on the table keeps of a node.\<close>

definition same_node :: "tree_node \<Rightarrow> tree_node \<Rightarrow> bool" where
  "same_node n n' \<longleftrightarrow> same_links n n' \<and> same_name n n' \<and> down n' = down n \<and> same_user n n'"

lemma same_node_hash: "same_node n (n\<lparr>hashnext := p\<rparr>)" "same_node n (n\<lparr>hashval := h, hashnext := p\<rparr>)"
  by (simp_all add: same_node_def same_links_def same_name_def same_user_def)

context name_hashing
begin

text \<open>The last step of all additions: the new node is counted and put into the table.\<close>

lemma hash_finish:
  assumes f: "forest s (rt_root rbt) lv nm fn (insert x N)" and h: "hash_holds rbt s N" and x: "x \<notin> N" "s x = Some xn" and "finite N"
    and cnt: "rt_nodecount rbt = of_nat (card N)" and hvs: "\<And>a n. a \<in> N \<Longrightarrow> s a = Some n \<Longrightarrow> hashval n = hv (lower (fn a))"
    and name: "name_repr name ls" "ls \<noteq> []" "lower ls = lower (fn x)"
  shows "\<exists>rbt' s'. hash_node fullhash mem (rbt\<lparr>rt_nodecount := rt_nodecount rbt + 1\<rparr>) s (Some x) name = Some (rbt', s') \<and>
    tree_of hv rbt' s' lv nm fn (insert x N) \<and> (\<forall>a n. s a = Some n \<longrightarrow> (\<exists>n'. s' a = Some n' \<and> same_node n n'))"
proof -
  let ?rbt = "rbt\<lparr>rt_nodecount := rt_nodecount rbt + 1\<rparr>"
  have h': "hash_holds ?rbt s N" by (rule holds_cong [OF h]) (simp_all add: same_hash_def)
  obtain rbt' s1 p where s1: "hash_node fullhash mem ?rbt s (Some x) name = Some (rbt', s1(x \<mapsto> xn\<lparr>hashval := hv (lower ls), hashnext := p\<rparr>))"
    "relinked N s s1" "hash_holds rbt' (s1(x \<mapsto> xn\<lparr>hashval := hv (lower ls), hashnext := p\<rparr>)) (insert x N)"
    "rt_root rbt' = rt_root ?rbt" "rt_nodecount rbt' = rt_nodecount ?rbt"
    using hash_node_ok [where fullhash = fullhash and name = name, OF h' x(1,2) fullhash_repr [OF name(1,2)], of mem] by blast
  let ?s = "s1(x \<mapsto> xn\<lparr>hashval := hv (lower ls), hashnext := p\<rparr>)"
  have st: "\<exists>n'. ?s a = Some n' \<and> same_node n n' \<and> (a \<noteq> x \<longrightarrow> hashval n' = hashval n)" if sa: "s a = Some n" for a n
  proof (cases "a = x")
    case True
    then show ?thesis using sa x(2) same_node_hash(2) by auto
  next
    case False
    obtain q where "s1 a = Some (n\<lparr>hashnext := q\<rparr>)" using relinkedD [OF s1(2) sa] .
    then show ?thesis using False same_node_hash(1) by auto
  qed
  have "forest ?s (rt_root rbt') lv nm fn (insert x N)"
  proof (rule forest_cong)
    show "forest s (rt_root rbt') lv nm fn (insert x N)" using f s1(4) by simp
    show "\<exists>n'. ?s a = Some n' \<and> same_links n n' \<and> same_name n n' \<and> down n' = down n" if "a \<in> insert x N" "s a = Some n" for a n
      using st [OF that(2)] by (auto simp: same_node_def)
  qed
  moreover have "rt_nodecount rbt' = of_nat (card (insert x N))" using s1(5) cnt x(1) \<open>finite N\<close> by simp
  moreover have "hashval n' = hv (lower (fn a))" if a: "a \<in> insert x N" "?s a = Some n'" for a n'
  proof (cases "a = x")
    case False
    then obtain n where "s a = Some n" using a(1) forest_node [OF f a(1)] by metis
    then show ?thesis using st [of a n] a False hvs by auto
  qed (use a name(3) in auto)
  ultimately have "tree_of hv rbt' ?s lv nm fn (insert x N)" using s1(3) \<open>finite N\<close> by (simp add: tree_of_def)
  then show ?thesis using s1(1) st by blast
qed

lemma place_ok:
  assumes t: "tree_of hv rbt s lv nm fn N" and u: "u \<in> levels N" and add: "name_repr add al" "n_offsets add \<noteq> None" "al \<noteq> []"
    and name: "name_repr name ls" "ends_root ls" "lower ls = lower (al @ full fn u)"
    and fresh: "fresh_blocks mem"
    and pl: "if lv u = Lf then u = Some cur
      else cur \<in> set (inorder (lv u)) \<and> (\<exists>cn. s cur = Some cn \<and> (if order < 0 then left cn = None else right cn = None))"
    and so: "\<And>x. lv u \<noteq> Lf \<Longrightarrow> x \<notin> N \<Longrightarrow> level_sorted (nm(x := al)) (beside (order < 0) cur x (inorder (lv u)))"
  shows "addnode_insert fullhash mem name (add, Some cur, order, u) rbt s = Some (ISC_R_NOMEMORY, rbt, s, None) \<and> (\<exists>n. mem s n = None) \<or>
    (\<exists>rbt' s' x lv' nm' xn. addnode_insert fullhash mem name (add, Some cur, order, u) rbt s = Some (ISC_R_SUCCESS, rbt', s', Some x) \<and>
      x \<notin> N \<and> tree_of hv rbt' s' lv' nm' (fn(x := al @ full fn u)) (insert x N) \<and> nodes_kept N s s' \<and> s' x = Some xn \<and> data xn = None)"
proof (cases "mem s (SIZEOF_RBTNODE + length (wire al) + length al + 1)")
  case None
  then show ?thesis using create_node_ok [OF add(1,3,2), of mem s] by (auto simp: addnode_insert_def)
next
  case (Some x)
  obtain xn where cr: "create_node mem s add = Some (ISC_R_SUCCESS, s(x \<mapsto> xn), Some x)" and xn: "new_tree_node xn al"
    using create_node_ok [OF add(1,3,2), of mem s] Some by auto
  have x: "s x = None" using fresh Some by (simp add: fresh_blocks_def)
  have f: "forest s (rt_root rbt) lv nm fn N" and h: "hash_holds rbt s N" and fin: "finite N" and cnt: "rt_nodecount rbt = of_nat (card N)"
    and hvs: "\<And>a n. a \<in> N \<Longrightarrow> s a = Some n \<Longrightarrow> hashval n = hv (lower (fn a))" using t by (auto simp: tree_of_def)
  have xN: "x \<notin> N" by (rule tree_node_fresh [OF f x])
  have ok: "labels_ok (al @ full fn u)" "ends_root (al @ full fn u)"
    using name_reprD(2) [OF name(1)] name(2) labels_ok_lower ends_root_lower name(3) by metis+
  obtain r s2 tr rbt3 s3 xn' where p: "root_get rbt (s(x \<mapsto> xn)) u = Some (root_cell s (rt_root rbt) u)"
    "dns_rbt_addonlevel (s(x \<mapsto> xn)) (Some x) (Some cur) order (root_cell s (rt_root rbt) u) = Some (s2, r)"
    "root_set rbt s2 u r = Some (rbt3, s3)" "rb_level s3 u (root_cell s3 (rt_root rbt3) u) tr"
    "inorder tr = (if lv u = Lf then [x] else beside (order < 0) cur x (inorder (lv u)))"
    "s3 x = Some xn'" "same_name xn xn'" "down xn' = None" "data xn' = None" "u \<noteq> None \<Longrightarrow> rt_root rbt3 = rt_root rbt"
    "rt_nodecount rbt3 = rt_nodecount rbt" "rt_hashsize rbt3 = rt_hashsize rbt" "rt_hashtable rbt3 = rt_hashtable rbt"
    and old: "\<And>a n. a \<in> N \<Longrightarrow> s a = Some n \<Longrightarrow> \<exists>n'. s3 a = Some n' \<and> same_name n n' \<and> (a \<notin> set (inorder (lv u)) \<longrightarrow> same_links n n') \<and>
      (u \<noteq> Some a \<longrightarrow> down n' = down n) \<and> same_user n n' \<and> hashval n' = hashval n \<and> hashnext n' = hashnext n"
    by (rule place_store [OF f u x xn pl]) blast
  let ?fn = "fn(x := al @ full fn u)" and ?nm = "nm(x := al)" and ?lv = "lv(u := tr, Some x := Lf)"
  have f3: "forest s3 (rt_root rbt3) ?lv ?nm ?fn (insert x N)"
  proof (rule forest_add [OF f u xN p(6) _ p(8,4)])
    show "node_named xn' al" using same_named [OF p(7)] xn by (simp add: new_tree_node_def)
    show "set (inorder tr) = insert x (set (inorder (lv u)))" using p(5) pl by (auto simp: set_beside split: if_splits)
    show "level_sorted ?nm (inorder tr)" using p(5) so [OF _ xN] by (cases "lv u = Lf") (simp_all add: level_sorted_def)
  qed (use p(10) ok old in blast)+
  have h3: "hash_holds rbt3 s3 N" by (rule holds_cong [OF h _ p(12,13)]) (use old in \<open>unfold same_hash_def, blast\<close>)
  have v3: "hashval n' = hv (lower (?fn a))" if "a \<in> N" "s3 a = Some n'" for a n'
    using forest_node [OF f that(1)] old [OF that(1)] hvs [OF that(1)] that xN by (metis fun_upd_other option.inject)
  have c3: "rt_nodecount rbt3 = of_nat (card N)" and ne: "ls \<noteq> []" and ln: "lower ls = lower (?fn x)"
    using p(11) cnt name(2,3) by (auto simp: ends_root_def)
  obtain rbt' s' where fi: "hash_node fullhash mem (rbt3\<lparr>rt_nodecount := rt_nodecount rbt3 + 1\<rparr>) s3 (Some x) name = Some (rbt', s')"
    "tree_of hv rbt' s' ?lv ?nm ?fn (insert x N)" "\<forall>a n. s3 a = Some n \<longrightarrow> (\<exists>n'. s' a = Some n' \<and> same_node n n')"
    using hash_finish [OF f3 h3 xN p(6) fin c3 v3 name(1) ne ln, of mem] by blast
  have "addnode_insert fullhash mem name (add, Some cur, order, u) rbt s = Some (ISC_R_SUCCESS, rbt', s', Some x)"
    using cr p(1-3) fi(1) by (simp add: addnode_insert_def)
  moreover have "nodes_kept N s s'"
    unfolding nodes_kept_def
  proof (intro ballI allI impI)
    fix a n assume a: "a \<in> N" "s a = Some n"
    obtain n3 where "s3 a = Some n3" "same_user n n3" using old [OF a] by auto
    then show "\<exists>n'. s' a = Some n' \<and> same_user n n'" using fi(3) by (fastforce simp: same_node_def same_user_def)
  qed
  moreover obtain xn4 where "s' x = Some xn4" "data xn4 = None"
    using fi(3) p(6,9) by (metis same_node_def same_user_def)
  ultimately show ?thesis using xN fi(2) by blast
qed

end

section \<open>Dividing a node\<close>

text \<open>The changes of the store that put the node \<open>y\<close> in the place of another: the link of its parent in the level, the parent
  of a child, and the root root_cell.\<close>

definition hook_parent :: "rbt_frame list \<Rightarrow> nat \<Rightarrow> node_store \<Rightarrow> node_store" where
  "hook_parent k y s z = (if k \<noteq> [] \<and> z = fst (snd (hd k)) then map_option (set_near (fst (hd k)) (Some y)) (s z) else s z)"

definition adopt :: "nat option \<Rightarrow> nat \<Rightarrow> node_store \<Rightarrow> node_store" where
  "adopt q y s z = (if q = Some z then map_option (\<lambda>n. n\<lparr>parent := Some y\<rparr>) (s z) else s z)"

definition lower_root :: "nat option \<Rightarrow> nat \<Rightarrow> node_store \<Rightarrow> node_store" where
  "lower_root u y s z = (if u = Some z then map_option (\<lambda>n. n\<lparr>down := Some y\<rparr>) (s z) else s z)"

definition top_node :: "tree_node \<Rightarrow> tree_node \<Rightarrow> tree_node" where
  "top_node c n = n\<lparr>is_root := is_root c, nsec := if nsec c = DNS_RBT_NSEC_HAS_NSEC then DNS_RBT_NSEC_NORMAL else nsec c,
     parent := parent c, left := left c, right := right c, color := color c\<rparr>"

definition low_node :: "nat \<Rightarrow> dns_name \<Rightarrow> tree_node \<Rightarrow> tree_node" where
  "low_node y pfx n = n\<lparr>namelen := of_nat (n_length pfx), offsetlen := of_nat (n_labels pfx), is_root := True, parent := Some y,
     left := None, right := None, color := BLACK, attributes := attributes n AND NOT (ucast DNS_NAMEATTR_ABSOLUTE)\<rparr>"

definition split_store ::
    "rbt_frame list \<Rightarrow> nat option \<Rightarrow> nat \<Rightarrow> tree_node \<Rightarrow> nat \<Rightarrow> tree_node \<Rightarrow> dns_name \<Rightarrow> node_store \<Rightarrow> node_store" where
  "split_store k u c cn y yn pfx s =
     (let s1 = adopt (right cn) y (adopt (left cn) y (hook_parent k y (s(y \<mapsto> top_node cn yn))));
          s2 = (if k = [] then lower_root u y s1 else s1) in
      s2(c \<mapsto> low_node y pfx cn, y \<mapsto> (top_node cn yn)\<lparr>down := Some c\<rparr>))"

lemma adopt_set: "q = None \<or> s (the q) \<noteq> None \<Longrightarrow>
    (if q \<noteq> None then node_set s q (\<lambda>n. n\<lparr>parent := Some y\<rparr>) else Some s) = Some (adopt q y s)"
  by (cases q) (auto simp: adopt_def fun_eq_iff)

lemma adopt_apply [simp]: "q \<noteq> Some z \<Longrightarrow> adopt q y s z = s z" "(adopt q y s z = None) = (s z = None)"
  by (simp_all add: adopt_def)

lemma hook_apply [simp]: "k = [] \<or> z \<noteq> fst (snd (hd k)) \<Longrightarrow> hook_parent k y s z = s z" "(hook_parent k y s z = None) = (s z = None)"
  by (auto simp: hook_parent_def)

lemma set_near_fields:
  "down (set_near d q n) = down n" "same_name n (set_near d q n)" "same_user n (set_near d q n)"
  "hashval (set_near d q n) = hashval n" "hashnext (set_near d q n) = hashnext n" for n :: tree_node
  by (cases d; simp add: set_near_def same_name_def same_user_def)+

definition same_rest :: "tree_node \<Rightarrow> tree_node \<Rightarrow> bool" where
  "same_rest n n' \<longleftrightarrow> same_name n n' \<and> same_user n n' \<and> hashval n' = hashval n \<and> hashnext n' = hashnext n"

lemma same_rest_refl [simp]: "same_rest n n" "same_user n n"
  by (simp_all add: same_rest_def same_user_def)

lemma same_rest_trans: "same_rest n n1 \<Longrightarrow> same_rest n1 n2 \<Longrightarrow> same_rest n n2"
  by (simp add: same_rest_def same_name_def same_user_def)

lemma adopt_rest: "s a = Some n \<Longrightarrow> \<exists>n'. adopt q y s a = Some n' \<and> same_rest n n' \<and> down n' = down n"
  by (cases "q = Some a") (simp_all add: adopt_def same_rest_def same_name_def same_user_def)

lemma hook_rest: "s a = Some n \<Longrightarrow> \<exists>n'. hook_parent k y s a = Some n' \<and> same_rest n n' \<and> down n' = down n"
  by (cases "k \<noteq> [] \<and> a = fst (snd (hd k))")
    (auto simp: hook_parent_def same_rest_def set_near_fields)

lemma lower_root_rest: "s a = Some n \<Longrightarrow> \<exists>n'. lower_root u y s a = Some n' \<and> same_rest n n' \<and> (u \<noteq> Some a \<longrightarrow> down n' = down n)"
  by (cases "u = Some a") (simp_all add: lower_root_def same_rest_def same_name_def same_user_def)

lemma down_kept: "map_option down (adopt q y s z) = map_option down (s z)" "map_option down (hook_parent k y s z) = map_option down (s z)"
  by (auto simp: adopt_def hook_parent_def option.map_comp comp_def set_near_fields)

lemma hook_set:
  assumes "level s up root (plug ((d, p, cp, w) # k') t)" and "ptr t = Some c" and "s p = Some pn"
  shows "(if left pn = Some c then node_set s (Some p) (\<lambda>n. n\<lparr>left := Some y\<rparr>) else node_set s (Some p) (\<lambda>n. n\<lparr>right := Some y\<rparr>)) =
    Some (hook_parent ((d, p, cp, w) # k') y s)"
  using level_side(2) [OF assms] assms(3) by (cases d) (auto simp: hook_parent_def set_near_simps fun_eq_iff split: if_splits)

lemma tree_child: "tree_at s f par (ptr t) t \<Longrightarrow> ptr t = Some a \<Longrightarrow> a \<in> set (inorder t) \<and> s a \<noteq> None"
  by (cases t) (auto split: option.splits)

lemma split_compute:
  assumes lev: "level s u (root_cell s (rt_root rbt) u) (plug k (join L l c col r))" and cn: "s c = Some cn" and y: "s y = None"
    and u: "\<And>a. u = Some a \<Longrightarrow> s a \<noteq> None \<and> a \<noteq> c \<and> a \<notin> set (inorder (plug k (join L l c col r)))"
    and sp: "dns_name_split (NODENAME cn (dns_name_init (Some []))) common (Some fixedname) (Some fixedname) = Some (Some pfx, Some sfx)"
    and cr: "create_node mem s sfx = Some (ISC_R_SUCCESS, s(y \<mapsto> yn), Some y)"
    and par: "par = (if k = [] then None else Some (fst (snd (hd k))))"
  shows "split_node fullhash mem name nlabels hlabels common (Some c) par u rbt s = do {
     new_name \<leftarrow> dns_name_getlabelsequence name (nlabels - hlabels) hlabels fixedname False;
     let rbt = (if k = [] \<and> u = None then rbt\<lparr>rt_root := Some y\<rparr> else rbt) in do {
     (rbt, s) \<leftarrow> hash_node fullhash mem (rbt\<lparr>rt_nodecount := rt_nodecount rbt + 1\<rparr>) (split_store k u c cn y yn pfx s) (Some y) new_name;
     Some (ISC_R_SUCCESS, rbt, s, Some y) } }"
proof -
  obtain par0 p0 f0 where z: "ctx_at s u (root_cell s (rt_root rbt) u) k par0 p0 f0" "tree_at s f0 par0 p0 (join L l c col r)"
    "distinct (inorder (join L l c col r))" "ctx_set k \<inter> set (inorder (join L l c col r)) = {}" using level_parts [OF lev] .
  obtain n where "s c = Some n" "left n = ptr l" "right n = ptr r" "root_cell s (rt_root rbt) u = Some c \<longleftrightarrow> k = []"
    using level_node [OF lev] by (metis near_simps(1,3))
  then have c: "left cn = ptr l" "right cn = ptr r" "root_cell s (rt_root rbt) u = Some c \<longleftrightarrow> k = []" using cn by simp_all
  have tr: "tree_at s False (Some c) (ptr l) l" "tree_at s False (Some c) (ptr r) r" using tree_at_node [OF z(2)] by metis+
  have yc: "y \<noteq> c" using y cn by auto
  have cl: "s a \<noteq> None" "a \<noteq> y" "a \<noteq> c" if "ptr l = Some a \<or> ptr r = Some a" for a
    using that tree_child [OF tr(1)] tree_child [OF tr(2)] y z(3) by auto
  let ?p = "fst (snd (hd k))"
  have pk: "\<exists>pn. s ?p = Some pn \<and> ?p \<noteq> y \<and> ?p \<noteq> c \<and> ?p \<in> ctx_set k" if ne: "k \<noteq> []"
  proof -
    obtain d a cc w k' where k: "k = (d, a, cc, w) # k'" using ne by (cases k) auto
    then obtain pn where "s a = Some pn" using z(1) by (auto split: option.splits)
    moreover have "a \<noteq> c" using z(4) k by auto
    ultimately show ?thesis using k y by auto
  qed
  let ?s0 = "s(y \<mapsto> top_node cn yn)"
  let ?s1 = "hook_parent k y ?s0" let ?s2 = "adopt (ptr l) y ?s1" let ?s3 = "adopt (ptr r) y ?s2"
  have s1: "(if par \<noteq> None then do {
               p \<leftarrow> node_get ?s0 par;
               if left p = Some c then node_set ?s0 par (\<lambda>p. p\<lparr>left := Some y\<rparr>)
               else node_set ?s0 par (\<lambda>p. p\<lparr>right := Some y\<rparr>) }
             else Some ?s0) = Some ?s1"
  proof (cases k)
    case Nil
    then show ?thesis using par by (simp add: hook_parent_def fun_eq_iff)
  next
    case (Cons x k')
    obtain d a cc w where x: "x = (d, a, cc, w)" by (cases x)
    obtain pn where pn: "s a = Some pn" "a \<noteq> y" using pk Cons x by auto
    have "left pn = Some c \<longleftrightarrow> d = L"
      using level_side(2) [of s u "root_cell s (rt_root rbt) u" d a cc w k' "join L l c col r" c pn] lev Cons x pn(1) by (cases d) (auto split: if_splits)
    then show ?thesis using par Cons x pn by (cases d) (auto simp: hook_parent_def set_near_simps fun_eq_iff)
  qed
  have y1: "?s1 y = Some (top_node cn yn)" using pk by (cases "k = []") auto
  have tn: "left (top_node cn yn) = ptr l" "right (top_node cn yn) = ptr r" using c by (simp_all add: top_node_def)
  have s2: "(if ptr l \<noteq> None then node_set ?s1 (ptr l) (\<lambda>n. n\<lparr>parent := Some y\<rparr>) else Some ?s1) = Some ?s2"
    by (rule adopt_set) (use cl in \<open>cases "ptr l"; auto\<close>)
  have s3: "(if ptr r \<noteq> None then node_set ?s2 (ptr r) (\<lambda>n. n\<lparr>parent := Some y\<rparr>) else Some ?s2) = Some ?s3"
    by (rule adopt_set) (use cl in \<open>cases "ptr r"; auto\<close>)
  have u0: "map_option down (?s3 a) = map_option down (s a)" if "u = Some a" for a
    using u [OF that] y by (auto simp: down_kept)
  have rg: "root_get rbt ?s3 u = Some (root_cell s (rt_root rbt) u)"
    using u u0 by (cases u) (auto simp: root_get_def root_cell_def)
  let ?rbt = "if k = [] \<and> u = None then rbt\<lparr>rt_root := Some y\<rparr> else rbt"
  let ?s4 = "if k = [] then lower_root u y ?s3 else ?s3"
  have rs: "(if root_cell s (rt_root rbt) u = Some c then root_set rbt ?s3 u (Some y) else Some (rbt, ?s3)) = Some (?rbt, ?s4)"
  proof (cases "k = []")
    case True
    then show ?thesis
    proof (cases u)
      case (Some a)
      then have "?s3 a \<noteq> None" using u [OF Some] y by (cases "a = y") auto
      then obtain m where "?s3 a = Some m" by blast
      then have "root_set rbt ?s3 u (Some y) = Some (rbt, lower_root u y ?s3)"
        using Some by (simp add: root_set_def lower_root_def fun_eq_iff)
      then show ?thesis using True Some c(3) by simp
    qed (use c(3) in \<open>simp add: root_set_def lower_root_def fun_eq_iff\<close>)
  qed (use c(3) in simp)
  have c4: "?s4 c = Some cn" "?s4 y = Some (top_node cn yn)"
  proof -
    have "ptr l \<noteq> Some c" "ptr r \<noteq> Some c" "ptr l \<noteq> Some y" "ptr r \<noteq> Some y" using cl(2,3) by blast+
    moreover have "k = [] \<or> c \<noteq> ?p" "k = [] \<or> y \<noteq> ?p" using pk by metis+
    ultimately have "?s3 c = Some cn" "?s3 y = Some (top_node cn yn)" using yc cn by simp_all
    moreover have "u \<noteq> Some c" "u \<noteq> Some y" using u y by blast+
    ultimately show "?s4 c = Some cn" "?s4 y = Some (top_node cn yn)" by (cases "k = []"; simp add: lower_root_def)+
  qed
  let ?rest = "\<lambda>rbt s. do {
       s \<leftarrow> node_set s (Some c) (\<lambda>n. n\<lparr>namelen := of_nat (n_length pfx), offsetlen := of_nat (n_labels pfx)\<rparr>);
       s \<leftarrow> node_set s (Some c) (\<lambda>n. n\<lparr>is_root := True, parent := Some y\<rparr>);
       s \<leftarrow> node_set s (Some y) (\<lambda>n. n\<lparr>down := Some c\<rparr>);
       s \<leftarrow> node_set s (Some c) (\<lambda>n. n\<lparr>left := None, right := None, color := BLACK,
              attributes := attributes n AND NOT (ucast DNS_NAMEATTR_ABSOLUTE)\<rparr>);
       let rbt = rbt\<lparr>rt_nodecount := rt_nodecount rbt + 1\<rparr> in do {
       new_name \<leftarrow> dns_name_getlabelsequence name (nlabels - hlabels) hlabels fixedname False;
       (rbt, s) \<leftarrow> hash_node fullhash mem rbt s (Some y) new_name;
       Some (ISC_R_SUCCESS, rbt, s, Some y) } }"
  have a: "node_get (s(y \<mapsto> yn)) (Some c) = Some cn" using yc cn by simp
  have b: "node_set (s(y \<mapsto> yn)) (Some y) (\<lambda>n. n\<lparr>is_root := is_root cn\<rparr>) = Some (s(y \<mapsto> yn\<lparr>is_root := is_root cn\<rparr>))"
    "node_set (s(y \<mapsto> yn\<lparr>is_root := is_root cn\<rparr>)) (Some y)
        (\<lambda>n. n\<lparr>nsec := if nsec cn = DNS_RBT_NSEC_HAS_NSEC then DNS_RBT_NSEC_NORMAL else nsec cn\<rparr>) =
      Some (s(y \<mapsto> yn\<lparr>is_root := is_root cn, nsec := if nsec cn = DNS_RBT_NSEC_HAS_NSEC then DNS_RBT_NSEC_NORMAL else nsec cn\<rparr>))"
    "node_set (s(y \<mapsto> yn\<lparr>is_root := is_root cn, nsec := if nsec cn = DNS_RBT_NSEC_HAS_NSEC then DNS_RBT_NSEC_NORMAL else nsec cn\<rparr>)) (Some y)
        (\<lambda>n. n\<lparr>parent := parent cn, left := left cn, right := right cn, color := color cn\<rparr>) = Some ?s0"
    by (simp_all add: top_node_def)
  have d: "node_get s (Some c) = Some cn" "node_get ?s1 (Some y) = Some (top_node cn yn)" using cn y1 by simp_all
  have "split_node fullhash mem name nlabels hlabels common (Some c) par u rbt s = ?rest ?rbt ?s4"
    unfolding split_node_def
    by (simp only: d sp cr a b s1 tn s2 s3 rg rs bind.bind_lunit option.simps prod.case simp_thms if_False)
  also have "\<dots> = do {
     new_name \<leftarrow> dns_name_getlabelsequence name (nlabels - hlabels) hlabels fixedname False;
     (rbt, s) \<leftarrow> hash_node fullhash mem (?rbt\<lparr>rt_nodecount := rt_nodecount ?rbt + 1\<rparr>) (split_store k u c cn y yn pfx s) (Some y) new_name;
     Some (ISC_R_SUCCESS, rbt, s, Some y) }"
  proof -
    have "split_store k u c cn y yn pfx s = ?s4(c \<mapsto> low_node y pfx cn, y \<mapsto> (top_node cn yn)\<lparr>down := Some c\<rparr>)"
      by (simp add: split_store_def c Let_def)
    moreover have "\<dots> = ?s4(y \<mapsto> (top_node cn yn)\<lparr>down := Some c\<rparr>, c \<mapsto> low_node y pfx cn)" using yc [symmetric] by (rule fun_upd_twist)
    ultimately show ?thesis using c4 yc by (simp add: low_node_def Let_def)
  qed
  finally show ?thesis by (simp only: Let_def)
qed

lemma split_store_other:
  assumes "a \<notin> ctx_set k" and "left cn \<noteq> Some a" and "right cn \<noteq> Some a" and "a \<noteq> c" and "a \<noteq> y"
  shows "split_store k u c cn y yn pfx s a = (if k = [] \<and> u = Some a then map_option (\<lambda>n. n\<lparr>down := Some y\<rparr>) (s a) else s a)"
proof -
  have "fst (snd (hd k)) \<in> ctx_set k" if "k \<noteq> []" using that by (cases k) auto
  then have "hook_parent k y f a = f a" for f using assms(1) by (intro hook_apply(1)) auto
  then have "adopt (right cn) y (adopt (left cn) y (hook_parent k y (s(y \<mapsto> v)))) a = s a" for v using assms by simp
  then show ?thesis using assms(4,5) by (cases "k = []") (simp_all add: split_store_def Let_def lower_root_def)
qed

lemma split_store_nodes:
  assumes lev: "level s u root (plug k (join L l c col r))" and cn: "s c = Some cn" and y: "s y = None"
    and u: "\<forall>a. u = Some a \<longrightarrow> s a \<noteq> None \<and> a \<notin> set (inorder (plug k (join L l c col r)))"
  shows "split_store k u c cn y yn pfx s c = Some (low_node y pfx cn)" (is ?C)
    and "split_store k u c cn y yn pfx s y = Some ((top_node cn yn)\<lparr>down := Some c\<rparr>)" (is ?Y)
    and "level (split_store k u c cn y yn pfx s) u (if k = [] then Some y else root) (plug k (join L l y col r))"
    and "\<And>a n. a \<noteq> c \<Longrightarrow> s a = Some n \<Longrightarrow> \<exists>n'. split_store k u c cn y yn pfx s a = Some n' \<and> same_name n n' \<and>
      (a \<notin> set (inorder (plug k (join L l c col r))) \<longrightarrow> same_links n n') \<and> (u \<noteq> Some a \<longrightarrow> down n' = down n) \<and> same_user n n' \<and>
      hashval n' = hashval n \<and> hashnext n' = hashnext n"
proof -
  let ?s = "split_store k u c cn y yn pfx s"
  obtain par0 p0 f0 where z: "ctx_at s u root k par0 p0 f0" "tree_at s f0 par0 p0 (join L l c col r)" "distinct (inorder (plug k Lf))"
    "distinct (inorder (join L l c col r))" "ctx_set k \<inter> set (inorder (join L l c col r)) = {}" using level_parts [OF lev] .
  obtain n where n: "p0 = Some c" "s c = Some n" "parent n = par0" "is_root n = f0" "color n = col" "left n = ptr l" "right n = ptr r"
    "tree_at s False (Some c) (ptr l) l" "tree_at s False (Some c) (ptr r) r" using tree_at_node [OF z(2)] by (metis near_simps(1,3))
  have "n = cn" using n(2) cn by simp
  note n = n [unfolded this]
  have yc: "y \<noteq> c" using y cn by auto
  show ?C ?Y using yc by (simp_all add: split_store_def Let_def)
  have dom: "a \<noteq> y" if a: "a \<in> set (inorder (plug k (join L l c col r)))" for a
  proof -
    obtain k' l' c' r' where "plug k (join L l c col r) = plug k' (join L l' a c' r')" using focus [OF a] .
    then show ?thesis using level_node [of s u root k' L l' a c' r'] lev y by (metis option.discI)
  qed
  have pl: "ptr t = Some a \<Longrightarrow> a \<in> set (inorder t)" for t a by (cases t) auto
  have pk: "fst (snd (hd k)) \<in> ctx_set k" if "k \<noteq> []" using that by (cases k) auto
  have ch: "ptr l \<noteq> Some a" "ptr r \<noteq> Some a" if "a \<notin> set (inorder l)" "a \<notin> set (inorder r)" for a using that pl by blast+
  have ctx: "\<forall>a \<in> ctx_set k. ?s a = (if k \<noteq> [] \<and> a = fst (snd (hd k)) then map_option (set_near (fst (hd k)) (Some y)) (s a) else s a)"
  proof
    fix a assume a: "a \<in> ctx_set k"
    have "a \<noteq> c" "a \<noteq> y" "a \<notin> set (inorder l)" "a \<notin> set (inorder r)" "u \<noteq> Some a" using a z(5) dom u by auto
    then show "?s a = (if k \<noteq> [] \<and> a = fst (snd (hd k)) then map_option (set_near (fst (hd k)) (Some y)) (s a) else s a)"
      using ch [of a] by (cases "k \<noteq> [] \<and> a = fst (snd (hd k))") (auto simp: split_store_def Let_def lower_root_def adopt_def n hook_parent_def)
  qed
  have sub: "\<forall>a \<in> set (inorder t). ?s a = (if Some a = ptr t then map_option (\<lambda>n. n\<lparr>parent := Some y\<rparr>) (s a) else s a)"
    if t: "(t, t') = (l, r) \<or> (t, t') = (r, l)" for t t'
  proof
    fix a assume a: "a \<in> set (inorder t)"
    have "a \<noteq> c" "a \<noteq> y" "a \<notin> ctx_set k" "u \<noteq> Some a" "a \<notin> set (inorder t')" using a z(4,5) dom u t by auto
    then show "?s a = (if Some a = ptr t then map_option (\<lambda>n. n\<lparr>parent := Some y\<rparr>) (s a) else s a)"
      using t pl [of t' a] pk by (auto simp: split_store_def Let_def lower_root_def adopt_def n hook_parent_def)
  qed
  have c1: "ctx_at ?s u (if k = [] then Some y else root) k par0 (Some y) f0" by (rule ctx_fill [OF z(1,3) ctx])
  have l1: "tree_at ?s False (Some y) (ptr l) l" by (rule tree_at_new_parent [OF n(8) _ sub [of l r]]) (use z(4) in auto)
  have r1: "tree_at ?s False (Some y) (ptr r) r" by (rule tree_at_new_parent [OF n(9) _ sub [of r l]]) (use z(4) in auto)
  have "tree_at ?s f0 par0 (Some y) (join L l y col r)" using \<open>?Y\<close> l1 r1 n by (simp add: top_node_def)
  then show "level ?s u (if k = [] then Some y else root) (plug k (join L l y col r))"
    by (rule levelI [OF c1 _ z(3)]) (use z(4,5) dom in auto)
  fix a m assume a: "a \<noteq> c" "s a = Some m"
  have ay: "a \<noteq> y" using a y by auto
  let ?base = "s(y \<mapsto> top_node cn yn)"
  have "?base a = Some m" using a ay by simp
  then obtain m1 where m1: "hook_parent k y ?base a = Some m1" "same_rest m m1" "down m1 = down m" using hook_rest by metis
  then obtain m2 where m2: "adopt (left cn) y (hook_parent k y ?base) a = Some m2" "same_rest m1 m2" "down m2 = down m1" using adopt_rest by metis
  then obtain m3 where m3: "adopt (right cn) y (adopt (left cn) y (hook_parent k y ?base)) a = Some m3" "same_rest m2 m3" "down m3 = down m2"
    using adopt_rest by metis
  then obtain m4 where m4: "(if k = [] then lower_root u y (adopt (right cn) y (adopt (left cn) y (hook_parent k y ?base)))
      else adopt (right cn) y (adopt (left cn) y (hook_parent k y ?base))) a = Some m4" "same_rest m3 m4" "u \<noteq> Some a \<longrightarrow> down m4 = down m3"
    using lower_root_rest [of "adopt (right cn) y (adopt (left cn) y (hook_parent k y ?base))" a m3 u y] by (cases "k = []") auto
  define s4 where "s4 = (if k = [] then lower_root u y (adopt (right cn) y (adopt (left cn) y (hook_parent k y ?base)))
      else adopt (right cn) y (adopt (left cn) y (hook_parent k y ?base)))"
  have s4: "?s = s4(c \<mapsto> low_node y pfx cn, y \<mapsto> (top_node cn yn)\<lparr>down := Some c\<rparr>)"
    unfolding split_store_def Let_def s4_def by (rule refl)
  have "?s a = Some m4" using s4 m4(1) [folded s4_def] a(1) ay by simp
  moreover have "same_rest m m4" using same_rest_trans m1(2) m2(2) m3(2) m4(2) by metis
  ultimately have "\<exists>n'. ?s a = Some n' \<and> same_name m n' \<and> (u \<noteq> Some a \<longrightarrow> down n' = down m) \<and> same_user m n' \<and>
      hashval n' = hashval m \<and> hashnext n' = hashnext m" using m1(3) m2(3) m3(3) m4(3) by (simp add: same_rest_def)
  moreover have "\<exists>n'. ?s a = Some n' \<and> same_links m n'" if "a \<notin> set (inorder (plug k (join L l c col r)))"
  proof -
    have o: "a \<notin> ctx_set k" "a \<notin> set (inorder l)" "a \<notin> set (inorder r)" using that by auto
    have "?s a = (if k = [] \<and> u = Some a then map_option (\<lambda>n. n\<lparr>down := Some y\<rparr>) (s a) else s a)"
      by (rule split_store_other) (use o(1) ch [OF o(2,3)] n a(1) ay in simp_all)
    then show ?thesis using a(2) by (auto simp: same_links_def)
  qed
  ultimately show "\<exists>n'. ?s a = Some n' \<and> same_name m n' \<and> (a \<notin> set (inorder (plug k (join L l c col r))) \<longrightarrow> same_links m n') \<and>
      (u \<noteq> Some a \<longrightarrow> down n' = down m) \<and> same_user m n' \<and> hashval n' = hashval m \<and> hashnext n' = hashnext m" by fastforce
qed

lemma rb_rename:
  assumes "invc (plug k (join L l c col r))" and "invh (plug k (join L l c col r))" and "tcolor (plug k (join L l c col r)) = BLACK"
  shows "invc (plug k (join L l y col r))" and "invh (plug k (join L l y col r))" and "tcolor (plug k (join L l y col r)) = BLACK"
proof -
  have b: "bheight (join L l y col r) = bheight (join L l c col r)" by (simp add: join_def)
  show "invc (plug k (join L l y col r))" "invh (plug k (join L l y col r))" using assms(1,2) unfolding invc_plug invh_plug b by auto
  show "tcolor (plug k (join L l y col r)) = BLACK" using assms(3) tcolor_plug [of k "join L l y col r" "join L l c col r"] by (cases "k = []") auto
qed

lemma inorder_rename:
  assumes "distinct (inorder (plug k (join L l c col r)))"
  shows "inorder (plug k (join L l y col r)) = map (\<lambda>a. if a = c then y else a) (inorder (plug k (join L l c col r)))"
proof -
  obtain xs ys where xy: "inorder (plug k t) = xs @ inorder t @ ys" for t using inorder_plug_split by blast
  have "c \<notin> set xs" "c \<notin> set ys" "c \<notin> set (inorder l)" "c \<notin> set (inorder r)" using assms by (auto simp: xy)
  then show ?thesis by (auto simp: xy intro!: map_idI [symmetric])
qed

lemma split_names:
  assumes "node_named n (pre @ suf)" and "pre \<noteq> []" and "suf \<noteq> []"
  obtains p f where "dns_name_split (NODENAME n (dns_name_init (Some []))) (length suf) (Some (dns_fixedname d)) (Some (dns_fixedname d)) = Some (Some p, Some f)"
    and "n_length p = length (wire pre)" and "n_labels p = length pre" and "name_repr f suf" and "n_offsets f \<noteq> None"
proof -
  let ?n = "NODENAME n (dns_name_init (Some []))"
  have r: "name_repr ?n (pre @ suf)" using assms(1) by (simp add: node_named_def)
  note fx = fixedname_work [of d]
  obtain p where p: "dns_name_getlabelsequence ?n 0 (length pre) (dns_fixedname d) False = Some p"
    "n_length p = length (wire pre)" "n_labels p = length pre"
    by (rule getlabelsequence_repr [OF r _ fx(1,2), of 0 "length pre"]) auto
  obtain f where f: "dns_name_getlabelsequence ?n (length pre) (length suf) (dns_fixedname d) False = Some f" "name_repr f suf" "n_offsets f \<noteq> None"
    by (rule getlabelsequence_repr [OF r _ fx(1,2), of "length pre" "length suf"]) (use fx(4) in auto)
  have "dns_name_split ?n (length suf) (Some (dns_fixedname d)) (Some (dns_fixedname d)) = Some (Some p, Some f)"
    using name_reprD(1,3) [OF r] p(1) f(1) fx assms(2,3) by (simp add: dns_name_split_def)
  then show ?thesis using that p f by blast
qed

context name_hashing
begin

lemma split_ok:
  assumes t: "tree_of hv rbt s lv nm fn N" and u: "u \<in> levels N" and lvu: "lv u = plug k (join L l c col r)"
    and nmc: "nm c = pre @ suf" "pre \<noteq> []" "suf \<noteq> []" and par: "par = (if k = [] then None else Some (fst (snd (hd k))))"
    and name: "name_repr name ls" "lower (drop (length ls - hl) ls) = lower (suf @ full fn u)" "hl \<le> length ls" "hl = length suf + length (full fn u)"
    and fresh: "fresh_blocks mem"
  shows "split_node fullhash mem name (length ls) hl (length suf) (Some c) par u rbt s = Some (ISC_R_NOMEMORY, rbt, s, None) \<and> (\<exists>n. mem s n = None) \<or>
    (\<exists>rbt' s' y lv' nm' yn cn. split_node fullhash mem name (length ls) hl (length suf) (Some c) par u rbt s = Some (ISC_R_SUCCESS, rbt', s', Some y) \<and>
      y \<notin> N \<and> tree_of hv rbt' s' lv' nm' (fn(y := suf @ full fn u)) (insert y N) \<and> nodes_kept N s s' \<and> s' y = Some yn \<and> data yn = None \<and>
      lv' (Some y) = Nd Lf c BLACK Lf \<and> nm' c = pre \<and> s' c = Some cn \<and> left cn = None \<and> right cn = None)"
proof -
  have f: "forest s (rt_root rbt) lv nm fn N" and h: "hash_holds rbt s N" and fin: "finite N" and cnt: "rt_nodecount rbt = of_nat (card N)"
    and hvs: "\<And>a n. a \<in> N \<Longrightarrow> s a = Some n \<Longrightarrow> hashval n = hv (lower (fn a))" using t by (auto simp: tree_of_def)
  have cu: "c \<in> set (inorder (lv u))" "c \<in> N" using lvu forestD(3) [OF f u] by auto
  obtain cn where cn: "s c = Some cn" "node_named cn (pre @ suf)" using forest_node [OF f cu(2)] nmc(1) by metis
  obtain pfx sfx where sp: "dns_name_split (NODENAME cn (dns_name_init (Some []))) (length suf) (Some fixedname) (Some fixedname) = Some (Some pfx, Some sfx)"
    "n_length pfx = length (wire pre)" "n_labels pfx = length pre" "name_repr sfx suf" "n_offsets sfx \<noteq> None"
    using split_names [OF cn(2) nmc(2,3)] .
  show ?thesis
  proof (cases "mem s (SIZEOF_RBTNODE + length (wire suf) + length suf + 1)")
    case None
    then have "create_node mem s sfx = Some (ISC_R_NOMEMORY, s, None)" using create_node_ok [OF sp(4) nmc(3) sp(5), of mem s] by simp
    then show ?thesis using cn(1) sp(1) None by (auto simp: split_node_def)
  next
    case (Some y)
    obtain yn where cr: "create_node mem s sfx = Some (ISC_R_SUCCESS, s(y \<mapsto> yn), Some y)" and yn: "new_tree_node yn suf"
      using create_node_ok [OF sp(4) nmc(3) sp(5), of mem s] Some by auto
    have y: "s y = None" using fresh Some by (simp add: fresh_blocks_def)
    have yN: "y \<notin> N" by (rule tree_node_fresh [OF f y])
    have lev: "level s u (root_cell s (rt_root rbt) u) (plug k (join L l c col r))" and inv: "invc (plug k (join L l c col r))"
      "invh (plug k (join L l c col r))" "tcolor (plug k (join L l c col r)) = BLACK" "distinct (inorder (plug k (join L l c col r)))"
      using forestD(1) [OF f u] lvu by (auto simp: rb_level_def level_def)
    have uu: "s a \<noteq> None \<and> a \<notin> set (inorder (plug k (join L l c col r)))" if "u = Some a" for a
      using not_own_level [OF f, of a] forest_node [OF f, of a] u that lvu by (metis levels_simps(2) option.discI)
    have uc: "u = Some a \<Longrightarrow> s a \<noteq> None \<and> a \<noteq> c \<and> a \<notin> set (inorder (plug k (join L l c col r)))" for a using uu [of a] by auto
    define s1 where "s1 = split_store k u c cn y yn pfx s"
    define rbt1 where "rbt1 = (if k = [] \<and> u = None then rbt\<lparr>rt_root := Some y\<rparr> else rbt)"
    have "\<forall>a. u = Some a \<longrightarrow> s a \<noteq> None \<and> a \<notin> set (inorder (plug k (join L l c col r)))" using uu by blast
    note n1 = split_store_nodes [OF lev cn(1) y this, where yn = yn and pfx = pfx, folded s1_def, folded lvu]
    have cl: "left cn = ptr l" "right cn = ptr r" using level_node [OF lev] cn(1) by (metis near_simps(1,3) option.inject)+
    have cell1: "root_cell s1 (rt_root rbt1) u = (if k = [] then Some y else root_cell s (rt_root rbt) u)"
    proof (cases u)
      case None
      then show ?thesis by (simp add: rbt1_def)
    next
      case (Some a)
      obtain n where n: "s a = Some n" using uu [OF Some] by blast
      have pl: "ptr t = Some a \<Longrightarrow> a \<in> set (inorder t)" for t by (cases t) auto
      have "s1 a = (if k = [] \<and> u = Some a then map_option (\<lambda>n. n\<lparr>down := Some y\<rparr>) (s a) else s a)"
        unfolding s1_def by (rule split_store_other) (use uu [OF Some] uc [OF Some] y pl cl in auto)
      then show ?thesis using Some n by simp
    qed
    let ?lv = "lv(u := plug k (join L l y col r), Some y := Nd Lf c BLACK Lf)" and ?nm = "nm(c := pre, y := suf)" and ?fn = "fn(y := suf @ full fn u)"
    have lw: "node_named (low_node y pfx cn) pre"
      by (rule node_prefix [OF cn(2) nmc(2,3)]) (use sp(2,3) absolute_masked in \<open>simp_all add: low_node_def\<close>)
    have tn: "node_named ((top_node cn yn)\<lparr>down := Some c\<rparr>) suf"
      using yn same_named [of yn "(top_node cn yn)\<lparr>down := Some c\<rparr>" suf] by (simp add: new_tree_node_def same_name_def top_node_def)
    have f1: "forest s1 (rt_root rbt1) ?lv ?nm ?fn (insert y N)"
    proof (rule forest_split [OF f u cu(1) nmc yN n1(2) tn _ cn(1) n1(1) lw])
      show "rb_level s1 u (root_cell s1 (rt_root rbt1) u) (plug k (join L l y col r))"
        using n1(3) rb_rename [OF inv(1-3)] by (simp add: rb_level_def cell1)
      show "inorder (plug k (join L l y col r)) = map (\<lambda>a. if a = c then y else a) (inorder (lv u))"
        unfolding lvu by (rule inorder_rename [OF inv(4)])
      show "rb_level s1 (Some y) (Some c) (Nd Lf c BLACK Lf)" using n1(1) by (simp add: rb_level_def level_def low_node_def)
      show "u \<noteq> None \<Longrightarrow> rt_root rbt1 = rt_root rbt" by (auto simp: rbt1_def)
      show "\<exists>n'. s1 a = Some n' \<and> same_name n n' \<and> (a \<notin> set (inorder (lv u)) \<longrightarrow> same_links n n') \<and> (u \<noteq> Some a \<longrightarrow> down n' = down n)"
        if "a \<noteq> c" "s a = Some n" for a n using n1(4) [OF that] by blast
    qed (simp_all add: low_node_def)
    have old: "\<exists>n'. s1 a = Some n' \<and> same_user n n' \<and> hashval n' = hashval n \<and> hashnext n' = hashnext n" if "s a = Some n" for a n
    proof (cases "a = c")
      case True
      then show ?thesis using that cn(1) n1(1) by (auto simp: low_node_def same_user_def)
    next
      case False
      then show ?thesis using n1(4) [OF False that] by blast
    qed
    have h1: "hash_holds rbt1 s1 N"
      by (rule holds_cong [OF h]) (use old in \<open>auto simp: same_hash_def rbt1_def\<close>)
    have v1: "hashval n' = hv (lower (?fn a))" if "a \<in> N" "s1 a = Some n'" for a n'
      using forest_node [OF f that(1)] old [of a] hvs [OF that(1)] that yN by (metis fun_upd_other option.inject)
    have c1: "rt_nodecount rbt1 = of_nat (card N)" using cnt by (simp add: rbt1_def)
    obtain new where new: "dns_name_getlabelsequence name (length ls - hl) hl fixedname False = Some new" "name_repr new (drop (length ls - hl) ls)"
      by (rule getlabelsequence_repr [OF name(1) _ fixedname_work(1,2), of "length ls - hl" hl]) (use name(3) in auto)
    have "0 < hl" using nmc(3) name(4) by (cases suf) auto
    then have "length ls - hl < length ls" using name(3) by linarith
    then have ne: "drop (length ls - hl) ls \<noteq> []" by simp
    have ln: "lower (drop (length ls - hl) ls) = lower (?fn y)" using name(2) by simp
    obtain rbt' s' where fi: "hash_node fullhash mem (rbt1\<lparr>rt_nodecount := rt_nodecount rbt1 + 1\<rparr>) s1 (Some y) new = Some (rbt', s')"
      "tree_of hv rbt' s' ?lv ?nm ?fn (insert y N)" "\<forall>a n. s1 a = Some n \<longrightarrow> (\<exists>n'. s' a = Some n' \<and> same_node n n')"
      using hash_finish [OF f1 h1 yN n1(2) fin c1 v1 new(2) ne ln, of mem] by blast
    have "split_node fullhash mem name (length ls) hl (length suf) (Some c) par u rbt s = Some (ISC_R_SUCCESS, rbt', s', Some y)"
      using split_compute [OF lev cn(1) y uc sp(1) cr par, of fullhash name "length ls" hl] new(1) fi(1)
      by (simp add: s1_def rbt1_def Let_def)
    moreover have "nodes_kept N s s'"
      unfolding nodes_kept_def
    proof (intro ballI allI impI)
      fix a n assume "s a = Some n"
      then obtain n1 where "s1 a = Some n1" "same_user n n1" using old by blast
      then show "\<exists>n'. s' a = Some n' \<and> same_user n n'" using fi(3) by (fastforce simp: same_node_def same_user_def)
    qed
    moreover obtain yn' where "s' y = Some yn'" "data yn' = None"
      using fi(3) n1(2) yn by (fastforce simp: same_node_def same_user_def new_tree_node_def top_node_def)
    moreover obtain cn' where "s' c = Some cn'" "left cn' = None" "right cn' = None"
      using fi(3) n1(1) by (fastforce simp: same_node_def same_links_def low_node_def)
    moreover have "?lv (Some y) = Nd Lf c BLACK Lf" "?nm c = pre" using y cn(1) by auto
    ultimately show ?thesis using yN fi(2) by blast
  qed
qed

end

end
