(* ===== verification/Dns_Rbt_Add.thy ===== *)
theory Dns_Rbt_Add
  imports Dns_Rbt_Split
begin

text \<open>
  Adding names to a tree of trees: the loop of \<open>dns_rbt_addnode\<close>, the whole operation, \<open>dns_rbt_addname\<close> as an insertion
  into a table of names and data, and the full names of nodes. \<open>name_hashing\<close> is interpreted with the hash functions of
  \<open>lib/dns/name.c\<close>.
\<close>

section \<open>Comparing names by their last labels\<close>

definition reln_of :: "'a list \<Rightarrow> 'a list \<Rightarrow> nat \<Rightarrow> dns_namereln" where
  "reln_of x y m = (if x = [] \<and> y = [] then dns_namereln_equal else if y = [] then dns_namereln_subdomain
     else if x = [] then dns_namereln_contains else if m > 0 then dns_namereln_commonancestor else dns_namereln_none)"

lemma ref_compare_split:
  "\<exists>x1 x2 y1 y2 d. xs = x1 @ x2 \<and> ys = y1 @ y2 \<and> map (map maptolower) x1 = map (map maptolower) y1 \<and>
     ref_compare xs ys k = (reln_of x2 y2 (k + length x1), d, k + length x1) \<and>
     (x2 \<noteq> [] \<and> y2 \<noteq> [] \<longrightarrow> map maptolower (hd x2) \<noteq> map maptolower (hd y2) \<and> d \<noteq> 0 \<and>
       (d < 0 \<longleftrightarrow> map maptolower (hd x2) < map maptolower (hd y2)))"
proof (induction xs ys k rule: ref_compare.induct)
  case (1 x xs y ys k)
  show ?case
  proof (cases "label_order x y = 0")
    case True
    then have nn: "\<not> label_order x y \<noteq> 0" by simp
    obtain x1 x2 y1 y2 d where i: "xs = x1 @ x2" "ys = y1 @ y2" "map (map maptolower) x1 = map (map maptolower) y1"
      "ref_compare xs ys (Suc k) = (reln_of x2 y2 (Suc k + length x1), d, Suc k + length x1)"
      "x2 \<noteq> [] \<and> y2 \<noteq> [] \<longrightarrow> map maptolower (hd x2) \<noteq> map maptolower (hd y2) \<and> d \<noteq> 0 \<and>
       (d < 0 \<longleftrightarrow> map maptolower (hd x2) < map maptolower (hd y2))" using "1.IH" [OF nn] by blast
    have "map maptolower x = map maptolower y" using True by (simp add: label_order_sign)
    then show ?thesis using i True
      by (intro exI [of _ "x # x1"] exI [of _ x2] exI [of _ "y # y1"] exI [of _ y2] exI [of _ d]) simp
  next
    case False
    then have "map maptolower x \<noteq> map maptolower y" by (simp add: label_order_sign)
    then show ?thesis using False
      by (intro exI [of _ "[]"] exI [of _ "x # xs"] exI [of _ "[]"] exI [of _ "y # ys"] exI [of _ "label_order x y"])
        (simp add: reln_of_def label_order_sign)
  qed
next
  case (2 ys k)
  show ?case by (intro exI [of _ "[]"] exI [of _ "[]"] exI [of _ "[]"] exI [of _ ys] exI [of _ "- int (length ys)"]) (simp add: reln_of_def)
next
  case (3 x xs k)
  show ?case by (intro exI [of _ "[]"] exI [of _ "x # xs"] exI [of _ "[]"] exI [of _ "[]"] exI [of _ "int (length (x # xs))"]) (simp add: reln_of_def)
qed

lemma key_hd: "xs \<noteq> [] \<Longrightarrow> level_key xs = map maptolower (hd (rev xs))"
  by (simp add: level_key_def hd_rev)

lemma compare_split:
  assumes "name_repr n1 al" and "name_repr n2 bl" and "ends_root al = ends_root bl"
  obtains a1 a2 b1 b2 order where "al = a1 @ a2" and "bl = b1 @ b2" and "lower a2 = lower b2"
    and "dns_name_fullcompare n1 n2 = Some (reln_of a1 b1 (length a2), order, length a2)"
    and "a1 \<noteq> [] \<Longrightarrow> b1 \<noteq> [] \<Longrightarrow> level_key a1 \<noteq> level_key b1 \<and> order \<noteq> 0 \<and> (order < 0 \<longleftrightarrow> level_key a1 < level_key b1)"
proof -
  obtain x1 x2 y1 y2 d where i: "rev al = x1 @ x2" "rev bl = y1 @ y2" "map (map maptolower) x1 = map (map maptolower) y1"
    "ref_compare (rev al) (rev bl) 0 = (reln_of x2 y2 (length x1), d, length x1)"
    "x2 \<noteq> [] \<and> y2 \<noteq> [] \<longrightarrow> map maptolower (hd x2) \<noteq> map maptolower (hd y2) \<and> d \<noteq> 0 \<and>
     (d < 0 \<longleftrightarrow> map maptolower (hd x2) < map maptolower (hd y2))"
    using ref_compare_split [of "rev al" "rev bl" 0] unfolding add_0 by blast
  have "al = rev x2 @ rev x1" "bl = rev y2 @ rev y1" using i(1,2) by (metis rev_append rev_rev_ident)+
  moreover have "lower (rev x1) = lower (rev y1)" using i(3) by (simp add: lower_def flip: rev_map)
  moreover have "dns_name_fullcompare n1 n2 = Some (reln_of (rev x2) (rev y2) (length (rev x1)), d, length (rev x1))"
    using fullcompare_ref [OF assms] i(4) by (simp add: reln_of_def)
  ultimately show ?thesis by (rule that) (use i(5) in \<open>simp add: key_hd\<close>)
qed

section \<open>The search in a level\<close>

text \<open>The decisions on the path to a place agree with the order of the labels.\<close>

definition path_ok :: "(nat \<Rightarrow> bytes list) \<Rightarrow> bytes \<Rightarrow> rbt_frame list \<Rightarrow> bool" where
  "path_ok nm v k \<longleftrightarrow> (\<forall>(d, a, c, w) \<in> set k. if d = L then v < level_key (nm a) else level_key (nm a) < v)"

lemma path_bounds:
  assumes "level_sorted nm (inorder (plug k T))" and "path_ok nm v k"
  shows "\<exists>xs ys. (\<forall>t. inorder (plug k t) = xs @ inorder t @ ys) \<and> (\<forall>a \<in> set xs. level_key (nm a) < v) \<and> (\<forall>a \<in> set ys. v < level_key (nm a))"
  using assms
proof (induction k arbitrary: T)
  case (Cons x k)
  obtain d a c w where x: "x = (d, a, c, w)" by (cases x)
  have s: "level_sorted nm (inorder (plug k (join d T a c w)))" using Cons.prems(1) by (simp add: x)
  obtain xs ys where i: "\<And>t. inorder (plug k t) = xs @ inorder t @ ys" "\<forall>a \<in> set xs. level_key (nm a) < v" "\<forall>a \<in> set ys. v < level_key (nm a)"
    using Cons.IH [OF s] Cons.prems(2) by (auto simp: path_ok_def)
  show ?case
  proof (cases d)
    case L
    have "v < level_key (nm a)" using Cons.prems(2) L by (simp add: path_ok_def x)
    moreover have "\<forall>b \<in> set (inorder w). level_key (nm a) < level_key (nm b)" using s L by (simp add: i(1) level_sorted_def sorted_wrt_append)
    ultimately show ?thesis using L i by (intro exI [of _ xs] exI [of _ "a # inorder w @ ys"]) (auto simp: x)
  next
    case R
    have "level_key (nm a) < v" using Cons.prems(2) R by (simp add: path_ok_def x)
    moreover have "\<forall>b \<in> set (inorder w). level_key (nm b) < level_key (nm a)" using s R by (simp add: i(1) level_sorted_def sorted_wrt_append)
    ultimately show ?thesis using R i by (intro exI [of _ "xs @ inorder w @ [a]"] exI [of _ ys]) (auto simp: x)
  qed
qed (simp add: exI [of _ "[]"])

lemma place_sorted:
  assumes "level_sorted nm (inorder (plug k Lf))" and "path_ok nm (level_key al) k" and "x \<notin> set (inorder (plug k Lf))"
  shows "level_sorted (nm(x := al)) (inorder (plug k (Nd Lf x c Lf)))"
proof -
  obtain xs ys where i: "\<And>t. inorder (plug k t) = xs @ inorder t @ ys" "\<forall>a \<in> set xs. level_key (nm a) < level_key al" "\<forall>a \<in> set ys. level_key al < level_key (nm a)"
    using path_bounds [OF assms(1,2)] by blast
  have x: "x \<notin> set xs" "x \<notin> set ys" using assms(3) by (auto simp: i(1))
  have "sorted_wrt (\<lambda>a b. level_key (nm a) < level_key (nm b)) (xs @ ys)" using assms(1) by (simp add: i(1) level_sorted_def)
  then have "sorted_wrt (\<lambda>a b. level_key ((nm(x := al)) a) < level_key ((nm(x := al)) b)) (xs @ ys)"
    by (rule sorted_wrt_mono_rel [rotated]) (use x in auto)
  then show ?thesis using i(2,3) x by (auto simp: i(1) level_sorted_def sorted_wrt_append)
qed

section \<open>The loop of an addition\<close>

text \<open>The tree has tree_grown towards a name: new nodes have no data, and their names are suffixes of the name.\<close>

definition tree_grown :: "bytes list \<Rightarrow> nat set \<Rightarrow> (nat \<Rightarrow> bytes list) \<Rightarrow> node_store \<Rightarrow> nat set \<Rightarrow> (nat \<Rightarrow> bytes list) \<Rightarrow> node_store \<Rightarrow> bool" where
  "tree_grown ls N fn s N' fn' s' \<longleftrightarrow> N \<subseteq> N' \<and> (\<forall>a \<in> N. fn' a = fn a) \<and> nodes_kept N s s' \<and>
     (\<forall>a \<in> N' - N. (\<exists>n. s' a = Some n \<and> data n = None) \<and> (\<exists>X. lower ls = X @ lower (fn' a)))"

text \<open>The place that the loop has found for the rest of the name.\<close>

definition place_ready ::
    "bytes list \<Rightarrow> (nat \<Rightarrow> bytes list) \<Rightarrow> (nat \<Rightarrow> bytes list) \<Rightarrow> (nat option \<Rightarrow> rbt) \<Rightarrow> nat set \<Rightarrow> node_store \<Rightarrow>
     dns_name \<times> nat option \<times> int \<times> nat option \<Rightarrow> bool" where
  "place_ready ls nm fn lv N s place = (case place of (add, cur, order, v) \<Rightarrow>
     \<exists>c al. cur = Some c \<and> v \<in> levels N \<and> work_name add al \<and> al \<noteq> [] \<and> lower ls = lower (al @ full fn v) \<and>
       (if lv v = Lf then v = Some c
        else c \<in> set (inorder (lv v)) \<and> (\<exists>cn. s c = Some cn \<and> (if order < 0 then left cn = None else right cn = None))) \<and>
       (\<forall>x. lv v \<noteq> Lf \<longrightarrow> x \<notin> N \<longrightarrow> level_sorted (nm(x := al)) (beside (order < 0) c x (inorder (lv v)))))"

definition outcome ::
    "allocator \<Rightarrow> (bytes list \<Rightarrow> u32) \<Rightarrow> bytes list \<Rightarrow> nat set \<Rightarrow> (nat \<Rightarrow> bytes list) \<Rightarrow> dns_rbt \<Rightarrow> node_store \<Rightarrow>
     isc_result \<times> dns_rbt \<times> node_store \<times> nat option \<times> (dns_name \<times> nat option \<times> int \<times> nat option) option \<Rightarrow> bool" where
  "outcome mem hv ls N fn rbt s r = (case r of (result, rbt', s', node, place) \<Rightarrow>
     result = ISC_R_EXISTS \<and> rbt' = rbt \<and> s' = s \<and> place = None \<and> (\<exists>a \<in> N. node = Some a \<and> lower (fn a) = lower ls) \<or>
     (\<forall>a \<in> N. lower (fn a) \<noteq> lower ls) \<and> (result = ISC_R_NOMEMORY \<and> rbt' = rbt \<and> s' = s \<and> place = None \<and> node = None \<and> (\<exists>n. mem s n = None) \<or>
     result = ISC_R_SUCCESS \<and> (\<exists>lv' nm' fn' N'. tree_of hv rbt' s' lv' nm' fn' N' \<and> tree_grown ls N fn s N' fn' s' \<and>
       (case place of None \<Rightarrow> \<exists>y \<in> N' - N. node = Some y \<and> lower (fn' y) = lower ls | Some pl \<Rightarrow> place_ready ls nm' fn' lv' N' s' pl))))"

lemma tree_grown_refl [simp]: "tree_grown ls N fn s N fn s"
  by (simp add: tree_grown_def)

lemma outcome_node:
  assumes "tree_of hv rbt' s' lv' nm' fn' N'" and "tree_grown ls N fn s N' fn' s'" and "y \<in> N' - N" and "lower (fn' y) = lower ls"
    and "\<forall>a \<in> N. lower (fn a) \<noteq> lower ls"
  shows "outcome mem hv ls N fn rbt s (ISC_R_SUCCESS, rbt', s', Some y, None)"
  unfolding outcome_def prod.case using assms by (intro disjI2 conjI exI [of _ lv'] exI [of _ nm'] exI [of _ fn'] exI [of _ N']) auto

lemma outcome_place:
  assumes "tree_of hv rbt' s' lv' nm' fn' N'" and "tree_grown ls N fn s N' fn' s'" and "place_ready ls nm' fn' lv' N' s' pl"
    and "\<forall>a \<in> N. lower (fn a) \<noteq> lower ls"
  shows "outcome mem hv ls N fn rbt s (ISC_R_SUCCESS, rbt', s', None, Some pl)"
  unfolding outcome_def prod.case using assms by (intro disjI2 conjI exI [of _ lv'] exI [of _ nm'] exI [of _ fn'] exI [of _ N']) auto

context name_hashing
begin

text \<open>A name that has the same suffix as the node: the node is divided.\<close>

lemma loop_split:
  assumes t: "tree_of hv rbt s lv nm fn N" and u: "u \<in> levels N" and lvu: "lv u = plug k (join L l c col r)"
    and par: "par = (if k = [] then None else Some (fst (snd (hd k))))" and add: "work_name add (a1 @ a2)"
    and nmc: "nm c = b1 @ b2" "b1 \<noteq> []" "b2 \<noteq> []" and eq: "lower a2 = lower b2"
    and name: "name_repr name ls" "lower ls = lower (a1 @ a2) @ lower (full fn u)"
    and ord: "a1 \<noteq> [] \<Longrightarrow> level_key a1 \<noteq> level_key b1 \<and> order \<noteq> 0 \<and> (order < 0 \<longleftrightarrow> level_key a1 < level_key b1)"
    and fresh: "fresh_blocks mem" and abs: "\<forall>a \<in> N. lower (fn a) \<noteq> lower ls"
  shows "\<exists>r. do {
           (result, rbt, s, new_current) \<leftarrow> split_node fullhash mem name (length ls) (length (full fn u) + length a2) (length a2) (Some c) par u rbt s;
           if result \<noteq> ISC_R_SUCCESS then Some (result, rbt, s, None, None)
           else do {
             count \<leftarrow> dns_name_countlabels add;
             if length a2 = count then Some (ISC_R_SUCCESS, rbt, s, new_current, None)
             else do {
               add_name \<leftarrow> dns_name_split_self add (length a2);
               Some (ISC_R_SUCCESS, rbt, s, None, Some (add_name, Some c, order, new_current)) } } } = Some r \<and> outcome mem hv ls N fn rbt s r"
proof -
  have la: "length a2 = length b2" using arg_cong [OF eq, of length] by (simp add: lower_def)
  have ll: "length ls = length a1 + length a2 + length (full fn u)" using arg_cong [OF name(2), of length] by (simp add: lower_def)
  have cu: "c \<in> N" using lvu t u forestD(3) [of s "rt_root rbt" lv nm fn N u] by (auto simp: tree_of_def)
  let ?hl = "length (full fn u) + length a2"
  have "lower (drop (length ls - ?hl) ls) = drop (length a1) (lower ls)" using ll by (simp add: lower_def drop_map)
  also have "\<dots> = lower a2 @ lower (full fn u)" unfolding name(2) by (simp add: lower_def)
  finally have dl: "lower (drop (length ls - ?hl) ls) = lower (b2 @ full fn u)" using eq by simp
  have r: "name_repr add (a1 @ a2)" using add by (simp add: work_name_def)
  have cl: "dns_name_countlabels add = Some (length a1 + length a2)"
    using name_reprD(1,2,3) [OF r] labels_le_128 [OF name_reprD(2) [OF r]] by (simp add: dns_name_countlabels_def)
  consider "split_node fullhash mem name (length ls) ?hl (length a2) (Some c) par u rbt s = Some (ISC_R_NOMEMORY, rbt, s, None)" "\<exists>n. mem s n = None"
    | rbt' s' y lv' nm' yn cn where "split_node fullhash mem name (length ls) ?hl (length a2) (Some c) par u rbt s = Some (ISC_R_SUCCESS, rbt', s', Some y)"
      "y \<notin> N" "tree_of hv rbt' s' lv' nm' (fn(y := b2 @ full fn u)) (insert y N)" "nodes_kept N s s'" "s' y = Some yn" "data yn = None"
      "lv' (Some y) = Nd Lf c BLACK Lf" "nm' c = b1" "s' c = Some cn" "left cn = None" "right cn = None"
    using split_ok [where fn = fn and u = u, OF t u lvu nmc par name(1) dl _ _ fresh] ll unfolding la by auto
  then show ?thesis
  proof cases
    case 1
    then show ?thesis using abs by (simp add: outcome_def)
  next
    case 2
    let ?fn = "fn(y := b2 @ full fn u)"
    have "lower ls = lower a1 @ lower (?fn y)" using name(2) eq by simp
    then have g: "tree_grown ls N fn s (insert y N) ?fn s'" using 2(2,4,5,6) by (auto simp: tree_grown_def)
    show ?thesis
    proof (cases "a1 = []")
      case True
      have "outcome mem hv ls N fn rbt s (ISC_R_SUCCESS, rbt', s', Some y, None)"
        by (rule outcome_node [OF 2(3) g]) (use 2(2) \<open>lower ls = lower a1 @ lower (?fn y)\<close> True abs in simp_all)
      then show ?thesis using 2(1) cl True by simp
    next
      case False
      have "0 < length a2" "length a2 < length (a1 @ a2)" using nmc(3) la False by auto
      then obtain a' where a': "dns_name_split_self add (length a2) = Some a'" "work_name a' a1"
        using split_self_work [OF add, of "length a2"] by auto
      have "place_ready ls nm' ?fn lv' (insert y N) s' (a', Some c, order, Some y)"
      proof -
        have "level_sorted (nm'(x := a1)) (beside (order < 0) c x [c])" if "x \<notin> insert y N" for x
          using that cu ord [OF False] 2(8) by (auto simp: level_sorted_def)
        then show ?thesis
          unfolding place_ready_def prod.case using a'(2) False 2(7,9-11) \<open>lower ls = lower a1 @ lower (?fn y)\<close>
          by (intro exI [of _ c] exI [of _ a1] conjI) simp_all
      qed
      then have "outcome mem hv ls N fn rbt s (ISC_R_SUCCESS, rbt', s', None, Some (a', Some c, order, Some y))"
        by (rule outcome_place [OF 2(3) g _ abs])
      then show ?thesis using 2(1) cl False a'(1) by simp
    qed
  qed
qed

lemma add_root:
  assumes f: "forest s root lv nm fn N" and u: "u \<in> levels N" and a: "c \<in> set (inorder (lv u))"
    and ls: "labels_ok ls" "ends_root ls" "lower ls = lower al @ lower (full fn u)"
  shows "ends_root al = ends_root (nm c)"
proof (cases u)
  case None
  then have "lower ls = lower al" using ls(3) by simp
  then have "ends_root al" using ls(2) ends_root_lower by metis
  then show ?thesis using nm_root [OF f u a] None by simp
next
  case (Some b)
  then have ne: "fn b \<noteq> []" using forest_fn(3) [OF f] u by simp
  have "labels_ok (al @ fn b)" using ls(1,3) Some labels_ok_lower by (metis full_simps(2) lower_simps(4))
  then have "\<not> ends_root al" using no_inner_root ne by blast
  then show ?thesis using nm_root [OF f u a] Some by simp
qed

text \<open>The node has no label in common with the name, and no child on the side of the name.\<close>

lemma ready_leaf:
  assumes f: "forest s root lv nm fn N" and u: "u \<in> levels N" and lvu: "lv u = plug k (join d Lf c col w)"
    and path: "path_ok nm (level_key al) ((d, c, col, w) # k)" and d: "d = (if order < 0 then L else R)"
    and add: "work_name add al" "al \<noteq> []" and low: "lower ls = lower al @ lower (full fn u)"
  shows "place_ready ls nm fn lv N s (add, Some c, order, u)"
proof -
  let ?k = "(d, c, col, w) # k"
  have sub: "set (inorder (lv u)) \<subseteq> N" by (rule forestD(3) [OF f u])
  have so: "level_sorted nm (inorder (plug ?k Lf))" using forestD(2) [OF f u] lvu by simp
  have dis: "distinct (inorder (lv u))" using forestD(1) [OF f u] by (simp add: rb_level_def level_def)
  have "level_sorted (nm(x := al)) (beside (order < 0) c x (inorder (lv u)))" if "x \<notin> N" for x
  proof -
    have "level_sorted (nm(x := al)) (inorder (plug ?k (Nd Lf x BLACK Lf)))"
      by (rule place_sorted [OF so path]) (use that sub lvu in auto)
    moreover have "inorder (plug k (join d (Nd Lf x BLACK Lf) c col w)) = beside (order < 0) c x (inorder (lv u))"
      by (rule inorder_beside [OF lvu dis]) (simp add: d)
    ultimately show ?thesis by simp
  qed
  moreover have "\<exists>cn. s c = Some cn \<and> (if order < 0 then left cn = None else right cn = None)"
  proof -
    have "level s u (root_cell s root u) (plug k (join d Lf c col w))" using forestD(1) [OF f u] lvu by (simp add: rb_level_def)
    then obtain n where "s c = Some n" "near d n = ptr Lf" using level_node by metis
    then show ?thesis using d by (auto split: if_splits)
  qed
  moreover have "lv u \<noteq> Lf" "c \<in> set (inorder (lv u))" using lvu by (auto dest: arg_cong [where f = "\<lambda>t. set (inorder t)"])
  ultimately show ?thesis unfolding place_ready_def prod.case using u add low
    by (intro exI [of _ c] exI [of _ al] conjI) simp_all
qed

lemma level_down:
  assumes f: "forest s root lv nm fn N" and c: "c \<in> N" "s c = Some cn"
  shows "down cn = ptr (lv (Some c))"
    and "down cn = None \<or> (case node_get s (down cn) of Some r \<Rightarrow> is_root r \<and> parent r = Some c | None \<Rightarrow> False)"
proof -
  have l: "rb_level s (Some c) (down cn) (lv (Some c))" using forestD(1) [OF f, of "Some c"] c by simp
  then show p: "down cn = ptr (lv (Some c))" using tree_at_ptr by (auto simp: rb_level_def level_def)
  show "down cn = None \<or> (case node_get s (down cn) of Some r \<Rightarrow> is_root r \<and> parent r = Some c | None \<Rightarrow> False)"
  proof (cases "lv (Some c)")
    case (Nd l a col r)
    then show ?thesis using l p by (auto simp: rb_level_def level_def split: option.splits)
  qed (use p in simp)
qed

lemma absent_level:
  assumes f: "forest s root lv nm fn N" and u: "u \<in> levels N" and low: "lower ls = lower al @ lower (full fn u)" and "al \<noteq> []"
    and b: "b \<in> N" "lower (fn b) = lower ls"
  shows "\<exists>q \<in> set (inorder (lv u)). level_key (nm q) = level_key al \<and> (\<exists>X. lower al = X @ lower (nm q))"
proof -
  have "\<exists>q \<in> set (inorder (lv u)). above lv q b"
  proof (cases u)
    case None
    then show ?thesis using above_top [OF f b(1)] by simp
  next
    case (Some p)
    then have p: "p \<in> N" using u by simp
    have "above lv p b" by (rule suffix_above [OF f p b(1)]) (use b(2) low Some in simp)
    moreover have "p \<noteq> b" using arg_cong [OF b(2), of length] arg_cong [OF low, of length] Some \<open>al \<noteq> []\<close> by (auto simp: lower_def)
    ultimately show ?thesis using above_child Some by metis
  qed
  then obtain q where q: "q \<in> set (inorder (lv u))" "above lv q b" by blast
  have qN: "q \<in> N" using q(1) forestD(3) [OF f u] by blast
  obtain P where "fn b = P @ fn q" using above_fn [OF f q(2) qN] by blast
  moreover have "fn q = nm q @ full fn u" "nm q \<noteq> []" using forestD(4) [OF f u q(1)] nm_nonempty [OF f qN] by blast+
  ultimately have e: "lower al = lower P @ lower (nm q)" using b(2) low by simp
  then have "last (lower al) = last (lower (nm q))" using \<open>nm q \<noteq> []\<close> by simp
  then have "level_key (nm q) = level_key al" using \<open>nm q \<noteq> []\<close> \<open>al \<noteq> []\<close> by (simp add: last_lower)
  then show ?thesis using q(1) e by blast
qed

lemma absent_leaf:
  assumes f: "forest s root lv nm fn N" and u: "u \<in> levels N" and low: "lower ls = lower al @ lower (full fn u)" and "al \<noteq> []"
    and lvu: "lv u = plug k Lf" and path: "path_ok nm (level_key al) k"
  shows "\<forall>b \<in> N. lower (fn b) \<noteq> lower ls"
proof (intro ballI notI)
  fix b assume "b \<in> N" "lower (fn b) = lower ls"
  then obtain q where q: "q \<in> set (inorder (lv u))" "level_key (nm q) = level_key al" using absent_level [OF f u low \<open>al \<noteq> []\<close>] by blast
  have "level_sorted nm (inorder (plug k Lf))" using forestD(2) [OF f u] lvu by simp
  from path_bounds [OF this path] show False using q lvu by fastforce
qed

lemma absent_split:
  assumes f: "forest s root lv nm fn N" and u: "u \<in> levels N" and low: "lower ls = lower (a1 @ a2) @ lower (full fn u)"
    and c: "c \<in> set (inorder (lv u))" "nm c = b1 @ b2" "b1 \<noteq> []" "b2 \<noteq> []" and eq: "lower a2 = lower b2" and ord: "a1 \<noteq> [] \<Longrightarrow> level_key a1 \<noteq> level_key b1"
  shows "\<forall>b \<in> N. lower (fn b) \<noteq> lower ls"
proof (intro ballI notI)
  fix b assume b: "b \<in> N" "lower (fn b) = lower ls"
  have ne: "a2 \<noteq> []" using eq c(4) by (metis lower_simps(5))
  then obtain q X where q: "q \<in> set (inorder (lv u))" "level_key (nm q) = level_key (a1 @ a2)" "lower (a1 @ a2) = X @ lower (nm q)"
    using absent_level [OF f u low _ b] by blast
  have "level_key a2 = level_key b2" using eq ne c(4) last_lower by metis
  then have "level_key (nm q) = level_key (nm c)" using q(2) c(2,4) ne by (simp add: level_key_def)
  then have "q = c" using key_unique [OF forestD(2) [OF f u] q(1) c(1)] by blast
  then have a1: "lower a1 = X @ lower b1" using q(3) c(2) eq by simp
  then have "a1 \<noteq> []" using c(3) by (metis Nil_is_append_conv lower_simps(5))
  moreover have "level_key a1 = level_key b1" using a1 calculation c(3) by (metis last_appendR last_lower lower_simps(5))
  ultimately show False using ord by blast
qed

lemma loop_ok:
  assumes t: "tree_of hv rbt s lv nm fn N" and fresh: "fresh_blocks mem" and name: "name_repr name ls" "ends_root ls"
    and "u \<in> levels N" and "lv u = plug k T" and "T \<noteq> Lf" and "par = (if k = [] then None else Some (fst (snd (hd k))))"
    and "path_ok nm (level_key al) k" and "work_name add al" and "al \<noteq> []" and "lower ls = lower al @ lower (full fn u)"
    and "hl = length (full fn u)" and "lc \<le> hl"
  shows "\<exists>r. addnode_loop fullhash mem name (length ls) rbt s add u par (ptr T) hl lc = Some r \<and> outcome mem hv ls N fn rbt s r"
  using assms(5-)
proof (induction "(length al, height T)" arbitrary: u k T par al add hl lc rule: wf_induct_rule [OF wf_lex_prod [OF wf_less_than wf_less_than]])
  case 1
  note IH = "1.hyps" and u = "1.prems"(1) and lvu = "1.prems"(2) and par = "1.prems"(4) and path = "1.prems"(5) and add = "1.prems"(6,7)
    and low = "1.prems"(8) and hl = "1.prems"(9,10)
  have f: "forest s (rt_root rbt) lv nm fn N" using t by (simp add: tree_of_def)
  obtain l c col r where T: "T = join L l c col r" using "1.prems"(3) by (cases T rule: join_cases [where d = L]) auto
  have cu: "c \<in> set (inorder (lv u))" "c \<in> N" using lvu T forestD(3) [OF f u] by auto
  obtain cn where cn: "s c = Some cn" "node_named cn (nm c)" using forest_node [OF f cu(2)] .
  have r: "name_repr add al" "name_repr (NODENAME cn (dns_name_init (Some []))) (nm c)" "nm c \<noteq> []"
    using add(1) cn(2) by (simp_all add: work_name_def node_named_def)
  have lsok: "labels_ok ls" by (rule name_reprD(2) [OF name(1)])
  obtain a1 a2 b1 b2 order where cmp: "al = a1 @ a2" "nm c = b1 @ b2" "lower a2 = lower b2"
    "dns_name_fullcompare add (NODENAME cn (dns_name_init (Some []))) = Some (reln_of a1 b1 (length a2), order, length a2)"
    "a1 \<noteq> [] \<Longrightarrow> b1 \<noteq> [] \<Longrightarrow> level_key a1 \<noteq> level_key b1 \<and> order \<noteq> 0 \<and> (order < 0 \<longleftrightarrow> level_key a1 < level_key b1)"
    by (rule compare_split [OF r(1,2) add_root [OF f u cu(1) lsok name(2) low]]) blast
  have la: "length a2 = length b2" using arg_cong [OF cmp(3), of length] by (simp add: lower_def)
  have full_le: "length (full fn u) \<le> 128"
    using labels_le_128 [OF lsok] arg_cong [OF low, of length] by (simp add: lower_def)
  have lev: "level s u (root_cell s (rt_root rbt) u) (plug k (join L l c col r))" using forestD(1) [OF f u] lvu T by (simp add: rb_level_def)
  have ch: "left cn = ptr l" "right cn = ptr r" using level_node [OF lev] cn(1) by (metis near_simps(1,3) option.inject)+
  have fc: "fn c = nm c @ full fn u" using forestD(4) [OF f u cu(1)] by blast
  consider (equal) "a1 = []" "b1 = []" | (sub) "a1 \<noteq> []" "b1 = []" | (split) "b1 \<noteq> []" "b2 \<noteq> []"
    | (none) "a1 \<noteq> []" "b1 \<noteq> []" "a2 = []" using cmp(1) la add(2) by fastforce
  then show ?case
  proof cases
    case equal
    then have "addnode_loop fullhash mem name (length ls) rbt s add u par (ptr T) hl lc = Some (ISC_R_EXISTS, rbt, s, Some c, None)"
      using cn(1) cmp(4) T by (subst addnode_loop.simps) (simp add: reln_of_def)
    moreover have "lower (fn c) = lower ls" using fc low cmp equal by simp
    ultimately show ?thesis using cu(2) by (simp add: outcome_def)
  next
    case sub
    obtain add' where add': "dns_name_split_self add (length a2) = Some add'" "work_name add' a1"
      using split_self_work [OF add(1), of "length a2"] sub cmp(1,2) la r(3) by auto
    have nmc: "nm c = b2" using cmp(2) sub by simp
    have low': "lower ls = lower a1 @ lower (full fn (Some c))" using low cmp(1,3) fc nmc by simp
    note dn = level_down [OF f cu(2) cn(1)]
    have lc: "ADD_LEVEL lc = Some (lc + 1)" using hl full_le by (simp add: ADD_LEVEL_def DNS_RBT_LEVELBLOCK_def)
    have hl': "hl + length a2 = length (full fn (Some c))" using hl fc nmc la by simp
    have lc': "lc + 1 \<le> hl + length a2" using hl la nmc r(3) by (cases b2) auto
    have rg: "root_get rbt s (Some c) = Some (down cn)" using cn(1) by (simp add: root_get_def)
    show ?thesis
    proof (cases "lv (Some c) = Lf")
      case True
      have "place_ready ls nm fn lv N s (add', Some c, order, Some c)"
        unfolding place_ready_def prod.case using True cu(2) add'(2) sub low' by (intro exI [of _ c] exI [of _ a1] conjI) simp_all
      from outcome_place [OF t tree_grown_refl this absent_leaf [OF f _ low' sub(1), of "[]"]] show ?thesis
        using True cu(2) cn(1) cmp(4) T sub add'(1) rg dn lc by (subst addnode_loop.simps) (simp add: reln_of_def Let_def path_ok_def)
    next
      case False
      have "\<exists>r. addnode_loop fullhash mem name (length ls) rbt s add' (Some c) None (ptr (lv (Some c))) (hl + length a2) (lc + 1) = Some r \<and>
          outcome mem hv ls N fn rbt s r"
        by (rule IH [of a1 "lv (Some c)" "Some c" "[]"])
          (use False cmp(1) la nmc r(3) cu(2) add'(2) sub low' hl' lc' in \<open>auto simp: path_ok_def\<close>)
      moreover have "addnode_loop fullhash mem name (length ls) rbt s add u par (ptr T) hl lc =
          addnode_loop fullhash mem name (length ls) rbt s add' (Some c) None (ptr (lv (Some c))) (hl + length a2) (lc + 1)"
      proof -
        have ne: "down cn \<noteq> None" using False dn(1) by (cases "lv (Some c)") auto
        show ?thesis
          using cn(1) cmp(4) T sub add'(1) rg dn ne lc by (subst addnode_loop.simps) (simp add: reln_of_def Let_def)
      qed
      ultimately show ?thesis by simp
    qed
  next
    case split
    have ord: "a1 \<noteq> [] \<Longrightarrow> level_key a1 \<noteq> level_key b1 \<and> order \<noteq> 0 \<and> (order < 0 \<longleftrightarrow> level_key a1 < level_key b1)" using cmp(5) split by blast
    obtain res where res: "do {
           (result, rbt, s, new_current) \<leftarrow> split_node fullhash mem name (length ls) (length (full fn u) + length a2) (length a2) (Some c) par u rbt s;
           if result \<noteq> ISC_R_SUCCESS then Some (result, rbt, s, None, None)
           else do {
             count \<leftarrow> dns_name_countlabels add;
             if length a2 = count then Some (ISC_R_SUCCESS, rbt, s, new_current, None)
             else do {
               add_name \<leftarrow> dns_name_split_self add (length a2);
               Some (ISC_R_SUCCESS, rbt, s, None, Some (add_name, Some c, order, new_current)) } } } = Some res" "outcome mem hv ls N fn rbt s res"
      using loop_split [OF t u lvu [unfolded T] par add(1) [unfolded cmp(1)] cmp(2) split cmp(3) name(1) low [unfolded cmp(1)] ord fresh]
        absent_split [OF f u low [unfolded cmp(1)] cu(1) cmp(2) split cmp(3)] ord by blast
    have rel: "reln_of a1 b1 (length a2) = (if a1 = [] then dns_namereln_contains else dns_namereln_commonancestor)"
      using split la by (auto simp: reln_of_def)
    have lc: "lc \<noteq> DNS_RBT_LEVELBLOCK" "ADD_LEVEL lc = Some (lc + 1)" using hl full_le by (simp_all add: ADD_LEVEL_def DNS_RBT_LEVELBLOCK_def)
    have "addnode_loop fullhash mem name (length ls) rbt s add u par (ptr T) hl lc = Some res"
      using cn(1) cmp(4) T rel lc res(1) hl(1) by (subst addnode_loop.simps) (simp add: Let_def split: if_splits cong: if_cong)
    then show ?thesis using res(2) by blast
  next
    case none
    have o: "level_key al \<noteq> level_key (nm c)" "order \<noteq> 0" "order < 0 \<longleftrightarrow> level_key al < level_key (nm c)"
      using cmp(5) [OF none(1,2)] cmp(1,2) none la by auto
    define d where "d = (if order < 0 then L else R)"
    define t1 where "t1 = (if order < 0 then l else r)"
    define w where "w = (if order < 0 then r else l)"
    have T': "T = join d t1 c col w" by (simp add: T d_def t1_def w_def join_def)
    have path': "path_ok nm (level_key al) ((d, c, col, w) # k)" using path o by (auto simp: path_ok_def d_def)
    have rel: "reln_of a1 b1 (length a2) = dns_namereln_none" using none by (simp add: reln_of_def)
    have chd: "(if order < 0 then left cn else if order > 0 then right cn else ptr T) = ptr t1" using ch o(2) by (auto simp: t1_def)
    have step: "addnode_loop fullhash mem name (length ls) rbt s add u par (ptr T) hl lc =
        (if ptr t1 \<noteq> None then addnode_loop fullhash mem name (length ls) rbt s add u (Some c) (ptr t1) hl lc
         else Some (ISC_R_SUCCESS, rbt, s, None, Some (add, Some c, order, u)))"
      using cn(1) cmp(4) T rel chd o(2) by (subst addnode_loop.simps) (simp add: Let_def)
    show ?thesis
    proof (cases "t1 = Lf")
      case True
      have "place_ready ls nm fn lv N s (add, Some c, order, u)"
        by (rule ready_leaf [OF f u _ path' d_def add low]) (use lvu T' True in simp)
      moreover have "\<forall>b \<in> N. lower (fn b) \<noteq> lower ls"
        by (rule absent_leaf [OF f u low add(2) _ path']) (use lvu T' True in simp)
      ultimately have "outcome mem hv ls N fn rbt s (ISC_R_SUCCESS, rbt, s, None, Some (add, Some c, order, u))" by (rule outcome_place [OF t tree_grown_refl])
      then show ?thesis using step True by auto
    next
      case False
      then have "ptr t1 \<noteq> None" by (cases t1) auto
      moreover have ht: "height t1 < height T" by (auto simp: T t1_def join_def less_Suc_eq_le)
      moreover have "\<exists>r. addnode_loop fullhash mem name (length ls) rbt s add u (Some c) (ptr t1) hl lc = Some r \<and> outcome mem hv ls N fn rbt s r"
        by (rule IH [of al t1 u "(d, c, col, w) # k"])
          (use T' ht False u lvu path' add low hl in auto)
      ultimately show ?thesis using step by simp
    qed
  qed
qed

end

lemma tree_grown_insert:
  assumes g: "tree_grown ls N fn s N1 fn1 s1" and "x \<notin> N1" and "nodes_kept N1 s1 s'" and "s' x = Some xn" and "data xn = None" and "lower ls = lower v"
  shows "tree_grown ls N fn s (insert x N1) (fn1(x := v)) s'"
  unfolding tree_grown_def
proof (intro conjI ballI)
  show "N \<subseteq> insert x N1" using g by (auto simp: tree_grown_def)
  show "(fn1(x := v)) a = fn a" if "a \<in> N" for a using g that assms(2) by (auto simp: tree_grown_def)
  show "nodes_kept N s s'" using nodes_kept_trans [of N s s1 s'] nodes_kept_mono [OF assms(3), of N] g by (simp add: tree_grown_def)
  fix a assume a: "a \<in> insert x N1 - N"
  show "\<exists>n. s' a = Some n \<and> data n = None"
  proof (cases "a = x")
    case False
    then have "a \<in> N1" "a \<in> N1 - N" using a by auto
    then have "\<exists>n. s1 a = Some n \<and> data n = None" using g unfolding tree_grown_def by blast
    then obtain n where "s1 a = Some n" "data n = None" by blast
    then show ?thesis using assms(3) \<open>a \<in> N1\<close> by (fastforce simp: nodes_kept_def same_user_def)
  qed (use assms(4,5) in simp)
  show "\<exists>X. lower ls = X @ lower ((fn1(x := v)) a)"
    using g a assms(6) by (cases "a = x") (auto simp: tree_grown_def)
qed

lemma empty_tree:
  assumes "forest s None lv nm fn N"
  shows "N = {}" and "lv None = Lf"
proof -
  have "tree_at s True None None (lv None)" using forestD(1) [OF assms, of None] by (simp add: rb_level_def level_def)
  then show l: "lv None = Lf" using tree_at_ptr by (cases "lv None") auto
  show "N = {}" using above_top [OF assms] l by fastforce
qed

context name_hashing
begin

lemma first_node:
  assumes t: "tree_of hv rbt s lv nm fn N" and r: "rt_root rbt = None" and x: "s x = None" "new_tree_node xn ls"
    and name: "name_repr name ls" "ends_root ls"
  shows "\<exists>rbt' s' lv' nm' xn'. hash_node fullhash mem (rbt\<lparr>rt_nodecount := rt_nodecount rbt + 1, rt_root := Some x\<rparr>)
      (s(x \<mapsto> xn\<lparr>is_root := True\<rparr>)) (Some x) name = Some (rbt', s') \<and>
    tree_of hv rbt' s' lv' nm' (fn(x := ls)) (insert x N) \<and> nodes_kept N s s' \<and> s' x = Some xn' \<and> data xn' = None"
proof -
  have f: "forest s None lv nm fn N" and h: "hash_holds rbt s N" and fin: "finite N" and cnt: "rt_nodecount rbt = of_nat (card N)"
    using t r by (auto simp: tree_of_def)
  have N: "N = {}" and l: "lv None = Lf" using empty_tree [OF f] by auto
  let ?rbt = "rbt\<lparr>rt_root := Some x\<rparr>" and ?s = "s(x \<mapsto> xn\<lparr>is_root := True\<rparr>)"
  note xd = x(2) [unfolded new_tree_node_def]
  have nmd: "node_named (xn\<lparr>is_root := True\<rparr>) ls"
    using xd same_named [of xn "xn\<lparr>is_root := True\<rparr>" ls] by (simp add: same_name_def)
  have "forest ?s (Some x) (lv(None := Nd Lf x BLACK Lf, Some x := Lf)) (nm(x := ls)) (fn(x := ls @ full fn None)) (insert x N)"
    by (rule forest_add [OF f, of None x ?s "xn\<lparr>is_root := True\<rparr>" ls])
      (use N l xd nmd name_reprD(2) [OF name(1)] name(2) in \<open>auto simp: rb_level_def level_def level_sorted_def\<close>)
  then have f1: "forest ?s (rt_root ?rbt) (lv(None := Nd Lf x BLACK Lf, Some x := Lf)) (nm(x := ls)) (fn(x := ls)) (insert x N)" by simp
  have h1: "hash_holds ?rbt ?s N" by (rule holds_cong [OF h]) (use N in \<open>auto simp: same_hash_def\<close>)
  have ne: "ls \<noteq> []" using name(2) by (auto simp: ends_root_def)
  obtain rbt' s' where fi: "hash_node fullhash mem (?rbt\<lparr>rt_nodecount := rt_nodecount ?rbt + 1\<rparr>) ?s (Some x) name = Some (rbt', s')"
    "tree_of hv rbt' s' (lv(None := Nd Lf x BLACK Lf, Some x := Lf)) (nm(x := ls)) (fn(x := ls)) (insert x N)"
    "\<forall>a n. ?s a = Some n \<longrightarrow> (\<exists>n'. s' a = Some n' \<and> same_node n n')"
    using hash_finish [OF f1 h1 _ _ fin _ _ name(1) ne, of "xn\<lparr>is_root := True\<rparr>" mem] N cnt by auto
  have "\<exists>xn'. s' x = Some xn' \<and> data xn' = None"
    using fi(3) [rule_format, of x "xn\<lparr>is_root := True\<rparr>"] xd by (auto simp: same_node_def same_user_def)
  moreover have "?rbt\<lparr>rt_nodecount := rt_nodecount ?rbt + 1\<rparr> = rbt\<lparr>rt_nodecount := rt_nodecount rbt + 1, rt_root := Some x\<rparr>" by simp
  moreover have "nodes_kept N s s'" using N by (simp add: nodes_kept_def)
  ultimately show ?thesis using fi(1,2) by metis
qed

definition addition :: "allocator \<Rightarrow> bytes list \<Rightarrow> dns_rbt \<Rightarrow> node_store \<Rightarrow> (nat \<Rightarrow> bytes list) \<Rightarrow> nat set \<Rightarrow>
    isc_result \<times> dns_rbt \<times> node_store \<times> nat option \<Rightarrow> bool" where
  "addition mem ls rbt s fn N r \<longleftrightarrow> (case r of (result, rbt', s', node) \<Rightarrow>
    \<exists>lv' nm' fn' N'. tree_of hv rbt' s' lv' nm' fn' N' \<and> tree_grown ls N fn s N' fn' s' \<and>
      (if \<exists>a \<in> N. lower (fn a) = lower ls
       then result = ISC_R_EXISTS \<and> rbt' = rbt \<and> s' = s \<and> N' = N \<and> fn' = fn \<and> (\<exists>a \<in> N. node = Some a \<and> lower (fn a) = lower ls)
       else result = ISC_R_NOMEMORY \<and> node = None \<and> (\<exists>n. mem s' n = None) \<or> result = ISC_R_SUCCESS \<and> (\<exists>y \<in> N' - N. node = Some y \<and> lower (fn' y) = lower ls)))"

lemma addition_nomemory:
  "\<lbrakk>tree_of hv rbt' s' lv' nm' fn' N'; tree_grown ls N fn s N' fn' s'; \<forall>a \<in> N. lower (fn a) \<noteq> lower ls; \<exists>n. mem s' n = None\<rbrakk>
    \<Longrightarrow> addition mem ls rbt s fn N (ISC_R_NOMEMORY, rbt', s', None)"
  unfolding addition_def prod.case
  by (intro exI [of _ lv'] exI [of _ nm'] exI [of _ fn'] exI [of _ N']) simp

lemma addition_success:
  "\<lbrakk>tree_of hv rbt' s' lv' nm' fn' N'; tree_grown ls N fn s N' fn' s'; \<forall>a \<in> N. lower (fn a) \<noteq> lower ls;
    \<exists>y \<in> N' - N. node = Some y \<and> lower (fn' y) = lower ls\<rbrakk> \<Longrightarrow> addition mem ls rbt s fn N (ISC_R_SUCCESS, rbt', s', node)"
  unfolding addition_def prod.case
  by (intro exI [of _ lv'] exI [of _ nm'] exI [of _ fn'] exI [of _ N']) simp

lemma addition_exists:
  "\<lbrakk>tree_of hv rbt s lv nm fn N; \<exists>a \<in> N. node = Some a \<and> lower (fn a) = lower ls\<rbrakk>
    \<Longrightarrow> addition mem ls rbt s fn N (ISC_R_EXISTS, rbt, s, node)"
  unfolding addition_def prod.case
  by (intro exI [of _ lv] exI [of _ nm] exI [of _ fn] exI [of _ N]) (use tree_grown_refl in auto)

lemma addnode_first:
  assumes t: "tree_of hv rbt s lv nm fn N" and fresh: "fresh_blocks mem" and name: "name_repr name ls" "ends_root ls"
    and none: "rt_root rbt = None" and add: "dns_name_clone name fixedname = Some add" "work_name add ls"
    and pre: "dns_name_isabsolute name = Some True" "dns_name_countlabels name = Some (length ls)"
  shows "\<exists>r. dns_rbt_addnode fullhash mem rbt s name None = Some r \<and> addition mem ls rbt s fn N r"
proof -
  have N: "N = {}" using empty_tree [of s lv nm fn N] t none by (auto simp: tree_of_def)
  have ne: "ls \<noteq> []" using name(2) by (auto simp: ends_root_def)
  have w: "name_repr add ls" "n_offsets add \<noteq> None" using add(2) by (simp_all add: work_name_def)
  note cn = create_node_ok [OF w(1) ne w(2), of mem s]
  show ?thesis
  proof (cases "mem s (SIZEOF_RBTNODE + length (wire ls) + length ls + 1)")
    case None
    then have "dns_rbt_addnode fullhash mem rbt s name None = Some (ISC_R_NOMEMORY, rbt, s, None)"
      using cn none add(1) pre by (simp add: dns_rbt_addnode_def)
    moreover have "\<exists>n. mem s n = None" using None by blast
    ultimately show ?thesis using addition_nomemory [OF t tree_grown_refl, of ls mem rbt] N by simp
  next
    case (Some x)
    then obtain xn where cr: "create_node mem s add = Some (ISC_R_SUCCESS, s(x \<mapsto> xn), Some x)" and xn: "new_tree_node xn ls"
      using cn by auto
    have x: "s x = None" using fresh Some by (simp add: fresh_blocks_def)
    obtain rbt' s' lv' nm' xn' where fi: "hash_node fullhash mem (rbt\<lparr>rt_nodecount := rt_nodecount rbt + 1, rt_root := Some x\<rparr>)
        (s(x \<mapsto> xn\<lparr>is_root := True\<rparr>)) (Some x) name = Some (rbt', s')"
      "tree_of hv rbt' s' lv' nm' (fn(x := ls)) (insert x N)" "nodes_kept N s s'" "s' x = Some xn'" "data xn' = None"
      using first_node [OF t none x xn name, of mem] by blast
    have "dns_rbt_addnode fullhash mem rbt s name None = Some (ISC_R_SUCCESS, rbt', s', Some x)"
      using none add(1) pre cr fi(1) by (simp add: dns_rbt_addnode_def Let_def)
    moreover have "tree_grown ls N fn s (insert x N) (fn(x := ls)) s'"
      by (rule tree_grown_insert [OF tree_grown_refl _ fi(3-5)]) (use N in simp_all)
    ultimately show ?thesis using addition_success [OF fi(2), of ls N fn s "Some x" mem rbt] N by simp
  qed
qed

lemma addnode_place:
  assumes t: "tree_of hv rbt1 s1 lv' nm' fn' N'" and g: "tree_grown ls N fn s N' fn' s1" and rdy: "place_ready ls nm' fn' lv' N' s1 pl"
    and fresh: "fresh_blocks mem" and name: "name_repr name ls" "ends_root ls" and new: "\<forall>a \<in> N. lower (fn a) \<noteq> lower ls"
  shows "\<exists>r. addnode_insert fullhash mem name pl rbt1 s1 = Some r \<and> addition mem ls rbt s fn N r"
proof -
  obtain a cur order v where pv: "pl = (a, cur, order, v)" by (cases pl)
  obtain c al where rd: "cur = Some c" "v \<in> levels N'" "work_name a al" "al \<noteq> []" "lower ls = lower (al @ full fn' v)"
    "if lv' v = Lf then v = Some c
     else c \<in> set (inorder (lv' v)) \<and> (\<exists>cn. s1 c = Some cn \<and> (if order < 0 then left cn = None else right cn = None))"
    "\<And>x. lv' v \<noteq> Lf \<Longrightarrow> x \<notin> N' \<Longrightarrow> level_sorted (nm'(x := al)) (beside (order < 0) c x (inorder (lv' v)))"
    using rdy unfolding pv place_ready_def by auto
  have w: "name_repr a al" "n_offsets a \<noteq> None" using rd(3) by (simp_all add: work_name_def)
  consider "addnode_insert fullhash mem name pl rbt1 s1 = Some (ISC_R_NOMEMORY, rbt1, s1, None)" "\<exists>n. mem s1 n = None"
    | rbt2 s2 x lv2 nm2 xn where "addnode_insert fullhash mem name pl rbt1 s1 = Some (ISC_R_SUCCESS, rbt2, s2, Some x)" "x \<notin> N'"
      "tree_of hv rbt2 s2 lv2 nm2 (fn'(x := al @ full fn' v)) (insert x N')" "nodes_kept N' s1 s2" "s2 x = Some xn" "data xn = None"
    using place_ok [OF t rd(2) w rd(4) name rd(5) fresh rd(6,7)] unfolding pv rd(1) by blast
  then show ?thesis
  proof cases
    case 1
    then show ?thesis using addition_nomemory [where mem = mem and rbt = rbt, OF t g new 1(2)] by blast
  next
    case 2
    have "tree_grown ls N fn s (insert x N') (fn'(x := al @ full fn' v)) s2" by (rule tree_grown_insert [OF g 2(2,4-6) rd(5)])
    moreover have "x \<notin> N" using 2(2) g by (auto simp: tree_grown_def)
    ultimately have "addition mem ls rbt s fn N (ISC_R_SUCCESS, rbt2, s2, Some x)"
      using addition_success [OF 2(3) _ new, of s "Some x" mem rbt] rd(5) by simp
    then show ?thesis using 2(1) by blast
  qed
qed

lemma addnode_ok:
  assumes t: "tree_of hv rbt s lv nm fn N" and fresh: "fresh_blocks mem" and name: "name_repr name ls" "ends_root ls"
  shows "\<exists>r. dns_rbt_addnode fullhash mem rbt s name None = Some r \<and> addition mem ls rbt s fn N r"
proof -
  have f: "forest s (rt_root rbt) lv nm fn N" using t by (simp add: tree_of_def)
  have ne: "ls \<noteq> []" using name(2) by (auto simp: ends_root_def)
  note d = name_reprD [OF name(1)]
  obtain add where add: "dns_name_clone name fixedname = Some add" "work_name add ls" using clone_work [OF name(1) ne] by blast
  have pre: "dns_name_isabsolute name = Some True" "dns_name_countlabels name = Some (length ls)"
    using d name(2) labels_le_128 [OF d(2)] by (simp_all add: dns_name_isabsolute_def dns_name_countlabels_def absolute_attr_def)
  show ?thesis
  proof (cases "rt_root rbt")
    case None
    then show ?thesis by (rule addnode_first [OF t fresh name _ add pre])
  next
    case (Some root)
    have l: "rb_level s None (Some root) (lv None)" using forestD(1) [OF f, of None] Some by simp
    then have p: "ptr (lv None) = Some root" "lv None \<noteq> Lf" using tree_at_ptr by (fastforce simp: rb_level_def level_def)+
    obtain rn where rn: "s root = Some rn" "is_root rn" using l p by (cases "lv None") (auto simp: rb_level_def level_def split: option.splits)
    obtain r where lo: "addnode_loop fullhash mem name (length ls) rbt s add None None (Some root) 0 0 = Some r" "outcome mem hv ls N fn rbt s r"
      using loop_ok [OF t fresh name, of None "[]" "lv None" None ls add 0 0] p add(2) ne by (auto simp: path_ok_def)
    obtain result rbt1 s1 node place where r: "r = (result, rbt1, s1, node, place)" by (cases r)
    have ad: "dns_rbt_addnode fullhash mem rbt s name None =
        (case place of None \<Rightarrow> Some (result, rbt1, s1, node) | Some place \<Rightarrow> addnode_insert fullhash mem name place rbt1 s1)"
      using Some add(1) pre rn lo(1) by (simp add: dns_rbt_addnode_def r)
    consider (exists) "result = ISC_R_EXISTS" "rbt1 = rbt" "s1 = s" "place = None" "\<exists>a \<in> N. node = Some a \<and> lower (fn a) = lower ls"
      | (nomem) "\<forall>a \<in> N. lower (fn a) \<noteq> lower ls" "result = ISC_R_NOMEMORY" "rbt1 = rbt" "s1 = s" "place = None" "node = None" "\<exists>n. mem s n = None"
      | (added) lv' nm' fn' N' where "\<forall>a \<in> N. lower (fn a) \<noteq> lower ls" "result = ISC_R_SUCCESS" "tree_of hv rbt1 s1 lv' nm' fn' N'"
          "tree_grown ls N fn s N' fn' s1" "case place of None \<Rightarrow> \<exists>y \<in> N' - N. node = Some y \<and> lower (fn' y) = lower ls
            | Some pl \<Rightarrow> place_ready ls nm' fn' lv' N' s1 pl"
      using lo(2) unfolding outcome_def r prod.case by blast
    then show ?thesis
    proof cases
      case exists
      then show ?thesis using ad addition_exists [OF t exists(5)] by simp
    next
      case nomem
      then show ?thesis using ad addition_nomemory [where mem = mem and rbt = rbt, OF t tree_grown_refl nomem(1,7)] by simp
    next
      case added
      then show ?thesis using ad addition_success [OF added(3,4,1), of node mem rbt] addnode_place [where rbt = rbt, OF added(3,4) _ fresh name added(1)]
        by (cases place) auto
    qed
  qed
qed

end

section \<open>Names of the nodes of a tree\<close>

lemma tree_find_up:
  assumes "tree_at s f par p t" and "a \<in> set (inorder t)"
  shows "find_up s (Some a) = (if f then Some par else find_up s par)"
  using assms
proof (induction t arbitrary: f par p)
  case (Nd l b c r)
  then obtain n where n: "s b = Some n" "parent n = par" "is_root n = f"
    "tree_at s False (Some b) (left n) l" "tree_at s False (Some b) (right n) r" by (auto split: option.splits)
  have b: "find_up s (Some b) = (if f then Some par else find_up s par)"
    by (subst find_up.simps) (simp add: n(1-3))
  consider "a = b" | "a \<in> set (inorder l)" | "a \<in> set (inorder r)" using Nd.prems(2) by auto
  then show ?case using b Nd.IH n(4,5) by cases auto
qed simp

lemma forest_find_up:
  assumes "forest s root lv nm fn N" and "u \<in> levels N" and "a \<in> set (inorder (lv u))"
  shows "find_up s (Some a) = Some u"
  using tree_find_up [of s True u] forestD(1) [OF assms(1,2)] assms(3) by (auto simp: rb_level_def level_def)

lemma refresh_attributes: "refresh_offsets n = Some n' \<Longrightarrow> n_attributes n' = n_attributes n"
  by (auto simp: refresh_offsets_def set_offsets_def Let_def bind_eq_Some_conv split: if_splits)

lemma if_SomeE:
  assumes "(if c then x else y) = Some r"
  obtains c and "x = Some r" | "\<not> c" and "y = Some r"
  using assms by (cases c) auto

lemma close_attributes:
  "Some (close_target result n target b) = Some (r, n', t) \<Longrightarrow> result = r \<and> n_attributes n' = n_attributes n"
  by (auto simp: close_target_def split: if_splits)

lemma set_attributes: "n_attributes (n\<lparr>n_ndata := m, n_labels := k, n_length := len, n_attributes := a\<rparr>) = a"
  by simp

lemma flag_values: "(if c then a else b) = a \<or> (if c then a else b) = b"
  by simp

lemma some_attributes: "Some n = Some n' \<Longrightarrow> n_attributes n' = n_attributes n"
  by simp

lemma concatenate_bindable:
  assumes "dns_name_concatenate p q (Some n) t = Some (ISC_R_SUCCESS, n', t')"
  shows "BINDABLE n'"
proof -
  have "n_attributes n' = DNS_NAMEATTR_ABSOLUTE \<or> n_attributes n' = 0"
    by (insert assms [unfolded dns_name_concatenate_def Let_def], elim bind_SomeE if_SomeE; drule close_attributes; (drule refresh_attributes some_attributes)?)
      (simp_all only: isc_result.distinct flag_values set_attributes simp_thms)
  then show ?thesis by (auto simp: BINDABLE_def attr_defs)
qed

definition name_buffer :: "dns_name \<Rightarrow> u32 \<Rightarrow> bool" where
  "name_buffer name len \<longleftrightarrow> BINDABLE name \<and> (\<exists>b. n_buffer name = Some b \<and> buf_wf b \<and> b_length b = len)"

lemma open_own:
  assumes "name_buffer name len"
  shows "\<exists>b. open_target name None = Some b \<and> buf_wf b \<and> b_length b = len \<and> b_used b = 0"
  using assms by (auto simp: name_buffer_def open_target_def isc__buffer_clear_def buf_wf_def ISC_BUFFER_VALID_def)

lemma fullname_step:
  assumes "name_repr name xs" and "name_buffer name len" and "node_named n ys" and "\<not> ends_root xs" and "length (wire (xs @ ys)) \<le> DNS_NAME_MAXWIRE"
  shows "\<exists>name'. dns_name_concatenate (Some name) (Some (NODENAME n (dns_name_init None))) (Some name) None =
      Some (if length (wire (xs @ ys)) \<le> unat len then ISC_R_SUCCESS else ISC_R_NOSPACE, name', None) \<and>
    (if length (wire (xs @ ys)) \<le> unat len then name_repr name' (xs @ ys) \<and> name_buffer name' len else n_labels name' = 0)"
proof -
  obtain b where b: "open_target name None = Some b" "buf_wf b" "b_length b = len" "b_used b = 0" using open_own [OF assms(2)] by blast
  have nn: "NODENAME n (dns_name_init None) = NODENAME n (dns_name_init (Some []))" by (simp add: NODENAME_def dns_name_init_def DNS_NAME_INIT_def)
  have p: "repr_opt (Some name) xs" "repr_opt (Some (NODENAME n (dns_name_init None))) ys"
    using assms(1,3) by (simp_all add: repr_opt_def node_named_def nn)
  have rm: "buf_room b = unat len" using b(3,4) by (simp add: buf_room_def)
  have bi: "VALID_NAME name" "BINDABLE name" using assms(2) name_reprD(1) [OF assms(1)] by (simp_all add: name_buffer_def)
  note cr = concatenate_repr [OF p _ bi b(1,2)]
  show ?thesis
  proof (cases "length (wire (xs @ ys)) \<le> unat len")
    case True
    then obtain r where r: "dns_name_concatenate (Some name) (Some (NODENAME n (dns_name_init None))) (Some name) None = Some r" "copied r None b (xs @ ys)"
      using cr assms(4,5) rm by (auto split: if_splits)
    then obtain nm' b' where nm: "r = (ISC_R_SUCCESS, nm'\<lparr>n_buffer := Some b'\<rparr>, None)" "name_repr nm' (xs @ ys)" "buf_wf b'" "b_length b' = len"
      using b(3) by (auto simp: copied_def close_target_def)
    moreover from this have "BINDABLE (nm'\<lparr>n_buffer := Some b'\<rparr>)" using concatenate_bindable r(1) by metis
    moreover have "name_repr (nm'\<lparr>n_buffer := Some b'\<rparr>) (xs @ ys)" using nm(2) by (simp add: name_repr_def VALID_NAME_def absolute_attr_def del: wire_append append_assoc cong: conj_cong)
    ultimately show ?thesis using r True by (simp add: name_buffer_def)
  next
    case False
    then show ?thesis using cr assms(4,5) rm by (auto simp: close_target_def MAKE_EMPTY_def split: if_splits)
  qed
qed

lemma fullname_loop_ok:
  assumes f: "forest s root lv nm fn N" and "b \<in> N" and "name_repr name xs" and "name_buffer name len" and "\<not> ends_root xs"
    and "length (wire (xs @ fn b)) \<le> DNS_NAME_MAXWIRE"
  shows "\<exists>name'. fullname_loop s (Some b) name =
      Some (if length (wire (xs @ fn b)) \<le> unat len then ISC_R_SUCCESS else ISC_R_NOSPACE, name') \<and>
    (if length (wire (xs @ fn b)) \<le> unat len then name_repr name' (xs @ fn b) else n_labels name' = 0)"
  using assms(2-)
proof (induction "length (fn b)" arbitrary: b name xs rule: less_induct)
  case less
  obtain n where n: "s b = Some n" "node_named n (nm b)" using forest_node [OF f less.prems(1)] .
  obtain u where u: "u \<in> levels N" "b \<in> set (inorder (lv u))" using forest_level [OF f less.prems(1)] .
  have fb: "fn b = nm b @ full fn u" "nm b \<noteq> []" "ends_root (nm b) = (u = None)"
    using forestD(4) [OF f u] nm_nonempty [OF f less.prems(1)] nm_root [OF f u] by auto
  have up: "find_up s (Some b) = Some u" by (rule forest_find_up [OF f u])
  let ?l = "length (wire (xs @ nm b))"
  have l: "?l \<le> DNS_NAME_MAXWIRE" "?l \<le> length (wire (xs @ fn b))" using less.prems(5) fb(1) by auto
  obtain name1 where c: "dns_name_concatenate (Some name) (Some (NODENAME n (dns_name_init None))) (Some name) None =
      Some (if ?l \<le> unat len then ISC_R_SUCCESS else ISC_R_NOSPACE, name1, None)"
    "if ?l \<le> unat len then name_repr name1 (xs @ nm b) \<and> name_buffer name1 len else n_labels name1 = 0"
    using fullname_step [OF less.prems(2,3) n(2) less.prems(4) l(1)] by blast
  note step = fullname_loop.simps [of s "Some b" name]
  show ?case
  proof (cases "?l \<le> unat len")
    case False
    then show ?thesis using c n(1) l(2) by (subst step) auto
  next
    case True
    then have n1: "name_repr name1 (xs @ nm b)" "name_buffer name1 len" using c(2) by auto
    have ab: "dns_name_isabsolute name1 = Some (u = None)"
      using name_reprD(1,5) [OF n1(1)] fb(2,3) by (simp add: dns_name_isabsolute_def ends_root_append)
    have run: "fullname_loop s (Some b) name = (if u = None then Some (ISC_R_SUCCESS, name1) else fullname_loop s u name1)"
      using c(1) n(1) up ab True by (subst step) auto
    show ?thesis
    proof (cases u)
      case None
      then show ?thesis using run True n1(1) fb(1) by simp
    next
      case (Some p)
      have "\<not> ends_root (xs @ nm b)" using fb Some by (simp add: ends_root_append)
      moreover have "xs @ fn b = (xs @ nm b) @ fn p" "fullname_loop s (Some b) name = fullname_loop s (Some p) name1"
        using fb(1) run Some by simp_all
      ultimately show ?thesis using n1 fb less.prems(5) u(1) Some by (simp only:) (rule less.hyps, auto)
    qed
  qed
qed

lemma fullname_ok:
  assumes f: "forest s root lv nm fn N" and "a \<in> N" and "VALID_NAME name" and "name_buffer name len"
  shows "\<exists>name'. dns_rbt_fullnamefromnode s (Some a) name =
      Some (if length (wire (fn a)) \<le> unat len then ISC_R_SUCCESS else ISC_R_NOSPACE, name') \<and>
    (if length (wire (fn a)) \<le> unat len then name_repr name' (fn a) else n_labels name' = 0)"
proof -
  obtain b where b: "n_buffer name = Some b" "buf_wf b" "b_length b = len" "BINDABLE name" using assms(4) by (auto simp: name_buffer_def)
  let ?b = "b\<lparr>b_used := 0, b_current := 0, b_active := 0\<rparr>"
  have cl: "isc__buffer_clear b = Some ?b" using b(2) by (simp add: isc__buffer_clear_def buf_wf_def ISC_BUFFER_VALID_def)
  let ?n = "(MAKE_EMPTY name)\<lparr>n_buffer := Some ?b\<rparr>"
  have r: "dns_name_reset name = Some ?n"
    using assms(3) b cl by (simp add: dns_name_reset_def DNS_NAME_RESET_def MAKE_EMPTY_def)
  have "name_repr ?n []"
    using assms(3) by (simp add: name_repr_def MAKE_EMPTY_def VALID_NAME_def absolute_attr_def ends_root_def attr_absolute labels_ok_simps mem_read_def split: option.splits)
  moreover have "name_buffer ?n len"
    using b by (auto simp: name_buffer_def buf_wf_def MAKE_EMPTY_def BINDABLE_def attr_bindable ISC_BUFFER_VALID_def)
  moreover have "length (wire (fn a)) \<le> DNS_NAME_MAXWIRE" using forest_fn(1) [OF f assms(2)] by (simp add: labels_ok_def)
  moreover have "dns_rbt_fullnamefromnode s (Some a) name = fullname_loop s (Some a) ?n"
    using b(1) r by (simp add: dns_rbt_fullnamefromnode_def)
  ultimately show ?thesis using fullname_loop_ok [OF f assms(2), of ?n "[]" len] by (simp only: append_Nil) (simp add: ends_root_def)
qed

section \<open>What a tree stores\<close>

definition names_tree :: "(bytes list \<Rightarrow> u32) \<Rightarrow> dns_rbt \<Rightarrow> node_store \<Rightarrow> (nat \<Rightarrow> bytes list) \<Rightarrow> nat set \<Rightarrow> bool" where
  "names_tree hv rbt s fn N \<longleftrightarrow> (\<exists>lv nm. tree_of hv rbt s lv nm fn N)"

definition contents :: "node_store \<Rightarrow> (nat \<Rightarrow> bytes list) \<Rightarrow> nat set \<Rightarrow> (bytes list \<times> nat) set" where
  "contents s fn N = {(k, d). \<exists>a \<in> N. \<exists>n. lower (fn a) = k \<and> s a = Some n \<and> data n = Some d}"

lemma tree_node:
  assumes "names_tree hv rbt s fn N" and "a \<in> N"
  obtains n where "s a = Some n"
  using assms forest_node by (metis names_tree_def tree_of_def)

lemma tree_unique:
  assumes "names_tree hv rbt s fn N" and "a \<in> N" and "b \<in> N" and "lower (fn a) = lower (fn b)"
  shows "a = b"
  using assms fn_unique by (metis names_tree_def tree_of_def)

lemma contents_grown:
  assumes t: "names_tree hv rbt s fn N" and g: "tree_grown ls N fn s N' fn' s'"
  shows "contents s' fn' N' = contents s fn N"
proof -
  have old: "map_option data (s' a) = map_option data (s a)" "fn' a = fn a" if a: "a \<in> N" for a
  proof -
    obtain n where n: "s a = Some n" using tree_node [OF t a] .
    then obtain n' where "s' a = Some n'" "data n' = data n" using g a by (fastforce simp: tree_grown_def nodes_kept_def same_user_def)
    then show "map_option data (s' a) = map_option data (s a)" using n by simp
    show "fn' a = fn a" using g a by (simp add: tree_grown_def)
  qed
  have new: "\<exists>n. s' a = Some n \<and> data n = None" if "a \<in> N'" "a \<notin> N" for a using g that unfolding tree_grown_def by blast
  have sub: "N \<subseteq> N'" using g by (simp add: tree_grown_def)
  have d: "contents s fn N = {(k, d). \<exists>a \<in> N. lower (fn a) = k \<and> map_option data (s a) = Some (Some d)}" for s fn N
    by (auto simp: contents_def)
  have "(\<exists>a \<in> N'. lower (fn' a) = k \<and> map_option data (s' a) = Some (Some d)) =
      (\<exists>a \<in> N. lower (fn a) = k \<and> map_option data (s a) = Some (Some d))" for k d
  proof
    assume "\<exists>a \<in> N'. lower (fn' a) = k \<and> map_option data (s' a) = Some (Some d)"
    then obtain a where a: "a \<in> N'" "lower (fn' a) = k" "map_option data (s' a) = Some (Some d)" by blast
    then have "a \<in> N" using new by fastforce
    then show "\<exists>a \<in> N. lower (fn a) = k \<and> map_option data (s a) = Some (Some d)" using a old by metis
  qed (use old sub in \<open>metis subsetD\<close>)
  then show ?thesis by (simp add: d)
qed

lemma contents_set_data:
  assumes "y \<in> N" and "s y = Some n" and "data n = None"
  shows "contents (s(y \<mapsto> n\<lparr>data := nd\<rparr>)) fn N = contents s fn N \<union> {lower (fn y)} \<times> set_option nd"
  using assms by (force simp: contents_def)

lemma tree_set_data:
  assumes "tree_of hv rbt s lv nm fn N" and "s y = Some n"
  shows "tree_of hv rbt (s(y \<mapsto> n\<lparr>data := nd\<rparr>)) lv nm fn N"
proof -
  have t: "forest s (rt_root rbt) lv nm fn N" "hash_holds rbt s N" "finite N" "rt_nodecount rbt = of_nat (card N)"
    "\<forall>a \<in> N. \<forall>n. s a = Some n \<longrightarrow> hashval n = hv (lower (fn a))" using assms(1) by (simp_all add: tree_of_def)
  have "forest (s(y \<mapsto> n\<lparr>data := nd\<rparr>)) (rt_root rbt) lv nm fn N"
    by (rule forest_cong [OF t(1)]) (use assms(2) in \<open>auto simp: same_links_def same_name_def\<close>)
  moreover have "hash_holds rbt (s(y \<mapsto> n\<lparr>data := nd\<rparr>)) N"
    by (rule holds_cong [OF t(2)]) (use assms(2) in \<open>auto simp: same_hash_def\<close>)
  ultimately show ?thesis using t(3-5) assms(2) by (simp add: tree_of_def)
qed

context name_hashing
begin

definition addition_named :: "allocator \<Rightarrow> bytes list \<Rightarrow> nat option \<Rightarrow> dns_rbt \<Rightarrow> node_store \<Rightarrow> (nat \<Rightarrow> bytes list) \<Rightarrow> nat set \<Rightarrow>
    isc_result \<times> dns_rbt \<times> node_store \<Rightarrow> bool" where
  "addition_named mem ls ndata rbt s fn N r \<longleftrightarrow> (case r of (result, rbt', s') \<Rightarrow>
     \<exists>fn' N'. names_tree hv rbt' s' fn' N' \<and> N \<subseteq> N' \<and> (\<forall>a \<in> N. fn' a = fn a) \<and>
       (if \<exists>d. (lower ls, d) \<in> contents s fn N then result = ISC_R_EXISTS \<and> rbt' = rbt \<and> s' = s
        else result = ISC_R_NOMEMORY \<and> (\<exists>n. mem s' n = None) \<and> contents s' fn' N' = contents s fn N \<or>
          result = ISC_R_SUCCESS \<and> contents s' fn' N' = contents s fn N \<union> {lower ls} \<times> set_option ndata))"

lemma set_data_named:
  assumes t: "tree_of hv rbt s lv nm fn N" and t1: "tree_of hv rbt1 s1 lv' nm' fn' N'" and g: "tree_grown ls N fn s N' fn' s1"
    and y: "y \<in> N'" "s1 y = Some n" "data n = None" "lower (fn' y) = lower ls" and no: "\<nexists>d. (lower ls, d) \<in> contents s fn N"
  shows "addition_named mem ls ndata rbt s fn N (ISC_R_SUCCESS, rbt1, s1(y \<mapsto> n\<lparr>data := ndata\<rparr>))"
proof -
  have "contents s1 fn' N' = contents s fn N" using contents_grown [OF _ g] t by (auto simp: names_tree_def)
  then show ?thesis
    unfolding addition_named_def prod.case
    using tree_set_data [OF t1 y(2)] contents_set_data [where s = s1 and N = N' and fn = fn', OF y(1-3)] y(4) no g
    by (intro exI [of _ fn'] exI [of _ N']) (auto simp: names_tree_def tree_grown_def)
qed

lemma addname_ok:
  assumes t: "tree_of hv rbt s lv nm fn N" and fresh: "fresh_blocks mem" and name: "name_repr name ls" "ends_root ls"
  shows "\<exists>r. dns_rbt_addname fullhash mem rbt s name ndata = Some r \<and> addition_named mem ls ndata rbt s fn N r"
proof -
  have nt: "names_tree hv rbt s fn N" using t by (auto simp: names_tree_def)
  have abs: "dns_name_isabsolute name = Some True"
    using name_reprD [OF name(1)] name(2) by (simp add: dns_name_isabsolute_def)
  obtain result rbt1 s1 node lv' nm' fn' N' where a: "dns_rbt_addnode fullhash mem rbt s name None = Some (result, rbt1, s1, node)"
    and t1: "tree_of hv rbt1 s1 lv' nm' fn' N'" and g: "tree_grown ls N fn s N' fn' s1"
    and c: "if \<exists>a \<in> N. lower (fn a) = lower ls
       then result = ISC_R_EXISTS \<and> rbt1 = rbt \<and> s1 = s \<and> N' = N \<and> fn' = fn \<and> (\<exists>a \<in> N. node = Some a \<and> lower (fn a) = lower ls)
       else result = ISC_R_NOMEMORY \<and> node = None \<and> (\<exists>n. mem s1 n = None) \<or> result = ISC_R_SUCCESS \<and> (\<exists>y \<in> N' - N. node = Some y \<and> lower (fn' y) = lower ls)"
    using addnode_ok [OF t fresh name] unfolding addition_def by auto
  have t1': "names_tree hv rbt1 s1 fn' N'" using t1 by (auto simp: names_tree_def)
  consider (exists) y where "result = ISC_R_EXISTS" "rbt1 = rbt" "s1 = s" "node = Some y" "y \<in> N" "lower (fn y) = lower ls" "N' = N" "fn' = fn"
    | (none) "result = ISC_R_NOMEMORY" "\<forall>a \<in> N. lower (fn a) \<noteq> lower ls" "\<exists>n. mem s1 n = None"
    | (new) y where "result = ISC_R_SUCCESS" "node = Some y" "y \<in> N' - N" "lower (fn' y) = lower ls" "\<forall>a \<in> N. lower (fn a) \<noteq> lower ls"
    using c by (auto split: if_splits)
  then show ?thesis
  proof cases
    case exists
    obtain n where n: "s y = Some n" using tree_node [OF nt exists(5)] .
    show ?thesis
    proof (cases "data n")
      case (Some d)
      then have "(lower ls, d) \<in> contents s fn N" using n exists(5,6) by (auto simp: contents_def)
      then have "addition_named mem ls ndata rbt s fn N (ISC_R_EXISTS, rbt, s)" using nt by (auto simp: addition_named_def)
      then show ?thesis using a n Some exists abs by (auto simp: dns_rbt_addname_def)
    next
      case None
      have "\<nexists>d. (lower ls, d) \<in> contents s fn N"
        using tree_unique [OF nt exists(5)] exists(6) n None by (fastforce simp: contents_def)
      then have "addition_named mem ls ndata rbt s fn N (ISC_R_SUCCESS, rbt, s(y \<mapsto> n\<lparr>data := ndata\<rparr>))"
        by (intro set_data_named [OF t t tree_grown_refl exists(5) n None exists(6)])
      then show ?thesis using a n None exists abs by (auto simp: dns_rbt_addname_def node_set_def)
    qed
  next
    case none
    have "addition_named mem ls ndata rbt s fn N (ISC_R_NOMEMORY, rbt1, s1)"
      using none(2,3) t1' g contents_grown [OF nt g] by (auto simp: addition_named_def contents_def tree_grown_def)
    then show ?thesis using a none abs by (auto simp: dns_rbt_addname_def)
  next
    case new
    obtain n where n: "s1 y = Some n" "data n = None" using g new(3) unfolding tree_grown_def by blast
    have "\<nexists>d. (lower ls, d) \<in> contents s fn N" using new(5) by (auto simp: contents_def)
    then have "addition_named mem ls ndata rbt s fn N (ISC_R_SUCCESS, rbt1, s1(y \<mapsto> n\<lparr>data := ndata\<rparr>))"
      by (intro set_data_named [OF t t1 g _ n new(4)]) (use new(3) in auto)
    then show ?thesis using a n new abs by (auto simp: dns_rbt_addname_def node_set_def)
  qed
qed

end

section \<open>Hash functions of names\<close>

text \<open>The hash function of the tree, with a context that is initialised, and the one of \<open>dns_name_hash\<close>.\<close>

definition tree_hash :: "(nat \<Rightarrow> isc_result \<times> bytes) \<Rightarrow> (nat \<Rightarrow> u32) \<Rightarrow> isc_hash \<Rightarrow> dns_name \<Rightarrow> bool \<Rightarrow> u32 option" where
  "tree_hash getdata rand h name cs = map_option fst (dns_name_fullhash getdata rand (Some h) name cs)"

definition tree_hashval :: "isc_hash \<Rightarrow> bytes list \<Rightarrow> u32" where
  "tree_hashval h ls = of_nat (hash_value False (rnd_vector h) (wire ls))"

lemma hash_sum_prefix: "i + n \<le> length key \<Longrightarrow> hash_sum cs rv (key @ rest) i n p = hash_sum cs rv key i n p"
  by (induction n arbitrary: i p) (simp_all add: rd_def nth_append)

lemma hash_calc_prefix:
  "hash_ready h \<Longrightarrow> hash_calc getdata rand h (key @ rest) (length key) cs = hash_calc getdata rand h key (length key) cs"
  by (simp add: hash_calc_def hash_ready_def hash_sum_prefix)

lemma lower_lower: "lower (lower ls) = lower ls"
  by (simp add: lower_def comp_def)

lemma ready_hashing:
  assumes "hash_ready h" and "DNS_NAME_MAXWIRE \<le> unat (hc_limit h)"
  shows "name_hashing (tree_hash getdata rand h) (tree_hashval h)"
proof
  fix name ls assume r: "name_repr name ls" and ne: "ls \<noteq> []"
  note d = name_reprD [OF r]
  obtain rest where nd: "n_ndata name = wire ls @ rest" using name_repr_bytes [OF r] by blast
  have "map maptolower (wire ls) = wire (lower ls)" "map maptolower (wire (lower ls)) = wire (lower (lower ls))"
    using d(2) lower_wire [of ls] lower_wire [of "lower ls"] by (simp_all add: labels_ok_def lower_def)
  then have hv: "hash_value False (rnd_vector h) (wire (lower ls)) = hash_value False (rnd_vector h) (wire ls)"
    by (intro hash_value_fold) (simp add: lower_lower)
  have le: "length (wire ls) \<le> unat (hc_limit h)" using d(2) assms(2) by (simp add: labels_ok_def)
  have "hash_calc getdata rand h (wire ls) (length (wire ls)) False = Some (of_nat (hash_value False (rnd_vector h) (wire ls)), h)"
    using hash_calc_exact [OF assms(1) le] assms(1) le by (simp add: isc_hash_ctxcalc_def hash_ready_def)
  then show "tree_hash getdata rand h name False = Some (tree_hashval h (lower ls))"
    using d(1,3,4) ne nd hv le assms(1) hash_calc_prefix [OF assms(1), of getdata rand "wire ls" rest False]
    by (simp add: tree_hash_def tree_hashval_def dns_name_fullhash_def isc_hash_calc_def hash_ready_def)
qed

interpretation wire_hash: name_hashing dns_name_hash "\<lambda>ls. hash_bytes (take 16 (wire ls))"
  by unfold_locales (simp add: hash_repr)

lemma created_empty:
  assumes "dns_rbt_create mem rbt_mem s = (ISC_R_SUCCESS, Some rbt)"
  shows "names_tree hv rbt s fn {}"
proof -
  have r: "rt_root rbt = None" "rt_nodecount rbt = 0" "rt_hashsize rbt = 64" "rt_hashtable rbt = Some (replicate 64 None)"
    using assms by (auto simp: dns_rbt_create_def inithash_def RBT_HASH_SIZE_def Let_def split: if_splits)
  have "forest s None (\<lambda>_. Lf) nm fn {}" for nm by (simp add: forest_def rb_level_def level_def level_sorted_def levels_def)
  moreover have "hash_holds rbt s {}"
    unfolding hash_holds_def
    by (intro conjI exI [of _ "replicate 64 None"] exI [of _ "\<lambda>_. []"]) (use r in \<open>simp_all add: table_at_def\<close>)
  ultimately show ?thesis using r(1,2) by (auto simp: names_tree_def tree_of_def)
qed

section \<open>Properties\<close>

text \<open>C3: \<open>dns_rbt_addname\<close> refines an insertion into a table of names and data. On a tree of trees whose nodes have the full
  names \<open>fn\<close>, with the universal hash function, an absolute name and an allocator that returns unused blocks, the call returns,
  and the result is again such a tree, in which the old nodes keep their names. If the table has data for the name up to letter
  case, the result is \<open>ISC_R_EXISTS\<close> and nothing changes; otherwise the data is added to the table for this name alone and the
  result is \<open>ISC_R_SUCCESS\<close>, or the allocator has refused a block and the table is unchanged.\<close>

theorem addname_adds:
  assumes "hash_ready h" and "DNS_NAME_MAXWIRE \<le> unat (hc_limit h)" and "fresh_blocks mem"
    and "names_tree (tree_hashval h) rbt s fn N" and "name_repr name ls" and "ends_root ls"
  shows "\<exists>result rbt' s' fn' N'. dns_rbt_addname (tree_hash getdata rand h) mem rbt s name ndata = Some (result, rbt', s') \<and>
    names_tree (tree_hashval h) rbt' s' fn' N' \<and> N \<subseteq> N' \<and> (\<forall>a \<in> N. fn' a = fn a) \<and>
    (if \<exists>d. (lower ls, d) \<in> contents s fn N then result = ISC_R_EXISTS \<and> rbt' = rbt \<and> s' = s
     else result = ISC_R_NOMEMORY \<and> (\<exists>n. mem s' n = None) \<and> contents s' fn' N' = contents s fn N \<or>
       result = ISC_R_SUCCESS \<and> contents s' fn' N' = contents s fn N \<union> {lower ls} \<times> set_option ndata)"
proof -
  note hashing = ready_hashing [OF assms(1,2), of getdata rand]
  obtain lv nm where t: "tree_of (tree_hashval h) rbt s lv nm fn N" using assms(4) by (auto simp: names_tree_def)
  from name_hashing.addname_ok [OF hashing t assms(3,5,6)] show ?thesis
    unfolding name_hashing.addition_named_def [OF hashing] by fastforce
qed

definition sample_blocks :: allocator where
  "sample_blocks s n = find (\<lambda>a. s a = None) [1, 2, 3]"

lemma sample_blocks_fresh: "fresh_blocks sample_blocks"
  by (auto simp: fresh_blocks_def sample_blocks_def find_Some_iff)

definition sample_tree :: dns_rbt where
  "sample_tree = \<lparr>rt_root = None, rt_nodecount = 0, rt_hashsize = 64, rt_hashtable = Some (replicate 64 None)\<rparr>"

abbreviation sample_ready :: isc_hash where
  "sample_ready \<equiv> sample_hash\<lparr>hc_initialized := True\<rparr>"

lemma sample_tree_empty: "names_tree hv sample_tree (\<lambda>_. None) fn {}"
  by (rule created_empty [of sample_blocks True])
    (simp add: dns_rbt_create_def inithash_def sample_tree_def sample_blocks_def RBT_HASH_SIZE_def Let_def)

lemma sample_is_ready: "hash_ready sample_ready" "DNS_NAME_MAXWIRE \<le> unat (hc_limit sample_ready)"
  by (simp_all add: hash_ready_def VALID_HASH_def sample_hash_def DNS_NAME_MAXWIRE_def)

lemma sample_addition:
  "map_option fst (dns_rbt_addname (tree_hash sample_entropy (\<lambda>_. 0) sample_ready) sample_blocks sample_tree (\<lambda>_. None)
     (sample_name [[0x41], []]) (Some 7)) = Some ISC_R_SUCCESS"
  by code_simp

theorem addname_adds_witness:
  "\<exists>rbt' s' fn' N'. dns_rbt_addname (tree_hash sample_entropy (\<lambda>_. 0) sample_ready) sample_blocks sample_tree (\<lambda>_. None)
      (sample_name [[0x41], []]) (Some 7) = Some (ISC_R_SUCCESS, rbt', s') \<and>
    names_tree (tree_hashval sample_ready) rbt' s' fn' N' \<and> contents s' fn' N' = {([[0x61], []], 7)}"
proof -
  have r: "name_repr (sample_name [[0x41], []]) [[0x41], []]" by (rule sample_name_repr) (simp add: labels_ok_def DNS_NAME_MAXWIRE_def)
  from addname_adds [OF sample_is_ready sample_blocks_fresh sample_tree_empty r,
      where getdata = sample_entropy and rand = "\<lambda>_. 0" and ndata = "Some 7"] sample_addition
  show ?thesis by (fastforce simp: ends_root_def contents_def maptolower_def)
qed

text \<open>C4: \<open>dns_rbt_addnode\<close> adds a name as a node. If the tree has a node with the full name up to letter case, it returns this
  node with \<open>ISC_R_EXISTS\<close> and changes nothing; otherwise it returns a new node with this full name, unless the allocator has
  refused a block. The result is again a tree of trees with its hash table and its count of nodes. The nodes that existed keep
  their names, data and reference counts; other new nodes, made where a node was divided, have no data and names that are
  suffixes of the name.\<close>

theorem addnode_adds:
  assumes "hash_ready h" and "DNS_NAME_MAXWIRE \<le> unat (hc_limit h)" and "fresh_blocks mem"
    and "names_tree (tree_hashval h) rbt s fn N" and "name_repr name ls" and "ends_root ls"
  shows "\<exists>result rbt' s' node fn' N'. dns_rbt_addnode (tree_hash getdata rand h) mem rbt s name None = Some (result, rbt', s', node) \<and>
    names_tree (tree_hashval h) rbt' s' fn' N' \<and> rt_nodecount rbt' = of_nat (card N') \<and> hash_holds rbt' s' N' \<and>
    N \<subseteq> N' \<and> (\<forall>a \<in> N. fn' a = fn a) \<and> nodes_kept N s s' \<and>
    (\<forall>a \<in> N' - N. (\<exists>n. s' a = Some n \<and> data n = None) \<and> (\<exists>X. lower ls = X @ lower (fn' a))) \<and>
    (if \<exists>a \<in> N. lower (fn a) = lower ls
     then result = ISC_R_EXISTS \<and> rbt' = rbt \<and> s' = s \<and> N' = N \<and> (\<exists>a \<in> N. node = Some a \<and> lower (fn a) = lower ls)
     else result = ISC_R_NOMEMORY \<and> node = None \<and> (\<exists>n. mem s' n = None) \<or>
       result = ISC_R_SUCCESS \<and> (\<exists>y \<in> N' - N. node = Some y \<and> lower (fn' y) = lower ls))"
proof -
  note hashing = ready_hashing [OF assms(1,2), of getdata rand]
  obtain lv nm where t: "tree_of (tree_hashval h) rbt s lv nm fn N" using assms(4) by (auto simp: names_tree_def)
  obtain result rbt' s' node lv' nm' fn' N' where a: "dns_rbt_addnode (tree_hash getdata rand h) mem rbt s name None = Some (result, rbt', s', node)"
    and t': "tree_of (tree_hashval h) rbt' s' lv' nm' fn' N'" and g: "tree_grown ls N fn s N' fn' s'"
    and c: "if \<exists>a \<in> N. lower (fn a) = lower ls
       then result = ISC_R_EXISTS \<and> rbt' = rbt \<and> s' = s \<and> N' = N \<and> fn' = fn \<and> (\<exists>a \<in> N. node = Some a \<and> lower (fn a) = lower ls)
       else result = ISC_R_NOMEMORY \<and> node = None \<and> (\<exists>n. mem s' n = None) \<or>
         result = ISC_R_SUCCESS \<and> (\<exists>y \<in> N' - N. node = Some y \<and> lower (fn' y) = lower ls)"
    using name_hashing.addnode_ok [OF hashing t assms(3,5,6)] unfolding name_hashing.addition_def [OF hashing] by auto
  have "names_tree (tree_hashval h) rbt' s' fn' N'" "rt_nodecount rbt' = of_nat (card N')" "hash_holds rbt' s' N'"
    using t' by (auto simp: names_tree_def tree_of_def)
  then show ?thesis using a c g unfolding tree_grown_def
    by (intro exI [of _ result] exI [of _ rbt'] exI [of _ s'] exI [of _ node] exI [of _ fn'] exI [of _ N']) (simp split: if_splits)
qed

lemma sample_node:
  "map_option (\<lambda>(result, rbt, s, node). (result, node)) (dns_rbt_addnode (tree_hash sample_entropy (\<lambda>_. 0) sample_ready) sample_blocks sample_tree
     (\<lambda>_. None) (sample_name [[0x41], []]) None) = Some (ISC_R_SUCCESS, Some 1)"
  by code_simp

theorem addnode_adds_witness:
  "\<exists>rbt' s' fn' N'. dns_rbt_addnode (tree_hash sample_entropy (\<lambda>_. 0) sample_ready) sample_blocks sample_tree (\<lambda>_. None)
      (sample_name [[0x41], []]) None = Some (ISC_R_SUCCESS, rbt', s', Some 1) \<and>
    names_tree (tree_hashval sample_ready) rbt' s' fn' N' \<and> 1 \<in> N' \<and> lower (fn' 1) = [[0x61], []]"
proof -
  have r: "name_repr (sample_name [[0x41], []]) [[0x41], []]" by (rule sample_name_repr) (simp add: labels_ok_def DNS_NAME_MAXWIRE_def)
  from addnode_adds [OF sample_is_ready sample_blocks_fresh sample_tree_empty r,
      where getdata = sample_entropy and rand = "\<lambda>_. 0"] sample_node
  show ?thesis by (fastforce simp: ends_root_def maptolower_def)
qed

text \<open>C39: In a tree of trees \<open>find_up\<close> leads out of the level, no two nodes have the same full name up to letter case, and
  \<open>dns_rbt_fullnamefromnode\<close> writes the full name of a node, label by label up the tree, into a name with its own buffer; it
  returns \<open>ISC_R_NOSPACE\<close> with an empty name exactly if the buffer is too short.\<close>

theorem fullname_of_node:
  assumes "names_tree hv rbt s fn N" and "a \<in> N" and "VALID_NAME name" and "BINDABLE name" and "n_buffer name = Some b" and "buf_wf b"
  shows "(\<exists>name'. dns_rbt_fullnamefromnode s (Some a) name =
      Some (if length (wire (fn a)) \<le> unat (b_length b) then ISC_R_SUCCESS else ISC_R_NOSPACE, name') \<and>
      (if length (wire (fn a)) \<le> unat (b_length b) then name_repr name' (fn a) else n_labels name' = 0)) \<and>
    ends_root (fn a) \<and> (\<forall>c \<in> N. lower (fn c) = lower (fn a) \<longrightarrow> c = a)"
proof -
  obtain lv nm where f: "forest s (rt_root rbt) lv nm fn N" using assms(1) by (auto simp: names_tree_def tree_of_def)
  have "name_buffer name (b_length b)" using assms(4-6) by (auto simp: name_buffer_def)
  from fullname_ok [OF f assms(2,3) this] show ?thesis
    using forest_fn(2) [OF f assms(2)] fn_unique [OF f _ assms(2)] by blast
qed

lemma sample_grown:
  obtains rbt s fn N where "names_tree (tree_hashval sample_ready) rbt s fn N" and "1 \<in> N" and "lower (fn 1) = [[0x61], []]"
    and "map_option (\<lambda>(result, rbt, s, node). s) (dns_rbt_addnode (tree_hash sample_entropy (\<lambda>_. 0) sample_ready) sample_blocks sample_tree
      (\<lambda>_. None) (sample_name [[0x41], []]) None) = Some s"
proof -
  note hashing = ready_hashing [OF sample_is_ready, of sample_entropy "\<lambda>_. 0"]
  have r: "name_repr (sample_name [[0x41], []]) [[0x41], []]" "ends_root [[0x41::u8], []]"
    by (simp_all add: sample_name_repr labels_ok_def DNS_NAME_MAXWIRE_def ends_root_def)
  obtain lv nm where "tree_of (tree_hashval sample_ready) sample_tree (\<lambda>_. None) lv nm (\<lambda>_. []) {}"
    using sample_tree_empty [of "tree_hashval sample_ready" "\<lambda>_. []"] by (auto simp: names_tree_def)
  from name_hashing.addnode_ok [OF hashing this sample_blocks_fresh r] sample_node show ?thesis
    unfolding name_hashing.addition_def [OF hashing] by (fastforce simp: names_tree_def maptolower_def intro: that)
qed

theorem fullname_of_node_witness:
  "\<exists>s name' ls. map_option (\<lambda>(result, rbt, s, node). s) (dns_rbt_addnode (tree_hash sample_entropy (\<lambda>_. 0) sample_ready) sample_blocks sample_tree
      (\<lambda>_. None) (sample_name [[0x41], []]) None) = Some s \<and>
    dns_rbt_fullnamefromnode s (Some 1) fixedname = Some (ISC_R_SUCCESS, name') \<and> name_repr name' ls \<and> lower ls = [[0x61], []]"
proof -
  let ?b = "isc__buffer_init (replicate 255 0) 255"
  obtain rbt s fn N where t: "names_tree (tree_hashval sample_ready) rbt s fn N" "1 \<in> N" "lower (fn 1) = [[0x61], []]"
    "map_option (\<lambda>(result, rbt, s, node). s) (dns_rbt_addnode (tree_hash sample_entropy (\<lambda>_. 0) sample_ready) sample_blocks sample_tree
      (\<lambda>_. None) (sample_name [[0x41], []]) None) = Some s" by (rule sample_grown)
  have b: "n_buffer fixedname = Some ?b" "buf_wf ?b" "b_length ?b = 255"
    by (simp_all add: dns_fixedname_def DNS_NAME_MAXWIRE_def isc__buffer_init_def ISC__BUFFER_INIT_def buf_wf_def ISC_BUFFER_VALID_def)
  have "length (wire (fn 1)) = 3" using arg_cong [OF t(3), of "\<lambda>x. length (wire x)"] by simp
  then show ?thesis using fullname_of_node [OF t(1,2) fixedname_work(1,2) b(1,2)] b(3) t(3,4) by auto
qed

end
