(* ===== verification/Spec2Isabelle.thy ===== *)
theory Spec2Isabelle
  imports Isc_Serial Isc_Buffer Isc_Heap Dns_Rbtdb Netmap_Packet Netmap_Ring Lwres_Client Isc_Text
    Dns_Compress Dns_Name_Parse Dns_Rbt_Delete Dns_Rbt_Add
begin

text \<open>
  A verification development for a DNS server: BIND 9.9.3 with a packet I/O path over netmap.

  \<^bold>\<open>The program.\<close> The name server \<open>bin/named\<close> and the tools in \<open>bin\<close> are built on libraries:
  \<open>lib/isc\<close> (buffers, heaps, text encodings, tasks, sockets), \<open>lib/dns\<close> (names, messages, databases,
  zones, the resolver) and \<open>lib/lwres\<close> (the client of the lightweight resolver daemon). The directory
  \<open>netmap\<close> holds the packet I/O of this server: queries are taken from the receive rings of a
  netmap device and replies are put on its transmit rings, with link, IP and UDP headers that the
  program builds itself; \<open>lib/isc/unix/socket.c\<close> calls it for netmap sockets.

  The parts interact as follows. A query taken from a ring leaves its hardware addresses, its
  server address and port in a table of routes under the id of the query; the reply takes them from
  there. Names in a message are read by \<open>dns_name_fromwire\<close> into buffers, compared and hashed by the
  databases and by the compression context, and written by \<open>dns_name_towire\<close>, which replaces a suffix
  that was written before by a pointer. The databases keep the headers of record sets in heaps,
  ordered by expiry or by the time of the next signing. Zones choose their next serial number with
  serial arithmetic. Clients of the lightweight resolver render requests into buffers, send them,
  and parse the responses.

  \<^bold>\<open>How code is modelled.\<close> A C function is an Isabelle function of the same name; a structure is a
  record. A function that can fail an assertion, access memory out of bounds or not return is a
  function into \<open>option\<close>, written in the option monad; \<open>None\<close> stands for such a run, so a theorem
  that states \<open>= Some r\<close> shows that the run returns and is within bounds. Result codes are values.
  Integers have their width (\<open>u8\<close>, \<open>u16\<close>, \<open>u32\<close>) wherever arithmetic can wrap
  around; indices into memory are natural numbers. A pointer into the memory of a buffer is an
  offset; a name that refers to bytes of another object holds the bytes. Memory is passed through
  explicitly where it is shared: the packet buffers of a ring, the store of record set headers, the
  memory of the target buffers. What the kernel, the allocator and the lexer answer is a parameter:
  a function or a list of answers. A loop that waits for packets consumes a list of answers of
  arbitrary length, and the statements that it returns say which answers suffice; no fuel is
  used otherwise, all other loops are recursive functions with termination proofs (for example,
  following compression pointers terminates because each pointer is below the one before).

  \<^bold>\<open>The theories.\<close>

  \<^item> \<open>Prelude\<close>: failure, memory reads and writes, byte orders, result codes, and the rewrite
    collections \<open>run_simps\<close> and \<open>mem_simps\<close>.
  \<^item> \<open>Wire_Channel\<close>: the locale \<open>wire_channel\<close>, the contract of a buffer that fields are written to
    and read from; it is interpreted by both buffer implementations.
  \<^item> \<open>Isc_Serial\<close> (\<open>lib/isc/serial.c\<close>, part of \<open>lib/dns/update.c\<close>): the comparisons are the orders of
    RFC 1982, and the next SOA serial is newer and never zero.
  \<^item> \<open>Isc_Buffer\<close> (\<open>lib/isc/buffer.c\<close>): every operation; sequences of operations refine a
    specification over the bytes in use, the free bytes and two positions, and touch no memory behind the buffer; guards
    are exact, fields round trip, compaction keeps the unread data.
  \<^item> \<open>Isc_Heap\<close> (\<open>lib/isc/heap.c\<close>): the array heap with its index callback. The locales \<open>heap_order\<close>,
    \<open>heap_indexed\<close> and \<open>heap_keyed\<close> state what a client has to provide.
  \<^item> \<open>Dns_Rbtdb\<close> (part of \<open>lib/dns/rbtdb.c\<close>): the heaps of headers of zones and caches interpret them;
    inserting, deleting and changing times keeps the order and the positions recorded in the headers.
  \<^item> \<open>Netmap_Packet\<close> (\<open>netmap/dns_util.c\<close>): checksums, headers and the table of routes, whose outstanding
    entries refine a finite map (locale \<open>route_store\<close>), while ids that are not outstanding may still be found; a reply has valid checksums and the addresses of the query
    swapped.
  \<^item> \<open>Netmap_Ring\<close> (\<open>netmap/nm_util.c\<close>, \<open>netmap/dns_util.c\<close>, part of \<open>lib/isc/unix/socket.c\<close>): rings, devices
    and the socket calls; receiving releases exactly the packets up to the first query.
  \<^item> \<open>Lwres_Buffer\<close>, \<open>Lwres_Packet\<close>, \<open>Lwres_Messages\<close> (\<open>lib/lwres/lwbuffer.c\<close>, \<open>lwpacket.c\<close>, \<open>lwres_*.c\<close>):
    every message round trips and every parser returns on every packet.
  \<^item> \<open>Lwres_Client\<close> (\<open>lib/lwres/context.c\<close>, \<open>lwresutil.c\<close>): the queries, over the locale \<open>lwres_exchange\<close> of
    a request with its response; an answer that arrives is returned, and nothing else is.
  \<^item> \<open>Isc_Codec\<close>, \<open>Isc_Base64\<close>, \<open>Isc_Hex\<close>, \<open>Isc_Base32\<close>, \<open>Isc_Text\<close> (\<open>lib/isc/base64.c\<close>, \<open>hex.c\<close>, \<open>base32.c\<close>):
    the encodings are instances of the locale \<open>text_codec\<close>; what is written is read back.
  \<^item> \<open>Dns_Name\<close> (\<open>lib/dns/name.c\<close>): names with their offset tables. \<open>name_repr name ls\<close> relates a
    structure to its list of labels; every operation is described by its effect on the labels.
  \<^item> \<open>Dns_Name_Order\<close> (\<open>lib/dns/name.c\<close>): comparison equals the canonical order on label lists, and
    hashing respects equality.
  \<^item> \<open>Dns_Name_Wire\<close> (\<open>lib/dns/name.c\<close>, \<open>compress.c\<close>): the state machine of \<open>dns_name_fromwire\<close> equals a
    reference decoder on every input, errors included, and returns on every input.
  \<^item> \<open>Dns_Name_Text\<close>, \<open>Dns_Name_Parse\<close> (\<open>lib/dns/name.c\<close>): names as text and as file names, the string functions
    and the filter of a thread. The state machine of \<open>dns_name_fromtext\<close> accepts or refuses every text and
    reads back what \<open>dns_name_totext\<close> writes; file names identify names.
  \<^item> \<open>Dns_Compress\<close> (\<open>lib/dns/compress.c\<close>, \<open>name.c\<close>): the compression table and \<open>dns_name_towire\<close>. Every
    name of a rendered message is read back from its place; rolling back undoes rendering.

  \<^item> \<open>Dns_Rbt\<close>, \<open>Dns_Rbt_Delete\<close> (part of \<open>lib/dns/rbt.c\<close>): one level of the red-black tree of trees, on a store of
    nodes with parent pointers. \<open>tree_at\<close> relates a pointer to a tree; rotations, insertion and deletion are
    shown on trees with a context, and keep the colours, the heights and the order of the nodes.

  \<^item> \<open>Isc_Hash\<close> (\<open>lib/isc/hash.c\<close>, \<open>random.c\<close>): the universal hash. Its values are exact for every context with a
    legal limit, and do not depend on letter case where the caller asks for that.

  \<^item> \<open>Dns_Rbt_Hash\<close>, \<open>Dns_Rbt_Tree\<close> (part of \<open>lib/dns/rbt.c\<close>): the hash table of nodes, and the tree of trees: its nodes
    with their names in the bytes behind them, \<open>dns_rbt_addnode\<close>, \<open>dns_rbt_addname\<close> and the full names of nodes. The
    allocator and the hash function are parameters.
  \<^item> \<open>Dns_Rbt_Forest\<close>, \<open>Dns_Rbt_Split\<close>, \<open>Dns_Rbt_Add\<close>: the tree of trees as levels with sorted last labels and full
    names, what a new node and a divided node change, and the loop of an addition. The loop ends because each round
    leaves fewer labels or a lower subtree; the chain of 254 levels is long enough for the 128 labels of a name.
    \<open>name_hashing\<close> is the interface to the hash function of names.

  \<^bold>\<open>Bounds.\<close> The round trip of compressed names holds for targets below 64 KB, because offsets are
  truncated to 16 bits; replies are built correctly up to 492 bytes of message, because of the
  checksum buffer on the stack; buffers are at most \<open>2 ^ 32 - 1\<close> bytes; the table of routes holds eight
  queries. Where the code fails beyond a bound or on a
  special case, a theorem says so: replies of more than 492 bytes, an address longer than its field, full
  transmit rings, a route that is looked up a second time, a signing time of zero, base 32 data with two trailing bytes, a query that is
  repeated after a stale response, text with bytes above 127 that is read in lower case, a file name
  for which three bytes are left, and a hash context for keys of 16 MB. A text buffer of 1024 bytes is enough for every name.

  \<^bold>\<open>Not modelled.\<close> Threads, locks, tasks, timers and system calls, except as answers that are given
  to the model; the server, the resolver and the tools, which are built from them; searches in
  the red-black tree with their chains, the removal of names from it, and the versions of the databases; messages, the record types (code that the build
  generates), master files and journals; DNSSEC (OpenSSL is not part of the repository);
  configuration; logging; the copies under \<open>hpbind\<close>, \<open>contrib\<close> and the Windows port. Next on the plan:
  finding and removing names in the tree of trees.
\<close>

end
